(* ===== verification/Prelude.thy ===== *)
theory Prelude
  imports Main "HOL-Library.Word" "HOL-Library.Monad_Syntax"
begin

unbundle bit_operations_syntax

text \<open>
  Shared vocabulary of the development.

  \<^item> The C integer types of \<^verbatim>\<open>src/src/arch/armv7/inc/types.h\<close> are words of their width.
  \<^item> An operation that may leave the object it accesses (an array index out of range, an
    undefined shift) or that may not return has an \<open>option\<close> result: \<open>None\<close> is
    "undefined or does not return", \<open>Some s\<close> is the state after the call.
  \<^item> A counted loop \<open>for (i = a; i < b; i++)\<close> is a \<open>fold\<close> over \<open>[a..<b]\<close>.
  \<^item> The locale \<open>field_store\<close> is the contract of every array of independent fields kept in
    device registers; its clients reason about sequences of configuration calls.
\<close>

section \<open>Types\<close>

type_synonym u8 = "8 word"
type_synonym u16 = "16 word"
type_synonym u32 = "32 word"

abbreviation TRUE :: u32 where "TRUE \<equiv> 1"
abbreviation FALSE :: u32 where "FALSE \<equiv> 0"

named_theorems regs "definitions and field equations of register-level operations"
named_theorems bitw "bit-level characterisations of masks and register fields"

lemmas [bitw] = bit_and_iff bit_or_iff bit_xor_iff bit_not_iff bit_push_bit_iff
  bit_drop_bit_eq bit_mask_iff bit_1_iff

lemma unat_bound: "unat (w :: u32) < 2 ^ 32"
  using unsigned_less [where ?'a = nat and w = w] by simp

lemma of_nat_unat: "of_nat (unat w) = (w :: u32)"
  by (simp add: word_unat_eq_iff unat_of_nat)

section \<open>Arrays of registers\<close>

text \<open>A write to an array element; outside the array the behaviour is undefined.\<close>

definition arr_upd :: "'a list \<Rightarrow> nat \<Rightarrow> 'a \<Rightarrow> 'a list option" where
  "arr_upd xs i v = (if i < length xs then Some (xs[i := v]) else None)"

definition arr_get :: "'a list \<Rightarrow> nat \<Rightarrow> 'a option" where
  "arr_get xs i = (if i < length xs then Some (xs ! i) else None)"

lemma arr_upd_in [simp]: "i < length xs \<Longrightarrow> arr_upd xs i v = Some (xs[i := v])"
  by (simp add: arr_upd_def)

lemma arr_upd_out [simp]: "length xs \<le> i \<Longrightarrow> arr_upd xs i v = None"
  by (simp add: arr_upd_def)

lemma arr_get_in [simp]: "i < length xs \<Longrightarrow> arr_get xs i = Some (xs ! i)"
  by (simp add: arr_get_def)

lemma arr_get_out [simp]: "length xs \<le> i \<Longrightarrow> arr_get xs i = None"
  by (simp add: arr_get_def)

lemma arr_upd_Some_iff: "arr_upd xs i v = Some ys \<longleftrightarrow> i < length xs \<and> ys = xs[i := v]"
  by (auto simp: arr_upd_def)

text \<open>The loop \<open>for (i = a; i < b; i++) xs[i] = v\<close>.\<close>

definition fill_regs :: "nat \<Rightarrow> nat \<Rightarrow> 'a \<Rightarrow> 'a list \<Rightarrow> 'a list" where
  "fill_regs a b v xs = fold (\<lambda>i ys. ys[i := v]) [a..<b] xs"

lemma length_fill_regs [simp]: "length (fill_regs a b v xs) = length xs"
proof -
  have "length (fold (\<lambda>i ys. ys[i := v]) is xs) = length xs" for "is"
    by (induction "is" arbitrary: xs) auto
  then show ?thesis by (simp add: fill_regs_def)
qed

lemma nth_fill_regs:
  "k < length xs \<Longrightarrow> fill_regs a b v xs ! k = (if a \<le> k \<and> k < b then v else xs ! k)"
proof -
  have "k < length xs \<Longrightarrow>
      fold (\<lambda>i ys. ys[i := v]) is xs ! k = (if k \<in> set is then v else xs ! k)" for "is"
    by (induction "is" arbitrary: xs) (auto simp: nth_list_update)
  then show "k < length xs \<Longrightarrow> ?thesis" by (simp add: fill_regs_def)
qed

section \<open>Single bits and four-bit fields of a 32-bit register\<close>

definition bit_at :: "u32 \<Rightarrow> u32" where
  "bit_at n = push_bit (unat n) 1"

lemma bit_bit_at [bitw]: "bit (bit_at n) k \<longleftrightarrow> unat n = k \<and> k < 32"
  by (auto simp: bit_at_def bit_exp_iff)

lemma bit_or_at [bitw]: "bit (w OR bit_at n) k \<longleftrightarrow> bit w k \<or> unat n = k \<and> k < 32"
  by (simp add: bitw)

lemma bit_andnot_at [bitw]: "k < 32 \<Longrightarrow> bit (w AND NOT (bit_at n)) k \<longleftrightarrow> bit w k \<and> unat n \<noteq> k"
  for w :: u32
  by (auto simp: bitw)

lemma word_0xF_mask: "(0xF :: u32) = mask 4"
  by (simp add: mask_eq_exp_minus_1)

lemma bit_0xF [bitw]: "bit (0xF :: u32) k \<longleftrightarrow> k < 4"
  by (auto simp: word_0xF_mask bit_mask_iff)

lemma bit_0xF_int [bitw]: "bit (0xF :: int) k \<longleftrightarrow> k < 4"
proof -
  have "(0xF :: int) = mask 4" by (simp add: mask_eq_exp_minus_1)
  then show ?thesis by (simp only: bit_mask_iff) simp
qed

text \<open>The four bits of \<open>w\<close> that start at position \<open>s\<close>.\<close>

definition nibble :: "u32 \<Rightarrow> nat \<Rightarrow> u32" where
  "nibble w s = drop_bit s w AND 0xF"

definition put_nibble :: "u32 \<Rightarrow> nat \<Rightarrow> u32 \<Rightarrow> u32" where
  "put_nibble w s v = (w AND NOT (push_bit s 0xF)) OR push_bit s (v AND 0xF)"

lemma nibble_put_same: "s \<le> 28 \<Longrightarrow> nibble (put_nibble w s v) s = v AND 0xF"
  by (rule bit_eqI) (auto simp: nibble_def put_nibble_def bitw)

lemma nibble_put_other:
  "s \<le> 28 \<Longrightarrow> t \<le> 28 \<Longrightarrow> s + 4 \<le> t \<or> t + 4 \<le> s \<Longrightarrow> nibble (put_nibble w s v) t = nibble w t"
  by (rule bit_eqI) (auto simp: nibble_def put_nibble_def bitw)

lemma put_nibble_restore: "s \<le> 28 \<Longrightarrow> put_nibble (put_nibble w s v) s (nibble w s) = w"
  by (rule bit_eqI) (auto simp: nibble_def put_nibble_def bitw)

text \<open>Reading a flag out of a register that other flags were merged into.\<close>

lemma and_or_select: "m AND b = b \<Longrightarrow> k AND b = 0 \<Longrightarrow> ((w OR k) AND m) AND b = w AND b"
  for w k m b :: "'a::len word"
  by (simp add: and.assoc bit.conj_disj_distrib2)

lemma or_and_absorb: "k AND b = b \<Longrightarrow> (w OR k) AND b = b" for w k b :: "'a::len word"
proof -
  assume "k AND b = b"
  then have "(w OR k) AND b = (w AND b) OR b" by (simp add: bit.conj_disj_distrib2)
  then show ?thesis by (simp add: or.commute)
qed

section \<open>The contract of a store of independent fields\<close>

text \<open>
  \<open>put i v s\<close> writes field \<open>i\<close> of the store (it is undefined for an index that is not \<open>valid\<close>),
  \<open>get s i\<close> reads it and \<open>norm v\<close> is the part of \<open>v\<close> the field keeps.
\<close>

locale field_store =
  fixes wf :: "'s \<Rightarrow> bool"
    and valid :: "'i \<Rightarrow> bool"
    and get :: "'s \<Rightarrow> 'i \<Rightarrow> 'v"
    and put :: "'i \<Rightarrow> 'v \<Rightarrow> 's \<Rightarrow> 's option"
    and norm :: "'v \<Rightarrow> 'v"
  assumes put_defined: "wf s \<Longrightarrow> valid i \<Longrightarrow> \<exists>s'. put i v s = Some s'"
    and put_invalid: "wf s \<Longrightarrow> \<not> valid i \<Longrightarrow> put i v s = None"
    and put_wf: "wf s \<Longrightarrow> put i v s = Some s' \<Longrightarrow> wf s'"
    and get_put: "wf s \<Longrightarrow> put i v s = Some s' \<Longrightarrow> valid j \<Longrightarrow>
      get s' j = (if j = i then norm v else get s j)"
begin

text \<open>A configuration is a sequence of such writes; it stops at the first undefined one.\<close>

fun put_all :: "('i \<times> 'v) list \<Rightarrow> 's \<Rightarrow> 's option" where
  "put_all [] s = Some s"
| "put_all ((i, v) # cfg) s = Option.bind (put i v s) (put_all cfg)"

lemma put_valid: "wf s \<Longrightarrow> put i v s = Some s' \<Longrightarrow> valid i"
  using put_invalid by fastforce

lemma put_all_defined:
  "wf s \<Longrightarrow> (\<And>i v. (i, v) \<in> set cfg \<Longrightarrow> valid i) \<Longrightarrow> \<exists>s'. put_all cfg s = Some s' \<and> wf s'"
proof (induction cfg arbitrary: s)
  case Nil
  then show ?case by simp
next
  case (Cons iv cfg)
  obtain i v where iv: "iv = (i, v)" by (cases iv)
  have "valid i" using Cons.prems(2) [of i v] iv by simp
  with Cons.prems(1) obtain s1 where s1: "put i v s = Some s1"
    using put_defined by blast
  with Cons.prems(1) have "wf s1" by (rule put_wf)
  moreover have "\<And>i v. (i, v) \<in> set cfg \<Longrightarrow> valid i"
    using Cons.prems(2) by auto
  ultimately show ?case using Cons.IH [of s1] s1 iv by simp
qed

text \<open>The last write to a field decides its value; a field not written keeps its value.\<close>

lemma get_put_all:
  "wf s \<Longrightarrow> put_all cfg s = Some s' \<Longrightarrow> valid j \<Longrightarrow>
    get s' j = (case map_of (rev cfg) j of None \<Rightarrow> get s j | Some v \<Rightarrow> norm v)"
proof (induction cfg arbitrary: s)
  case Nil
  then show ?case by simp
next
  case (Cons iv cfg)
  obtain i v where iv: "iv = (i, v)" by (cases iv)
  from Cons.prems(2) iv obtain s1 where s1: "put i v s = Some s1" and rest: "put_all cfg s1 = Some s'"
    by (auto split: Option.bind_splits)
  have "wf s1" using Cons.prems(1) s1 by (rule put_wf)
  from Cons.IH [OF this rest Cons.prems(3)] get_put [OF Cons.prems(1) s1 Cons.prems(3)]
  show ?case by (auto simp: iv map_add_def split: option.splits)
qed

end

section \<open>The contract of a bounded first-in first-out buffer\<close>

text \<open>
  \<open>put\<close> appends an element while fewer than \<open>cap\<close> are stored and drops it otherwise; \<open>get\<close> removes
  the oldest one, if any.
\<close>

locale fifo_buffer =
  fixes wf :: "'s \<Rightarrow> bool"
    and contents :: "'s \<Rightarrow> 'a list"
    and cap :: nat
    and put :: "'a \<Rightarrow> 's \<Rightarrow> 's"
    and get :: "'s \<Rightarrow> 'a option \<times> 's"
  assumes put_wf: "wf s \<Longrightarrow> wf (put x s)"
    and get_wf: "wf s \<Longrightarrow> wf (snd (get s))"
    and put_room: "wf s \<Longrightarrow> length (contents s) < cap \<Longrightarrow> contents (put x s) = contents s @ [x]"
    and put_full: "wf s \<Longrightarrow> \<not> length (contents s) < cap \<Longrightarrow> contents (put x s) = contents s"
    and get_first: "wf s \<Longrightarrow> contents s = x # xs \<Longrightarrow> fst (get s) = Some x \<and> contents (snd (get s)) = xs"
    and get_empty: "wf s \<Longrightarrow> contents s = [] \<Longrightarrow> fst (get s) = None \<and> contents (snd (get s)) = []"
begin

text \<open>Draining with \<open>n\<close> calls of \<open>get\<close>.\<close>

fun gets :: "nat \<Rightarrow> 's \<Rightarrow> 'a option list \<times> 's" where
  "gets 0 s = ([], s)"
| "gets (Suc n) s = (let (r, s) = get s; (rs, s) = gets n s in (r # rs, s))"

lemma puts_wf: "wf s \<Longrightarrow> wf (fold put xs s)"
  by (induction xs arbitrary: s) (simp_all add: put_wf)

lemma puts_contents:
  "wf s \<Longrightarrow> contents (fold put xs s) = contents s @ take (cap - length (contents s)) xs"
proof (induction xs arbitrary: s)
  case Nil
  then show ?case by simp
next
  case (Cons x xs)
  have IH: "contents (fold put xs (put x s)) = contents (put x s) @ take (cap - length (contents (put x s))) xs"
    using Cons.prems by (intro Cons.IH put_wf)
  show ?case
  proof (cases "length (contents s) < cap")
    case True
    then obtain k where k: "cap - length (contents s) = Suc k" by (metis Suc_diff_Suc)
    then have "cap - length (contents (put x s)) = k" using True Cons.prems by (simp add: put_room)
    with IH True Cons.prems k show ?thesis by (simp add: put_room)
  next
    case False
    then show ?thesis using IH Cons.prems by (simp add: put_full)
  qed
qed

lemma gets_contents:
  "wf s \<Longrightarrow> n \<le> length (contents s) \<Longrightarrow>
    fst (gets n s) = map Some (take n (contents s)) \<and> contents (snd (gets n s)) = drop n (contents s) \<and>
    wf (snd (gets n s))"
proof (induction n arbitrary: s)
  case 0
  then show ?case by simp
next
  case (Suc n)
  then obtain x xs where c: "contents s = x # xs" by (cases "contents s") auto
  from get_first [OF Suc.prems(1) c] Suc.IH [OF get_wf [OF Suc.prems(1)]] Suc.prems(2) c
  show ?case by (simp add: split_beta Let_def)
qed

end

end
