(* ===== verification/Gic.thy ===== *)
theory Gic
  imports Prelude
begin

unbundle bit_operations_syntax

text \<open>
  The interrupt controller driver, \<^verbatim>\<open>src/src/drivers/gic.c\<close> and \<^verbatim>\<open>inc/gic.h\<close>.

  The two register structures are records with the source's field names; a C array is a list
  whose length \<open>dist_wf\<close> fixes to the declared one (the reserved gaps are never accessed and
  left out). A register with read side effects is an input: \<open>ICCIAR c n\<close> is the value the
  hardware returns to the \<open>n\<close>-th acknowledge read and \<open>iar_reads\<close> counts the reads done;
  \<open>eoi_trace\<close> lists the values written to \<open>ICCEOIR\<close>, newest first.
\<close>

section \<open>Registers\<close>

datatype IntSecurity_TypeDef = Int_S | Int_NS

record Interrupt_Distributor =
  ICDDCR :: u32
  ICDICTR :: u32
  ICDIIDR :: u32
  ICDISRx :: "u32 list"
  ICDISERx :: "u32 list"
  ICDICERx :: "u32 list"
  ICDISPRx :: "u32 list"
  ICDICPRx :: "u32 list"
  ICDABRx :: "u32 list"
  ICDIPRx :: "u32 list"
  ICDIPTRx :: "u32 list"
  ICDICFRx :: "u32 list"
  PPI_STATUS :: u32
  SPI_STATUS :: "u32 list"
  ICDSGIR :: u32
  ICPIDR_4_7 :: "u32 list"
  ICPIDR_0_3 :: "u32 list"
  ICCIDRx :: "u32 list"

record Cpu_Interface =
  ICCICR :: u32
  ICCPMR :: u32
  ICCBPR :: u32
  ICCIAR :: "nat \<Rightarrow> u32"
  ICCEOIR :: u32
  ICCRPR :: u32
  ICCHPIR :: u32
  ICCABPR :: u32
  ICCIDR :: u32
  iar_reads :: nat
  eoi_trace :: "u32 list"

abbreviation NO_OF_INTERRUPTS_IMPLEMENTED :: nat where "NO_OF_INTERRUPTS_IMPLEMENTED \<equiv> 96"
abbreviation GIC_NUM_REGISTERS :: nat where "GIC_NUM_REGISTERS \<equiv> 3"
abbreviation GIC_PRIORITY_REGISTERS :: nat where "GIC_PRIORITY_REGISTERS \<equiv> 24"
abbreviation GIC_TARGET_REGISTERS :: nat where "GIC_TARGET_REGISTERS \<equiv> 24"
abbreviation GIC_CONFIG_REGISTERS :: nat where "GIC_CONFIG_REGISTERS \<equiv> 6"
abbreviation GIC_ACK_INTID_MASK :: u32 where "GIC_ACK_INTID_MASK \<equiv> 0x3FF"
abbreviation FAKE_INTERRUPT :: u32 where "FAKE_INTERRUPT \<equiv> 1023"

definition dist_wf :: "Interrupt_Distributor \<Rightarrow> bool" where
  "dist_wf d \<longleftrightarrow>
     length (ICDISRx d) = GIC_NUM_REGISTERS \<and> length (ICDISERx d) = GIC_NUM_REGISTERS \<and>
     length (ICDICERx d) = GIC_NUM_REGISTERS \<and> length (ICDISPRx d) = GIC_NUM_REGISTERS \<and>
     length (ICDICPRx d) = GIC_NUM_REGISTERS \<and> length (ICDABRx d) = GIC_NUM_REGISTERS \<and>
     length (ICDIPRx d) = GIC_PRIORITY_REGISTERS \<and> length (ICDIPTRx d) = GIC_TARGET_REGISTERS \<and>
     length (ICDICFRx d) = GIC_CONFIG_REGISTERS \<and> length (SPI_STATUS d) = 2 \<and>
     length (ICPIDR_4_7 d) = 4 \<and> length (ICPIDR_0_3 d) = 4 \<and> length (ICCIDRx d) = 4"

section \<open>Interrupt dispatch table\<close>

datatype tHandler = ttc_interrupt_clear_h | SPI_1_irq_handler_h

definition fiq_handlers :: "tHandler option list" where
  "fiq_handlers =
     replicate 42 None @
     [Some ttc_interrupt_clear_h, Some ttc_interrupt_clear_h, Some ttc_interrupt_clear_h] @
     replicate 24 None @
     [Some ttc_interrupt_clear_h, Some ttc_interrupt_clear_h, Some ttc_interrupt_clear_h] @
     replicate 9 None @ [Some SPI_1_irq_handler_h] @ replicate 14 None"

text \<open>
  \<open>fiq_handler\<close> indexes the table with the interrupt number as it stands and calls the
  entry, if any; \<open>call h i s\<close> is the effect of calling handler \<open>h\<close> with argument \<open>i\<close>.
\<close>

definition fiq_handler :: "(tHandler \<Rightarrow> u32 \<Rightarrow> 's \<Rightarrow> 's option) \<Rightarrow> u32 \<Rightarrow> 's \<Rightarrow> 's option" where
  "fiq_handler call interrupt s =
     do { h \<leftarrow> arr_get fiq_handlers (unat interrupt);
          (case h of None \<Rightarrow> Some s | Some f \<Rightarrow> call f interrupt s) }"

section \<open>Distributor\<close>

definition gic_id_ok :: "Interrupt_Distributor \<Rightarrow> bool" where
  "gic_id_ok d \<longleftrightarrow> \<not> (ICPIDR_0_3 d ! 0 \<noteq> 0x90 \<or> ICPIDR_0_3 d ! 1 \<noteq> 0xB3 \<or>
     ICPIDR_0_3 d ! 2 \<noteq> 0x1B \<or> ICPIDR_0_3 d ! 3 \<noteq> 0x00 \<or>
     ICPIDR_4_7 d ! 0 \<noteq> 0x04 \<or> ICPIDR_4_7 d ! 1 \<noteq> 0x00 \<or>
     ICPIDR_4_7 d ! 2 \<noteq> 0x00 \<or> ICPIDR_4_7 d ! 3 \<noteq> 0x00 \<or>
     ICCIDRx d ! 0 \<noteq> 0x0D \<or> ICCIDRx d ! 1 \<noteq> 0xF0 \<or>
     ICCIDRx d ! 2 \<noteq> 0x05 \<or> ICCIDRx d ! 3 \<noteq> 0xB1)"

definition interrupt_distributor_init ::
    "Interrupt_Distributor \<Rightarrow> u32 \<times> Interrupt_Distributor" where
  "interrupt_distributor_init d =
     (if \<not> gic_id_ok d then (FALSE, d)
      else
        let d = d\<lparr>ICDDCR := 0x00000000\<rparr>;
            d = d\<lparr>ICDICERx := fill_regs 0 GIC_NUM_REGISTERS 0xFFFFFFFF (ICDICERx d)\<rparr>;
            d = d\<lparr>ICDICPRx := fill_regs 1 GIC_NUM_REGISTERS 0xFFFFFFFF (ICDICPRx d)\<rparr>;
            d = d\<lparr>ICDIPRx := fill_regs 8 GIC_PRIORITY_REGISTERS 0x00000000 (ICDIPRx d)\<rparr>;
            d = d\<lparr>ICDIPTRx := fill_regs 0 GIC_TARGET_REGISTERS 0x00000000 (ICDIPTRx d)\<rparr>;
            d = d\<lparr>ICDICFRx := fill_regs 2 ((NO_OF_INTERRUPTS_IMPLEMENTED - 32) div 16)
                               0x55555555 (ICDICFRx d)\<rparr>;
            d = d\<lparr>ICDDCR := 0x00000001\<rparr>;
            d = d\<lparr>ICDDCR := ICDDCR d OR 0x00000002\<rparr>
        in (TRUE, d))"

definition interrupt_enable ::
    "u32 \<Rightarrow> u32 \<Rightarrow> Interrupt_Distributor \<Rightarrow> Interrupt_Distributor option" where
  "interrupt_enable interrupt enable d =
     (let word = interrupt div 32;
          interrupt = interrupt mod 32;
          interrupt = bit_at interrupt
      in if enable \<noteq> 0
         then map_option (\<lambda>r. d\<lparr>ICDISERx := r\<rparr>) (arr_upd (ICDISERx d) (unat word) interrupt)
         else map_option (\<lambda>r. d\<lparr>ICDICERx := r\<rparr>) (arr_upd (ICDICERx d) (unat word) interrupt))"

definition interrupt_priority_set ::
    "u32 \<Rightarrow> u32 \<Rightarrow> Interrupt_Distributor \<Rightarrow> (u32 \<times> Interrupt_Distributor) option" where
  "interrupt_priority_set interrupt priority d =
     (let priority = priority AND 0xF;
          word = interrupt div 4;
          bit_shift = unat ((interrupt mod 4) * 8 + 4)
      in do { old_priority \<leftarrow> arr_get (ICDIPRx d) (unat word);
              let temp = old_priority AND NOT (push_bit bit_shift 0xF);
              let temp = temp OR push_bit bit_shift priority;
              r \<leftarrow> arr_upd (ICDIPRx d) (unat word) temp;
              Some (drop_bit bit_shift old_priority AND 0xF, d\<lparr>ICDIPRx := r\<rparr>) })"

text \<open>The shift \<open>1 << cpu\<close> is undefined from 32 on.\<close>

definition interrupt_target_set ::
    "u32 \<Rightarrow> u32 \<Rightarrow> u32 \<Rightarrow> Interrupt_Distributor \<Rightarrow> Interrupt_Distributor option" where
  "interrupt_target_set interrupt cpu setv d =
     (let word = interrupt div 4;
          bit_shift = unat ((interrupt mod 4) * 8)
      in if 32 \<le> cpu then None
         else do { let cpu = push_bit bit_shift (bit_at cpu);
                   temp \<leftarrow> arr_get (ICDIPTRx d) (unat word);
                   let temp = (if setv \<noteq> 0 then temp OR cpu else temp AND NOT cpu);
                   r \<leftarrow> arr_upd (ICDIPTRx d) (unat word) temp;
                   Some (d\<lparr>ICDIPTRx := r\<rparr>) })"

definition interrupt_security_configall :: "Interrupt_Distributor \<Rightarrow> Interrupt_Distributor" where
  "interrupt_security_configall d =
     d\<lparr>ICDISRx := fill_regs 1 GIC_NUM_REGISTERS 0xFFFFFFFF (ICDISRx d)\<rparr>"

definition interrupt_security_config ::
    "u32 \<Rightarrow> IntSecurity_TypeDef \<Rightarrow> Interrupt_Distributor \<Rightarrow> Interrupt_Distributor option" where
  "interrupt_security_config interrupt security d =
     (let word = interrupt div 32;
          interrupt = interrupt mod 32;
          interrupt = bit_at interrupt
      in do { temp \<leftarrow> arr_get (ICDISRx d) (unat word);
              let temp = (if security = Int_NS then temp OR interrupt else temp AND NOT interrupt);
              r \<leftarrow> arr_upd (ICDISRx d) (unat word) temp;
              Some (d\<lparr>ICDISRx := r\<rparr>) })"

definition interrupt_IPI_generate :: "u32 \<Rightarrow> u32 \<Rightarrow> Interrupt_Distributor \<Rightarrow> Interrupt_Distributor" where
  "interrupt_IPI_generate ipi target d = d\<lparr>ICDSGIR := push_bit 16 target OR ipi\<rparr>"

section \<open>CPU interface\<close>

definition read_ICCIAR :: "Cpu_Interface \<Rightarrow> u32 \<times> Cpu_Interface" where
  "read_ICCIAR c = (ICCIAR c (iar_reads c), c\<lparr>iar_reads := Suc (iar_reads c)\<rparr>)"

definition write_ICCEOIR :: "u32 \<Rightarrow> Cpu_Interface \<Rightarrow> Cpu_Interface" where
  "write_ICCEOIR v c = c\<lparr>ICCEOIR := v, eoi_trace := v # eoi_trace c\<rparr>"

text \<open>The acknowledge loop of \<open>interrupt_interface_init\<close>; \<open>None\<close> when it never ends.\<close>

partial_function (option) drain_pending :: "Cpu_Interface \<Rightarrow> Cpu_Interface option" where
  "drain_pending c =
     (let temp = fst (read_ICCIAR c); c = snd (read_ICCIAR c)
      in if temp AND GIC_ACK_INTID_MASK = FAKE_INTERRUPT then Some c
         else drain_pending (write_ICCEOIR temp c))"

definition interrupt_interface_init ::
    "Interrupt_Distributor \<times> Cpu_Interface \<Rightarrow> (u32 \<times> Interrupt_Distributor \<times> Cpu_Interface) option" where
  "interrupt_interface_init dc =
     (let d = fst dc; c = snd dc;
          d = d\<lparr>ICDICPRx := (ICDICPRx d)[0 := 0xFFFFFFFF]\<rparr>;
          d = d\<lparr>ICDIPRx := fill_regs 0 8 0x00000000 (ICDIPRx d)\<rparr>;
          d = d\<lparr>ICDICFRx := (ICDICFRx d)[0 := 0xAAAAAAAA]\<rparr>;
          d = d\<lparr>ICDICFRx := (ICDICFRx d)[1 := 0xAAAAAAAA]\<rparr>;
          c = c\<lparr>ICCICR := 0x00000000\<rparr>;
          c = c\<lparr>ICCPMR := 0x000000F0\<rparr>;
          c = c\<lparr>ICCBPR := 0x00000003\<rparr>
      in do { c \<leftarrow> drain_pending c;
              let c = c\<lparr>ICCICR := 0x00000009\<rparr>;
              let c = c\<lparr>ICCICR := ICCICR c OR 0x00000002\<rparr>;
              Some (TRUE, d, c) })"

definition interrupt_clear :: "u32 \<Rightarrow> u32 \<Rightarrow> Cpu_Interface \<Rightarrow> Cpu_Interface" where
  "interrupt_clear interrupt target c = write_ICCEOIR (push_bit 10 target OR interrupt) c"

definition interrupt_number_get :: "Cpu_Interface \<Rightarrow> u32 \<times> Cpu_Interface" where
  "interrupt_number_get c = read_ICCIAR c"

definition interrupt_critical_entry :: "Cpu_Interface \<Rightarrow> Cpu_Interface" where
  "interrupt_critical_entry c = c\<lparr>ICCPMR := 0x00\<rparr>"

definition interrupt_critical_exit :: "Cpu_Interface \<Rightarrow> Cpu_Interface" where
  "interrupt_critical_exit c = c\<lparr>ICCPMR := 0xF0\<rparr>"

section \<open>Views of the distributor\<close>

text \<open>What the registers say about one interrupt.\<close>

definition is_ns :: "Interrupt_Distributor \<Rightarrow> u32 \<Rightarrow> bool" where
  "is_ns d i = bit (ICDISRx d ! (unat i div 32)) (unat i mod 32)"

definition priority_of :: "Interrupt_Distributor \<Rightarrow> u32 \<Rightarrow> u32" where
  "priority_of d i = nibble (ICDIPRx d ! (unat i div 4)) ((unat i mod 4) * 8 + 4)"

definition targets :: "Interrupt_Distributor \<Rightarrow> u32 \<times> u32 \<Rightarrow> bool" where
  "targets d ic = bit (ICDIPTRx d ! (unat (fst ic) div 4)) ((unat (fst ic) mod 4) * 8 + unat (snd ic))"

abbreviation implemented :: "u32 \<Rightarrow> bool" where "implemented i \<equiv> i < 96"

lemma unat_lt_96: "i < (96 :: u32) \<longleftrightarrow> unat i < 96"
  by (simp add: word_less_nat_alt)

lemma unat_div_mod [simp]:
  "unat (i div 32) = unat i div 32" "unat (i mod 32) = unat i mod 32"
  "unat (i div 4) = unat i div 4" for i :: u32
  by (simp_all add: unat_div unat_mod)

lemma unat_shift4 [simp]: "unat ((i mod 4) * 8) = (unat i mod 4) * 8" for i :: u32
proof -
  have "unat (i mod 4) = unat i mod 4" by (simp add: unat_mod)
  moreover have "unat i mod 4 < 4" by simp
  ultimately show ?thesis by (simp add: unat_mult_lem [THEN iffD1])
qed

lemma unat_shift8 [simp]: "unat ((i mod 4) * 8 + 4) = (unat i mod 4) * 8 + 4" for i :: u32
proof -
  have "unat ((i mod 4) * 8) + unat (4 :: u32) < 2 ^ 32"
    using mod_less_divisor [of 4 "unat i"] by simp
  then have "unat ((i mod 4) * 8 + 4) = unat ((i mod 4) * 8) + unat (4 :: u32)"
    by (simp add: unat_add_lem [THEN iffD1])
  then show ?thesis by simp
qed

lemma div_mod_eq: "i div k = j div k \<Longrightarrow> i mod k = j mod k \<Longrightarrow> i = j" for i j k :: nat
  by (metis div_mult_mod_eq)

lemma same_word_bit:
  "unat i div 32 = unat j div 32 \<Longrightarrow> unat i mod 32 = unat j mod 32 \<longleftrightarrow> i = j" for i j :: u32
  using div_mod_eq word_unat_eq_iff by blast

section \<open>Correctness of the distributor operations\<close>

lemma security_config_eq:
  "dist_wf d \<Longrightarrow> implemented i \<Longrightarrow>
    interrupt_security_config i sec d = Some (d\<lparr>ICDISRx := (ICDISRx d)[unat i div 32 :=
      (if sec = Int_NS then ICDISRx d ! (unat i div 32) OR bit_at (i mod 32)
       else ICDISRx d ! (unat i div 32) AND NOT (bit_at (i mod 32)))]\<rparr>)"
  by (simp add: interrupt_security_config_def dist_wf_def unat_lt_96 Let_def)

lemma security_config_out:
  "dist_wf d \<Longrightarrow> \<not> implemented i \<Longrightarrow> interrupt_security_config i sec d = None"
  by (simp add: interrupt_security_config_def dist_wf_def unat_lt_96 Let_def)

lemma security_config_implemented:
  "dist_wf d \<Longrightarrow> interrupt_security_config i sec d = Some d' \<Longrightarrow> implemented i"
  by (rule ccontr) (simp add: security_config_out)

lemma is_ns_security_config:
  assumes "dist_wf d" "interrupt_security_config i sec d = Some d'" "implemented j"
  shows "is_ns d' j = (if j = i then sec = Int_NS else is_ns d j)"
proof -
  have i: "implemented i" using assms(1,2) by (rule security_config_implemented)
  have len: "length (ICDISRx d) = 3" using assms(1) by (simp add: dist_wf_def)
  have d': "d' = d\<lparr>ICDISRx := (ICDISRx d)[unat i div 32 :=
      (if sec = Int_NS then ICDISRx d ! (unat i div 32) OR bit_at (i mod 32)
       else ICDISRx d ! (unat i div 32) AND NOT (bit_at (i mod 32)))]\<rparr>"
    using assms(2) security_config_eq [OF assms(1) i] by simp
  have bnd: "unat i < 96" "unat j < 96" using i assms(3) by (simp_all add: unat_lt_96)
  show ?thesis
  proof (cases "j = i")
    case True
    then show ?thesis using bnd len by (simp add: d' is_ns_def bit_or_at bit_andnot_at)
  next
    case False
    then have "unat i div 32 = unat j div 32 \<Longrightarrow> unat i mod 32 \<noteq> unat j mod 32"
      using same_word_bit by blast
    with False bnd len show ?thesis
      by (cases "unat i div 32 = unat j div 32") (simp_all add: d' is_ns_def bit_or_at bit_andnot_at)
  qed
qed

interpretation sec: field_store dist_wf implemented is_ns
  "\<lambda>i ns. interrupt_security_config i (if ns then Int_NS else Int_S)" "\<lambda>b. b"
proof (unfold_locales, goal_cases)
  case (1 s i v)
  then show ?case by (simp add: security_config_eq)
next
  case (2 s i v)
  then show ?case by (simp add: security_config_out)
next
  case (3 s i v s')
  then have "implemented i" by (blast intro: security_config_implemented)
  with 3 show ?case by (auto simp: security_config_eq dist_wf_def)
next
  case (4 s i v s' j)
  then show ?case by (auto simp: is_ns_security_config)
qed

lemma priority_set_eq:
  "dist_wf d \<Longrightarrow> implemented i \<Longrightarrow>
    interrupt_priority_set i p d = Some (priority_of d i,
      d\<lparr>ICDIPRx := (ICDIPRx d)[unat i div 4 :=
        put_nibble (ICDIPRx d ! (unat i div 4)) ((unat i mod 4) * 8 + 4) p]\<rparr>)"
  by (simp add: interrupt_priority_set_def dist_wf_def unat_lt_96 Let_def priority_of_def
      nibble_def put_nibble_def)

lemma priority_set_out:
  "dist_wf d \<Longrightarrow> \<not> implemented i \<Longrightarrow> interrupt_priority_set i p d = None"
  by (simp add: interrupt_priority_set_def dist_wf_def unat_lt_96 Let_def)

lemma priority_set_implemented:
  "dist_wf d \<Longrightarrow> interrupt_priority_set i p d = Some r \<Longrightarrow> implemented i"
  by (rule ccontr) (simp add: priority_set_out)

lemma priority_shift_bound [simp]: "(n :: nat) mod 4 * 8 + 4 \<le> 28"
  using mod_less_divisor [of 4 n] by simp

lemma priority_shift_apart:
  "(n :: nat) mod 4 \<noteq> m mod 4 \<Longrightarrow>
    (n mod 4 * 8 + 4) + 4 \<le> m mod 4 * 8 + 4 \<or> (m mod 4 * 8 + 4) + 4 \<le> n mod 4 * 8 + 4"
  by arith

lemma priority_of_set:
  assumes "dist_wf d" "interrupt_priority_set i p d = Some (old, d')" "implemented j"
  shows "priority_of d' j = (if j = i then p AND 0xF else priority_of d j)"
proof -
  have i: "implemented i" using assms(1,2) by (rule priority_set_implemented)
  have len: "length (ICDIPRx d) = 24" using assms(1) by (simp add: dist_wf_def)
  have d': "d' = d\<lparr>ICDIPRx := (ICDIPRx d)[unat i div 4 :=
        put_nibble (ICDIPRx d ! (unat i div 4)) ((unat i mod 4) * 8 + 4) p]\<rparr>"
    using assms(2) priority_set_eq [OF assms(1) i] by simp
  have bnd: "unat i < 96" "unat j < 96" using i assms(3) by (simp_all add: unat_lt_96)
  have inj: "unat i div 4 = unat j div 4 \<Longrightarrow> unat i mod 4 = unat j mod 4 \<longleftrightarrow> i = j"
    using div_mod_eq word_unat_eq_iff by blast
  show ?thesis
  proof (cases "j = i")
    case True
    then show ?thesis using bnd len by (simp add: d' priority_of_def nibble_put_same)
  next
    case False
    then show ?thesis
      using bnd len inj nibble_put_other priority_shift_apart [of "unat i" "unat j"]
      by (cases "unat i div 4 = unat j div 4") (simp_all add: d' priority_of_def)
  qed
qed

interpretation prio: field_store dist_wf implemented priority_of
  "\<lambda>i p d. map_option snd (interrupt_priority_set i p d)" "\<lambda>p. p AND 0xF"
proof (unfold_locales, goal_cases)
  case (1 s i v)
  then show ?case by (simp add: priority_set_eq)
next
  case (2 s i v)
  then show ?case by (simp add: priority_set_out)
next
  case (3 s i v s')
  then have "implemented i" by (auto intro: priority_set_implemented)
  with 3 show ?case by (auto simp: priority_set_eq dist_wf_def)
next
  case (4 s i v s' j)
  then show ?case by (auto simp: priority_of_set)
qed

lemma target_set_eq:
  "dist_wf d \<Longrightarrow> implemented i \<Longrightarrow> cpu < 32 \<Longrightarrow>
    interrupt_target_set i cpu v d = Some (d\<lparr>ICDIPTRx := (ICDIPTRx d)[unat i div 4 :=
      (let c = push_bit ((unat i mod 4) * 8) (bit_at cpu); r = ICDIPTRx d ! (unat i div 4)
       in if v \<noteq> 0 then r OR c else r AND NOT c)]\<rparr>)"
  by (simp add: interrupt_target_set_def dist_wf_def unat_lt_96 Let_def not_le)

lemma target_set_out:
  "dist_wf d \<Longrightarrow> \<not> (implemented i \<and> cpu < 32) \<Longrightarrow> interrupt_target_set i cpu v d = None"
  by (auto simp: interrupt_target_set_def dist_wf_def unat_lt_96 Let_def not_less)

lemma target_set_implemented:
  "dist_wf d \<Longrightarrow> interrupt_target_set i cpu v d = Some d' \<Longrightarrow> implemented i"
  by (rule ccontr) (simp add: target_set_out)

lemma byte_lane:
  "y < 8 \<Longrightarrow> x < 8 \<Longrightarrow> (a * 8 \<le> b * 8 + y \<and> x = b * 8 + y - a * 8) \<longleftrightarrow> a = b \<and> x = y"
  for a b x y :: nat
  by (cases a b rule: linorder_cases) auto

lemma targets_set:
  assumes wf: "dist_wf d" and res: "interrupt_target_set i cpu v d = Some d'"
    and j: "implemented j" "c < 8" and cpu: "cpu < 8"
  shows "targets d' (j, c) = (if j = i \<and> c = cpu then v \<noteq> 0 else targets d (j, c))"
proof -
  have i: "implemented i" using wf res by (rule target_set_implemented)
  have len: "length (ICDIPTRx d) = 24" using wf by (simp add: dist_wf_def)
  have cpu32: "cpu < 32" using cpu by (simp add: word_less_nat_alt)
  have d': "d' = d\<lparr>ICDIPTRx := (ICDIPTRx d)[unat i div 4 :=
      (let m = push_bit ((unat i mod 4) * 8) (bit_at cpu); r = ICDIPTRx d ! (unat i div 4)
       in if v \<noteq> 0 then r OR m else r AND NOT m)]\<rparr>"
    using res target_set_eq [OF wf i cpu32] by simp
  have bnd: "unat i < 96" "unat j < 96" "unat c < 8" "unat cpu < 8"
    using i j cpu by (simp_all add: unat_lt_96 word_less_nat_alt)
  have pos: "unat j mod 4 * 8 + unat c < 32"
    using bnd(3) mod_less_divisor [of 4 "unat j"] by simp
  have hit: "(unat i mod 4 * 8 \<le> unat j mod 4 * 8 + unat c \<and>
        unat cpu = unat j mod 4 * 8 + unat c - unat i mod 4 * 8) \<longleftrightarrow>
      unat i mod 4 = unat j mod 4 \<and> unat cpu = unat c"
    using bnd(3,4) by (rule byte_lane)
  have inj: "unat i div 4 = unat j div 4 \<Longrightarrow> unat i mod 4 = unat j mod 4 \<longleftrightarrow> i = j"
    using div_mod_eq word_unat_eq_iff by blast
  have ceq: "unat cpu = unat c \<longleftrightarrow> c = cpu" using word_unat_eq_iff by metis
  show ?thesis
  proof (cases "j = i")
    case True
    with bnd len pos ceq show ?thesis by (auto simp: d' targets_def Let_def bitw)
  next
    case False
    then have "unat i div 4 = unat j div 4 \<Longrightarrow> unat i mod 4 \<noteq> unat j mod 4"
      using inj by blast
    with False bnd len pos hit show ?thesis
      by (cases "unat i div 4 = unat j div 4") (auto simp: d' targets_def Let_def bitw)
  qed
qed

section \<open>The acknowledge loop\<close>

lemma drain_pending_step:
  "drain_pending c =
     (if ICCIAR c (iar_reads c) AND 0x3FF = 1023 then Some (c\<lparr>iar_reads := Suc (iar_reads c)\<rparr>)
      else drain_pending (c\<lparr>iar_reads := Suc (iar_reads c), ICCEOIR := ICCIAR c (iar_reads c),
                            eoi_trace := ICCIAR c (iar_reads c) # eoi_trace c\<rparr>))"
  by (subst drain_pending.simps) (simp add: read_ICCIAR_def write_ICCEOIR_def Let_def)

text \<open>If read number \<open>iar_reads c + k\<close> is the first spurious one, the loop ends there and
  has written every identifier acknowledged before it back, in order.\<close>

lemma drain_pending_Some:
  assumes "ICCIAR c (iar_reads c + k) AND 0x3FF = 1023"
    and "\<And>m. m < k \<Longrightarrow> ICCIAR c (iar_reads c + m) AND 0x3FF \<noteq> 1023"
  shows "\<exists>c'. drain_pending c = Some c' \<and>
      eoi_trace c' = rev (map (ICCIAR c) [iar_reads c ..< iar_reads c + k]) @ eoi_trace c \<and>
      iar_reads c' = Suc (iar_reads c + k) \<and> ICCIAR c' = ICCIAR c \<and>
      ICCICR c' = ICCICR c \<and> ICCPMR c' = ICCPMR c \<and> ICCBPR c' = ICCBPR c"
  using assms
proof (induction k arbitrary: c)
  case 0
  then show ?case by (subst drain_pending_step) simp
next
  case (Suc k)
  let ?c = "c\<lparr>iar_reads := Suc (iar_reads c), ICCEOIR := ICCIAR c (iar_reads c),
               eoi_trace := ICCIAR c (iar_reads c) # eoi_trace c\<rparr>"
  have "drain_pending c = drain_pending ?c"
    using Suc.prems(2) [of 0] by (subst drain_pending_step) simp
  moreover have "ICCIAR ?c (iar_reads ?c + k) AND 0x3FF = 1023"
    using Suc.prems(1) by simp
  moreover have "ICCIAR ?c (iar_reads ?c + m) AND 0x3FF \<noteq> 1023" if "m < k" for m
    using Suc.prems(2) [of "Suc m"] that by simp
  ultimately show ?case
    using Suc.IH [of ?c] by (auto simp: upt_conv_Cons simp del: upt_Suc)
qed

lemma drain_pending_spurious:
  assumes ret: "drain_pending c = Some c'"
  shows "\<exists>k. ICCIAR c (iar_reads c + k) AND 0x3FF = 1023"
proof (rule drain_pending.raw_induct
    [where P = "\<lambda>c c'. \<exists>k. ICCIAR c (iar_reads c + k) AND 0x3FF = 1023", OF _ ret])
  fix f :: "Cpu_Interface \<Rightarrow> Cpu_Interface option" and c c'
  assume IH: "\<And>c c'. f c = Some c' \<Longrightarrow> \<exists>k. ICCIAR c (iar_reads c + k) AND 0x3FF = 1023"
    and eq: "(let temp = fst (read_ICCIAR c); c = snd (read_ICCIAR c)
      in if temp AND 0x3FF = 1023 then Some c else f (write_ICCEOIR temp c)) = Some c'"
  show "\<exists>k. ICCIAR c (iar_reads c + k) AND 0x3FF = 1023"
  proof (cases "ICCIAR c (iar_reads c) AND 0x3FF = 1023")
    case True
    then show ?thesis by (intro exI [of _ 0]) simp
  next
    case False
    with eq have "f (write_ICCEOIR (ICCIAR c (iar_reads c)) (c\<lparr>iar_reads := Suc (iar_reads c)\<rparr>)) = Some c'"
      by (simp add: read_ICCIAR_def Let_def)
    from IH [OF this] obtain k where "ICCIAR c (Suc (iar_reads c) + k) AND 0x3FF = 1023"
      by (auto simp: write_ICCEOIR_def)
    then show ?thesis by (intro exI [of _ "Suc k"]) simp
  qed
qed

section \<open>The dispatch table\<close>

lemma length_fiq_handlers [simp]: "length fiq_handlers = 96"
  by (simp add: fiq_handlers_def)

lemma nth_fiq_handlers:
  "n < 96 \<Longrightarrow> fiq_handlers ! n =
     (if n \<in> {42, 43, 44, 69, 70, 71} then Some ttc_interrupt_clear_h
      else if n = 81 then Some SPI_1_irq_handler_h else None)"
  by (auto simp: fiq_handlers_def nth_append nth_Cons')

section \<open>Properties\<close>

text \<open>A distributor after reset, for the witnesses: the identification the driver checks, all
  else zero.\<close>

definition reset_dist :: Interrupt_Distributor where
  "reset_dist = \<lparr>ICDDCR = 0, ICDICTR = 0, ICDIIDR = 0, ICDISRx = [0, 0, 0], ICDISERx = [0, 0, 0],
     ICDICERx = [0, 0, 0], ICDISPRx = [0, 0, 0], ICDICPRx = [0, 0, 0], ICDABRx = [0, 0, 0],
     ICDIPRx = replicate 24 0, ICDIPTRx = replicate 24 0, ICDICFRx = replicate 6 0,
     PPI_STATUS = 0, SPI_STATUS = [0, 0], ICDSGIR = 0, ICPIDR_4_7 = [4, 0, 0, 0],
     ICPIDR_0_3 = [0x90, 0xB3, 0x1B, 0], ICCIDRx = [0x0D, 0xF0, 5, 0xB1]\<rparr>"

lemma reset_dist_wf: "dist_wf reset_dist"
  by (simp add: dist_wf_def reset_dist_def)

text \<open>C11: setting the security state of an implemented interrupt always succeeds, changes the
  security bit of that interrupt to the requested state and of no other interrupt, and leaves
  every other register of the distributor alone.\<close>

theorem interrupt_security_config_correct:
  assumes "dist_wf d" and "i < 96"
  shows "\<exists>d'. interrupt_security_config i sec d = Some d' \<and> dist_wf d' \<and>
    (\<forall>j. j < 96 \<longrightarrow> is_ns d' j = (if j = i then sec = Int_NS else is_ns d j)) \<and>
    d' = d\<lparr>ICDISRx := ICDISRx d'\<rparr>"
proof -
  from security_config_eq [OF assms] obtain d' where
    d': "interrupt_security_config i sec d = Some d'" and frame: "d' = d\<lparr>ICDISRx := ICDISRx d'\<rparr>"
    by simp
  have "dist_wf d'"
    using sec.put_wf [OF assms(1), of i "sec = Int_NS" d'] d' by (cases sec) simp_all
  with d' frame is_ns_security_config [OF assms(1) d'] show ?thesis by blast
qed

theorem interrupt_security_config_witness:
  "\<exists>d'. interrupt_security_config 81 Int_NS reset_dist = Some d' \<and> is_ns d' 81 \<and> \<not> is_ns d' 80"
proof -
  have "(81 :: u32) < 96" "(80 :: u32) < 96" by simp_all
  moreover have "\<not> is_ns reset_dist 80" by (simp add: is_ns_def reset_dist_def)
  ultimately show ?thesis
    using interrupt_security_config_correct [OF reset_dist_wf, of 81 Int_NS] by auto
qed

text \<open>\<open>interrupt_priority_set\<close> stores the low four bits of the requested priority in the
  field of that interrupt only, returns the priority the interrupt had, and setting the returned
  priority back restores the distributor exactly.\<close>

lemma interrupt_priority_set_roundtrip:
  assumes "dist_wf d" and "i < 96"
  shows "\<exists>d'. interrupt_priority_set i p d = Some (priority_of d i, d') \<and> dist_wf d' \<and>
    (\<forall>j. j < 96 \<longrightarrow> priority_of d' j = (if j = i then p AND 0xF else priority_of d j)) \<and>
    interrupt_priority_set i (priority_of d i) d' = Some (p AND 0xF, d)"
proof -
  let ?s = "(unat i mod 4) * 8 + 4" and ?w = "unat i div 4"
  let ?d = "d\<lparr>ICDIPRx := (ICDIPRx d)[?w := put_nibble (ICDIPRx d ! ?w) ?s p]\<rparr>"
  have set: "interrupt_priority_set i p d = Some (priority_of d i, ?d)"
    by (rule priority_set_eq [OF assms])
  have wf: "dist_wf ?d" using assms(1) by (simp add: dist_wf_def)
  have len: "?w < length (ICDIPRx d)" using assms by (simp add: dist_wf_def unat_lt_96)
  have "(ICDIPRx d)[?w := put_nibble (put_nibble (ICDIPRx d ! ?w) ?s p) ?s
      (nibble (ICDIPRx d ! ?w) ?s)] = ICDIPRx d"
    using len by (simp add: put_nibble_restore)
  moreover have "priority_of ?d i = p AND 0xF"
    using priority_of_set [OF assms(1) set assms(2)] by simp
  ultimately have "interrupt_priority_set i (priority_of d i) ?d = Some (p AND 0xF, d)"
    using priority_set_eq [OF wf assms(2), of "priority_of d i"] len
    by (simp add: priority_of_def [of d i])
  with set wf priority_of_set [OF assms(1) set] show ?thesis by blast
qed

text \<open>\<open>interrupt_target_set\<close> adds or removes exactly one processor in the target list of
  one interrupt.\<close>

lemma interrupt_target_set_correct:
  assumes "dist_wf d" and "i < 96" and "cpu < 8"
  shows "\<exists>d'. interrupt_target_set i cpu v d = Some d' \<and> dist_wf d' \<and>
    (\<forall>j c. j < 96 \<longrightarrow> c < 8 \<longrightarrow>
      targets d' (j, c) = (if j = i \<and> c = cpu then v \<noteq> 0 else targets d (j, c))) \<and>
    d' = d\<lparr>ICDIPTRx := ICDIPTRx d'\<rparr>"
proof -
  have "cpu < 32" using assms(3) by (simp add: word_less_nat_alt)
  from target_set_eq [OF assms(1,2) this] obtain d' where
    d': "interrupt_target_set i cpu v d = Some d'" and frame: "d' = d\<lparr>ICDIPTRx := ICDIPTRx d'\<rparr>"
    and wf: "dist_wf d'"
    using assms(1) by (simp add: dist_wf_def)
  from targets_set [OF assms(1) d' _ _ assms(3)] d' frame wf show ?thesis by blast
qed

text \<open>\<open>interrupt_interface_init\<close> returns exactly when the controller eventually answers an
  acknowledge with the spurious identifier.\<close>

lemma interrupt_interface_init_returns_iff:
  "(\<exists>r. interrupt_interface_init (d, c) = Some r) \<longleftrightarrow>
     (\<exists>k. ICCIAR c (iar_reads c + k) AND 0x3FF = 1023)"
proof
  assume "\<exists>r. interrupt_interface_init (d, c) = Some r"
  then obtain c1 where "drain_pending (c\<lparr>ICCICR := 0, ICCPMR := 0xF0, ICCBPR := 3\<rparr>) = Some c1"
    by (auto simp: interrupt_interface_init_def Let_def split: Option.bind_splits)
  from drain_pending_spurious [OF this] show "\<exists>k. ICCIAR c (iar_reads c + k) AND 0x3FF = 1023"
    by simp
next
  let ?c = "c\<lparr>ICCICR := 0, ICCPMR := 0xF0, ICCBPR := 3\<rparr>"
  let ?fake = "\<lambda>k. ICCIAR c (iar_reads c + k) AND 0x3FF = 1023"
  assume "\<exists>k. ?fake k"
  then have "?fake (LEAST k. ?fake k)" by (rule LeastI_ex)
  moreover have "\<And>m. m < (LEAST k. ?fake k) \<Longrightarrow> \<not> ?fake m" by (rule not_less_Least)
  ultimately obtain c1 where "drain_pending ?c = Some c1"
    using drain_pending_Some [of ?c "LEAST k. ?fake k"] by auto
  then show "\<exists>r. interrupt_interface_init (d, c) = Some r"
    by (simp add: interrupt_interface_init_def Let_def)
qed

text \<open>When the first spurious answer is acknowledge number \<open>k\<close>, \<open>interrupt_interface_init\<close>
  has signalled the end of each of the \<open>k\<close> interrupts acknowledged before it, in order and once
  each, left the interface enabled for both groups with the priority mask open, and touched of
  the distributor only the registers of the private interrupts.\<close>

lemma interrupt_interface_init_drains:
  assumes "ICCIAR c (iar_reads c + k) AND 0x3FF = 1023"
    and "\<And>m. m < k \<Longrightarrow> ICCIAR c (iar_reads c + m) AND 0x3FF \<noteq> 1023"
    and "dist_wf d"
  shows "\<exists>d' c'. interrupt_interface_init (d, c) = Some (TRUE, d', c') \<and>
     eoi_trace c' = rev (map (ICCIAR c) [iar_reads c ..< iar_reads c + k]) @ eoi_trace c \<and>
     iar_reads c' = Suc (iar_reads c + k) \<and>
     ICCICR c' = 0xB \<and> ICCPMR c' = 0xF0 \<and> ICCBPR c' = 3 \<and> dist_wf d' \<and>
     (\<forall>w < 24. ICDIPRx d' ! w = (if w < 8 then 0 else ICDIPRx d ! w)) \<and>
     d' = d\<lparr>ICDICPRx := ICDICPRx d', ICDIPRx := ICDIPRx d', ICDICFRx := ICDICFRx d'\<rparr>"
proof -
  let ?c = "c\<lparr>ICCICR := 0, ICCPMR := 0xF0, ICCBPR := 3\<rparr>"
  from drain_pending_Some [of ?c k] assms(1,2) obtain c1 where
    c1: "drain_pending ?c = Some c1" and
    tr: "eoi_trace c1 = rev (map (ICCIAR c) [iar_reads c ..< iar_reads c + k]) @ eoi_trace c" and
    rest: "iar_reads c1 = Suc (iar_reads c + k)" "ICCPMR c1 = 0xF0" "ICCBPR c1 = 3"
    by auto
  have "(9 :: u32) OR 2 = 0xB" by simp
  with c1 tr rest assms(3) show ?thesis
    by (simp add: interrupt_interface_init_def Let_def dist_wf_def nth_fill_regs)
qed

text \<open>\<open>interrupt_distributor_init\<close> reports failure and changes nothing when an
  identification register differs; otherwise it succeeds, masks every interrupt, clears the
  pending shared interrupts, their priorities and all targets and enables both groups. It gives
  the level-sensitive configuration to interrupts 32 to 63 only: the registers of interrupts 64
  to 95 keep their value.\<close>

lemma interrupt_distributor_init_correct:
  assumes "dist_wf d"
  shows "case interrupt_distributor_init d of (ret, d') \<Rightarrow>
    dist_wf d' \<and> ret = (if gic_id_ok d then TRUE else FALSE) \<and>
    (\<not> gic_id_ok d \<longrightarrow> d' = d) \<and>
    (gic_id_ok d \<longrightarrow> ICDDCR d' = 3 \<and> ICDICERx d' = replicate 3 0xFFFFFFFF \<and>
       ICDICPRx d' = [ICDICPRx d ! 0, 0xFFFFFFFF, 0xFFFFFFFF] \<and>
       (\<forall>i. i < 96 \<longrightarrow> priority_of d' i = (if unat i < 32 then priority_of d i else 0)) \<and>
       ICDIPTRx d' = replicate 24 0 \<and>
       ICDICFRx d' = [ICDICFRx d ! 0, ICDICFRx d ! 1, 0x55555555, 0x55555555,
                      ICDICFRx d ! 4, ICDICFRx d ! 5] \<and>
       ICDISRx d' = ICDISRx d)"
proof -
  have len3: "length xs = 3 \<Longrightarrow> xs = [xs ! 0, xs ! 1, xs ! 2]" for xs :: "u32 list"
    by (auto simp: numeral_3_eq_3 length_Suc_conv)
  have len6: "length xs = 6 \<Longrightarrow> xs = [xs ! 0, xs ! 1, xs ! 2, xs ! 3, xs ! 4, xs ! 5]"
    for xs :: "u32 list"
    by (auto simp: eval_nat_numeral length_Suc_conv)
  have cer: "fill_regs 0 3 v xs = replicate 3 v" if "length xs = 3" for v and xs :: "u32 list"
    using that by (intro nth_equalityI) (simp_all add: nth_fill_regs)
  have ptr: "fill_regs 0 24 v xs = replicate 24 v" if "length xs = 24" for v and xs :: "u32 list"
    using that by (intro nth_equalityI) (simp_all add: nth_fill_regs)
  have cpr: "fill_regs (Suc 0) 3 v xs = [xs ! 0, v, v]" if "length xs = 3" for v and xs :: "u32 list"
    using that len3 [of "fill_regs (Suc 0) 3 v xs"] by (simp add: nth_fill_regs)
  have cfr: "fill_regs 2 4 v xs = [xs ! 0, xs ! 1, v, v, xs ! 4, xs ! 5]"
    if "length xs = 6" for v and xs :: "u32 list"
    using that len6 [of "fill_regs 2 4 v xs"] by (simp add: nth_fill_regs)
  have one2: "(1 :: u32) OR 2 = 3" by simp
  have spi: "8 \<le> n div 4 \<longleftrightarrow> \<not> n < 32" for n :: nat by presburger
  show ?thesis
  proof (cases "gic_id_ok d")
    case True
    with assms show ?thesis
      by (simp add: interrupt_distributor_init_def Let_def dist_wf_def cer ptr cpr cfr one2
          priority_of_def nth_fill_regs unat_lt_96 spi)
        (simp add: nibble_def)
  next
    case False
    with assms show ?thesis by (simp add: interrupt_distributor_init_def)
  qed
qed

text \<open>The FIQ dispatcher calls the timer handler for the six timer interrupts, the SPI
  handler for interrupt 81 and nothing for the other implemented interrupts; every other number,
  the spurious identifier 1023 among them, makes it read outside its table.\<close>

lemma fiq_handler_dispatch:
  "fiq_handler call interrupt s =
     (if 96 \<le> interrupt then None
      else if interrupt \<in> {42, 43, 44, 69, 70, 71} then call ttc_interrupt_clear_h interrupt s
      else if interrupt = 81 then call SPI_1_irq_handler_h interrupt s
      else Some s)"
proof (cases "96 \<le> interrupt")
  case True
  then show ?thesis by (simp add: fiq_handler_def word_le_nat_alt)
next
  case False
  then have lt: "unat interrupt < 96" by (simp add: word_le_nat_alt)
  have eq: "unat interrupt = unat k \<longleftrightarrow> interrupt = k" for k by (simp add: word_unat_eq_iff)
  from eq [of 42] eq [of 43] eq [of 44] eq [of 69] eq [of 70] eq [of 71] eq [of 81] lt False
  show ?thesis by (simp add: fiq_handler_def nth_fiq_handlers)
qed

end
