(* ===== verification/Ttc.thy ===== *)
theory Ttc
  imports Prelude
begin

unbundle bit_operations_syntax

text \<open>
  The triple timer counter driver: \<^verbatim>\<open>src/src/boards/<board>/zynq_ttc.c\<close>. The two controllers
  \<open>Ptr_Ttc[2]\<close> are a list of register records, each register an array of three words, one per
  timer. The boards' copies of the file differ in the constants collected in \<open>ttc_cfg\<close> and in
  what \<open>ttc_interrupt_clear\<close> returns.
\<close>

section \<open>Registers and constants\<close>

record Zynq_Ttc =
  clk_cntrl :: "u32 list"
  cnt_cntrl :: "u32 list"
  cnt_value :: "u32 list"
  interv_cnt :: "u32 list"
  match1_cnt :: "u32 list"
  match2_cnt :: "u32 list"
  match3_cnt :: "u32 list"
  interrupt_reg :: "u32 list"
  interrupt_en :: "u32 list"
  event_cntrl_tim :: "u32 list"
  event_reg :: "u32 list"

definition ttc_wf :: "Zynq_Ttc \<Rightarrow> bool" where
  "ttc_wf t \<longleftrightarrow> length (clk_cntrl t) = 3 \<and> length (cnt_cntrl t) = 3 \<and> length (cnt_value t) = 3 \<and>
     length (interv_cnt t) = 3 \<and> length (match1_cnt t) = 3 \<and> length (match2_cnt t) = 3 \<and>
     length (match3_cnt t) = 3 \<and> length (interrupt_reg t) = 3 \<and> length (interrupt_en t) = 3 \<and>
     length (event_cntrl_tim t) = 3 \<and> length (event_reg t) = 3"

definition ttcs_wf :: "Zynq_Ttc list \<Rightarrow> bool" where
  "ttcs_wf ts \<longleftrightarrow> length ts = 2 \<and> list_all ttc_wf ts"

abbreviation TTC1 :: u32 where "TTC1 \<equiv> 1"
abbreviation TTCx_2 :: u32 where "TTCx_2 \<equiv> 1"
abbreviation INTERVAL :: u32 where "INTERVAL \<equiv> 0"
abbreviation MATCH :: u32 where "MATCH \<equiv> 1"
abbreviation FREE_RUNNING :: u32 where "FREE_RUNNING \<equiv> 2"
abbreviation TTC_CLK_CNTRL_PS_EN :: u32 where "TTC_CLK_CNTRL_PS_EN \<equiv> 0x1"
abbreviation TTC_CNT_CNTRL_RST :: u32 where "TTC_CNT_CNTRL_RST \<equiv> 0x10"
abbreviation TTC_CNT_CNTRL_MATCH :: u32 where "TTC_CNT_CNTRL_MATCH \<equiv> 0x8"
abbreviation TTC_CNT_CNTRL_INT :: u32 where "TTC_CNT_CNTRL_INT \<equiv> 0x2"
abbreviation TTC_CNT_CNTRL_DIS :: u32 where "TTC_CNT_CNTRL_DIS \<equiv> 0x1"
abbreviation TTC_INT_EN_MATCH1 :: u32 where "TTC_INT_EN_MATCH1 \<equiv> 0x2"
abbreviation TTC_INT_EN_INTERVAL :: u32 where "TTC_INT_EN_INTERVAL \<equiv> 0x1"
abbreviation TTC_RESET_CONFIG :: u32 where "TTC_RESET_CONFIG \<equiv> 0x21"

record ttc_cfg =
  TTC_INT_VALUE :: u32
  TTC_MATCH1_VALUE :: u32
  us_factor :: u32
  ms_factor :: u32
  clear_returns_status :: bool

definition zedboard_ttc :: ttc_cfg where
  "zedboard_ttc = \<lparr>TTC_INT_VALUE = 111, TTC_MATCH1_VALUE = 111, us_factor = 27750, ms_factor = 271,
     clear_returns_status = True\<rparr>"

definition zybo_ttc :: ttc_cfg where
  "zybo_ttc = \<lparr>TTC_INT_VALUE = 100, TTC_MATCH1_VALUE = 100, us_factor = 25000, ms_factor = 244,
     clear_returns_status = True\<rparr>"

definition zc702_ttc :: ttc_cfg where
  "zc702_ttc = \<lparr>TTC_INT_VALUE = 111, TTC_MATCH1_VALUE = 111, us_factor = 27750, ms_factor = 271,
     clear_returns_status = False\<rparr>"

section \<open>Operations\<close>

text \<open>Update of one controller, and of one timer's entry of a register array.\<close>

definition on_ttc :: "nat \<Rightarrow> (Zynq_Ttc \<Rightarrow> Zynq_Ttc) \<Rightarrow> Zynq_Ttc list \<Rightarrow> Zynq_Ttc list" where
  "on_ttc n f ts = ts[n := f (ts ! n)]"

definition set_clk_cntrl :: "nat \<Rightarrow> u32 \<Rightarrow> Zynq_Ttc \<Rightarrow> Zynq_Ttc" where
  "set_clk_cntrl k v t = t\<lparr>clk_cntrl := (clk_cntrl t)[k := v]\<rparr>"

definition set_cnt_cntrl :: "nat \<Rightarrow> u32 \<Rightarrow> Zynq_Ttc \<Rightarrow> Zynq_Ttc" where
  "set_cnt_cntrl k v t = t\<lparr>cnt_cntrl := (cnt_cntrl t)[k := v]\<rparr>"

definition set_interv_cnt :: "nat \<Rightarrow> u32 \<Rightarrow> Zynq_Ttc \<Rightarrow> Zynq_Ttc" where
  "set_interv_cnt k v t = t\<lparr>interv_cnt := (interv_cnt t)[k := v]\<rparr>"

definition set_match1_cnt :: "nat \<Rightarrow> u32 \<Rightarrow> Zynq_Ttc \<Rightarrow> Zynq_Ttc" where
  "set_match1_cnt k v t = t\<lparr>match1_cnt := (match1_cnt t)[k := v]\<rparr>"

definition set_interrupt_en :: "nat \<Rightarrow> u32 \<Rightarrow> Zynq_Ttc \<Rightarrow> Zynq_Ttc" where
  "set_interrupt_en k v t = t\<lparr>interrupt_en := (interrupt_en t)[k := v]\<rparr>"

lemmas ttc_sets [regs] = set_clk_cntrl_def set_cnt_cntrl_def set_interv_cnt_def
  set_match1_cnt_def set_interrupt_en_def

text \<open>The register writes of \<open>ttc_init\<close> to timer \<open>k\<close>, in the order of the source.\<close>

definition ttc_init_regs :: "ttc_cfg \<Rightarrow> nat \<Rightarrow> u32 \<Rightarrow> Zynq_Ttc \<Rightarrow> Zynq_Ttc" where
  "ttc_init_regs cfg k mode t =
     (let t = set_cnt_cntrl k TTC_RESET_CONFIG t;
          clk = clk_cntrl t ! k;
          clk = clk AND NOT TTC_CLK_CNTRL_PS_EN;
          t = set_clk_cntrl k clk t
      in if mode = INTERVAL then
           set_interrupt_en k TTC_INT_EN_INTERVAL
            (set_interv_cnt k (TTC_INT_VALUE cfg)
             (set_cnt_cntrl k (TTC_RESET_CONFIG OR (TTC_CNT_CNTRL_RST OR TTC_CNT_CNTRL_INT OR TTC_CNT_CNTRL_DIS)) t))
         else if mode = MATCH then
           set_interrupt_en k TTC_INT_EN_MATCH1
            (set_match1_cnt k (TTC_MATCH1_VALUE cfg)
             (set_cnt_cntrl k (TTC_CNT_CNTRL_RST OR TTC_CNT_CNTRL_MATCH OR TTC_CNT_CNTRL_DIS) t))
         else t)"

definition ttc_init :: "ttc_cfg \<Rightarrow> u32 \<Rightarrow> u32 \<Rightarrow> u32 \<Rightarrow> Zynq_Ttc list \<Rightarrow> u32 \<times> Zynq_Ttc list" where
  "ttc_init cfg ttc_num timer_num mode ts =
     (if ttc_num > 1 \<or> timer_num > 1 \<or> mode > FREE_RUNNING then (FALSE, ts)
      else (TRUE, on_ttc (unat ttc_num) (ttc_init_regs cfg (unat timer_num) mode) ts))"

definition ttc_enable :: "u32 \<Rightarrow> u32 \<Rightarrow> Zynq_Ttc list \<Rightarrow> u32 \<times> Zynq_Ttc list" where
  "ttc_enable ttc_num timer_num ts =
     (if ttc_num > TTC1 \<or> timer_num > TTCx_2 then (FALSE, ts)
      else (TRUE, on_ttc (unat ttc_num) (\<lambda>t.
        let cc = cnt_cntrl t ! unat timer_num;
            cc = cc OR TTC_CNT_CNTRL_RST;
            cc = cc AND NOT TTC_CNT_CNTRL_DIS
        in set_cnt_cntrl (unat timer_num) cc t) ts))"

definition ttc_disable :: "u32 \<Rightarrow> u32 \<Rightarrow> Zynq_Ttc list \<Rightarrow> u32 \<times> Zynq_Ttc list" where
  "ttc_disable ttc_num timer_num ts =
     (if ttc_num > TTC1 \<or> timer_num > TTCx_2 then (FALSE, ts)
      else (TRUE, on_ttc (unat ttc_num) (\<lambda>t.
        let cc = cnt_cntrl t ! unat timer_num;
            cc = cc OR TTC_CNT_CNTRL_DIS
        in set_cnt_cntrl (unat timer_num) cc t) ts))"

text \<open>
  \<open>ttc_request\<close> first stops and resets the counter, then chooses the prescaler and the number of
  ticks from the requested time, and finally writes the count of the mode the timer is in.
\<close>

definition request_ticks :: "ttc_cfg \<Rightarrow> u32 \<Rightarrow> (u32 \<times> u32) option" where
  "request_ticks cfg useconds =
     (if 1 \<le> useconds \<and> useconds \<le> 1000 then Some (push_bit 1 (2 - 1) OR 0x1, useconds * us_factor cfg div 1000)
      else if useconds > 1000 \<and> useconds \<le> 1000000 then
        Some (push_bit 1 (12 - 1) OR 0x1, useconds * ms_factor cfg div 10000)
      else None)"

definition ttc_request_regs :: "ttc_cfg \<Rightarrow> nat \<Rightarrow> u32 \<Rightarrow> Zynq_Ttc \<Rightarrow> u32 \<times> Zynq_Ttc" where
  "ttc_request_regs cfg k useconds t =
     (let cc = cnt_cntrl t ! k;
          cc = cc OR (TTC_CNT_CNTRL_RST OR TTC_CNT_CNTRL_DIS);
          t = set_cnt_cntrl k cc t
      in case request_ticks cfg useconds of
           None \<Rightarrow> (FALSE, t)
         | Some (prescale, ticks) \<Rightarrow>
             let clk = clk_cntrl t ! k;
                 clk = clk OR prescale;
                 t = set_clk_cntrl k clk t;
                 cc = cc AND (TTC_CNT_CNTRL_MATCH OR TTC_CNT_CNTRL_INT)
             in if cc AND TTC_CNT_CNTRL_INT \<noteq> 0 then (TRUE, set_interv_cnt k ticks t)
                else if cc AND TTC_CNT_CNTRL_MATCH \<noteq> 0 then (TRUE, set_match1_cnt k ticks t)
                else (FALSE, t))"

definition ttc_request :: "ttc_cfg \<Rightarrow> u32 \<Rightarrow> u32 \<Rightarrow> u32 \<Rightarrow> Zynq_Ttc list \<Rightarrow> u32 \<times> Zynq_Ttc list" where
  "ttc_request cfg ttc_num timer_num useconds ts =
     (if ttc_num > TTC1 \<or> timer_num > TTCx_2 then (FALSE, ts)
      else let (ret, t) = ttc_request_regs cfg (unat timer_num) useconds (ts ! unat ttc_num)
           in (ret, ts[unat ttc_num := t]))"

text \<open>Controller and timer that raise an interrupt.\<close>

definition ttc_of_interrupt :: "u32 \<Rightarrow> (nat \<times> nat) option" where
  "ttc_of_interrupt interrupt =
     (if interrupt = 42 then Some (0, 0) else if interrupt = 43 then Some (0, 1)
      else if interrupt = 44 then Some (0, 2) else if interrupt = 69 then Some (1, 0)
      else if interrupt = 70 then Some (1, 1) else if interrupt = 71 then Some (1, 2)
      else None)"

text \<open>
  The status register is read; the read itself clears it in the device, which is the parameter
  \<open>clear_on_read\<close>: the device's registers after a read of status register \<open>k\<close>.
\<close>

definition ttc_interrupt_clear ::
    "ttc_cfg \<Rightarrow> (nat \<Rightarrow> Zynq_Ttc \<Rightarrow> Zynq_Ttc) \<Rightarrow> u32 \<Rightarrow> Zynq_Ttc list \<Rightarrow> u32 \<times> Zynq_Ttc list" where
  "ttc_interrupt_clear cfg clear_on_read interrupt ts =
     (case ttc_of_interrupt interrupt of
        None \<Rightarrow> (FALSE, ts)
      | Some (ttc_num, ttc_tim_num) \<Rightarrow>
          let status = interrupt_reg (ts ! ttc_num) ! ttc_tim_num;
              ts = on_ttc ttc_num (clear_on_read ttc_tim_num) ts
          in (if clear_returns_status cfg then status else TRUE, ts))"

definition read_ttc :: "u32 \<Rightarrow> u32 \<Rightarrow> Zynq_Ttc list \<Rightarrow> u32 option" where
  "read_ttc ttc_num timer_num ts =
     do { t \<leftarrow> arr_get ts (unat ttc_num); arr_get (cnt_value t) (unat timer_num) }"

section \<open>Boards\<close>

text \<open>
  What \<open>ttc_request\<close> needs of a board's constants: the products stay below \<open>2 ^ 32\<close>, the counts
  fit the 16-bit interval register and no admissible time rounds to zero ticks.
\<close>

locale ttc_board =
  fixes cfg :: ttc_cfg
  assumes us_low: "1000 \<le> unat (us_factor cfg)" and us_high: "unat (us_factor cfg) < 2 ^ 16"
    and ms_low: "10 \<le> unat (ms_factor cfg)" and ms_high: "unat (ms_factor cfg) * 1000000 < 2 ^ 32"
    and ms_fits: "unat (ms_factor cfg) * 100 < 2 ^ 16"
begin

lemma unat_us_ticks:
  assumes "u \<le> 1000"
  shows "unat (u * us_factor cfg div 1000) = unat u * unat (us_factor cfg) div 1000"
proof -
  have "unat u * unat (us_factor cfg) \<le> 1000 * unat (us_factor cfg)"
    using assms by (simp add: word_le_nat_alt)
  also have "\<dots> < 2 ^ 32" using us_high by simp
  finally show ?thesis by (simp add: unat_div unat_mult_lem [THEN iffD1])
qed

lemma unat_ms_ticks:
  assumes "u \<le> 1000000"
  shows "unat (u * ms_factor cfg div 10000) = unat u * unat (ms_factor cfg) div 10000"
proof -
  have "unat u * unat (ms_factor cfg) \<le> 1000000 * unat (ms_factor cfg)"
    using assms by (simp add: word_le_nat_alt)
  also have "\<dots> < 2 ^ 32" using ms_high by simp
  finally show ?thesis by (simp add: unat_div unat_mult_lem [THEN iffD1])
qed

text \<open>The tick count is the exact quotient, at least one and at most 16 bits wide.\<close>

lemma request_ticks_exact:
  assumes "request_ticks cfg u = Some (ps, n)"
  shows "1 \<le> unat u" "unat u \<le> 1000000"
    "unat n = (if unat u \<le> 1000 then unat u * unat (us_factor cfg) div 1000
               else unat u * unat (ms_factor cfg) div 10000)"
    "ps = (if unat u \<le> 1000 then 0x3 else 0x17)"
  using assms unat_us_ticks [of u] unat_ms_ticks [of u]
  by (auto simp: request_ticks_def word_le_nat_alt word_less_nat_alt split: if_splits)

lemma request_ticks_bounds:
  assumes "request_ticks cfg u = Some (ps, n)"
  shows "1 \<le> unat n" "unat n < 2 ^ 16"
proof -
  note ex = request_ticks_exact [OF assms]
  have "1 \<le> unat n \<and> unat n < 2 ^ 16"
  proof (cases "unat u \<le> 1000")
    case True
    have "1000 div 1000 \<le> unat u * unat (us_factor cfg) div 1000"
      using mult_le_mono [OF ex(1) us_low] by (intro div_le_mono) simp
    moreover have "unat u * unat (us_factor cfg) div 1000 \<le> 1000 * unat (us_factor cfg) div 1000"
      using True by (intro div_le_mono mult_le_mono1)
    ultimately show ?thesis using True ex(3) us_high by simp
  next
    case False
    have "10000 div 10000 \<le> unat u * unat (ms_factor cfg) div 10000"
      using mult_le_mono [OF _ ms_low, of 1000 "unat u"] False by (intro div_le_mono) simp
    moreover have "unat u * unat (ms_factor cfg) div 10000 \<le> (unat (ms_factor cfg) * 100) * 10000 div 10000"
      using mult_le_mono1 [OF ex(2), of "unat (ms_factor cfg)"] by (intro div_le_mono) simp
    ultimately show ?thesis using False ex(3) ms_fits by simp
  qed
  then show "1 \<le> unat n" "unat n < 2 ^ 16" by simp_all
qed

end

interpretation zed_ttc: ttc_board zedboard_ttc
  by unfold_locales (simp_all add: zedboard_ttc_def)

interpretation zyb_ttc: ttc_board zybo_ttc
  by unfold_locales (simp_all add: zybo_ttc_def)

interpretation zc7_ttc: ttc_board zc702_ttc
  by unfold_locales (simp_all add: zc702_ttc_def)

section \<open>Lemmas\<close>

lemma request_ticks_None_iff: "request_ticks cfg u = None \<longleftrightarrow> u = 0 \<or> 1000000 < u"
proof -
  have "u = 0 \<longleftrightarrow> unat u = 0" by (simp add: unat_eq_0)
  then show ?thesis
    by (auto simp: request_ticks_def word_le_nat_alt word_less_nat_alt split: if_splits)
qed

lemma timer_valid: "\<not> (a > 1 \<or> b > 1) \<longleftrightarrow> unat a < 2 \<and> unat b < 2" for a b :: u32
  by (auto simp: word_less_nat_alt)

lemma ttcs_wf_nth: "ttcs_wf ts \<Longrightarrow> n < 2 \<Longrightarrow> ttc_wf (ts ! n)"
  by (simp add: ttcs_wf_def list_all_length)

lemma ttcs_wf_upd: "ttcs_wf ts \<Longrightarrow> ttc_wf t \<Longrightarrow> ttcs_wf (ts[n := t])"
  by (auto simp: ttcs_wf_def list_all_iff dest!: set_update_subset_insert [THEN subsetD])

lemma ttc_request_regs_wf: "ttc_wf t \<Longrightarrow> ttc_wf (snd (ttc_request_regs cfg k u t))"
  by (auto simp: ttc_request_regs_def ttc_wf_def Let_def ttc_sets split: option.splits prod.splits)

lemma ttc_init_regs_wf: "ttc_wf t \<Longrightarrow> ttc_wf (ttc_init_regs cfg k m t)"
  by (auto simp: ttc_init_regs_def ttc_wf_def Let_def ttc_sets)

text \<open>The test of a single mode bit survives the masking of the other bits.\<close>

lemma mode_bits:
  "((cc OR 0x11) AND 0xA) AND 0x2 = cc AND 0x2"
  "((cc OR 0x11) AND 0xA) AND 0x8 = cc AND 0x8" for cc :: u32
  by (rule and_or_select; simp)+

text \<open>The registers after a request, on the three outcomes.\<close>

lemma ttc_request_regs_None:
  "request_ticks cfg u = None \<Longrightarrow>
    ttc_request_regs cfg k u t = (FALSE, set_cnt_cntrl k (cnt_cntrl t ! k OR 0x11) t)"
  by (simp add: ttc_request_regs_def Let_def)

lemma ttc_request_regs_Some:
  "request_ticks cfg u = Some (ps, n) \<Longrightarrow>
    ttc_request_regs cfg k u t =
      (let t' = set_clk_cntrl k (clk_cntrl t ! k OR ps) (set_cnt_cntrl k (cnt_cntrl t ! k OR 0x11) t)
       in if cnt_cntrl t ! k AND 0x2 \<noteq> 0 then (TRUE, set_interv_cnt k n t')
          else if cnt_cntrl t ! k AND 0x8 \<noteq> 0 then (TRUE, set_match1_cnt k n t')
          else (FALSE, t'))"
  using mode_bits [of "cnt_cntrl t ! k"]
  by (simp add: ttc_request_regs_def Let_def set_cnt_cntrl_def)

lemma disabled_bit: "(w OR 0x11) AND 0x1 = (1 :: u32)"
  by (rule or_and_absorb) simp

lemma request_outcome:
  assumes "unat a < 2" "unat b < 2"
  shows "ttc_request cfg a b u ts =
    (fst (ttc_request_regs cfg (unat b) u (ts ! unat a)),
     ts[unat a := snd (ttc_request_regs cfg (unat b) u (ts ! unat a))])"
  using assms by (simp add: ttc_request_def word_less_nat_alt split: prod.splits)

section \<open>Properties\<close>

definition sample_ttc :: Zynq_Ttc where
  "sample_ttc = \<lparr>clk_cntrl = [0, 0, 0], cnt_cntrl = [0x33, 0x33, 0x33], cnt_value = [0, 0, 0],
     interv_cnt = [0, 0, 0], match1_cnt = [0, 0, 0], match2_cnt = [0, 0, 0], match3_cnt = [0, 0, 0],
     interrupt_reg = [0, 1, 0], interrupt_en = [0, 0, 0], event_cntrl_tim = [0, 0, 0],
     event_reg = [0, 0, 0]\<rparr>"

lemma sample_ttcs_wf: "ttcs_wf [sample_ttc, sample_ttc]"
  by (simp add: ttcs_wf_def ttc_wf_def sample_ttc_def)

text \<open>
  What the clock control register makes of the input clock: with the enable bit 0 set, the value \<open>N\<close> of bits 1 to 4 divides it by
  \<open>2 ^ (N + 1)\<close> (reference manual of the device). One tick of the counter takes that many periods.
\<close>

definition clock_divider :: "u32 \<Rightarrow> nat" where
  "clock_divider clk = (if clk AND TTC_CLK_CNTRL_PS_EN = 0 then 1 else 2 ^ (unat (drop_bit 1 (clk AND 0x1E)) + 1))"

lemma clock_divider_request:
  assumes "clk AND 0x1E = 0"
  shows "clock_divider (clk OR 0x3) = 4" "clock_divider (clk OR 0x17) = 4096"
proof -
  have "(clk OR 0x3) AND 0x1E = 0x2" "(clk OR 0x17) AND 0x1E = 0x16"
    using assms by (simp_all only: bit.conj_disj_distrib2) simp_all
  moreover have "(clk OR 0x3) AND 0x1 = 1" "(clk OR 0x17) AND 0x1 = 1" by (rule or_and_absorb, simp)+
  ultimately show "clock_divider (clk OR 0x3) = 4" "clock_divider (clk OR 0x17) = 4096" by (simp_all add: clock_divider_def)
qed

text \<open>The count is the requested time at the divided clock of 111 MHz, to less than one tick.\<close>

lemma ticks_time:
  fixes u :: nat
  assumes "u \<le> 1000000"
  shows "\<bar>int (u * 27750 div 1000) * 4 - 111 * int u\<bar> < 4" "\<bar>int (u * 271 div 10000) * 4096 - 111 * int u\<bar> < 4096"
proof -
  have "int (u * 27750 div 1000) = int u * 27750 div 1000" "int (u * 271 div 10000) = int u * 271 div 10000"
    by (simp_all add: zdiv_int)
  then show "\<bar>int (u * 27750 div 1000) * 4 - 111 * int u\<bar> < 4" "\<bar>int (u * 271 div 10000) * 4096 - 111 * int u\<bar> < 4096"
    using assms by linarith+
qed

text \<open>C15: on the ZedBoard, a time request between one microsecond and one second to a timer in
  interval mode succeeds, stops the counter, enables the prescaler of the range and loads the exact number of ticks, which is at
  least one and fits the 16-bit counter. If no prescaler was chosen before, that many ticks of the prescaled 111 MHz clock take the requested
  time to less than one tick. The other controller, and of this one every register
  of the other timers, keep their value.\<close>

theorem ttc_request_interval:
  assumes "ttcs_wf ts" and "unat a < 2" and "unat b < 2" and "1 \<le> u" and "u \<le> 1000000"
    and "cnt_cntrl (ts ! unat a) ! unat b AND 0x2 \<noteq> 0"
  shows "\<exists>t n. ttc_request zedboard_ttc a b u ts = (TRUE, ts[unat a := t]) \<and>
    interv_cnt t = (interv_cnt (ts ! unat a))[unat b := n] \<and>
    unat n = (if unat u \<le> 1000 then unat u * 27750 div 1000 else unat u * 271 div 10000) \<and>
    1 \<le> unat n \<and> unat n < 2 ^ 16 \<and>
    clk_cntrl t ! unat b = clk_cntrl (ts ! unat a) ! unat b OR (if unat u \<le> 1000 then 0x3 else 0x17) \<and>
    (clk_cntrl (ts ! unat a) ! unat b AND 0x1E = 0 \<longrightarrow>
       \<bar>int (unat n) * int (clock_divider (clk_cntrl t ! unat b)) - 111 * int (unat u)\<bar> < int (clock_divider (clk_cntrl t ! unat b))) \<and>
    cnt_cntrl t ! unat b AND 0x1 = 1 \<and> cnt_cntrl t ! unat b AND 0x2 \<noteq> 0 \<and>
    (\<forall>k < 3. k \<noteq> unat b \<longrightarrow> clk_cntrl t ! k = clk_cntrl (ts ! unat a) ! k \<and>
       cnt_cntrl t ! k = cnt_cntrl (ts ! unat a) ! k) \<and>
    t = (ts ! unat a)\<lparr>clk_cntrl := clk_cntrl t, cnt_cntrl := cnt_cntrl t, interv_cnt := interv_cnt t\<rparr>"
proof -
  let ?t = "ts ! unat a" and ?k = "unat b"
  have "request_ticks zedboard_ttc u \<noteq> None"
    using assms(4,5) by (auto simp: request_ticks_None_iff)
  then obtain ps n where some: "request_ticks zedboard_ttc u = Some (ps, n)" by auto
  define t where "t = snd (ttc_request_regs zedboard_ttc ?k u ?t)"
  have req: "ttc_request zedboard_ttc a b u ts = (TRUE, ts[unat a := t])"
    using assms(6) request_outcome [OF assms(2,3)] ttc_request_regs_Some [OF some]
    by (simp add: t_def Let_def)
  have wf: "length (cnt_cntrl ?t) = 3" "length (clk_cntrl ?t) = 3"
    using ttcs_wf_nth [OF assms(1,2)] by (simp_all add: ttc_wf_def)
  have t: "t = ?t\<lparr>clk_cntrl := (clk_cntrl ?t)[?k := clk_cntrl ?t ! ?k OR ps],
      cnt_cntrl := (cnt_cntrl ?t)[?k := cnt_cntrl ?t ! ?k OR 0x11],
      interv_cnt := (interv_cnt ?t)[?k := n]\<rparr>"
    using assms(6) ttc_request_regs_Some [OF some] by (simp add: t_def Let_def ttc_sets)
  have int: "(cnt_cntrl ?t ! ?k OR 0x11) AND 0x2 \<noteq> 0"
    using assms(6) by (simp add: bit.conj_disj_distrib2)
  note ex = zed_ttc.request_ticks_exact [OF some]
  have n: "unat n = (if unat u \<le> 1000 then unat u * 27750 div 1000 else unat u * 271 div 10000)"
    using ex(3) by (simp add: zedboard_ttc_def)
  have clk: "clk_cntrl t ! ?k = clk_cntrl ?t ! ?k OR ps" using wf assms(3) by (simp add: t)
  have "\<bar>int (unat n) * int (clock_divider (clk_cntrl t ! ?k)) - 111 * int (unat u)\<bar> < int (clock_divider (clk_cntrl t ! ?k))"
    if "clk_cntrl ?t ! ?k AND 0x1E = 0"
    using ticks_time [OF ex(2)] clock_divider_request [OF that] by (cases "unat u \<le> 1000") (simp_all add: clk ex(4) n)
  with req t int wf assms(3) zed_ttc.request_ticks_bounds [OF some] disabled_bit n ex(4)
  show ?thesis by (intro exI [of _ t] exI [of _ n]) simp
qed

theorem ttc_request_interval_witness:
  "\<exists>t. ttc_request zedboard_ttc 0 1 10000 [sample_ttc, sample_ttc] = (TRUE, [t, sample_ttc]) \<and>
     unat (interv_cnt t ! 1) = 271 \<and> clk_cntrl t ! 1 = 0x17"
proof -
  have "cnt_cntrl ([sample_ttc, sample_ttc] ! unat (0 :: u32)) ! unat (1 :: u32) AND 0x2 \<noteq> 0"
    by (simp add: sample_ttc_def)
  from ttc_request_interval [OF sample_ttcs_wf _ _ _ _ this, of 10000]
  show ?thesis by (auto simp: sample_ttc_def)
qed

text \<open>A request outside one microsecond to one second is answered with failure, and on
  every board it leaves the timer stopped: the disable bit is set although nothing else of
  the controller but the counter control register changes.\<close>

lemma ttc_request_rejected_stops_timer:
  assumes "ttcs_wf ts" and "unat a < 2" and "unat b < 2" and "u = 0 \<or> 1000000 < u"
  shows "\<exists>t. ttc_request cfg a b u ts = (FALSE, ts[unat a := t]) \<and>
    cnt_cntrl t ! unat b AND 0x1 = 1 \<and>
    t = (ts ! unat a)\<lparr>cnt_cntrl := (cnt_cntrl (ts ! unat a))[unat b := cnt_cntrl t ! unat b]\<rparr>"
proof -
  let ?t = "set_cnt_cntrl (unat b) (cnt_cntrl (ts ! unat a) ! unat b OR 0x11) (ts ! unat a)"
  have "request_ticks cfg u = None" using assms(4) by (simp add: request_ticks_None_iff)
  with request_outcome [OF assms(2,3)] ttc_request_regs_None
  have "ttc_request cfg a b u ts =
      (FALSE, ts[unat a := ?t])" by simp
  moreover have "unat b < length (cnt_cntrl (ts ! unat a))"
    using ttcs_wf_nth [OF assms(1,2)] assms(3) by (simp add: ttc_wf_def)
  ultimately show ?thesis using disabled_bit by (intro exI [of _ ?t]) (simp add: set_cnt_cntrl_def)
qed

text \<open>The prescaler bits only accumulate: after a request of more than a millisecond, a
  later request of at most a millisecond leaves the prescaler of the longer range in place, so
  its tick count is counted at the wrong rate.\<close>

lemma ttc_request_prescaler_sticks:
  assumes "ttcs_wf ts" and "unat a < 2" and "unat b < 2"
    and "1000 < u" and "u \<le> 1000000" and "1 \<le> v" and "v \<le> 1000"
  shows "let ts1 = snd (ttc_request zedboard_ttc a b u ts);
             ts2 = snd (ttc_request zedboard_ttc a b v ts1);
             fresh = snd (ttc_request zedboard_ttc a b v ts)
         in clk_cntrl (ts2 ! unat a) ! unat b = clk_cntrl (ts ! unat a) ! unat b OR 0x17 \<and>
            clk_cntrl (fresh ! unat a) ! unat b = clk_cntrl (ts ! unat a) ! unat b OR 0x3"
proof -
  have clk: "clk_cntrl (snd (ttc_request zedboard_ttc a b w s) ! unat a) ! unat b =
      clk_cntrl (s ! unat a) ! unat b OR ps"
    if wf: "ttcs_wf s" and some: "request_ticks zedboard_ttc w = Some (ps, n)" for s w ps n
  proof -
    have "length s = 2" "length (clk_cntrl (s ! unat a)) = 3"
      using wf ttcs_wf_nth [OF wf assms(2)] by (simp_all add: ttcs_wf_def ttc_wf_def)
    then show ?thesis
      using assms(2,3) ttc_request_regs_Some [OF some]
      by (simp add: request_outcome Let_def ttc_sets)
  qed
  have lt: "\<not> u \<le> 1000" using assms(4) by simp
  have u: "request_ticks zedboard_ttc u = Some (0x17, u * 271 div 10000)"
    using assms(4,5) lt by (simp add: request_ticks_def zedboard_ttc_def)
  have v: "request_ticks zedboard_ttc v = Some (0x3, v * 27750 div 1000)"
    using assms(6,7) by (simp add: request_ticks_def zedboard_ttc_def)
  have wf1: "ttcs_wf (snd (ttc_request zedboard_ttc a b u ts))"
    using assms(1-3) ttcs_wf_nth ttc_request_regs_wf ttcs_wf_upd by (simp add: request_outcome)
  have "(w OR 0x17) OR 0x3 = w OR 0x17" for w :: u32 by (simp add: or.assoc)
  with clk [OF assms(1) u] clk [OF wf1 v] clk [OF assms(1) v] show ?thesis by (simp add: Let_def)
qed

text \<open>The guard of the driver compares with the second timer, so initialising, enabling,
  disabling and programming the third timer of either controller all fail and change nothing,
  although the interrupt handler knows that timer.\<close>

lemma third_timer_rejected:
  "ttc_init cfg a 2 mode ts = (FALSE, ts) \<and> ttc_enable a 2 ts = (FALSE, ts) \<and>
   ttc_disable a 2 ts = (FALSE, ts) \<and> ttc_request cfg a 2 u ts = (FALSE, ts) \<and>
   ttc_of_interrupt 44 = Some (0, 2) \<and> ttc_of_interrupt 71 = Some (1, 2)"
  by (simp add: ttc_init_def ttc_enable_def ttc_disable_def ttc_request_def ttc_of_interrupt_def)

end
