(* ===== verification/Cstring.thy ===== *)
theory Cstring
  imports Prelude
begin

unbundle bit_operations_syntax

text \<open>
  The string library \<^verbatim>\<open>src/src/lib/string.c\<close> over a byte-addressed memory. Pointers are 32-bit
  words, so pointer increments wrap as they do on the machine. Loops that search for a
  terminating zero are \<open>partial_function (option)\<close>: \<open>None\<close> means that the loop does not end.
  Loop counters are natural numbers; the signed counter of \<open>memcpy\<close> agrees with them for
  counts below \<open>2 ^ 31\<close>.
\<close>

type_synonym mem = "u32 \<Rightarrow> u8"

section \<open>Operations\<close>

text \<open>\<open>*(uint32_t *)dst = *(uint32_t *)src\<close>: four bytes read, then four bytes written.\<close>

definition copy_word :: "u32 \<Rightarrow> u32 \<Rightarrow> mem \<Rightarrow> mem" where
  "copy_word dst src m =
     m(dst := m src, dst + 1 := m (src + 1), dst + 2 := m (src + 2), dst + 3 := m (src + 3))"

function memcpy_words :: "nat \<Rightarrow> u32 \<Rightarrow> u32 \<Rightarrow> u32 \<Rightarrow> mem \<Rightarrow> nat \<times> u32 \<times> u32 \<times> mem" where
  "memcpy_words i count dst_tmp src_tmp m =
     (if i < unat count
      then (if i + 3 > unat (count - 1) then (i, dst_tmp, src_tmp, m)
            else memcpy_words (i + 4) count (dst_tmp + 4) (src_tmp + 4) (copy_word dst_tmp src_tmp m))
      else (i, dst_tmp, src_tmp, m))"
  by pat_completeness auto
termination
  by (relation "measure (\<lambda>(i, count, _). unat count - i)") auto

function memcpy_bytes :: "nat \<Rightarrow> u32 \<Rightarrow> u32 \<Rightarrow> u32 \<Rightarrow> mem \<Rightarrow> mem" where
  "memcpy_bytes i count dst_tmp src_tmp m =
     (if i < unat count
      then memcpy_bytes (i + 1) count (dst_tmp + 1) (src_tmp + 1) (m(dst_tmp := m src_tmp))
      else m)"
  by pat_completeness auto
termination
  by (relation "measure (\<lambda>(i, count, _). unat count - i)") auto

function memcpy_generic :: "nat \<Rightarrow> u32 \<Rightarrow> u32 \<Rightarrow> u32 \<Rightarrow> mem \<Rightarrow> mem" where
  "memcpy_generic i count dst src m =
     (if i < unat count
      then memcpy_generic (i + 1) count dst src (m(dst + of_nat i := m (src + of_nat i)))
      else m)"
  by pat_completeness auto
termination
  by (relation "measure (\<lambda>(i, count, _). unat count - i)") auto

declare memcpy_words.simps [simp del] memcpy_bytes.simps [simp del] memcpy_generic.simps [simp del]

definition memcpy :: "u32 \<Rightarrow> u32 \<Rightarrow> u32 \<Rightarrow> mem \<Rightarrow> u32 \<times> mem" where
  "memcpy dst src count m =
     (if src AND 0x3 = 0 \<and> dst AND 0x3 = 0
      then (let (i, dst_tmp, src_tmp, m) = memcpy_words 0 count dst src m
            in if i \<le> unat (count - 1) then (dst, memcpy_bytes i count dst_tmp src_tmp m) else (dst, m))
      else (dst, memcpy_generic 0 count dst src m))"

text \<open>\<open>while (count--) { *d = c; d++; }\<close>\<close>

fun memset_loop :: "nat \<Rightarrow> u32 \<Rightarrow> u32 \<Rightarrow> mem \<Rightarrow> mem" where
  "memset_loop 0 d c m = m"
| "memset_loop (Suc count) d c m = memset_loop count (d + 1) c (m(d := ucast c))"

definition memset :: "u32 \<Rightarrow> u32 \<Rightarrow> u32 \<Rightarrow> mem \<Rightarrow> u32 \<times> mem" where
  "memset dest c count m = (dest, memset_loop (unat count) dest c m)"

partial_function (option) strlen_loop :: "u32 \<Rightarrow> mem \<Rightarrow> u32 option" where
  "strlen_loop sc m = (if m sc \<noteq> 0 then strlen_loop (sc + 1) m else Some sc)"

definition strlen :: "u32 \<Rightarrow> mem \<Rightarrow> u32 option" where
  "strlen s m = map_option (\<lambda>sc. sc - s) (strlen_loop s m)"

text \<open>\<open>for (str = s; *str != 0 && n--; ++str)\<close>\<close>

fun strnlen_loop :: "u32 \<Rightarrow> nat \<Rightarrow> mem \<Rightarrow> u32" where
  "strnlen_loop str 0 m = str"
| "strnlen_loop str (Suc n) m = (if m str \<noteq> 0 then strnlen_loop (str + 1) n m else str)"

definition strnlen :: "u32 \<Rightarrow> u32 \<Rightarrow> mem \<Rightarrow> u32" where
  "strnlen s n m = strnlen_loop s (unat n) m - s"

text \<open>\<open>while ((*dest++ = *src++) != 0)\<close>\<close>

partial_function (option) strcpy_loop :: "u32 \<Rightarrow> u32 \<Rightarrow> mem \<Rightarrow> mem option" where
  "strcpy_loop dest src m =
     (let c = m src; m = m(dest := c)
      in if c \<noteq> 0 then strcpy_loop (dest + 1) (src + 1) m else Some m)"

definition strcpy :: "u32 \<Rightarrow> u32 \<Rightarrow> mem \<Rightarrow> (u32 \<times> mem) option" where
  "strcpy dest src m = map_option (\<lambda>m. (dest, m)) (strcpy_loop dest src m)"

definition strcat :: "u32 \<Rightarrow> u32 \<Rightarrow> mem \<Rightarrow> (u32 \<times> mem) option" where
  "strcat dest src m =
     do { e \<leftarrow> strlen_loop dest m;
          m \<leftarrow> strcpy_loop e src m;
          Some (dest, m) }"

section \<open>Regions and strings\<close>

text \<open>The \<open>n\<close> bytes from \<open>p\<close>; \<open>xs\<close> stored at \<open>p\<close> with its terminator; separated regions.\<close>

definition region :: "u32 \<Rightarrow> nat \<Rightarrow> u32 set" where
  "region p n = {a. unat (a - p) < n}"

definition bytes_at :: "mem \<Rightarrow> u32 \<Rightarrow> nat \<Rightarrow> u8 list" where
  "bytes_at m p n = map (\<lambda>k. m (p + of_nat k)) [0..<n]"

fun cstr :: "mem \<Rightarrow> u32 \<Rightarrow> u8 list \<Rightarrow> bool" where
  "cstr m p [] = (m p = 0)"
| "cstr m p (x # xs) = (x \<noteq> 0 \<and> m p = x \<and> cstr m (p + 1) xs)"

definition copied :: "u32 \<Rightarrow> u32 \<Rightarrow> nat \<Rightarrow> mem \<Rightarrow> mem" where
  "copied dst src n m = (\<lambda>a. if a \<in> region dst n then m (src + (a - dst)) else m a)"

lemma region_0 [simp]: "region p 0 = {}"
  by (simp add: region_def)

lemma unat_minus_one_step: "a \<noteq> p \<Longrightarrow> unat (a - p) = Suc (unat (a - (p + 1)))" for a p :: u32
proof -
  assume "a \<noteq> p"
  then have "a - p \<noteq> 0" by simp
  then have "unat (a - p - 1) = unat (a - p) - 1" by (simp add: unat_minus_one)
  moreover have "0 < unat (a - p)" using \<open>a - p \<noteq> 0\<close> by (simp add: unat_gt_0)
  ultimately show ?thesis by (simp add: diff_diff_eq)
qed

lemma unat_m1 [simp]: "unat (- 1 :: u32) = 4294967295"
proof -
  have "(- 1 :: u32) = 4294967295" by simp
  then show ?thesis by (simp only: unat_numeral) simp
qed

lemma region_Suc: "Suc n \<le> 2 ^ 32 \<Longrightarrow> region p (Suc n) = insert p (region (p + 1) n)"
proof (rule set_eqI)
  fix x
  show "x \<in> region p (Suc n) \<longleftrightarrow> x \<in> insert p (region (p + 1) n)"
    by (cases "x = p") (simp_all add: region_def unat_minus_one_step)
qed

lemma start_notin_region: "Suc n \<le> 2 ^ 32 \<Longrightarrow> p \<notin> region (p + 1) n"
  by (simp add: region_def)

text \<open>Regions that do not wrap are intervals of addresses.\<close>

lemma region_interval:
  "unat p + n \<le> 2 ^ 32 \<Longrightarrow> a \<in> region p n \<longleftrightarrow> unat p \<le> unat a \<and> unat a < unat p + n"
proof (cases "p \<le> a")
  case True
  then show ?thesis by (auto simp: region_def unat_sub word_le_nat_alt)
next
  case False
  assume b: "unat p + n \<le> 2 ^ 32"
  have "a - p = of_nat (unat a + (2 ^ 32 - unat p))"
    using unat_bound [of p] by (simp add: of_nat_diff of_nat_unat)
  then have "unat (a - p) = (unat a + (2 ^ 32 - unat p)) mod 2 ^ 32" by (simp only: unat_of_nat) simp
  also have "\<dots> = unat a + (2 ^ 32 - unat p)"
    using False unat_bound [of p] by (intro mod_less) (simp add: word_le_nat_alt)
  finally show ?thesis using False b by (auto simp: region_def word_le_nat_alt)
qed

lemma region_disjoint:
  "unat p + n \<le> unat q \<Longrightarrow> unat q + k \<le> 2 ^ 32 \<Longrightarrow> region p n \<inter> region q k = {}"
  using unat_bound [of q] by (auto simp: region_interval)

section \<open>Copying byte by byte\<close>

fun copyn :: "nat \<Rightarrow> u32 \<Rightarrow> u32 \<Rightarrow> mem \<Rightarrow> mem" where
  "copyn 0 dst src m = m"
| "copyn (Suc n) dst src m = copyn n (dst + 1) (src + 1) (m(dst := m src))"

lemma copyn_add: "copyn (k + n) dst src m = copyn n (dst + of_nat k) (src + of_nat k) (copyn k dst src m)"
  by (induction k arbitrary: dst src m) (simp_all add: add.assoc)

lemma copyn_copied:
  "n \<le> 2 ^ 32 \<Longrightarrow> region dst n \<inter> region src n = {} \<Longrightarrow> copyn n dst src m = copied dst src n m"
proof (induction n arbitrary: dst src m)
  case 0
  then show ?case by (simp add: copied_def)
next
  case (Suc n)
  let ?m = "m(dst := m src)"
  have rd: "region dst (Suc n) = insert dst (region (dst + 1) n)"
    and rs: "region src (Suc n) = insert src (region (src + 1) n)"
    using Suc.prems(1) by (simp_all only: region_Suc)
  have "copyn n (dst + 1) (src + 1) ?m = copied (dst + 1) (src + 1) n ?m"
    using Suc.prems rd rs by (intro Suc.IH) auto
  moreover have "copied (dst + 1) (src + 1) n ?m a = copied dst src (Suc n) m a" for a
  proof (cases "a = dst")
    case True
    then show ?thesis using start_notin_region [OF Suc.prems(1)] by (simp add: copied_def rd)
  next
    case False
    have "src + (a - dst) \<in> region src (Suc n)" if "a \<in> region dst (Suc n)"
      using that by (simp add: region_def)
    moreover have "dst \<notin> region src (Suc n)" using Suc.prems(2) rd by auto
    ultimately have "a \<in> region dst (Suc n) \<Longrightarrow> src + (a - dst) \<noteq> dst" by metis
    moreover have "src + 1 + (a - (dst + 1)) = src + (a - dst)" by simp
    ultimately show ?thesis using False by (simp add: copied_def rd)
  qed
  ultimately show ?case by (auto simp: fun_eq_iff)
qed

lemma memcpy_bytes_copyn: "memcpy_bytes i count d s m = copyn (unat count - i) d s m"
proof (induction i count d s m rule: memcpy_bytes.induct)
  case (1 i count d s m)
  show ?case
  proof (cases "i < unat count")
    case True
    then have "unat count - i = Suc (unat count - (i + 1))" by simp
    with 1 True show ?thesis by (simp add: memcpy_bytes.simps [of i] fun_upd_def)
  next
    case False
    then show ?thesis by (simp add: memcpy_bytes.simps [of i])
  qed
qed

lemma memcpy_generic_copyn:
  "memcpy_generic i count d s m = copyn (unat count - i) (d + of_nat i) (s + of_nat i) m"
proof (induction i count d s m rule: memcpy_generic.induct)
  case (1 i count d s m)
  show ?case
  proof (cases "i < unat count")
    case True
    then have "unat count - i = Suc (unat count - (i + 1))" by simp
    with 1 True show ?thesis by (simp add: memcpy_generic.simps [of i] ac_simps fun_upd_def)
  next
    case False
    then show ?thesis by (simp add: memcpy_generic.simps [of i])
  qed
qed


lemma copy_word_copyn: "region dst 4 \<inter> region src 4 = {} \<Longrightarrow> copy_word dst src m = copyn 4 dst src m"
proof -
  assume dis: "region dst 4 \<inter> region src 4 = {}"
  have off: "dst + j \<noteq> src + k" if "unat j < 4" "unat k < 4" for j k
  proof
    assume "dst + j = src + k"
    moreover have "dst + j \<in> region dst 4" "src + k \<in> region src 4"
      using that by (simp_all add: region_def)
    ultimately show False using dis by auto
  qed
  have ne: "src + 1 \<noteq> dst" "src + 2 \<noteq> dst" "src + 3 \<noteq> dst" "src + 2 \<noteq> dst + 1" "src + 3 \<noteq> dst + 1"
    "src + 3 \<noteq> dst + 2"
    using off [of 0 1] off [of 0 2] off [of 0 3] off [of 1 2] off [of 1 3] off [of 2 3]
    by (auto simp: eq_commute)
  then show ?thesis by (simp add: copy_word_def eval_nat_numeral add.assoc)
qed

lemma region_shift: "k + n \<le> 2 ^ 32 \<Longrightarrow> region (p + of_nat k) n \<subseteq> region p (k + n)"
proof (induction k arbitrary: p)
  case 0
  then show ?case by simp
next
  case (Suc k)
  have "region (p + 1 + of_nat k) n \<subseteq> region (p + 1) (k + n)"
    using Suc.prems by (intro Suc.IH) simp
  also have "\<dots> \<subseteq> region p (Suc (k + n))"
    using Suc.prems by (subst region_Suc) auto
  finally show ?case by (simp add: add.assoc)
qed

lemma region_mono: "k \<le> n \<Longrightarrow> region p k \<subseteq> region p n"
  by (auto simp: region_def)

lemma memcpy_words_copyn:
  "i \<le> unat count \<Longrightarrow> region d (unat count - i) \<inter> region s (unat count - i) = {} \<Longrightarrow>
    \<exists>j. i \<le> j \<and> j \<le> unat count \<and>
      memcpy_words i count d s m = (j, d + of_nat (j - i), s + of_nat (j - i), copyn (j - i) d s m)"
proof (induction i count d s m rule: memcpy_words.induct)
  case (1 i count d s m)
  let ?n = "unat count - i"
  show ?case
  proof (cases "i < unat count \<and> i + 3 \<le> unat (count - 1)")
    case False
    with "1.prems"(1) show ?thesis
      by (intro exI [of _ i]) (auto simp: memcpy_words.simps [of i] not_le)
  next
    case True
    then have "count \<noteq> 0" by auto
    then have "i + 4 \<le> unat count" using True by (auto simp: unat_minus_one)
    then have n: "?n = 4 + (unat count - (i + 4))" by simp
    have bnd: "unat count < 2 ^ 32" by (rule unat_bound)
    then have sub: "region (p + of_nat 4) (unat count - (i + 4)) \<subseteq> region p ?n" "region p 4 \<subseteq> region p ?n" for p
      unfolding n by (intro region_shift region_mono; simp)+
    from sub(1) [of d] sub(1) [of s] "1.prems"(2)
    have "region (d + 4) (unat count - (i + 4)) \<inter> region (s + 4) (unat count - (i + 4)) = {}" by auto
    with "1.IH" True \<open>i + 4 \<le> unat count\<close> obtain j where j: "i + 4 \<le> j" "j \<le> unat count"
      "memcpy_words (i + 4) count (d + 4) (s + 4) (copy_word d s m) =
        (j, d + 4 + of_nat (j - (i + 4)), s + 4 + of_nat (j - (i + 4)),
         copyn (j - (i + 4)) (d + 4) (s + 4) (copy_word d s m))"
      by (auto simp: not_less)
    have "copy_word d s m = copyn 4 d s m"
      using sub(2) [of d] sub(2) [of s] "1.prems"(2) by (intro copy_word_copyn) auto
    then have "copyn (j - (i + 4)) (d + 4) (s + 4) (copy_word d s m) = copyn (j - i) d s m"
      using copyn_add [of 4 "j - (i + 4)" d s m] j(1) by simp
    moreover have "p + 4 + of_nat (j - (i + 4)) = p + of_nat (j - i)" for p :: u32
    proof -
      have "j - i = 4 + (j - (i + 4))" using j(1) by simp
      then have "of_nat (j - i) = (4 :: u32) + of_nat (j - (i + 4))"
        by (metis of_nat_add of_nat_numeral)
      then show ?thesis by (simp add: add.assoc)
    qed
    moreover have "memcpy_words i count d s m = memcpy_words (i + 4) count (d + 4) (s + 4) (copy_word d s m)"
      using True by (subst memcpy_words.simps) simp
    ultimately show ?thesis using j by (intro exI [of _ j]) simp
  qed
qed

lemma memcpy_copyn:
  assumes "region dst (unat count) \<inter> region src (unat count) = {}"
  shows "memcpy dst src count m = (dst, copyn (unat count) dst src m)"
proof (cases "src AND 0x3 = 0 \<and> dst AND 0x3 = 0")
  case False
  then show ?thesis by (auto simp: memcpy_def memcpy_generic_copyn)
next
  case True
  from memcpy_words_copyn [of 0 count dst src m] assms obtain j where
    j: "j \<le> unat count" "memcpy_words 0 count dst src m = (j, dst + of_nat j, src + of_nat j, copyn j dst src m)"
    by auto
  have "unat (count - 1) < j \<Longrightarrow> j = unat count"
    using j(1) by (cases "count = 0") (auto simp: unat_minus_one)
  moreover have "copyn (unat count - j) (dst + of_nat j) (src + of_nat j) (copyn j dst src m) =
      copyn (unat count) dst src m"
    using copyn_add [of j "unat count - j" dst src m] j(1) by simp
  ultimately show ?thesis
    using True j(2) by (auto simp: memcpy_def memcpy_bytes_copyn not_le)
qed

section \<open>Strings\<close>

lemma cstr_nth: "cstr m p xs \<longleftrightarrow>
    (\<forall>k < length xs. xs ! k \<noteq> 0 \<and> m (p + of_nat k) = xs ! k) \<and> m (p + of_nat (length xs)) = 0"
proof (induction xs arbitrary: p)
  case Nil
  then show ?case by simp
next
  case (Cons x xs)
  have "(\<forall>k < length (x # xs). Q k) \<longleftrightarrow> Q 0 \<and> (\<forall>k < length xs. Q (Suc k))" for Q
    by (auto simp: less_Suc_eq_0_disj)
  with Cons show ?case by (simp add: add.assoc)
qed

lemma cstr_length: "cstr m p xs \<Longrightarrow> length xs < 2 ^ 32"
proof (rule ccontr)
  assume s: "cstr m p xs" and "\<not> length xs < 2 ^ 32"
  then have "length xs mod 2 ^ 32 < length xs"
    by (meson less_le_trans mod_less_divisor not_le_imp_less zero_less_numeral zero_less_power)
  moreover have "(of_nat (length xs) :: u32) = of_nat (length xs mod 2 ^ 32)"
    by (simp add: word_unat_eq_iff unat_of_nat)
  ultimately show False using s by (metis cstr_nth)
qed

lemma strlen_loop_cstr: "cstr m p xs \<Longrightarrow> strlen_loop p m = Some (p + of_nat (length xs))"
  by (induction xs arbitrary: p) (subst strlen_loop.simps, simp add: add.assoc)+

lemma strlen_loop_returns:
  assumes "strlen_loop p m = Some e"
  shows "\<exists>xs. cstr m p xs"
proof (rule strlen_loop.raw_induct [where P = "\<lambda>p m e. \<exists>xs. cstr m p xs", OF _ assms])
  fix f :: "u32 \<Rightarrow> mem \<Rightarrow> u32 option" and p m e
  assume IH: "\<And>p m e. f p m = Some e \<Longrightarrow> \<exists>xs. cstr m p xs"
    and eq: "(if m p \<noteq> 0 then f (p + 1) m else Some p) = Some e"
  show "\<exists>xs. cstr m p xs"
  proof (cases "m p = 0")
    case True
    then have "cstr m p []" by simp
    then show ?thesis ..
  next
    case False
    with eq IH [of "p + 1" m e] obtain xs where "cstr m (p + 1) xs" by auto
    with False have "cstr m p (m p # xs)" by simp
    then show ?thesis ..
  qed
qed

lemma strnlen_loop_cstr: "cstr m p xs \<Longrightarrow> strnlen_loop p n m = p + of_nat (min (length xs) n)"
proof (induction xs arbitrary: p n)
  case Nil
  then show ?case by (cases n) simp_all
next
  case (Cons x xs)
  then show ?case by (cases n) (simp_all add: add.assoc)
qed

lemma cstr_upd: "a \<notin> region p (Suc (length xs)) \<Longrightarrow> length xs < 2 ^ 32 \<Longrightarrow> cstr (m(a := v)) p xs = cstr m p xs"
proof (induction xs arbitrary: p)
  case Nil
  then show ?case by (auto simp: region_def)
next
  case (Cons x xs)
  have "a \<noteq> p" "a \<notin> region (p + 1) (Suc (length xs))"
    using Cons.prems region_Suc [of "Suc (length xs)" p] by auto
  with Cons show ?case by simp
qed

lemma strcpy_loop_copyn:
  "cstr m src xs \<Longrightarrow> region dest (Suc (length xs)) \<inter> region src (Suc (length xs)) = {} \<Longrightarrow>
    strcpy_loop dest src m = Some (copyn (Suc (length xs)) dest src m)"
proof (induction xs arbitrary: dest src m)
  case Nil
  then show ?case by (subst strcpy_loop.simps) (simp add: Let_def)
next
  case (Cons x xs)
  have len: "length (x # xs) < 2 ^ 32" using Cons.prems(1) by (rule cstr_length)
  have r: "region p (Suc (length (x # xs))) = insert p (region (p + 1) (Suc (length xs)))" for p
    using len region_Suc [of "Suc (length xs)" p] by simp
  from Cons.prems r have "dest \<notin> region (src + 1) (Suc (length xs))" by auto
  with Cons.prems(1) len have "cstr (m(dest := m src)) (src + 1) xs" by (simp add: cstr_upd)
  with Cons.IH [of "m(dest := m src)" "src + 1" "dest + 1"] Cons.prems r
  show ?case by (subst strcpy_loop.simps) (auto simp: Let_def fun_upd_def)
qed

lemma copied_at: "k < n \<Longrightarrow> n \<le> 2 ^ 32 \<Longrightarrow> copied dst src n m (dst + of_nat k) = m (src + of_nat k)"
  by (simp add: copied_def region_def unat_of_nat)

lemma copied_outside: "a \<notin> region dst n \<Longrightarrow> copied dst src n m a = m a"
  by (simp add: copied_def)

lemma cstr_copied:
  "cstr m src xs \<Longrightarrow> cstr (copied dest src (Suc (length xs)) m) dest xs"
  using cstr_length [of m src xs] by (simp add: cstr_nth copied_at)

section \<open>Properties\<close>

text \<open>C12: \<open>memcpy\<close> copies exactly \<open>count\<close> bytes, less than 2 GiB, between separated regions, whatever the
  alignment of the two pointers (the word-wise path with its byte tail and the byte-wise path
  agree), changes no other byte and returns the destination.\<close>

theorem memcpy_correct:
  assumes "region dst (unat count) \<inter> region src (unat count) = {}" and "count < 2 ^ 31"
  shows "memcpy dst src count m = (dst, copied dst src (unat count) m)"
proof -
  have "unat count \<le> 2 ^ 32" using unat_bound [of count] by simp
  with assms(1) show ?thesis by (simp add: memcpy_copyn copyn_copied)
qed

theorem memcpy_correct_witness:
  "snd (memcpy 0x1000 0x2000 7 (\<lambda>a. ucast a)) 0x1006 = 6 \<and>
   snd (memcpy 0x1000 0x2000 7 (\<lambda>a. ucast a)) 0x1007 = 7"
proof -
  have "region 0x1000 (unat (7 :: u32)) \<inter> region 0x2000 (unat (7 :: u32)) = {}"
    by (rule region_disjoint) simp_all
  from memcpy_correct [OF this, of "\<lambda>a. ucast a"] show ?thesis
    by (simp add: copied_def region_def)
qed

text \<open>\<open>memset\<close> stores the low byte of the value in exactly \<open>count\<close> bytes.\<close>

lemma memset_correct:
  "memset dest c count m = (dest, \<lambda>a. if a \<in> region dest (unat count) then ucast c else m a)"
proof -
  have "n \<le> 2 ^ 32 \<Longrightarrow> memset_loop n d c m = (\<lambda>a. if a \<in> region d n then ucast c else m a)" for n d
  proof (induction n arbitrary: d m)
    case 0
    then show ?case by simp
  next
    case (Suc n)
    then show ?case by (simp add: region_Suc fun_eq_iff)
  qed
  moreover have "unat count \<le> 2 ^ 32" using unat_bound [of count] by simp
  ultimately show ?thesis by (simp add: memset_def)
qed

text \<open>\<open>strlen\<close> returns exactly on terminated strings, and then returns the number of
  bytes before the terminator.\<close>

lemma strlen_correct:
  "(strlen p m = Some n) \<longleftrightarrow> (\<exists>xs. cstr m p xs \<and> unat n = length xs)"
proof
  assume "strlen p m = Some n"
  then obtain e where e: "strlen_loop p m = Some e" "n = e - p" by (auto simp: strlen_def)
  from strlen_loop_returns [OF e(1)] obtain xs where xs: "cstr m p xs" ..
  with e strlen_loop_cstr [OF xs] cstr_length [OF xs] have "unat n = length xs"
    by (auto simp: unat_of_nat)
  with xs show "\<exists>xs. cstr m p xs \<and> unat n = length xs" by blast
next
  assume "\<exists>xs. cstr m p xs \<and> unat n = length xs"
  then obtain xs where "cstr m p xs" "n = of_nat (length xs)"
    by (metis of_nat_unat)
  then show "strlen p m = Some n" by (simp add: strlen_def strlen_loop_cstr)
qed

text \<open>\<open>strnlen\<close> returns the smaller of the string length and the limit.\<close>

lemma strnlen_correct:
  assumes "cstr m p xs"
  shows "unat (strnlen p n m) = min (length xs) (unat n)"
proof -
  have "min (length xs) (unat n) < 2 ^ 32" using unat_bound [of n] by simp
  then show ?thesis by (simp add: strnlen_def strnlen_loop_cstr [OF assms] unat_of_nat)
qed

text \<open>\<open>strcpy\<close> returns, leaves a copy of the string with its terminator at the destination
  and changes no byte outside it, when the destination does not meet the source string.\<close>

lemma strcpy_correct:
  assumes "cstr m src xs"
    and "region dest (Suc (length xs)) \<inter> region src (Suc (length xs)) = {}"
  shows "\<exists>m'. strcpy dest src m = Some (dest, m') \<and> cstr m' dest xs \<and>
    (\<forall>a. a \<notin> region dest (Suc (length xs)) \<longrightarrow> m' a = m a)"
proof -
  have "Suc (length xs) \<le> 2 ^ 32" using cstr_length [OF assms(1)] by simp
  then have "strcpy_loop dest src m = Some (copied dest src (Suc (length xs)) m)"
    using strcpy_loop_copyn [OF assms] copyn_copied [OF _ assms(2)] by (simp del: copyn.simps)
  then show ?thesis
    using cstr_copied [OF assms(1)] copied_outside by (simp add: strcpy_def)
qed

text \<open>\<open>strcat\<close> returns and leaves the concatenation of the two strings at the destination,
  when the source does not meet the bytes of the result.\<close>

lemma strcat_correct:
  assumes d: "cstr m dest ys" and s: "cstr m src xs"
    and sep: "region dest (Suc (length ys + length xs)) \<inter> region src (Suc (length xs)) = {}"
    and fits: "length ys + length xs < 2 ^ 32"
  shows "\<exists>m'. strcat dest src m = Some (dest, m') \<and> cstr m' dest (ys @ xs) \<and>
    (\<forall>a. a \<notin> region (dest + of_nat (length ys)) (Suc (length xs)) \<longrightarrow> m' a = m a)"
proof -
  let ?e = "dest + of_nat (length ys)" and ?n = "Suc (length xs)"
  let ?m = "copied ?e src ?n m"
  have "region ?e ?n \<subseteq> region dest (Suc (length ys + length xs))"
    using region_shift [of "length ys" ?n dest] fits by simp
  with sep have sep': "region ?e ?n \<inter> region src ?n = {}" by auto
  have "strcpy_loop ?e src m = Some ?m"
    using strcpy_loop_copyn [OF s sep'] copyn_copied [OF _ sep'] cstr_length [OF s] by (simp del: copyn.simps)
  then have res: "strcat dest src m = Some (dest, ?m)"
    by (simp add: strcat_def strlen_loop_cstr [OF d])
  have "?m (dest + of_nat k) = ys ! k" if "k < length ys" for k
  proof -
    have "dest + of_nat k - ?e = of_nat (2 ^ 32 - (length ys - k))"
      using that fits by (simp add: of_nat_diff)
    then have "unat (dest + of_nat k - ?e) = (2 ^ 32 - (length ys - k)) mod 2 ^ 32"
      by (simp only: unat_of_nat) simp
    also have "\<dots> = 2 ^ 32 - (length ys - k)" using that by (intro mod_less) simp
    finally have "unat (dest + of_nat k - ?e) = 2 ^ 32 - (length ys - k)" .
    then have "dest + of_nat k \<notin> region ?e ?n" using that fits by (simp add: region_def)
    then show ?thesis using d that by (simp add: copied_outside cstr_nth)
  qed
  moreover have "?m (?e + of_nat k) = m (src + of_nat k)" if "k \<le> length xs" for k
    using that fits by (intro copied_at) simp_all
  ultimately have "cstr ?m dest (ys @ xs)"
    using d s by (auto simp: cstr_nth nth_append not_less algebra_simps
        dest!: le_Suc_ex)
  with res copied_outside show ?thesis by simp
qed

end
