(* ===== verification/Machine.thy ===== *)
theory Machine
  imports Gic
begin

unbundle bit_operations_syntax

text \<open>
  The part of the ARMv7-A machine the monitor code of \<^verbatim>\<open>src/src/arch/armv7\<close> uses: banked core
  registers, SPSRs, the banked CP15 registers, SCR, the GIC CPU interface and a memory of
  words. Instructions are a datatype with an executable semantics, so that the assembly files
  are translated line by line into instruction lists.

  A memory cell is keyed by the byte address of its word; \<open>LDM\<close> and \<open>STM\<close> on the machine fault
  on addresses that are not word-aligned, and every address of the code is. SPSR in System mode
  does not exist (an access is unpredictable): it is a cell of its own that nothing else reads.
\<close>

section \<open>Words in memory\<close>

type_synonym wmem = "u32 \<Rightarrow> u32"

fun store_words :: "u32 \<Rightarrow> u32 list \<Rightarrow> wmem \<Rightarrow> wmem" where
  "store_words p [] m = m"
| "store_words p (w # ws) m = store_words (p + 4) ws (m(p := w))"

fun load_words :: "u32 \<Rightarrow> nat \<Rightarrow> wmem \<Rightarrow> u32 list" where
  "load_words p 0 m = []"
| "load_words p (Suc n) m = m p # load_words (p + 4) n m"

text \<open>The addresses of \<open>n\<close> words from \<open>p\<close>.\<close>

fun words :: "u32 \<Rightarrow> nat \<Rightarrow> u32 set" where
  "words p 0 = {}"
| "words p (Suc n) = insert p (words (p + 4) n)"

lemma words_iff: "a \<in> words p n \<longleftrightarrow> (\<exists>k < n. a = p + 4 * of_nat k)"
proof (induction n arbitrary: p)
  case 0
  then show ?case by simp
next
  case (Suc n)
  have "(\<exists>k < Suc n. Q k) \<longleftrightarrow> Q 0 \<or> (\<exists>k < n. Q (Suc k))" for Q
    by (auto simp: less_Suc_eq_0_disj)
  with Suc show ?case by (simp add: algebra_simps)
qed

lemma words_add: "words p (k + n) = words p k \<union> words (p + 4 * of_nat k) n"
  by (induction k arbitrary: p) (simp_all add: algebra_simps)

lemma length_load_words [simp]: "length (load_words p n m) = n"
  by (induction n arbitrary: p) simp_all

lemma load_words_add:
  "load_words p (k + n) m = load_words p k m @ load_words (p + 4 * of_nat k) n m"
  by (induction k arbitrary: p) (simp_all add: algebra_simps)

lemma store_words_append:
  "store_words p (xs @ ys) m = store_words (p + 4 * of_nat (length xs)) ys (store_words p xs m)"
  by (induction xs arbitrary: p m) (simp_all add: algebra_simps)

lemma store_words_upd_outside:
  "a \<notin> words p (length ws) \<Longrightarrow> store_words p ws (m(a := v)) = (store_words p ws m)(a := v)"
  by (induction ws arbitrary: p m) (auto simp: fun_upd_twist)

lemma store_words_outside: "a \<notin> words p (length ws) \<Longrightarrow> store_words p ws m a = m a"
  by (induction ws arbitrary: p m) simp_all

lemma load_words_cong: "(\<And>a. a \<in> words p n \<Longrightarrow> m a = m' a) \<Longrightarrow> load_words p n m = load_words p n m'"
  by (induction n arbitrary: p) simp_all

lemma four_times_neq_0:
  assumes "0 < k" "k < 2 ^ 30"
  shows "4 * of_nat k \<noteq> (0 :: u32)"
proof
  assume "4 * of_nat k = (0 :: u32)"
  then have "unat (of_nat (4 * k) :: u32) = 0" by simp
  moreover have "unat (of_nat (4 * k) :: u32) = 4 * k mod 2 ^ 32"
    by (simp only: unat_of_nat) simp
  moreover have "4 * k < 2 ^ 32" using assms by simp
  ultimately show False using assms by simp
qed

lemma start_notin_words: "Suc n \<le> 2 ^ 30 \<Longrightarrow> p \<notin> words (p + 4) n"
proof
  assume n: "Suc n \<le> 2 ^ 30" and "p \<in> words (p + 4) n"
  then obtain k where "k < n" "p = p + 4 + 4 * of_nat k" by (auto simp: words_iff)
  then have "4 * of_nat (Suc k) = (0 :: u32)" by simp
  then show False using four_times_neq_0 [of "Suc k"] \<open>k < n\<close> n by simp
qed

lemma load_store_words:
  "length ws \<le> 2 ^ 30 \<Longrightarrow> load_words p (length ws) (store_words p ws m) = ws"
proof (induction ws arbitrary: p m)
  case Nil
  then show ?case by simp
next
  case (Cons w ws)
  have "store_words (p + 4) ws (m(p := w)) p = w"
    using Cons.prems start_notin_words [of "length ws" p] by (subst store_words_outside) simp_all
  with Cons show ?case by simp
qed

text \<open>Pushing \<open>ys\<close> below \<open>xs\<close> leaves \<open>ys @ xs\<close> on the stack.\<close>

lemma store_words_below:
  "length (ys @ xs) \<le> 2 ^ 30 \<Longrightarrow> q = p + 4 * of_nat (length ys) \<Longrightarrow>
    store_words p ys (store_words q xs m) = store_words p (ys @ xs) m"
proof (induction ys arbitrary: p m)
  case Nil
  then show ?case by simp
next
  case (Cons y ys)
  have "words (p + 4) (length ys + length xs) = words (p + 4) (length ys) \<union> words q (length xs)"
    using Cons.prems(2) words_add [of "p + 4" "length ys" "length xs"] by (simp add: algebra_simps)
  moreover have "p \<notin> words (p + 4) (length ys + length xs)"
    using Cons.prems(1) start_notin_words [of "length ys + length xs" p] by simp
  ultimately have "(store_words q xs m)(p := y) = store_words q xs (m(p := y))"
    by (simp add: store_words_upd_outside)
  moreover have "store_words (p + 4) ys (store_words q xs (m(p := y))) = store_words (p + 4) (ys @ xs) (m(p := y))"
    using Cons.prems by (intro Cons.IH) (simp_all add: algebra_simps)
  ultimately show ?case by simp
qed

lemma load_store_other:
  "words p n \<inter> words q (length ws) = {} \<Longrightarrow> load_words p n (store_words q ws m) = load_words p n m"
  by (rule load_words_cong) (auto intro: store_words_outside)

section \<open>State\<close>

datatype bank = Usr | Fiq | Irq | Svc | Mon | Abt | Und

text \<open>\<open>R i\<close> are the registers shared by all modes but FIQ, \<open>Rfiq i\<close> the FIQ copies of r8-r12.\<close>

datatype preg = R nat | Rfiq nat | Sp bank | Lr bank | Spsr bank | SpsrSys

datatype cp15_reg = CSSELR | SCTLR | ACTLR | TTBR0 | TTBR1 | TTBCR | DACR | DFSR | IFSR | DFAR
  | IFAR | PAR | PRRR | NMRR | VBAR | FCSEIDR | CONTEXTIDR | TPIDRURW | TPIDRURO | TPIDRPRW

record cpu =
  regs :: "preg \<Rightarrow> u32"
  cpsr :: u32
  pc :: u32
  scr :: u32
  cp15 :: "bool \<Rightarrow> cp15_reg \<Rightarrow> u32"
  periphbase :: u32
  icc :: Cpu_Interface
  mem :: wmem

abbreviation USER_MODE :: u32 where "USER_MODE \<equiv> 0x10"
abbreviation FIQ_MODE :: u32 where "FIQ_MODE \<equiv> 0x11"
abbreviation IRQ_MODE :: u32 where "IRQ_MODE \<equiv> 0x12"
abbreviation SUPERVISOR_MODE :: u32 where "SUPERVISOR_MODE \<equiv> 0x13"
abbreviation MONITOR_MODE :: u32 where "MONITOR_MODE \<equiv> 0x16"
abbreviation ABORT_MODE :: u32 where "ABORT_MODE \<equiv> 0x17"
abbreviation UNDEFINED_MODE :: u32 where "UNDEFINED_MODE \<equiv> 0x1B"
abbreviation SYSTEM_MODE :: u32 where "SYSTEM_MODE \<equiv> 0x1F"
abbreviation SCR_NS_BIT :: u32 where "SCR_NS_BIT \<equiv> 0x1"
abbreviation SCR_FIQ_BIT :: u32 where "SCR_FIQ_BIT \<equiv> 0x4"
abbreviation SCR_IRQ_BIT :: u32 where "SCR_IRQ_BIT \<equiv> 0x2"

definition cmode :: "cpu \<Rightarrow> u32" where
  "cmode s = cpsr s AND 0x1F"

text \<open>User and System mode share their registers; the reserved mode numbers are never current
  in the code below.\<close>

definition bank_of :: "u32 \<Rightarrow> bank" where
  "bank_of md =
     (if md = FIQ_MODE then Fiq else if md = IRQ_MODE then Irq else if md = SUPERVISOR_MODE then Svc
      else if md = MONITOR_MODE then Mon else if md = ABORT_MODE then Abt
      else if md = UNDEFINED_MODE then Und else Usr)"

definition preg_of :: "u32 \<Rightarrow> nat \<Rightarrow> preg" where
  "preg_of md i =
     (if i < 8 then R i else if i < 13 then (if md = FIQ_MODE then Rfiq i else R i)
      else if i = 13 then Sp (bank_of md) else Lr (bank_of md))"

definition spsr_of :: "u32 \<Rightarrow> preg" where
  "spsr_of md = (if md = USER_MODE \<or> md = SYSTEM_MODE then SpsrSys else Spsr (bank_of md))"

definition rd :: "cpu \<Rightarrow> nat \<Rightarrow> u32" where
  "rd s i = regs s (preg_of (cmode s) i)"

definition wr :: "nat \<Rightarrow> u32 \<Rightarrow> cpu \<Rightarrow> cpu" where
  "wr i v s = s\<lparr>regs := (regs s)(preg_of (cmode s) i := v)\<rparr>"

definition wr_list :: "nat list \<Rightarrow> u32 list \<Rightarrow> cpu \<Rightarrow> cpu" where
  "wr_list rl vs s = s\<lparr>regs := fold (\<lambda>(i, v) r. r(preg_of (cmode s) i := v)) (zip rl vs) (regs s)\<rparr>"

definition wr_user :: "nat list \<Rightarrow> u32 list \<Rightarrow> cpu \<Rightarrow> cpu" where
  "wr_user rl vs s = s\<lparr>regs := fold (\<lambda>(i, v) r. r(preg_of USER_MODE i := v)) (zip rl vs) (regs s)\<rparr>"

text \<open>Code that runs in Monitor mode is Secure; SCR.NS selects the copy of a CP15 register it
  accesses. ACTLR is common to both worlds.\<close>

definition scr_ns :: "cpu \<Rightarrow> bool" where
  "scr_ns s = bit (scr s) 0"

definition cp15_bank :: "cpu \<Rightarrow> cp15_reg \<Rightarrow> bool" where
  "cp15_bank s r \<longleftrightarrow> scr_ns s \<and> r \<noteq> ACTLR"

definition cp15_rd :: "cpu \<Rightarrow> cp15_reg \<Rightarrow> u32" where
  "cp15_rd s r = cp15 s (cp15_bank s r) r"

definition cp15_wr :: "cp15_reg \<Rightarrow> u32 \<Rightarrow> cpu \<Rightarrow> cpu" where
  "cp15_wr r v s = s\<lparr>cp15 := (cp15 s)(cp15_bank s r := (cp15 s (cp15_bank s r))(r := v))\<rparr>"

section \<open>Instructions\<close>

text \<open>The C functions the monitor calls, and what a call leaves in the registers the procedure
  call standard does not preserve (r0-r3, r12, lr) and in memory. \<open>c_call\<close> keeps the others.\<close>

datatype cfun = board_handler_c | fiq_handler_c | interrupt_clear_c

record c_frame =
  scratch :: "nat \<Rightarrow> u32"
  c_mem :: "wmem \<Rightarrow> wmem"
  c_icc :: "Cpu_Interface \<Rightarrow> Cpu_Interface"

type_synonym c_env = "cfun \<Rightarrow> cpu \<Rightarrow> c_frame"

definition c_call :: "c_frame \<Rightarrow> cpu \<Rightarrow> cpu" where
  "c_call f s = (wr_list [0, 1, 2, 3, 12, 14] (map (scratch f) [0, 1, 2, 3, 12, 14]) s)
     \<lparr>mem := c_mem f (mem s), icc := c_icc f (icc s)\<rparr>"

datatype instr =
    MOV nat nat
  | MOVI nat u32
  | ADD nat nat u32
  | SUB nat nat u32
  | ORR nat nat u32
  | BIC nat nat u32
  | MRS_SPSR nat
  | MSR_SPSR nat
  | CPS u32
  | STMIA nat bool "nat list"
  | LDMIA nat bool "nat list"
  | STMFD nat bool "nat list"
  | STMFD_USER nat "nat list"
  | LDMFD_USER nat "nat list"
  | LDMFD_PC nat "nat list"
  | LDR nat nat u32
  | LDR_POST nat nat u32
  | STRW nat nat u32
  | MRC_SCR nat
  | MCR_SCR nat
  | MRC cp15_reg nat
  | MCR cp15_reg nat
  | MRC_PERIPHBASE nat
  | BL cfun
  | BARRIER
  | MOVS_PC_LR
  | BX_LR

abbreviation PUSH :: "nat list \<Rightarrow> instr" where "PUSH rl \<equiv> STMFD 13 True rl"
abbreviation POP :: "nat list \<Rightarrow> instr" where "POP rl \<equiv> LDMIA 13 True rl"

definition with_mode :: "u32 \<Rightarrow> u32 \<Rightarrow> u32" where
  "with_mode c md = (c AND NOT 0x1F) OR md"

definition set_mode :: "u32 \<Rightarrow> cpu \<Rightarrow> cpu" where
  "set_mode md s = s\<lparr>cpsr := with_mode (cpsr s) md\<rparr>"

definition bytes :: "'a list \<Rightarrow> u32" where
  "bytes xs = 4 * of_nat (length xs)"

text \<open>A load from the acknowledge register of the CPU interface (offset 0x100 + 0x0C of the
  private peripherals) is a device read; every other load reads memory.\<close>

definition ldr_at :: "nat \<Rightarrow> u32 \<Rightarrow> cpu \<Rightarrow> cpu" where
  "ldr_at t a s =
     (if a = periphbase s + 0x100 + 0x0C
      then wr t (fst (read_ICCIAR (icc s))) (s\<lparr>icc := snd (read_ICCIAR (icc s))\<rparr>)
      else wr t (mem s a) s)"

fun exec1 :: "c_env \<Rightarrow> instr \<Rightarrow> cpu \<Rightarrow> cpu" where
  "exec1 cc (MOV d n) s = wr d (rd s n) s"
| "exec1 cc (MOVI d v) s = wr d v s"
| "exec1 cc (ADD d n v) s = wr d (rd s n + v) s"
| "exec1 cc (SUB d n v) s = wr d (rd s n - v) s"
| "exec1 cc (ORR d n v) s = wr d (rd s n OR v) s"
| "exec1 cc (BIC d n v) s = wr d (rd s n AND NOT v) s"
| "exec1 cc (MRS_SPSR d) s = wr d (regs s (spsr_of (cmode s))) s"
| "exec1 cc (MSR_SPSR n) s = s\<lparr>regs := (regs s)(spsr_of (cmode s) := rd s n)\<rparr>"
| "exec1 cc (CPS md) s = set_mode md s"
| "exec1 cc (STMIA n wb rl) s =
     (let s' = s\<lparr>mem := store_words (rd s n) (map (rd s) rl) (mem s)\<rparr>
      in if wb then wr n (rd s n + bytes rl) s' else s')"
| "exec1 cc (LDMIA n wb rl) s =
     (let s' = wr_list rl (load_words (rd s n) (length rl) (mem s)) s
      in if wb then wr n (rd s n + bytes rl) s' else s')"
| "exec1 cc (STMFD n wb rl) s =
     (let s' = s\<lparr>mem := store_words (rd s n - bytes rl) (map (rd s) rl) (mem s)\<rparr>
      in if wb then wr n (rd s n - bytes rl) s' else s')"
| "exec1 cc (STMFD_USER n rl) s =
     s\<lparr>mem := store_words (rd s n - bytes rl) (map (\<lambda>i. regs s (preg_of USER_MODE i)) rl) (mem s)\<rparr>"
| "exec1 cc (LDMFD_USER n rl) s = wr_user rl (load_words (rd s n) (length rl) (mem s)) s"
| "exec1 cc (LDMFD_PC n rl) s =
     (let a = rd s n;
          s' = wr n (a + bytes rl + 4) (wr_list rl (load_words a (length rl) (mem s)) s)
      in s'\<lparr>pc := mem s (a + bytes rl), cpsr := regs s (spsr_of (cmode s))\<rparr>)"
| "exec1 cc (LDR t n off) s = ldr_at t (rd s n + off) s"
| "exec1 cc (LDR_POST t n off) s = wr n (rd s n + off) (ldr_at t (rd s n) s)"
| "exec1 cc (STRW t n off) s = s\<lparr>mem := (mem s)(rd s n + off := rd s t)\<rparr>"
| "exec1 cc (MRC_SCR t) s = wr t (scr s) s"
| "exec1 cc (MCR_SCR t) s = s\<lparr>scr := rd s t\<rparr>"
| "exec1 cc (MRC r t) s = wr t (cp15_rd s r) s"
| "exec1 cc (MCR r t) s = cp15_wr r (rd s t) s"
| "exec1 cc (MRC_PERIPHBASE t) s = wr t (periphbase s) s"
| "exec1 cc (BL f) s = c_call (cc f s) s"
| "exec1 cc BARRIER s = s"
| "exec1 cc MOVS_PC_LR s = s\<lparr>pc := rd s 14, cpsr := regs s (spsr_of (cmode s))\<rparr>"
| "exec1 cc BX_LR s = s\<lparr>pc := rd s 14\<rparr>"

fun exec :: "c_env \<Rightarrow> instr list \<Rightarrow> cpu \<Rightarrow> cpu" where
  "exec cc [] s = s"
| "exec cc (i # is) s = exec cc is (exec1 cc i s)"

lemma exec_append: "exec cc (p @ q) s = exec cc q (exec cc p s)"
  by (induction p arbitrary: s) simp_all

section \<open>Symbolic execution\<close>

lemma mode_of_with [simp]: "with_mode c md AND 0x1F = md AND 0x1F"
  by (simp only: with_mode_def bit.conj_disj_distrib2 and.assoc bit.conj_cancel_left
      bit.conj_zero_right or.left_neutral)

lemma with_with_mode [simp]:
  assumes "md AND 0x1F = md"
  shows "with_mode (with_mode c md) md' = with_mode c md'"
proof -
  have "md AND NOT 0x1F = md AND (0x1F AND NOT 0x1F)"
    by (subst assms [symmetric]) (simp only: and.assoc)
  then have "md AND NOT 0x1F = 0" by (simp only: bit.conj_cancel_right bit.conj_zero_right)
  then show ?thesis
    by (simp only: with_mode_def bit.conj_disj_distrib2 and.assoc and.idem or.right_neutral)
qed

lemma with_mode_same: "c AND 0x1F = md \<Longrightarrow> with_mode c md = c"
  by (rule bit_eqI) (auto simp: with_mode_def bit_simps)

lemmas machine = rd_def wr_def wr_list_def wr_user_def cmode_def preg_of_def bank_of_def spsr_of_def
  set_mode_def bytes_def Let_def

end
