(* ===== verification/Board.thy ===== *)
theory Board
  imports Machine
begin

unbundle bit_operations_syntax

text \<open>
  Register access (\<^verbatim>\<open>src/src/lib/io.c\<close>) and the TrustZone configuration of the boards
  (\<^verbatim>\<open>board.c\<close> of \<^verbatim>\<open>src/src/boards/zedboard\<close>, \<^verbatim>\<open>zybo\<close> and \<^verbatim>\<open>zc702\<close>; \<^verbatim>\<open>src/src/drivers/zynq/board.c\<close>
  is the file of zc702). The state is the memory map with the sequence of writes done,
  newest first, since what the lock of the system-level control registers protects depends on
  the order of the writes; what they do to a device whose control registers may be locked is
  \<open>device_write\<close>, after the reference manual of the device. The progress messages of \<open>printk\<close> are left out.
\<close>

section \<open>Register access\<close>

record io =
  io_mem :: wmem
  io_log :: "(u32 \<times> u32) list"

definition read32 :: "u32 \<Rightarrow> io \<Rightarrow> u32" where
  "read32 addr s = io_mem s addr"

definition write32 :: "u32 \<Rightarrow> u32 \<Rightarrow> io \<Rightarrow> io" where
  "write32 addr data s = s\<lparr>io_mem := (io_mem s)(addr := data), io_log := (addr, data) # io_log s\<rparr>"

section \<open>Configuration registers\<close>

abbreviation SECURITY_MOD2 :: u32 where "SECURITY_MOD2 \<equiv> 0xE0200000"
abbreviation SECURITY2_SDIO0 :: u32 where "SECURITY2_SDIO0 \<equiv> SECURITY_MOD2 + 0x8"
abbreviation SECURITY3_SDIO1 :: u32 where "SECURITY3_SDIO1 \<equiv> SECURITY_MOD2 + 0xC"
abbreviation SECURITY4_QSPI :: u32 where "SECURITY4_QSPI \<equiv> SECURITY_MOD2 + 0x10"
abbreviation SECURITY6_APBSL :: u32 where "SECURITY6_APBSL \<equiv> SECURITY_MOD2 + 0x18"
abbreviation SLCR_BASE :: u32 where "SLCR_BASE \<equiv> 0xF8000000"
abbreviation SLCR_LOCK_KEY :: u32 where "SLCR_LOCK_KEY \<equiv> 0x767B"
abbreviation SLCR_UNLOCK_KEY :: u32 where "SLCR_UNLOCK_KEY \<equiv> 0xDF0D"
abbreviation SLCR_LOCK :: u32 where "SLCR_LOCK \<equiv> SLCR_BASE + 0x4"
abbreviation SLCR_UNLOCK :: u32 where "SLCR_UNLOCK \<equiv> SLCR_BASE + 0x8"
abbreviation TZ_OCM_RAM0 :: u32 where "TZ_OCM_RAM0 \<equiv> SLCR_BASE + 0x400"
abbreviation TZ_OCM_RAM1 :: u32 where "TZ_OCM_RAM1 \<equiv> SLCR_BASE + 0x404"
abbreviation TZ_OCM :: u32 where "TZ_OCM \<equiv> SLCR_BASE + 0x408"
abbreviation TZ_DDR_RAM :: u32 where "TZ_DDR_RAM \<equiv> SLCR_BASE + 0x430"
abbreviation TZ_DMA_NS :: u32 where "TZ_DMA_NS \<equiv> SLCR_BASE + 0x440"
abbreviation TZ_DMA_IRQ_NS :: u32 where "TZ_DMA_IRQ_NS \<equiv> SLCR_BASE + 0x444"
abbreviation TZ_GEM :: u32 where "TZ_GEM \<equiv> SLCR_BASE + 0x450"
abbreviation SLCR_GEM0_RCLK_CTRL_ADDR :: u32 where "SLCR_GEM0_RCLK_CTRL_ADDR \<equiv> SLCR_BASE + 0x138"
abbreviation SLCR_GEM0_CLK_CTRL_ADDR :: u32 where "SLCR_GEM0_CLK_CTRL_ADDR \<equiv> SLCR_BASE + 0x140"
abbreviation SECURITY_MOD3 :: u32 where "SECURITY_MOD3 \<equiv> 0xF8900000"
abbreviation SECURITY_APB :: u32 where "SECURITY_APB \<equiv> SECURITY_MOD3 + 0x28"

section \<open>Initialisation\<close>

definition board_init_zedboard :: "io \<Rightarrow> u32 \<times> io" where
  "board_init_zedboard s =
     (let s = write32 SLCR_UNLOCK SLCR_UNLOCK_KEY s;
          s = write32 TZ_OCM_RAM0 0xffffffff s;
          s = write32 TZ_OCM_RAM1 0xffffffff s;
          s = write32 TZ_OCM 0xffffffff s;
          s = write32 TZ_DDR_RAM 0x0000007f s;
          s = write32 SECURITY2_SDIO0 0x1 s;
          s = write32 SECURITY3_SDIO1 0x1 s;
          s = write32 SECURITY4_QSPI 0x1 s;
          s = write32 SECURITY6_APBSL 0x00007dff s;
          s = write32 TZ_DMA_NS 0x0 s;
          s = write32 TZ_DMA_IRQ_NS 0x0 s;
          s = write32 TZ_GEM 0x3 s;
          gem_val = 0x00500801;
          s = write32 SLCR_GEM0_CLK_CTRL_ADDR gem_val s;
          s = write32 SLCR_GEM0_RCLK_CTRL_ADDR 0x00000001 s;
          s = write32 SECURITY_APB 0x3F s;
          s = write32 SLCR_LOCK SLCR_LOCK_KEY s
      in (TRUE, s))"

definition board_init_zybo :: "io \<Rightarrow> u32 \<times> io" where
  "board_init_zybo s =
     (let s = write32 SLCR_UNLOCK SLCR_UNLOCK_KEY s;
          s = write32 TZ_OCM_RAM0 0xffffffff s;
          s = write32 TZ_OCM_RAM1 0xffffffff s;
          s = write32 TZ_OCM 0xffffffff s;
          s = write32 TZ_DDR_RAM 0x0000007f s;
          s = write32 SECURITY2_SDIO0 0x1 s;
          s = write32 SECURITY3_SDIO1 0x1 s;
          s = write32 SECURITY4_QSPI 0x1 s;
          s = write32 SECURITY6_APBSL 0x00007fff s;
          s = write32 TZ_DMA_NS 0x0 s;
          s = write32 TZ_DMA_IRQ_NS 0x0 s;
          s = write32 TZ_GEM 0x3 s;
          s = write32 SECURITY_APB 0x3F s;
          s = write32 SLCR_LOCK SLCR_LOCK_KEY s
      in (TRUE, s))"

definition board_init_zc702 :: "io \<Rightarrow> u32 \<times> io" where
  "board_init_zc702 s =
     (let s = write32 SLCR_UNLOCK SLCR_UNLOCK_KEY s;
          s = write32 TZ_OCM_RAM0 0xffffffff s;
          s = write32 TZ_OCM_RAM1 0xffffffff s;
          s = write32 TZ_OCM 0xffffffff s;
          s = write32 TZ_DDR_RAM 0x00007fff s;
          s = write32 SECURITY2_SDIO0 0x1 s;
          s = write32 SECURITY3_SDIO1 0x1 s;
          s = write32 SECURITY4_QSPI 0x1 s;
          s = write32 SECURITY6_APBSL 0x00007fff s;
          s = write32 TZ_DMA_NS 0x0 s;
          s = write32 TZ_DMA_IRQ_NS 0x0 s;
          s = write32 TZ_GEM 0x3 s;
          s = write32 SECURITY_APB 0x3F s;
          s = write32 SLCR_LOCK SLCR_LOCK_KEY s
      in (TRUE, s))"

section \<open>System calls\<close>

text \<open>The \<open>int\<close> constants of the syscall header as the unsigned values \<open>switch\<close> compares.\<close>

abbreviation LTZVISOR_SCHED_SYSCALL :: u32 where "LTZVISOR_SCHED_SYSCALL \<equiv> 0x0ffffff1"
abbreviation LTZVISOR_READ_SYSCALL :: u32 where "LTZVISOR_READ_SYSCALL \<equiv> -30"
abbreviation LTZVISOR_WRITE_SYSCALL :: u32 where "LTZVISOR_WRITE_SYSCALL \<equiv> -31"

definition board_handler :: "u32 \<Rightarrow> u32 \<Rightarrow> u32 \<Rightarrow> u32 \<Rightarrow> io \<Rightarrow> u32 \<times> io" where
  "board_handler arg0 arg1 arg2 arg3 s =
     (if arg0 = LTZVISOR_READ_SYSCALL then (read32 arg1 s, s)
      else if arg0 = LTZVISOR_WRITE_SYSCALL then (arg0, write32 arg1 arg2 s)
      else (arg0, s))"

section \<open>The control registers\<close>

text \<open>
  What the writes do to the device. The system-level control registers of the Zynq (its reference manual, the lock of the SLCR block)
  ignore every write while they are locked; the unlock and the lock register open and close them when their key is
  written. \<open>bus_after\<close> is the device after the writes of an initialisation, in their order.
\<close>

record bus =
  slcr_locked :: bool
  bus_regs :: wmem

definition in_slcr :: "u32 \<Rightarrow> bool" where
  "in_slcr a \<longleftrightarrow> SLCR_BASE \<le> a \<and> a < SLCR_BASE + 0x1000"

fun device_write :: "u32 \<times> u32 \<Rightarrow> bus \<Rightarrow> bus" where
  "device_write (a, v) d =
     (if \<not> in_slcr a then d\<lparr>bus_regs := (bus_regs d)(a := v)\<rparr>
      else if a = SLCR_UNLOCK then if v = SLCR_UNLOCK_KEY then d\<lparr>slcr_locked := False\<rparr> else d
      else if a = SLCR_LOCK then if v = SLCR_LOCK_KEY then d\<lparr>slcr_locked := True\<rparr> else d
      else if slcr_locked d then d
      else d\<lparr>bus_regs := (bus_regs d)(a := v)\<rparr>)"

definition bus_after :: "(io \<Rightarrow> u32 \<times> io) \<Rightarrow> bus \<Rightarrow> bus" where
  "bus_after init d = fold device_write (rev (io_log (snd (init \<lparr>io_mem = bus_regs d, io_log = []\<rparr>)))) d"

text \<open>Bit \<open>k\<close> of \<open>TZ_DDR_RAM\<close> makes the \<open>k\<close>-th segment of 64 MB Non-secure.\<close>

definition ddr_ns :: "bus \<Rightarrow> u32 \<Rightarrow> bool" where
  "ddr_ns d a = bit (bus_regs d TZ_DDR_RAM) (unat a div 2 ^ 26)"

lemma locked_stays:
  "slcr_locked d \<Longrightarrow> (SLCR_UNLOCK, SLCR_UNLOCK_KEY) \<notin> set ws \<Longrightarrow> in_slcr a \<Longrightarrow>
    slcr_locked (fold device_write ws d) \<and> bus_regs (fold device_write ws d) a = bus_regs d a"
proof (induction ws arbitrary: d)
  case Nil
  then show ?case by simp
next
  case (Cons w ws)
  obtain b v where w: "w = (b, v)" by (cases w)
  have "slcr_locked (device_write w d) \<and> bus_regs (device_write w d) a = bus_regs d a" using Cons.prems by (auto simp: w)
  then show ?case using Cons.IH [of "device_write w d"] Cons.prems by simp
qed

section \<open>The contract of a board\<close>

text \<open>
  A TrustZone configuration unlocks the control registers first and locks them last, touches
  the lock in no other write, and splits the DDR between the worlds. \<open>ns\<close> and \<open>s\<close> are the address ranges the
  board's linker script gives the two worlds.
\<close>

fun unlocked_writes :: "bool \<Rightarrow> (u32 \<times> u32) list \<Rightarrow> bool" where
  "unlocked_writes open [] = (\<not> open)"
| "unlocked_writes open ((a, v) # ws) =
     (if a = SLCR_UNLOCK \<and> v = SLCR_UNLOCK_KEY then \<not> open \<and> unlocked_writes True ws
      else if a = SLCR_LOCK \<and> v = SLCR_LOCK_KEY then open \<and> unlocked_writes False ws
      else open \<and> a \<noteq> SLCR_UNLOCK \<and> a \<noteq> SLCR_LOCK \<and> unlocked_writes open ws)"

locale tz_board =
  fixes init :: "io \<Rightarrow> u32 \<times> io"
    and cfg :: "(u32 \<times> u32) list"
    and ddr :: u32
    and ns_first ns_last s_first s_last :: u32
  assumes init_writes: "init s = (TRUE, fold (\<lambda>(a, v). write32 a v) cfg s)"
    and cfg_unlocked: "unlocked_writes False cfg"
    and cfg_distinct: "distinct (map fst cfg)"
    and cfg_ddr: "(TZ_DDR_RAM, ddr) \<in> set cfg"
    and segments: "k < 16 \<Longrightarrow>
      (unat ns_first div 2 ^ 26 \<le> k \<and> k \<le> unat ns_last div 2 ^ 26 \<longrightarrow> bit ddr k) \<and>
      (unat s_first div 2 ^ 26 \<le> k \<and> k \<le> unat s_last div 2 ^ 26 \<longrightarrow> \<not> bit ddr k)"
    and ranges: "unat ns_last < 2 ^ 30" "unat s_last < 2 ^ 30"
begin

lemma log_writes: "io_log (fold (\<lambda>(a, v). write32 a v) ws s) = rev ws @ io_log s"
  by (induction ws arbitrary: s) (auto simp: write32_def)

lemma open_writes:
  assumes "unlocked_writes (\<not> slcr_locked d) ws" "distinct (map fst ws)"
  shows "slcr_locked (fold device_write ws d) \<and>
    (\<forall>a. a \<notin> fst ` set ws \<longrightarrow> bus_regs (fold device_write ws d) a = bus_regs d a) \<and>
    (\<forall>(a, v) \<in> set ws. a \<noteq> SLCR_UNLOCK \<and> a \<noteq> SLCR_LOCK \<longrightarrow> bus_regs (fold device_write ws d) a = v)"
  using assms
proof (induction ws arbitrary: d)
  case Nil
  then show ?case by simp
next
  case (Cons w ws)
  obtain b u where w: "w = (b, u)" by (cases w)
  let ?d = "device_write w d"
  have "unlocked_writes (\<not> slcr_locked ?d) ws" and "\<forall>a. a \<noteq> b \<longrightarrow> bus_regs ?d a = bus_regs d a"
    and b: "b \<noteq> SLCR_UNLOCK \<and> b \<noteq> SLCR_LOCK \<longrightarrow> bus_regs ?d b = u"
    using Cons.prems(1) by (auto simp: w in_slcr_def split: if_splits)
  moreover have "b \<notin> fst ` set ws" "distinct (map fst ws)" using Cons.prems(2) by (simp_all add: w)
  ultimately show ?case using Cons.IH [of ?d] by (auto simp: w)
qed

theorem init_bus:
  "slcr_locked (bus_after init d) \<and> bus_regs (bus_after init d) TZ_DDR_RAM = ddr"
proof -
  obtain w ws where c: "cfg = w # ws" using cfg_ddr by (cases cfg) auto
  have w: "w = (SLCR_UNLOCK, SLCR_UNLOCK_KEY)" "unlocked_writes True ws"
    using cfg_unlocked by (cases w; simp add: c split: if_splits)+
  have "bus_after init d = fold device_write cfg d" by (simp add: bus_after_def init_writes log_writes)
  moreover have "\<not> slcr_locked (device_write w d)" by (simp add: w in_slcr_def)
  moreover have "distinct (map fst ws)" "(TZ_DDR_RAM, ddr) \<in> set ws" using cfg_distinct cfg_ddr by (auto simp: c w)
  ultimately show ?thesis using open_writes [of "device_write w d" ws] w(2) by (auto simp: c)
qed

text \<open>The partition, whatever is written later without the key of the lock.\<close>

theorem init_partition:
  assumes "(SLCR_UNLOCK, SLCR_UNLOCK_KEY) \<notin> set ws"
  shows "(ns_first \<le> a \<and> a \<le> ns_last \<longrightarrow> ddr_ns (fold device_write ws (bus_after init d)) a) \<and>
   (s_first \<le> a \<and> a \<le> s_last \<longrightarrow> \<not> ddr_ns (fold device_write ws (bus_after init d)) a)"
proof -
  let ?k = "unat a div 2 ^ 26"
  have "in_slcr TZ_DDR_RAM" by (simp add: in_slcr_def)
  with locked_stays [OF _ assms] init_bus have v: "bus_regs (fold device_write ws (bus_after init d)) TZ_DDR_RAM = ddr" by metis
  have le: "a \<le> b \<Longrightarrow> ?k \<le> unat b div 2 ^ 26" and ge: "b \<le> a \<Longrightarrow> unat b div 2 ^ 26 \<le> ?k" for b
    by (simp_all add: word_le_nat_alt div_le_mono)
  have small: "unat b div 2 ^ 26 < 16" if "unat b < 2 ^ 30" for b :: u32
    using that by (intro less_mult_imp_div_less) simp
  have "bit ddr ?k" if "ns_first \<le> a" "a \<le> ns_last"
    using segments [of ?k] ge [OF that(1)] le [OF that(2)] small [OF ranges(1)] by simp
  moreover have "\<not> bit ddr ?k" if "s_first \<le> a" "a \<le> s_last"
    using segments [of ?k] ge [OF that(1)] le [OF that(2)] small [OF ranges(2)] by simp
  ultimately show ?thesis unfolding ddr_ns_def v by blast
qed

theorem init_log: "io_log (snd (init s)) = rev cfg @ io_log s"
  by (simp add: init_writes log_writes)

end

lemma less_16_cases: "k < 16 \<Longrightarrow> k \<in> {0, 1, 2, 3, 4, 5, 6, 7, 8, 9, 10, 11, 12, 13, 14, 15}" for k :: nat
  by (simp add: eval_nat_numeral less_Suc_eq)

definition zedboard_cfg :: "(u32 \<times> u32) list" where
  "zedboard_cfg = [(SLCR_UNLOCK, SLCR_UNLOCK_KEY), (TZ_OCM_RAM0, 0xffffffff),
     (TZ_OCM_RAM1, 0xffffffff), (TZ_OCM, 0xffffffff), (TZ_DDR_RAM, 0x7f), (SECURITY2_SDIO0, 1),
     (SECURITY3_SDIO1, 1), (SECURITY4_QSPI, 1), (SECURITY6_APBSL, 0x7dff), (TZ_DMA_NS, 0),
     (TZ_DMA_IRQ_NS, 0), (TZ_GEM, 3), (SLCR_GEM0_CLK_CTRL_ADDR, 0x00500801),
     (SLCR_GEM0_RCLK_CTRL_ADDR, 1), (SECURITY_APB, 0x3F), (SLCR_LOCK, SLCR_LOCK_KEY)]"

definition zybo_cfg :: "u32 \<Rightarrow> (u32 \<times> u32) list" where
  "zybo_cfg ddr = [(SLCR_UNLOCK, SLCR_UNLOCK_KEY), (TZ_OCM_RAM0, 0xffffffff),
     (TZ_OCM_RAM1, 0xffffffff), (TZ_OCM, 0xffffffff), (TZ_DDR_RAM, ddr), (SECURITY2_SDIO0, 1),
     (SECURITY3_SDIO1, 1), (SECURITY4_QSPI, 1), (SECURITY6_APBSL, 0x7fff), (TZ_DMA_NS, 0),
     (TZ_DMA_IRQ_NS, 0), (TZ_GEM, 3), (SECURITY_APB, 0x3F), (SLCR_LOCK, SLCR_LOCK_KEY)]"

interpretation zed: tz_board board_init_zedboard zedboard_cfg "0x7f"
  "0x00100000" "0x1BFFFFFE" "0x1C000000" "0x1FF0000F"
proof (unfold_locales, goal_cases)
  case (1 s)
  then show ?case by (simp add: board_init_zedboard_def zedboard_cfg_def Let_def)
next
  case (5 k)
  from less_16_cases [OF this] show ?case by auto
qed (simp_all add: zedboard_cfg_def)

interpretation zyb: tz_board board_init_zybo "zybo_cfg 0x7f" "0x7f"
  "0x00100000" "0x1BFFFFFE" "0x1C000000" "0x1FEFFFFF"
proof (unfold_locales, goal_cases)
  case (1 s)
  then show ?case by (simp add: board_init_zybo_def zybo_cfg_def Let_def)
next
  case (5 k)
  from less_16_cases [OF this] show ?case by auto
qed (simp_all add: zybo_cfg_def)

interpretation zc7: tz_board board_init_zc702 "zybo_cfg 0x7fff" "0x7fff"
  "0x00100000" "0x3BFFFFFF" "0x3C000000" "0x3FFFFFFF"
proof (unfold_locales, goal_cases)
  case (1 s)
  then show ?case by (simp add: board_init_zc702_def zybo_cfg_def Let_def)
next
  case (5 k)
  from less_16_cases [OF this] show ?case by auto
qed (simp_all add: zybo_cfg_def)

section \<open>Properties\<close>

text \<open>C7: On every board \<open>board_init\<close> splits the DDR as the linker script lays it out, and the split lasts. Whatever the control registers
  held before and whether they were locked or not, after its writes they are locked, each address of the Non-secure range is in a
  Non-secure segment and each address of the range that holds the hypervisor and the Secure guest in a Secure one; and no
  sequence of later writes, of either world, to any addresses, changes this unless it writes the key of the lock.\<close>

theorem board_init_partitions_ddr:
  assumes "(SLCR_UNLOCK, SLCR_UNLOCK_KEY) \<notin> set ws"
  shows "(\<forall>init \<in> {board_init_zedboard, board_init_zybo, board_init_zc702}. slcr_locked (fold device_write ws (bus_after init d))) \<and>
   (\<forall>init \<in> {board_init_zedboard, board_init_zybo}.
     (a \<in> {0x00100000..0x1BFFFFFE} \<longrightarrow> ddr_ns (fold device_write ws (bus_after init d)) a) \<and>
     (a \<in> {0x1C000000..0x1FEFFFFF} \<longrightarrow> \<not> ddr_ns (fold device_write ws (bus_after init d)) a)) \<and>
   (a \<in> {0x00100000..0x3BFFFFFF} \<longrightarrow> ddr_ns (fold device_write ws (bus_after board_init_zc702 d)) a) \<and>
   (a \<in> {0x3C000000..0x3FFFFFFF} \<longrightarrow> \<not> ddr_ns (fold device_write ws (bus_after board_init_zc702 d)) a)"
proof -
  have "a \<le> 0x1FEFFFFF \<Longrightarrow> a \<le> 0x1FF0000F" by (erule order_trans) simp
  moreover have "in_slcr SLCR_LOCK" by (simp add: in_slcr_def)
  ultimately show ?thesis
    using zed.init_partition [OF assms, of a d] zyb.init_partition [OF assms, of a d] zc7.init_partition [OF assms, of a d]
      locked_stays [OF _ assms] zed.init_bus zyb.init_bus zc7.init_bus
    by (simp add: atLeastAtMost_iff)
qed

theorem board_init_partitions_ddr_witness:
  "let d = bus_after board_init_zedboard \<lparr>slcr_locked = True, bus_regs = (\<lambda>_. 0)\<rparr>; d' = fold device_write [(TZ_DDR_RAM, 0xFFFFFFFF)] d
   in slcr_locked d' \<and> ddr_ns d' 0x00100000 \<and> \<not> ddr_ns d' 0x1C000000"
proof -
  let ?d = "\<lparr>slcr_locked = True, bus_regs = (\<lambda>_. 0)\<rparr>"
  have k: "(SLCR_UNLOCK, SLCR_UNLOCK_KEY) \<notin> set [(TZ_DDR_RAM, 0xFFFFFFFF :: u32)]" by simp
  show ?thesis unfolding Let_def
    using board_init_partitions_ddr [OF k, where d = ?d and a = "0x00100000"] board_init_partitions_ddr [OF k, where d = ?d and a = "0x1C000000"]
    by (simp del: fold.simps device_write.simps)
qed

text \<open>\<open>board_init\<close> always succeeds, and on every board its writes follow the discipline of the
  control-register lock: it is opened once, by the first write, every other register is written
  while it is open, and the last write closes it.\<close>

lemma board_init_lock_discipline:
  "fst (board_init_zedboard s) = TRUE \<and> fst (board_init_zybo s) = TRUE \<and> fst (board_init_zc702 s) = TRUE \<and>
   (\<exists>ws. io_log (snd (board_init_zedboard s)) = rev ws @ io_log s \<and> unlocked_writes False ws \<and> length ws = 16) \<and>
   (\<exists>ws. io_log (snd (board_init_zybo s)) = rev ws @ io_log s \<and> unlocked_writes False ws \<and> length ws = 14) \<and>
   (\<exists>ws. io_log (snd (board_init_zc702 s)) = rev ws @ io_log s \<and> unlocked_writes False ws \<and> length ws = 14)"
proof -
  have "length zedboard_cfg = 16" "length (zybo_cfg v) = 14" for v
    by (simp_all add: zedboard_cfg_def zybo_cfg_def)
  then show ?thesis
    using zed.init_log zed.cfg_unlocked zyb.init_log zyb.cfg_unlocked zc7.init_log zc7.cfg_unlocked
    by (simp add: zed.init_writes zyb.init_writes zc7.init_writes)
qed

text \<open>The handler of the board's system calls restricts no address: a read call returns the
  word at any address its caller names, a write call changes exactly that word, and any other
  number returns its own number and changes nothing.\<close>

lemma board_handler_behaviour:
  "board_handler LTZVISOR_READ_SYSCALL a x y s = (io_mem s a, s) \<and>
   fst (board_handler LTZVISOR_WRITE_SYSCALL a v y s) = LTZVISOR_WRITE_SYSCALL \<and>
   io_mem (snd (board_handler LTZVISOR_WRITE_SYSCALL a v y s)) = (io_mem s)(a := v) \<and>
   (n \<notin> {LTZVISOR_READ_SYSCALL, LTZVISOR_WRITE_SYSCALL} \<longrightarrow> board_handler n a v y s = (n, s))"
  by (simp add: board_handler_def read32_def write32_def)

end
