(* ===== verification/Monitor.thy ===== *)
theory Monitor
  imports Machine Board
begin

unbundle bit_operations_syntax

text \<open>
  The monitor, \<^verbatim>\<open>src/src/arch/armv7/cpu_monitor.S\<close>, and the CP15 context of
  \<^verbatim>\<open>cpu_cp15_switch.S\<close>, one instruction list per macro or label, line by line. The Secure world
  calls the scheduler with an SMC, which saves the Secure registers on the monitor stack and
  resumes the Non-secure guest from its context; a FIQ taken while the guest runs saves the
  guest, services the interrupt and resumes the Secure world from the monitor stack.

  \<open>a_interrupt\<close> is the address of the C variable \<open>interrupt\<close>. What the compiled C functions
  leave in the registers they may change is a parameter (\<open>c_env\<close>).
\<close>

section \<open>Layout of the saved contexts\<close>

text \<open>\<open>struct core_regs\<close>, the first member of \<open>tzmachine\<close>: one word per register, in this order.\<close>

definition core_regs :: "preg list" where
  "core_regs = [R 0, R 1, R 2, R 3, R 4, R 5, R 6, R 7, R 8, R 9, R 10, R 11, R 12,
     Spsr Mon, Lr Mon, Spsr Svc, Sp Svc, Lr Svc, SpsrSys, Sp Usr, Lr Usr,
     Spsr Abt, Sp Abt, Lr Abt, Spsr Und, Sp Und, Lr Und, Spsr Irq, Sp Irq, Lr Irq]"

text \<open>What \<open>_mon_scheduler\<close> keeps of the Secure world on the monitor stack, from the top down.\<close>

definition s_frame :: "preg list" where
  "s_frame = [Spsr Fiq, Lr Fiq, Rfiq 8, Rfiq 9, Rfiq 10, Rfiq 11, Rfiq 12, Sp Fiq, Spsr Mon, Lr Mon,
     R 0, R 1, R 2, R 3, R 4, R 5, R 6, R 7, R 8, R 9, R 10, R 11, R 12, Sp Usr, Lr Usr]"

abbreviation ASM_R4_OFFSET :: u32 where "ASM_R4_OFFSET \<equiv> 16"
abbreviation ASM_ARCH_REGS_OFFSET :: u32 where "ASM_ARCH_REGS_OFFSET \<equiv> 0"
abbreviation ASM_GIC_INT_ID :: u32 where "ASM_GIC_INT_ID \<equiv> 12"

section \<open>Macros\<close>

definition SCR_NS_SET :: "instr list" where
  "SCR_NS_SET =
     [PUSH [0], MRC_SCR 0, ORR 0 0 SCR_NS_BIT, ORR 0 0 SCR_FIQ_BIT, BIC 0 0 SCR_IRQ_BIT,
      MCR_SCR 0, POP [0]]"

definition SCR_NS_CLEAR :: "instr list" where
  "SCR_NS_CLEAR =
     [PUSH [0], MRC_SCR 0, BIC 0 0 SCR_NS_BIT, BIC 0 0 SCR_FIQ_BIT, ORR 0 0 SCR_IRQ_BIT,
      MCR_SCR 0, POP [0]]"

definition GET_NS_WORLD_CONTEXT :: "instr list" where
  "GET_NS_WORLD_CONTEXT = [MRC TPIDRPRW 0, ADD 0 0 ASM_ARCH_REGS_OFFSET]"

definition WORLD_CONTEXT_SAVE :: "instr list" where
  "WORLD_CONTEXT_SAVE =
     [MOV 4 0, POP [0, 1, 2, 3], STMIA 4 False [0, 1, 2, 3], MOV 3 4, ADD 4 4 ASM_R4_OFFSET,
      MOV 0 4, POP [4, 14], STMIA 0 True [4, 5, 6, 7, 8, 9, 10, 11, 12],
      MRS_SPSR 1, STMIA 0 True [1, 14],
      CPS SUPERVISOR_MODE, MRS_SPSR 1, STMIA 0 True [1, 13, 14],
      CPS SYSTEM_MODE, MRS_SPSR 1, STMIA 0 True [1, 13, 14],
      CPS ABORT_MODE, MRS_SPSR 1, STMIA 0 True [1, 13, 14],
      CPS UNDEFINED_MODE, MRS_SPSR 1, STMIA 0 True [1, 13, 14],
      CPS IRQ_MODE, MRS_SPSR 1, STMIA 0 True [1, 13, 14],
      CPS MONITOR_MODE]"

definition WORLD_CONTEXT_RESTORE :: "instr list" where
  "WORLD_CONTEXT_RESTORE =
     [MOV 4 0, LDMIA 4 True [0, 1, 2, 3], PUSH [0, 1], MOV 0 4,
      LDMIA 0 True [4, 5, 6, 7, 8, 9, 10, 11, 12], LDMIA 0 True [1, 14], MSR_SPSR 1,
      CPS SUPERVISOR_MODE, LDMIA 0 True [1, 13, 14], MSR_SPSR 1,
      CPS SYSTEM_MODE, LDMIA 0 True [1, 13, 14], MSR_SPSR 1,
      CPS ABORT_MODE, LDMIA 0 True [1, 13, 14], MSR_SPSR 1,
      CPS UNDEFINED_MODE, LDMIA 0 True [1, 13, 14], MSR_SPSR 1,
      CPS IRQ_MODE, LDMIA 0 True [1, 13, 14], MSR_SPSR 1,
      CPS MONITOR_MODE, POP [0, 1]]"

definition exception_return_arg :: "instr list" where
  "exception_return_arg =
     [LDMIA 13 True [1], MSR_SPSR 1, PUSH [1], MOVI 1 0, BARRIER, POP [1],
      LDMFD_PC 13 [1, 2, 3, 4, 5, 6, 7, 8, 9, 10, 11, 12]]"

definition call_c_function_arg :: "cfun \<Rightarrow> instr list" where
  "call_c_function_arg func_name =
     [STMFD 13 True [1, 2, 3, 4, 5, 6, 7, 8, 9, 10, 11, 12, 14], MRS_SPSR 4, STMFD 13 True [4],
      BL func_name]"

section \<open>Handlers\<close>

definition board_smc :: "instr list" where
  "board_smc = call_c_function_arg board_handler_c @ exception_return_arg"

definition mon_scheduler_save :: "instr list" where
  "mon_scheduler_save =
     [STMFD_USER 13 [0, 1, 2, 3, 4, 5, 6, 7, 8, 9, 10, 11, 12, 13, 14], SUB 13 13 (15 * 4),
      MRS_SPSR 0, STMFD 13 False [0, 14], SUB 13 13 (2 * 4),
      MOV 0 13, CPS FIQ_MODE, STMFD 0 False [8, 9, 10, 11, 12, 13], SUB 0 0 (6 * 4),
      MRS_SPSR 1, STMFD 0 False [1, 14], SUB 0 0 (2 * 4),
      CPS MONITOR_MODE, MOV 13 0]"

definition mon_scheduler :: "instr list" where
  "mon_scheduler =
     mon_scheduler_save @ GET_NS_WORLD_CONTEXT @ WORLD_CONTEXT_RESTORE @ SCR_NS_SET @
     [BARRIER, BARRIER, MOVS_PC_LR]"

definition mon_fiq_entry :: "u32 \<Rightarrow> instr list" where
  "mon_fiq_entry a_interrupt =
     [SUB 14 14 4, PUSH [4, 14], PUSH [0, 1, 2, 3],
      MRC_PERIPHBASE 0, ADD 0 0 0x0100, LDR 1 0 ASM_GIC_INT_ID, MOVI 2 a_interrupt, STRW 1 2 0,
      LDR 0 0 0x0C]"

definition mon_fiq_service :: "u32 \<Rightarrow> instr list" where
  "mon_fiq_service a_interrupt =
     [MOVI 2 a_interrupt, LDR 0 2 0, BL fiq_handler_c,
      MOVI 2 a_interrupt, LDR 0 2 0, MOVI 1 0x00, BL interrupt_clear_c]"

definition mon_fiq_exit :: "instr list" where
  "mon_fiq_exit =
     [POP [1, 2], MOV 0 13, CPS FIQ_MODE, MSR_SPSR 1, MOV 14 2, LDMIA 0 False [8, 9, 10, 11, 12, 13],
      ADD 0 0 (6 * 4), CPS MONITOR_MODE, MOV 13 0,
      POP [0, 1], MSR_SPSR 0, MOV 14 1,
      LDMFD_USER 13 [0, 1, 2, 3, 4, 5, 6, 7, 8, 9, 10, 11, 12, 13, 14], ADD 13 13 (15 * 4),
      MOVS_PC_LR]"

definition mon_fiq_handler :: "u32 \<Rightarrow> instr list" where
  "mon_fiq_handler a_interrupt =
     mon_fiq_entry a_interrupt @ SCR_NS_CLEAR @ GET_NS_WORLD_CONTEXT @ WORLD_CONTEXT_SAVE @
     mon_fiq_service a_interrupt @ mon_fiq_exit"

text \<open>\<open>cmn r0, #0\<close> sets the flags of \<open>r0 + 0\<close>, so \<open>blt\<close> branches when \<open>r0\<close> is negative.\<close>

definition mon_smc_handler :: "u32 \<Rightarrow> instr list" where
  "mon_smc_handler r0 =
     (if sint r0 < 0 then board_smc
      else if r0 = LTZVISOR_SCHED_SYSCALL then mon_scheduler
      else [BX_LR])"

text \<open>The C functions as modelled in their own theories; \<open>junk\<close> is what the compiled code leaves in
  the scratch registers, on the stack below the monitor's and, for \<open>fiq_handler\<close>, in the devices.\<close>

definition ltzvisor_env :: "c_env \<Rightarrow> c_env" where
  "ltzvisor_env junk f s =
     (case f of
        board_handler_c \<Rightarrow>
          (let call = (\<lambda>m. board_handler (rd s 0) (rd s 1) (rd s 2) (rd s 3) \<lparr>io_mem = m, io_log = []\<rparr>)
           in (junk f s)\<lparr>scratch := (scratch (junk f s))(0 := fst (call (mem s))),
                c_mem := (\<lambda>m. c_mem (junk f s) (io_mem (snd (call m))))\<rparr>)
      | fiq_handler_c \<Rightarrow> junk f s
      | interrupt_clear_c \<Rightarrow> (junk f s)\<lparr>c_icc := interrupt_clear (rd s 0) (rd s 1)\<rparr>)"

section \<open>CP15 context\<close>

definition cp15_regs :: "cp15_reg list" where
  "cp15_regs = [CSSELR, SCTLR, ACTLR, TTBR0, TTBR1, TTBCR, DACR, DFSR, IFSR, DFAR, IFAR, PAR,
     PRRR, NMRR, VBAR, FCSEIDR, CONTEXTIDR, TPIDRURW, TPIDRURO, TPIDRPRW]"

definition scr_nsbit_set :: "nat \<Rightarrow> instr list" where
  "scr_nsbit_set rt = [MRC_SCR rt, ORR rt rt 1, MCR_SCR rt]"

definition scr_nsbit_clear :: "nat \<Rightarrow> instr list" where
  "scr_nsbit_clear rt = [MRC_SCR rt, BIC rt rt 1, MCR_SCR rt]"

definition restore_cp15_context :: "instr list" where
  "restore_cp15_context =
     [LDR_POST 2 0 4, MCR CSSELR 2, LDR_POST 2 0 4, MCR SCTLR 2, LDR_POST 2 0 4, MCR ACTLR 2,
      LDR_POST 2 0 4, MCR TTBR0 2, LDR_POST 2 0 4, MCR TTBR1 2, LDR_POST 2 0 4, MCR TTBCR 2,
      LDR_POST 2 0 4, MCR DACR 2, LDR_POST 2 0 4, MCR DFSR 2, LDR_POST 2 0 4, MCR IFSR 2,
      LDR_POST 2 0 4, MCR DFAR 2, LDR_POST 2 0 4, MCR IFAR 2, LDR_POST 2 0 4, MCR PAR 2,
      LDR_POST 2 0 4, MCR PRRR 2, LDR_POST 2 0 4, MCR NMRR 2, LDR_POST 2 0 4, MCR VBAR 2,
      LDR_POST 2 0 4, MCR FCSEIDR 2, LDR_POST 2 0 4, MCR CONTEXTIDR 2,
      LDR_POST 2 0 4, MCR TPIDRURW 2, LDR_POST 2 0 4, MCR TPIDRURO 2, LDR_POST 2 0 4, MCR TPIDRPRW 2]"

definition cp15_restore :: "instr list" where
  "cp15_restore = scr_nsbit_set 2 @ restore_cp15_context @ scr_nsbit_clear 2 @ [BX_LR]"

definition set_guest_context :: "instr list" where
  "set_guest_context = [MCR TPIDRPRW 0]"

section \<open>Symbolic execution of the blocks\<close>

lemma preg_of_simps [simp]:
  "preg_of md 0 = R 0" "preg_of md (Suc 0) = R 1" "preg_of md 2 = R 2" "preg_of md 3 = R 3" "preg_of md 4 = R 4"
  "preg_of md 5 = R 5" "preg_of md 6 = R 6" "preg_of md 7 = R 7"
  "preg_of md 8 = (if md = FIQ_MODE then Rfiq 8 else R 8)"
  "preg_of md 9 = (if md = FIQ_MODE then Rfiq 9 else R 9)"
  "preg_of md 10 = (if md = FIQ_MODE then Rfiq 10 else R 10)"
  "preg_of md 11 = (if md = FIQ_MODE then Rfiq 11 else R 11)"
  "preg_of md 12 = (if md = FIQ_MODE then Rfiq 12 else R 12)"
  "preg_of md 13 = Sp (bank_of md)" "preg_of md 14 = Lr (bank_of md)"
  by (simp_all add: preg_of_def)

lemma bank_of_simps [simp]:
  "bank_of FIQ_MODE = Fiq" "bank_of IRQ_MODE = Irq" "bank_of SUPERVISOR_MODE = Svc"
  "bank_of MONITOR_MODE = Mon" "bank_of ABORT_MODE = Abt" "bank_of UNDEFINED_MODE = Und"
  "bank_of SYSTEM_MODE = Usr" "bank_of USER_MODE = Usr"
  by (simp_all add: bank_of_def)

lemmas sym_exec = rd_def wr_def wr_list_def wr_user_def cmode_def spsr_of_def set_mode_def bytes_def Let_def

lemma mon_scheduler_save_exec:
  assumes "cmode s = MONITOR_MODE"
  shows "exec cc mon_scheduler_save s = s\<lparr>
    regs := (regs s)(R 0 := regs s (Sp Mon) - 100, R 1 := regs s (Spsr Fiq), Sp Mon := regs s (Sp Mon) - 100),
    mem := store_words (regs s (Sp Mon) - 100) (map (regs s) s_frame) (mem s)\<rparr>"
  using assms
  by (intro cpu.equality)
    (simp_all add: mon_scheduler_save_def s_frame_def sym_exec with_mode_same store_words_below fun_upd_twist
      del: store_words.simps)

lemma words_offset: "unat (a - p) mod 4 = 0 \<Longrightarrow> unat (a - p) div 4 < n \<Longrightarrow> a \<in> words p n"
proof -
  assume "unat (a - p) mod 4 = 0" "unat (a - p) div 4 < n"
  moreover from this have "4 * (unat (a - p) div 4) = unat (a - p)" by presburger
  then have "(4 :: u32) * of_nat (unat (a - p) div 4) = of_nat (unat (a - p))"
    by (metis of_nat_mult of_nat_numeral)
  then have "p + 4 * of_nat (unat (a - p) div 4) = a" by simp
  ultimately show ?thesis unfolding words_iff by (metis (no_types))
qed

lemma store_words_two [simp]:
  "store_words p [x, y] m p = x" "q = p + 4 \<Longrightarrow> store_words p [x, y] m q = y"
  by simp_all

lemma load_words_numeral [simp]:
  "load_words p (numeral n) m = m p # load_words (p + 4) (pred_numeral n) m"
  by (simp add: numeral_eq_Suc)

lemma store_words_above:
  "q = p + 4 * of_nat (length xs) \<Longrightarrow> store_words q ys (store_words p xs m) = store_words p (xs @ ys) m"
  by (simp add: store_words_append)

lemma store_words_sep:
  "words p n \<inter> words q k = {} \<Longrightarrow> length ws = k \<Longrightarrow> a \<in> words p n \<Longrightarrow> store_words q ws m a = m a"
  by (rule store_words_outside) auto

text \<open>\<open>s'\<close> differs from \<open>s\<close> in core registers and memory only.\<close>

definition same_ctl :: "cpu \<Rightarrow> cpu \<Rightarrow> bool" where
  "same_ctl s s' \<longleftrightarrow> cpsr s' = cpsr s \<and> pc s' = pc s \<and> scr s' = scr s \<and> cp15 s' = cp15 s \<and>
     periphbase s' = periphbase s \<and> icc s' = icc s"

lemma WORLD_CONTEXT_RESTORE_exec:
  assumes mon: "cmode s = MONITOR_MODE"
    and sep: "words (regs s (R 0)) 30 \<inter> words (regs s (Sp Mon) - 8) 2 = {}"
    and s': "s' = exec cc WORLD_CONTEXT_RESTORE s"
  shows "same_ctl s s'"
    and "mem s' = store_words (regs s (Sp Mon) - 8) (load_words (regs s (R 0)) 2 (mem s)) (mem s)"
    and "map (regs s') core_regs = load_words (regs s (R 0)) 30 (mem s)"
    and "regs s' (Rfiq n) = regs s (Rfiq n)" "regs s' (Sp Fiq) = regs s (Sp Fiq)"
      "regs s' (Lr Fiq) = regs s (Lr Fiq)" "regs s' (Spsr Fiq) = regs s (Spsr Fiq)"
      "regs s' (Sp Mon) = regs s (Sp Mon)"
proof -
  have st: "store_words (regs s (Sp Mon) - 8) [x, y] m a = m a" if "a \<in> words (regs s (R 0)) 30" for x y m a
    by (rule store_words_sep [OF sep _ that]) simp
  note ex = s' WORLD_CONTEXT_RESTORE_def sym_exec mon [unfolded cmode_def] with_mode_same st words_offset
  show "same_ctl s s'"
    by (simp add: ex same_ctl_def del: store_words.simps)
  show "mem s' = store_words (regs s (Sp Mon) - 8) (load_words (regs s (R 0)) 2 (mem s)) (mem s)"
    by (simp add: ex del: store_words.simps)
  show "map (regs s') core_regs = load_words (regs s (R 0)) 30 (mem s)"
    by (simp add: ex core_regs_def add.commute [of "numeral _" "regs s (R 0)"] del: store_words.simps)
  show "regs s' (Rfiq n) = regs s (Rfiq n)" "regs s' (Sp Fiq) = regs s (Sp Fiq)"
    "regs s' (Lr Fiq) = regs s (Lr Fiq)" "regs s' (Spsr Fiq) = regs s (Spsr Fiq)"
    "regs s' (Sp Mon) = regs s (Sp Mon)"
    by (simp_all add: ex del: store_words.simps)
qed

lemma WORLD_CONTEXT_SAVE_exec:
  assumes mon: "cmode s = MONITOR_MODE"
    and sep: "words (regs s (R 0)) 30 \<inter> words (regs s (Sp Mon)) 6 = {}"
    and s': "s' = exec cc WORLD_CONTEXT_SAVE s"
  shows "same_ctl s s'"
    and "mem s' = store_words (regs s (R 0)) (load_words (regs s (Sp Mon)) 5 (mem s) @
        map (regs s) [R 5, R 6, R 7, R 8, R 9, R 10, R 11, R 12, Spsr Mon] @
        [mem s (regs s (Sp Mon) + 20)] @ map (regs s) (drop 15 core_regs)) (mem s)"
    and "regs s' (Sp Mon) = regs s (Sp Mon) + 24"
    and "\<And>p. p \<notin> {R 0, R 1, R 2, R 3, R 4, Lr Mon, Sp Mon} \<Longrightarrow> regs s' p = regs s p"
proof -
  have "words (regs s (R 0)) 4 \<subseteq> words (regs s (R 0)) 30"
    using words_add [of "regs s (R 0)" 4 26] by simp
  with sep have sep4: "words (regs s (Sp Mon)) 6 \<inter> words (regs s (R 0)) 4 = {}" by blast
  have st: "store_words (regs s (R 0)) [x, y, z, w] m a = m a" if "a \<in> words (regs s (Sp Mon)) 6" for x y z w m a
    by (rule store_words_sep [OF sep4 _ that]) simp
  note ex = s' WORLD_CONTEXT_SAVE_def sym_exec mon [unfolded cmode_def] with_mode_same st words_offset
  show "same_ctl s s'"
    by (simp add: ex same_ctl_def del: store_words.simps)
  show "regs s' (Sp Mon) = regs s (Sp Mon) + 24"
    by (simp add: ex del: store_words.simps)
  show "\<And>p. p \<notin> {R 0, R 1, R 2, R 3, R 4, Lr Mon, Sp Mon} \<Longrightarrow> regs s' p = regs s p"
    by (simp add: ex del: store_words.simps)
  show "mem s' = store_words (regs s (R 0)) (load_words (regs s (Sp Mon)) 5 (mem s) @
        map (regs s) [R 5, R 6, R 7, R 8, R 9, R 10, R 11, R 12, Spsr Mon] @
        [mem s (regs s (Sp Mon) + 20)] @ map (regs s) (drop 15 core_regs)) (mem s)"
    by (simp add: ex core_regs_def drop_Cons' store_words_above add.commute [of "numeral _" "regs s _"] del: store_words.simps)
qed

definition scr_set :: "u32 \<Rightarrow> u32" where
  "scr_set v = ((v OR SCR_NS_BIT) OR SCR_FIQ_BIT) AND NOT SCR_IRQ_BIT"

definition scr_clear :: "u32 \<Rightarrow> u32" where
  "scr_clear v = ((v AND NOT SCR_NS_BIT) AND NOT SCR_FIQ_BIT) OR SCR_IRQ_BIT"

lemma SCR_NS_SET_exec:
  "cmode s = MONITOR_MODE \<Longrightarrow> exec cc SCR_NS_SET s =
    s\<lparr>scr := scr_set (scr s), mem := (mem s)(regs s (Sp Mon) - 4 := regs s (R 0))\<rparr>"
  by (rule cpu.equality) (simp_all add: SCR_NS_SET_def sym_exec scr_set_def fun_eq_iff)

lemma SCR_NS_CLEAR_exec:
  "cmode s = MONITOR_MODE \<Longrightarrow> exec cc SCR_NS_CLEAR s =
    s\<lparr>scr := scr_clear (scr s), mem := (mem s)(regs s (Sp Mon) - 4 := regs s (R 0))\<rparr>"
  by (rule cpu.equality) (simp_all add: SCR_NS_CLEAR_def sym_exec scr_clear_def fun_eq_iff)

lemma bit_scr_set:
  "bit (scr_set v) 0" "bit (scr_set v) 2" "\<not> bit (scr_set v) (Suc 0)"
  by (simp_all add: scr_set_def bit_simps)

lemma bit_scr_clear:
  "\<not> bit (scr_clear v) 0" "\<not> bit (scr_clear v) 2" "bit (scr_clear v) (Suc 0)"
  by (simp_all add: scr_clear_def bit_simps)

lemma GET_NS_WORLD_CONTEXT_exec:
  "exec cc GET_NS_WORLD_CONTEXT s = s\<lparr>regs := (regs s)(R 0 := cp15_rd s TPIDRPRW)\<rparr>"
  by (rule cpu.equality) (simp_all add: GET_NS_WORLD_CONTEXT_def sym_exec)

lemma mon_fiq_entry_exec:
  assumes mon: "cmode s = MONITOR_MODE" and s': "s' = exec cc (mon_fiq_entry a) s"
  shows "s' = s\<lparr>
    regs := (regs s)(Lr Mon := regs s (Lr Mon) - 4, Sp Mon := regs s (Sp Mon) - 24,
      R 0 := fst (read_ICCIAR (snd (read_ICCIAR (icc s)))), R 1 := fst (read_ICCIAR (icc s)), R 2 := a),
    icc := snd (read_ICCIAR (snd (read_ICCIAR (icc s)))),
    mem := (store_words (regs s (Sp Mon) - 24)
      [regs s (R 0), regs s (R 1), regs s (R 2), regs s (R 3), regs s (R 4), regs s (Lr Mon) - 4]
      (mem s))(a := fst (read_ICCIAR (icc s)))\<rparr>"
  using mon
  by (intro cpu.equality)
    (simp_all add: s' mon_fiq_entry_def sym_exec ldr_at_def store_words_below fun_eq_iff del: store_words.simps)

lemma mon_fiq_exit_exec:
  assumes mon: "cmode s = MONITOR_MODE" and s': "s' = exec cc mon_fiq_exit s"
  shows "map (regs s') s_frame = load_words (regs s (Sp Mon)) 25 (mem s)"
    and "pc s' = mem s (regs s (Sp Mon) + 36)" and "cpsr s' = mem s (regs s (Sp Mon) + 32)"
    and "regs s' (Sp Mon) = regs s (Sp Mon) + 100"
    and "scr s' = scr s" "cp15 s' = cp15 s" "icc s' = icc s" "mem s' = mem s"
    and "pc s' = regs s' (Lr Mon)" "cpsr s' = regs s' (Spsr Mon)"
    and "b \<in> {Svc, Irq, Abt, Und} \<Longrightarrow>
      regs s' (Sp b) = regs s (Sp b) \<and> regs s' (Lr b) = regs s (Lr b) \<and> regs s' (Spsr b) = regs s (Spsr b)"
  using mon
  by (auto simp: s' mon_fiq_exit_def s_frame_def sym_exec with_mode_same
      add.commute [of "numeral _" "regs s _"])

text \<open>What is relied on of the compiled C functions: they do not write the save areas.\<close>

definition c_keeps :: "c_env \<Rightarrow> cfun set \<Rightarrow> u32 set \<Rightarrow> bool" where
  "c_keeps cc fs A \<longleftrightarrow> (\<forall>f \<in> fs. \<forall>s m a. a \<in> A \<longrightarrow> c_mem (cc f s) m a = m a)"

abbreviation fiq_calls :: "cfun set" where
  "fiq_calls \<equiv> {fiq_handler_c, interrupt_clear_c}"

text \<open>The part of the state a call keeps: the mode, SCR, CP15 and every register of a mode other
  than the general ones and the link register of the caller.\<close>

definition call_same :: "cpu \<Rightarrow> cpu \<Rightarrow> bool" where
  "call_same s s' \<longleftrightarrow> cpsr s' = cpsr s \<and> scr s' = scr s \<and> cp15 s' = cp15 s \<and>
     (\<forall>b. regs s' (Sp b) = regs s (Sp b) \<and> regs s' (Spsr b) = regs s (Spsr b) \<and>
          (b \<noteq> Mon \<longrightarrow> regs s' (Lr b) = regs s (Lr b)))"

lemma call_same_trans: "call_same s t \<Longrightarrow> call_same t u \<Longrightarrow> call_same s u"
  by (auto simp: call_same_def)

lemma call_same_mode: "call_same s t \<Longrightarrow> cmode t = cmode s"
  by (simp add: call_same_def cmode_def)

lemma c_call_same: "cmode s = MONITOR_MODE \<Longrightarrow> call_same s (c_call f s)"
  by (simp add: c_call_def call_same_def sym_exec)

lemma mem_c_call: "mem (c_call f s) = c_mem f (mem s)"
  by (simp add: c_call_def)

lemma exec_same_general:
  "cmode s = MONITOR_MODE \<Longrightarrow> call_same s (exec cc [MOVI 2 a, LDR 0 2 0] s)"
  "cmode s = MONITOR_MODE \<Longrightarrow> call_same s (exec cc [MOVI 2 a, LDR 0 2 0, MOVI 1 0] s)"
  "mem (exec cc [MOVI 2 a, LDR 0 2 0] s) = mem s" "mem (exec cc [MOVI 2 a, LDR 0 2 0, MOVI 1 0] s) = mem s"
  by (simp_all add: call_same_def sym_exec ldr_at_def)

lemma mon_fiq_service_exec:
  assumes mon: "cmode s = MONITOR_MODE" and s': "s' = exec cc (mon_fiq_service a) s"
  shows "call_same s s'" and "c_keeps cc fiq_calls A \<Longrightarrow> x \<in> A \<Longrightarrow> mem s' x = mem s x"
proof -
  let ?s1 = "exec cc [MOVI 2 a, LDR 0 2 0] s"
  let ?s2 = "c_call (cc fiq_handler_c ?s1) ?s1"
  let ?s3 = "exec cc [MOVI 2 a, LDR 0 2 0, MOVI 1 0] ?s2"
  have s'': "s' = c_call (cc interrupt_clear_c ?s3) ?s3"
    by (simp only: s' mon_fiq_service_def exec.simps exec1.simps)
  have m: "mem s' = c_mem (cc interrupt_clear_c ?s3) (c_mem (cc fiq_handler_c ?s1) (mem s))"
    by (simp only: s'' mem_c_call exec_same_general)
  show "mem s' x = mem s x" if "c_keeps cc fiq_calls A" "x \<in> A"
    using that unfolding c_keeps_def m by simp
  have 1: "call_same s ?s1" using mon by (rule exec_same_general)
  have 2: "call_same ?s1 ?s2" using call_same_mode [OF 1] mon by (intro c_call_same) (simp only:)
  have 3: "call_same ?s2 ?s3"
    using call_same_mode [OF 1] call_same_mode [OF 2] mon by (intro exec_same_general) (simp only:)
  have 4: "call_same ?s3 s'"
    using call_same_mode [OF 1] call_same_mode [OF 2] call_same_mode [OF 3] mon unfolding s''
    by (intro c_call_same) (simp only:)
  show "call_same s s'" using 1 2 3 4 by (blast intro: call_same_trans)
qed

section \<open>The two directions of the world switch\<close>

text \<open>
  The addresses the switch relies on: the guest context, the words of the monitor stack the
  handlers use (seven below and the Secure frame above the stack pointer \<open>sp\<close> a FIQ finds) and
  the variable \<open>interrupt\<close> are apart from each other and from the GIC.
\<close>

definition layout_ok :: "u32 \<Rightarrow> u32 \<Rightarrow> u32 \<Rightarrow> u32 \<Rightarrow> bool" where
  "layout_ok a_interrupt sp ctx pbase \<longleftrightarrow>
     words ctx 30 \<inter> words (sp - 28) 32 = {} \<and>
     a_interrupt \<notin> words ctx 30 \<and> a_interrupt \<notin> words (sp - 28) 32 \<and>
     a_interrupt \<noteq> pbase + 0x100 + 0x0C"

lemma words_mono: "k \<le> n \<Longrightarrow> words p k \<subseteq> words p n"
  using words_add [of p k "n - k"] by simp

lemma words_halves:
  assumes "k + n \<le> 2 ^ 30"
  shows "words p k \<inter> words (p + 4 * of_nat k) n = {}"
proof -
  have False if "i < k" "j < n" "p + 4 * of_nat i = p + 4 * of_nat k + 4 * of_nat j" for i j
  proof -
    have "4 * of_nat (k + j - i) = (0 :: u32)"
      using that by (simp add: of_nat_diff algebra_simps)
    moreover have "0 < k + j - i" "k + j - i < 2 ^ 30" using that assms by linarith+
    ultimately show False using four_times_neq_0 by blast
  qed
  then show ?thesis by (auto simp: words_iff)
qed

lemma words_split32:
  "words (sp - 24) 6 \<subseteq> words (sp - 28) 32" "words sp 25 \<subseteq> words (sp - 28) 32"
  "words (sp - 8) 2 \<subseteq> words (sp - 28) 32" "sp - 4 \<in> words (sp - 28) 32" "sp - 28 \<in> words (sp - 28) 32"
  using words_add [of "sp - 28" 1 31] words_mono [of 6 31 "sp - 24"] words_add [of "sp - 28" 7 25]
    words_add [of "sp - 28" 5 27] words_mono [of 2 27 "sp - 8"]
  by (simp_all add: words_offset) blast+

lemma words_stack_apart:
  "words sp 25 \<inter> words (sp - 24) 6 = {}" "words sp 25 \<inter> words (sp - 8) 2 = {}"
  "sp - 28 \<notin> words sp 25" "sp - 28 \<notin> words (sp - 24) 6" "sp - 4 \<notin> words sp 25"
  using words_halves [of 6 25 "sp - 24"] words_halves [of 2 25 "sp - 8"] words_halves [of 7 25 "sp - 28"]
    words_halves [of 1 6 "sp - 28"] words_halves [of 1 25 "sp - 4"] words_offset [of "sp - 28" "sp - 28" 7]
  by (simp_all) (auto simp del: words.simps)

text \<open>The six words pushed at a FIQ can be read back and the Secure frame above them is intact.\<close>

lemma fiq_stack_words:
  assumes lay: "layout_ok a sp ctx pb" and len: "length ws = 6"
    and m: "m = ((store_words (sp - 24) ws m0)(a := v))(sp - 28 := w)"
  shows "load_words (sp - 24) 6 m = ws" and "x \<in> words sp 25 \<Longrightarrow> m x = m0 x"
proof -
  have "m x = store_words (sp - 24) ws m0 x" if "x \<in> words (sp - 24) 6" for x
  proof -
    have "x \<noteq> a" using lay words_split32(1) [of sp] that unfolding layout_ok_def by blast
    moreover have "x \<noteq> sp - 28" using words_stack_apart(4) [of sp] that by blast
    ultimately show ?thesis by (simp add: m)
  qed
  then have "load_words (sp - 24) 6 m = load_words (sp - 24) 6 (store_words (sp - 24) ws m0)"
    by (rule load_words_cong)
  then show "load_words (sp - 24) 6 m = ws"
    using load_store_words [of ws "sp - 24" m0] by (simp only: len) simp
  show "m x = m0 x" if "x \<in> words sp 25"
  proof -
    have "x \<noteq> a" using lay words_split32(2) [of sp] that unfolding layout_ok_def by blast
    moreover have "x \<noteq> sp - 28" using words_stack_apart(3) [of sp] that by blast
    moreover have "store_words (sp - 24) ws m0 x = m0 x"
      using words_stack_apart(1) [of sp] that len by (intro store_words_sep [of sp 25 _ 6]) simp_all
    ultimately show ?thesis by (simp add: m)
  qed
qed

text \<open>The state in which a FIQ has saved the guest's registers in its context.\<close>

abbreviation fiq_save :: "u32 \<Rightarrow> instr list" where
  "fiq_save a \<equiv> mon_fiq_entry a @ SCR_NS_CLEAR @ GET_NS_WORLD_CONTEXT @ WORLD_CONTEXT_SAVE"

lemma length_core_regs: "length core_regs = 30"
  by (simp add: core_regs_def)

lemma fiq_save_exec:
  assumes mon: "cmode s = MONITOR_MODE" and sp: "sp = regs s (Sp Mon)" and ctx: "ctx = cp15 s False TPIDRPRW"
    and lay: "layout_ok a sp ctx (periphbase s)" and s3: "s3 = exec cc (fiq_save a) s"
  shows "cpsr s3 = cpsr s" "scr s3 = scr_clear (scr s)" "cp15 s3 = cp15 s" "regs s3 (Sp Mon) = sp"
    and "icc s3 = snd (read_ICCIAR (snd (read_ICCIAR (icc s))))"
    and "load_words ctx 30 (mem s3) = map ((regs s)(Lr Mon := regs s (Lr Mon) - 4)) core_regs"
    and "x \<in> words sp 25 \<Longrightarrow> mem s3 x = mem s x"
    and "mem s3 a = fst (read_ICCIAR (icc s))"
    and "b \<noteq> Mon \<Longrightarrow>
      regs s3 (Sp b) = regs s (Sp b) \<and> regs s3 (Lr b) = regs s (Lr b) \<and> regs s3 (Spsr b) = regs s (Spsr b)"
proof -
  define s1 where "s1 = exec cc (mon_fiq_entry a) s"
  define s2 where "s2 = exec cc GET_NS_WORLD_CONTEXT (exec cc SCR_NS_CLEAR s1)"
  have s3': "s3 = exec cc WORLD_CONTEXT_SAVE s2" by (simp only: s3 exec_append s1_def s2_def)
  note s1 = mon_fiq_entry_exec [OF mon s1_def]
  have mon1: "cmode s1 = MONITOR_MODE" using mon by (simp add: s1 cmode_def)
  let ?ws = "[regs s (R 0), regs s (R 1), regs s (R 2), regs s (R 3), regs s (R 4), regs s (Lr Mon) - 4]"
  let ?m = "((store_words (sp - 24) ?ws (mem s))(a := fst (read_ICCIAR (icc s))))
    (sp - 28 := fst (read_ICCIAR (snd (read_ICCIAR (icc s)))))"
  have s2: "s2 = s1\<lparr>scr := scr_clear (scr s), mem := ?m, regs := (regs s1)(R 0 := ctx)\<rparr>"
    unfolding s2_def SCR_NS_CLEAR_exec [OF mon1] GET_NS_WORLD_CONTEXT_exec
    by (rule cpu.equality)
      (simp_all add: s1 sp ctx cp15_rd_def cp15_bank_def scr_ns_def bit_scr_clear del: store_words.simps)
  have mon2: "cmode s2 = MONITOR_MODE" using mon1 by (simp add: s2 cmode_def)
  have "words (regs s2 (R 0)) 30 \<inter> words (regs s2 (Sp Mon)) 6 = {}"
    using lay words_split32(1) [of sp] by (auto simp: s2 s1 layout_ok_def sp)
  note save = WORLD_CONTEXT_SAVE_exec [OF mon2 this s3']
  have m2: "mem s2 = ?m" by (simp add: s2 del: store_words.simps)
  note stack = fiq_stack_words [OF lay _ m2, simplified]
  have r2: "regs s2 (R 0) = ctx" "regs s2 (Sp Mon) = sp - 24" "\<And>n. 3 \<le> n \<Longrightarrow> regs s2 (R n) = regs s (R n)"
    "\<And>b. regs s2 (Spsr b) = regs s (Spsr b)" "regs s2 SpsrSys = regs s SpsrSys"
    "\<And>b. b \<noteq> Mon \<Longrightarrow> regs s2 (Sp b) = regs s (Sp b)" "\<And>b. b \<noteq> Mon \<Longrightarrow> regs s2 (Lr b) = regs s (Lr b)"
    by (simp_all add: s2 s1 sp)
  have mem3: "mem s3 = store_words ctx (map ((regs s)(Lr Mon := regs s (Lr Mon) - 4)) core_regs) (mem s2)"
    using save(2) r2 stack(1) by (simp add: core_regs_def drop_Cons' del: store_words.simps)
  show "cpsr s3 = cpsr s" "scr s3 = scr_clear (scr s)" "cp15 s3 = cp15 s" "regs s3 (Sp Mon) = sp"
    "icc s3 = snd (read_ICCIAR (snd (read_ICCIAR (icc s))))"
    using save(1,3) by (simp_all add: same_ctl_def s2 s1 sp)
  show "load_words ctx 30 (mem s3) = map ((regs s)(Lr Mon := regs s (Lr Mon) - 4)) core_regs"
    using load_store_words [of "map ((regs s)(Lr Mon := regs s (Lr Mon) - 4)) core_regs" ctx "mem s2"]
    by (simp only: mem3 length_map length_core_regs) simp
  show "mem s3 x = mem s x" if "x \<in> words sp 25"
  proof -
    have "mem s3 x = mem s2 x"
      using lay words_split32(2) [of sp] that unfolding mem3 layout_ok_def
      by (intro store_words_sep [of sp 25 _ 30]) (auto simp: length_core_regs simp del: words.simps)
    then show ?thesis using stack(2) [OF that] by (simp only:)
  qed
  have "a \<noteq> sp - 28" using lay words_split32(5) [of sp] unfolding layout_ok_def by blast
  then have "mem s2 a = fst (read_ICCIAR (icc s))" by (simp add: m2 del: store_words.simps)
  then show "mem s3 a = fst (read_ICCIAR (icc s))"
    using lay unfolding mem3 layout_ok_def by (subst store_words_outside) (simp_all add: length_core_regs)
  show "regs s3 (Sp b) = regs s (Sp b) \<and> regs s3 (Lr b) = regs s (Lr b) \<and> regs s3 (Spsr b) = regs s (Spsr b)"
    if "b \<noteq> Mon"
    using that save(4) r2 by simp
qed

text \<open>A FIQ: the guest's registers go to its context, the Secure frame is loaded.\<close>

lemma mon_fiq_handler_exec:
  assumes mon: "cmode s = MONITOR_MODE" and sp: "sp = regs s (Sp Mon)" and ctx: "ctx = cp15 s False TPIDRPRW"
    and lay: "layout_ok a sp ctx (periphbase s)" and keeps: "c_keeps cc fiq_calls (words ctx 30 \<union> words sp 25)"
    and s': "s' = exec cc (mon_fiq_handler a) s"
  shows "map (regs s') s_frame = load_words sp 25 (mem s)"
    and "pc s' = mem s (sp + 36)" "cpsr s' = mem s (sp + 32)" "regs s' (Sp Mon) = sp + 100"
    and "scr s' = scr_clear (scr s)" "cp15 s' = cp15 s"
    and "load_words ctx 30 (mem s') = map ((regs s)(Lr Mon := regs s (Lr Mon) - 4)) core_regs"
    and "icc s' = icc (exec cc (fiq_save a @ mon_fiq_service a) s)"
    and "pc s' = regs s' (Lr Mon)" "cpsr s' = regs s' (Spsr Mon)"
    and "b \<in> {Svc, Irq, Abt, Und} \<Longrightarrow>
      regs s' (Sp b) = regs s (Sp b) \<and> regs s' (Lr b) = regs s (Lr b) \<and> regs s' (Spsr b) = regs s (Spsr b)"
proof -
  define s3 where "s3 = exec cc (fiq_save a) s"
  define s4 where "s4 = exec cc (mon_fiq_service a) s3"
  have s'4: "s' = exec cc mon_fiq_exit s4"
    by (simp only: s' mon_fiq_handler_def exec_append s3_def s4_def)
  note s3 = fiq_save_exec [OF mon sp ctx lay s3_def]
  have mon3: "cmode s3 = MONITOR_MODE" using s3(1) mon by (simp add: cmode_def)
  note s4 = mon_fiq_service_exec [OF mon3 s4_def]
  have mon4: "cmode s4 = MONITOR_MODE" using call_same_mode [OF s4(1)] mon3 by simp
  note e = mon_fiq_exit_exec [OF mon4 s'4]
  have sp4: "regs s4 (Sp Mon) = sp" using s4(1) s3(4) by (simp add: call_same_def)
  have stk4: "mem s4 x = mem s x" if "x \<in> words sp 25" for x
    using s4(2) [OF keeps, of x] s3(7) [OF that] that by simp
  show "map (regs s') s_frame = load_words sp 25 (mem s)"
    unfolding e(1) sp4 by (rule load_words_cong) (rule stk4)
  show "pc s' = mem s (sp + 36)" "cpsr s' = mem s (sp + 32)" "regs s' (Sp Mon) = sp + 100"
    using e(2,3,4) stk4 by (simp_all add: sp4 words_offset)
  show "pc s' = regs s' (Lr Mon)" "cpsr s' = regs s' (Spsr Mon)" by (fact e)+
  show "icc s' = icc (exec cc (fiq_save a @ mon_fiq_service a) s)"
    by (simp only: e(7) s4_def s3_def exec_append)
  show "scr s' = scr_clear (scr s)" "cp15 s' = cp15 s"
    using e(5,6) s4(1) s3(2,3) by (simp_all add: call_same_def)
  have "load_words ctx 30 (mem s') = load_words ctx 30 (mem s3)"
    unfolding e(8) using s4(2) [OF keeps] by (intro load_words_cong) blast
  then show "load_words ctx 30 (mem s') = map ((regs s)(Lr Mon := regs s (Lr Mon) - 4)) core_regs"
    by (simp only: s3(6))
  show "regs s' (Sp b) = regs s (Sp b) \<and> regs s' (Lr b) = regs s (Lr b) \<and> regs s' (Spsr b) = regs s (Spsr b)"
    if "b \<in> {Svc, Irq, Abt, Und}"
  proof -
    have "b \<noteq> Mon" using that by auto
    then show ?thesis using e(11) [OF that] s4(1) s3(9) by (simp add: call_same_def)
  qed
qed

text \<open>The scheduler: the Secure frame goes to the monitor stack, the guest's context is loaded.\<close>

lemma mon_scheduler_exec:
  assumes mon: "cmode s = MONITOR_MODE" and sp: "sp = regs s (Sp Mon) - 100" and ctx: "ctx = cp15_rd s TPIDRPRW"
    and lay: "layout_ok a sp ctx (periphbase s)" and s': "s' = exec cc mon_scheduler s"
  shows "map (regs s') core_regs = load_words ctx 30 (mem s)"
    and "pc s' = mem s (ctx + 56)" "cpsr s' = mem s (ctx + 52)" "regs s' (Sp Mon) = sp"
    and "scr s' = scr_set (scr s)" "cp15 s' = cp15 s" "icc s' = icc s" "periphbase s' = periphbase s"
    and "load_words sp 25 (mem s') = map (regs s) s_frame"
    and "pc s' = regs s' (Lr Mon)" "cpsr s' = regs s' (Spsr Mon)"
    and "regs s' (Rfiq n) = regs s (Rfiq n)" "regs s' (Sp Fiq) = regs s (Sp Fiq)"
      "regs s' (Lr Fiq) = regs s (Lr Fiq)" "regs s' (Spsr Fiq) = regs s (Spsr Fiq)"
proof -
  define s1 where "s1 = exec cc GET_NS_WORLD_CONTEXT (exec cc mon_scheduler_save s)"
  define s2 where "s2 = exec cc WORLD_CONTEXT_RESTORE s1"
  have s1: "s1 = s\<lparr>regs := (regs s)(R 0 := ctx, R 1 := regs s (Spsr Fiq), Sp Mon := sp),
      mem := store_words sp (map (regs s) s_frame) (mem s)\<rparr>"
    unfolding s1_def GET_NS_WORLD_CONTEXT_exec mon_scheduler_save_exec [OF mon]
    by (rule cpu.equality) (simp_all add: sp ctx cp15_rd_def cp15_bank_def scr_ns_def fun_eq_iff)
  have mon1: "cmode s1 = MONITOR_MODE" using mon by (simp add: s1 cmode_def)
  have "words (regs s1 (R 0)) 30 \<inter> words (regs s1 (Sp Mon) - 8) 2 = {}"
    using lay words_split32(3) [of sp] by (auto simp: s1 layout_ok_def simp del: words.simps)
  note s2 = WORLD_CONTEXT_RESTORE_exec [OF mon1 this s2_def]
  have mon2: "cmode s2 = MONITOR_MODE" using s2(1) mon1 by (simp add: same_ctl_def cmode_def)
  have s'2: "s' = exec cc [BARRIER, BARRIER, MOVS_PC_LR] (s2\<lparr>scr := scr_set (scr s2),
      mem := (mem s2)(regs s2 (Sp Mon) - 4 := regs s2 (R 0))\<rparr>)"
    by (simp only: s' mon_scheduler_def exec_append s1_def [symmetric] s2_def [symmetric] SCR_NS_SET_exec [OF mon2])
  have regs': "regs s' = regs s2" and mem': "mem s' = (mem s2)(sp - 4 := regs s2 (R 0))"
    and ret: "pc s' = regs s2 (Lr Mon)" "cpsr s' = regs s2 (Spsr Mon)"
    using mon2 s2(8) by (simp_all add: s'2 sym_exec s1)
  have len: "length s_frame = 25" by (simp add: s_frame_def)
  have m1: "mem s1 = store_words sp (map (regs s) s_frame) (mem s)" by (simp add: s1)
  have "load_words ctx 30 (mem s1) = load_words ctx 30 (mem s)"
    using lay words_split32(2) [of sp] unfolding layout_ok_def m1
    by (intro load_store_other) (auto simp: len simp del: words.simps)
  then have c: "map (regs s2) core_regs = load_words ctx 30 (mem s)"
    using s2(3) by (simp only: s1) simp
  then show "map (regs s') core_regs = load_words ctx 30 (mem s)" by (simp only: regs')
  show "pc s' = mem s (ctx + 56)" "cpsr s' = mem s (ctx + 52)"
    using c unfolding ret by (simp_all add: core_regs_def add.commute)
  show "pc s' = regs s' (Lr Mon)" "cpsr s' = regs s' (Spsr Mon)" by (simp_all only: ret regs')
  show "regs s' (Sp Mon) = sp" "regs s' (Rfiq n) = regs s (Rfiq n)" "regs s' (Sp Fiq) = regs s (Sp Fiq)"
      "regs s' (Lr Fiq) = regs s (Lr Fiq)" "regs s' (Spsr Fiq) = regs s (Spsr Fiq)"
    using s2(4-8) by (simp_all add: regs' s1)
  show "scr s' = scr_set (scr s)" "cp15 s' = cp15 s" "icc s' = icc s" "periphbase s' = periphbase s"
    using s2(1) by (simp_all add: s'2 same_ctl_def s1)
  have "mem s' x = store_words sp (map (regs s) s_frame) (mem s) x" if "x \<in> words sp 25" for x
  proof -
    have "x \<noteq> sp - 4" using words_stack_apart(5) [of sp] that by blast
    moreover have "mem s2 x = mem s1 x"
      using words_stack_apart(2) [of sp] that unfolding s2(2)
      by (intro store_words_sep [of sp 25 _ 2]) (simp_all add: s1 numeral_2_eq_2)
    ultimately show ?thesis by (simp add: mem' s1)
  qed
  then have "load_words sp 25 (mem s') = load_words sp 25 (store_words sp (map (regs s) s_frame) (mem s))"
    by (rule load_words_cong)
  then show "load_words sp 25 (mem s') = map (regs s) s_frame"
    using load_store_words [of "map (regs s) s_frame" sp "mem s"] by (simp only: length_map len) simp
qed

section \<open>Worlds\<close>

text \<open>
  Exception entry: the banked link register and SPSR of Monitor mode take the return address (plus
  four for a FIQ) and the CPSR, which masks A, I and F and enters Monitor mode.
\<close>

definition enter_monitor :: "u32 \<Rightarrow> cpu \<Rightarrow> cpu" where
  "enter_monitor lr s =
     s\<lparr>regs := (regs s)(Lr Mon := lr, Spsr Mon := cpsr s), cpsr := with_mode (cpsr s OR 0x1C0) MONITOR_MODE\<rparr>"

definition take_smc :: "u32 \<Rightarrow> cpu \<Rightarrow> cpu" where
  "take_smc ret s = enter_monitor ret s"

definition take_fiq :: "cpu \<Rightarrow> cpu" where
  "take_fiq s = enter_monitor (pc s + 4) s"

text \<open>
  Code of a world runs: anything may change but what belongs to the monitor. Both worlds keep
  the monitor's stack pointer, the Secure thread register, the GIC base and SCR (the guest
  because it has no access to them); the Secure guest keeps the context of the Non-secure one
  and that one cannot reach the monitor stack, which is in Secure memory.
\<close>

definition monitor_kept :: "cpu \<Rightarrow> cpu \<Rightarrow> bool" where
  "monitor_kept s s' \<longleftrightarrow> regs s' (Sp Mon) = regs s (Sp Mon) \<and> cp15 s' False TPIDRPRW = cp15 s False TPIDRPRW \<and>
     periphbase s' = periphbase s \<and> scr s' = scr s"

definition s_run :: "cpu \<Rightarrow> cpu \<Rightarrow> bool" where
  "s_run s s' \<longleftrightarrow> monitor_kept s s' \<and> (\<forall>x \<in> words (cp15 s False TPIDRPRW) 30. mem s' x = mem s x)"

definition ns_run :: "cpu \<Rightarrow> cpu \<Rightarrow> bool" where
  "ns_run s s' \<longleftrightarrow> monitor_kept s s' \<and> (\<forall>x \<in> words (regs s (Sp Mon)) 25. mem s' x = mem s x)"

lemma cmode_enter [simp]: "cmode (enter_monitor r s) = MONITOR_MODE"
  by (simp add: enter_monitor_def cmode_def)

lemma enter_simps [simp]:
  "mem (enter_monitor r s) = mem s" "scr (enter_monitor r s) = scr s" "cp15 (enter_monitor r s) = cp15 s"
  "periphbase (enter_monitor r s) = periphbase s" "icc (enter_monitor r s) = icc s"
  "regs (enter_monitor r s) (Lr Mon) = r" "regs (enter_monitor r s) (Spsr Mon) = cpsr s"
  "p \<noteq> Lr Mon \<Longrightarrow> p \<noteq> Spsr Mon \<Longrightarrow> regs (enter_monitor r s) p = regs s p"
  by (simp_all add: enter_monitor_def)

lemma scheduler_call: "sint LTZVISOR_SCHED_SYSCALL \<ge> 0"
  by simp

lemma smc_scheduler [simp]: "mon_smc_handler LTZVISOR_SCHED_SYSCALL = mon_scheduler"
  using scheduler_call by (simp add: mon_smc_handler_def)

lemma secure_thread_reg: "\<not> bit (scr s) 0 \<Longrightarrow> cp15_rd s TPIDRPRW = cp15 s False TPIDRPRW"
  by (simp add: cp15_rd_def cp15_bank_def scr_ns_def)

lemma periphbase_exec1: "periphbase (exec1 cc i s) = periphbase s"
  by (cases i) (simp_all add: wr_def wr_list_def wr_user_def set_mode_def Let_def ldr_at_def cp15_wr_def c_call_def)

lemma periphbase_exec: "periphbase (exec cc p s) = periphbase s"
  by (induction p arbitrary: s) (simp_all add: periphbase_exec1)

text \<open>Concrete layouts and states, for the witnesses.\<close>

lemma words_bounds:
  assumes "unat p + 4 * n \<le> 2 ^ 32" "a \<in> words p n"
  shows "unat p \<le> unat a \<and> unat a < unat p + 4 * n"
proof -
  obtain k where k: "k < n" "a = p + 4 * of_nat k" using assms(2) by (auto simp: words_iff)
  then have "a = of_nat (unat p + 4 * k)" by (simp add: of_nat_unat)
  then have "unat a = (unat p + 4 * k) mod 2 ^ 32" by (simp only: unat_of_nat) simp
  also have "\<dots> = unat p + 4 * k" using k(1) assms(1) by (intro mod_less) linarith
  finally show ?thesis using k(1) by simp
qed

lemma words_disjoint:
  assumes "unat p + 4 * n \<le> unat q" "unat q + 4 * k \<le> 2 ^ 32"
  shows "words p n \<inter> words q k = {}"
proof -
  have "unat p + 4 * n \<le> 2 ^ 32" using assms by linarith
  then have "False" if "a \<in> words p n" "a \<in> words q k" for a
    using words_bounds [OF _ that(1)] words_bounds [OF assms(2) that(2)] assms(1) by linarith
  then show ?thesis by blast
qed

lemma notin_words: "unat p + 4 * n \<le> 2 ^ 32 \<Longrightarrow> unat a < unat p \<or> unat p + 4 * n \<le> unat a \<Longrightarrow> a \<notin> words p n"
  using words_bounds by fastforce

definition idle_env :: c_env where
  "idle_env f s = \<lparr>scratch = (\<lambda>_. 0xDEAD), c_mem = (\<lambda>m. m), c_icc = (\<lambda>c. c)\<rparr>"

definition idle_icc :: Cpu_Interface where
  "idle_icc = \<lparr>ICCICR = 0, ICCPMR = 0, ICCBPR = 0, ICCIAR = (\<lambda>_. 1023), ICCEOIR = 0, ICCRPR = 0, ICCHPIR = 0,
     ICCABPR = 0, ICCIDR = 0, iar_reads = 0, eoi_trace = []\<rparr>"

definition demo_cpu :: "u32 \<Rightarrow> u32 \<Rightarrow> cpu" where
  "demo_cpu sp scrv = \<lparr>regs = (\<lambda>p. if p = Sp Mon then sp else if p = R 5 then 42 else 7), cpsr = 0x13, pc = 0x100040,
     scr = scrv, cp15 = (\<lambda>ns r. if ns then 0x200000 else 0x1C002000), periphbase = 0xF8F00000,
     icc = idle_icc, mem = (\<lambda>_. 0)\<rparr>"

lemma idle_keeps: "c_keeps idle_env fs A"
  by (simp add: c_keeps_def idle_env_def)

lemma demo_layout: "layout_ok 0x1C003000 0x1C000F9C 0x1C002000 0xF8F00000"
proof -
  have "words 0x1C000F80 32 \<inter> words 0x1C002000 30 = {}" by (rule words_disjoint) simp_all
  moreover have "0x1C003000 \<notin> words 0x1C002000 30" "0x1C003000 \<notin> words 0x1C000F80 32"
    by (rule notin_words; simp)+
  ultimately show ?thesis by (simp add: layout_ok_def Int_commute)
qed

text \<open>The restore loop, register by register.\<close>

definition restore_one :: "cp15_reg \<Rightarrow> instr list" where
  "restore_one r = [LDR_POST 2 0 4, MCR r 2]"

lemma restore_cp15_context_concat: "restore_cp15_context = concat (map restore_one cp15_regs)"
  by (simp add: restore_cp15_context_def restore_one_def cp15_regs_def)

lemma restore_one_exec:
  "regs s (R 0) \<noteq> periphbase s + 0x100 + 0x0C \<Longrightarrow> scr_ns s \<Longrightarrow> exec cc (restore_one r) s =
    s\<lparr>regs := (regs s)(R 2 := mem s (regs s (R 0)), R 0 := regs s (R 0) + 4),
      cp15 := (cp15 s)(r \<noteq> ACTLR := (cp15 s (r \<noteq> ACTLR))(r := mem s (regs s (R 0))))\<rparr>"
  by (rule cpu.equality) (simp_all add: restore_one_def sym_exec ldr_at_def cp15_wr_def cp15_bank_def scr_ns_def)

lemma restore_list_exec:
  "distinct rs \<Longrightarrow> scr_ns s \<Longrightarrow> periphbase s + 0x100 + 0x0C \<notin> words (regs s (R 0)) (length rs) \<Longrightarrow>
    s' = exec cc (concat (map restore_one rs)) s \<Longrightarrow>
    map (\<lambda>r. cp15 s' (r \<noteq> ACTLR) r) rs = load_words (regs s (R 0)) (length rs) (mem s) \<and>
    (\<forall>r. r \<noteq> ACTLR \<or> r \<notin> set rs \<longrightarrow> cp15 s' False r = cp15 s False r) \<and>
    (\<forall>r. r \<notin> set rs \<longrightarrow> cp15 s' True r = cp15 s True r) \<and>
    mem s' = mem s \<and> scr s' = scr s \<and> cpsr s' = cpsr s \<and> (\<forall>b. regs s' (Lr b) = regs s (Lr b))"
proof (induction rs arbitrary: s)
  case Nil
  then show ?case by simp
next
  case (Cons r rs)
  let ?t = "exec cc (restore_one r) s"
  have t: "?t = s\<lparr>regs := (regs s)(R 2 := mem s (regs s (R 0)), R 0 := regs s (R 0) + 4),
      cp15 := (cp15 s)(r \<noteq> ACTLR := (cp15 s (r \<noteq> ACTLR))(r := mem s (regs s (R 0))))\<rparr>"
    using Cons.prems(2,3) by (intro restore_one_exec) auto
  have "s' = exec cc (concat (map restore_one rs)) ?t" using Cons.prems(4) by (simp add: exec_append)
  with Cons.IH [of ?t] Cons.prems(1-3)
  have IH: "map (\<lambda>r. cp15 s' (r \<noteq> ACTLR) r) rs = load_words (regs s (R 0) + 4) (length rs) (mem s)"
    "\<And>r. r \<noteq> ACTLR \<or> r \<notin> set rs \<Longrightarrow> cp15 s' False r = cp15 ?t False r"
    "\<And>r. r \<notin> set rs \<Longrightarrow> cp15 s' True r = cp15 ?t True r"
    "mem s' = mem s" "scr s' = scr s" "cpsr s' = cpsr s" "\<And>b. regs s' (Lr b) = regs s (Lr b)"
    by (simp_all add: t scr_ns_def)
  have "r \<notin> set rs" using Cons.prems(1) by simp
  then have "cp15 s' b r = cp15 ?t b r" for b using IH(2,3) [of r] by (cases b) simp_all
  then have "cp15 s' (r \<noteq> ACTLR) r = mem s (regs s (R 0))" by (simp add: t)
  moreover have "cp15 s' False q = cp15 s False q" if "q \<noteq> ACTLR \<or> q \<notin> set (r # rs)" for q
    using IH(2) [of q] that by (auto simp: t)
  moreover have "cp15 s' True q = cp15 s True q" if "q \<notin> set (r # rs)" for q
    using IH(3) [of q] that by (auto simp: t)
  ultimately show ?case using IH(1,4-7) by simp
qed

lemma cp15_restore_exec:
  assumes mode: "cmode s \<noteq> FIQ_MODE"
    and dev: "periphbase s + 0x100 + 0x0C \<notin> words (regs s (R 0)) 20"
    and s': "s' = exec cc cp15_restore s"
  shows "map (\<lambda>r. cp15 s' (r \<noteq> ACTLR) r) cp15_regs = load_words (regs s (R 0)) 20 (mem s) \<and>
    (\<forall>r. r \<noteq> ACTLR \<longrightarrow> cp15 s' False r = cp15 s False r) \<and>
    \<not> scr_ns s' \<and> mem s' = mem s \<and> pc s' = regs s (Lr (bank_of (cmode s)))"
proof -
  let ?s1 = "exec cc (scr_nsbit_set 2) s"
  let ?s2 = "exec cc (concat (map restore_one cp15_regs)) ?s1"
  have s1: "?s1 = s\<lparr>regs := (regs s)(R 2 := scr s OR 1), scr := scr s OR 1\<rparr>"
    by (rule cpu.equality) (simp_all add: scr_nsbit_set_def sym_exec)
  have "distinct cp15_regs" "length cp15_regs = 20" by (simp_all add: cp15_regs_def)
  with restore_list_exec [of cp15_regs ?s1 ?s2 cc] dev
  have s2: "map (\<lambda>r. cp15 ?s2 (r \<noteq> ACTLR) r) cp15_regs = load_words (regs s (R 0)) 20 (mem s)"
    "\<And>r. r \<noteq> ACTLR \<Longrightarrow> cp15 ?s2 False r = cp15 s False r" "mem ?s2 = mem s" "cpsr ?s2 = cpsr s"
    "\<And>b. regs ?s2 (Lr b) = regs s (Lr b)"
    by (simp_all add: s1 scr_ns_def bit_simps del: load_words_numeral)
  have "s' = exec cc (scr_nsbit_clear 2 @ [BX_LR]) ?s2"
    by (simp only: s' cp15_restore_def exec_append restore_cp15_context_concat)
  then have "cp15 s' = cp15 ?s2" "mem s' = mem ?s2" "scr s' = scr ?s2 AND NOT 1"
    "pc s' = regs s (Lr (bank_of (cmode s)))"
    using s2(4,5) by (simp_all add: scr_nsbit_clear_def sym_exec)
  with s2 show ?thesis by (simp add: scr_ns_def bit_simps del: load_words_numeral)
qed

section \<open>Properties\<close>

text \<open>C1: The world switch is transparent to the Non-secure guest: after a FIQ taken at any point,
  any run of the Secure world that leaves the guest's context and the monitor's state alone and its scheduling call, the guest continues at the interrupted
  instruction with its processor state, all its general registers and the stack, link and saved
  status registers of its System, Supervisor, Abort, Undefined and IRQ modes as they were, in
  the Non-secure state with FIQ routed to the monitor, and with the monitor stack balanced.\<close>

theorem guest_transparent:
  assumes lay: "layout_ok a (regs s (Sp Mon)) (cp15 s False TPIDRPRW) (periphbase s)"
    and keeps: "c_keeps cc fiq_calls (words (cp15 s False TPIDRPRW) 30 \<union> words (regs s (Sp Mon)) 25)"
    and fiq: "s1 = exec cc (mon_fiq_handler a) (take_fiq s)"
    and run: "s_run s1 s2"
    and smc: "s3 = exec cc (mon_smc_handler LTZVISOR_SCHED_SYSCALL) (take_smc ret s2)"
  shows "pc s3 = pc s \<and> cpsr s3 = cpsr s \<and>
    (\<forall>p \<in> set core_regs - {Spsr Mon, Lr Mon}. regs s3 p = regs s p) \<and>
    bit (scr s3) 0 \<and> bit (scr s3) 2 \<and> \<not> bit (scr s3) 1 \<and> regs s3 (Sp Mon) = regs s (Sp Mon)"
proof -
  let ?sp = "regs s (Sp Mon)" and ?ctx = "cp15 s False TPIDRPRW"
  have p1: "periphbase s1 = periphbase s" by (simp add: fiq periphbase_exec take_fiq_def)
  have mon: "cmode (take_fiq s) = MONITOR_MODE" by (simp add: take_fiq_def)
  have f: "?sp = regs (take_fiq s) (Sp Mon)" "?ctx = cp15 (take_fiq s) False TPIDRPRW"
    "layout_ok a ?sp ?ctx (periphbase (take_fiq s))"
    using lay by (simp_all add: take_fiq_def)
  note s1 = mon_fiq_handler_exec [OF mon f keeps fiq]
  have k: "regs s2 (Sp Mon) = ?sp + 100" "cp15 s2 False TPIDRPRW = ?ctx" "periphbase s2 = periphbase s"
    "scr s2 = scr_clear (scr s)"
    using run s1(4,5,6) p1 by (simp_all add: s_run_def monitor_kept_def take_fiq_def)
  have mon2: "cmode (take_smc ret s2) = MONITOR_MODE" by (simp add: take_smc_def)
  have g: "?sp = regs (take_smc ret s2) (Sp Mon) - 100" "?ctx = cp15_rd (take_smc ret s2) TPIDRPRW"
    "layout_ok a ?sp ?ctx (periphbase (take_smc ret s2))"
    using lay k by (simp_all add: take_smc_def secure_thread_reg bit_scr_clear)
  note s3 = mon_scheduler_exec [OF mon2 g smc [unfolded smc_scheduler]]
  have "load_words ?ctx 30 (mem s2) = load_words ?ctx 30 (mem s1)"
    using run s1(6) by (intro load_words_cong) (simp add: s_run_def take_fiq_def)
  then have c: "map (regs s3) core_regs = map ((regs (take_fiq s))(Lr Mon := pc s)) core_regs"
    using s3(1) s1(7) by (simp add: take_smc_def) (simp add: take_fiq_def)
  then have "\<forall>p \<in> set core_regs. regs s3 p = ((regs (take_fiq s))(Lr Mon := pc s)) p"
    by (simp only: map_eq_conv)
  moreover have "Lr Mon \<in> set core_regs" "Spsr Mon \<in> set core_regs" by (simp_all add: core_regs_def)
  ultimately have "\<forall>p \<in> set core_regs - {Spsr Mon, Lr Mon}. regs s3 p = regs s p"
    "regs s3 (Lr Mon) = pc s" "regs s3 (Spsr Mon) = cpsr s"
    by (simp_all add: take_fiq_def)
  then show ?thesis using s3(4,5,10,11) bit_scr_set by simp
qed

theorem guest_transparent_witness:
  "let s = demo_cpu 0x1C000F9C 5;
       s1 = exec idle_env (mon_fiq_handler 0x1C003000) (take_fiq s);
       s3 = exec idle_env (mon_smc_handler LTZVISOR_SCHED_SYSCALL) (take_smc 0x1C000100 s1)
   in s_run s1 s1 \<and> pc s3 = 0x100040 \<and> cpsr s3 = 0x13 \<and> regs s3 (R 5) = 42"
proof -
  let ?s = "demo_cpu 0x1C000F9C 5"
  let ?s1 = "exec idle_env (mon_fiq_handler 0x1C003000) (take_fiq ?s)"
  have run: "s_run ?s1 ?s1" by (simp add: s_run_def monitor_kept_def)
  have lay: "layout_ok 0x1C003000 (regs ?s (Sp Mon)) (cp15 ?s False TPIDRPRW) (periphbase ?s)"
    using demo_layout by (simp add: demo_cpu_def)
  have "R 5 \<in> set core_regs - {Spsr Mon, Lr Mon}" by (simp add: core_regs_def)
  moreover have "pc ?s = 0x100040" "cpsr ?s = 0x13" "regs ?s (R 5) = 42" by (simp_all add: demo_cpu_def)
  ultimately show ?thesis
    using guest_transparent [OF lay idle_keeps refl run refl, of "0x1C000100"] run by (simp only: Let_def)
qed

text \<open>What a scheduling call saves on the monitor stack is what the next FIQ resumes, whichever context the call loads: that of
  the thread register of the world it comes from.\<close>

lemma scheduling_call_resumed:
  assumes lay: "layout_ok a (regs s (Sp Mon) - 100) (cp15_rd s TPIDRPRW) (periphbase s)"
      "layout_ok a (regs s (Sp Mon) - 100) (cp15 s False TPIDRPRW) (periphbase s)"
    and keeps: "c_keeps cc fiq_calls (words (cp15 s False TPIDRPRW) 30 \<union> words (regs s (Sp Mon) - 100) 25)"
    and smc: "s1 = exec cc (mon_smc_handler LTZVISOR_SCHED_SYSCALL) (take_smc ret s)"
    and run: "ns_run s1 s2"
    and fiq: "s3 = exec cc (mon_fiq_handler a) (take_fiq s2)"
  shows "pc s3 = ret \<and> cpsr s3 = cpsr s \<and>
    (\<forall>p \<in> set s_frame - {Spsr Mon, Lr Mon}. regs s3 p = regs s p) \<and>
    \<not> bit (scr s3) 0 \<and> \<not> bit (scr s3) 2 \<and> regs s3 (Sp Mon) = regs s (Sp Mon)"
proof -
  let ?sp = "regs s (Sp Mon) - 100" and ?ctx = "cp15 s False TPIDRPRW"
  have mon: "cmode (take_smc ret s) = MONITOR_MODE" by (simp add: take_smc_def)
  have f: "?sp = regs (take_smc ret s) (Sp Mon) - 100" "cp15_rd s TPIDRPRW = cp15_rd (take_smc ret s) TPIDRPRW"
    "layout_ok a ?sp (cp15_rd s TPIDRPRW) (periphbase (take_smc ret s))"
    using lay(1) by (simp_all add: take_smc_def cp15_rd_def cp15_bank_def scr_ns_def)
  note s1 = mon_scheduler_exec [OF mon f smc [unfolded smc_scheduler]]
  have k: "regs s2 (Sp Mon) = ?sp" "cp15 s2 False TPIDRPRW = ?ctx" "periphbase s2 = periphbase s"
    using run s1(4,6,8) by (simp_all add: ns_run_def monitor_kept_def take_smc_def)
  have mon2: "cmode (take_fiq s2) = MONITOR_MODE" by (simp add: take_fiq_def)
  have g: "?sp = regs (take_fiq s2) (Sp Mon)" "?ctx = cp15 (take_fiq s2) False TPIDRPRW"
    "layout_ok a ?sp ?ctx (periphbase (take_fiq s2))"
    using lay(2) k by (simp_all add: take_fiq_def)
  note s3 = mon_fiq_handler_exec [OF mon2 g keeps fiq]
  have "load_words ?sp 25 (mem s2) = load_words ?sp 25 (mem s1)"
    using run s1(4) by (intro load_words_cong) (simp add: ns_run_def)
  then have c: "map (regs s3) s_frame = map (regs (take_smc ret s)) s_frame"
    using s3(1) s1(9) by (simp add: take_fiq_def)
  then have "\<forall>p \<in> set s_frame. regs s3 p = regs (take_smc ret s) p" by (simp only: map_eq_conv)
  moreover have "Lr Mon \<in> set s_frame" "Spsr Mon \<in> set s_frame" by (simp_all add: s_frame_def)
  ultimately have "\<forall>p \<in> set s_frame - {Spsr Mon, Lr Mon}. regs s3 p = regs s p"
    "regs s3 (Lr Mon) = ret" "regs s3 (Spsr Mon) = cpsr s"
    by (simp_all add: take_smc_def)
  then show ?thesis using s3(4,5,9,10) by (simp add: bit_scr_clear)
qed

text \<open>C8: A call whose number is not negative and not the scheduler's is answered with a plain
  branch to the return address, not an exception return: the caller's code continues in Monitor
  mode, with the Secure privileges of that mode, whichever world it came from.\<close>

theorem smc_unknown_call_stays_in_monitor:
  assumes "0 \<le> sint n" and "n \<noteq> LTZVISOR_SCHED_SYSCALL"
  shows "pc (exec cc (mon_smc_handler n) (take_smc ret s)) = ret \<and>
    cmode (exec cc (mon_smc_handler n) (take_smc ret s)) = MONITOR_MODE \<and>
    scr (exec cc (mon_smc_handler n) (take_smc ret s)) = scr s"
  using assms by (simp add: mon_smc_handler_def take_smc_def rd_def enter_monitor_def cmode_def)

theorem smc_unknown_call_witness:
  "let s = demo_cpu 0x1C000F9C 5; s' = exec idle_env (mon_smc_handler 0) (take_smc 0x100044 s)
   in bit (scr s') 0 \<and> pc s' = 0x100044 \<and> cmode s' = MONITOR_MODE"
  using smc_unknown_call_stays_in_monitor [of 0 idle_env "0x100044" "demo_cpu 0x1C000F9C 5"]
  by (simp add: Let_def) (simp add: demo_cpu_def)

text \<open>When the Non-secure guest itself issues the scheduling call, the monitor reads the context
  pointer from the guest's own copy of the thread register: the return address and the processor
  state, mode included, are the words the guest put in the memory it points to.\<close>

lemma guest_scheduler_call_trusts_guest_pointer:
  assumes ns: "bit (scr s) 0"
    and lay: "layout_ok a (regs s (Sp Mon) - 100) (cp15 s True TPIDRPRW) (periphbase s)"
    and smc: "s' = exec cc (mon_smc_handler LTZVISOR_SCHED_SYSCALL) (take_smc ret s)"
  shows "pc s' = mem s (cp15 s True TPIDRPRW + 56) \<and> cpsr s' = mem s (cp15 s True TPIDRPRW + 52)"
proof -
  have mon: "cmode (take_smc ret s) = MONITOR_MODE" by (simp add: take_smc_def)
  have f: "regs s (Sp Mon) - 100 = regs (take_smc ret s) (Sp Mon) - 100"
    "cp15 s True TPIDRPRW = cp15_rd (take_smc ret s) TPIDRPRW"
    "layout_ok a (regs s (Sp Mon) - 100) (cp15 s True TPIDRPRW) (periphbase (take_smc ret s))"
    using ns lay by (simp_all add: take_smc_def cp15_rd_def cp15_bank_def scr_ns_def)
  from mon_scheduler_exec(2,3) [OF mon f smc [unfolded smc_scheduler]] show ?thesis
    by (simp add: take_smc_def)
qed

text \<open>The switch to the Secure world restores none of the Supervisor, IRQ, Abort and Undefined
  mode banks: the Secure world resumes with the stack pointers, link registers and saved status
  registers the Non-secure guest left there.\<close>

lemma secure_banks_not_restored:
  assumes lay: "layout_ok a (regs s (Sp Mon)) (cp15 s False TPIDRPRW) (periphbase s)"
    and keeps: "c_keeps cc fiq_calls (words (cp15 s False TPIDRPRW) 30 \<union> words (regs s (Sp Mon)) 25)"
    and fiq: "s' = exec cc (mon_fiq_handler a) (take_fiq s)"
    and b: "b \<in> {Svc, Irq, Abt, Und}"
  shows "regs s' (Sp b) = regs s (Sp b) \<and> regs s' (Lr b) = regs s (Lr b) \<and> regs s' (Spsr b) = regs s (Spsr b)"
proof -
  have mon: "cmode (take_fiq s) = MONITOR_MODE" by (simp add: take_fiq_def)
  have f: "regs s (Sp Mon) = regs (take_fiq s) (Sp Mon)" "cp15 s False TPIDRPRW = cp15 (take_fiq s) False TPIDRPRW"
    "layout_ok a (regs s (Sp Mon)) (cp15 s False TPIDRPRW) (periphbase (take_fiq s))"
    using lay by (simp_all add: take_fiq_def)
  from mon_fiq_handler_exec(11) [OF mon f keeps fiq b] b show ?thesis by (auto simp: take_fiq_def)
qed

end
