(* ===== verification/Worlds.thy ===== *)
theory Worlds
  imports Monitor
begin

unbundle bit_operations_syntax

text \<open>
  What the monitor promises to the two worlds beyond one switch: the system calls of
  \<^verbatim>\<open>board_smc\<close> with the C handler of \<^verbatim>\<open>board.c\<close>, the handling of the interrupt controller by
  \<^verbatim>\<open>_mon_fiq_handler\<close>, and the protocol of the two worlds as a transition system whose invariant
  holds for every interleaving of runs, board calls, scheduling calls of the Secure world and interrupts.
  The calls of the guest are steps beside its own instructions: its board calls keep what the Secure world left, its
  scheduling call does not.
\<close>

section \<open>System calls of the board\<close>

definition call_frame :: "preg list" where
  "call_frame = [Spsr Mon, R 1, R 2, R 3, R 4, R 5, R 6, R 7, R 8, R 9, R 10, R 11, R 12, Lr Mon]"

lemma call_c_function_arg_exec:
  assumes mon: "cmode s = MONITOR_MODE"
    and t: "t = s\<lparr>regs := (regs s)(R 4 := regs s (Spsr Mon), Sp Mon := regs s (Sp Mon) - 56),
      mem := store_words (regs s (Sp Mon) - 56) (map (regs s) call_frame) (mem s)\<rparr>"
  shows "exec cc (call_c_function_arg f) s = c_call (cc f t) t"
proof -
  have "exec cc [STMFD 13 True [1, 2, 3, 4, 5, 6, 7, 8, 9, 10, 11, 12, 14], MRS_SPSR 4, STMFD 13 True [4]] s = t"
    using mon unfolding t
    by (intro cpu.equality) (simp_all add: call_frame_def sym_exec store_words_below fun_upd_twist del: store_words.simps)
  then show ?thesis by (simp add: call_c_function_arg_def)
qed

lemma exception_return_arg_exec:
  assumes mon: "cmode s = MONITOR_MODE" and s': "s' = exec cc exception_return_arg s"
  shows "map (regs s') (butlast call_frame) = load_words (regs s (Sp Mon)) 13 (mem s)"
    and "pc s' = mem s (regs s (Sp Mon) + 52)" "cpsr s' = mem s (regs s (Sp Mon))"
    and "regs s' (Sp Mon) = regs s (Sp Mon) + 56" "regs s' (R 0) = regs s (R 0)" "scr s' = scr s"
    and "mem s' = mem s" "cp15 s' = cp15 s"
  using mon
  apply (simp_all add: s' exception_return_arg_def call_frame_def sym_exec)
  apply (simp_all add: add.commute)
  done

lemma c_call_regs:
  assumes "cmode s = MONITOR_MODE"
  shows "regs (c_call f s) (R 0) = scratch f 0" "regs (c_call f s) (Sp b) = regs s (Sp b)"
    "scr (c_call f s) = scr s" "cmode (c_call f s) = MONITOR_MODE"
  using assms by (simp_all add: c_call_def sym_exec)

text \<open>The memory a board call leaves: the saved registers are intact and only the addressed word
  may change.\<close>

lemma board_memory:
  assumes "c_keeps junk {board_handler_c} A" "a1 \<notin> words p (length ws)"
    and f: "f = ltzvisor_env junk board_handler_c t" and m: "mem t = store_words p ws m"
    and r: "regs t (R 0) = n" "regs t (R 1) = a1" "regs t (R 2) = v"
  shows "x \<in> A \<Longrightarrow> c_mem f (mem t) x = (if n = LTZVISOR_WRITE_SYSCALL \<and> x = a1 then v else mem t x)"
    and "scratch f 0 = fst (board_handler n a1 v (regs t (R 3)) \<lparr>io_mem = m, io_log = []\<rparr>)"
proof -
  have "mem t a1 = m a1" using assms(2) by (simp add: m store_words_outside)
  with r show "scratch f 0 = fst (board_handler n a1 v (regs t (R 3)) \<lparr>io_mem = m, io_log = []\<rparr>)"
    by (simp add: f ltzvisor_env_def Let_def rd_def board_handler_def read32_def)
  have "c_mem f (mem t) x = io_mem (snd (board_handler n a1 v (regs t (R 3)) \<lparr>io_mem = mem t, io_log = []\<rparr>)) x"
    if "x \<in> A" using assms(1) that r by (simp add: c_keeps_def f ltzvisor_env_def Let_def rd_def)
  then show "c_mem f (mem t) x = (if n = LTZVISOR_WRITE_SYSCALL \<and> x = a1 then v else mem t x)" if "x \<in> A"
    using that by (simp add: board_handler_def write32_def)
qed

text \<open>C9: A board call (a negative number) returns to the instruction after the call in the caller's
  own mode, world and processor state when the word it names is not in the frame the monitor has pushed, with r1-r12 and the monitor stack as they were and the
  result of \<open>board_handler\<close> in r0; a write call has changed the word it names, whatever its
  address, so that the guest can change Secure memory.\<close>

theorem board_call_returns:
  assumes neg: "sint (regs s (R 0)) < 0"
    and apart: "regs s (R 1) \<notin> words (regs s (Sp Mon) - 56) 14"
    and keeps: "c_keeps junk {board_handler_c} (insert (regs s (R 1)) (words (regs s (Sp Mon) - 56) 14))"
    and smc: "s' = exec (ltzvisor_env junk) (mon_smc_handler (regs s (R 0))) (take_smc ret s)"
  shows "pc s' = ret \<and> cpsr s' = cpsr s \<and> scr s' = scr s \<and> regs s' (Sp Mon) = regs s (Sp Mon) \<and>
    (\<forall>i \<in> {1..12}. regs s' (R i) = regs s (R i)) \<and>
    regs s' (R 0) = fst (board_handler (regs s (R 0)) (regs s (R 1)) (regs s (R 2)) (regs s (R 3))
      \<lparr>io_mem = mem s, io_log = []\<rparr>) \<and>
    mem s' (regs s (R 1)) = (if regs s (R 0) = LTZVISOR_WRITE_SYSCALL then regs s (R 2) else mem s (regs s (R 1)))"
proof -
  let ?e = "take_smc ret s" and ?sp = "regs s (Sp Mon) - 56" and ?a1 = "regs s (R 1)"
  let ?ws = "map (regs ?e) call_frame"
  have mon: "cmode ?e = MONITOR_MODE" and spe: "regs ?e (Sp Mon) = regs s (Sp Mon)" and me: "mem ?e = mem s"
    by (simp_all add: take_smc_def)
  define t where "t = ?e\<lparr>regs := (regs ?e)(R 4 := regs ?e (Spsr Mon), Sp Mon := ?sp), mem := store_words ?sp ?ws (mem s)\<rparr>"
  define f where "f = ltzvisor_env junk board_handler_c t"
  have mt: "mem t = store_words ?sp ?ws (mem s)" and mont: "cmode t = MONITOR_MODE"
    using mon by (simp_all add: t_def cmode_def del: store_words.simps)
  have rt: "regs t (R 0) = regs s (R 0)" "regs t (R 1) = ?a1" "regs t (R 2) = regs s (R 2)" "regs t (R 3) = regs s (R 3)"
    by (simp_all add: t_def take_smc_def)
  have len: "length ?ws = 14" by (simp add: call_frame_def)
  note b = board_memory [OF keeps _ f_def mt rt(1-3), unfolded len, OF apart]
  let ?u = "c_call f t"
  have u: "s' = exec (ltzvisor_env junk) exception_return_arg ?u"
    using neg call_c_function_arg_exec [OF mon t_def [folded spe me], of "ltzvisor_env junk" board_handler_c]
    by (simp add: smc mon_smc_handler_def board_smc_def exec_append f_def)
  note r = exception_return_arg_exec [OF c_call_regs(4) [OF mont] u, unfolded mem_c_call c_call_regs(2) [OF mont]]
  have spt: "regs t (Sp Mon) = ?sp" by (simp add: t_def)
  have stack: "c_mem f (mem t) x = store_words ?sp ?ws (mem s) x" if "x \<in> words ?sp 14" for x
    using b(1) [of x] that apart by (auto simp: mt)
  have keep: "store_words ?sp ?ws (mem s) ?a1 = mem s ?a1"
    using apart by (intro store_words_outside) (simp only: len not_False_eq_True)
  have frame: "load_words ?sp 14 (c_mem f (mem t)) = ?ws"
    using load_words_cong [of ?sp 14 "c_mem f (mem t)", OF stack] load_store_words [of ?ws ?sp "mem s"]
    by (simp only: len) simp
  have range: "{1..12} = {1, 2, 3, 4, 5, 6, 7, 8, 9, 10, 11, 12 :: nat}" by auto presburger
  have saved: "regs s' (R i) = regs s (R i)" if "i \<in> {1..12}" for i
    using r(1) frame that unfolding range spt
    by (auto simp: call_frame_def take_smc_def add.commute [of "numeral _" "regs s _"])
  have "pc s' = ret" "cpsr s' = cpsr s"
    using r(2,3) frame unfolding spt by (simp_all add: call_frame_def take_smc_def)
  moreover have "regs s' (Sp Mon) = regs s (Sp Mon)" "scr s' = scr s" 
    using r(4,6) by (simp_all add: spt c_call_regs [OF mont]) (simp add: t_def take_smc_def)
  moreover have "regs s' (R 0) = fst (board_handler (regs s (R 0)) ?a1 (regs s (R 2)) (regs s (R 3)) \<lparr>io_mem = mem s, io_log = []\<rparr>)"
    using r(5) b(2) by (simp add: c_call_regs [OF mont] rt)
  moreover have "mem s' ?a1 = (if regs s (R 0) = LTZVISOR_WRITE_SYSCALL then regs s (R 2) else mem s ?a1)"
    using r(7) b(1) [of ?a1] keep by (simp add: mt)
  ultimately show ?thesis using saved by blast
qed

theorem board_call_witness:
  "let d = demo_cpu 0x1C001000 5;
       s = d\<lparr>regs := (regs d)(R 0 := LTZVISOR_WRITE_SYSCALL, R 1 := 0x1C004000, R 2 := 99)\<rparr>;
       s' = exec (ltzvisor_env idle_env) (mon_smc_handler LTZVISOR_WRITE_SYSCALL) (take_smc 0x100044 s)
   in bit (scr s') 0 \<and> pc s' = 0x100044 \<and> cpsr s' = 0x13 \<and> regs s' (R 5) = 42 \<and> mem s' 0x1C004000 = 99"
proof -
  let ?d = "demo_cpu 0x1C001000 5"
  let ?s = "?d\<lparr>regs := (regs ?d)(R 0 := LTZVISOR_WRITE_SYSCALL, R 1 := 0x1C004000, R 2 := 99)\<rparr>"
  have neg: "sint (regs ?s (R 0)) < 0" by simp
  have apart: "regs ?s (R 1) \<notin> words (regs ?s (Sp Mon) - 56) 14"
    by (rule notin_words) (simp_all add: demo_cpu_def)
  have "cpsr ?s = 0x13" "regs ?s (R 5) = 42" "bit (scr ?s) 0" by (simp_all add: demo_cpu_def)
  moreover have "5 \<in> {1..12 :: nat}" by simp
  ultimately show ?thesis
    using board_call_returns [OF neg apart idle_keeps refl, of "0x100044"] by (simp add: Let_def)
qed

section \<open>Acknowledge and completion of a FIQ\<close>

lemma load_interrupt:
  assumes "a \<noteq> periphbase s + 0x100 + 0x0C"
  shows "exec cc [MOVI 2 a, LDR 0 2 0] s = s\<lparr>regs := (regs s)(R 2 := a, R 0 := mem s a)\<rparr>"
    and "exec cc [MOVI 2 a, LDR 0 2 0, MOVI 1 0] s = s\<lparr>regs := (regs s)(R 2 := a, R 0 := mem s a, R 1 := 0)\<rparr>"
  using assms by (simp_all add: sym_exec ldr_at_def)

lemma icc_c_call: "icc (c_call f s) = c_icc f (icc s)" "periphbase (c_call f s) = periphbase s"
  by (simp_all add: c_call_def wr_list_def)

lemma service_icc:
  assumes dev: "a \<noteq> periphbase s + 0x100 + 0x0C" and keeps: "c_keeps junk fiq_calls (insert a A)"
    and nogic: "\<And>t c. c_icc (junk fiq_handler_c t) c = c"
  shows "icc (exec (ltzvisor_env junk) (mon_fiq_service a) s) = interrupt_clear (mem s a) 0 (icc s)"
proof -
  let ?cc = "ltzvisor_env junk"
  let ?s1 = "exec ?cc [MOVI 2 a, LDR 0 2 0] s"
  let ?s2 = "c_call (?cc fiq_handler_c ?s1) ?s1"
  let ?s3 = "exec ?cc [MOVI 2 a, LDR 0 2 0, MOVI 1 0] ?s2"
  have dev2: "a \<noteq> periphbase ?s2 + 0x100 + 0x0C" using dev by (simp only: icc_c_call periphbase_exec) simp
  have "icc ?s2 = icc s" by (simp only: icc_c_call load_interrupt(1) [OF dev]) (simp add: ltzvisor_env_def nogic)
  moreover have "mem ?s2 a = mem s a"
    using keeps by (simp only: mem_c_call load_interrupt(1) [OF dev]) (simp add: ltzvisor_env_def c_keeps_def)
  ultimately have "icc ?s3 = icc s" "rd ?s3 0 = mem s a" "rd ?s3 1 = 0"
    unfolding load_interrupt(2) [OF dev2] by (simp_all add: rd_def)
  moreover have "exec ?cc (mon_fiq_service a) s = c_call (?cc interrupt_clear_c ?s3) ?s3"
    by (simp only: mon_fiq_service_def exec.simps exec1.simps)
  ultimately show ?thesis by (simp only: icc_c_call) (simp add: ltzvisor_env_def)
qed

text \<open>A FIQ acknowledges the interrupt controller twice and completes once: the number stored and
  passed to the handlers is that of the first acknowledge, its end is signalled, and the second
  acknowledge, which may return another pending interrupt, is never completed.\<close>

lemma fiq_acknowledges_twice:
  assumes lay: "layout_ok a (regs s (Sp Mon)) (cp15 s False TPIDRPRW) (periphbase s)"
    and keeps: "c_keeps junk fiq_calls (insert a (words (cp15 s False TPIDRPRW) 30 \<union> words (regs s (Sp Mon)) 25))"
    and nogic: "\<And>t c. c_icc (junk fiq_handler_c t) c = c"
    and fiq: "s' = exec (ltzvisor_env junk) (mon_fiq_handler a) (take_fiq s)"
  shows "iar_reads (icc s') = iar_reads (icc s) + 2 \<and>
    eoi_trace (icc s') = ICCIAR (icc s) (iar_reads (icc s)) # eoi_trace (icc s)"
proof -
  let ?cc = "ltzvisor_env junk" and ?t = "take_fiq s"
  have mon: "cmode ?t = MONITOR_MODE" by (simp add: take_fiq_def)
  have f: "regs s (Sp Mon) = regs ?t (Sp Mon)" "cp15 s False TPIDRPRW = cp15 ?t False TPIDRPRW"
    "layout_ok a (regs s (Sp Mon)) (cp15 s False TPIDRPRW) (periphbase ?t)"
    using lay by (simp_all add: take_fiq_def)
  let ?s3 = "exec ?cc (fiq_save a) ?t"
  note s3 = fiq_save_exec(5,8) [OF mon f refl, of ?cc]
  have dev: "a \<noteq> periphbase ?s3 + 0x100 + 0x0C"
    using lay by (simp only: periphbase_exec layout_ok_def) (simp add: take_fiq_def)
  have "c_keeps ?cc fiq_calls (words (cp15 s False TPIDRPRW) 30 \<union> words (regs s (Sp Mon)) 25)"
    using keeps by (auto simp: c_keeps_def ltzvisor_env_def)
  from mon_fiq_handler_exec(8) [OF mon f this fiq] have "icc s' = icc (exec ?cc (mon_fiq_service a) ?s3)"
    by (simp only: exec_append)
  with service_icc [OF dev keeps nogic] s3 show ?thesis
    by (simp add: interrupt_clear_def write_ICCEOIR_def read_ICCIAR_def take_fiq_def)
qed

section \<open>The calls of a guest\<close>

text \<open>A board call, from either world: the number in r0 is negative.\<close>

definition board_call :: "c_env \<Rightarrow> cpu \<Rightarrow> cpu \<Rightarrow> bool" where
  "board_call cc s s' \<longleftrightarrow> sint (regs s (R 0)) < 0 \<and> (\<exists>ret. s' = exec cc (mon_smc_handler (regs s (R 0))) (take_smc ret s))"

lemma board_call_spec:
  assumes "board_call cc s s'"
  obtains t where "monitor_kept s s'" "mem s' = c_mem (cc board_handler_c t) (mem t)"
    "\<exists>ws. length ws = 14 \<and> mem t = store_words (regs s (Sp Mon) - 56) ws (mem s)"
    "cmode t = MONITOR_MODE" "regs t (R 0) = regs s (R 0)" "regs t (R 1) = regs s (R 1)" "regs t (R 2) = regs s (R 2)"
proof -
  obtain ret where neg: "sint (regs s (R 0)) < 0" and s': "s' = exec cc (mon_smc_handler (regs s (R 0))) (take_smc ret s)"
    using assms by (auto simp: board_call_def)
  let ?e = "take_smc ret s"
  have mon: "cmode ?e = MONITOR_MODE" by (simp add: take_smc_def)
  define t where "t = ?e\<lparr>regs := (regs ?e)(R 4 := regs ?e (Spsr Mon), Sp Mon := regs ?e (Sp Mon) - 56),
    mem := store_words (regs ?e (Sp Mon) - 56) (map (regs ?e) call_frame) (mem ?e)\<rparr>"
  have mont: "cmode t = MONITOR_MODE" using mon by (simp add: t_def cmode_def del: store_words.simps)
  let ?u = "c_call (cc board_handler_c t) t"
  have u: "s' = exec cc exception_return_arg ?u"
    using neg call_c_function_arg_exec [OF mon t_def, of cc board_handler_c] by (simp add: s' mon_smc_handler_def board_smc_def exec_append)
  note r = exception_return_arg_exec [OF c_call_regs(4) [OF mont] u]
  have "cp15 ?u = cp15 t" using c_call_same [OF mont] by (simp add: call_same_def)
  moreover have "periphbase s' = periphbase s" by (simp add: s' periphbase_exec) (simp add: take_smc_def)
  ultimately have "monitor_kept s s'"
    using r(4,6,8) by (simp add: monitor_kept_def c_call_regs [OF mont]) (simp add: t_def take_smc_def)
  moreover have "mem s' = c_mem (cc board_handler_c t) (mem t)" by (simp only: r(7) mem_c_call)
  moreover have "mem t = store_words (regs s (Sp Mon) - 56) (map (regs ?e) call_frame) (mem s)" by (simp add: t_def take_smc_def del: store_words.simps)
  then have "\<exists>ws. length ws = 14 \<and> mem t = store_words (regs s (Sp Mon) - 56) ws (mem s)"
    by (intro exI [of _ "map (regs ?e) call_frame"] conjI) (simp_all only: length_map, simp add: call_frame_def)
  moreover have "regs t (R 0) = regs s (R 0)" "regs t (R 1) = regs s (R 1)" "regs t (R 2) = regs s (R 2)"
    by (simp_all add: t_def take_smc_def)
  ultimately show thesis using mont by (intro that [of t])
qed

text \<open>Of the words above the frame it pushes, a board call changes at most the one it is asked to write.\<close>

lemma board_call_memory:
  assumes call: "board_call (ltzvisor_env junk) s s'" and keeps: "c_keeps junk {board_handler_c} A"
    and apart: "A \<inter> words (regs s (Sp Mon) - 56) 14 = {}" and x: "x \<in> A" "\<not> (regs s (R 0) = LTZVISOR_WRITE_SYSCALL \<and> regs s (R 1) = x)"
  shows "mem s' x = mem s x"
proof -
  from board_call_spec [OF call] obtain t where
    t0: "mem s' = c_mem (ltzvisor_env junk board_handler_c t) (mem t)" "\<exists>ws. length ws = 14 \<and> mem t = store_words (regs s (Sp Mon) - 56) ws (mem s)"
      "cmode t = MONITOR_MODE" "regs t (R 0) = regs s (R 0)" "regs t (R 1) = regs s (R 1)" "regs t (R 2) = regs s (R 2)" by blast
  then obtain ws where
    t: "mem s' = c_mem (ltzvisor_env junk board_handler_c t) (mem t)" "mem t = store_words (regs s (Sp Mon) - 56) ws (mem s)" "length ws = 14"
      "cmode t = MONITOR_MODE" "regs t (R 0) = regs s (R 0)" "regs t (R 1) = regs s (R 1)" "regs t (R 2) = regs s (R 2)" by blast
  have "mem s' x = io_mem (snd (board_handler (rd t 0) (rd t 1) (rd t 2) (rd t 3) \<lparr>io_mem = mem t, io_log = []\<rparr>)) x"
    using keeps x(1) by (simp add: t(1) ltzvisor_env_def Let_def c_keeps_def)
  also have "\<dots> = mem t x" using x(2) t(4-7) by (auto simp: board_handler_def write32_def rd_def)
  also have "\<dots> = mem s x" using apart x(1) unfolding t(2) by (intro store_words_outside) (auto simp: t(3) simp del: words.simps)
  finally show ?thesis .
qed

text \<open>The guest runs, by itself or through a board call that does not write into the frame the monitor holds for the Secure world.\<close>

definition guest_step :: "c_env \<Rightarrow> cpu \<Rightarrow> cpu \<Rightarrow> bool" where
  "guest_step cc s s' \<longleftrightarrow> ns_run s s' \<or>
     board_call cc s s' \<and> (regs s (R 0) = LTZVISOR_WRITE_SYSCALL \<longrightarrow> regs s (R 1) \<notin> words (regs s (Sp Mon)) 25)"

lemma ns_run_trans: "ns_run s t \<Longrightarrow> ns_run t u \<Longrightarrow> ns_run s u"
  by (auto simp: ns_run_def monitor_kept_def simp del: words.simps)

lemma guest_runs:
  assumes "(guest_step (ltzvisor_env junk))\<^sup>*\<^sup>* s s'" and keeps: "c_keeps junk {board_handler_c} (words (regs s (Sp Mon)) 25)"
  shows "ns_run s s'"
  using assms(1)
proof (induction rule: rtranclp_induct)
  case base
  show ?case by (simp add: ns_run_def monitor_kept_def)
next
  case (step t u)
  have sp: "regs t (Sp Mon) = regs s (Sp Mon)" using step.IH by (simp add: ns_run_def monitor_kept_def)
  from step.hyps(2) have "ns_run t u" unfolding guest_step_def
  proof
    assume b: "board_call (ltzvisor_env junk) t u \<and> (regs t (R 0) = LTZVISOR_WRITE_SYSCALL \<longrightarrow> regs t (R 1) \<notin> words (regs t (Sp Mon)) 25)"
    have "words (regs t (Sp Mon)) 25 \<inter> words (regs t (Sp Mon) - 56) 14 = {}"
      using words_halves [of 14 25 "regs t (Sp Mon) - 56"] by (simp add: Int_commute del: words.simps)
    then have "\<forall>x \<in> words (regs t (Sp Mon)) 25. mem u x = mem t x"
      using b board_call_memory [OF conjunct1 [OF b] keeps [folded sp]] by blast
    moreover have "monitor_kept t u" using b board_call_spec by blast
    ultimately show "ns_run t u" by (simp add: ns_run_def del: words.simps)
  qed
  with step.IH show ?case by (rule ns_run_trans)
qed

text \<open>C3: The world switch is transparent to the Secure world in the registers it saves. The Secure guest calls the scheduler, the Non-secure
  guest runs for any time, and a FIQ returns. The run is any sequence of the guest's own instructions, which TrustZone keeps from the
  stack, the stack pointer and the thread register of the Secure world, and of its board calls, as long as none of them writes into the saved frame; the guest makes no
  scheduling call and no call of an unknown number. Then the Secure world continues after its call with its processor state, r0-r12, the System mode stack and link
  registers and all of the FIQ bank as they were, in the Secure state with FIQ no longer routed
  to the monitor, and with the monitor stack balanced.\<close>

theorem secure_transparent:
  assumes lay: "layout_ok a (regs s (Sp Mon) - 100) (cp15 s False TPIDRPRW) (periphbase s)"
    and sec: "\<not> bit (scr s) 0"
    and keeps: "c_keeps junk UNIV (words (cp15 s False TPIDRPRW) 30 \<union> words (regs s (Sp Mon) - 100) 25)"
    and smc: "s1 = exec (ltzvisor_env junk) (mon_smc_handler LTZVISOR_SCHED_SYSCALL) (take_smc ret s)"
    and run: "(guest_step (ltzvisor_env junk))\<^sup>*\<^sup>* s1 s2"
    and fiq: "s3 = exec (ltzvisor_env junk) (mon_fiq_handler a) (take_fiq s2)"
  shows "pc s3 = ret \<and> cpsr s3 = cpsr s \<and>
    (\<forall>p \<in> set s_frame - {Spsr Mon, Lr Mon}. regs s3 p = regs s p) \<and>
    \<not> bit (scr s3) 0 \<and> \<not> bit (scr s3) 2 \<and> regs s3 (Sp Mon) = regs s (Sp Mon)"
proof -
  have f: "regs s (Sp Mon) - 100 = regs (take_smc ret s) (Sp Mon) - 100" "cp15 s False TPIDRPRW = cp15_rd (take_smc ret s) TPIDRPRW"
    "layout_ok a (regs s (Sp Mon) - 100) (cp15 s False TPIDRPRW) (periphbase (take_smc ret s))" and m: "cmode (take_smc ret s) = MONITOR_MODE"
    using lay sec by (simp_all add: take_smc_def secure_thread_reg)
  have sp: "regs s1 (Sp Mon) = regs s (Sp Mon) - 100" by (rule mon_scheduler_exec(4) [OF m f smc [unfolded smc_scheduler]])
  have "c_keeps junk {board_handler_c} (words (regs s1 (Sp Mon)) 25)" using keeps by (simp add: c_keeps_def sp del: words.simps)
  from guest_runs [OF run this] have r: "ns_run s1 s2" .
  have k: "c_keeps (ltzvisor_env junk) fiq_calls (words (cp15 s False TPIDRPRW) 30 \<union> words (regs s (Sp Mon) - 100) 25)"
    using keeps by (auto simp: c_keeps_def ltzvisor_env_def simp del: words.simps)
  show ?thesis
    by (rule scheduling_call_resumed [OF _ lay k smc r fiq]) (use lay sec in \<open>simp add: secure_thread_reg\<close>)
qed

theorem secure_transparent_witness:
  "let s = demo_cpu 0x1C001000 0;
       s1 = exec (ltzvisor_env idle_env) (mon_smc_handler LTZVISOR_SCHED_SYSCALL) (take_smc 0x1C000100 s);
       s3 = exec (ltzvisor_env idle_env) (mon_fiq_handler 0x1C003000) (take_fiq s1)
   in pc s3 = 0x1C000100 \<and> cpsr s3 = 0x13 \<and> regs s3 (R 5) = 42"
proof -
  let ?s = "demo_cpu 0x1C001000 0"
  let ?s1 = "exec (ltzvisor_env idle_env) (mon_smc_handler LTZVISOR_SCHED_SYSCALL) (take_smc 0x1C000100 ?s)"
  have lay: "layout_ok 0x1C003000 (regs ?s (Sp Mon) - 100) (cp15 ?s False TPIDRPRW) (periphbase ?s)"
    using demo_layout by (simp add: demo_cpu_def)
  have sec: "\<not> bit (scr ?s) 0" by (simp add: demo_cpu_def)
  have "R 5 \<in> set s_frame - {Spsr Mon, Lr Mon}" by (simp add: s_frame_def)
  moreover have "cpsr ?s = 0x13" "regs ?s (R 5) = 42" by (simp_all add: demo_cpu_def)
  ultimately show ?thesis
    using secure_transparent [OF lay sec idle_keeps refl rtranclp.rtrancl_refl refl] by (simp only: Let_def)
qed

text \<open>The same happens after a scheduling call of the Non-secure guest, which the monitor accepts: the next FIQ resumes the code behind
  that call, with its own registers, but in the Secure state.\<close>

lemma guest_scheduling_call_escalates:
  assumes ns: "bit (scr s) 0"
    and lay: "layout_ok a (regs s (Sp Mon) - 100) (cp15 s True TPIDRPRW) (periphbase s)"
      "layout_ok a (regs s (Sp Mon) - 100) (cp15 s False TPIDRPRW) (periphbase s)"
    and keeps: "c_keeps cc fiq_calls (words (cp15 s False TPIDRPRW) 30 \<union> words (regs s (Sp Mon) - 100) 25)"
    and smc: "s1 = exec cc (mon_smc_handler LTZVISOR_SCHED_SYSCALL) (take_smc ret s)"
    and run: "ns_run s1 s2" and fiq: "s3 = exec cc (mon_fiq_handler a) (take_fiq s2)"
  shows "pc s3 = ret \<and> cpsr s3 = cpsr s \<and> \<not> bit (scr s3) 0"
proof -
  have "cp15_rd s TPIDRPRW = cp15 s True TPIDRPRW" using ns by (simp add: cp15_rd_def cp15_bank_def scr_ns_def)
  with scheduling_call_resumed [OF _ lay(2) keeps smc run fiq] lay(1) show ?thesis by simp
qed

section \<open>The protocol of the two worlds\<close>

text \<open>The protocol as a transition system: code of either world runs, either world makes board calls, the Secure world calls the
  scheduler, a FIQ interrupts the Non-secure world.\<close>

datatype world = Secure | Nonsecure

inductive world_step :: "c_env \<Rightarrow> u32 \<Rightarrow> world \<times> cpu \<Rightarrow> world \<times> cpu \<Rightarrow> bool" for cc a where
  s_runs: "s_run s s' \<Longrightarrow> world_step cc a (Secure, s) (Secure, s')"
| ns_runs: "ns_run s s' \<Longrightarrow> world_step cc a (Nonsecure, s) (Nonsecure, s')"
| board_calls: "board_call cc s s' \<Longrightarrow> world_step cc a (w, s) (w, s')"
| schedule: "s' = exec cc (mon_smc_handler LTZVISOR_SCHED_SYSCALL) (take_smc ret s) \<Longrightarrow>
    world_step cc a (Secure, s) (Nonsecure, s')"
| interrupt: "s' = exec cc (mon_fiq_handler a) (take_fiq s) \<Longrightarrow>
    world_step cc a (Nonsecure, s) (Secure, s')"

inductive_cases world_stepE: "world_step cc a (w, s) (w', s')"

definition world_inv :: "u32 \<Rightarrow> u32 \<Rightarrow> u32 \<Rightarrow> world \<times> cpu \<Rightarrow> bool" where
  "world_inv tos ctx pb ws = (case ws of (w, s) \<Rightarrow>
     cp15 s False TPIDRPRW = ctx \<and> periphbase s = pb \<and>
     (case w of Secure \<Rightarrow> regs s (Sp Mon) = tos \<and> \<not> bit (scr s) 0 \<and> \<not> bit (scr s) 2
      | Nonsecure \<Rightarrow> regs s (Sp Mon) = tos - 100 \<and> bit (scr s) 0 \<and> bit (scr s) 2))"

lemma world_inv_step:
  assumes lay: "layout_ok a (tos - 100) ctx pb" and keeps: "c_keeps cc fiq_calls (words ctx 30 \<union> words (tos - 100) 25)"
    and step: "world_step cc a x y" and inv: "world_inv tos ctx pb x"
  shows "world_inv tos ctx pb y"
  using step inv
proof cases
  case (s_runs s s')
  with inv show ?thesis by (simp add: world_inv_def s_run_def monitor_kept_def)
next
  case (ns_runs s s')
  with inv show ?thesis by (simp add: world_inv_def ns_run_def monitor_kept_def)
next
  case (board_calls s s' w)
  from board_call_spec [OF this(3)] have "monitor_kept s s'" by blast
  with inv board_calls(1,2) show ?thesis by (cases w) (simp_all add: world_inv_def monitor_kept_def)
next
  case (schedule s' ret s)
  have m: "cmode (take_smc ret s) = MONITOR_MODE" by (simp add: take_smc_def)
  have f: "tos - 100 = regs (take_smc ret s) (Sp Mon) - 100" "ctx = cp15_rd (take_smc ret s) TPIDRPRW"
    "layout_ok a (tos - 100) ctx (periphbase (take_smc ret s))"
    using inv schedule lay by (simp_all add: world_inv_def take_smc_def secure_thread_reg)
  note r = mon_scheduler_exec(4,5,6,8) [OF m f schedule(3) [unfolded smc_scheduler]]
  then show ?thesis using inv schedule(1,2) bit_scr_set by (simp add: world_inv_def take_smc_def)
next
  case (interrupt s' s)
  have m: "cmode (take_fiq s) = MONITOR_MODE" by (simp add: take_fiq_def)
  have f: "tos - 100 = regs (take_fiq s) (Sp Mon)" "ctx = cp15 (take_fiq s) False TPIDRPRW"
    "layout_ok a (tos - 100) ctx (periphbase (take_fiq s))"
    using inv interrupt lay by (simp_all add: world_inv_def take_fiq_def)
  note r = mon_fiq_handler_exec(4,5,6) [OF m f keeps interrupt(3)]
  have "periphbase s' = pb" using inv interrupt by (simp add: world_inv_def periphbase_exec take_fiq_def)
  with r show ?thesis using inv interrupt(1,2) bit_scr_clear by (simp add: world_inv_def take_fiq_def)
qed

text \<open>A scheduling call takes one frame of the monitor stack, whoever makes it.\<close>

lemma scheduling_call_stack:
  "regs (exec cc (mon_smc_handler LTZVISOR_SCHED_SYSCALL) (take_smc ret s)) (Sp Mon) = regs s (Sp Mon) - 100"
proof -
  have "cmode (take_smc ret s) = MONITOR_MODE" by (simp add: take_smc_def)
  note m = mon_scheduler_save_exec [OF this, of cc] this [unfolded cmode_def]
  have "regs (exec cc mon_scheduler (take_smc ret s)) (Sp Mon) = regs (take_smc ret s) (Sp Mon) - 100"
    unfolding mon_scheduler_def exec_append m(1) using m(2)
    by (simp add: GET_NS_WORLD_CONTEXT_def WORLD_CONTEXT_RESTORE_def SCR_NS_SET_def sym_exec cp15_rd_def cp15_bank_def scr_ns_def with_mode_same
      del: store_words.simps load_words_numeral)
  then show ?thesis by (simp add: take_smc_def)
qed

text \<open>C2: The protocol of the world switch. After any interleaving of runs of the two worlds, board calls of either, scheduling calls of the Secure
  world and interrupts of the Non-secure one, the monitor stack has not drifted (it is at its top in the Secure world and one frame lower
  in the Non-secure one), the Secure thread register points
  to the guest's context, and the NS bit and the routing of FIQs agree with the world that runs. Of the guest's calls the interleaving has
  the board calls only, with the monitor's code taken as fixed; a call of an unknown number leaves the protocol, as C8 shows, and so does
  a scheduling call, which the monitor accepts from the guest as well: from any state reached it takes a second frame of the stack, and the invariant is lost for both worlds.\<close>

theorem world_invariant:
  assumes lay: "layout_ok a (tos - 100) ctx pb" and keeps: "c_keeps cc fiq_calls (words ctx 30 \<union> words (tos - 100) 25)"
    and steps: "(world_step cc a)\<^sup>*\<^sup>* x y" and inv: "world_inv tos ctx pb x"
  shows "world_inv tos ctx pb y \<and>
    (\<forall>s ret s' w. y = (Nonsecure, s) \<and> s' = exec cc (mon_smc_handler LTZVISOR_SCHED_SYSCALL) (take_smc ret s) \<longrightarrow>
      regs s' (Sp Mon) = tos - 200 \<and> \<not> world_inv tos ctx pb (w, s'))"
proof -
  have y: "world_inv tos ctx pb y" using steps inv by (induction rule: rtranclp_induct) (blast intro: world_inv_step [OF lay keeps])+
  have "regs s' (Sp Mon) = tos - 200 \<and> \<not> world_inv tos ctx pb (w, s')"
    if "y = (Nonsecure, s)" "s' = exec cc (mon_smc_handler LTZVISOR_SCHED_SYSCALL) (take_smc ret s)" for s ret s' w
  proof -
    have sp: "regs s' (Sp Mon) = tos - 200" using y that scheduling_call_stack [of cc ret s] by (simp add: world_inv_def)
    then show ?thesis by (cases w) (simp_all add: world_inv_def)
  qed
  with y show ?thesis by blast
qed

theorem world_invariant_witness:
  "\<exists>s. (world_step idle_env 0x1C003000)\<^sup>*\<^sup>* (Secure, demo_cpu 0x1C001000 0) (Nonsecure, s) \<and>
    world_inv 0x1C001000 0x1C002000 0xF8F00000 (Nonsecure, s)"
proof -
  let ?s = "exec idle_env (mon_smc_handler LTZVISOR_SCHED_SYSCALL) (take_smc 0 (demo_cpu 0x1C001000 0))"
  have step: "(world_step idle_env 0x1C003000)\<^sup>*\<^sup>* (Secure, demo_cpu 0x1C001000 0) (Nonsecure, ?s)"
    by (rule r_into_rtranclp) (rule world_step.schedule, rule refl)
  have lay: "layout_ok 0x1C003000 (0x1C001000 - 100) 0x1C002000 0xF8F00000" using demo_layout by simp
  have "world_inv 0x1C001000 0x1C002000 0xF8F00000 (Secure, demo_cpu 0x1C001000 0)"
    by (simp add: world_inv_def demo_cpu_def)
  from world_invariant [OF lay idle_keeps step this] step show ?thesis by blast
qed

end
