(* ===== verification/Uart.thy ===== *)
theory Uart
  imports Cstring
begin

unbundle bit_operations_syntax

text \<open>
  The serial port driver: \<^verbatim>\<open>zynq_uart.c\<close> of the boards (\<^verbatim>\<open>src/src/boards\<close>) and the guest's driver
  \<^verbatim>\<open>src/ns_guest/src/zynq_uart.c\<close>, which searches the baud-rate divisors.

  \<open>ch_status u n\<close> and \<open>rx_data u n\<close> are what the hardware returns to the \<open>n\<close>-th read of the status
  and of the receive FIFO; the counters say how many reads were done. \<open>tx_log\<close> has the words
  written to the transmit FIFO, newest first, each with the number of status reads before it.
  A polling loop is a \<open>partial_function\<close>: \<open>None\<close> when the flag never changes. \<open>control\<close> reads back
  what was written last.
\<close>

section \<open>Registers\<close>

record Uart_Zynq =
  control :: u32
  mode :: u32
  isr_en :: u32
  isr_status :: u32
  br_gen :: u32
  rx_timeout :: u32
  rx_fifo_trig :: u32
  br_div :: u32
  ch_status :: "nat \<Rightarrow> u32"
  status_reads :: nat
  rx_data :: "nat \<Rightarrow> u32"
  rx_reads :: nat
  tx_log :: "(nat \<times> u32) list"

abbreviation NUM_UART :: nat where "NUM_UART \<equiv> 2"
abbreviation UART_CONTROL_STPBRK :: u32 where "UART_CONTROL_STPBRK \<equiv> 0x100"
abbreviation UART_CONTROL_TXDIS :: u32 where "UART_CONTROL_TXDIS \<equiv> 0x20"
abbreviation UART_CONTROL_TXEN :: u32 where "UART_CONTROL_TXEN \<equiv> 0x10"
abbreviation UART_CONTROL_RXDIS :: u32 where "UART_CONTROL_RXDIS \<equiv> 0x08"
abbreviation UART_CONTROL_RXEN :: u32 where "UART_CONTROL_RXEN \<equiv> 0x04"
abbreviation UART_CONTROL_TXRES :: u32 where "UART_CONTROL_TXRES \<equiv> 0x02"
abbreviation UART_CONTROL_RXRES :: u32 where "UART_CONTROL_RXRES \<equiv> 0x01"
abbreviation UART_CH_STATUS_RTRIG :: u32 where "UART_CH_STATUS_RTRIG \<equiv> 0x01"
abbreviation UART_CH_STATUS_TFUL :: u32 where "UART_CH_STATUS_TFUL \<equiv> 0x10"
abbreviation UART_ISR_EN_RTRIG :: u32 where "UART_ISR_EN_RTRIG \<equiv> 0x01"
abbreviation UART_MODE_PAR_NP :: u32 where "UART_MODE_PAR_NP \<equiv> 0x20"
abbreviation UART_RX_TRIGGER_LVL :: u32 where "UART_RX_TRIGGER_LVL \<equiv> 1"
abbreviation UART_RX_TIMEOUT_DIS :: u32 where "UART_RX_TIMEOUT_DIS \<equiv> 0"
abbreviation UART_BAUD_RATE :: u32 where "UART_BAUD_RATE \<equiv> 115200"
abbreviation UART_FREQ_CLK :: u32 where "UART_FREQ_CLK \<equiv> 50000000"
abbreviation UART_MAX_ERROR :: u32 where "UART_MAX_ERROR \<equiv> 5"
abbreviation UART_BDIV_115200 :: u32 where "UART_BDIV_115200 \<equiv> 5"
abbreviation UART_CD_115200 :: u32 where "UART_CD_115200 \<equiv> 72"

text \<open>\<open>Ptr_Uart[uart_id]\<close>: the operations act on one element of the array of the two ports.\<close>

definition on_uart :: "u8 \<Rightarrow> (Uart_Zynq \<Rightarrow> ('a \<times> Uart_Zynq) option) \<Rightarrow> Uart_Zynq list \<Rightarrow> ('a \<times> Uart_Zynq list) option" where
  "on_uart uart_id f us =
     do { u \<leftarrow> arr_get us (unat uart_id);
          r \<leftarrow> f u;
          us' \<leftarrow> arr_upd us (unat uart_id) (snd r);
          Some (fst r, us') }"

section \<open>The boards' driver\<close>

text \<open>The requested rate only replaces zero; the divisors are those of 115200 baud.\<close>

definition uart_set_baud_rate :: "u32 \<Rightarrow> Uart_Zynq \<Rightarrow> u32 \<times> Uart_Zynq" where
  "uart_set_baud_rate baud_rate u =
     (let baud_rate = (if baud_rate = 0 then UART_BAUD_RATE else baud_rate);
          bdiv = UART_BDIV_115200;
          cd_calc = UART_CD_115200;
          u = u\<lparr>control := UART_CONTROL_RXDIS OR UART_CONTROL_TXDIS\<rparr>;
          u = u\<lparr>br_gen := cd_calc\<rparr>;
          u = u\<lparr>br_div := bdiv\<rparr>;
          u = u\<lparr>control := UART_CONTROL_TXRES OR UART_CONTROL_RXRES\<rparr>;
          u = u\<lparr>control := UART_CONTROL_TXEN OR UART_CONTROL_RXEN\<rparr>
      in (TRUE, u))"

definition uart_init :: "Uart_Zynq \<Rightarrow> u32 \<times> Uart_Zynq" where
  "uart_init u =
     (let (ret, u) = uart_set_baud_rate UART_BAUD_RATE u
      in if ret = FALSE then (FALSE, u)
         else
           let u = u\<lparr>rx_fifo_trig := UART_RX_TRIGGER_LVL\<rparr>;
               u = u\<lparr>rx_timeout := UART_RX_TIMEOUT_DIS\<rparr>;
               u = u\<lparr>isr_status := 0xFFFFFFFF\<rparr>;
               u = u\<lparr>isr_en := UART_ISR_EN_RTRIG\<rparr>;
               u = u\<lparr>control := control u OR (UART_CONTROL_STPBRK OR UART_CONTROL_RXRES OR UART_CONTROL_TXRES)\<rparr>
           in (TRUE, u))"

definition uart_enable :: "Uart_Zynq \<Rightarrow> Uart_Zynq" where
  "uart_enable u = u\<lparr>control := UART_CONTROL_STPBRK OR UART_CONTROL_TXEN OR UART_CONTROL_RXEN OR
     UART_CONTROL_RXRES OR UART_CONTROL_TXRES\<rparr>"

definition uart_disable :: "Uart_Zynq \<Rightarrow> Uart_Zynq" where
  "uart_disable u = u\<lparr>control := UART_CONTROL_STPBRK OR UART_CONTROL_TXDIS OR UART_CONTROL_RXDIS\<rparr>"

definition read_status :: "Uart_Zynq \<Rightarrow> u32 \<times> Uart_Zynq" where
  "read_status u = (ch_status u (status_reads u), u\<lparr>status_reads := Suc (status_reads u)\<rparr>)"

definition read_fifo :: "Uart_Zynq \<Rightarrow> u32 \<times> Uart_Zynq" where
  "read_fifo u = (rx_data u (rx_reads u), u\<lparr>rx_reads := Suc (rx_reads u)\<rparr>)"

definition write_fifo :: "u32 \<Rightarrow> Uart_Zynq \<Rightarrow> Uart_Zynq" where
  "write_fifo c u = u\<lparr>tx_log := (status_reads u, c) # tx_log u\<rparr>"

text \<open>\<open>while (cond(ch_status));\<close>\<close>

partial_function (option) poll :: "(u32 \<Rightarrow> bool) \<Rightarrow> Uart_Zynq \<Rightarrow> Uart_Zynq option" where
  "poll busy u = (let (st, u) = read_status u in if busy st then poll busy u else Some u)"

definition uart_getc :: "Uart_Zynq \<Rightarrow> (u32 \<times> Uart_Zynq) option" where
  "uart_getc u =
     do { u \<leftarrow> poll (\<lambda>st. (ucast (st AND UART_CH_STATUS_RTRIG) :: u8) = 0) u;
          Some (read_fifo u) }"

text \<open>On zybo and zc702 the loop condition is \<open>!ch_status & UART_CH_STATUS_RTRIG\<close>, where the
  negation binds to the whole status word.\<close>

definition uart_getc_zybo :: "Uart_Zynq \<Rightarrow> (u32 \<times> Uart_Zynq) option" where
  "uart_getc_zybo u =
     do { u \<leftarrow> poll (\<lambda>st. (if st = 0 then 1 else 0) AND UART_CH_STATUS_RTRIG \<noteq> 0) u;
          Some (read_fifo u) }"

definition uart_putc :: "u8 \<Rightarrow> Uart_Zynq \<Rightarrow> Uart_Zynq option" where
  "uart_putc c u =
     do { u \<leftarrow> poll (\<lambda>st. st AND UART_CH_STATUS_TFUL \<noteq> 0) u;
          Some (write_fifo (scast c) u) }"

partial_function (option) uart_puts :: "mem \<Rightarrow> u32 \<Rightarrow> Uart_Zynq \<Rightarrow> Uart_Zynq option" where
  "uart_puts m s u =
     (if m s \<noteq> 0 then do { u \<leftarrow> uart_putc (m s) u; uart_puts m (s + 1) u } else Some u)"

section \<open>The guest's baud-rate search\<close>

text \<open>
  The loop \<open>for (bdiv = 4; bdiv < 255; bdiv++)\<close>. \<open>cd_calc\<close> and \<open>error_calc\<close> are \<open>uint16_t\<close>; a division
  by zero is undefined (\<open>None\<close>). \<open>Some None\<close> is a search without result.
\<close>

definition baud_try :: "u32 \<Rightarrow> nat \<Rightarrow> (u16 \<times> bool) option" where
  "baud_try baud_rate bdiv =
     (if baud_rate * of_nat (bdiv + 1) = 0 then None
      else
        let cd_calc = ucast (UART_FREQ_CLK div (baud_rate * of_nat (bdiv + 1))) :: u16
        in if ucast cd_calc * of_nat (bdiv + 1) = (0 :: u32) then None
           else
             let baud_rate_calc = UART_FREQ_CLK div (ucast cd_calc * of_nat (bdiv + 1));
                 error_calc = ucast (if baud_rate > baud_rate_calc then baud_rate - baud_rate_calc
                                     else baud_rate_calc - baud_rate) :: u16
             in Some (cd_calc, (ucast error_calc * 1000) div baud_rate < UART_MAX_ERROR))"

function baud_search :: "u32 \<Rightarrow> nat \<Rightarrow> (u16 \<times> nat) option option" where
  "baud_search baud_rate bdiv =
     (if bdiv < 255
      then (case baud_try baud_rate bdiv of
              None \<Rightarrow> None
            | Some (cd, ok) \<Rightarrow> if ok then Some (Some (cd, bdiv)) else baud_search baud_rate (bdiv + 1))
      else Some None)"
  by pat_completeness auto
termination by (relation "measure (\<lambda>(_, bdiv). 255 - bdiv)") auto

declare baud_search.simps [simp del]

definition guest_set_baud_rate :: "u32 \<Rightarrow> Uart_Zynq \<Rightarrow> (u32 \<times> Uart_Zynq) option" where
  "guest_set_baud_rate baud_rate u =
     (let baud_rate = (if baud_rate = 0 then UART_BAUD_RATE else baud_rate)
      in do { r \<leftarrow> baud_search baud_rate 4;
              (case r of
                 None \<Rightarrow> Some (0, u)
               | Some (cd_calc, bdiv) \<Rightarrow>
                   let u = u\<lparr>control := UART_CONTROL_RXDIS OR UART_CONTROL_TXDIS\<rparr>;
                       u = u\<lparr>br_gen := ucast cd_calc\<rparr>;
                       u = u\<lparr>br_div := of_nat bdiv\<rparr>;
                       u = u\<lparr>control := UART_CONTROL_TXRES OR UART_CONTROL_RXRES\<rparr>;
                       u = u\<lparr>control := UART_CONTROL_TXEN OR UART_CONTROL_RXEN\<rparr>
                   in Some (1, u)) })"

definition guest_uart_init :: "Uart_Zynq \<Rightarrow> (u32 \<times> Uart_Zynq) option" where
  "guest_uart_init u =
     do { r \<leftarrow> baud_search UART_BAUD_RATE 4;
          (case r of
             None \<Rightarrow> Some (0, u)
           | Some (cd_calc, bdiv) \<Rightarrow>
               let u = u\<lparr>mode := UART_MODE_PAR_NP\<rparr>;
                   u = u\<lparr>control := UART_CONTROL_RXDIS OR UART_CONTROL_TXDIS\<rparr>;
                   u = u\<lparr>br_gen := ucast cd_calc\<rparr>;
                   u = u\<lparr>br_div := of_nat bdiv\<rparr>;
                   u = u\<lparr>control := UART_CONTROL_TXRES OR UART_CONTROL_RXRES\<rparr>;
                   u = u\<lparr>control := UART_CONTROL_TXEN OR UART_CONTROL_RXEN\<rparr>;
                   u = u\<lparr>rx_fifo_trig := UART_RX_TRIGGER_LVL\<rparr>;
                   u = u\<lparr>rx_timeout := UART_RX_TIMEOUT_DIS\<rparr>;
                   u = u\<lparr>isr_status := 0xFFFFFFFF\<rparr>;
                   u = u\<lparr>isr_en := UART_ISR_EN_RTRIG\<rparr>;
                   u = u\<lparr>control := UART_CONTROL_STPBRK OR UART_CONTROL_TXEN OR UART_CONTROL_RXEN OR
                           UART_CONTROL_RXRES OR UART_CONTROL_TXRES\<rparr>
               in Some (1, u)) }"

section \<open>Polling\<close>

text \<open>A polling loop returns as soon as a read shows the flag clear.\<close>

lemma poll_returns:
  "\<not> busy (ch_status u (status_reads u + k)) \<Longrightarrow> (\<And>j. j < k \<Longrightarrow> busy (ch_status u (status_reads u + j))) \<Longrightarrow>
    poll busy u = Some (u\<lparr>status_reads := status_reads u + Suc k\<rparr>)"
proof (induction k arbitrary: u)
  case 0
  then show ?case by (subst poll.simps) (simp add: read_status_def)
next
  case (Suc k)
  have "busy (ch_status u (status_reads u))" using Suc.prems(2) [of 0] by simp
  moreover have "poll busy (u\<lparr>status_reads := Suc (status_reads u)\<rparr>) =
      Some (u\<lparr>status_reads := status_reads u + Suc (Suc k)\<rparr>)"
    using Suc.prems(1) Suc.prems(2) [of "Suc j" for j]
    by (subst Suc.IH) simp_all
  ultimately show ?case by (subst poll.simps) (simp add: read_status_def)
qed

lemma poll_first:
  assumes "\<exists>k. \<not> busy (ch_status u (status_reads u + k))"
  shows "\<exists>k. \<not> busy (ch_status u (status_reads u + k)) \<and>
    poll busy u = Some (u\<lparr>status_reads := status_reads u + Suc k\<rparr>)"
proof -
  let ?P = "\<lambda>k. \<not> busy (ch_status u (status_reads u + k))"
  have "?P (LEAST k. ?P k)" using assms by (rule LeastI_ex)
  moreover have "busy (ch_status u (status_reads u + j))" if "j < (LEAST k. ?P k)" for j
    using not_less_Least [OF that] by simp
  ultimately show ?thesis using poll_returns [of busy u] by blast
qed

lemma poll_stops:
  assumes "poll busy u = Some u'"
  shows "\<exists>k. u' = u\<lparr>status_reads := status_reads u + Suc k\<rparr> \<and> \<not> busy (ch_status u (status_reads u + k))"
proof (rule poll.raw_induct [where P = "\<lambda>busy u u'. \<exists>k. u' = u\<lparr>status_reads := status_reads u + Suc k\<rparr> \<and>
      \<not> busy (ch_status u (status_reads u + k))", OF _ assms])
  fix f :: "(u32 \<Rightarrow> bool) \<Rightarrow> Uart_Zynq \<Rightarrow> Uart_Zynq option" and busy u u'
  assume IH: "\<And>busy u u'. f busy u = Some u' \<Longrightarrow>
      \<exists>k. u' = u\<lparr>status_reads := status_reads u + Suc k\<rparr> \<and> \<not> busy (ch_status u (status_reads u + k))"
    and eq: "(let (st, u) = read_status u in if busy st then f busy u else Some u) = Some u'"
  show "\<exists>k. u' = u\<lparr>status_reads := status_reads u + Suc k\<rparr> \<and> \<not> busy (ch_status u (status_reads u + k))"
  proof (cases "busy (ch_status u (status_reads u))")
    case True
    with eq have "f busy (u\<lparr>status_reads := Suc (status_reads u)\<rparr>) = Some u'" by (simp add: read_status_def)
    from IH [OF this] obtain k where "u' = u\<lparr>status_reads := status_reads u + Suc (Suc k)\<rparr>"
      "\<not> busy (ch_status u (status_reads u + Suc k))" by auto
    then show ?thesis by blast
  next
    case False
    with eq show ?thesis by (intro exI [of _ 0]) (simp add: read_status_def)
  qed
qed

lemma uart_putc_sends:
  assumes "\<exists>k. \<not> ch_status u (status_reads u + k) AND UART_CH_STATUS_TFUL \<noteq> 0"
  shows "\<exists>n. uart_putc c u = Some (u\<lparr>status_reads := n, tx_log := (n, scast c) # tx_log u\<rparr>) \<and>
    0 < n \<and> ch_status u (n - 1) AND UART_CH_STATUS_TFUL = 0"
proof -
  obtain k where "\<not> ch_status u (status_reads u + k) AND UART_CH_STATUS_TFUL \<noteq> 0"
    "poll (\<lambda>st. st AND UART_CH_STATUS_TFUL \<noteq> 0) u = Some (u\<lparr>status_reads := status_reads u + Suc k\<rparr>)"
    using poll_first [of "\<lambda>st. st AND UART_CH_STATUS_TFUL \<noteq> 0", OF assms] by blast
  then show ?thesis
    by (intro exI [of _ "status_reads u + Suc k"]) (simp add: uart_putc_def write_fifo_def)
qed

section \<open>The divisor search\<close>

lemma baud_search_result:
  "baud_search baud bdiv0 = Some (Some (cd, bdiv)) \<Longrightarrow>
    bdiv0 \<le> bdiv \<and> bdiv < 255 \<and> baud_try baud bdiv = Some (cd, True)"
proof (induction baud bdiv0 rule: baud_search.induct)
  case (1 baud bdiv0)
  from "1.prems" have lt: "bdiv0 < 255" by (auto simp: baud_search.simps [of baud bdiv0] split: if_splits)
  with "1.prems" obtain cd' ok where t: "baud_try baud bdiv0 = Some (cd', ok)"
    by (auto simp: baud_search.simps [of baud bdiv0] split: option.splits)
  show ?case
  proof (cases ok)
    case True
    with "1.prems" lt t show ?thesis by (simp add: baud_search.simps [of baud bdiv0])
  next
    case False
    with "1.prems" lt t have "baud_search baud (bdiv0 + 1) = Some (Some (cd, bdiv))"
      by (simp add: baud_search.simps [of baud bdiv0])
    with "1.IH" [OF lt t refl False] show ?thesis by simp
  qed
qed

text \<open>The 16-bit error stands for the true one as long as that fits.\<close>

lemma small_error:
  fixes e :: u32
  assumes "unat e < 2 ^ 16" "baud \<noteq> 0" "(ucast (ucast e :: u16) * 1000) div baud < UART_MAX_ERROR"
  shows "unat e * 1000 < 5 * unat baud"
proof -
  have e: "ucast (ucast e :: u16) = e"
    using assms(1) by (simp add: word_unat_eq_iff unsigned_ucast_eq unsigned_take_bit_eq take_bit_nat_eq_self)
  have "unat (e * 1000) = unat e * 1000"
    using assms(1) by (simp add: unat_mult_lem [THEN iffD1])
  moreover have "unat ((e * 1000) div baud) < 5"
    using assms(3) unfolding e by (simp add: word_less_nat_alt)
  ultimately have "unat e * 1000 div unat baud < 5" by (simp add: unat_div)
  then show ?thesis using assms(2) by (simp add: div_less_iff_less_mult unat_gt_0)
qed

section \<open>Properties\<close>

text \<open>If the transmit FIFO is not full infinitely often, \<open>uart_puts\<close> returns, has written exactly
  the bytes of the string in their order, wrote each of them right after a status read that
  showed room in the FIFO, and has changed no configuration register.\<close>

lemma uart_puts_transmits:
  assumes "cstr m p xs" and "\<forall>n. \<exists>k \<ge> n. ch_status u k AND UART_CH_STATUS_TFUL = 0"
  shows "\<exists>n ws. uart_puts m p u = Some (u\<lparr>status_reads := n, tx_log := rev ws @ tx_log u\<rparr>) \<and>
    map snd ws = map scast xs \<and>
    (\<forall>(r, c) \<in> set ws. 0 < r \<and> ch_status u (r - 1) AND UART_CH_STATUS_TFUL = 0)"
  using assms
proof (induction xs arbitrary: p u)
  case Nil
  then show ?case by (intro exI [of _ "status_reads u"] exI [of _ "[]"]) (subst uart_puts.simps, simp)
next
  case (Cons x xs)
  obtain k where "k \<ge> status_reads u" "ch_status u k AND UART_CH_STATUS_TFUL = 0" using Cons.prems(2) by blast
  then have "\<exists>k. \<not> ch_status u (status_reads u + k) AND UART_CH_STATUS_TFUL \<noteq> 0"
    by (intro exI [of _ "k - status_reads u"]) simp
  from uart_putc_sends [OF this, of x] obtain n where
    n: "uart_putc x u = Some (u\<lparr>status_reads := n, tx_log := (n, scast x) # tx_log u\<rparr>)" "0 < n"
      "ch_status u (n - 1) AND UART_CH_STATUS_TFUL = 0" by blast
  let ?u = "u\<lparr>status_reads := n, tx_log := (n, scast x) # tx_log u\<rparr>"
  have "cstr m (p + 1) xs" "\<forall>n. \<exists>k \<ge> n. ch_status ?u k AND UART_CH_STATUS_TFUL = 0"
    using Cons.prems by simp_all
  from Cons.IH [OF this] obtain n' ws where
    IH: "uart_puts m (p + 1) ?u = Some (?u\<lparr>status_reads := n', tx_log := rev ws @ tx_log ?u\<rparr>)"
      "map snd ws = map scast xs" "\<forall>(r, c) \<in> set ws. 0 < r \<and> ch_status u (r - 1) AND UART_CH_STATUS_TFUL = 0"
    by auto
  have "uart_puts m p u = uart_puts m (p + 1) ?u"
    using Cons.prems(1) n(1) by (subst uart_puts.simps) simp
  with IH n(2,3) show ?case by (intro exI [of _ n'] exI [of _ "(n, scast x) # ws"]) simp
qed

definition idle_uart :: "(nat \<Rightarrow> u32) \<Rightarrow> Uart_Zynq" where
  "idle_uart st = \<lparr>control = 0, mode = 0, isr_en = 0, isr_status = 0, br_gen = 0, rx_timeout = 0,
     rx_fifo_trig = 0, br_div = 0, ch_status = st, status_reads = 0, rx_data = (\<lambda>n. of_nat n + 65),
     rx_reads = 0, tx_log = []\<rparr>"

text \<open>The zedboard's \<open>uart_getc\<close> returns only after the receive trigger was seen set, and returns
  the next received word; the loop of zybo and zc702 ends on any status that is not zero, also
  when nothing was received.\<close>

lemma uart_getc_waits:
  "(uart_getc u = Some (c, u') \<longrightarrow>
      c = rx_data u (rx_reads u) \<and> 0 < status_reads u' \<and> bit (ch_status u (status_reads u' - 1)) 0) \<and>
   (ch_status u (status_reads u) = 8 \<longrightarrow>
      uart_getc_zybo u = Some (read_fifo (u\<lparr>status_reads := Suc (status_reads u)\<rparr>)))"
proof (intro conjI impI)
  assume "uart_getc u = Some (c, u')"
  then obtain v where v: "poll (\<lambda>st. (ucast (st AND UART_CH_STATUS_RTRIG) :: u8) = 0) u = Some v"
    "read_fifo v = (c, u')" by (auto simp: uart_getc_def split: Option.bind_splits)
  from poll_stops [OF v(1)] obtain k where k: "v = u\<lparr>status_reads := status_reads u + Suc k\<rparr>"
    "(ucast (ch_status u (status_reads u + k) AND UART_CH_STATUS_RTRIG) :: u8) \<noteq> 0" by blast
  have "bit w 0" if "(ucast (w AND UART_CH_STATUS_RTRIG) :: u8) \<noteq> 0" for w :: u32
    using that by (auto simp: and_one_eq mod2_eq_if bit_0 split: if_splits)
  with k(2) have "bit (ch_status u (status_reads u + k)) 0" by blast
  with v(2) k(1) show "c = rx_data u (rx_reads u)" "0 < status_reads u'" "bit (ch_status u (status_reads u' - 1)) 0"
    by (auto simp: read_fifo_def)
next
  assume "ch_status u (status_reads u) = 8"
  then have "poll (\<lambda>st. (if st = 0 then 1 else 0) AND UART_CH_STATUS_RTRIG \<noteq> 0) u =
      Some (u\<lparr>status_reads := Suc (status_reads u)\<rparr>)"
    by (subst poll.simps) (simp add: read_status_def)
  then show "uart_getc_zybo u = Some (read_fifo (u\<lparr>status_reads := Suc (status_reads u)\<rparr>))"
    by (simp add: uart_getc_zybo_def)
qed

text \<open>The divisors the boards use for 115200 baud are those the guest's search finds, their rate
  is within 0.5 percent of it, and \<open>uart_init\<close> always succeeds, programs them and leaves both paths
  enabled with the trigger interrupt on.\<close>

lemma uart_init_correct:
  "uart_init u = (TRUE, u\<lparr>control := 0x117, br_gen := 72, br_div := 5, rx_fifo_trig := 1, rx_timeout := 0,
      isr_status := 0xFFFFFFFF, isr_en := 1\<rparr>) \<and>
   baud_search UART_BAUD_RATE 4 = Some (Some (72, 5)) \<and>
   \<bar>50000000 div (72 * (5 + 1)) - 115200\<bar> * 1000 < 5 * (115200 :: int) \<and>
   guest_uart_init u = Some (1, (snd (uart_init u))\<lparr>mode := UART_MODE_PAR_NP\<rparr>)"
proof -
  have init: "uart_init u = (TRUE, u\<lparr>control := 0x117, br_gen := 72, br_div := 5, rx_fifo_trig := 1, rx_timeout := 0,
      isr_status := 0xFFFFFFFF, isr_en := 1\<rparr>)"
    by (simp add: uart_init_def uart_set_baud_rate_def Let_def)
  have "baud_try UART_BAUD_RATE 4 = Some (86, False)" "baud_try UART_BAUD_RATE 5 = Some (72, True)"
    by (simp_all add: baud_try_def Let_def)
  then have search: "baud_search UART_BAUD_RATE 4 = Some (Some (72, 5))"
    by (simp add: baud_search.simps)
  then show ?thesis using init by (simp add: guest_uart_init_def Let_def)
qed

text \<open>A result of the search is a divisor pair in range whose rate is within 0.5 percent of the
  requested one, provided the difference fits the 16 bits of \<open>error_calc\<close>.\<close>

lemma baud_search_sound:
  assumes "baud_search baud bdiv0 = Some (Some (cd, bdiv))"
    and rate: "rate = UART_FREQ_CLK div (ucast cd * of_nat (bdiv + 1))"
    and fits: "\<bar>uint rate - uint baud\<bar> < 2 ^ 16"
  shows "bdiv0 \<le> bdiv \<and> bdiv < 255 \<and> \<bar>uint rate - uint baud\<bar> * 1000 < 5 * uint baud"
proof -
  note r = baud_search_result [OF assms(1)]
  let ?e = "if baud > rate then baud - rate else rate - baud"
  have t: "baud \<noteq> 0" "(ucast (ucast ?e :: u16) * 1000) div baud < UART_MAX_ERROR"
    using r by (auto simp: baud_try_def Let_def rate split: if_splits)
  have abs: "int (unat ?e) = \<bar>uint rate - uint baud\<bar>"
    by (auto simp: word_less_def word_le_def uint_sub_lem [THEN iffD1])
  then have "int (unat ?e) < int (2 ^ 16)" using fits by (simp only: of_nat_power of_nat_numeral)
  then have "unat ?e < 2 ^ 16" by (simp only: of_nat_less_iff)
  from small_error [OF this t] have "int (unat ?e) * 1000 < 5 * int (unat baud)" by linarith
  then show ?thesis using r unfolding abs by simp
qed

text \<open>Without that proviso the search accepts rates that are far off: for 8033920 baud the
  difference of almost two million is a multiple of 65536, and the divisors of 10 Mbaud are
  programmed as a success.\<close>

lemma baud_search_error_wraps:
  "\<exists>u'. guest_set_baud_rate 8033920 u = Some (1, u') \<and> br_gen u' = 1 \<and> br_div u' = 4 \<and>
    UART_FREQ_CLK div (br_gen u' * (br_div u' + 1)) = 10000000"
proof -
  have "baud_try 8033920 4 = Some (1, True)" by (simp add: baud_try_def Let_def)
  then have "baud_search 8033920 4 = Some (Some (1, 4))" by (simp add: baud_search.simps)
  then show ?thesis by (simp add: guest_set_baud_rate_def Let_def)
qed

end
