(* ===== verification/Printk.thy ===== *)
theory Printk
  imports Uart
begin

unbundle bit_operations_syntax

text \<open>
  Formatted output, \<^verbatim>\<open>src/src/lib/printk.c\<close>. The format is the list of its bytes before the
  terminator, the variable arguments are a list of words, strings lie in memory. Writing through
  \<open>str\<close> appends to the output; \<open>None\<close> is undefined behaviour (a missing argument, or a conversion cut
  off by the end of the format, after which the loop runs past the terminator).
\<close>

section \<open>Hexadecimal\<close>

definition hex_char :: "u32 \<Rightarrow> u8" where
  "hex_char byte =
     (if byte \<le> 9 then ucast (byte + 0x30)
      else if byte = 0xa then 0x61 else if byte = 0xb then 0x62 else if byte = 0xc then 0x63
      else if byte = 0xd then 0x64 else if byte = 0xe then 0x65 else if byte = 0xf then 0x66
      else ucast byte)"

text \<open>\<open>for (i = 0; i < 8; i++)\<close>; the bound of the padding is computed in unsigned arithmetic.\<close>

function hex_loop :: "nat \<Rightarrow> bool \<Rightarrow> u32 \<Rightarrow> u32 \<Rightarrow> u8 list" where
  "hex_loop i keep_zeros zero_padding number =
     (if i < 8
      then let byte = drop_bit (32 - (i + 1) * 4) number AND 0xF;
               keep_zeros = (keep_zeros \<or> byte \<noteq> 0)
           in (if keep_zeros \<or> of_nat i \<ge> 7 - (zero_padding - 1) then [hex_char byte] else []) @
              hex_loop (i + 1) keep_zeros zero_padding number
      else [])"
  by pat_completeness auto
termination by (relation "measure (\<lambda>(i, _). 8 - i)") auto

section \<open>Decimal\<close>

text \<open>\<open>while (number >= divisor)\<close>; the divisors of the code are powers of ten, with a divisor of zero the
  loop would not end.\<close>

function quot_loop :: "u32 \<Rightarrow> u32 \<Rightarrow> u32 \<Rightarrow> u32 \<times> u32" where
  "quot_loop number divisor q =
     (if number \<ge> divisor \<and> divisor \<noteq> 0 then quot_loop (number - divisor) divisor (q + 1) else (q, number))"
  by pat_completeness auto
termination
proof (relation "measure (\<lambda>(number, _). unat number)", goal_cases)
  case (2 number divisor q)
  then have "unat (number - divisor) = unat number - unat divisor" "unat divisor \<le> unat number" "0 < unat divisor"
    by (simp_all add: unat_sub word_le_nat_alt unat_gt_0)
  then show ?case by simp
qed simp

function div_loop :: "nat \<Rightarrow> u32 \<Rightarrow> u32" where
  "div_loop j new_div_val = (if j < 8 then div_loop (j + 1) (new_div_val * 10) else new_div_val)"
  by pat_completeness auto
termination by (relation "measure (\<lambda>(j, _). 8 - j)") auto

function dec_loop :: "nat \<Rightarrow> bool \<Rightarrow> u32 \<Rightarrow> u32 \<Rightarrow> u32 \<Rightarrow> u8 list" where
  "dec_loop i keep_zeros zero_padding divisor number =
     (if i < 9
      then let (q, number) = quot_loop number divisor 0;
               keep_zeros = (keep_zeros \<or> q \<noteq> 0)
           in (if keep_zeros \<or> of_nat i > (9 - 1) - (zero_padding - 1) then [ucast (q + 0x30)] else []) @
              dec_loop (i + 1) keep_zeros zero_padding (div_loop i 1) number
      else [ucast (number + 0x30)])"
  by pat_completeness auto
termination by (relation "measure (\<lambda>(i, _). 9 - i)") auto

declare hex_loop.simps [simp del] quot_loop.simps [simp del] div_loop.simps [simp del] dec_loop.simps [simp del]

definition fmt_unsigned :: "u32 \<Rightarrow> u32 \<Rightarrow> u8 list" where
  "fmt_unsigned zero_padding number = dec_loop 0 False zero_padding 1000000000 number"

text \<open>The digits of \<open>%d\<close>. The negation of the least int, which the code writes as \<open>-(signed_num_32)\<close>, is undefined in C; here it wraps
  around, as the negate instruction of the processor does.\<close>

definition fmt_signed :: "u32 \<Rightarrow> u32 \<Rightarrow> u8 list" where
  "fmt_signed zero_padding number =
     (if sint number < 0 then 0x2d # fmt_unsigned zero_padding (- number)
      else fmt_unsigned zero_padding number)"

section \<open>Octal\<close>

function oct_loop :: "nat \<Rightarrow> bool \<Rightarrow> u32 \<Rightarrow> u32 \<Rightarrow> u8 list" where
  "oct_loop i keep_zeros zero_padding number =
     (if i < 10
      then let byte = drop_bit (32 - (i + 1) * 3) number AND 0x7;
               keep_zeros = (keep_zeros \<or> byte \<noteq> 0)
           in (if keep_zeros \<or> of_nat i \<ge> 9 - (zero_padding - 1) then [ucast (byte + 0x30)] else []) @
              oct_loop (i + 1) keep_zeros zero_padding number
      else [])"
  by pat_completeness auto
termination by (relation "measure (\<lambda>(i, _). 10 - i)") auto

declare oct_loop.simps [simp del]

definition fmt_octal :: "u32 \<Rightarrow> u32 \<Rightarrow> u8 list" where
  "fmt_octal zero_padding number =
     (let byte = drop_bit 30 number AND 0x3;
          keep_zeros = (byte \<noteq> 0)
      in (if keep_zeros \<or> zero_padding > 10 then [ucast (byte + 0x30)] else []) @
         oct_loop 0 keep_zeros zero_padding (push_bit 2 number))"

section \<open>Format strings\<close>

text \<open>\<open>while ((*str = *arg_string++) && (len < PRINT_TEXT_LEN))\<close> with \<open>n\<close> bytes left of the limit.\<close>

fun copy_str :: "mem \<Rightarrow> u32 \<Rightarrow> nat \<Rightarrow> u8 list" where
  "copy_str m p 0 = []"
| "copy_str m p (Suc n) = (if m p \<noteq> 0 then m p # copy_str m (p + 1) n else [])"

abbreviation PRINT_TEXT_LEN :: nat where "PRINT_TEXT_LEN \<equiv> 256"

definition next_arg :: "u32 list \<Rightarrow> (u32 \<times> u32 list) option" where
  "next_arg args = (case args of [] \<Rightarrow> None | a # as \<Rightarrow> Some (a, as))"

text \<open>One conversion: the output, the remaining arguments and the new \<open>len\<close>.\<close>

definition convert :: "mem \<Rightarrow> u8 \<Rightarrow> u32 \<Rightarrow> u32 list \<Rightarrow> nat \<Rightarrow> (u8 list \<times> u32 list \<times> nat) option" where
  "convert m f zero_padding args len =
     (if f = 0x78 then do { (a, as) \<leftarrow> next_arg args; Some (hex_loop 0 False zero_padding a, as, len) }
      else if f = 0x75 then do { (a, as) \<leftarrow> next_arg args; Some (fmt_unsigned zero_padding a, as, len) }
      else if f = 0x69 \<or> f = 0x64 then do { (a, as) \<leftarrow> next_arg args; Some (fmt_signed zero_padding a, as, len) }
      else if f = 0x6f then do { (a, as) \<leftarrow> next_arg args; Some (fmt_octal zero_padding a, as, len) }
      else if f = 0x73 then do { (a, as) \<leftarrow> next_arg args;
                                 let s = copy_str m a (PRINT_TEXT_LEN - len);
                                 Some (s, as, len + length s) }
      else if f = 0x63 then do { (a, as) \<leftarrow> next_arg args; Some ([ucast a], as, len) }
      else if f = 0x25 then Some ([0x25], args, len)
      else if f = 0x09 then Some ([0x25, 0x09], args, len)
      else if f = 0x0a then Some ([0x25, 0x0d, 0x0a], args, len)
      else Some ([], args, len))"

text \<open>What follows the \<open>if\<close> on the percent sign: line ends and tabs.\<close>

definition layout_char :: "u8 \<Rightarrow> u8 list" where
  "layout_char c = (if c = 0x0a then [0x0d, 0x0a] else []) @ (if c = 0x09 then [0x09] else [])"

text \<open>Padding and length modifier after the percent sign.\<close>

definition padding :: "u8 list \<Rightarrow> (u32 \<times> u8 list) option" where
  "padding fs =
     (case fs of
        [] \<Rightarrow> Some (1, [])
      | f # fs' \<Rightarrow> if f = 0x30 then (case fs' of [] \<Rightarrow> None | d # fs'' \<Rightarrow> Some (ucast d - 0x30, fs''))
                  else Some (1, f # fs'))"

definition skip_l :: "u8 list \<Rightarrow> u8 list" where
  "skip_l fs = (case fs of [] \<Rightarrow> [] | f # fs' \<Rightarrow> if f = 0x6c then fs' else f # fs')"

lemma length_skip_l: "length (skip_l fs) \<le> length fs"
  by (simp add: skip_l_def split: list.split)

lemma length_padding: "padding fs = Some (z, fs') \<Longrightarrow> length fs' \<le> length fs"
  by (auto simp: padding_def split: list.splits if_splits)

function vsprintk_loop :: "mem \<Rightarrow> u8 list \<Rightarrow> u32 list \<Rightarrow> nat \<Rightarrow> u8 list option" where
  "vsprintk_loop m [] args len = Some []"
| "vsprintk_loop m (c # fs) args len =
     (if c \<noteq> 0x25 \<and> c \<noteq> 0x0a \<and> c \<noteq> 0x09
      then map_option ((#) c) (vsprintk_loop m fs args len)
      else if c = 0x25
      then (case padding fs of
              None \<Rightarrow> None
            | Some (zero_padding, fs1) \<Rightarrow>
                (case skip_l fs1 of
                   [] \<Rightarrow> None
                 | f # fs2 \<Rightarrow>
                     (case convert m f zero_padding args len of
                        None \<Rightarrow> None
                      | Some (out, args, len) \<Rightarrow>
                          map_option ((@) (out @ layout_char f)) (vsprintk_loop m fs2 args len))))
      else map_option ((@) (layout_char c)) (vsprintk_loop m fs args len))"
  by pat_completeness auto
termination
proof (relation "measure (\<lambda>(m, fs, args, len). length fs)", goal_cases)
  case (3 m c fs args len p zp fs1 f fs2 q out r args' len')
  have "length (f # fs2) \<le> length fs"
    using length_skip_l [of fs1] length_padding [of fs zp fs1] 3 by simp
  then show ?case by simp
qed simp_all

text \<open>The return value is the number of bytes before the first zero, at most 256.\<close>

definition vsprintk :: "mem \<Rightarrow> u8 list \<Rightarrow> u32 list \<Rightarrow> nat \<Rightarrow> (u32 \<times> u8 list) option" where
  "vsprintk m fmt args len0 =
     map_option (\<lambda>out. (of_nat (min PRINT_TEXT_LEN (length (takeWhile (\<lambda>c. c \<noteq> 0) out))), out @ [0]))
       (vsprintk_loop m fmt args len0)"

text \<open>\<open>printk\<close> formats into a buffer of 256 bytes of its own frame, which starts at \<open>buf\<close> with whatever
  bytes lie there, and sends the buffer to UART 1; writing past the buffer is undefined. A string
  argument does not lie in that frame.\<close>

fun put_bytes :: "mem \<Rightarrow> u32 \<Rightarrow> u8 list \<Rightarrow> mem" where
  "put_bytes m p [] = m"
| "put_bytes m p (x # xs) = put_bytes (m(p := x)) (p + 1) xs"

definition printk :: "mem \<Rightarrow> u32 \<Rightarrow> u8 list \<Rightarrow> u32 list \<Rightarrow> Uart_Zynq \<Rightarrow> (u32 \<times> Uart_Zynq) option" where
  "printk m buf fmt args u =
     do { (i, out) \<leftarrow> vsprintk m fmt args (unat (strnlen buf 256 m));
          if length out \<le> 256
          then do { u \<leftarrow> uart_puts (put_bytes m buf out) buf u; Some (i, u) }
          else None }"

section \<open>Digits\<close>

text \<open>The number a list of digits stands for.\<close>

definition digits_value :: "nat \<Rightarrow> nat list \<Rightarrow> nat" where
  "digits_value b ds = foldl (\<lambda>v d. b * v + d) 0 ds"

definition dec_value :: "u8 list \<Rightarrow> nat" where
  "dec_value cs = digits_value 10 (map (\<lambda>c. unat c - 48) cs)"

definition hex_digit :: "u8 \<Rightarrow> nat" where
  "hex_digit c = (if unat c < 58 then unat c - 48 else unat c - 87)"

definition hex_value :: "u8 list \<Rightarrow> nat" where
  "hex_value cs = digits_value 16 (map hex_digit cs)"

lemma digits_value_append: "digits_value b (xs @ ys) = digits_value b xs * b ^ length ys + digits_value b ys"
proof -
  have "foldl (\<lambda>v d. b * v + d) a ys = a * b ^ length ys + foldl (\<lambda>v d. b * v + d) 0 ys" for a
  proof (induction ys arbitrary: a)
    case Nil
    then show ?case by simp
  next
    case (Cons y ys)
    have "foldl (\<lambda>v d. b * v + d) (b * a + y) ys = (b * a + y) * b ^ length ys + foldl (\<lambda>v d. b * v + d) 0 ys"
      "foldl (\<lambda>v d. b * v + d) y ys = y * b ^ length ys + foldl (\<lambda>v d. b * v + d) 0 ys" by (rule Cons)+
    then show ?case by (simp add: distrib_right)
  qed
  then show ?thesis unfolding digits_value_def foldl_append .
qed

lemma digits_value_Cons: "digits_value b (x # xs) = x * b ^ length xs + digits_value b xs"
  using digits_value_append [of b "[x]" xs] by (simp add: digits_value_def)

lemma digits_value_Nil [simp]: "digits_value b [] = 0"
  by (simp add: digits_value_def)

lemma mod_Suc_digit: "n mod b ^ Suc k = (n div b ^ k mod b) * b ^ k + n mod b ^ k" for n b k :: nat
  using mod_mult2_eq [of n "b ^ k" b] by (simp add: mult.commute)

lemma unat_nibble:
  fixes n :: u32
  shows "unat (drop_bit s n AND 0xF) = unat n div 2 ^ s mod 16" "unat (drop_bit s n AND 0x7) = unat n div 2 ^ s mod 8"
proof -
  have "(0xF :: u32) = mask 4" "(0x7 :: u32) = mask 3" by (simp_all add: mask_eq_exp_minus_1)
  moreover have "unat n mod 4294967296 = unat n" using unat_bound [of n] by simp
  ultimately show "unat (drop_bit s n AND 0xF) = unat n div 2 ^ s mod 16" "unat (drop_bit s n AND 0x7) = unat n div 2 ^ s mod 8"
    by (simp_all only: take_bit_eq_mask [symmetric] unsigned_take_bit_eq unsigned_drop_bit_eq)
      (simp_all add: take_bit_eq_mod drop_bit_eq_div)
qed

lemma hex_digit_char:
  assumes "unat w < 16"
  shows "hex_digit (hex_char w) = unat w"
proof -
  have "unat w \<in> {0, 1, 2, 3, 4, 5, 6, 7, 8, 9, 10, 11, 12, 13, 14, 15}"
    using assms by (simp add: eval_nat_numeral less_Suc_eq)
  then have "w \<in> {0, 1, 2, 3, 4, 5, 6, 7, 8, 9, 10, 11, 12, 13, 14, 15}"
    by (simp add: word_unat_eq_iff)
  then show ?thesis by (auto simp: hex_char_def hex_digit_def)
qed

text \<open>The digits still to come stand for the rest of the number; those left out are zeros.\<close>

lemma hex_loop_value:
  "i + k = 8 \<Longrightarrow> hex_value (hex_loop i keep zp n) = unat n mod 16 ^ k \<and>
    length (hex_loop i keep zp n) \<le> k \<and> (keep \<longrightarrow> length (hex_loop i keep zp n) = k)"
proof (induction k arbitrary: i keep)
  case 0
  then show ?case by (simp add: hex_loop.simps [of 8] hex_value_def)
next
  case (Suc k)
  let ?b = "drop_bit (32 - (i + 1) * 4) n AND 0xF"
  let ?keep = "keep \<or> ?b \<noteq> 0"
  have IH: "hex_value (hex_loop (i + 1) ?keep zp n) = unat n mod 16 ^ k"
    "length (hex_loop (i + 1) ?keep zp n) \<le> k" "?keep \<Longrightarrow> length (hex_loop (i + 1) ?keep zp n) = k"
    using Suc.IH [of "i + 1" ?keep] Suc.prems by simp_all
  have i: "i = 7 - k" "k \<le> 7" using Suc.prems by simp_all
  have "32 - (i + 1) * 4 = 4 * k" using i by simp
  then have b: "unat ?b = unat n div 16 ^ k mod 16" by (simp add: unat_nibble power_mult)
  have step: "hex_loop i keep zp n =
      (if ?keep \<or> of_nat i \<ge> 7 - (zp - 1) then [hex_char ?b] else []) @ hex_loop (i + 1) ?keep zp n"
    using Suc.prems by (subst hex_loop.simps) (simp add: Let_def)
  show ?case
  proof (cases "?keep")
    case True
    have "unat ?b < 16" unfolding b by simp
    then have "hex_digit (hex_char ?b) = unat ?b" by (rule hex_digit_char)
    with True IH(1,3) b show ?thesis
      unfolding step mod_Suc_digit by (simp add: hex_value_def digits_value_Cons)
  next
    case False
    then have z: "?b = 0" "\<not> keep" by simp_all
    then have "unat n div 16 ^ k mod 16 = 0" using b by simp
    moreover have "hex_digit (hex_char 0) = 0" by (simp add: hex_digit_char)
    ultimately show ?thesis using False z IH(1,2)
      unfolding step mod_Suc_digit by (simp add: hex_value_def digits_value_Cons)
  qed
qed

lemma quot_loop_div:
  "divisor \<noteq> 0 \<Longrightarrow> unat q + unat number div unat divisor < 2 ^ 32 \<Longrightarrow>
    unat (fst (quot_loop number divisor q)) = unat q + unat number div unat divisor \<and>
    snd (quot_loop number divisor q) = number mod divisor"
proof (induction number divisor q rule: quot_loop.induct)
  case (1 number divisor q)
  have pos: "0 < unat divisor" using "1.prems"(1) by (simp add: unat_gt_0)
  show ?case
  proof (cases "number \<ge> divisor")
    case True
    then have le: "unat divisor \<le> unat number" by (simp add: word_le_nat_alt)
    have sub: "unat (number - divisor) = unat number - unat divisor" using True by (simp add: unat_sub)
    have d: "unat number div unat divisor = Suc ((unat number - unat divisor) div unat divisor)"
      using le pos by (simp add: le_div_geq)
    then have "unat q + 1 < 2 ^ 32" using "1.prems"(2) by linarith
    then have q: "unat (q + 1) = unat q + 1" by (simp add: unat_add_lem [THEN iffD1])
    have m: "(number - divisor) mod divisor = number mod divisor"
      using le by (simp add: word_unat_eq_iff unat_mod sub le_mod_geq)
    show ?thesis
      using "1.IH" True "1.prems" d q sub m by (simp add: quot_loop.simps [of number divisor q])
  next
    case False
    then have "unat number < unat divisor" by (simp add: word_le_nat_alt)
    then have "number mod divisor = number" by (simp add: word_unat_eq_iff unat_mod)
    with False \<open>unat number < unat divisor\<close> show ?thesis by (simp add: quot_loop.simps [of number divisor q])
  qed
qed

lemma div_loop_power: "j + k = 8 \<Longrightarrow> div_loop j v = v * 10 ^ k"
proof (induction k arbitrary: j v)
  case 0
  then show ?case by (simp add: div_loop.simps [of 8])
next
  case (Suc k)
  then show ?case by (subst div_loop.simps) simp
qed

text \<open>With \<open>k\<close> digits to come before the last one, the divisor is \<open>10 ^ k\<close>.\<close>

lemma digit_char:
  assumes "unat q \<le> 9"
  shows "unat (ucast (q + 0x30 :: u32) :: u8) - 48 = unat q"
proof -
  have "unat (q + 0x30) = unat q + 48" using assms by (simp add: unat_add_lem [THEN iffD1])
  then show ?thesis using assms by (simp add: unsigned_ucast_eq take_bit_eq_mod)
qed

lemma unat_power10: "k \<le> 9 \<Longrightarrow> unat (10 ^ k :: u32) = 10 ^ k"
proof -
  assume "k \<le> 9"
  then have "(10::nat) ^ k \<le> 10 ^ 9" by (rule power_increasing) simp
  then have "of_nat (10 ^ k) = (10 ^ k :: u32)" "(10::nat) ^ k < 2 ^ 32" by simp_all
  then show ?thesis
    using unat_of_nat [where 'a = 32, of "10 ^ k"] by simp
qed

lemma power10_9: "0 < (9::nat) \<longrightarrow> 1000000000 = (10 ^ 9 :: u32)"
  by simp

lemma dec_loop_value:
  "i + k = 9 \<Longrightarrow> unat n < 10 ^ Suc k \<Longrightarrow> (k = 0 \<longrightarrow> d = 1) \<Longrightarrow> (0 < k \<longrightarrow> d = 10 ^ k) \<Longrightarrow>
    dec_value (dec_loop i keep zp d n) = unat n \<and>
    length (dec_loop i keep zp d n) \<le> Suc k \<and> dec_loop i keep zp d n \<noteq> [] \<and>
    (keep \<longrightarrow> length (dec_loop i keep zp d n) = Suc k)"
proof (induction k arbitrary: i keep d n)
  case 0
  then have "unat n \<le> 9" by simp
  with 0 show ?case
    by (simp add: dec_loop.simps [of 9] dec_value_def digits_value_Cons digit_char del: power_Suc)
next
  case (Suc k)
  define q where "q = fst (quot_loop n d 0)"
  define r where "r = snd (quot_loop n d 0)"
  have k: "k \<le> 8" using Suc.prems(1) by simp
  have d: "unat d = 10 ^ Suc k" "d \<noteq> 0"
    using Suc.prems(4) unat_power10 [of "Suc k"] k by (auto simp: word_unat_eq_iff simp del: power_Suc)
  have "unat (0::u32) + unat n div unat d < 2 ^ 32"
    using unat_bound [of n] le_less_trans [OF div_le_dividend [of "unat n" "unat d"], of "2 ^ 32"] by simp
  from quot_loop_div [OF d(2) this]
  have q: "unat q = unat n div 10 ^ Suc k" and r: "unat r = unat n mod 10 ^ Suc k"
    by (simp_all add: q_def r_def d unat_mod del: power_Suc)
  have q9: "unat q \<le> 9" unfolding q using Suc.prems(2) by (simp add: less_mult_imp_div_less less_Suc_eq_le [symmetric])
  let ?keep = "keep \<or> q \<noteq> 0"
  let ?rest = "dec_loop (i + 1) ?keep zp (div_loop i 1) r"
  have i: "i = 8 - k" "i < 9" using Suc.prems(1) by simp_all
  have step: "dec_loop i keep zp d n =
      (if ?keep \<or> of_nat i > (9 - 1) - (zp - 1) then [ucast (q + 0x30)] else []) @ ?rest"
    using i(2) by (subst dec_loop.simps) (simp add: Let_def case_prod_beta q_def r_def)
  have "div_loop i 1 = 10 ^ k" using div_loop_power [of i k 1] i k by simp
  then have IH: "dec_value ?rest = unat r" "length ?rest \<le> Suc k" "?rest \<noteq> []" "?keep \<Longrightarrow> length ?rest = Suc k"
    using Suc.IH [of "i + 1" r "div_loop i 1" ?keep] Suc.prems(1) r by (simp_all del: power_Suc)
  have n: "unat n = unat q * 10 ^ Suc k + unat r" unfolding q r by (rule div_mult_mod_eq [symmetric])
  show ?case
  proof (cases ?keep)
    case True
    then show ?thesis using IH n digit_char [OF q9] unfolding step
      by (simp add: dec_value_def digits_value_Cons del: power_Suc)
  next
    case False
    then show ?thesis using IH n unfolding step
      by (simp add: dec_value_def digits_value_Cons del: power_Suc)
  qed
qed

text \<open>The hexadecimal digits that \<open>%x\<close> prints denote the argument, whatever the padding, and there
  are at most eight of them.\<close>

lemma hex_roundtrip:
  "hex_value (hex_loop 0 False zero_padding n) = unat n \<and> length (hex_loop 0 False zero_padding n) \<le> 8"
proof -
  have "unat n mod 16 ^ 8 = unat n" using unat_bound [of n] by simp
  then show ?thesis using hex_loop_value [of 0 8 False zero_padding n] by simp
qed

text \<open>The decimal digits that \<open>%u\<close> prints by repeated subtraction denote the argument for every
  32-bit number and every padding; between one and ten digits are printed.\<close>

lemma unsigned_roundtrip:
  "dec_value (fmt_unsigned zero_padding n) = unat n \<and>
   1 \<le> length (fmt_unsigned zero_padding n) \<and> length (fmt_unsigned zero_padding n) \<le> 10"
proof -
  have "unat n < 10 ^ Suc 9" using unat_bound [of n] by simp
  then have "dec_value (fmt_unsigned zero_padding n) = unat n \<and> length (fmt_unsigned zero_padding n) \<le> Suc 9 \<and>
      fmt_unsigned zero_padding n \<noteq> []"
    unfolding fmt_unsigned_def
    using dec_loop_value [of 0 9 n 1000000000 False zero_padding, OF _ _ _ power10_9] by fastforce
  then show ?thesis by (simp add: Suc_le_eq)
qed

text \<open>The magnitude of a negative number is its two's complement; that of the least one included.\<close>

lemma unat_of_sint:
  fixes n :: u32
  shows "sint n < 0 \<Longrightarrow> int (unat (- n)) = - sint n" "0 \<le> sint n \<Longrightarrow> int (unat n) = sint n"
proof -
  have r: "- (2 ^ 31) \<le> sint n" "sint n < 2 ^ 31" using sint_ge [of n] sint_lt [of n] by simp_all
  have n: "n = word_of_int (sint n)" by simp
  then have "- n = word_of_int (- sint n)" by (metis wi_hom_neg)
  then have "uint (- n) = - sint n mod 2 ^ 32" by (simp only: uint_word_of_int) simp
  with r show "sint n < 0 \<Longrightarrow> int (unat (- n)) = - sint n" by simp
  have "uint n = sint n mod 2 ^ 32" by (subst n) (simp only: uint_word_of_int len_of_numeral_defs, simp)
  with r show "0 \<le> sint n \<Longrightarrow> int (unat n) = sint n" by simp
qed

text \<open>C13: What the numeric conversions print denotes the argument, for every 32-bit value and every padding:
  the digits of \<open>%x\<close>, at most eight, and of \<open>%u\<close>, between one and ten, computed by repeated subtraction of
  powers of ten, have the argument as their value; \<open>%d\<close> prints the magnitude, after a minus sign for a
  negative number.\<close>

theorem numbers_roundtrip:
  "hex_value (hex_loop 0 False zp n) = unat n \<and> length (hex_loop 0 False zp n) \<le> 8 \<and>
   dec_value (fmt_unsigned zp n) = unat n \<and>
   1 \<le> length (fmt_unsigned zp n) \<and> length (fmt_unsigned zp n) \<le> 10 \<and>
   (if sint n < 0
    then \<exists>ds. fmt_signed zp n = 0x2d # ds \<and> int (dec_value ds) = - sint n
    else int (dec_value (fmt_signed zp n)) = sint n)"
proof (intro conjI)
  show "if sint n < 0
    then \<exists>ds. fmt_signed zp n = 0x2d # ds \<and> int (dec_value ds) = - sint n
    else int (dec_value (fmt_signed zp n)) = sint n"
  proof (cases "sint n < 0")
    case True
    then show ?thesis using unsigned_roundtrip [of zp "- n"] unat_of_sint(1) [of n] by (simp add: fmt_signed_def)
  next
    case False
    then have "int (unat n) = sint n" by (intro unat_of_sint(2)) simp
    then show ?thesis using False unsigned_roundtrip [of zp n] by (simp add: fmt_signed_def)
  qed
qed (use hex_roundtrip [of zp n] unsigned_roundtrip [of zp n] in simp_all)

section \<open>Rendering a format\<close>

text \<open>What a format means: a sequence of pieces, each with its bytes in the format, its arguments and its
  rendering. A string piece carries the bytes that lie in memory at its argument.\<close>

datatype piece = Text "u8 list" | Newline | Percent | Hex u32 | PaddedHex u8 u32 | Unsigned u32 | Signed u32 | Octal u32
  | Str u32 "u8 list" | Chr u32

definition plain :: "u8 \<Rightarrow> bool" where
  "plain c \<longleftrightarrow> c \<noteq> 0 \<and> c \<noteq> 0x25 \<and> c \<noteq> 0x0a \<and> c \<noteq> 0x09"

fun piece_fmt :: "piece \<Rightarrow> u8 list" where
  "piece_fmt (Text t) = t"
| "piece_fmt Newline = [0x0a]"
| "piece_fmt Percent = [0x25, 0x25]"
| "piece_fmt (Hex a) = [0x25, 0x78]"
| "piece_fmt (PaddedHex d a) = [0x25, 0x30, d, 0x78]"
| "piece_fmt (Unsigned a) = [0x25, 0x75]"
| "piece_fmt (Signed a) = [0x25, 0x64]"
| "piece_fmt (Octal a) = [0x25, 0x6f]"
| "piece_fmt (Str p s) = [0x25, 0x73]"
| "piece_fmt (Chr a) = [0x25, 0x63]"

fun piece_args :: "piece \<Rightarrow> u32 list" where
  "piece_args (Hex a) = [a]"
| "piece_args (PaddedHex d a) = [a]"
| "piece_args (Unsigned a) = [a]"
| "piece_args (Signed a) = [a]"
| "piece_args (Octal a) = [a]"
| "piece_args (Str p s) = [p]"
| "piece_args (Chr a) = [a]"
| "piece_args _ = []"

fun render :: "piece \<Rightarrow> u8 list" where
  "render (Text t) = t"
| "render Newline = [0x0d, 0x0a]"
| "render Percent = [0x25]"
| "render (Hex a) = hex_loop 0 False 1 a"
| "render (PaddedHex d a) = hex_loop 0 False (ucast d - 0x30) a"
| "render (Unsigned a) = fmt_unsigned 1 a"
| "render (Signed a) = fmt_signed 1 a"
| "render (Octal a) = fmt_octal 1 a"
| "render (Str p s) = s"
| "render (Chr a) = [ucast a]"

fun piece_ok :: "mem \<Rightarrow> piece \<Rightarrow> bool" where
  "piece_ok m (Text t) = list_all plain t"
| "piece_ok m (Str p s) = cstr m p s"
| "piece_ok m _ = True"

fun str_len :: "piece \<Rightarrow> nat" where
  "str_len (Str p s) = length s"
| "str_len _ = 0"

lemma vsprintk_loop_plain:
  "list_all plain t \<Longrightarrow> vsprintk_loop m (t @ fs) args len = map_option ((@) t) (vsprintk_loop m fs args len)"
proof (induction t)
  case Nil
  show ?case by (simp add: option.map_ident del: vsprintk_loop.simps)
next
  case (Cons c t)
  then have "c \<noteq> 0x25 \<and> c \<noteq> 0x0a \<and> c \<noteq> 0x09" by (simp add: plain_def)
  then have "vsprintk_loop m (c # t @ fs) args len = map_option ((#) c) (vsprintk_loop m (t @ fs) args len)"
    by (subst vsprintk_loop.simps(2)) simp
  with Cons show ?case by (simp add: option.map_comp comp_def del: vsprintk_loop.simps)
qed

lemma vsprintk_loop_newline:
  "vsprintk_loop m (0x0a # fs) args len = map_option ((@) [0x0d, 0x0a]) (vsprintk_loop m fs args len)"
  by (subst vsprintk_loop.simps(2)) (simp add: layout_char_def)

lemma vsprintk_loop_conv:
  assumes "f \<noteq> 0x30" "f \<noteq> 0x6c" "f \<noteq> 0x0a" "f \<noteq> 0x09" "convert m f 1 args len = Some (out, args', len')"
  shows "vsprintk_loop m (0x25 # f # fs) args len = map_option ((@) out) (vsprintk_loop m fs args' len')"
  using assms by (subst vsprintk_loop.simps(2)) (simp add: padding_def skip_l_def layout_char_def)

lemma vsprintk_loop_padded:
  assumes "f \<noteq> 0x6c" "f \<noteq> 0x0a" "f \<noteq> 0x09" "convert m f (ucast d - 0x30) args len = Some (out, args', len')"
  shows "vsprintk_loop m (0x25 # 0x30 # d # f # fs) args len = map_option ((@) out) (vsprintk_loop m fs args' len')"
  using assms by (subst vsprintk_loop.simps(2)) (simp add: padding_def skip_l_def layout_char_def)

lemma copy_str_cstr: "cstr m p s \<Longrightarrow> length s \<le> n \<Longrightarrow> copy_str m p n = s"
proof (induction n arbitrary: p s)
  case (Suc n)
  then show ?case by (cases s) simp_all
qed simp

lemma vsprintk_loop_piece:
  assumes "piece_ok m p" "len + str_len p \<le> PRINT_TEXT_LEN"
  shows "vsprintk_loop m (piece_fmt p @ fs) (piece_args p @ args) len =
    map_option ((@) (render p)) (vsprintk_loop m fs args (len + str_len p))"
  using assms
  by (cases p)
    (simp_all add: vsprintk_loop_plain vsprintk_loop_newline vsprintk_loop_conv vsprintk_loop_padded convert_def next_arg_def
      copy_str_cstr del: vsprintk_loop.simps)

lemma vsprintk_loop_pieces:
  "list_all (piece_ok m) ps \<Longrightarrow> len + sum_list (map str_len ps) \<le> PRINT_TEXT_LEN \<Longrightarrow>
    vsprintk_loop m (concat (map piece_fmt ps)) (concat (map piece_args ps)) len = Some (concat (map render ps))"
proof (induction ps arbitrary: len)
  case (Cons p ps)
  then show ?case by (simp add: vsprintk_loop_piece del: vsprintk_loop.simps)
qed simp

lemma put_bytes_outside: "a \<notin> region p (length xs) \<Longrightarrow> length xs \<le> 2 ^ 32 \<Longrightarrow> put_bytes m p xs a = m a"
  by (induction xs arbitrary: m p) (simp_all add: region_Suc)

lemma cstr_put_bytes: "0 \<notin> set xs \<Longrightarrow> length xs < 2 ^ 32 \<Longrightarrow> cstr (put_bytes m p (xs @ [0])) p xs"
proof (induction xs arbitrary: m p)
  case (Cons x xs)
  then have "p \<notin> region (p + 1) (length (xs @ [0]))" by (intro start_notin_region) simp
  with Cons show ?case by (simp add: put_bytes_outside)
qed simp

text \<open>C14: A format made of plain text, line ends, \<open>%%\<close>, numeric conversions, characters and strings is
  sent to the UART as the concatenation of the renderings of its pieces, each conversion consuming its
  own argument, and the number of bytes sent is returned, provided the rendered text contains no zero
  byte and leaves room for the terminator in the 256-byte buffer, the strings fit in what the bytes found
  in the buffer leave of it, and the transmit FIFO always gets room again; then the UART changes only by
  what was sent.\<close>

theorem printk_sends:
  assumes "list_all (piece_ok m) ps" "unat (strnlen buf 256 m) + sum_list (map str_len ps) \<le> 256"
    and "0 \<notin> set (concat (map render ps))" "length (concat (map render ps)) < 256"
    and "\<forall>n. \<exists>k \<ge> n. ch_status u k AND UART_CH_STATUS_TFUL = 0"
  shows "\<exists>n ws. printk m buf (concat (map piece_fmt ps)) (concat (map piece_args ps)) u =
      Some (of_nat (length ws), u\<lparr>status_reads := n, tx_log := rev ws @ tx_log u\<rparr>) \<and>
    map snd ws = map scast (concat (map render ps))"
proof -
  let ?out = "concat (map render ps)"
  have v: "vsprintk m (concat (map piece_fmt ps)) (concat (map piece_args ps)) (unat (strnlen buf 256 m)) =
      Some (of_nat (length ?out), ?out @ [0])"
  proof -
    have "takeWhile (\<lambda>c. c \<noteq> 0) ?out = ?out" using assms(3) by (auto simp: takeWhile_eq_all_conv)
    moreover have "min 256 (length ?out) = length ?out" using assms(4) by simp
    ultimately show ?thesis
      by (simp only: vsprintk_def vsprintk_loop_pieces [OF assms(1,2)] option.map)
  qed
  have "length ?out < 2 ^ 32" using assms(4) by simp
  from uart_puts_transmits [OF cstr_put_bytes [OF assms(3) this] assms(5)] obtain n ws where
    ws: "uart_puts (put_bytes m buf (?out @ [0])) buf u = Some (u\<lparr>status_reads := n, tx_log := rev ws @ tx_log u\<rparr>)"
      "map snd ws = map scast ?out" by blast
  from ws(2) have "length ws = length ?out" by (metis length_map)
  moreover have "length (?out @ [0]) \<le> 256" using assms(4) by simp
  ultimately have "printk m buf (concat (map piece_fmt ps)) (concat (map piece_args ps)) u =
      Some (of_nat (length ws), u\<lparr>status_reads := n, tx_log := rev ws @ tx_log u\<rparr>)"
    unfolding printk_def v by (simp only: Option.bind.simps prod.case ws(1) if_True)
  with ws(2) show ?thesis by blast
qed

text \<open>\<open>"n=%u\n"\<close> with the argument 7.\<close>

theorem printk_sends_witness:
  "\<exists>u'. printk (\<lambda>_. 0) 0x1000 [0x6e, 0x3d, 0x25, 0x75, 0x0a] [7] (idle_uart (\<lambda>_. 0)) = Some (5, u') \<and>
    rev (map snd (tx_log u')) = [0x6e, 0x3d, 0x37, 0x0d, 0x0a]"
proof -
  have d: "fmt_unsigned 1 7 = [0x37]"
    by (simp add: fmt_unsigned_def dec_loop.simps quot_loop.simps div_loop.simps Let_def)
  let ?ps = "[Text [0x6e, 0x3d], Unsigned 7, Newline]"
  let ?u = "idle_uart (\<lambda>_. 0)"
  have h: "strnlen 0x1000 256 (\<lambda>_. 0) = 0" using strnlen_loop_cstr [of "\<lambda>_. 0" "0x1000" "[]" 256] by (simp add: strnlen_def)
  have r: "concat (map render ?ps) = [0x6e, 0x3d, 0x37, 0x0d, 0x0a]" by (simp add: d)
  have "\<forall>n. \<exists>k \<ge> n. ch_status ?u k AND UART_CH_STATUS_TFUL = 0" by (auto simp: idle_uart_def)
  moreover have "list_all (piece_ok (\<lambda>_. 0)) ?ps" "unat (strnlen 0x1000 256 (\<lambda>_. 0)) + sum_list (map str_len ?ps) \<le> 256"
    by (simp_all add: plain_def h)
  moreover have "0 \<notin> set (concat (map render ?ps))" "length (concat (map render ?ps)) < 256" unfolding r by simp_all
  ultimately obtain n ws where
    ws: "printk (\<lambda>_. 0) 0x1000 (concat (map piece_fmt ?ps)) (concat (map piece_args ?ps)) ?u =
        Some (of_nat (length ws), ?u\<lparr>status_reads := n, tx_log := rev ws @ tx_log ?u\<rparr>)"
      "map snd ws = map scast (concat (map render ?ps))"
    using printk_sends [of "\<lambda>_. 0" ?ps "0x1000" ?u] by blast
  have "length (map snd ws) = 5" unfolding ws(2) r by simp
  then have "length ws = 5" by simp
  with ws show ?thesis unfolding r by (simp add: rev_map idle_uart_def)
qed

end
