(* ===== verification/Spi.thy ===== *)
theory Spi
  imports Board
begin

unbundle bit_operations_syntax

text \<open>
  The SPI driver of the zedboard, \<^verbatim>\<open>src/src/boards/zedboard/zynq_spi.c\<close> and \<^verbatim>\<open>inc/zynq_spi.h\<close>. Clock,
  reset and pin registers are words of the memory map of theory \<open>Board\<close>; the controller is a
  record. \<open>sr_register p n\<close> and \<open>rxd_register p n\<close> are the values of the \<open>n\<close>-th read of the status and of the
  receive FIFO. The C macros written with decimal or octal digits have the value C gives them.
\<close>

section \<open>Constants\<close>

abbreviation RX_BUFF_SIZE :: nat where "RX_BUFF_SIZE \<equiv> 128"
abbreviation APER_CLK_CTRL :: u32 where "APER_CLK_CTRL \<equiv> 0xF800012C"
abbreviation SPI_RST_CTRL :: u32 where "SPI_RST_CTRL \<equiv> 0xF800021C"
abbreviation SPI_CLK_CTRL :: u32 where "SPI_CLK_CTRL \<equiv> 0xF8000158"
abbreviation MIO_10 :: u32 where "MIO_10 \<equiv> 0xF8000728"
abbreviation MIO_11 :: u32 where "MIO_11 \<equiv> 0xF800072C"
abbreviation MIO_12 :: u32 where "MIO_12 \<equiv> 0xF8000730"
abbreviation MIO_13 :: u32 where "MIO_13 \<equiv> 0xF8000734"
abbreviation MIO_RESET_VAL :: u32 where "MIO_RESET_VAL \<equiv> 0x00001601"
abbreviation MIO_TRI_DIS :: u32 where "MIO_TRI_DIS \<equiv> 0"
abbreviation MIO_TRI_EN :: u32 where "MIO_TRI_EN \<equiv> 1"
abbreviation MIO_L3_SEL_SPI1 :: u32 where "MIO_L3_SEL_SPI1 \<equiv> push_bit 5 101"
abbreviation MIO_IO_TYPE_CMOS33 :: u32 where "MIO_IO_TYPE_CMOS33 \<equiv> push_bit 9 9"
abbreviation MIO_SPEED_SLOW :: u32 where "MIO_SPEED_SLOW \<equiv> 0"
abbreviation MIO_PULLUP_EN :: u32 where "MIO_PULLUP_EN \<equiv> push_bit 12 1"
abbreviation MIO_PULLUP_DIS :: u32 where "MIO_PULLUP_DIS \<equiv> 0"
abbreviation MIO_HSTL_REC_DIS :: u32 where "MIO_HSTL_REC_DIS \<equiv> push_bit 13 1"
abbreviation CR_RESET :: u32 where "CR_RESET \<equiv> 0x00020000"
abbreviation CR_MASTER_MODE :: u32 where "CR_MASTER_MODE \<equiv> 1"
abbreviation CR_CLK_POL_HIGH :: u32 where "CR_CLK_POL_HIGH \<equiv> push_bit 1 1"
abbreviation CR_CLK_PHASE_INACTIVE :: u32 where "CR_CLK_PHASE_INACTIVE \<equiv> push_bit 2 1"
abbreviation CR_BAUD_RATE_DIV_4 :: u32 where "CR_BAUD_RATE_DIV_4 \<equiv> push_bit 3 1"
abbreviation CR_PERI_SEL_1TO3 :: u32 where "CR_PERI_SEL_1TO3 \<equiv> 0"
abbreviation CR_CS_0 :: u32 where "CR_CS_0 \<equiv> 0"
abbreviation CR_CS_NS :: u32 where "CR_CS_NS \<equiv> push_bit 10 1111"
abbreviation CR_MAN_CS :: u32 where "CR_MAN_CS \<equiv> push_bit 14 1"
abbreviation CR_MAN_START_AUTO :: u32 where "CR_MAN_START_AUTO \<equiv> 0"
abbreviation CR_MODE_FAIL_EN :: u32 where "CR_MODE_FAIL_EN \<equiv> push_bit 17 1"
abbreviation RX_THRES_VAL :: nat where "RX_THRES_VAL \<equiv> 6"
abbreviation TX_THRES_VAL :: u32 where "TX_THRES_VAL \<equiv> 1"

section \<open>Clock, reset and pins\<close>

text \<open>\<open>*r |= v\<close> and the delay loop, which changes nothing.\<close>

definition or32 :: "u32 \<Rightarrow> u32 \<Rightarrow> io \<Rightarrow> io" where
  "or32 addr v s = write32 addr (read32 addr s OR v) s"

definition SPI_1_Reset :: "io \<Rightarrow> io" where
  "SPI_1_Reset s =
     (let s = write32 SLCR_UNLOCK SLCR_UNLOCK_KEY s;
          s = or32 SPI_RST_CTRL (push_bit 3 1 OR push_bit 1 1) s;
          s = write32 SPI_RST_CTRL (0 OR 0) s
      in write32 SLCR_LOCK SLCR_LOCK_KEY s)"

definition SPI_1_ClockEnable :: "io \<Rightarrow> io" where
  "SPI_1_ClockEnable s =
     (let s = write32 SLCR_UNLOCK SLCR_UNLOCK_KEY s;
          s = or32 APER_CLK_CTRL (push_bit 15 1) s;
          s = write32 SPI_CLK_CTRL 0x00003F03 s;
          s = write32 SPI_CLK_CTRL 0 s;
          s = or32 SPI_CLK_CTRL (push_bit 8 0x28) s;
          s = or32 SPI_CLK_CTRL (push_bit 1 1) s
      in write32 SLCR_LOCK SLCR_LOCK_KEY s)"

definition route_pin :: "u32 \<Rightarrow> u32 \<Rightarrow> u32 \<Rightarrow> io \<Rightarrow> io" where
  "route_pin pin tri pullup s =
     (let s = write32 pin MIO_RESET_VAL s;
          s = write32 pin (MIO_L3_SEL_SPI1 OR tri OR MIO_IO_TYPE_CMOS33) s
      in or32 pin (MIO_SPEED_SLOW OR pullup OR MIO_HSTL_REC_DIS) s)"

definition SPI_1_SignalRoute :: "io \<Rightarrow> io" where
  "SPI_1_SignalRoute s =
     (let s = write32 SLCR_UNLOCK SLCR_UNLOCK_KEY s;
          s = route_pin MIO_10 MIO_TRI_DIS MIO_PULLUP_DIS s;
          s = route_pin MIO_11 MIO_TRI_EN MIO_PULLUP_DIS s;
          s = route_pin MIO_12 MIO_TRI_DIS MIO_PULLUP_DIS s;
          s = route_pin MIO_13 MIO_TRI_DIS MIO_PULLUP_EN s
      in write32 SLCR_LOCK SLCR_LOCK_KEY s)"

section \<open>Controller\<close>

record SPI_Zynq =
  cr_register :: u32
  sr_register :: "nat \<Rightarrow> u32"
  sr_reads :: nat
  sr_writes :: "u32 list"
  ien_register :: u32
  idis_register :: u32
  er_register :: u32
  txd_log :: "u32 list"
  rxd_register :: "nat \<Rightarrow> u32"
  rxd_reads :: nat
  txwr_register :: u32
  rx_thres_reg :: u32
  RX_BUFFER :: "u8 list"
  RX_BUFFER_HEAD :: u8
  RX_BUFFER_TAIL :: u8

definition read_sr :: "SPI_Zynq \<Rightarrow> u32 \<times> SPI_Zynq" where
  "read_sr p = (sr_register p (sr_reads p), p\<lparr>sr_reads := Suc (sr_reads p)\<rparr>)"

definition or_sr :: "u32 \<Rightarrow> SPI_Zynq \<Rightarrow> SPI_Zynq" where
  "or_sr v p = (let (st, p) = read_sr p in p\<lparr>sr_writes := (st OR v) # sr_writes p\<rparr>)"

definition SPI_1_Config :: "SPI_Zynq \<Rightarrow> SPI_Zynq" where
  "SPI_1_Config p =
     (let p = p\<lparr>cr_register := CR_RESET\<rparr>;
          p = p\<lparr>cr_register := CR_CS_NS\<rparr>;
          p = p\<lparr>cr_register := cr_register p OR CR_PERI_SEL_1TO3\<rparr>;
          p = p\<lparr>cr_register := cr_register p OR CR_BAUD_RATE_DIV_4\<rparr>;
          p = p\<lparr>cr_register := cr_register p OR (CR_CLK_POL_HIGH OR CR_CLK_PHASE_INACTIVE)\<rparr>;
          p = p\<lparr>cr_register := cr_register p OR CR_MASTER_MODE\<rparr>;
          p = p\<lparr>cr_register := cr_register p OR CR_MODE_FAIL_EN\<rparr>;
          p = p\<lparr>cr_register := cr_register p OR CR_MAN_START_AUTO\<rparr>;
          p = p\<lparr>RX_BUFFER_HEAD := 0\<rparr>;
          p = p\<lparr>RX_BUFFER_TAIL := 0\<rparr>;
          p = p\<lparr>rx_thres_reg := of_nat RX_THRES_VAL\<rparr>
      in p\<lparr>txwr_register := TX_THRES_VAL\<rparr>)"

definition SPI_1_Enable :: "SPI_Zynq \<Rightarrow> SPI_Zynq" where
  "SPI_1_Enable p =
     (let p = p\<lparr>cr_register := cr_register p OR CR_MAN_CS\<rparr>;
          p = p\<lparr>ien_register := push_bit 5 1\<rparr>
      in p\<lparr>er_register := 1\<rparr>)"

definition SPI_1_Disable :: "SPI_Zynq \<Rightarrow> SPI_Zynq" where
  "SPI_1_Disable p =
     (let p = p\<lparr>cr_register := cr_register p OR CR_CS_NS\<rparr>;
          p = p\<lparr>er_register := 0\<rparr>
      in p\<lparr>idis_register := 0x3F\<rparr>)"

text \<open>The body of the receive loop: one byte into the ring buffer, dropped when it is full.\<close>

definition rx_put :: "u8 \<Rightarrow> SPI_Zynq \<Rightarrow> SPI_Zynq" where
  "rx_put c p =
     (let rx_head = RX_BUFFER_HEAD p + 1;
          rx_head = (if rx_head = of_nat RX_BUFF_SIZE then 0 else rx_head)
      in if rx_head \<noteq> RX_BUFFER_TAIL p
         then p\<lparr>RX_BUFFER := (RX_BUFFER p)[unat (RX_BUFFER_HEAD p) := c], RX_BUFFER_HEAD := rx_head\<rparr>
         else p)"

text \<open>\<open>while (entries < RX_THRES_VAL)\<close>\<close>

fun rx_loop :: "nat \<Rightarrow> SPI_Zynq \<Rightarrow> SPI_Zynq" where
  "rx_loop 0 p = p"
| "rx_loop (Suc n) p =
     (let r = rxd_register p (rxd_reads p);
          p = p\<lparr>rxd_reads := Suc (rxd_reads p)\<rparr>
      in rx_loop n (rx_put (ucast r) p))"

definition SPI_1_irq_handler :: "SPI_Zynq \<Rightarrow> SPI_Zynq" where
  "SPI_1_irq_handler p =
     (let p = p\<lparr>idis_register := 0x23\<rparr>;
          (irq_status, p) = read_sr p;
          p = (if irq_status AND 8 \<noteq> 0 then or_sr 8 p else p);
          p = (if irq_status AND 1 \<noteq> 0 then or_sr 1 p else p);
          p = (if irq_status AND 2 \<noteq> 0 then or_sr 2 p else p);
          p = (if irq_status AND 0x40 \<noteq> 0 then or_sr 0x40 p else p);
          (st, p) = read_sr p;
          p = (if st AND 0x10 \<noteq> 0 then rx_loop RX_THRES_VAL p else p)
      in p\<lparr>ien_register := 0x33\<rparr>)"

definition SPI1_SendData :: "u8 \<Rightarrow> SPI_Zynq \<Rightarrow> u8 \<times> SPI_Zynq" where
  "SPI1_SendData data p =
     (let byte_counter = 0;
          reg = cr_register p;
          reg = reg AND 0xFFFFC3FF;
          p = p\<lparr>cr_register := reg OR CR_CS_0\<rparr>;
          p = p\<lparr>txd_log := ucast data # txd_log p\<rparr>;
          byte_counter = byte_counter + 1
      in (byte_counter, p))"

text \<open>The fetch from the ring buffer, and the function around it; the out parameter is \<open>Some\<close> byte when
  the function returns 1.\<close>

definition rx_get :: "SPI_Zynq \<Rightarrow> u8 option \<times> SPI_Zynq" where
  "rx_get p =
     (if RX_BUFFER_HEAD p \<noteq> RX_BUFFER_TAIL p
      then let data = RX_BUFFER p ! unat (RX_BUFFER_TAIL p);
               t = RX_BUFFER_TAIL p + 1;
               t = (if t = of_nat RX_BUFF_SIZE then 0 else t)
           in (Some data, p\<lparr>RX_BUFFER_TAIL := t\<rparr>)
      else (None, p))"

definition SPI1_ReadData :: "SPI_Zynq \<Rightarrow> u8 option \<times> SPI_Zynq" where
  "SPI1_ReadData p =
     (let p = p\<lparr>idis_register := 0x37\<rparr>;
          (data, p) = rx_get p;
          p = p\<lparr>cr_register := cr_register p OR CR_CS_NS\<rparr>
      in (data, p\<lparr>ien_register := 0x33\<rparr>))"

definition SPI1_assert_slave :: "u8 \<Rightarrow> SPI_Zynq \<Rightarrow> SPI_Zynq" where
  "SPI1_assert_slave slave_nmr p =
     (let reg = cr_register p;
          reg = reg AND 0xFFFFC3FF
      in if slave_nmr = 0 then p\<lparr>cr_register := reg OR CR_CS_0\<rparr> else p)"

definition SPI1_deassert_slave :: "SPI_Zynq \<Rightarrow> SPI_Zynq" where
  "SPI1_deassert_slave p = p\<lparr>cr_register := cr_register p OR CR_CS_NS\<rparr>"

section \<open>The receive buffer\<close>

definition rx_wf :: "SPI_Zynq \<Rightarrow> bool" where
  "rx_wf p \<longleftrightarrow> length (RX_BUFFER p) = 256 \<and> unat (RX_BUFFER_HEAD p) < 128 \<and> unat (RX_BUFFER_TAIL p) < 128"

definition ring :: "u8 list \<Rightarrow> nat \<Rightarrow> nat \<Rightarrow> u8 list" where
  "ring b t n = map (\<lambda>k. b ! ((t + k) mod 128)) [0..<n]"

definition rx_count :: "SPI_Zynq \<Rightarrow> nat" where
  "rx_count p = (unat (RX_BUFFER_HEAD p) + 128 - unat (RX_BUFFER_TAIL p)) mod 128"

definition rx_contents :: "SPI_Zynq \<Rightarrow> u8 list" where
  "rx_contents p = ring (RX_BUFFER p) (unat (RX_BUFFER_TAIL p)) (rx_count p)"

lemma length_rx_contents [simp]: "length (rx_contents p) = rx_count p"
  by (simp add: rx_contents_def ring_def)

lemma unat_ring_next:
  assumes "unat (w :: u8) < 128"
  shows "unat (if w + 1 = 128 then 0 else w + 1) = (unat w + 1) mod 128"
proof -
  have u: "unat (w + 1) = unat w + 1" using assms by (simp add: unat_add_lem [THEN iffD1])
  have "w + 1 = 128 \<longleftrightarrow> unat w + 1 = 128" using u by (simp add: word_unat_eq_iff)
  then show ?thesis using u assms by auto
qed

lemma mod_128: "x < 256 \<Longrightarrow> x mod 128 = (if x < 128 then x else x - 128)" for x :: nat
  by (simp add: mod_if)

lemma ring_arith:
  assumes "h < 128" "t < (128 :: nat)"
  shows "(h + 1) mod 128 = t \<longleftrightarrow> (h + 128 - t) mod 128 = 127"
    and "(t + (h + 128 - t) mod 128) mod 128 = h"
    and "(h + 1) mod 128 \<noteq> t \<Longrightarrow> ((h + 1) mod 128 + 128 - t) mod 128 = Suc ((h + 128 - t) mod 128)"
    and "h \<noteq> t \<Longrightarrow> (h + 128 - t) mod 128 = Suc ((h + 128 - (t + 1) mod 128) mod 128)"
    and "(h + 128 - t) mod 128 = 0 \<longleftrightarrow> h = t"
  using assms by (auto simp: mod_128 split: if_splits)

lemma ring_snoc:
  assumes "length b \<ge> 128" "n < 128" "t < 128"
  shows "ring (b[(t + n) mod 128 := c]) t (Suc n) = ring b t n @ [c]"
proof -
  have "(t + n) mod 128 \<noteq> (t + k) mod 128" if "k < n" for k
    using that assms(2,3) by (auto simp: mod_128)
  moreover have "(t + n) mod 128 < length b" using assms(1) by (meson less_le_trans mod_less_divisor zero_less_numeral)
  ultimately show ?thesis by (simp add: ring_def)
qed

lemma ring_Cons: "ring b t (Suc n) = b ! (t mod 128) # ring b ((t + 1) mod 128) n"
proof -
  have "((t + 1) mod 128 + k) mod 128 = (t + Suc k) mod 128" for k
    by (simp add: mod_add_left_eq)
  then show ?thesis by (simp add: ring_def upt_conv_Cons map_Suc_upt [symmetric] del: upt_Suc)
qed

interpretation rx: fifo_buffer rx_wf rx_contents 127 rx_put rx_get
proof (unfold_locales, goal_cases)
  case (1 s x)
  then show ?case
    using unat_ring_next [of "RX_BUFFER_HEAD s"] by (auto simp: rx_wf_def rx_put_def Let_def split: if_splits)
next
  case (2 s)
  then show ?case
    using unat_ring_next [of "RX_BUFFER_TAIL s"] by (auto simp: rx_wf_def rx_get_def Let_def split: if_splits)
next
  case (3 s x)
  let ?h = "unat (RX_BUFFER_HEAD s)" and ?t = "unat (RX_BUFFER_TAIL s)"
  let ?n = "if RX_BUFFER_HEAD s + 1 = 128 then 0 else RX_BUFFER_HEAD s + 1"
  have b: "?h < 128" "?t < 128" "length (RX_BUFFER s) \<ge> 128" using 3(1) by (simp_all add: rx_wf_def)
  have n: "unat ?n = (?h + 1) mod 128" using b(1) by (rule unat_ring_next)
  have c: "rx_count s < 127" using 3(2) by simp
  then have ne: "(?h + 1) mod 128 \<noteq> ?t" using ring_arith(1) [OF b(1,2)] by (simp add: rx_count_def)
  have "?n \<noteq> RX_BUFFER_TAIL s"
  proof
    assume "?n = RX_BUFFER_TAIL s"
    then have "unat ?n = ?t" by (simp only:)
    with n ne show False by (simp only:)
  qed
  then have p: "rx_put x s = s\<lparr>RX_BUFFER := (RX_BUFFER s)[?h := x], RX_BUFFER_HEAD := ?n\<rparr>"
    by (simp add: rx_put_def Let_def)
  have "rx_count (rx_put x s) = Suc (rx_count s)"
    unfolding p using ring_arith(3) [OF b(1,2) ne] n by (simp add: rx_count_def)
  moreover have "?h = (?t + rx_count s) mod 128" using ring_arith(2) [OF b(1,2)] by (simp add: rx_count_def)
  ultimately show ?case using ring_snoc [OF b(3) _ b(2), of "rx_count s" x] c by (simp add: rx_contents_def p)
next
  case (4 s x)
  let ?h = "unat (RX_BUFFER_HEAD s)" and ?t = "unat (RX_BUFFER_TAIL s)"
  let ?n = "if RX_BUFFER_HEAD s + 1 = 128 then 0 else RX_BUFFER_HEAD s + 1"
  have b: "?h < 128" "?t < 128" using 4(1) by (simp_all add: rx_wf_def)
  have "rx_count s = 127" using 4(2) mod_less_divisor [of 128 "?h + 128 - ?t"] by (simp add: rx_count_def)
  then have "unat ?n = ?t" using ring_arith(1) [OF b] unat_ring_next [OF b(1)] by (simp add: rx_count_def)
  then have "?n = RX_BUFFER_TAIL s" by (simp only: word_unat_eq_iff)
  then show ?case by (simp add: rx_put_def Let_def)
next
  case (5 s x xs)
  let ?h = "unat (RX_BUFFER_HEAD s)" and ?t = "unat (RX_BUFFER_TAIL s)"
  let ?n = "if RX_BUFFER_TAIL s + 1 = 128 then 0 else RX_BUFFER_TAIL s + 1"
  have b: "?h < 128" "?t < 128" using 5(1) by (simp_all add: rx_wf_def)
  have n: "unat ?n = (?t + 1) mod 128" using b(2) by (rule unat_ring_next)
  have "rx_count s \<noteq> 0" using 5(2) length_rx_contents [of s] by auto
  then have ne: "?h \<noteq> ?t" using ring_arith(5) [OF b] by (simp add: rx_count_def)
  then have g: "rx_get s = (Some (RX_BUFFER s ! ?t), s\<lparr>RX_BUFFER_TAIL := ?n\<rparr>)"
    by (auto simp: rx_get_def Let_def)
  have "rx_count s = Suc (rx_count (s\<lparr>RX_BUFFER_TAIL := ?n\<rparr>))"
    using ring_arith(4) [OF b ne] n by (simp add: rx_count_def)
  then have "rx_contents s = RX_BUFFER s ! ?t # rx_contents (s\<lparr>RX_BUFFER_TAIL := ?n\<rparr>)"
    using b(2) n by (simp add: rx_contents_def ring_Cons)
  with 5(2) g show ?case by simp
next
  case (6 s)
  have "rx_count s = 0" using 6(2) length_rx_contents [of s] by simp
  then have "RX_BUFFER_HEAD s = RX_BUFFER_TAIL s"
    using ring_arith(5) 6(1) by (simp add: rx_wf_def rx_count_def word_unat_eq_iff)
  then show ?case using 6(2) by (simp add: rx_get_def)
qed

lemma ReadData_get:
  "fst (SPI1_ReadData p) = fst (rx_get p)" "rx_contents (snd (SPI1_ReadData p)) = rx_contents (snd (rx_get p))"
  "rx_wf (snd (SPI1_ReadData p)) = rx_wf (snd (rx_get p))"
  by (simp_all add: SPI1_ReadData_def rx_get_def Let_def rx_contents_def rx_count_def rx_wf_def)

text \<open>The buffer as its users see it: filled by the handler, emptied by \<open>SPI1_ReadData\<close>.\<close>

interpretation spi: fifo_buffer rx_wf rx_contents 127 rx_put SPI1_ReadData
  by unfold_locales
    (use rx.put_wf rx.get_wf rx.put_room rx.put_full rx.get_first rx.get_empty in \<open>auto simp: ReadData_get\<close>)

lemma rx_put_rxd [simp]: "rxd_register (rx_put c p) = rxd_register p" "rxd_reads (rx_put c p) = rxd_reads p"
  by (simp_all add: rx_put_def Let_def)

lemma rx_frame [simp]:
  "rx_contents (p\<lparr>rxd_reads := n\<rparr>) = rx_contents p" "rx_wf (p\<lparr>rxd_reads := n\<rparr>) = rx_wf p"
  by (simp_all add: rx_contents_def rx_count_def rx_wf_def)

lemma rx_loop_contents:
  "rx_wf p \<Longrightarrow> rx_wf (rx_loop n p) \<and> rxd_reads (rx_loop n p) = rxd_reads p + n \<and>
    rx_contents (rx_loop n p) = rx_contents p @
      take (127 - rx_count p) (map (\<lambda>i. ucast (rxd_register p i)) [rxd_reads p..<rxd_reads p + n])"
proof (induction n arbitrary: p)
  case 0
  then show ?case by simp
next
  case (Suc n)
  let ?c = "ucast (rxd_register p (rxd_reads p)) :: u8"
  let ?p = "rx_put ?c (p\<lparr>rxd_reads := Suc (rxd_reads p)\<rparr>)"
  have wf: "rx_wf ?p" using Suc.prems by (simp add: rx.put_wf)
  have cnt: "rx_count q = length (rx_contents q)" for q by simp
  have l: "[rxd_reads p..<rxd_reads p + Suc n] = rxd_reads p # [Suc (rxd_reads p)..<Suc (rxd_reads p) + n]"
    by (simp add: upt_conv_Cons del: upt_Suc)
  show ?case
  proof (cases "rx_count p < 127")
    case True
    then have c: "rx_contents ?p = rx_contents p @ [?c]"
      using Suc.prems rx.put_room [of "p\<lparr>rxd_reads := Suc (rxd_reads p)\<rparr>" ?c] by simp
    then have "rx_count ?p = Suc (rx_count p)" unfolding cnt by simp
    moreover have "127 - rx_count p = Suc (126 - rx_count p)" using True by simp
    ultimately show ?thesis using Suc.IH [OF wf] c unfolding l by (simp add: Let_def del: upt_Suc)
  next
    case False
    then have c: "rx_contents ?p = rx_contents p"
      using Suc.prems rx.put_full [of "p\<lparr>rxd_reads := Suc (rxd_reads p)\<rparr>" ?c] by simp
    then have "rx_count ?p = rx_count p" unfolding cnt by simp
    then show ?thesis using Suc.IH [OF wf] c False by (simp add: Let_def)
  qed
qed

text \<open>The part of the handler before the receive loop.\<close>

definition same_rx :: "SPI_Zynq \<Rightarrow> SPI_Zynq \<Rightarrow> bool" where
  "same_rx p q \<longleftrightarrow> RX_BUFFER q = RX_BUFFER p \<and> RX_BUFFER_HEAD q = RX_BUFFER_HEAD p \<and>
     RX_BUFFER_TAIL q = RX_BUFFER_TAIL p \<and> rxd_register q = rxd_register p \<and> rxd_reads q = rxd_reads p \<and>
     sr_register q = sr_register p"

lemma same_rx_or_sr: "same_rx p q \<Longrightarrow> same_rx p (or_sr v q)"
  by (simp add: same_rx_def or_sr_def read_sr_def)

lemma same_rx_contents: "same_rx p q \<Longrightarrow> rx_contents q = rx_contents p" "same_rx p q \<Longrightarrow> rx_wf q = rx_wf p"
    "same_rx p q \<Longrightarrow> rx_count q = rx_count p"
  by (simp_all add: same_rx_def rx_contents_def rx_count_def rx_wf_def)

lemma irq_handler_eq:
  "\<exists>q. same_rx p q \<and>
     SPI_1_irq_handler p = (if sr_register p (sr_reads q - 1) AND 0x10 \<noteq> 0 then rx_loop 6 q else q)\<lparr>ien_register := 0x33\<rparr>"
proof -
  let ?p0 = "snd (read_sr (p\<lparr>idis_register := 0x23\<rparr>))" and ?st = "sr_register p (sr_reads p)"
  let ?p1 = "if ?st AND 8 \<noteq> 0 then or_sr 8 ?p0 else ?p0"
  let ?p2 = "if ?st AND 1 \<noteq> 0 then or_sr 1 ?p1 else ?p1"
  let ?p3 = "if ?st AND 2 \<noteq> 0 then or_sr 2 ?p2 else ?p2"
  let ?p4 = "if ?st AND 0x40 \<noteq> 0 then or_sr 0x40 ?p3 else ?p3"
  let ?q = "snd (read_sr ?p4)"
  have "same_rx p ?p0" by (simp add: same_rx_def read_sr_def)
  then have "same_rx p ?p4" by (auto intro: same_rx_or_sr)
  then have q: "same_rx p ?q" by (simp add: same_rx_def read_sr_def)
  have st: "fst (read_sr (p\<lparr>idis_register := 0x23\<rparr>)) = ?st" by (simp add: read_sr_def)
  have f: "fst (read_sr ?p4) = sr_register p (sr_reads ?q - 1)"
    using \<open>same_rx p ?p4\<close> by (simp add: read_sr_def same_rx_def)
  have "SPI_1_irq_handler p = (if sr_register p (sr_reads ?q - 1) AND 0x10 \<noteq> 0 then rx_loop 6 ?q else ?q)\<lparr>ien_register := 0x33\<rparr>"
    unfolding f [symmetric] by (simp only: SPI_1_irq_handler_def Let_def split_beta st)
  with q show ?thesis by blast
qed

lemma irq_handler_split:
  "\<exists>q. same_rx p q \<and> rx_contents (SPI_1_irq_handler p) =
     rx_contents (if sr_register p (sr_reads q - 1) AND 0x10 \<noteq> 0 then rx_loop 6 q else q) \<and>
     rx_wf (SPI_1_irq_handler p) = rx_wf (if sr_register p (sr_reads q - 1) AND 0x10 \<noteq> 0 then rx_loop 6 q else q)"
proof -
  have "rx_contents (q\<lparr>ien_register := v\<rparr>) = rx_contents q" "rx_wf (q\<lparr>ien_register := v\<rparr>) = rx_wf q" for q v
    by (simp_all add: rx_contents_def rx_count_def rx_wf_def)
  with irq_handler_eq [of p] show ?thesis by auto
qed

text \<open>What an interrupt adds to the buffer is a run of the bytes it took from the FIFO, all of them when there is
  room for six.\<close>

lemma irq_handler_received:
  assumes "rx_wf p"
  shows "rx_wf (SPI_1_irq_handler p) \<and> rxd_register (SPI_1_irq_handler p) = rxd_register p \<and>
    (\<exists>n. rxd_reads (SPI_1_irq_handler p) = rxd_reads p + n \<and> n \<le> 6 \<and>
       rx_contents (SPI_1_irq_handler p) = rx_contents p @
         take (127 - rx_count p) (map (\<lambda>i. ucast (rxd_register p i)) [rxd_reads p..<rxd_reads p + n]))"
proof -
  from irq_handler_eq [of p] obtain q where q: "same_rx p q"
    and e: "SPI_1_irq_handler p = (if sr_register p (sr_reads q - 1) AND 0x10 \<noteq> 0 then rx_loop 6 q else q)\<lparr>ien_register := 0x33\<rparr>"
    by blast
  have f: "rx_contents (r\<lparr>ien_register := v\<rparr>) = rx_contents r" "rx_wf (r\<lparr>ien_register := v\<rparr>) = rx_wf r" for r v
    by (simp_all add: rx_contents_def rx_count_def rx_wf_def)
  have reg: "rxd_register (rx_loop n r) = rxd_register r" for n r
    by (induction n arbitrary: r) (simp_all add: Let_def)
  have "rx_wf q" using assms same_rx_contents(2) [OF q] by simp
  from rx_loop_contents [OF this, of 6] same_rx_contents [OF q] q [unfolded same_rx_def] \<open>rx_wf q\<close> show ?thesis
    unfolding e by (cases "sr_register p (sr_reads q - 1) AND 0x10 \<noteq> 0") (auto simp: f reg intro: exI [of _ 6] exI [of _ 0])
qed

fun read_many :: "nat \<Rightarrow> SPI_Zynq \<Rightarrow> u8 option list \<times> SPI_Zynq" where
  "read_many 0 p = ([], p)"
| "read_many (Suc n) p = (let (r, p) = SPI1_ReadData p; (rs, p) = read_many n p in (r # rs, p))"

lemma read_many_gets: "read_many n p = spi.gets n p"
  by (induction n arbitrary: p) simp_all

lemma io_log_access:
  "io_log (write32 a v s) = (a, v) # io_log s" "io_log (or32 a v s) = (a, read32 a s OR v) # io_log s"
  by (simp_all add: write32_def or32_def)

section \<open>Properties\<close>

text \<open>C16: The receive path is a first-in first-out buffer of 127 bytes: an interrupt with data in the
  FIFO stores the six bytes read from it, in order, as far as there is room, keeps what was stored
  before, and the following reads return the oldest bytes first; an interrupt without data changes
  nothing.\<close>

theorem spi_receive_fifo:
  assumes wf: "rx_wf p" and n: "n \<le> length (rx_contents (SPI_1_irq_handler p))"
  shows "rx_wf (SPI_1_irq_handler p) \<and>
    ((\<forall>i. sr_register p i AND 0x10 \<noteq> 0) \<longrightarrow> rx_contents (SPI_1_irq_handler p) = rx_contents p @
      take (127 - length (rx_contents p)) (map (\<lambda>i. ucast (rxd_register p i)) [rxd_reads p..<rxd_reads p + 6])) \<and>
    ((\<forall>i. sr_register p i AND 0x10 = 0) \<longrightarrow> rx_contents (SPI_1_irq_handler p) = rx_contents p) \<and>
    fst (read_many n (SPI_1_irq_handler p)) = map Some (take n (rx_contents (SPI_1_irq_handler p)))"
proof -
  obtain q where q: "same_rx p q" "rx_contents (SPI_1_irq_handler p) =
     rx_contents (if sr_register p (sr_reads q - 1) AND 0x10 \<noteq> 0 then rx_loop 6 q else q)"
     "rx_wf (SPI_1_irq_handler p) = rx_wf (if sr_register p (sr_reads q - 1) AND 0x10 \<noteq> 0 then rx_loop 6 q else q)"
    using irq_handler_split [of p] by blast
  have "rx_wf q" using wf same_rx_contents(2) [OF q(1)] by simp
  note loop = rx_loop_contents [OF this, of 6]
  have wf': "rx_wf (SPI_1_irq_handler p)" using q(3) loop \<open>rx_wf q\<close> by simp
  have rd: "rxd_register q = rxd_register p" "rxd_reads q = rxd_reads p" using q(1) by (simp_all add: same_rx_def)
  show ?thesis
    using wf' q(2) loop same_rx_contents [OF q(1)] rd spi.gets_contents [OF wf' n] by (simp add: read_many_gets)
qed

definition idle_spi :: "(nat \<Rightarrow> u32) \<Rightarrow> SPI_Zynq" where
  "idle_spi st = \<lparr>cr_register = 0, sr_register = st, sr_reads = 0, sr_writes = [], ien_register = 0, idis_register = 0,
     er_register = 0, txd_log = [], rxd_register = (\<lambda>n. of_nat n + 48), rxd_reads = 0, txwr_register = 0, rx_thres_reg = 0,
     RX_BUFFER = replicate 256 0, RX_BUFFER_HEAD = 126, RX_BUFFER_TAIL = 126\<rparr>"

theorem spi_receive_witness:
  "fst (read_many 6 (SPI_1_irq_handler (idle_spi (\<lambda>_. 0x10)))) = map Some [48, 49, 50, 51, 52, 53]"
proof -
  let ?p = "idle_spi (\<lambda>_. 0x10)"
  have wf: "rx_wf ?p" by (simp add: rx_wf_def idle_spi_def)
  have "rx_contents ?p = []" by (simp add: rx_contents_def rx_count_def ring_def idle_spi_def)
  moreover have "map (\<lambda>i. ucast (rxd_register ?p i)) [rxd_reads ?p..<rxd_reads ?p + 6] = [48, 49, 50, 51, 52, 53 :: u8]"
    by (simp add: idle_spi_def upt_rec)
  moreover have "\<forall>i. sr_register ?p i AND 0x10 \<noteq> 0" by (simp add: idle_spi_def)
  ultimately have c: "rx_contents (SPI_1_irq_handler ?p) = [48, 49, 50, 51, 52, 53]"
    using spi_receive_fifo [OF wf, of 0] by simp
  then show ?thesis using spi_receive_fifo [OF wf, of 6] by simp
qed

text \<open>The constants written with decimal and octal digits miss their fields: deselecting all slaves
  leaves the reserved code 0111 in the chip-select field and sets the manual start bit, and each
  routed pin has the reserved buffer type 111 and its pull-up enabled.\<close>

lemma spi_constants_miss_fields:
  "drop_bit 10 (cr_register (SPI1_deassert_slave (SPI1_assert_slave 0 p))) AND 0xF = 0x7 \<and>
   bit (cr_register (SPI_1_Config p)) 16 \<and> drop_bit 10 (cr_register (SPI_1_Config p)) AND 0xF = 0x7 \<and>
   read32 MIO_10 (SPI_1_SignalRoute s) = 0x3EA0 \<and> drop_bit 9 (0x3EA0 :: u32) AND 0x7 = 0x7 \<and> bit (0x3EA0 :: u32) 12"
proof -
  have cs: "(cr_register p AND 0xFFFFC3FF OR CR_CS_0) OR CR_CS_NS = (cr_register p AND 0xFFFFC3FF) OR 0x115C00" by simp
  have "drop_bit 10 ((w AND 0xFFFFC3FF) OR 0x115C00) AND 0xF = 0x7" for w :: u32
  proof -
    have "drop_bit 10 ((w AND 0xFFFFC3FF) OR 0x115C00) AND 0xF =
        (drop_bit 10 w AND (drop_bit 10 0xFFFFC3FF AND 0xF)) OR (drop_bit 10 0x115C00 AND (0xF :: u32))"
      by (simp only: drop_bit_and drop_bit_or bit.conj_disj_distrib2 and.assoc)
    then show ?thesis by simp
  qed
  then show ?thesis
    by (simp add: SPI1_deassert_slave_def SPI1_assert_slave_def SPI_1_Config_def SPI_1_SignalRoute_def
        route_pin_def or32_def read32_def write32_def Let_def bit_numeral_word_iff)
qed

text \<open>Every access to the clock, reset and pin registers is made with the control-register lock open,
  and each of the three routines closes it again.\<close>

lemma spi_lock_discipline:
  "\<exists>ws. io_log (SPI_1_SignalRoute (SPI_1_ClockEnable (SPI_1_Reset s))) = rev ws @ io_log s \<and> unlocked_writes False ws"
proof -
  have "unlocked_writes False (rev (take 25 (io_log (SPI_1_SignalRoute (SPI_1_ClockEnable (SPI_1_Reset s)))))) \<and>
      drop 25 (io_log (SPI_1_SignalRoute (SPI_1_ClockEnable (SPI_1_Reset s)))) = io_log s"
    by (simp add: SPI_1_Reset_def SPI_1_ClockEnable_def SPI_1_SignalRoute_def route_pin_def io_log_access Let_def)
  then show ?thesis by (metis append_take_drop_id rev_rev_ident)
qed

end
