(* ===== verification/Ltzvisor.thy ===== *)
theory Ltzvisor
  imports Board Uart Monitor
begin

unbundle bit_operations_syntax

text \<open>
  The hypervisor proper: hardware initialisation (\<^verbatim>\<open>ltzvisor_hw.c\<close> of the boards), the API
  (\<^verbatim>\<open>src/src/core/ltzvisor_api.c\<close>), the entry point (\<^verbatim>\<open>ltzvisor.c\<close>) and the guest configuration
  (\<^verbatim>\<open>src/src/ns_guest/ltzvisor_nsguest_config.c\<close>). \<open>None\<close> is a call that does not return or whose
  behaviour is undefined; an endless error loop of \<open>ltzvisor_main\<close> is an outcome of its own. The
  messages of \<open>printk\<close> are left out.
\<close>

section \<open>Hardware initialisation\<close>

datatype board = zedboard | zybo | zc702 | zynq

record hw =
  hw_uarts :: "Uart_Zynq list"
  hw_dist :: Interrupt_Distributor
  hw_icc :: Cpu_Interface
  hw_io :: io

abbreviation UART_1_INTERRUPT :: u32 where "UART_1_INTERRUPT \<equiv> 82"
abbreviation SPI_1_INTERRUPT :: u32 where "SPI_1_INTERRUPT \<equiv> 81"
abbreviation TTC0_TTCx_2_INTERRUPT :: u32 where "TTC0_TTCx_2_INTERRUPT \<equiv> 43"
abbreviation TTC1_TTCx_2_INTERRUPT :: u32 where "TTC1_TTCx_2_INTERRUPT \<equiv> 70"
abbreviation SCUTIMER_INTERRUPT :: u32 where "SCUTIMER_INTERRUPT \<equiv> 29"
abbreviation GEM0_INTERRUPT :: u32 where "GEM0_INTERRUPT \<equiv> 54"

text \<open>The calls of \<open>interrupt_security_config\<close>, in order, and \<open>board_init\<close> of each board.\<close>

fun security_calls :: "board \<Rightarrow> (u32 \<times> IntSecurity_TypeDef) list" where
  "security_calls zedboard =
     [(UART_1_INTERRUPT, Int_NS), (TTC1_TTCx_2_INTERRUPT, Int_NS), (SPI_1_INTERRUPT, Int_S),
      (SCUTIMER_INTERRUPT, Int_NS), (GEM0_INTERRUPT, Int_NS), (TTC0_TTCx_2_INTERRUPT, Int_S)]"
| "security_calls zybo = [(UART_1_INTERRUPT, Int_NS), (TTC1_TTCx_2_INTERRUPT, Int_S)]"
| "security_calls zc702 = [(UART_1_INTERRUPT, Int_NS), (TTC1_TTCx_2_INTERRUPT, Int_S)]"
| "security_calls zynq =
     [(UART_1_INTERRUPT, Int_NS), (TTC0_TTCx_2_INTERRUPT, Int_S), (TTC1_TTCx_2_INTERRUPT, Int_NS)]"

fun board_init :: "board \<Rightarrow> io \<Rightarrow> u32 \<times> io" where
  "board_init zedboard = board_init_zedboard"
| "board_init zybo = board_init_zybo"
| "board_init zc702 = board_init_zc702"
| "board_init zynq = board_init_zc702"

fun config_calls :: "(u32 \<times> IntSecurity_TypeDef) list \<Rightarrow> Interrupt_Distributor \<Rightarrow> Interrupt_Distributor option" where
  "config_calls [] d = Some d"
| "config_calls ((i, sec) # cs) d = do { d \<leftarrow> interrupt_security_config i sec d; config_calls cs d }"

definition ltzvisor_hw_init :: "board \<Rightarrow> hw \<Rightarrow> (u32 \<times> hw) option" where
  "ltzvisor_hw_init b h =
     do { (ret, us) \<leftarrow> on_uart 1 (\<lambda>u. Some (uart_init u)) (hw_uarts h);
          let h = h\<lparr>hw_uarts := us\<rparr>;
          if ret = FALSE then Some (ret, h)
          else do {
            let (ret, d) = interrupt_distributor_init (hw_dist h);
            let h = h\<lparr>hw_dist := d\<rparr>;
            if ret = FALSE then Some (ret, h)
            else do {
              (ret, d, c) \<leftarrow> interrupt_interface_init (hw_dist h, hw_icc h);
              let h = h\<lparr>hw_dist := d, hw_icc := c\<rparr>;
              if ret = FALSE then Some (ret, h)
              else do {
                d \<leftarrow> config_calls (security_calls b) (interrupt_security_configall (hw_dist h));
                let h = h\<lparr>hw_dist := d\<rparr>;
                let (ret, s) = board_init b (hw_io h);
                let h = h\<lparr>hw_io := s\<rparr>;
                Some (ret, h) } } } }"

section \<open>Guests\<close>

record nsguest_conf_entry =
  gce_name :: "u8 list"
  gce_id :: u32
  gce_trd_init :: u32
  gce_trd_start :: u32
  gce_trd_end :: u32
  gce_trd_load :: u32
  gce_bin_start :: u32
  gce_shared_mem :: u32
  gce_bin_end :: u32
  gce_bin_load :: u32

text \<open>The configuration of the guest whose image lies from \<open>GPOS0_start\<close> to \<open>GPOS0_end\<close>; the name is
  the string \<open>baremetal_hello\<close>.\<close>

definition nsguest_config :: "u32 \<Rightarrow> u32 \<Rightarrow> nsguest_conf_entry" where
  "nsguest_config GPOS0_start GPOS0_end =
     \<lparr>gce_name = [98, 97, 114, 101, 109, 101, 116, 97, 108, 95, 104, 101, 108, 108, 111],
      gce_id = 0, gce_trd_init = 0, gce_trd_start = 0, gce_trd_end = 0, gce_trd_load = 0,
      gce_bin_start = GPOS0_start, gce_shared_mem = GPOS0_start + 0x61A80,
      gce_bin_end = GPOS0_end, gce_bin_load = 0x00100000\<rparr>"

text \<open>\<open>struct tzmachine\<close>: one word per member of \<open>core_regs\<close> and \<open>cp15_regs\<close>.\<close>

record tzmachine =
  vcpu_regs_core :: "preg \<Rightarrow> u32"
  vcpu_regs_cp15 :: "cp15_reg \<Rightarrow> u32"
  name :: "u8 list"
  gid :: u32
  booting :: u32

record hv =
  hv_hw :: hw
  NS_Guest :: tzmachine
  hv_mem :: mem
  hv_cp15 :: "bool \<Rightarrow> cp15_reg \<Rightarrow> u32"

text \<open>\<open>strcpy\<close> into the member \<open>name\<close>, an array of 30 bytes.\<close>

definition strcpy_name :: "u8 list \<Rightarrow> tzmachine \<Rightarrow> tzmachine option" where
  "strcpy_name s g = (if length s < 30 then Some (g\<lparr>name := s\<rparr>) else None)"

text \<open>The effect of \<open>cp15_restore\<close> and \<open>set_guest_context\<close> on the banked registers (the theorem
  \<open>cp15_restore_refines\<close> below relates it to the code).\<close>

definition cp15_restore_to :: "(cp15_reg \<Rightarrow> u32) \<Rightarrow> (bool \<Rightarrow> cp15_reg \<Rightarrow> u32) \<Rightarrow> bool \<Rightarrow> cp15_reg \<Rightarrow> u32" where
  "cp15_restore_to v c ns r =
     (if r = ACTLR then (if ns then c ns r else v r) else if ns then v r else c ns r)"

definition ltzvisor_nsguest_create :: "u32 \<Rightarrow> nsguest_conf_entry \<Rightarrow> hv \<Rightarrow> (u32 \<times> hv) option" where
  "ltzvisor_nsguest_create a_NS_Guest g h =
     do { let n = (NS_Guest h)\<lparr>booting := 1\<rparr>;
          let n = n\<lparr>gid := gce_id g\<rparr>;
          n \<leftarrow> strcpy_name (gce_name g) n;
          let n = n\<lparr>vcpu_regs_core := (\<lambda>_. 0)\<rparr>;
          let n = n\<lparr>vcpu_regs_core := (vcpu_regs_core n)(Lr Mon := gce_bin_load g)\<rparr>;
          let n = n\<lparr>vcpu_regs_core := (vcpu_regs_core n)(Spsr Mon := 0x193)\<rparr>;
          let n = n\<lparr>vcpu_regs_cp15 := (\<lambda>_. 0)\<rparr>;
          let n = n\<lparr>vcpu_regs_cp15 := (vcpu_regs_cp15 n)(SCTLR := 0x00c50078)\<rparr>;
          let n = n\<lparr>vcpu_regs_cp15 := (vcpu_regs_cp15 n)(ACTLR := 0x00000006)\<rparr>;
          let h = h\<lparr>NS_Guest := n\<rparr>;
          let h = h\<lparr>hv_mem := snd (memcpy (gce_bin_load g) (gce_bin_start g) (gce_bin_end g - gce_bin_start g) (hv_mem h))\<rparr>;
          let h = (if gce_trd_init g \<noteq> 0
                   then h\<lparr>hv_mem := snd (memcpy (gce_trd_load g) (gce_trd_start g) (gce_trd_end g - gce_trd_start g) (hv_mem h))\<rparr>
                   else h);
          let h = h\<lparr>hv_cp15 := cp15_restore_to (vcpu_regs_cp15 n) (hv_cp15 h)\<rparr>;
          let h = h\<lparr>hv_cp15 := (hv_cp15 h)(False := (hv_cp15 h False)(TPIDRPRW := a_NS_Guest))\<rparr>;
          Some (TRUE, h) }"

section \<open>Entry point\<close>

definition ltzvisor_init :: "board \<Rightarrow> hv \<Rightarrow> (u32 \<times> hv) option" where
  "ltzvisor_init b h =
     do { (ret, hw) \<leftarrow> ltzvisor_hw_init b (hv_hw h);
          Some (ret, h\<lparr>hv_hw := hw\<rparr>) }"

datatype outcome = Init_Error hv | Create_Error hv | Kickoff hv

definition ltzvisor_main :: "board \<Rightarrow> u32 \<Rightarrow> nsguest_conf_entry \<Rightarrow> hv \<Rightarrow> outcome option" where
  "ltzvisor_main b a_NS_Guest g h =
     do { (ret, h) \<leftarrow> ltzvisor_init b h;
          if ret = FALSE then Some (Init_Error h)
          else do {
            (ret, h) \<leftarrow> ltzvisor_nsguest_create a_NS_Guest g h;
            if ret = FALSE then Some (Create_Error h) else Some (Kickoff h) } }"

text \<open>\<open>LTZVISOR_MON_EXIT\<close>: Supervisor mode with IRQ and FIQ masked, and a stack pointer computed
  from whatever r0 holds.\<close>

definition LTZVISOR_MON_EXIT :: "u32 \<Rightarrow> cpu \<Rightarrow> cpu" where
  "LTZVISOR_MON_EXIT a_supervisor_stack s =
     (let s = s\<lparr>cpsr := (cpsr s AND NOT 0xFF) OR (0x13 OR 0x80 OR 0x40)\<rparr>;
          s = wr 1 a_supervisor_stack s;
          s = wr 1 (rd s 1 + push_bit 12 (rd s 0)) s
      in wr 13 (rd s 1 + 4096) s)"

section \<open>Security of the interrupts\<close>

text \<open>A sequence of configuration calls is a sequence of writes of the distributor's field store.\<close>

lemma config_calls_put_all:
  "config_calls cs d = sec.put_all (map (\<lambda>(i, s). (i, s = Int_NS)) cs) d"
proof (induction cs arbitrary: d)
  case Nil
  then show ?case by simp
next
  case (Cons c cs)
  obtain i sec where c: "c = (i, sec)" by (cases c)
  have "(if sec = Int_NS then Int_NS else Int_S) = sec" by (cases sec) simp_all
  moreover have "config_calls cs = sec.put_all (map (\<lambda>(i, s). (i, s = Int_NS)) cs)"
    using Cons.IH by (rule ext)
  ultimately show ?case by (simp add: c)
qed

lemma map_of_is_ns:
  "map_of (rev (map (\<lambda>(i, s). (i, s = Int_NS)) cs)) j = map_option (\<lambda>s. s = Int_NS) (map_of (rev cs) j)"
proof -
  have "map_of (map (\<lambda>(i, s). (i, f s)) xs) j = map_option f (map_of xs j)" for f :: "'b \<Rightarrow> 'c" and xs :: "('a \<times> 'b) list" and j
    by (induction xs) auto
  then show ?thesis by (simp add: rev_map)
qed

lemma configall_ns:
  assumes "dist_wf d" "implemented j"
  shows "dist_wf (interrupt_security_configall d)"
    and "is_ns (interrupt_security_configall d) j \<longleftrightarrow> 32 \<le> unat j \<or> is_ns d j"
proof -
  have len: "length (ICDISRx d) = 3" using assms(1) by (simp add: dist_wf_def)
  show "dist_wf (interrupt_security_configall d)"
    using assms(1) by (simp add: interrupt_security_configall_def dist_wf_def)
  have j: "unat j < 96" using assms(2) by (simp add: unat_lt_96)
  have "bit (0xFFFFFFFF :: u32) n" if "n < 32" for n
  proof -
    have "(0xFFFFFFFF :: u32) = - 1" by simp
    then show ?thesis using that by (simp only: bit_minus_1_iff) simp
  qed
  moreover have "1 \<le> unat j div 32 \<longleftrightarrow> 32 \<le> unat j"
    using less_eq_div_iff_mult_less_eq [of 32 1 "unat j"] by simp
  moreover have "unat j div 32 < 3" using j by simp
  ultimately show "is_ns (interrupt_security_configall d) j \<longleftrightarrow> 32 \<le> unat j \<or> is_ns d j"
    using len by (simp add: is_ns_def interrupt_security_configall_def nth_fill_regs del: One_nat_def)
qed

lemma security_calls_implemented: "(i, s) \<in> set (security_calls b) \<Longrightarrow> implemented i"
  by (cases b) auto

lemma config_calls_correct:
  assumes wf: "dist_wf d"
  shows "\<exists>d'. config_calls (security_calls b) (interrupt_security_configall d) = Some d' \<and> dist_wf d' \<and>
    (\<forall>j. implemented j \<longrightarrow> is_ns d' j = (case map_of (rev (security_calls b)) j of
       Some s \<Rightarrow> s = Int_NS | None \<Rightarrow> 32 \<le> unat j \<or> is_ns d j))"
proof -
  let ?cfg = "map (\<lambda>(i, s). (i, s = Int_NS)) (security_calls b)"
  have wf': "dist_wf (interrupt_security_configall d)" using configall_ns(1) [OF wf, of 0] by simp
  moreover have "\<And>i v. (i, v) \<in> set ?cfg \<Longrightarrow> implemented i" using security_calls_implemented by fastforce
  ultimately obtain d' where d': "sec.put_all ?cfg (interrupt_security_configall d) = Some d'" "dist_wf d'"
    using sec.put_all_defined by blast
  have "is_ns d' j = (case map_of (rev (security_calls b)) j of Some s \<Rightarrow> s = Int_NS | None \<Rightarrow> 32 \<le> unat j \<or> is_ns d j)"
    if "implemented j" for j
    using sec.get_put_all [OF wf' d'(1) that] configall_ns(2) [OF wf that]
    by (simp add: map_of_is_ns split: option.splits)
  with d' show ?thesis by (simp add: config_calls_put_all)
qed

lemma distributor_init_ok:
  assumes "dist_wf d" "gic_id_ok d" "interrupt_distributor_init d = (ret, d')"
  shows "ret = TRUE" "dist_wf d'" "ICDISRx d' = ICDISRx d"
  using assms by (auto simp: interrupt_distributor_init_def Let_def dist_wf_def)

lemma interface_init_ok:
  assumes "dist_wf d" "\<exists>k. ICCIAR c (iar_reads c + k) AND 0x3FF = 1023"
  shows "\<exists>d' c'. interrupt_interface_init (d, c) = Some (TRUE, d', c') \<and> dist_wf d' \<and> ICDISRx d' = ICDISRx d"
proof -
  let ?c = "c\<lparr>ICCICR := 0, ICCPMR := 0xF0, ICCBPR := 3\<rparr>"
  let ?fake = "\<lambda>k. ICCIAR c (iar_reads c + k) AND 0x3FF = 1023"
  have "?fake (LEAST k. ?fake k)" using assms(2) by (rule LeastI_ex)
  moreover have "\<And>m. m < (LEAST k. ?fake k) \<Longrightarrow> \<not> ?fake m" by (rule not_less_Least)
  ultimately obtain c1 where "drain_pending ?c = Some c1"
    using drain_pending_Some [of ?c "LEAST k. ?fake k"] by auto
  with assms(1) show ?thesis by (simp add: interrupt_interface_init_def Let_def dist_wf_def)
qed

text \<open>Hardware initialisation succeeds and assigns the interrupts.\<close>

lemma hw_init_ok:
  assumes uarts: "length (hw_uarts h) = 2" and wf: "dist_wf (hw_dist h)" and gic: "gic_id_ok (hw_dist h)"
    and idle: "\<exists>k. ICCIAR (hw_icc h) (iar_reads (hw_icc h) + k) AND 0x3FF = 1023"
  shows "\<exists>h'. ltzvisor_hw_init b h = Some (TRUE, h') \<and> dist_wf (hw_dist h') \<and>
    (\<forall>j. implemented j \<longrightarrow> is_ns (hw_dist h') j = (case map_of (rev (security_calls b)) j of
       Some s \<Rightarrow> s = Int_NS | None \<Rightarrow> 32 \<le> unat j \<or> is_ns (hw_dist h) j)) \<and>
    hw_io h' = snd (board_init b (hw_io h)) \<and> hw_uarts h' = [hw_uarts h ! 0, snd (uart_init (hw_uarts h ! 1))]"
proof -
  obtain u0 u1 where us: "hw_uarts h = [u0, u1]" using uarts by (auto simp: numeral_2_eq_2 length_Suc_conv)
  have uart: "fst (uart_init u1) = TRUE" by (simp add: uart_init_def uart_set_baud_rate_def Let_def)
  obtain ret d where d: "interrupt_distributor_init (hw_dist h) = (ret, d)" by fastforce
  note dok = distributor_init_ok [OF wf gic d]
  obtain d1 c1 where i: "interrupt_interface_init (d, hw_icc h) = Some (TRUE, d1, c1)" "dist_wf d1"
    "ICDISRx d1 = ICDISRx d" using interface_init_ok [OF dok(2) idle] by blast
  obtain d2 where s: "config_calls (security_calls b) (interrupt_security_configall d1) = Some d2" "dist_wf d2"
    "\<And>j. implemented j \<Longrightarrow> is_ns d2 j = (case map_of (rev (security_calls b)) j of
       Some s \<Rightarrow> s = Int_NS | None \<Rightarrow> 32 \<le> unat j \<or> is_ns d1 j)"
    using config_calls_correct [OF i(2), of b] by blast
  have same: "is_ns d1 j = is_ns (hw_dist h) j" for j using i(3) dok(3) by (simp add: is_ns_def)
  have "fst (board_init b s) = TRUE" for s
    by (cases b) (simp_all add: zed.init_writes zyb.init_writes zc7.init_writes)
  then obtain s3 where bi: "board_init b (hw_io h) = (TRUE, s3)" by (metis prod.collapse)
  have "ltzvisor_hw_init b h = Some (TRUE, h\<lparr>hw_uarts := [u0, snd (uart_init u1)], hw_dist := d2, hw_icc := c1,
      hw_io := s3\<rparr>)"
    using uart d dok(1) i(1) s(1) by (simp add: ltzvisor_hw_init_def on_uart_def us Let_def bi)
  then show ?thesis using s(2) s(3) [unfolded same] us by (simp add: bi)
qed

section \<open>Properties\<close>

text \<open>C5: On every board \<open>ltzvisor_hw_init\<close> succeeds on a controller it recognises that becomes idle,
  and leaves every interrupt in the world the board's list of calls assigns to it: the last call
  for an interrupt decides, every other shared interrupt is Non-secure, and the other private
  ones keep their world. The board is configured last.\<close>

theorem hw_init_assigns_interrupts:
  assumes uarts: "length (hw_uarts h) = 2" and wf: "dist_wf (hw_dist h)" and gic: "gic_id_ok (hw_dist h)"
    and idle: "\<exists>k. ICCIAR (hw_icc h) (iar_reads (hw_icc h) + k) AND 0x3FF = 1023"
  shows "\<exists>h'. ltzvisor_hw_init b h = Some (TRUE, h') \<and> dist_wf (hw_dist h') \<and>
    (\<forall>j. implemented j \<longrightarrow> is_ns (hw_dist h') j = (case map_of (rev (security_calls b)) j of
       Some s \<Rightarrow> s = Int_NS | None \<Rightarrow> 32 \<le> unat j \<or> is_ns (hw_dist h) j)) \<and>
    hw_io h' = snd (board_init b (hw_io h)) \<and> hw_uarts h' = [hw_uarts h ! 0, snd (uart_init (hw_uarts h ! 1))]"
  using assms by (rule hw_init_ok)

definition demo_hw :: hw where
  "demo_hw = \<lparr>hw_uarts = [idle_uart (\<lambda>_. 0), idle_uart (\<lambda>_. 0)], hw_dist = reset_dist, hw_icc = idle_icc,
     hw_io = \<lparr>io_mem = (\<lambda>_. 0), io_log = []\<rparr>\<rparr>"

theorem hw_init_witness:
  "\<exists>h'. ltzvisor_hw_init zedboard demo_hw = Some (TRUE, h') \<and> is_ns (hw_dist h') 82 \<and> \<not> is_ns (hw_dist h') 81 \<and>
    \<not> is_ns (hw_dist h') 43"
proof -
  have "length (hw_uarts demo_hw) = 2" by (simp add: demo_hw_def)
  moreover have "dist_wf (hw_dist demo_hw)" using reset_dist_wf by (simp add: demo_hw_def)
  moreover have "gic_id_ok (hw_dist demo_hw)" by (simp add: gic_id_ok_def reset_dist_def demo_hw_def)
  moreover have "\<exists>k. ICCIAR (hw_icc demo_hw) (iar_reads (hw_icc demo_hw) + k) AND 0x3FF = 1023"
    by (simp add: demo_hw_def idle_icc_def)
  ultimately obtain h' where h': "ltzvisor_hw_init zedboard demo_hw = Some (TRUE, h')"
    "\<And>j. implemented j \<Longrightarrow> is_ns (hw_dist h') j = (case map_of (rev (security_calls zedboard)) j of
       Some s \<Rightarrow> s = Int_NS | None \<Rightarrow> 32 \<le> unat j \<or> is_ns (hw_dist demo_hw) j)"
    using hw_init_assigns_interrupts [of demo_hw zedboard] by blast
  have "is_ns (hw_dist h') 82" "\<not> is_ns (hw_dist h') 81" "\<not> is_ns (hw_dist h') 43"
    using h'(2) [of 82] h'(2) [of 81] h'(2) [of 43] by simp_all
  with h'(1) show ?thesis by blast
qed

text \<open>When the distributor is not the expected one, \<open>ltzvisor_hw_init\<close> reports failure without
  touching the interrupt controller or the security configuration of the board, and
  \<open>ltzvisor_main\<close> ends in its error loop before any guest is created.\<close>

lemma hw_init_rejects_unknown_gic:
  assumes "length (hw_uarts (hv_hw h)) = 2" and "\<not> gic_id_ok (hw_dist (hv_hw h))"
  shows "\<exists>us. ltzvisor_main b a g h = Some (Init_Error (h\<lparr>hv_hw := (hv_hw h)\<lparr>hw_uarts := us\<rparr>\<rparr>))"
proof -
  obtain u0 u1 where us: "hw_uarts (hv_hw h) = [u0, u1]" using assms(1) by (auto simp: numeral_2_eq_2 length_Suc_conv)
  have "fst (uart_init u1) = TRUE" by (simp add: uart_init_def uart_set_baud_rate_def Let_def)
  then have "ltzvisor_hw_init b (hv_hw h) = Some (FALSE, (hv_hw h)\<lparr>hw_uarts := [u0, snd (uart_init u1)]\<rparr>)"
    using assms(2) by (simp add: ltzvisor_hw_init_def on_uart_def us Let_def interrupt_distributor_init_def)
  then show ?thesis by (auto simp: ltzvisor_main_def ltzvisor_init_def)
qed

definition demo_hv :: "hw \<Rightarrow> hv" where
  "demo_hv w = \<lparr>hv_hw = w, NS_Guest = \<lparr>vcpu_regs_core = (\<lambda>_. 1), vcpu_regs_cp15 = (\<lambda>_. 1), name = [], gid = 9, booting = 0\<rparr>,
     hv_mem = (\<lambda>a. ucast a), hv_cp15 = (\<lambda>_ _. 5)\<rparr>"

text \<open>C6: \<open>ltzvisor_nsguest_create\<close> succeeds and prepares the guest: its image is copied to its load
  address and nothing else in memory changes, its context is zero but for the start address and
  the Supervisor mode processor state with IRQ masked and FIQ open, its system control registers
  have the values given, the banked Secure registers keep theirs, and the Secure thread register
  points to the context.\<close>

theorem nsguest_create_correct:
  assumes nm: "length (gce_name g) < 30" and notrd: "gce_trd_init g = 0"
    and apart: "region (gce_bin_load g) (unat (gce_bin_end g - gce_bin_start g)) \<inter>
      region (gce_bin_start g) (unat (gce_bin_end g - gce_bin_start g)) = {}"
  shows "\<exists>h'. ltzvisor_nsguest_create a g h = Some (TRUE, h') \<and>
    hv_mem h' = copied (gce_bin_load g) (gce_bin_start g) (unat (gce_bin_end g - gce_bin_start g)) (hv_mem h) \<and>
    vcpu_regs_core (NS_Guest h') = (\<lambda>_. 0)(Lr Mon := gce_bin_load g, Spsr Mon := 0x193) \<and>
    vcpu_regs_cp15 (NS_Guest h') = (\<lambda>_. 0)(SCTLR := 0x00c50078, ACTLR := 6) \<and>
    name (NS_Guest h') = gce_name g \<and> booting (NS_Guest h') = 1 \<and>
    hv_cp15 h' True SCTLR = 0x00c50078 \<and> hv_cp15 h' False ACTLR = 6 \<and> hv_cp15 h' False TPIDRPRW = a \<and>
    (\<forall>r. r \<noteq> ACTLR \<longrightarrow> r \<noteq> TPIDRPRW \<longrightarrow> hv_cp15 h' False r = hv_cp15 h False r)"
proof -
  have "unat (gce_bin_end g - gce_bin_start g) \<le> 2 ^ 32" using unat_bound [of "gce_bin_end g - gce_bin_start g"] by simp
  then have "snd (memcpy (gce_bin_load g) (gce_bin_start g) (gce_bin_end g - gce_bin_start g) (hv_mem h)) =
      copied (gce_bin_load g) (gce_bin_start g) (unat (gce_bin_end g - gce_bin_start g)) (hv_mem h)"
    by (simp add: memcpy_copyn [OF apart] copyn_copied [OF _ apart])
  then show ?thesis
    using nm notrd by (simp add: ltzvisor_nsguest_create_def strcpy_name_def Let_def cp15_restore_to_def)
qed

theorem nsguest_create_witness:
  "\<exists>h'. ltzvisor_nsguest_create 0x1C002000 (nsguest_config 0x1C010000 0x1C010100) (demo_hv demo_hw) = Some (TRUE, h') \<and>
    hv_mem h' 0x00100007 = 7 \<and> hv_cp15 h' False TPIDRPRW = 0x1C002000"
proof -
  let ?g = "nsguest_config 0x1C010000 0x1C010100"
  have a: "region (gce_bin_load ?g) (unat (gce_bin_end ?g - gce_bin_start ?g)) \<inter>
      region (gce_bin_start ?g) (unat (gce_bin_end ?g - gce_bin_start ?g)) = {}"
    by (rule region_disjoint) (simp_all add: nsguest_config_def)
  have "length (gce_name ?g) < 30" "gce_trd_init ?g = 0" by (simp_all add: nsguest_config_def)
  from nsguest_create_correct [OF this a, of "0x1C002000" "demo_hv demo_hw"] obtain h' where
    h': "ltzvisor_nsguest_create 0x1C002000 ?g (demo_hv demo_hw) = Some (TRUE, h')"
    "hv_mem h' = copied (gce_bin_load ?g) (gce_bin_start ?g) (unat (gce_bin_end ?g - gce_bin_start ?g)) (hv_mem (demo_hv demo_hw))"
    "hv_cp15 h' False TPIDRPRW = 0x1C002000" by blast
  have "hv_mem h' 0x00100007 = 7"
    by (simp add: h'(2) nsguest_config_def copied_def region_def demo_hv_def)
  with h' show ?thesis by blast
qed

text \<open>On leaving Monitor mode for the Secure guest the processor is in Supervisor mode with IRQ
  and FIQ masked, and its stack pointer depends on the value r0 happens to hold; with r0 zero it
  is in the middle of the stack of 8192 bytes.\<close>

lemma mon_exit_state:
  "cmode (LTZVISOR_MON_EXIT st s) = SUPERVISOR_MODE \<and> bit (cpsr (LTZVISOR_MON_EXIT st s)) 6 \<and>
   bit (cpsr (LTZVISOR_MON_EXIT st s)) 7 \<and>
   regs (LTZVISOR_MON_EXIT st s) (Sp Svc) = st + push_bit 12 (regs s (R 0)) + 4096"
proof -
  have m: "((cpsr s AND NOT 0xFF) OR 0xD3) AND 0x1F = SUPERVISOR_MODE"
    by (simp only: bit.conj_disj_distrib2 and.assoc) simp
  have c: "cpsr (LTZVISOR_MON_EXIT st s) = (cpsr s AND NOT 0xFF) OR 0xD3"
    by (simp add: LTZVISOR_MON_EXIT_def Let_def wr_def)
  show ?thesis unfolding c cmode_def m
    using m by (simp add: LTZVISOR_MON_EXIT_def Let_def wr_def rd_def cmode_def bit_simps bit_numeral_word_iff)
qed

text \<open>C10: The assembly routine \<open>cp15_restore\<close>, run on a context in memory, has the effect the guest
  creation relies on: the Non-secure copies take the saved values, every banked Secure copy is
  untouched, memory is unchanged, and it returns to its caller in the Secure state.\<close>

theorem cp15_restore_refines:
  assumes mode: "cmode s \<noteq> FIQ_MODE"
    and dev: "periphbase s + 0x100 + 0x0C \<notin> words (regs s (R 0)) 20"
    and ctx: "load_words (regs s (R 0)) 20 (mem s) = map v cp15_regs"
    and s': "s' = exec cc cp15_restore s"
  shows "(\<forall>r. cp15 s' (r \<noteq> ACTLR) r = cp15_restore_to v (cp15 s) (r \<noteq> ACTLR) r) \<and>
    (\<forall>r. cp15 s' False r = cp15_restore_to v (cp15 s) False r) \<and>
    mem s' = mem s \<and> \<not> scr_ns s' \<and> pc s' = regs s (Lr (bank_of (cmode s)))"
proof -
  note e = cp15_restore_exec [OF mode dev s']
  have "r \<in> set cp15_regs" for r by (cases r) (simp_all add: cp15_regs_def)
  moreover have "map (\<lambda>r. cp15 s' (r \<noteq> ACTLR) r) cp15_regs = map v cp15_regs"
    using conjunct1 [OF e] unfolding ctx .
  then have "\<forall>r \<in> set cp15_regs. cp15 s' (r \<noteq> ACTLR) r = v r" by (simp only: map_eq_conv)
  ultimately have v: "cp15 s' (r \<noteq> ACTLR) r = v r" for r by blast
  from v [of ACTLR] have "cp15 s' False ACTLR = v ACTLR" by simp
  with v e show ?thesis by (auto simp: cp15_restore_to_def)
qed

theorem cp15_restore_witness:
  "let d = demo_cpu 0x1C001000 0; s = d\<lparr>regs := (regs d)(R 0 := 0x2000), mem := (\<lambda>x. if x = 0x2004 then 3 else 9)\<rparr>;
       s' = exec idle_env cp15_restore s
   in cp15 s' True SCTLR = 3 \<and> cp15 s' False SCTLR = 0x1C002000 \<and> cp15 s' False ACTLR = 9"
proof -
  let ?d = "demo_cpu 0x1C001000 0"
  let ?s = "?d\<lparr>regs := (regs ?d)(R 0 := 0x2000), mem := (\<lambda>x. if x = 0x2004 then 3 else 9)\<rparr>"
  let ?v = "(\<lambda>_. 9)(SCTLR := 3)" and ?s' = "exec idle_env cp15_restore ?s"
  have m: "cmode ?s \<noteq> FIQ_MODE" by (simp add: demo_cpu_def cmode_def)
  have d: "periphbase ?s + 0x100 + 0x0C \<notin> words (regs ?s (R 0)) 20"
    by (rule notin_words) (simp_all add: demo_cpu_def)
  have c: "load_words (regs ?s (R 0)) 20 (mem ?s) = map ?v cp15_regs" by (simp add: cp15_regs_def)
  note t = cp15_restore_refines [OF m d c refl, of idle_env]
  have "cp15 ?s' (SCTLR \<noteq> ACTLR) SCTLR = cp15_restore_to ?v (cp15 ?s) (SCTLR \<noteq> ACTLR) SCTLR"
    "cp15 ?s' False SCTLR = cp15_restore_to ?v (cp15 ?s) False SCTLR"
    "cp15 ?s' False ACTLR = cp15_restore_to ?v (cp15 ?s) False ACTLR"
    by (fact spec [OF conjunct1 [OF t]] spec [OF conjunct1 [OF conjunct2 [OF t]]])+
  then have "cp15 ?s' True SCTLR = 3 \<and> cp15 ?s' False SCTLR = cp15 ?d False SCTLR \<and> cp15 ?s' False ACTLR = 9"
    by (simp only: cp15_restore_to_def) simp
  then show ?thesis by (simp only: Let_def) (simp add: demo_cpu_def)
qed

end
