(* ===== verification/Sguest.thy ===== *)
theory Sguest
  imports Ltzvisor Ttc Spi Printk "HOL-Library.Sublist"
begin

unbundle bit_operations_syntax

text \<open>
  The Secure guest of the ZedBoard, \<^verbatim>\<open>src/src/s_guest/BareApp\<close>: it reads bytes from a sensor on SPI 1 and
  publishes the last one in the memory of the Non-secure guest, yielding the processor after each
  round. The hardware set-up (\<^verbatim>\<open>portable/hw_zynq.c\<close>) and the statements of \<open>main\<close> (\<^verbatim>\<open>blink.c\<close>) are functions on
  the devices the guest drives; \<open>sg_step\<close> interleaves the statements of the endless loop with the
  interrupts the monitor dispatches and with what the Non-secure world does while it runs.
\<close>

section \<open>State\<close>

datatype sg_pc = At_Send | At_Read | At_Copy | At_Print | At_Yield

record sguest =
  sg_pc :: sg_pc
  sg_ttcs :: "Zynq_Ttc list"
  sg_dist :: Interrupt_Distributor
  sg_io :: io
  sg_spi :: SPI_Zynq
  sg_uart :: Uart_Zynq
  sg_mem :: mem

abbreviation TTC0 :: u32 where "TTC0 \<equiv> 0"
abbreviation TTCx_1 :: u32 where "TTCx_1 \<equiv> 0"
abbreviation TTC1_TTCx_1_INTERRUPT :: u32 where "TTC1_TTCx_1_INTERRUPT \<equiv> 69"

text \<open>\<open>0x100000 + 0x61A80\<close>, in the load area of the Non-secure guest.\<close>

abbreviation sensor_data :: u32 where "sensor_data \<equiv> 0x161A80"

section \<open>Hardware\<close>

text \<open>Enabling, targeting and prioritising one interrupt; the returned old priority is not used.\<close>

definition irq_setup :: "u32 \<Rightarrow> u32 \<Rightarrow> Interrupt_Distributor \<Rightarrow> Interrupt_Distributor option" where
  "irq_setup i prio d =
     do { d \<leftarrow> interrupt_enable i TRUE d;
          d \<leftarrow> interrupt_target_set i 0 1 d;
          (old, d) \<leftarrow> interrupt_priority_set i prio d;
          Some d }"

definition hw_init :: "sguest \<Rightarrow> sguest option" where
  "hw_init s =
     do { let s = s\<lparr>sg_ttcs := snd (ttc_init zedboard_ttc TTC0 TTCx_2 INTERVAL (sg_ttcs s))\<rparr>;
          d \<leftarrow> irq_setup TTC0_TTCx_2_INTERRUPT 5 (sg_dist s);
          d \<leftarrow> irq_setup SPI_1_INTERRUPT 4 d;
          Some (s\<lparr>sg_dist := d\<rparr>) }"

definition hw_init_2 :: "sguest \<Rightarrow> sguest option" where
  "hw_init_2 s =
     do { let s = s\<lparr>sg_ttcs := snd (ttc_init zedboard_ttc TTC1 TTCx_1 INTERVAL (sg_ttcs s))\<rparr>;
          d \<leftarrow> irq_setup TTC1_TTCx_1_INTERRUPT 2 (sg_dist s);
          Some (s\<lparr>sg_dist := d\<rparr>) }"

definition tick_set :: "u32 \<Rightarrow> sguest \<Rightarrow> u32 \<times> sguest" where
  "tick_set time s =
     (let (ret, ts) = ttc_request zedboard_ttc TTC0 TTCx_2 time (sg_ttcs s);
          ts = snd (ttc_enable TTC0 TTCx_2 ts)
      in (ret, s\<lparr>sg_ttcs := ts\<rparr>))"

definition tick_set_2 :: "u32 \<Rightarrow> sguest \<Rightarrow> u32 \<times> sguest" where
  "tick_set_2 time s =
     (let (ret, ts) = ttc_request zedboard_ttc TTC1 TTCx_1 time (sg_ttcs s);
          ts = snd (ttc_enable TTC1 TTCx_1 ts)
      in (ret, s\<lparr>sg_ttcs := ts\<rparr>))"

text \<open>The counter of the timer runs while it is polled: \<open>ts n\<close> are the controllers at read \<open>n\<close>. The result is
  the number of reads.\<close>

definition time_of_timer_1 :: "Zynq_Ttc list \<Rightarrow> u32 option" where
  "time_of_timer_1 ts = read_ttc TTC1 TTCx_2 ts"

partial_function (option) wait_until :: "(nat \<Rightarrow> Zynq_Ttc list) \<Rightarrow> u32 \<Rightarrow> nat \<Rightarrow> nat option" where
  "wait_until ts now n =
     (if now < 630
      then do { now \<leftarrow> time_of_timer_1 (ts n); wait_until ts now (Suc n) }
      else Some n)"

definition wait_until_20ms :: "(nat \<Rightarrow> Zynq_Ttc list) \<Rightarrow> nat option" where
  "wait_until_20ms ts = wait_until ts 0 0"

section \<open>Interrupts\<close>

definition sfiq_handlers :: "(u32 \<Rightarrow> sguest \<Rightarrow> sguest option) option list" where
  "sfiq_handlers = replicate NO_OF_INTERRUPTS_IMPLEMENTED None"

definition sFIQ_handler :: "u32 \<Rightarrow> sguest \<Rightarrow> sguest option" where
  "sFIQ_handler interrupt s =
     do { h \<leftarrow> arr_get sfiq_handlers (unat interrupt);
          (case h of None \<Rightarrow> Some s | Some f \<Rightarrow> f interrupt s) }"

text \<open>The handlers of the monitor's table on the devices of the guest.\<close>

fun call_handler :: "(nat \<Rightarrow> Zynq_Ttc \<Rightarrow> Zynq_Ttc) \<Rightarrow> tHandler \<Rightarrow> u32 \<Rightarrow> sguest \<Rightarrow> sguest option" where
  "call_handler clr ttc_interrupt_clear_h i s = Some (s\<lparr>sg_ttcs := snd (ttc_interrupt_clear zedboard_ttc clr i (sg_ttcs s))\<rparr>)"
| "call_handler clr SPI_1_irq_handler_h i s = Some (s\<lparr>sg_spi := SPI_1_irq_handler (sg_spi s)\<rparr>)"

section \<open>The application\<close>

text \<open>\<open>Secure guest running, address %x\n\<close> and \<open>value %d\n\<close>.\<close>

definition msg_running :: "u8 list" where
  "msg_running = map of_char ''Secure guest running, address %x'' @ [0x0a]"

definition msg_value :: "u8 list" where
  "msg_value = map of_char ''value %d'' @ [0x0a]"

definition load32 :: "mem \<Rightarrow> u32 \<Rightarrow> u32" where
  "load32 m a = ucast (m a) OR push_bit 8 (ucast (m (a + 1))) OR push_bit 16 (ucast (m (a + 2))) OR push_bit 24 (ucast (m (a + 3)))"

text \<open>\<open>main\<close> before its loop; \<open>lsb\<close> is the address of the local variable, \<open>buf\<close> that of the buffer of \<open>printk\<close>.\<close>

definition main_init :: "u32 \<Rightarrow> u32 \<Rightarrow> sguest \<Rightarrow> sguest option" where
  "main_init lsb buf s =
     do { (n, u) \<leftarrow> printk (sg_mem s) buf msg_running [sensor_data] (sg_uart s);
          let s = s\<lparr>sg_uart := u\<rparr>;
          s \<leftarrow> hw_init s;
          let (ret, s) = tick_set 1000000 s;
          let s = s\<lparr>sg_io := SPI_1_Reset (sg_io s)\<rparr>;
          let s = s\<lparr>sg_io := SPI_1_ClockEnable (sg_io s)\<rparr>;
          let s = s\<lparr>sg_io := SPI_1_SignalRoute (sg_io s)\<rparr>;
          let s = s\<lparr>sg_spi := SPI_1_Config (sg_spi s)\<rparr>;
          let s = s\<lparr>sg_spi := SPI_1_Enable (sg_spi s)\<rparr>;
          let s = s\<lparr>sg_mem := (sg_mem s)(lsb := 0)\<rparr>;
          Some (s\<lparr>sg_pc := At_Send\<rparr>) }"

text \<open>The statements of the loop body. The counter \<open>i\<close> is never read, the condition \<open>temp || !temp\<close> is true, and the
  barrier orders accesses that the model already takes in program order.\<close>

definition do_send :: "sguest \<Rightarrow> sguest" where
  "do_send s = s\<lparr>sg_spi := snd (SPI1_SendData 0xbc (sg_spi s)), sg_pc := At_Read\<rparr>"

definition do_read :: "u32 \<Rightarrow> sguest \<Rightarrow> u8 option \<times> sguest" where
  "do_read lsb s =
     (let (data, p) = SPI1_ReadData (sg_spi s);
          m = (case data of None \<Rightarrow> sg_mem s | Some b \<Rightarrow> (sg_mem s)(lsb := b))
      in (data, s\<lparr>sg_spi := p, sg_mem := m, sg_pc := At_Copy\<rparr>))"

definition do_copy :: "u32 \<Rightarrow> sguest \<Rightarrow> sguest" where
  "do_copy lsb s = s\<lparr>sg_mem := snd (memcpy sensor_data lsb 1 (sg_mem s)), sg_pc := At_Print\<rparr>"

definition do_print :: "u32 \<Rightarrow> sguest \<Rightarrow> sguest option" where
  "do_print buf s =
     do { (n, u) \<leftarrow> printk (sg_mem s) buf msg_value [load32 (sg_mem s) sensor_data] (sg_uart s);
          Some (s\<lparr>sg_uart := u, sg_pc := At_Yield\<rparr>) }"

text \<open>While the Non-secure guest has the processor it may change every byte of its memory: on the
  ZedBoard the first seven segments of 64 MB (\<open>board_init_zedboard\<close>).\<close>

abbreviation NS_LIMIT :: u32 where "NS_LIMIT \<equiv> 0x1C000000"

datatype sg_event = Stmt | Read "u8 option" | Fiq u32 nat

inductive sg_step :: "u32 \<Rightarrow> u32 \<Rightarrow> (nat \<Rightarrow> Zynq_Ttc \<Rightarrow> Zynq_Ttc) \<Rightarrow> sguest \<Rightarrow> sg_event \<Rightarrow> sguest \<Rightarrow> bool"
  for lsb buf clr where
  sg_send: "sg_pc s = At_Send \<Longrightarrow> sg_step lsb buf clr s Stmt (do_send s)"
| sg_read: "sg_pc s = At_Read \<Longrightarrow> do_read lsb s = (r, s') \<Longrightarrow> sg_step lsb buf clr s (Read r) s'"
| sg_copy: "sg_pc s = At_Copy \<Longrightarrow> sg_step lsb buf clr s Stmt (do_copy lsb s)"
| sg_print: "sg_pc s = At_Print \<Longrightarrow> do_print buf s = Some s' \<Longrightarrow> sg_step lsb buf clr s Stmt s'"
| sg_yield: "sg_pc s = At_Yield \<Longrightarrow> \<forall>a \<ge> NS_LIMIT. m a = sg_mem s a \<Longrightarrow>
    sg_step lsb buf clr s Stmt (s\<lparr>sg_mem := m, sg_pc := At_Send\<rparr>)"
| sg_fiq: "fiq_handler (call_handler clr) i s = Some s' \<Longrightarrow>
    sg_step lsb buf clr s (Fiq i (rx_count (sg_spi s))) s'"

inductive sg_run :: "u32 \<Rightarrow> u32 \<Rightarrow> (nat \<Rightarrow> Zynq_Ttc \<Rightarrow> Zynq_Ttc) \<Rightarrow> sguest \<Rightarrow> sg_event list \<Rightarrow> sguest \<Rightarrow> bool"
  for lsb buf clr where
  sg_run_refl: "sg_run lsb buf clr s [] s"
| sg_run_step: "sg_run lsb buf clr s es s1 \<Longrightarrow> sg_step lsb buf clr s1 e s2 \<Longrightarrow> sg_run lsb buf clr s (es @ [e]) s2"

text \<open>The bytes the loop took from the buffer, and the bytes the controller delivered.\<close>

fun taken :: "sg_event list \<Rightarrow> u8 list" where
  "taken [] = []"
| "taken (Read (Some b) # es) = b # taken es"
| "taken (e # es) = taken es"

definition received :: "SPI_Zynq \<Rightarrow> SPI_Zynq \<Rightarrow> u8 list" where
  "received p q = map (\<lambda>i. ucast (rxd_register p i)) [rxd_reads p..<rxd_reads q]"

section \<open>The path of a byte\<close>

lemma taken_append: "taken (es @ fs) = taken es @ taken fs"
  by (induction es rule: taken.induct) simp_all

lemma received_append:
  assumes "rxd_register q = rxd_register p" "rxd_reads p \<le> rxd_reads q" "rxd_reads q \<le> rxd_reads r"
  shows "received p r = received p q @ received q r"
  using assms upt_add_eq_append [of "rxd_reads p" "rxd_reads q" "rxd_reads r - rxd_reads q"] by (simp add: received_def)

lemma received_refl: "rxd_reads q = rxd_reads p \<Longrightarrow> received p q = []"
  by (simp add: received_def)

lemma SendData_rx: "same_rx p (snd (SPI1_SendData c p))"
  by (simp add: SPI1_SendData_def same_rx_def Let_def)

lemma ReadData_rx:
  "rxd_register (snd (SPI1_ReadData p)) = rxd_register p" "rxd_reads (snd (SPI1_ReadData p)) = rxd_reads p"
  by (simp_all add: SPI1_ReadData_def rx_get_def Let_def)

lemma ReadData_taken:
  assumes "rx_wf p" "SPI1_ReadData p = (r, q)"
  shows "rx_wf q" "taken [Read r] @ rx_contents q = rx_contents p"
proof -
  show "rx_wf q" using spi.get_wf [OF assms(1)] assms(2) by simp
  show "taken [Read r] @ rx_contents q = rx_contents p"
  proof (cases "rx_contents p")
    case Nil
    then show ?thesis using spi.get_empty [OF assms(1)] assms(2) by simp
  next
    case (Cons x xs)
    then show ?thesis using spi.get_first [OF assms(1)] assms(2) by simp
  qed
qed

text \<open>A dispatched interrupt runs at most one handler; only the SPI handler touches the buffer, none the memory.\<close>

lemma fiq_effect:
  assumes "fiq_handler (call_handler clr) i s = Some s'"
  shows "sg_pc s' = sg_pc s \<and> sg_mem s' = sg_mem s \<and> (sg_spi s' = sg_spi s \<or> sg_spi s' = SPI_1_irq_handler (sg_spi s))"
proof -
  have "unat i < 96" using assms by (auto simp: fiq_handler_def arr_get_def split: if_splits)
  with assms show ?thesis by (auto simp: fiq_handler_def nth_fiq_handlers split: if_splits option.splits)
qed

definition roomy :: "sg_event \<Rightarrow> bool" where
  "roomy e = (case e of Fiq i n \<Rightarrow> n \<le> 121 | _ \<Rightarrow> True)"

text \<open>Each step takes bytes from the front of the buffer and appends the bytes it received, in order.\<close>

lemma step_rx:
  assumes "sg_step lsb buf clr s e s'" "rx_wf (sg_spi s)"
  shows "rx_wf (sg_spi s') \<and> rxd_register (sg_spi s') = rxd_register (sg_spi s) \<and>
    rxd_reads (sg_spi s) \<le> rxd_reads (sg_spi s') \<and>
    (\<exists>k. taken [e] @ rx_contents (sg_spi s') = rx_contents (sg_spi s) @ take k (received (sg_spi s) (sg_spi s')) \<and>
      (roomy e \<longrightarrow> length (received (sg_spi s) (sg_spi s')) \<le> k))"
  using assms(1)
proof cases
  case sg_send
  with SendData_rx [of "sg_spi s" "0xbc"] assms(2) same_rx_contents [OF SendData_rx [of "sg_spi s" "0xbc"]]
  show ?thesis by (auto simp: do_send_def same_rx_def received_refl)
next
  case (sg_read r)
  obtain q where q: "SPI1_ReadData (sg_spi s) = (r, q)" "sg_spi s' = q"
    using sg_read(3) by (auto simp: do_read_def Let_def split: prod.splits)
  from ReadData_taken [OF assms(2) q(1)] ReadData_rx [of "sg_spi s"] show ?thesis
    unfolding q(2) sg_read(1) by (auto simp: q(1) received_refl)
next
  case sg_copy
  then show ?thesis using assms(2) by (auto simp: do_copy_def received_refl)
next
  case sg_print
  then have "sg_spi s' = sg_spi s" by (auto simp: do_print_def split: Option.bind_splits)
  then show ?thesis using assms(2) by (auto simp: received_refl sg_print(1))
next
  case (sg_yield m)
  then show ?thesis using assms(2) by (auto simp: received_refl)
next
  case (sg_fiq i)
  from fiq_effect [OF sg_fiq(2)] consider "sg_spi s' = sg_spi s" | "sg_spi s' = SPI_1_irq_handler (sg_spi s)" by blast
  then show ?thesis
  proof cases
    case 1
    then show ?thesis using assms(2) by (auto simp: received_refl sg_fiq(1))
  next
    case 2
    from irq_handler_received [OF assms(2)] obtain n where
      n: "rxd_reads (SPI_1_irq_handler (sg_spi s)) = rxd_reads (sg_spi s) + n" "n \<le> 6"
        "rx_contents (SPI_1_irq_handler (sg_spi s)) = rx_contents (sg_spi s) @ take (127 - rx_count (sg_spi s))
          (map (\<lambda>i. ucast (rxd_register (sg_spi s) i)) [rxd_reads (sg_spi s)..<rxd_reads (sg_spi s) + n])"
      and w: "rx_wf (SPI_1_irq_handler (sg_spi s))" "rxd_register (SPI_1_irq_handler (sg_spi s)) = rxd_register (sg_spi s)"
      by blast
    have "received (sg_spi s) (SPI_1_irq_handler (sg_spi s)) =
        map (\<lambda>i. ucast (rxd_register (sg_spi s) i)) [rxd_reads (sg_spi s)..<rxd_reads (sg_spi s) + n]"
      by (simp add: received_def n(1))
    with n w show ?thesis unfolding 2 sg_fiq(1)
      by (intro conjI exI [of _ "127 - rx_count (sg_spi s)"]) (auto simp: roomy_def)
  qed
qed

text \<open>The variable \<open>lsb\<close>, in Secure memory, holds the last byte taken; the statement before the message has copied it
  to the shared location.\<close>

lemma copy_byte:
  assumes "lsb \<noteq> sensor_data"
  shows "snd (memcpy sensor_data lsb 1 m) = m(sensor_data := m lsb)"
proof -
  have "region p 1 = {p}" for p using region_Suc [of 0 p] by simp
  then have "region sensor_data (unat 1) \<inter> region lsb (unat (1 :: u32)) = {}" using assms by simp
  from memcpy_copyn [OF this] show ?thesis by (simp add: fun_upd_def)
qed

lemma step_mem:
  assumes "sg_step lsb buf clr s e s'" "NS_LIMIT \<le> lsb"
  shows "sg_mem s' lsb = last (sg_mem s lsb # taken [e]) \<and>
    (sg_pc s' = At_Print \<longrightarrow> sg_mem s' sensor_data = sg_mem s' lsb \<or> sg_pc s = At_Print \<and> sg_mem s' = sg_mem s)"
  using assms(1)
proof cases
  case (sg_read r)
  then show ?thesis by (cases r) (auto simp: do_read_def Let_def split: prod.splits)
next
  case sg_copy
  have "lsb \<noteq> sensor_data" using assms(2) by auto
  then show ?thesis using sg_copy by (simp add: do_copy_def copy_byte)
next
  case (sg_fiq i)
  then show ?thesis using fiq_effect [OF sg_fiq(2)] by auto
qed (use assms(2) in \<open>auto simp: do_send_def do_print_def split: Option.bind_splits\<close>)

section \<open>Interrupts of the guest\<close>

lemma irq_setup_ok:
  assumes wf: "dist_wf d" and i: "implemented i"
  shows "\<exists>d'. irq_setup i p d = Some d' \<and> dist_wf d' \<and> ICDISRx d' = ICDISRx d \<and>
    ICDISERx d' = (ICDISERx d)[unat i div 32 := bit_at (i mod 32)] \<and>
    (\<forall>j. implemented j \<longrightarrow> priority_of d' j = (if j = i then p AND 0xF else priority_of d j)) \<and>
    (\<forall>j c. implemented j \<and> c < 8 \<longrightarrow> targets d' (j, c) = (j = i \<and> c = 0 \<or> targets d (j, c)))"
proof -
  let ?d1 = "d\<lparr>ICDISERx := (ICDISERx d)[unat i div 32 := bit_at (i mod 32)]\<rparr>"
  have u: "unat i < 96" using i by (simp add: unat_lt_96)
  have e: "interrupt_enable i TRUE d = Some ?d1" using wf u by (simp add: interrupt_enable_def Let_def dist_wf_def)
  have w1: "dist_wf ?d1" using wf by (simp add: dist_wf_def)
  obtain d2 where t: "interrupt_target_set i 0 1 ?d1 = Some d2" using target_set_eq [OF w1 i, of 0 1] by simp
  then have d2: "d2 = ?d1\<lparr>ICDIPTRx := ICDIPTRx d2\<rparr>" "dist_wf d2"
    using target_set_eq [OF w1 i, of 0 1] w1 by (auto simp: dist_wf_def)
  obtain old d3 where p: "interrupt_priority_set i p d2 = Some (old, d3)" using priority_set_eq [OF d2(2) i] by simp
  then have d3: "d3 = d2\<lparr>ICDIPRx := ICDIPRx d3\<rparr>" "dist_wf d3"
    using priority_set_eq [OF d2(2) i, of p] d2(2) by (auto simp: dist_wf_def)
  have "priority_of d3 j = (if j = i then p AND 0xF else priority_of d j)" if "implemented j" for j
  proof -
    have "priority_of d2 j = priority_of d j" by (subst d2(1)) (simp add: priority_of_def)
    then show ?thesis using priority_of_set [OF d2(2) p that] by simp
  qed
  moreover have "targets d3 (j, c) = (j = i \<and> c = 0 \<or> targets d (j, c))" if "implemented j" "c < 8" for j c
    using targets_set [OF w1 t that] by (subst d3(1)) (auto simp: targets_def)
  moreover have "ICDISRx d3 = ICDISRx d" "ICDISERx d3 = (ICDISERx d)[unat i div 32 := bit_at (i mod 32)]"
    by (subst d3(1), subst d2(1), simp)+
  ultimately show ?thesis using e t p d3(2) by (auto simp: irq_setup_def)
qed

text \<open>The tick of the guest.\<close>

lemma tick_runs:
  assumes "ttcs_wf ts"
  shows "\<exists>t. tick_set 1000000 (s\<lparr>sg_ttcs := snd (ttc_init zedboard_ttc TTC0 TTCx_2 INTERVAL ts)\<rparr>) =
      (TRUE, s\<lparr>sg_ttcs := [t, ts ! 1]\<rparr>) \<and> interv_cnt t ! 1 = 27100 \<and> clk_cntrl t ! 1 AND 0x17 = 0x17 \<and>
    interrupt_en t ! 1 = 1 \<and> cnt_cntrl t ! 1 = 0x32"
proof -
  obtain a b where ts: "ts = [a, b]" using assms by (auto simp: ttcs_wf_def numeral_2_eq_2 length_Suc_conv)
  have l: "length (clk_cntrl a) = 3" "length (cnt_cntrl a) = 3" "length (interv_cnt a) = 3" "length (interrupt_en a) = 3"
    using assms by (simp_all add: ts ttcs_wf_def ttc_wf_def)
  have ps: "(w OR 0x17) AND 0x17 = (0x17 :: u32)" for w by (rule or_and_absorb) simp
  let ?t = "set_cnt_cntrl 1 0x32 (set_interrupt_en 1 1 (set_interv_cnt 1 27100
      (set_clk_cntrl 1 (clk_cntrl a ! 1 AND NOT 1 OR 0x17) a)))"
  show ?thesis
    by (rule exI [of _ ?t]) (simp add: ps ts l tick_set_def ttc_init_def ttc_init_regs_def ttc_request_def ttc_request_regs_def ttc_enable_def on_ttc_def
        request_ticks_def zedboard_ttc_def ttc_sets Let_def)
qed

text \<open>\<open>main\<close> enters its loop with an empty buffer.\<close>

lemma main_init_ready:
  assumes "main_init lsb buf s = Some s'" "length (RX_BUFFER (sg_spi s)) = 256"
  shows "sg_pc s' = At_Send \<and> rx_wf (sg_spi s') \<and> rx_contents (sg_spi s') = [] \<and> sg_mem s' lsb = 0"
  using assms
  by (auto simp: main_init_def hw_init_def tick_set_def SPI_1_Config_def SPI_1_Enable_def Let_def split_beta rx_wf_def
      rx_contents_def rx_count_def ring_def split: Option.bind_splits)

text \<open>The wait ends at the first read of the counter that is at least 630.\<close>

lemma wait_until_returns:
  "time_of_timer_1 (ts (n + k)) = Some v \<Longrightarrow> \<not> v < 630 \<Longrightarrow> \<forall>m < k. \<exists>w < 630. time_of_timer_1 (ts (n + m)) = Some w \<Longrightarrow>
    now < 630 \<Longrightarrow> wait_until ts now n = Some (n + k + 1)"
proof (induction k arbitrary: now n)
  case 0
  then show ?case by (simp add: wait_until.simps [of ts now] wait_until.simps [of ts v])
next
  case (Suc k)
  from Suc.prems(3) obtain w where w: "w < 630" "time_of_timer_1 (ts n) = Some w" by force
  have "\<forall>m < k. \<exists>w < 630. time_of_timer_1 (ts (Suc n + m)) = Some w"
    using Suc.prems(3) by (metis Suc_less_eq add_Suc_shift)
  then have "wait_until ts w (Suc n) = Some (Suc n + k + 1)"
    using Suc.IH [of "Suc n" w] Suc.prems(1,2) w(1) by (simp add: add.commute)
  then show ?case using Suc.prems(4) w(2) by (simp add: wait_until.simps [of ts now])
qed

section \<open>Properties\<close>

text \<open>C18: After the hypervisor has initialised the ZedBoard, the set-up of the Secure guest succeeds: the tick
  timer runs in interval mode with the count of one second, its interrupt and that of the sensor are
  enabled and delivered to the first core with priorities 5 and 4, and both are Secure, so that they
  reach the monitor; every other interrupt keeps its world, priority and targets. The second timer
  that \<open>hw_init_2\<close> would set up interrupts the Non-secure world instead.\<close>

theorem sguest_devices:
  assumes hv: "length (hw_uarts h) = 2" "dist_wf (hw_dist h)" "gic_id_ok (hw_dist h)"
      "\<exists>k. ICCIAR (hw_icc h) (iar_reads (hw_icc h) + k) AND 0x3FF = 1023"
      "ltzvisor_hw_init zedboard h = Some (ret, h')"
    and s: "sg_dist s = hw_dist h'" "ttcs_wf (sg_ttcs s)"
  shows "\<exists>s1 s2 t. hw_init s = Some s1 \<and> tick_set 1000000 s1 = (TRUE, s2) \<and>
    sg_ttcs s2 = [t, sg_ttcs s ! 1] \<and> interv_cnt t ! 1 = 27100 \<and> cnt_cntrl t ! 1 = 0x32 \<and> interrupt_en t ! 1 = 1 \<and>
    (\<forall>j < 96. is_ns (sg_dist s2) j = is_ns (hw_dist h') j \<and>
      priority_of (sg_dist s2) j = (if j = 43 then 5 else if j = 81 then 4 else priority_of (hw_dist h') j) \<and>
      (\<forall>c < 8. targets (sg_dist s2) (j, c) = (j \<in> {43, 81} \<and> c = 0 \<or> targets (hw_dist h') (j, c)))) \<and>
    \<not> is_ns (sg_dist s2) 43 \<and> \<not> is_ns (sg_dist s2) 81 \<and> is_ns (sg_dist s2) 69 \<and>
    ICDISERx (sg_dist s2) ! 1 = bit_at 11 \<and> ICDISERx (sg_dist s2) ! 2 = bit_at 17"
proof -
  from hw_init_ok [OF hv(1-4), of zedboard] hv(5) have h': "dist_wf (hw_dist h')"
    "\<And>j. implemented j \<Longrightarrow> is_ns (hw_dist h') j = (case map_of (rev (security_calls zedboard)) j of
       Some s \<Rightarrow> s = Int_NS | None \<Rightarrow> 32 \<le> unat j \<or> is_ns (hw_dist h) j)" by auto
  have imp: "implemented 43" "implemented 81" "implemented 69" by simp_all
  from irq_setup_ok [OF h'(1) imp(1), of 5] obtain d1 where
    d1: "irq_setup 43 5 (hw_dist h') = Some d1" "dist_wf d1" "ICDISRx d1 = ICDISRx (hw_dist h')"
      "ICDISERx d1 = (ICDISERx (hw_dist h'))[unat (43 :: u32) div 32 := bit_at (43 mod 32)]"
      "\<And>j. implemented j \<Longrightarrow> priority_of d1 j = (if j = 43 then 5 AND 0xF else priority_of (hw_dist h') j)"
      "\<And>j c. implemented j \<Longrightarrow> c < 8 \<Longrightarrow> targets d1 (j, c) = (j = 43 \<and> c = 0 \<or> targets (hw_dist h') (j, c))" by blast
  from irq_setup_ok [OF d1(2) imp(2), of 4] obtain d2 where
    d2: "irq_setup 81 4 d1 = Some d2" "dist_wf d2" "ICDISRx d2 = ICDISRx d1"
      "ICDISERx d2 = (ICDISERx d1)[unat (81 :: u32) div 32 := bit_at (81 mod 32)]"
      "\<And>j. implemented j \<Longrightarrow> priority_of d2 j = (if j = 81 then 4 AND 0xF else priority_of d1 j)"
      "\<And>j c. implemented j \<Longrightarrow> c < 8 \<Longrightarrow> targets d2 (j, c) = (j = 81 \<and> c = 0 \<or> targets d1 (j, c))" by blast
  let ?s = "s\<lparr>sg_dist := d2\<rparr>"
  let ?s1 = "?s\<lparr>sg_ttcs := snd (ttc_init zedboard_ttc TTC0 TTCx_2 INTERVAL (sg_ttcs s))\<rparr>"
  have i: "hw_init s = Some ?s1" using d1(1) d2(1) s(1) by (simp add: hw_init_def)
  from tick_runs [OF s(2), of ?s] obtain t where t: "tick_set 1000000 ?s1 = (TRUE, ?s\<lparr>sg_ttcs := [t, sg_ttcs s ! 1]\<rparr>)"
    "interv_cnt t ! 1 = 27100" "cnt_cntrl t ! 1 = 0x32" "interrupt_en t ! 1 = 1" by blast
  have ns: "is_ns d2 j = is_ns (hw_dist h') j" for j by (simp add: is_ns_def d1(3) d2(3))
  have sec: "\<not> is_ns (hw_dist h') 43" "\<not> is_ns (hw_dist h') 81" "is_ns (hw_dist h') 69"
    using h'(2) [OF imp(1)] h'(2) [OF imp(2)] h'(2) [OF imp(3)] by simp_all
  have "ICDISERx d2 ! 1 = bit_at 11" "ICDISERx d2 ! 2 = bit_at 17"
    using h'(1) by (simp_all add: d1(4) d2(4) dist_wf_def)
  moreover have "priority_of d2 j = (if j = 43 then 5 else if j = 81 then 4 else priority_of (hw_dist h') j)" if "j < 96" for j
    using d1(5) [OF that] d2(5) [OF that] by auto
  moreover have "targets d2 (j, c) = (j \<in> {43, 81} \<and> c = 0 \<or> targets (hw_dist h') (j, c))" if "j < 96" "c < 8" for j c
    using d1(6) [OF that] d2(6) [OF that] by auto
  ultimately show ?thesis using i t ns sec by (intro exI [of _ ?s1] exI [of _ "?s\<lparr>sg_ttcs := [t, sg_ttcs s ! 1]\<rparr>"] exI [of _ t]) simp
qed

definition demo_sguest :: "Interrupt_Distributor \<Rightarrow> sguest" where
  "demo_sguest d = \<lparr>sg_pc = At_Send, sg_ttcs = [sample_ttc, sample_ttc], sg_dist = d, sg_io = \<lparr>io_mem = (\<lambda>_. 0), io_log = []\<rparr>,
     sg_spi = idle_spi (\<lambda>_. 0x10), sg_uart = idle_uart (\<lambda>_. 0), sg_mem = (\<lambda>_. 0)\<rparr>"

theorem sguest_devices_witness:
  "\<exists>h' s1 s2. ltzvisor_hw_init zedboard demo_hw = Some (TRUE, h') \<and> hw_init (demo_sguest (hw_dist h')) = Some s1 \<and>
     tick_set 1000000 s1 = (TRUE, s2) \<and> \<not> is_ns (sg_dist s2) 43 \<and> is_ns (sg_dist s2) 69 \<and> priority_of (sg_dist s2) 81 = 4"
proof -
  have p: "length (hw_uarts demo_hw) = 2" "dist_wf (hw_dist demo_hw)" "gic_id_ok (hw_dist demo_hw)"
    "\<exists>k. ICCIAR (hw_icc demo_hw) (iar_reads (hw_icc demo_hw) + k) AND 0x3FF = 1023"
    using reset_dist_wf by (simp_all add: demo_hw_def gic_id_ok_def reset_dist_def idle_icc_def)
  from hw_init_ok [OF p, of zedboard] obtain h' where h': "ltzvisor_hw_init zedboard demo_hw = Some (TRUE, h')" by blast
  have "sg_dist (demo_sguest (hw_dist h')) = hw_dist h'" "ttcs_wf (sg_ttcs (demo_sguest (hw_dist h')))"
    using sample_ttcs_wf by (simp_all add: demo_sguest_def)
  from sguest_devices [OF p h' this] obtain s1 s2 where
    "hw_init (demo_sguest (hw_dist h')) = Some s1" "tick_set 1000000 s1 = (TRUE, s2)" "\<not> is_ns (sg_dist s2) 43" "is_ns (sg_dist s2) 69"
    "\<And>j. j < 96 \<Longrightarrow> priority_of (sg_dist s2) j = (if j = 43 then 5 else if j = 81 then 4 else priority_of (hw_dist h') j)" by blast
  then show ?thesis using h' by fastforce
qed

text \<open>C17: In every interleaving of the loop with interrupts and with the Non-secure world, the bytes the Secure guest
  takes, followed by those still buffered, are a subsequence of the bytes the sensor delivered, in
  their order: none is invented, repeated or reordered, and none is lost if each interrupt finds room for
  six. When the guest reports, the shared location holds the last byte taken, and what
  the Non-secure world does to its memory never reaches that byte's variable.\<close>

theorem sensor_stream:
  assumes run: "sg_run lsb buf clr s es s'" and lsb: "NS_LIMIT \<le> lsb" and wf: "rx_wf (sg_spi s)" and pc: "sg_pc s \<noteq> At_Print"
  shows "rx_wf (sg_spi s') \<and>
    subseq (taken es @ rx_contents (sg_spi s')) (rx_contents (sg_spi s) @ received (sg_spi s) (sg_spi s')) \<and>
    ((\<forall>e \<in> set es. roomy e) \<longrightarrow>
      taken es @ rx_contents (sg_spi s') = rx_contents (sg_spi s) @ received (sg_spi s) (sg_spi s')) \<and>
    sg_mem s' lsb = last (sg_mem s lsb # taken es) \<and>
    (sg_pc s' = At_Print \<longrightarrow> sg_mem s' sensor_data = last (sg_mem s lsb # taken es))"
proof -
  have "rx_wf (sg_spi s') \<and> rxd_register (sg_spi s') = rxd_register (sg_spi s) \<and> rxd_reads (sg_spi s) \<le> rxd_reads (sg_spi s') \<and>
    subseq (taken es @ rx_contents (sg_spi s')) (rx_contents (sg_spi s) @ received (sg_spi s) (sg_spi s')) \<and>
    ((\<forall>e \<in> set es. roomy e) \<longrightarrow>
      taken es @ rx_contents (sg_spi s') = rx_contents (sg_spi s) @ received (sg_spi s) (sg_spi s')) \<and>
    sg_mem s' lsb = last (sg_mem s lsb # taken es) \<and>
    (sg_pc s' = At_Print \<longrightarrow> sg_mem s' sensor_data = last (sg_mem s lsb # taken es))"
    using run wf pc
  proof induction
    case (sg_run_refl s)
    then show ?case by (simp add: received_refl)
  next
    case (sg_run_step s es s1 e s2)
    let ?p = "sg_spi s" and ?p1 = "sg_spi s1" and ?p2 = "sg_spi s2"
    note IH = sg_run_step.IH [OF sg_run_step.prems]
    from step_rx [OF sg_run_step.hyps(2)] IH obtain k where
      rx: "rx_wf ?p2" "rxd_register ?p2 = rxd_register ?p1" "rxd_reads ?p1 \<le> rxd_reads ?p2"
      and c: "taken [e] @ rx_contents ?p2 = rx_contents ?p1 @ take k (received ?p1 ?p2)"
      and room: "roomy e \<Longrightarrow> length (received ?p1 ?p2) \<le> k" by blast
    have r: "received ?p ?p2 = received ?p ?p1 @ received ?p1 ?p2" using received_append [of ?p1 ?p ?p2] IH rx by simp
    have t: "taken (es @ [e]) @ rx_contents ?p2 = (taken es @ rx_contents ?p1) @ take k (received ?p1 ?p2)"
      using c by (simp add: taken_append)
    have "subseq (take k (received ?p1 ?p2)) (received ?p1 ?p2)" by (rule prefix_imp_subseq) (rule take_is_prefix)
    then have "subseq (taken (es @ [e]) @ rx_contents ?p2) (rx_contents ?p @ received ?p ?p2)"
      using list_emb_append_mono IH unfolding t r append_assoc [symmetric] by blast
    moreover have "taken (es @ [e]) @ rx_contents ?p2 = rx_contents ?p @ received ?p ?p2" if "\<forall>e \<in> set (es @ [e]). roomy e"
      using that IH room unfolding t r by simp
    moreover note step_mem [OF sg_run_step.hyps(2) lsb]
    ultimately show ?case using IH rx by (auto simp: taken_append last_append)
  qed
  then show ?thesis by blast
qed

lemma demo_received:
  "rx_wf (SPI_1_irq_handler (idle_spi (\<lambda>_. 0x10)))"
  "rx_contents (SPI_1_irq_handler (idle_spi (\<lambda>_. 0x10))) = [48, 49, 50, 51, 52, 53]"
proof -
  let ?p = "idle_spi (\<lambda>_. 0x10)"
  have wf: "rx_wf ?p" by (simp add: rx_wf_def idle_spi_def)
  then show "rx_wf (SPI_1_irq_handler ?p)" using irq_handler_received by blast
  from irq_handler_split [of ?p] obtain q where q: "same_rx ?p q" "rx_contents (SPI_1_irq_handler ?p) = rx_contents (rx_loop 6 q)"
    by (auto simp: idle_spi_def)
  have "rx_wf q" using wf same_rx_contents(2) [OF q(1)] by simp
  moreover have "rx_contents ?p = []" "rx_count ?p = 0" by (simp_all add: rx_contents_def rx_count_def ring_def idle_spi_def)
  moreover have "map (\<lambda>i. ucast (rxd_register ?p i)) [rxd_reads ?p..<rxd_reads ?p + 6] = [48, 49, 50, 51, 52, 53 :: u8]"
    by (simp add: idle_spi_def upt_rec)
  moreover have "rxd_register q = rxd_register ?p" "rxd_reads q = rxd_reads ?p" using q(1) by (simp_all add: same_rx_def)
  ultimately show "rx_contents (SPI_1_irq_handler ?p) = [48, 49, 50, 51, 52, 53]"
    using rx_loop_contents [of q 6] q(2) same_rx_contents [OF q(1)] by simp
qed

theorem sensor_stream_witness:
  "\<exists>s'. sg_run 0x1C001000 0x1C002000 (\<lambda>_ t. t) (demo_sguest reset_dist) [Fiq 81 0, Stmt, Read (Some 48), Stmt] s' \<and>
     sg_pc s' = At_Print \<and> sg_mem s' sensor_data = 48"
proof -
  let ?clr = "\<lambda>_ t. t" and ?s = "demo_sguest reset_dist"
  let ?step = "sg_step 0x1C001000 0x1C002000 ?clr" and ?run = "sg_run 0x1C001000 0x1C002000 ?clr"
  let ?s1 = "?s\<lparr>sg_spi := SPI_1_irq_handler (sg_spi ?s)\<rparr>"
  let ?s3 = "snd (do_read 0x1C001000 (do_send ?s1))"
  have "fiq_handler (call_handler ?clr) 81 ?s = Some ?s1" by (simp add: fiq_handler_def nth_fiq_handlers)
  then have 1: "?step ?s (Fiq 81 (rx_count (sg_spi ?s))) ?s1" by (rule sg_step.sg_fiq)
  have 2: "?step ?s1 Stmt (do_send ?s1)" by (rule sg_step.sg_send) (simp add: demo_sguest_def)
  have "fst (SPI1_ReadData (snd (SPI1_SendData 0xbc (SPI_1_irq_handler (idle_spi (\<lambda>_. 0x10)))))) = Some 48"
    using demo_received spi.get_first [of "snd (SPI1_SendData 0xbc (SPI_1_irq_handler (idle_spi (\<lambda>_. 0x10))))"]
    by (simp add: same_rx_contents [OF SendData_rx])
  then have "do_read 0x1C001000 (do_send ?s1) = (Some 48, ?s3)"
    by (simp add: do_read_def do_send_def demo_sguest_def split_beta Let_def)
  then have 3: "?step (do_send ?s1) (Read (Some 48)) ?s3" by (intro sg_step.sg_read) (simp add: do_send_def)
  have pc: "sg_pc ?s3 = At_Copy" by (simp add: do_read_def split_beta Let_def)
  then have 4: "?step ?s3 Stmt (do_copy 0x1C001000 ?s3)" by (rule sg_step.sg_copy)
  have c: "rx_count (sg_spi ?s) = 0" by (simp add: rx_count_def demo_sguest_def idle_spi_def)
  have "?run ?s (((([] @ [Fiq 81 0]) @ [Stmt]) @ [Read (Some 48)]) @ [Stmt]) (do_copy 0x1C001000 ?s3)"
    using 1 2 3 4 unfolding c by (intro sg_run.sg_run_step [OF _ 4] sg_run.sg_run_step [OF _ 3] sg_run.sg_run_step [OF _ 2] sg_run.sg_run_step [OF sg_run.sg_run_refl]) simp
  then have run: "?run ?s [Fiq 81 0, Stmt, Read (Some 48), Stmt] (do_copy 0x1C001000 ?s3)" by simp
  have "rx_wf (sg_spi ?s)" by (simp add: rx_wf_def demo_sguest_def idle_spi_def)
  moreover have "sg_pc ?s \<noteq> At_Print" "sg_pc (do_copy 0x1C001000 ?s3) = At_Print" by (simp_all add: demo_sguest_def do_copy_def)
  ultimately show ?thesis using sensor_stream [OF run] run by (auto intro!: exI [of _ "do_copy 0x1C001000 ?s3"])
qed

end
