(* ===== verification/Rtos_List.thy ===== *)
theory Rtos_List
  imports Prelude "HOL-Library.Multiset"
begin

unbundle bit_operations_syntax

text \<open>
  The lists of the Non-secure guest's kernel, \<^verbatim>\<open>src/ns_guest/lib/freertos/list.c\<close> and \<^verbatim>\<open>list.h\<close>: circular and
  doubly linked, with an end marker inside the list structure and an index that walks through the
  items. Structure members are maps from addresses; the end marker of the list at \<open>l\<close> lies at \<open>l + 8\<close>. The
  integrity check values are configured away.
\<close>

section \<open>Lists\<close>

abbreviation portMAX_DELAY :: u32 where "portMAX_DELAY \<equiv> 0xFFFFFFFF"

record lists =
  xItemValue :: "u32 \<Rightarrow> u32"
  pxNext :: "u32 \<Rightarrow> u32"
  pxPrevious :: "u32 \<Rightarrow> u32"
  pvOwner :: "u32 \<Rightarrow> u32"
  pxContainer :: "u32 \<Rightarrow> u32"
  uxNumberOfItems :: "u32 \<Rightarrow> u32"
  pxIndex :: "u32 \<Rightarrow> u32"

definition xListEnd :: "u32 \<Rightarrow> u32" where
  "xListEnd pxList = pxList + 8"

definition set_pxNext :: "u32 \<Rightarrow> u32 \<Rightarrow> lists \<Rightarrow> lists" where
  "set_pxNext p v s = s\<lparr>pxNext := (pxNext s)(p := v)\<rparr>"

definition set_pxPrevious :: "u32 \<Rightarrow> u32 \<Rightarrow> lists \<Rightarrow> lists" where
  "set_pxPrevious p v s = s\<lparr>pxPrevious := (pxPrevious s)(p := v)\<rparr>"

definition set_pxContainer :: "u32 \<Rightarrow> u32 \<Rightarrow> lists \<Rightarrow> lists" where
  "set_pxContainer p v s = s\<lparr>pxContainer := (pxContainer s)(p := v)\<rparr>"

definition set_pxIndex :: "u32 \<Rightarrow> u32 \<Rightarrow> lists \<Rightarrow> lists" where
  "set_pxIndex p v s = s\<lparr>pxIndex := (pxIndex s)(p := v)\<rparr>"

definition set_uxNumberOfItems :: "u32 \<Rightarrow> u32 \<Rightarrow> lists \<Rightarrow> lists" where
  "set_uxNumberOfItems p v s = s\<lparr>uxNumberOfItems := (uxNumberOfItems s)(p := v)\<rparr>"

definition listSET_LIST_ITEM_VALUE :: "u32 \<Rightarrow> u32 \<Rightarrow> lists \<Rightarrow> lists" where
  "listSET_LIST_ITEM_VALUE p v s = s\<lparr>xItemValue := (xItemValue s)(p := v)\<rparr>"

definition listSET_LIST_ITEM_OWNER :: "u32 \<Rightarrow> u32 \<Rightarrow> lists \<Rightarrow> lists" where
  "listSET_LIST_ITEM_OWNER p v s = s\<lparr>pvOwner := (pvOwner s)(p := v)\<rparr>"

definition vListInitialise :: "u32 \<Rightarrow> lists \<Rightarrow> lists" where
  "vListInitialise pxList s =
     (let s = set_pxIndex pxList (xListEnd pxList) s;
          s = s\<lparr>xItemValue := (xItemValue s)(xListEnd pxList := portMAX_DELAY)\<rparr>;
          s = set_pxNext (xListEnd pxList) (xListEnd pxList) s;
          s = set_pxPrevious (xListEnd pxList) (xListEnd pxList) s
      in set_uxNumberOfItems pxList 0 s)"

definition vListInitialiseItem :: "u32 \<Rightarrow> lists \<Rightarrow> lists" where
  "vListInitialiseItem pxItem s = set_pxContainer pxItem 0 s"

definition vListInsertEnd :: "u32 \<Rightarrow> u32 \<Rightarrow> lists \<Rightarrow> lists" where
  "vListInsertEnd pxList pxNewListItem s =
     (let i = pxIndex s pxList;
          s = set_pxNext pxNewListItem i s;
          s = set_pxPrevious pxNewListItem (pxPrevious s i) s;
          s = set_pxNext (pxPrevious s i) pxNewListItem s;
          s = set_pxPrevious i pxNewListItem s;
          s = set_pxContainer pxNewListItem pxList s
      in set_uxNumberOfItems pxList (uxNumberOfItems s pxList + 1) s)"

text \<open>\<open>for (pxIterator = &xListEnd; pxIterator->pxNext->xItemValue <= xValueOfInsertion; ...)\<close>\<close>

partial_function (option) insert_pos :: "u32 \<Rightarrow> u32 \<Rightarrow> lists \<Rightarrow> u32 option" where
  "insert_pos xValueOfInsertion pxIterator s =
     (if xItemValue s (pxNext s pxIterator) \<le> xValueOfInsertion
      then insert_pos xValueOfInsertion (pxNext s pxIterator) s
      else Some pxIterator)"

definition vListInsert :: "u32 \<Rightarrow> u32 \<Rightarrow> lists \<Rightarrow> lists option" where
  "vListInsert pxList pxNewListItem s =
     do { let xValueOfInsertion = xItemValue s pxNewListItem;
          pxIterator \<leftarrow> (if xValueOfInsertion = portMAX_DELAY then Some (pxPrevious s (xListEnd pxList))
                        else insert_pos xValueOfInsertion (xListEnd pxList) s);
          let s = set_pxNext pxNewListItem (pxNext s pxIterator) s;
          let s = set_pxPrevious (pxNext s pxNewListItem) pxNewListItem s;
          let s = set_pxPrevious pxNewListItem pxIterator s;
          let s = set_pxNext pxIterator pxNewListItem s;
          let s = set_pxContainer pxNewListItem pxList s;
          Some (set_uxNumberOfItems pxList (uxNumberOfItems s pxList + 1) s) }"

definition uxListRemove :: "u32 \<Rightarrow> lists \<Rightarrow> u32 \<times> lists" where
  "uxListRemove pxItemToRemove s =
     (let pxList = pxContainer s pxItemToRemove;
          s = set_pxPrevious (pxNext s pxItemToRemove) (pxPrevious s pxItemToRemove) s;
          s = set_pxNext (pxPrevious s pxItemToRemove) (pxNext s pxItemToRemove) s;
          s = (if pxIndex s pxList = pxItemToRemove then set_pxIndex pxList (pxPrevious s pxItemToRemove) s else s);
          s = set_pxContainer pxItemToRemove 0 s;
          s = set_uxNumberOfItems pxList (uxNumberOfItems s pxList - 1) s
      in (uxNumberOfItems s pxList, s))"

text \<open>The macros of the header: head and next entry, emptiness, and the step of the index to the next item,
  over the end marker.\<close>

definition listGET_HEAD_ENTRY :: "u32 \<Rightarrow> lists \<Rightarrow> u32" where
  "listGET_HEAD_ENTRY pxList s = pxNext s (xListEnd pxList)"

definition listGET_ITEM_VALUE_OF_HEAD_ENTRY :: "u32 \<Rightarrow> lists \<Rightarrow> u32" where
  "listGET_ITEM_VALUE_OF_HEAD_ENTRY pxList s = xItemValue s (pxNext s (xListEnd pxList))"

definition listGET_OWNER_OF_HEAD_ENTRY :: "u32 \<Rightarrow> lists \<Rightarrow> u32" where
  "listGET_OWNER_OF_HEAD_ENTRY pxList s = pvOwner s (pxNext s (xListEnd pxList))"

definition listLIST_IS_EMPTY :: "u32 \<Rightarrow> lists \<Rightarrow> bool" where
  "listLIST_IS_EMPTY pxList s \<longleftrightarrow> uxNumberOfItems s pxList = 0"

definition listCURRENT_LIST_LENGTH :: "u32 \<Rightarrow> lists \<Rightarrow> u32" where
  "listCURRENT_LIST_LENGTH pxList s = uxNumberOfItems s pxList"

definition listIS_CONTAINED_WITHIN :: "u32 \<Rightarrow> u32 \<Rightarrow> lists \<Rightarrow> bool" where
  "listIS_CONTAINED_WITHIN pxList pxListItem s \<longleftrightarrow> pxContainer s pxListItem = pxList"

definition listGET_OWNER_OF_NEXT_ENTRY :: "u32 \<Rightarrow> lists \<Rightarrow> u32 \<times> lists" where
  "listGET_OWNER_OF_NEXT_ENTRY pxList s =
     (let s = set_pxIndex pxList (pxNext s (pxIndex s pxList)) s;
          s = (if pxIndex s pxList = xListEnd pxList
               then set_pxIndex pxList (pxNext s (pxIndex s pxList)) s else s)
      in (pvOwner s (pxIndex s pxList), s))"

lemmas list_setters = set_pxNext_def set_pxPrevious_def set_pxContainer_def set_pxIndex_def set_uxNumberOfItems_def

section \<open>Doubly linked segments\<close>

text \<open>Links lead from \<open>p\<close> through \<open>xs\<close> to \<open>q\<close>, and back.\<close>

fun dll :: "lists \<Rightarrow> u32 \<Rightarrow> u32 list \<Rightarrow> u32 \<Rightarrow> bool" where
  "dll s p [] q \<longleftrightarrow> pxNext s p = q \<and> pxPrevious s q = p"
| "dll s p (x # xs) q \<longleftrightarrow> pxNext s p = x \<and> pxPrevious s x = p \<and> dll s x xs q"

lemma dll_append: "dll s p (xs @ y # ys) q \<longleftrightarrow> dll s p xs y \<and> dll s y ys q"
  by (induction xs arbitrary: p) auto

lemma dll_ends:
  "dll s p xs q \<Longrightarrow> pxNext s p = hd (xs @ [q])" "dll s p xs q \<Longrightarrow> pxPrevious s q = last (p # xs)"
  by (cases xs; simp) (induction xs arbitrary: p; simp)

lemma dll_cong:
  assumes "\<And>x. x \<in> insert p (set xs) \<Longrightarrow> pxNext s' x = pxNext s x"
    and "\<And>x. x \<in> insert q (set xs) \<Longrightarrow> pxPrevious s' x = pxPrevious s x"
  shows "dll s' p xs q = dll s p xs q"
  using assms by (induction xs arbitrary: p) auto

text \<open>A segment whose last link leads somewhere else.\<close>

lemma dll_relink:
  assumes "dll s p xs q" "distinct (p # xs)"
    and "\<And>x. x \<in> insert p (set xs) \<Longrightarrow> x \<noteq> last (p # xs) \<Longrightarrow> pxNext s' x = pxNext s x"
    and "\<And>x. x \<in> set xs \<Longrightarrow> pxPrevious s' x = pxPrevious s x"
    and "pxNext s' (last (p # xs)) = q'" "pxPrevious s' q' = last (p # xs)"
  shows "dll s' p xs q'"
  using assms
proof (induction xs arbitrary: p)
  case (Cons x xs)
  have "last (x # xs) \<noteq> p" using Cons.prems(2) by (metis distinct.simps(2) last_in_set list.distinct(1))
  moreover have "dll s' x xs q'" using Cons.prems by (intro Cons.IH) auto
  ultimately show ?case using Cons.prems(1,3,4) by simp
qed simp

text \<open>A segment that is entered from somewhere else.\<close>

lemma dll_enter:
  assumes "dll s p xs q" "distinct xs" "q \<notin> set xs"
    and "\<And>x. x \<in> set xs \<Longrightarrow> pxNext s' x = pxNext s x"
    and "\<And>x. x \<in> insert q (set xs) \<Longrightarrow> x \<noteq> hd (xs @ [q]) \<Longrightarrow> pxPrevious s' x = pxPrevious s x"
    and "pxNext s' p' = hd (xs @ [q])" "pxPrevious s' (hd (xs @ [q])) = p'"
  shows "dll s' p' xs q"
proof (cases xs)
  case (Cons x ys)
  have "dll s' x ys q = dll s x ys q" using assms(2-5) by (intro dll_cong) (auto simp: Cons)
  then show ?thesis using assms by (simp add: Cons)
qed (use assms in simp)

lemma dll_split: "dll s p (xs @ ys) q \<Longrightarrow> dll s p xs (hd (ys @ [q])) \<and> (ys \<noteq> [] \<longrightarrow> dll s (last (p # xs)) ys q)"
proof (induction xs arbitrary: p)
  case Nil
  then show ?case by (cases ys) auto
qed auto

section \<open>Rings\<close>

text \<open>\<open>ring s l xs\<close>: the list at \<open>l\<close> holds the items \<open>xs\<close>, in this order after the end marker.\<close>

definition ring :: "lists \<Rightarrow> u32 \<Rightarrow> u32 list \<Rightarrow> bool" where
  "ring s l xs \<longleftrightarrow>
     dll s (xListEnd l) xs (xListEnd l) \<and> distinct (xListEnd l # xs) \<and>
     (\<forall>x\<in>set xs. pxContainer s x = l) \<and> uxNumberOfItems s l = of_nat (length xs) \<and>
     xItemValue s (xListEnd l) = portMAX_DELAY \<and> pxIndex s l \<in> insert (xListEnd l) (set xs)"

text \<open>Linking \<open>x\<close> between \<open>it\<close> and \<open>f\<close>, and unlinking it, on the links alone.\<close>

definition spliced :: "u32 \<Rightarrow> u32 \<Rightarrow> u32 \<Rightarrow> lists \<Rightarrow> lists \<Rightarrow> bool" where
  "spliced it x f s s' \<longleftrightarrow> pxNext s' = (pxNext s)(x := f, it := x) \<and> pxPrevious s' = (pxPrevious s)(x := it, f := x)"

definition unspliced :: "u32 \<Rightarrow> lists \<Rightarrow> lists \<Rightarrow> bool" where
  "unspliced x s s' \<longleftrightarrow> pxPrevious s' = (pxPrevious s)(pxNext s x := pxPrevious s x) \<and>
     pxNext s' = (pxNext s)(pxPrevious s x := pxNext s x)"

lemma dll_splice:
  assumes ring: "dll s e (xs @ ys) e" "distinct (e # xs @ ys)" and x: "x \<notin> set (e # xs @ ys)"
    and s': "spliced (last (e # xs)) x (hd (ys @ [e])) s s'"
  shows "dll s' e (xs @ x # ys) e"
proof -
  let ?it = "last (e # xs)" and ?f = "hd (ys @ [e])"
  have it: "?it \<in> insert e (set xs)" and f: "?f \<in> insert e (set ys)"
    using last_in_set [of "e # xs"] by (auto simp: hd_append)
  have it': "?it \<notin> set ys" using ring(2) it by (auto simp del: last.simps)
  have f': "?f \<notin> set xs" using ring(2) f by auto
  have "dll s e xs ?f" using dll_split [OF ring(1)] by blast
  then have "dll s' e xs x"
  proof (rule dll_relink)
    show "distinct (e # xs)" using ring(2) by auto
    show "pxNext s' y = pxNext s y" if "y \<in> insert e (set xs)" "y \<noteq> ?it" for y
      using that s' x by (auto simp: spliced_def)
    show "pxPrevious s' y = pxPrevious s y" if "y \<in> set xs" for y
    proof -
      have "y \<noteq> x" "y \<noteq> ?f" using that x f' by auto
      then show ?thesis using s' by (simp add: spliced_def)
    qed
    have "x \<noteq> ?it" "x \<noteq> ?f" using x it f by auto
    then show "pxNext s' ?it = x" "pxPrevious s' x = ?it" using s' by (simp_all add: spliced_def)
  qed
  moreover have "dll s' x ys e"
  proof (cases ys)
    case Nil
    then show ?thesis using s' x by (auto simp: spliced_def)
  next
    case (Cons y zs)
    then have "dll s (last (e # xs)) ys e" using dll_split [OF ring(1)] by simp
    then show ?thesis
    proof (rule dll_enter)
      show "pxNext s' y = pxNext s y" if "y \<in> set ys" for y
      proof -
        have "y \<noteq> x" "y \<noteq> ?it" using that x it' by auto
        then show ?thesis using s' by (simp add: spliced_def)
      qed
      show "pxPrevious s' y = pxPrevious s y" if "y \<in> insert e (set ys)" "y \<noteq> ?f" for y
        using that s' x by (auto simp: spliced_def)
      have "x \<noteq> ?it" "x \<noteq> ?f" using x it f by auto
      then show "pxNext s' x = ?f" "pxPrevious s' ?f = x" using s' by (simp_all add: spliced_def)
    qed (use ring(2) in auto)
  qed
  ultimately show ?thesis by (simp add: dll_append)
qed

lemma dll_unsplice:
  assumes ring: "dll s e (xs @ x # ys) e" "distinct (e # xs @ x # ys)" and s': "unspliced x s s'"
  shows "dll s' e (xs @ ys) e"
proof -
  have A: "dll s e xs x" and B: "dll s x ys e" using ring(1) by (simp_all add: dll_append)
  let ?it = "last (e # xs)" and ?f = "hd (ys @ [e])"
  have link: "pxPrevious s x = ?it" "pxNext s x = ?f" using dll_ends A B by blast+
  have it: "?it \<in> insert e (set xs)" and f: "?f \<in> insert e (set ys)"
    using last_in_set [of "e # xs"] by (auto simp: hd_append)
  have it': "?it \<notin> insert x (set ys)" and f': "?f \<notin> insert x (set xs)" using ring(2) it f by (auto simp del: last.simps)
  have "dll s' e xs ?f"
  proof (rule dll_relink [OF A])
    show "pxPrevious s' y = pxPrevious s y" if "y \<in> set xs" for y
    proof -
      have "y \<noteq> ?f" using that f' by auto
      then show ?thesis using s' link by (simp add: unspliced_def)
    qed
  qed (use ring(2) s' link in \<open>auto simp: unspliced_def\<close>)
  moreover have "dll s' y zs e" if ys: "ys = y # zs" for y zs
  proof -
    have "dll s y zs e" using B ys by simp
    moreover have "pxNext s' z = pxNext s z" if "z \<in> insert y (set zs)" for z
    proof -
      have "z \<noteq> ?it" using that it' ys by auto
      then show ?thesis using s' link by (simp add: unspliced_def)
    qed
    moreover have "pxPrevious s' z = pxPrevious s z" if "z \<in> insert e (set zs)" for z
      using that ring(2) s' link ys by (auto simp: unspliced_def)
    ultimately show ?thesis by (subst dll_cong [of _ _ _ s]) auto
  qed
  ultimately show ?thesis by (cases ys) (auto simp: dll_append)
qed

lemma le_max_delay: "y \<le> portMAX_DELAY"
proof -
  have "(portMAX_DELAY :: u32) = - 1" by simp
  then show ?thesis by (simp only: word_n1_ge)
qed

text \<open>The position found by the loop.\<close>

lemma insert_pos_spec:
  assumes "dll s p xs e" "v < xItemValue s e"
  shows "insert_pos v p s = Some (last (p # takeWhile (\<lambda>y. xItemValue s y \<le> v) xs))"
  using assms
proof (induction xs arbitrary: p)
  case Nil
  then show ?case by (subst insert_pos.simps) auto
next
  case (Cons x xs)
  then show ?case by (subst insert_pos.simps) auto
qed

text \<open>What an operation leaves alone: every member of the items and lists other than the given ones.\<close>

definition same_lists :: "u32 set \<Rightarrow> u32 \<Rightarrow> lists \<Rightarrow> lists \<Rightarrow> bool" where
  "same_lists A l s s' \<longleftrightarrow> xItemValue s' = xItemValue s \<and> pvOwner s' = pvOwner s \<and>
     (\<forall>p. p \<notin> A \<longrightarrow> pxNext s' p = pxNext s p \<and> pxPrevious s' p = pxPrevious s p \<and> pxContainer s' p = pxContainer s p) \<and>
     (\<forall>k. k \<noteq> l \<longrightarrow> uxNumberOfItems s' k = uxNumberOfItems s k \<and> pxIndex s' k = pxIndex s k)"

lemma ring_other:
  assumes "ring s k ys" "same_lists A l s s'" "k \<noteq> l" "A \<inter> insert (xListEnd k) (set ys) = {}"
  shows "ring s' k ys"
proof -
  have "dll s' (xListEnd k) ys (xListEnd k) = dll s (xListEnd k) ys (xListEnd k)"
    using assms(2,4) by (intro dll_cong) (auto simp: same_lists_def)
  with assms show ?thesis by (auto simp: ring_def same_lists_def)
qed

text \<open>Sorted insertion: after all items whose value is not greater, which for the greatest value is the end.\<close>

lemma vListInsert_ring:
  assumes r: "ring s l xs" and x: "x \<notin> set (xListEnd l # xs)"
  shows "\<exists>s'. vListInsert l x s = Some s' \<and>
    ring s' l (takeWhile (\<lambda>y. xItemValue s y \<le> xItemValue s x) xs @ x # dropWhile (\<lambda>y. xItemValue s y \<le> xItemValue s x) xs) \<and>
    same_lists (insert x (set (xListEnd l # xs))) l s s' \<and> pxContainer s' x = l \<and> pxIndex s' = pxIndex s"
proof -
  let ?e = "xListEnd l" and ?v = "xItemValue s x"
  define as bs where "as = takeWhile (\<lambda>y. xItemValue s y \<le> ?v) xs" and "bs = dropWhile (\<lambda>y. xItemValue s y \<le> ?v) xs"
  have xs: "xs = as @ bs" by (simp add: as_def bs_def)
  have R: "dll s ?e (as @ bs) ?e" "distinct (?e # as @ bs)" "xItemValue s ?e = portMAX_DELAY"
    using r by (simp_all add: ring_def xs)
  let ?it = "last (?e # as)" and ?f = "hd (bs @ [?e])"
  have pos: "(if ?v = portMAX_DELAY then Some (pxPrevious s ?e) else insert_pos ?v ?e s) = Some ?it"
  proof (cases "?v = portMAX_DELAY")
    case True
    have "y \<le> portMAX_DELAY" for y :: u32 by (rule le_max_delay)
    then have "as = xs" by (simp add: as_def True takeWhile_eq_all_conv)
    then show ?thesis using True dll_ends(2) [OF R(1)] xs by simp
  next
    case False
    have "?v \<le> portMAX_DELAY" by (rule le_max_delay)
    with False have "?v < xItemValue s ?e" using R(3) by simp
    moreover have "dll s ?e xs ?e" using R(1) by (simp only: xs)
    ultimately have "insert_pos ?v ?e s = Some ?it" unfolding as_def by (intro insert_pos_spec)
    then show ?thesis using False by (simp only: if_False)
  qed
  have nf: "pxNext s ?it = ?f" using dll_split [OF R(1)] dll_ends(1) [of s ?it bs ?e] dll_ends(1) [of s ?e as ?f]
    by (cases bs; cases as rule: rev_cases) (auto simp: dll_append)
  define s' where "s' = s\<lparr>pxNext := (pxNext s)(x := ?f, ?it := x), pxPrevious := (pxPrevious s)(?f := x, x := ?it),
    pxContainer := (pxContainer s)(x := l), uxNumberOfItems := (uxNumberOfItems s)(l := uxNumberOfItems s l + 1)\<rparr>"
  have xne: "x \<noteq> ?it" "x \<noteq> ?f" using x by (auto simp: xs hd_append)
  have run: "vListInsert l x s = Some s'"
    unfolding vListInsert_def Let_def pos using xne nf by (simp add: list_setters s'_def fun_upd_twist)
  have "spliced ?it x ?f s s'" using xne by (simp add: spliced_def s'_def fun_upd_twist)
  from dll_splice [OF R(1,2) _ this] x have "dll s' ?e (as @ x # bs) ?e" by (simp add: xs)
  then have "ring s' l (as @ x # bs)"
    using r x unfolding ring_def by (auto simp: xs s'_def)
  moreover have "same_lists (insert x (set (?e # xs))) l s s'"
    using last_in_set [of "?e # as"] by (auto simp: same_lists_def s'_def xs hd_append)
  ultimately show ?thesis using run unfolding as_def bs_def by (auto simp: s'_def)
qed

text \<open>Insertion in front of the index, which makes the item the last one the index will reach.\<close>

lemma vListInsertEnd_ring:
  assumes r: "ring s l (as @ bs)" and x: "x \<notin> set (xListEnd l # as @ bs)" and i: "pxIndex s l = hd (bs @ [xListEnd l])"
  shows "ring (vListInsertEnd l x s) l (as @ x # bs)"
    and "same_lists (insert x (set (xListEnd l # as @ bs))) l s (vListInsertEnd l x s)"
    and "pxIndex (vListInsertEnd l x s) = pxIndex s" "pxContainer (vListInsertEnd l x s) x = l"
proof -
  let ?e = "xListEnd l"
  let ?it = "last (?e # as)" and ?f = "hd (bs @ [?e])"
  have R: "dll s ?e (as @ bs) ?e" "distinct (?e # as @ bs)" using r by (simp_all add: ring_def)
  have prev: "pxPrevious s ?f = ?it" using dll_split [OF R(1)] dll_ends(2) by blast
  have xne: "x \<noteq> ?it" "x \<noteq> ?f" using x last_in_set [of "?e # as"] by (auto simp: hd_append)
  define s' where "s' = s\<lparr>pxNext := (pxNext s)(x := ?f, ?it := x), pxPrevious := (pxPrevious s)(x := ?it, ?f := x),
    pxContainer := (pxContainer s)(x := l), uxNumberOfItems := (uxNumberOfItems s)(l := uxNumberOfItems s l + 1)\<rparr>"
  have run: "vListInsertEnd l x s = s'"
    unfolding vListInsertEnd_def Let_def i using xne prev by (simp add: list_setters s'_def)
  have "spliced ?it x ?f s s'" using xne by (simp add: spliced_def s'_def)
  from dll_splice [OF R(1,2) x this] have "dll s' ?e (as @ x # bs) ?e" .
  then show "ring (vListInsertEnd l x s) l (as @ x # bs)"
    using r x unfolding ring_def run by (auto simp: s'_def)
  show "same_lists (insert x (set (?e # as @ bs))) l s (vListInsertEnd l x s)"
    using last_in_set [of "?e # as"] by (auto simp: same_lists_def run s'_def hd_append)
  show "pxIndex (vListInsertEnd l x s) = pxIndex s" "pxContainer (vListInsertEnd l x s) x = l"
    by (simp_all add: run s'_def)
qed

lemma uxListRemove_ring:
  assumes r: "ring s l (as @ x # bs)"
  shows "\<exists>s'. uxListRemove x s = (of_nat (length (as @ bs)), s') \<and> ring s' l (as @ bs) \<and>
    same_lists (set (xListEnd l # as @ x # bs)) l s s' \<and> pxContainer s' x = 0 \<and>
    pxIndex s' l = (if pxIndex s l = x then last (xListEnd l # as) else pxIndex s l)"
proof -
  let ?e = "xListEnd l"
  let ?it = "last (?e # as)" and ?f = "hd (bs @ [?e])"
  have R: "dll s ?e (as @ x # bs) ?e" "distinct (?e # as @ x # bs)" "pxContainer s x = l"
    "uxNumberOfItems s l = of_nat (length (as @ x # bs))" using r by (simp_all add: ring_def)
  have A: "dll s ?e as x" and B: "dll s x bs ?e" using R(1) by (simp_all add: dll_append)
  have link: "pxPrevious s x = ?it" "pxNext s x = ?f" using dll_ends A B by blast+
  have it: "?it \<in> insert ?e (set as)" and f: "?f \<in> insert ?e (set bs)"
    using last_in_set [of "?e # as"] by (auto simp: hd_append)
  have xne: "x \<noteq> ?it" "x \<noteq> ?f" using R(2) it f by auto
  define s' where "s' = s\<lparr>pxNext := (pxNext s)(?it := ?f), pxPrevious := (pxPrevious s)(?f := ?it),
    pxContainer := (pxContainer s)(x := 0), uxNumberOfItems := (uxNumberOfItems s)(l := of_nat (length (as @ bs))),
    pxIndex := (pxIndex s)(l := if pxIndex s l = x then ?it else pxIndex s l)\<rparr>"
  have run: "uxListRemove x s = (of_nat (length (as @ bs)), s')"
    unfolding uxListRemove_def Let_def R(3) using xne R(4) by (auto simp: list_setters s'_def link intro!: lists.equality)
  have "unspliced x s s'" by (simp add: unspliced_def s'_def link)
  from dll_unsplice [OF R(1,2) this] have "dll s' ?e (as @ bs) ?e" .
  then have "ring s' l (as @ bs)" using r it unfolding ring_def by (auto simp: s'_def simp del: last.simps)
  moreover have "same_lists (set (?e # as @ x # bs)) l s s'"
    using it f by (auto simp: same_lists_def s'_def simp del: last.simps)
  ultimately show ?thesis using run by (simp add: s'_def)
qed

lemma vListInitialise_ring: "ring (vListInitialise l s) l []"
  by (simp add: ring_def vListInitialise_def list_setters Let_def)

section \<open>The walk of the index\<close>

text \<open>\<open>n\<close> successive uses of \<open>listGET_OWNER_OF_NEXT_ENTRY\<close>.\<close>

fun next_owners :: "nat \<Rightarrow> u32 \<Rightarrow> lists \<Rightarrow> u32 list \<times> lists" where
  "next_owners 0 l s = ([], s)"
| "next_owners (Suc n) l s =
     (let (o1, s) = listGET_OWNER_OF_NEXT_ENTRY l s; (os, s) = next_owners n l s in (o1 # os, s))"

lemma next_owners_add:
  "next_owners (m + n) l s =
     (let (os, s) = next_owners m l s; (os', s) = next_owners n l s in (os @ os', s))"
  by (induction m arbitrary: s) (auto simp: Let_def case_prod_beta)

lemma next_step:
  assumes r: "ring s l (as @ b # bs)" and i: "pxIndex s l = last (xListEnd l # as)"
  shows "listGET_OWNER_OF_NEXT_ENTRY l s = (pvOwner s b, set_pxIndex l b s)"
proof -
  have "dll s (xListEnd l) (as @ b # bs) (xListEnd l)" using r by (simp add: ring_def)
  then have "dll s (last (xListEnd l # as)) (b # bs) (xListEnd l)" using dll_split by blast
  then have "pxNext s (last (xListEnd l # as)) = b" by (simp only: dll.simps)
  moreover have "distinct (xListEnd l # as @ b # bs)" using r unfolding ring_def by blast
  then have "b \<noteq> xListEnd l" by auto
  ultimately show ?thesis by (simp add: listGET_OWNER_OF_NEXT_ENTRY_def i list_setters Let_def)
qed

lemma ring_index: "ring s l xs \<Longrightarrow> i \<in> insert (xListEnd l) (set xs) \<Longrightarrow> ring (set_pxIndex l i s) l xs"
proof -
  have "dll (set_pxIndex l i s) p xs q = dll s p xs q" for p q by (rule dll_cong) (simp_all add: list_setters)
  then show "ring s l xs \<Longrightarrow> i \<in> insert (xListEnd l) (set xs) \<Longrightarrow> ring (set_pxIndex l i s) l xs"
    by (simp add: ring_def list_setters)
qed

lemma next_walk:
  assumes "ring s l (as @ bs @ cs)" "pxIndex s l = last (xListEnd l # as)"
  shows "next_owners (length bs) l s = (map (pvOwner s) bs, set_pxIndex l (last (xListEnd l # as @ bs)) s)"
  using assms
proof (induction bs arbitrary: as s)
  case Nil
  have "set_pxIndex l (pxIndex s l) s = s" by (simp add: list_setters)
  then show ?case using Nil by simp
next
  case (Cons b bs)
  let ?s = "set_pxIndex l b s"
  have st: "listGET_OWNER_OF_NEXT_ENTRY l s = (pvOwner s b, ?s)" using next_step Cons.prems by simp
  have "ring ?s l ((as @ [b]) @ bs @ cs)" using ring_index Cons.prems(1) by simp
  moreover have "pxIndex ?s l = last (xListEnd l # as @ [b])" by (simp add: list_setters)
  ultimately have "next_owners (length bs) l ?s = (map (pvOwner ?s) bs, set_pxIndex l (last (xListEnd l # (as @ [b]) @ bs)) ?s)"
    by (rule Cons.IH)
  then show ?case using st by (simp add: list_setters)
qed

text \<open>At the last item the next step is the same as at the end marker.\<close>

lemma next_wrap:
  assumes r: "ring s l xs" "xs \<noteq> []" and i: "pxIndex s l = last xs"
  shows "listGET_OWNER_OF_NEXT_ENTRY l s = listGET_OWNER_OF_NEXT_ENTRY l (set_pxIndex l (xListEnd l) s)"
proof -
  obtain y ys where xs: "xs = y # ys" using r(2) by (cases xs) auto
  have "pxNext s (last xs) = xListEnd l"
    using r by (cases xs rule: rev_cases) (auto simp: ring_def dll_append)
  moreover have "pxNext s (xListEnd l) = y" "y \<noteq> xListEnd l" using r(1) by (auto simp: ring_def xs)
  ultimately show ?thesis by (simp add: listGET_OWNER_OF_NEXT_ENTRY_def i list_setters Let_def)
qed

lemma next_round:
  assumes r: "ring s l (as @ bs)" and i: "pxIndex s l = last (xListEnd l # as)"
  shows "fst (next_owners (length (as @ bs)) l s) = map (pvOwner s) (bs @ as)"
proof (cases as)
  case Nil
  then show ?thesis using next_walk [of s l "[]" bs "[]"] r i by simp
next
  case (Cons a as')
  let ?e = "xListEnd l"
  let ?s = "set_pxIndex l (last (?e # as @ bs)) s" and ?t = "set_pxIndex l ?e s"
  have w: "next_owners (length bs) l s = (map (pvOwner s) bs, ?s)"
    using r i by (intro next_walk [where cs = "[]"]) simp_all
  have "last (?e # as @ bs) \<in> set (as @ bs)" using last_in_set [of "as @ bs"] by (simp add: Cons)
  then have rs: "ring ?s l (as @ bs)" using ring_index [OF r] by blast
  have "as @ bs \<noteq> []" "pxIndex ?s l = last (as @ bs)" by (simp_all add: list_setters Cons)
  from next_wrap [OF rs this]
  have "listGET_OWNER_OF_NEXT_ENTRY l ?s = listGET_OWNER_OF_NEXT_ENTRY l (set_pxIndex l ?e ?s)" .
  moreover have "set_pxIndex l ?e ?s = ?t" by (simp add: list_setters)
  ultimately have eq: "next_owners (length as) l ?s = next_owners (length as) l ?t" by (simp add: Cons)
  have "ring ?t l ([] @ as @ bs)" using ring_index [OF r, of ?e] by simp
  then have "next_owners (length as) l ?t = (map (pvOwner ?t) as, set_pxIndex l (last (?e # [] @ as)) ?t)"
    by (rule next_walk) (simp add: list_setters)
  then have "fst (next_owners (length as) l ?t) = map (pvOwner s) as" by (simp add: list_setters)
  then have "fst (next_owners (length bs + length as) l s) = map (pvOwner s) (bs @ as)"
    using w eq by (simp add: next_owners_add Let_def case_prod_beta)
  then show ?thesis by (simp add: add.commute)
qed

section \<open>The contract of an ordered queue\<close>

text \<open>Insertion of several items, and removal of the first item until none is left.\<close>

fun insert_all :: "(u32 \<Rightarrow> 's \<Rightarrow> 's option) \<Rightarrow> u32 list \<Rightarrow> 's \<Rightarrow> 's option" where
  "insert_all ins [] s = Some s"
| "insert_all ins (x # xs) s = do { s \<leftarrow> ins x s; insert_all ins xs s }"

fun drain :: "('s \<Rightarrow> u32) \<Rightarrow> (u32 \<Rightarrow> 's \<Rightarrow> 's) \<Rightarrow> nat \<Rightarrow> 's \<Rightarrow> u32 list" where
  "drain head remove 0 s = []"
| "drain head remove (Suc n) s = (let x = head s in x # drain head remove n (remove x s))"

definition insort_after :: "('a \<Rightarrow> 'k :: linorder) \<Rightarrow> 'a \<Rightarrow> 'a list \<Rightarrow> 'a list" where
  "insort_after f x xs = takeWhile (\<lambda>y. f y \<le> f x) xs @ x # dropWhile (\<lambda>y. f y \<le> f x) xs"

lemma sorted_split:
  "sorted (map f xs) \<Longrightarrow> y \<in> set (dropWhile (\<lambda>y. f y \<le> k) xs) \<Longrightarrow> k < f y"
  by (induction xs) (auto split: if_splits)

lemma sorted_between:
  "sorted (map f as) \<Longrightarrow> sorted (map f bs) \<Longrightarrow> \<forall>a\<in>set as. f a \<le> f x \<Longrightarrow> \<forall>b\<in>set bs. f x \<le> f b \<Longrightarrow> sorted (map f (as @ x # bs))"
  by (induction as) (auto intro: order_trans)

lemma insort_after_sort_key:
  assumes "sorted (map f xs)"
  shows "insort_after f x xs = sort_key f (xs @ [x])"
proof (rule sym, rule properties_for_sort_key)
  let ?P = "\<lambda>y. f y \<le> f x"
  show "mset (insort_after f x xs) = mset (xs @ [x])"
    by (simp add: insort_after_def) (metis mset_append takeWhile_dropWhile_id)
  show "filter (\<lambda>y. f k = f y) (insort_after f x xs) = filter (\<lambda>y. f k = f y) (xs @ [x])" for k
  proof -
    have "filter (\<lambda>y. f k = f y) (dropWhile ?P xs) = []" if "f k = f x"
      using sorted_split [OF assms] that by (fastforce simp: filter_empty_conv)
    then have "filter (\<lambda>y. f k = f y) (insort_after f x xs) =
        filter (\<lambda>y. f k = f y) (takeWhile ?P xs @ dropWhile ?P xs) @ filter (\<lambda>y. f k = f y) [x]"
      by (simp add: insort_after_def del: takeWhile_dropWhile_id)
    then show ?thesis by simp
  qed
  have "sorted (map f (dropWhile ?P xs))" using assms by (metis sorted_append map_append takeWhile_dropWhile_id)
  moreover have "sorted (map f (takeWhile ?P xs))" using assms by (metis sorted_append map_append takeWhile_dropWhile_id)
  moreover have lo: "\<forall>a\<in>set (takeWhile ?P xs). f a \<le> f x" using set_takeWhileD [of _ ?P xs] by blast
  moreover have hi: "\<forall>b\<in>set (dropWhile ?P xs). f x \<le> f b" using sorted_split [OF assms] by (meson less_imp_le)
  ultimately show "sorted (map f (insort_after f x xs))" unfolding insort_after_def by (intro sorted_between)
qed

text \<open>\<open>rep s xs\<close>: the queue holds \<open>xs\<close>, first to last, by ascending key.\<close>

locale ordered_queue =
  fixes rep :: "'s \<Rightarrow> u32 list \<Rightarrow> bool"
    and key :: "'s \<Rightarrow> u32 \<Rightarrow> u32"
    and item :: "u32 \<Rightarrow> bool"
    and ins :: "u32 \<Rightarrow> 's \<Rightarrow> 's option"
    and head :: "'s \<Rightarrow> u32"
    and remove :: "u32 \<Rightarrow> 's \<Rightarrow> 's"
  assumes ins_rep: "rep s xs \<Longrightarrow> item x \<Longrightarrow> x \<notin> set xs \<Longrightarrow>
      \<exists>s'. ins x s = Some s' \<and> rep s' (insort_after (key s) x xs) \<and> key s' = key s"
    and head_rep: "rep s (x # xs) \<Longrightarrow> head s = x"
    and remove_rep: "rep s (x # xs) \<Longrightarrow> rep (remove x s) xs"
begin

lemma insert_all_sorts:
  assumes "rep s (sort_key (key s) ys)" "distinct (ys @ xs)" "\<forall>x\<in>set xs. item x"
  shows "\<exists>s'. insert_all ins xs s = Some s' \<and> rep s' (sort_key (key s) (ys @ xs)) \<and> key s' = key s"
  using assms
proof (induction xs arbitrary: s ys)
  case (Cons x xs)
  have "x \<notin> set (sort_key (key s) ys)" "item x" using Cons.prems by simp_all
  from ins_rep [OF Cons.prems(1) this(2,1)] obtain s1 where
    s1: "ins x s = Some s1" "rep s1 (insort_after (key s) x (sort_key (key s) ys))" "key s1 = key s" by blast
  have "insort_after (key s) x (sort_key (key s) ys) = sort_key (key s) (sort_key (key s) ys @ [x])"
    by (rule insort_after_sort_key) simp
  also have "\<dots> = sort_key (key s) (ys @ [x])"
  proof (rule properties_for_sort_key)
    show "filter (\<lambda>y. key s k = key s y) (sort_key (key s) (ys @ [x])) =
        filter (\<lambda>y. key s k = key s y) (sort_key (key s) ys @ [x])" for k
      using sort_key_stable [of "key s" "key s k" ys] sort_key_stable [of "key s" "key s k" "ys @ [x]"]
      by (simp add: eq_commute [of "key s k"])
  qed simp_all
  finally have "rep s1 (sort_key (key s1) (ys @ [x]))" using s1 by simp
  from Cons.IH [OF this] Cons.prems s1 show ?case by auto
qed simp

lemma drain_rep: "rep s xs \<Longrightarrow> drain head remove (length xs) s = xs"
proof (induction xs arbitrary: s)
  case (Cons x xs)
  then show ?case using head_rep remove_rep by (simp add: Let_def)
qed simp

theorem insert_drain:
  assumes "rep s []" "distinct xs" "\<forall>x\<in>set xs. item x"
  shows "\<exists>s'. insert_all ins xs s = Some s' \<and> drain head remove (length xs) s' = sort_key (key s) xs"
proof -
  from insert_all_sorts [of s "[]" xs] assms obtain s' where
    "insert_all ins xs s = Some s'" "rep s' (sort_key (key s) xs)" by auto
  then show ?thesis using drain_rep by fastforce
qed

end

interpretation lq: ordered_queue "\<lambda>s. ring s l" xItemValue "\<lambda>x. x \<noteq> xListEnd l" "vListInsert l" "listGET_HEAD_ENTRY l"
    "\<lambda>x s. snd (uxListRemove x s)" for l
proof
  fix s xs x
  assume "ring s l xs" "x \<noteq> xListEnd l" "x \<notin> set xs"
  then have "x \<notin> set (xListEnd l # xs)" by simp
  from vListInsert_ring [OF \<open>ring s l xs\<close> this]
  show "\<exists>s'. vListInsert l x s = Some s' \<and> ring s' l (insort_after (xItemValue s) x xs) \<and> xItemValue s' = xItemValue s"
    by (auto simp: insort_after_def same_lists_def)
next
  fix s x xs
  assume r: "ring s l (x # xs)"
  then show "listGET_HEAD_ENTRY l s = x" by (simp add: listGET_HEAD_ENTRY_def ring_def)
  show "ring (snd (uxListRemove x s)) l xs" using uxListRemove_ring [of s l "[]" x xs] r by auto
qed

section \<open>Properties\<close>

text \<open>C21: Items inserted with \<open>vListInsert\<close> into an empty list, in whatever order, are found at its head by
  ascending value, and by order of insertion among equal values, the greatest value included: the list
  behaves as a stable sort. No insertion fails to terminate.\<close>

theorem list_insert_drain:
  assumes "ring s l []" "distinct xs" "\<forall>x\<in>set xs. x \<noteq> xListEnd l"
  shows "\<exists>s'. insert_all (vListInsert l) xs s = Some s' \<and>
    drain (listGET_HEAD_ENTRY l) (\<lambda>x s. snd (uxListRemove x s)) (length xs) s' = sort_key (xItemValue s) xs"
  using assms by (rule lq.insert_drain)

definition demo_lists :: lists where
  "demo_lists = vListInitialise 100 \<lparr>xItemValue = (\<lambda>p. if p = 300 then 5 else 9), pxNext = (\<lambda>_. 0), pxPrevious = (\<lambda>_. 0),
     pvOwner = (\<lambda>p. p + 1), pxContainer = (\<lambda>_. 0), uxNumberOfItems = (\<lambda>_. 0), pxIndex = (\<lambda>_. 0)\<rparr>"

lemma demo_ring: "ring demo_lists 100 []"
  unfolding demo_lists_def by (rule vListInitialise_ring)

theorem list_insert_drain_witness:
  "\<exists>s'. insert_all (vListInsert 100) [200, 300, 400] demo_lists = Some s' \<and>
     drain (listGET_HEAD_ENTRY 100) (\<lambda>x s. snd (uxListRemove x s)) 3 s' = [300, 200, 400]"
proof -
  have "sort_key (xItemValue demo_lists) [200, 300, 400] = [300, 200, 400]"
    by (simp add: demo_lists_def vListInitialise_def list_setters Let_def xListEnd_def)
  moreover have "distinct [200, 300, 400 :: u32]" "\<forall>x\<in>set [200, 300, 400 :: u32]. x \<noteq> xListEnd 100" "length [200, 300, 400 :: u32] = 3"
    by (simp_all add: xListEnd_def)
  ultimately show ?thesis using list_insert_drain [OF demo_ring, of "[200, 300, 400]"] by (simp only:)
qed

text \<open>Inserting an item in sorted position, or in front of the index, links it into the ring and counts it; no
  list that shares no item with this one changes. Removing it afterwards returns the old number of items
  and gives back the list as it was, with the item in no list.\<close>

lemma list_insert_remove:
  assumes r: "ring s l xs" and x: "x \<notin> set (xListEnd l # xs)"
  shows "\<exists>s1 s2. vListInsert l x s = Some s1 \<and> ring s1 l (insort_after (xItemValue s) x xs) \<and>
    uxListRemove x s1 = (of_nat (length xs), s2) \<and> ring s2 l xs \<and> pxContainer s2 x = 0 \<and>
    (\<exists>as bs. xs = as @ bs \<and> pxIndex s l = hd (bs @ [xListEnd l]) \<and> ring (vListInsertEnd l x s) l (as @ x # bs)) \<and>
    (\<forall>k ys. k \<noteq> l \<and> ring s k ys \<and> insert x (set (xListEnd l # xs)) \<inter> set (xListEnd k # ys) = {} \<longrightarrow>
       ring s1 k ys \<and> ring (vListInsertEnd l x s) k ys)"
proof -
  let ?as = "takeWhile (\<lambda>y. xItemValue s y \<le> xItemValue s x) xs"
  let ?bs = "dropWhile (\<lambda>y. xItemValue s y \<le> xItemValue s x) xs"
  from vListInsert_ring [OF r x] obtain s1 where
    s1: "vListInsert l x s = Some s1" "ring s1 l (?as @ x # ?bs)" "same_lists (insert x (set (xListEnd l # xs))) l s s1" by blast
  from uxListRemove_ring [OF s1(2)] obtain s2 where
    s2: "uxListRemove x s1 = (of_nat (length xs), s2)" "ring s2 l xs" "pxContainer s2 x = 0" by auto
  obtain as bs where ab: "xs = as @ bs" "pxIndex s l = hd (bs @ [xListEnd l])"
  proof (cases "pxIndex s l = xListEnd l")
    case True
    then show ?thesis using that [of xs "[]"] by simp
  next
    case False
    then have "pxIndex s l \<in> set xs" using r by (simp add: ring_def)
    then obtain as bs where "xs = as @ pxIndex s l # bs" by (metis split_list)
    then show ?thesis using that [of as "pxIndex s l # bs"] by simp
  qed
  note E = vListInsertEnd_ring [OF r [unfolded ab(1)] x [unfolded ab(1)] ab(2)]
  have "ring s1 k ys \<and> ring (vListInsertEnd l x s) k ys"
    if "k \<noteq> l" "ring s k ys" "insert x (set (xListEnd l # xs)) \<inter> set (xListEnd k # ys) = {}" for k ys
    using that ring_other [OF that(2) s1(3)] ring_other [OF that(2) E(2)] by (simp add: ab(1))
  moreover have "insort_after (xItemValue s) x xs = ?as @ x # ?bs" by (simp add: insort_after_def)
  ultimately show ?thesis using s1 s2 ab E(1) by metis
qed

text \<open>As many successive calls of \<open>listGET_OWNER_OF_NEXT_ENTRY\<close> as there are items return the owner of every
  item exactly once, beginning with the one behind the index and wrapping around at the end marker, which
  is never returned: the tasks of a ready list share the processor in turn.\<close>

lemma list_round_robin:
  assumes r: "ring s l xs"
  shows "\<exists>as bs. xs = as @ bs \<and> pxIndex s l = last (xListEnd l # as) \<and>
    fst (next_owners (length xs) l s) = map (pvOwner s) (bs @ as)"
proof -
  obtain as bs where ab: "xs = as @ bs" "pxIndex s l = last (xListEnd l # as)"
  proof (cases "pxIndex s l = xListEnd l")
    case True
    then show ?thesis using that [of "[]" xs] by simp
  next
    case False
    then have "pxIndex s l \<in> set xs" using r by (simp add: ring_def)
    then obtain as bs where "xs = as @ pxIndex s l # bs" by (metis split_list)
    then show ?thesis using that [of "as @ [pxIndex s l]" bs] by simp
  qed
  with next_round [OF r [unfolded ab(1)] ab(2)] show ?thesis by blast
qed

end
