(* ===== verification/Rtos_Tasks.thy ===== *)
theory Rtos_Tasks
  imports Rtos_List
begin

unbundle bit_operations_syntax

text \<open>
  The scheduler of the Non-secure guest's kernel, \<^verbatim>\<open>src/ns_guest/lib/freertos/tasks.c\<close>, in the configuration of
  \<^verbatim>\<open>FreeRTOSConfig.h\<close>: eight priorities, preemption with time slicing, and the port's task selection by
  counting leading zeros. The lists of tasks are those of \<open>Rtos_List\<close>; a task is the address of
  its control block, with the state list item at offset 4 and the event list item at offset 24. The file-scope
  variables are the record \<open>kernel\<close>; the addresses of the file-scope lists are members of it that never change. A yield is
  the software interrupt whose handler calls \<open>vTaskSwitchContext\<close>. Trace macros and the tick hook, whose default
  is empty, and the check for stack overflow are left out.
\<close>

section \<open>State\<close>

record kernel =
  kl :: lists
  uxPriority :: "u32 \<Rightarrow> u32"
  uxBasePriority :: "u32 \<Rightarrow> u32"
  pxCurrentTCB :: u32
  pxReadyTasksLists :: u32
  xDelayedTaskList1 :: u32
  xDelayedTaskList2 :: u32
  xPendingReadyList :: u32
  xTasksWaitingTermination :: u32
  xSuspendedTaskList :: u32
  pxDelayedTaskList :: u32
  pxOverflowDelayedTaskList :: u32
  uxCurrentNumberOfTasks :: u32
  xTickCount :: u32
  uxTopReadyPriority :: u32
  xSchedulerRunning :: bool
  uxPendedTicks :: u32
  xYieldPending :: bool
  xNumOfOverflows :: u32
  xNextTaskUnblockTime :: u32
  uxSchedulerSuspended :: u32
  uxTaskNumber :: u32
  uxMutexesHeld :: "u32 \<Rightarrow> u32"
  ulNotifiedValue :: "u32 \<Rightarrow> u32"
  ucNotifyState :: "u32 \<Rightarrow> u8"

definition xStateListItem :: "u32 \<Rightarrow> u32" where
  "xStateListItem pxTCB = pxTCB + 4"

definition xEventListItem :: "u32 \<Rightarrow> u32" where
  "xEventListItem pxTCB = pxTCB + 24"

definition ready_list :: "kernel \<Rightarrow> u32 \<Rightarrow> u32" where
  "ready_list s uxPrio = pxReadyTasksLists s + 20 * uxPrio"

abbreviation taskNOT_WAITING_NOTIFICATION :: u8 where "taskNOT_WAITING_NOTIFICATION \<equiv> 0"
abbreviation taskWAITING_NOTIFICATION :: u8 where "taskWAITING_NOTIFICATION \<equiv> 1"
abbreviation taskNOTIFICATION_RECEIVED :: u8 where "taskNOTIFICATION_RECEIVED \<equiv> 2"
abbreviation configMAX_PRIORITIES :: u32 where "configMAX_PRIORITIES \<equiv> 8"

section \<open>Ready lists\<close>

definition taskRECORD_READY_PRIORITY :: "u32 \<Rightarrow> kernel \<Rightarrow> kernel" where
  "taskRECORD_READY_PRIORITY p s = s\<lparr>uxTopReadyPriority := uxTopReadyPriority s OR bit_at p\<rparr>"

definition portRESET_READY_PRIORITY :: "u32 \<Rightarrow> kernel \<Rightarrow> kernel" where
  "portRESET_READY_PRIORITY p s = s\<lparr>uxTopReadyPriority := uxTopReadyPriority s AND NOT (bit_at p)\<rparr>"

text \<open>\<open>__builtin_clz\<close>, undefined for zero.\<close>

definition clz :: "u32 \<Rightarrow> nat" where
  "clz w = length (takeWhile (\<lambda>i. \<not> bit w (31 - i)) [0..<32])"

definition portGET_HIGHEST_PRIORITY :: "u32 \<Rightarrow> u32 option" where
  "portGET_HIGHEST_PRIORITY w = (if w = 0 then None else Some (31 - of_nat (clz w)))"

definition prvAddTaskToReadyList :: "u32 \<Rightarrow> kernel \<Rightarrow> kernel" where
  "prvAddTaskToReadyList pxTCB s =
     (let s = taskRECORD_READY_PRIORITY (uxPriority s pxTCB) s
      in s\<lparr>kl := vListInsertEnd (ready_list s (uxPriority s pxTCB)) (xStateListItem pxTCB) (kl s)\<rparr>)"

definition list_remove :: "u32 \<Rightarrow> kernel \<Rightarrow> kernel" where
  "list_remove item s = s\<lparr>kl := snd (uxListRemove item (kl s))\<rparr>"

definition prvInitialiseTaskLists :: "kernel \<Rightarrow> kernel" where
  "prvInitialiseTaskLists s =
     (let s = fold (\<lambda>i s. s\<lparr>kl := vListInitialise (ready_list s (of_nat i)) (kl s)\<rparr>) [0..<8] s;
          s = s\<lparr>kl := vListInitialise (xDelayedTaskList1 s) (kl s)\<rparr>;
          s = s\<lparr>kl := vListInitialise (xDelayedTaskList2 s) (kl s)\<rparr>;
          s = s\<lparr>kl := vListInitialise (xPendingReadyList s) (kl s)\<rparr>;
          s = s\<lparr>kl := vListInitialise (xTasksWaitingTermination s) (kl s)\<rparr>;
          s = s\<lparr>kl := vListInitialise (xSuspendedTaskList s) (kl s)\<rparr>;
          s = s\<lparr>pxDelayedTaskList := xDelayedTaskList1 s\<rparr>
      in s\<lparr>pxOverflowDelayedTaskList := xDelayedTaskList2 s\<rparr>)"

section \<open>Switching\<close>

definition taskSELECT_HIGHEST_PRIORITY_TASK :: "kernel \<Rightarrow> kernel option" where
  "taskSELECT_HIGHEST_PRIORITY_TASK s =
     do { uxTopPriority \<leftarrow> portGET_HIGHEST_PRIORITY (uxTopReadyPriority s);
          let (tcb, l) = listGET_OWNER_OF_NEXT_ENTRY (ready_list s uxTopPriority) (kl s);
          Some (s\<lparr>kl := l, pxCurrentTCB := tcb\<rparr>) }"

definition vTaskSwitchContext :: "kernel \<Rightarrow> kernel option" where
  "vTaskSwitchContext s =
     (if uxSchedulerSuspended s \<noteq> 0 then Some (s\<lparr>xYieldPending := True\<rparr>)
      else taskSELECT_HIGHEST_PRIORITY_TASK (s\<lparr>xYieldPending := False\<rparr>))"

definition vTaskMissedYield :: "kernel \<Rightarrow> kernel" where
  "vTaskMissedYield s = s\<lparr>xYieldPending := True\<rparr>"

section \<open>Time\<close>

definition prvResetNextTaskUnblockTime :: "kernel \<Rightarrow> kernel" where
  "prvResetNextTaskUnblockTime s =
     (if listLIST_IS_EMPTY (pxDelayedTaskList s) (kl s) then s\<lparr>xNextTaskUnblockTime := portMAX_DELAY\<rparr>
      else let pxTCB = listGET_OWNER_OF_HEAD_ENTRY (pxDelayedTaskList s) (kl s)
           in s\<lparr>xNextTaskUnblockTime := xItemValue (kl s) (xStateListItem pxTCB)\<rparr>)"

definition taskSWITCH_DELAYED_LISTS :: "kernel \<Rightarrow> kernel" where
  "taskSWITCH_DELAYED_LISTS s =
     (let pxTemp = pxDelayedTaskList s;
          s = s\<lparr>pxDelayedTaskList := pxOverflowDelayedTaskList s\<rparr>;
          s = s\<lparr>pxOverflowDelayedTaskList := pxTemp\<rparr>;
          s = s\<lparr>xNumOfOverflows := xNumOfOverflows s + 1\<rparr>
      in prvResetNextTaskUnblockTime s)"

text \<open>The loop of \<open>xTaskIncrementTick\<close> over the tasks whose time has come.\<close>

partial_function (option) unblock_loop :: "u32 \<Rightarrow> bool \<Rightarrow> kernel \<Rightarrow> (bool \<times> kernel) option" where
  "unblock_loop xConstTickCount xSwitchRequired s =
     (if listLIST_IS_EMPTY (pxDelayedTaskList s) (kl s)
      then Some (xSwitchRequired, s\<lparr>xNextTaskUnblockTime := portMAX_DELAY\<rparr>)
      else let pxTCB = listGET_OWNER_OF_HEAD_ENTRY (pxDelayedTaskList s) (kl s);
               xValue = xItemValue (kl s) (xStateListItem pxTCB)
           in if xConstTickCount < xValue then Some (xSwitchRequired, s\<lparr>xNextTaskUnblockTime := xValue\<rparr>)
              else let s = list_remove (xStateListItem pxTCB) s;
                       s = (if pxContainer (kl s) (xEventListItem pxTCB) \<noteq> 0
                            then list_remove (xEventListItem pxTCB) s else s);
                       s = prvAddTaskToReadyList pxTCB s;
                       xSwitchRequired = (xSwitchRequired \<or> uxPriority s pxTCB \<ge> uxPriority s (pxCurrentTCB s))
                   in unblock_loop xConstTickCount xSwitchRequired s)"

definition xTaskIncrementTick :: "kernel \<Rightarrow> (bool \<times> kernel) option" where
  "xTaskIncrementTick s =
     do { (xSwitchRequired, s) \<leftarrow>
            (if uxSchedulerSuspended s = 0
             then do {
               let xConstTickCount = xTickCount s + 1;
               let s = s\<lparr>xTickCount := xConstTickCount\<rparr>;
               let s = (if xConstTickCount = 0 then taskSWITCH_DELAYED_LISTS s else s);
               (xSwitchRequired, s) \<leftarrow>
                 (if xConstTickCount \<ge> xNextTaskUnblockTime s then unblock_loop xConstTickCount False s else Some (False, s));
               let xSwitchRequired = (xSwitchRequired \<or>
                 listCURRENT_LIST_LENGTH (ready_list s (uxPriority s (pxCurrentTCB s))) (kl s) > 1);
               Some (xSwitchRequired, s) }
             else Some (False, s\<lparr>uxPendedTicks := uxPendedTicks s + 1\<rparr>));
          Some (xSwitchRequired \<or> xYieldPending s, s) }"

section \<open>Suspending the scheduler\<close>

definition vTaskSuspendAll :: "kernel \<Rightarrow> kernel" where
  "vTaskSuspendAll s = s\<lparr>uxSchedulerSuspended := uxSchedulerSuspended s + 1\<rparr>"

text \<open>The two loops of \<open>xTaskResumeAll\<close>; the flag says whether a task was moved.\<close>

partial_function (option) pending_loop :: "bool \<Rightarrow> kernel \<Rightarrow> (bool \<times> kernel) option" where
  "pending_loop moved s =
     (if listLIST_IS_EMPTY (xPendingReadyList s) (kl s) then Some (moved, s)
      else let pxTCB = listGET_OWNER_OF_HEAD_ENTRY (xPendingReadyList s) (kl s);
               s = list_remove (xEventListItem pxTCB) s;
               s = list_remove (xStateListItem pxTCB) s;
               s = prvAddTaskToReadyList pxTCB s;
               s = (if uxPriority s pxTCB \<ge> uxPriority s (pxCurrentTCB s) then s\<lparr>xYieldPending := True\<rparr> else s)
           in pending_loop True s)"

fun pended_ticks :: "nat \<Rightarrow> kernel \<Rightarrow> kernel option" where
  "pended_ticks 0 s = Some s"
| "pended_ticks (Suc n) s =
     do { (r, s) \<leftarrow> xTaskIncrementTick s;
          let s = (if r then s\<lparr>xYieldPending := True\<rparr> else s);
          pended_ticks n s }"

definition xTaskResumeAll :: "kernel \<Rightarrow> (bool \<times> kernel) option" where
  "xTaskResumeAll s =
     do { let s = s\<lparr>uxSchedulerSuspended := uxSchedulerSuspended s - 1\<rparr>;
          if uxSchedulerSuspended s = 0 \<and> uxCurrentNumberOfTasks s > 0
          then do {
            (moved, s) \<leftarrow> pending_loop False s;
            let s = (if moved then prvResetNextTaskUnblockTime s else s);
            s \<leftarrow> (if uxPendedTicks s > 0
                 then do { s \<leftarrow> pended_ticks (unat (uxPendedTicks s)) s; Some (s\<lparr>uxPendedTicks := 0\<rparr>) }
                 else Some s);
            if xYieldPending s then do { s \<leftarrow> vTaskSwitchContext s; Some (True, s) } else Some (False, s) }
          else Some (False, s) }"

section \<open>Blocking\<close>

definition prvAddCurrentTaskToDelayedList :: "u32 \<Rightarrow> bool \<Rightarrow> kernel \<Rightarrow> kernel option" where
  "prvAddCurrentTaskToDelayedList xTicksToWait xCanBlockIndefinitely s =
     do { let xConstTickCount = xTickCount s;
          let item = xStateListItem (pxCurrentTCB s);
          let (left, l) = uxListRemove item (kl s);
          let s = s\<lparr>kl := l\<rparr>;
          let s = (if left = 0 then portRESET_READY_PRIORITY (uxPriority s (pxCurrentTCB s)) s else s);
          if xTicksToWait = portMAX_DELAY \<and> xCanBlockIndefinitely
          then Some (s\<lparr>kl := vListInsertEnd (xSuspendedTaskList s) item (kl s)\<rparr>)
          else do {
            let xTimeToWake = xConstTickCount + xTicksToWait;
            let s = s\<lparr>kl := listSET_LIST_ITEM_VALUE item xTimeToWake (kl s)\<rparr>;
            if xTimeToWake < xConstTickCount
            then do { l \<leftarrow> vListInsert (pxOverflowDelayedTaskList s) item (kl s); Some (s\<lparr>kl := l\<rparr>) }
            else do { l \<leftarrow> vListInsert (pxDelayedTaskList s) item (kl s);
                      let s = s\<lparr>kl := l\<rparr>;
                      Some (if xTimeToWake < xNextTaskUnblockTime s
                            then s\<lparr>xNextTaskUnblockTime := xTimeToWake\<rparr> else s) } } }"

definition vTaskDelay :: "u32 \<Rightarrow> kernel \<Rightarrow> kernel option" where
  "vTaskDelay xTicksToDelay s =
     do { (xAlreadyYielded, s) \<leftarrow>
            (if xTicksToDelay > 0
             then do { s \<leftarrow> prvAddCurrentTaskToDelayedList xTicksToDelay False (vTaskSuspendAll s);
                       xTaskResumeAll s }
             else Some (False, s));
          if \<not> xAlreadyYielded then vTaskSwitchContext s else Some s }"

text \<open>The wake time is counted from the last one, so the period does not drift.\<close>

definition xShouldDelay :: "u32 \<Rightarrow> u32 \<Rightarrow> u32 \<Rightarrow> bool" where
  "xShouldDelay xPreviousWakeTime xTimeToWake xConstTickCount \<longleftrightarrow>
     (if xConstTickCount < xPreviousWakeTime
      then xTimeToWake < xPreviousWakeTime \<and> xTimeToWake > xConstTickCount
      else xTimeToWake < xPreviousWakeTime \<or> xTimeToWake > xConstTickCount)"

definition vTaskDelayUntil :: "u32 \<Rightarrow> u32 \<Rightarrow> kernel \<Rightarrow> (u32 \<times> kernel) option" where
  "vTaskDelayUntil xPreviousWakeTime xTimeIncrement s =
     do { let s = vTaskSuspendAll s;
          let xConstTickCount = xTickCount s;
          let xTimeToWake = xPreviousWakeTime + xTimeIncrement;
          s \<leftarrow> (if xShouldDelay xPreviousWakeTime xTimeToWake xConstTickCount
                then prvAddCurrentTaskToDelayedList (xTimeToWake - xConstTickCount) False s else Some s);
          (xAlreadyYielded, s) \<leftarrow> xTaskResumeAll s;
          s \<leftarrow> (if \<not> xAlreadyYielded then vTaskSwitchContext s else Some s);
          Some (xTimeToWake, s) }"

section \<open>Tasks\<close>

text \<open>The members of the control block that the scheduler uses; name and stack are left out.\<close>

definition prvInitialiseNewTask :: "u32 \<Rightarrow> u32 \<Rightarrow> kernel \<Rightarrow> kernel" where
  "prvInitialiseNewTask prio pxNewTCB s =
     (let prio = (if prio \<ge> configMAX_PRIORITIES then configMAX_PRIORITIES - 1 else prio);
          s = s\<lparr>uxPriority := (uxPriority s)(pxNewTCB := prio)\<rparr>;
          s = s\<lparr>uxBasePriority := (uxBasePriority s)(pxNewTCB := prio)\<rparr>;
          s = s\<lparr>uxMutexesHeld := (uxMutexesHeld s)(pxNewTCB := 0)\<rparr>;
          l = vListInitialiseItem (xStateListItem pxNewTCB) (kl s);
          l = vListInitialiseItem (xEventListItem pxNewTCB) l;
          l = listSET_LIST_ITEM_OWNER (xStateListItem pxNewTCB) pxNewTCB l;
          l = listSET_LIST_ITEM_VALUE (xEventListItem pxNewTCB) (configMAX_PRIORITIES - prio) l;
          l = listSET_LIST_ITEM_OWNER (xEventListItem pxNewTCB) pxNewTCB l;
          s = s\<lparr>ulNotifiedValue := (ulNotifiedValue s)(pxNewTCB := 0)\<rparr>;
          s = s\<lparr>ucNotifyState := (ucNotifyState s)(pxNewTCB := taskNOT_WAITING_NOTIFICATION)\<rparr>
      in s\<lparr>kl := l\<rparr>)"

definition prvAddNewTaskToReadyList :: "u32 \<Rightarrow> kernel \<Rightarrow> kernel option" where
  "prvAddNewTaskToReadyList pxNewTCB s =
     (let s = s\<lparr>uxCurrentNumberOfTasks := uxCurrentNumberOfTasks s + 1\<rparr>;
          s = (if pxCurrentTCB s = 0
               then let s = s\<lparr>pxCurrentTCB := pxNewTCB\<rparr>
                    in if uxCurrentNumberOfTasks s = 1 then prvInitialiseTaskLists s else s
               else if \<not> xSchedulerRunning s \<and> uxPriority s (pxCurrentTCB s) \<le> uxPriority s pxNewTCB
               then s\<lparr>pxCurrentTCB := pxNewTCB\<rparr> else s);
          s = s\<lparr>uxTaskNumber := uxTaskNumber s + 1\<rparr>;
          s = prvAddTaskToReadyList pxNewTCB s
      in if xSchedulerRunning s \<and> uxPriority s (pxCurrentTCB s) < uxPriority s pxNewTCB
         then vTaskSwitchContext s else Some s)"

text \<open>The control block is the one allocated, none when there was not enough memory; the result is \<open>pdPASS\<close> or an error.\<close>

definition xTaskCreate :: "u32 \<Rightarrow> u32 option \<Rightarrow> kernel \<Rightarrow> (bool \<times> kernel) option" where
  "xTaskCreate prio pxNewTCB s =
     (case pxNewTCB of
        None \<Rightarrow> Some (False, s)
      | Some tcb \<Rightarrow> do { s \<leftarrow> prvAddNewTaskToReadyList tcb (prvInitialiseNewTask prio tcb s); Some (True, s) })"

abbreviation configTIMER_TASK_PRIORITY :: u32 where "configTIMER_TASK_PRIORITY \<equiv> configMAX_PRIORITIES - 1"

text \<open>Up to the call of \<open>xPortStartScheduler\<close>, which does not return; the result says whether the kernel starts.\<close>

definition vTaskStartScheduler :: "u32 option \<Rightarrow> u32 option \<Rightarrow> kernel \<Rightarrow> (bool \<times> kernel) option" where
  "vTaskStartScheduler idle_tcb timer_tcb s =
     do { (xReturn, s) \<leftarrow> xTaskCreate 0 idle_tcb s;
          (xReturn, s) \<leftarrow> (if xReturn then xTaskCreate configTIMER_TASK_PRIORITY timer_tcb s else Some (xReturn, s));
          Some (xReturn, if xReturn
            then s\<lparr>xNextTaskUnblockTime := portMAX_DELAY, xSchedulerRunning := True, xTickCount := 0\<rparr> else s) }"

section \<open>The tick interrupt\<close>

text \<open>The handler of the port sets \<open>ulPortYieldRequired\<close>; on the way out of the interrupt, at nesting depth zero,
  the flag makes the port switch the task.\<close>

definition FreeRTOS_Tick_Handler :: "bool \<Rightarrow> kernel \<Rightarrow> (bool \<times> kernel) option" where
  "FreeRTOS_Tick_Handler ulPortYieldRequired s =
     do { (r, s) \<leftarrow> xTaskIncrementTick s;
          Some (if r then True else ulPortYieldRequired, s) }"

definition irq_exit :: "bool \<Rightarrow> kernel \<Rightarrow> kernel option" where
  "irq_exit ulPortYieldRequired s = (if ulPortYieldRequired then vTaskSwitchContext s else Some s)"

fun tick_interrupts :: "nat \<Rightarrow> kernel \<Rightarrow> kernel option" where
  "tick_interrupts 0 s = Some s"
| "tick_interrupts (Suc n) s =
     do { (ulPortYieldRequired, s) \<leftarrow> FreeRTOS_Tick_Handler False s;
          s \<leftarrow> irq_exit ulPortYieldRequired s;
          tick_interrupts n s }"

section \<open>Events\<close>

definition vTaskPlaceOnEventList :: "u32 \<Rightarrow> u32 \<Rightarrow> kernel \<Rightarrow> kernel option" where
  "vTaskPlaceOnEventList pxEventList xTicksToWait s =
     do { l \<leftarrow> vListInsert pxEventList (xEventListItem (pxCurrentTCB s)) (kl s);
          prvAddCurrentTaskToDelayedList xTicksToWait True (s\<lparr>kl := l\<rparr>) }"

definition xTaskRemoveFromEventList :: "u32 \<Rightarrow> kernel \<Rightarrow> bool \<times> kernel" where
  "xTaskRemoveFromEventList pxEventList s =
     (let pxUnblockedTCB = listGET_OWNER_OF_HEAD_ENTRY pxEventList (kl s);
          s = list_remove (xEventListItem pxUnblockedTCB) s;
          s = (if uxSchedulerSuspended s = 0
               then prvAddTaskToReadyList pxUnblockedTCB (list_remove (xStateListItem pxUnblockedTCB) s)
               else s\<lparr>kl := vListInsertEnd (xPendingReadyList s) (xEventListItem pxUnblockedTCB) (kl s)\<rparr>)
      in if uxPriority s pxUnblockedTCB > uxPriority s (pxCurrentTCB s)
         then (True, s\<lparr>xYieldPending := True\<rparr>) else (False, s))"

section \<open>Timeouts\<close>

record TimeOut =
  xOverflowCount :: u32
  xTimeOnEntering :: u32

definition vTaskInternalSetTimeOutState :: "kernel \<Rightarrow> TimeOut" where
  "vTaskInternalSetTimeOutState s = \<lparr>xOverflowCount = xNumOfOverflows s, xTimeOnEntering = xTickCount s\<rparr>"

definition xTaskCheckForTimeOut :: "TimeOut \<Rightarrow> u32 \<Rightarrow> kernel \<Rightarrow> bool \<times> TimeOut \<times> u32" where
  "xTaskCheckForTimeOut pxTimeOut pxTicksToWait s =
     (let xConstTickCount = xTickCount s;
          xElapsedTime = xConstTickCount - xTimeOnEntering pxTimeOut
      in if pxTicksToWait = portMAX_DELAY then (False, pxTimeOut, pxTicksToWait)
         else if xNumOfOverflows s \<noteq> xOverflowCount pxTimeOut \<and> xConstTickCount \<ge> xTimeOnEntering pxTimeOut
         then (True, pxTimeOut, pxTicksToWait)
         else if xElapsedTime < pxTicksToWait
         then (False, vTaskInternalSetTimeOutState s, pxTicksToWait - xElapsedTime)
         else (True, pxTimeOut, 0))"

section \<open>A family of lists\<close>

text \<open>\<open>rings L X s G\<close>: the list at each address \<open>l\<close> of \<open>L\<close> holds the items \<open>G l\<close>, all items are in \<open>X\<close>, and the container
  member of an item of \<open>X\<close> says in which list it is, zero for none.\<close>

definition rings :: "u32 set \<Rightarrow> u32 set \<Rightarrow> lists \<Rightarrow> (u32 \<Rightarrow> u32 list) \<Rightarrow> bool" where
  "rings L X s G \<longleftrightarrow> (\<forall>l\<in>L. ring s l (G l) \<and> set (G l) \<subseteq> X) \<and> 0 \<notin> L \<and> X \<inter> xListEnd ` L = {} \<and>
     (\<forall>x\<in>X. pxContainer s x = 0 \<or> pxContainer s x \<in> L \<and> x \<in> set (G (pxContainer s x)))"

lemma xListEnd_inj: "xListEnd l = xListEnd k \<longleftrightarrow> l = k"
  by (simp add: xListEnd_def)

lemma rings_ring: "rings L X s G \<Longrightarrow> l \<in> L \<Longrightarrow> ring s l (G l)"
  by (simp add: rings_def)

lemma rings_container: "rings L X s G \<Longrightarrow> l \<in> L \<Longrightarrow> x \<in> set (G l) \<Longrightarrow> pxContainer s x = l \<and> x \<in> X"
  unfolding rings_def ring_def by blast

lemma rings_D:
  assumes "rings L X s G"
  shows "0 \<notin> L" "X \<inter> xListEnd ` L = {}" "l \<in> L \<Longrightarrow> set (G l) \<subseteq> X"
    "x \<in> X \<Longrightarrow> pxContainer s x \<noteq> 0 \<Longrightarrow> pxContainer s x \<in> L \<and> x \<in> set (G (pxContainer s x))"
  using assms by (auto simp: rings_def)

lemma rings_member:
  assumes R: "rings L X s G" and x: "x \<in> X" and l: "l \<in> L"
  shows "x \<in> set (G l) \<longleftrightarrow> pxContainer s x = l"
proof
  have "l \<noteq> 0" using l rings_D(1) [OF R] by blast
  then show "x \<in> set (G l)" if "pxContainer s x = l" using rings_D(4) [OF R x] that by simp
qed (use rings_container [OF R l] in simp)

lemma rings_loose:
  assumes "rings L X s G" "l \<in> L" "x \<in> X" "pxContainer s x = 0"
  shows "x \<notin> set (xListEnd l # G l)"
proof -
  have "0 \<notin> L" "X \<inter> xListEnd ` L = {}" using assms(1) unfolding rings_def by blast+
  then show ?thesis using rings_container [OF assms(1,2)] assms(2-4) by auto
qed

text \<open>An operation on the list at \<open>l\<close> that only moves the item \<open>x\<close> keeps the other lists.\<close>

lemma rings_update:
  assumes R: "rings L X s G" and l: "l \<in> L" and r: "ring s' l xs" "set xs \<subseteq> X"
    and same: "same_lists (insert x (set (xListEnd l # G l))) l s s'"
    and x: "x \<in> X" "pxContainer s x \<in> {0, l}" "set xs = insert x (set (G l)) \<and> pxContainer s' x = l \<or> set xs = set (G l) - {x} \<and> pxContainer s' x = 0"
  shows "rings L X s' (G(l := xs))"
    and "\<And>y. y \<in> X \<Longrightarrow> y \<noteq> x \<Longrightarrow> pxContainer s' y = pxContainer s y"
proof -
  have other: "ring s' k (G k)" if "k \<in> L" "k \<noteq> l" for k
  proof (rule ring_other [OF rings_ring [OF R that(1)] same that(2)])
    have ends: "y \<noteq> xListEnd j" if "y \<in> X" "j \<in> L" for y j using rings_D(2) [OF R] that by blast
    have "k \<noteq> 0" using that(1) rings_D(1) [OF R] by blast
    then have "x \<notin> set (G k)" using rings_member [OF R x(1) that(1)] x(2) that(2) by auto
    moreover have "set (G l) \<inter> set (G k) = {}"
      using rings_container [OF R l] rings_container [OF R that(1)] that(2) by (metis disjoint_iff)
    moreover have "x \<noteq> xListEnd k" using ends [OF x(1) that(1)] .
    moreover have "xListEnd l \<noteq> xListEnd k" using that(2) xListEnd_inj by simp
    moreover have "xListEnd l \<notin> set (G k)" using ends [OF _ l] rings_D(3) [OF R that(1)] by blast
    moreover have "xListEnd k \<notin> set (G l)" using ends [OF _ that(1)] rings_D(3) [OF R l] by blast
    ultimately show "insert x (set (xListEnd l # G l)) \<inter> insert (xListEnd k) (set (G k)) = {}" by simp
  qed
  have keep: "pxContainer s' y = pxContainer s y" if "y \<in> X" "y \<noteq> x" for y
  proof (cases "y \<in> set (G l)")
    case True
    then have "y \<in> set xs" using x(3) that(2) by auto
    then have "pxContainer s' y = l" using r(1) by (simp add: ring_def)
    then show ?thesis using rings_container [OF R l True] by simp
  next
    case False
    moreover have "y \<noteq> xListEnd l" using R that(1) l unfolding rings_def by blast
    ultimately show ?thesis using same that(2) by (simp add: same_lists_def)
  qed
  then show "\<And>y. y \<in> X \<Longrightarrow> y \<noteq> x \<Longrightarrow> pxContainer s' y = pxContainer s y" .
  show "rings L X s' (G(l := xs))"
    unfolding rings_def
  proof (intro conjI ballI)
    show "0 \<notin> L" "X \<inter> xListEnd ` L = {}" using R unfolding rings_def by blast+
    fix k
    assume k: "k \<in> L"
    show "ring s' k ((G(l := xs)) k)" "set ((G(l := xs)) k) \<subseteq> X" using k r other R by (auto simp: rings_def)
  next
    fix y
    assume y: "y \<in> X"
    show "pxContainer s' y = 0 \<or> pxContainer s' y \<in> L \<and> y \<in> set ((G(l := xs)) (pxContainer s' y))"
    proof (cases "y = x")
      case True
      then show ?thesis using x(3) l by auto
    next
      case False
      then have "pxContainer s y = 0 \<or> pxContainer s y \<in> L \<and> y \<in> set (G (pxContainer s y))" using R y unfolding rings_def by blast
      then show ?thesis using keep [OF y False] x(3) False by auto
    qed
  qed
qed

text \<open>Insertion in front of the item \<open>i\<close>, at the end when there is none.\<close>

definition ins_before :: "u32 \<Rightarrow> u32 \<Rightarrow> u32 list \<Rightarrow> u32 list" where
  "ins_before i x xs = takeWhile (\<lambda>y. y \<noteq> i) xs @ x # dropWhile (\<lambda>y. y \<noteq> i) xs"

lemma set_ins_before [simp]: "set (ins_before i x xs) = insert x (set xs)"
  unfolding ins_before_def by (metis Un_insert_right list.simps(15) set_append takeWhile_dropWhile_id)

lemma set_insort_after [simp]: "set (insort_after f x xs) = insert x (set xs)"
  unfolding insort_after_def by (metis Un_insert_right list.simps(15) set_append takeWhile_dropWhile_id)

lemma length_ins_before [simp]: "length (ins_before i x xs) = Suc (length xs)"
  unfolding ins_before_def by simp (metis length_append takeWhile_dropWhile_id)

lemma rings_insert:
  assumes R: "rings L X s G" and l: "l \<in> L" and x: "x \<in> X" "pxContainer s x = 0"
  shows "\<exists>s'. vListInsert l x s = Some s' \<and> rings L X s' (G(l := insort_after (xItemValue s) x (G l))) \<and>
    xItemValue s' = xItemValue s \<and> pvOwner s' = pvOwner s \<and> pxIndex s' = pxIndex s \<and>
    (\<forall>y\<in>X. pxContainer s' y = (if y = x then l else pxContainer s y))"
proof -
  from vListInsert_ring [OF rings_ring [OF R l] rings_loose [OF R l x]] obtain s' where
    s': "vListInsert l x s = Some s'" "ring s' l (insort_after (xItemValue s) x (G l))"
      "same_lists (insert x (set (xListEnd l # G l))) l s s'" "pxContainer s' x = l" "pxIndex s' = pxIndex s"
    unfolding insort_after_def by blast
  have set: "set (insort_after (xItemValue s) x (G l)) = insert x (set (G l))"
    by simp
  then have "set (insort_after (xItemValue s) x (G l)) \<subseteq> X" using R l x(1) by (simp add: rings_def)
  note up = rings_update [OF R l s'(2) this s'(3) x(1)]
  have "rings L X s' (G(l := insort_after (xItemValue s) x (G l)))" using up(1) set s'(4) x(2) by simp
  moreover have "pxContainer s' y = (if y = x then l else pxContainer s y)" if "y \<in> X" for y
    using up(2) [OF _ _ that] set s'(4) x(2) by simp
  ultimately show ?thesis using s' by (auto simp: same_lists_def)
qed

lemma rings_insert_end:
  assumes R: "rings L X s G" and l: "l \<in> L" and x: "x \<in> X" "pxContainer s x = 0"
  defines "s' \<equiv> vListInsertEnd l x s"
  shows "rings L X s' (G(l := ins_before (pxIndex s l) x (G l)))" "xItemValue s' = xItemValue s" "pvOwner s' = pvOwner s"
    "pxIndex s' = pxIndex s" "\<And>y. y \<in> X \<Longrightarrow> pxContainer s' y = (if y = x then l else pxContainer s y)"
proof -
  let ?as = "takeWhile (\<lambda>y. y \<noteq> pxIndex s l) (G l)" and ?bs = "dropWhile (\<lambda>y. y \<noteq> pxIndex s l) (G l)"
  have r: "ring s l (?as @ ?bs)" using rings_ring [OF R l] by simp
  have n: "x \<notin> set (xListEnd l # ?as @ ?bs)" using rings_loose [OF R l x] by simp
  have "pxIndex s l \<in> insert (xListEnd l) (set (G l))" using rings_ring [OF R l] by (simp add: ring_def)
  then have i: "pxIndex s l = hd (?bs @ [xListEnd l])"
  proof (cases "pxIndex s l \<in> set (G l)")
    case True
    then have "?bs \<noteq> []" by (auto simp: dropWhile_eq_Nil_conv)
    then show ?thesis using hd_dropWhile [of "\<lambda>y. y \<noteq> pxIndex s l" "G l"] by simp
  next
    case False
    then have "?bs = []" by (auto simp: dropWhile_eq_Nil_conv)
    moreover have "pxIndex s l = xListEnd l" using \<open>pxIndex s l \<in> _\<close> False by blast
    ultimately show ?thesis by (simp only: append_Nil list.sel)
  qed
  note E = vListInsertEnd_ring [OF r n i, folded s'_def]
  have a: "ring s' l (ins_before (pxIndex s l) x (G l))" using E(1) by (simp add: ins_before_def)
  have b: "set (ins_before (pxIndex s l) x (G l)) \<subseteq> X" using rings_D(3) [OF R l] x(1) by simp
  have c: "same_lists (insert x (set (xListEnd l # G l))) l s s'" using E(2) by simp
  have up: "rings L X s' (G(l := ins_before (pxIndex s l) x (G l)))"
      "\<And>y. y \<in> X \<Longrightarrow> y \<noteq> x \<Longrightarrow> pxContainer s' y = pxContainer s y"
    using rings_update [OF R l a b c x(1)] E(4) x(2) by simp_all
  then show "rings L X s' (G(l := ins_before (pxIndex s l) x (G l)))" by blast
  show "\<And>y. y \<in> X \<Longrightarrow> pxContainer s' y = (if y = x then l else pxContainer s y)" using up(2) E(4) by simp
  show "xItemValue s' = xItemValue s" "pvOwner s' = pvOwner s" using E(2) by (simp_all add: same_lists_def)
  show "pxIndex s' = pxIndex s" by (rule E(3))
qed

lemma rings_remove:
  assumes R: "rings L X s G" and x: "x \<in> X" "pxContainer s x = l" "l \<noteq> 0"
  shows "\<exists>s'. uxListRemove x s = (of_nat (length (G l) - 1), s') \<and> rings L X s' (G(l := remove1 x (G l))) \<and>
    xItemValue s' = xItemValue s \<and> pvOwner s' = pvOwner s \<and>
    (\<forall>y\<in>X. pxContainer s' y = (if y = x then 0 else pxContainer s y))"
proof -
  have l: "l \<in> L" "x \<in> set (G l)" using R x unfolding rings_def by blast+
  then obtain as bs where G: "G l = as @ x # bs" by (meson split_list)
  have r: "ring s l (as @ x # bs)" using rings_ring [OF R l(1)] by (simp only: G)
  have d: "distinct (as @ x # bs)" using r by (simp add: ring_def)
  then have rem: "remove1 x (G l) = as @ bs" by (simp add: G remove1_append)
  from uxListRemove_ring [OF r] obtain s' where s': "uxListRemove x s = (of_nat (length (as @ bs)), s')" "ring s' l (as @ bs)"
    "same_lists (set (xListEnd l # as @ x # bs)) l s s'" "pxContainer s' x = 0" by blast
  have a: "set (as @ bs) \<subseteq> X" using rings_D(3) [OF R l(1)] by (auto simp: G)
  have b: "set (as @ bs) = set (G l) - {x}" using d by (auto simp: G)
  have c: "same_lists (insert x (set (xListEnd l # G l))) l s s'" using s'(3) G by (simp add: insert_commute insert_absorb)
  have h: "pxContainer s x \<in> {0, l}" using x(2) by simp
  note up = rings_update [OF R l(1) s'(2) a c x(1) h disjI2, OF conjI, OF b s'(4)]
  then show ?thesis using s' unfolding rem by (auto simp: G same_lists_def)
qed

lemma ring_length: "ring s l xs \<Longrightarrow> length xs < 2 ^ 32"
proof -
  assume "ring s l xs"
  then have "card (set (xListEnd l # xs)) = Suc (length xs)" by (auto simp: ring_def distinct_card)
  moreover have "card (set (xListEnd l # xs)) \<le> card (UNIV :: u32 set)" by (rule card_mono) simp_all
  ultimately show ?thesis by (simp add: card_word)
qed

lemma rings_empty: "rings L X s G \<Longrightarrow> l \<in> L \<Longrightarrow> listLIST_IS_EMPTY l s \<longleftrightarrow> G l = []"
  using ring_length [of s l "G l"] rings_ring [of L X s G l] 
  by (auto simp: listLIST_IS_EMPTY_def ring_def word_unat_eq_iff unat_of_nat)

section \<open>Invariant of the scheduler\<close>

definition ready_lists :: "kernel \<Rightarrow> u32 set" where
  "ready_lists s = ready_list s ` {p. p < configMAX_PRIORITIES}"

definition state_lists :: "kernel \<Rightarrow> u32 set" where
  "state_lists s = ready_lists s \<union> {xDelayedTaskList1 s, xDelayedTaskList2 s, xTasksWaitingTermination s, xSuspendedTaskList s}"

definition event_lists :: "u32 set \<Rightarrow> kernel \<Rightarrow> u32 set" where
  "event_lists E s = insert (xPendingReadyList s) E"

definition items :: "u32 set \<Rightarrow> u32 set" where
  "items T = xStateListItem ` T \<union> xEventListItem ` T"

text \<open>The lists and items do not overlap.\<close>

definition layout :: "u32 set \<Rightarrow> u32 set \<Rightarrow> kernel \<Rightarrow> bool" where
  "layout T E s \<longleftrightarrow> distinct [xDelayedTaskList1 s, xDelayedTaskList2 s, xTasksWaitingTermination s, xSuspendedTaskList s] \<and>
     ready_lists s \<inter> {xDelayedTaskList1 s, xDelayedTaskList2 s, xTasksWaitingTermination s, xSuspendedTaskList s} = {} \<and>
     state_lists s \<inter> event_lists E s = {} \<and> xPendingReadyList s \<notin> E \<and>
     xStateListItem ` T \<inter> xEventListItem ` T = {}"

definition waiting_order :: "kernel \<Rightarrow> (u32 \<Rightarrow> u32 list) \<Rightarrow> u32 \<Rightarrow> bool" where
  "waiting_order s G l \<longleftrightarrow> sorted (map (xItemValue (kl s)) (G l))"

text \<open>Every list of the kernel and every event list of \<open>E\<close> is well formed, the state item of each task of \<open>T\<close> is in a list of
  states or in none, its event item in an event list or in none; a task in a ready list has the priority of that list,
  the bit map says which ready lists are not empty, and the delayed lists are sorted by wake time.\<close>

definition kcore :: "u32 set \<Rightarrow> u32 set \<Rightarrow> kernel \<Rightarrow> (u32 \<Rightarrow> u32 list) \<Rightarrow> bool" where
  "kcore T E s G \<longleftrightarrow>
     rings (state_lists s \<union> event_lists E s) (items T) (kl s) G \<and> layout T E s \<and>
     (\<forall>t\<in>T. uxPriority s t < configMAX_PRIORITIES \<and> pvOwner (kl s) (xStateListItem t) = t \<and> pvOwner (kl s) (xEventListItem t) = t \<and>
        pxContainer (kl s) (xStateListItem t) \<in> insert 0 (state_lists s) \<and>
        pxContainer (kl s) (xEventListItem t) \<in> insert 0 (event_lists E s) \<and>
        (\<forall>p < configMAX_PRIORITIES. pxContainer (kl s) (xStateListItem t) = ready_list s p \<longrightarrow> uxPriority s t = p)) \<and>
     {pxDelayedTaskList s, pxOverflowDelayedTaskList s} = {xDelayedTaskList1 s, xDelayedTaskList2 s} \<and>
     (\<forall>n. bit (uxTopReadyPriority s) n \<longleftrightarrow> n < 8 \<and> G (ready_list s (of_nat n)) \<noteq> []) \<and>
     waiting_order s G (pxDelayedTaskList s) \<and> waiting_order s G (pxOverflowDelayedTaskList s)"

text \<open>Wake times: those of the current list are ahead of the tick count, those of the other list behind it, to be
  reached after the count has wrapped; no task of the current list is due before the next unblock time.\<close>

definition ktime :: "kernel \<Rightarrow> (u32 \<Rightarrow> u32 list) \<Rightarrow> bool" where
  "ktime s G \<longleftrightarrow> (\<forall>x\<in>set (G (pxDelayedTaskList s)). xTickCount s < xItemValue (kl s) x \<and> xNextTaskUnblockTime s \<le> xItemValue (kl s) x) \<and>
     (\<forall>x\<in>set (G (pxOverflowDelayedTaskList s)). xItemValue (kl s) x < xTickCount s)"

lemma ready_list_inj:
  assumes "p < 8" "q < 8" "ready_list s p = ready_list s q"
  shows "p = q"
proof -
  have "unat (20 * r) = 20 * unat r" if "r < 8" for r :: u32
    using that by (simp add: unat_mult_lem [THEN iffD1] word_less_nat_alt)
  moreover have "unat (20 * p) = unat (20 * q)" using assms(3) by (simp add: ready_list_def)
  ultimately show ?thesis using assms(1,2) by (simp add: word_unat_eq_iff)
qed

lemma ready_list_other:
  assumes "n < 8" "n \<noteq> unat q" "q < 8"
  shows "ready_list s (of_nat n) \<noteq> ready_list s q"
proof
  assume eq: "ready_list s (of_nat n) = ready_list s q"
  have "(of_nat n :: u32) < 8" using assms(1) by (simp add: word_less_nat_alt unat_of_nat)
  from ready_list_inj [OF this assms(3) eq] have "unat (of_nat n :: u32) = unat q" by simp
  then show False using assms(1,2) by (simp add: unat_of_nat)
qed

lemma item_ne [simp]: "xStateListItem t = xStateListItem u \<longleftrightarrow> t = u" "xEventListItem t = xEventListItem u \<longleftrightarrow> t = u"
  by (simp_all add: xStateListItem_def xEventListItem_def)

lemma items_in: "t \<in> T \<Longrightarrow> xStateListItem t \<in> items T" "t \<in> T \<Longrightarrow> xEventListItem t \<in> items T"
  by (simp_all add: items_def)

lemma layout_items: "layout T E s \<Longrightarrow> t \<in> T \<Longrightarrow> u \<in> T \<Longrightarrow> xStateListItem t \<noteq> xEventListItem u"
  unfolding layout_def by blast

lemma kcoreD:
  assumes "kcore T E s G"
  shows "rings (state_lists s \<union> event_lists E s) (items T) (kl s) G" "layout T E s"
    "{pxDelayedTaskList s, pxOverflowDelayedTaskList s} = {xDelayedTaskList1 s, xDelayedTaskList2 s}"
    "\<And>n. bit (uxTopReadyPriority s) n \<longleftrightarrow> n < 8 \<and> G (ready_list s (of_nat n)) \<noteq> []"
    "waiting_order s G (pxDelayedTaskList s)" "waiting_order s G (pxOverflowDelayedTaskList s)"
  using assms unfolding kcore_def by blast+

lemma kcore_task:
  assumes "kcore T E s G" "t \<in> T"
  shows "uxPriority s t < 8" "pvOwner (kl s) (xStateListItem t) = t" "pvOwner (kl s) (xEventListItem t) = t"
    "pxContainer (kl s) (xStateListItem t) \<in> insert 0 (state_lists s)"
    "pxContainer (kl s) (xEventListItem t) \<in> insert 0 (event_lists E s)"
    "p < 8 \<Longrightarrow> pxContainer (kl s) (xStateListItem t) = ready_list s p \<Longrightarrow> uxPriority s t = p"
  using assms unfolding kcore_def by blast+

text \<open>Fields an operation on lists and bit map leaves alone.\<close>

definition kframe :: "kernel \<Rightarrow> kernel \<Rightarrow> bool" where
  "kframe s s' \<longleftrightarrow> (\<exists>l w. s' = s\<lparr>kl := l, uxTopReadyPriority := w\<rparr>)"

lemma kframe_fields:
  assumes "kframe s s'"
  shows "state_lists s' = state_lists s" "event_lists E s' = event_lists E s" "layout T E s' = layout T E s" "ready_list s' = ready_list s"
    "ready_lists s' = ready_lists s" "uxPriority s' = uxPriority s" "pxCurrentTCB s' = pxCurrentTCB s" "pxDelayedTaskList s' = pxDelayedTaskList s"
    "pxOverflowDelayedTaskList s' = pxOverflowDelayedTaskList s" "xTickCount s' = xTickCount s"
    "xNextTaskUnblockTime s' = xNextTaskUnblockTime s" "uxSchedulerSuspended s' = uxSchedulerSuspended s"
    "xDelayedTaskList1 s' = xDelayedTaskList1 s" "xDelayedTaskList2 s' = xDelayedTaskList2 s" "xPendingReadyList s' = xPendingReadyList s"
    "xYieldPending s' = xYieldPending s" "uxPendedTicks s' = uxPendedTicks s" "xSuspendedTaskList s' = xSuspendedTaskList s"
    "xNumOfOverflows s' = xNumOfOverflows s"
  using assms by (auto simp: kframe_def state_lists_def event_lists_def layout_def ready_lists_def ready_list_def fun_eq_iff)

lemma kframe_trans: "kframe s s' \<Longrightarrow> kframe s' s'' \<Longrightarrow> kframe s s''"
  unfolding kframe_def by clarsimp blast

lemma kframe_next:
  assumes "kframe s s'"
  shows "kframe (s\<lparr>xNextTaskUnblockTime := n\<rparr>) (s'\<lparr>xNextTaskUnblockTime := n\<rparr>)"
proof -
  obtain l w where "s' = s\<lparr>kl := l, uxTopReadyPriority := w\<rparr>" using assms unfolding kframe_def by blast
  then have "s'\<lparr>xNextTaskUnblockTime := n\<rparr> = s\<lparr>xNextTaskUnblockTime := n, kl := l, uxTopReadyPriority := w\<rparr>" by simp
  then show ?thesis unfolding kframe_def by blast
qed

lemma kframe_refl: "kframe s s"
proof -
  have "s = s\<lparr>kl := kl s, uxTopReadyPriority := uxTopReadyPriority s\<rparr>" by simp
  then show ?thesis unfolding kframe_def by blast
qed

text \<open>Taking an item out of a list that is not a ready list.\<close>

lemma kcore_remove:
  assumes K: "kcore T E s G" and x: "x \<in> items T" and l: "pxContainer (kl s) x = l" "l \<noteq> 0" "l \<notin> ready_lists s"
  defines "s' \<equiv> list_remove x s"
  shows "kcore T E s' (G(l := remove1 x (G l)))" "kframe s s'" "xItemValue (kl s') = xItemValue (kl s)"
    "\<And>y. y \<in> items T \<Longrightarrow> pxContainer (kl s') y = (if y = x then 0 else pxContainer (kl s) y)"
proof -
  note D = kcoreD [OF K]
  let ?G = "G(l := remove1 x (G l))"
  from rings_remove [OF D(1) x l(1,2)] obtain l' where
    r: "uxListRemove x (kl s) = (of_nat (length (G l) - 1), l')" "rings (state_lists s \<union> event_lists E s) (items T) l' ?G"
      "xItemValue l' = xItemValue (kl s)" "pvOwner l' = pvOwner (kl s)"
    and c: "\<And>y. y \<in> items T \<Longrightarrow> pxContainer l' y = (if y = x then 0 else pxContainer (kl s) y)" by blast
  have s': "s' = s\<lparr>kl := l'\<rparr>" by (simp add: s'_def list_remove_def r(1))
  have "s\<lparr>kl := l'\<rparr> = s\<lparr>kl := l', uxTopReadyPriority := uxTopReadyPriority s\<rparr>" by simp
  then show f: "kframe s s'" unfolding kframe_def s' by blast
  show "xItemValue (kl s') = xItemValue (kl s)" by (simp add: s' r(3))
  show "\<And>y. y \<in> items T \<Longrightarrow> pxContainer (kl s') y = (if y = x then 0 else pxContainer (kl s) y)" by (simp add: s' c)
  have "?G (ready_list s (of_nat n)) = G (ready_list s (of_nat n))" if "n < 8" for n
  proof -
    have "(of_nat n :: u32) < 8" using that by (simp add: word_less_nat_alt unat_of_nat)
    then have "ready_list s (of_nat n) \<in> ready_lists s" by (simp add: ready_lists_def)
    then show ?thesis using l(3) by auto
  qed
  then have bits: "bit (uxTopReadyPriority s) n \<longleftrightarrow> n < 8 \<and> ?G (ready_list s (of_nat n)) \<noteq> []" for n using D(4) by metis
  have ord: "waiting_order s' ?G k" if "waiting_order s G k" for k
    using that by (auto simp: waiting_order_def s' r(3) intro: sorted_map_remove1)
  have tasks: "uxPriority s t < 8 \<and> pvOwner l' (xStateListItem t) = t \<and> pvOwner l' (xEventListItem t) = t \<and>
      pxContainer l' (xStateListItem t) \<in> insert 0 (state_lists s) \<and> pxContainer l' (xEventListItem t) \<in> insert 0 (event_lists E s) \<and>
      (\<forall>p < 8. pxContainer l' (xStateListItem t) = ready_list s p \<longrightarrow> uxPriority s t = p)" if t: "t \<in> T" for t
  proof -
    have "0 \<notin> state_lists s" using rings_D(1) [OF D(1)] by blast
    then have "0 \<notin> ready_lists s" by (simp add: state_lists_def)
    then have "ready_list s p \<noteq> 0" if "p < 8" for p using that by (auto simp: ready_lists_def)
    then show ?thesis using kcore_task [OF K t] c items_in [OF t] by (simp add: r(4))
  qed
  show "kcore T E s' ?G"
    unfolding kcore_def kframe_fields [OF f]
    using r(2) D(2,3) tasks bits ord D(5,6) by (simp add: s')
qed

text \<open>Making a task ready whose state item is in no list.\<close>

lemma kcore_add_ready:
  assumes K: "kcore T E s G" and t: "t \<in> T" "pxContainer (kl s) (xStateListItem t) = 0"
  defines "s' \<equiv> prvAddTaskToReadyList t s" and "l \<equiv> ready_list s (uxPriority s t)"
  shows "kcore T E s' (G(l := ins_before (pxIndex (kl s) l) (xStateListItem t) (G l)))" "kframe s s'" "xItemValue (kl s') = xItemValue (kl s)"
    "\<And>y. y \<in> items T \<Longrightarrow> pxContainer (kl s') y = (if y = xStateListItem t then l else pxContainer (kl s) y)"
proof -
  note D = kcoreD [OF K] and P = kcore_task [OF K t(1)]
  let ?x = "xStateListItem t"
  let ?G = "G(l := ins_before (pxIndex (kl s) l) ?x (G l))"
  have lr: "l \<in> ready_lists s" using P(1) by (auto simp: l_def ready_lists_def)
  then have l: "l \<in> state_lists s \<union> event_lists E s" by (simp add: state_lists_def)
  note R = rings_insert_end [OF D(1) l items_in(1) [OF t(1)] t(2)]
  let ?l = "vListInsertEnd l ?x (kl s)"
  have s': "s' = s\<lparr>uxTopReadyPriority := uxTopReadyPriority s OR bit_at (uxPriority s t), kl := ?l\<rparr>"
    by (simp add: s'_def prvAddTaskToReadyList_def taskRECORD_READY_PRIORITY_def l_def Let_def ready_list_def)
  have "s' = s\<lparr>kl := ?l, uxTopReadyPriority := uxTopReadyPriority s OR bit_at (uxPriority s t)\<rparr>" by (simp add: s')
  then show f: "kframe s s'" unfolding kframe_def by blast
  show "xItemValue (kl s') = xItemValue (kl s)" by (simp add: s' R(2))
  show c: "pxContainer (kl s') y = (if y = ?x then l else pxContainer (kl s) y)" if "y \<in> items T" for y using R(5) [OF that] by (simp add: s')
  have u: "unat (uxPriority s t) < 8" using P(1) by (simp add: word_less_nat_alt)
  have bits: "bit (uxTopReadyPriority s') n \<longleftrightarrow> n < 8 \<and> ?G (ready_list s (of_nat n)) \<noteq> []" for n
  proof (cases "n = unat (uxPriority s t)")
    case True
    then show ?thesis using u by (simp add: s' bit_or_at l_def of_nat_unat ins_before_def)
  next
    case False
    then have "?G (ready_list s (of_nat n)) = G (ready_list s (of_nat n))" if "n < 8"
      using ready_list_other [OF that _ P(1)] by (simp add: l_def)
    then show ?thesis using D(4) [of n] False by (auto simp: s' bit_or_at)
  qed
  have ord: "waiting_order s' ?G k" if "waiting_order s G k" "k \<in> {pxDelayedTaskList s, pxOverflowDelayedTaskList s}" for k
  proof -
    have "k \<noteq> l" using that(2) D(2,3) lr unfolding layout_def by blast
    then show ?thesis using that(1) R(2) by (simp add: waiting_order_def s')
  qed
  have tasks: "uxPriority s u < 8 \<and> pvOwner (kl s') (xStateListItem u) = u \<and> pvOwner (kl s') (xEventListItem u) = u \<and>
      pxContainer (kl s') (xStateListItem u) \<in> insert 0 (state_lists s) \<and> pxContainer (kl s') (xEventListItem u) \<in> insert 0 (event_lists E s) \<and>
      (\<forall>p < 8. pxContainer (kl s') (xStateListItem u) = ready_list s p \<longrightarrow> uxPriority s u = p)" if "u \<in> T" for u
  proof -
    have "pvOwner (kl s') = pvOwner (kl s)" by (simp add: s' R(3))
    moreover have "xEventListItem u \<noteq> ?x" using layout_items [OF D(2) t(1) that] by simp
    moreover have "l \<in> state_lists s" using lr by (simp add: state_lists_def)
    moreover have "uxPriority s t = p" if "p < 8" "l = ready_list s p" for p using ready_list_inj [OF P(1) that(1)] that(2) by (simp add: l_def)
    ultimately show ?thesis using kcore_task [OF K that] c items_in [OF that] by auto
  qed
  have "rings (state_lists s \<union> event_lists E s) (items T) (kl s') ?G" using R(1) by (simp add: s')
  then show "kcore T E s' ?G"
    unfolding kcore_def kframe_fields [OF f]
    using D(2,3) tasks bits ord [OF D(5) insertI1] ord [OF D(6) insertI2 [OF singletonI]] by simp
qed

text \<open>Moving a blocked task to its ready list, out of the event list it may wait in.\<close>

definition unblock :: "u32 \<Rightarrow> kernel \<Rightarrow> kernel" where
  "unblock t s =
     (let s = list_remove (xStateListItem t) s;
          s = (if pxContainer (kl s) (xEventListItem t) \<noteq> 0 then list_remove (xEventListItem t) s else s)
      in prvAddTaskToReadyList t s)"

definition container_after :: "u32 \<Rightarrow> kernel \<Rightarrow> u32 \<Rightarrow> u32" where
  "container_after t s y =
     (if y = xStateListItem t then ready_list s (uxPriority s t) else if y = xEventListItem t then 0 else pxContainer (kl s) y)"

text \<open>Lists that lose elements keep their order.\<close>

definition thinned :: "u32 set \<Rightarrow> (u32 \<Rightarrow> u32 list) \<Rightarrow> (u32 \<Rightarrow> u32 list) \<Rightarrow> bool" where
  "thinned L G G' \<longleftrightarrow> (\<forall>k \<in> L. \<forall>f :: u32 \<Rightarrow> u32. sorted (map f (G k)) \<longrightarrow> sorted (map f (G' k)))"

lemma thinned_refl: "(\<And>k. k \<in> L \<Longrightarrow> G' k = G k) \<Longrightarrow> thinned L G G'"
  by (simp add: thinned_def)

lemma thinned_trans: "thinned L G G' \<Longrightarrow> thinned L G' G'' \<Longrightarrow> thinned L G G''"
  by (simp add: thinned_def)

lemma thinned_remove1: "thinned L G (G(l := remove1 x (G l)))"
  by (auto simp: thinned_def intro: sorted_map_remove1)

lemma unblock_kcore:
  assumes K: "kcore T E s G" and t: "t \<in> T" and l: "pxContainer (kl s) (xStateListItem t) = l" "l \<noteq> 0" "l \<notin> ready_lists s"
  shows "\<exists>G'. kcore T E (unblock t s) G' \<and> G' l = remove1 (xStateListItem t) (G l) \<and>
      (\<forall>k \<in> state_lists s - ready_lists s - {l}. G' k = G k) \<and> thinned (event_lists E s) G G'"
    and "kframe s (unblock t s)" "xItemValue (kl (unblock t s)) = xItemValue (kl s)"
    and "\<And>y. y \<in> items T \<Longrightarrow> pxContainer (kl (unblock t s)) y = container_after t s y"
proof -
  let ?x = "xStateListItem t" and ?e = "xEventListItem t"
  let ?s1 = "list_remove ?x s" and ?G1 = "G(l := remove1 ?x (G l))"
  let ?s2 = "if pxContainer (kl ?s1) ?e \<noteq> 0 then list_remove ?e ?s1 else ?s1"
  have lay: "layout T E s" by (rule kcoreD [OF K])
  have ne: "?e \<noteq> ?x" using layout_items [OF lay t t] by simp
  note I = items_in [OF t]
  note A = kcore_remove [OF K I(1) l]
  have "\<exists>G2. kcore T E ?s2 G2 \<and> (\<forall>k \<in> state_lists s. G2 k = ?G1 k) \<and> thinned (event_lists E s) G G2 \<and> kframe s ?s2 \<and> xItemValue (kl ?s2) = xItemValue (kl s) \<and>
      (\<forall>y \<in> items T. pxContainer (kl ?s2) y = (if y = ?x \<or> y = ?e then 0 else pxContainer (kl s) y))"
  proof (cases "pxContainer (kl ?s1) ?e = 0")
    case True
    then show ?thesis using A thinned_remove1 [of "event_lists E s" G l] by auto
  next
    case False
    let ?l = "pxContainer (kl ?s1) ?e"
    have "?l \<in> event_lists E s" using kcore_task(5) [OF A(1) t] False by (simp add: kframe_fields [OF A(2)])
    then have n: "?l \<notin> state_lists s" using lay unfolding layout_def by blast
    then have "?l \<notin> ready_lists ?s1" by (simp add: kframe_fields [OF A(2)] state_lists_def)
    note B = kcore_remove [OF A(1) I(2) refl False this]
    let ?G2 = "?G1(?l := remove1 ?e (?G1 ?l))"
    have "\<forall>k \<in> state_lists s. ?G2 k = ?G1 k" using n by auto
    moreover have "kframe s ?s2" using kframe_trans [OF A(2) B(2)] False by simp
    moreover have "\<forall>y \<in> items T. pxContainer (kl ?s2) y = (if y = ?x \<or> y = ?e then 0 else pxContainer (kl s) y)"
      using A(4) B(4) False by simp
    moreover have "thinned (event_lists E s) G ?G2"
      by (rule thinned_trans [OF thinned_remove1 [of _ G l] thinned_remove1 [of _ ?G1 ?l]])
    ultimately show ?thesis using A(3) B(1,3) False by (intro exI [of _ ?G2]) simp
  qed
  then obtain G2 where G2: "kcore T E ?s2 G2" "\<And>k. k \<in> state_lists s \<Longrightarrow> G2 k = ?G1 k" "kframe s ?s2"
    "xItemValue (kl ?s2) = xItemValue (kl s)"
    "\<And>y. y \<in> items T \<Longrightarrow> pxContainer (kl ?s2) y = (if y = ?x \<or> y = ?e then 0 else pxContainer (kl s) y)"
    and th: "thinned (event_lists E s) G G2" by blast
  have z: "pxContainer (kl ?s2) ?x = 0" using G2(5) [OF I(1)] by simp
  note C = kcore_add_ready [OF G2(1) t z]
  have u: "unblock t s = prvAddTaskToReadyList t ?s2" by (simp add: unblock_def Let_def)
  have r: "ready_list ?s2 (uxPriority ?s2 t) = ready_list s (uxPriority s t)" by (simp only: kframe_fields [OF G2(3)])
  show "kframe s (unblock t s)" unfolding u by (rule kframe_trans [OF G2(3) C(2)])
  show "xItemValue (kl (unblock t s)) = xItemValue (kl s)" unfolding u using C(3) G2(4) by (simp only:)
  show "pxContainer (kl (unblock t s)) y = container_after t s y" if "y \<in> items T" for y
    unfolding u C(4) [OF that] r G2(5) [OF that] using ne by (simp add: container_after_def)
  have rl: "ready_list s (uxPriority s t) \<in> ready_lists s" using kcore_task(1) [OF K t] by (simp add: ready_lists_def)
  have ls: "l \<in> state_lists s" using kcore_task(4) [OF K t] l by simp
  let ?G3 = "G2(ready_list s (uxPriority s t) := ins_before (pxIndex (kl ?s2) (ready_list s (uxPriority s t))) ?x (G2 (ready_list s (uxPriority s t))))"
  have "ready_list s (uxPriority s t) \<notin> event_lists E s" using rl lay by (auto simp: layout_def state_lists_def)
  then have "?G3 k = G2 k" if "k \<in> event_lists E s" for k using that by auto
  then have th3: "thinned (event_lists E s) G ?G3" by (rule thinned_trans [OF th thinned_refl])
  show "\<exists>G'. kcore T E (unblock t s) G' \<and> G' l = remove1 ?x (G l) \<and> (\<forall>k \<in> state_lists s - ready_lists s - {l}. G' k = G k) \<and>
      thinned (event_lists E s) G G'"
    unfolding u
  proof (intro exI conjI)
    show "thinned (event_lists E s) G ?G3" by (rule th3)
    show "kcore T E (prvAddTaskToReadyList t ?s2) ?G3"
      by (rule C(1) [unfolded r])
  qed (use rl ls l(3) G2(2) in auto)
qed

lemma sorted_head_dropWhile:
  "sorted (map f xs) \<Longrightarrow> \<not> f x \<le> c \<Longrightarrow> xs = x # ys \<Longrightarrow> dropWhile (\<lambda>x. f x \<le> c) xs = xs \<and> takeWhile (\<lambda>x. f x \<le> c) xs = [] \<and> (\<forall>y\<in>set xs. f x \<le> f y)"
  by auto

text \<open>The loop wakes exactly the tasks whose time has come and records the time of the next one.\<close>

lemma head_task:
  assumes K: "kcore T E s G" and l: "l \<in> state_lists s" and G: "G l = x # xs"
  shows "\<exists>t \<in> T. x = xStateListItem t \<and> listGET_OWNER_OF_HEAD_ENTRY l (kl s) = t \<and> pxContainer (kl s) x = l"
proof -
  note D = kcoreD [OF K]
  have c: "pxContainer (kl s) x = l" "x \<in> items T" using rings_container [OF D(1), of l x] l G by simp_all
  have "x \<notin> xEventListItem ` T"
  proof
    assume "x \<in> xEventListItem ` T"
    then obtain u where "u \<in> T" "x = xEventListItem u" by blast
    then have "l \<in> insert 0 (event_lists E s)" using kcore_task(5) [OF K] c(1) by blast
    moreover have "l \<noteq> 0" using rings_D(1) [OF D(1)] l by blast
    ultimately show False using D(2) l unfolding layout_def by blast
  qed
  then obtain t where t: "t \<in> T" "x = xStateListItem t" using c(2) by (auto simp: items_def)
  have "ring (kl s) l (x # xs)" using rings_ring [OF D(1), of l] l G by simp
  then have "pxNext (kl s) (xListEnd l) = x" by (simp add: ring_def)
  then show ?thesis using t c(1) kcore_task(2) [OF K t(1)] by (auto simp: listGET_OWNER_OF_HEAD_ENTRY_def)
qed

lemma unblock_loop_step:
  "unblock_loop c sw s =
     (if listLIST_IS_EMPTY (pxDelayedTaskList s) (kl s) then Some (sw, s\<lparr>xNextTaskUnblockTime := portMAX_DELAY\<rparr>)
      else let t = listGET_OWNER_OF_HEAD_ENTRY (pxDelayedTaskList s) (kl s); v = xItemValue (kl s) (xStateListItem t)
           in if c < v then Some (sw, s\<lparr>xNextTaskUnblockTime := v\<rparr>)
              else unblock_loop c (sw \<or> uxPriority (unblock t s) t \<ge> uxPriority (unblock t s) (pxCurrentTCB (unblock t s))) (unblock t s))"
  by (subst unblock_loop.simps) (simp add: unblock_def Let_def)

lemma delayed_lists:
  assumes "kcore T E s G"
  shows "pxDelayedTaskList s \<in> state_lists s - ready_lists s" "pxOverflowDelayedTaskList s \<in> state_lists s - ready_lists s"
    "pxDelayedTaskList s \<noteq> pxOverflowDelayedTaskList s"
  using kcoreD(2,3) [OF assms] by (auto simp: layout_def state_lists_def doubleton_eq_iff)

lemma delayed_empty:
  assumes "kcore T E s G"
  shows "listLIST_IS_EMPTY (pxDelayedTaskList s) (kl s) \<longleftrightarrow> G (pxDelayedTaskList s) = []"
  using rings_empty [OF kcoreD(1) [OF assms]] delayed_lists(1) [OF assms] by simp

lemma kcore_cong:
  "kcore T E (s\<lparr>xNextTaskUnblockTime := n\<rparr>) G = kcore T E s G" "kcore T E (s\<lparr>xTickCount := n\<rparr>) G = kcore T E s G"
  "kcore T E (s\<lparr>xYieldPending := y\<rparr>) G = kcore T E s G" "kcore T E (s\<lparr>uxPendedTicks := n\<rparr>) G = kcore T E s G"
  "kcore T E (s\<lparr>uxSchedulerSuspended := n\<rparr>) G = kcore T E s G" "kcore T E (s\<lparr>xNumOfOverflows := n\<rparr>) G = kcore T E s G"
  "kcore T E (s\<lparr>pxCurrentTCB := n\<rparr>) G = kcore T E s G"
  by (simp_all add: kcore_def layout_def state_lists_def event_lists_def ready_lists_def ready_list_def waiting_order_def)

definition due :: "u32 \<Rightarrow> kernel \<Rightarrow> (u32 \<Rightarrow> u32 list) \<Rightarrow> u32 \<Rightarrow> bool" where
  "due c s G t \<longleftrightarrow> xStateListItem t \<in> set (takeWhile (\<lambda>x. xItemValue (kl s) x \<le> c) (G (pxDelayedTaskList s)))"

text \<open>What the loop has done when it stops: \<open>c\<close> is the tick count.\<close>

definition unblocked :: "u32 set \<Rightarrow> u32 set \<Rightarrow> u32 \<Rightarrow> kernel \<Rightarrow> (u32 \<Rightarrow> u32 list) \<Rightarrow> kernel \<Rightarrow> (u32 \<Rightarrow> u32 list) \<Rightarrow> bool" where
  "unblocked T E c s G s' G' \<longleftrightarrow> kcore T E s' G' \<and> thinned (event_lists E s) G G' \<and>
    G' (pxDelayedTaskList s) = dropWhile (\<lambda>x. xItemValue (kl s) x \<le> c) (G (pxDelayedTaskList s)) \<and>
    G' (pxOverflowDelayedTaskList s) = G (pxOverflowDelayedTaskList s) \<and>
    kframe (s\<lparr>xNextTaskUnblockTime := xNextTaskUnblockTime s'\<rparr>) s' \<and> xItemValue (kl s') = xItemValue (kl s) \<and>
    (\<forall>x \<in> set (G' (pxDelayedTaskList s)). xNextTaskUnblockTime s' \<le> xItemValue (kl s) x) \<and>
    (\<forall>t \<in> T. pxContainer (kl s') (xStateListItem t) = (if due c s G t then ready_list s (uxPriority s t) else pxContainer (kl s) (xStateListItem t)) \<and>
      pxContainer (kl s') (xEventListItem t) = (if due c s G t then 0 else pxContainer (kl s) (xEventListItem t)))"

lemma unblock_loop_spec:
  assumes "kcore T E s G"
  shows "\<exists>sw' s' G'. unblock_loop c sw s = Some (sw', s') \<and> unblocked T E c s G s' G' \<and>
    (sw' \<longleftrightarrow> sw \<or> (\<exists>t \<in> T. due c s G t \<and> uxPriority s t \<ge> uxPriority s (pxCurrentTCB s)))"
  using assms
proof (induction "G (pxDelayedTaskList s)" arbitrary: s G sw)
  case Nil
  have e: "G (pxDelayedTaskList s) = []" using Nil.hyps by simp
  let ?s = "s\<lparr>xNextTaskUnblockTime := portMAX_DELAY\<rparr>"
  have "unblock_loop c sw s = Some (sw, ?s)" using delayed_empty [OF Nil.prems] e by (subst unblock_loop_step) simp
  moreover have "unblocked T E c s G ?s G" using Nil.prems kframe_refl [of ?s] e by (simp add: unblocked_def due_def kcore_cong thinned_refl)
  ultimately show ?case by (auto simp: due_def e)
next
  case (Cons x xs)
  let ?D = "pxDelayedTaskList s"
  have G: "G ?D = x # xs" using Cons.hyps(2) by simp
  note K = Cons.prems and dl = delayed_lists [OF Cons.prems]
  from head_task [OF K _ G] dl(1) obtain t where t: "t \<in> T" "x = xStateListItem t"
    "listGET_OWNER_OF_HEAD_ENTRY ?D (kl s) = t" "pxContainer (kl s) x = ?D" by auto
  let ?v = "xItemValue (kl s) x"
  have ne: "\<not> listLIST_IS_EMPTY ?D (kl s)" using delayed_empty [OF K] G by simp
  have sorted: "\<forall>y \<in> set xs. ?v \<le> xItemValue (kl s) y" using kcoreD(5) [OF K] G by (simp add: waiting_order_def)
  show ?case
  proof (cases "c < ?v")
    case True
    let ?s = "s\<lparr>xNextTaskUnblockTime := ?v\<rparr>"
    have "unblock_loop c sw s = Some (sw, ?s)" using True ne t(2,3) by (subst unblock_loop_step) (simp add: Let_def)
    moreover have "unblocked T E c s G ?s G"
      using K kframe_refl [of ?s] G True sorted by (simp add: unblocked_def due_def kcore_cong thinned_refl)
    ultimately show ?thesis using True by (auto simp: due_def G)
  next
    case False
    let ?s = "unblock t s"
    have l: "?D \<noteq> 0" "?D \<notin> ready_lists s" using rings_D(1) [OF kcoreD(1) [OF K]] dl(1) by auto
    note U = unblock_kcore [OF K t(1) t(4) [unfolded t(2)] l]
    from U(1) obtain G1 where G1: "kcore T E ?s G1" "G1 ?D = xs" "G1 (pxOverflowDelayedTaskList s) = G (pxOverflowDelayedTaskList s)"
      "thinned (event_lists E s) G G1"
      using dl by (auto simp: G t(2))
    note F = kframe_fields [OF U(2)]
    let ?sw = "sw \<or> uxPriority s t \<ge> uxPriority s (pxCurrentTCB s)"
    from Cons.hyps(1) [of G1 ?s ?sw] G1(1,2) obtain sw' s' G' where
      r: "unblock_loop c ?sw ?s = Some (sw', s')" "unblocked T E c ?s G1 s' G'"
        "sw' \<longleftrightarrow> ?sw \<or> (\<exists>u \<in> T. due c ?s G1 u \<and> uxPriority s u \<ge> uxPriority s (pxCurrentTCB s))" by (auto simp: F)
    have "distinct (x # xs)" using rings_ring [OF kcoreD(1) [OF K], of ?D] dl(1) G by (simp add: ring_def)
    then have nt: "\<not> due c ?s G1 t" using set_takeWhileD by (fastforce simp: due_def F G1(2) t(2))
    have du: "due c s G u \<longleftrightarrow> u = t \<or> due c ?s G1 u" for u using False by (auto simp: due_def F G1(2) G t(2) U(3))
    have "unblock_loop c sw s = unblock_loop c ?sw ?s" using False ne t(2,3) by (subst unblock_loop_step) (simp add: Let_def F)
    moreover have "unblocked T E c s G s' G'"
    proof -
      have "kframe (s\<lparr>xNextTaskUnblockTime := n\<rparr>) (?s\<lparr>xNextTaskUnblockTime := n\<rparr>)" for n by (rule kframe_next [OF U(2)])
      moreover have "kframe (?s\<lparr>xNextTaskUnblockTime := xNextTaskUnblockTime s'\<rparr>) s'" using r(2) by (simp add: unblocked_def)
      ultimately have f: "kframe (s\<lparr>xNextTaskUnblockTime := xNextTaskUnblockTime s'\<rparr>) s'" by (rule kframe_trans)
      have "pxContainer (kl s') (xStateListItem u) = (if due c s G u then ready_list s (uxPriority s u) else pxContainer (kl s) (xStateListItem u)) \<and>
        pxContainer (kl s') (xEventListItem u) = (if due c s G u then 0 else pxContainer (kl s) (xEventListItem u))" if u: "u \<in> T" for u
      proof -
        have n: "xStateListItem u \<noteq> xEventListItem t" "xEventListItem u \<noteq> xStateListItem t"
          using layout_items [OF kcoreD(2) [OF K]] t(1) u by metis+
        show ?thesis using r(2) u nt n U(4) [OF items_in(1) [OF u]] U(4) [OF items_in(2) [OF u]]
          by (auto simp: unblocked_def du F container_after_def)
      qed
      moreover have "thinned (event_lists E s) G G'" using r(2) by (auto simp: unblocked_def F intro: thinned_trans [OF G1(4)])
      ultimately show ?thesis using r(2) f False by (simp add: unblocked_def F U(3) G1(2,3) G)
    qed
    ultimately show ?thesis using r(1,3) t(1) by (intro exI [of _ sw'] exI [of _ s'] exI [of _ G']) (auto simp: du)
  qed
qed

section \<open>The tick\<close>

definition kinv :: "u32 set \<Rightarrow> u32 set \<Rightarrow> kernel \<Rightarrow> (u32 \<Rightarrow> u32 list) \<Rightarrow> bool" where
  "kinv T E s G \<longleftrightarrow> kcore T E s G \<and> ktime s G"

text \<open>A sleeping task and the number of ticks until it wakes, which the wrap-around of the tick count does not change.\<close>

definition sleeping :: "kernel \<Rightarrow> u32 \<Rightarrow> bool" where
  "sleeping s t \<longleftrightarrow> pxContainer (kl s) (xStateListItem t) \<in> {pxDelayedTaskList s, pxOverflowDelayedTaskList s}"

definition remaining :: "kernel \<Rightarrow> u32 \<Rightarrow> u32" where
  "remaining s t = xItemValue (kl s) (xStateListItem t) - xTickCount s"

lemma sorted_takeWhile_iff:
  "sorted (map f xs) \<Longrightarrow> x \<in> set (takeWhile (\<lambda>y. f y \<le> c) xs) \<longleftrightarrow> x \<in> set xs \<and> f x \<le> c"
proof (induction xs)
  case (Cons y ys)
  then show ?case by (auto dest: order_trans)
qed simp

lemma due_iff:
  assumes K: "kcore T E s G" and t: "t \<in> T"
  shows "due c s G t \<longleftrightarrow> pxContainer (kl s) (xStateListItem t) = pxDelayedTaskList s \<and> xItemValue (kl s) (xStateListItem t) \<le> c"
proof -
  have "xStateListItem t \<in> set (G (pxDelayedTaskList s)) \<longleftrightarrow> pxContainer (kl s) (xStateListItem t) = pxDelayedTaskList s"
    using rings_member [OF kcoreD(1) [OF K] items_in(1) [OF t]] delayed_lists(1) [OF K] by simp
  then show ?thesis using sorted_takeWhile_iff [OF kcoreD(5) [OF K, unfolded waiting_order_def]] by (simp add: due_def)
qed

text \<open>The second half of the tick, from a state in which no task is overdue.\<close>

lemma tick_unblock:
  assumes K: "kcore T E s G" and n: "\<forall>x \<in> set (G (pxDelayedTaskList s)). xNextTaskUnblockTime s \<le> xItemValue (kl s) x"
  shows "\<exists>sw s' G'. (if xNextTaskUnblockTime s \<le> c then unblock_loop c False s else Some (False, s)) = Some (sw, s') \<and>
    unblocked T E c s G s' G' \<and> (sw \<longleftrightarrow> (\<exists>t \<in> T. due c s G t \<and> uxPriority s t \<ge> uxPriority s (pxCurrentTCB s)))"
proof (cases "xNextTaskUnblockTime s \<le> c")
  case True
  then show ?thesis using unblock_loop_spec [OF K, of c False] by simp
next
  case False
  have "takeWhile (\<lambda>x. xItemValue (kl s) x \<le> c) (G (pxDelayedTaskList s)) = []"
    "dropWhile (\<lambda>x. xItemValue (kl s) x \<le> c) (G (pxDelayedTaskList s)) = G (pxDelayedTaskList s)"
    using n False by (cases "G (pxDelayedTaskList s)"; auto)+
  then have "\<not> due c s G t" "unblocked T E c s G s G" for t using K n kframe_refl by (simp_all add: due_def unblocked_def thinned_refl)
  then show ?thesis using False by auto
qed

text \<open>The first half: the count advances and the lists are exchanged when it wraps.\<close>

definition advance :: "kernel \<Rightarrow> kernel" where
  "advance s =
     (let c = xTickCount s + 1; s = s\<lparr>xTickCount := c\<rparr> in if c = 0 then taskSWITCH_DELAYED_LISTS s else s)"

lemma kcore_switch:
  "kcore T E s G \<Longrightarrow> kcore T E (s\<lparr>pxDelayedTaskList := pxOverflowDelayedTaskList s, pxOverflowDelayedTaskList := pxDelayedTaskList s\<rparr>) G"
  by (auto simp: kcore_def layout_def state_lists_def event_lists_def ready_lists_def ready_list_def waiting_order_def insert_commute)

text \<open>The next unblock time becomes that of the first delayed task.\<close>

lemma reset_next_spec:
  assumes K: "kcore T E s G"
  shows "\<exists>n. prvResetNextTaskUnblockTime s = s\<lparr>xNextTaskUnblockTime := n\<rparr> \<and> (\<forall>x \<in> set (G (pxDelayedTaskList s)). n \<le> xItemValue (kl s) x)"
proof (cases "G (pxDelayedTaskList s)")
  case Nil
  then show ?thesis using delayed_empty [OF K] by (auto simp: prvResetNextTaskUnblockTime_def)
next
  case (Cons x xs)
  then obtain t where "x = xStateListItem t" "listGET_OWNER_OF_HEAD_ENTRY (pxDelayedTaskList s) (kl s) = t"
    using head_task [OF K _ Cons] delayed_lists(1) [OF K] by auto
  then have "prvResetNextTaskUnblockTime s = s\<lparr>xNextTaskUnblockTime := xItemValue (kl s) x\<rparr>"
    using delayed_empty [OF K] Cons by (simp add: prvResetNextTaskUnblockTime_def)
  moreover have "\<forall>y \<in> set (G (pxDelayedTaskList s)). xItemValue (kl s) x \<le> xItemValue (kl s) y"
    using kcoreD(5) [OF K] Cons by (simp add: waiting_order_def)
  ultimately show ?thesis by blast
qed

definition advanced :: "kernel \<Rightarrow> kernel \<Rightarrow> (u32 \<Rightarrow> u32 list) \<Rightarrow> bool" where
  "advanced s s' G \<longleftrightarrow> xTickCount s' = xTickCount s + 1 \<and> kl s' = kl s \<and> ready_list s' = ready_list s \<and> uxPriority s' = uxPriority s \<and>
     pxCurrentTCB s' = pxCurrentTCB s \<and> xYieldPending s' = xYieldPending s \<and> uxSchedulerSuspended s' = uxSchedulerSuspended s \<and>
     uxPendedTicks s' = uxPendedTicks s \<and> xPendingReadyList s' = xPendingReadyList s \<and>
     xNumOfOverflows s' = xNumOfOverflows s + (if xTickCount s + 1 = 0 then 1 else 0) \<and>
     {pxDelayedTaskList s', pxOverflowDelayedTaskList s'} = {pxDelayedTaskList s, pxOverflowDelayedTaskList s} \<and>
     (\<forall>x \<in> set (G (pxDelayedTaskList s')). xTickCount s' \<le> xItemValue (kl s) x \<and> xNextTaskUnblockTime s' \<le> xItemValue (kl s) x) \<and>
     (\<forall>x \<in> set (G (pxOverflowDelayedTaskList s')). xItemValue (kl s) x < xTickCount s')"

lemma advance_spec:
  assumes K: "kcore T E s G" and M: "ktime s G"
  shows "kcore T E (advance s) G" "advanced s (advance s) G"
proof -
  have "kcore T E (advance s) G \<and> advanced s (advance s) G"
  proof (cases "xTickCount s + 1 = 0")
    case False
    have "xTickCount s < xTickCount s + 1" using False unatSuc [of "xTickCount s"] by (simp add: word_less_nat_alt add.commute)
    then have "v < xTickCount s + 1" if "v < xTickCount s" for v using that by (rule less_trans [rotated])
    moreover have "xTickCount s + 1 \<le> v" if "xTickCount s < v" for v using that by (rule inc_le)
    ultimately show ?thesis using False K M by (auto simp: advance_def advanced_def kcore_cong ktime_def ready_list_def fun_eq_iff)
  next
    case True
    then have "xTickCount s = - 1" by (simp add: add_eq_0_iff2)
    then have m: "xTickCount s = portMAX_DELAY" by simp
    have e: "G (pxDelayedTaskList s) = []"
    proof (rule ccontr)
      assume "G (pxDelayedTaskList s) \<noteq> []"
      then have "hd (G (pxDelayedTaskList s)) \<in> set (G (pxDelayedTaskList s))" by simp
      then have "portMAX_DELAY < xItemValue (kl s) (hd (G (pxDelayedTaskList s)))" using M unfolding ktime_def m by blast
      then show False using le_max_delay by (meson not_le)
    qed
    let ?s = "s\<lparr>xTickCount := 0, pxDelayedTaskList := pxOverflowDelayedTaskList s, pxOverflowDelayedTaskList := pxDelayedTaskList s,
      xNumOfOverflows := xNumOfOverflows s + 1\<rparr>"
    have K': "kcore T E ?s G" using kcore_switch [of T E "s\<lparr>xTickCount := 0\<rparr>" G] K by (simp add: kcore_cong)
    from reset_next_spec [OF K'] obtain n where
      n: "prvResetNextTaskUnblockTime ?s = ?s\<lparr>xNextTaskUnblockTime := n\<rparr>" "\<forall>x \<in> set (G (pxOverflowDelayedTaskList s)). n \<le> xItemValue (kl s) x" by auto
    have "advance s = ?s\<lparr>xNextTaskUnblockTime := n\<rparr>" using True n(1) by (simp add: advance_def taskSWITCH_DELAYED_LISTS_def Let_def)
    then show ?thesis using K' n(2) True e by (auto simp: advanced_def kcore_cong ready_list_def fun_eq_iff)
  qed
  then show "kcore T E (advance s) G" "advanced s (advance s) G" by simp_all
qed

text \<open>A tick: the tasks with one tick left become ready, out of their event lists, and every other sleeping task has one tick less
  to wait.\<close>

definition ticked :: "u32 set \<Rightarrow> kernel \<Rightarrow> kernel \<Rightarrow> bool" where
  "ticked T s s' \<longleftrightarrow> xTickCount s' = xTickCount s + 1 \<and>
     xNumOfOverflows s' = xNumOfOverflows s + (if xTickCount s + 1 = 0 then 1 else 0) \<and> uxSchedulerSuspended s' = uxSchedulerSuspended s \<and> ready_list s' = ready_list s \<and>
     uxPriority s' = uxPriority s \<and> uxPendedTicks s' = uxPendedTicks s \<and> xPendingReadyList s' = xPendingReadyList s \<and>
     (\<forall>t \<in> T.
        (if sleeping s t \<and> remaining s t = 1
         then pxContainer (kl s') (xStateListItem t) = ready_list s (uxPriority s t) \<and> pxContainer (kl s') (xEventListItem t) = 0
         else pxContainer (kl s') (xStateListItem t) = pxContainer (kl s) (xStateListItem t) \<and>
              pxContainer (kl s') (xEventListItem t) = pxContainer (kl s) (xEventListItem t) \<and>
              sleeping s' t = sleeping s t \<and> remaining s' t = remaining s t - 1))"

lemma advance_lists: "state_lists (advance s\<lparr>xNextTaskUnblockTime := n\<rparr>) = state_lists s"
  by (simp add: advance_def taskSWITCH_DELAYED_LISTS_def prvResetNextTaskUnblockTime_def Let_def state_lists_def ready_lists_def ready_list_def)

lemma tick_spec:
  assumes I: "kinv T E s G" and run: "uxSchedulerSuspended s = 0"
  shows "\<exists>r s' G'. xTaskIncrementTick s = Some (r, s') \<and> kinv T E s' G' \<and> ticked T s s' \<and> pxCurrentTCB s' = pxCurrentTCB s \<and>
    thinned (event_lists E s) G G' \<and> xItemValue (kl s') = xItemValue (kl s) \<and> state_lists s' = state_lists s \<and>
    (r \<longleftrightarrow> (\<exists>t \<in> T. sleeping s t \<and> remaining s t = 1 \<and> uxPriority s t \<ge> uxPriority s (pxCurrentTCB s)) \<or>
       listCURRENT_LIST_LENGTH (ready_list s (uxPriority s (pxCurrentTCB s))) (kl s') > 1 \<or> xYieldPending s)"
proof -
  have K: "kcore T E s G" and M: "ktime s G" using I by (simp_all add: kinv_def)
  let ?a = "advance s" and ?c = "xTickCount s + 1"
  note A = advance_spec [OF K M]
  note a = A(2) [unfolded advanced_def]
  have "\<forall>x \<in> set (G (pxDelayedTaskList ?a)). xNextTaskUnblockTime ?a \<le> xItemValue (kl ?a) x" using a by simp
  from tick_unblock [OF A(1) this, of ?c] obtain sw s' G' where
    u: "(if xNextTaskUnblockTime ?a \<le> ?c then unblock_loop ?c False ?a else Some (False, ?a)) = Some (sw, s')"
      "unblocked T E ?c ?a G s' G'"
      "sw \<longleftrightarrow> (\<exists>t \<in> T. due ?c ?a G t \<and> uxPriority ?a t \<ge> uxPriority ?a (pxCurrentTCB ?a))" by blast
  have f: "kframe (?a\<lparr>xNextTaskUnblockTime := xNextTaskUnblockTime s'\<rparr>) s'" using u(2) by (simp add: unblocked_def)
  note F = kframe_fields [OF f, simplified]
  have rl: "ready_list s' = ready_list s" using F(4) a by (simp add: ready_list_def fun_eq_iff)
  let ?D = "pxDelayedTaskList ?a" and ?O = "pxOverflowDelayedTaskList ?a" and ?v = "xItemValue (kl s)"
  have aD: "?c \<le> ?v x" if "x \<in> set (G ?D)" for x using a that by metis
  have aO: "?v x < ?c" if "x \<in> set (G ?O)" for x using a that by metis
  have wake: "due ?c ?a G t \<longleftrightarrow> sleeping s t \<and> remaining s t = 1" if t: "t \<in> T" for t
  proof -
    let ?x = "xStateListItem t"
    have in_l: "?x \<in> set (G l) \<longleftrightarrow> pxContainer (kl s) ?x = l" if "l \<in> {?D, ?O}" for l
    proof -
      have "l \<in> state_lists ?a \<union> event_lists E ?a" using delayed_lists [OF A(1)] that by blast
      from rings_member [OF kcoreD(1) [OF A(1)] items_in(1) [OF t] this] show ?thesis by (simp only: a)
    qed
    have "?v ?x = ?c \<longleftrightarrow> remaining s t = 1" by (auto simp: remaining_def algebra_simps)
    moreover have "sleeping s t \<longleftrightarrow> pxContainer (kl s) ?x = ?D \<or> pxContainer (kl s) ?x = ?O" using a by (auto simp: sleeping_def)
    moreover have "?v ?x \<noteq> ?c" if "pxContainer (kl s) ?x = ?O"
      using aO [OF in_l [of ?O, THEN iffD2, OF _ that]] by auto
    moreover have "?c \<le> ?v ?x" if "pxContainer (kl s) ?x = ?D"
      using aD [OF in_l [of ?D, THEN iffD2, OF _ that]] by auto
    moreover have "due ?c ?a G t \<longleftrightarrow> pxContainer (kl s) ?x = ?D \<and> ?v ?x \<le> ?c" using due_iff [OF A(1) t, of ?c] by (simp only: a)
    ultimately show ?thesis by (metis order_antisym)
  qed
  have ev: "xTaskIncrementTick s = Some (sw \<or> listCURRENT_LIST_LENGTH (ready_list s (uxPriority s (pxCurrentTCB s))) (kl s') > 1 \<or> xYieldPending s, s')"
  proof -
    have "xTaskIncrementTick s = do { (sw, s1) \<leftarrow> (if ?c \<ge> xNextTaskUnblockTime ?a then unblock_loop ?c False ?a else Some (False, ?a));
        Some ((sw \<or> listCURRENT_LIST_LENGTH (ready_list s1 (uxPriority s1 (pxCurrentTCB s1))) (kl s1) > 1) \<or> xYieldPending s1, s1) }"
      using run by (simp add: xTaskIncrementTick_def advance_def Let_def case_prod_unfold)
    then show ?thesis unfolding u(1) using F a rl by (simp add: disj_assoc)
  qed
  have "kinv T E s' G'"
  proof -
    have o: "sorted (map ?v (G ?D))" using kcoreD(5) [OF A(1)] a by (simp add: waiting_order_def)
    have "?c < ?v x" if "x \<in> set (dropWhile (\<lambda>x. ?v x \<le> ?c) (G ?D))" for x using sorted_split [OF o that] .
    then show ?thesis using u(2) a by (auto simp: kinv_def unblocked_def ktime_def F)
  qed
  moreover have "ticked T s s'"
  proof -
    have "remaining s' t = remaining s t - 1" for t using u(2) a by (simp add: remaining_def unblocked_def F diff_diff_eq)
    moreover have "{pxDelayedTaskList s', pxOverflowDelayedTaskList s'} = {pxDelayedTaskList s, pxOverflowDelayedTaskList s}" using a by (simp add: F)
    ultimately show ?thesis using u(2) a wake by (simp add: ticked_def unblocked_def F(6-10,12,15,17,19) rl sleeping_def)
  qed
  moreover have "pxCurrentTCB s' = pxCurrentTCB s" using a by (simp add: F)
  moreover have "thinned (event_lists E s) G G'" "xItemValue (kl s') = xItemValue (kl s)" "state_lists s' = state_lists s"
    using u(2) a F(1) by (simp_all add: unblocked_def event_lists_def advance_lists)
  ultimately show ?thesis using ev u(3) wake a by (intro exI [of _ s'] exI [of _ G'] exI) auto
qed

section \<open>The choice of the next task\<close>

lemma clz_top:
  assumes "w \<noteq> 0"
  shows "clz w < 32" "bit w (31 - clz w)" "\<And>i. 31 - clz w < i \<Longrightarrow> \<not> bit w i"
proof -
  let ?P = "\<lambda>i. \<not> bit w (31 - i)"
  have "\<exists>n. bit w n"
  proof (rule ccontr)
    assume "\<nexists>n. bit w n"
    then have "w = 0" by (intro bit_eqI) simp
    then show False using assms by blast
  qed
  then obtain n where "bit w n" by blast
  then have n: "n < 32" using bit_imp_le_length [of w n] by simp
  then have "\<not> ?P (31 - n)" "31 - n \<in> set [0..<32]" using \<open>bit w n\<close> by simp_all
  then have "takeWhile ?P [0..<32] \<noteq> [0..<32]" by (metis takeWhile_eq_all_conv)
  moreover have "takeWhile ?P [0..<32] = take (clz w) [0..<32]" unfolding clz_def by (rule takeWhile_eq_take)
  ultimately show l: "clz w < 32" by simp
  then have "\<not> ?P ([0..<32] ! clz w)" unfolding clz_def by (intro nth_length_takeWhile) simp
  then show "bit w (31 - clz w)" using l by simp
  show "\<not> bit w i" if "31 - clz w < i" for i
  proof (cases "i < 32")
    case True
    have "31 - i < clz w" using that True l by linarith
    then have "?P ([0..<32] ! (31 - i))" unfolding clz_def using nth_mem set_takeWhileD takeWhile_nth by metis
    then show ?thesis using True by simp
  next
    case False
    then show ?thesis using bit_imp_le_length [of w i] by auto
  qed
qed

text \<open>The scheduler takes a task from the first list that is not empty, counted from the highest priority.\<close>

definition highest_ready :: "u32 set \<Rightarrow> kernel \<Rightarrow> u32 \<Rightarrow> bool" where
  "highest_ready T s t \<longleftrightarrow> t \<in> T \<and> pxContainer (kl s) (xStateListItem t) = ready_list s (uxPriority s t) \<and>
     (\<forall>u \<in> T. pxContainer (kl s) (xStateListItem u) \<in> ready_lists s \<longrightarrow> uxPriority s u \<le> uxPriority s t)"

lemma rings_next:
  assumes R: "rings L X s G" and l: "l \<in> L" "G l \<noteq> []"
  shows "\<exists>b \<in> set (G l). listGET_OWNER_OF_NEXT_ENTRY l s = (pvOwner s b, set_pxIndex l b s) \<and> rings L X (set_pxIndex l b s) G"
proof -
  have r: "ring s l (G l)" by (rule rings_ring [OF R l(1)])
  obtain b where b: "b \<in> set (G l)" "listGET_OWNER_OF_NEXT_ENTRY l s = (pvOwner s b, set_pxIndex l b s)"
  proof (cases "pxIndex s l \<in> {xListEnd l, last (G l)}")
    case True
    obtain x xs where G: "G l = x # xs" using l(2) by (meson neq_Nil_conv)
    have e: "listGET_OWNER_OF_NEXT_ENTRY l (set_pxIndex l (xListEnd l) s) = (pvOwner s x, set_pxIndex l x s)"
      using next_step [of "set_pxIndex l (xListEnd l) s" l "[]" x xs] ring_index [OF r, of "xListEnd l"] by (simp add: G list_setters)
    have "listGET_OWNER_OF_NEXT_ENTRY l s = listGET_OWNER_OF_NEXT_ENTRY l (set_pxIndex l (xListEnd l) s)"
    proof (cases "pxIndex s l = xListEnd l")
      case True
      then have "set_pxIndex l (xListEnd l) s = s" by (simp add: list_setters flip: True)
      then show ?thesis by simp
    next
      case False
      then show ?thesis using next_wrap [OF r l(2)] True by blast
    qed
    then show ?thesis using that [of x] e G by simp
  next
    case False
    then have "pxIndex s l \<in> set (G l)" using r by (auto simp: ring_def)
    then obtain as bs where G: "G l = as @ pxIndex s l # bs" by (meson split_list)
    then obtain b cs where "bs = b # cs" using False by (cases bs) auto
    then have "ring s l ((as @ [pxIndex s l]) @ b # cs)" using r G by simp
    from next_step [OF this] show ?thesis using that [of b] G \<open>bs = b # cs\<close> by simp
  qed
  have "rings L X (set_pxIndex l b s) G"
  proof -
    have "ring (set_pxIndex l b s) k (G k)" if "k \<in> L" for k
    proof (cases "k = l")
      case True
      then show ?thesis using ring_index [OF r] b(1) by simp
    next
      case False
      have "dll (set_pxIndex l b s) p ys q = dll s p ys q" for p ys q by (rule dll_cong) (simp_all add: list_setters)
      then show ?thesis using rings_ring [OF R that] False by (simp add: ring_def list_setters)
    qed
    then show ?thesis using R by (simp add: rings_def list_setters)
  qed
  with b show ?thesis by blast
qed

lemma switch_spec:
  assumes K: "kcore T E s G" and run: "uxSchedulerSuspended s = 0"
    and some: "t \<in> T" "pxContainer (kl s) (xStateListItem t) \<in> ready_lists s"
  shows "\<exists>u l i. vTaskSwitchContext s = Some (s\<lparr>xYieldPending := False, kl := set_pxIndex l i (kl s), pxCurrentTCB := u\<rparr>) \<and>
    highest_ready T s u \<and> kcore T E (s\<lparr>kl := set_pxIndex l i (kl s)\<rparr>) G"
proof -
  note D = kcoreD [OF K]
  let ?w = "uxTopReadyPriority s"
  have ready: "bit ?w (unat (uxPriority s u)) \<and> pxContainer (kl s) (xStateListItem u) = ready_list s (uxPriority s u)"
    if u: "u \<in> T" "pxContainer (kl s) (xStateListItem u) \<in> ready_lists s" for u
  proof -
    obtain p where p: "p < 8" "pxContainer (kl s) (xStateListItem u) = ready_list s p" using u(2) by (auto simp: ready_lists_def)
    then have up: "uxPriority s u = p" using kcore_task(6) [OF K u(1)] by blast
    have "ready_list s p \<in> state_lists s \<union> event_lists E s" using p by (auto simp: state_lists_def ready_lists_def)
    then have "xStateListItem u \<in> set (G (ready_list s p))"
      using rings_member [OF D(1) items_in(1) [OF u(1)]] p(2) by blast
    then have "G (ready_list s p) \<noteq> []" by auto
    moreover have "unat p < 8" using p(1) by (simp add: word_less_nat_alt)
    ultimately show ?thesis using D(4) [of "unat p"] p(2) up by (simp add: of_nat_unat)
  qed
  have "?w \<noteq> 0" using ready [OF some] by auto
  note c = clz_top [OF this]
  let ?n = "31 - clz ?w" and ?p = "31 - of_nat (clz ?w) :: u32"
  have "?n < 8" and ne: "G (ready_list s (of_nat ?n)) \<noteq> []" using D(4) [of ?n] c(2) by simp_all
  moreover have pn: "?p = of_nat ?n" using c(1) by (simp add: of_nat_diff)
  ultimately have p: "?p < 8" "unat ?p = ?n" "G (ready_list s ?p) \<noteq> []" by (simp_all add: word_less_nat_alt unat_of_nat)
  let ?l = "ready_list s ?p"
  have rl: "?l \<in> ready_lists s" using p(1) by (simp add: ready_lists_def)
  then have l: "?l \<in> state_lists s \<union> event_lists E s" by (simp add: state_lists_def)
  from rings_next [OF D(1) l p(3)] obtain b where b: "b \<in> set (G ?l)" "listGET_OWNER_OF_NEXT_ENTRY ?l (kl s) = (pvOwner (kl s) b, set_pxIndex ?l b (kl s))"
    "rings (state_lists s \<union> event_lists E s) (items T) (set_pxIndex ?l b (kl s)) G" by blast
  obtain as bs where "G ?l = as @ b # bs" using b(1) by (meson split_list)
  have cb: "pxContainer (kl s) b = ?l" "b \<in> items T" using rings_container [OF D(1) l b(1)] by simp_all
  have "?l \<notin> insert 0 (event_lists E s)" using rl D(2) rings_D(1) [OF D(1)] l unfolding layout_def state_lists_def by auto
  then have "b \<notin> xEventListItem ` T" using cb(1) kcore_task(5) [OF K] by (metis imageE)
  then obtain u where u: "u \<in> T" "b = xStateListItem u" using cb(2) by (auto simp: items_def)
  have up: "uxPriority s u = ?p" using kcore_task(6) [OF K u(1) p(1)] cb(1) u(2) by simp
  have "highest_ready T s u"
    unfolding highest_ready_def
  proof (intro conjI ballI impI)
    show "u \<in> T" by fact
    show "pxContainer (kl s) (xStateListItem u) = ready_list s (uxPriority s u)" using cb(1) u(2) up by simp
    fix v
    assume "v \<in> T" "pxContainer (kl s) (xStateListItem v) \<in> ready_lists s"
    from ready [OF this] have "bit ?w (unat (uxPriority s v))" by blast
    then have "unat (uxPriority s v) \<le> ?n" using c(3) by (meson not_le)
    then show "uxPriority s v \<le> uxPriority s u" using p(2) up by (simp add: word_le_nat_alt)
  qed
  moreover have "vTaskSwitchContext s = Some (s\<lparr>xYieldPending := False, kl := set_pxIndex ?l b (kl s), pxCurrentTCB := u\<rparr>)"
    using run b(2) \<open>?w \<noteq> 0\<close> kcore_task(2) [OF K u(1)] u(2)
    by (simp add: vTaskSwitchContext_def taskSELECT_HIGHEST_PRIORITY_TASK_def portGET_HIGHEST_PRIORITY_def ready_list_def)
  moreover have "kcore T E (s\<lparr>kl := set_pxIndex ?l b (kl s)\<rparr>) G"
  proof -
    have "kframe s (s\<lparr>kl := set_pxIndex ?l b (kl s)\<rparr>)"
    proof -
      have "s\<lparr>kl := set_pxIndex ?l b (kl s)\<rparr> = s\<lparr>kl := set_pxIndex ?l b (kl s), uxTopReadyPriority := uxTopReadyPriority s\<rparr>" by simp
      then show ?thesis unfolding kframe_def by blast
    qed
    note F = kframe_fields [OF this]
    show ?thesis using K b(3) unfolding kcore_def F by (simp add: waiting_order_def list_setters)
  qed
  ultimately show ?thesis by blast
qed

end
