(* ===== verification/Rtos_Sched.thy ===== *)
theory Rtos_Sched
  imports Rtos_Tasks
begin

unbundle bit_operations_syntax

text \<open>
  Properties of the scheduler of \<^verbatim>\<open>src/ns_guest/lib/freertos/tasks.c\<close>: blocking for a time, waking by events and timeouts.
\<close>

section \<open>Blocking\<close>

text \<open>The running task leaves its ready list; the bit map is updated when the list becomes empty.\<close>

definition leave_ready :: "u32 \<Rightarrow> kernel \<Rightarrow> kernel" where
  "leave_ready t s =
     (let (left, l) = uxListRemove (xStateListItem t) (kl s); s = s\<lparr>kl := l\<rparr>
      in if left = 0 then portRESET_READY_PRIORITY (uxPriority s t) s else s)"

lemma leave_ready_kcore:
  assumes K: "kcore T E s G" and t: "t \<in> T" "pxContainer (kl s) (xStateListItem t) = ready_list s (uxPriority s t)"
  defines "l \<equiv> ready_list s (uxPriority s t)"
  shows "kcore T E (leave_ready t s) (G(l := remove1 (xStateListItem t) (G l)))" "kframe s (leave_ready t s)"
    "xItemValue (kl (leave_ready t s)) = xItemValue (kl s)"
    "\<And>y. y \<in> items T \<Longrightarrow> pxContainer (kl (leave_ready t s)) y = (if y = xStateListItem t then 0 else pxContainer (kl s) y)"
proof -
  note D = kcoreD [OF K] and P = kcore_task [OF K t(1)]
  let ?x = "xStateListItem t" and ?s = "leave_ready t s"
  let ?G = "G(l := remove1 ?x (G l))"
  have lr: "l \<in> ready_lists s" using P(1) by (simp add: l_def ready_lists_def)
  then have ls: "l \<in> state_lists s \<union> event_lists E s" by (simp add: state_lists_def)
  then have l0: "l \<noteq> 0" using rings_D(1) [OF D(1)] by auto
  from rings_remove [OF D(1) items_in(1) [OF t(1)] t(2) [folded l_def] l0] obtain k where
    r: "uxListRemove ?x (kl s) = (of_nat (length (G l) - 1), k)" "rings (state_lists s \<union> event_lists E s) (items T) k ?G"
      "xItemValue k = xItemValue (kl s)" "pvOwner k = pvOwner (kl s)"
    and c: "\<And>y. y \<in> items T \<Longrightarrow> pxContainer k y = (if y = ?x then 0 else pxContainer (kl s) y)" by blast
  have x: "?x \<in> set (G l)" using rings_member [OF D(1) items_in(1) [OF t(1)] ls] t(2) by (simp add: l_def)
  have len: "length (G l) < 2 ^ 32" using ring_length rings_ring [OF D(1) ls] by blast
  have "length (remove1 ?x (G l)) = length (G l) - 1" using x by (simp add: length_remove1)
  then have e: "(of_nat (length (G l) - 1) :: u32) = 0 \<longleftrightarrow> remove1 ?x (G l) = []"
    using len by (simp add: word_unat_eq_iff unat_of_nat flip: length_0_conv)
  let ?w = "if remove1 ?x (G l) = [] then uxTopReadyPriority s AND NOT (bit_at (uxPriority s t)) else uxTopReadyPriority s"
  have s': "?s = s\<lparr>kl := k, uxTopReadyPriority := ?w\<rparr>" using e by (auto simp: leave_ready_def r(1) portRESET_READY_PRIORITY_def Let_def)
  then show f: "kframe s ?s" unfolding kframe_def by blast
  show "xItemValue (kl ?s) = xItemValue (kl s)" by (simp add: s' r(3))
  show ct: "pxContainer (kl ?s) y = (if y = ?x then 0 else pxContainer (kl s) y)" if "y \<in> items T" for y using c [OF that] by (simp add: s')
  have u: "unat (uxPriority s t) < 8" using P(1) by (simp add: word_less_nat_alt)
  have bits: "bit ?w n \<longleftrightarrow> n < 8 \<and> ?G (ready_list s (of_nat n)) \<noteq> []" for n
  proof (cases "n = unat (uxPriority s t)")
    case True
    then show ?thesis using u D(4) [of n] x by (auto simp: bit_andnot_at l_def of_nat_unat)
  next
    case False
    then have "?G (ready_list s (of_nat n)) = G (ready_list s (of_nat n))" if "n < 8"
      using ready_list_other [OF that _ P(1)] by (simp add: l_def)
    moreover have "bit ?w n \<longleftrightarrow> bit (uxTopReadyPriority s) n" using False D(4) [of n] by (auto simp: bitw)
    ultimately show ?thesis using D(4) [of n] by metis
  qed
  have ord: "waiting_order ?s ?G k" if "waiting_order s G k" for k
    using that by (auto simp: waiting_order_def s' r(3) intro: sorted_map_remove1)
  have "0 \<notin> ready_lists s" using rings_D(1) [OF D(1)] by (auto simp: state_lists_def)
  then have nz: "ready_list s p \<noteq> 0" if "p < 8" for p using that by (auto simp: ready_lists_def)
  have tasks: "uxPriority s v < 8 \<and> pvOwner (kl ?s) (xStateListItem v) = v \<and> pvOwner (kl ?s) (xEventListItem v) = v \<and>
      pxContainer (kl ?s) (xStateListItem v) \<in> insert 0 (state_lists s) \<and> pxContainer (kl ?s) (xEventListItem v) \<in> insert 0 (event_lists E s) \<and>
      (\<forall>p < 8. pxContainer (kl ?s) (xStateListItem v) = ready_list s p \<longrightarrow> uxPriority s v = p)" if v: "v \<in> T" for v
    using kcore_task [OF K v] ct items_in [OF v] nz r(4) by (auto simp: s')
  have "rings (state_lists s \<union> event_lists E s) (items T) (kl ?s) ?G" "uxTopReadyPriority ?s = ?w" using r(2) by (simp_all add: s')
  then show "kcore T E ?s ?G"
    unfolding kcore_def kframe_fields [OF f] using D(2,3) tasks bits ord [OF D(5)] ord [OF D(6)] by simp
qed

text \<open>A task whose state item is in no list enters a delayed list at its wake time.\<close>

lemma rings_set_value:
  assumes R: "rings L X s G" and x: "x \<in> X"
  shows "rings L X (listSET_LIST_ITEM_VALUE x v s) G"
proof -
  have "ring (listSET_LIST_ITEM_VALUE x v s) l (G l)" if "l \<in> L" for l
  proof -
    have "dll (listSET_LIST_ITEM_VALUE x v s) p ys q = dll s p ys q" for p ys q
      by (rule dll_cong) (simp_all add: listSET_LIST_ITEM_VALUE_def)
    moreover have "x \<noteq> xListEnd l" using rings_D(2) [OF R] x that by blast
    ultimately show ?thesis using rings_ring [OF R that] by (simp add: ring_def listSET_LIST_ITEM_VALUE_def)
  qed
  then show ?thesis using R by (simp add: rings_def listSET_LIST_ITEM_VALUE_def)
qed

lemma insert_delayed_kcore:
  fixes w :: u32
  assumes K: "kcore T E s G" and t: "t \<in> T" "pxContainer (kl s) (xStateListItem t) = 0"
    and l: "l \<in> {pxDelayedTaskList s, pxOverflowDelayedTaskList s}"
  defines "f \<equiv> (xItemValue (kl s))(xStateListItem t := w)"
  shows "\<exists>k. vListInsert l (xStateListItem t) (listSET_LIST_ITEM_VALUE (xStateListItem t) w (kl s)) = Some k \<and>
    kcore T E (s\<lparr>kl := k\<rparr>) (G(l := insort_after f (xStateListItem t) (G l))) \<and> xItemValue k = f \<and>
    (\<forall>y \<in> items T. pxContainer k y = (if y = xStateListItem t then l else pxContainer (kl s) y))"
proof -
  note D = kcoreD [OF K]
  let ?x = "xStateListItem t" and ?k = "listSET_LIST_ITEM_VALUE (xStateListItem t) w (kl s)"
  let ?G = "G(l := insort_after f ?x (G l))"
  have ls: "l \<in> state_lists s - ready_lists s" using l delayed_lists [OF K] by auto
  have val: "xItemValue ?k = f" by (simp add: listSET_LIST_ITEM_VALUE_def f_def)
  have R: "rings (state_lists s \<union> event_lists E s) (items T) ?k G" by (rule rings_set_value [OF D(1) items_in(1) [OF t(1)]])
  have z: "pxContainer ?k ?x = 0" and own: "pvOwner ?k = pvOwner (kl s)" and cont: "pxContainer ?k = pxContainer (kl s)"
    using t(2) by (simp_all add: listSET_LIST_ITEM_VALUE_def)
  have "l \<in> state_lists s \<union> event_lists E s" using ls by blast
  from rings_insert [OF R this items_in(1) [OF t(1)] z] obtain k where
    k: "vListInsert l ?x ?k = Some k" "rings (state_lists s \<union> event_lists E s) (items T) k ?G" "xItemValue k = f" "pvOwner k = pvOwner (kl s)"
    and c: "\<And>y. y \<in> items T \<Longrightarrow> pxContainer k y = (if y = ?x then l else pxContainer (kl s) y)"
    unfolding val own cont by blast
  have keep: "sorted (map f (G j))" if "waiting_order s G j" "j \<in> state_lists s" for j
  proof -
    have "?x \<notin> set (G j)" using rings_loose [OF D(1) _ items_in(1) [OF t(1)] t(2), of j] that(2) by simp
    then have eq: "map f (G j) = map (xItemValue (kl s)) (G j)" by (auto simp: f_def)
    show ?thesis unfolding eq using that(1) by (simp only: waiting_order_def)
  qed
  have ord: "sorted (map f (?G j))" if "waiting_order s G j" "j \<in> state_lists s" for j
  proof (cases "j = l")
    case True
    then show ?thesis using insort_after_sort_key [OF keep [OF that]] by simp
  next
    case False
    then show ?thesis using keep [OF that] by simp
  qed
  have fr: "kframe s (s\<lparr>kl := k\<rparr>)"
  proof -
    have "s\<lparr>kl := k\<rparr> = s\<lparr>kl := k, uxTopReadyPriority := uxTopReadyPriority s\<rparr>" by simp
    then show ?thesis unfolding kframe_def by blast
  qed
  have bits: "bit (uxTopReadyPriority s) n \<longleftrightarrow> n < 8 \<and> ?G (ready_list s (of_nat n)) \<noteq> []" for n
  proof -
    have "ready_list s (of_nat n) \<noteq> l" if "n < 8"
    proof -
      have "(of_nat n :: u32) < 8" using that by (simp add: word_less_nat_alt unat_of_nat)
      then show ?thesis using ls by (auto simp: ready_lists_def)
    qed
    then show ?thesis using D(4) [of n] by auto
  qed
  have tasks: "uxPriority s v < 8 \<and> pvOwner k (xStateListItem v) = v \<and> pvOwner k (xEventListItem v) = v \<and>
      pxContainer k (xStateListItem v) \<in> insert 0 (state_lists s) \<and> pxContainer k (xEventListItem v) \<in> insert 0 (event_lists E s) \<and>
      (\<forall>p < 8. pxContainer k (xStateListItem v) = ready_list s p \<longrightarrow> uxPriority s v = p)" if v: "v \<in> T" for v
  proof -
    have "l \<noteq> ready_list s p" if "p < 8" for p using ls that by (auto simp: ready_lists_def)
    moreover have "xEventListItem v \<noteq> ?x" using layout_items [OF D(2) t(1) v] by simp
    ultimately show ?thesis using kcore_task [OF K v] c items_in [OF v] k(4) ls by auto
  qed
  have "kcore T E (s\<lparr>kl := k\<rparr>) ?G"
    unfolding kcore_def kframe_fields [OF fr] waiting_order_def
    using k(2,3) D(2,3) tasks bits ord [OF D(5)] ord [OF D(6)] delayed_lists [OF K] by simp
  with k(1,3) c show ?thesis by blast
qed

text \<open>The running task blocks for \<open>n\<close> ticks: it sleeps with \<open>n\<close> ticks remaining, whether or not its wake time lies behind the
  wrap-around of the tick count, and nothing else moves.\<close>

lemma add_delayed_spec:
  assumes I: "kinv T E s G" and t: "pxCurrentTCB s \<in> T"
      "pxContainer (kl s) (xStateListItem (pxCurrentTCB s)) = ready_list s (uxPriority s (pxCurrentTCB s))"
    and n: "n \<noteq> 0" "\<not> (n = portMAX_DELAY \<and> indef)"
  shows "\<exists>s' G'. prvAddCurrentTaskToDelayedList n indef s = Some s' \<and> kinv T E s' G' \<and>
    sleeping s' (pxCurrentTCB s) \<and> remaining s' (pxCurrentTCB s) = n \<and> kframe (s\<lparr>xNextTaskUnblockTime := xNextTaskUnblockTime s'\<rparr>) s' \<and>
    (\<forall>y \<in> items T. y \<noteq> xStateListItem (pxCurrentTCB s) \<longrightarrow> pxContainer (kl s') y = pxContainer (kl s) y \<and> xItemValue (kl s') y = xItemValue (kl s) y) \<and>
    (\<forall>j \<in> event_lists E s. G' j = G j)"
proof -
  have K: "kcore T E s G" and M: "ktime s G" using I by (simp_all add: kinv_def)
  let ?t = "pxCurrentTCB s"
  let ?x = "xStateListItem ?t" and ?s1 = "leave_ready ?t s" and ?w = "xTickCount s + n"
  let ?r = "ready_list s (uxPriority s ?t)"
  let ?G1 = "G(?r := remove1 ?x (G ?r))"
  note A = leave_ready_kcore [OF K t] and F = kframe_fields [OF leave_ready_kcore(2) [OF K t]]
  have z: "pxContainer (kl ?s1) ?x = 0" using A(4) [OF items_in(1) [OF t(1)]] by simp
  let ?l = "if ?w < xTickCount s then pxOverflowDelayedTaskList s else pxDelayedTaskList s"
  have l: "?l \<in> {pxDelayedTaskList ?s1, pxOverflowDelayedTaskList ?s1}" by (simp add: F)
  let ?f = "(xItemValue (kl s))(?x := ?w)"
  from insert_delayed_kcore [OF A(1) t(1) z l, of ?w] obtain k where
    k: "vListInsert ?l ?x (listSET_LIST_ITEM_VALUE ?x ?w (kl ?s1)) = Some k"
      "kcore T E (?s1\<lparr>kl := k\<rparr>) (?G1(?l := insort_after ?f ?x (?G1 ?l)))" "xItemValue k = ?f"
      "\<And>y. y \<in> items T \<Longrightarrow> pxContainer k y = (if y = ?x then ?l else pxContainer (kl ?s1) y)"
    unfolding A(3) by blast
  let ?n = "if \<not> ?w < xTickCount s \<and> ?w < xNextTaskUnblockTime s then ?w else xNextTaskUnblockTime s"
  let ?s' = "?s1\<lparr>kl := k, xNextTaskUnblockTime := ?n\<rparr>" and ?G' = "?G1(?l := insort_after ?f ?x (?G1 ?l))"
  have "prvAddCurrentTaskToDelayedList n indef s = Some ?s'"
  proof -
    have "prvAddCurrentTaskToDelayedList n indef s =
        (if ?w < xTickCount s
         then do { k \<leftarrow> vListInsert (pxOverflowDelayedTaskList ?s1) ?x (listSET_LIST_ITEM_VALUE ?x ?w (kl ?s1)); Some (?s1\<lparr>kl := k\<rparr>) }
         else do { k \<leftarrow> vListInsert (pxDelayedTaskList ?s1) ?x (listSET_LIST_ITEM_VALUE ?x ?w (kl ?s1));
                   Some (if ?w < xNextTaskUnblockTime ?s1 then ?s1\<lparr>kl := k, xNextTaskUnblockTime := ?w\<rparr> else ?s1\<lparr>kl := k\<rparr>) })"
    proof -
      obtain left l where e: "uxListRemove ?x (kl s) = (left, l)" by (cases "uxListRemove ?x (kl s)")
      show ?thesis
      proof (cases "left = 0")
        case True
        then have s1: "?s1 = s\<lparr>kl := l, uxTopReadyPriority := uxTopReadyPriority s AND NOT (bit_at (uxPriority s ?t))\<rparr>"
          by (simp add: leave_ready_def e portRESET_READY_PRIORITY_def)
        show ?thesis unfolding s1 using True by (simp add: n(2) prvAddCurrentTaskToDelayedList_def e portRESET_READY_PRIORITY_def Let_def cong: if_cong)
      next
        case False
        then have s1: "?s1 = s\<lparr>kl := l\<rparr>" by (simp add: leave_ready_def e)
        show ?thesis unfolding s1 using False by (simp add: n(2) prvAddCurrentTaskToDelayedList_def e Let_def cong: if_cong)
      qed
    qed
    moreover have "?s1\<lparr>kl := k\<rparr> = ?s1\<lparr>kl := k, xNextTaskUnblockTime := xNextTaskUnblockTime s\<rparr>" using F(11) by simp
    ultimately show ?thesis using k(1) by (auto simp: F)
  qed
  moreover have "kinv T E ?s' ?G'"
  proof -
    have ne: "?r \<notin> {pxDelayedTaskList s, pxOverflowDelayedTaskList s}"
    proof -
      have "?r \<in> ready_lists s" using kcore_task(1) [OF K t(1)] by (simp add: ready_lists_def)
      then show ?thesis using delayed_lists [OF K] by auto
    qed
    have x: "?x \<notin> set (G j)" if "j \<in> {pxDelayedTaskList s, pxOverflowDelayedTaskList s}" for j
    proof -
      have "j \<in> state_lists s \<union> event_lists E s" using that delayed_lists [OF K] by auto
      then show ?thesis using rings_member [OF kcoreD(1) [OF K] items_in(1) [OF t(1)]] t(2) ne that by auto
    qed
    have "xTickCount s < ?w" if "\<not> ?w < xTickCount s" using that n(1) by (simp add: not_less less_le)
    moreover have "?n \<le> xNextTaskUnblockTime s" by auto
    moreover have "kcore T E ?s' ?G'" using k(2) by (simp add: kcore_cong)
    moreover note delayed_lists(3) [OF K]
    ultimately show ?thesis
      using M ne x k(3) unfolding kinv_def ktime_def by (auto simp: F intro: order_trans)
  qed
  moreover have "kframe (s\<lparr>xNextTaskUnblockTime := ?n\<rparr>) ?s'"
  proof -
    have "kframe ?s1 (?s1\<lparr>kl := k\<rparr>)"
    proof -
      have "?s1\<lparr>kl := k\<rparr> = ?s1\<lparr>kl := k, uxTopReadyPriority := uxTopReadyPriority ?s1\<rparr>" by simp
      then show ?thesis unfolding kframe_def by blast
    qed
    from kframe_next [OF kframe_trans [OF A(2) this], of ?n] show ?thesis by simp
  qed
  moreover have "sleeping ?s' ?t" "remaining ?s' ?t = n" using k(3) k(4) [OF items_in(1) [OF t(1)]] by (simp_all add: sleeping_def remaining_def F)
  moreover have "\<forall>y \<in> items T. y \<noteq> ?x \<longrightarrow> pxContainer (kl ?s') y = pxContainer (kl s) y \<and> xItemValue (kl ?s') y = xItemValue (kl s) y"
    using k(3,4) A(4) by simp
  moreover have "?G' j = G j" if "j \<in> event_lists E s" for j
  proof -
    have "?r \<in> state_lists s" using kcore_task(1) [OF K t(1)] by (auto simp: state_lists_def ready_lists_def)
    moreover have "?l \<in> state_lists s" using delayed_lists [OF K] by auto
    moreover have "j \<notin> state_lists s" using kcoreD(2) [OF K] that unfolding layout_def by blast
    ultimately show ?thesis by auto
  qed
  ultimately show ?thesis by (intro exI [of _ ?s'] exI [of _ ?G']) simp
qed

section \<open>The running scheduler\<close>

definition task_ready :: "kernel \<Rightarrow> u32 \<Rightarrow> bool" where
  "task_ready s t \<longleftrightarrow> pxContainer (kl s) (xStateListItem t) = ready_list s (uxPriority s t)"

text \<open>Between two calls the scheduler is not suspended and has no work left over from when it was.\<close>

definition quiet :: "u32 set \<Rightarrow> kernel \<Rightarrow> bool" where
  "quiet T s \<longleftrightarrow> uxSchedulerSuspended s = 0 \<and> uxPendedTicks s = 0 \<and>
     (\<forall>t \<in> T. pxContainer (kl s) (xEventListItem t) \<noteq> xPendingReadyList s)"

definition scheduled :: "u32 set \<Rightarrow> u32 set \<Rightarrow> kernel \<Rightarrow> bool" where
  "scheduled T E s \<longleftrightarrow> (\<exists>G. kinv T E s G) \<and> quiet T s \<and> pxCurrentTCB s \<in> T \<and> task_ready s (pxCurrentTCB s)"

lemma kinv_cong:
  "kinv T E (s\<lparr>uxSchedulerSuspended := n\<rparr>) G = kinv T E s G" "kinv T E (s\<lparr>pxCurrentTCB := n\<rparr>) G = kinv T E s G"
  "kinv T E (s\<lparr>xYieldPending := y\<rparr>) G = kinv T E s G"
  by (simp_all add: kinv_def ktime_def kcore_cong)

lemma task_ready_in:
  assumes "kcore T E s G" "t \<in> T"
  shows "task_ready s t \<longleftrightarrow> pxContainer (kl s) (xStateListItem t) \<in> ready_lists s"
proof
  show "task_ready s t" if c: "pxContainer (kl s) (xStateListItem t) \<in> ready_lists s"
  proof -
    obtain p where "p < 8" "pxContainer (kl s) (xStateListItem t) = ready_list s p" using c by (auto simp: ready_lists_def)
    then show ?thesis using kcore_task(6) [OF assms] by (simp add: task_ready_def)
  qed
qed (use kcore_task(1) [OF assms] in \<open>auto simp: task_ready_def ready_lists_def\<close>)

text \<open>A state as the switch leaves it.\<close>

definition switched :: "u32 \<Rightarrow> kernel \<Rightarrow> kernel \<Rightarrow> bool" where
  "switched u s s' \<longleftrightarrow> (\<exists>l i. s' = s\<lparr>xYieldPending := False, kl := set_pxIndex l i (kl s), pxCurrentTCB := u\<rparr>)"

lemma switched_fields:
  assumes "switched u s s'"
  shows "pxContainer (kl s') = pxContainer (kl s)" "xItemValue (kl s') = xItemValue (kl s)" "xTickCount s' = xTickCount s"
    "ready_list s' = ready_list s" "ready_lists s' = ready_lists s" "uxPriority s' = uxPriority s" "pxDelayedTaskList s' = pxDelayedTaskList s"
    "pxOverflowDelayedTaskList s' = pxOverflowDelayedTaskList s" "uxSchedulerSuspended s' = uxSchedulerSuspended s"
    "uxPendedTicks s' = uxPendedTicks s" "xPendingReadyList s' = xPendingReadyList s" "pxCurrentTCB s' = u"
    "xNumOfOverflows s' = xNumOfOverflows s" "xSchedulerRunning s' = xSchedulerRunning s" "\<not> xYieldPending s'"
  using assms by (auto simp: switched_def list_setters ready_list_def ready_lists_def fun_eq_iff)

lemma switched_views:
  assumes "switched u s s'"
  shows "task_ready s' = task_ready s" "sleeping s' = sleeping s" "remaining s' = remaining s" "highest_ready T s' = highest_ready T s"
    "quiet T s' = quiet T s"
  using switched_fields [OF assms] by (simp_all add: task_ready_def sleeping_def remaining_def highest_ready_def quiet_def fun_eq_iff)

lemma switch_scheduled:
  assumes I: "kinv T E s G" and q: "quiet T s" and t: "t \<in> T" "task_ready s t"
  shows "\<exists>s' u. vTaskSwitchContext s = Some s' \<and> switched u s s' \<and> scheduled T E s' \<and> highest_ready T s' u"
proof -
  have K: "kcore T E s G" and M: "ktime s G" using I by (simp_all add: kinv_def)
  have "uxSchedulerSuspended s = 0" using q by (simp add: quiet_def)
  from switch_spec [OF K this t(1)] t(2) task_ready_in [OF K t(1)] obtain u l i where
    u: "vTaskSwitchContext s = Some (s\<lparr>xYieldPending := False, kl := set_pxIndex l i (kl s), pxCurrentTCB := u\<rparr>)"
      "highest_ready T s u" "kcore T E (s\<lparr>kl := set_pxIndex l i (kl s)\<rparr>) G" by blast
  let ?s = "s\<lparr>xYieldPending := False, kl := set_pxIndex l i (kl s), pxCurrentTCB := u\<rparr>"
  have sw: "switched u s ?s" unfolding switched_def by blast
  note V = switched_views [OF sw]
  have "?s = s\<lparr>kl := set_pxIndex l i (kl s)\<rparr>\<lparr>xYieldPending := False\<rparr>\<lparr>pxCurrentTCB := u\<rparr>" by simp
  then have "kcore T E ?s G" using u(3) by (simp only: kcore_cong)
  moreover have "ktime ?s G" using M by (simp add: ktime_def list_setters)
  moreover have "u \<in> T" "task_ready ?s u" using u(2) by (simp_all add: highest_ready_def V task_ready_def)
  ultimately have "scheduled T E ?s" using q by (auto simp: scheduled_def kinv_def V)
  then show ?thesis using u(1,2) sw by (auto simp: V)
qed

lemma tick_scheduled:
  assumes "scheduled T E s"
  shows "\<exists>r s'. xTaskIncrementTick s = Some (r, s') \<and> scheduled T E s' \<and> ticked T s s' \<and> pxCurrentTCB s' = pxCurrentTCB s \<and>
    (r \<longleftrightarrow> (\<exists>t \<in> T. sleeping s t \<and> remaining s t = 1 \<and> uxPriority s t \<ge> uxPriority s (pxCurrentTCB s)) \<or>
       listCURRENT_LIST_LENGTH (ready_list s (uxPriority s (pxCurrentTCB s))) (kl s') > 1 \<or> xYieldPending s)"
proof -
  obtain G where I: "kinv T E s G" and q: "quiet T s" and c: "pxCurrentTCB s \<in> T" "task_ready s (pxCurrentTCB s)"
    using assms by (auto simp: scheduled_def)
  have K: "kcore T E s G" using I by (simp add: kinv_def)
  have run: "uxSchedulerSuspended s = 0" using q by (simp add: quiet_def)
  from tick_spec [OF I run] obtain r s' G' where
    t: "xTaskIncrementTick s = Some (r, s')" "kinv T E s' G'" "ticked T s s'" "pxCurrentTCB s' = pxCurrentTCB s"
      "r \<longleftrightarrow> (\<exists>t \<in> T. sleeping s t \<and> remaining s t = 1 \<and> uxPriority s t \<ge> uxPriority s (pxCurrentTCB s)) \<or>
       listCURRENT_LIST_LENGTH (ready_list s (uxPriority s (pxCurrentTCB s))) (kl s') > 1 \<or> xYieldPending s" by blast
  have "\<not> sleeping s (pxCurrentTCB s)"
    using c(2) delayed_lists [OF K] task_ready_in [OF K c(1)] by (auto simp: sleeping_def)
  then have rd: "task_ready s' (pxCurrentTCB s')" using t(3,4) c by (simp add: ticked_def task_ready_def)
  have "xPendingReadyList s \<noteq> 0" using rings_D(1) [OF kcoreD(1) [OF K]] by (auto simp: event_lists_def)
  then have "pxContainer (kl s') (xEventListItem v) \<noteq> xPendingReadyList s'" if "v \<in> T" for v
    using q t(3) that unfolding quiet_def ticked_def by metis
  then have "quiet T s'" using q t(3) by (simp add: quiet_def ticked_def)
  with t rd c show ?thesis by (auto simp: scheduled_def)
qed

text \<open>One tick interrupt, with the switch on its way out.\<close>

lemma tick_interrupt:
  assumes S: "scheduled T E s"
  shows "\<exists>s'. tick_interrupts (Suc n) s = tick_interrupts n s' \<and> scheduled T E s' \<and> ticked T s s'"
proof -
  from tick_scheduled [OF S] obtain r s1 where t: "xTaskIncrementTick s = Some (r, s1)" "scheduled T E s1" "ticked T s s1" by blast
  have h: "FreeRTOS_Tick_Handler False s = Some (r, s1)" by (simp add: FreeRTOS_Tick_Handler_def t(1))
  show ?thesis
  proof (cases r)
    case False
    then show ?thesis using t h by (auto simp: irq_exit_def)
  next
    case True
    obtain G where "kinv T E s1 G" "quiet T s1" "pxCurrentTCB s1 \<in> T" "task_ready s1 (pxCurrentTCB s1)"
      using t(2) by (auto simp: scheduled_def)
    from switch_scheduled [OF this] obtain s' u where
      sw: "vTaskSwitchContext s1 = Some s'" "switched u s1 s'" "scheduled T E s'" by blast
    have "ticked T s s'" using t(3) by (simp add: ticked_def switched_fields [OF sw(2)] switched_views [OF sw(2)])
    then show ?thesis using True h sw by (intro exI [of _ s']) (simp add: irq_exit_def)
  qed
qed

text \<open>A sleeping task sleeps on until its last tick, and that tick makes it ready.\<close>

lemma ticks_sleep:
  assumes "scheduled T E s" "t \<in> T" "sleeping s t" "k < unat (remaining s t)"
  shows "\<exists>s'. tick_interrupts k s = Some s' \<and> scheduled T E s' \<and> sleeping s' t \<and> remaining s' t = remaining s t - of_nat k \<and>
    uxPriority s' = uxPriority s"
  using assms
proof (induction k arbitrary: s)
  case 0
  then show ?case by simp
next
  case (Suc k)
  from tick_interrupt [OF Suc.prems(1)] obtain s1 where
    s1: "tick_interrupts (Suc k) s = tick_interrupts k s1" "scheduled T E s1" "ticked T s s1" by blast
  have ne: "remaining s t \<noteq> 1" "remaining s t \<noteq> 0" using Suc.prems(4) by auto
  then have st: "sleeping s1 t" "remaining s1 t = remaining s t - 1" "uxPriority s1 = uxPriority s"
    using s1(3) Suc.prems(2,3) by (simp_all add: ticked_def)
  have "unat (remaining s t - 1) = unat (remaining s t) - 1" using ne(2) by (simp add: unat_minus_one)
  then have "k < unat (remaining s1 t)" using Suc.prems(4) st(2) by simp
  from Suc.IH [OF s1(2) Suc.prems(2) st(1) this] show ?case using s1(1) st by (auto simp: algebra_simps)
qed

lemma ticks_wake:
  assumes "scheduled T E s" "t \<in> T" "sleeping s t" "remaining s t \<noteq> 0"
  shows "\<exists>s'. tick_interrupts (unat (remaining s t)) s = Some s' \<and> scheduled T E s' \<and> task_ready s' t \<and>
    pxContainer (kl s') (xEventListItem t) = 0"
proof -
  let ?n = "unat (remaining s t)"
  have n: "?n = Suc (?n - 1)" using assms(4) by (simp add: unat_gt_0)
  from ticks_sleep [OF assms(1-3), of "?n - 1"] n obtain s1 where
    s1: "tick_interrupts (?n - 1) s = Some s1" "scheduled T E s1" "sleeping s1 t" "remaining s1 t = remaining s t - of_nat (?n - 1)" by auto
  have one: "remaining s1 t = 1" using s1(4) n by (metis add_diff_cancel_left' diff_add_cancel of_nat_Suc of_nat_unat ucast_id)
  have split: "tick_interrupts (a + b) = (\<lambda>s. tick_interrupts a s \<bind> tick_interrupts b)" for a b
  proof (induction a)
    case (Suc a)
    show ?case by (rule ext) (simp add: Suc.IH case_prod_unfold)
  qed simp
  from tick_interrupt [OF s1(2), of 0] obtain s' where
    s': "tick_interrupts (Suc 0) s1 = Some s'" "scheduled T E s'" "ticked T s1 s'" by auto
  have "tick_interrupts ?n s = Some s'" using split [of "?n - 1" "Suc 0"] s1(1) s'(1) n by simp
  moreover have "task_ready s' t" "pxContainer (kl s') (xEventListItem t) = 0"
    using s'(3) s1(3) one assms(2) by (simp_all add: ticked_def task_ready_def)
  ultimately show ?thesis using s'(2) by blast
qed

text \<open>Resuming a scheduler in which nothing has happened while it was suspended is a switch, if one is pending.\<close>

lemma resume_quiet:
  assumes K: "kcore T E s G" and s: "uxSchedulerSuspended s = 1" "uxPendedTicks s = 0"
    and ev: "\<forall>t \<in> T. pxContainer (kl s) (xEventListItem t) \<noteq> xPendingReadyList s"
  shows "xTaskResumeAll s = (if 0 < uxCurrentNumberOfTasks s \<and> xYieldPending s
    then map_option (Pair True) (vTaskSwitchContext (s\<lparr>uxSchedulerSuspended := 0\<rparr>)) else Some (False, s\<lparr>uxSchedulerSuspended := 0\<rparr>))"
proof -
  note D = kcoreD [OF K]
  let ?p = "xPendingReadyList s"
  have p: "?p \<in> state_lists s \<union> event_lists E s" by (simp add: event_lists_def)
  have "?p \<noteq> 0" using rings_D(1) [OF D(1)] p by metis
  moreover have "?p \<notin> state_lists s" using D(2) by (auto simp: layout_def event_lists_def)
  ultimately have "pxContainer (kl s) (xStateListItem t) \<noteq> ?p" if "t \<in> T" for t using kcore_task(4) [OF K that] by auto
  then have "pxContainer (kl s) x \<noteq> ?p" if "x \<in> items T" for x using that ev by (auto simp: items_def)
  then have "G ?p = []" using rings_D(3) [OF D(1) p] rings_member [OF D(1) _ p] by (meson ex_in_conv set_empty subset_iff)
  then have e: "listLIST_IS_EMPTY ?p (kl s)" using rings_empty [OF D(1) p] by simp
  let ?s = "s\<lparr>uxSchedulerSuspended := 0\<rparr>"
  have "pending_loop False ?s = Some (False, ?s)" using e by (subst pending_loop.simps) simp
  then show ?thesis using s by (cases "vTaskSwitchContext ?s") (simp_all add: xTaskResumeAll_def Let_def)
qed

lemma resume_switch:
  assumes K: "kcore T E s G" and s: "uxSchedulerSuspended s = 1" "uxPendedTicks s = 0"
    and ev: "\<forall>t \<in> T. pxContainer (kl s) (xEventListItem t) \<noteq> xPendingReadyList s"
  shows "xTaskResumeAll s \<bind> (\<lambda>(y, s). if \<not> y then vTaskSwitchContext s else Some s) = vTaskSwitchContext (s\<lparr>uxSchedulerSuspended := 0\<rparr>)"
  using resume_quiet [OF K s ev] by (cases "vTaskSwitchContext (s\<lparr>uxSchedulerSuspended := 0\<rparr>)") auto

text \<open>Blocking: the task that runs sleeps for the given time, and another one takes over.\<close>

lemma block_scheduled:
  assumes S: "scheduled T E s" and u: "u \<in> T" "u \<noteq> pxCurrentTCB s" "task_ready s u" and n: "n \<noteq> 0"
  shows "\<exists>s'. prvAddCurrentTaskToDelayedList n False (vTaskSuspendAll s) \<bind> (\<lambda>s. xTaskResumeAll s \<bind>
      (\<lambda>(y, s). if \<not> y then vTaskSwitchContext s else Some s)) = Some s' \<and>
    scheduled T E s' \<and> sleeping s' (pxCurrentTCB s) \<and> remaining s' (pxCurrentTCB s) = n \<and> highest_ready T s' (pxCurrentTCB s') \<and>
    uxPriority s' = uxPriority s \<and> xTickCount s' = xTickCount s"
proof -
  let ?t = "pxCurrentTCB s" and ?s1 = "vTaskSuspendAll s"
  obtain G where I: "kinv T E s G" and q: "quiet T s" and t: "?t \<in> T" "task_ready s ?t" using S by (auto simp: scheduled_def)
  have s1: "?s1 = s\<lparr>uxSchedulerSuspended := 1\<rparr>" using q by (simp add: vTaskSuspendAll_def quiet_def)
  have I1: "kinv T E ?s1 G" using I by (simp add: s1 kinv_cong)
  have t1: "pxCurrentTCB ?s1 \<in> T" "pxContainer (kl ?s1) (xStateListItem (pxCurrentTCB ?s1)) = ready_list ?s1 (uxPriority ?s1 (pxCurrentTCB ?s1))"
    using t by (simp_all add: s1 task_ready_def ready_list_def)
  have nd: "\<not> (n = portMAX_DELAY \<and> False)" by simp
  from add_delayed_spec [OF I1 t1 n nd] obtain s2 G2 where
    s2: "prvAddCurrentTaskToDelayedList n False ?s1 = Some s2" "kinv T E s2 G2" "sleeping s2 ?t" "remaining s2 ?t = n"
      "kframe (?s1\<lparr>xNextTaskUnblockTime := xNextTaskUnblockTime s2\<rparr>) s2"
    and other: "\<And>y. y \<in> items T \<Longrightarrow> y \<noteq> xStateListItem ?t \<Longrightarrow> pxContainer (kl s2) y = pxContainer (kl s) y" by (auto simp: s1)
  note F = kframe_fields [OF s2(5), unfolded s1, simplified]
  have rl: "ready_list s2 = ready_list s" using F(4) by (simp add: ready_list_def fun_eq_iff)
  have K: "kcore T E s2 G2" "layout T E s2" using s2(2) kcoreD(2) by (auto simp: kinv_def)
  have ev: "pxContainer (kl s2) (xEventListItem v) = pxContainer (kl s) (xEventListItem v)" if "v \<in> T" for v
    using other [OF items_in(2) [OF that]] layout_items [OF K(2) t(1) that] by metis
  have ev2: "\<forall>v \<in> T. pxContainer (kl s2) (xEventListItem v) \<noteq> xPendingReadyList s2" using ev q by (simp add: quiet_def F)
  have su: "uxSchedulerSuspended s2 = 1" "uxPendedTicks s2 = 0" using q by (simp_all add: F quiet_def)
  note R = resume_switch [OF K(1) su ev2]
  let ?s3 = "s2\<lparr>uxSchedulerSuspended := 0\<rparr>"
  have "kinv T E ?s3 G2" "quiet T ?s3" using s2(2) ev2 su by (simp_all add: kinv_cong quiet_def)
  moreover have "task_ready ?s3 u" using u(2,3) other [OF items_in(1) [OF u(1)]] fun_cong [OF rl] F(6)
    by (simp add: task_ready_def ready_list_def)
  moreover note u(1)
  ultimately obtain s' v where w: "vTaskSwitchContext ?s3 = Some s'" "switched v ?s3 s'" "scheduled T E s'" "highest_ready T s' v"
    using switch_scheduled by blast
  note W = switched_fields [OF w(2)] switched_views [OF w(2)]
  have "sleeping s' ?t" "remaining s' ?t = n" using s2(3,4) by (simp_all add: W sleeping_def remaining_def)
  then show ?thesis using s2(1) R w by (auto simp: W F)
qed

lemma vTaskDelay_blocks:
  assumes "scheduled T E s" "u \<in> T" "u \<noteq> pxCurrentTCB s" "task_ready s u" "n \<noteq> 0"
  shows "\<exists>s'. vTaskDelay n s = Some s' \<and> scheduled T E s' \<and> sleeping s' (pxCurrentTCB s) \<and> remaining s' (pxCurrentTCB s) = n \<and>
    highest_ready T s' (pxCurrentTCB s') \<and> uxPriority s' = uxPriority s"
proof -
  have "vTaskDelay n s = prvAddCurrentTaskToDelayedList n False (vTaskSuspendAll s) \<bind> (\<lambda>s. xTaskResumeAll s \<bind>
      (\<lambda>(y, s). if \<not> y then vTaskSwitchContext s else Some s))"
    using assms(5) by (simp add: vTaskDelay_def word_gt_0)
  then show ?thesis using block_scheduled [OF assms] by auto
qed


text \<open>The period of \<open>vTaskDelayUntil\<close>: the test with its cases for a wrapped count asks whether the time elapsed
  since the last wake time is shorter than the period.\<close>

lemma xShouldDelay_iff: "xShouldDelay p (p + i) c \<longleftrightarrow> c - p < i"
proof -
  have "unat (p + i) = (if unat p + unat i < 2 ^ 32 then unat p + unat i else unat p + unat i - 2 ^ 32)" by (simp add: unat_plus_if')
  moreover have "unat (c - p) = (if unat p \<le> unat c then unat c - unat p else unat c + 2 ^ 32 - unat p)" by (simp add: unat_sub_if')
  moreover have "unat w < 2 ^ 32" for w :: u32 using unsigned_less [of w, where ?'a = nat] by simp
  then have "unat i < 2 ^ 32" "unat p < 2 ^ 32" "unat c < 2 ^ 32" by blast+
  ultimately show ?thesis unfolding xShouldDelay_def word_less_nat_alt by (auto split: if_split)
qed

section \<open>Events\<close>

text \<open>The waiting tasks of an event list are in order of priority.\<close>

definition event_order :: "u32 set \<Rightarrow> u32 set \<Rightarrow> kernel \<Rightarrow> (u32 \<Rightarrow> u32 list) \<Rightarrow> bool" where
  "event_order T E s G \<longleftrightarrow> (\<forall>t \<in> T. xItemValue (kl s) (xEventListItem t) = configMAX_PRIORITIES - uxPriority s t) \<and>
     (\<forall>l \<in> E. waiting_order s G l)"

lemma sorted_head: "sorted (map f xs) \<Longrightarrow> xs = x # ys \<Longrightarrow> y \<in> set xs \<Longrightarrow> f x \<le> f y"
  by auto

lemma event_head:
  assumes K: "kcore T E s G" and l: "l \<in> event_lists E s" and G: "G l \<noteq> []"
  shows "\<exists>t \<in> T. hd (G l) = xEventListItem t \<and> listGET_OWNER_OF_HEAD_ENTRY l (kl s) = t \<and> pxContainer (kl s) (xEventListItem t) = l"
proof -
  note D = kcoreD [OF K]
  let ?x = "hd (G l)"
  have lu: "l \<in> state_lists s \<union> event_lists E s" using l by simp
  then have c: "pxContainer (kl s) ?x = l" "?x \<in> items T" using rings_container [OF D(1) lu] G by simp_all
  have "l \<notin> insert 0 (state_lists s)" using D(2) l rings_D(1) [OF D(1)] lu unfolding layout_def by auto
  then have "pxContainer (kl s) (xStateListItem v) \<noteq> l" if "v \<in> T" for v using kcore_task(4) [OF K that] by metis
  then have "?x \<notin> xStateListItem ` T" using c(1) by (metis imageE)
  then obtain t where t: "t \<in> T" "?x = xEventListItem t" using c(2) by (auto simp: items_def)
  have "ring (kl s) l (?x # tl (G l))" using rings_ring [OF D(1) lu] G by simp
  then have "pxNext (kl s) (xListEnd l) = ?x" by (simp add: ring_def)
  then show ?thesis using t c(1) kcore_task(3) [OF K t(1)] by (auto simp: listGET_OWNER_OF_HEAD_ENTRY_def)
qed

text \<open>The first task of an event list has the highest priority of those waiting in it.\<close>

lemma event_first:
  assumes K: "kcore T E s G" and O: "event_order T E s G" and l: "l \<in> E" "G l \<noteq> []"
  shows "\<exists>t \<in> T. hd (G l) = xEventListItem t \<and> listGET_OWNER_OF_HEAD_ENTRY l (kl s) = t \<and> pxContainer (kl s) (xEventListItem t) = l \<and>
    (\<forall>u \<in> T. pxContainer (kl s) (xEventListItem u) = l \<longrightarrow> uxPriority s u \<le> uxPriority s t)"
proof -
  note D = kcoreD [OF K]
  have le: "l \<in> event_lists E s" and lu: "l \<in> state_lists s \<union> event_lists E s" using l(1) by (simp_all add: event_lists_def)
  from event_head [OF K le l(2)] obtain t where t: "t \<in> T" "hd (G l) = xEventListItem t"
    "listGET_OWNER_OF_HEAD_ENTRY l (kl s) = t" "pxContainer (kl s) (xEventListItem t) = l" by blast
  let ?e = "xEventListItem t"
  have "uxPriority s u \<le> uxPriority s t" if u: "u \<in> T" "pxContainer (kl s) (xEventListItem u) = l" for u
  proof -
    have "xEventListItem u \<in> set (G l)" using rings_member [OF D(1) items_in(2) [OF u(1)] lu] u(2) by simp
    moreover have Gl: "G l = ?e # tl (G l)" using l(2) t(2) by (cases "G l") simp_all
    moreover have "sorted (map (xItemValue (kl s)) (G l))" using O l(1) by (simp only: event_order_def waiting_order_def)
    ultimately have "xItemValue (kl s) ?e \<le> xItemValue (kl s) (xEventListItem u)" using sorted_head by metis
    then have "8 - uxPriority s t \<le> 8 - uxPriority s u" using O t(1) u(1) by (simp add: event_order_def)
    moreover have "unat (8 - p) = 8 - unat p" if "p < 8" for p :: u32 using unat_sub [of p 8] that by (simp add: less_imp_le)
    ultimately show ?thesis using kcore_task(1) [OF K t(1)] kcore_task(1) [OF K u(1)] by (simp add: word_le_nat_alt word_less_nat_alt)
  qed
  then show ?thesis using t by blast
qed

end
