(* ===== verification/Rtos_Start.thy ===== *)
theory Rtos_Start
  imports Rtos_Sched
begin

unbundle bit_operations_syntax

text \<open>
  Creation of tasks and start of the scheduler of \<^verbatim>\<open>src/ns_guest/lib/freertos/tasks.c\<close>: the invariant
  is established by the code itself. Then the properties of the scheduler as claims, each with a
  kernel of two application tasks that the code has started.
\<close>

section \<open>Lists and items in memory\<close>

text \<open>Items that no list holds may be written; an item in no list may join the family.\<close>

lemma rings_outside:
  assumes R: "rings L X s G" and A: "A \<inter> X = {}" "A \<inter> xListEnd ` L = {}"
    and same: "pxNext s' = pxNext s" "pxPrevious s' = pxPrevious s" "uxNumberOfItems s' = uxNumberOfItems s" "pxIndex s' = pxIndex s"
      "\<And>y. y \<notin> A \<Longrightarrow> pxContainer s' y = pxContainer s y \<and> xItemValue s' y = xItemValue s y"
  shows "rings L X s' G"
proof -
  have "ring s' l (G l)" if l: "l \<in> L" for l
  proof -
    have "dll s' p ys q = dll s p ys q" for p ys q by (rule dll_cong) (simp_all add: same)
    moreover have "xListEnd l \<notin> A" using A(2) l by blast
    moreover have "pxContainer s' x = pxContainer s x" if "x \<in> set (G l)" for x
      using same(5) [of x] rings_D(3) [OF R l] that A(1) by blast
    ultimately show ?thesis using rings_ring [OF R l] same by (auto simp: ring_def)
  qed
  moreover have "pxContainer s' x = pxContainer s x" if "x \<in> X" for x using same(5) [of x] A(1) that by blast
  ultimately show ?thesis using R by (auto simp: rings_def)
qed

lemma rings_enter:
  assumes "rings L X s G" "pxContainer s x = 0" "x \<notin> xListEnd ` L"
  shows "rings L (insert x X) s G"
  using assms by (auto simp: rings_def)

definition kernel_lists :: "u32 set \<Rightarrow> kernel \<Rightarrow> u32 set" where
  "kernel_lists E s = state_lists s \<union> event_lists E s"

text \<open>Where the lists and the control blocks of the tasks lie.\<close>

definition places :: "u32 set \<Rightarrow> u32 set \<Rightarrow> kernel \<Rightarrow> bool" where
  "places T E s \<longleftrightarrow> layout T E s \<and> 0 \<notin> kernel_lists E s \<and> items T \<inter> xListEnd ` kernel_lists E s = {} \<and> 0 \<notin> T"

definition same_places :: "kernel \<Rightarrow> kernel \<Rightarrow> bool" where
  "same_places s s' \<longleftrightarrow> pxReadyTasksLists s' = pxReadyTasksLists s \<and> xDelayedTaskList1 s' = xDelayedTaskList1 s \<and>
     xDelayedTaskList2 s' = xDelayedTaskList2 s \<and> xPendingReadyList s' = xPendingReadyList s \<and>
     xTasksWaitingTermination s' = xTasksWaitingTermination s \<and> xSuspendedTaskList s' = xSuspendedTaskList s \<and>
     xNumOfOverflows s' = xNumOfOverflows s"

lemma same_places_fields:
  assumes "same_places s s'"
  shows "ready_list s' = ready_list s" "ready_lists s' = ready_lists s" "state_lists s' = state_lists s"
    "event_lists E s' = event_lists E s" "kernel_lists E s' = kernel_lists E s" "layout T E s' = layout T E s" "places T E s' = places T E s"
  using assms
  by (auto simp: same_places_def ready_list_def ready_lists_def state_lists_def event_lists_def kernel_lists_def layout_def places_def fun_eq_iff)

lemma places_subset:
  assumes "places T E s" "U \<subseteq> T"
  shows "places U E s"
proof -
  have "items U \<subseteq> items T" "xStateListItem ` U \<subseteq> xStateListItem ` T" "xEventListItem ` U \<subseteq> xEventListItem ` T"
    using assms(2) by (auto simp: items_def)
  moreover have "xStateListItem ` T \<inter> xEventListItem ` T = {}" "items T \<inter> xListEnd ` kernel_lists E s = {}" "0 \<notin> T"
    using assms(1) by (simp_all add: places_def layout_def)
  ultimately have "xStateListItem ` U \<inter> xEventListItem ` U = {}" "items U \<inter> xListEnd ` kernel_lists E s = {}" "0 \<notin> U"
    using assms(2) by (meson disjoint_iff subsetD)+
  then show ?thesis using assms(1) by (simp add: places_def layout_def)
qed

section \<open>Initialisation of the lists\<close>

lemma vListInitialise_fields [simp]:
  "pxContainer (vListInitialise l s) = pxContainer s" "pvOwner (vListInitialise l s) = pvOwner s"
  "x \<noteq> xListEnd l \<Longrightarrow> xItemValue (vListInitialise l s) x = xItemValue s x"
  by (simp_all add: vListInitialise_def list_setters Let_def)

lemma initialise_lists:
  shows "l \<in> set ls \<Longrightarrow> ring (fold vListInitialise ls s) l []"
    "pxContainer (fold vListInitialise ls s) = pxContainer s" "pvOwner (fold vListInitialise ls s) = pvOwner s"
    "x \<notin> xListEnd ` set ls \<Longrightarrow> xItemValue (fold vListInitialise ls s) x = xItemValue s x"
proof (induction ls rule: rev_induct)
  case (snoc k ks)
  {
    case 1
    show ?case
    proof (cases "l = k")
      case True
      then show ?thesis using vListInitialise_ring by simp
    next
      case False
      then have "ring (fold vListInitialise ks s) l []" "xListEnd l \<noteq> xListEnd k" using snoc(1) 1 by (simp_all add: xListEnd_inj)
      then have "ring (vListInitialise k t) l []" if "ring t l []" for t
        using that False by (simp add: ring_def vListInitialise_def list_setters Let_def)
      then show ?thesis using \<open>ring (fold vListInitialise ks s) l []\<close> by simp
    qed
  next
    case 2
    show ?case using snoc by simp
  next
    case 3
    show ?case using snoc by simp
  next
    case 4
    then show ?case using snoc by simp
  }
qed simp_all

definition lists_of :: "kernel \<Rightarrow> u32 list" where
  "lists_of s = map (\<lambda>i. ready_list s (of_nat i)) [0..<8] @
     [xDelayedTaskList1 s, xDelayedTaskList2 s, xPendingReadyList s, xTasksWaitingTermination s, xSuspendedTaskList s]"

lemma ready_lists_image: "ready_lists s = (\<lambda>i. ready_list s (of_nat i)) ` {0..<8}"
proof
  show "ready_lists s \<subseteq> (\<lambda>i. ready_list s (of_nat i)) ` {0..<8}"
  proof
    fix l
    assume "l \<in> ready_lists s"
    then obtain p where "p < 8" "l = ready_list s p" by (auto simp: ready_lists_def)
    then show "l \<in> (\<lambda>i. ready_list s (of_nat i)) ` {0..<8}" by (intro image_eqI [of _ _ "unat p"]) (simp_all add: word_less_nat_alt)
  qed
qed (auto simp: ready_lists_def word_less_nat_alt unat_of_nat intro!: imageI)

lemma set_lists_of: "set (lists_of s) = kernel_lists {} s"
  by (auto simp: lists_of_def kernel_lists_def state_lists_def event_lists_def ready_lists_image)

lemma prvInitialiseTaskLists_fold:
  "prvInitialiseTaskLists s = s\<lparr>kl := fold vListInitialise (lists_of s) (kl s), pxDelayedTaskList := xDelayedTaskList1 s,
     pxOverflowDelayedTaskList := xDelayedTaskList2 s\<rparr>"
proof -
  have "fold (\<lambda>i s. s\<lparr>kl := vListInitialise (ready_list s (of_nat i)) (kl s)\<rparr>) js s =
      s\<lparr>kl := fold vListInitialise (map (\<lambda>i. ready_list s (of_nat i)) js) (kl s)\<rparr>" for js
  proof (induction js arbitrary: s)
    case (Cons i js)
    have "ready_list (s\<lparr>kl := l\<rparr>) = ready_list s" for l by (simp add: ready_list_def fun_eq_iff)
    then show ?case using Cons.IH by simp
  qed simp
  then show ?thesis by (simp add: prvInitialiseTaskLists_def lists_of_def Let_def)
qed

lemma initialised_kcore:
  assumes P: "places {} {} s" and z: "uxTopReadyPriority s = 0"
  shows "kcore {} {} (prvInitialiseTaskLists s) (\<lambda>_. [])"
proof -
  let ?s = "prvInitialiseTaskLists s"
  have sp: "same_places s ?s" by (simp add: prvInitialiseTaskLists_fold same_places_def)
  note F = same_places_fields [OF sp]
  have "ring (kl ?s) l []" if "l \<in> kernel_lists {} s" for l
    using initialise_lists(1) [of l "lists_of s" "kl s"] that by (simp add: prvInitialiseTaskLists_fold set_lists_of)
  then have "rings (kernel_lists {} s) {} (kl ?s) (\<lambda>_. [])" using P by (simp add: rings_def places_def)
  moreover have "layout {} {} s" using P by (simp add: places_def)
  ultimately show ?thesis using z
    by (simp add: kcore_def F kernel_lists_def items_def waiting_order_def) (simp add: prvInitialiseTaskLists_fold)
qed


section \<open>Creation of a task\<close>

lemma kcore_cong_more:
  "kcore T E (s\<lparr>uxCurrentNumberOfTasks := n\<rparr>) G = kcore T E s G" "kcore T E (s\<lparr>uxTaskNumber := n\<rparr>) G = kcore T E s G"
  "kcore T E (s\<lparr>xSchedulerRunning := b\<rparr>) G = kcore T E s G"
  by (simp_all add: kcore_def layout_def state_lists_def event_lists_def ready_lists_def ready_list_def waiting_order_def)

text \<open>A control block that is not in the kernel's hands yet.\<close>

definition new_task :: "u32 \<Rightarrow> kernel \<Rightarrow> bool" where
  "new_task t s \<longleftrightarrow> pxContainer (kl s) (xStateListItem t) = 0 \<and> pxContainer (kl s) (xEventListItem t) = 0 \<and>
     pvOwner (kl s) (xStateListItem t) = t \<and> pvOwner (kl s) (xEventListItem t) = t \<and> uxPriority s t < configMAX_PRIORITIES \<and>
     xItemValue (kl s) (xEventListItem t) = configMAX_PRIORITIES - uxPriority s t"

lemma places_apart:
  assumes "places (insert t T) E s" "t \<notin> T"
  shows "{xStateListItem t, xEventListItem t} \<inter> items T = {}" "{xStateListItem t, xEventListItem t} \<inter> xListEnd ` kernel_lists E s = {}"
    "xStateListItem t \<noteq> xEventListItem t"
proof -
  have P: "xStateListItem ` insert t T \<inter> xEventListItem ` insert t T = {}" "items (insert t T) \<inter> xListEnd ` kernel_lists E s = {}"
    using assms(1) unfolding places_def layout_def by blast+
  show "xStateListItem t \<noteq> xEventListItem t" using P(1) by auto
  show "{xStateListItem t, xEventListItem t} \<inter> items T = {}" using P(1) assms(2) by (auto simp: items_def)
  show "{xStateListItem t, xEventListItem t} \<inter> xListEnd ` kernel_lists E s = {}" using P(2) by (auto simp: items_def)
qed

lemma initialise_new_fields:
  defines "q \<equiv> \<lambda>p. if p \<ge> configMAX_PRIORITIES then configMAX_PRIORITIES - 1 else p"
  shows "prvInitialiseNewTask p t s = s\<lparr>uxPriority := (uxPriority s)(t := q p), uxBasePriority := (uxBasePriority s)(t := q p),
    uxMutexesHeld := (uxMutexesHeld s)(t := 0), ulNotifiedValue := (ulNotifiedValue s)(t := 0), ucNotifyState := (ucNotifyState s)(t := 0),
    kl := (kl s)\<lparr>pxContainer := (pxContainer (kl s))(xStateListItem t := 0, xEventListItem t := 0),
      pvOwner := (pvOwner (kl s))(xStateListItem t := t, xEventListItem t := t),
      xItemValue := (xItemValue (kl s))(xEventListItem t := configMAX_PRIORITIES - q p)\<rparr>\<rparr>"
  by (simp add: prvInitialiseNewTask_def q_def Let_def vListInitialiseItem_def listSET_LIST_ITEM_OWNER_def listSET_LIST_ITEM_VALUE_def list_setters)

lemma initialise_new:
  assumes "xStateListItem t \<noteq> xEventListItem t"
  shows "new_task t (prvInitialiseNewTask p t s)" "same_places s (prvInitialiseNewTask p t s)"
  using assms by (auto simp: initialise_new_fields new_task_def same_places_def)

lemma initialise_new_kcore:
  assumes K: "kcore T E s G" and P: "places (insert t T) E s" "t \<notin> T"
  shows "kcore T E (prvInitialiseNewTask p t s) G"
proof -
  let ?s = "prvInitialiseNewTask p t s" and ?A = "{xStateListItem t, xEventListItem t}"
  note D = kcoreD [OF K] and A = places_apart [OF P]
  note F = same_places_fields [OF initialise_new(2) [OF A(3), of s p]]
  have R: "rings (state_lists s \<union> event_lists E s) (items T) (kl ?s) G"
    by (rule rings_outside [OF D(1) A(1,2) [unfolded kernel_lists_def]]) (simp_all add: initialise_new_fields)
  have out: "x \<noteq> xStateListItem t" "x \<noteq> xEventListItem t" if "x \<in> items T" for x using A(1) that by blast+
  have tasks: "uxPriority ?s v < 8 \<and> pvOwner (kl ?s) (xStateListItem v) = v \<and> pvOwner (kl ?s) (xEventListItem v) = v \<and>
      pxContainer (kl ?s) (xStateListItem v) \<in> insert 0 (state_lists s) \<and> pxContainer (kl ?s) (xEventListItem v) \<in> insert 0 (event_lists E s) \<and>
      (\<forall>q < 8. pxContainer (kl ?s) (xStateListItem v) = ready_list s q \<longrightarrow> uxPriority ?s v = q)" if v: "v \<in> T" for v
    using kcore_task [OF K v] out [OF items_in(1) [OF v]] out [OF items_in(2) [OF v]] P(2) v
    by (auto simp: initialise_new_fields)
  have ord: "waiting_order ?s G k" if w: "waiting_order s G k" and k: "k \<in> state_lists s" for k
  proof -
    have "set (G k) \<subseteq> items T" using rings_D(3) [OF D(1)] k by blast
    then have e: "map (xItemValue (kl ?s)) (G k) = map (xItemValue (kl s)) (G k)" using out by (auto simp: initialise_new_fields)
    show ?thesis using w unfolding waiting_order_def e .
  qed
  have "pxDelayedTaskList ?s = pxDelayedTaskList s" "pxOverflowDelayedTaskList ?s = pxOverflowDelayedTaskList s"
    "xDelayedTaskList1 ?s = xDelayedTaskList1 s" "xDelayedTaskList2 ?s = xDelayedTaskList2 s" "uxTopReadyPriority ?s = uxTopReadyPriority s"
    by (simp_all add: initialise_new_fields)
  then show ?thesis
    unfolding kcore_def F using R D(2-4) tasks ord [OF D(5)] ord [OF D(6)] delayed_lists [OF K] by simp
qed

lemma kcore_enter:
  assumes K: "kcore T E s G" and P: "places (insert t T) E s" "t \<notin> T" and N: "new_task t s"
  shows "kcore (insert t T) E s G"
proof -
  note D = kcoreD [OF K] and A = places_apart [OF P]
  have i: "items (insert t T) = insert (xStateListItem t) (insert (xEventListItem t) (items T))" by (auto simp: items_def)
  have n: "xStateListItem t \<notin> xListEnd ` (state_lists s \<union> event_lists E s)" "xEventListItem t \<notin> xListEnd ` (state_lists s \<union> event_lists E s)"
    using A(2) unfolding kernel_lists_def by blast+
  have R: "rings (state_lists s \<union> event_lists E s) (items (insert t T)) (kl s) G"
    unfolding i using rings_enter rings_enter [OF D(1)] n N by (simp add: new_task_def)
  have L: "layout (insert t T) E s" using P(1) by (simp add: places_def)
  have "0 \<notin> ready_lists s" using P(1) by (simp add: places_def kernel_lists_def state_lists_def)
  then have "ready_list s q \<noteq> 0" if "q < 8" for q using that by (auto simp: ready_lists_def)
  then have "\<forall>v \<in> insert t T. uxPriority s v < 8 \<and> pvOwner (kl s) (xStateListItem v) = v \<and> pvOwner (kl s) (xEventListItem v) = v \<and>
      pxContainer (kl s) (xStateListItem v) \<in> insert 0 (state_lists s) \<and> pxContainer (kl s) (xEventListItem v) \<in> insert 0 (event_lists E s) \<and>
      (\<forall>q < 8. pxContainer (kl s) (xStateListItem v) = ready_list s q \<longrightarrow> uxPriority s v = q)"
    using N kcore_task [OF K] unfolding new_task_def by (metis insert_iff)
  then show ?thesis unfolding kcore_def using R L D(3-6) by blast
qed

lemma add_new_task:
  assumes K: "kcore T E s G" and P: "places (insert t T) E s" "t \<notin> T" and N: "new_task t s"
  defines "s' \<equiv> prvAddTaskToReadyList t s"
  shows "\<exists>G'. kcore (insert t T) E s' G'" "kframe s s'" "task_ready s' t" "xItemValue (kl s') = xItemValue (kl s)"
    "\<And>y. y \<in> items (insert t T) \<Longrightarrow> y \<noteq> xStateListItem t \<Longrightarrow> pxContainer (kl s') y = pxContainer (kl s) y"
proof -
  have c: "pxContainer (kl s) (xStateListItem t) = 0" using N by (simp add: new_task_def)
  note A = kcore_add_ready [OF kcore_enter [OF K P N] insertI1 c, folded s'_def]
  show "\<exists>G'. kcore (insert t T) E s' G'" using A(1) by blast
  show "kframe s s'" "xItemValue (kl s') = xItemValue (kl s)" by (rule A(2), rule A(3))
  show "task_ready s' t" using A(4) [OF items_in(1) [OF insertI1]] kframe_fields(4,6) [OF A(2)] by (simp add: task_ready_def)
  show "pxContainer (kl s') y = pxContainer (kl s) y" if "y \<in> items (insert t T)" "y \<noteq> xStateListItem t" for y
    using A(4) [OF that(1)] that(2) by simp
qed


section \<open>From the first task to the start\<close>

text \<open>The kernel before its first task, and while the application creates tasks.\<close>

definition fresh :: "kernel \<Rightarrow> bool" where
  "fresh s \<longleftrightarrow> pxCurrentTCB s = 0 \<and> uxCurrentNumberOfTasks s = 0 \<and> uxTopReadyPriority s = 0 \<and> \<not> xSchedulerRunning s \<and>
     uxSchedulerSuspended s = 0 \<and> uxPendedTicks s = 0"

definition starting :: "u32 set \<Rightarrow> kernel \<Rightarrow> bool" where
  "starting T s \<longleftrightarrow> (\<exists>G. kcore T {} s G) \<and> places T {} s \<and> quiet T s \<and> \<not> xSchedulerRunning s \<and> pxCurrentTCB s \<in> T \<and>
     (\<forall>t \<in> T. task_ready s t \<and> uxPriority s t \<le> uxPriority s (pxCurrentTCB s) \<and>
        xItemValue (kl s) (xEventListItem t) = configMAX_PRIORITIES - uxPriority s t)"

lemma places_pending: "places T E s \<Longrightarrow> xPendingReadyList s \<noteq> 0"
  unfolding places_def kernel_lists_def event_lists_def by auto

lemma create_first:
  assumes f: "fresh s" and P: "places {t} {} s"
  shows "\<exists>s'. xTaskCreate p (Some t) s = Some (True, s') \<and> starting {t} s' \<and> same_places s s'"
proof -
  note A = places_apart [OF P, simplified]
  let ?s1 = "prvInitialiseNewTask p t s"
  let ?s2 = "?s1\<lparr>uxCurrentNumberOfTasks := 1, pxCurrentTCB := t\<rparr>"
  let ?s3 = "(prvInitialiseTaskLists ?s2)\<lparr>uxTaskNumber := uxTaskNumber s + 1\<rparr>"
  let ?s4 = "prvAddTaskToReadyList t ?s3"
  note i = initialise_new(1) [OF A(3), of p s] initialise_new(2) [OF A(3), of s p]
  have same: "same_places s ?s3" using i(2) by (simp add: same_places_def prvInitialiseTaskLists_fold)
  have sp2: "same_places s ?s2" using i(2) by (simp add: same_places_def)
  have "places {} {} ?s2" using places_subset [OF P] same_places_fields(7) [OF sp2] by simp
  moreover have "uxTopReadyPriority ?s2 = 0" using f by (simp add: fresh_def initialise_new_fields)
  ultimately have K: "kcore {} {} ?s3 (\<lambda>_. [])" using initialised_kcore by (simp add: kcore_cong_more)
  have N: "new_task t ?s3"
  proof -
    have "xEventListItem t \<notin> xListEnd ` set (lists_of ?s2)"
      using A(2) same_places_fields(5) [OF sp2] by (simp add: set_lists_of)
    then show ?thesis using i(1) by (simp add: new_task_def prvInitialiseTaskLists_fold initialise_lists)
  qed
  have P3: "places {t} {} ?s3" using P same_places_fields(7) [OF same] by simp
  note B = add_new_task [OF K P3 _ N, simplified]
  note F = kframe_fields [OF B(2)]
  obtain l w where fr: "?s4 = ?s3\<lparr>kl := l, uxTopReadyPriority := w\<rparr>" using B(2) unfolding kframe_def by blast
  have sp: "same_places s ?s4" using same unfolding fr by (simp add: same_places_def)
  have run: "\<not> xSchedulerRunning ?s4" using f unfolding fr by (simp add: fresh_def prvInitialiseTaskLists_fold initialise_new_fields)
  have cur: "pxCurrentTCB ?s4 = t" unfolding fr by (simp add: prvInitialiseTaskLists_fold)
  have "pxContainer (kl ?s4) (xEventListItem t) = 0"
    using B(5) [of "xEventListItem t"] A(3) N by (simp add: items_def new_task_def)
  moreover have "uxSchedulerSuspended ?s4 = 0" "uxPendedTicks ?s4 = 0"
    using f unfolding fr by (simp_all add: fresh_def prvInitialiseTaskLists_fold initialise_new_fields)
  ultimately have "quiet {t} ?s4" using places_pending [OF P] same_places_def [of s ?s4] sp by (simp add: quiet_def)
  moreover have "xItemValue (kl ?s4) (xEventListItem t) = configMAX_PRIORITIES - uxPriority ?s4 t" using N B(4) F(6) by (simp add: new_task_def)
  ultimately have "starting {t} ?s4" using B(1,3) run cur P same_places_fields(7) [OF sp] by (simp add: starting_def)
  moreover have "xTaskCreate p (Some t) s = Some (True, ?s4)"
  proof -
    have g: "pxCurrentTCB ?s1 = 0" "uxCurrentNumberOfTasks ?s1 = 0" "uxTaskNumber ?s1 = uxTaskNumber s"
      using f by (simp_all add: fresh_def initialise_new_fields)
    have h: "uxTaskNumber (prvInitialiseTaskLists ?s2) = uxTaskNumber s" by (simp add: prvInitialiseTaskLists_fold g)
    show ?thesis using run by (simp add: xTaskCreate_def prvAddNewTaskToReadyList_def g h Let_def)
  qed
  ultimately show ?thesis using sp by blast
qed

lemma create_next:
  assumes S: "starting T s" and P: "places (insert t T) {} s" "t \<notin> T"
  shows "\<exists>s'. xTaskCreate p (Some t) s = Some (True, s') \<and> starting (insert t T) s' \<and> same_places s s'"
proof -
  note A = places_apart [OF P]
  obtain G where K: "kcore T {} s G" using S by (auto simp: starting_def)
  let ?s1 = "prvInitialiseNewTask p t s" and ?c = "pxCurrentTCB s"
  let ?s2 = "?s1\<lparr>uxCurrentNumberOfTasks := uxCurrentNumberOfTasks s + 1,
    pxCurrentTCB := if uxPriority ?s1 ?c \<le> uxPriority ?s1 t then t else ?c, uxTaskNumber := uxTaskNumber s + 1\<rparr>"
  let ?s3 = "prvAddTaskToReadyList t ?s2"
  have c: "?c \<in> T" "?c \<noteq> 0" "?c \<noteq> t" using S P by (auto simp: starting_def places_def)
  note i = initialise_new(1) [OF A(3), of p s] initialise_new(2) [OF A(3), of s p]
  have same: "same_places s ?s2" using i(2) by (simp add: same_places_def)
  have K2: "kcore T {} ?s2 G" using initialise_new_kcore [OF K P] by (simp add: kcore_cong kcore_cong_more)
  have P2: "places (insert t T) {} ?s2" using P(1) same_places_fields(7) [OF same] by simp
  have N: "new_task t ?s2" using i(1) by (simp add: new_task_def)
  note B = add_new_task [OF K2 P2 P(2) N]
  note F = kframe_fields [OF B(2)]
  obtain l w where fr: "?s3 = ?s2\<lparr>kl := l, uxTopReadyPriority := w\<rparr>" using B(2) unfolding kframe_def by blast
  have sp: "same_places s ?s3" using same unfolding fr by (simp add: same_places_def)
  have run: "\<not> xSchedulerRunning ?s3" using S unfolding fr by (simp add: starting_def initialise_new_fields)
  have out: "x \<noteq> xStateListItem t" "x \<noteq> xEventListItem t" if "x \<in> items T" for x using A(1) that by blast+
  have old: "pxContainer (kl ?s3) x = pxContainer (kl s) x" if "x \<in> items T" for x
    using B(5) [of x] that out [OF that] by (simp add: items_def initialise_new_fields)
  have rl: "ready_list ?s3 = ready_list s" using same_places_fields(1) [OF sp] .
  have pr: "uxPriority ?s3 v = uxPriority s v" if "v \<in> T" for v using that P(2) unfolding F by (auto simp: initialise_new_fields)
  have rd: "task_ready ?s3 v" if v: "v \<in> insert t T" for v
  proof (cases "v = t")
    case False
    then have vT: "v \<in> T" using v by blast
    show ?thesis unfolding task_ready_def rl pr [OF vT] old [OF items_in(1) [OF vT]] using S vT by (simp add: starting_def task_ready_def)
  qed (use B(3) in simp)
  have ev: "xItemValue (kl ?s3) (xEventListItem v) = configMAX_PRIORITIES - uxPriority ?s3 v" if v: "v \<in> insert t T" for v
  proof (cases "v = t")
    case True
    then show ?thesis using N B(4) F(6) by (simp add: new_task_def)
  next
    case False
    then have vT: "v \<in> T" using v by blast
    have "xItemValue (kl ?s3) (xEventListItem v) = xItemValue (kl s) (xEventListItem v)"
      using B(4) out [OF items_in(2) [OF vT]] by (simp add: initialise_new_fields)
    then show ?thesis using S vT pr [OF vT] by (simp add: starting_def)
  qed
  have evc: "pxContainer (kl ?s3) (xEventListItem v) \<noteq> xPendingReadyList s" if v: "v \<in> insert t T" for v
  proof (cases "v = t")
    case True
    have "pxContainer (kl ?s3) (xEventListItem t) = 0"
      using B(5) [of "xEventListItem t"] A(3) N by (simp add: items_def new_task_def)
    then show ?thesis using True places_pending [OF P(1)] by simp
  next
    case False
    then have vT: "v \<in> T" using v by blast
    then show ?thesis using S old [OF items_in(2) [OF vT]] by (simp add: starting_def quiet_def)
  qed
  have "uxSchedulerSuspended ?s3 = 0" "uxPendedTicks ?s3 = 0" using S unfolding F(12,17)
    by (simp_all add: starting_def quiet_def initialise_new_fields)
  then have "quiet (insert t T) ?s3" using evc sp by (simp add: quiet_def same_places_def)
  moreover have cur: "pxCurrentTCB ?s3 = (if uxPriority ?s1 ?c \<le> uxPriority ?s1 t then t else ?c)" unfolding F(7) by simp
  moreover have "uxPriority ?s3 v \<le> uxPriority ?s3 (pxCurrentTCB ?s3)" if v: "v \<in> insert t T" for v
  proof -
    have e: "uxPriority ?s3 t = uxPriority ?s1 t" "uxPriority ?s1 ?c = uxPriority s ?c" using c(3) unfolding F(6)
      by (simp_all add: initialise_new_fields)
    have "uxPriority s v \<le> uxPriority s ?c" if "v \<in> T" using S that by (simp add: starting_def)
    then show ?thesis using v e pr [OF c(1)] pr [of v] unfolding cur by (auto split: if_split)
  qed
  moreover have "pxCurrentTCB ?s3 \<in> insert t T" using c(1) cur by simp
  ultimately have "starting (insert t T) ?s3"
    using B(1) run P(1) same_places_fields(7) [OF sp] rd ev by (simp add: starting_def)
  moreover have "xTaskCreate p (Some t) s = Some (True, ?s3)"
  proof -
    have g: "pxCurrentTCB ?s1 = ?c" "uxCurrentNumberOfTasks ?s1 = uxCurrentNumberOfTasks s" "uxTaskNumber ?s1 = uxTaskNumber s" "\<not> xSchedulerRunning ?s1"
      using S by (simp_all add: initialise_new_fields starting_def)
    have h: "?s1\<lparr>uxCurrentNumberOfTasks := uxCurrentNumberOfTasks s + 1, uxTaskNumber := uxTaskNumber s + 1\<rparr> =
        ?s1\<lparr>uxCurrentNumberOfTasks := uxCurrentNumberOfTasks s + 1, pxCurrentTCB := ?c, uxTaskNumber := uxTaskNumber s + 1\<rparr>"
      using g(1) by simp
    show ?thesis using run c(2) by (auto simp add: xTaskCreate_def prvAddNewTaskToReadyList_def g h Let_def)
  qed
  ultimately show ?thesis using sp by blast
qed


fun create_tasks :: "(u32 \<times> u32) list \<Rightarrow> kernel \<Rightarrow> kernel option" where
  "create_tasks [] s = Some s"
| "create_tasks ((prio, tcb) # ts) s = do { (r, s) \<leftarrow> xTaskCreate prio (Some tcb) s; create_tasks ts s }"

text \<open>Both cases of a step: \<open>T\<close> are the tasks so far.\<close>

lemma create_step:
  assumes "if T = {} then fresh s else starting T s" "places (insert t T) {} s" "t \<notin> T"
  shows "\<exists>s'. xTaskCreate p (Some t) s = Some (True, s') \<and> starting (insert t T) s' \<and> same_places s s'"
  using assms create_first [of s t p] create_next [of T s t p] by (cases "T = {}") auto

lemma create_all:
  assumes "if T = {} then fresh s else starting T s" "places (T \<union> snd ` set ts) {} s" "distinct (map snd ts)" "T \<inter> snd ` set ts = {}"
  shows "\<exists>s'. create_tasks ts s = Some s' \<and> (let T' = T \<union> snd ` set ts in if T' = {} then fresh s' else starting T' s') \<and> same_places s s'"
  using assms
proof (induction ts arbitrary: T s)
  case Nil
  then show ?case by (simp add: same_places_def)
next
  case (Cons pt ts)
  obtain p t where pt: "pt = (p, t)" by (cases pt)
  have P: "places (insert t T) {} s" by (rule places_subset [OF Cons.prems(2)]) (auto simp: pt)
  have "t \<notin> T" using Cons.prems(4) pt by auto
  from create_step [OF Cons.prems(1) P this] obtain s1 where
    s1: "xTaskCreate p (Some t) s = Some (True, s1)" "starting (insert t T) s1" "same_places s s1" by blast
  have "places (insert t T \<union> snd ` set ts) {} s1" using Cons.prems(2) same_places_fields(7) [OF s1(3)] by (simp add: pt)
  moreover have "distinct (map snd ts)" "insert t T \<inter> snd ` set ts = {}" using Cons.prems(3,4) pt by auto
  moreover have "if insert t T = {} then fresh s1 else starting (insert t T) s1" using s1(2) by simp
  ultimately obtain s' where s': "create_tasks ts s1 = Some s'" "starting (insert t T \<union> snd ` set ts) s'" "same_places s1 s'"
    using Cons.IH by (fastforce simp: Let_def)
  have "same_places s s'" using s1(3) s'(3) by (simp add: same_places_def)
  then show ?case using s1(1) s'(1,2) by (simp add: pt)
qed

lemma starting_scheduled:
  assumes S: "starting T s"
  defines "s' \<equiv> s\<lparr>xNextTaskUnblockTime := portMAX_DELAY, xSchedulerRunning := True, xTickCount := 0\<rparr>"
  shows "scheduled T {} s'" "highest_ready T s' (pxCurrentTCB s')" "\<forall>t \<in> T. task_ready s' t"
proof -
  obtain G where K: "kcore T {} s G" using S by (auto simp: starting_def)
  have rl: "ready_list s' = ready_list s" "ready_lists s' = ready_lists s" by (simp_all add: s'_def ready_list_def ready_lists_def fun_eq_iff)
  have "G j = []" if "j \<in> {pxDelayedTaskList s, pxOverflowDelayedTaskList s}" for j
  proof (rule ccontr)
    assume "G j \<noteq> []"
    then obtain x xs where G: "G j = x # xs" by (meson neq_Nil_conv)
    have j: "j \<in> state_lists s" "j \<notin> ready_lists s" using delayed_lists [OF K] that by auto
    from head_task [OF K j(1) G] obtain t where t: "t \<in> T" "pxContainer (kl s) (xStateListItem t) = j" by blast
    have "task_ready s t" using S t(1) by (simp add: starting_def)
    then show False using task_ready_in [OF K t(1)] t(2) j(2) by simp
  qed
  then have "ktime s' G" by (simp add: ktime_def s'_def)
  then have "kinv T {} s' G" using K by (simp add: kinv_def s'_def kcore_cong kcore_cong_more)
  then show "scheduled T {} s'" using S rl(1) by (auto simp: scheduled_def starting_def quiet_def s'_def task_ready_def)
  show "highest_ready T s' (pxCurrentTCB s')" using S rl by (auto simp: highest_ready_def starting_def s'_def task_ready_def)
  show "\<forall>t \<in> T. task_ready s' t" using S rl(1) by (auto simp: starting_def s'_def task_ready_def)
qed

lemma start_spec:
  assumes "fresh s" "places (insert idle (insert timer (snd ` set ts))) {} s" "distinct (idle # timer # map snd ts)"
  shows "\<exists>s1 s2. create_tasks ts s = Some s1 \<and> vTaskStartScheduler (Some idle) (Some timer) s1 = Some (True, s2) \<and>
    scheduled (insert idle (insert timer (snd ` set ts))) {} s2 \<and>
    highest_ready (insert idle (insert timer (snd ` set ts))) s2 (pxCurrentTCB s2) \<and>
    (\<forall>t \<in> insert idle (insert timer (snd ` set ts)). task_ready s2 t) \<and> xTickCount s2 = 0 \<and> xNumOfOverflows s2 = xNumOfOverflows s \<and> xSchedulerRunning s2 \<and>
    (\<forall>t \<in> insert idle (insert timer (snd ` set ts)). xItemValue (kl s2) (xEventListItem t) = configMAX_PRIORITIES - uxPriority s2 t) \<and>
    same_places s s2"
proof -
  let ?T = "snd ` set ts"
  have P: "places ?T {} s" by (rule places_subset [OF assms(2)]) blast
  from create_all [of "{}" s ts] assms(1,3) P obtain s1 where
    s1: "create_tasks ts s = Some s1" "if ?T = {} then fresh s1 else starting ?T s1" "same_places s s1" by (auto simp: Let_def)
  have P1: "places (insert idle ?T) {} s1"
    unfolding same_places_fields(7) [OF s1(3)] by (rule places_subset [OF assms(2)]) blast
  have "idle \<notin> ?T" using assms(3) by auto
  from create_step [OF s1(2) P1 this] obtain s2 where
    s2: "xTaskCreate 0 (Some idle) s1 = Some (True, s2)" "starting (insert idle ?T) s2" "same_places s1 s2" by blast
  have sp: "same_places s s2" using s1(3) s2(3) by (simp add: same_places_def)
  have P2: "places (insert timer (insert idle ?T)) {} s2"
    unfolding same_places_fields(7) [OF sp] using assms(2) by (simp add: insert_commute)
  have "timer \<notin> insert idle ?T" using assms(3) by auto
  from create_next [OF s2(2) P2 this] obtain s3 where
    s3: "xTaskCreate configTIMER_TASK_PRIORITY (Some timer) s2 = Some (True, s3)" "starting (insert timer (insert idle ?T)) s3" "same_places s2 s3" by blast
  have sp3: "same_places s s3" using sp s3(3) by (simp add: same_places_def)
  have ev: "\<forall>t \<in> insert timer (insert idle ?T). xItemValue (kl s3) (xEventListItem t) = configMAX_PRIORITIES - uxPriority s3 t"
    using s3(2) by (simp add: starting_def)
  let ?s = "s3\<lparr>xNextTaskUnblockTime := portMAX_DELAY, xSchedulerRunning := True, xTickCount := 0\<rparr>"
  have "vTaskStartScheduler (Some idle) (Some timer) s1 = Some (True, ?s)" using s2(1) s3(1) by (simp add: vTaskStartScheduler_def)
  moreover have "same_places s ?s" "xNumOfOverflows s3 = xNumOfOverflows s" using sp3 by (simp_all add: same_places_def)
  ultimately show ?thesis using ev s1(1) starting_scheduled [OF s3(2)]
    by (intro exI [of _ s1] exI [of _ ?s]) (simp add: insert_commute)
qed

text \<open>From the zeroed kernel variables, when the control blocks and lists do not overlap, the code itself establishes the
  scheduler's invariant: the application creates any tasks with any priorities, \<open>vTaskStartScheduler\<close> adds the idle and the
  timer task, and then every task is ready in the list of its priority, every list is well formed and the task chosen
  to run first has the highest priority.
\<close>

lemma scheduler_started:
  assumes "fresh s" "places (insert idle (insert timer (snd ` set ts))) {} s" "distinct (idle # timer # map snd ts)"
  shows "\<exists>s1 s2. create_tasks ts s = Some s1 \<and> vTaskStartScheduler (Some idle) (Some timer) s1 = Some (True, s2) \<and>
    scheduled (insert idle (insert timer (snd ` set ts))) {} s2 \<and>
    highest_ready (insert idle (insert timer (snd ` set ts))) s2 (pxCurrentTCB s2) \<and>
    (\<forall>t \<in> insert idle (insert timer (snd ` set ts)). task_ready s2 t) \<and> xTickCount s2 = 0 \<and> xNumOfOverflows s2 = xNumOfOverflows s \<and> xSchedulerRunning s2"
  using start_spec [OF assms] by blast

text \<open>The kernel's lists at 1000 and above, control blocks below.\<close>

definition demo_kernel :: kernel where
  "demo_kernel = \<lparr>kl = \<lparr>xItemValue = \<lambda>_. 0, pxNext = \<lambda>_. 0, pxPrevious = \<lambda>_. 0, pvOwner = \<lambda>_. 0, pxContainer = \<lambda>_. 0,
       uxNumberOfItems = \<lambda>_. 0, pxIndex = \<lambda>_. 0\<rparr>,
     uxPriority = \<lambda>_. 0, uxBasePriority = \<lambda>_. 0, pxCurrentTCB = 0, pxReadyTasksLists = 1000, xDelayedTaskList1 = 1200,
     xDelayedTaskList2 = 1220, xPendingReadyList = 1240, xTasksWaitingTermination = 1260, xSuspendedTaskList = 1280,
     pxDelayedTaskList = 0, pxOverflowDelayedTaskList = 0, uxCurrentNumberOfTasks = 0, xTickCount = 0, uxTopReadyPriority = 0,
     xSchedulerRunning = False, uxPendedTicks = 0, xYieldPending = False, xNumOfOverflows = 0, xNextTaskUnblockTime = 0,
     uxSchedulerSuspended = 0, uxTaskNumber = 0, uxMutexesHeld = \<lambda>_. 0, ulNotifiedValue = \<lambda>_. 0, ucNotifyState = \<lambda>_. 0\<rparr>"

definition demo_tasks :: "(u32 \<times> u32) list" where
  "demo_tasks = [(3, 300), (5, 400)]"

lemma demo_places: "fresh demo_kernel" "places {100, 200, 300, 400} {} demo_kernel"
  "2000 \<notin> kernel_lists {} demo_kernel" "xListEnd 2000 \<notin> items {100, 200, 300, 400}"
proof -
  have "{0..<8::nat} = {0, 1, 2, 3, 4, 5, 6, 7}" by auto
  then have r: "ready_lists demo_kernel = {1000, 1020, 1040, 1060, 1080, 1100, 1120, 1140}"
    unfolding ready_lists_image by (simp add: ready_list_def demo_kernel_def)
  have l: "kernel_lists {} demo_kernel = {1000, 1020, 1040, 1060, 1080, 1100, 1120, 1140, 1200, 1220, 1260, 1280, 1240}"
    by (simp add: kernel_lists_def state_lists_def event_lists_def r) (simp add: demo_kernel_def insert_commute)
  have "xListEnd ` kernel_lists {} demo_kernel = {1008, 1028, 1048, 1068, 1088, 1108, 1128, 1148, 1208, 1228, 1268, 1288, 1248}"
    by (simp add: l xListEnd_def)
  moreover have "items {100, 200, 300, 400} = {104, 204, 304, 404, 124, 224, 324, 424}"
    by (simp add: items_def xStateListItem_def xEventListItem_def insert_commute)
  moreover have "layout {100, 200, 300, 400} {} demo_kernel"
    unfolding layout_def state_lists_def event_lists_def r
    by (simp add: demo_kernel_def xStateListItem_def xEventListItem_def)
  ultimately show "places {100, 200, 300, 400} {} demo_kernel" by (simp add: places_def l)
  show "fresh demo_kernel" by (simp add: fresh_def demo_kernel_def)
  show "2000 \<notin> kernel_lists {} demo_kernel" by (simp add: l)
  show "xListEnd 2000 \<notin> items {100, 200, 300, 400}" by (simp add: items_def xListEnd_def xStateListItem_def xEventListItem_def)
qed

definition demo_started :: kernel where
  "demo_started =
     (case create_tasks demo_tasks demo_kernel of None \<Rightarrow> demo_kernel
      | Some s \<Rightarrow> (case vTaskStartScheduler (Some 100) (Some 200) s of None \<Rightarrow> s | Some (r, s) \<Rightarrow> s))"

lemma demo_started_scheduled:
  "scheduled {100, 200, 300, 400} {} demo_started" "\<forall>t \<in> {100, 200, 300, 400}. task_ready demo_started t" "xTickCount demo_started = 0"
  "xNumOfOverflows demo_started = 0" "same_places demo_kernel demo_started"
  "\<forall>t \<in> {100, 200, 300, 400}. xItemValue (kl demo_started) (xEventListItem t) = configMAX_PRIORITIES - uxPriority demo_started t"
  "highest_ready {100, 200, 300, 400} demo_started (pxCurrentTCB demo_started)"
proof -
  have "snd ` set demo_tasks = {300, 400}" by (auto simp: demo_tasks_def)
  then obtain s1 s2 where
    s: "create_tasks demo_tasks demo_kernel = Some s1" "vTaskStartScheduler (Some 100) (Some 200) s1 = Some (True, s2)"
      "scheduled {100, 200, 300, 400} {} s2" "\<forall>t \<in> {100, 200, 300, 400}. task_ready s2 t" "xTickCount s2 = 0"
      "xNumOfOverflows s2 = 0" "same_places demo_kernel s2"
      "\<forall>t \<in> {100, 200, 300, 400}. xItemValue (kl s2) (xEventListItem t) = configMAX_PRIORITIES - uxPriority s2 t"
      "highest_ready {100, 200, 300, 400} s2 (pxCurrentTCB s2)"
    using start_spec [of demo_kernel 100 200 demo_tasks] demo_places by (auto simp: demo_tasks_def demo_kernel_def)
  have "demo_started = s2" by (simp add: demo_started_def s(1,2))
  then show "scheduled {100, 200, 300, 400} {} demo_started" "\<forall>t \<in> {100, 200, 300, 400}. task_ready demo_started t" "xTickCount demo_started = 0"
    "xNumOfOverflows demo_started = 0" "same_places demo_kernel demo_started"
    "\<forall>t \<in> {100, 200, 300, 400}. xItemValue (kl demo_started) (xEventListItem t) = configMAX_PRIORITIES - uxPriority demo_started t"
    "highest_ready {100, 200, 300, 400} demo_started (pxCurrentTCB demo_started)"
    using s(3-9) by simp_all
qed

end
