(* ===== verification/Rtos_Time.thy ===== *)
theory Rtos_Time
  imports Rtos_Start
begin

unbundle bit_operations_syntax

text \<open>
  What the scheduler of \<^verbatim>\<open>src/ns_guest/lib/freertos/tasks.c\<close> promises its tasks: the choice of the next task, the
  passing of time as a step of an abstract state in which a task is ready or sleeps for a number of ticks, delays,
  periods and time outs, with the tick count wrapping around at its width.
\<close>

section \<open>The abstract state of a task\<close>

datatype status = Ready | Sleeps nat | Elsewhere

definition status :: "kernel \<Rightarrow> u32 \<Rightarrow> status" where
  "status s t = (if task_ready s t then Ready else if sleeping s t then Sleeps (unat (remaining s t)) else Elsewhere)"

fun status_tick :: "status \<Rightarrow> status" where
  "status_tick (Sleeps n) = (if n = 1 then Ready else Sleeps (n - 1))"
| "status_tick st = st"

text \<open>The time in ticks since the start, of which the kernel keeps the tick count and the number of its overflows.\<close>

definition kernel_time :: "kernel \<Rightarrow> nat \<Rightarrow> bool" where
  "kernel_time s c \<longleftrightarrow> xTickCount s = of_nat c \<and> xNumOfOverflows s = of_nat (c div 2 ^ 32)"

lemma kernel_time_Suc:
  fixes t v :: u32
  assumes "t = of_nat c" "v = of_nat (c div 2 ^ 32)"
  shows "t + 1 = of_nat (Suc c)" "v + (if t + 1 = 0 then 1 else 0) = of_nat (Suc c div 2 ^ 32)"
proof -
  show e: "t + 1 = of_nat (Suc c)" using assms(1) by (simp add: add.commute)
  have "t + 1 = 0 \<longleftrightarrow> 2 ^ 32 dvd Suc c" using word_of_nat_eq_0_iff [where ?'a = 32, of "Suc c"] unfolding e by simp
  then show "v + (if t + 1 = 0 then 1 else 0) = of_nat (Suc c div 2 ^ 32)" using assms(2) by (simp add: div_Suc dvd_eq_mod_eq_0)
qed

lemma unat_1_iff: "unat w = 1 \<longleftrightarrow> w = (1 :: u32)" "unat w = Suc 0 \<longleftrightarrow> w = (1 :: u32)"
  by (simp_all add: word_unat_eq_iff)

lemma status_kinv:
  assumes I: "kinv T E s G" and t: "t \<in> T"
  shows "status s t = Ready \<longleftrightarrow> task_ready s t" "status s t = Sleeps n \<longleftrightarrow> sleeping s t \<and> unat (remaining s t) = n"
    "sleeping s t \<Longrightarrow> remaining s t \<noteq> 0"
proof -
  have K: "kcore T E s G" and M: "ktime s G" using I by (simp_all add: kinv_def)
  have nr: "\<not> task_ready s t" if "sleeping s t"
    using task_ready_in [OF K t] delayed_lists [OF K] that by (auto simp: sleeping_def)
  then show "status s t = Ready \<longleftrightarrow> task_ready s t" "status s t = Sleeps n \<longleftrightarrow> sleeping s t \<and> unat (remaining s t) = n"
    by (auto simp: status_def)
  show "remaining s t \<noteq> 0" if sl: "sleeping s t"
  proof -
    let ?x = "xStateListItem t" and ?l = "pxContainer (kl s) (xStateListItem t)"
    have l: "?l \<in> state_lists s \<union> event_lists E s" using sl delayed_lists [OF K] by (auto simp: sleeping_def)
    have "?x \<in> set (G ?l)" using rings_member [OF kcoreD(1) [OF K] items_in(1) [OF t] l] by simp
    then have "xItemValue (kl s) ?x \<noteq> xTickCount s" using M sl unfolding ktime_def sleeping_def
      by (metis insertE less_irrefl singletonD)
    then show ?thesis by (simp add: remaining_def)
  qed
qed

lemma status_iff:
  assumes "scheduled T E s" "t \<in> T"
  shows "status s t = Ready \<longleftrightarrow> task_ready s t" "status s t = Sleeps n \<longleftrightarrow> sleeping s t \<and> unat (remaining s t) = n"
proof -
  obtain G where "kinv T E s G" using assms(1) by (auto simp: scheduled_def)
  from status_kinv [OF this assms(2)] show "status s t = Ready \<longleftrightarrow> task_ready s t"
    "status s t = Sleeps n \<longleftrightarrow> sleeping s t \<and> unat (remaining s t) = n" by blast+
qed

lemma tick_status:
  assumes I: "kinv T E s G" and I': "kinv T E s' G'" and k: "ticked T s s'" and u: "u \<in> T"
  shows "status s' u = status_tick (status s u)"
proof (cases "sleeping s u")
  case True
  note z = status_kinv(3) [OF I u True]
  show ?thesis
  proof (cases "remaining s u = 1")
    case True
    then have "status s' u = Ready" using \<open>sleeping s u\<close> k u by (simp add: status_def task_ready_def ticked_def)
    moreover have "status s u = Sleeps 1" using status_kinv(2) [OF I u] \<open>sleeping s u\<close> True by simp
    ultimately show ?thesis by simp
  next
    case False
    then have s1: "sleeping s' u" "remaining s' u = remaining s u - 1" using \<open>sleeping s u\<close> k u by (simp_all add: ticked_def)
    then have "status s' u = Sleeps (unat (remaining s u) - 1)" using status_kinv(2) [OF I' u] z by (simp add: unat_minus_one)
    moreover have "status s u = Sleeps (unat (remaining s u))" using status_kinv(2) [OF I u] \<open>sleeping s u\<close> by simp
    moreover have "unat (remaining s u) \<noteq> 1" using False by (simp add: unat_1_iff)
    ultimately show ?thesis by simp
  qed
next
  case False
  then have "task_ready s' u = task_ready s u" "sleeping s' u = sleeping s u" using k u by (simp_all add: ticked_def task_ready_def)
  then show ?thesis using False by (simp add: status_def)
qed

text \<open>Another ready task of the running task's priority, seen in the length of its list.\<close>

lemma slice_iff:
  assumes S: "scheduled T E s"
  shows "listCURRENT_LIST_LENGTH (ready_list s (uxPriority s (pxCurrentTCB s))) (kl s) > 1 \<longleftrightarrow>
    (\<exists>u \<in> T. u \<noteq> pxCurrentTCB s \<and> task_ready s u \<and> uxPriority s u = uxPriority s (pxCurrentTCB s))"
proof -
  let ?c = "pxCurrentTCB s" and ?x = "xStateListItem (pxCurrentTCB s)"
  let ?l = "ready_list s (uxPriority s ?c)"
  obtain G where K: "kcore T E s G" and c: "?c \<in> T" "pxContainer (kl s) ?x = ?l" using S by (auto simp: scheduled_def kinv_def task_ready_def)
  note D = kcoreD [OF K]
  have lr: "?l \<in> ready_lists s" using kcore_task(1) [OF K c(1)] by (simp add: ready_lists_def)
  then have l: "?l \<in> state_lists s \<union> event_lists E s" by (simp add: state_lists_def)
  have r: "ring (kl s) ?l (G ?l)" by (rule rings_ring [OF D(1) l])
  have n: "unat (uxNumberOfItems (kl s) ?l) = length (G ?l)" using r ring_length [OF r] by (simp add: ring_def unat_of_nat)
  have d: "distinct (G ?l)" using r by (simp add: ring_def)
  have x: "?x \<in> set (G ?l)" using rings_member [OF D(1) items_in(1) [OF c(1)] l] c(2) by simp
  have mem: "y \<in> set (G ?l) \<longleftrightarrow> (\<exists>u \<in> T. y = xStateListItem u \<and> task_ready s u \<and> uxPriority s u = uxPriority s ?c)" for y
  proof
    assume y: "y \<in> set (G ?l)"
    have cy: "pxContainer (kl s) y = ?l" "y \<in> items T" using rings_container [OF D(1) l y] by simp_all
    have "?l \<notin> insert 0 (event_lists E s)" using lr l D(2) rings_D(1) [OF D(1)] unfolding layout_def state_lists_def by auto
    then have "y \<notin> xEventListItem ` T" using kcore_task(5) [OF K] cy(1) by (metis imageE)
    then obtain u where "u \<in> T" "y = xStateListItem u" using cy(2) by (auto simp: items_def)
    moreover have "uxPriority s u = uxPriority s ?c" using kcore_task(6) [OF K \<open>u \<in> T\<close> kcore_task(1) [OF K c(1)]] cy(1) \<open>y = _\<close> by simp
    ultimately show "\<exists>u \<in> T. y = xStateListItem u \<and> task_ready s u \<and> uxPriority s u = uxPriority s ?c" using cy(1) by (auto simp: task_ready_def)
  next
    assume "\<exists>u \<in> T. y = xStateListItem u \<and> task_ready s u \<and> uxPriority s u = uxPriority s ?c"
    then show "y \<in> set (G ?l)" using rings_member [OF D(1) _ l] items_in(1) by (auto simp: task_ready_def)
  qed
  have "listCURRENT_LIST_LENGTH ?l (kl s) > 1 \<longleftrightarrow> 1 < card (set (G ?l))"
    using n by (simp add: listCURRENT_LIST_LENGTH_def word_less_nat_alt distinct_card [OF d])
  also have "\<dots> \<longleftrightarrow> (\<exists>y \<in> set (G ?l). y \<noteq> ?x)" 
  proof
    show "\<exists>y \<in> set (G ?l). y \<noteq> ?x" if "1 < card (set (G ?l))"
    proof (rule ccontr)
      assume "\<not> (\<exists>y \<in> set (G ?l). y \<noteq> ?x)"
      then have "set (G ?l) \<subseteq> {?x}" by blast
      then have "card (set (G ?l)) \<le> card {?x}" by (rule card_mono [rotated]) simp
      then show False using that by simp
    qed
    show "1 < card (set (G ?l))" if ex: "\<exists>y \<in> set (G ?l). y \<noteq> ?x"
    proof -
      obtain y where y: "y \<in> set (G ?l)" "y \<noteq> ?x" using ex by blast
      have "card {?x, y} \<le> card (set (G ?l))" by (rule card_mono) (use x y in auto)
      then show ?thesis using y(2) by simp
    qed
  qed
  also have "\<dots> \<longleftrightarrow> (\<exists>u \<in> T. u \<noteq> ?c \<and> task_ready s u \<and> uxPriority s u = uxPriority s ?c)" unfolding mem Bex_def by auto
  finally show ?thesis .
qed


section \<open>Properties\<close>

text \<open>The context switch gives the processor to a ready task of the highest priority that is ready, whatever the
  number of tasks, and leaves every task's status and every other part of the invariant as they were.
\<close>

lemma switch_highest:
  assumes "scheduled T E s"
  shows "\<exists>s'. vTaskSwitchContext s = Some s' \<and> scheduled T E s' \<and> pxCurrentTCB s' \<in> T \<and> status s' (pxCurrentTCB s') = Ready \<and>
    (\<forall>u \<in> T. status s u = Ready \<longrightarrow> uxPriority s u \<le> uxPriority s (pxCurrentTCB s')) \<and> (\<forall>u \<in> T. status s' u = status s u)"
proof -
  obtain G where "kinv T E s G" "quiet T s" "pxCurrentTCB s \<in> T" "task_ready s (pxCurrentTCB s)"
    using assms by (auto simp: scheduled_def)
  from switch_scheduled [OF this] obtain s' u where
    s': "vTaskSwitchContext s = Some s'" "switched u s s'" "scheduled T E s'" "highest_ready T s' u" by blast
  note V = switched_views [OF s'(2)] switched_fields [OF s'(2)]
  obtain G' where K: "kcore T E s G'" using assms by (auto simp: scheduled_def kinv_def)
  have st: "status s' = status s" by (simp add: status_def fun_eq_iff V)
  have u: "u \<in> T" "task_ready s' u" using s'(4) by (simp_all add: highest_ready_def task_ready_def)
  moreover have "uxPriority s v \<le> uxPriority s u" if "v \<in> T" "status s v = Ready" for v
    using s'(4) that status_iff(1) [OF assms that(1)] task_ready_in [OF K that(1)] by (simp add: highest_ready_def V)
  ultimately show ?thesis using s'(1,3) status_iff(1) [OF s'(3) u(1)] st V(17) by auto
qed

text \<open>C24: A tick of the kernel refines the abstract step: the time advances by one, also over the wrap-around of
  the tick count where the two delayed lists change places, each sleeping task has one tick less to wait, exactly those
  whose wait is over become ready, and all others keep their status. A switch is asked for when a task woken has at least
  the running task's priority, when another ready task shares it, or when a yield was pending.
\<close>

theorem tick_refines:
  assumes "scheduled T E s" "kernel_time s c"
  shows "\<exists>r s'. xTaskIncrementTick s = Some (r, s') \<and> scheduled T E s' \<and> kernel_time s' (Suc c) \<and> pxCurrentTCB s' = pxCurrentTCB s \<and>
    (\<forall>t \<in> T. status s' t = status_tick (status s t)) \<and>
    (r \<longleftrightarrow> (\<exists>t \<in> T. status s t = Sleeps 1 \<and> uxPriority s t \<ge> uxPriority s (pxCurrentTCB s)) \<or>
      (\<exists>u \<in> T. u \<noteq> pxCurrentTCB s \<and> status s' u = Ready \<and> uxPriority s u = uxPriority s (pxCurrentTCB s)) \<or> xYieldPending s)"
proof -
  from tick_scheduled [OF assms(1)] obtain r s' where
    t: "xTaskIncrementTick s = Some (r, s')" "scheduled T E s'" "ticked T s s'" "pxCurrentTCB s' = pxCurrentTCB s"
    and r: "r \<longleftrightarrow> (\<exists>t \<in> T. sleeping s t \<and> remaining s t = 1 \<and> uxPriority s t \<ge> uxPriority s (pxCurrentTCB s)) \<or>
       listCURRENT_LIST_LENGTH (ready_list s (uxPriority s (pxCurrentTCB s))) (kl s') > 1 \<or> xYieldPending s" by blast
  have e: "ready_list s' = ready_list s" "uxPriority s' = uxPriority s" using t(3) by (simp_all add: ticked_def)
  have "kernel_time s' (Suc c)" using assms(2) t(3) kernel_time_Suc [of "xTickCount s" c "xNumOfOverflows s"] by (simp add: kernel_time_def ticked_def)
  moreover obtain G G' where "kinv T E s G" "kinv T E s' G'" using assms(1) t(2) by (auto simp: scheduled_def)
  then have "\<forall>u \<in> T. status s' u = status_tick (status s u)" using tick_status t(3) by blast
  moreover have "r \<longleftrightarrow> (\<exists>t \<in> T. status s t = Sleeps 1 \<and> uxPriority s t \<ge> uxPriority s (pxCurrentTCB s)) \<or>
      (\<exists>u \<in> T. u \<noteq> pxCurrentTCB s \<and> status s' u = Ready \<and> uxPriority s u = uxPriority s (pxCurrentTCB s)) \<or> xYieldPending s"
  proof -
    have "status s u = Sleeps 1 \<longleftrightarrow> sleeping s u \<and> remaining s u = 1" if "u \<in> T" for u
      using status_iff(2) [OF assms(1) that] by (simp add: unat_1_iff)
    moreover have "status s' u = Ready \<longleftrightarrow> task_ready s' u" if "u \<in> T" for u using status_iff(1) [OF t(2) that] .
    moreover note slice_iff [OF t(2), unfolded e t(4)]
    ultimately show ?thesis using r by metis
  qed
  ultimately show ?thesis using t(1,2,4) by blast
qed

text \<open>C25: A delay ends: \<open>vTaskDelay n\<close> for any \<open>n\<close> that is not zero puts the running task to sleep and lets another ready task run;
  the task then sleeps through every tick interrupt before the \<open>n\<close>-th, wherever the tick count wraps and whatever switches
  happen on the way, and the \<open>n\<close>-th makes it ready.
\<close>

theorem delay_wakes:
  assumes "scheduled T E s" "u \<in> T" "u \<noteq> pxCurrentTCB s" "status s u = Ready" "n \<noteq> 0"
  shows "\<exists>s'. vTaskDelay n s = Some s' \<and> scheduled T E s' \<and> status s' (pxCurrentTCB s') = Ready \<and>
    (\<forall>k < unat n. \<exists>s''. tick_interrupts k s' = Some s'' \<and> scheduled T E s'' \<and> status s'' (pxCurrentTCB s) = Sleeps (unat n - k)) \<and>
    (\<exists>s''. tick_interrupts (unat n) s' = Some s'' \<and> scheduled T E s'' \<and> status s'' (pxCurrentTCB s) = Ready)"
proof -
  let ?t = "pxCurrentTCB s"
  have "task_ready s u" using assms(4) status_iff(1) [OF assms(1,2)] by simp
  from vTaskDelay_blocks [OF assms(1-3) this assms(5)] obtain s' where
    d: "vTaskDelay n s = Some s'" "scheduled T E s'" "sleeping s' ?t" "remaining s' ?t = n" by blast
  have t: "?t \<in> T" using assms(1) by (simp add: scheduled_def)
  have "\<exists>s''. tick_interrupts k s' = Some s'' \<and> scheduled T E s'' \<and> status s'' ?t = Sleeps (unat n - k)" if k: "k < unat n" for k
  proof -
    from ticks_sleep [OF d(2) t d(3), of k] k obtain s'' where
      s'': "tick_interrupts k s' = Some s''" "scheduled T E s''" "sleeping s'' ?t" "remaining s'' ?t = n - of_nat k" by (auto simp: d(4))
    have "k < 2 ^ 32" using k unsigned_less [of n, where ?'a = nat] by simp
    then have "unat (of_nat k :: u32) = k" by (simp add: unat_of_nat)
    moreover from this have "of_nat k \<le> n" using k by (simp add: word_le_nat_alt)
    ultimately have "status s'' ?t = Sleeps (unat n - k)" using status_iff(2) [OF s''(2) t] s''(3,4) by (simp add: unat_sub)
    with s'' show ?thesis by blast
  qed
  moreover have "status s' (pxCurrentTCB s') = Ready" using d(2) by (simp add: scheduled_def status_def)
  moreover have "\<exists>s''. tick_interrupts (unat n) s' = Some s'' \<and> scheduled T E s'' \<and> status s'' ?t = Ready"
    using ticks_wake [OF d(2) t d(3)] assms(5) status_iff(1) [OF _ t] by (auto simp: d(4))
  ultimately show ?thesis using d(1,2) by blast
qed


text \<open>A started kernel with four tasks, the timer task with priority 7 running.\<close>

lemma demo_other: "\<exists>u \<in> {100, 200, 300, 400}. u \<noteq> pxCurrentTCB demo_started \<and> status demo_started u = Ready"
proof -
  have "\<exists>u \<in> {100, 200, 300, 400 :: u32}. u \<noteq> pxCurrentTCB demo_started" by simp
  then show ?thesis using demo_started_scheduled(2) by (auto simp: status_def)
qed

lemma demo_time: "kernel_time demo_started 0"
  using demo_started_scheduled(3,4) by (simp add: kernel_time_def)

theorem tick_refines_witness:
  "\<exists>r s'. xTaskIncrementTick demo_started = Some (r, s') \<and> kernel_time s' 1 \<and>
    (\<forall>t \<in> {100, 200, 300, 400}. status s' t = status_tick (status demo_started t))"
  using tick_refines [OF demo_started_scheduled(1) demo_time] unfolding One_nat_def by blast

theorem delay_wakes_witness:
  "\<exists>s' s''. vTaskDelay 3 demo_started = Some s' \<and> tick_interrupts 3 s' = Some s'' \<and> status s'' (pxCurrentTCB demo_started) = Ready"
proof -
  obtain u where "u \<in> {100, 200, 300, 400}" "u \<noteq> pxCurrentTCB demo_started" "status demo_started u = Ready" using demo_other by blast
  from delay_wakes [OF demo_started_scheduled(1) this, of 3] show ?thesis by auto
qed

text \<open>A period: \<open>vTaskDelayUntil\<close> sleeps exactly when the time since the previous wake time, which may lie before a wrap of the
  tick count, is shorter than the period, then for the rest of the period, and otherwise returns with the task still
  ready; the previous wake time moves on by the period in both cases.
\<close>

lemma delay_until_period:
  assumes "scheduled T E s" "u \<in> T" "u \<noteq> pxCurrentTCB s" "status s u = Ready"
  shows "\<exists>s'. vTaskDelayUntil w i s = Some (w + i, s') \<and> scheduled T E s' \<and>
    status s' (pxCurrentTCB s) = (if xTickCount s - w < i then Sleeps (unat (i - (xTickCount s - w))) else Ready)"
proof -
  let ?t = "pxCurrentTCB s" and ?c = "xTickCount s"
  have t: "?t \<in> T" using assms(1) by (simp add: scheduled_def)
  have seq: "do { (y, s) \<leftarrow> R; s \<leftarrow> (if \<not> y then f s else Some s); Some (v, s) } =
      (R \<bind> (\<lambda>(y, s). if \<not> y then f s else Some s)) \<bind> (\<lambda>s. Some (v, s))"
    for R :: "(bool \<times> kernel) option" and f and v :: u32
    by (cases R) auto
  show ?thesis
  proof (cases "?c - w < i")
    case True
    let ?n = "w + i - ?c"
    have n: "?n = i - (?c - w)" by simp
    then have "?n \<noteq> 0" using True by (metis eq_iff_diff_eq_0 less_irrefl)
    moreover have "task_ready s u" using assms(4) status_iff(1) [OF assms(1,2)] by simp
    ultimately obtain s' where s': "prvAddCurrentTaskToDelayedList ?n False (vTaskSuspendAll s) \<bind> (\<lambda>s. xTaskResumeAll s \<bind>
        (\<lambda>(y, s). if \<not> y then vTaskSwitchContext s else Some s)) = Some s'" "scheduled T E s'" "sleeping s' ?t" "remaining s' ?t = ?n"
      using block_scheduled [OF assms(1-3)] by blast
    have "vTaskDelayUntil w i s = Some (w + i, s')"
      using s'(1) True by (simp add: vTaskDelayUntil_def Let_def seq xShouldDelay_iff bind_eq_Some_conv vTaskSuspendAll_def)
    moreover have "status s' ?t = Sleeps (unat (i - (?c - w)))" using status_iff(2) [OF s'(2) t] s'(3,4) n by simp
    ultimately show ?thesis using s'(2) True by auto
  next
    case False
    obtain G where I: "kinv T E s G" and q: "quiet T s" "task_ready s ?t" using assms(1) by (auto simp: scheduled_def)
    let ?s1 = "vTaskSuspendAll s"
    have s1: "?s1 = s\<lparr>uxSchedulerSuspended := 1\<rparr>" using q by (simp add: vTaskSuspendAll_def quiet_def)
    have K1: "kcore T E ?s1 G" using I by (simp add: s1 kinv_def kcore_cong)
    have R: "xTaskResumeAll ?s1 \<bind> (\<lambda>(y, s). if \<not> y then vTaskSwitchContext s else Some s) = vTaskSwitchContext s"
    proof -
      have "s\<lparr>uxSchedulerSuspended := uxSchedulerSuspended s\<rparr> = s" by simp
      then have "?s1\<lparr>uxSchedulerSuspended := 0\<rparr> = s" using q(1) by (simp add: s1 quiet_def)
      then show ?thesis using resume_switch [OF K1] q(1) by (simp add: s1 quiet_def)
    qed
    from switch_scheduled [OF I q(1) t q(2)] obtain s' v where
      s': "vTaskSwitchContext s = Some s'" "switched v s s'" "scheduled T E s'" by blast
    have "vTaskDelayUntil w i s = do { (y, s) \<leftarrow> xTaskResumeAll ?s1; s \<leftarrow> (if \<not> y then vTaskSwitchContext s else Some s); Some (w + i, s) }"
      using False by (simp add: vTaskDelayUntil_def Let_def xShouldDelay_iff s1)
    also have "\<dots> = Some (w + i, s')" unfolding seq R s'(1) by simp
    finally have "vTaskDelayUntil w i s = Some (w + i, s')" .
    moreover from this have "status s' ?t = Ready" using q(2) by (simp add: status_def switched_views [OF s'(2)])
    ultimately show ?thesis using s'(3) False by auto
  qed
qed

text \<open>Two readings of the clock with at most one overflow in between: either the counter is enough to tell the time elapsed, or a whole
  turn of it has passed.\<close>

lemma elapsed_cases:
  assumes "kernel_time s0 c0" "kernel_time s c" "c0 \<le> c" "c div 2 ^ 32 \<le> c0 div 2 ^ 32 + 1"
  shows "c - c0 < 2 ^ 32 \<and> (xNumOfOverflows s = xNumOfOverflows s0 \<or> xTickCount s < xTickCount s0) \<or>
    2 ^ 32 \<le> c - c0 \<and> xNumOfOverflows s \<noteq> xNumOfOverflows s0 \<and> xTickCount s0 \<le> xTickCount s"
proof -
  let ?N = "2 ^ 32 :: nat"
  have tick: "unat (xTickCount s) = c mod ?N" "unat (xTickCount s0) = c0 mod ?N"
    using assms(1,2) by (simp_all add: kernel_time_def unat_of_nat take_bit_eq_mod)
  have q: "c = c div ?N * ?N + c mod ?N" "c0 = c0 div ?N * ?N + c0 mod ?N" by simp_all
  have m: "c mod ?N < ?N" "c0 mod ?N < ?N" by simp_all
  consider "c div ?N = c0 div ?N" | "c div ?N = c0 div ?N + 1" using assms(3,4) div_le_mono [OF assms(3), of ?N] by linarith
  then show ?thesis
  proof cases
    case 1
    have "c = c0 div ?N * ?N + c mod ?N" by (subst 1 [symmetric]) (rule q(1))
    then have "c - c0 < ?N" using q(2) m by linarith
    moreover have "xNumOfOverflows s = xNumOfOverflows s0" using assms(1,2) 1 by (simp add: kernel_time_def)
    ultimately show ?thesis by blast
  next
    case 2
    have "c div ?N * ?N = c0 div ?N * ?N + ?N" unfolding 2 by simp
    then have d: "c = c0 div ?N * ?N + ?N + c mod ?N" using q(1) by metis
    show ?thesis
    proof (cases "c mod ?N < c0 mod ?N")
      case True
      then have "c - c0 < ?N" using q(2) d m by linarith
      moreover have "xTickCount s < xTickCount s0" using True tick by (simp add: word_less_nat_alt)
      ultimately show ?thesis by blast
    next
      case False
      then have "?N \<le> c - c0" using q(2) d by linarith
      moreover have "xNumOfOverflows s \<noteq> xNumOfOverflows s0" using assms(1,2) 2 by (simp add: kernel_time_def)
      moreover have "xTickCount s0 \<le> xTickCount s" using False tick by (simp add: word_le_nat_alt)
      ultimately show ?thesis by blast
    qed
  qed
qed

text \<open>C26: A time out: when at most one overflow of the tick count lies between entering and the check, the check
  expires exactly when the true time elapsed has reached the time to wait, and otherwise restarts the measurement
  with exactly the rest of it; the greatest value waits forever.
\<close>

theorem timeout_exact:
  fixes w :: u32
  assumes "kernel_time s0 c0" "kernel_time s c" "c0 \<le> c" "c div 2 ^ 32 \<le> c0 div 2 ^ 32 + 1"
  defines "r \<equiv> xTaskCheckForTimeOut (vTaskInternalSetTimeOutState s0) w s"
  shows "if w = portMAX_DELAY then r = (False, vTaskInternalSetTimeOutState s0, w)
    else if unat w \<le> c - c0 then fst r
    else r = (False, vTaskInternalSetTimeOutState s, of_nat (unat w - (c - c0)))"
proof (cases "w = portMAX_DELAY")
  case True
  then show ?thesis by (simp add: r_def xTaskCheckForTimeOut_def Let_def)
next
  case nd: False
  let ?e = "xTickCount s - xTickCount s0"
  have e: "?e = of_nat (c - c0)" using assms(1-3) by (simp add: kernel_time_def of_nat_diff)
  have w: "unat w < 2 ^ 32" using unsigned_less [of w, where ?'a = nat] by simp
  from elapsed_cases [OF assms(1-4)] show ?thesis
  proof
    assume s: "c - c0 < 2 ^ 32 \<and> (xNumOfOverflows s = xNumOfOverflows s0 \<or> xTickCount s < xTickCount s0)"
    have "?e < w \<longleftrightarrow> \<not> unat w \<le> c - c0" using s by (auto simp: e word_less_nat_alt unat_of_nat)
    then have "if unat w \<le> c - c0 then fst r else r = (False, vTaskInternalSetTimeOutState s, w - ?e)"
      using nd s by (auto simp: r_def xTaskCheckForTimeOut_def vTaskInternalSetTimeOutState_def Let_def)
    moreover have "w - ?e = of_nat (unat w - (c - c0))" if "\<not> unat w \<le> c - c0" using that by (simp add: e of_nat_diff)
    ultimately show ?thesis using nd by auto
  next
    assume s: "2 ^ 32 \<le> c - c0 \<and> xNumOfOverflows s \<noteq> xNumOfOverflows s0 \<and> xTickCount s0 \<le> xTickCount s"
    then have "unat w \<le> c - c0" using w by linarith
    then show ?thesis using nd s by (simp add: r_def xTaskCheckForTimeOut_def vTaskInternalSetTimeOutState_def Let_def)
  qed
qed

text \<open>Entered ten ticks before the wrap, checked twenty ticks later.\<close>

theorem timeout_exact_witness:
  "let s0 = demo_started\<lparr>xTickCount := 0xFFFFFFF6\<rparr>; s = demo_started\<lparr>xTickCount := 10, xNumOfOverflows := 1\<rparr>
   in fst (xTaskCheckForTimeOut (vTaskInternalSetTimeOutState s0) 20 s) \<and>
      xTaskCheckForTimeOut (vTaskInternalSetTimeOutState s0) 25 s = (False, vTaskInternalSetTimeOutState s, 5)"
proof -
  let ?u = "demo_started\<lparr>xTickCount := 0xFFFFFFF6\<rparr>" and ?v = "demo_started\<lparr>xTickCount := 10, xNumOfOverflows := 1\<rparr>"
  have A: "kernel_time ?u 4294967286" by (simp add: kernel_time_def demo_started_scheduled(4))
  have B: "kernel_time ?v 4294967306" by (simp add: kernel_time_def)
  note T = timeout_exact [OF A B]
  have "fst (xTaskCheckForTimeOut (vTaskInternalSetTimeOutState ?u) 20 ?v)" using T [of 20] by simp
  moreover have "xTaskCheckForTimeOut (vTaskInternalSetTimeOutState ?u) 25 ?v = (False, vTaskInternalSetTimeOutState ?v, 5)"
    using T [of 25] by simp
  ultimately show ?thesis unfolding Let_def by blast
qed

end
