(* ===== verification/Rtos_Event.thy ===== *)
theory Rtos_Event
  imports Rtos_Time
begin

unbundle bit_operations_syntax

text \<open>
  Waiting for events in \<^verbatim>\<open>src/ns_guest/lib/freertos/tasks.c\<close>: a queue owns lists of the tasks that wait for it, in order of
  priority; a task enters one with a time out, and a signal makes the first one ready.
\<close>

text \<open>A new list of waiting tasks, as a queue creates it.\<close>

lemma event_list_added:
  assumes K: "kcore T E s G" and l: "l \<notin> kernel_lists E s" "l \<noteq> 0" "xListEnd l \<notin> items T"
  shows "kcore T (insert l E) (s\<lparr>kl := vListInitialise l (kl s)\<rparr>) (G(l := []))"
proof -
  let ?k = "vListInitialise l (kl s)" and ?G = "G(l := [])"
  note D = kcoreD [OF K]
  have "ring ?k j (G j)" if j: "j \<in> kernel_lists E s" for j
  proof -
    have jl: "j \<noteq> l" "xListEnd j \<noteq> xListEnd l" using j l(1) xListEnd_inj by auto
    have "set (G j) \<subseteq> items T" using rings_D(3) [OF D(1)] j by (simp add: kernel_lists_def)
    then have n: "xListEnd l \<notin> set (G j)" using l(3) by blast
    have "dll ?k (xListEnd j) (G j) (xListEnd j) = dll (kl s) (xListEnd j) (G j) (xListEnd j)"
      by (rule dll_cong) (use jl n in \<open>auto simp: vListInitialise_def list_setters Let_def\<close>)
    moreover have "ring (kl s) j (G j)" using rings_ring [OF D(1)] j by (simp add: kernel_lists_def)
    ultimately show ?thesis using jl by (simp add: ring_def) (simp add: vListInitialise_def list_setters Let_def)
  qed
  moreover have "ring ?k l []" by (rule vListInitialise_ring)
  moreover have "(G(l := [])) j = G j" if "j \<in> kernel_lists E s" for j using l(1) that by auto
  ultimately have rings: "\<forall>j \<in> insert l (kernel_lists E s). ring ?k j (?G j)" by auto
  have R: "rings (insert l (kernel_lists E s)) (items T) ?k ?G"
    unfolding rings_def
  proof (intro conjI ballI)
    show "ring ?k j (?G j)" if "j \<in> insert l (kernel_lists E s)" for j using rings that by blast
    show "set (?G j) \<subseteq> items T" if "j \<in> insert l (kernel_lists E s)" for j
      using rings_D(3) [OF D(1)] that by (auto simp: kernel_lists_def)
    show "0 \<notin> insert l (kernel_lists E s)" using rings_D(1) [OF D(1)] l(2) by (auto simp: kernel_lists_def)
    show "items T \<inter> xListEnd ` insert l (kernel_lists E s) = {}" using rings_D(2) [OF D(1)] l(3) by (simp add: kernel_lists_def)
    fix x
    assume x: "x \<in> items T"
    show "pxContainer ?k x = 0 \<or> pxContainer ?k x \<in> insert l (kernel_lists E s) \<and> x \<in> set (?G (pxContainer ?k x))"
      using rings_D(4) [OF D(1) x] l(1) by (auto simp: kernel_lists_def)
  qed
  have ls: "l \<notin> state_lists s" "l \<noteq> xPendingReadyList s" using l(1) by (auto simp: kernel_lists_def event_lists_def)
  let ?s = "s\<lparr>kl := ?k\<rparr>"
  have sp: "same_places s ?s" by (simp add: same_places_def)
  note F = same_places_fields [OF sp]
  have "state_lists s \<inter> event_lists E s = {}" "xPendingReadyList s \<notin> E" using D(2) by (simp_all add: layout_def)
  then have "state_lists s \<inter> event_lists (insert l E) s = {}" "xPendingReadyList s \<notin> insert l E" using ls by (auto simp: event_lists_def)
  then have L: "layout T (insert l E) ?s" unfolding F(6) using D(2) by (simp add: layout_def)
  have LL: "state_lists s \<union> event_lists (insert l E) s = insert l (kernel_lists E s)"
    unfolding kernel_lists_def event_lists_def by blast
  have rl: "ready_list s (of_nat n) \<noteq> l" if "n < 8" for n
    using ls(1) that by (auto simp: state_lists_def ready_lists_image)
  then have bits: "bit (uxTopReadyPriority s) n \<longleftrightarrow> n < 8 \<and> ?G (ready_list s (of_nat n)) \<noteq> []" for n
    using D(4) [of n] by (cases "n < 8") simp_all
  have ord: "waiting_order ?s ?G j" if "waiting_order s G j" "j \<in> state_lists s" for j
  proof -
    have "set (G j) \<subseteq> items T" "j \<noteq> l" using rings_D(3) [OF D(1)] that(2) ls(1) by blast+
    then have gj: "?G j = G j" by simp
    have e: "map (xItemValue ?k) (G j) = map (xItemValue (kl s)) (G j)"
      by (rule map_cong [OF refl]) (metis \<open>set (G j) \<subseteq> items T\<close> l(3) subsetD vListInitialise_fields(3))
    have k: "kl ?s = ?k" by simp
    show ?thesis unfolding waiting_order_def gj k e using that(1) by (simp only: waiting_order_def)
  qed
  have "\<forall>t \<in> T. uxPriority s t < 8 \<and> pvOwner ?k (xStateListItem t) = t \<and> pvOwner ?k (xEventListItem t) = t \<and>
      pxContainer ?k (xStateListItem t) \<in> insert 0 (state_lists s) \<and> pxContainer ?k (xEventListItem t) \<in> insert 0 (event_lists (insert l E) s) \<and>
      (\<forall>p < 8. pxContainer ?k (xStateListItem t) = ready_list s p \<longrightarrow> uxPriority s t = p)"
    using kcore_task [OF K] unfolding event_lists_def vListInitialise_fields by blast
  then show ?thesis
    unfolding kcore_def F LL using R L [unfolded F(6)] D(3) bits ord [OF D(5)] ord [OF D(6)] delayed_lists [OF K] by simp
qed


text \<open>A change of one event list that brings in the event item of one task.\<close>

lemma kcore_event_enter:
  assumes K: "kcore T E s G" and t: "t \<in> T" and l: "l \<in> event_lists E s"
    and R: "rings (state_lists s \<union> event_lists E s) (items T) k (G(l := xs))"
    and k: "xItemValue k = xItemValue (kl s)" "pvOwner k = pvOwner (kl s)"
    and c: "\<And>y. y \<in> items T \<Longrightarrow> pxContainer k y = (if y = xEventListItem t then l else pxContainer (kl s) y)"
  shows "kcore T E (s\<lparr>kl := k\<rparr>) (G(l := xs))"
proof -
  note D = kcoreD [OF K]
  let ?G = "G(l := xs)"
  have ls: "l \<notin> state_lists s" using D(2) l unfolding layout_def by blast
  have fr: "kframe s (s\<lparr>kl := k\<rparr>)"
  proof -
    have "s\<lparr>kl := k\<rparr> = s\<lparr>kl := k, uxTopReadyPriority := uxTopReadyPriority s\<rparr>" by simp
    then show ?thesis unfolding kframe_def by blast
  qed
  have keep: "?G j = G j" if "j \<in> state_lists s" for j using that ls by auto
  have bits: "bit (uxTopReadyPriority s) n \<longleftrightarrow> n < 8 \<and> ?G (ready_list s (of_nat n)) \<noteq> []" for n
  proof -
    have "ready_list s (of_nat n) \<in> state_lists s" if "n < 8" using that by (auto simp: state_lists_def ready_lists_image)
    then show ?thesis using D(4) [of n] keep by metis
  qed
  have ord: "waiting_order (s\<lparr>kl := k\<rparr>) ?G j" if "waiting_order s G j" "j \<in> state_lists s" for j
    using that(1) unfolding waiting_order_def keep [OF that(2)] by (simp add: k(1))
  have tasks: "uxPriority s v < 8 \<and> pvOwner k (xStateListItem v) = v \<and> pvOwner k (xEventListItem v) = v \<and>
      pxContainer k (xStateListItem v) \<in> insert 0 (state_lists s) \<and> pxContainer k (xEventListItem v) \<in> insert 0 (event_lists E s) \<and>
      (\<forall>p < 8. pxContainer k (xStateListItem v) = ready_list s p \<longrightarrow> uxPriority s v = p)" if v: "v \<in> T" for v
  proof -
    have "xStateListItem v \<noteq> xEventListItem t" using layout_items [OF D(2) v t] .
    then show ?thesis using kcore_task [OF K v] c items_in [OF v] k(2) l by auto
  qed
  show ?thesis
    unfolding kcore_def kframe_fields [OF fr]
    using R D(2,3) tasks bits ord [OF D(5)] ord [OF D(6)] delayed_lists [OF K] by simp
qed

text \<open>The event item of a task enters an event list behind the items of the same priority.\<close>

lemma insert_event_kcore:
  assumes K: "kcore T E s G" and t: "t \<in> T" "pxContainer (kl s) (xEventListItem t) = 0" and l: "l \<in> event_lists E s"
  shows "\<exists>k. vListInsert l (xEventListItem t) (kl s) = Some k \<and>
    kcore T E (s\<lparr>kl := k\<rparr>) (G(l := insort_after (xItemValue (kl s)) (xEventListItem t) (G l))) \<and> xItemValue k = xItemValue (kl s) \<and>
    (\<forall>y \<in> items T. pxContainer k y = (if y = xEventListItem t then l else pxContainer (kl s) y))"
proof -
  have lu: "l \<in> state_lists s \<union> event_lists E s" using l by blast
  from rings_insert [OF kcoreD(1) [OF K] lu items_in(2) [OF t(1)] t(2)] obtain k where
    k: "vListInsert l (xEventListItem t) (kl s) = Some k"
      "rings (state_lists s \<union> event_lists E s) (items T) k (G(l := insort_after (xItemValue (kl s)) (xEventListItem t) (G l)))"
      "xItemValue k = xItemValue (kl s)" "pvOwner k = pvOwner (kl s)"
    and c: "\<And>y. y \<in> items T \<Longrightarrow> pxContainer k y = (if y = xEventListItem t then l else pxContainer (kl s) y)" by blast
  from kcore_event_enter [OF K t(1) l k(2-4) c] k(1,3) c show ?thesis by blast
qed

text \<open>Tasks and the lists they wait in: a waiting task is blocked, and each list is in order of priority.\<close>

definition waiting :: "u32 set \<Rightarrow> u32 set \<Rightarrow> kernel \<Rightarrow> (u32 \<Rightarrow> u32 list) \<Rightarrow> bool" where
  "waiting T E s G \<longleftrightarrow> kinv T E s G \<and> event_order T E s G \<and>
     (\<forall>t \<in> T. pxContainer (kl s) (xEventListItem t) \<in> event_lists E s \<longrightarrow> pxContainer (kl s) (xStateListItem t) \<in> state_lists s - ready_lists s)"

definition eventful :: "u32 set \<Rightarrow> u32 set \<Rightarrow> kernel \<Rightarrow> (u32 \<Rightarrow> u32 list) \<Rightarrow> bool" where
  "eventful T E s G \<longleftrightarrow> waiting T E s G \<and> quiet T s"

lemma waitingD:
  assumes "waiting T E s G"
  shows "kinv T E s G" "kcore T E s G" "ktime s G" "event_order T E s G"
    "\<And>t. t \<in> T \<Longrightarrow> pxContainer (kl s) (xEventListItem t) \<in> event_lists E s \<Longrightarrow> pxContainer (kl s) (xStateListItem t) \<in> state_lists s - ready_lists s"
  using assms by (simp_all add: waiting_def kinv_def)

definition waits_in :: "kernel \<Rightarrow> u32 \<Rightarrow> u32 \<Rightarrow> bool" where
  "waits_in s l t \<longleftrightarrow> pxContainer (kl s) (xEventListItem t) = l"

lemma state_event_apart:
  assumes K: "kcore T E s G" and l: "l \<in> E"
  shows "l \<notin> state_lists s" "l \<noteq> 0" "l \<noteq> xPendingReadyList s"
proof -
  have L: "state_lists s \<inter> event_lists E s = {}" "xPendingReadyList s \<notin> E" using kcoreD(2) [OF K] by (simp_all add: layout_def)
  show "l \<notin> state_lists s" "l \<noteq> xPendingReadyList s" using L l by (auto simp: event_lists_def)
  show "l \<noteq> 0" using rings_D(1) [OF kcoreD(1) [OF K]] l by (auto simp: event_lists_def)
qed

text \<open>Whatever the order of the event lists: a waiting task is blocked.\<close>

definition blocking :: "u32 set \<Rightarrow> u32 set \<Rightarrow> kernel \<Rightarrow> (u32 \<Rightarrow> u32 list) \<Rightarrow> bool" where
  "blocking T E s G \<longleftrightarrow> kinv T E s G \<and>
     (\<forall>t \<in> T. pxContainer (kl s) (xEventListItem t) \<in> event_lists E s \<longrightarrow> pxContainer (kl s) (xStateListItem t) \<in> state_lists s - ready_lists s)"

lemma blockingD:
  assumes "blocking T E s G"
  shows "kinv T E s G" "kcore T E s G" "ktime s G"
    "\<And>t. t \<in> T \<Longrightarrow> pxContainer (kl s) (xEventListItem t) \<in> event_lists E s \<Longrightarrow> pxContainer (kl s) (xStateListItem t) \<in> state_lists s - ready_lists s"
  using assms by (simp_all add: blocking_def kinv_def)

lemma waiting_blocking: "waiting T E s G \<longleftrightarrow> blocking T E s G \<and> event_order T E s G"
  by (auto simp: waiting_def blocking_def)

text \<open>A waiting task is taken out of its event list and out of its time out, and becomes ready.\<close>

lemma release_blocked:
  assumes W: "blocking T E s G" and t: "t \<in> T" and c: "pxContainer (kl s) (xEventListItem t) = l" and l: "l \<in> event_lists E s"
  defines "s' \<equiv> prvAddTaskToReadyList t (list_remove (xStateListItem t) (list_remove (xEventListItem t) s))"
  shows "\<exists>G'. blocking T E s' G' \<and> G' l = remove1 (xEventListItem t) (G l) \<and> (\<forall>j \<in> event_lists E s - {l}. G' j = G j)" "kframe s s'"
    "xItemValue (kl s') = xItemValue (kl s)"
    "\<And>y. y \<in> items T \<Longrightarrow> pxContainer (kl s') y =
      (if y = xStateListItem t then ready_list s (uxPriority s t) else if y = xEventListItem t then 0 else pxContainer (kl s) y)"
proof -
  note D = blockingD [OF W]
  note K = D(2)
  note C = kcoreD [OF K]
  let ?x = "xStateListItem t" and ?e = "xEventListItem t"
  have apart: "xStateListItem u \<noteq> xEventListItem v" if "u \<in> T" "v \<in> T" for u v by (rule layout_items [OF C(2) that])
  have ln: "l \<notin> state_lists s" "l \<noteq> 0" using C(2) l rings_D(1) [OF C(1)] unfolding layout_def by auto
  note I = items_in [OF t]
  have lr: "l \<notin> ready_lists s" using ln(1) by (simp add: state_lists_def)
  note A = kcore_remove [OF K I(2) c ln(2) lr]
  let ?s1 = "list_remove ?e s" and ?G1 = "G(l := remove1 ?e (G l))"
  let ?c = "pxContainer (kl s) ?x"
  have cs: "?c \<in> state_lists s - ready_lists s" using D(4) [OF t] l c by simp
  then have c0: "?c \<noteq> 0" using rings_D(1) [OF C(1)] by auto
  have cx: "pxContainer (kl ?s1) ?x = ?c" using A(4) [OF I(1)] apart [OF t t] by simp
  have cr: "?c \<notin> ready_lists ?s1" using cs by (simp add: kframe_fields [OF A(2)])
  note B = kcore_remove [OF A(1) I(1) cx c0 cr]
  let ?s2 = "list_remove ?x ?s1" and ?G2 = "?G1(?c := remove1 ?x (?G1 ?c))"
  have z: "pxContainer (kl ?s2) ?x = 0" using B(4) [OF I(1)] by simp
  note R = kcore_add_ready [OF B(1) t z, folded s'_def]
  let ?r = "ready_list ?s2 (uxPriority ?s2 t)"
  let ?G3 = "?G2(?r := ins_before (pxIndex (kl ?s2) ?r) ?x (?G2 ?r))"
  show f: "kframe s s'" by (rule kframe_trans [OF kframe_trans [OF A(2) B(2)] R(2)])
  note F = kframe_fields [OF f] and F2 = kframe_fields [OF kframe_trans [OF A(2) B(2)]]
  have r: "?r = ready_list s (uxPriority s t)" by (simp only: F2)
  have rl: "?r \<in> ready_lists s" using kcore_task(1) [OF K t] unfolding r by (simp add: ready_lists_def)
  show cont: "pxContainer (kl s') y = (if y = ?x then ready_list s (uxPriority s t) else if y = ?e then 0 else pxContainer (kl s) y)"
    if "y \<in> items T" for y unfolding R(4) [OF that] B(4) [OF that] A(4) [OF that] r by simp
  show val: "xItemValue (kl s') = xItemValue (kl s)" using A(3) B(3) R(3) by simp
  have sub: "set (?G3 j) \<subseteq> set (G j)" if "j \<in> {pxDelayedTaskList s, pxOverflowDelayedTaskList s}" for j
  proof -
    have "j \<noteq> ?r" "j \<noteq> l" using that delayed_lists [OF K] rl ln by auto
    then show ?thesis using set_remove1_subset [of ?x "G j"] by auto
  qed
  have "ktime s' ?G3" using D(3) sub [of "pxDelayedTaskList s"] sub [of "pxOverflowDelayedTaskList s"]
    unfolding ktime_def F val by blast
  moreover have "pxContainer (kl s') (xStateListItem u) \<in> state_lists s - ready_lists s"
    if u: "u \<in> T" "pxContainer (kl s') (xEventListItem u) \<in> event_lists E s" for u
  proof -
    have "0 \<notin> event_lists E s" using rings_D(1) [OF C(1)] by blast
    then have "u \<noteq> t" using u(2) cont [OF I(2)] apart [OF t t] by auto
    then show ?thesis using D(4) [OF u(1)] u(2) cont [OF items_in(1) [OF u(1)]] cont [OF items_in(2) [OF u(1)]]
        apart [OF u(1) t] apart [OF t u(1)] by simp
  qed
  ultimately have "blocking T E s' ?G3" using R(1) by (simp only: blocking_def kinv_def F) blast
  moreover have "?G3 l = remove1 ?e (G l)" using ln cs rl by (auto simp: state_lists_def)
  moreover have "?G3 j = G j" if j: "j \<in> event_lists E s - {l}" for j
  proof -
    have "j \<notin> state_lists s" using C(2) j unfolding layout_def by auto
    then show ?thesis using cs rl j by (auto simp: state_lists_def)
  qed
  ultimately show "\<exists>G'. blocking T E s' G' \<and> G' l = remove1 ?e (G l) \<and> (\<forall>j \<in> event_lists E s - {l}. G' j = G j)" by blast
qed

lemma make_ready:
  assumes W: "waiting T E s G" and t: "t \<in> T" and c: "pxContainer (kl s) (xEventListItem t) = l" and l: "l \<in> event_lists E s"
  defines "s' \<equiv> prvAddTaskToReadyList t (list_remove (xStateListItem t) (list_remove (xEventListItem t) s))"
  shows "\<exists>G'. waiting T E s' G' \<and> G' l = remove1 (xEventListItem t) (G l)" "kframe s s'" "xItemValue (kl s') = xItemValue (kl s)"
    "\<And>y. y \<in> items T \<Longrightarrow> pxContainer (kl s') y =
      (if y = xStateListItem t then ready_list s (uxPriority s t) else if y = xEventListItem t then 0 else pxContainer (kl s) y)"
proof -
  have B: "blocking T E s G" and O: "event_order T E s G" using W by (simp_all add: waiting_blocking)
  note M = release_blocked [OF B t c l, folded s'_def]
  show f: "kframe s s'" and val: "xItemValue (kl s') = xItemValue (kl s)" by (rule M)+
  show "\<And>y. y \<in> items T \<Longrightarrow> pxContainer (kl s') y =
      (if y = xStateListItem t then ready_list s (uxPriority s t) else if y = xEventListItem t then 0 else pxContainer (kl s) y)" by (rule M)
  from M(1) obtain G' where G': "blocking T E s' G'" "G' l = remove1 (xEventListItem t) (G l)" "\<And>j. j \<in> event_lists E s - {l} \<Longrightarrow> G' j = G j"
    by blast
  have "sorted (map (xItemValue (kl s)) (G' j))" if j: "j \<in> E" for j
  proof -
    have "sorted (map (xItemValue (kl s)) (G j))" using O j by (simp only: event_order_def waiting_order_def)
    then show ?thesis using G'(2) G'(3) [of j] j by (cases "j = l") (auto simp: event_lists_def intro: sorted_map_remove1)
  qed
  then have "event_order T E s' G'" using O unfolding event_order_def waiting_order_def val kframe_fields [OF f] by blast
  then show "\<exists>G'. waiting T E s' G' \<and> G' l = remove1 (xEventListItem t) (G l)" using G'(1,2) by (auto simp: waiting_blocking)
qed

lemma waiting_yield: "waiting T E (s\<lparr>xYieldPending := y\<rparr>) G = waiting T E s G"
  by (simp add: waiting_def kinv_def kcore_cong ktime_def event_order_def waiting_order_def event_lists_def state_lists_def ready_lists_def ready_list_def)

text \<open>A change of the list of suspended tasks that brings in the state item of one task.\<close>

lemma suspended_list:
  assumes "kcore T E s G"
  shows "xSuspendedTaskList s \<in> state_lists s - ready_lists s" "xSuspendedTaskList s \<notin> {pxDelayedTaskList s, pxOverflowDelayedTaskList s}"
    "xSuspendedTaskList s \<noteq> 0" "xSuspendedTaskList s \<noteq> xTasksWaitingTermination s"
proof -
  note D = kcoreD [OF assms]
  show "xSuspendedTaskList s \<in> state_lists s - ready_lists s" using D(2) by (auto simp: layout_def state_lists_def)
  then show "xSuspendedTaskList s \<noteq> 0" using rings_D(1) [OF D(1)] by auto
  show "xSuspendedTaskList s \<notin> {pxDelayedTaskList s, pxOverflowDelayedTaskList s}" using D(2,3) unfolding D(3) by (auto simp: layout_def)
  show "xSuspendedTaskList s \<noteq> xTasksWaitingTermination s" using D(2) by (auto simp: layout_def)
qed

text \<open>The lists that hold tasks which are neither ready nor delayed.\<close>

lemma parked_list:
  assumes "kcore T E s G" "l \<in> {xSuspendedTaskList s, xTasksWaitingTermination s}"
  shows "l \<in> state_lists s - ready_lists s" "l \<notin> {pxDelayedTaskList s, pxOverflowDelayedTaskList s}" "l \<noteq> 0"
proof -
  note D = kcoreD [OF assms(1)]
  show "l \<in> state_lists s - ready_lists s" using D(2) assms(2) by (auto simp: layout_def state_lists_def)
  then show "l \<noteq> 0" using rings_D(1) [OF D(1)] by auto
  show "l \<notin> {pxDelayedTaskList s, pxOverflowDelayedTaskList s}" using D(2) assms(2) unfolding D(3) by (auto simp: layout_def)
qed

lemma insert_parked_kcore:
  assumes K: "kcore T E s G" and t: "t \<in> T" "pxContainer (kl s) (xStateListItem t) = 0"
    and l: "l \<in> {xSuspendedTaskList s, xTasksWaitingTermination s}"
  defines "k \<equiv> vListInsertEnd l (xStateListItem t) (kl s)"
  shows "kcore T E (s\<lparr>kl := k\<rparr>) (G(l := ins_before (pxIndex (kl s) l) (xStateListItem t) (G l)))" "kframe s (s\<lparr>kl := k\<rparr>)"
    "xItemValue k = xItemValue (kl s)"
    "\<And>y. y \<in> items T \<Longrightarrow> pxContainer k y = (if y = xStateListItem t then l else pxContainer (kl s) y)"
proof -
  note D = kcoreD [OF K]
  let ?x = "xStateListItem t" and ?G = "G(l := ins_before (pxIndex (kl s) l) (xStateListItem t) (G l))"
  note S = parked_list [OF K l]
  have lu: "l \<in> state_lists s \<union> event_lists E s" using S(1) by blast
  note R = rings_insert_end [OF D(1) lu items_in(1) [OF t(1)] t(2), folded k_def]
  show v: "xItemValue k = xItemValue (kl s)" by (rule R)
  show c: "\<And>y. y \<in> items T \<Longrightarrow> pxContainer k y = (if y = ?x then l else pxContainer (kl s) y)" by (rule R)
  have "s\<lparr>kl := k\<rparr> = s\<lparr>kl := k, uxTopReadyPriority := uxTopReadyPriority s\<rparr>" by simp
  then show fr: "kframe s (s\<lparr>kl := k\<rparr>)" unfolding kframe_def by blast
  have bits: "bit (uxTopReadyPriority s) n \<longleftrightarrow> n < 8 \<and> ?G (ready_list s (of_nat n)) \<noteq> []" for n
  proof -
    have "ready_list s (of_nat n) \<noteq> l" if "n < 8" using S(1) that by (auto simp: ready_lists_image)
    then show ?thesis using D(4) [of n] by auto
  qed
  have ord: "waiting_order (s\<lparr>kl := k\<rparr>) ?G j" if "waiting_order s G j" "j \<in> {pxDelayedTaskList s, pxOverflowDelayedTaskList s}" for j
  proof -
    have "?G j = G j" using S(2) that(2) by auto
    then show ?thesis using that(1) unfolding waiting_order_def by (simp add: v)
  qed
  have nr: "l \<noteq> ready_list s p" if "p < 8" for p using S(1) that by (auto simp: ready_lists_def)
  have "uxPriority s u < 8 \<and> pvOwner k (xStateListItem u) = u \<and> pvOwner k (xEventListItem u) = u \<and>
      pxContainer k (xStateListItem u) \<in> insert 0 (state_lists s) \<and> pxContainer k (xEventListItem u) \<in> insert 0 (event_lists E s) \<and>
      (\<forall>p < 8. pxContainer k (xStateListItem u) = ready_list s p \<longrightarrow> uxPriority s u = p)" if u: "u \<in> T" for u
  proof -
    have "xEventListItem u \<noteq> ?x" using layout_items [OF D(2) t(1) u] by simp
    then show ?thesis using kcore_task [OF K u] c items_in [OF u] R(3) S(1) nr by auto
  qed
  then show "kcore T E (s\<lparr>kl := k\<rparr>) ?G"
    unfolding kcore_def kframe_fields [OF fr] using R(1) D(2,3) bits ord [OF D(5) insertI1] ord [OF D(6) insertI2 [OF singletonI]] by simp
qed

lemmas insert_suspended_kcore = insert_parked_kcore [OF _ _ _ insertI1]

text \<open>The running task blocks: for some ticks, or in the list of suspended tasks until it is woken.\<close>

definition blocked_for :: "kernel \<Rightarrow> u32 \<Rightarrow> u32 \<Rightarrow> bool" where
  "blocked_for s t n \<longleftrightarrow>
     (if n = portMAX_DELAY then pxContainer (kl s) (xStateListItem t) = xSuspendedTaskList s else sleeping s t \<and> remaining s t = n)"

text \<open>The status of a task that blocks for a number of ticks, for ever if \<open>indef\<close> and that is the largest number.\<close>

definition block_status :: "u32 \<Rightarrow> bool \<Rightarrow> status" where
  "block_status n indef = (if n = portMAX_DELAY \<and> indef then Elsewhere else Sleeps (unat n))"

lemma blocked_status:
  assumes I: "kinv T E s G" and t: "t \<in> T"
    and b: "if n = portMAX_DELAY \<and> indef then pxContainer (kl s) (xStateListItem t) = xSuspendedTaskList s else sleeping s t \<and> remaining s t = n"
  shows "status s t = block_status n indef"
proof (cases "n = portMAX_DELAY \<and> indef")
  case True
  have K: "kcore T E s G" using I by (simp add: kinv_def)
  have "\<not> sleeping s t" "\<not> task_ready s t"
    using True b suspended_list(1,2) [OF K] task_ready_in [OF K t] by (auto simp: sleeping_def)
  then show ?thesis using True by (simp add: status_def block_status_def)
next
  case False
  then have "sleeping s t \<and> unat (remaining s t) = unat n" using b by simp
  then have "status s t = Sleeps (unat n)" using status_kinv(2) [OF I t] by simp
  then show ?thesis using False by (simp add: block_status_def)
qed

lemma blocked_for_state:
  assumes "kcore T E s G" "blocked_for s t n"
  shows "pxContainer (kl s) (xStateListItem t) \<in> state_lists s - ready_lists s"
  using suspended_list(1) [OF assms(1)] delayed_lists [OF assms(1)] assms(2) by (auto simp: blocked_for_def sleeping_def split: if_splits)

lemma add_delayed_any:
  assumes I: "kinv T E s G" and t: "pxCurrentTCB s \<in> T"
      "pxContainer (kl s) (xStateListItem (pxCurrentTCB s)) = ready_list s (uxPriority s (pxCurrentTCB s))"
    and n: "n \<noteq> 0"
  shows "\<exists>s' G'. prvAddCurrentTaskToDelayedList n True s = Some s' \<and> kinv T E s' G' \<and>
    blocked_for s' (pxCurrentTCB s) n \<and> kframe (s\<lparr>xNextTaskUnblockTime := xNextTaskUnblockTime s'\<rparr>) s' \<and>
    (\<forall>y \<in> items T. y \<noteq> xStateListItem (pxCurrentTCB s) \<longrightarrow> pxContainer (kl s') y = pxContainer (kl s) y \<and> xItemValue (kl s') y = xItemValue (kl s) y) \<and>
    (\<forall>j \<in> event_lists E s. G' j = G j)"
proof (cases "n = portMAX_DELAY")
  case False
  then have "\<not> (n = portMAX_DELAY \<and> True)" by simp
  from add_delayed_spec [OF I t n this] show ?thesis using False by (auto simp: blocked_for_def)
next
  case True
  have K: "kcore T E s G" and M: "ktime s G" using I by (simp_all add: kinv_def)
  let ?t = "pxCurrentTCB s" and ?x = "xStateListItem (pxCurrentTCB s)"
  let ?r = "ready_list s (uxPriority s ?t)" and ?s1 = "leave_ready ?t s"
  let ?G1 = "G(?r := remove1 ?x (G ?r))"
  note A = leave_ready_kcore [OF K t]
  have z: "pxContainer (kl ?s1) ?x = 0" using A(4) [OF items_in(1) [OF t(1)]] by simp
  note B = insert_suspended_kcore [OF A(1) t(1) z] and S = suspended_list [OF K]
  let ?l = "xSuspendedTaskList ?s1" and ?s' = "?s1\<lparr>kl := vListInsertEnd (xSuspendedTaskList ?s1) ?x (kl ?s1)\<rparr>"
  let ?G' = "?G1(?l := ins_before (pxIndex (kl ?s1) ?l) ?x (?G1 ?l))"
  note fr = kframe_trans [OF A(2) B(2)]
  note F1 = kframe_fields [OF A(2)] and F = kframe_fields [OF fr]
  have "prvAddCurrentTaskToDelayedList n True s = Some ?s'"
    using True by (cases "uxListRemove ?x (kl s)")
      (simp add: prvAddCurrentTaskToDelayedList_def leave_ready_def portRESET_READY_PRIORITY_def Let_def cong: if_cong)
  moreover have "kinv T E ?s' ?G'"
  proof -
    have "?r \<in> ready_lists s" using kcore_task(1) [OF K t(1)] by (simp add: ready_lists_def)
    then have "?G' j = G j" if "j \<in> {pxDelayedTaskList s, pxOverflowDelayedTaskList s}" for j
      using that delayed_lists [OF K] S(2) F1(18) by auto
    moreover have "xItemValue (kl ?s') = xItemValue (kl s)" using A(3) B(3) by simp
    ultimately have "ktime ?s' ?G'" using M unfolding ktime_def F by simp
    then show ?thesis using B(1) by (simp add: kinv_def)
  qed
  moreover have "blocked_for ?s' ?t n" using True B(4) [OF items_in(1) [OF t(1)]] by (simp add: blocked_for_def)
  moreover have "kframe (s\<lparr>xNextTaskUnblockTime := xNextTaskUnblockTime ?s'\<rparr>) ?s'"
  proof -
    have "s\<lparr>xNextTaskUnblockTime := xNextTaskUnblockTime ?s'\<rparr> = s" using F(11) by simp
    then show ?thesis using fr by (simp only:)
  qed
  moreover have "\<forall>y \<in> items T. y \<noteq> ?x \<longrightarrow> pxContainer (kl ?s') y = pxContainer (kl s) y \<and> xItemValue (kl ?s') y = xItemValue (kl s) y"
    using A(3,4) B(3,4) by simp
  moreover have "?G' j = G j" if "j \<in> event_lists E s" for j
  proof -
    have "?r \<in> state_lists s" using kcore_task(1) [OF K t(1)] by (auto simp: state_lists_def ready_lists_def)
    moreover have "?l \<in> state_lists s" using S(1) F1(18) by simp
    moreover have "j \<notin> state_lists s" using kcoreD(2) [OF K] that unfolding layout_def by blast
    ultimately show ?thesis by auto
  qed
  ultimately show ?thesis by (intro exI [of _ ?s'] exI [of _ ?G']) simp
qed

text \<open>The running task enters the list and blocks for the time out.\<close>

lemma place_spec:
  assumes I: "waiting T E s G" and c: "pxCurrentTCB s \<in> T" "task_ready s (pxCurrentTCB s)" "pxContainer (kl s) (xEventListItem (pxCurrentTCB s)) = 0"
    and l: "l \<in> E" and n: "n \<noteq> 0"
  shows "\<exists>s' G'. vTaskPlaceOnEventList l n s = Some s' \<and> waiting T E s' G' \<and> waits_in s' l (pxCurrentTCB s) \<and>
    (quiet T s \<longrightarrow> quiet T s') \<and> kframe (s\<lparr>xNextTaskUnblockTime := xNextTaskUnblockTime s'\<rparr>) s' \<and>
    blocked_for s' (pxCurrentTCB s) n \<and> pxCurrentTCB s' = pxCurrentTCB s \<and> uxPriority s' = uxPriority s \<and>
    ready_list s' = ready_list s \<and>
    (\<forall>y \<in> items T - {xStateListItem (pxCurrentTCB s), xEventListItem (pxCurrentTCB s)}.
      pxContainer (kl s') y = pxContainer (kl s) y \<and> xItemValue (kl s') y = xItemValue (kl s) y)"
proof -
  let ?t = "pxCurrentTCB s"
  let ?x = "xStateListItem ?t" and ?e = "xEventListItem ?t"
  note W = waitingD [OF I]
  note K = W(2) and M = W(3) and O = W(4)
  let ?G1 = "G(l := insort_after (xItemValue (kl s)) ?e (G l))"
  have le: "l \<in> event_lists E s" using l by (simp add: event_lists_def)
  from insert_event_kcore [OF K c(1,3) le] obtain k where
    k: "vListInsert l ?e (kl s) = Some k" "kcore T E (s\<lparr>kl := k\<rparr>) ?G1" "xItemValue k = xItemValue (kl s)"
    and kc: "\<And>y. y \<in> items T \<Longrightarrow> pxContainer k y = (if y = ?e then l else pxContainer (kl s) y)" by blast
  let ?s1 = "s\<lparr>kl := k\<rparr>"
  note la = state_event_apart [OF K l]
  have I1: "kinv T E ?s1 ?G1"
  proof -
    have "?G1 j = G j" if "j \<in> {pxDelayedTaskList s, pxOverflowDelayedTaskList s}" for j using that delayed_lists [OF K] la by auto
    then show ?thesis using k(2,3) M by (simp add: kinv_def ktime_def)
  qed
  have ne: "xStateListItem v \<noteq> ?e" "xEventListItem v \<noteq> ?x" if "v \<in> T" for v
    using layout_items [OF kcoreD(2) [OF K]] that c(1) by metis+
  have rl: "ready_list ?s1 = ready_list s" by (simp add: ready_list_def fun_eq_iff)
  have cx: "pxContainer (kl ?s1) ?x = ready_list ?s1 (uxPriority ?s1 ?t)"
    using kc [OF items_in(1) [OF c(1)]] ne(1) [OF c(1)] c(2) unfolding rl by (simp add: task_ready_def)
  from add_delayed_any [OF I1, of n] c(1) cx n obtain s' G' where
    s': "prvAddCurrentTaskToDelayedList n True ?s1 = Some s'" "kinv T E s' G'" "blocked_for s' ?t n"
      "kframe (?s1\<lparr>xNextTaskUnblockTime := xNextTaskUnblockTime s'\<rparr>) s'"
    and y: "\<And>y. y \<in> items T \<Longrightarrow> y \<noteq> ?x \<Longrightarrow> pxContainer (kl s') y = pxContainer k y \<and> xItemValue (kl s') y = xItemValue (kl s) y"
    and g: "\<And>j. j \<in> event_lists E s \<Longrightarrow> G' j = ?G1 j"
    by (auto simp: k(3) event_lists_def)
  note F = kframe_fields [OF s'(4), simplified]
  have sl: "state_lists s' = state_lists s" "ready_lists s' = ready_lists s" "ready_list s' = ready_list s"
    using F(1,4,5) by (simp_all add: state_lists_def ready_lists_def ready_list_def fun_eq_iff)
  have other: "pxContainer (kl s') z = pxContainer (kl s) z \<and> xItemValue (kl s') z = xItemValue (kl s) z" if "z \<in> items T - {?x, ?e}" for z
    using y [of z] kc [of z] that by auto
  have ec: "pxContainer (kl s') ?e = l" using y [OF items_in(2) [OF c(1)]] ne(2) [OF c(1)] kc [OF items_in(2) [OF c(1)]] by simp
  have ev: "pxContainer (kl s') (xEventListItem v) = (if v = ?t then l else pxContainer (kl s) (xEventListItem v))" if "v \<in> T" for v
    using ec other [of "xEventListItem v"] items_in(2) [OF that] ne(2) [OF that] by auto
  have O': "event_order T E s' G'"
  proof -
    have "waiting_order s' G' j" if j: "j \<in> E" for j
    proof -
      have je: "j \<in> event_lists E s" using j by (simp add: event_lists_def)
      have a: "sorted (map (xItemValue (kl s)) (?G1 j))"
        using O j insort_after_sort_key [of "xItemValue (kl s)" "G l" ?e] unfolding event_order_def waiting_order_def by auto
      have b: "map (xItemValue (kl s')) (?G1 j) = map (xItemValue (kl s)) (?G1 j)"
      proof (rule map_cong [OF refl])
        fix z
        assume z: "z \<in> set (?G1 j)"
        have ju: "j \<in> state_lists ?s1 \<union> event_lists E ?s1" using j by (simp add: event_lists_def)
        have zi: "z \<in> items T" and zc: "pxContainer k z = j" using rings_container [OF kcoreD(1) [OF k(2)] ju z] by simp_all
        have "z \<noteq> ?x"
        proof
          assume "z = ?x"
          then have "j = ready_list s (uxPriority s ?t)" using zc cx rl by simp
          then have "j \<in> state_lists s" using kcore_task(1) [OF K c(1)] by (simp add: state_lists_def ready_lists_def)
          then show False using state_event_apart(1) [OF K j] by blast
        qed
        then show "xItemValue (kl s') z = xItemValue (kl s) z" using y [OF zi] by blast
      qed
      show ?thesis unfolding waiting_order_def g [OF je] b by (rule a)
    qed
    moreover have "xItemValue (kl s') (xEventListItem v) = 8 - uxPriority s' v" if v: "v \<in> T" for v
      using y [OF items_in(2) [OF v] ne(2) [OF v]] O v by (simp add: event_order_def F)
    ultimately show ?thesis by (simp add: event_order_def)
  qed
  have fr: "kframe (s\<lparr>xNextTaskUnblockTime := xNextTaskUnblockTime s'\<rparr>) s'"
  proof -
    obtain j w where "s' = ?s1\<lparr>xNextTaskUnblockTime := xNextTaskUnblockTime s'\<rparr>\<lparr>kl := j, uxTopReadyPriority := w\<rparr>"
      using s'(4) unfolding kframe_def by blast
    then have "s' = s\<lparr>xNextTaskUnblockTime := xNextTaskUnblockTime s'\<rparr>\<lparr>kl := j, uxTopReadyPriority := w\<rparr>" by simp
    then show ?thesis unfolding kframe_def by blast
  qed
  have "quiet T s \<longrightarrow> quiet T s'" using ev la(3) by (simp add: quiet_def F)
  moreover have "pxContainer (kl s') (xStateListItem v) \<in> state_lists s - ready_lists s"
    if v: "v \<in> T" "pxContainer (kl s') (xEventListItem v) \<in> event_lists E s" for v
  proof (cases "v = ?t")
    case True
    have "kcore T E s' G'" using s'(2) by (simp add: kinv_def)
    then show ?thesis using blocked_for_state [OF _ s'(3)] True sl by simp
  next
    case False
    then have "xStateListItem v \<in> items T - {?x, ?e}" using v(1) items_in(1) ne(1) by auto
    then show ?thesis using other v ev [OF v(1)] False W(5) by simp
  qed
  moreover have "event_lists E s' = event_lists E s" by (simp add: event_lists_def F)
  ultimately have "waiting T E s' G'" "quiet T s \<longrightarrow> quiet T s'" using s'(2) O' sl by (simp_all add: waiting_def)
  moreover have "vTaskPlaceOnEventList l n s = Some s'" using k(1) s'(1) by (simp add: vTaskPlaceOnEventList_def)
  ultimately show ?thesis using s'(3) ec other sl fr by (auto simp: waits_in_def F)
qed


lemma wake_highest:
  assumes W: "waiting T E s G" and q: "uxSchedulerSuspended s = 0" and l: "l \<in> E" and t0: "t0 \<in> T" "waits_in s l t0"
  shows "\<exists>t \<in> T. waits_in s l t \<and> (\<forall>u \<in> T. waits_in s l u \<longrightarrow> uxPriority s u \<le> uxPriority s t) \<and>
    (\<exists>s' G'. xTaskRemoveFromEventList l s = (uxPriority s (pxCurrentTCB s) < uxPriority s t, s') \<and> waiting T E s' G' \<and>
      (\<exists>y. kframe (s\<lparr>xYieldPending := y\<rparr>) s') \<and>
      (\<forall>u \<in> T. status s' u = (if u = t then Ready else status s u) \<and>
        pxContainer (kl s') (xEventListItem u) = (if u = t then 0 else pxContainer (kl s) (xEventListItem u))) \<and>
      (\<forall>u \<in> T. pxContainer (kl s') (xStateListItem u) = (if u = t then ready_list s (uxPriority s t) else pxContainer (kl s) (xStateListItem u))))"
proof -
  note D = waitingD [OF W]
  note K = D(2)
  note la = state_event_apart [OF K l]
  have lu: "l \<in> state_lists s \<union> event_lists E s" and le: "l \<in> event_lists E s" using l by (simp_all add: event_lists_def)
  have "xEventListItem t0 \<in> set (G l)" using rings_member [OF kcoreD(1) [OF K] items_in(2) [OF t0(1)] lu] t0(2) by (simp add: waits_in_def)
  then have ne: "G l \<noteq> []" by auto
  from event_first [OF K D(4) l ne] obtain t where
    t: "t \<in> T" "listGET_OWNER_OF_HEAD_ENTRY l (kl s) = t" "pxContainer (kl s) (xEventListItem t) = l"
      "\<forall>u \<in> T. pxContainer (kl s) (xEventListItem u) = l \<longrightarrow> uxPriority s u \<le> uxPriority s t" by blast
  note M = make_ready [OF W t(1,3) le]
  let ?s3 = "prvAddTaskToReadyList t (list_remove (xStateListItem t) (list_remove (xEventListItem t) s))"
  define b where "b = (uxPriority s (pxCurrentTCB s) < uxPriority s t)"
  define s' where "s' = (if b then ?s3\<lparr>xYieldPending := True\<rparr> else ?s3)"
  note F = kframe_fields [OF M(2)]
  have apart: "xStateListItem u \<noteq> xEventListItem v" if "u \<in> T" "v \<in> T" for u v by (rule layout_items [OF kcoreD(2) [OF K] that])
  have "uxSchedulerSuspended (list_remove (xEventListItem t) s) = 0" using q by (simp add: list_remove_def)
  then have e: "xTaskRemoveFromEventList l s = (b, s')" by (simp add: xTaskRemoveFromEventList_def t(2) F Let_def b_def s'_def)
  obtain G' where "waiting T E ?s3 G'" using M(1) by blast
  then have W': "waiting T E s' G'" by (simp add: s'_def waiting_yield)
  obtain k w where kw: "?s3 = s\<lparr>kl := k, uxTopReadyPriority := w\<rparr>" using M(2) unfolding kframe_def by blast
  have fr: "kframe (s\<lparr>xYieldPending := xYieldPending s'\<rparr>) s'"
    unfolding kframe_def by (intro exI [of _ k] exI [of _ w]) (simp add: s'_def kw)
  note Y = kframe_fields [OF fr, simplified]
  have same: "pxContainer (kl s') = pxContainer (kl ?s3)" "xItemValue (kl s') = xItemValue (kl s)" using M(3) by (simp_all add: s'_def)
  have ev: "pxContainer (kl s') (xEventListItem u) = (if u = t then 0 else pxContainer (kl s) (xEventListItem u))" if "u \<in> T" for u
    using M(4) [OF items_in(2) [OF that]] apart [OF t(1) that] by (cases "u = t") (auto simp: same)
  have cs: "pxContainer (kl s') (xStateListItem u) = (if u = t then ready_list s (uxPriority s t) else pxContainer (kl s) (xStateListItem u))"
    if "u \<in> T" for u using M(4) [OF items_in(1) [OF that]] apart [OF that t(1)] by (cases "u = t") (auto simp: same)
  have rl: "ready_list s' = ready_list s" using Y(4) by (simp add: ready_list_def fun_eq_iff)
  have st: "status s' u = (if u = t then Ready else status s u)" if "u \<in> T" for u
    using cs [OF that] by (simp add: status_def task_ready_def sleeping_def remaining_def rl Y same(2))
  show ?thesis
    by (rule bexI [OF _ t(1)]) (use t(3,4) e W' fr ev st cs in \<open>auto simp: waits_in_def b_def\<close>)
qed

text \<open>Signalling an event that a task waits for wakes the waiting task of the highest priority, takes it out of the list and of its time
  out, leaves all other waiting tasks where they are, keeps the invariant, and asks for a switch exactly when the task woken has a
  higher priority than the running one.
\<close>

lemma event_wakes_highest:
  assumes "eventful T E s G" "l \<in> E" "t0 \<in> T" "waits_in s l t0"
  shows "\<exists>t \<in> T. waits_in s l t \<and> (\<forall>u \<in> T. waits_in s l u \<longrightarrow> uxPriority s u \<le> uxPriority s t) \<and>
    (\<exists>s' G'. xTaskRemoveFromEventList l s = (uxPriority s (pxCurrentTCB s) < uxPriority s t, s') \<and> eventful T E s' G' \<and>
      status s' t = Ready \<and> \<not> waits_in s' l t \<and> (\<forall>u \<in> T - {t}. waits_in s' l u = waits_in s l u))"
proof -
  have W: "waiting T E s G" and Q: "quiet T s" using assms(1) by (simp_all add: eventful_def)
  then have q: "uxSchedulerSuspended s = 0" by (simp add: quiet_def)
  from wake_highest [OF W q assms(2-4)] obtain t s' G' y where
    t: "t \<in> T" "waits_in s l t" "\<forall>u \<in> T. waits_in s l u \<longrightarrow> uxPriority s u \<le> uxPriority s t"
      "xTaskRemoveFromEventList l s = (uxPriority s (pxCurrentTCB s) < uxPriority s t, s')" "waiting T E s' G'"
      "kframe (s\<lparr>xYieldPending := y\<rparr>) s'"
    and st: "\<And>u. u \<in> T \<Longrightarrow> status s' u = (if u = t then Ready else status s u) \<and>
        pxContainer (kl s') (xEventListItem u) = (if u = t then 0 else pxContainer (kl s) (xEventListItem u))" by blast
  note F = kframe_fields [OF t(6), simplified]
  have "xPendingReadyList s \<noteq> 0" "l \<noteq> 0"
    using rings_D(1) [OF kcoreD(1) [OF waitingD(2) [OF W]]] assms(2) by (auto simp: event_lists_def)
  then have "quiet T s'" "\<not> waits_in s' l t" "\<forall>u \<in> T - {t}. waits_in s' l u = waits_in s l u"
    using Q st t(1) by (auto simp: quiet_def waits_in_def F)
  then show ?thesis using t(1-5) st by (auto simp: eventful_def)
qed

text \<open>A new event list.\<close>

lemma waiting_list_added:
  assumes W: "waiting T E s G" and l: "l \<notin> kernel_lists E s" "l \<noteq> 0" "xListEnd l \<notin> items T"
  shows "waiting T (insert l E) (s\<lparr>kl := vListInitialise l (kl s)\<rparr>) (G(l := []))" (is "waiting T ?E ?s ?G")
    "quiet T (s\<lparr>kl := vListInitialise l (kl s)\<rparr>) = quiet T s"
proof -
  note K = waitingD(2) [OF W]
  note K' = event_list_added [OF K l]
  have val: "xItemValue (kl ?s) x = xItemValue (kl s) x" if "x \<in> items T" for x
  proof -
    have "x \<noteq> xListEnd l" using that l(3) by blast
    then show ?thesis by simp
  qed
  have inT: "set (G j) \<subseteq> items T" if "j \<in> kernel_lists E s" for j
    using rings_D(3) [OF kcoreD(1) [OF K]] that by (simp add: kernel_lists_def)
  have el: "event_lists ?E ?s = insert l (event_lists E s)" by (auto simp: event_lists_def)
  have D: "pxDelayedTaskList s \<in> kernel_lists E s" "pxOverflowDelayedTaskList s \<in> kernel_lists E s"
    using delayed_lists [OF K] by (simp_all add: kernel_lists_def)
  have same: "\<forall>x \<in> set (G j). xItemValue (kl ?s) x = xItemValue (kl s) x" "?G j = G j" if "j \<in> kernel_lists E s" for j
    using inT [OF that] val l(1) that by auto
  have ord: "waiting_order ?s ?G j = waiting_order s G j" if "j \<in> kernel_lists E s" for j
  proof -
    have "map (xItemValue (kl ?s)) (G j) = map (xItemValue (kl s)) (G j)" using same(1) [OF that] by simp
    then show ?thesis using same(2) [OF that] unfolding waiting_order_def by metis
  qed
  have "ktime ?s ?G" using waitingD(3) [OF W] same [OF D(1)] same [OF D(2)] unfolding ktime_def by simp
  moreover have "event_order T ?E ?s ?G"
  proof -
    have "waiting_order ?s ?G j" if "j \<in> ?E" for j
    proof (cases "j = l")
      case True
      then show ?thesis by (simp add: waiting_order_def)
    next
      case False
      then have "j \<in> kernel_lists E s" "waiting_order s G j"
        using that waitingD(4) [OF W] by (simp_all add: event_order_def kernel_lists_def event_lists_def)
      then show ?thesis using ord by blast
    qed
    moreover have "xItemValue (kl ?s) (xEventListItem t) = configMAX_PRIORITIES - uxPriority ?s t" if "t \<in> T" for t
      using waitingD(4) [OF W] val [OF items_in(2) [OF that]] that by (simp add: event_order_def)
    ultimately show ?thesis by (simp add: event_order_def)
  qed
  moreover have "pxContainer (kl ?s) (xStateListItem t) \<in> state_lists ?s - ready_lists ?s"
    if t: "t \<in> T" "pxContainer (kl ?s) (xEventListItem t) \<in> event_lists ?E ?s" for t
  proof -
    have "pxContainer (kl s) (xEventListItem t) \<in> insert 0 (event_lists E s)" using kcore_task(5) [OF K t(1)] .
    moreover have "l \<notin> insert 0 (event_lists E s)" using l by (simp add: kernel_lists_def)
    moreover have "0 \<notin> event_lists ?E ?s" using rings_D(1) [OF kcoreD(1) [OF K']] by blast
    ultimately have "pxContainer (kl s) (xEventListItem t) \<in> event_lists E s" using t(2) unfolding el by auto
    then have "pxContainer (kl s) (xStateListItem t) \<in> state_lists s - ready_lists s" using waitingD(5) [OF W t(1)] by simp
    moreover have "state_lists ?s = state_lists s" "ready_lists ?s = ready_lists s"
      by (simp_all add: state_lists_def ready_lists_def ready_list_def)
    ultimately show ?thesis by simp
  qed
  ultimately show "waiting T ?E ?s ?G" using K' unfolding waiting_def kinv_def by blast
qed (simp add: quiet_def)

text \<open>The started kernel with an event list at 2000, in which the running task waits for five ticks.\<close>

definition demo_waiting :: kernel where
  "demo_waiting = (case vTaskPlaceOnEventList 2000 5 (demo_started\<lparr>kl := vListInitialise 2000 (kl demo_started)\<rparr>) of None \<Rightarrow> demo_started | Some s \<Rightarrow> s)"

lemma demo_started_waiting: "\<exists>G. waiting {100, 200, 300, 400} {} demo_started G"
proof -
  let ?T = "{100, 200, 300, 400 :: u32}"
  obtain G where G: "kcore ?T {} demo_started G" "ktime demo_started G" and Q: "quiet ?T demo_started"
    using demo_started_scheduled(1) by (auto simp: scheduled_def kinv_def)
  have "pxContainer (kl demo_started) (xEventListItem t) \<notin> event_lists {} demo_started" if "t \<in> ?T" for t
    using Q that by (auto simp: quiet_def event_lists_def)
  then have "waiting ?T {} demo_started G"
    using G demo_started_scheduled(6) unfolding waiting_def kinv_def event_order_def by blast
  then show ?thesis by blast
qed

lemma same_places_update:
  "same_places s (s\<lparr>kl := k', xNextTaskUnblockTime := n, kl := k, uxTopReadyPriority := w\<rparr>)"
  by (simp add: same_places_def)

lemma demo_waiting_eventful:
  "\<exists>G. eventful {100, 200, 300, 400} {2000} demo_waiting G \<and> waits_in demo_waiting 2000 (pxCurrentTCB demo_started) \<and>
    pxCurrentTCB demo_started \<in> {100, 200, 300, 400}"
  "same_places demo_kernel demo_waiting" "\<exists>t \<in> {100, 200, 300, 400}. status demo_waiting t = Ready"
proof -
  let ?T = "{100, 200, 300, 400 :: u32}" and ?v = "demo_started\<lparr>kl := vListInitialise 2000 (kl demo_started)\<rparr>"
  have S: "quiet ?T demo_started" "pxCurrentTCB demo_started \<in> ?T" "task_ready demo_started (pxCurrentTCB demo_started)"
    using demo_started_scheduled(1) by (simp_all add: scheduled_def)
  obtain G where G: "waiting ?T {} demo_started G" using demo_started_waiting by blast
  have "2000 \<notin> kernel_lists {} demo_started" using demo_places(3) same_places_fields(5) [OF demo_started_scheduled(5)] by simp
  then have E: "waiting ?T {2000} ?v (G(2000 := []))" and Q: "quiet ?T ?v"
    using waiting_list_added [OF G _ _ demo_places(4)] S(1) by simp_all
  have "task_ready ?v (pxCurrentTCB ?v)" using S(3) by (simp add: task_ready_def ready_list_def)
  moreover have "pxContainer (kl ?v) (xEventListItem (pxCurrentTCB ?v)) = 0"
    using kcore_task(5) [OF waitingD(2) [OF G] S(2)] S(1,2) by (auto simp: quiet_def event_lists_def)
  moreover have "pxCurrentTCB ?v \<in> ?T" using S(2) by simp
  moreover have "(5 :: u32) \<noteq> 0" "(2000 :: u32) \<in> {2000}" by simp_all
  ultimately obtain s' G' where s': "vTaskPlaceOnEventList 2000 5 ?v = Some s'" "waiting ?T {2000} s' G'" "quiet ?T s'"
      "waits_in s' 2000 (pxCurrentTCB ?v)" "kframe (?v\<lparr>xNextTaskUnblockTime := xNextTaskUnblockTime s'\<rparr>) s'" "uxPriority s' = uxPriority ?v"
      "ready_list s' = ready_list ?v"
      "\<forall>y \<in> items ?T - {xStateListItem (pxCurrentTCB ?v), xEventListItem (pxCurrentTCB ?v)}.
        pxContainer (kl s') y = pxContainer (kl ?v) y \<and> xItemValue (kl s') y = xItemValue (kl ?v) y"
    using place_spec [OF E] Q by blast
  have d: "demo_waiting = s'" by (simp add: demo_waiting_def s'(1))
  then show "\<exists>G. eventful ?T {2000} demo_waiting G \<and> waits_in demo_waiting 2000 (pxCurrentTCB demo_started) \<and> pxCurrentTCB demo_started \<in> ?T"
    using s'(2-4) S(2) by (auto simp: eventful_def)
  obtain k w where "s' = ?v\<lparr>xNextTaskUnblockTime := xNextTaskUnblockTime s', kl := k, uxTopReadyPriority := w\<rparr>"
    using s'(5) unfolding kframe_def by blast
  then have "same_places demo_started s'" by (metis (no_types) same_places_update)
  then show "same_places demo_kernel demo_waiting" unfolding d using demo_started_scheduled(5) by (simp add: same_places_def)
  define t :: u32 where "t = (if pxCurrentTCB demo_started = 100 then 200 else 100)"
  have t: "t \<in> ?T" "t \<noteq> pxCurrentTCB demo_started" by (simp_all add: t_def)
  have "xStateListItem t \<in> items ?T - {xStateListItem (pxCurrentTCB ?v), xEventListItem (pxCurrentTCB ?v)}"
    using items_in(1) [OF t(1)] t(2) layout_items [OF kcoreD(2) [OF waitingD(2) [OF G]] t(1) S(2)] by simp
  then have "pxContainer (kl s') (xStateListItem t) = pxContainer (kl demo_started) (xStateListItem t)" using s'(8) by simp
  moreover have "task_ready demo_started t" using demo_started_scheduled(2) t(1) by blast
  ultimately have "task_ready s' t" using s'(6,7) by (simp add: task_ready_def) (simp add: ready_list_def)
  then show "\<exists>t \<in> ?T. status demo_waiting t = Ready" using t(1) by (auto simp: status_def d)
qed

end
