(* ===== verification/Rtos_Mutex.thy ===== *)
theory Rtos_Mutex
  imports Rtos_Event
begin

unbundle bit_operations_syntax

text \<open>
  Priority inheritance in \<^verbatim>\<open>src/ns_guest/lib/freertos/tasks.c\<close>: the holder of a mutex runs at the priority of the highest
  task that waits for it, and goes back to its base priority when it gives the mutex back. The assertions are
  defined away by the configuration.
\<close>

section \<open>Operations\<close>

abbreviation taskEVENT_LIST_ITEM_VALUE_IN_USE :: u32 where "taskEVENT_LIST_ITEM_VALUE_IN_USE \<equiv> 0x80000000"

definition taskRESET_READY_PRIORITY :: "u32 \<Rightarrow> kernel \<Rightarrow> kernel" where
  "taskRESET_READY_PRIORITY p s =
     (if listCURRENT_LIST_LENGTH (ready_list s p) (kl s) = 0 then portRESET_READY_PRIORITY p s else s)"

text \<open>The step that takes a task out of its ready list, the same in all functions that change a priority.\<close>

definition remove_from_ready :: "u32 \<Rightarrow> kernel \<Rightarrow> kernel" where
  "remove_from_ready pxTCB s =
     (let (left, l) = uxListRemove (xStateListItem pxTCB) (kl s); s = s\<lparr>kl := l\<rparr>
      in if left = 0 then taskRESET_READY_PRIORITY (uxPriority s pxTCB) s else s)"

definition set_priority :: "u32 \<Rightarrow> u32 \<Rightarrow> kernel \<Rightarrow> kernel" where
  "set_priority pxTCB p s = s\<lparr>uxPriority := (uxPriority s)(pxTCB := p)\<rparr>"

definition set_event_value :: "u32 \<Rightarrow> u32 \<Rightarrow> kernel \<Rightarrow> kernel" where
  "set_event_value pxTCB v s = s\<lparr>kl := listSET_LIST_ITEM_VALUE (xEventListItem pxTCB) v (kl s)\<rparr>"

definition pvTaskIncrementMutexHeldCount :: "kernel \<Rightarrow> u32 \<times> kernel" where
  "pvTaskIncrementMutexHeldCount s =
     (let s = (if pxCurrentTCB s \<noteq> 0
               then s\<lparr>uxMutexesHeld := (uxMutexesHeld s)(pxCurrentTCB s := uxMutexesHeld s (pxCurrentTCB s) + 1)\<rparr> else s)
      in (pxCurrentTCB s, s))"

definition xTaskPriorityInherit :: "u32 \<Rightarrow> kernel \<Rightarrow> bool \<times> kernel" where
  "xTaskPriorityInherit pxMutexHolder s =
     (if pxMutexHolder \<noteq> 0
      then if uxPriority s pxMutexHolder < uxPriority s (pxCurrentTCB s)
           then let s = (if xItemValue (kl s) (xEventListItem pxMutexHolder) AND taskEVENT_LIST_ITEM_VALUE_IN_USE = 0
                         then set_event_value pxMutexHolder (configMAX_PRIORITIES - uxPriority s (pxCurrentTCB s)) s else s)
                in if listIS_CONTAINED_WITHIN (ready_list s (uxPriority s pxMutexHolder)) (xStateListItem pxMutexHolder) (kl s)
                   then let s = remove_from_ready pxMutexHolder s;
                            s = set_priority pxMutexHolder (uxPriority s (pxCurrentTCB s)) s
                        in (True, prvAddTaskToReadyList pxMutexHolder s)
                   else (True, set_priority pxMutexHolder (uxPriority s (pxCurrentTCB s)) s)
           else (uxBasePriority s pxMutexHolder < uxPriority s (pxCurrentTCB s), s)
      else (False, s))"

definition xTaskPriorityDisinherit :: "u32 \<Rightarrow> kernel \<Rightarrow> bool \<times> kernel" where
  "xTaskPriorityDisinherit pxMutexHolder s =
     (if pxMutexHolder \<noteq> 0
      then let s = s\<lparr>uxMutexesHeld := (uxMutexesHeld s)(pxMutexHolder := uxMutexesHeld s pxMutexHolder - 1)\<rparr>
           in if uxPriority s pxMutexHolder \<noteq> uxBasePriority s pxMutexHolder
              then if uxMutexesHeld s pxMutexHolder = 0
                   then let s = remove_from_ready pxMutexHolder s;
                            s = set_priority pxMutexHolder (uxBasePriority s pxMutexHolder) s;
                            s = set_event_value pxMutexHolder (configMAX_PRIORITIES - uxPriority s pxMutexHolder) s
                        in (True, prvAddTaskToReadyList pxMutexHolder s)
                   else (False, s)
              else (False, s)
      else (False, s))"

text \<open>After the priority has been changed, the ready list that may have become empty is looked up by the new one.\<close>

definition vTaskPriorityDisinheritAfterTimeout :: "u32 \<Rightarrow> u32 \<Rightarrow> kernel \<Rightarrow> kernel" where
  "vTaskPriorityDisinheritAfterTimeout pxMutexHolder uxHighestPriorityWaitingTask s =
     (if pxMutexHolder \<noteq> 0
      then let uxPriorityToUse = (if uxBasePriority s pxMutexHolder < uxHighestPriorityWaitingTask
                 then uxHighestPriorityWaitingTask else uxBasePriority s pxMutexHolder)
           in if uxPriority s pxMutexHolder \<noteq> uxPriorityToUse
              then if uxMutexesHeld s pxMutexHolder = 1
                   then let uxPriorityUsedOnEntry = uxPriority s pxMutexHolder;
                            s = set_priority pxMutexHolder uxPriorityToUse s;
                            s = (if xItemValue (kl s) (xEventListItem pxMutexHolder) AND taskEVENT_LIST_ITEM_VALUE_IN_USE = 0
                                 then set_event_value pxMutexHolder (configMAX_PRIORITIES - uxPriorityToUse) s else s)
                        in if listIS_CONTAINED_WITHIN (ready_list s uxPriorityUsedOnEntry) (xStateListItem pxMutexHolder) (kl s)
                           then prvAddTaskToReadyList pxMutexHolder (remove_from_ready pxMutexHolder s)
                           else s
                   else s
              else s
      else s)"

section \<open>Changing the priority of a task\<close>

lemma remove_from_ready_eq:
  assumes K: "kcore T E s G" and t: "t \<in> T" "task_ready s t"
  shows "remove_from_ready t s = leave_ready t s"
proof -
  note D = kcoreD [OF K]
  let ?l = "ready_list s (uxPriority s t)"
  have "?l \<in> state_lists s" using kcore_task(1) [OF K t(1)] by (simp add: state_lists_def ready_lists_def)
  then have "?l \<noteq> 0" using rings_D(1) [OF D(1)] by auto
  then have c: "pxContainer (kl s) (xStateListItem t) = ?l" using t(2) by (simp add: task_ready_def)
  obtain left k where k: "uxListRemove (xStateListItem t) (kl s) = (left, k)" by fastforce
  have "left = uxNumberOfItems k ?l" using k c by (auto simp: uxListRemove_def Let_def list_setters split: if_splits)
  moreover have "ready_list (s\<lparr>kl := k\<rparr>) = ready_list s" by (simp add: ready_list_def fun_eq_iff)
  ultimately show ?thesis
    by (simp add: remove_from_ready_def leave_ready_def k taskRESET_READY_PRIORITY_def listCURRENT_LIST_LENGTH_def Let_def)
qed

text \<open>A list of task states holds no event items.\<close>

lemma event_item_apart:
  assumes K: "kcore T E s G" and t: "t \<in> T" and l: "l \<in> state_lists s"
  shows "xEventListItem t \<notin> set (G l)"
proof
  note D = kcoreD [OF K]
  assume "xEventListItem t \<in> set (G l)"
  then have "pxContainer (kl s) (xEventListItem t) = l" using rings_container [OF D(1)] l by blast
  moreover have "l \<noteq> 0" using rings_D(1) [OF D(1)] l by auto
  ultimately show False using kcore_task(5) [OF K t] l D(2) unfolding layout_def by blast
qed

lemma delayed_in_state:
  assumes "kcore T E s G" "l \<in> {pxDelayedTaskList s, pxOverflowDelayedTaskList s}"
  shows "l \<in> state_lists s"
  using delayed_lists [OF assms(1)] assms(2) by auto

lemma set_event_value_kcore:
  assumes K: "kcore T E s G" and t: "t \<in> T"
  shows "kcore T E (set_event_value t v s) G" "kframe s (set_event_value t v s)"
    "pxContainer (kl (set_event_value t v s)) = pxContainer (kl s)"
    "xItemValue (kl (set_event_value t v s)) = (xItemValue (kl s))(xEventListItem t := v)"
proof -
  let ?s = "set_event_value t v s"
  have s: "?s = s\<lparr>kl := listSET_LIST_ITEM_VALUE (xEventListItem t) v (kl s), uxTopReadyPriority := uxTopReadyPriority s\<rparr>"
    by (simp add: set_event_value_def)
  then show f: "kframe s ?s" unfolding kframe_def by blast
  show c: "pxContainer (kl ?s) = pxContainer (kl s)" and x: "xItemValue (kl ?s) = (xItemValue (kl s))(xEventListItem t := v)"
    by (simp_all add: set_event_value_def listSET_LIST_ITEM_VALUE_def)
  have o: "pvOwner (kl ?s) = pvOwner (kl s)" "uxTopReadyPriority ?s = uxTopReadyPriority s"
    by (simp_all add: set_event_value_def listSET_LIST_ITEM_VALUE_def)
  note D = kcoreD [OF K]
  have "waiting_order ?s G l" if "waiting_order s G l" "l \<in> {pxDelayedTaskList s, pxOverflowDelayedTaskList s}" for l
  proof -
    have "map (xItemValue (kl ?s)) (G l) = map (xItemValue (kl s)) (G l)"
      using event_item_apart [OF K t delayed_in_state [OF K that(2)]] x by auto
    then show ?thesis using that(1) unfolding waiting_order_def by presburger
  qed
  moreover have "rings (state_lists s \<union> event_lists E s) (items T) (kl ?s) G"
    using rings_set_value [OF D(1) items_in(2) [OF t]] by (simp add: set_event_value_def)
  ultimately show "kcore T E ?s G"
    unfolding kcore_def kframe_fields [OF f] c o using D(2-6) kcore_task [OF K] by blast
qed

lemma set_priority_kcore:
  assumes K: "kcore T E s G" and t: "t \<in> T" "p < 8" "pxContainer (kl s) (xStateListItem t) \<notin> ready_lists s"
  shows "kcore T E (set_priority t p s) G"
proof -
  let ?s = "set_priority t p s"
  have f: "kl ?s = kl s" "state_lists ?s = state_lists s" "event_lists E ?s = event_lists E s" "ready_list ?s = ready_list s"
    "layout T E ?s = layout T E s" "uxTopReadyPriority ?s = uxTopReadyPriority s" "waiting_order ?s G = waiting_order s G"
    "pxDelayedTaskList ?s = pxDelayedTaskList s" "pxOverflowDelayedTaskList ?s = pxOverflowDelayedTaskList s"
    "xDelayedTaskList1 ?s = xDelayedTaskList1 s" "xDelayedTaskList2 ?s = xDelayedTaskList2 s"
    by (simp_all add: set_priority_def state_lists_def ready_lists_def ready_list_def event_lists_def layout_def waiting_order_def fun_eq_iff)
  have n: "pxContainer (kl s) (xStateListItem t) \<noteq> ready_list s q" if "q < 8" for q using t(3) that by (auto simp: ready_lists_def)
  note D = kcoreD [OF K]
  have "uxPriority ?s u < 8 \<and> pvOwner (kl s) (xStateListItem u) = u \<and> pvOwner (kl s) (xEventListItem u) = u \<and>
      pxContainer (kl s) (xStateListItem u) \<in> insert 0 (state_lists s) \<and> pxContainer (kl s) (xEventListItem u) \<in> insert 0 (event_lists E s) \<and>
      (\<forall>q < 8. pxContainer (kl s) (xStateListItem u) = ready_list s q \<longrightarrow> uxPriority ?s u = q)" if "u \<in> T" for u
    using kcore_task [OF K that] t(2) n by (auto simp: set_priority_def)
  then show ?thesis unfolding kcore_def f using D by blast
qed

text \<open>The three functions change a priority in the same way: a ready task moves to the ready list of its new priority.\<close>

definition reprioritise :: "u32 \<Rightarrow> u32 \<Rightarrow> u32 \<Rightarrow> kernel \<Rightarrow> kernel" where
  "reprioritise t p v s =
     (if task_ready s t then prvAddTaskToReadyList t (set_event_value t v (set_priority t p (leave_ready t s)))
      else set_event_value t v (set_priority t p s))"

lemma reprioritise_kcore:
  fixes v :: u32
  assumes K: "kcore T E s G" and t: "t \<in> T" "p < 8"
  defines "s' \<equiv> reprioritise t p v s"
  shows "\<exists>G'. kcore T E s' G' \<and> (\<forall>j. j \<notin> ready_lists s \<longrightarrow> G' j = G j)" (is ?core)
    and "kframe (set_priority t p s) s'" (is ?frame)
    and "xItemValue (kl s') = (xItemValue (kl s))(xEventListItem t := v)" (is ?val)
    and "\<forall>y \<in> items T. pxContainer (kl s') y = (if y = xStateListItem t \<and> task_ready s t then ready_list s p else pxContainer (kl s) y)" (is ?cont)
proof -
  let ?x = "xStateListItem t" and ?r = "ready_list s (uxPriority s t)"
  have rl: "ready_list (set_priority t p u) = ready_list u" for u by (simp add: set_priority_def ready_list_def fun_eq_iff)
  have up: "uxPriority (set_priority t p u) t = p" "kl (set_priority t p u) = kl u" for u by (simp_all add: set_priority_def)
  have "?core \<and> ?frame \<and> ?val \<and> ?cont"
  proof (cases "task_ready s t")
    case False
    then have "pxContainer (kl s) ?x \<notin> ready_lists s" using task_ready_in [OF K t(1)] by blast
    note V = set_event_value_kcore [OF set_priority_kcore [OF K t this] t(1), of v]
    show ?thesis using V False by (auto simp: s'_def reprioritise_def up)
  next
    case True
    have c: "pxContainer (kl s) ?x = ?r" using True by (simp add: task_ready_def)
    note A = leave_ready_kcore [OF K t(1) c]
    let ?s1 = "leave_ready t s"
    note F1 = kframe_fields [OF A(2)]
    have z: "pxContainer (kl ?s1) ?x = 0" using A(4) [OF items_in(1) [OF t(1)]] by simp
    have "0 \<notin> ready_lists ?s1" using rings_D(1) [OF kcoreD(1) [OF A(1)]] by (auto simp: state_lists_def)
    then have nr: "pxContainer (kl ?s1) ?x \<notin> ready_lists ?s1" using z by simp
    note B = set_event_value_kcore [OF set_priority_kcore [OF A(1) t nr] t(1), of v]
    let ?s2 = "set_event_value t v (set_priority t p ?s1)"
    note F2 = kframe_fields [OF B(2)]
    have z2: "pxContainer (kl ?s2) ?x = 0" using z by (simp add: B(3) up)
    note C = kcore_add_ready [OF B(1) t(1) z2]
    have pr: "uxPriority ?s2 t = p" "ready_list ?s2 = ready_list s" using F2(4,6) by (simp_all add: up rl F1)
    have s': "s' = prvAddTaskToReadyList t ?s2" using True by (simp add: s'_def reprioritise_def)
    obtain k1 w1 where "?s1 = s\<lparr>kl := k1, uxTopReadyPriority := w1\<rparr>" using A(2) unfolding kframe_def by blast
    then have "set_priority t p ?s1 = (set_priority t p s)\<lparr>kl := k1, uxTopReadyPriority := w1\<rparr>" by (simp add: set_priority_def)
    then have "kframe (set_priority t p s) (set_priority t p ?s1)" unfolding kframe_def by blast
    then have fr: ?frame unfolding s' by (rule kframe_trans [OF kframe_trans [OF _ B(2)] C(2)])
    have lr: "?r \<in> ready_lists s" "ready_list s p \<in> ready_lists s" using kcore_task(1) [OF K t(1)] t(2) by (simp_all add: ready_lists_def)
    have core: ?core using C(1) lr unfolding s' pr by (metis fun_upd_apply)
    have val: ?val unfolding s' using C(3) B(4) A(3) by (simp add: up)
    have "pxContainer (kl s') y = (if y = ?x then ready_list s p else pxContainer (kl s) y)" if "y \<in> items T" for y
      unfolding s' using C(4) [OF that] A(4) [OF that] by (simp add: pr B(3) up)
    then show ?thesis using core fr val True by simp
  qed
  then show ?core ?frame ?val ?cont by blast+
qed

text \<open>With the event value that belongs to the new priority, the invariant of waiting tasks holds again, and no task changes its status.\<close>

lemma reprioritise_waiting:
  assumes W: "waiting T E s G" and t: "t \<in> T" "p < 8" and free: "pxContainer (kl s) (xEventListItem t) \<notin> E"
  defines "s' \<equiv> reprioritise t p (8 - p) s"
  shows "\<exists>G'. waiting T E s' G'" "quiet T s \<Longrightarrow> quiet T s'"
    "\<And>u. u \<in> T \<Longrightarrow> status s' u = status s u" "\<And>l u. u \<in> T \<Longrightarrow> waits_in s' l u = waits_in s l u"
proof -
  note D = waitingD [OF W]
  note K = D(2)
  let ?x = "xStateListItem t" and ?e = "xEventListItem t"
  from reprioritise_kcore(1) [OF K t, of "8 - p", folded s'_def] obtain G' where
    G': "kcore T E s' G'" "\<And>j. j \<notin> ready_lists s \<Longrightarrow> G' j = G j" by blast
  note f = reprioritise_kcore(2) [OF K t, of "8 - p", folded s'_def] and val = reprioritise_kcore(3) [OF K t, of "8 - p", folded s'_def]
    and c = bspec [OF reprioritise_kcore(4) [OF K t, of "8 - p", folded s'_def]]
  have pr: "uxPriority (set_priority t p s) = (uxPriority s)(t := p)" "ready_list (set_priority t p s) = ready_list s"
    "ready_lists (set_priority t p s) = ready_lists s" "state_lists (set_priority t p s) = state_lists s"
    "\<And>A. event_lists A (set_priority t p s) = event_lists A s"
    by (simp_all add: set_priority_def state_lists_def ready_lists_def ready_list_def event_lists_def fun_eq_iff)
  note F = kframe_fields [OF f, unfolded pr]
  have px: "pxDelayedTaskList s' = pxDelayedTaskList s" "pxOverflowDelayedTaskList s' = pxOverflowDelayedTaskList s"
    "xTickCount s' = xTickCount s" "xNextTaskUnblockTime s' = xNextTaskUnblockTime s" "xPendingReadyList s' = xPendingReadyList s"
    "uxSchedulerSuspended s' = uxSchedulerSuspended s" "uxPendedTicks s' = uxPendedTicks s"
    using F by (simp_all add: set_priority_def)
  have ne: "xStateListItem u \<noteq> xEventListItem v" if "u \<in> T" "v \<in> T" for u v by (rule layout_items [OF kcoreD(2) [OF K] that])
  have ev: "pxContainer (kl s') (xEventListItem u) = pxContainer (kl s) (xEventListItem u)" if "u \<in> T" for u
    using c [OF items_in(2) [OF that]] ne [OF t(1) that] by auto
  have sv: "xItemValue (kl s') (xStateListItem u) = xItemValue (kl s) (xStateListItem u)" if "u \<in> T" for u
    using ne [OF that t(1)] by (simp add: val)
  have rd: "task_ready s' u = task_ready s u" if u: "u \<in> T" for u
  proof (cases "u = t")
    case True
    have "ready_list s p \<in> ready_lists s" using t(2) by (simp add: ready_lists_def)
    then show ?thesis using c [OF items_in(1) [OF u]] task_ready_in [OF K u] True by (auto simp: task_ready_def F)
  next
    case False
    then show ?thesis using c [OF items_in(1) [OF u]] by (simp add: task_ready_def F)
  qed
  show "quiet T s \<Longrightarrow> quiet T s'" using ev by (simp add: quiet_def px)
  show "\<And>l u. u \<in> T \<Longrightarrow> waits_in s' l u = waits_in s l u" using ev by (simp add: waits_in_def)
  show "status s' u = status s u" if u: "u \<in> T" for u
  proof (cases "task_ready s u")
    case False
    then have "pxContainer (kl s') (xStateListItem u) = pxContainer (kl s) (xStateListItem u)" using c [OF items_in(1) [OF u]] by auto
    then show ?thesis using rd [OF u] sv [OF u] by (simp add: status_def sleeping_def remaining_def px)
  qed (use rd [OF u] in \<open>simp add: status_def\<close>)
  have same: "xItemValue (kl s') y = xItemValue (kl s) y" if "y \<in> set (G j)" "j \<in> state_lists s \<union> E" for y j
  proof -
    have "y \<noteq> ?e"
    proof
      assume "y = ?e"
      moreover have "j \<in> state_lists s \<union> event_lists E s" using that(2) by (auto simp: event_lists_def)
      ultimately have "pxContainer (kl s) ?e = j" using rings_container [OF kcoreD(1) [OF K]] that(1) by blast
      then have "j \<in> state_lists s" using free that(2) by blast
      then show False using event_item_apart [OF K t(1)] that(1) \<open>y = ?e\<close> by blast
    qed
    then show ?thesis by (simp add: val)
  qed
  have dg: "j \<notin> ready_lists s" "j \<in> state_lists s" if "j \<in> {pxDelayedTaskList s, pxOverflowDelayedTaskList s}" for j
    using delayed_lists [OF K] that by auto
  have "ktime s' G'" using D(3) same dg G'(2) unfolding ktime_def px by simp
  moreover have "event_order T E s' G'"
  proof -
    have "waiting_order s' G' j" if j: "j \<in> E" for j
    proof -
      have g: "G' j = G j" using G'(2) state_event_apart(1) [OF K j] by (simp add: state_lists_def)
      have m: "map (xItemValue (kl s')) (G j) = map (xItemValue (kl s)) (G j)" using same j by auto
      show ?thesis unfolding waiting_order_def g m using D(4) j by (simp only: event_order_def waiting_order_def)
    qed
    moreover have "xItemValue (kl s') (xEventListItem u) = 8 - uxPriority s' u" if "u \<in> T" for u
      using D(4) that by (simp add: val F event_order_def)
    ultimately show ?thesis by (simp add: event_order_def)
  qed
  moreover have "pxContainer (kl s') (xStateListItem u) \<in> state_lists s' - ready_lists s'"
    if u: "u \<in> T" "pxContainer (kl s') (xEventListItem u) \<in> event_lists E s'" for u
  proof -
    have b: "pxContainer (kl s) (xStateListItem u) \<in> state_lists s - ready_lists s" using D(5) [OF u(1)] u(2) ev [OF u(1)] F by simp
    then have "\<not> task_ready s u" using task_ready_in [OF K u(1)] by blast
    then show ?thesis using b c [OF items_in(1) [OF u(1)]] by (auto simp: F)
  qed
  ultimately have "waiting T E s' G'" using G'(1) by (simp add: waiting_def kinv_def)
  then show "\<exists>G'. waiting T E s' G'" by blast
qed

text \<open>The functions are changes of priority.\<close>

lemma uxListRemove_value:
  "uxListRemove x (listSET_LIST_ITEM_VALUE y v k) = map_prod id (listSET_LIST_ITEM_VALUE y v) (uxListRemove x k)"
proof -
  have sets: "set_pxPrevious p w (listSET_LIST_ITEM_VALUE y v k) = listSET_LIST_ITEM_VALUE y v (set_pxPrevious p w k)"
    "set_pxNext p w (listSET_LIST_ITEM_VALUE y v k) = listSET_LIST_ITEM_VALUE y v (set_pxNext p w k)"
    "set_pxIndex p w (listSET_LIST_ITEM_VALUE y v k) = listSET_LIST_ITEM_VALUE y v (set_pxIndex p w k)"
    "set_pxContainer p w (listSET_LIST_ITEM_VALUE y v k) = listSET_LIST_ITEM_VALUE y v (set_pxContainer p w k)"
    "set_uxNumberOfItems p w (listSET_LIST_ITEM_VALUE y v k) = listSET_LIST_ITEM_VALUE y v (set_uxNumberOfItems p w k)"
    for p w k by (simp_all add: list_setters listSET_LIST_ITEM_VALUE_def)
  have reads: "pxContainer (listSET_LIST_ITEM_VALUE y v k) = pxContainer k" "pxNext (listSET_LIST_ITEM_VALUE y v k) = pxNext k"
    "pxPrevious (listSET_LIST_ITEM_VALUE y v k) = pxPrevious k" "pxIndex (listSET_LIST_ITEM_VALUE y v k) = pxIndex k"
    "uxNumberOfItems (listSET_LIST_ITEM_VALUE y v k) = uxNumberOfItems k" for k
    by (simp_all add: listSET_LIST_ITEM_VALUE_def)
  show ?thesis by (simp add: uxListRemove_def Let_def sets reads)
qed

lemma leave_ready_value: "leave_ready t (set_event_value t v s) = set_event_value t v (leave_ready t s)"
  by (simp add: leave_ready_def set_event_value_def uxListRemove_value map_prod_def case_prod_unfold Let_def portRESET_READY_PRIORITY_def)

lemma inherit_reprioritise:
  assumes W: "waiting T E s G" and h: "h \<in> T" "h \<noteq> 0" and c: "pxCurrentTCB s \<in> T"
  shows "xTaskPriorityInherit h s = (uxBasePriority s h < uxPriority s (pxCurrentTCB s) \<or> uxPriority s h < uxPriority s (pxCurrentTCB s),
    if uxPriority s h < uxPriority s (pxCurrentTCB s)
    then reprioritise h (uxPriority s (pxCurrentTCB s)) (8 - uxPriority s (pxCurrentTCB s)) s else s)"
proof (cases "uxPriority s h < uxPriority s (pxCurrentTCB s)")
  case True
  note D = waitingD [OF W]
  let ?p = "uxPriority s (pxCurrentTCB s)"
  let ?s1 = "set_event_value h (8 - ?p) s"
  have "xItemValue (kl s) (xEventListItem h) = 8 - uxPriority s h" using D(4) h(1) by (simp add: event_order_def)
  moreover have "(8 - q) AND 0x80000000 = 0" if "q < 8" for q :: u32
  proof -
    have "8 - q \<in> {1, 2, 3, 4, 5, 6, 7, 8}" using that by (simp add: word_less_nat_alt) (unat_arith)
    then show ?thesis by auto
  qed
  ultimately have e: "xItemValue (kl s) (xEventListItem h) AND 0x80000000 = 0" using kcore_task(1) [OF D(2) h(1)] by simp
  note V = set_event_value_kcore [OF D(2) h(1), of "8 - ?p"]
  note F = kframe_fields [OF V(2)]
  have rd: "task_ready ?s1 h = task_ready s h" by (simp add: task_ready_def V(3) F)
  have sp: "set_priority h ?p (set_event_value h v u) = set_event_value h v (set_priority h ?p u)" for v u
    by (simp add: set_priority_def set_event_value_def)
  show ?thesis
    using True h(2) e remove_from_ready_eq [OF V(1) h(1)] rd kframe_fields(6,7) [OF leave_ready_kcore(2) [OF V(1) h(1)]]
    by (simp add: xTaskPriorityInherit_def reprioritise_def Let_def F V(3) listIS_CONTAINED_WITHIN_def task_ready_def leave_ready_value sp)
qed (use h in \<open>simp add: xTaskPriorityInherit_def\<close>)

lemma waiting_held: "waiting T E (s\<lparr>uxMutexesHeld := f\<rparr>) G = waiting T E s G" "quiet T (s\<lparr>uxMutexesHeld := f\<rparr>) = quiet T s"
  "status (s\<lparr>uxMutexesHeld := f\<rparr>) = status s" "waits_in (s\<lparr>uxMutexesHeld := f\<rparr>) = waits_in s"
  "task_ready (s\<lparr>uxMutexesHeld := f\<rparr>) = task_ready s"
  by (simp_all add: waiting_def kinv_def kcore_def ktime_def layout_def state_lists_def event_lists_def ready_lists_def ready_list_def
      waiting_order_def event_order_def quiet_def status_def task_ready_def sleeping_def remaining_def waits_in_def fun_eq_iff)

lemma disinherit_reprioritise:
  fixes s h
  defines "s1 \<equiv> s\<lparr>uxMutexesHeld := (uxMutexesHeld s)(h := uxMutexesHeld s h - 1)\<rparr>"
  defines "r \<equiv> uxPriority s h \<noteq> uxBasePriority s h \<and> uxMutexesHeld s h = 1"
  assumes W: "waiting T E s G" and h: "h \<in> T" "h \<noteq> 0" and rd: "task_ready s h"
  shows "xTaskPriorityDisinherit h s = (r, if r then reprioritise h (uxBasePriority s h) (8 - uxBasePriority s h) s1 else s1)"
proof -
  have K: "kcore T E s1 G" by (rule waitingD(2)) (simp only: s1_def waiting_held W)
  have rd1: "task_ready s1 h" using rd by (simp add: s1_def waiting_held)
  have f: "uxBasePriority (leave_ready h s1) = uxBasePriority s" "uxPriority (leave_ready h s1) = uxPriority s"
    by (auto simp: leave_ready_def s1_def case_prod_unfold Let_def portRESET_READY_PRIORITY_def)
  have "uxMutexesHeld s h - 1 = 0 \<longleftrightarrow> uxMutexesHeld s h = 1" by (metis diff_eq_eq add_0)
  then show ?thesis
    using h(2) rd1 remove_from_ready_eq [OF K h(1) rd1]
    by (simp add: xTaskPriorityDisinherit_def reprioritise_def r_def s1_def [symmetric] Let_def f set_priority_def)
       (simp add: s1_def)
qed

end
