(* ===== verification/Heap4.thy ===== *)
theory Heap4
  imports Prelude
begin

unbundle bit_operations_syntax

text \<open>
  The allocator of the Non-secure guest's kernel, \<^verbatim>\<open>src/ns_guest/lib/freertos/heap_4.c\<close>: free blocks form a
  list in address order, allocation is first fit, freeing joins neighbours. The headers
  (\<open>BlockLink_t\<close>) are two maps from addresses; \<open>xStart\<close> and \<open>ucHeap\<close> are the addresses of the variables of
  these names. A loop that runs into the null pointer is \<open>None\<close>. The suspension of the scheduler around the
  operations makes them atomic and is left out, as are the assertions, which the configuration defines
  away; \<open>failed_hooks\<close> counts the calls of \<open>vApplicationMallocFailedHook\<close>.
\<close>

section \<open>The heap\<close>

abbreviation NULL :: u32 where "NULL \<equiv> 0"
abbreviation xHeapStructSize :: u32 where "xHeapStructSize \<equiv> 8"
abbreviation heapMINIMUM_BLOCK_SIZE :: u32 where "heapMINIMUM_BLOCK_SIZE \<equiv> 16"
abbreviation portBYTE_ALIGNMENT :: u32 where "portBYTE_ALIGNMENT \<equiv> 8"
abbreviation portBYTE_ALIGNMENT_MASK :: u32 where "portBYTE_ALIGNMENT_MASK \<equiv> 7"
abbreviation configTOTAL_HEAP_SIZE :: u32 where "configTOTAL_HEAP_SIZE \<equiv> 4194304"

record heap =
  pxNextFreeBlock :: "u32 \<Rightarrow> u32"
  xBlockSize :: "u32 \<Rightarrow> u32"
  pxEnd :: u32
  xFreeBytesRemaining :: u32
  xMinimumEverFreeBytesRemaining :: u32
  xBlockAllocatedBit :: u32
  failed_hooks :: nat

definition set_next :: "u32 \<Rightarrow> u32 \<Rightarrow> heap \<Rightarrow> heap" where
  "set_next p v h = h\<lparr>pxNextFreeBlock := (pxNextFreeBlock h)(p := v)\<rparr>"

definition set_size :: "u32 \<Rightarrow> u32 \<Rightarrow> heap \<Rightarrow> heap" where
  "set_size p v h = h\<lparr>xBlockSize := (xBlockSize h)(p := v)\<rparr>"

text \<open>The loop that looks for the position in address order, and the insertion with both joins.\<close>

partial_function (option) find_pos :: "u32 \<Rightarrow> u32 \<Rightarrow> heap \<Rightarrow> u32 option" where
  "find_pos pxBlockToInsert pxIterator h =
     (if pxIterator = NULL then None
      else if pxNextFreeBlock h pxIterator < pxBlockToInsert
      then find_pos pxBlockToInsert (pxNextFreeBlock h pxIterator) h
      else Some pxIterator)"

definition prvInsertBlockIntoFreeList :: "u32 \<Rightarrow> u32 \<Rightarrow> heap \<Rightarrow> heap option" where
  "prvInsertBlockIntoFreeList xStart pxBlockToInsert h =
     do { pxIterator \<leftarrow> find_pos pxBlockToInsert xStart h;
          let (blk, h) =
            (if pxIterator + xBlockSize h pxIterator = pxBlockToInsert
             then (pxIterator, set_size pxIterator (xBlockSize h pxIterator + xBlockSize h pxBlockToInsert) h)
             else (pxBlockToInsert, h));
          let h =
            (if blk + xBlockSize h blk = pxNextFreeBlock h pxIterator
             then if pxNextFreeBlock h pxIterator \<noteq> pxEnd h
                  then let h = set_size blk (xBlockSize h blk + xBlockSize h (pxNextFreeBlock h pxIterator)) h
                       in set_next blk (pxNextFreeBlock h (pxNextFreeBlock h pxIterator)) h
                  else set_next blk (pxEnd h) h
             else set_next blk (pxNextFreeBlock h pxIterator) h);
          Some (if pxIterator \<noteq> blk then set_next pxIterator blk h else h) }"

definition prvHeapInit :: "u32 \<Rightarrow> u32 \<Rightarrow> heap \<Rightarrow> heap" where
  "prvHeapInit xStart ucHeap h =
     (let xTotalHeapSize = configTOTAL_HEAP_SIZE;
          uxAddress = ucHeap;
          (uxAddress, xTotalHeapSize) =
            (if uxAddress AND portBYTE_ALIGNMENT_MASK \<noteq> 0
             then let uxAddress = uxAddress + (portBYTE_ALIGNMENT - 1);
                      uxAddress = uxAddress AND NOT portBYTE_ALIGNMENT_MASK
                  in (uxAddress, xTotalHeapSize - (uxAddress - ucHeap))
             else (uxAddress, xTotalHeapSize));
          pucAlignedHeap = uxAddress;
          h = set_next xStart pucAlignedHeap h;
          h = set_size xStart 0 h;
          uxAddress = pucAlignedHeap + xTotalHeapSize;
          uxAddress = uxAddress - xHeapStructSize;
          uxAddress = uxAddress AND NOT portBYTE_ALIGNMENT_MASK;
          h = h\<lparr>pxEnd := uxAddress\<rparr>;
          h = set_size (pxEnd h) 0 h;
          h = set_next (pxEnd h) NULL h;
          pxFirstFreeBlock = pucAlignedHeap;
          h = set_size pxFirstFreeBlock (uxAddress - pxFirstFreeBlock) h;
          h = set_next pxFirstFreeBlock (pxEnd h) h;
          h = h\<lparr>xMinimumEverFreeBytesRemaining := xBlockSize h pxFirstFreeBlock\<rparr>;
          h = h\<lparr>xFreeBytesRemaining := xBlockSize h pxFirstFreeBlock\<rparr>
      in h\<lparr>xBlockAllocatedBit := push_bit (4 * 8 - 1) 1\<rparr>)"

partial_function (option) find_block :: "u32 \<Rightarrow> u32 \<Rightarrow> u32 \<Rightarrow> heap \<Rightarrow> (u32 \<times> u32) option" where
  "find_block xWantedSize pxPreviousBlock pxBlock h =
     (if pxBlock = NULL then None
      else if xBlockSize h pxBlock < xWantedSize \<and> pxNextFreeBlock h pxBlock \<noteq> NULL
      then find_block xWantedSize pxBlock (pxNextFreeBlock h pxBlock) h
      else Some (pxPreviousBlock, pxBlock))"

text \<open>The wanted size with the header, rounded up to the alignment.\<close>

definition adjust_size :: "u32 \<Rightarrow> u32" where
  "adjust_size xWantedSize =
     (if xWantedSize > 0
      then let xWantedSize = xWantedSize + xHeapStructSize
           in if xWantedSize AND portBYTE_ALIGNMENT_MASK \<noteq> 0
              then xWantedSize + (portBYTE_ALIGNMENT - (xWantedSize AND portBYTE_ALIGNMENT_MASK))
              else xWantedSize
      else xWantedSize)"

text \<open>What happens to the block that was found.\<close>

definition take_block :: "u32 \<Rightarrow> u32 \<Rightarrow> u32 \<Rightarrow> u32 \<Rightarrow> heap \<Rightarrow> (u32 \<times> heap) option" where
  "take_block xStart xWantedSize pxPreviousBlock pxBlock h =
     do { let pvReturn = pxNextFreeBlock h pxPreviousBlock + xHeapStructSize;
          let h = set_next pxPreviousBlock (pxNextFreeBlock h pxBlock) h;
          h \<leftarrow> (if xBlockSize h pxBlock - xWantedSize > heapMINIMUM_BLOCK_SIZE
               then let pxNewBlockLink = pxBlock + xWantedSize;
                        h = set_size pxNewBlockLink (xBlockSize h pxBlock - xWantedSize) h;
                        h = set_size pxBlock xWantedSize h
                    in prvInsertBlockIntoFreeList xStart pxNewBlockLink h
               else Some h);
          let h = h\<lparr>xFreeBytesRemaining := xFreeBytesRemaining h - xBlockSize h pxBlock\<rparr>;
          let h = (if xFreeBytesRemaining h < xMinimumEverFreeBytesRemaining h
                   then h\<lparr>xMinimumEverFreeBytesRemaining := xFreeBytesRemaining h\<rparr> else h);
          let h = set_size pxBlock (xBlockSize h pxBlock OR xBlockAllocatedBit h) h;
          let h = set_next pxBlock NULL h;
          Some (pvReturn, h) }"

definition pvPortMalloc :: "u32 \<Rightarrow> u32 \<Rightarrow> u32 \<Rightarrow> heap \<Rightarrow> (u32 \<times> heap) option" where
  "pvPortMalloc xStart ucHeap xWantedSize h =
     do { let h = (if pxEnd h = NULL then prvHeapInit xStart ucHeap h else h);
          (pvReturn, h) \<leftarrow>
            (if xWantedSize AND xBlockAllocatedBit h = 0
             then let xWantedSize = adjust_size xWantedSize
                  in if xWantedSize > 0 \<and> xWantedSize \<le> xFreeBytesRemaining h
                     then do { (pxPreviousBlock, pxBlock) \<leftarrow> find_block xWantedSize xStart (pxNextFreeBlock h xStart) h;
                               if pxBlock \<noteq> pxEnd h
                               then take_block xStart xWantedSize pxPreviousBlock pxBlock h
                               else Some (NULL, h) }
                     else Some (NULL, h)
             else Some (NULL, h));
          let h = (if pvReturn = NULL then h\<lparr>failed_hooks := Suc (failed_hooks h)\<rparr> else h);
          Some (pvReturn, h) }"

definition vPortFree :: "u32 \<Rightarrow> u32 \<Rightarrow> heap \<Rightarrow> heap option" where
  "vPortFree xStart pv h =
     (if pv \<noteq> NULL
      then let puc = pv - xHeapStructSize; pxLink = puc
           in if xBlockSize h pxLink AND xBlockAllocatedBit h \<noteq> 0
              then if pxNextFreeBlock h pxLink = NULL
                   then let h = set_size pxLink (xBlockSize h pxLink AND NOT (xBlockAllocatedBit h)) h;
                            h = h\<lparr>xFreeBytesRemaining := xFreeBytesRemaining h + xBlockSize h pxLink\<rparr>
                        in prvInsertBlockIntoFreeList xStart pxLink h
                   else Some h
              else Some h
      else Some h)"

definition xPortGetFreeHeapSize :: "heap \<Rightarrow> u32" where
  "xPortGetFreeHeapSize h = xFreeBytesRemaining h"

definition xPortGetMinimumEverFreeHeapSize :: "heap \<Rightarrow> u32" where
  "xPortGetMinimumEverFreeHeapSize h = xMinimumEverFreeBytesRemaining h"

lemma set_next_simps [simp]:
  "pxNextFreeBlock (set_next p v h) = (pxNextFreeBlock h)(p := v)" "xBlockSize (set_next p v h) = xBlockSize h"
  "pxEnd (set_next p v h) = pxEnd h" "xFreeBytesRemaining (set_next p v h) = xFreeBytesRemaining h"
  "xMinimumEverFreeBytesRemaining (set_next p v h) = xMinimumEverFreeBytesRemaining h"
  "xBlockAllocatedBit (set_next p v h) = xBlockAllocatedBit h" "failed_hooks (set_next p v h) = failed_hooks h"
  by (simp_all add: set_next_def)

lemma set_size_simps [simp]:
  "xBlockSize (set_size p v h) = (xBlockSize h)(p := v)" "pxNextFreeBlock (set_size p v h) = pxNextFreeBlock h"
  "pxEnd (set_size p v h) = pxEnd h" "xFreeBytesRemaining (set_size p v h) = xFreeBytesRemaining h"
  "xMinimumEverFreeBytesRemaining (set_size p v h) = xMinimumEverFreeBytesRemaining h"
  "xBlockAllocatedBit (set_size p v h) = xBlockAllocatedBit h" "failed_hooks (set_size p v h) = failed_hooks h"
  by (simp_all add: set_size_def)

section \<open>The free list\<close>

text \<open>From the header \<open>p\<close> the links lead through the blocks of \<open>F\<close>, given by address and size, to \<open>e\<close>.\<close>

fun chain :: "heap \<Rightarrow> u32 \<Rightarrow> (u32 \<times> u32) list \<Rightarrow> u32 \<Rightarrow> bool" where
  "chain h p [] e \<longleftrightarrow> pxNextFreeBlock h p = e"
| "chain h p ((a, n) # F) e \<longleftrightarrow> pxNextFreeBlock h p = a \<and> xBlockSize h a = n \<and> chain h a F e"

definition addrs :: "(u32 \<times> u32) list \<Rightarrow> u32 set" where
  "addrs F = fst ` set F"

lemma addrs_simps [simp]:
  "addrs [] = {}" "addrs ((a, n) # F) = insert a (addrs F)" "addrs (F @ G) = addrs F \<union> addrs G"
  by (auto simp: addrs_def)

definition node_of :: "u32 \<Rightarrow> (u32 \<times> u32) list \<Rightarrow> u32" where
  "node_of p F = (if F = [] then p else fst (last F))"

lemma node_of_simps [simp]: "node_of p [] = p" "node_of p ((a, n) # F) = node_of a F" "node_of p (F @ [(a, n)]) = a"
  by (simp_all add: node_of_def)

definition first_of :: "(u32 \<times> u32) list \<Rightarrow> u32 \<Rightarrow> u32" where
  "first_of F e = (if F = [] then e else fst (hd F))"

lemma first_of_simps [simp]: "first_of [] e = e" "first_of ((a, n) # F) e = a"
  by (simp_all add: first_of_def)

lemma chain_append:
  "chain h p (F @ G) e \<longleftrightarrow> chain h p F (first_of G e) \<and>
     (G = [] \<or> (xBlockSize h (fst (hd G)) = snd (hd G) \<and> chain h (fst (hd G)) (tl G) e))"
proof (induction F arbitrary: p)
  case Nil
  show ?case by (cases G) auto
qed auto

lemma chain_appendI:
  "chain h p F b \<Longrightarrow> chain h b (tl G) e \<Longrightarrow> xBlockSize h b = snd (hd G) \<Longrightarrow> fst (hd G) = b \<Longrightarrow> G \<noteq> [] \<Longrightarrow> chain h p (F @ G) e"
  by (simp add: chain_append first_of_def)

lemma chain_cong:
  assumes "\<And>q. q \<in> insert p (addrs F) \<Longrightarrow> pxNextFreeBlock h' q = pxNextFreeBlock h q"
    and "\<And>q. q \<in> addrs F \<Longrightarrow> xBlockSize h' q = xBlockSize h q"
  shows "chain h' p F e = chain h p F e"
  using assms by (induction F arbitrary: p) auto

lemma chain_start:
  assumes "pxNextFreeBlock h' p' = pxNextFreeBlock h p"
    and "\<And>q. q \<in> addrs F \<Longrightarrow> pxNextFreeBlock h' q = pxNextFreeBlock h q \<and> xBlockSize h' q = xBlockSize h q"
  shows "chain h' p' F e = chain h p F e"
proof (cases F)
  case (Cons f F')
  moreover have "chain h' (fst f) F' e = chain h (fst f) F' e"
    using assms(2) by (intro chain_cong) (auto simp: Cons addrs_def)
  ultimately show ?thesis using assms by (cases f) (auto simp: addrs_def)
qed (use assms in simp)

lemma chain_end: "chain h p F e \<Longrightarrow> pxNextFreeBlock h (node_of p F) = e"
  by (induction F arbitrary: p) auto

text \<open>Replacing the link of the last block.\<close>

lemma chain_relink:
  assumes "chain h p F e" "distinct (p # map fst F)"
    and "\<And>q. q \<in> insert p (addrs F) \<Longrightarrow> q \<noteq> node_of p F \<Longrightarrow> pxNextFreeBlock h' q = pxNextFreeBlock h q"
    and "\<And>q. q \<in> addrs F \<Longrightarrow> xBlockSize h' q = xBlockSize h q"
    and "pxNextFreeBlock h' (node_of p F) = e'"
  shows "chain h' p F e'"
  using assms
proof (induction F arbitrary: p)
  case (Cons f F)
  obtain a n where f: "f = (a, n)" by (cases f)
  have "node_of a F \<noteq> p" using Cons.prems(2) by (cases F rule: rev_cases) (auto simp: node_of_def f)
  moreover have "chain h' a F e'"
    using Cons.prems by (intro Cons.IH) (auto simp: f)
  ultimately show ?case using Cons.prems(1,3,4) by (simp add: f)
qed simp

text \<open>The position found is the last block below the new one.\<close>

lemma find_pos_chain:
  assumes "chain h p F (first_of G e)" "p \<noteq> NULL" "NULL \<notin> addrs F" "\<forall>a\<in>addrs F. a < b" "\<not> first_of G e < b"
  shows "find_pos b p h = Some (node_of p F)"
  using assms
proof (induction F arbitrary: p)
  case Nil
  then show ?case by (subst find_pos.simps) simp
next
  case (Cons f F)
  then show ?case by (cases f) (subst find_pos.simps, auto)
qed

text \<open>The insertion on lists: join with the block in front and with the block behind.\<close>

definition join_left :: "(u32 \<times> u32) list \<Rightarrow> u32 \<Rightarrow> u32 \<Rightarrow> (u32 \<times> u32) list \<times> u32 \<times> u32" where
  "join_left F b n =
     (if F \<noteq> [] \<and> fst (last F) + snd (last F) = b then (butlast F, fst (last F), snd (last F) + n) else (F, b, n))"

definition join_right :: "u32 \<Rightarrow> u32 \<Rightarrow> (u32 \<times> u32) list \<Rightarrow> (u32 \<times> u32) list" where
  "join_right b n G = (if G \<noteq> [] \<and> b + n = fst (hd G) then (b, n + snd (hd G)) # tl G else (b, n) # G)"

definition free_insert :: "(u32 \<times> u32) list \<Rightarrow> u32 \<Rightarrow> u32 \<Rightarrow> (u32 \<times> u32) list \<Rightarrow> (u32 \<times> u32) list" where
  "free_insert F b n G = (let (F', b', n') = join_left F b n in F' @ join_right b' n' G)"

text \<open>\<open>h'\<close> differs from \<open>h\<close> only in links and sizes of the given headers.\<close>

definition same_but :: "u32 set \<Rightarrow> heap \<Rightarrow> heap \<Rightarrow> bool" where
  "same_but A h h' \<longleftrightarrow>
     (\<forall>p. p \<notin> A \<longrightarrow> pxNextFreeBlock h' p = pxNextFreeBlock h p \<and> xBlockSize h' p = xBlockSize h p) \<and>
     pxEnd h' = pxEnd h \<and> xFreeBytesRemaining h' = xFreeBytesRemaining h \<and>
     xMinimumEverFreeBytesRemaining h' = xMinimumEverFreeBytesRemaining h \<and>
     xBlockAllocatedBit h' = xBlockAllocatedBit h \<and> failed_hooks h' = failed_hooks h"

text \<open>The second half of the insertion: \<open>blk\<close>, of size \<open>n\<close>, is linked between \<open>it\<close> and what follows.\<close>

definition link_block :: "u32 \<Rightarrow> u32 \<Rightarrow> heap \<Rightarrow> heap" where
  "link_block it blk h =
     (let h = (if blk + xBlockSize h blk = pxNextFreeBlock h it
               then if pxNextFreeBlock h it \<noteq> pxEnd h
                    then let h = set_size blk (xBlockSize h blk + xBlockSize h (pxNextFreeBlock h it)) h
                         in set_next blk (pxNextFreeBlock h (pxNextFreeBlock h it)) h
                    else set_next blk (pxEnd h) h
               else set_next blk (pxNextFreeBlock h it) h)
      in if it \<noteq> blk then set_next it blk h else h)"

lemma prvInsert_link:
  "find_pos b xStart h = Some it \<Longrightarrow> prvInsertBlockIntoFreeList xStart b h = Some
     (if it + xBlockSize h it = b then link_block it it (set_size it (xBlockSize h it + xBlockSize h b) h)
      else link_block it b h)"
  by (simp add: prvInsertBlockIntoFreeList_def link_block_def Let_def)

lemma link_block_right:
  assumes "pxNextFreeBlock h it = first_of G e" "G \<noteq> [] \<longrightarrow> xBlockSize h (fst (hd G)) = snd (hd G) \<and> chain h (fst (hd G)) (tl G) e"
    and "pxEnd h = e" "e \<notin> addrs G" "distinct (map fst G)" "it \<notin> addrs G" "blk \<notin> addrs G"
  shows "chain (link_block it blk h) blk (tl (join_right blk (xBlockSize h blk) G)) e"
    and "xBlockSize (link_block it blk h) blk = snd (hd (join_right blk (xBlockSize h blk) G))"
    and "it \<noteq> blk \<Longrightarrow> pxNextFreeBlock (link_block it blk h) it = blk"
    and "same_but {it, blk} h (link_block it blk h)"
    and "xBlockSize (link_block it blk h) it = xBlockSize h it \<or> it = blk"
proof -
  show "chain (link_block it blk h) blk (tl (join_right blk (xBlockSize h blk) G)) e"
  proof (cases G)
    case Nil
    with assms(1,3) show ?thesis by (auto simp: link_block_def join_right_def Let_def)
  next
    case (Cons g G')
    obtain c k where g: "g = (c, k)" by (cases g)
    have c: "xBlockSize h c = k" "chain h c G' e" "pxNextFreeBlock h it = c" "c \<noteq> e" "it \<noteq> c" "blk \<noteq> c"
      using assms by (auto simp: Cons g)
    have d: "it \<notin> addrs G'" "blk \<notin> addrs G'" "c \<notin> addrs G'" using assms(5-7) by (auto simp: Cons g addrs_def)
    have same: "pxNextFreeBlock (link_block it blk h) q = pxNextFreeBlock h q \<and>
        xBlockSize (link_block it blk h) q = xBlockSize h q" if "q \<in> insert c (addrs G')" for q
    proof -
      have "q \<noteq> it" "q \<noteq> blk" using that c d by auto
      then show ?thesis by (simp add: link_block_def Let_def)
    qed
    show ?thesis
    proof (cases "blk + xBlockSize h blk = c")
      case True
      have "pxNextFreeBlock (link_block it blk h) blk = pxNextFreeBlock h c"
        using True c assms(3) by (simp add: link_block_def Let_def)
      then have "chain (link_block it blk h) blk G' e"
        using d same c(2) by (subst chain_start [where h = h and p = c]) auto
      with True show ?thesis by (simp add: join_right_def Cons g)
    next
      case False
      have "chain (link_block it blk h) c G' e"
        using c d same by (subst chain_start [where h = h and p = c]) auto
      moreover have "pxNextFreeBlock (link_block it blk h) blk = c" "xBlockSize (link_block it blk h) c = k"
        using False c by (simp_all add: link_block_def Let_def)
      ultimately show ?thesis using False by (simp add: join_right_def Cons g)
    qed
  qed
  show "xBlockSize (link_block it blk h) blk = snd (hd (join_right blk (xBlockSize h blk) G))"
  proof (cases G)
    case Nil
    with assms(1,3) show ?thesis by (auto simp: link_block_def join_right_def Let_def)
  next
    case (Cons g G')
    with assms show ?thesis by (cases g) (auto simp: link_block_def join_right_def Let_def)
  qed
qed (use assms in \<open>auto simp: link_block_def same_but_def Let_def first_of_def\<close>)

text \<open>The insertion on the heap is the insertion on lists; nothing but the links and sizes of the list and
  of the new block changes.\<close>

lemma insert_chain:
  assumes ch: "chain h xStart (F @ G) e" and d: "distinct (xStart # map fst (F @ G))"
    and b: "xBlockSize h b = n" "b \<notin> insert xStart (addrs (F @ G))"
    and ord: "\<forall>a\<in>addrs F. a < b" "b \<le> first_of G e"
    and z: "xStart \<noteq> NULL" "NULL \<notin> addrs F" "xBlockSize h xStart = 0"
    and e: "pxEnd h = e" "e \<notin> insert xStart (addrs (F @ G))" "e \<noteq> b"
  shows "\<exists>h'. prvInsertBlockIntoFreeList xStart b h = Some h' \<and> chain h' xStart (free_insert F b n G) e \<and>
    same_but (insert b (insert xStart (addrs (F @ G)))) h h' \<and> xBlockSize h' xStart = 0"
proof -
  define it where "it = node_of xStart F"
  have F: "chain h xStart F (first_of G e)" and G: "G \<noteq> [] \<longrightarrow> xBlockSize h (fst (hd G)) = snd (hd G) \<and> chain h (fst (hd G)) (tl G) e"
    using ch by (auto simp: chain_append)
  have pos: "find_pos b xStart h = Some it"
    unfolding it_def using F z ord by (intro find_pos_chain [where G = G and e = e]) auto
  have it: "pxNextFreeBlock h it = first_of G e" unfolding it_def using F by (rule chain_end)
  have itG: "it \<notin> addrs G" "it \<noteq> b" "it \<in> insert xStart (addrs F)"
    using d b by (cases F rule: rev_cases; force simp: it_def node_of_def addrs_def)+
  have dF: "distinct (xStart # map fst F)" and dG: "distinct (map fst G)" and eG: "e \<notin> addrs G" using d e by auto
  show ?thesis
  proof (cases "it + xBlockSize h it = b")
    case True
    then have "F \<noteq> []" using z(3) itG b by (auto simp: it_def)
    then obtain F' a m where Fa: "F = F' @ [(a, m)]" by (metis prod.exhaust rev_exhaust)
    then have a: "it = a" "xBlockSize h a = m" "chain h xStart F' a" "a \<noteq> xStart" "a \<notin> addrs F'"
      using F dF by (auto simp: it_def chain_append addrs_def)
    let ?h = "set_size it (m + n) h"
    let ?h' = "link_block it it ?h"
    have G': "xBlockSize ?h (fst (hd G)) = snd (hd G) \<and> chain ?h (fst (hd G)) (tl G) e" if "G \<noteq> []"
    proof -
      have "it \<notin> insert (fst (hd G)) (addrs (tl G))" using that itG(1) by (cases G) auto
      then show ?thesis using G that by (subst chain_cong [of _ _ _ h]) auto
    qed
    note L = link_block_right [of ?h it G e it, OF _ impI [OF G']]
    have sb: "same_but {it} ?h ?h'" using L(4) it e eG dG itG(1) by simp
    have "chain ?h' xStart F' a"
      using a sb by (subst chain_cong [of _ _ _ h]) (auto simp: same_but_def)
    moreover have "chain ?h' a (tl (join_right a (m + n) G)) e" "xBlockSize ?h' a = snd (hd (join_right a (m + n) G))"
      using L(1,2) it e eG dG itG(1) by (simp_all add: a)
    moreover have "fst (hd (join_right a (m + n) G)) = a" "join_right a (m + n) G \<noteq> []"
      by (simp_all add: join_right_def)
    moreover have "free_insert F b n G = F' @ join_right a (m + n) G"
      using True by (simp add: free_insert_def join_left_def Fa a)
    ultimately have "chain ?h' xStart (free_insert F b n G) e"
      by (metis chain_appendI)
    moreover have "same_but (insert b (insert xStart (addrs (F @ G)))) h ?h'"
      using sb by (auto simp: same_but_def Fa a)
    moreover have "xBlockSize ?h' xStart = 0" using sb a z(3) by (auto simp: same_but_def)
    ultimately show ?thesis using True a by (simp add: prvInsert_link [OF pos] b(1))
  next
    case False
    let ?h' = "link_block it b h"
    have bG: "b \<notin> addrs G" using b(2) by simp
    note L = link_block_right [of h it G e b, OF it G e(1) eG dG itG(1) bG]
    have sb: "same_but {it, b} h ?h'" using L(4) .
    have "chain ?h' xStart F b"
    proof (rule chain_relink [OF F dF])
      show "pxNextFreeBlock ?h' (node_of xStart F) = b" using L(3) itG(2) by (simp add: it_def)
      show "pxNextFreeBlock ?h' q = pxNextFreeBlock h q" if "q \<in> insert xStart (addrs F)" "q \<noteq> node_of xStart F" for q
        using sb that b(2) by (auto simp: same_but_def it_def)
      show "xBlockSize ?h' q = xBlockSize h q" if "q \<in> addrs F" for q
      proof (cases "q = it")
        case False
        moreover have "q \<noteq> b" using that b(2) by auto
        ultimately show ?thesis using sb by (simp add: same_but_def)
      qed (use L(5) itG(2) in simp)
    qed
    moreover have "chain ?h' b (tl (join_right b n G)) e" "xBlockSize ?h' b = snd (hd (join_right b n G))"
      using L(1,2) b(1) by simp_all
    moreover have "fst (hd (join_right b n G)) = b" "join_right b n G \<noteq> []"
      by (simp_all add: join_right_def)
    moreover have "free_insert F b n G = F @ join_right b n G"
    proof -
      have "fst (last F) + snd (last F) \<noteq> b" if "F \<noteq> []"
        using that False F by (cases F rule: rev_cases) (auto simp: it_def chain_append)
      then show ?thesis by (auto simp: free_insert_def join_left_def)
    qed
    ultimately have "chain ?h' xStart (free_insert F b n G) e"
      by (metis chain_appendI)
    moreover have "same_but (insert b (insert xStart (addrs (F @ G)))) h ?h'"
      using sb itG(3) by (auto simp: same_but_def)
    moreover have "xBlockSize ?h' xStart = 0"
    proof (cases "xStart = it")
      case False
      moreover have "xStart \<noteq> b" using b(2) by auto
      ultimately show ?thesis using sb z(3) by (simp add: same_but_def)
    qed (use L(5) itG(2) z(3) in simp)
    ultimately show ?thesis using False by (simp add: prvInsert_link [OF pos])
  qed
qed

section \<open>Layouts\<close>

text \<open>The heap as a sequence of blocks with address, size and a mark for those in use. It tiles the memory
  from \<open>a\<close> to \<open>e\<close> with blocks of at least 16 bytes in multiples of eight.\<close>

type_synonym layout = "(u32 \<times> u32 \<times> bool) list"

fun tiles :: "u32 \<Rightarrow> layout \<Rightarrow> u32 \<Rightarrow> bool" where
  "tiles a [] e \<longleftrightarrow> a = e"
| "tiles a ((b, n, u) # L) e \<longleftrightarrow>
     b = a \<and> unat a + unat n < 2 ^ 32 \<and> 16 \<le> unat n \<and> 8 dvd unat n \<and> tiles (a + n) L e"

fun frees :: "layout \<Rightarrow> (u32 \<times> u32) list" where
  "frees [] = []"
| "frees ((a, n, u) # L) = (if u then frees L else (a, n) # frees L)"

fun coalesced :: "layout \<Rightarrow> bool" where
  "coalesced ((a, n, u) # (b, m, v) # L) \<longleftrightarrow> (u \<or> v) \<and> coalesced ((b, m, v) # L)"
| "coalesced _ \<longleftrightarrow> True"

definition free_total :: "layout \<Rightarrow> nat" where
  "free_total L = sum_list (map (unat \<circ> snd) (frees L))"

text \<open>Allocation and release on layouts: first fit, splitting off what is more than 16 bytes too long;
  and marking the block free, then joining all neighbouring free blocks.\<close>

definition carve :: "u32 \<Rightarrow> u32 \<Rightarrow> u32 \<Rightarrow> layout" where
  "carve a n w = (if n - w > 16 then [(a, w, True), (a + w, n - w, False)] else [(a, n, True)])"

fun alloc :: "u32 \<Rightarrow> layout \<Rightarrow> (u32 \<times> layout) option" where
  "alloc w [] = None"
| "alloc w ((a, n, u) # L) =
     (if \<not> u \<and> w \<le> n then Some (a, carve a n w @ L)
      else map_option (\<lambda>(b, L'). (b, (a, n, u) # L')) (alloc w L))"

fun coalesce :: "layout \<Rightarrow> layout" where
  "coalesce ((a, n, u) # (b, m, v) # L) =
     (if \<not> u \<and> \<not> v then coalesce ((a, n + m, False) # L) else (a, n, u) # coalesce ((b, m, v) # L))"
| "coalesce L = L"

definition release :: "u32 \<Rightarrow> layout \<Rightarrow> layout" where
  "release p L = coalesce (map (\<lambda>(a, n, u). (a, n, u \<and> a \<noteq> p)) L)"

lemma frees_append [simp]: "frees (L @ M) = frees L @ frees M"
  by (induction L rule: frees.induct) auto

lemma set_frees: "(a, n) \<in> set (frees L) \<longleftrightarrow> (a, n, False) \<in> set L"
  by (induction L rule: frees.induct) auto

lemma addrs_frees: "addrs (frees L) \<subseteq> fst ` set L"
proof
  fix a assume "a \<in> addrs (frees L)"
  then obtain n where "(a, n) \<in> set (frees L)" by (auto simp: addrs_def)
  then show "a \<in> fst ` set L" by (force simp: set_frees)
qed

lemma tiles_append: "tiles a (L @ M) e \<longleftrightarrow> (\<exists>m. tiles a L m \<and> tiles m M e)"
  by (induction a L e rule: tiles.induct) auto

lemma word_add_less: "unat a + unat n < 2 ^ 32 \<Longrightarrow> unat (a + n) = unat a + unat n" for a n :: u32
  by (simp add: unat_add_lem [THEN iffD1])

lemma tiles_le: "tiles a L e \<Longrightarrow> unat a \<le> unat e"
proof (induction L arbitrary: a)
  case (Cons x L)
  then show ?case using Cons.IH [of "a + fst (snd x)"] by (cases x) (auto simp: word_add_less)
qed simp

lemma tiles_block:
  "tiles a L e \<Longrightarrow> (b, n, u) \<in> set L \<Longrightarrow>
    unat a \<le> unat b \<and> unat b + unat n \<le> unat e \<and> 16 \<le> unat n \<and> unat (b + n) = unat b + unat n"
proof (induction L arbitrary: a)
  case (Cons x L)
  obtain c k v where x: "x = (c, k, v)" by (cases x)
  have t: "tiles (a + k) L e" "unat (a + k) = unat a + unat k" "16 \<le> unat k" "c = a"
    using Cons.prems(1) by (auto simp: x word_add_less)
  show ?case
  proof (cases "(b, n, u) = x")
    case True
    then show ?thesis using t tiles_le [OF t(1)] by (simp add: x)
  next
    case False
    then show ?thesis using Cons.IH [OF t(1)] Cons.prems(2) t(2) by auto
  qed
qed simp

lemma tiles_addrs: "tiles a L e \<Longrightarrow> b \<in> fst ` set L \<Longrightarrow> a \<le> b \<and> b < e"
proof -
  assume t: "tiles a L e" "b \<in> fst ` set L"
  then obtain n u where "(b, n, u) \<in> set L" by auto
  from tiles_block [OF t(1) this] show ?thesis by (simp add: word_le_nat_alt word_less_nat_alt)
qed

lemma tiles_distinct: "tiles a L e \<Longrightarrow> distinct (map fst L) \<and> e \<notin> fst ` set L"
proof (induction L arbitrary: a)
  case (Cons x L)
  obtain c k v where x: "x = (c, k, v)" by (cases x)
  with Cons.prems have t: "tiles (a + k) L e" "unat (a + k) = unat a + unat k" "16 \<le> unat k" "c = a"
    by (auto simp: word_add_less)
  then have "a \<notin> fst ` set L" using tiles_addrs [OF t(1)] by (fastforce simp: word_le_nat_alt)
  moreover have "a \<noteq> e" using t tiles_le [OF t(1)] by auto
  ultimately show ?case using Cons.IH [OF t(1)] by (auto simp: x t(4))
qed simp

lemma coalesced_append:
  "coalesced (L @ M) \<longleftrightarrow> coalesced L \<and> coalesced M \<and>
     (L = [] \<or> M = [] \<or> snd (snd (last L)) \<or> snd (snd (hd M)))"
proof (induction L rule: coalesced.induct, goal_cases)
  case (3 v)
  then show ?case by (cases v; cases M) auto
qed auto

lemma coalesce_id: "coalesced L \<Longrightarrow> coalesce L = L"
  by (induction L rule: coalesced.induct) auto

lemma coalesce_Nil: "coalesce L = [] \<longleftrightarrow> L = []"
  by (induction L rule: coalesce.induct) auto

lemma coalesce_prefix:
  "coalesced L \<Longrightarrow> L = [] \<or> snd (snd (last L)) \<Longrightarrow> coalesce (L @ M) = L @ coalesce M"
proof (induction L rule: coalesced.induct, goal_cases)
  case (3 v)
  then show ?case by (cases v; cases M) auto
qed auto

lemma coalesced_coalesce: "coalesced (coalesce L)"
proof -
  have "coalesced (coalesce L) \<and> (\<forall>a n u M. L = (a, n, u) # M \<longrightarrow> (\<exists>n' M'. coalesce L = (a, n', u) # M'))"
  proof (induction L rule: coalesce.induct)
    case (1 a n u b m v L)
    then show ?case by (cases "\<not> u \<and> \<not> v") (fastforce)+
  qed auto
  then show ?thesis ..
qed

lemma tiles_coalesce: "tiles a L e \<Longrightarrow> tiles a (coalesce L) e"
proof (induction L arbitrary: a rule: coalesce.induct)
  case (1 b n u c m v L)
  show ?case
  proof (cases "\<not> u \<and> \<not> v")
    case True
    have "unat (n + m) = unat n + unat m" using "1.prems" word_add_less [of b n] by (auto intro!: word_add_less)
    then show ?thesis using True "1.prems" "1.IH"(1) [OF True] by (auto simp: add.assoc word_add_less)
  next
    case False
    then show ?thesis using "1.prems" "1.IH"(2) by auto
  qed
qed auto

lemma used_coalesce: "(a, n, True) \<in> set (coalesce L) \<longleftrightarrow> (a, n, True) \<in> set L"
  by (induction L rule: coalesce.induct) auto

text \<open>Where a block is marked, and what coalescing then does around it.\<close>

lemma release_mark:
  assumes "distinct (map fst (L1 @ (b, n, u) # L2))"
  shows "release b (L1 @ (b, n, u) # L2) = coalesce (L1 @ (b, n, False) # L2)"
proof -
  have m: "map (\<lambda>(a, n, u). (a, n, u \<and> a \<noteq> b)) L = L" if "b \<notin> fst ` set L" for L
    using that by (induction L) auto
  have "b \<notin> fst ` set L1" "b \<notin> fst ` set L2" using assms by auto
  then show ?thesis by (simp add: release_def m)
qed

lemma frees_coalesce_right:
  assumes "coalesced L2" "tiles (b + n) L2 e" "unat n > 0"
  shows "frees (coalesce ((b, n, False) # L2)) = join_right b n (frees L2)"
proof (cases L2)
  case Nil
  then show ?thesis by (simp add: join_right_def)
next
  case (Cons x L)
  obtain c k v where x: "x = (c, k, v)" by (cases x)
  with assms have c: "c = b + n" "tiles (b + n + k) L e" "unat (b + n + k) = unat (b + n) + unat k" "16 \<le> unat k"
    by (auto simp: Cons word_add_less)
  show ?thesis
  proof (cases v)
    case True
    have "\<forall>a\<in>addrs (frees L). a \<noteq> b + n"
      using addrs_frees [of L] tiles_addrs [OF c(2)] c(3,4) by (fastforce simp: word_le_nat_alt)
    then have "frees L = [] \<or> b + n \<noteq> fst (hd (frees L))" by (cases "frees L") auto
    then show ?thesis using True assms(1) by (auto simp: Cons x join_right_def coalesce_id)
  next
    case False
    then have "coalesce ((b, n + k, False) # L) = (b, n + k, False) # L"
      using assms(1) by (intro coalesce_id) (cases L; auto simp: Cons x)
    then show ?thesis using False c(1) by (simp add: Cons x join_right_def)
  qed
qed

lemma frees_below: "tiles a L e \<Longrightarrow> (b, n) \<in> set (frees L) \<Longrightarrow> unat (b + n) \<le> unat e \<and> unat (b + n) = unat b + unat n"
  using tiles_block [of a L e b n False] by (simp add: set_frees)

lemma frees_release:
  assumes co: "coalesced (L1 @ (b, n, True) # L2)" and t: "tiles a (L1 @ (b, n, True) # L2) e"
  shows "frees (coalesce (L1 @ (b, n, False) # L2)) = free_insert (frees L1) b n (frees L2)"
proof -
  have L: "tiles a L1 b" "tiles (b + n) L2 e" "16 \<le> unat n" "unat (b + n) = unat b + unat n"
    using t by (auto simp: tiles_append word_add_less)
  have co12: "coalesced L1" "coalesced L2"
    using co coalesced_append [of "[(b, n, True)]" L2] by (auto simp: coalesced_append)
  show ?thesis
  proof (cases "L1 = [] \<or> snd (snd (last L1))")
    case True
    have "\<not> (frees L1 \<noteq> [] \<and> fst (last (frees L1)) + snd (last (frees L1)) = b)"
    proof (cases L1 rule: rev_cases)
      case (snoc L x)
      obtain c k v where x: "x = (c, k, v)" by (cases x)
      have "v" using True by (simp add: snoc x)
      moreover have "tiles a L c" "b = c + k" "unat (c + k) = unat c + unat k" "16 \<le> unat k"
        using L(1) by (auto simp: snoc x tiles_append word_add_less)
      then have "p + q \<noteq> b" if "(p, q) \<in> set (frees L)" for p q using that frees_below [of a L c p q] by force
      then have "frees L \<noteq> [] \<Longrightarrow> fst (last (frees L)) + snd (last (frees L)) \<noteq> b" by (metis last_in_set prod.collapse)
      ultimately show ?thesis by (auto simp: snoc x)
    qed simp
    then have "free_insert (frees L1) b n (frees L2) = frees L1 @ join_right b n (frees L2)"
      by (auto simp: free_insert_def join_left_def)
    then show ?thesis using True L(3) by (simp add: coalesce_prefix co12 frees_coalesce_right [OF co12(2) L(2)])
  next
    case False
    then obtain L c k where L1: "L1 = L @ [(c, k, False)]" by (cases L1 rule: rev_cases) auto
    have c: "tiles a L c" "b = c + k" "unat (c + k) = unat c + unat k" "16 \<le> unat k"
      using L(1) by (auto simp: L1 tiles_append word_add_less)
    have "L = [] \<or> snd (snd (last L))" "coalesced L" using co12(1) by (auto simp: L1 coalesced_append)
    then have "coalesce (L1 @ (b, n, False) # L2) = L @ coalesce ((c, k + n, False) # L2)"
      by (simp add: L1 coalesce_prefix)
    moreover have "unat k + unat n < 2 ^ 32" using c(2,3) L(4) unat_bound [of "b + n"] by simp
    then have "unat (k + n) > 0" "tiles (c + (k + n)) L2 e"
      using c(2,4) L(2) by (simp_all add: word_add_less add.assoc)
    ultimately show ?thesis
      by (simp add: frees_coalesce_right [OF co12(2)] free_insert_def join_left_def L1 c(2))
  qed
qed

lemma free_total_coalesce: "tiles a L e \<Longrightarrow> free_total (coalesce L) = free_total L"
proof (induction L arbitrary: a rule: coalesce.induct)
  case (1 b n u c m v L)
  show ?case
  proof (cases "\<not> u \<and> \<not> v")
    case True
    have nm: "unat (n + m) = unat n + unat m" using "1.prems" word_add_less [of b n] by (auto intro!: word_add_less)
    then have "tiles a ((b, n + m, False) # L) e" using "1.prems" by (auto simp: add.assoc word_add_less)
    from "1.IH"(1) [OF True this] show ?thesis using True nm by (simp add: free_total_def)
  next
    case False
    then show ?thesis using "1.prems" "1.IH"(2) [OF False, of "a + n"] by (auto simp: free_total_def)
  qed
qed auto

text \<open>First fit in the free list.\<close>

lemma find_block_fit:
  assumes "chain h p (F @ (a, n) # G) e" "NULL \<notin> addrs F" "a \<noteq> NULL" "\<forall>(b, m)\<in>set F. m < w" "\<not> n < w"
  shows "find_block w p (pxNextFreeBlock h p) h = Some (node_of p F, a)"
  using assms
proof (induction F arbitrary: p)
  case Nil
  then show ?case by (subst find_block.simps) simp
next
  case (Cons f F)
  obtain b m where f: "f = (b, m)" by (cases f)
  have "pxNextFreeBlock h b \<noteq> NULL" using Cons.prems by (cases F) (auto simp: f)
  then show ?case using Cons by (subst find_block.simps) (auto simp: f)
qed

lemma find_block_none:
  assumes "chain h p F e" "NULL \<notin> addrs F" "e \<noteq> NULL" "\<forall>(b, m)\<in>set F. m < w" "pxNextFreeBlock h e = NULL"
  shows "find_block w p (pxNextFreeBlock h p) h = Some (node_of p F, e)"
  using assms
proof (induction F arbitrary: p)
  case Nil
  then show ?case by (subst find_block.simps) auto
next
  case (Cons f F)
  obtain b m where f: "f = (b, m)" by (cases f)
  have "pxNextFreeBlock h b \<noteq> NULL" using Cons.prems by (cases F) (auto simp: f)
  then show ?case using Cons by (subst find_block.simps) (auto simp: f)
qed

lemma alloc_Some:
  "alloc w L = Some (a, L') \<Longrightarrow> \<exists>L1 n L2. L = L1 @ (a, n, False) # L2 \<and> w \<le> n \<and>
     (\<forall>(b, m)\<in>set (frees L1). m < w) \<and> L' = L1 @ carve a n w @ L2"
proof (induction w L arbitrary: L' rule: alloc.induct)
  case (2 w b m u L)
  show ?case
  proof (cases "\<not> u \<and> w \<le> m")
    case True
    with "2.prems" show ?thesis by (intro exI [of _ "[]"]) auto
  next
    case False
    with "2.prems" obtain L'' where L'': "alloc w L = Some (a, L'')" "L' = (b, m, u) # L''" by auto
    from "2.IH" [OF False L''(1)] obtain L1 n L2 where "L = L1 @ (a, n, False) # L2" "w \<le> n"
      "\<forall>(b, m)\<in>set (frees L1). m < w" "L'' = L1 @ carve a n w @ L2" by blast
    with False L''(2) show ?thesis by (intro exI [of _ "(b, m, u) # L1"] exI [of _ n] exI [of _ L2]) auto
  qed
qed simp

lemma alloc_None: "alloc w L = None \<longleftrightarrow> (\<forall>(b, m)\<in>set (frees L). m < w)"
  by (induction w L rule: alloc.induct) auto

section \<open>Invariant\<close>

abbreviation ALLOCATED :: u32 where "ALLOCATED \<equiv> 0x80000000"

text \<open>\<open>heap_inv xStart base h L\<close>: the memory from \<open>base\<close> to \<open>pxEnd\<close> is laid out as \<open>L\<close>, the free list goes
  through its free blocks, the others carry the mark of an allocated block, no two free blocks are
  neighbours, and the counters are right.\<close>

definition heap_inv :: "u32 \<Rightarrow> u32 \<Rightarrow> heap \<Rightarrow> layout \<Rightarrow> bool" where
  "heap_inv xStart base h L \<longleftrightarrow>
     tiles base L (pxEnd h) \<and> coalesced L \<and> base \<noteq> NULL \<and> 8 dvd unat base \<and>
     unat (pxEnd h) < unat base + 2 ^ 31 \<and> xStart \<noteq> NULL \<and> (xStart < base \<or> pxEnd h < xStart) \<and>
     xBlockSize h xStart = 0 \<and> chain h xStart (frees L) (pxEnd h) \<and> pxNextFreeBlock h (pxEnd h) = NULL \<and>
     (\<forall>a n. (a, n, True) \<in> set L \<longrightarrow> xBlockSize h a = n OR ALLOCATED \<and> pxNextFreeBlock h a = NULL) \<and>
     unat (xFreeBytesRemaining h) = free_total L \<and> xMinimumEverFreeBytesRemaining h \<le> xFreeBytesRemaining h \<and>
     xBlockAllocatedBit h = ALLOCATED"

text \<open>What the invariant says about addresses.\<close>

lemma heap_inv_addrs:
  assumes "heap_inv xStart base h L"
  shows "distinct (map fst L)" "pxEnd h \<notin> fst ` set L" "xStart \<notin> fst ` set L" "NULL \<notin> fst ` set L"
    "pxEnd h \<noteq> NULL" "pxEnd h \<noteq> xStart" "distinct (xStart # map fst (frees L))"
    "pxEnd h \<notin> insert xStart (addrs (frees L))" "NULL \<notin> addrs (frees L)"
proof -
  have t: "tiles base L (pxEnd h)" "base \<noteq> NULL" "xStart < base \<or> pxEnd h < xStart"
    using assms by (simp_all add: heap_inv_def)
  show d: "distinct (map fst L)" "pxEnd h \<notin> fst ` set L" using tiles_distinct [OF t(1)] by simp_all
  show x: "xStart \<notin> fst ` set L" using tiles_addrs [OF t(1), of xStart] t(3) by (meson leD less_imp_not_less)
  show z: "NULL \<notin> fst ` set L" using tiles_addrs [OF t(1), of NULL] t(2) by auto
  show "pxEnd h \<noteq> NULL" using tiles_le [OF t(1)] t(2) by (auto simp: unat_gt_0 word_le_nat_alt [symmetric])
  show e: "pxEnd h \<noteq> xStart" using t(3) tiles_le [OF t(1)] by (auto simp: word_less_nat_alt)
  have "distinct (map fst (frees M))" if "distinct (map fst M)" for M
    using that addrs_frees by (induction M rule: frees.induct) (auto simp: addrs_def)
  with d(1) have "distinct (map fst (frees L))" by blast
  then show "distinct (xStart # map fst (frees L))" using x addrs_frees [of L] by (auto simp: addrs_def)
  show "pxEnd h \<notin> insert xStart (addrs (frees L))" "NULL \<notin> addrs (frees L)"
    using d(2) e z addrs_frees [of L] by auto
qed

lemma free_total_bound:
  assumes "tiles a L e"
  shows "free_total L \<le> unat e - unat a"
  using assms
proof (induction L arbitrary: a rule: frees.induct)
  case (2 b n u L)
  then have "tiles (a + n) L e" "unat (a + n) = unat a + unat n" by (auto simp: word_add_less)
  moreover have "free_total L \<le> unat e - unat (a + n)" using "2.IH" calculation(1) by (cases u) auto
  moreover have "unat (a + n) \<le> unat e" using calculation(1) by (rule tiles_le)
  ultimately show ?case by (auto simp: free_total_def)
qed (simp add: free_total_def)

lemma allocated_mark:
  fixes n :: u32
  assumes "unat n < 2 ^ 31"
  shows "(n OR ALLOCATED) AND NOT ALLOCATED = n" "(n OR ALLOCATED) AND ALLOCATED \<noteq> 0"
    "n AND ALLOCATED = 0"
proof -
  have A: "(ALLOCATED :: u32) = bit_at 31" by (simp add: bit_at_def)
  have "\<not> bit (unat n) 31" using assms by (simp add: bit_iff_odd)
  then have "\<not> bit n 31" by (simp add: bit_unsigned_iff)
  then show "n AND ALLOCATED = 0" "(n OR ALLOCATED) AND NOT ALLOCATED = n"
    unfolding A by (auto intro!: bit_word_eqI simp: bitw)
  have "bit ((n OR ALLOCATED) AND ALLOCATED) 31" unfolding A by (simp add: bitw)
  then show "(n OR ALLOCATED) AND ALLOCATED \<noteq> 0" by (metis bit_0_eq bot_apply bot_bool_def)
qed

lemma used_not_free: "distinct (map fst L) \<Longrightarrow> (b, m, True) \<in> set L \<Longrightarrow> b \<notin> addrs (frees L)"
proof
  assume d: "distinct (map fst L)" "(b, m, True) \<in> set L" and "b \<in> addrs (frees L)"
  then obtain k where "(b, k, False) \<in> set L" by (auto simp: addrs_def set_frees)
  from eq_key_imp_eq_value [OF d(1,2) this] show False by simp
qed

lemma tiles_split:
  assumes "tiles a (L1 @ (b, n, u) # L2) e"
  shows "tiles a L1 b" "tiles (b + n) L2 e" "16 \<le> unat n" "8 dvd unat n" "unat (b + n) = unat b + unat n"
    "\<forall>c\<in>addrs (frees L1). c < b" "b \<le> first_of (frees L2) e"
proof -
  show t: "tiles a L1 b" "tiles (b + n) L2 e" "16 \<le> unat n" "8 dvd unat n" "unat (b + n) = unat b + unat n"
    using assms by (auto simp: tiles_append word_add_less)
  show "\<forall>c\<in>addrs (frees L1). c < b" using tiles_addrs [OF t(1)] addrs_frees [of L1] by blast
  have "b + n \<le> first_of (frees L2) e"
  proof (cases "frees L2")
    case (Cons f F)
    then have "fst f \<in> fst ` set L2" using addrs_frees [of L2] by (auto simp: addrs_def)
    then show ?thesis using tiles_addrs [OF t(2)] by (simp add: Cons first_of_def)
  qed (use tiles_le [OF t(2)] in \<open>simp add: word_le_nat_alt\<close>)
  then show "b \<le> first_of (frees L2) e" using t(5) by (simp add: word_le_nat_alt)
qed

text \<open>Headers of allocated blocks are outside of what the list operations touch.\<close>

lemma used_kept:
  assumes inv: "heap_inv xStart base h L" and "(b, m, True) \<in> set L" "b \<noteq> p"
    and "same_but (insert p (insert xStart (addrs (frees L)))) h h'"
  shows "xBlockSize h' b = m OR ALLOCATED \<and> pxNextFreeBlock h' b = NULL"
proof -
  have "b \<notin> addrs (frees L)" "b \<noteq> xStart"
    using used_not_free [OF heap_inv_addrs(1) [OF inv] assms(2)] heap_inv_addrs(3) [OF inv] assms(2) by force+
  moreover have "xBlockSize h b = m OR ALLOCATED \<and> pxNextFreeBlock h b = NULL"
    using inv assms(2) by (simp add: heap_inv_def)
  ultimately show ?thesis using assms(3,4) by (simp add: same_but_def)
qed

lemma vPortFree_release:
  assumes inv: "heap_inv xStart base h L" and mem: "(a, n, True) \<in> set L"
  shows "\<exists>h'. vPortFree xStart (a + 8) h = Some h' \<and> heap_inv xStart base h' (release a L)"
proof -
  obtain L1 L2 where L: "L = L1 @ (a, n, True) # L2" using mem by (metis split_list)
  note A = heap_inv_addrs [OF inv]
  have I: "tiles base L (pxEnd h)" "coalesced L" "unat (pxEnd h) < unat base + 2 ^ 31"
      "unat (xFreeBytesRemaining h) = free_total L" "xBlockAllocatedBit h = ALLOCATED"
      "xBlockSize h a = n OR ALLOCATED" "pxNextFreeBlock h a = NULL" "chain h xStart (frees L) (pxEnd h)"
      "xBlockSize h xStart = 0" "xStart \<noteq> NULL" "xMinimumEverFreeBytesRemaining h \<le> xFreeBytesRemaining h"
    using inv mem by (simp_all add: heap_inv_def)
  note T = tiles_split [OF I(1) [unfolded L]]
  have B: "unat a + unat n \<le> unat (pxEnd h)" "unat base \<le> unat a" using tiles_block [OF I(1) mem] by simp_all
  have n31: "unat n < 2 ^ 31" using B I(3) by simp
  have a8: "a + 8 \<noteq> NULL"
  proof -
    have "unat (a + 8) = unat a + 8" using B T(3) unat_bound [of "pxEnd h"] by (intro trans [OF word_add_less]) simp_all
    then show ?thesis by auto
  qed
  let ?L = "L1 @ (a, n, False) # L2"
  have tot: "free_total ?L = free_total L + unat n" by (simp add: L free_total_def)
  have t': "tiles base ?L (pxEnd h)" using I(1) by (auto simp: L tiles_append)
  have sum: "unat (xFreeBytesRemaining h + n) = free_total L + unat n"
    using free_total_bound [OF t'] tot I(4) unat_bound [of "pxEnd h"] by (subst word_add_less) simp_all
  define h1 where "h1 = (set_size a n h)\<lparr>xFreeBytesRemaining := xFreeBytesRemaining h + n\<rparr>"
  have aL: "a \<notin> insert xStart (addrs (frees L1 @ frees L2))"
    using used_not_free [OF A(1) mem] A(3) by (force simp: L)
  have ch: "chain h1 xStart (frees L1 @ frees L2) (pxEnd h)"
    using I(8) aL by (subst chain_cong [of _ _ _ h]) (auto simp: h1_def L)
  have ord: "\<forall>c\<in>addrs (frees L1). c < a" "a \<le> first_of (frees L2) (pxEnd h)" using T by blast+
  have "\<exists>h'. prvInsertBlockIntoFreeList xStart a h1 = Some h' \<and>
      chain h' xStart (free_insert (frees L1) a n (frees L2)) (pxEnd h) \<and>
      same_but (insert a (insert xStart (addrs (frees L1 @ frees L2)))) h1 h' \<and> xBlockSize h' xStart = 0"
    using A aL I(9,10) mem by (intro insert_chain [OF ch] ord) (auto simp: h1_def L image_iff)
  then obtain h' where h': "prvInsertBlockIntoFreeList xStart a h1 = Some h'"
    "chain h' xStart (free_insert (frees L1) a n (frees L2)) (pxEnd h)"
    "same_but (insert a (insert xStart (addrs (frees L1 @ frees L2)))) h1 h'" "xBlockSize h' xStart = 0" by blast
  have rel: "release a L = coalesce ?L" using release_mark [of L1 a n True L2] A(1) by (simp add: L)
  have fr: "frees (release a L) = free_insert (frees L1) a n (frees L2)"
    unfolding rel using frees_release I(1,2) L by blast
  have e: "pxEnd h \<notin> insert a (insert xStart (addrs (frees L1 @ frees L2)))"
    using A mem by (auto simp: L image_iff)
  have sb: "same_but (insert a (insert xStart (addrs (frees L)))) h (h'\<lparr>xFreeBytesRemaining := xFreeBytesRemaining h\<rparr>)"
    using h'(3) by (auto simp: same_but_def h1_def L)
  have used: "xBlockSize h' b = m OR ALLOCATED \<and> pxNextFreeBlock h' b = NULL" if "(b, m, True) \<in> set (release a L)" for b m
  proof -
    have "(b, m, True) \<in> set L1 \<union> set L2" using that by (auto simp: rel used_coalesce)
    then have "(b, m, True) \<in> set L" "b \<noteq> a" using A(1) by (force simp: L)+
    from used_kept [OF inv this sb] show ?thesis by simp
  qed
  have "heap_inv xStart base h' (release a L)"
    unfolding heap_inv_def
  proof (intro conjI allI impI)
    have [simp]: "pxEnd h' = pxEnd h" "xFreeBytesRemaining h' = xFreeBytesRemaining h + n"
      "xBlockAllocatedBit h' = ALLOCATED" "xMinimumEverFreeBytesRemaining h' = xMinimumEverFreeBytesRemaining h"
      using h'(3) I(5) by (simp_all add: same_but_def h1_def)
    show "tiles base (release a L) (pxEnd h')" using tiles_coalesce [OF t'] by (simp add: rel)
    show "coalesced (release a L)" by (simp add: rel coalesced_coalesce)
    show "chain h' xStart (frees (release a L)) (pxEnd h')" using h'(2) by (simp add: fr)
    show "pxNextFreeBlock h' (pxEnd h') = NULL"
      using h'(3) e inv by (simp add: same_but_def h1_def heap_inv_def)
    show "unat (xFreeBytesRemaining h') = free_total (release a L)"
      using sum tot free_total_coalesce [OF t'] by (simp add: rel)
    show "xMinimumEverFreeBytesRemaining h' \<le> xFreeBytesRemaining h'"
      using I(4,11) sum by (simp add: word_le_nat_alt)
    show "unat (pxEnd h') < unat base + 2 ^ 31" "xStart < base \<or> pxEnd h' < xStart" "base \<noteq> NULL" "8 dvd unat base"
      using inv by (simp_all add: heap_inv_def)
  qed (use used h'(4) I(10) h'(3) I(5) in \<open>simp_all add: same_but_def h1_def\<close>)
  moreover have "vPortFree xStart (a + 8) h = Some h'"
    using a8 h'(1) I(5,6,7) allocated_mark [OF n31]
    by (simp add: vPortFree_def Let_def h1_def)
  ultimately show ?thesis by blast
qed

text \<open>Taking a block out of the list.\<close>

lemma chain_unlink:
  assumes ch: "chain h p (F @ (a, n) # G) e" and d: "distinct (p # map fst (F @ (a, n) # G))"
  shows "chain (set_next (node_of p F) (pxNextFreeBlock h a) h) p (F @ G) e"
proof -
  have F: "chain h p F a" and G: "chain h a G e" using ch by (simp_all add: chain_append)
  have nx: "pxNextFreeBlock h a = first_of G e" using G by (cases G) auto
  have nG: "node_of p F \<notin> addrs G" using d by (cases F rule: rev_cases) (auto simp: addrs_def node_of_def)
  let ?h = "set_next (node_of p F) (pxNextFreeBlock h a) h"
  have "chain ?h p F (first_of G e)" using d nx by (intro chain_relink [OF F]) auto
  moreover have "xBlockSize ?h (fst (hd G)) = snd (hd G) \<and> chain ?h (fst (hd G)) (tl G) e" if "G \<noteq> []"
  proof -
    obtain c k G' where g: "G = (c, k) # G'" using \<open>G \<noteq> []\<close> by (cases G) auto
    have "chain ?h c G' e" using G nG by (subst chain_cong [of _ _ _ h]) (auto simp: g)
    then show ?thesis using G by (simp add: g)
  qed
  ultimately show ?thesis by (auto simp: chain_append)
qed

lemma unat_mask7: "unat (w AND 7) = unat w mod 8" for w :: u32
proof -
  have "(7 :: u32) = mask 3" by (simp add: mask_eq_exp_minus_1)
  then show ?thesis by (simp only: take_bit_eq_mask [symmetric] unsigned_take_bit_eq) (simp add: take_bit_eq_mod)
qed

lemma round_up: "0 < x mod 8 \<Longrightarrow> x + (8 - x mod 8) = 8 * ((x + 7) div 8)" for x :: nat
proof -
  assume r: "0 < x mod 8"
  have x: "x = 8 * (x div 8) + x mod 8" "x mod 8 < 8" by simp_all
  then have "(x + 7) div 8 = x div 8 + 1" using r by linarith
  with x show ?thesis by linarith
qed

text \<open>The adjusted size is the least multiple of eight that holds header and request.\<close>

lemma adjust_size_value:
  assumes "unat w < 2 ^ 31" "w \<noteq> 0"
  shows "unat (adjust_size w) = 8 * ((unat w + 15) div 8)"
proof -
  have w8: "unat (w + 8) = unat w + 8" using assms(1) by (subst word_add_less) simp_all
  show ?thesis
  proof (cases "(unat w + 8) mod 8 = 0")
    case True
    then have "(w + 8) AND 7 = 0" by (simp add: word_unat_eq_iff unat_mask7 w8)
    moreover have "unat w + 8 = 8 * ((unat w + 15) div 8)" using True by presburger
    ultimately show ?thesis using assms(2) w8 by (simp add: adjust_size_def Let_def word_gt_0)
  next
    case False
    let ?r = "(w + 8) AND 7"
    have r: "unat ?r = (unat w + 8) mod 8" by (simp only: unat_mask7 w8)
    then have "?r \<noteq> 0" using False by auto
    then have "adjust_size w = w + 8 + (8 - ?r)" using assms(2) by (simp add: adjust_size_def Let_def word_gt_0)
    moreover have "unat (8 - ?r) = 8 - (unat w + 8) mod 8"
      using r by (subst unat_sub) (simp_all add: word_le_nat_alt)
    then have "unat (w + 8 + (8 - ?r)) = unat w + 8 + (8 - (unat w + 8) mod 8)"
      using assms(1) w8 by (subst word_add_less) simp_all
    moreover have "unat w + 8 + (8 - (unat w + 8) mod 8) = 8 * ((unat w + 15) div 8)"
      using round_up [of "unat w + 8"] False by simp
    ultimately show ?thesis by (simp only:)
  qed
qed

lemma coalesced_Cons: "coalesced (x # L) \<longleftrightarrow> coalesced L \<and> (L = [] \<or> snd (snd x) \<or> snd (snd (hd L)))"
  using coalesced_append [of "[x]" L] by (cases x) auto

lemma coalesced_carve:
  assumes "coalesced (L1 @ (a, n, False) # L2)"
  shows "coalesced (L1 @ carve a n w @ L2)" "coalesced (L1 @ [(a, w, True), (b, m, True)] @ L2)"
proof -
  have "coalesced L1" "coalesced L2" "L2 = [] \<or> snd (snd (hd L2))"
    using assms coalesced_append [of "[(a, n, False)]" L2] by (auto simp: coalesced_append)
  then show "coalesced (L1 @ carve a n w @ L2)" "coalesced (L1 @ [(a, w, True), (b, m, True)] @ L2)"
    by (auto simp: coalesced_append coalesced_Cons carve_def)
qed

lemma tiles_carve:
  assumes "tiles x (L1 @ (a, n, False) # L2) e" "w \<le> n" "16 \<le> unat w" "8 dvd unat w"
  shows "tiles x (L1 @ carve a n w @ L2) e"
    and "n - w > 16 \<Longrightarrow> tiles x (L1 @ [(a, w, True), (a + w, n - w, True)] @ L2) e"
proof -
  note T = tiles_split [OF assms(1)]
  have nw: "unat (n - w) = unat n - unat w" using assms(2) by (simp add: unat_sub)
  have le: "unat w \<le> unat n" using assms(2) by (simp add: word_le_nat_alt)
  have sum: "unat a + unat n < 2 ^ 32" using T(5) unat_bound [of "a + n"] by simp
  then have aw: "unat (a + w) = unat a + unat w" using le by (subst word_add_less) simp_all
  have d: "8 dvd unat (n - w)" using T(4) assms(4) by (simp add: nw dvd_diff_nat)
  have split: "tiles x (L1 @ [(a, w, True), (a + w, n - w, u)] @ L2) e" if "n - w > 16" for u
    using that T sum assms(3,4) le d nw aw by (auto simp: tiles_append word_less_nat_alt intro!: exI [of _ a])
  then show "n - w > 16 \<Longrightarrow> tiles x (L1 @ [(a, w, True), (a + w, n - w, True)] @ L2) e" by blast
  show "tiles x (L1 @ carve a n w @ L2) e"
    using split T sum by (auto simp: carve_def tiles_append)
qed

text \<open>Unlinking the block that was found, and putting the rest of it back if it is split.\<close>

lemma same_but_mono: "same_but A h h' \<Longrightarrow> A \<subseteq> B \<Longrightarrow> same_but B h h'"
  unfolding same_but_def by blast

lemma take_block_list:
  assumes inv: "heap_inv xStart base h L" and L: "L = L1 @ (a, n, False) # L2"
    and w: "w \<le> n" "16 \<le> unat w" "8 dvd unat w"
  defines "h1 \<equiv> set_next (node_of xStart (frees L1)) (pxNextFreeBlock h a) h"
    and "p \<equiv> (if n - w > 16 then a + w else xStart)"
  shows "\<exists>h2. (if n - w > 16 then prvInsertBlockIntoFreeList xStart (a + w) (set_size a w (set_size (a + w) (n - w) h1)) else Some h1) = Some h2 \<and>
    chain h2 xStart (frees (L1 @ carve a n w @ L2)) (pxEnd h) \<and> xBlockSize h2 a = (if n - w > 16 then w else n) \<and>
    same_but (insert p (insert xStart (addrs (frees L)))) h h2 \<and> xBlockSize h2 xStart = 0"
proof -
  note A = heap_inv_addrs [OF inv]
  have I: "tiles base L (pxEnd h)" "coalesced L" "chain h xStart (frees L1 @ (a, n) # frees L2) (pxEnd h)"
    "xBlockSize h xStart = 0" "xStart \<noteq> NULL" "xStart < base \<or> pxEnd h < xStart"
    using inv by (simp_all add: heap_inv_def L)
  have d: "distinct (xStart # map fst (frees L1 @ (a, n) # frees L2))" using A(7) by (simp add: L)
  have ch1: "chain h1 xStart (frees L1 @ frees L2) (pxEnd h)" unfolding h1_def by (rule chain_unlink [OF I(3) d])
  have node: "node_of xStart (frees L1) \<in> insert xStart (addrs (frees L1))"
    by (cases "frees L1" rule: rev_cases) (auto simp: node_of_def addrs_def)
  have sb1: "same_but (insert xStart (addrs (frees L))) h h1" using node by (auto simp: same_but_def h1_def L)
  have sz: "xBlockSize h1 = xBlockSize h" "xBlockSize h a = n" "pxEnd h1 = pxEnd h"
    using I(3) by (simp_all add: h1_def chain_append)
  show ?thesis
  proof (cases "n - w > 16")
    case False
    then show ?thesis using ch1 sb1 sz I(4) by (simp add: carve_def p_def)
  next
    case True
    let ?b = "a + w" and ?M = "L1 @ [(a, w, True), (a + w, n - w, True)] @ L2"
    let ?h = "set_size a w (set_size ?b (n - w) h1)"
    have t: "tiles base ((L1 @ [(a, w, True)]) @ (?b, n - w, True) # L2) (pxEnd h)"
      using tiles_carve(2) [OF I(1) [unfolded L] w True] by simp
    have co: "coalesced ((L1 @ [(a, w, True)]) @ (?b, n - w, True) # L2)"
      using coalesced_carve(2) [OF I(2) [unfolded L]] by simp
    note T = tiles_split [OF t] and D = tiles_distinct [OF t]
    have aF: "a \<notin> insert xStart (addrs (frees L1 @ frees L2))" "a \<noteq> ?b" using d D by (auto simp: addrs_def)
    have bF: "?b \<notin> insert xStart (addrs (frees L1 @ frees L2))" "pxEnd h \<noteq> ?b"
    proof -
      have "?b \<notin> fst ` set L1" "?b \<notin> fst ` set L2" "pxEnd h \<noteq> ?b" using D by auto
      moreover have "base \<le> ?b" "?b < pxEnd h" using tiles_addrs [OF t, of ?b] by simp_all
      ultimately show "?b \<notin> insert xStart (addrs (frees L1 @ frees L2))" "pxEnd h \<noteq> ?b"
        using addrs_frees [of L1] addrs_frees [of L2] I(6) by auto
    qed
    have ch: "chain ?h xStart (frees L1 @ frees L2) (pxEnd h)"
      using ch1 aF bF by (subst chain_cong [of _ _ _ h1]) auto
    have ord: "\<forall>c\<in>addrs (frees L1). c < ?b" "?b \<le> first_of (frees L2) (pxEnd h)" using T(6,7) by simp_all
    have "\<exists>h'. prvInsertBlockIntoFreeList xStart ?b ?h = Some h' \<and>
        chain h' xStart (free_insert (frees L1) ?b (n - w) (frees L2)) (pxEnd h) \<and>
        same_but (insert ?b (insert xStart (addrs (frees L1 @ frees L2)))) ?h h' \<and> xBlockSize h' xStart = 0"
      using A aF bF I(4,5) d by (intro insert_chain [OF ch] ord) (auto simp: h1_def L addrs_def)
    then obtain h2 where h2: "prvInsertBlockIntoFreeList xStart ?b ?h = Some h2"
      "chain h2 xStart (free_insert (frees L1) ?b (n - w) (frees L2)) (pxEnd h)"
      "same_but (insert ?b (insert xStart (addrs (frees L1 @ frees L2)))) ?h h2" "xBlockSize h2 xStart = 0" by blast
    have "coalesced (L1 @ carve a n w @ L2)" using coalesced_carve(1) [OF I(2) [unfolded L]] .
    then have "frees (L1 @ carve a n w @ L2) = free_insert (frees L1) ?b (n - w) (frees L2)"
      using frees_release [OF co t] True by (simp add: carve_def coalesce_id)
    moreover have "xBlockSize h2 a = w" using h2(3) aF by (auto simp: same_but_def)
    moreover have "same_but (insert p (insert xStart (addrs (frees L)))) h h2"
      using h2(3) sb1 True by (auto simp: same_but_def p_def L)
    ultimately show ?thesis using True h2 by simp
  qed
qed

lemma free_total_carve:
  assumes "unat w \<le> unat n"
  shows "free_total (L1 @ carve a n w @ L2) + (if n - w > 16 then unat w else unat n) = free_total (L1 @ (a, n, False) # L2)"
  using assms by (auto simp: carve_def free_total_def unat_sub word_le_nat_alt)

lemma take_block_carve:
  assumes inv: "heap_inv xStart base h L" and L: "L = L1 @ (a, n, False) # L2"
    and w: "w \<le> n" "16 \<le> unat w" "8 dvd unat w"
  shows "\<exists>h'. take_block xStart w (node_of xStart (frees L1)) a h = Some (a + 8, h') \<and>
    heap_inv xStart base h' (L1 @ carve a n w @ L2)"
proof -
  note A = heap_inv_addrs [OF inv]
  have I: "tiles base L (pxEnd h)" "coalesced L" "chain h xStart (frees L1 @ (a, n) # frees L2) (pxEnd h)"
    "unat (xFreeBytesRemaining h) = free_total L" "xBlockAllocatedBit h = ALLOCATED" "xStart \<noteq> NULL"
    "xMinimumEverFreeBytesRemaining h \<le> xFreeBytesRemaining h"
    using inv by (simp_all add: heap_inv_def L)
  let ?L = "L1 @ carve a n w @ L2" and ?s = "if n - w > 16 then w else n" and ?p = "if n - w > 16 then a + w else xStart"
  from take_block_list [OF inv L w] obtain h2 where
    h2: "(if n - w > 16 then prvInsertBlockIntoFreeList xStart (a + w) (set_size a w (set_size (a + w) (n - w)
          (set_next (node_of xStart (frees L1)) (pxNextFreeBlock h a) h)))
        else Some (set_next (node_of xStart (frees L1)) (pxNextFreeBlock h a) h)) = Some h2"
      "chain h2 xStart (frees ?L) (pxEnd h)" "xBlockSize h2 a = ?s"
      "same_but (insert ?p (insert xStart (addrs (frees L)))) h h2" "xBlockSize h2 xStart = 0" by blast
  have t: "tiles base ?L (pxEnd h)" using tiles_carve(1) [OF I(1) [unfolded L] w] .
  have d: "distinct (map fst ?L)" using tiles_distinct [OF t] by simp
  have au: "(a, ?s, True) \<in> set ?L" by (simp add: carve_def)
  have pF: "?p \<notin> fst ` set L1" "?p \<notin> fst ` set L2" "?p \<noteq> a" "?p \<noteq> pxEnd h"
    using tiles_distinct [OF t] A by (auto simp: carve_def L split: if_splits)
  have aF: "a \<notin> insert xStart (addrs (frees ?L))" using used_not_free [OF d au] A(3) by (auto simp: L)
  define fr where "fr = xFreeBytesRemaining h - ?s"
  have le: "unat w \<le> unat n" using w(1) by (simp add: word_le_nat_alt)
  have fr: "unat fr = free_total ?L"
    using free_total_carve [OF le, of L1 a L2] I(4) by (cases "n - w > 16") (auto simp: fr_def L unat_sub word_le_nat_alt)
  define h3 where "h3 = set_next a NULL (set_size a (?s OR ALLOCATED)
    (h2\<lparr>xFreeBytesRemaining := fr, xMinimumEverFreeBytesRemaining :=
      (if fr < xMinimumEverFreeBytesRemaining h then fr else xMinimumEverFreeBytesRemaining h)\<rparr>))"
  have same [simp]: "pxEnd h2 = pxEnd h" "xFreeBytesRemaining h2 = xFreeBytesRemaining h"
    "xBlockAllocatedBit h2 = ALLOCATED" "xMinimumEverFreeBytesRemaining h2 = xMinimumEverFreeBytesRemaining h"
    using h2(4) I(5) by (simp_all add: same_but_def)
  have used: "xBlockSize h3 b = m OR ALLOCATED \<and> pxNextFreeBlock h3 b = NULL" if b: "(b, m, True) \<in> set ?L" for b m
  proof (cases "b = a")
    case True
    then have "(?s, True) = (m, True)" using eq_key_imp_eq_value [OF d au] b by blast
    then have "m = ?s" by (simp only: prod.inject)
    then show ?thesis using True by (simp add: h3_def)
  next
    case False
    then have "(b, m, True) \<in> set L1 \<union> set L2" using b by (auto simp: carve_def split: if_splits)
    then have "(b, m, True) \<in> set L" "b \<noteq> ?p" using pF(1,2) by (force simp: L)+
    from used_kept [OF inv this h2(4)] show ?thesis using False by (simp add: h3_def)
  qed
  have "heap_inv xStart base h3 ?L"
    unfolding heap_inv_def
  proof (intro conjI allI impI)
    show "tiles base ?L (pxEnd h3)" using t by (simp add: h3_def)
    show "coalesced ?L" using coalesced_carve(1) [OF I(2) [unfolded L]] .
    have "chain h3 xStart (frees ?L) (pxEnd h) = chain h2 xStart (frees ?L) (pxEnd h)"
      using aF by (intro chain_cong) (auto simp: h3_def)
    then show "chain h3 xStart (frees ?L) (pxEnd h3)" using h2(2) by (simp add: h3_def)
    have "pxEnd h \<noteq> a" using A(2) by (auto simp: L)
    then show "pxNextFreeBlock h3 (pxEnd h3) = NULL"
      using h2(4) A(8) pF(4) inv by (auto simp: h3_def same_but_def heap_inv_def)
    show "unat (xFreeBytesRemaining h3) = free_total ?L" using fr by (simp add: h3_def)
    show "xMinimumEverFreeBytesRemaining h3 \<le> xFreeBytesRemaining h3" by (auto simp: h3_def not_less)
    show "unat (pxEnd h3) < unat base + 2 ^ 31" "xStart < base \<or> pxEnd h3 < xStart" "base \<noteq> NULL" "8 dvd unat base"
      using inv by (simp_all add: heap_inv_def h3_def)
    have "xStart \<noteq> a" using aF by auto
    then show "xBlockSize h3 xStart = 0" using h2(5) by (simp add: h3_def)
    show "xBlockSize h3 b = m OR ALLOCATED" "pxNextFreeBlock h3 b = NULL" if "(b, m, True) \<in> set ?L" for b m
      using used [OF that] by simp_all
  qed (use I(6) in \<open>simp_all add: h3_def\<close>)
  moreover have "take_block xStart w (node_of xStart (frees L1)) a h = Some (a + 8, h3)"
  proof -
    have "pxNextFreeBlock h (node_of xStart (frees L1)) = a" "xBlockSize h a = n"
      using I(3) chain_end [of h xStart "frees L1" a] by (simp_all add: chain_append)
    then show ?thesis using h2(1,3)
      by (cases "n - w > 16") (auto simp: take_block_def h3_def fr_def Let_def)
  qed
  ultimately show ?thesis by blast
qed

text \<open>The allocator implements the allocation on layouts, whatever is asked for.\<close>

definition alloc_request :: "u32 \<Rightarrow> layout \<Rightarrow> (u32 \<times> layout) option" where
  "alloc_request n L = (if n = 0 \<or> 2 ^ 31 \<le> unat n then None else alloc (adjust_size n) L)"

lemma free_le_total: "(a, n) \<in> set (frees L) \<Longrightarrow> unat n \<le> free_total L"
  unfolding free_total_def by (induction L rule: frees.induct) (auto split: if_splits)

lemma pvPortMalloc_alloc:
  assumes inv: "heap_inv xStart base h L"
  shows "\<exists>r h'. pvPortMalloc xStart ucHeap n h = Some (r, h') \<and>
    (case alloc_request n L of
       None \<Rightarrow> r = NULL \<and> h' = h\<lparr>failed_hooks := Suc (failed_hooks h)\<rparr>
     | Some (a, L') \<Rightarrow> r = a + 8 \<and> r \<noteq> NULL \<and> heap_inv xStart base h' L')"
proof -
  note A = heap_inv_addrs [OF inv]
  have I: "tiles base L (pxEnd h)" "chain h xStart (frees L) (pxEnd h)" "pxNextFreeBlock h (pxEnd h) = NULL"
      "unat (xFreeBytesRemaining h) = free_total L" "xBlockAllocatedBit h = ALLOCATED"
    using inv by (simp_all add: heap_inv_def)
  show ?thesis
  proof (cases "2 ^ 31 \<le> unat n")
    case True
    have "n AND ALLOCATED \<noteq> 0"
    proof
      assume z: "n AND ALLOCATED = 0"
      have A: "(ALLOCATED :: u32) = bit_at 31" by (simp add: bit_at_def)
      have "\<not> bit n 31" using arg_cong [OF z, of "\<lambda>v. bit v 31"] unfolding A by (simp add: bitw)
      then have "\<not> bit (unat n) 31" by (simp add: bit_unsigned_iff)
      moreover have "unat n div 2 ^ 31 = 1" using True unat_bound [of n] by (intro div_nat_eqI) simp_all
      ultimately show False by (simp add: bit_iff_odd)
    qed
    then show ?thesis using True A(5) I(5) by (simp add: pvPortMalloc_def alloc_request_def)
  next
    case False
    then have n31: "unat n < 2 ^ 31" by simp
    define w where "w = adjust_size n"
    show ?thesis
    proof (cases "n = 0")
      case True
      then show ?thesis using A(5) by (simp add: pvPortMalloc_def alloc_request_def adjust_size_def)
    next
      case n0: False
      have wv: "unat w = 8 * ((unat n + 15) div 8)" unfolding w_def using adjust_size_value n31 n0 by blast
      have w: "16 \<le> unat w" "8 dvd unat w" using wv n0 by (auto simp: unat_gt_0 [symmetric])
      have w0: "0 < w" using w by (auto simp: word_less_nat_alt)
      have req: "alloc_request n L = alloc w L" using n0 n31 by (simp add: alloc_request_def w_def)
      note unf = pvPortMalloc_def A(5) I(5) allocated_mark(3) [OF n31] w_def [symmetric] w0
      show ?thesis
      proof (cases "alloc w L")
        case None
        then have small: "\<forall>(b, m)\<in>set (frees L). m < w" by (simp add: alloc_None)
        have "find_block w xStart (pxNextFreeBlock h xStart) h = Some (node_of xStart (frees L), pxEnd h)"
          using small A I by (intro find_block_none) auto
        then show ?thesis by (simp add: req None unf)
      next
        case (Some x)
        obtain a L' where x: "x = (a, L')" by (cases x)
        from alloc_Some [OF Some [unfolded x]] obtain L1 m L2 where
          L: "L = L1 @ (a, m, False) # L2" "w \<le> m" "\<forall>(b, m)\<in>set (frees L1). m < w" "L' = L1 @ carve a m w @ L2" by blast
        have "find_block w xStart (pxNextFreeBlock h xStart) h = Some (node_of xStart (frees L1), a)"
          using A L I(2) by (intro find_block_fit [where n = m and G = "frees L2" and e = "pxEnd h"]) (auto simp: L(1))
        moreover have "w \<le> xFreeBytesRemaining h"
          using free_le_total [of a m L] L(1,2) I(4) by (simp add: word_le_nat_alt)
        moreover have "a \<noteq> pxEnd h" using A(2) by (auto simp: L(1))
        moreover obtain h' where "take_block xStart w (node_of xStart (frees L1)) a h = Some (a + 8, h')"
            "heap_inv xStart base h' L'"
          using take_block_carve [OF inv L(1,2) w] L(4) by blast
        moreover have "a + 8 \<noteq> NULL"
        proof -
          have "unat a + unat m \<le> unat (pxEnd h)" "16 \<le> unat m" using tiles_block [OF I(1), of a m False] L(1) by simp_all
          then have "unat (a + 8) = unat a + 8" using unat_bound [of "pxEnd h"] by (intro trans [OF word_add_less]) simp_all
          then show ?thesis by auto
        qed
        ultimately show ?thesis by (simp add: req Some x unf)
      qed
    qed
  qed
qed

section \<open>Initialisation\<close>

lemma unat_and_not7: "unat (w AND - 8) = 8 * (unat w div 8)" for w :: u32
proof -
  have "(- 8 :: u32) = NOT (mask 3)" by (simp add: mask_eq_exp_minus_1)
  moreover have "w AND NOT (mask 3) = push_bit 3 (drop_bit 3 w)"
    by (auto intro!: bit_word_eqI simp: bit_simps)
  moreover have "unat (push_bit 3 (drop_bit 3 w)) = take_bit 32 (push_bit 3 (drop_bit 3 (unat w)))"
    using take_bit_nat_eq_self [OF unat_bound [of w]] by (simp only: unsigned_push_bit_eq unsigned_drop_bit_eq) simp
  moreover have "push_bit 3 (drop_bit 3 (unat w)) = 8 * (unat w div 8)"
    by (simp add: push_bit_eq_mult drop_bit_eq_div)
  moreover have "8 * (unat w div 8) < 2 ^ 32" using unat_bound [of w] times_div_less_eq_dividend [of 8 "unat w"] by linarith
  ultimately show ?thesis by (simp only: take_bit_nat_eq_self)
qed

lemma aligned_up: "unat w < 2 ^ 31 \<Longrightarrow>
    unat (if w AND 7 \<noteq> 0 then (w + (8 - 1)) AND NOT 7 else w) = 8 * ((unat w + 7) div 8)" for w :: u32
proof -
  assume w: "unat w < 2 ^ 31"
  show ?thesis
  proof (cases "w AND 7 = 0")
    case True
    then have "unat w mod 8 = 0" using unat_mask7 [of w] by simp
    then have "8 * ((unat w + 7) div 8) = unat w" by presburger
    then show ?thesis using True by simp
  next
    case False
    have "unat (w + 7) = unat w + 7" using w by (subst word_add_less) simp_all
    then show ?thesis using False by (simp add: unat_and_not7)
  qed
qed

definition heap_base :: "u32 \<Rightarrow> u32" where
  "heap_base ucHeap = (if ucHeap AND 7 \<noteq> 0 then (ucHeap + (8 - 1)) AND NOT 7 else ucHeap)"

lemma prvHeapInit_inv:
  fixes h :: heap
  assumes u: "0 < unat ucHeap" "unat ucHeap < 2 ^ 31"
    and x: "xStart \<noteq> NULL" "xStart < ucHeap \<or> ucHeap + configTOTAL_HEAP_SIZE \<le> xStart"
  defines "h' \<equiv> prvHeapInit xStart ucHeap h"
  shows "heap_inv xStart (heap_base ucHeap) h' [(heap_base ucHeap, xFreeBytesRemaining h', False)]"
    and "4194304 - 24 < unat (xFreeBytesRemaining h')" "unat (xFreeBytesRemaining h') \<le> 4194304 - 8"
proof -
  let ?b = "heap_base ucHeap"
  define e where "e = (ucHeap + 4194304 - 8) AND NOT 7"
  have b: "unat ?b = 8 * ((unat ucHeap + 7) div 8)" unfolding heap_base_def by (rule aligned_up [OF u(2)])
  have top: "unat (ucHeap + 4194304) = unat ucHeap + 4194304" using u(2) by (subst word_add_less) simp_all
  then have "unat (ucHeap + 4194304 - 8) = unat ucHeap + 4194304 - 8"
    by (subst unat_sub) (simp_all add: word_le_nat_alt)
  then have e: "unat e = 8 * ((unat ucHeap + 4194304 - 8) div 8)" unfolding e_def by (simp add: unat_and_not7)
  have h': "h' = (set_next ?b e (set_size ?b (e - ?b) (set_next e NULL (set_size e 0
      ((set_size xStart 0 (set_next xStart ?b h))\<lparr>pxEnd := e\<rparr>)))))
      \<lparr>xMinimumEverFreeBytesRemaining := e - ?b, xFreeBytesRemaining := e - ?b, xBlockAllocatedBit := ALLOCATED\<rparr>"
  proof -
    have "e = (?b + (4194304 - (?b - ucHeap)) - 8) AND NOT 7" by (simp add: e_def algebra_simps)
    then show ?thesis
      unfolding h'_def prvHeapInit_def heap_base_def by (auto simp: Let_def e_def)
  qed
  have bnd: "unat ucHeap \<le> unat ?b" "unat ?b < unat ucHeap + 8" "unat e \<le> unat ucHeap + 4194304 - 8"
    "unat ucHeap + 4194304 - 16 < unat e" unfolding b e by linarith+
  then have be: "unat (e - ?b) = unat e - unat ?b" by (subst unat_sub) (simp_all add: word_le_nat_alt)
  have size: "unat (xFreeBytesRemaining h') = unat e - unat ?b" by (simp add: h' be)
  then show "4194304 - 24 < unat (xFreeBytesRemaining h')" "unat (xFreeBytesRemaining h') \<le> 4194304 - 8"
    using bnd by simp_all
  have dv: "8 dvd unat (e - ?b)" unfolding be by (simp add: b e)
  have xe: "xStart < ?b \<or> e < xStart"
    using x(2) bnd top by (auto simp: word_less_nat_alt word_le_nat_alt)
  then have ne: "xStart \<noteq> e" "xStart \<noteq> ?b" "e \<noteq> ?b" using bnd by (auto simp: word_less_nat_alt)
  have "?b \<noteq> NULL" using u bnd by (auto simp: unat_gt_0 [symmetric])
  then show "heap_inv xStart ?b h' [(?b, xFreeBytesRemaining h', False)]"
    using x(1) xe ne bnd be dv b u unat_bound [of e] by (auto simp: heap_inv_def h' free_total_def)
qed

section \<open>The contract of an allocator\<close>

text \<open>A client's calls: a request, or the return of the \<open>k\<close>-th region it holds.\<close>

datatype heap_call = Malloc u32 | Free nat

fun heap_run :: "(u32 \<Rightarrow> 's \<Rightarrow> (u32 \<times> 's) option) \<Rightarrow> (u32 \<Rightarrow> 's \<Rightarrow> 's option) \<Rightarrow>
    heap_call list \<Rightarrow> u32 list \<Rightarrow> 's \<Rightarrow> (u32 list \<times> 's) option" where
  "heap_run malloc free [] held s = Some (held, s)"
| "heap_run malloc free (Malloc n # cs) held s =
     do { (r, s) \<leftarrow> malloc n s;
          heap_run malloc free cs (if r = NULL then held else held @ [r]) s }"
| "heap_run malloc free (Free k # cs) held s =
     (if k < length held
      then do { s \<leftarrow> free (held ! k) s; heap_run malloc free cs (take k held @ drop (Suc k) held) s }
      else heap_run malloc free cs held s)"

text \<open>\<open>live\<close> are the regions in use, by start and length. They are disjoint, a request that does not fail
  adds one of at least the size asked for, and a free removes exactly the one that is named.\<close>

locale allocator =
  fixes inv :: "'s \<Rightarrow> 'l \<Rightarrow> bool"
    and live :: "'l \<Rightarrow> (nat \<times> nat) set"
    and malloc :: "u32 \<Rightarrow> 's \<Rightarrow> (u32 \<times> 's) option"
    and free :: "u32 \<Rightarrow> 's \<Rightarrow> 's option"
  assumes live_disjoint:
      "inv s l \<Longrightarrow> (p, n) \<in> live l \<Longrightarrow> (q, m) \<in> live l \<Longrightarrow> (p, n) \<noteq> (q, m) \<Longrightarrow> p + n \<le> q \<or> q + m \<le> p"
    and live_pos: "inv s l \<Longrightarrow> (p, n) \<in> live l \<Longrightarrow> 0 < n"
    and malloc_live: "inv s l \<Longrightarrow> \<exists>r s' l'. malloc w s = Some (r, s') \<and> inv s' l' \<and>
      (if r = NULL then live l' = live l
       else \<exists>k \<ge> unat w. unat r \<notin> fst ` live l \<and> live l' = insert (unat r, k) (live l))"
    and free_live: "inv s l \<Longrightarrow> (unat r, n) \<in> live l \<Longrightarrow>
      \<exists>s' l'. free r s = Some s' \<and> inv s' l' \<and> live l' = live l - {(unat r, n)}"
begin

definition holds :: "u32 list \<Rightarrow> 's \<Rightarrow> 'l \<Rightarrow> bool" where
  "holds held s l \<longleftrightarrow> inv s l \<and> distinct held \<and> unat ` set held = fst ` live l"

lemma inj_unat: "inj (unat :: u32 \<Rightarrow> nat)"
  by (rule injI) (simp add: word_unat_eq_iff)

lemma live_start: "inv s l \<Longrightarrow> (p, n) \<in> live l \<Longrightarrow> (p, m) \<in> live l \<Longrightarrow> n = m"
  using live_disjoint [of s l p n p m] live_pos [of s l p n] live_pos [of s l p m] by fastforce

lemma holds_malloc:
  assumes "holds held s l"
  shows "\<exists>r s' l'. malloc n s = Some (r, s') \<and> holds (if r = NULL then held else held @ [r]) s' l'"
proof -
  have h: "inv s l" "distinct held" "unat ` set held = fst ` live l" using assms by (simp_all add: holds_def)
  from malloc_live [OF h(1), of n] obtain r s' l' where
    m: "malloc n s = Some (r, s')" "inv s' l'"
      "if r = NULL then live l' = live l else \<exists>k \<ge> unat n. unat r \<notin> fst ` live l \<and> live l' = insert (unat r, k) (live l)"
    by blast
  have "holds (if r = NULL then held else held @ [r]) s' l'"
  proof (cases "r = NULL")
    case True
    with m h show ?thesis by (simp add: holds_def)
  next
    case False
    with m(3) obtain k where "unat r \<notin> fst ` live l" "live l' = insert (unat r, k) (live l)" by auto
    moreover from this have "r \<notin> set held" using h(3) by blast
    ultimately show ?thesis using False m(2) h by (simp add: holds_def)
  qed
  with m(1) show ?thesis by blast
qed

lemma holds_free:
  assumes "holds held s l" "k < length held"
  shows "\<exists>s' l'. free (held ! k) s = Some s' \<and> holds (take k held @ drop (Suc k) held) s' l'"
proof -
  have h: "inv s l" "distinct held" "unat ` set held = fst ` live l" using assms(1) by (simp_all add: holds_def)
  let ?p = "held ! k"
  have split: "held = take k held @ ?p # drop (Suc k) held" using assms(2) by (rule id_take_nth_drop)
  have "?p \<in> set held" using assms(2) by simp
  then obtain n where n: "(unat ?p, n) \<in> live l" using h(3) by force
  from free_live [OF h(1) n] obtain s' l' where
    f: "free ?p s = Some s'" "inv s' l'" "live l' = live l - {(unat ?p, n)}" by blast
  let ?rest = "take k held @ drop (Suc k) held"
  have d: "distinct ?rest" "?p \<notin> set ?rest" "set held = insert ?p (set ?rest)"
  proof -
    have "distinct (take k held @ ?p # drop (Suc k) held)" using h(2) by (simp only: split [symmetric])
    then show "distinct ?rest" "?p \<notin> set ?rest" by simp_all
    have "set (take k held @ ?p # drop (Suc k) held) = insert ?p (set ?rest)" by simp
    then show "set held = insert ?p (set ?rest)" by (simp only: split [symmetric])
  qed
  have "fst ` live l' = fst ` live l - {unat ?p}"
  proof
    show "fst ` live l' \<subseteq> fst ` live l - {unat ?p}"
    proof
      fix q assume "q \<in> fst ` live l'"
      then obtain m where "(q, m) \<in> live l'" by auto
      then have m: "(q, m) \<in> live l" "(q, m) \<noteq> (unat ?p, n)" unfolding f(3) by simp_all
      then have "q \<noteq> unat ?p" using live_start [OF h(1) n] by blast
      with m(1) show "q \<in> fst ` live l - {unat ?p}" by force
    qed
    show "fst ` live l - {unat ?p} \<subseteq> fst ` live l'"
    proof
      fix q assume "q \<in> fst ` live l - {unat ?p}"
      then obtain m where "(q, m) \<in> live l" "q \<noteq> unat ?p" by auto
      then have "(q, m) \<in> live l'" unfolding f(3) by blast
      then show "q \<in> fst ` live l'" by force
    qed
  qed
  also have "\<dots> = unat ` set ?rest" unfolding h(3) [symmetric] d(3) using d(2) by (auto dest: injD [OF inj_unat] simp: image_iff)
  finally have "holds ?rest s' l'" using f(2) d(1) by (simp add: holds_def)
  with f(1) show ?thesis by blast
qed

lemma run_safe: "holds held s l \<Longrightarrow> \<exists>held' s' l'. heap_run malloc free cs held s = Some (held', s') \<and> holds held' s' l'"
proof (induction cs arbitrary: held s l)
  case (Cons c cs)
  show ?case
  proof (cases c)
    case (Malloc n)
    from holds_malloc [OF Cons.prems, of n] obtain r s' l' where
      "malloc n s = Some (r, s')" "holds (if r = NULL then held else held @ [r]) s' l'" by blast
    with Cons.IH show ?thesis by (auto simp: Malloc)
  next
    case (Free k)
    show ?thesis
    proof (cases "k < length held")
      case True
      from holds_free [OF Cons.prems True] Cons.IH True show ?thesis by (auto simp: Free)
    qed (use Cons Free in auto)
  qed
qed auto

end

text \<open>The regions in use of a layout, and the allocator of the kernel.\<close>

definition live_regions :: "layout \<Rightarrow> (nat \<times> nat) set" where
  "live_regions L = {(unat a + 8, unat n - 8) |a n. (a, n, True) \<in> set L}"

lemma heap_inv_disjoint:
  assumes "tiles x L e" "(a, n, u) \<in> set L" "(b, m, v) \<in> set L" "a \<noteq> b"
  shows "unat a + unat n \<le> unat b \<or> unat b + unat m \<le> unat a"
  using assms
proof (induction L arbitrary: x)
  case (Cons c L)
  obtain p k w where c: "c = (p, k, w)" by (cases c)
  have t: "tiles (x + k) L e" "unat (x + k) = unat x + unat k" "p = x"
    using Cons.prems(1) by (auto simp: c word_add_less)
  have above: "unat x + unat k \<le> unat q" if "(q, j, y) \<in> set L" for q j y
    using tiles_block [OF t(1) that] t(2) by simp
  show ?case using Cons.prems Cons.IH [OF t(1)] above by (auto simp: c t(3))
qed simp

lemma heap_inv_hooks: "heap_inv xStart base (h\<lparr>failed_hooks := k\<rparr>) L = heap_inv xStart base h L"
proof -
  have "chain (h\<lparr>failed_hooks := k\<rparr>) xStart (frees L) e = chain h xStart (frees L) e" for e by (rule chain_cong) simp_all
  then show ?thesis by (simp add: heap_inv_def)
qed

lemma live_carve: "live_regions (L1 @ carve a n w @ L2) =
    insert (unat a + 8, unat (if n - w > 16 then w else n) - 8) (live_regions (L1 @ (a, n, False) # L2))"
  by (auto simp: live_regions_def carve_def)

lemma alloc_request_live:
  assumes inv: "heap_inv xStart base h L" and r: "alloc_request n L = Some (a, L')"
  shows "unat (a + 8) = unat a + 8" "8 dvd unat a" "unat a + 8 \<notin> fst ` live_regions L"
    "\<exists>k \<ge> unat n. live_regions L' = insert (unat a + 8, k) (live_regions L)"
proof -
  have t: "tiles base L (pxEnd h)" "8 dvd unat base" using inv by (simp_all add: heap_inv_def)
  have n: "n \<noteq> 0" "unat n < 2 ^ 31" and al: "alloc (adjust_size n) L = Some (a, L')"
    using r by (auto simp: alloc_request_def split: if_splits)
  from alloc_Some [OF al] obtain L1 m L2 where L: "L = L1 @ (a, m, False) # L2" "adjust_size n \<le> m"
    "L' = L1 @ carve a m (adjust_size n) @ L2" by blast
  have "unat a + unat m \<le> unat (pxEnd h)" "16 \<le> unat m" using tiles_block [OF t(1), of a m False] L(1) by simp_all
  then show a8: "unat (a + 8) = unat a + 8" using unat_bound [of "pxEnd h"] by (intro trans [OF word_add_less]) simp_all
  have "8 dvd unat b" if "tiles x M b" "8 dvd unat x" for x M b
    using that by (induction M arbitrary: x) (auto simp: word_add_less)
  then show "8 dvd unat a" using tiles_split(1) [OF t(1) [unfolded L(1)]] t(2) by blast
  have "a \<in> addrs (frees L)" by (simp add: L(1))
  then have "(a, k, True) \<notin> set L" for k using used_not_free [OF heap_inv_addrs(1) [OF inv]] by blast
  then show "unat a + 8 \<notin> fst ` live_regions L"
    by (auto simp: live_regions_def word_unat_eq_iff [symmetric])
  have "unat (adjust_size n) = 8 * ((unat n + 15) div 8)" using adjust_size_value n by blast
  then have "unat n + 8 \<le> unat (adjust_size n)" by linarith
  moreover have "unat (adjust_size n) \<le> unat m" using L(2) by (simp add: word_le_nat_alt)
  ultimately have "unat n \<le> unat (if m - adjust_size n > 16 then adjust_size n else m) - 8" by auto
  then show "\<exists>k \<ge> unat n. live_regions L' = insert (unat a + 8, k) (live_regions L)"
    unfolding L(1,3) live_carve by blast
qed

lemma live_release:
  assumes inv: "heap_inv xStart base h L" and mem: "(a, n, True) \<in> set L"
  shows "live_regions (release a L) = live_regions L - {(unat a + 8, unat n - 8)}"
proof -
  obtain L1 L2 where L: "L = L1 @ (a, n, True) # L2" using mem by (metis split_list)
  have d: "distinct (map fst L)" using heap_inv_addrs(1) [OF inv] .
  then have "release a L = coalesce (L1 @ (a, n, False) # L2)" using release_mark [of L1 a n True L2] by (simp add: L)
  then have rel: "(b, m, True) \<in> set (release a L) \<longleftrightarrow> (b, m, True) \<in> set L \<and> b \<noteq> a" for b m
    using d by (force simp: used_coalesce L)
  have eq: "m = n" if "(a, m, True) \<in> set L" for m using eq_key_imp_eq_value [OF d mem that] by simp
  show ?thesis
  proof (intro set_eqI iffI)
    fix x assume "x \<in> live_regions (release a L)"
    then obtain b m where "x = (unat b + 8, unat m - 8)" "(b, m, True) \<in> set L" "b \<noteq> a"
      by (auto simp: live_regions_def rel)
    then show "x \<in> live_regions L - {(unat a + 8, unat n - 8)}"
      by (auto simp: live_regions_def word_unat_eq_iff)
  next
    fix x assume x: "x \<in> live_regions L - {(unat a + 8, unat n - 8)}"
    then obtain b m where b: "x = (unat b + 8, unat m - 8)" "(b, m, True) \<in> set L" by (auto simp: live_regions_def)
    then have "b \<noteq> a" using x eq by auto
    with b show "x \<in> live_regions (release a L)" by (auto simp: live_regions_def rel)
  qed
qed

interpretation h4: allocator "heap_inv xStart base" live_regions "pvPortMalloc xStart ucHeap" "vPortFree xStart"
  for xStart base ucHeap
proof
  fix h L p n q m
  assume inv: "heap_inv xStart base h L"
  then have t: "tiles base L (pxEnd h)" by (simp add: heap_inv_def)
  show "p + n \<le> q \<or> q + m \<le> p" if pn: "(p, n) \<in> live_regions L" and qm: "(q, m) \<in> live_regions L" and ne: "(p, n) \<noteq> (q, m)"
  proof -
    obtain a k where a: "(a, k, True) \<in> set L" "p = unat a + 8" "n = unat k - 8" using pn by (auto simp: live_regions_def)
    obtain b l where b: "(b, l, True) \<in> set L" "q = unat b + 8" "m = unat l - 8" using qm by (auto simp: live_regions_def)
    have "a \<noteq> b" using ne a b eq_key_imp_eq_value [OF heap_inv_addrs(1) [OF inv]] by force
    from heap_inv_disjoint [OF t a(1) b(1) this] show ?thesis
      using tiles_block [OF t a(1)] tiles_block [OF t b(1)] a b by auto
  qed
  show "0 < n" if "(p, n) \<in> live_regions L"
    using that tiles_block [OF t] by (fastforce simp: live_regions_def)
next
  fix h L w
  assume inv: "heap_inv xStart base h L"
  from pvPortMalloc_alloc [OF inv, of ucHeap w] obtain r h' where
    m: "pvPortMalloc xStart ucHeap w h = Some (r, h')"
      "case alloc_request w L of None \<Rightarrow> r = NULL \<and> h' = h\<lparr>failed_hooks := Suc (failed_hooks h)\<rparr>
       | Some (a, L') \<Rightarrow> r = a + 8 \<and> r \<noteq> NULL \<and> heap_inv xStart base h' L'" by blast
  show "\<exists>r s' l'. pvPortMalloc xStart ucHeap w h = Some (r, s') \<and> heap_inv xStart base s' l' \<and>
      (if r = NULL then live_regions l' = live_regions L
       else \<exists>k \<ge> unat w. unat r \<notin> fst ` live_regions L \<and> live_regions l' = insert (unat r, k) (live_regions L))"
  proof (cases "alloc_request w L")
    case None
    with m inv show ?thesis by (auto simp: heap_inv_hooks)
  next
    case (Some x)
    obtain a L' where x: "x = (a, L')" by (cases x)
    from m(2) alloc_request_live [OF inv Some [unfolded x]] show ?thesis
      using m(1) by (auto simp: Some x intro!: exI [of _ L'])
  qed
next
  fix h L and r :: u32 and n
  assume inv: "heap_inv xStart base h L" and "(unat r, n) \<in> live_regions L"
  then obtain a k where a: "(a, k, True) \<in> set L" "unat r = unat a + 8" "n = unat k - 8" by (auto simp: live_regions_def)
  have "r = a + 8"
    using a(2) by (metis of_nat_add of_nat_numeral of_nat_unat)
  then show "\<exists>s' l'. vPortFree xStart r h = Some s' \<and> heap_inv xStart base s' l' \<and> live_regions l' = live_regions L - {(unat r, n)}"
    using vPortFree_release [OF inv a(1)] live_release [OF inv a(1)] a(2,3) by auto
qed

section \<open>An allocator in an area of memory\<close>

text \<open>What a client with several kinds of blocks needs: the blocks in use as a set of addresses, and that they lie in the area.\<close>

locale area = allocator inv live malloc free
  for inv :: "'s \<Rightarrow> 'l \<Rightarrow> bool" and live :: "'l \<Rightarrow> (nat \<times> nat) set" and malloc :: "u32 \<Rightarrow> 's \<Rightarrow> (u32 \<times> 's) option"
    and free :: "u32 \<Rightarrow> 's \<Rightarrow> 's option" +
  fixes lo hi :: nat
  assumes live_in: "inv s l \<Longrightarrow> (p, n) \<in> live l \<Longrightarrow> lo \<le> p \<and> p + n \<le> hi"
begin

definition owns :: "u32 set \<Rightarrow> 's \<Rightarrow> 'l \<Rightarrow> bool" where
  "owns B s l \<longleftrightarrow> inv s l \<and> unat ` B = fst ` live l"

lemma owns_malloc:
  assumes "owns B s l"
  shows "\<exists>r s' l'. malloc w s = Some (r, s') \<and>
    (if r = NULL then owns B s' l' \<and> live l' = live l
     else r \<notin> B \<and> owns (insert r B) s' l' \<and> (\<exists>k \<ge> unat w. live l' = insert (unat r, k) (live l)))"
proof -
  have o: "inv s l" "unat ` B = fst ` live l" using assms by (simp_all add: owns_def)
  from malloc_live [OF o(1), of w] obtain r s' l' where
    m: "malloc w s = Some (r, s')" "inv s' l'"
      "if r = NULL then live l' = live l else \<exists>k \<ge> unat w. unat r \<notin> fst ` live l \<and> live l' = insert (unat r, k) (live l)" by blast
  have "if r = NULL then owns B s' l' \<and> live l' = live l
    else r \<notin> B \<and> owns (insert r B) s' l' \<and> (\<exists>k \<ge> unat w. live l' = insert (unat r, k) (live l))"
  proof (cases "r = NULL")
    case False
    then obtain k where k: "unat w \<le> k" "unat r \<notin> fst ` live l" "live l' = insert (unat r, k) (live l)" using m(3) by auto
    moreover have "r \<notin> B" using k(2) o(2) by blast
    ultimately show ?thesis using False m(2) o(2) by (auto simp: owns_def)
  qed (use m o in \<open>simp add: owns_def\<close>)
  with m(1) show ?thesis by blast
qed

lemma owns_free:
  assumes "owns B s l" "r \<in> B"
  shows "\<exists>s' l'. free r s = Some s' \<and> owns (B - {r}) s' l' \<and> (\<forall>p n. (p, n) \<in> live l' \<longleftrightarrow> (p, n) \<in> live l \<and> p \<noteq> unat r)"
proof -
  have o: "inv s l" "unat ` B = fst ` live l" using assms(1) by (simp_all add: owns_def)
  obtain n where n: "(unat r, n) \<in> live l" using o(2) assms(2) by force
  from free_live [OF o(1) n] obtain s' l' where f: "free r s = Some s'" "inv s' l'" "live l' = live l - {(unat r, n)}" by blast
  have l: "(p, m) \<in> live l' \<longleftrightarrow> (p, m) \<in> live l \<and> p \<noteq> unat r" for p m
    using live_start [OF o(1) n] by (auto simp: f(3))
  have "fst ` live l' = fst ` live l - {unat r}" using l by (force simp: image_iff)
  also have "\<dots> = unat ` (B - {r})" unfolding o(2) [symmetric] by (auto simp: word_unat_eq_iff)
  finally have "owns (B - {r}) s' l'" using f(2) by (simp add: owns_def)
  then show ?thesis using f(1) l by blast
qed

text \<open>An address in one block is in no other.\<close>

lemma live_apart:
  assumes "inv s l" "(p, n) \<in> live l" "(q, m) \<in> live l" "p \<noteq> q" "p \<le> x" "x < p + n"
  shows "\<not> (q \<le> x \<and> x < q + m)"
  using live_disjoint [OF assms(1-3)] assms(4-6) by auto

end

text \<open>The heap lies between its first block and its end marker, which no call moves.\<close>

lemma link_block_end: "pxEnd (link_block it b h) = pxEnd h"
  by (simp add: link_block_def Let_def)

lemma insert_block_end:
  assumes "prvInsertBlockIntoFreeList xStart p h = Some h'"
  shows "pxEnd h' = pxEnd h"
proof (cases "find_pos p xStart h")
  case None
  then show ?thesis using assms by (simp add: prvInsertBlockIntoFreeList_def)
next
  case (Some it)
  from prvInsert_link [OF this] assms show ?thesis by (auto simp: link_block_end split: if_splits)
qed

lemma take_block_end: "take_block xStart w p b h = Some (r, h') \<Longrightarrow> pxEnd h' = pxEnd h"
  by (auto simp: take_block_def Let_def dest!: insert_block_end split: bind_splits if_splits)

lemma malloc_end:
  assumes "pvPortMalloc xStart ucHeap w h = Some (r, h')" "pxEnd h \<noteq> NULL"
  shows "pxEnd h' = pxEnd h"
  using assms by (auto simp: pvPortMalloc_def Let_def dest!: take_block_end split: bind_splits if_splits)

lemma free_end: "vPortFree xStart p h = Some h' \<Longrightarrow> pxEnd h' = pxEnd h"
  by (auto simp: vPortFree_def Let_def dest!: insert_block_end split: if_splits)

interpretation ha: area "\<lambda>h L. heap_inv xStart base h L \<and> pxEnd h = e" live_regions "pvPortMalloc xStart ucHeap" "vPortFree xStart"
    "unat base" "unat e"
  for xStart base e ucHeap
proof
  fix h L p n
  assume i: "heap_inv xStart base h L \<and> pxEnd h = e" and pn: "(p, n) \<in> live_regions L"
  have t: "tiles base L e" using i by (auto simp: heap_inv_def)
  obtain a k where "(a, k, True) \<in> set L" "p = unat a + 8" "n = unat k - 8" using pn by (auto simp: live_regions_def)
  then show "unat base \<le> p \<and> p + n \<le> unat e" using tiles_block [OF t] by fastforce
next
  fix h L p n q m
  assume i: "heap_inv xStart base h L \<and> pxEnd h = e"
  show "(p, n) \<in> live_regions L \<Longrightarrow> (q, m) \<in> live_regions L \<Longrightarrow> (p, n) \<noteq> (q, m) \<Longrightarrow> p + n \<le> q \<or> q + m \<le> p"
    using h4.live_disjoint i by blast
  show "(p, n) \<in> live_regions L \<Longrightarrow> 0 < n" using h4.live_pos i by blast
next
  fix h L w
  assume i: "heap_inv xStart base h L \<and> pxEnd h = e"
  from h4.malloc_live [OF conjunct1 [OF i], of ucHeap w] obtain r h' L' where
    m: "pvPortMalloc xStart ucHeap w h = Some (r, h')" "heap_inv xStart base h' L'"
      "if r = NULL then live_regions L' = live_regions L
       else \<exists>k \<ge> unat w. unat r \<notin> fst ` live_regions L \<and> live_regions L' = insert (unat r, k) (live_regions L)" by blast
  moreover have "pxEnd h' = e" using malloc_end [OF m(1)] heap_inv_addrs(5) [OF conjunct1 [OF i]] i by simp
  ultimately show "\<exists>r s' l'. pvPortMalloc xStart ucHeap w h = Some (r, s') \<and> (heap_inv xStart base s' l' \<and> pxEnd s' = e) \<and>
      (if r = NULL then live_regions l' = live_regions L
       else \<exists>k \<ge> unat w. unat r \<notin> fst ` live_regions L \<and> live_regions l' = insert (unat r, k) (live_regions L))" by blast
next
  fix h L and r :: u32 and n
  assume i: "heap_inv xStart base h L \<and> pxEnd h = e" and r: "(unat r, n) \<in> live_regions L"
  from h4.free_live [OF conjunct1 [OF i] r] obtain h' L' where
    f: "vPortFree xStart r h = Some h'" "heap_inv xStart base h' L'" "live_regions L' = live_regions L - {(unat r, n)}" by blast
  then show "\<exists>s' l'. vPortFree xStart r h = Some s' \<and> (heap_inv xStart base s' l' \<and> pxEnd s' = e) \<and> live_regions l' = live_regions L - {(unat r, n)}"
    using free_end [OF f(1)] i by blast
qed

section \<open>Properties\<close>

text \<open>C19: A request that is not zero and below 2 GiB is served by the first free block, in address order, that
  holds it with its header, rounded up to eight bytes; what is more than 16 bytes too long is split off.
  The result is aligned, lies in the new layout as a block in use of sufficient size, and the invariant of
  the heap is kept. Otherwise nothing changes but the hook that is called, the result is null, and there
  was no such block.\<close>

theorem pvPortMalloc_first_fit:
  assumes inv: "heap_inv xStart base h L"
  shows "\<exists>r h'. pvPortMalloc xStart ucHeap n h = Some (r, h') \<and>
    (case alloc_request n L of
       None \<Rightarrow> r = NULL \<and> h' = h\<lparr>failed_hooks := Suc (failed_hooks h)\<rparr> \<and>
         (n = 0 \<or> 2 ^ 31 \<le> unat n \<or> (\<forall>(a, m)\<in>set (frees L). unat m < 8 * ((unat n + 15) div 8)))
     | Some (a, L') \<Rightarrow> r = a + 8 \<and> 8 dvd unat r \<and> heap_inv xStart base h' L' \<and>
         (\<exists>k \<ge> unat n. unat r \<notin> fst ` live_regions L \<and> live_regions L' = insert (unat r, k) (live_regions L)))"
proof -
  from pvPortMalloc_alloc [OF inv, of ucHeap n] obtain r h' where
    m: "pvPortMalloc xStart ucHeap n h = Some (r, h')"
      "case alloc_request n L of None \<Rightarrow> r = NULL \<and> h' = h\<lparr>failed_hooks := Suc (failed_hooks h)\<rparr>
       | Some (a, L') \<Rightarrow> r = a + 8 \<and> r \<noteq> NULL \<and> heap_inv xStart base h' L'" by blast
  show ?thesis
  proof (cases "alloc_request n L")
    case None
    have "n = 0 \<or> 2 ^ 31 \<le> unat n \<or> (\<forall>(a, m)\<in>set (frees L). unat m < 8 * ((unat n + 15) div 8))"
    proof (cases "n = 0 \<or> 2 ^ 31 \<le> unat n")
      case False
      then have "\<forall>(a, m)\<in>set (frees L). m < adjust_size n" using None by (simp add: alloc_request_def alloc_None)
      moreover have "unat (adjust_size n) = 8 * ((unat n + 15) div 8)" using False by (intro adjust_size_value) simp_all
      ultimately show ?thesis by (auto simp: word_less_nat_alt)
    qed blast
    with m None show ?thesis by simp
  next
    case (Some x)
    obtain a L' where x: "x = (a, L')" by (cases x)
    note A = alloc_request_live [OF inv Some [unfolded x]]
    have "8 dvd unat (a + 8)" unfolding A(1) using A(2) by simp
    with m A show ?thesis by (simp add: Some x)
  qed
qed

definition demo_heap :: heap where
  "demo_heap = prvHeapInit 16 4096 \<lparr>pxNextFreeBlock = (\<lambda>_. 0), xBlockSize = (\<lambda>_. 0), pxEnd = 0,
     xFreeBytesRemaining = 0, xMinimumEverFreeBytesRemaining = 0, xBlockAllocatedBit = 0, failed_hooks = 0\<rparr>"

lemma demo_heap_inv: "heap_inv 16 4096 demo_heap [(4096, 4194296, False)]"
proof -
  have "xFreeBytesRemaining demo_heap = 4194296" "heap_base 4096 = 4096"
    by (simp_all add: demo_heap_def prvHeapInit_def heap_base_def Let_def)
  moreover have "heap_inv 16 (heap_base 4096) demo_heap [(heap_base 4096, xFreeBytesRemaining demo_heap, False)]"
    unfolding demo_heap_def by (rule prvHeapInit_inv(1)) simp_all
  ultimately show ?thesis by (simp only:)
qed

theorem pvPortMalloc_first_fit_witness:
  "\<exists>h'. pvPortMalloc 16 4096 100 demo_heap = Some (4104, h') \<and>
     heap_inv 16 4096 h' [(4096, 112, True), (4208, 4194184, False)]"
proof -
  have "alloc_request 100 [(4096, 4194296, False)] = Some (4096, [(4096, 112, True), (4208, 4194184, False)])"
    by (simp add: alloc_request_def adjust_size_def carve_def Let_def)
  with pvPortMalloc_first_fit [OF demo_heap_inv, of 4096 100] show ?thesis by auto
qed

text \<open>Freeing a block in use always succeeds, keeps the invariant and makes exactly that block free: in the
  layout it is joined with the free blocks next to it, the other regions in use stay, and the number of
  free bytes grows by its size. When it was the last one, the heap is one free block again.\<close>

lemma vPortFree_joins:
  assumes inv: "heap_inv xStart base h L" and mem: "(a, n, True) \<in> set L"
  shows "\<exists>h'. vPortFree xStart (a + 8) h = Some h' \<and> heap_inv xStart base h' (release a L) \<and>
    live_regions (release a L) = live_regions L - {(unat a + 8, unat n - 8)} \<and>
    unat (xPortGetFreeHeapSize h') = unat (xPortGetFreeHeapSize h) + unat n \<and>
    (live_regions L = {(unat a + 8, unat n - 8)} \<longrightarrow> release a L = [(base, pxEnd h' - base, False)])"
proof -
  obtain L1 L2 where L: "L = L1 @ (a, n, True) # L2" using mem by (metis split_list)
  from vPortFree_release [OF inv mem] obtain h' where
    h': "vPortFree xStart (a + 8) h = Some h'" "heap_inv xStart base h' (release a L)" by blast
  have I: "tiles base L (pxEnd h)" "unat (xFreeBytesRemaining h) = free_total L" using inv by (simp_all add: heap_inv_def)
  have rel: "release a L = coalesce (L1 @ (a, n, False) # L2)"
    using release_mark [of L1 a n True L2] heap_inv_addrs(1) [OF inv] by (simp add: L)
  have "tiles base (L1 @ (a, n, False) # L2) (pxEnd h)" using I(1) by (auto simp: L tiles_append)
  then have "free_total (release a L) = free_total L + unat n"
    by (simp add: rel free_total_coalesce) (simp add: L free_total_def)
  then have tot: "unat (xPortGetFreeHeapSize h') = unat (xPortGetFreeHeapSize h) + unat n"
    using h'(2) I(2) by (simp add: heap_inv_def xPortGetFreeHeapSize_def)
  have live: "live_regions (release a L) = live_regions L - {(unat a + 8, unat n - 8)}" by (rule live_release [OF inv mem])
  have "release a L = [(base, pxEnd h' - base, False)]" if "live_regions L = {(unat a + 8, unat n - 8)}"
  proof -
    have t: "tiles base (release a L) (pxEnd h')" "coalesced (release a L)" using h'(2) by (simp_all add: heap_inv_def)
    have "\<not> u" if "(b, m, u) \<in> set (release a L)" for b m u
      using that live \<open>live_regions L = _\<close> by (cases u) (auto simp: live_regions_def)
    moreover have "release a L \<noteq> []"
      by (simp add: rel coalesce_Nil)
    ultimately show ?thesis using t
      by (cases "release a L" rule: coalesced.cases) (auto simp: algebra_simps)
  qed
  with h' tot live show ?thesis by blast
qed

text \<open>The block of the example above is returned.\<close>

text \<open>C20: The first request initialises the heap. From there a client may make any sequence of requests and
  returns of what it holds: no call fails to return, and at every moment the regions it holds are exactly the regions in use, which
  are pairwise disjoint.\<close>

theorem heap_client_safe:
  fixes h :: heap
  assumes "0 < unat ucHeap" "unat ucHeap < 2 ^ 31" "xStart \<noteq> NULL"
    and "xStart < ucHeap \<or> ucHeap + configTOTAL_HEAP_SIZE \<le> xStart"
  shows "\<exists>held h' L. heap_run (pvPortMalloc xStart ucHeap) (vPortFree xStart) cs [] (prvHeapInit xStart ucHeap h) = Some (held, h') \<and>
    heap_inv xStart (heap_base ucHeap) h' L \<and> distinct held \<and> unat ` set held = fst ` live_regions L \<and>
    (\<forall>(p, n)\<in>live_regions L. \<forall>(q, m)\<in>live_regions L. (p, n) = (q, m) \<or> p + n \<le> q \<or> q + m \<le> p) \<and>
    (pxEnd h = NULL \<longrightarrow> pvPortMalloc xStart ucHeap w h = pvPortMalloc xStart ucHeap w (prvHeapInit xStart ucHeap h))"
proof -
  let ?h = "prvHeapInit xStart ucHeap h"
  have inv: "heap_inv xStart (heap_base ucHeap) ?h [(heap_base ucHeap, xFreeBytesRemaining ?h, False)]"
    using assms by (rule prvHeapInit_inv(1))
  then have "h4.holds xStart (heap_base ucHeap) [] ?h [(heap_base ucHeap, xFreeBytesRemaining ?h, False)]"
    by (simp add: h4.holds_def live_regions_def)
  from h4.run_safe [OF this, of ucHeap cs] obtain held h' L where
    r: "heap_run (pvPortMalloc xStart ucHeap) (vPortFree xStart) cs [] ?h = Some (held, h')"
      "h4.holds xStart (heap_base ucHeap) held h' L" by blast
  then have i: "heap_inv xStart (heap_base ucHeap) h' L" by (simp add: h4.holds_def)
  have "\<forall>(p, n)\<in>live_regions L. \<forall>(q, m)\<in>live_regions L. (p, n) = (q, m) \<or> p + n \<le> q \<or> q + m \<le> p"
    using h4.live_disjoint [OF i] by fast
  moreover have "pxEnd h = NULL \<longrightarrow> pvPortMalloc xStart ucHeap w h = pvPortMalloc xStart ucHeap w ?h"
    using heap_inv_addrs(5) [OF inv] by (simp add: pvPortMalloc_def)
  ultimately show ?thesis using r i by (auto simp: h4.holds_def)
qed

theorem heap_client_safe_witness:
  "\<exists>held h'. heap_run (pvPortMalloc 16 4096) (vPortFree 16) [Malloc 100, Malloc 20, Free 0, Malloc 5000] []
     (prvHeapInit 16 4096 demo_heap) = Some (held, h')"
  using heap_client_safe [where w = 0, of 4096 16 "[Malloc 100, Malloc 20, Free 0, Malloc 5000]" demo_heap]
  by (auto simp del: heap_run.simps)

end
