(* ===== verification/Rtos_Queue.thy ===== *)
theory Rtos_Queue
  imports Rtos_Mutex Heap4
begin

unbundle bit_operations_syntax

text \<open>
  Queues, semaphores and mutexes, \<^verbatim>\<open>src/ns_guest/lib/freertos/queue.c\<close>: their state and operations. A queue is the
  address of its control block, with the lists of waiting tasks at offsets 16 and 36 of it; its items are copied through the
  byte memory. The configuration has queue sets and a registry, no recursive mutexes and no static allocation; assertions are
  defined away and trace macros left out. A yield is the switch of the task, so a function that blocks ends the model's step with
  another task running: \<open>gap\<close> names the points between the critical sections of a blocking call at which interrupts and other tasks
  act, and the parameter \<open>env\<close> says what they do there on the way round the loop.
\<close>

section \<open>State\<close>

text \<open>The union of the control block is the pair of its words: in a mutex \<open>pcHead\<close> is the type marker, zero, \<open>pcTail\<close> is
  \<open>xMutexHolder\<close> and \<open>pcReadFrom\<close> is \<open>uxRecursiveCallCount\<close>.\<close>

record Queue_t =
  pcHead :: u32
  pcWriteTo :: u32
  pcTail :: u32
  pcReadFrom :: u32
  uxMessagesWaiting :: u32
  uxLength :: u32
  uxItemSize :: u32
  cRxLock :: u8
  cTxLock :: u8
  pxQueueSetContainer :: u32
  uxQueueNumber :: u32
  ucQueueType :: u8

abbreviation uxQueueType :: "Queue_t \<Rightarrow> u32" where "uxQueueType \<equiv> pcHead"
abbreviation queueQUEUE_IS_MUTEX :: u32 where "queueQUEUE_IS_MUTEX \<equiv> 0"
abbreviation xMutexHolder :: "Queue_t \<Rightarrow> u32" where "xMutexHolder \<equiv> pcTail"
abbreviation queueUNLOCKED :: u8 where "queueUNLOCKED \<equiv> - 1"
abbreviation queueLOCKED_UNMODIFIED :: u8 where "queueLOCKED_UNMODIFIED \<equiv> 0"
abbreviation sizeof_Queue_t :: u32 where "sizeof_Queue_t \<equiv> 84"

datatype position = queueSEND_TO_BACK | queueSEND_TO_FRONT | queueOVERWRITE

text \<open>The kernel, the heap, the byte memory, the control blocks and the registry of names and handles.\<close>

record system =
  kern :: kernel
  heap4 :: heap
  bytes :: "u32 \<Rightarrow> u8"
  queues :: "u32 \<Rightarrow> Queue_t"
  xQueueRegistry :: "(u32 \<times> u32) list"

definition xTasksWaitingToSend :: "u32 \<Rightarrow> u32" where
  "xTasksWaitingToSend q = q + 16"

definition xTasksWaitingToReceive :: "u32 \<Rightarrow> u32" where
  "xTasksWaitingToReceive q = q + 36"

definition set_queue :: "u32 \<Rightarrow> (Queue_t \<Rightarrow> Queue_t) \<Rightarrow> system \<Rightarrow> system" where
  "set_queue q f s = s\<lparr>queues := (queues s)(q := f (queues s q))\<rparr>"

definition in_kernel :: "(kernel \<Rightarrow> kernel) \<Rightarrow> system \<Rightarrow> system" where
  "in_kernel f s = s\<lparr>kern := f (kern s)\<rparr>"

definition yield :: "system \<Rightarrow> system option" where
  "yield s = map_option (\<lambda>k. s\<lparr>kern := k\<rparr>) (vTaskSwitchContext (kern s))"

definition suspend_all :: "system \<Rightarrow> system" where
  "suspend_all = in_kernel vTaskSuspendAll"

definition resume_all :: "system \<Rightarrow> (bool \<times> system) option" where
  "resume_all s = map_option (map_prod id (\<lambda>k. s\<lparr>kern := k\<rparr>)) (xTaskResumeAll (kern s))"

text \<open>Waking the first task of an event list, if there is one; the flag asks for a switch.\<close>

definition wake_one :: "u32 \<Rightarrow> system \<Rightarrow> bool \<times> system" where
  "wake_one pxEventList s =
     (if \<not> listLIST_IS_EMPTY pxEventList (kl (kern s))
      then let (r, k) = xTaskRemoveFromEventList pxEventList (kern s) in (r, s\<lparr>kern := k\<rparr>)
      else (False, s))"

section \<open>Copying items\<close>

text \<open>\<open>memcpy\<close> of \<open>n\<close> bytes to \<open>dst\<close>; the source is given by its bytes.\<close>

definition copy_in :: "u32 \<Rightarrow> u32 \<Rightarrow> (u32 \<Rightarrow> u8) \<Rightarrow> (u32 \<Rightarrow> u8) \<Rightarrow> u32 \<Rightarrow> u8" where
  "copy_in dst n item m = (\<lambda>a. if a - dst < n then item (a - dst) else m a)"

definition item_at :: "u32 \<Rightarrow> (u32 \<Rightarrow> u8) \<Rightarrow> u32 \<Rightarrow> u8" where
  "item_at p m = (\<lambda>i. m (p + i))"

definition prvCopyDataToQueue :: "u32 \<Rightarrow> (u32 \<Rightarrow> u8) \<Rightarrow> position \<Rightarrow> system \<Rightarrow> bool \<times> system" where
  "prvCopyDataToQueue q item xPosition s =
     (let Q = queues s q;
          n = uxMessagesWaiting Q;
          (xReturn, n, s) =
            (if uxItemSize Q = 0
             then if uxQueueType Q = queueQUEUE_IS_MUTEX
                  then let (r, k) = xTaskPriorityDisinherit (xMutexHolder Q) (kern s)
                       in (r, n, set_queue q (\<lambda>Q. Q\<lparr>pcTail := 0\<rparr>) (s\<lparr>kern := k\<rparr>))
                  else (False, n, s)
             else if xPosition = queueSEND_TO_BACK
             then let s = s\<lparr>bytes := copy_in (pcWriteTo Q) (uxItemSize Q) item (bytes s)\<rparr>;
                      w = pcWriteTo Q + uxItemSize Q
                  in (False, n, set_queue q (\<lambda>Q. Q\<lparr>pcWriteTo := if w \<ge> pcTail Q then pcHead Q else w\<rparr>) s)
             else let s = s\<lparr>bytes := copy_in (pcReadFrom Q) (uxItemSize Q) item (bytes s)\<rparr>;
                      r = pcReadFrom Q - uxItemSize Q;
                      s = set_queue q (\<lambda>Q. Q\<lparr>pcReadFrom := if r < pcHead Q then pcTail Q - uxItemSize Q else r\<rparr>) s
                  in (False, if xPosition = queueOVERWRITE \<and> n > 0 then n - 1 else n, s))
      in (xReturn, set_queue q (\<lambda>Q. Q\<lparr>uxMessagesWaiting := n + 1\<rparr>) s))"

definition prvCopyDataFromQueue :: "u32 \<Rightarrow> u32 \<Rightarrow> system \<Rightarrow> system" where
  "prvCopyDataFromQueue q pvBuffer s =
     (let Q = queues s q
      in if uxItemSize Q \<noteq> 0
         then let r = pcReadFrom Q + uxItemSize Q;
                  r = (if r \<ge> pcTail Q then pcHead Q else r);
                  s = set_queue q (\<lambda>Q. Q\<lparr>pcReadFrom := r\<rparr>) s
              in s\<lparr>bytes := copy_in pvBuffer (uxItemSize Q) (item_at r (bytes s)) (bytes s)\<rparr>
         else s)"

definition prvIsQueueEmpty :: "u32 \<Rightarrow> system \<Rightarrow> bool" where
  "prvIsQueueEmpty q s \<longleftrightarrow> uxMessagesWaiting (queues s q) = 0"

definition prvIsQueueFull :: "u32 \<Rightarrow> system \<Rightarrow> bool" where
  "prvIsQueueFull q s \<longleftrightarrow> uxMessagesWaiting (queues s q) = uxLength (queues s q)"

section \<open>Queue sets\<close>

text \<open>The item posted to a set is the handle of the member, in the byte order of the processor.\<close>

definition handle_bytes :: "u32 \<Rightarrow> u32 \<Rightarrow> u8" where
  "handle_bytes q = (\<lambda>i. ucast (drop_bit (8 * unat i) q))"

definition prvNotifyQueueSetContainer :: "u32 \<Rightarrow> position \<Rightarrow> system \<Rightarrow> bool \<times> system" where
  "prvNotifyQueueSetContainer q xCopyPosition s =
     (let c = pxQueueSetContainer (queues s q)
      in if uxMessagesWaiting (queues s c) < uxLength (queues s c)
         then let lock = cTxLock (queues s c);
                  (xReturn, s) = prvCopyDataToQueue c (handle_bytes q) xCopyPosition s
              in if lock = queueUNLOCKED
                 then let (r, s) = wake_one (xTasksWaitingToReceive c) s in (if r then True else xReturn, s)
                 else (xReturn, set_queue c (\<lambda>Q. Q\<lparr>cTxLock := lock + 1\<rparr>) s)
         else (False, s))"

definition xQueueAddToSet :: "u32 \<Rightarrow> u32 \<Rightarrow> system \<Rightarrow> bool \<times> system" where
  "xQueueAddToSet q xQueueSet s =
     (if pxQueueSetContainer (queues s q) \<noteq> 0 then (False, s)
      else if uxMessagesWaiting (queues s q) \<noteq> 0 then (False, s)
      else (True, set_queue q (\<lambda>Q. Q\<lparr>pxQueueSetContainer := xQueueSet\<rparr>) s))"

definition xQueueRemoveFromSet :: "u32 \<Rightarrow> u32 \<Rightarrow> system \<Rightarrow> bool \<times> system" where
  "xQueueRemoveFromSet q xQueueSet s =
     (if pxQueueSetContainer (queues s q) \<noteq> xQueueSet then (False, s)
      else if uxMessagesWaiting (queues s q) \<noteq> 0 then (False, s)
      else (True, set_queue q (\<lambda>Q. Q\<lparr>pxQueueSetContainer := 0\<rparr>) s))"

section \<open>Locking\<close>

definition prvLockQueue :: "u32 \<Rightarrow> system \<Rightarrow> system" where
  "prvLockQueue q s =
     (let s = (if cRxLock (queues s q) = queueUNLOCKED then set_queue q (\<lambda>Q. Q\<lparr>cRxLock := queueLOCKED_UNMODIFIED\<rparr>) s else s)
      in if cTxLock (queues s q) = queueUNLOCKED then set_queue q (\<lambda>Q. Q\<lparr>cTxLock := queueLOCKED_UNMODIFIED\<rparr>) s else s)"

text \<open>The two loops of \<open>prvUnlockQueue\<close>, which count the lock down from its value, a signed character.\<close>

definition missed_yield :: "bool \<times> system \<Rightarrow> system" where
  "missed_yield rs = (if fst rs then in_kernel vTaskMissedYield (snd rs) else snd rs)"

fun unlock_tx_loop :: "nat \<Rightarrow> u32 \<Rightarrow> system \<Rightarrow> system" where
  "unlock_tx_loop 0 q s = s"
| "unlock_tx_loop (Suc n) q s =
     (if pxQueueSetContainer (queues s q) \<noteq> 0
      then unlock_tx_loop n q (missed_yield (prvNotifyQueueSetContainer q queueSEND_TO_BACK s))
      else if \<not> listLIST_IS_EMPTY (xTasksWaitingToReceive q) (kl (kern s))
      then unlock_tx_loop n q (missed_yield (wake_one (xTasksWaitingToReceive q) s))
      else s)"

fun unlock_rx_loop :: "nat \<Rightarrow> u32 \<Rightarrow> system \<Rightarrow> system" where
  "unlock_rx_loop 0 q s = s"
| "unlock_rx_loop (Suc n) q s =
     (if \<not> listLIST_IS_EMPTY (xTasksWaitingToSend q) (kl (kern s))
      then unlock_rx_loop n q (missed_yield (wake_one (xTasksWaitingToSend q) s))
      else s)"

definition prvUnlockQueue :: "u32 \<Rightarrow> (system \<Rightarrow> system) \<Rightarrow> system \<Rightarrow> system" where
  "prvUnlockQueue q between s =
     (let s = unlock_tx_loop (nat (sint (cTxLock (queues s q)))) q s;
          s = set_queue q (\<lambda>Q. Q\<lparr>cTxLock := queueUNLOCKED\<rparr>) s;
          s = between s;
          s = unlock_rx_loop (nat (sint (cRxLock (queues s q)))) q s
      in set_queue q (\<lambda>Q. Q\<lparr>cRxLock := queueUNLOCKED\<rparr>) s)"

section \<open>Blocking\<close>

text \<open>The points of a blocking call at which interrupts are open, named by what comes next; between \<open>Locking\<close> and \<open>Resuming\<close> the
  scheduler is suspended, so only interrupts act.\<close>

datatype gap = Suspending | Locking | Checking | Testing | Inheriting | Placing | Unlocking | Unlocking_rx | Resuming | Retrying
  | Disinheriting | Looping

text \<open>The part of the four blocking functions outside their first critical section, from \<open>vTaskSuspendAll\<close> on: \<open>l\<close> is the event list,
  \<open>blocked\<close> the test that the queue is still full or empty, \<open>prepare\<close> what a mutex does before the task is placed on
  the list. The result says whether the time has expired; a task that blocks has been switched out before \<open>Retrying\<close>.\<close>

definition wait_section ::
  "(gap \<Rightarrow> system \<Rightarrow> system) \<Rightarrow> u32 \<Rightarrow> u32 \<Rightarrow> (system \<Rightarrow> bool) \<Rightarrow> (system \<Rightarrow> 'a \<times> system) \<Rightarrow> 'a \<Rightarrow> TimeOut \<Rightarrow> u32 \<Rightarrow> system \<Rightarrow>
     (bool \<times> 'a \<times> TimeOut \<times> u32 \<times> system) option" where
  "wait_section env q l blocked prepare x xTimeOut xTicksToWait s =
     do { let s = suspend_all (env Suspending s);
          let s = prvLockQueue q (env Locking s);
          let s = env Checking s;
          let (expired, xTimeOut, xTicksToWait) = xTaskCheckForTimeOut xTimeOut xTicksToWait (kern s);
          if \<not> expired
          then let s = env Testing s
               in if blocked s
                  then do { let (x, s) = prepare (env Inheriting s);
                            let s = env Placing s;
                            k \<leftarrow> vTaskPlaceOnEventList l xTicksToWait (kern s);
                            let s = env Unlocking (s\<lparr>kern := k\<rparr>);
                            let s = prvUnlockQueue q (env Unlocking_rx) s;
                            (r, s) \<leftarrow> resume_all (env Resuming s);
                            s \<leftarrow> (if \<not> r then yield s else Some s);
                            Some (False, x, xTimeOut, xTicksToWait, env Retrying s) }
                  else do { let s = prvUnlockQueue q (env Unlocking_rx) (env Unlocking s);
                            (r, s) \<leftarrow> resume_all (env Resuming s);
                            Some (False, x, xTimeOut, xTicksToWait, env Retrying s) }
          else do { let s = prvUnlockQueue q (env Unlocking_rx) (env Unlocking s);
                    (r, s) \<leftarrow> resume_all (env Resuming s);
                    Some (True, x, xTimeOut, xTicksToWait, env Retrying s) } }"

text \<open>The time of entry is taken once.\<close>

definition entry_time :: "TimeOut option \<Rightarrow> system \<Rightarrow> TimeOut" where
  "entry_time xTimeOut s = (case xTimeOut of None \<Rightarrow> vTaskInternalSetTimeOutState (kern s) | Some t \<Rightarrow> t)"

section \<open>Sending\<close>

text \<open>The first critical section, when there is room.\<close>

definition send_now :: "u32 \<Rightarrow> u32 \<Rightarrow> position \<Rightarrow> system \<Rightarrow> system option" where
  "send_now q pvItemToQueue xCopyPosition s =
     (let uxPreviousMessagesWaiting = uxMessagesWaiting (queues s q);
          (xYieldRequired, s) = prvCopyDataToQueue q (item_at pvItemToQueue (bytes s)) xCopyPosition s
      in if pxQueueSetContainer (queues s q) \<noteq> 0
         then if xCopyPosition = queueOVERWRITE \<and> uxPreviousMessagesWaiting \<noteq> 0 then Some s
              else let (r, s) = prvNotifyQueueSetContainer q xCopyPosition s in if r then yield s else Some s
         else if \<not> listLIST_IS_EMPTY (xTasksWaitingToReceive q) (kl (kern s))
         then let (r, s) = wake_one (xTasksWaitingToReceive q) s in if r then yield s else Some s
         else if xYieldRequired then yield s else Some s)"

partial_function (option) xQueueGenericSend_loop ::
  "(nat \<Rightarrow> gap \<Rightarrow> system \<Rightarrow> system) \<Rightarrow> nat \<Rightarrow> u32 \<Rightarrow> u32 \<Rightarrow> u32 \<Rightarrow> position \<Rightarrow> TimeOut option \<Rightarrow> system \<Rightarrow> (bool \<times> system) option" where
  "xQueueGenericSend_loop env n q pvItemToQueue xTicksToWait xCopyPosition xTimeOut s =
     (if uxMessagesWaiting (queues s q) < uxLength (queues s q) \<or> xCopyPosition = queueOVERWRITE
      then map_option (Pair True) (send_now q pvItemToQueue xCopyPosition s)
      else if xTicksToWait = 0 then Some (False, s)
      else do { (expired, _, xTimeOut, xTicksToWait, s) \<leftarrow>
                  wait_section (env n) q (xTasksWaitingToSend q) (prvIsQueueFull q) (Pair ()) () (entry_time xTimeOut s) xTicksToWait s;
                if expired then Some (False, s)
                else xQueueGenericSend_loop env (Suc n) q pvItemToQueue xTicksToWait xCopyPosition (Some xTimeOut) (env n Looping s) })"

definition xQueueGenericSend ::
  "(nat \<Rightarrow> gap \<Rightarrow> system \<Rightarrow> system) \<Rightarrow> u32 \<Rightarrow> u32 \<Rightarrow> u32 \<Rightarrow> position \<Rightarrow> system \<Rightarrow> (bool \<times> system) option" where
  "xQueueGenericSend env q pvItemToQueue xTicksToWait xCopyPosition s =
     xQueueGenericSend_loop env 0 q pvItemToQueue xTicksToWait xCopyPosition None s"

text \<open>From an interrupt: the caller's flag is set when a task of higher priority was woken.\<close>

definition notify_from_isr :: "u32 \<Rightarrow> position \<Rightarrow> bool \<Rightarrow> system \<Rightarrow> bool \<times> system" where
  "notify_from_isr q xCopyPosition woken s =
     (let (r, s) = (if pxQueueSetContainer (queues s q) \<noteq> 0 then prvNotifyQueueSetContainer q xCopyPosition s
                    else wake_one (xTasksWaitingToReceive q) s)
      in (if r then True else woken, s))"

definition xQueueGenericSendFromISR :: "u32 \<Rightarrow> u32 \<Rightarrow> position \<Rightarrow> bool \<Rightarrow> system \<Rightarrow> bool \<times> bool \<times> system" where
  "xQueueGenericSendFromISR q pvItemToQueue xCopyPosition woken s =
     (if uxMessagesWaiting (queues s q) < uxLength (queues s q) \<or> xCopyPosition = queueOVERWRITE
      then let lock = cTxLock (queues s q);
               s = snd (prvCopyDataToQueue q (item_at pvItemToQueue (bytes s)) xCopyPosition s)
           in if lock = queueUNLOCKED
              then let (woken, s) = notify_from_isr q xCopyPosition woken s in (True, woken, s)
              else (True, woken, set_queue q (\<lambda>Q. Q\<lparr>cTxLock := lock + 1\<rparr>) s)
      else (False, woken, s))"

definition xQueueGiveFromISR :: "u32 \<Rightarrow> bool \<Rightarrow> system \<Rightarrow> bool \<times> bool \<times> system" where
  "xQueueGiveFromISR q woken s =
     (if uxMessagesWaiting (queues s q) < uxLength (queues s q)
      then let lock = cTxLock (queues s q);
               s = set_queue q (\<lambda>Q. Q\<lparr>uxMessagesWaiting := uxMessagesWaiting Q + 1\<rparr>) s
           in if lock = queueUNLOCKED
              then let (woken, s) = notify_from_isr q queueSEND_TO_BACK woken s in (True, woken, s)
              else (True, woken, set_queue q (\<lambda>Q. Q\<lparr>cTxLock := lock + 1\<rparr>) s)
      else (False, woken, s))"

section \<open>Receiving\<close>

definition wake_and_yield :: "u32 \<Rightarrow> system \<Rightarrow> system option" where
  "wake_and_yield l s = (let (r, s) = wake_one l s in if r then yield s else Some s)"

definition receive_now :: "u32 \<Rightarrow> u32 \<Rightarrow> system \<Rightarrow> system option" where
  "receive_now q pvBuffer s =
     (let n = uxMessagesWaiting (queues s q);
          s = prvCopyDataFromQueue q pvBuffer s;
          s = set_queue q (\<lambda>Q. Q\<lparr>uxMessagesWaiting := n - 1\<rparr>) s
      in wake_and_yield (xTasksWaitingToSend q) s)"

definition peek_now :: "u32 \<Rightarrow> u32 \<Rightarrow> system \<Rightarrow> system option" where
  "peek_now q pvBuffer s =
     (let pcOriginalReadPosition = pcReadFrom (queues s q);
          s = prvCopyDataFromQueue q pvBuffer s;
          s = set_queue q (\<lambda>Q. Q\<lparr>pcReadFrom := pcOriginalReadPosition\<rparr>) s
      in wake_and_yield (xTasksWaitingToReceive q) s)"

text \<open>The loops of \<open>xQueueReceive\<close> and \<open>xQueuePeek\<close> differ in the first critical section only, the argument \<open>now\<close>.\<close>

partial_function (option) receive_loop ::
  "(system \<Rightarrow> system option) \<Rightarrow> (nat \<Rightarrow> gap \<Rightarrow> system \<Rightarrow> system) \<Rightarrow> nat \<Rightarrow> u32 \<Rightarrow> u32 \<Rightarrow> TimeOut option \<Rightarrow> system \<Rightarrow> (bool \<times> system) option" where
  "receive_loop now env n q xTicksToWait xTimeOut s =
     (if uxMessagesWaiting (queues s q) > 0 then map_option (Pair True) (now s)
      else if xTicksToWait = 0 then Some (False, s)
      else do { (expired, _, xTimeOut, xTicksToWait, s) \<leftarrow>
                  wait_section (env n) q (xTasksWaitingToReceive q) (prvIsQueueEmpty q) (Pair ()) () (entry_time xTimeOut s) xTicksToWait s;
                if expired \<and> prvIsQueueEmpty q s then Some (False, s)
                else receive_loop now env (Suc n) q xTicksToWait (Some xTimeOut) (env n Looping s) })"

definition xQueueReceive :: "(nat \<Rightarrow> gap \<Rightarrow> system \<Rightarrow> system) \<Rightarrow> u32 \<Rightarrow> u32 \<Rightarrow> u32 \<Rightarrow> system \<Rightarrow> (bool \<times> system) option" where
  "xQueueReceive env q pvBuffer xTicksToWait s = receive_loop (receive_now q pvBuffer) env 0 q xTicksToWait None s"

definition xQueuePeek :: "(nat \<Rightarrow> gap \<Rightarrow> system \<Rightarrow> system) \<Rightarrow> u32 \<Rightarrow> u32 \<Rightarrow> u32 \<Rightarrow> system \<Rightarrow> (bool \<times> system) option" where
  "xQueuePeek env q pvBuffer xTicksToWait s = receive_loop (peek_now q pvBuffer) env 0 q xTicksToWait None s"

definition xQueueReceiveFromISR :: "u32 \<Rightarrow> u32 \<Rightarrow> bool \<Rightarrow> system \<Rightarrow> bool \<times> bool \<times> system" where
  "xQueueReceiveFromISR q pvBuffer woken s =
     (if uxMessagesWaiting (queues s q) > 0
      then let n = uxMessagesWaiting (queues s q);
               lock = cRxLock (queues s q);
               s = prvCopyDataFromQueue q pvBuffer s;
               s = set_queue q (\<lambda>Q. Q\<lparr>uxMessagesWaiting := n - 1\<rparr>) s
           in if lock = queueUNLOCKED
              then let (r, s) = wake_one (xTasksWaitingToSend q) s in (True, if r then True else woken, s)
              else (True, woken, set_queue q (\<lambda>Q. Q\<lparr>cRxLock := lock + 1\<rparr>) s)
      else (False, woken, s))"

definition xQueuePeekFromISR :: "u32 \<Rightarrow> u32 \<Rightarrow> system \<Rightarrow> bool \<times> system" where
  "xQueuePeekFromISR q pvBuffer s =
     (if uxMessagesWaiting (queues s q) > 0
      then let pcOriginalReadPosition = pcReadFrom (queues s q);
               s = prvCopyDataFromQueue q pvBuffer s
           in (True, set_queue q (\<lambda>Q. Q\<lparr>pcReadFrom := pcOriginalReadPosition\<rparr>) s)
      else (False, s))"

definition uxQueueMessagesWaiting :: "u32 \<Rightarrow> system \<Rightarrow> u32" where
  "uxQueueMessagesWaiting q s = uxMessagesWaiting (queues s q)"

definition uxQueueSpacesAvailable :: "u32 \<Rightarrow> system \<Rightarrow> u32" where
  "uxQueueSpacesAvailable q s = uxLength (queues s q) - uxMessagesWaiting (queues s q)"

definition uxQueueMessagesWaitingFromISR :: "u32 \<Rightarrow> system \<Rightarrow> u32" where
  "uxQueueMessagesWaitingFromISR q s = uxMessagesWaiting (queues s q)"

definition xQueueIsQueueFullFromISR :: "u32 \<Rightarrow> system \<Rightarrow> bool" where
  "xQueueIsQueueFullFromISR q s = (uxMessagesWaiting (queues s q) = uxLength (queues s q))"

definition uxQueueGetQueueNumber :: "u32 \<Rightarrow> system \<Rightarrow> u32" where
  "uxQueueGetQueueNumber q s = uxQueueNumber (queues s q)"

definition vQueueSetQueueNumber :: "u32 \<Rightarrow> u32 \<Rightarrow> system \<Rightarrow> system" where
  "vQueueSetQueueNumber q n s = set_queue q (\<lambda>Q. Q\<lparr>uxQueueNumber := n\<rparr>) s"

definition ucQueueGetQueueType :: "u32 \<Rightarrow> system \<Rightarrow> u8" where
  "ucQueueGetQueueType q s = ucQueueType (queues s q)"

definition xQueueIsQueueEmptyFromISR :: "u32 \<Rightarrow> system \<Rightarrow> bool" where
  "xQueueIsQueueEmptyFromISR q s \<longleftrightarrow> uxMessagesWaiting (queues s q) = 0"

text \<open>The value of a local variable at the address \<open>local\<close>, little endian.\<close>

definition load_u32 :: "u32 \<Rightarrow> (u32 \<Rightarrow> u8) \<Rightarrow> u32" where
  "load_u32 a m = ucast (m a) OR push_bit 8 (ucast (m (a + 1))) OR push_bit 16 (ucast (m (a + 2))) OR push_bit 24 (ucast (m (a + 3)))"

definition xQueueSelectFromSet :: "(nat \<Rightarrow> gap \<Rightarrow> system \<Rightarrow> system) \<Rightarrow> u32 \<Rightarrow> u32 \<Rightarrow> u32 \<Rightarrow> system \<Rightarrow> (u32 \<times> system) option" where
  "xQueueSelectFromSet env local xQueueSet xTicksToWait s =
     do { let s = s\<lparr>bytes := copy_in local 4 (\<lambda>_. 0) (bytes s)\<rparr>;
          (_, s) \<leftarrow> xQueueReceive env xQueueSet local xTicksToWait s;
          Some (load_u32 local (bytes s), s) }"

definition xQueueSelectFromSetFromISR :: "u32 \<Rightarrow> u32 \<Rightarrow> system \<Rightarrow> u32 \<times> system" where
  "xQueueSelectFromSetFromISR local xQueueSet s =
     (let s = s\<lparr>bytes := copy_in local 4 (\<lambda>_. 0) (bytes s)\<rparr>;
          (_, _, s) = xQueueReceiveFromISR xQueueSet local False s
      in (load_u32 local (bytes s), s))"

section \<open>Semaphores and mutexes\<close>

definition take_now :: "u32 \<Rightarrow> system \<Rightarrow> system option" where
  "take_now q s =
     (let n = uxMessagesWaiting (queues s q);
          s = set_queue q (\<lambda>Q. Q\<lparr>uxMessagesWaiting := n - 1\<rparr>) s;
          s = (if uxQueueType (queues s q) = queueQUEUE_IS_MUTEX
               then let (h, k) = pvTaskIncrementMutexHeldCount (kern s)
                    in set_queue q (\<lambda>Q. Q\<lparr>pcTail := h\<rparr>) (s\<lparr>kern := k\<rparr>)
               else s)
      in wake_and_yield (xTasksWaitingToSend q) s)"

text \<open>Before a task waits for a mutex it lends its priority to the holder.\<close>

definition lend_priority :: "u32 \<Rightarrow> bool \<Rightarrow> system \<Rightarrow> bool \<times> system" where
  "lend_priority q xInheritanceOccurred s =
     (if uxQueueType (queues s q) = queueQUEUE_IS_MUTEX
      then let (r, k) = xTaskPriorityInherit (xMutexHolder (queues s q)) (kern s) in (r, s\<lparr>kern := k\<rparr>)
      else (xInheritanceOccurred, s))"

definition prvGetDisinheritPriorityAfterTimeout :: "u32 \<Rightarrow> system \<Rightarrow> u32" where
  "prvGetDisinheritPriorityAfterTimeout q s =
     (if listCURRENT_LIST_LENGTH (xTasksWaitingToReceive q) (kl (kern s)) > 0
      then configMAX_PRIORITIES - listGET_ITEM_VALUE_OF_HEAD_ENTRY (xTasksWaitingToReceive q) (kl (kern s))
      else 0)"

definition take_back_priority :: "u32 \<Rightarrow> system \<Rightarrow> system" where
  "take_back_priority q s =
     in_kernel (vTaskPriorityDisinheritAfterTimeout (xMutexHolder (queues s q)) (prvGetDisinheritPriorityAfterTimeout q s)) s"

partial_function (option) xQueueSemaphoreTake_loop ::
  "(nat \<Rightarrow> gap \<Rightarrow> system \<Rightarrow> system) \<Rightarrow> nat \<Rightarrow> u32 \<Rightarrow> u32 \<Rightarrow> TimeOut option \<Rightarrow> bool \<Rightarrow> system \<Rightarrow> (bool \<times> system) option" where
  "xQueueSemaphoreTake_loop env n q xTicksToWait xTimeOut xInheritanceOccurred s =
     (if uxMessagesWaiting (queues s q) > 0 then map_option (Pair True) (take_now q s)
      else if xTicksToWait = 0 then Some (False, s)
      else do { (expired, xInheritanceOccurred, xTimeOut, xTicksToWait, s) \<leftarrow>
                  wait_section (env n) q (xTasksWaitingToReceive q) (prvIsQueueEmpty q) (lend_priority q xInheritanceOccurred)
                    xInheritanceOccurred (entry_time xTimeOut s) xTicksToWait s;
                if expired \<and> prvIsQueueEmpty q s
                then Some (False, if xInheritanceOccurred then take_back_priority q (env n Disinheriting s) else s)
                else xQueueSemaphoreTake_loop env (Suc n) q xTicksToWait (Some xTimeOut) xInheritanceOccurred (env n Looping s) })"

definition xQueueSemaphoreTake :: "(nat \<Rightarrow> gap \<Rightarrow> system \<Rightarrow> system) \<Rightarrow> u32 \<Rightarrow> u32 \<Rightarrow> system \<Rightarrow> (bool \<times> system) option" where
  "xQueueSemaphoreTake env q xTicksToWait s = xQueueSemaphoreTake_loop env 0 q xTicksToWait None False s"

section \<open>The timer task\<close>

definition vTaskPlaceOnEventListRestricted :: "u32 \<Rightarrow> u32 \<Rightarrow> bool \<Rightarrow> kernel \<Rightarrow> kernel option" where
  "vTaskPlaceOnEventListRestricted pxEventList xTicksToWait xWaitIndefinitely s =
     (let s = s\<lparr>kl := vListInsertEnd pxEventList (xEventListItem (pxCurrentTCB s)) (kl s)\<rparr>;
          xTicksToWait = (if xWaitIndefinitely then portMAX_DELAY else xTicksToWait)
      in prvAddCurrentTaskToDelayedList xTicksToWait xWaitIndefinitely s)"

definition vQueueWaitForMessageRestricted :: "(gap \<Rightarrow> system \<Rightarrow> system) \<Rightarrow> u32 \<Rightarrow> u32 \<Rightarrow> bool \<Rightarrow> system \<Rightarrow> system option" where
  "vQueueWaitForMessageRestricted env q xTicksToWait xWaitIndefinitely s =
     do { let s = env Testing (prvLockQueue q s);
          s \<leftarrow> (if uxMessagesWaiting (queues s q) = 0
               then map_option (\<lambda>k. s\<lparr>kern := k\<rparr>)
                      (vTaskPlaceOnEventListRestricted (xTasksWaitingToReceive q) xTicksToWait xWaitIndefinitely (kern s))
               else Some s);
          Some (prvUnlockQueue q (env Unlocking_rx) (env Unlocking s)) }"

section \<open>Creating and deleting\<close>

definition xQueueGenericReset :: "u32 \<Rightarrow> bool \<Rightarrow> system \<Rightarrow> system option" where
  "xQueueGenericReset q xNewQueue s =
     (let s = set_queue q (\<lambda>Q. Q\<lparr>pcTail := pcHead Q + uxLength Q * uxItemSize Q, uxMessagesWaiting := 0, pcWriteTo := pcHead Q,
                pcReadFrom := pcHead Q + (uxLength Q - 1) * uxItemSize Q, cRxLock := queueUNLOCKED, cTxLock := queueUNLOCKED\<rparr>) s
      in if \<not> xNewQueue then wake_and_yield (xTasksWaitingToSend q) s
         else Some (in_kernel (\<lambda>k. k\<lparr>kl := vListInitialise (xTasksWaitingToReceive q) (vListInitialise (xTasksWaitingToSend q) (kl k))\<rparr>) s))"

definition prvInitialiseNewQueue :: "u32 \<Rightarrow> u32 \<Rightarrow> u32 \<Rightarrow> u8 \<Rightarrow> u32 \<Rightarrow> system \<Rightarrow> system option" where
  "prvInitialiseNewQueue uxQueueLength itemSize pucQueueStorage type pxNewQueue s =
     do { let s = set_queue pxNewQueue (\<lambda>Q. Q\<lparr>pcHead := if itemSize = 0 then pxNewQueue else pucQueueStorage\<rparr>) s;
          let s = set_queue pxNewQueue (\<lambda>Q. Q\<lparr>uxLength := uxQueueLength, uxItemSize := itemSize\<rparr>) s;
          s \<leftarrow> xQueueGenericReset pxNewQueue True s;
          Some (set_queue pxNewQueue (\<lambda>Q. Q\<lparr>ucQueueType := type, pxQueueSetContainer := 0\<rparr>) s) }"

text \<open>The addresses of the variables of the allocator are those of \<open>Heap4\<close>.\<close>

definition xQueueGenericCreate :: "u32 \<Rightarrow> u32 \<Rightarrow> u32 \<Rightarrow> u32 \<Rightarrow> u8 \<Rightarrow> system \<Rightarrow> (u32 \<times> system) option" where
  "xQueueGenericCreate xStart ucHeap uxQueueLength itemSize type s =
     do { let xQueueSizeInBytes = (if itemSize = 0 then 0 else uxQueueLength * itemSize);
          (pxNewQueue, h) \<leftarrow> pvPortMalloc xStart ucHeap (sizeof_Queue_t + xQueueSizeInBytes) (heap4 s);
          let s = s\<lparr>heap4 := h\<rparr>;
          s \<leftarrow> (if pxNewQueue \<noteq> NULL
               then prvInitialiseNewQueue uxQueueLength itemSize (pxNewQueue + sizeof_Queue_t) type pxNewQueue s
               else Some s);
          Some (pxNewQueue, s) }"

definition prvInitialiseMutex :: "(nat \<Rightarrow> gap \<Rightarrow> system \<Rightarrow> system) \<Rightarrow> u32 \<Rightarrow> system \<Rightarrow> system option" where
  "prvInitialiseMutex env pxNewQueue s =
     (if pxNewQueue \<noteq> NULL
      then let s = set_queue pxNewQueue (\<lambda>Q. Q\<lparr>pcTail := 0, pcHead := queueQUEUE_IS_MUTEX, pcReadFrom := 0\<rparr>) s
           in map_option snd (xQueueGenericSend env pxNewQueue NULL 0 queueSEND_TO_BACK s)
      else Some s)"

definition xQueueCreateMutex :: "(nat \<Rightarrow> gap \<Rightarrow> system \<Rightarrow> system) \<Rightarrow> u32 \<Rightarrow> u32 \<Rightarrow> u8 \<Rightarrow> system \<Rightarrow> (u32 \<times> system) option" where
  "xQueueCreateMutex env xStart ucHeap type s =
     do { (xNewQueue, s) \<leftarrow> xQueueGenericCreate xStart ucHeap 1 0 type s;
          s \<leftarrow> prvInitialiseMutex env xNewQueue s;
          Some (xNewQueue, s) }"

abbreviation queueQUEUE_TYPE_SET :: u8 where "queueQUEUE_TYPE_SET \<equiv> 0"
abbreviation queueQUEUE_TYPE_COUNTING_SEMAPHORE :: u8 where "queueQUEUE_TYPE_COUNTING_SEMAPHORE \<equiv> 2"

definition xQueueCreateCountingSemaphore :: "u32 \<Rightarrow> u32 \<Rightarrow> u32 \<Rightarrow> u32 \<Rightarrow> system \<Rightarrow> (u32 \<times> system) option" where
  "xQueueCreateCountingSemaphore xStart ucHeap uxMaxCount uxInitialCount s =
     do { (xHandle, s) \<leftarrow> xQueueGenericCreate xStart ucHeap uxMaxCount 0 queueQUEUE_TYPE_COUNTING_SEMAPHORE s;
          let s = (if xHandle \<noteq> NULL then set_queue xHandle (\<lambda>Q. Q\<lparr>uxMessagesWaiting := uxInitialCount\<rparr>) s else s);
          Some (xHandle, s) }"

definition xQueueCreateSet :: "u32 \<Rightarrow> u32 \<Rightarrow> u32 \<Rightarrow> system \<Rightarrow> (u32 \<times> system) option" where
  "xQueueCreateSet xStart ucHeap uxEventQueueLength s = xQueueGenericCreate xStart ucHeap uxEventQueueLength 4 queueQUEUE_TYPE_SET s"

text \<open>The registry: the first slot that satisfies a test, if any, is replaced.\<close>

fun first_slot :: "('a \<Rightarrow> bool) \<Rightarrow> 'a \<Rightarrow> 'a list \<Rightarrow> 'a list" where
  "first_slot P y [] = []"
| "first_slot P y (x # xs) = (if P x then y # xs else x # first_slot P y xs)"

definition vQueueAddToRegistry :: "u32 \<Rightarrow> u32 \<Rightarrow> system \<Rightarrow> system" where
  "vQueueAddToRegistry q pcQueueName s =
     s\<lparr>xQueueRegistry := first_slot (\<lambda>(name, handle). name = NULL) (pcQueueName, q) (xQueueRegistry s)\<rparr>"

definition vQueueUnregisterQueue :: "u32 \<Rightarrow> system \<Rightarrow> system" where
  "vQueueUnregisterQueue q s =
     s\<lparr>xQueueRegistry := first_slot (\<lambda>(name, handle). handle = q) (NULL, 0) (xQueueRegistry s)\<rparr>"

definition pcQueueGetName :: "u32 \<Rightarrow> system \<Rightarrow> u32" where
  "pcQueueGetName q s = (case filter (\<lambda>(name, handle). handle = q) (xQueueRegistry s) of [] \<Rightarrow> NULL | (name, handle) # _ \<Rightarrow> name)"

definition vQueueDelete :: "u32 \<Rightarrow> u32 \<Rightarrow> system \<Rightarrow> system option" where
  "vQueueDelete xStart q s =
     do { let s = vQueueUnregisterQueue q s;
          h \<leftarrow> vPortFree xStart q (heap4 s);
          Some (s\<lparr>heap4 := h\<rparr>) }"

end
