(* ===== verification/Rtos_Ring.thy ===== *)
theory Rtos_Ring
  imports Rtos_Queue
begin

unbundle bit_operations_syntax

text \<open>
  The storage of a queue in \<^verbatim>\<open>src/ns_guest/lib/freertos/queue.c\<close>: the ring of slots between \<open>pcHead\<close> and \<open>pcTail\<close> implements a
  list of items. Sending appends or prepends an item, receiving takes the first, peeking leaves it, and the pointers go round.
\<close>

section \<open>Slots\<close>

definition item_list :: "nat \<Rightarrow> (u32 \<Rightarrow> u8) \<Rightarrow> u8 list" where
  "item_list n f = map (\<lambda>j. f (of_nat j)) [0..<n]"

definition slot :: "(u32 \<Rightarrow> u8) \<Rightarrow> u32 \<Rightarrow> nat \<Rightarrow> nat \<Rightarrow> u8 list" where
  "slot m head sz i = item_list sz (item_at (head + of_nat (i * sz)) m)"

lemma slot_distance:
  fixes sz len i j k :: nat
  assumes "len * sz < 2 ^ 32" "i < len" "j < len" "k < sz"
  shows "(of_nat (j * sz + k) :: u32) - of_nat (i * sz) < of_nat sz \<longleftrightarrow> i = j"
proof -
  have le: "Suc i * sz \<le> len * sz" "Suc j * sz \<le> len * sz" using assms(2,3) by (intro mult_le_mono1; simp)+
  then have b: "i * sz + sz \<le> len * sz" "j * sz + sz \<le> len * sz" by simp_all
  have u: "unat (of_nat (j * sz + k) :: u32) = j * sz + k" "unat (of_nat (i * sz) :: u32) = i * sz" "unat (of_nat sz :: u32) = sz"
    using b assms(1,4) by (simp_all add: unat_of_nat del: of_nat_mult of_nat_add)
  have "(if i * sz \<le> j * sz + k then j * sz + k - i * sz else j * sz + k + 2 ^ 32 - i * sz) < sz \<longleftrightarrow> i = j"
  proof (cases i j rule: linorder_cases)
    case less
    then have "Suc i * sz \<le> j * sz" by (intro mult_le_mono1) simp
    then have "i * sz + sz \<le> j * sz + k" by simp
    then show ?thesis using less by simp
  next
    case equal
    then show ?thesis using assms(4) by simp
  next
    case greater
    then have "Suc j * sz \<le> i * sz" by (intro mult_le_mono1) simp
    then have "j * sz + k < i * sz" using assms(4) by simp
    moreover have "sz \<le> j * sz + k + 2 ^ 32 - i * sz" using b(1) assms(1) by linarith
    ultimately show ?thesis using greater by simp
  qed
  then show ?thesis unfolding word_less_nat_alt unat_sub_if' u by (simp split: if_split_asm)
qed

lemma slot_copy:
  assumes "len * sz < 2 ^ 32" "i < len" "j < len"
  shows "slot (copy_in (head + of_nat (i * sz)) (of_nat sz) f m) head sz j = (if i = j then item_list sz f else slot m head sz j)"
proof -
  have "copy_in (head + of_nat (i * sz)) (of_nat sz) f m (head + of_nat (j * sz) + of_nat k) =
      (if i = j then f (of_nat k) else m (head + of_nat (j * sz) + of_nat k))" if k: "k < sz" for k
    using slot_distance [OF assms k] by (simp add: copy_in_def algebra_simps)
  then show ?thesis by (auto simp: slot_def item_list_def item_at_def)
qed

section \<open>The list a queue stores\<close>

text \<open>The storage does not wrap around the address space, nor does the step one item below its start.\<close>

definition storage_ok :: "Queue_t \<Rightarrow> bool" where
  "storage_ok Q \<longleftrightarrow> uxItemSize Q \<noteq> 0 \<and> uxLength Q \<noteq> 0 \<and>
     unat (pcHead Q) + unat (uxLength Q) * unat (uxItemSize Q) < 2 ^ 32 \<and> uxItemSize Q \<le> pcHead Q \<and>
     pcTail Q = pcHead Q + uxLength Q * uxItemSize Q"

definition slots_of :: "(u32 \<Rightarrow> u8) \<Rightarrow> Queue_t \<Rightarrow> nat \<Rightarrow> u8 list" where
  "slots_of m Q i = slot m (pcHead Q) (unat (uxItemSize Q)) (i mod unat (uxLength Q))"

text \<open>The pointer to slot \<open>i\<close>, counted modulo the length.\<close>

definition slot_ptr :: "Queue_t \<Rightarrow> nat \<Rightarrow> u32" where
  "slot_ptr Q i = pcHead Q + of_nat (i mod unat (uxLength Q) * unat (uxItemSize Q))"

definition stores :: "(u32 \<Rightarrow> u8) \<Rightarrow> Queue_t \<Rightarrow> u8 list list \<Rightarrow> bool" where
  "stores m Q xs \<longleftrightarrow> storage_ok Q \<and> length xs = unat (uxMessagesWaiting Q) \<and> length xs \<le> unat (uxLength Q) \<and>
     (\<exists>r. pcReadFrom Q = slot_ptr Q r \<and> pcWriteTo Q = slot_ptr Q (Suc r + length xs) \<and>
        (\<forall>k < length xs. xs ! k = slots_of m Q (Suc r + k)))"

definition in_storage :: "Queue_t \<Rightarrow> u32 \<Rightarrow> bool" where
  "in_storage Q a \<longleftrightarrow> a - pcHead Q < uxLength Q * uxItemSize Q"

lemma storage_bounds:
  assumes "storage_ok Q"
  shows "0 < unat (uxLength Q)" "0 < unat (uxItemSize Q)" "unat (uxLength Q) * unat (uxItemSize Q) < 2 ^ 32"
    "unat (uxLength Q * uxItemSize Q) = unat (uxLength Q) * unat (uxItemSize Q)"
    "unat (pcTail Q) = unat (pcHead Q) + unat (uxLength Q) * unat (uxItemSize Q)"
proof -
  note A = assms [unfolded storage_ok_def]
  show "0 < unat (uxLength Q)" "0 < unat (uxItemSize Q)" "unat (uxLength Q) * unat (uxItemSize Q) < 2 ^ 32"
    using A by (simp_all add: unat_gt_0)
  then show m: "unat (uxLength Q * uxItemSize Q) = unat (uxLength Q) * unat (uxItemSize Q)" by (simp add: unat_mult_lem [THEN iffD1])
  show "unat (pcTail Q) = unat (pcHead Q) + unat (uxLength Q) * unat (uxItemSize Q)" using A m by (simp add: unat_add_lem [THEN iffD1])
qed

lemma slot_ptr_unat:
  assumes "storage_ok Q"
  shows "unat (slot_ptr Q i) = unat (pcHead Q) + i mod unat (uxLength Q) * unat (uxItemSize Q)"
    "i mod unat (uxLength Q) * unat (uxItemSize Q) + unat (uxItemSize Q) \<le> unat (uxLength Q) * unat (uxItemSize Q)"
proof -
  note B = storage_bounds [OF assms]
  have "Suc (i mod unat (uxLength Q)) \<le> unat (uxLength Q)" using B(1) by (simp add: Suc_leI)
  then have "Suc (i mod unat (uxLength Q)) * unat (uxItemSize Q) \<le> unat (uxLength Q) * unat (uxItemSize Q)" by (rule mult_le_mono1)
  then show le: "i mod unat (uxLength Q) * unat (uxItemSize Q) + unat (uxItemSize Q) \<le> unat (uxLength Q) * unat (uxItemSize Q)" by simp
  have "unat (pcHead Q) + unat (uxLength Q) * unat (uxItemSize Q) < 2 ^ 32" using assms by (simp add: storage_ok_def)
  then show "unat (slot_ptr Q i) = unat (pcHead Q) + i mod unat (uxLength Q) * unat (uxItemSize Q)"
    unfolding slot_ptr_def using le by (simp add: unat_word_ariths unat_of_nat del: of_nat_mult)
qed

lemma slot_ptr_next:
  assumes "storage_ok Q"
  shows "(if slot_ptr Q i + uxItemSize Q \<ge> pcTail Q then pcHead Q else slot_ptr Q i + uxItemSize Q) = slot_ptr Q (Suc i)"
proof -
  let ?n = "unat (uxLength Q)" and ?z = "unat (uxItemSize Q)"
  note B = storage_bounds [OF assms] and P = slot_ptr_unat [OF assms]
  have m: "unat (pcHead Q) + ?n * ?z < 2 ^ 32" using assms by (simp add: storage_ok_def)
  have u: "unat (slot_ptr Q i + uxItemSize Q) = unat (pcHead Q) + (i mod ?n * ?z + ?z)"
    using P(2) [of i] m by (simp add: unat_word_ariths P(1))
  have "i mod ?n < ?n" using B(1) by simp
  show ?thesis
  proof (cases "Suc (i mod ?n) = ?n")
    case True
    then have "i mod ?n * ?z + ?z = ?n * ?z" by (metis add.commute mult_Suc)
    moreover have "Suc i mod ?n = 0" using True by (simp add: mod_Suc)
    ultimately show ?thesis using u B(5) by (simp add: word_le_nat_alt slot_ptr_def)
  next
    case False
    then have "Suc (Suc (i mod ?n)) \<le> ?n" using \<open>i mod ?n < ?n\<close> by simp
    then have "Suc (Suc (i mod ?n)) * ?z \<le> ?n * ?z" by (rule mult_le_mono1)
    then have "i mod ?n * ?z + ?z < ?n * ?z" using B(2) by simp
    moreover have "Suc i mod ?n = Suc (i mod ?n)" using False by (simp add: mod_Suc)
    ultimately show ?thesis using u B(5) by (auto simp: word_le_nat_alt word_unat_eq_iff P(1))
  qed
qed

lemma slot_ptr_prev:
  assumes "storage_ok Q"
  shows "(if slot_ptr Q (Suc i) - uxItemSize Q < pcHead Q then pcTail Q - uxItemSize Q else slot_ptr Q (Suc i) - uxItemSize Q) = slot_ptr Q i"
proof -
  let ?n = "unat (uxLength Q)" and ?z = "unat (uxItemSize Q)"
  note B = storage_bounds [OF assms] and P = slot_ptr_unat [OF assms]
  have h: "?z \<le> unat (pcHead Q)" using assms by (simp add: storage_ok_def word_le_nat_alt)
  have u: "unat (slot_ptr Q (Suc i) - uxItemSize Q) = unat (pcHead Q) + Suc i mod ?n * ?z - ?z"
    using h by (simp add: unat_sub_if' P(1))
  have t: "unat (pcTail Q - uxItemSize Q) = unat (pcHead Q) + ?n * ?z - ?z" using h B(5) by (simp add: unat_sub_if')
  show ?thesis
  proof (cases "Suc (i mod ?n) = ?n")
    case True
    then have "i mod ?n * ?z + ?z = ?n * ?z" by (metis add.commute mult_Suc)
    moreover have "Suc i mod ?n = 0" using True by (simp add: mod_Suc)
    ultimately show ?thesis using u t h B(2) by (auto simp: word_less_nat_alt word_unat_eq_iff P(1))
  next
    case False
    then have "Suc i mod ?n = Suc (i mod ?n)" by (simp add: mod_Suc)
    then show ?thesis using u by (auto simp: word_less_nat_alt word_unat_eq_iff P(1))
  qed
qed

lemma slots_of_copy:
  assumes "storage_ok Q"
  shows "slots_of (copy_in (slot_ptr Q i) (uxItemSize Q) f m) Q j =
    (if i mod unat (uxLength Q) = j mod unat (uxLength Q) then item_list (unat (uxItemSize Q)) f else slots_of m Q j)"
proof -
  note B = storage_bounds [OF assms]
  have "i mod unat (uxLength Q) < unat (uxLength Q)" "j mod unat (uxLength Q) < unat (uxLength Q)" using B(1) by simp_all
  from slot_copy [OF B(3) this, of "pcHead Q" f m] show ?thesis by (simp add: slots_of_def slot_ptr_def)
qed

text \<open>A copy into a buffer outside the storage changes no slot.\<close>

definition buffer_apart :: "Queue_t \<Rightarrow> u32 \<Rightarrow> bool" where
  "buffer_apart Q p \<longleftrightarrow> (\<forall>i < uxItemSize Q. \<not> in_storage Q (p + i))"

lemma slots_of_apart:
  assumes S: "storage_ok Q" and b: "buffer_apart Q p"
  shows "slots_of (copy_in p (uxItemSize Q) f m) Q j = slots_of m Q j"
proof -
  note B = storage_bounds [OF S] and P = slot_ptr_unat [OF S]
  have "copy_in p (uxItemSize Q) f m (slot_ptr Q j + of_nat k) = m (slot_ptr Q j + of_nat k)" if k: "k < unat (uxItemSize Q)" for k
  proof -
    let ?a = "slot_ptr Q j + of_nat k"
    have "?a - pcHead Q = of_nat (j mod unat (uxLength Q) * unat (uxItemSize Q) + k)" by (simp add: slot_ptr_def)
    moreover have "j mod unat (uxLength Q) * unat (uxItemSize Q) + k < unat (uxLength Q) * unat (uxItemSize Q)"
      using P(2) [of j] k by simp
    ultimately have "in_storage Q ?a" using B(3,4) by (simp add: in_storage_def word_less_nat_alt unat_of_nat del: of_nat_mult of_nat_add)
    moreover have "\<not> in_storage Q (p + (?a - p))" if "?a - p < uxItemSize Q" using b that unfolding buffer_apart_def by blast
    ultimately have "\<not> ?a - p < uxItemSize Q" by auto
    then show ?thesis by (simp add: copy_in_def)
  qed
  then show ?thesis by (simp add: slots_of_def slot_def item_list_def item_at_def slot_ptr_def)
qed

lemma mod_apart: "k < l \<Longrightarrow> l - k < n \<Longrightarrow> (a + k) mod n \<noteq> (a + l) mod n" for a k l n :: nat
  by (metis add_diff_cancel_left diff_is_0_eq' dvd_imp_le less_imp_le mod_eq_dvd_iff_nat nat_add_left_cancel_le not_less zero_less_diff)

lemma unat_Suc: "unat w < unat v \<Longrightarrow> unat (w + 1) = Suc (unat w)" for v w :: u32
  using unsigned_less [of v, where ?'a = nat] by (simp add: unat_word_ariths)

text \<open>The pieces of \<open>stores\<close> that a change of pointers and count keeps.\<close>

lemma storage_ok_update [simp]:
  "storage_ok (Q\<lparr>pcWriteTo := w\<rparr>) = storage_ok Q" "storage_ok (Q\<lparr>pcReadFrom := w\<rparr>) = storage_ok Q"
  "storage_ok (Q\<lparr>uxMessagesWaiting := n\<rparr>) = storage_ok Q" "storage_ok (Q\<lparr>cTxLock := x\<rparr>) = storage_ok Q"
  "storage_ok (Q\<lparr>cRxLock := x\<rparr>) = storage_ok Q"
  by (simp_all add: storage_ok_def)

lemma slots_of_update [simp]:
  "slots_of m (Q\<lparr>pcWriteTo := w\<rparr>) = slots_of m Q" "slots_of m (Q\<lparr>pcReadFrom := w\<rparr>) = slots_of m Q"
  "slots_of m (Q\<lparr>uxMessagesWaiting := n\<rparr>) = slots_of m Q" "slots_of m (Q\<lparr>cTxLock := x\<rparr>) = slots_of m Q"
  "slots_of m (Q\<lparr>cRxLock := x\<rparr>) = slots_of m Q"
  by (simp_all add: slots_of_def fun_eq_iff)

lemma slot_ptr_update [simp]:
  "slot_ptr (Q\<lparr>pcWriteTo := w\<rparr>) = slot_ptr Q" "slot_ptr (Q\<lparr>pcReadFrom := w\<rparr>) = slot_ptr Q"
  "slot_ptr (Q\<lparr>uxMessagesWaiting := n\<rparr>) = slot_ptr Q" "slot_ptr (Q\<lparr>cTxLock := x\<rparr>) = slot_ptr Q"
  "slot_ptr (Q\<lparr>cRxLock := x\<rparr>) = slot_ptr Q"
  by (simp_all add: slot_ptr_def fun_eq_iff)

lemma stores_lock [simp]: "stores m (Q\<lparr>cTxLock := x\<rparr>) xs = stores m Q xs" "stores m (Q\<lparr>cRxLock := x\<rparr>) xs = stores m Q xs"
  by (simp_all add: stores_def)

lemma stores_back:
  assumes S: "stores m Q xs" and room: "length xs < unat (uxLength Q)"
  shows "stores (copy_in (pcWriteTo Q) (uxItemSize Q) f m)
    (Q\<lparr>pcWriteTo := if pcWriteTo Q + uxItemSize Q \<ge> pcTail Q then pcHead Q else pcWriteTo Q + uxItemSize Q,
       uxMessagesWaiting := uxMessagesWaiting Q + 1\<rparr>) (xs @ [item_list (unat (uxItemSize Q)) f])"
proof -
  obtain r where r: "storage_ok Q" "length xs = unat (uxMessagesWaiting Q)" "pcReadFrom Q = slot_ptr Q r"
    "pcWriteTo Q = slot_ptr Q (Suc r + length xs)" "\<And>k. k < length xs \<Longrightarrow> xs ! k = slots_of m Q (Suc r + k)"
    using S by (auto simp: stores_def)
  let ?m = "copy_in (pcWriteTo Q) (uxItemSize Q) f m"
  have "(xs @ [item_list (unat (uxItemSize Q)) f]) ! k = slots_of ?m Q (Suc r + k)" if k: "k < Suc (length xs)" for k
  proof (cases "k = length xs")
    case False
    then have k: "k < length xs" using k by simp
    then have "length xs - k < unat (uxLength Q)" using room by linarith
    then have "(Suc r + length xs) mod unat (uxLength Q) \<noteq> (Suc r + k) mod unat (uxLength Q)" using mod_apart [OF k] by metis
    then show ?thesis using k r(5) by (simp add: r(4) slots_of_copy [OF r(1)] nth_append)
  qed (simp add: r(4) slots_of_copy [OF r(1)] nth_append)
  moreover have "unat (uxMessagesWaiting Q + 1) = Suc (length xs)" using unat_Suc [of "uxMessagesWaiting Q" "uxLength Q"] r(2) room by simp
  ultimately show ?thesis
    using r(1,3) room slot_ptr_next [OF r(1), of "Suc r + length xs"] by (auto simp: stores_def r(4))
qed

lemma stores_front:
  assumes S: "stores m Q xs" and room: "length xs < unat (uxLength Q)"
  shows "stores (copy_in (pcReadFrom Q) (uxItemSize Q) f m)
    (Q\<lparr>pcReadFrom := if pcReadFrom Q - uxItemSize Q < pcHead Q then pcTail Q - uxItemSize Q else pcReadFrom Q - uxItemSize Q,
       uxMessagesWaiting := uxMessagesWaiting Q + 1\<rparr>) (item_list (unat (uxItemSize Q)) f # xs)"
proof -
  obtain r where r: "storage_ok Q" "length xs = unat (uxMessagesWaiting Q)" "pcReadFrom Q = slot_ptr Q r"
    "pcWriteTo Q = slot_ptr Q (Suc r + length xs)" "\<And>k. k < length xs \<Longrightarrow> xs ! k = slots_of m Q (Suc r + k)"
    using S by (auto simp: stores_def)
  let ?m = "copy_in (pcReadFrom Q) (uxItemSize Q) f m" and ?n = "unat (uxLength Q)"
  obtain p where p: "Suc p mod ?n = r mod ?n"
  proof
    show "Suc (r + (?n - 1)) mod ?n = r mod ?n" using storage_bounds(1) [OF r(1)] by simp
  qed
  have eq: "slot_ptr Q (Suc p + k) = slot_ptr Q (r + k)" "slots_of m' Q (Suc p + k) = slots_of m' Q (r + k)" for k m'
    using p by (simp_all add: slot_ptr_def slots_of_def) (metis add_Suc mod_add_left_eq)+
  have "(item_list (unat (uxItemSize Q)) f # xs) ! k = slots_of ?m Q (Suc p + k)" if k: "k < Suc (length xs)" for k
  proof (cases k)
    case (Suc j)
    then have "r mod ?n \<noteq> (Suc r + j) mod ?n" using mod_apart [of 0 "Suc j" ?n r] room k by simp
    then show ?thesis using Suc k r(5) [of j] unfolding eq by (simp add: r(3) slots_of_copy [OF r(1)])
  qed (simp add: eq(2) [of _ 0, simplified] r(3) slots_of_copy [OF r(1)])
  moreover have "pcWriteTo Q = slot_ptr Q (Suc p + Suc (length xs))" unfolding eq using r(4) by simp
  moreover have "unat (uxMessagesWaiting Q + 1) = Suc (length xs)" using unat_Suc [of "uxMessagesWaiting Q" "uxLength Q"] r(2) room by simp
  moreover have "pcReadFrom Q = slot_ptr Q (Suc p)" using eq(1) [of 0] r(3) by simp
  ultimately show ?thesis using r(1) room slot_ptr_prev [OF r(1), of p] by (auto simp: stores_def)
qed

text \<open>A queue of one slot: writing over the item that is there.\<close>

lemma stores_overwrite:
  assumes S: "stores m Q xs" and one: "uxLength Q = 1"
  shows "stores (copy_in (pcReadFrom Q) (uxItemSize Q) f m)
    (Q\<lparr>pcReadFrom := if pcReadFrom Q - uxItemSize Q < pcHead Q then pcTail Q - uxItemSize Q else pcReadFrom Q - uxItemSize Q,
       uxMessagesWaiting := (if uxMessagesWaiting Q > 0 then uxMessagesWaiting Q - 1 else uxMessagesWaiting Q) + 1\<rparr>)
    [item_list (unat (uxItemSize Q)) f]"
proof -
  have ok: "storage_ok Q" and rp: "pcReadFrom Q = slot_ptr Q 0" "pcWriteTo Q = slot_ptr Q 0" and n: "unat (uxMessagesWaiting Q) \<le> 1"
    using S one by (auto simp: stores_def slot_ptr_def)
  have z: "uxMessagesWaiting Q = 0" if "\<not> uxMessagesWaiting Q > 0" using that by (simp add: word_gt_0)
  have p: "slot_ptr Q i = slot_ptr Q 0" "slots_of m' Q i = slots_of m' Q 0" for i m' using one by (simp_all add: slot_ptr_def slots_of_def)
  have e: "(if pcReadFrom Q - uxItemSize Q < pcHead Q then pcTail Q - uxItemSize Q else pcReadFrom Q - uxItemSize Q) = slot_ptr Q 0"
    using slot_ptr_prev [OF ok, of 0] unfolding rp p(1) [of "Suc 0"] .
  have c: "(if uxMessagesWaiting Q > 0 then uxMessagesWaiting Q - 1 else uxMessagesWaiting Q) + 1 = 1"
  proof (cases "uxMessagesWaiting Q > 0")
    case True
    then have "uxMessagesWaiting Q = 1" using n by (simp add: word_unat_eq_iff word_less_nat_alt)
    then show ?thesis by simp
  qed (use z in simp)
  have "[item_list (unat (uxItemSize Q)) f] ! k = slots_of (copy_in (slot_ptr Q 0) (uxItemSize Q) f m) Q (Suc 0 + k)" if "k < 1" for k
    using that unfolding p(2) [of _ "Suc 0 + k"] by (simp add: slots_of_copy [OF ok])
  moreover have "slot_ptr Q (Suc (Suc 0)) = slot_ptr Q 0" by (rule p(1))
  ultimately show ?thesis unfolding e c using ok one by (auto simp: stores_def rp intro!: exI [of _ 0])
qed

lemma item_list_copied: "item_list (unat n) (item_at p (copy_in p n f m)) = item_list (unat n) f"
proof -
  have "of_nat k < n" if "k < unat n" for k
    using that unsigned_less [of n, where ?'a = nat] by (simp add: word_less_nat_alt unat_of_nat)
  then show ?thesis by (simp add: item_list_def item_at_def copy_in_def)
qed

lemma stores_first:
  assumes "stores m Q (x # xs)"
  shows "x = item_list (unat (uxItemSize Q)) (item_at
    (if pcReadFrom Q + uxItemSize Q \<ge> pcTail Q then pcHead Q else pcReadFrom Q + uxItemSize Q) m)"
proof -
  obtain r where r: "storage_ok Q" "pcReadFrom Q = slot_ptr Q r" "\<And>k. k < length (x # xs) \<Longrightarrow> (x # xs) ! k = slots_of m Q (Suc r + k)"
    using assms by (auto simp: stores_def)
  show ?thesis using r(3) [of 0] unfolding r(2) slot_ptr_next [OF r(1)] by (simp add: slots_of_def slot_def slot_ptr_def)
qed

lemma stores_apart:
  assumes "stores m Q xs" "buffer_apart Q p"
  shows "stores (copy_in p (uxItemSize Q) f m) Q xs"
  using assms slots_of_apart [OF _ assms(2)] by (auto simp: stores_def)

lemma stores_rest:
  assumes S: "stores m Q (x # xs)"
  shows "stores m (Q\<lparr>pcReadFrom := if pcReadFrom Q + uxItemSize Q \<ge> pcTail Q then pcHead Q else pcReadFrom Q + uxItemSize Q,
    uxMessagesWaiting := uxMessagesWaiting Q - 1\<rparr>) xs"
proof -
  obtain r where r: "storage_ok Q" "Suc (length xs) = unat (uxMessagesWaiting Q)" "Suc (length xs) \<le> unat (uxLength Q)" "pcReadFrom Q = slot_ptr Q r"
    "pcWriteTo Q = slot_ptr Q (Suc r + Suc (length xs))" "\<And>k. k < length (x # xs) \<Longrightarrow> (x # xs) ! k = slots_of m Q (Suc r + k)"
    using S unfolding stores_def length_Cons by blast
  have "1 \<le> unat (uxMessagesWaiting Q)" using r(2) by simp
  then have "unat (uxMessagesWaiting Q - 1) = length xs" using r(2) by (simp add: unat_sub_if')
  moreover have "xs ! k = slots_of m Q (Suc (Suc r) + k)" if "k < length xs" for k using r(6) [of "Suc k"] that by simp
  ultimately show ?thesis unfolding r(4) slot_ptr_next [OF r(1)] using r(1,3,5) by (auto simp: stores_def intro!: exI [of _ "Suc r"])
qed

section \<open>Refinement of a bounded queue\<close>

text \<open>The abstract operations on the list of items.\<close>

fun spec_send :: "nat \<Rightarrow> position \<Rightarrow> 'a \<Rightarrow> 'a list \<Rightarrow> bool \<times> 'a list" where
  "spec_send cap queueSEND_TO_BACK x xs = (if length xs < cap then (True, xs @ [x]) else (False, xs))"
| "spec_send cap queueSEND_TO_FRONT x xs = (if length xs < cap then (True, x # xs) else (False, xs))"
| "spec_send cap queueOVERWRITE x xs = (True, [x])"

fun spec_receive :: "'a list \<Rightarrow> 'a option \<times> 'a list" where
  "spec_receive [] = (None, [])"
| "spec_receive (x # xs) = (Some x, xs)"

lemma set_queue_fields [simp]:
  "queues (set_queue q f s) = (queues s)(q := f (queues s q))" "bytes (set_queue q f s) = bytes s" "kern (set_queue q f s) = kern s"
  "heap4 (set_queue q f s) = heap4 s" "xQueueRegistry (set_queue q f s) = xQueueRegistry s"
  by (simp_all add: set_queue_def)

lemma wake_one_fields [simp]:
  "queues (snd (wake_one l s)) = queues s" "bytes (snd (wake_one l s)) = bytes s"
  by (simp_all add: wake_one_def case_prod_unfold Let_def)

lemma yield_fields: "yield s = Some s' \<Longrightarrow> queues s' = queues s \<and> bytes s' = bytes s"
  by (auto simp: yield_def)

lemma wake_and_yield_fields: "wake_and_yield l s = Some s' \<Longrightarrow> queues s' = queues s \<and> bytes s' = bytes s"
  using wake_one_fields [of l s] by (auto simp: wake_and_yield_def case_prod_unfold Let_def yield_def split: if_splits)

text \<open>The data part of a send and of a receive.\<close>

lemma copy_to_stores:
  fixes f :: "u32 \<Rightarrow> u8"
  assumes S: "stores (bytes s) (queues s q) xs" and one: "pos = queueOVERWRITE \<Longrightarrow> uxLength (queues s q) = 1"
    and room: "pos \<noteq> queueOVERWRITE \<Longrightarrow> length xs < unat (uxLength (queues s q))"
  defines "s' \<equiv> snd (prvCopyDataToQueue q f pos s)"
  shows "stores (bytes s') (queues s' q) (snd (spec_send (unat (uxLength (queues s q))) pos (item_list (unat (uxItemSize (queues s q))) f) xs))"
    "\<And>p. p \<noteq> q \<Longrightarrow> queues s' p = queues s p" "kern s' = kern s" "cTxLock (queues s' q) = cTxLock (queues s q)"
    "cRxLock (queues s' q) = cRxLock (queues s q)" "pxQueueSetContainer (queues s' q) = pxQueueSetContainer (queues s q)"
    "uxLength (queues s' q) = uxLength (queues s q)" "fst (prvCopyDataToQueue q f pos s) = False"
proof -
  have z: "uxItemSize (queues s q) \<noteq> 0" using S by (simp add: stores_def storage_ok_def)
  note d = s'_def prvCopyDataToQueue_def Let_def
  show "stores (bytes s') (queues s' q) (snd (spec_send (unat (uxLength (queues s q))) pos (item_list (unat (uxItemSize (queues s q))) f) xs))"
  proof (cases pos)
    case queueSEND_TO_BACK
    with room have "length xs < unat (uxLength (queues s q))" by simp
    then show ?thesis using stores_back [OF S, of f] queueSEND_TO_BACK z by (simp add: d cong: if_cong split del: if_split)
  next
    case queueSEND_TO_FRONT
    with room have "length xs < unat (uxLength (queues s q))" by simp
    then show ?thesis using stores_front [OF S, of f] queueSEND_TO_FRONT z by (simp add: d cong: if_cong split del: if_split)
  next
    case queueOVERWRITE
    then show ?thesis using stores_overwrite [OF S one, of f] z by (simp add: d cong: if_cong split del: if_split)
  qed
qed (use S in \<open>simp_all add: s'_def prvCopyDataToQueue_def Let_def stores_def storage_ok_def\<close>)

lemma copy_from_stores:
  assumes S: "stores (bytes s) (queues s q) (x # xs)" and b: "buffer_apart (queues s q) p"
  defines "s' \<equiv> prvCopyDataFromQueue q p s"
  shows "stores (bytes s') ((queues s' q)\<lparr>uxMessagesWaiting := uxMessagesWaiting (queues s q) - 1\<rparr>) xs"
    "stores (bytes s') ((queues s' q)\<lparr>pcReadFrom := pcReadFrom (queues s q)\<rparr>) (x # xs)"
    "item_list (unat (uxItemSize (queues s q))) (item_at p (bytes s')) = x"
    "\<And>i. i \<noteq> q \<Longrightarrow> queues s' i = queues s i" "kern s' = kern s" "cRxLock (queues s' q) = cRxLock (queues s q)"
    "uxMessagesWaiting (queues s' q) = uxMessagesWaiting (queues s q)" "uxItemSize (queues s' q) = uxItemSize (queues s q)"
proof -
  let ?Q = "queues s q"
  let ?r = "if pcReadFrom ?Q + uxItemSize ?Q \<ge> pcTail ?Q then pcHead ?Q else pcReadFrom ?Q + uxItemSize ?Q"
  have z: "uxItemSize ?Q \<noteq> 0" using S by (simp add: stores_def storage_ok_def)
  have q: "queues s' = (queues s)(q := ?Q\<lparr>pcReadFrom := ?r\<rparr>)" and k: "kern s' = kern s"
    and m: "bytes s' = copy_in p (uxItemSize ?Q) (item_at ?r (bytes s)) (bytes s)"
    using z by (simp_all add: s'_def prvCopyDataFromQueue_def Let_def)
  show "stores (bytes s') ((queues s' q)\<lparr>uxMessagesWaiting := uxMessagesWaiting ?Q - 1\<rparr>) xs"
    using stores_apart [OF stores_rest [OF S], of p] b by (simp add: q m buffer_apart_def in_storage_def)
  show "stores (bytes s') ((queues s' q)\<lparr>pcReadFrom := pcReadFrom ?Q\<rparr>) (x # xs)"
    using stores_apart [OF S b] by (simp add: q m)
  show "item_list (unat (uxItemSize ?Q)) (item_at p (bytes s')) = x"
    unfolding m item_list_copied by (rule stores_first [OF S, symmetric])
qed (use S in \<open>simp_all add: s'_def prvCopyDataFromQueue_def Let_def stores_def storage_ok_def\<close>)

text \<open>The state of the kernel decides only who is woken.\<close>

lemma notify_fields:
  "pxQueueSetContainer (queues s q) = 0 \<Longrightarrow> queues (snd (notify_from_isr q pos woken s)) = queues s"
  "pxQueueSetContainer (queues s q) = 0 \<Longrightarrow> bytes (snd (notify_from_isr q pos woken s)) = bytes s"
  by (simp_all add: notify_from_isr_def case_prod_unfold Let_def)

lemma send_from_isr_cases:
  fixes q item pos s
  defines "s1 \<equiv> snd (prvCopyDataToQueue q (item_at item (bytes s)) pos s)"
  shows "\<not> (uxMessagesWaiting (queues s q) < uxLength (queues s q) \<or> pos = queueOVERWRITE) \<Longrightarrow>
      xQueueGenericSendFromISR q item pos woken s = (False, woken, s)"
    "uxMessagesWaiting (queues s q) < uxLength (queues s q) \<or> pos = queueOVERWRITE \<Longrightarrow> cTxLock (queues s q) = queueUNLOCKED \<Longrightarrow>
      xQueueGenericSendFromISR q item pos woken s = (True, notify_from_isr q pos woken s1)"
    "uxMessagesWaiting (queues s q) < uxLength (queues s q) \<or> pos = queueOVERWRITE \<Longrightarrow> cTxLock (queues s q) \<noteq> queueUNLOCKED \<Longrightarrow>
      xQueueGenericSendFromISR q item pos woken s = (True, woken, set_queue q (\<lambda>Q. Q\<lparr>cTxLock := cTxLock (queues s q) + 1\<rparr>) s1)"
  unfolding xQueueGenericSendFromISR_def s1_def Let_def by (simp_all only: if_True if_False simp_thms case_prod_unfold prod.collapse)

lemma receive_from_isr_cases:
  fixes q p s
  defines "s1 \<equiv> set_queue q (\<lambda>Q. Q\<lparr>uxMessagesWaiting := uxMessagesWaiting (queues s q) - 1\<rparr>) (prvCopyDataFromQueue q p s)"
  shows "uxMessagesWaiting (queues s q) = 0 \<Longrightarrow> xQueueReceiveFromISR q p woken s = (False, woken, s)"
    "uxMessagesWaiting (queues s q) > 0 \<Longrightarrow> cRxLock (queues s q) = queueUNLOCKED \<Longrightarrow> xQueueReceiveFromISR q p woken s =
      (True, fst (wake_one (xTasksWaitingToSend q) s1) \<or> woken, snd (wake_one (xTasksWaitingToSend q) s1))"
    "uxMessagesWaiting (queues s q) > 0 \<Longrightarrow> cRxLock (queues s q) \<noteq> queueUNLOCKED \<Longrightarrow> xQueueReceiveFromISR q p woken s =
      (True, woken, set_queue q (\<lambda>Q. Q\<lparr>cRxLock := cRxLock (queues s q) + 1\<rparr>) s1)"
  unfolding xQueueReceiveFromISR_def s1_def Let_def by (simp_all add: case_prod_unfold)

lemma send_from_isr_stores:
  assumes S: "stores (bytes s) (queues s q) xs" and alone: "pxQueueSetContainer (queues s q) = 0"
    and one: "pos = queueOVERWRITE \<Longrightarrow> uxLength (queues s q) = 1"
    and s': "xQueueGenericSendFromISR q item pos woken s = (ok, woken', s')"
  shows "\<exists>ys. spec_send (unat (uxLength (queues s q))) pos (item_list (unat (uxItemSize (queues s q))) (item_at item (bytes s))) xs = (ok, ys) \<and>
    stores (bytes s') (queues s' q) ys"
proof -
  let ?Q = "queues s q" and ?f = "item_at item (bytes s)"
  let ?spec = "spec_send (unat (uxLength ?Q)) pos (item_list (unat (uxItemSize ?Q)) ?f) xs"
  let ?s = "snd (prvCopyDataToQueue q ?f pos s)"
  have n: "uxMessagesWaiting ?Q < uxLength ?Q \<longleftrightarrow> length xs < unat (uxLength ?Q)" using S by (simp add: stores_def word_less_nat_alt)
  note I = send_from_isr_cases [where s = s and q = q and pos = pos and woken = woken and item = item]
  show ?thesis
  proof (cases "uxMessagesWaiting ?Q < uxLength ?Q \<or> pos = queueOVERWRITE")
    case False
    then have "?spec = (False, xs)" using n by (cases pos) auto
    moreover have "ok = False" "s' = s" using I(1) [OF False] s' by simp_all
    ultimately show ?thesis using S by simp
  next
    case True
    then have room: "pos \<noteq> queueOVERWRITE \<Longrightarrow> length xs < unat (uxLength ?Q)" using n by blast
    note C = copy_to_stores [OF S, where f = ?f and pos = pos, OF one room]
    obtain ys where sp: "?spec = (True, ys)" using room by (cases pos) auto
    have st: "stores (bytes ?s) (queues ?s q) ys" using C(1) by (simp add: sp)
    show ?thesis
    proof (cases "cTxLock ?Q = queueUNLOCKED")
      case u: True
      have c: "pxQueueSetContainer (queues ?s q) = 0" using C(6) alone by simp
      have "ok = True" "s' = snd (notify_from_isr q pos woken ?s)" using I(2) [OF True u] s' by (metis prod.inject prod.collapse)+
      then show ?thesis using sp st notify_fields [OF c] by simp
    next
      case False
      have "ok = True" "s' = set_queue q (\<lambda>Q. Q\<lparr>cTxLock := cTxLock ?Q + 1\<rparr>) ?s" using I(3) [OF True False] s' by simp_all
      then show ?thesis using sp st by simp
    qed
  qed
qed

lemma receive_from_isr_stores:
  assumes S: "stores (bytes s) (queues s q) xs" and b: "buffer_apart (queues s q) p"
    and s': "xQueueReceiveFromISR q p woken s = (ok, woken', s')"
  shows "\<exists>y ys. spec_receive xs = (y, ys) \<and> ok = (y \<noteq> None) \<and> stores (bytes s') (queues s' q) ys \<and>
    (\<forall>x. y = Some x \<longrightarrow> item_list (unat (uxItemSize (queues s q))) (item_at p (bytes s')) = x)"
proof -
  let ?Q = "queues s q"
  have n: "length xs = unat (uxMessagesWaiting ?Q)" using S by (simp add: stores_def)
  note I = receive_from_isr_cases [where s = s and q = q and p = p and woken = woken]
  show ?thesis
  proof (cases xs)
    case Nil
    then have "uxMessagesWaiting ?Q = 0" using n by (simp add: unat_eq_zero)
    from I(1) [OF this] s' have "ok = False" "s' = s" by simp_all
    then show ?thesis using S Nil by simp
  next
    case (Cons x ys)
    then have w: "uxMessagesWaiting ?Q > 0" using n by (auto simp: word_gt_0)
    note C = copy_from_stores [OF S [unfolded Cons] b]
    let ?s = "prvCopyDataFromQueue q p s"
    have "ok \<and> bytes s' = bytes ?s \<and> stores (bytes s') (queues s' q) ys"
    proof (cases "cRxLock ?Q = queueUNLOCKED")
      case True
      have "ok" "s' = snd (wake_one (xTasksWaitingToSend q) (set_queue q (\<lambda>Q. Q\<lparr>uxMessagesWaiting := uxMessagesWaiting ?Q - 1\<rparr>) ?s))"
        using I(2) [OF w True] s' by simp_all
      then show ?thesis using C(1) by simp
    next
      case False
      from I(3) [OF w False] s' show ?thesis using C(1) by auto
    qed
    then show ?thesis using C(3) Cons by auto
  qed
qed

text \<open>C27: A queue implements a bounded list of items. Posting from an interrupt fails exactly when the list is full and otherwise
  appends the item, puts it in front, or replaces the only one; receiving fails exactly when it is empty and otherwise removes the first item, which
  ends up in the buffer; peeking copies it and leaves it. The slots are reused in a circle, whatever the state of the kernel and of the lock.
\<close>

theorem queue_refines_list:
  assumes S: "stores (bytes s) (queues s q) xs" and alone: "pxQueueSetContainer (queues s q) = 0"
    and one: "pos = queueOVERWRITE \<Longrightarrow> uxLength (queues s q) = 1" and buf: "buffer_apart (queues s q) buf"
  shows "(case xQueueGenericSendFromISR q item pos woken s of (ok, _, s') \<Rightarrow>
      \<exists>ys. spec_send (unat (uxLength (queues s q))) pos (item_list (unat (uxItemSize (queues s q))) (item_at item (bytes s))) xs = (ok, ys) \<and>
        stores (bytes s') (queues s' q) ys) \<and>
    (case xQueueReceiveFromISR q buf woken s of (ok, _, s') \<Rightarrow>
      \<exists>y ys. spec_receive xs = (y, ys) \<and> ok = (y \<noteq> None) \<and> stores (bytes s') (queues s' q) ys \<and>
        (\<forall>x. y = Some x \<longrightarrow> item_list (unat (uxItemSize (queues s q))) (item_at buf (bytes s')) = x)) \<and>
    (case xQueuePeekFromISR q buf s of (ok, s') \<Rightarrow>
      ok = (xs \<noteq> []) \<and> stores (bytes s') (queues s' q) xs \<and>
        (ok \<longrightarrow> item_list (unat (uxItemSize (queues s q))) (item_at buf (bytes s')) = hd xs))"
proof (intro conjI)
  let ?Q = "queues s q"
  have n: "length xs = unat (uxMessagesWaiting ?Q)" using S by (simp add: stores_def)
  show "case xQueueGenericSendFromISR q item pos woken s of (ok, _, s') \<Rightarrow>
      \<exists>ys. spec_send (unat (uxLength ?Q)) pos (item_list (unat (uxItemSize ?Q)) (item_at item (bytes s))) xs = (ok, ys) \<and>
        stores (bytes s') (queues s' q) ys"
    using send_from_isr_stores [OF S alone one] by (simp split: prod.splits)
  show "case xQueueReceiveFromISR q buf woken s of (ok, _, s') \<Rightarrow>
      \<exists>y ys. spec_receive xs = (y, ys) \<and> ok = (y \<noteq> None) \<and> stores (bytes s') (queues s' q) ys \<and>
        (\<forall>x. y = Some x \<longrightarrow> item_list (unat (uxItemSize ?Q)) (item_at buf (bytes s')) = x)"
    using receive_from_isr_stores [OF S buf] by (simp split: prod.splits)
  show "case xQueuePeekFromISR q buf s of (ok, s') \<Rightarrow>
      ok = (xs \<noteq> []) \<and> stores (bytes s') (queues s' q) xs \<and>
        (ok \<longrightarrow> item_list (unat (uxItemSize ?Q)) (item_at buf (bytes s')) = hd xs)"
  proof (cases xs)
    case Nil
    then show ?thesis using S n by (simp add: xQueuePeekFromISR_def unat_eq_zero)
  next
    case (Cons x ys)
    then have w: "uxMessagesWaiting ?Q > 0" using n by (auto simp: word_gt_0)
    note C = copy_from_stores [OF S [unfolded Cons] buf]
    show ?thesis using w C(2,3) Cons by (simp add: xQueuePeekFromISR_def Let_def)
  qed
qed

text \<open>A queue at 3000 with three slots of two bytes, of which the last is written and the next read: it holds one item, in
  the last slot.\<close>

definition demo_queue :: Queue_t where
  "demo_queue = \<lparr>pcHead = 3084, pcWriteTo = 3084, pcTail = 3090, pcReadFrom = 3086, uxMessagesWaiting = 1, uxLength = 3, uxItemSize = 2,
     cRxLock = queueUNLOCKED, cTxLock = queueLOCKED_UNMODIFIED, pxQueueSetContainer = 0, uxQueueNumber = 0, ucQueueType = 0\<rparr>"

definition demo_system :: system where
  "demo_system = \<lparr>kern = demo_started, heap4 = demo_heap, bytes = (\<lambda>a. ucast a), queues = (\<lambda>_. demo_queue), xQueueRegistry = replicate 10 (0, 0)\<rparr>"

lemma demo_stores: "stores (bytes demo_system) (queues demo_system 3000) [[16, 17]]"
proof -
  have "storage_ok demo_queue" by (simp add: storage_ok_def demo_queue_def)
  moreover have "[16, 17] = slots_of (\<lambda>a. ucast a) demo_queue 2"
    by (simp add: slots_of_def slot_def item_list_def item_at_def demo_queue_def upt_rec)
  then have "\<forall>k < length [[16, 17 :: u8]]. [[16, 17]] ! k = slots_of (\<lambda>a. ucast a) demo_queue (Suc 1 + k)" by (simp add: numeral_2_eq_2)
  moreover have "pcReadFrom demo_queue = slot_ptr demo_queue 1 \<and> pcWriteTo demo_queue = slot_ptr demo_queue (Suc 1 + length [[16, 17 :: u8]])"
    by (simp add: slot_ptr_def demo_queue_def)
  moreover have "length [[16, 17 :: u8]] = unat (uxMessagesWaiting demo_queue)" "length [[16, 17 :: u8]] \<le> unat (uxLength demo_queue)"
    by (simp_all add: demo_queue_def)
  moreover have "bytes demo_system = (\<lambda>a. ucast a)" "queues demo_system 3000 = demo_queue" by (simp_all add: demo_system_def)
  ultimately show ?thesis unfolding stores_def by metis
qed

theorem queue_refines_list_witness:
  "\<exists>s' woken. xQueueGenericSendFromISR 3000 4000 queueSEND_TO_BACK False demo_system = (True, woken, s') \<and>
    stores (bytes s') (queues s' 3000) [[16, 17], [160, 161]]"
proof -
  have "pxQueueSetContainer (queues demo_system 3000) = 0" by (simp add: demo_system_def demo_queue_def)
  moreover have "buffer_apart (queues demo_system 3000) 5000"
  proof -
    have "\<not> in_storage demo_queue (5000 + i)" if "i < 2" for i
    proof -
      have "i = 0 \<or> i = 1" using that by (simp add: word_less_nat_alt word_unat_eq_iff less_2_cases_iff)
      then show ?thesis by (auto simp: in_storage_def demo_queue_def)
    qed
    then show ?thesis by (simp add: buffer_apart_def demo_system_def) (simp add: demo_queue_def)
  qed
  moreover have "item_list (unat (uxItemSize (queues demo_system 3000))) (item_at 4000 (bytes demo_system)) = [160, 161]"
    "unat (uxLength (queues demo_system 3000)) = 3"
    by (simp_all add: item_list_def item_at_def demo_system_def demo_queue_def upt_rec)
  ultimately show ?thesis
    using queue_refines_list [OF demo_stores, of queueSEND_TO_BACK 5000 4000 False] by (auto split: prod.splits)
qed

end
