(* ===== verification/Rtos_Wake.thy ===== *)
theory Rtos_Wake
  imports Rtos_Ring
begin

unbundle bit_operations_syntax

text \<open>
  Waking while the scheduler is suspended, in \<^verbatim>\<open>src/ns_guest/lib/freertos/tasks.c\<close> and \<^verbatim>\<open>queue.c\<close>: the tasks are collected in the
  pending list, and become ready when the scheduler is resumed.
\<close>

section \<open>The pending list\<close>

lemma insert_end_event:
  assumes K: "kcore T E s G" and t: "t \<in> T" "pxContainer (kl s) (xEventListItem t) = 0" and l: "l \<in> event_lists E s"
  defines "k \<equiv> vListInsertEnd l (xEventListItem t) (kl s)"
  shows "kcore T E (s\<lparr>kl := k\<rparr>) (G(l := ins_before (pxIndex (kl s) l) (xEventListItem t) (G l)))" "xItemValue k = xItemValue (kl s)"
    "\<And>y. y \<in> items T \<Longrightarrow> pxContainer k y = (if y = xEventListItem t then l else pxContainer (kl s) y)"
proof -
  have lu: "l \<in> state_lists s \<union> event_lists E s" using l by blast
  note R = rings_insert_end [OF kcoreD(1) [OF K] lu items_in(2) [OF t(1)] t(2), folded k_def]
  show "kcore T E (s\<lparr>kl := k\<rparr>) (G(l := ins_before (pxIndex (kl s) l) (xEventListItem t) (G l)))"
    by (rule kcore_event_enter [OF K t(1) l R(1-3) R(5)])
  show "xItemValue k = xItemValue (kl s)"
    "\<And>y. y \<in> items T \<Longrightarrow> pxContainer k y = (if y = xEventListItem t then l else pxContainer (kl s) y)" by (rule R)+
qed

text \<open>With the scheduler suspended the first waiting task moves to the pending list; its time out still runs.\<close>

lemma wake_suspended:
  assumes W: "waiting T E s G" and su: "uxSchedulerSuspended s \<noteq> 0" and l: "l \<in> E" and t0: "t0 \<in> T" "waits_in s l t0"
  shows "\<exists>t \<in> T. waits_in s l t \<and> (\<forall>u \<in> T. waits_in s l u \<longrightarrow> uxPriority s u \<le> uxPriority s t) \<and>
    (\<exists>s' G' y. xTaskRemoveFromEventList l s = (uxPriority s (pxCurrentTCB s) < uxPriority s t, s') \<and> waiting T E s' G' \<and>
      kframe (s\<lparr>xYieldPending := y\<rparr>) s' \<and> waits_in s' (xPendingReadyList s) t \<and>
      (\<forall>u \<in> T - {t}. pxContainer (kl s') (xEventListItem u) = pxContainer (kl s) (xEventListItem u)) \<and>
      (\<forall>u \<in> T. pxContainer (kl s') (xStateListItem u) = pxContainer (kl s) (xStateListItem u)) \<and> xItemValue (kl s') = xItemValue (kl s))"
proof -
  note D = waitingD [OF W]
  note K = D(2)
  note C = kcoreD [OF K]
  have lu: "l \<in> state_lists s \<union> event_lists E s" using l by (simp add: event_lists_def)
  have "xEventListItem t0 \<in> set (G l)" using rings_member [OF C(1) items_in(2) [OF t0(1)] lu] t0(2) by (simp add: waits_in_def)
  then have ne: "G l \<noteq> []" by auto
  from event_first [OF K D(4) l ne] obtain t where t: "t \<in> T" "hd (G l) = xEventListItem t"
    "listGET_OWNER_OF_HEAD_ENTRY l (kl s) = t" "pxContainer (kl s) (xEventListItem t) = l"
    "\<forall>u \<in> T. pxContainer (kl s) (xEventListItem u) = l \<longrightarrow> uxPriority s u \<le> uxPriority s t" by blast
  let ?e = "xEventListItem t" and ?p = "xPendingReadyList s" and ?b = "uxPriority s (pxCurrentTCB s) < uxPriority s t"
  note la = state_event_apart [OF K l]
  have lr: "l \<notin> ready_lists s" using la(1) by (simp add: state_lists_def)
  note A = kcore_remove [OF K items_in(2) [OF t(1)] t(4) la(2) lr]
  let ?s1 = "list_remove ?e s" and ?G1 = "G(l := remove1 ?e (G l))"
  note F = kframe_fields [OF A(2)]
  have z: "pxContainer (kl ?s1) ?e = 0" using A(4) [OF items_in(2) [OF t(1)]] by simp
  have pe: "?p \<in> event_lists E ?s1" by (simp add: event_lists_def F)
  note B = insert_end_event [OF A(1) t(1) z pe]
  let ?k = "vListInsertEnd ?p ?e (kl ?s1)"
  let ?s2 = "?s1\<lparr>kl := ?k\<rparr>" and ?G2 = "?G1(?p := ins_before (pxIndex (kl ?s1) ?p) ?e (?G1 ?p))"
  let ?s' = "if ?b then ?s2\<lparr>xYieldPending := True\<rparr> else ?s2"
  have r: "xTaskRemoveFromEventList l s = (?b, ?s')" using su by (simp add: xTaskRemoveFromEventList_def t(3) F Let_def)
  obtain k1 w1 where s1: "?s1 = s\<lparr>kl := k1, uxTopReadyPriority := w1\<rparr>" using A(2) unfolding kframe_def by blast
  let ?y = "if ?b then True else xYieldPending s"
  have "?s' = s\<lparr>xYieldPending := ?y\<rparr>\<lparr>kl := ?k, uxTopReadyPriority := w1\<rparr>" unfolding s1 by simp
  then have fr: "kframe (s\<lparr>xYieldPending := ?y\<rparr>) ?s'" unfolding kframe_def by blast
  have kl: "kl ?s' = ?k" by simp
  have val: "xItemValue (kl ?s') = xItemValue (kl s)" unfolding kl using B(2) A(3) by simp
  have cont: "pxContainer (kl ?s') y = (if y = ?e then ?p else pxContainer (kl s) y)" if "y \<in> items T" for y
    unfolding kl using B(3) [OF that] A(4) [OF that] by simp
  have ste: "pxContainer (kl ?s') (xStateListItem u) = pxContainer (kl s) (xStateListItem u)" if "u \<in> T" for u
    using cont [OF items_in(1) [OF that]] layout_items [OF C(2) that t(1)] by simp
  have eve: "pxContainer (kl ?s') (xEventListItem u) = (if u = t then ?p else pxContainer (kl s) (xEventListItem u))" if "u \<in> T" for u
    using cont [OF items_in(2) [OF that]] by simp
  note F2 = kframe_fields [OF fr, simplified]
  have G2: "?G2 j = (if j = l then remove1 ?e (G l) else if j = ?p then ins_before (pxIndex (kl ?s1) ?p) ?e (G ?p) else G j)" for j using la by simp
  have "ktime ?s' ?G2"
  proof -
    have "?G2 j = G j" if "j \<in> {pxDelayedTaskList s, pxOverflowDelayedTaskList s}" for j
      using delayed_in_state [OF K that] la C(2) unfolding G2 layout_def event_lists_def by auto
    then show ?thesis using D(3) unfolding ktime_def val F2 by simp
  qed
  moreover have "kcore T E ?s' ?G2" using B(1) by (simp add: kcore_cong)
  moreover have "event_order T E ?s' ?G2"
  proof -
    have "sorted (map (xItemValue (kl s)) (?G2 j))" if j: "j \<in> E" for j
    proof -
      have "sorted (map (xItemValue (kl s)) (G j))" using D(4) j by (simp only: event_order_def waiting_order_def)
      then show ?thesis using state_event_apart(3) [OF K j] unfolding G2 by (auto intro: sorted_map_remove1)
    qed
    then show ?thesis using D(4) unfolding event_order_def waiting_order_def val F2 by blast
  qed
  moreover have "pxContainer (kl ?s') (xStateListItem u) \<in> state_lists ?s' - ready_lists ?s'"
    if u: "u \<in> T" "pxContainer (kl ?s') (xEventListItem u) \<in> event_lists E ?s'" for u
  proof -
    have sl: "state_lists ?s' = state_lists s" "ready_lists ?s' = ready_lists s" "event_lists E ?s' = event_lists E s"
      unfolding F2(1,5) kframe_fields(2) [OF fr] by (simp_all add: state_lists_def ready_lists_def ready_list_def event_lists_def)
    have "pxContainer (kl s) (xEventListItem u) \<in> event_lists E s"
      using u(2) t(4) l unfolding sl(3) eve [OF u(1)] by (cases "u = t") (simp_all add: event_lists_def)
    then show ?thesis using D(5) [OF u(1)] ste [OF u(1)] by (simp only: sl)
  qed
  ultimately have W': "waiting T E ?s' ?G2" unfolding waiting_def kinv_def by blast
  have P: "waits_in ?s' ?p t" using eve [OF t(1)] by (simp add: waits_in_def)
  have O: "\<forall>u \<in> T - {t}. pxContainer (kl ?s') (xEventListItem u) = pxContainer (kl s) (xEventListItem u)" using eve by simp
  have ST: "\<forall>u \<in> T. pxContainer (kl ?s') (xStateListItem u) = pxContainer (kl s) (xStateListItem u)" using ste by blast
  show ?thesis
  proof (intro bexI [OF _ t(1)] conjI exI)
    show "waits_in s l t" "\<forall>u \<in> T. waits_in s l u \<longrightarrow> uxPriority s u \<le> uxPriority s t" using t(4,5) by (simp_all add: waits_in_def)
  qed (rule r W' fr P O ST val)+
qed

section \<open>Waking several tasks\<close>

definition waiters :: "u32 set \<Rightarrow> kernel \<Rightarrow> u32 \<Rightarrow> u32 set" where
  "waiters T s l = {t \<in> T. waits_in s l t}"

lemma waiters_list:
  assumes K: "kcore T E s G" and l: "l \<in> event_lists E s"
  shows "xEventListItem ` waiters T s l = set (G l)" "finite (waiters T s l)"
proof -
  have lu: "l \<in> state_lists s \<union> event_lists E s" using l by blast
  note R = kcoreD(1) [OF K]
  have "x \<in> xEventListItem ` waiters T s l" if x: "x \<in> set (G l)" for x
  proof -
    have c: "x \<in> items T" "pxContainer (kl s) x = l" using rings_container [OF R lu x] by simp_all
    have "x \<notin> xStateListItem ` T"
    proof
      assume "x \<in> xStateListItem ` T"
      then obtain t where "t \<in> T" "x = xStateListItem t" by blast
      then have "l \<in> insert 0 (state_lists s)" using kcore_task(4) [OF K] c(2) by blast
      then show False using kcoreD(2) [OF K] l rings_D(1) [OF R] unfolding layout_def by auto
    qed
    then show ?thesis using c by (auto simp: items_def waiters_def waits_in_def)
  qed
  moreover have "xEventListItem t \<in> set (G l)" if "t \<in> waiters T s l" for t
    using rings_member [OF R items_in(2) lu] that by (simp add: waiters_def waits_in_def)
  ultimately show e: "xEventListItem ` waiters T s l = set (G l)" by blast
  have "finite (xEventListItem ` waiters T s l)" unfolding e by simp
  then show "finite (waiters T s l)" by (rule finite_imageD) (simp add: inj_on_def)
qed

lemma waiters_empty:
  assumes K: "kcore T E s G" and l: "l \<in> event_lists E s"
  shows "listLIST_IS_EMPTY l (kl s) \<longleftrightarrow> waiters T s l = {}"
proof -
  have "l \<in> state_lists s \<union> event_lists E s" using l by blast
  then have "listLIST_IS_EMPTY l (kl s) \<longleftrightarrow> set (G l) = {}" using rings_empty [OF kcoreD(1) [OF K]] by simp
  also have "\<dots> \<longleftrightarrow> waiters T s l = {}" unfolding waiters_list(1) [OF K l, symmetric] by simp
  finally show ?thesis .
qed

text \<open>Both loops of \<open>prvUnlockQueue\<close> wake at most \<open>n\<close> tasks of one list.\<close>

fun wakes :: "nat \<Rightarrow> u32 \<Rightarrow> system \<Rightarrow> system" where
  "wakes 0 l s = s"
| "wakes (Suc n) l s = (if \<not> listLIST_IS_EMPTY l (kl (kern s)) then wakes n l (missed_yield (wake_one l s)) else s)"

lemma unlock_rx_loop_wakes: "unlock_rx_loop n q s = wakes n (xTasksWaitingToSend q) s"
  by (induction n arbitrary: s) simp_all

lemma missed_yield_wake_one:
  "missed_yield (wake_one l s) = (if listLIST_IS_EMPTY l (kl (kern s)) then s else
     s\<lparr>kern := (let (r, k) = xTaskRemoveFromEventList l (kern s) in if r then k\<lparr>xYieldPending := True\<rparr> else k)\<rparr>)"
  by (simp add: missed_yield_def wake_one_def in_kernel_def vTaskMissedYield_def case_prod_unfold Let_def)

lemma unlock_tx_loop_wakes: "pxQueueSetContainer (queues s q) = 0 \<Longrightarrow> unlock_tx_loop n q s = wakes n (xTasksWaitingToReceive q) s"
  by (induction n arbitrary: s) (simp_all add: missed_yield_wake_one)

text \<open>The state after \<open>n\<close> tasks were moved to the pending list: those of the highest priorities, or all.\<close>

definition woken :: "u32 set \<Rightarrow> u32 set \<Rightarrow> u32 set \<Rightarrow> kernel \<Rightarrow> kernel \<Rightarrow> bool" where
  "woken T E W s s' \<longleftrightarrow> (\<exists>G'. waiting T E s' G') \<and> (\<exists>y. kframe (s\<lparr>xYieldPending := y\<rparr>) s') \<and> xItemValue (kl s') = xItemValue (kl s) \<and>
     (\<forall>u \<in> T. pxContainer (kl s') (xEventListItem u) = (if u \<in> W then xPendingReadyList s else pxContainer (kl s) (xEventListItem u)) \<and>
       pxContainer (kl s') (xStateListItem u) = pxContainer (kl s) (xStateListItem u))"

lemma kframe_yield: "kframe (s\<lparr>xYieldPending := y\<rparr>) s' \<Longrightarrow> kframe (s'\<lparr>xYieldPending := z\<rparr>) s'' \<Longrightarrow> kframe (s\<lparr>xYieldPending := z\<rparr>) s''"
  unfolding kframe_def by clarsimp blast

lemma kframe_yield_fields:
  assumes "kframe (s\<lparr>xYieldPending := y\<rparr>) s'"
  shows "state_lists s' = state_lists s" "event_lists E s' = event_lists E s" "ready_list s' = ready_list s"
    "ready_lists s' = ready_lists s" "uxPriority s' = uxPriority s" "pxCurrentTCB s' = pxCurrentTCB s" "xPendingReadyList s' = xPendingReadyList s"
    "uxSchedulerSuspended s' = uxSchedulerSuspended s" "pxDelayedTaskList s' = pxDelayedTaskList s"
    "pxOverflowDelayedTaskList s' = pxOverflowDelayedTaskList s" "xTickCount s' = xTickCount s" "uxPendedTicks s' = uxPendedTicks s"
    "xNextTaskUnblockTime s' = xNextTaskUnblockTime s" "uxCurrentNumberOfTasks s' = uxCurrentNumberOfTasks s" "xNumOfOverflows s' = xNumOfOverflows s"
  using assms by (auto simp: kframe_def state_lists_def event_lists_def ready_lists_def ready_list_def fun_eq_iff)

lemma kframe_yield_refl: "\<exists>y. kframe (s\<lparr>xYieldPending := y\<rparr>) s"
  using kframe_refl [of s] by (intro exI [of _ "xYieldPending s"]) simp

lemma woken_none: "waiting T E s G \<Longrightarrow> woken T E {} s s"
  using kframe_yield_refl by (auto simp: woken_def)

lemma wakes_spec:
  assumes "waiting T E (kern s) G" "uxSchedulerSuspended (kern s) \<noteq> 0" "l \<in> E"
  shows "\<exists>k W. wakes n l s = s\<lparr>kern := k\<rparr> \<and> woken T E W (kern s) k \<and> W \<subseteq> waiters T (kern s) l \<and>
    card W = min n (card (waiters T (kern s) l)) \<and>
    (\<forall>t \<in> W. \<forall>u \<in> waiters T (kern s) l - W. uxPriority (kern s) u \<le> uxPriority (kern s) t)"
  using assms
proof (induction n arbitrary: s G)
  case 0
  have "s = s\<lparr>kern := kern s\<rparr>" by simp
  then show ?case using woken_none [OF 0(1)] by (intro exI [of _ "kern s"] exI [of _ "{}"]) simp
next
  case (Suc n)
  let ?k = "kern s"
  note D = waitingD [OF Suc.prems(1)]
  have le: "l \<in> event_lists E ?k" using Suc.prems(3) by (simp add: event_lists_def)
  note fin = waiters_list(2) [OF D(2) le] and em = waiters_empty [OF D(2) le]
  show ?case
  proof (cases "waiters T ?k l = {}")
    case True
    have "s = s\<lparr>kern := kern s\<rparr>" by simp
    then show ?thesis using woken_none [OF Suc.prems(1)] True em by (intro exI [of _ "kern s"] exI [of _ "{}"]) simp
  next
    case False
    then obtain t0 where "t0 \<in> T" "waits_in ?k l t0" by (auto simp: waiters_def)
    from wake_suspended [OF Suc.prems this] obtain t k1 G1 y where
      t: "t \<in> T" "waits_in ?k l t" "\<forall>u \<in> T. waits_in ?k l u \<longrightarrow> uxPriority ?k u \<le> uxPriority ?k t" and
      r: "xTaskRemoveFromEventList l ?k = (uxPriority ?k (pxCurrentTCB ?k) < uxPriority ?k t, k1)" and
      k1: "waiting T E k1 G1" "kframe (?k\<lparr>xYieldPending := y\<rparr>) k1" "waits_in k1 (xPendingReadyList ?k) t"
        "\<forall>u \<in> T - {t}. pxContainer (kl k1) (xEventListItem u) = pxContainer (kl ?k) (xEventListItem u)"
        "\<forall>u \<in> T. pxContainer (kl k1) (xStateListItem u) = pxContainer (kl ?k) (xStateListItem u)" "xItemValue (kl k1) = xItemValue (kl ?k)"
      by blast
    define k2 where "k2 = (if uxPriority ?k (pxCurrentTCB ?k) < uxPriority ?k t then k1\<lparr>xYieldPending := True\<rparr> else k1)"
    define s2 where "s2 = s\<lparr>kern := k2\<rparr>"
    have step: "wakes (Suc n) l s = wakes n l s2" using False em by (simp add: missed_yield_wake_one r s2_def k2_def)
    obtain z where fr: "kframe (?k\<lparr>xYieldPending := z\<rparr>) k2"
    proof -
      have "k2 = k1\<lparr>xYieldPending := xYieldPending k2\<rparr>" by (simp add: k2_def)
      then have "kframe (k1\<lparr>xYieldPending := xYieldPending k2\<rparr>) k2" using kframe_refl by metis
      then show ?thesis using kframe_yield [OF k1(2)] that by blast
    qed
    note F = kframe_yield_fields [OF fr]
    have w2: "waiting T E (kern s2) G1" using k1(1) by (simp add: waiting_yield s2_def k2_def)
    have su: "uxSchedulerSuspended (kern s2) \<noteq> 0" using Suc.prems(2) F(8) by (simp add: s2_def)
    have wt: "waiters T (kern s2) l = waiters T ?k l - {t}"
    proof -
      have "l \<noteq> xPendingReadyList ?k" by (rule state_event_apart(3) [OF D(2) Suc.prems(3)])
      then have "waits_in k2 l u \<longleftrightarrow> waits_in ?k l u \<and> u \<noteq> t" if "u \<in> T" for u
        using k1(3,4) that by (cases "u = t") (auto simp: waits_in_def k2_def)
      then show ?thesis by (auto simp: waiters_def s2_def)
    qed
    have tw: "t \<in> waiters T ?k l" using t by (simp add: waiters_def)
    have ke: "kern s2 = k2" by (simp add: s2_def)
    from Suc.IH [OF w2 su Suc.prems(3), unfolded wt, unfolded ke F(5)] obtain k W where
      IH: "wakes n l s2 = s2\<lparr>kern := k\<rparr>" "woken T E W k2 k" "W \<subseteq> waiters T ?k l - {t}" "card W = min n (card (waiters T ?k l - {t}))"
        "\<forall>v \<in> W. \<forall>u \<in> waiters T ?k l - {t} - W. uxPriority ?k u \<le> uxPriority ?k v"
      by blast
    have "woken T E (insert t W) ?k k"
    proof -
      obtain z2 where "kframe (k2\<lparr>xYieldPending := z2\<rparr>) k" using IH(2) by (auto simp: woken_def)
      then have "kframe (?k\<lparr>xYieldPending := z2\<rparr>) k" by (rule kframe_yield [OF fr])
      moreover have "xItemValue (kl k) = xItemValue (kl ?k)" using IH(2) k1(6) by (simp add: woken_def k2_def)
      moreover have "pxContainer (kl k) (xEventListItem u) = (if u \<in> insert t W then xPendingReadyList ?k else pxContainer (kl ?k) (xEventListItem u)) \<and>
          pxContainer (kl k) (xStateListItem u) = pxContainer (kl ?k) (xStateListItem u)" if u: "u \<in> T" for u
      proof (cases "u = t")
        case True
        then have "u \<notin> W" using IH(3) by blast
        then show ?thesis using IH(2) u k1(3,5) True by (simp add: woken_def waits_in_def k2_def)
      next
        case False
        then show ?thesis using IH(2) u k1(4,5) F(7) False by (simp add: woken_def) (simp add: k2_def)
      qed
      ultimately show ?thesis using IH(2) unfolding woken_def by blast
    qed
    moreover have "card (insert t W) = min (Suc n) (card (waiters T ?k l))"
    proof -
      have "finite W" "t \<notin> W" using IH(3) fin finite_subset [of W "waiters T ?k l"] by blast+
      then have "card (insert t W) = Suc (min n (card (waiters T ?k l - {t})))" using IH(4) by simp
      also have "\<dots> = min (Suc n) (Suc (card (waiters T ?k l - {t})))" by simp
      finally show ?thesis using card_Suc_Diff1 [OF fin tw] by simp
    qed
    moreover have "wakes (Suc n) l s = s\<lparr>kern := k\<rparr>" using step IH(1) by (simp add: s2_def)
    moreover have "\<forall>v \<in> insert t W. \<forall>u \<in> waiters T ?k l - insert t W. uxPriority ?k u \<le> uxPriority ?k v"
      using IH(5) t(3) by (auto simp: waiters_def)
    moreover have "insert t W \<subseteq> waiters T ?k l" using IH(3) tw by blast
    ultimately show ?thesis by blast
  qed
qed

section \<open>Resuming the scheduler\<close>

text \<open>The state after the tasks of \<open>W\<close> became ready.\<close>

definition readied :: "u32 set \<Rightarrow> u32 set \<Rightarrow> u32 set \<Rightarrow> kernel \<Rightarrow> kernel \<Rightarrow> bool" where
  "readied T E W s s' \<longleftrightarrow> (\<exists>G'. waiting T E s' G') \<and> (\<exists>y. kframe (s\<lparr>xYieldPending := y\<rparr>) s') \<and> xItemValue (kl s') = xItemValue (kl s) \<and>
     (\<forall>u \<in> T. pxContainer (kl s') (xEventListItem u) = (if u \<in> W then 0 else pxContainer (kl s) (xEventListItem u)) \<and>
       pxContainer (kl s') (xStateListItem u) = (if u \<in> W then ready_list s (uxPriority s u) else pxContainer (kl s) (xStateListItem u)))"

lemma pending_loop_spec:
  assumes "waiting T E s G"
  shows "\<exists>s'. pending_loop m s = Some (m \<or> waiters T s (xPendingReadyList s) \<noteq> {}, s') \<and>
    readied T E (waiters T s (xPendingReadyList s)) s s'"
  using assms
proof (induction "length (G (xPendingReadyList s))" arbitrary: m s G rule: less_induct)
  case less
  let ?p = "xPendingReadyList s"
  note W = less.prems
  note D = waitingD [OF W]
  note K = D(2)
  have le: "?p \<in> event_lists E s" by (simp add: event_lists_def)
  note em = waiters_empty [OF K le] and wl = waiters_list(1) [OF K le]
  show ?case
  proof (cases "waiters T s ?p = {}")
    case True
    then have "pending_loop m s = Some (m, s)" using em by (subst pending_loop.simps) simp
    moreover have "readied T E {} s s" using W kframe_yield_refl by (auto simp: readied_def)
    ultimately show ?thesis using True by simp
  next
    case False
    then have ne: "G ?p \<noteq> []" using wl by auto
    from event_head [OF K le ne] obtain t where t: "t \<in> T" "listGET_OWNER_OF_HEAD_ENTRY ?p (kl s) = t"
      "pxContainer (kl s) (xEventListItem t) = ?p" by blast
    let ?x = "xStateListItem t" and ?e = "xEventListItem t"
    define s3 where "s3 = prvAddTaskToReadyList t (list_remove ?x (list_remove ?e s))"
    note M = make_ready [OF W t(1,3) le, folded s3_def]
    note F = kframe_fields [OF M(2)]
    define s1 where "s1 = (if uxPriority s t \<ge> uxPriority s (pxCurrentTCB s) then s3\<lparr>xYieldPending := True\<rparr> else s3)"
    have step: "pending_loop m s = pending_loop True s1"
      using False em by (subst pending_loop.simps) (simp add: t(2) Let_def s3_def [symmetric] F s1_def)
    from M(1) obtain G1 where G1: "waiting T E s1 G1" "G1 ?p = remove1 ?e (G ?p)" by (auto simp: s1_def waiting_yield)
    have apart: "xStateListItem u \<noteq> xEventListItem v" if "u \<in> T" "v \<in> T" for u v by (rule layout_items [OF kcoreD(2) [OF K] that])
    have ev: "pxContainer (kl s1) (xEventListItem u) = (if u = t then 0 else pxContainer (kl s) (xEventListItem u))" if u: "u \<in> T" for u
      using M(4) [OF items_in(2) [OF u]] apart [OF t(1) u] by (cases "u = t") (auto simp: s1_def)
    have st: "pxContainer (kl s1) (xStateListItem u) = (if u = t then ready_list s (uxPriority s t) else pxContainer (kl s) (xStateListItem u))"
      if u: "u \<in> T" for u using M(4) [OF items_in(1) [OF u]] apart [OF u t(1)] by (cases "u = t") (auto simp: s1_def)
    have val: "xItemValue (kl s1) = xItemValue (kl s)" using M(3) by (simp add: s1_def)
    obtain z where fr: "kframe (s\<lparr>xYieldPending := z\<rparr>) s1"
    proof -
      have "kframe (s3\<lparr>xYieldPending := xYieldPending s1\<rparr>) s1"
      proof -
        have "s1 = s3\<lparr>xYieldPending := xYieldPending s1\<rparr>" by (simp add: s1_def)
        then show ?thesis using kframe_refl by metis
      qed
      moreover have "kframe (s\<lparr>xYieldPending := xYieldPending s\<rparr>) s3" using M(2) by simp
      ultimately show ?thesis using kframe_yield that by blast
    qed
    note F1 = kframe_yield_fields [OF fr]
    have tp: "?e \<in> set (G ?p)" using wl t(1,3) by (auto simp: waiters_def waits_in_def)
    then have "length (G1 (xPendingReadyList s1)) < length (G ?p)" using G1(2) F1(7) length_pos_if_in_set [OF tp] by (simp add: length_remove1)
    from less.hyps [OF this G1(1), of True] obtain s' where
      s': "pending_loop True s1 = Some (True, s')" "readied T E (waiters T s1 ?p) s1 s'" unfolding F1(7) by auto
    have p0: "?p \<noteq> 0" using rings_D(1) [OF kcoreD(1) [OF K]] le by auto
    have wt: "waiters T s1 ?p = waiters T s ?p - {t}" using ev p0 by (auto simp: waiters_def waits_in_def split: if_splits)
    have tw: "t \<in> waiters T s ?p" using t(1,3) by (simp add: waiters_def waits_in_def)
    have "readied T E (waiters T s ?p) s s'"
    proof -
      note R = s'(2) [unfolded readied_def wt F1]
      obtain z2 where "kframe (s1\<lparr>xYieldPending := z2\<rparr>) s'" using R by blast
      then have "kframe (s\<lparr>xYieldPending := z2\<rparr>) s'" by (rule kframe_yield [OF fr])
      moreover have "pxContainer (kl s') (xEventListItem u) = (if u \<in> waiters T s ?p then 0 else pxContainer (kl s) (xEventListItem u)) \<and>
         pxContainer (kl s') (xStateListItem u) = (if u \<in> waiters T s ?p then ready_list s (uxPriority s u) else pxContainer (kl s) (xStateListItem u))"
        if u: "u \<in> T" for u
      proof (cases "u = t")
        case True
        then show ?thesis using R t(1) tw ev [OF t(1)] st [OF t(1)] by simp
      next
        case False
        then show ?thesis using R u ev [OF u] st [OF u] by simp
      qed
      ultimately show ?thesis using R val unfolding readied_def by simp blast
    qed
    then show ?thesis using step s'(1) False by simp
  qed
qed

lemma waiting_cong:
  assumes "kcore T E s' G" "ktime s' G" "xItemValue (kl s') = xItemValue (kl s)" "uxPriority s' = uxPriority s"
    "pxContainer (kl s') = pxContainer (kl s)" "event_lists E s' = event_lists E s" "state_lists s' = state_lists s" "ready_lists s' = ready_lists s"
    and W: "waiting T E s G"
  shows "waiting T E s' G"
  using W assms(1-8) by (simp add: waiting_def kinv_def event_order_def waiting_order_def)

lemma switch_waiting:
  assumes W: "waiting T E s G" and q: "uxSchedulerSuspended s = 0" and t: "t \<in> T" "task_ready s t"
  shows "\<exists>s' u. vTaskSwitchContext s = Some s' \<and> switched u s s' \<and> waiting T E s' G \<and> highest_ready T s' u"
proof -
  note D = waitingD [OF W]
  have "pxContainer (kl s) (xStateListItem t) \<in> ready_lists s" using task_ready_in [OF D(2) t(1)] t(2) by blast
  from switch_spec [OF D(2) q t(1) this] obtain u l i where
    u: "vTaskSwitchContext s = Some (s\<lparr>xYieldPending := False, kl := set_pxIndex l i (kl s), pxCurrentTCB := u\<rparr>)"
      "highest_ready T s u" "kcore T E (s\<lparr>kl := set_pxIndex l i (kl s)\<rparr>) G" by blast
  let ?s = "s\<lparr>xYieldPending := False, kl := set_pxIndex l i (kl s), pxCurrentTCB := u\<rparr>"
  have sw: "switched u s ?s" unfolding switched_def by blast
  have "?s = s\<lparr>kl := set_pxIndex l i (kl s)\<rparr>\<lparr>xYieldPending := False\<rparr>\<lparr>pxCurrentTCB := u\<rparr>" by simp
  then have "kcore T E ?s G" using u(3) by (simp only: kcore_cong)
  moreover have "ktime ?s G" using D(3) by (simp add: ktime_def list_setters)
  ultimately have "waiting T E ?s G"
    by (rule waiting_cong [OF _ _ _ _ _ _ _ _ W]) (simp_all add: list_setters event_lists_def state_lists_def ready_lists_def ready_list_def)
  then show ?thesis using u(1,2) sw by (auto simp: switched_views [OF sw])
qed

lemma tick_waiting:
  assumes W: "waiting T E s G" and q: "uxSchedulerSuspended s = 0"
  shows "\<exists>r s' G'. xTaskIncrementTick s = Some (r, s') \<and> waiting T E s' G' \<and> ticked T s s' \<and> pxCurrentTCB s' = pxCurrentTCB s \<and>
    event_lists E s' = event_lists E s \<and> state_lists s' = state_lists s"
proof -
  note D = waitingD [OF W]
  from tick_spec [OF D(1) q] obtain r s' G' where
    t: "xTaskIncrementTick s = Some (r, s')" "kinv T E s' G'" "ticked T s s'" "pxCurrentTCB s' = pxCurrentTCB s"
      "thinned (event_lists E s) G G'" "xItemValue (kl s') = xItemValue (kl s)" "state_lists s' = state_lists s" by blast
  note k = t(3) [unfolded ticked_def]
  have e: "event_lists E s' = event_lists E s" and rl: "ready_lists s' = ready_lists s" using k by (simp_all add: event_lists_def ready_lists_def)
  have "event_order T E s' G'"
  proof -
    have "sorted (map (xItemValue (kl s)) (G' j))" if j: "j \<in> E" for j
    proof -
      have "j \<in> event_lists E s" using j by (simp add: event_lists_def)
      then show ?thesis using t(5) D(4) j unfolding thinned_def event_order_def waiting_order_def by blast
    qed
    then show ?thesis using D(4) k by (simp add: event_order_def waiting_order_def t(6))
  qed
  moreover have "pxContainer (kl s') (xStateListItem u) \<in> state_lists s - ready_lists s"
    if u: "u \<in> T" "pxContainer (kl s') (xEventListItem u) \<in> event_lists E s" for u
  proof -
    have "0 \<notin> event_lists E s" using rings_D(1) [OF kcoreD(1) [OF D(2)]] by blast
    then have "\<not> (sleeping s u \<and> remaining s u = 1)" using k u by (metis (no_types, lifting))
    then have "pxContainer (kl s') (xStateListItem u) = pxContainer (kl s) (xStateListItem u)"
      "pxContainer (kl s') (xEventListItem u) = pxContainer (kl s) (xEventListItem u)" using k u(1) by (simp_all split: if_splits)
    then show ?thesis using D(5) [OF u(1)] u(2) by simp
  qed
  ultimately have "waiting T E s' G'" using t(2) by (simp add: waiting_def e rl t(7))
  then show ?thesis using t(1,3,4,7) e by blast
qed

text \<open>The ticks that were counted while the scheduler was suspended.\<close>

lemma pended_ticks_waiting:
  assumes "waiting T E s G" "uxSchedulerSuspended s = 0"
  shows "\<exists>s' G'. pended_ticks n s = Some s' \<and> waiting T E s' G' \<and> uxSchedulerSuspended s' = 0 \<and> pxCurrentTCB s' = pxCurrentTCB s \<and>
    uxPriority s' = uxPriority s \<and> ready_list s' = ready_list s \<and> xPendingReadyList s' = xPendingReadyList s \<and>
    xTickCount s' = xTickCount s + of_nat n \<and>
    (\<forall>u \<in> T. status s' u = (status_tick ^^ n) (status s u) \<and> pxContainer (kl s') (xEventListItem u) \<in> {0, pxContainer (kl s) (xEventListItem u)})"
  using assms
proof (induction n arbitrary: s G)
  case 0
  then show ?case by auto
next
  case (Suc n)
  from tick_waiting [OF Suc.prems] obtain r s1 G1 where
    t: "xTaskIncrementTick s = Some (r, s1)" "waiting T E s1 G1" "ticked T s s1" "pxCurrentTCB s1 = pxCurrentTCB s" by blast
  let ?s = "if r then s1\<lparr>xYieldPending := True\<rparr> else s1"
  have views: "status ?s = status s1" "uxPriority ?s = uxPriority s1" "pxContainer (kl ?s) = pxContainer (kl s1)" "pxCurrentTCB ?s = pxCurrentTCB s1"
    "uxSchedulerSuspended ?s = uxSchedulerSuspended s1" "xPendingReadyList ?s = xPendingReadyList s1" "xTickCount ?s = xTickCount s1"
    "ready_list ?s = ready_list s1"
    by (simp_all add: status_def task_ready_def sleeping_def remaining_def ready_list_def fun_eq_iff)
  have W: "waiting T E ?s G1" using t(2) by (simp add: waiting_yield)
  note k = t(3) [unfolded ticked_def]
  have su: "uxSchedulerSuspended ?s = 0" using k Suc.prems(2) by simp
  from Suc.IH [OF W su] obtain s' G' where
    s': "pended_ticks n ?s = Some s'" "waiting T E s' G'" "uxSchedulerSuspended s' = 0" "pxCurrentTCB s' = pxCurrentTCB s1" "uxPriority s' = uxPriority s1"
      "ready_list s' = ready_list s1" "xPendingReadyList s' = xPendingReadyList s1" "xTickCount s' = xTickCount s1 + of_nat n"
      "\<And>u. u \<in> T \<Longrightarrow> status s' u = (status_tick ^^ n) (status s1 u) \<and> pxContainer (kl s') (xEventListItem u) \<in> {0, pxContainer (kl s1) (xEventListItem u)}"
    unfolding views by blast
  have "status s' u = (status_tick ^^ Suc n) (status s u) \<and> pxContainer (kl s') (xEventListItem u) \<in> {0, pxContainer (kl s) (xEventListItem u)}"
    if u: "u \<in> T" for u
  proof -
    have "status s1 u = status_tick (status s u)"
      by (rule tick_status [OF waitingD(1) [OF Suc.prems(1)] waitingD(1) [OF t(2)] t(3) u])
    moreover have "pxContainer (kl s1) (xEventListItem u) \<in> {0, pxContainer (kl s) (xEventListItem u)}" using k u by (metis insertCI)
    ultimately show ?thesis using s'(9) [OF u] by (auto simp: funpow_swap1)
  qed
  moreover have "pended_ticks (Suc n) s = Some s'" using t(1) s'(1) by (simp add: Let_def)
  moreover have "xTickCount s' = xTickCount s + of_nat (Suc n)" using s'(8) k by (simp add: algebra_simps)
  ultimately show ?case using s'(2-7) k t(4) by (intro exI [of _ s'] exI [of _ G']) simp
qed

lemma reset_next_waiting:
  assumes W: "waiting T E s G"
  shows "\<exists>n. prvResetNextTaskUnblockTime s = s\<lparr>xNextTaskUnblockTime := n\<rparr> \<and> waiting T E (s\<lparr>xNextTaskUnblockTime := n\<rparr>) G"
proof -
  note D = waitingD [OF W]
  from reset_next_spec [OF D(2)] obtain n where
    n: "prvResetNextTaskUnblockTime s = s\<lparr>xNextTaskUnblockTime := n\<rparr>" "\<forall>x \<in> set (G (pxDelayedTaskList s)). n \<le> xItemValue (kl s) x" by blast
  have "kcore T E (s\<lparr>xNextTaskUnblockTime := n\<rparr>) G" using D(2) by (simp add: kcore_cong)
  moreover have "ktime (s\<lparr>xNextTaskUnblockTime := n\<rparr>) G" using D(3) n(2) by (simp add: ktime_def)
  ultimately have "waiting T E (s\<lparr>xNextTaskUnblockTime := n\<rparr>) G"
    by (rule waiting_cong [OF _ _ _ _ _ _ _ _ W]) (simp_all add: event_lists_def state_lists_def ready_lists_def ready_list_def)
  then show ?thesis using n(1) by blast
qed

lemma waiting_counts:
  "waiting T E (s\<lparr>uxSchedulerSuspended := n\<rparr>) G = waiting T E s G" "waiting T E (s\<lparr>uxPendedTicks := n\<rparr>) G = waiting T E s G"
  by (simp_all add: waiting_def kinv_def kcore_cong ktime_def event_order_def waiting_order_def event_lists_def state_lists_def ready_lists_def ready_list_def)

text \<open>What a task's status is after the tasks of \<open>P\<close> were made ready and \<open>n\<close> ticks went by.\<close>

definition resumed :: "u32 set \<Rightarrow> u32 set \<Rightarrow> nat \<Rightarrow> kernel \<Rightarrow> kernel \<Rightarrow> bool" where
  "resumed T P n s s' \<longleftrightarrow> uxPriority s' = uxPriority s \<and> ready_list s' = ready_list s \<and> xPendingReadyList s' = xPendingReadyList s \<and>
     xTickCount s' = xTickCount s + of_nat n \<and>
     (\<forall>u \<in> T. status s' u = (status_tick ^^ n) (if u \<in> P then Ready else status s u) \<and>
       pxContainer (kl s') (xEventListItem u) \<in> {0, pxContainer (kl s) (xEventListItem u)} \<and>
       (u \<in> P \<longrightarrow> pxContainer (kl s') (xEventListItem u) = 0))"

lemma funpow_ready [simp]: "(status_tick ^^ n) Ready = Ready"
  by (induction n) simp_all

lemma resume_spec:
  assumes W: "waiting T E s G" and su: "uxSchedulerSuspended s = 1" and cnt: "uxCurrentNumberOfTasks s > 0"
    and t: "t \<in> T" "status s t = Ready"
  shows "\<exists>r s' G'. xTaskResumeAll s = Some (r, s') \<and> waiting T E s' G' \<and> quiet T s' \<and>
    resumed T (waiters T s (xPendingReadyList s)) (unat (uxPendedTicks s)) s s' \<and>
    (r \<longrightarrow> highest_ready T s' (pxCurrentTCB s')) \<and> (\<not> r \<longrightarrow> pxCurrentTCB s' = pxCurrentTCB s \<and> \<not> xYieldPending s')"
proof -
  let ?p = "xPendingReadyList s" and ?n = "unat (uxPendedTicks s)"
  let ?P = "waiters T s ?p"
  let ?s0 = "s\<lparr>uxSchedulerSuspended := 0\<rparr>"
  have W0: "waiting T E ?s0 G" using W by (simp add: waiting_counts)
  have P0: "waiters T ?s0 (xPendingReadyList ?s0) = ?P" by (simp add: waiters_def waits_in_def)
  from pending_loop_spec [OF W0, of False] obtain s1 where
    s1: "pending_loop False ?s0 = Some (?P \<noteq> {}, s1)" "readied T E ?P ?s0 s1" unfolding P0 by auto
  obtain G1 y where W1: "waiting T E s1 G1" and fr: "kframe (?s0\<lparr>xYieldPending := y\<rparr>) s1" using s1(2) by (auto simp: readied_def)
  note F = kframe_yield_fields [OF fr]
  obtain m where s2: "(if ?P \<noteq> {} then prvResetNextTaskUnblockTime s1 else s1) = s1\<lparr>xNextTaskUnblockTime := m\<rparr>"
    and W2: "waiting T E (s1\<lparr>xNextTaskUnblockTime := m\<rparr>) G1"
  proof (cases "?P = {}")
    case True
    have "s1 = s1\<lparr>xNextTaskUnblockTime := xNextTaskUnblockTime s1\<rparr>" by simp
    then show ?thesis using that True W1 by metis
  next
    case False
    then show ?thesis using reset_next_waiting [OF W1] that by auto
  qed
  let ?s2 = "s1\<lparr>xNextTaskUnblockTime := m\<rparr>"
  have rl0: "ready_list ?s0 = ready_list s" by (simp add: ready_list_def fun_eq_iff)
  have st2: "status ?s2 u = (if u \<in> ?P then Ready else status s u)" if u: "u \<in> T" for u
  proof -
    have c: "pxContainer (kl s1) (xStateListItem u) = (if u \<in> ?P then ready_list s (uxPriority s u) else pxContainer (kl s) (xStateListItem u))"
      and v: "xItemValue (kl s1) = xItemValue (kl s)" using s1(2) u by (simp_all add: readied_def rl0)
    have rl: "ready_list ?s2 = ready_list s" using F(3) rl0 by (simp add: ready_list_def fun_eq_iff)
    have "task_ready ?s2 u \<longleftrightarrow> u \<in> ?P \<or> task_ready s u" using c F(5) unfolding task_ready_def rl by auto
    moreover have "sleeping ?s2 u = sleeping s u" "remaining ?s2 u = remaining s u" if "u \<notin> ?P"
      using c v that F(9-11) by (simp_all add: sleeping_def remaining_def)
    ultimately show ?thesis by (simp add: status_def)
  qed
  have su2: "uxSchedulerSuspended ?s2 = 0" using F(8) by simp
  from pended_ticks_waiting [OF W2 su2, of ?n] obtain s3 G3 where
    s3: "pended_ticks ?n ?s2 = Some s3" "waiting T E s3 G3" "uxSchedulerSuspended s3 = 0" "pxCurrentTCB s3 = pxCurrentTCB ?s2"
      "uxPriority s3 = uxPriority ?s2" "ready_list s3 = ready_list ?s2" "xPendingReadyList s3 = xPendingReadyList ?s2"
      "xTickCount s3 = xTickCount ?s2 + of_nat ?n"
      "\<And>u. u \<in> T \<Longrightarrow> status s3 u = (status_tick ^^ ?n) (status ?s2 u) \<and> pxContainer (kl s3) (xEventListItem u) \<in> {0, pxContainer (kl ?s2) (xEventListItem u)}"
    by blast
  let ?s4 = "s3\<lparr>uxPendedTicks := 0\<rparr>"
  have pt: "(if uxPendedTicks ?s2 > 0 then do { s \<leftarrow> pended_ticks (unat (uxPendedTicks ?s2)) ?s2; Some (s\<lparr>uxPendedTicks := 0\<rparr>) } else Some ?s2) = Some ?s4"
  proof (cases "uxPendedTicks s = 0")
    case True
    then have "s3 = ?s2" using s3(1) by simp
    then show ?thesis using True F(12) by simp
  next
    case False
    then show ?thesis using s3(1) F(12) by (simp add: word_gt_0)
  qed
  have views: "status ?s4 = status s3" "ready_list ?s4 = ready_list s3"
    by (simp_all add: status_def task_ready_def sleeping_def remaining_def ready_list_def fun_eq_iff)
  have W4: "waiting T E ?s4 G3" using s3(2) by (simp add: waiting_counts)
  have ev: "pxContainer (kl s1) (xEventListItem u) = (if u \<in> ?P then 0 else pxContainer (kl s) (xEventListItem u))" if "u \<in> T" for u
    using s1(2) that by (simp add: readied_def)
  have "ready_list ?s2 = ready_list s" using F(3) rl0 by (simp add: ready_list_def fun_eq_iff)
  moreover have "status s3 u = (status_tick ^^ ?n) (if u \<in> ?P then Ready else status s u) \<and>
      pxContainer (kl s3) (xEventListItem u) \<in> {0, pxContainer (kl s) (xEventListItem u)} \<and> (u \<in> ?P \<longrightarrow> pxContainer (kl s3) (xEventListItem u) = 0)"
    if u: "u \<in> T" for u using s3(9) [OF u] st2 [OF u] ev [OF u] by (cases "u \<in> ?P") simp_all
  ultimately have R4: "resumed T ?P ?n s ?s4" using s3(5-8) F by (simp add: resumed_def views)
  have p0: "?p \<noteq> 0" using rings_D(1) [OF kcoreD(1) [OF waitingD(2) [OF W]]] by (auto simp: event_lists_def)
  have np: "pxContainer (kl s3) (xEventListItem u) \<noteq> ?p" if u: "u \<in> T" for u
    using s3(9) [OF u] ev [OF u] u p0 by (auto simp: waiters_def waits_in_def split: if_splits)
  have q4: "quiet T ?s4" using np s3(3,7) F(7) by (simp add: quiet_def)
  have ex: "xTaskResumeAll s = (if xYieldPending ?s4 then map_option (Pair True) (vTaskSwitchContext ?s4) else Some (False, ?s4))"
  proof -
    have "xTaskResumeAll s = do {
        (moved, s) \<leftarrow> pending_loop False ?s0;
        let s = (if moved then prvResetNextTaskUnblockTime s else s);
        s \<leftarrow> (if uxPendedTicks s > 0
             then do { s \<leftarrow> pended_ticks (unat (uxPendedTicks s)) s; Some (s\<lparr>uxPendedTicks := 0\<rparr>) }
             else Some s);
        if xYieldPending s then do { s \<leftarrow> vTaskSwitchContext s; Some (True, s) } else Some (False, s) }"
      using su cnt by (simp add: xTaskResumeAll_def)
    then show ?thesis unfolding s1(1) by (simp only: Option.bind.simps prod.case Let_def s2 pt) (cases "vTaskSwitchContext ?s4"; simp)
  qed
  show ?thesis
  proof (cases "xYieldPending ?s4")
    case False
    have "xTaskResumeAll s = Some (False, ?s4)" using ex False by simp
    moreover have "pxCurrentTCB ?s4 = pxCurrentTCB s" using s3(4) F(6) by simp
    ultimately show ?thesis using W4 q4 R4 False by blast
  next
    case True
    have "task_ready ?s4 t"
    proof -
      have "status ?s4 t = Ready" using R4 t by (simp add: resumed_def)
      then show ?thesis using status_kinv(1) [OF waitingD(1) [OF W4] t(1)] by blast
    qed
    with switch_waiting [OF W4 _ t(1)] s3(3) obtain s5 v where
      s5: "vTaskSwitchContext ?s4 = Some s5" "switched v ?s4 s5" "waiting T E s5 G3" "highest_ready T s5 v" by auto
    note V = switched_fields [OF s5(2)] switched_views [OF s5(2)]
    have "status s5 = status ?s4" by (simp add: status_def fun_eq_iff V)
    then have "resumed T ?P ?n s s5" using R4 by (simp add: resumed_def V)
    moreover have "xTaskResumeAll s = Some (True, s5)" using ex True s5(1) by simp
    moreover have "quiet T s5" using q4 by (simp add: V)
    ultimately show ?thesis using s5(3,4) V(12) by auto
  qed
qed

section \<open>Unlocking a queue\<close>

lemma woken_trans:
  assumes "woken T E V s s1" "woken T E W s1 s2"
  shows "woken T E (V \<union> W) s s2"
proof -
  obtain y z where "kframe (s\<lparr>xYieldPending := y\<rparr>) s1" "kframe (s1\<lparr>xYieldPending := z\<rparr>) s2" using assms by (auto simp: woken_def)
  then have "kframe (s\<lparr>xYieldPending := z\<rparr>) s2" "xPendingReadyList s1 = xPendingReadyList s"
    using kframe_yield kframe_yield_fields(7) by blast+
  moreover have "pxContainer (kl s2) (xEventListItem u) = (if u \<in> V \<union> W then xPendingReadyList s else pxContainer (kl s) (xEventListItem u)) \<and>
      pxContainer (kl s2) (xStateListItem u) = pxContainer (kl s) (xStateListItem u)" if "u \<in> T" for u
    using assms that calculation(2) by (simp add: woken_def)
  moreover have "xItemValue (kl s2) = xItemValue (kl s)" using assms by (simp add: woken_def)
  ultimately show ?thesis using assms(2) unfolding woken_def by blast
qed

text \<open>\<open>W\<close> are \<open>n\<close> of the tasks \<open>A\<close>, or all, and none of the rest has a higher priority.\<close>

definition top :: "nat \<Rightarrow> (u32 \<Rightarrow> u32) \<Rightarrow> u32 set \<Rightarrow> u32 set \<Rightarrow> bool" where
  "top n prio A W \<longleftrightarrow> W \<subseteq> A \<and> card W = min n (card A) \<and> (\<forall>t \<in> W. \<forall>u \<in> A - W. prio u \<le> prio t)"

lemma waiting_lists_differ: "xTasksWaitingToSend q \<noteq> xTasksWaitingToReceive q"
  by (simp add: xTasksWaitingToSend_def xTasksWaitingToReceive_def)

lemma unlock_spec:
  fixes q :: u32
  defines "rcv \<equiv> xTasksWaitingToReceive q" and "snd' \<equiv> xTasksWaitingToSend q"
  assumes W: "waiting T E (kern s) G" and su: "uxSchedulerSuspended (kern s) \<noteq> 0"
    and l: "rcv \<in> E" "snd' \<in> E" and alone: "pxQueueSetContainer (queues s q) = 0"
  shows "\<exists>k A B. prvUnlockQueue q id s =
      set_queue q (\<lambda>Q. Q\<lparr>cTxLock := queueUNLOCKED, cRxLock := queueUNLOCKED\<rparr>) (s\<lparr>kern := k\<rparr>) \<and>
    woken T E (A \<union> B) (kern s) k \<and>
    top (nat (sint (cTxLock (queues s q)))) (uxPriority (kern s)) (waiters T (kern s) rcv) A \<and>
    top (nat (sint (cRxLock (queues s q)))) (uxPriority (kern s)) (waiters T (kern s) snd') B"
proof -
  let ?Q = "queues s q"
  let ?tx = "nat (sint (cTxLock ?Q))" and ?rx = "nat (sint (cRxLock ?Q))"
  from wakes_spec [OF W su l(1), of ?tx] obtain k1 A where
    k1: "wakes ?tx rcv s = s\<lparr>kern := k1\<rparr>" "woken T E A (kern s) k1" "top ?tx (uxPriority (kern s)) (waiters T (kern s) rcv) A"
    unfolding top_def by blast
  let ?s1 = "set_queue q (\<lambda>Q. Q\<lparr>cTxLock := queueUNLOCKED\<rparr>) (s\<lparr>kern := k1\<rparr>)"
  obtain y G1 where fr: "kframe (kern s\<lparr>xYieldPending := y\<rparr>) k1" and W1: "waiting T E k1 G1" using k1(2) by (auto simp: woken_def)
  note F = kframe_yield_fields [OF fr]
  have ks: "kern ?s1 = k1" by simp
  have "uxSchedulerSuspended (kern ?s1) \<noteq> 0" "waiting T E (kern ?s1) G1" using su F(8) W1 by simp_all
  from wakes_spec [OF this(2,1) l(2), of ?rx, unfolded ks F(5)] obtain k B where
    k: "wakes ?rx snd' ?s1 = ?s1\<lparr>kern := k\<rparr>" "woken T E B k1 k" "top ?rx (uxPriority (kern s)) (waiters T k1 snd') B"
    unfolding top_def by blast
  have "waiters T k1 snd' = waiters T (kern s) snd'"
  proof -
    have "waits_in k1 snd' u = waits_in (kern s) snd' u" if u: "u \<in> T" for u
    proof (cases "u \<in> A")
      case True
      then have "waits_in (kern s) rcv u" using k1(3) by (auto simp: top_def waiters_def)
      moreover have "rcv \<noteq> snd'" "xPendingReadyList (kern s) \<noteq> snd'"
        using waiting_lists_differ [of q] state_event_apart(3) [OF waitingD(2) [OF W] l(2)] by (simp_all add: rcv_def snd'_def)
      ultimately show ?thesis using k1(2) u True by (simp add: woken_def waits_in_def)
    next
      case False
      then show ?thesis using k1(2) u by (simp add: woken_def waits_in_def)
    qed
    then show ?thesis by (auto simp: waiters_def)
  qed
  then have B: "top ?rx (uxPriority (kern s)) (waiters T (kern s) snd') B" using k(3) by simp
  have "prvUnlockQueue q id s = set_queue q (\<lambda>Q. Q\<lparr>cRxLock := queueUNLOCKED\<rparr>) (wakes ?rx snd' ?s1)"
    using k1(1) alone by (simp add: prvUnlockQueue_def unlock_tx_loop_wakes unlock_rx_loop_wakes rcv_def snd'_def)
  also have "\<dots> = set_queue q (\<lambda>Q. Q\<lparr>cTxLock := queueUNLOCKED, cRxLock := queueUNLOCKED\<rparr>) (s\<lparr>kern := k\<rparr>)"
    unfolding k(1) by (simp add: set_queue_def)
  finally show ?thesis using woken_trans [OF k1(2) k(2)] k1(3) B by blast
qed

text \<open>What interrupts do to a queue while a task has it locked: posts and gives, with the number that succeeded.\<close>

datatype isr_op = Post u32 position | Give

fun isr_step :: "u32 \<Rightarrow> isr_op \<Rightarrow> system \<Rightarrow> bool \<times> bool \<times> system" where
  "isr_step q (Post item pos) s = xQueueGenericSendFromISR q item pos False s"
| "isr_step q Give s = xQueueGiveFromISR q False s"

fun isr_run :: "u32 \<Rightarrow> isr_op list \<Rightarrow> system \<Rightarrow> nat \<times> system" where
  "isr_run q [] s = (0, s)"
| "isr_run q (p # ps) s =
     (let (ok, w, s) = isr_step q p s; (n, s) = isr_run q ps s in ((if ok then 1 else 0) + n, s))"

text \<open>On a locked queue an interrupt touches neither the kernel nor the lists; it counts.\<close>

lemma copy_to_kern:
  fixes f :: "u32 \<Rightarrow> u8" and s :: system and pos :: position
  assumes "uxItemSize (queues s q) \<noteq> 0 \<or> uxQueueType (queues s q) \<noteq> queueQUEUE_IS_MUTEX"
  defines "s' \<equiv> snd (prvCopyDataToQueue q f pos s)"
  shows "kern s' = kern s" "cTxLock (queues s' q) = cTxLock (queues s q)" "cRxLock (queues s' q) = cRxLock (queues s q)"
    "pxQueueSetContainer (queues s' q) = pxQueueSetContainer (queues s q)" "uxItemSize (queues s' q) = uxItemSize (queues s q)"
    "uxQueueType (queues s' q) = uxQueueType (queues s q)"
  using assms(1) by (auto simp: s'_def prvCopyDataToQueue_def Let_def)

lemma isr_step_locked:
  assumes m: "uxItemSize (queues s q) \<noteq> 0 \<or> uxQueueType (queues s q) \<noteq> queueQUEUE_IS_MUTEX" and lock: "cTxLock (queues s q) \<noteq> queueUNLOCKED"
    and s': "isr_step q p s = (ok, w, s')"
  shows "kern s' = kern s" "cTxLock (queues s' q) = cTxLock (queues s q) + (if ok then 1 else 0)" "cRxLock (queues s' q) = cRxLock (queues s q)"
    "pxQueueSetContainer (queues s' q) = pxQueueSetContainer (queues s q)" "uxItemSize (queues s' q) = uxItemSize (queues s q)"
    "uxQueueType (queues s' q) = uxQueueType (queues s q)"
proof -
  have "kern s' = kern s \<and> cTxLock (queues s' q) = cTxLock (queues s q) + (if ok then 1 else 0) \<and> cRxLock (queues s' q) = cRxLock (queues s q) \<and>
    pxQueueSetContainer (queues s' q) = pxQueueSetContainer (queues s q) \<and> uxItemSize (queues s' q) = uxItemSize (queues s q) \<and>
    uxQueueType (queues s' q) = uxQueueType (queues s q)"
  proof (cases p)
    case (Post item pos)
    note C = copy_to_kern [OF m, of "item_at item (bytes s)" pos]
    note I = send_from_isr_cases [where s = s and q = q and pos = pos and woken = False and item = item]
    show ?thesis
    proof (cases "uxMessagesWaiting (queues s q) < uxLength (queues s q) \<or> pos = queueOVERWRITE")
      case True
      have "ok = True" "s' = set_queue q (\<lambda>Q. Q\<lparr>cTxLock := cTxLock (queues s q) + 1\<rparr>) (snd (prvCopyDataToQueue q (item_at item (bytes s)) pos s))"
        using I(3) [OF True lock] s' Post by simp_all
      then show ?thesis using C by simp
    next
      case False
      then have "ok = False" "s' = s" using I(1) s' Post by simp_all
      then show ?thesis by simp
    qed
  next
    case Give
    then show ?thesis using s' lock by (auto simp: xQueueGiveFromISR_def Let_def split: if_splits)
  qed
  then show "kern s' = kern s" "cTxLock (queues s' q) = cTxLock (queues s q) + (if ok then 1 else 0)" "cRxLock (queues s' q) = cRxLock (queues s q)"
    "pxQueueSetContainer (queues s' q) = pxQueueSetContainer (queues s q)" "uxItemSize (queues s' q) = uxItemSize (queues s q)"
    "uxQueueType (queues s' q) = uxQueueType (queues s q)" by blast+
qed

lemma isr_run_locked:
  assumes "uxItemSize (queues s q) \<noteq> 0 \<or> uxQueueType (queues s q) \<noteq> queueQUEUE_IS_MUTEX" "cTxLock (queues s q) = of_nat m"
    and "isr_run q ps s = (n, s')" "m + n \<le> 127"
  shows "kern s' = kern s \<and> cTxLock (queues s' q) = of_nat (m + n) \<and> cRxLock (queues s' q) = cRxLock (queues s q) \<and>
    pxQueueSetContainer (queues s' q) = pxQueueSetContainer (queues s q)"
  using assms
proof (induction ps arbitrary: s m n)
  case (Cons p ps)
  obtain ok w s1 where 1: "isr_step q p s = (ok, w, s1)" by (metis prod_cases3)
  obtain k s2 where 2: "isr_run q ps s1 = (k, s2)" by fastforce
  have n: "n = (if ok then 1 else 0) + k" "s' = s2" using Cons.prems(3) 1 2 by simp_all
  have "unat (of_nat m :: u8) = m" using Cons.prems(4) by (simp add: unat_of_nat)
  moreover have "unat (- 1 :: u8) = 255" by (simp add: unsigned_minus_1_eq_mask mask_eq_exp_minus_1)
  ultimately have "cTxLock (queues s q) \<noteq> - 1" using Cons.prems(2,4) by fastforce
  note S = isr_step_locked [OF Cons.prems(1) this 1]
  have "cTxLock (queues s1 q) = of_nat (m + (if ok then 1 else 0))" using S(2) Cons.prems(2) by simp
  moreover have "uxItemSize (queues s1 q) \<noteq> 0 \<or> uxQueueType (queues s1 q) \<noteq> queueQUEUE_IS_MUTEX" using S(5,6) Cons.prems(1) by simp
  ultimately show ?case
    using Cons.IH [of s1 "m + (if ok then 1 else 0)" k] 2 n S(1,3,4) Cons.prems(4) by (simp add: algebra_simps split: if_splits)
qed simp

lemma sint_count: "n \<le> 127 \<Longrightarrow> nat (sint (of_nat n :: u8)) = n"
  apply (simp add: signed_of_nat)
  apply (subst signed_take_bit_int_eq_self)
  apply simp_all
  done

text \<open>The queue in the hands of a task that has suspended the scheduler and locked it.\<close>

lemma woken_status:
  assumes "woken T E A s s'" "t \<in> T"
  shows "status s' t = status s t"
proof -
  from assms(1) obtain y where "kframe (s\<lparr>xYieldPending := y\<rparr>) s'" by (auto simp: woken_def)
  note F = kframe_yield_fields [OF this]
  have "task_ready s' t = task_ready s t" "sleeping s' t = sleeping s t" "remaining s' t = remaining s t"
    using assms F by (simp_all add: woken_def task_ready_def sleeping_def remaining_def)
  then show ?thesis by (simp add: status_def)
qed

lemma lock_unlocked:
  assumes "cTxLock (queues s q) = queueUNLOCKED" "cRxLock (queues s q) = queueUNLOCKED"
  shows "prvLockQueue q s = set_queue q (\<lambda>Q. Q\<lparr>cRxLock := 0, cTxLock := 0\<rparr>) s"
  using assms by (simp add: prvLockQueue_def set_queue_def Let_def)

lemma suspended_waiters: "waiters T (vTaskSuspendAll s) l = waiters T s l" "status (vTaskSuspendAll s) t = status s t"
  by (simp_all add: waiters_def waits_in_def vTaskSuspendAll_def status_def task_ready_def ready_list_def sleeping_def remaining_def)

lemma top_none:
  assumes "top 0 p A B" "finite A"
  shows "B = {}"
proof -
  have "finite B" "card B = 0" using assms finite_subset unfolding top_def by auto
  then show ?thesis by simp
qed

text \<open>Resuming the scheduler after tasks were woken while it was suspended.\<close>

lemma resume_woken:
  assumes Q: "quiet T s" and cnt: "uxCurrentNumberOfTasks s > 0" and t: "t \<in> T" "status s t = Ready"
    and w: "woken T E A (vTaskSuspendAll s) k" and sub: "A \<subseteq> T"
  shows "\<exists>r s' G'. xTaskResumeAll k = Some (r, s') \<and> waiting T E s' G' \<and> quiet T s' \<and>
    (\<forall>u \<in> T. status s' u = (if u \<in> A then Ready else status s u)) \<and> (\<forall>u \<in> A. pxContainer (kl s') (xEventListItem u) = 0) \<and>
    (r \<longrightarrow> highest_ready T s' (pxCurrentTCB s')) \<and> (\<not> r \<longrightarrow> pxCurrentTCB s' = pxCurrentTCB s \<and> \<not> xYieldPending s')"
proof -
  have su0: "uxSchedulerSuspended s = 0" "uxPendedTicks s = 0" using Q by (simp_all add: quiet_def)
  from w obtain y Gk where y: "kframe ((vTaskSuspendAll s)\<lparr>xYieldPending := y\<rparr>) k" and Wk: "waiting T E k Gk" by (auto simp: woken_def)
  note F = kframe_yield_fields [OF y]
  have st: "status k v = status s v" if "v \<in> T" for v using woken_status [OF w that] by (simp add: suspended_waiters)
  have "uxSchedulerSuspended k = 1" "0 < uxCurrentNumberOfTasks k" "status k t = Ready"
    using F su0 cnt st [OF t(1)] t(2) by (simp_all add: vTaskSuspendAll_def)
  from resume_spec [OF Wk this(1,2) t(1) this(3)] obtain r s' G' where
    r: "xTaskResumeAll k = Some (r, s')" "waiting T E s' G'" "quiet T s'"
      "resumed T (waiters T k (xPendingReadyList k)) (unat (uxPendedTicks k)) k s'"
      "r \<longrightarrow> highest_ready T s' (pxCurrentTCB s')" "\<not> r \<longrightarrow> pxCurrentTCB s' = pxCurrentTCB k \<and> \<not> xYieldPending s'" by blast
  have pend: "uxPendedTicks k = 0" "xPendingReadyList k = xPendingReadyList s" "pxCurrentTCB k = pxCurrentTCB s"
    using F su0 by (simp_all add: vTaskSuspendAll_def)
  have P: "waiters T k (xPendingReadyList k) = A"
    using w Q sub by (auto simp: waiters_def waits_in_def woken_def pend(2) quiet_def vTaskSuspendAll_def split: if_splits)
  have "status s' v = (if v \<in> A then Ready else status s v)" "v \<in> A \<Longrightarrow> pxContainer (kl s') (xEventListItem v) = 0" if "v \<in> T" for v
    using r(4) st [OF that] that unfolding resumed_def P pend(1) by simp_all
  then show ?thesis using r(1-3,5,6) sub unfolding pend(3) by blast
qed

text \<open>What the posts leave for the unlocking.\<close>

lemma locked_posts:
  assumes alone: "pxQueueSetContainer (queues s q) = 0" and unlocked: "cTxLock (queues s q) = queueUNLOCKED" "cRxLock (queues s q) = queueUNLOCKED"
    and kind: "uxItemSize (queues s q) \<noteq> 0 \<or> uxQueueType (queues s q) \<noteq> queueQUEUE_IS_MUTEX"
    and run: "isr_run q ps (prvLockQueue q (suspend_all s)) = (n, s1)" "n \<le> 127"
  shows "kern s1 = vTaskSuspendAll (kern s)" "cTxLock (queues s1 q) = of_nat n" "cRxLock (queues s1 q) = 0" "pxQueueSetContainer (queues s1 q) = 0"
proof -
  let ?s0 = "prvLockQueue q (suspend_all s)"
  have s0: "?s0 = set_queue q (\<lambda>Q. Q\<lparr>cRxLock := 0, cTxLock := 0\<rparr>) (suspend_all s)"
    using lock_unlocked [of "suspend_all s" q] unlocked by (simp add: suspend_all_def in_kernel_def)
  have f0: "kern ?s0 = vTaskSuspendAll (kern s)" "cTxLock (queues ?s0 q) = of_nat 0" "cRxLock (queues ?s0 q) = 0"
      "pxQueueSetContainer (queues ?s0 q) = 0" "uxItemSize (queues ?s0 q) \<noteq> 0 \<or> uxQueueType (queues ?s0 q) \<noteq> queueQUEUE_IS_MUTEX"
    unfolding s0 using alone kind by (simp_all add: suspend_all_def in_kernel_def)
  show "kern s1 = vTaskSuspendAll (kern s)" "cTxLock (queues s1 q) = of_nat n" "cRxLock (queues s1 q) = 0" "pxQueueSetContainer (queues s1 q) = 0"
    using isr_run_locked [OF f0(5,2) run(1)] run(2) f0 by simp_all
qed

text \<open>C28: A wake-up by an interrupt is not lost while a task works on a queue. The task suspends the scheduler and locks the
  queue; then interrupts post to it, overwrite it or give it any number of times, and \<open>n\<close> of them succeed, at most 127;
  each leaves the kernel alone and only counts. When the task unlocks the queue and resumes the scheduler, the \<open>n\<close> waiting
  receivers of the highest priorities, or all of them when there are fewer, are ready and wait in no list; every
  other task keeps its status, the queue is unlocked, the invariant of the kernel with its event lists holds, and the call
  says that it switched only when the task that runs now is one of the highest priority among those that are ready.\<close>

theorem no_lost_wakeup:
  assumes W: "waiting T E (kern s) G" and Q: "quiet T (kern s)" and cnt: "uxCurrentNumberOfTasks (kern s) > 0"
    and t: "t \<in> T" "status (kern s) t = Ready"
    and l: "xTasksWaitingToReceive q \<in> E" "xTasksWaitingToSend q \<in> E" and alone: "pxQueueSetContainer (queues s q) = 0"
    and unlocked: "cTxLock (queues s q) = queueUNLOCKED" "cRxLock (queues s q) = queueUNLOCKED"
    and kind: "uxItemSize (queues s q) \<noteq> 0 \<or> uxQueueType (queues s q) \<noteq> queueQUEUE_IS_MUTEX"
    and run: "isr_run q ps (prvLockQueue q (suspend_all s)) = (n, s1)" "n \<le> 127"
  shows "\<exists>r s2 G' A. resume_all (prvUnlockQueue q id s1) = Some (r, s2) \<and> kern s1 = vTaskSuspendAll (kern s) \<and>
    waiting T E (kern s2) G' \<and> quiet T (kern s2) \<and>
    cTxLock (queues s2 q) = queueUNLOCKED \<and> cRxLock (queues s2 q) = queueUNLOCKED \<and>
    top n (uxPriority (kern s)) (waiters T (kern s) (xTasksWaitingToReceive q)) A \<and>
    (\<forall>u \<in> A. status (kern s2) u = Ready \<and> pxContainer (kl (kern s2)) (xEventListItem u) = 0) \<and>
    (\<forall>u \<in> T - A. status (kern s2) u = status (kern s) u) \<and>
    (r \<longrightarrow> highest_ready T (kern s2) (pxCurrentTCB (kern s2))) \<and>
    (\<not> r \<longrightarrow> pxCurrentTCB (kern s2) = pxCurrentTCB (kern s) \<and> \<not> xYieldPending (kern s2))"
proof -
  let ?rcv = "xTasksWaitingToReceive q" and ?snd = "xTasksWaitingToSend q"
  note s1 = locked_posts [OF alone unlocked kind run]
  have W1: "waiting T E (kern s1) G" and su1: "uxSchedulerSuspended (kern s1) \<noteq> 0"
    using W Q by (simp_all add: s1(1) vTaskSuspendAll_def waiting_counts quiet_def)
  from unlock_spec [OF W1 su1 l s1(4)] obtain k A B where
    u: "prvUnlockQueue q id s1 = set_queue q (\<lambda>Q. Q\<lparr>cTxLock := queueUNLOCKED, cRxLock := queueUNLOCKED\<rparr>) (s1\<lparr>kern := k\<rparr>)"
      "woken T E (A \<union> B) (kern s1) k" "top n (uxPriority (kern s1)) (waiters T (kern s1) ?rcv) A"
      "top 0 (uxPriority (kern s1)) (waiters T (kern s1) ?snd) B"
    unfolding s1(2,3) sint_count [OF run(2)] by auto
  have fin: "finite (waiters T (kern s1) ?snd)" using waiters_list(2) [OF waitingD(2) [OF W1]] l(2) by (simp add: event_lists_def)
  have w: "woken T E A (vTaskSuspendAll (kern s)) k" using u(2) unfolding top_none [OF u(4) fin] s1(1) by simp
  have sub: "A \<subseteq> T" using u(3) by (auto simp: top_def waiters_def)
  from resume_woken [OF Q cnt t w sub] obtain r s' G' where
    r: "xTaskResumeAll k = Some (r, s')" "waiting T E s' G'" "quiet T s'" "\<forall>u \<in> T. status s' u = (if u \<in> A then Ready else status (kern s) u)"
      "\<forall>u \<in> A. pxContainer (kl s') (xEventListItem u) = 0" "r \<longrightarrow> highest_ready T s' (pxCurrentTCB s')"
      "\<not> r \<longrightarrow> pxCurrentTCB s' = pxCurrentTCB (kern s) \<and> \<not> xYieldPending s'" by blast
  let ?s2 = "set_queue q (\<lambda>Q. Q\<lparr>cTxLock := queueUNLOCKED, cRxLock := queueUNLOCKED\<rparr>) (s1\<lparr>kern := k\<rparr>)\<lparr>kern := s'\<rparr>"
  have "resume_all (prvUnlockQueue q id s1) = Some (r, ?s2)" by (simp add: u(1) resume_all_def r(1))
  moreover have "top n (uxPriority (kern s)) (waiters T (kern s) ?rcv) A"
    using u(3) by (simp add: s1(1) suspended_waiters) (simp add: vTaskSuspendAll_def)
  moreover have "\<forall>v \<in> A. status s' v = Ready \<and> pxContainer (kl s') (xEventListItem v) = 0" using r(4,5) sub by auto
  moreover have "\<forall>v \<in> T - A. status s' v = status (kern s) v" using r(4) by simp
  moreover have "cTxLock (queues ?s2 q) = queueUNLOCKED" "cRxLock (queues ?s2 q) = queueUNLOCKED" "kern ?s2 = s'"
    by (simp_all add: set_queue_def)
  ultimately show ?thesis using r(2,3,6,7) s1(1) by metis
qed

text \<open>The counter is a signed character: after 128 posts it is negative and unlocking wakes no task.\<close>

lemma lock_count_wraps:
  assumes "pxQueueSetContainer (queues s q) = 0" "cTxLock (queues s q) = 128" "cRxLock (queues s q) = queueLOCKED_UNMODIFIED"
  shows "kern (prvUnlockQueue q id s) = kern s"
proof -
  have "nat (sint (128 :: u8)) = 0" by simp
  then show ?thesis using assms by (simp add: prvUnlockQueue_def unlock_tx_loop_wakes unlock_rx_loop_wakes Let_def)
qed

text \<open>The queue at 1964, whose receive list at 2000 the task of \<open>demo_waiting\<close> waits in.\<close>

definition wake_kernel :: kernel where
  "wake_kernel = demo_waiting\<lparr>kl := vListInitialise 1980 (kl demo_waiting), uxCurrentNumberOfTasks := 4\<rparr>"

definition wake_system :: system where
  "wake_system = set_queue 1964 (\<lambda>Q. Q\<lparr>cTxLock := queueUNLOCKED\<rparr>) (demo_system\<lparr>kern := wake_kernel\<rparr>)"

lemma waiting_number: "waiting T E (s\<lparr>uxCurrentNumberOfTasks := n\<rparr>) G = waiting T E s G" (is "waiting T E ?s G = _")
proof -
  have "ready_list ?s = ready_list s" by (simp add: ready_list_def fun_eq_iff)
  moreover have "state_lists ?s = state_lists s" "event_lists E ?s = event_lists E s" "ready_lists ?s = ready_lists s"
    by (simp_all add: state_lists_def event_lists_def ready_lists_def ready_list_def)
  ultimately show ?thesis
    by (simp add: waiting_def kinv_def kcore_def layout_def ktime_def event_order_def waiting_order_def)
qed

lemma wake_kernel_waiting:
  "\<exists>G. waiting {100, 200, 300, 400} {1980, 2000} wake_kernel G" "quiet {100, 200, 300, 400} wake_kernel"
  "waits_in wake_kernel 2000 (pxCurrentTCB demo_started)" "pxCurrentTCB demo_started \<in> {100, 200, 300, 400}"
  "\<exists>t \<in> {100, 200, 300, 400}. status wake_kernel t = Ready"
proof -
  let ?T = "{100, 200, 300, 400 :: u32}"
  obtain G where G: "waiting ?T {2000} demo_waiting G" "quiet ?T demo_waiting" "waits_in demo_waiting 2000 (pxCurrentTCB demo_started)"
    and c: "pxCurrentTCB demo_started \<in> ?T" using demo_waiting_eventful(1) by (auto simp: eventful_def)
  have "{0..<8::nat} = {0, 1, 2, 3, 4, 5, 6, 7}" by auto
  then have r: "ready_lists demo_kernel = {1000, 1020, 1040, 1060, 1080, 1100, 1120, 1140}"
    unfolding ready_lists_image by (simp add: ready_list_def demo_kernel_def)
  have "1980 \<notin> kernel_lists {2000} demo_kernel"
    by (simp add: kernel_lists_def state_lists_def event_lists_def r) (simp add: demo_kernel_def)
  then have n: "1980 \<notin> kernel_lists {2000} demo_waiting"
    using same_places_fields(5) [OF demo_waiting_eventful(2), of "{2000}"] by simp
  have e: "xListEnd 1980 \<notin> items ?T" by (simp add: items_def xListEnd_def xStateListItem_def xEventListItem_def)
  let ?s = "demo_waiting\<lparr>kl := vListInitialise 1980 (kl demo_waiting)\<rparr>"
  have "waiting ?T {1980, 2000} ?s (G(1980 := []))" "quiet ?T ?s" using waiting_list_added [OF G(1) n _ e] G(2) by simp_all
  moreover have "waiting ?T {1980, 2000} wake_kernel H = waiting ?T {1980, 2000} ?s H" for H
    using waiting_number [where s = ?s and n = 4 and T = ?T and G = H] by (simp add: wake_kernel_def)
  moreover have "quiet ?T wake_kernel = quiet ?T ?s" by (simp add: wake_kernel_def quiet_def)
  ultimately show "\<exists>G. waiting ?T {1980, 2000} wake_kernel G" "quiet ?T wake_kernel" by blast+
  show "waits_in wake_kernel 2000 (pxCurrentTCB demo_started)" "pxCurrentTCB demo_started \<in> ?T"
    using G(3) c by (simp_all add: wake_kernel_def waits_in_def)
  have "status wake_kernel t = status demo_waiting t" if "t \<in> ?T" for t
  proof -
    have "xStateListItem t \<noteq> xListEnd 1980" using e items_in(1) [OF that] by metis
    then show ?thesis by (simp add: wake_kernel_def status_def task_ready_def ready_list_def sleeping_def remaining_def)
  qed
  then show "\<exists>t \<in> ?T. status wake_kernel t = Ready" using demo_waiting_eventful(3) by auto
qed

theorem no_lost_wakeup_witness:
  "\<exists>n s1 r s2. isr_run 1964 [Post 4000 queueSEND_TO_BACK] (prvLockQueue 1964 (suspend_all wake_system)) = (n, s1) \<and>
    resume_all (prvUnlockQueue 1964 id s1) = Some (r, s2) \<and> \<not> task_ready wake_kernel (pxCurrentTCB demo_started) \<and>
    (\<exists>u \<in> {100, 200, 300, 400}. waits_in wake_kernel 2000 u \<and> status (kern s2) u = Ready)"
proof -
  let ?T = "{100, 200, 300, 400 :: u32}" and ?s0 = "prvLockQueue 1964 (suspend_all wake_system)"
  note D = wake_kernel_waiting
  obtain G where G: "waiting ?T {1980, 2000} (kern wake_system) G" using D(1) by (auto simp: wake_system_def)
  obtain t where t: "t \<in> ?T" "status (kern wake_system) t = Ready" using D(5) by (auto simp: wake_system_def)
  have q: "queues wake_system 1964 = demo_queue\<lparr>cTxLock := queueUNLOCKED\<rparr>" by (simp add: wake_system_def demo_system_def)
  have lists: "xTasksWaitingToReceive 1964 = 2000" "xTasksWaitingToSend 1964 = 1980"
    by (simp_all add: xTasksWaitingToReceive_def xTasksWaitingToSend_def)
  have u: "cTxLock (queues wake_system 1964) = queueUNLOCKED" "cRxLock (queues wake_system 1964) = queueUNLOCKED"
    by (simp_all add: q) (simp_all add: demo_queue_def)
  have "?s0 = set_queue 1964 (\<lambda>Q. Q\<lparr>cRxLock := 0, cTxLock := 0\<rparr>) (suspend_all wake_system)"
    using lock_unlocked [of "suspend_all wake_system" 1964] u by (simp add: suspend_all_def in_kernel_def)
  then have "queues ?s0 1964 = demo_queue\<lparr>cTxLock := queueUNLOCKED\<rparr>\<lparr>cRxLock := 0, cTxLock := 0\<rparr>" using q by (simp add: suspend_all_def in_kernel_def)
  then have "uxMessagesWaiting (queues ?s0 1964) < uxLength (queues ?s0 1964)" "cTxLock (queues ?s0 1964) \<noteq> queueUNLOCKED"
    by (simp_all add: demo_queue_def)
  from send_from_isr_cases(3) [OF disjI1 [OF this(1)] this(2)] obtain s1 where
    run: "isr_run 1964 [Post 4000 queueSEND_TO_BACK] ?s0 = (1, s1)" by simp
  have "0 < uxCurrentNumberOfTasks (kern wake_system)" "pxQueueSetContainer (queues wake_system 1964) = 0"
    "uxItemSize (queues wake_system 1964) \<noteq> 0 \<or> uxQueueType (queues wake_system 1964) \<noteq> queueQUEUE_IS_MUTEX"
    "quiet ?T (kern wake_system)" "xTasksWaitingToReceive 1964 \<in> {1980, 2000}" "xTasksWaitingToSend 1964 \<in> {1980, 2000}" "(1::nat) \<le> 127"
    using D(2) by (simp_all add: lists q) (simp_all add: wake_system_def wake_kernel_def demo_queue_def)
  from no_lost_wakeup [OF G this(4,1) t this(5,6,2) u this(3) run this(7)] obtain r s2 A where
    r: "resume_all (prvUnlockQueue 1964 id s1) = Some (r, s2)" "top 1 (uxPriority wake_kernel) (waiters ?T wake_kernel 2000) A"
      "\<forall>u \<in> A. status (kern s2) u = Ready" by (auto simp: lists wake_system_def)
  have w: "pxCurrentTCB demo_started \<in> waiters ?T wake_kernel 2000" using D(3,4) by (simp add: waiters_def)
  have f: "finite (waiters ?T wake_kernel 2000)" by (simp add: waiters_def)
  have "card (waiters ?T wake_kernel 2000) > 0" using w f card_gt_0_iff by blast
  then have "card A \<noteq> 0" using r(2) by (simp add: top_def)
  then obtain v where "v \<in> A" by fastforce
  then have "v \<in> ?T \<and> waits_in wake_kernel 2000 v \<and> status (kern s2) v = Ready" using r(2,3) by (auto simp: top_def waiters_def)
  moreover have "\<not> task_ready wake_kernel (pxCurrentTCB demo_started)"
  proof -
    obtain G where W: "waiting ?T {1980, 2000} wake_kernel G" using D(1) by blast
    have "pxContainer (kl wake_kernel) (xStateListItem (pxCurrentTCB demo_started)) \<notin> ready_lists wake_kernel"
      using waitingD(5) [OF W D(4)] D(3) by (simp add: waits_in_def event_lists_def)
    then show ?thesis using kcore_task(1) [OF waitingD(2) [OF W] D(4)] by (auto simp: task_ready_def ready_lists_def)
  qed
  ultimately show ?thesis using run r(1) by blast
qed

end
