(* ===== verification/Rtos_Block.thy ===== *)
theory Rtos_Block
  imports Rtos_Wake
begin

unbundle bit_operations_syntax

text \<open>
  Blocking calls on queues and mutexes, \<^verbatim>\<open>src/ns_guest/lib/freertos/queue.c\<close>: what the state is when the calling task has given up the
  processor, and what the task that gives back a mutex leaves behind.
\<close>

section \<open>Giving up the processor\<close>

lemma resume_idle:
  assumes W: "waiting T E s G" and su: "uxSchedulerSuspended s = 1" "uxPendedTicks s = 0" and cnt: "uxCurrentNumberOfTasks s > 0"
    and none: "\<forall>u \<in> T. pxContainer (kl s) (xEventListItem u) \<noteq> xPendingReadyList s" and t: "t \<in> T" "status s t = Ready"
  defines "s0 \<equiv> s\<lparr>uxSchedulerSuspended := 0\<rparr>"
  shows "\<exists>s' u. (do { (r, s) \<leftarrow> xTaskResumeAll s; if \<not> r then vTaskSwitchContext s else Some s }) = Some s' \<and>
    switched u s0 s' \<and> waiting T E s' G \<and> highest_ready T s' u"
proof -
  have W0: "waiting T E s0 G" using W by (simp add: s0_def waiting_counts)
  have "waiters T s (xPendingReadyList s) = {}" using none by (auto simp: waiters_def waits_in_def)
  then have "listLIST_IS_EMPTY (xPendingReadyList s) (kl s)" using waiters_empty [OF waitingD(2) [OF W]] by (simp add: event_lists_def)
  then have "pending_loop False s0 = Some (False, s0)" by (subst pending_loop.simps) (simp add: s0_def)
  then have ex: "xTaskResumeAll s = (if xYieldPending s then map_option (Pair True) (vTaskSwitchContext s0) else Some (False, s0))"
    using su cnt by (cases "vTaskSwitchContext s0") (simp_all add: xTaskResumeAll_def s0_def)
  have "task_ready s t" using t status_kinv(1) [OF waitingD(1) [OF W] t(1)] by blast
  then have "task_ready s0 t" by (simp add: s0_def task_ready_def) (simp add: ready_list_def)
  from switch_waiting [OF W0 _ t(1) this] obtain s' u where
    s': "vTaskSwitchContext s0 = Some s'" "switched u s0 s'" "waiting T E s' G" "highest_ready T s' u" by (auto simp: s0_def)
  have "(do { (r, s) \<leftarrow> xTaskResumeAll s; if \<not> r then vTaskSwitchContext s else Some s }) = Some s'"
    using s'(1) by (simp add: ex)
  then show ?thesis using s'(2-4) by blast
qed

text \<open>What \<open>prepare\<close> may do to the kernel: change priorities.\<close>

definition lent :: "u32 set \<Rightarrow> u32 set \<Rightarrow> kernel \<Rightarrow> kernel \<Rightarrow> bool" where
  "lent T E s s' \<longleftrightarrow> (\<exists>G. waiting T E s' G) \<and> (\<exists>p k w. s' = s\<lparr>uxPriority := p, kl := k, uxTopReadyPriority := w\<rparr>) \<and>
     (\<forall>u \<in> T. status s' u = status s u \<and> pxContainer (kl s') (xEventListItem u) = pxContainer (kl s) (xEventListItem u))"

lemma lent_refl: "waiting T E s G \<Longrightarrow> lent T E s s"
  unfolding lent_def by (auto intro!: exI [of _ "uxPriority s"] exI [of _ "kl s"] exI [of _ "uxTopReadyPriority s"])

lemma switched_status: "switched u s s' \<Longrightarrow> status s' = status s"
  by (simp add: status_def fun_eq_iff switched_fields switched_views)

lemma status_suspended: "status (s\<lparr>uxSchedulerSuspended := n\<rparr>) = status s"
  by (simp add: status_def task_ready_def ready_list_def sleeping_def remaining_def fun_eq_iff)

lemma lent_fields:
  assumes "lent T E s s'"
  shows "pxCurrentTCB s' = pxCurrentTCB s" "uxSchedulerSuspended s' = uxSchedulerSuspended s" "uxPendedTicks s' = uxPendedTicks s"
    "xPendingReadyList s' = xPendingReadyList s" "uxCurrentNumberOfTasks s' = uxCurrentNumberOfTasks s" "ready_list s' = ready_list s"
    "xTickCount s' = xTickCount s" "xNumOfOverflows s' = xNumOfOverflows s" "pxDelayedTaskList s' = pxDelayedTaskList s"
    "pxOverflowDelayedTaskList s' = pxOverflowDelayedTaskList s"
  using assms by (auto simp: lent_def ready_list_def fun_eq_iff)

text \<open>Without interrupts in between, \<open>prvUnlockQueue\<close> finds nothing to do.\<close>

lemma unlock_idle:
  assumes "cTxLock (queues s q) = queueUNLOCKED" "cRxLock (queues s q) = queueUNLOCKED" "queues s1 = queues (prvLockQueue q s)"
  shows "prvUnlockQueue q id s1 = s1\<lparr>queues := queues s\<rparr>"
proof -
  have "queues s1 = (queues s)(q := (queues s q)\<lparr>cRxLock := 0, cTxLock := 0\<rparr>)" using assms by (simp add: lock_unlocked)
  moreover have "(queues s q)\<lparr>cTxLock := queueUNLOCKED, cRxLock := queueUNLOCKED\<rparr> = queues s q" using assms(1,2) by simp
  ultimately show ?thesis by (simp add: prvUnlockQueue_def set_queue_def)
qed

lemma kframe_number: "kframe (s\<lparr>xNextTaskUnblockTime := n\<rparr>) s' \<Longrightarrow> uxCurrentNumberOfTasks s' = uxCurrentNumberOfTasks s"
  by (auto simp: kframe_def)

text \<open>A blocking call that is not disturbed: the task waits in the list of the event for its ticks, and a task of the highest
  priority among those that are still ready runs.\<close>

lemma wait_blocks:
  assumes W: "waiting T E (kern s) G" and Q: "quiet T (kern s)" and cnt: "uxCurrentNumberOfTasks (kern s) > 0"
    and c: "pxCurrentTCB (kern s) = c" "c \<in> T" "task_ready (kern s) c" "pxContainer (kl (kern s)) (xEventListItem c) = 0"
    and h: "h \<in> T" "h \<noteq> c" "status (kern s) h = Ready"
    and l: "l \<in> E" and n: "n \<noteq> 0"
    and unlocked: "cTxLock (queues s q) = queueUNLOCKED" "cRxLock (queues s q) = queueUNLOCKED"
    and env: "\<And>g. g \<noteq> Retrying \<Longrightarrow> env g = id"
    and blocked: "\<And>s'. uxMessagesWaiting (queues s' q) = uxMessagesWaiting (queues s q) \<Longrightarrow> uxLength (queues s' q) = uxLength (queues s q) \<Longrightarrow> blocked s'"
    and prep: "prepare (prvLockQueue q (suspend_all s)) = (x', prvLockQueue q (suspend_all s)\<lparr>kern := k1\<rparr>)" "lent T E (vTaskSuspendAll (kern s)) k1"
  shows "\<exists>k2 G2. wait_section env q l blocked prepare x (vTaskInternalSetTimeOutState (kern s)) n s =
      Some (False, x', vTaskInternalSetTimeOutState (kern s), n, env Retrying (s\<lparr>kern := k2\<rparr>)) \<and>
    waiting T E k2 G2 \<and> quiet T k2 \<and> highest_ready T k2 (pxCurrentTCB k2) \<and> uxPriority k2 = uxPriority k1 \<and>
    status k2 c = block_status n True \<and> (\<forall>u \<in> T - {c}. status k2 u = status (kern s) u) \<and>
    (\<forall>u \<in> T. pxContainer (kl k2) (xEventListItem u) = (if u = c then l else pxContainer (kl (kern s)) (xEventListItem u)))"
proof -
  define s0 where "s0 = prvLockQueue q (suspend_all s)"
  note L = lent_fields [OF prep(2)]
  have su: "uxSchedulerSuspended k1 = 1" "uxPendedTicks k1 = 0" "xPendingReadyList k1 = xPendingReadyList (kern s)" "pxCurrentTCB k1 = c"
    "uxCurrentNumberOfTasks k1 = uxCurrentNumberOfTasks (kern s)" "ready_list k1 = ready_list (kern s)"
    using Q c(1) by (simp_all add: L vTaskSuspendAll_def quiet_def) (simp add: ready_list_def fun_eq_iff)
  have s0: "s0 = set_queue q (\<lambda>Q. Q\<lparr>cRxLock := 0, cTxLock := 0\<rparr>) (suspend_all s)"
    unfolding s0_def using lock_unlocked [of "suspend_all s" q] unlocked by (simp add: suspend_all_def in_kernel_def)
  have k0: "kern s0 = vTaskSuspendAll (kern s)" by (simp add: s0 suspend_all_def in_kernel_def)
  have b0: "blocked s0" by (rule blocked) (simp_all add: s0 suspend_all_def in_kernel_def)
  have time: "xTaskCheckForTimeOut (vTaskInternalSetTimeOutState (kern s)) n (kern s0) = (False, vTaskInternalSetTimeOutState (kern s), n)"
    using n by (simp add: k0 xTaskCheckForTimeOut_def vTaskInternalSetTimeOutState_def vTaskSuspendAll_def Let_def word_gt_0)
  obtain G1 where W1: "waiting T E k1 G1" using prep(2) by (auto simp: lent_def)
  have st1: "status k1 u = status (kern s) u" "pxContainer (kl k1) (xEventListItem u) = pxContainer (kl (kern s)) (xEventListItem u)" if "u \<in> T" for u
    using prep(2) that by (simp_all add: lent_def suspended_waiters) (simp add: vTaskSuspendAll_def)
  have r1: "task_ready k1 u \<longleftrightarrow> task_ready (kern s) u" if "u \<in> T" for u
    using st1(1) [OF that] status_kinv(1) [OF waitingD(1) [OF W1] that] status_kinv(1) [OF waitingD(1) [OF W] that] by metis
  have "pxCurrentTCB k1 \<in> T" "task_ready k1 (pxCurrentTCB k1)" "pxContainer (kl k1) (xEventListItem (pxCurrentTCB k1)) = 0"
    using c su(4) r1 st1 by simp_all
  from place_spec [OF W1 this l n] obtain k G2 where
    k: "vTaskPlaceOnEventList l n k1 = Some k" "waiting T E k G2" "waits_in k l c" "kframe (k1\<lparr>xNextTaskUnblockTime := xNextTaskUnblockTime k\<rparr>) k"
      "blocked_for k c n" "pxCurrentTCB k = c" "uxPriority k = uxPriority k1" "ready_list k = ready_list k1"
      "\<forall>y \<in> items T - {xStateListItem c, xEventListItem c}. pxContainer (kl k) y = pxContainer (kl k1) y \<and> xItemValue (kl k) y = xItemValue (kl k1) y"
    unfolding su(4) by blast
  note F = kframe_fields [OF k(4), simplified]
  have ck: "uxCurrentNumberOfTasks k > 0" using kframe_number [OF k(4)] cnt su(5) by simp
  have ne: "xStateListItem u \<noteq> xEventListItem v" if "u \<in> T" "v \<in> T" for u v
    using layout_items [OF kcoreD(2) [OF waitingD(2) [OF W]] that] .
  have ev: "pxContainer (kl k) (xEventListItem u) = (if u = c then l else pxContainer (kl (kern s)) (xEventListItem u))" if u: "u \<in> T" for u
    using k(3,9) st1(2) [OF u] items_in(2) [OF u] ne [OF c(2) u] by (auto simp: waits_in_def)
  have stc: "status k c = block_status n True"
    by (rule blocked_status [OF waitingD(1) [OF k(2)] c(2)]) (use k(5) in \<open>simp add: blocked_for_def\<close>)
  have stu: "status k u = status (kern s) u" if u: "u \<in> T - {c}" for u
  proof -
    have "xStateListItem u \<in> items T - {xStateListItem c, xEventListItem c}" using u items_in(1) ne c(2) by auto
    then have "pxContainer (kl k) (xStateListItem u) = pxContainer (kl k1) (xStateListItem u)" "xItemValue (kl k) (xStateListItem u) = xItemValue (kl k1) (xStateListItem u)"
      using k(9) by simp_all
    then have "status k u = status k1 u" using F k(7,8) by (simp add: status_def task_ready_def sleeping_def remaining_def)
    then show ?thesis using st1(1) u by simp
  qed
  have "\<forall>u \<in> T. pxContainer (kl k) (xEventListItem u) \<noteq> xPendingReadyList k"
    using ev Q state_event_apart(3) [OF waitingD(2) [OF W] l] F su(3) by (auto simp: quiet_def)
  moreover have "uxSchedulerSuspended k = 1" "uxPendedTicks k = 0" "status k h = Ready" using F su stu h by simp_all
  ultimately obtain k2 u where
    k2: "(do { (r, s) \<leftarrow> xTaskResumeAll k; if \<not> r then vTaskSwitchContext s else Some s }) = Some k2"
      "switched u (k\<lparr>uxSchedulerSuspended := 0\<rparr>) k2" "waiting T E k2 G2" "highest_ready T k2 u"
    using resume_idle [OF k(2) _ _ ck _ h(1)] by blast
  note V = switched_fields [OF k2(2)] switched_views [OF k2(2)]
  have "status k2 = status k" unfolding switched_status [OF k2(2)] status_suspended ..
  moreover have "quiet T k2"
    unfolding V(20) using ev Q state_event_apart(3) [OF waitingD(2) [OF W] l] F su by (auto simp: quiet_def)
  moreover have "pxContainer (kl k2) = pxContainer (kl k)" "uxPriority k2 = uxPriority k1" "pxCurrentTCB k2 = u" using V k(7) by simp_all
  moreover have "wait_section env q l blocked prepare x (vTaskInternalSetTimeOutState (kern s)) n s =
      Some (False, x', vTaskInternalSetTimeOutState (kern s), n, env Retrying (s\<lparr>kern := k2\<rparr>))"
  proof -
    have "prvUnlockQueue q id (s0\<lparr>kern := k\<rparr>) = s0\<lparr>kern := k\<rparr>\<lparr>queues := queues (suspend_all s)\<rparr>"
      by (rule unlock_idle) (use unlocked in \<open>simp_all add: s0_def suspend_all_def in_kernel_def\<close>)
    also have "\<dots> = s\<lparr>kern := k\<rparr>" by (simp add: s0 set_queue_def suspend_all_def in_kernel_def)
    finally have un: "prvUnlockQueue q id (s0\<lparr>kern := k\<rparr>) = s\<lparr>kern := k\<rparr>" .
    from k2(1) obtain r k' where r: "xTaskResumeAll k = Some (r, k')" "(if \<not> r then vTaskSwitchContext k' else Some k') = Some k2"
      by (cases "xTaskResumeAll k") auto
    show ?thesis using time b0 prep(1) k(1) un r env
      by (cases r) (simp_all add: wait_section_def Let_def s0_def [symmetric] resume_all_def yield_def)
  qed
  ultimately show ?thesis using k2(3,4) ev stc stu by (intro exI [of _ k2] exI [of _ G2]) simp
qed

section \<open>Mutexes\<close>

lemma ready_free:
  assumes W: "waiting T E s G" and h: "h \<in> T" "status s h = Ready"
  shows "pxContainer (kl s) (xEventListItem h) \<notin> E"
proof -
  have "task_ready s h" using h status_kinv(1) [OF waitingD(1) [OF W] h(1)] by blast
  then have "pxContainer (kl s) (xStateListItem h) \<in> ready_lists s" using task_ready_in [OF waitingD(2) [OF W] h(1)] by blast
  then show ?thesis using waitingD(5) [OF W h(1)] by (auto simp: event_lists_def)
qed

lemma lent_reprioritise:
  assumes W: "waiting T E s G" and h: "h \<in> T" "pxContainer (kl s) (xEventListItem h) \<notin> E" and p: "p < 8"
  shows "lent T E s (reprioritise h p (8 - p) s)" "uxPriority (reprioritise h p (8 - p) s) = (uxPriority s)(h := p)"
proof -
  note R = reprioritise_waiting [OF W h(1) p h(2)]
  have f: "kframe (set_priority h p s) (reprioritise h p (8 - p) s)" by (rule reprioritise_kcore(2) [OF waitingD(2) [OF W] h(1) p])
  then obtain k w where "reprioritise h p (8 - p) s = set_priority h p s\<lparr>kl := k, uxTopReadyPriority := w\<rparr>" unfolding kframe_def by blast
  then have "reprioritise h p (8 - p) s = s\<lparr>uxPriority := (uxPriority s)(h := p), kl := k, uxTopReadyPriority := w\<rparr>"
    by (simp add: set_priority_def)
  moreover have "pxContainer (kl (reprioritise h p (8 - p) s)) (xEventListItem u) = pxContainer (kl s) (xEventListItem u)" if "u \<in> T" for u
    using R(4) [OF that, of "pxContainer (kl s) (xEventListItem u)"] by (simp add: waits_in_def)
  ultimately show "lent T E s (reprioritise h p (8 - p) s)" using R(1,3) unfolding lent_def by blast
  show "uxPriority (reprioritise h p (8 - p) s) = (uxPriority s)(h := p)" using kframe_fields(6) [OF f] by (simp add: set_priority_def)
qed

lemma lent_inherit:
  assumes W: "waiting T E s G" and h: "h \<in> T" "h \<noteq> 0" "pxContainer (kl s) (xEventListItem h) \<notin> E" and c: "pxCurrentTCB s \<in> T"
  shows "lent T E s (snd (xTaskPriorityInherit h s))"
    "uxPriority (snd (xTaskPriorityInherit h s)) = (uxPriority s)(h := max (uxPriority s h) (uxPriority s (pxCurrentTCB s)))"
proof -
  have p: "uxPriority s (pxCurrentTCB s) < 8" using kcore_task(1) [OF waitingD(2) [OF W] c] .
  note I = inherit_reprioritise [OF W h(1,2) c] and L = lent_reprioritise [OF W h(1,3) p]
  show "lent T E s (snd (xTaskPriorityInherit h s))" using L(1) lent_refl [OF W] by (simp add: I)
  show "uxPriority (snd (xTaskPriorityInherit h s)) = (uxPriority s)(h := max (uxPriority s h) (uxPriority s (pxCurrentTCB s)))"
    using L(2) by (auto simp: I max_def fun_eq_iff)
qed

text \<open>C29: Priority inheritance. A task takes a mutex that another task holds, with some time to wait or for ever, and no interrupt or other task acts
  before it has given up the processor. The holder is in no event list: it is ready, delayed or suspended; and some other task is ready.
  Then the task blocks, with the holder's priority raised to
  its own if that was lower, and no other priority changed: it waits in the mutex's list for its ticks, every other task keeps its status, the invariant holds, a task
  of the highest ready priority runs, and if the holder is ready
  the task that runs has at least the priority of the one that waits, so no task of lower priority keeps the holder from running. While the holder itself is not ready
  a task of lower priority can run.\<close>

theorem mutex_no_inversion:
  assumes W: "waiting T E (kern s) G" and Q: "quiet T (kern s)" and cnt: "uxCurrentNumberOfTasks (kern s) > 0"
    and c: "pxCurrentTCB (kern s) = c" "c \<in> T" "task_ready (kern s) c" "pxContainer (kl (kern s)) (xEventListItem c) = 0"
    and mutex: "uxQueueType (queues s q) = queueQUEUE_IS_MUTEX" "uxMessagesWaiting (queues s q) = 0" "xMutexHolder (queues s q) = h"
    and h: "h \<in> T" "h \<noteq> 0" "h \<noteq> c" "pxContainer (kl (kern s)) (xEventListItem h) \<notin> E"
    and other: "v \<in> T" "v \<noteq> c" "status (kern s) v = Ready"
    and l: "xTasksWaitingToReceive q \<in> E" and n: "n \<noteq> 0"
    and unlocked: "cTxLock (queues s q) = queueUNLOCKED" "cRxLock (queues s q) = queueUNLOCKED"
    and env: "\<And>g. g \<noteq> Retrying \<Longrightarrow> env 0 g = id"
  shows "\<exists>k G' i. xQueueSemaphoreTake env q n s =
      xQueueSemaphoreTake_loop env 1 q n (Some (vTaskInternalSetTimeOutState (kern s))) i (env 0 Retrying (s\<lparr>kern := k\<rparr>)) \<and>
    waiting T E k G' \<and> quiet T k \<and> waits_in k (xTasksWaitingToReceive q) c \<and> status k c = block_status n True \<and>
    (\<forall>u \<in> T - {c}. status k u = status (kern s) u) \<and>
    uxPriority k = (uxPriority (kern s))(h := max (uxPriority (kern s) h) (uxPriority (kern s) c)) \<and>
    highest_ready T k (pxCurrentTCB k) \<and>
    (status (kern s) h = Ready \<longrightarrow> uxPriority (kern s) c \<le> uxPriority k (pxCurrentTCB k))"
proof -
  let ?s0 = "prvLockQueue q (suspend_all s)" and ?k0 = "vTaskSuspendAll (kern s)"
  have "?s0 = set_queue q (\<lambda>Q. Q\<lparr>cRxLock := 0, cTxLock := 0\<rparr>) (suspend_all s)"
    using lock_unlocked [of "suspend_all s" q] unlocked by (simp add: suspend_all_def in_kernel_def)
  then have s0: "kern ?s0 = ?k0" "uxQueueType (queues ?s0 q) = 0" "xMutexHolder (queues ?s0 q) = h"
    using mutex by (simp_all add: suspend_all_def in_kernel_def)
  have W0: "waiting T E ?k0 G" using W by (simp add: vTaskSuspendAll_def waiting_counts)
  have c0: "pxCurrentTCB ?k0 \<in> T" "uxPriority ?k0 = uxPriority (kern s)" "pxCurrentTCB ?k0 = c" using c(1,2) by (simp_all add: vTaskSuspendAll_def)
  obtain i k1 where ik: "xTaskPriorityInherit h ?k0 = (i, k1)" by fastforce
  have hr: "pxContainer (kl ?k0) (xEventListItem h) \<notin> E" using h(4) by (simp add: vTaskSuspendAll_def)
  note I = lent_inherit [OF W0 h(1,2) hr c0(1), unfolded ik c0(2,3) snd_conv]
  have prep: "lend_priority q False ?s0 = (i, ?s0\<lparr>kern := k1\<rparr>)" using s0 ik by (simp add: lend_priority_def)
  have blocked: "prvIsQueueEmpty q s'" if "uxMessagesWaiting (queues s' q) = uxMessagesWaiting (queues s q)" for s' :: system
    using that mutex(2) by (simp add: prvIsQueueEmpty_def)
  from wait_blocks [OF W Q cnt c other l n unlocked, where env = "env 0" and blocked = "prvIsQueueEmpty q" and prepare = "lend_priority q False"
      and x = False, OF env blocked prep I(1)] obtain k G' where
    k: "wait_section (env 0) q (xTasksWaitingToReceive q) (prvIsQueueEmpty q) (lend_priority q False) False (vTaskInternalSetTimeOutState (kern s)) n s =
      Some (False, i, vTaskInternalSetTimeOutState (kern s), n, env 0 Retrying (s\<lparr>kern := k\<rparr>))"
      "waiting T E k G'" "quiet T k" "highest_ready T k (pxCurrentTCB k)" "uxPriority k = uxPriority k1"
      "status k c = block_status n True" "\<forall>u \<in> T - {c}. status k u = status (kern s) u"
      "\<forall>u \<in> T. pxContainer (kl k) (xEventListItem u) = (if u = c then xTasksWaitingToReceive q else pxContainer (kl (kern s)) (xEventListItem u))"
    by blast
  have "uxPriority (kern s) c \<le> uxPriority k (pxCurrentTCB k)" if "status (kern s) h = Ready"
  proof -
    have "task_ready k h" using k(7) h that status_kinv(1) [OF waitingD(1) [OF k(2)] h(1)] by auto
    then have "uxPriority k h \<le> uxPriority k (pxCurrentTCB k)"
      using k(4) h(1) task_ready_in [OF waitingD(2) [OF k(2)] h(1)] by (simp add: highest_ready_def)
    moreover have "uxPriority (kern s) c \<le> uxPriority k h" using k(5) I(2) by simp
    ultimately show ?thesis by simp
  qed
  moreover have "xQueueSemaphoreTake env q n s =
      xQueueSemaphoreTake_loop env 1 q n (Some (vTaskInternalSetTimeOutState (kern s))) i (env 0 Retrying (s\<lparr>kern := k\<rparr>))"
    using mutex(2) n k(1) env by (simp add: xQueueSemaphoreTake_def xQueueSemaphoreTake_loop.simps [of _ 0] entry_time_def)
  ultimately show ?thesis using k(2-8) I(2) c(2) by (intro exI [of _ k] exI [of _ G'] exI [of _ i]) (simp add: waits_in_def)
qed

text \<open>A mutex at 1964 that the task \<open>h\<close> holds, or that is in the hands of nobody but has tasks waiting, with a kernel \<open>k\<close>.\<close>

definition mutex_system :: "u32 \<Rightarrow> kernel \<Rightarrow> system" where
  "mutex_system h k = set_queue 1964 (\<lambda>Q. Q\<lparr>pcHead := queueQUEUE_IS_MUTEX, pcTail := h, uxMessagesWaiting := 0, uxLength := 1, uxItemSize := 0,
     cTxLock := queueUNLOCKED, pxQueueSetContainer := 0\<rparr>) (demo_system\<lparr>kern := k\<rparr>)"

lemma mutex_system_fields:
  "kern (mutex_system h k) = k" "uxQueueType (queues (mutex_system h k) 1964) = queueQUEUE_IS_MUTEX" "uxMessagesWaiting (queues (mutex_system h k) 1964) = 0"
  "xMutexHolder (queues (mutex_system h k) 1964) = h" "cTxLock (queues (mutex_system h k) 1964) = queueUNLOCKED"
  "cRxLock (queues (mutex_system h k) 1964) = queueUNLOCKED" "uxItemSize (queues (mutex_system h k) 1964) = 0"
  "uxLength (queues (mutex_system h k) 1964) = 1" "pxQueueSetContainer (queues (mutex_system h k) 1964) = 0"
  by (simp_all add: mutex_system_def demo_system_def) (simp_all add: demo_queue_def)

definition take_kernel :: kernel where
  "take_kernel = demo_started\<lparr>kl := vListInitialise 2000 (kl demo_started), uxCurrentNumberOfTasks := 4\<rparr>"

lemma take_kernel_waiting:
  "\<exists>G. waiting {100, 200, 300, 400} {2000} take_kernel G" "quiet {100, 200, 300, 400} take_kernel"
  "pxCurrentTCB take_kernel = pxCurrentTCB demo_started" "\<forall>t \<in> {100, 200, 300, 400}. task_ready take_kernel t \<and> pxContainer (kl take_kernel) (xEventListItem t) = 0"
proof -
  let ?T = "{100, 200, 300, 400 :: u32}" and ?v = "demo_started\<lparr>kl := vListInitialise 2000 (kl demo_started)\<rparr>"
  have S: "quiet ?T demo_started" using demo_started_scheduled(1) by (simp add: scheduled_def)
  obtain G where G: "waiting ?T {} demo_started G" using demo_started_waiting by blast
  have "2000 \<notin> kernel_lists {} demo_started" using demo_places(3) same_places_fields(5) [OF demo_started_scheduled(5)] by simp
  then have "waiting ?T {2000} ?v (G(2000 := []))" "quiet ?T ?v" using waiting_list_added [OF G _ _ demo_places(4)] S by simp_all
  then have "waiting ?T {2000} take_kernel (G(2000 := []))" "quiet ?T take_kernel"
    using waiting_number [where s = ?v and n = 4 and T = ?T and E = "{2000}" and G = "G(2000 := [])"] by (simp_all add: take_kernel_def quiet_def)
  then show "\<exists>G. waiting ?T {2000} take_kernel G" "quiet ?T take_kernel" by blast+
  show "pxCurrentTCB take_kernel = pxCurrentTCB demo_started" by (simp add: take_kernel_def)
  have "pxContainer (kl demo_started) (xEventListItem t) = 0" if "t \<in> ?T" for t
    using kcore_task(5) [OF waitingD(2) [OF G] that] S that by (auto simp: quiet_def event_lists_def)
  moreover have "task_ready take_kernel t" if "task_ready demo_started t" for t using that by (simp add: take_kernel_def task_ready_def ready_list_def)
  ultimately show "\<forall>t \<in> ?T. task_ready take_kernel t \<and> pxContainer (kl take_kernel) (xEventListItem t) = 0"
    using demo_started_scheduled(2) by (simp add: take_kernel_def)
qed

theorem mutex_no_inversion_witness:
  "\<exists>h k i. h \<in> {100, 200, 300, 400} \<and> h \<noteq> pxCurrentTCB take_kernel \<and> waits_in k 2000 (pxCurrentTCB take_kernel) \<and>
    uxPriority take_kernel (pxCurrentTCB take_kernel) \<le> uxPriority k (pxCurrentTCB k) \<and>
    xQueueSemaphoreTake (\<lambda>n g. id) 1964 5 (mutex_system h take_kernel) =
      xQueueSemaphoreTake_loop (\<lambda>n g. id) 1 1964 5 (Some (vTaskInternalSetTimeOutState take_kernel)) i ((mutex_system h take_kernel)\<lparr>kern := k\<rparr>)"
proof -
  let ?T = "{100, 200, 300, 400 :: u32}" and ?c = "pxCurrentTCB take_kernel"
  note D = take_kernel_waiting
  obtain h where h: "h \<in> ?T" "h \<noteq> ?c" using demo_other unfolding D(3) by blast
  note M = mutex_system_fields [of h take_kernel]
  obtain G where G: "waiting ?T {2000} (kern (mutex_system h take_kernel)) G" using D(1) by (auto simp: M)
  have c: "?c \<in> ?T" using demo_started_scheduled(1) D(3) by (simp add: scheduled_def)
  have st: "status take_kernel h = Ready" using D(4) h(1) unfolding status_def by metis
  have cnt: "uxCurrentNumberOfTasks take_kernel > 0" by (simp add: take_kernel_def)
  have "0 \<notin> ?T" by simp
  then have h0: "h \<noteq> 0" and rd: "task_ready take_kernel ?c" and free: "pxContainer (kl take_kernel) (xEventListItem ?c) = 0"
    using h(1) D(4) c by metis+
  have r: "xTasksWaitingToReceive 1964 = 2000" "xTasksWaitingToReceive 1964 \<in> {2000}" by (simp_all add: xTasksWaitingToReceive_def)
  have n: "(5 :: u32) \<noteq> 0" by simp
  have hf: "pxContainer (kl take_kernel) (xEventListItem h) \<notin> {2000}" unfolding conjunct2 [OF bspec [OF D(4) h(1)]] by simp
  have env: "(\<lambda>n g. id :: system \<Rightarrow> system) 0 g = id" for g :: gap by simp
  from mutex_no_inversion [OF G, unfolded M(1), OF D(2) cnt refl c rd free M(2,3,4) h(1) h0 h(2) hf h st r(2) n M(5,6) env, unfolded r(1)]
  obtain k i where "xQueueSemaphoreTake (\<lambda>n g. id) 1964 5 (mutex_system h take_kernel) =
      xQueueSemaphoreTake_loop (\<lambda>n g. id) 1 1964 5 (Some (vTaskInternalSetTimeOutState take_kernel)) i (id ((mutex_system h take_kernel)\<lparr>kern := k\<rparr>))"
    "waits_in k 2000 ?c" "uxPriority take_kernel ?c \<le> uxPriority k (pxCurrentTCB k)" using st by blast
  then show ?thesis using h by (intro exI [of _ h] exI [of _ k] exI [of _ i]) simp
qed

text \<open>What giving back the mutex does to the kernel before a waiting task is looked for.\<close>

lemma disinherit_lent:
  fixes s c
  defines "s1 \<equiv> s\<lparr>uxMutexesHeld := (uxMutexesHeld s)(c := 0)\<rparr>" and "b \<equiv> uxBasePriority s c"
  assumes W: "waiting T E s G" and c: "c \<in> T" "c \<noteq> 0" "task_ready s c" and held: "uxMutexesHeld s c = 1" and base: "b < 8"
  obtains k where "xTaskPriorityDisinherit c s = (uxPriority s c \<noteq> b, k)" "lent T E s1 k" "uxPriority k = (uxPriority s)(c := b)"
proof -
  have W1: "waiting T E s1 G" using W by (simp only: s1_def waiting_held)
  have r1: "status s1 c = Ready" using status_kinv(1) [OF waitingD(1) [OF W] c(1)] c(3) by (simp add: s1_def waiting_held)
  note L = lent_reprioritise [OF W1 c(1) ready_free [OF W1 c(1) r1] base]
  have D: "xTaskPriorityDisinherit c s = (uxPriority s c \<noteq> b, if uxPriority s c \<noteq> b then reprioritise c b (8 - b) s1 else s1)"
    using disinherit_reprioritise [OF W c] held by (simp add: s1_def b_def)
  have p: "uxPriority s1 = uxPriority s" by (simp add: s1_def)
  show thesis
  proof (rule that [OF D])
    show "lent T E s1 (if uxPriority s c \<noteq> b then reprioritise c b (8 - b) s1 else s1)" using L(1) lent_refl [OF W1] by simp
    show "uxPriority (if uxPriority s c \<noteq> b then reprioritise c b (8 - b) s1 else s1) = (uxPriority s)(c := b)" using L(2) p by auto
  qed
qed

lemma highest_cong:
  assumes "waiting T E s G" "waiting T E s' G'" "\<And>u. u \<in> T \<Longrightarrow> status s' u = Ready \<Longrightarrow> status s u = Ready \<or> uxPriority s' u \<le> uxPriority s' c"
    "status s' c = Ready" "\<And>u. u \<in> T \<Longrightarrow> uxPriority s' u = uxPriority s u" "highest_ready T s c"
  shows "highest_ready T s' c"
proof -
  have c: "c \<in> T" using assms(6) by (simp add: highest_ready_def)
  have "pxContainer (kl s') (xStateListItem u) \<in> ready_lists s' \<longleftrightarrow> status s' u = Ready"
    "pxContainer (kl s) (xStateListItem u) \<in> ready_lists s \<longleftrightarrow> status s u = Ready" if "u \<in> T" for u
    using that status_kinv(1) waitingD(1,2) [OF assms(1)] waitingD(1,2) [OF assms(2)] task_ready_in by blast+
  moreover have "task_ready s' c" using assms(4) status_kinv(1) [OF waitingD(1) [OF assms(2)] c] by blast
  moreover have "uxPriority s' u \<le> uxPriority s' c" if u: "u \<in> T" "status s' u = Ready" for u
    using assms(3) [OF u] assms(5) [OF u(1)] assms(5) [OF c] calculation(2) [OF u(1)] assms(6) u(1) unfolding highest_ready_def by metis
  ultimately show ?thesis using c by (simp add: highest_ready_def task_ready_def)
qed

lemma copy_mutex:
  assumes "uxItemSize (queues s q) = 0" "uxQueueType (queues s q) = queueQUEUE_IS_MUTEX" "xTaskPriorityDisinherit (xMutexHolder (queues s q)) (kern s) = (r, k)"
  shows "prvCopyDataToQueue q f pos s =
    (r, set_queue q (\<lambda>Q. Q\<lparr>pcTail := 0, uxMessagesWaiting := uxMessagesWaiting (queues s q) + 1\<rparr>) (s\<lparr>kern := k\<rparr>))"
  using assms by (simp add: prvCopyDataToQueue_def set_queue_def Let_def)

text \<open>Waking the first waiting task and switching when asked to, as all calls that signal an event do.\<close>

lemma switch_ready:
  assumes W: "waiting T E s G" and Q: "quiet T s" and t: "t \<in> T" "status s t = Ready"
  obtains k where "vTaskSwitchContext s = Some k" "waiting T E k G" "quiet T k" "uxPriority k = uxPriority s" "status k = status s"
    "pxContainer (kl k) = pxContainer (kl s)" "highest_ready T k (pxCurrentTCB k)"
proof -
  have "task_ready s t" using t status_kinv(1) [OF waitingD(1) [OF W] t(1)] by blast
  moreover have "uxSchedulerSuspended s = 0" using Q by (simp add: quiet_def)
  ultimately obtain k u where
    k: "vTaskSwitchContext s = Some k" "switched u s k" "waiting T E k G" "highest_ready T k u" using switch_waiting [OF W _ t(1)] by blast
  note V = switched_fields [OF k(2)] switched_views [OF k(2)]
  show thesis by (rule that [OF k(1,3)]) (use k(4) Q V switched_status [OF k(2)] in simp_all)
qed

lemma wake_and_switch:
  assumes W: "waiting T E s G" and Q: "quiet T s" and l: "l \<in> E" and ne: "waiters T s l \<noteq> {}"
    and c: "status s (pxCurrentTCB s) = Ready" "pxCurrentTCB s \<in> T"
    and top: "highest_ready T s (pxCurrentTCB s) \<or> (\<exists>u \<in> waiters T s l. uxPriority s (pxCurrentTCB s) < uxPriority s u)"
  obtains b s' k G' t where "xTaskRemoveFromEventList l s = (b, s')" "(if b then vTaskSwitchContext s' else Some s') = Some k"
    "waiting T E k G'" "quiet T k" "uxPriority k = uxPriority s" "highest_ready T k (pxCurrentTCB k)"
    "t \<in> waiters T s l" "\<forall>u \<in> waiters T s l. uxPriority s u \<le> uxPriority s t" "pxContainer (kl k) (xEventListItem t) = 0"
    "\<forall>u \<in> T. status k u = (if u = t then Ready else status s u)"
proof -
  let ?c = "pxCurrentTCB s"
  obtain t0 where t0: "t0 \<in> T" "waits_in s l t0" using ne by (auto simp: waiters_def)
  have q: "uxSchedulerSuspended s = 0" using Q by (simp add: quiet_def)
  from wake_highest [OF W q l t0] obtain t s' G' y where
    t: "t \<in> T" "waits_in s l t" "\<forall>u \<in> T. waits_in s l u \<longrightarrow> uxPriority s u \<le> uxPriority s t"
      "xTaskRemoveFromEventList l s = (uxPriority s ?c < uxPriority s t, s')" "waiting T E s' G'" "kframe (s\<lparr>xYieldPending := y\<rparr>) s'"
    and st: "\<And>u. u \<in> T \<Longrightarrow> status s' u = (if u = t then Ready else status s u) \<and>
      pxContainer (kl s') (xEventListItem u) = (if u = t then 0 else pxContainer (kl s) (xEventListItem u))" by blast
  note Y = kframe_fields [OF t(6), simplified]
  have p0: "xPendingReadyList s \<noteq> 0" using rings_D(1) [OF kcoreD(1) [OF waitingD(2) [OF W]]] by (auto simp: event_lists_def)
  have Q': "quiet T s'" using Q st p0 by (simp add: quiet_def Y)
  have r: "status s' t = Ready" "pxContainer (kl s') (xEventListItem t) = 0" using st [OF t(1)] by simp_all
  have tw: "t \<in> waiters T s l" "\<forall>u \<in> waiters T s l. uxPriority s u \<le> uxPriority s t" using t(1-3) by (auto simp: waiters_def)
  have sts: "\<forall>u \<in> T. status s' u = (if u = t then Ready else status s u)" using st by blast
  show thesis
  proof (cases "uxPriority s ?c < uxPriority s t")
    case True
    obtain k where k: "vTaskSwitchContext s' = Some k" "waiting T E k G'" "quiet T k" "uxPriority k = uxPriority s'" "status k = status s'"
      "pxContainer (kl k) = pxContainer (kl s')" "highest_ready T k (pxCurrentTCB k)" using switch_ready [OF t(5) Q' t(1) r(1)] .
    show thesis by (rule that [OF t(4) _ k(2,3) _ k(7) tw]) (use True k(1,4,5,6) Y(6) r(2) sts in simp_all)
  next
    case False
    then have "highest_ready T s ?c" using top tw(2) by fastforce
    then have "highest_ready T s' ?c"
      by (rule highest_cong [OF W t(5), rotated -1]) (use st False c Y in \<open>auto split: if_splits\<close>)
    then have hi: "highest_ready T s' (pxCurrentTCB s')" using Y by simp
    show thesis by (rule that [OF t(4) _ t(5) Q' _ hi tw]) (use False Y(6) r(2) sts in simp_all)
  qed
qed

text \<open>A switch of tasks that is only made when it is needed.\<close>

lemma switch_if:
  assumes W: "waiting T E s G" and Q: "quiet T s" and c: "pxCurrentTCB s \<in> T" "status s (pxCurrentTCB s) = Ready"
    and h: "\<not> b \<Longrightarrow> highest_ready T s (pxCurrentTCB s)"
  shows "\<exists>k. (if b then vTaskSwitchContext s else Some s) = Some k \<and> waiting T E k G \<and> quiet T k \<and> uxPriority k = uxPriority s \<and>
    status k = status s \<and> highest_ready T k (pxCurrentTCB k)"
proof (cases b)
  case True
  show ?thesis using switch_ready [OF W Q c] True by metis
qed (use W Q h in simp)

text \<open>What giving back its only mutex means for the running task: its own priority, with the rest of the kernel as before. The rest of the
  call wakes a waiting task, or yields when the priority was a lent one.\<close>

lemma give_lowers:
  assumes W: "waiting T E (kern s) G" and Q: "quiet T (kern s)" and c: "pxCurrentTCB (kern s) = c" "c \<noteq> 0" "highest_ready T (kern s) c"
    and mutex: "uxQueueType (queues s q) = queueQUEUE_IS_MUTEX" "uxItemSize (queues s q) = 0" "uxMessagesWaiting (queues s q) = 0"
      "uxLength (queues s q) = 1" "xMutexHolder (queues s q) = c" "pxQueueSetContainer (queues s q) = 0"
    and held: "uxMutexesHeld (kern s) c = 1" and base: "uxBasePriority (kern s) c \<le> uxPriority (kern s) c"
    and l: "xTasksWaitingToReceive q \<in> E"
  defines "g \<equiv> set_queue q (\<lambda>Q. Q\<lparr>pcTail := 0, uxMessagesWaiting := 1\<rparr>)"
  shows "\<exists>k G'. waiting T E k G' \<and> quiet T k \<and> pxCurrentTCB k = c \<and> uxPriority k = (uxPriority (kern s))(c := uxBasePriority (kern s) c) \<and>
    (\<forall>u \<in> T. status k u = status (kern s) u) \<and> waiters T k (xTasksWaitingToReceive q) = waiters T (kern s) (xTasksWaitingToReceive q) \<and>
    status k c = Ready \<and> (uxPriority (kern s) c = uxBasePriority (kern s) c \<longrightarrow> highest_ready T k c) \<and>
    xQueueGenericSend env q p n pos s = map_option (Pair True)
      (if waiters T k (xTasksWaitingToReceive q) \<noteq> {} then let (r, s) = wake_one (xTasksWaitingToReceive q) (g (s\<lparr>kern := k\<rparr>)) in if r then yield s else Some s
       else if uxPriority (kern s) c \<noteq> uxBasePriority (kern s) c then yield (g (s\<lparr>kern := k\<rparr>)) else Some (g (s\<lparr>kern := k\<rparr>)))"
proof -
  let ?r = "xTasksWaitingToReceive q" and ?b = "uxBasePriority (kern s) c" and ?s1 = "(kern s)\<lparr>uxMutexesHeld := (uxMutexesHeld (kern s))(c := 0)\<rparr>"
  have cT: "c \<in> T" and rd: "task_ready (kern s) c" using c(3) by (simp_all add: highest_ready_def task_ready_def)
  have b8: "?b < 8" using base kcore_task(1) [OF waitingD(2) [OF W] cT] by (rule le_less_trans)
  obtain k1 where k1: "xTaskPriorityDisinherit c (kern s) = (uxPriority (kern s) c \<noteq> ?b, k1)" "lent T E ?s1 k1"
    "uxPriority k1 = (uxPriority (kern s))(c := ?b)" using disinherit_lent [OF W cT c(2) rd held b8] by blast
  obtain G1 where W1: "waiting T E k1 G1" using k1(2) by (auto simp: lent_def)
  have st1: "status k1 u = status (kern s) u" "pxContainer (kl k1) (xEventListItem u) = pxContainer (kl (kern s)) (xEventListItem u)" if "u \<in> T" for u
    using k1(2) that by (simp_all add: lent_def waiting_held)
  note F = lent_fields [OF k1(2), simplified]
  have Q1: "quiet T k1" and su: "pxCurrentTCB k1 = c" using Q st1(2) c(1) by (simp_all add: quiet_def F)
  have w1: "waiters T k1 ?r = waiters T (kern s) ?r" using st1(2) by (auto simp: waiters_def waits_in_def)
  have cr: "status k1 c = Ready" using st1(1) [OF cT] rd status_kinv(1) [OF waitingD(1) [OF W] cT] by simp
  have "xQueueGenericSend env q p n pos s = map_option (Pair True)
    (if waiters T k1 ?r \<noteq> {} then let (r, s) = wake_one ?r (g (s\<lparr>kern := k1\<rparr>)) in if r then yield s else Some s
     else if uxPriority (kern s) c \<noteq> ?b then yield (g (s\<lparr>kern := k1\<rparr>)) else Some (g (s\<lparr>kern := k1\<rparr>)))"
    using copy_mutex [OF mutex(2,1), of "uxPriority (kern s) c \<noteq> ?b" k1] k1(1) mutex waiters_empty [OF waitingD(2) [OF W1], of ?r] l
    by (simp add: g_def xQueueGenericSend_def xQueueGenericSend_loop.simps [of _ 0] send_now_def Let_def event_lists_def)
  moreover have "highest_ready T k1 c" if "uxPriority (kern s) c = ?b"
    by (rule highest_cong [OF W W1 _ cr _ c(3)]) (use st1 that k1(3) in auto)
  ultimately show ?thesis using W1 Q1 su k1(3) st1(1) w1 cr by (intro exI [of _ k1] exI [of _ G1]) simp
qed

text \<open>C30: Giving back a mutex. When the running task gives back the only mutex it holds, its priority is its base priority again, the
  mutex is free, and of the tasks that wait for it the one of the highest priority becomes ready and waits no more; no other
  task's status or priority changes, the invariant holds, and a ready task of the highest priority runs, provided the priority that is given up was that of a
  waiting task.\<close>

theorem mutex_give:
  assumes W: "waiting T E (kern s) G" and Q: "quiet T (kern s)" and c: "pxCurrentTCB (kern s) = c" "c \<noteq> 0" "highest_ready T (kern s) c"
    and mutex: "uxQueueType (queues s q) = queueQUEUE_IS_MUTEX" "uxItemSize (queues s q) = 0" "uxMessagesWaiting (queues s q) = 0"
      "uxLength (queues s q) = 1" "xMutexHolder (queues s q) = c" "pxQueueSetContainer (queues s q) = 0"
    and held: "uxMutexesHeld (kern s) c = 1" and base: "uxBasePriority (kern s) c \<le> uxPriority (kern s) c"
    and l: "xTasksWaitingToReceive q \<in> E"
    and due: "waiters T (kern s) (xTasksWaitingToReceive q) \<noteq> {} \<Longrightarrow> uxPriority (kern s) c = uxBasePriority (kern s) c \<or>
      (\<exists>u \<in> waiters T (kern s) (xTasksWaitingToReceive q). uxPriority (kern s) u = uxPriority (kern s) c)"
  shows "\<exists>k G'. xQueueGenericSend env q p n pos s =
      Some (True, set_queue q (\<lambda>Q. Q\<lparr>pcTail := 0, uxMessagesWaiting := 1\<rparr>) (s\<lparr>kern := k\<rparr>)) \<and>
    waiting T E k G' \<and> quiet T k \<and> uxPriority k = (uxPriority (kern s))(c := uxBasePriority (kern s) c) \<and>
    highest_ready T k (pxCurrentTCB k) \<and>
    (if waiters T (kern s) (xTasksWaitingToReceive q) = {} then \<forall>u \<in> T. status k u = status (kern s) u
     else \<exists>t \<in> waiters T (kern s) (xTasksWaitingToReceive q).
       (\<forall>u \<in> waiters T (kern s) (xTasksWaitingToReceive q). uxPriority (kern s) u \<le> uxPriority (kern s) t) \<and>
       status k t = Ready \<and> pxContainer (kl k) (xEventListItem t) = 0 \<and> (\<forall>u \<in> T - {t}. status k u = status (kern s) u))"
proof -
  let ?r = "xTasksWaitingToReceive q" and ?b = "uxBasePriority (kern s) c" and ?q = "set_queue q (\<lambda>Q. Q\<lparr>pcTail := 0, uxMessagesWaiting := 1\<rparr>)"
  have cT: "c \<in> T" and rd: "task_ready (kern s) c" using c(3) by (simp_all add: highest_ready_def task_ready_def)
  from give_lowers [OF W Q c mutex held base l, of env p n pos] obtain k1 G1 where
    W1: "waiting T E k1 G1" and Q1: "quiet T k1" and su: "pxCurrentTCB k1 = c" and p1: "uxPriority k1 = (uxPriority (kern s))(c := ?b)"
      and st1: "\<forall>u \<in> T. status k1 u = status (kern s) u" and w1: "waiters T k1 ?r = waiters T (kern s) ?r" and cr: "status k1 c = Ready"
      and low: "uxPriority (kern s) c = ?b \<longrightarrow> highest_ready T k1 c"
      and send: "xQueueGenericSend env q p n pos s = map_option (Pair True)
        (if waiters T k1 ?r \<noteq> {} then let (r, s) = wake_one ?r (?q (s\<lparr>kern := k1\<rparr>)) in if r then yield s else Some s
         else if uxPriority (kern s) c \<noteq> ?b then yield (?q (s\<lparr>kern := k1\<rparr>)) else Some (?q (s\<lparr>kern := k1\<rparr>)))" by blast
  have nc: "u \<noteq> c" if "u \<in> waiters T (kern s) ?r" for u
    using that waitingD(5) [OF W cT] l rd task_ready_in [OF waitingD(2) [OF W] cT] by (auto simp: waiters_def waits_in_def event_lists_def)
  show ?thesis
  proof (cases "waiters T k1 ?r = {}")
    case none: True
    have "pxCurrentTCB k1 \<in> T" "status k1 (pxCurrentTCB k1) = Ready" unfolding su by (fact cT, fact cr)
    from switch_if [OF W1 Q1 this, of "uxPriority (kern s) c \<noteq> ?b"] obtain k where
      k: "(if uxPriority (kern s) c \<noteq> ?b then vTaskSwitchContext k1 else Some k1) = Some k" "waiting T E k G1" "quiet T k"
        "uxPriority k = uxPriority k1" "status k = status k1" "highest_ready T k (pxCurrentTCB k)" using low su by auto
    have "xQueueGenericSend env q p n pos s = Some (True, ?q (s\<lparr>kern := k\<rparr>))"
      using send none k(1) by (auto simp: yield_def set_queue_def split: if_splits)
    then show ?thesis using k(2-6) p1 none w1 st1 by (intro exI [of _ k] exI [of _ G1]) simp
  next
    case some: False
    have top: "highest_ready T k1 c \<or> (\<exists>u \<in> waiters T k1 ?r. uxPriority k1 c < uxPriority k1 u)"
    proof (cases "uxPriority (kern s) c = ?b")
      case False
      then have "?b < uxPriority (kern s) c" using base by simp
      with False due some nc show ?thesis unfolding w1 p1 by fastforce
    qed (use low in blast)
    obtain r s' k G' t where k: "xTaskRemoveFromEventList ?r k1 = (r, s')" "(if r then vTaskSwitchContext s' else Some s') = Some k"
      "waiting T E k G'" "quiet T k" "uxPriority k = uxPriority k1" "highest_ready T k (pxCurrentTCB k)"
      "t \<in> waiters T k1 ?r" "\<forall>u \<in> waiters T k1 ?r. uxPriority k1 u \<le> uxPriority k1 t" "pxContainer (kl k) (xEventListItem t) = 0"
      "\<forall>u \<in> T. status k u = (if u = t then Ready else status k1 u)" by (rule wake_and_switch [OF W1 Q1 l some, unfolded su, OF cr cT top])
    have "wake_one ?r (?q (s\<lparr>kern := k1\<rparr>)) = (r, ?q (s\<lparr>kern := s'\<rparr>))"
      using waiters_empty [OF waitingD(2) [OF W1], of ?r] l some k(1) by (simp add: wake_one_def event_lists_def set_queue_def)
    then have sent: "xQueueGenericSend env q p n pos s = Some (True, ?q (s\<lparr>kern := k\<rparr>))"
      using send some k(2) by (cases r) (simp_all add: yield_def set_queue_def)
    have "\<forall>u \<in> waiters T (kern s) ?r. uxPriority (kern s) u \<le> uxPriority (kern s) t" "t \<in> T"
      using k(7,8) p1 nc unfolding w1 by (simp_all add: waiters_def)
    then have "\<exists>t \<in> waiters T (kern s) ?r. (\<forall>u \<in> waiters T (kern s) ?r. uxPriority (kern s) u \<le> uxPriority (kern s) t) \<and>
       status k t = Ready \<and> pxContainer (kl k) (xEventListItem t) = 0 \<and> (\<forall>u \<in> T - {t}. status k u = status (kern s) u)"
      using k(7,9,10) st1 unfolding w1 by (intro bexI [of _ t]) auto
    then show ?thesis using sent k(3-6) p1 some w1 by (intro exI [of _ k] exI [of _ G']) simp
  qed
qed

text \<open>The kernel of \<open>wake_system\<close>, in which a task waits in the list at 2000, after a switch to a ready task, which holds the mutex.\<close>

definition give_kernel :: kernel where
  "give_kernel = (case vTaskSwitchContext wake_kernel of None \<Rightarrow> wake_kernel | Some k \<Rightarrow> k\<lparr>uxMutexesHeld := \<lambda>_. 1, uxBasePriority := uxPriority k\<rparr>)"

lemma waiting_base: "waiting T E (s\<lparr>uxBasePriority := f\<rparr>) G = waiting T E s G" "quiet T (s\<lparr>uxBasePriority := f\<rparr>) = quiet T s"
  "highest_ready T (s\<lparr>uxBasePriority := f\<rparr>) c = highest_ready T s c" "highest_ready T (s\<lparr>uxMutexesHeld := g\<rparr>) c = highest_ready T s c"
  by (simp_all add: waiting_def kinv_def kcore_def ktime_def layout_def state_lists_def event_lists_def ready_lists_def ready_list_def
      waiting_order_def event_order_def quiet_def highest_ready_def)

lemma give_kernel_waiting:
  "\<exists>G. waiting {100, 200, 300, 400} {1980, 2000} give_kernel G" "quiet {100, 200, 300, 400} give_kernel"
  "highest_ready {100, 200, 300, 400} give_kernel (pxCurrentTCB give_kernel)" "waits_in give_kernel 2000 (pxCurrentTCB demo_started)"
  "uxMutexesHeld give_kernel = (\<lambda>_. 1)" "uxBasePriority give_kernel = uxPriority give_kernel"
proof -
  let ?T = "{100, 200, 300, 400 :: u32}"
  obtain G t where G: "waiting ?T {1980, 2000} wake_kernel G" "t \<in> ?T" "status wake_kernel t = Ready" using wake_kernel_waiting(1,5) by blast
  then have "task_ready wake_kernel t" using status_kinv(1) [OF waitingD(1) [OF G(1)]] by blast
  moreover have "uxSchedulerSuspended wake_kernel = 0" using wake_kernel_waiting(2) by (simp add: quiet_def)
  ultimately obtain k u where k: "vTaskSwitchContext wake_kernel = Some k" "switched u wake_kernel k" "waiting ?T {1980, 2000} k G" "highest_ready ?T k u"
    using switch_waiting [OF G(1) _ G(2)] by blast
  note V = switched_fields [OF k(2)] switched_views [OF k(2)]
  have g: "give_kernel = k\<lparr>uxMutexesHeld := \<lambda>_. 1, uxBasePriority := uxPriority k\<rparr>" by (simp add: give_kernel_def k(1))
  show "\<exists>G. waiting ?T {1980, 2000} give_kernel G" "quiet ?T give_kernel"
    using k(3) wake_kernel_waiting(2) unfolding g waiting_base waiting_held V(20) by blast+
  show "highest_ready ?T give_kernel (pxCurrentTCB give_kernel)" unfolding g waiting_base using k(4) V(12) by simp
  show "waits_in give_kernel 2000 (pxCurrentTCB demo_started)" using wake_kernel_waiting(3) by (simp add: g waits_in_def V)
  show "uxMutexesHeld give_kernel = (\<lambda>_. 1)" "uxBasePriority give_kernel = uxPriority give_kernel" by (simp_all add: g)
qed

theorem mutex_give_witness:
  "\<exists>t \<in> {100, 200, 300, 400}. \<exists>k. xQueueGenericSend (\<lambda>n g. id) 1964 0 0 queueSEND_TO_BACK (mutex_system (pxCurrentTCB give_kernel) give_kernel) =
      Some (True, set_queue 1964 (\<lambda>Q. Q\<lparr>pcTail := 0, uxMessagesWaiting := 1\<rparr>) ((mutex_system (pxCurrentTCB give_kernel) give_kernel)\<lparr>kern := k\<rparr>)) \<and>
    waits_in give_kernel 2000 t \<and> status k t = Ready"
proof -
  let ?T = "{100, 200, 300, 400 :: u32}" and ?c = "pxCurrentTCB give_kernel"
  note D = give_kernel_waiting and M = mutex_system_fields [of ?c give_kernel]
  obtain G where G: "waiting ?T {1980, 2000} (kern (mutex_system ?c give_kernel)) G" using D(1) by (auto simp: M)
  have r: "xTasksWaitingToReceive 1964 = 2000" by (simp add: xTasksWaitingToReceive_def)
  have "?c \<noteq> 0" using D(3) by (auto simp: highest_ready_def)
  moreover have "waiters ?T give_kernel 2000 \<noteq> {}" using D(4) wake_kernel_waiting(4) by (auto simp: waiters_def)
  moreover note mutex_give [OF G, where c = ?c and q = 1964 and env = "\<lambda>n g. id" and p = 0 and n = 0 and pos = queueSEND_TO_BACK, unfolded M r]
  ultimately obtain k t where "t \<in> waiters ?T give_kernel 2000" "status k t = Ready"
    "xQueueGenericSend (\<lambda>n g. id) 1964 0 0 queueSEND_TO_BACK (mutex_system ?c give_kernel) =
      Some (True, set_queue 1964 (\<lambda>Q. Q\<lparr>pcTail := 0, uxMessagesWaiting := 1\<rparr>) ((mutex_system ?c give_kernel)\<lparr>kern := k\<rparr>))"
    using D(2,3,5,6) by auto
  then show ?thesis by (auto simp: waiters_def)
qed

end
