(* ===== verification/Rtos_Control.thy ===== *)
theory Rtos_Control
  imports Rtos_Block
begin

unbundle bit_operations_syntax

text \<open>
  Controlling tasks, \<^verbatim>\<open>src/ns_guest/lib/freertos/tasks.c\<close>: suspending and resuming a task, its priority and state, and
  notifications, the value a task keeps for others to set and wait for. A handle of zero is the running task where the code takes it so;
  the assertions are defined away by the configuration. A result written through a pointer is a component of the value
  returned, which a caller that passes no pointer ignores.
\<close>

section \<open>State and priority\<close>

definition prvGetTCBFromHandle :: "u32 \<Rightarrow> kernel \<Rightarrow> u32" where
  "prvGetTCBFromHandle pxHandle s = (if pxHandle = 0 then pxCurrentTCB s else pxHandle)"

datatype eTaskState = eRunning | eReady | eBlocked | eSuspended | eDeleted | eInvalid

definition eTaskGetState :: "u32 \<Rightarrow> kernel \<Rightarrow> eTaskState" where
  "eTaskGetState xTask s =
     (if xTask = pxCurrentTCB s then eRunning
      else let pxStateList = pxContainer (kl s) (xStateListItem xTask)
           in if pxStateList = pxDelayedTaskList s \<or> pxStateList = pxOverflowDelayedTaskList s then eBlocked
              else if pxStateList = xSuspendedTaskList s
              then if pxContainer (kl s) (xEventListItem xTask) = 0
                   then if ucNotifyState s xTask = taskWAITING_NOTIFICATION then eBlocked else eSuspended
                   else eBlocked
              else if pxStateList = xTasksWaitingTermination s \<or> pxStateList = 0 then eDeleted
              else eReady)"

definition uxTaskPriorityGet :: "u32 \<Rightarrow> kernel \<Rightarrow> u32" where
  "uxTaskPriorityGet xTask s = uxPriority s (prvGetTCBFromHandle xTask s)"

definition uxTaskPriorityGetFromISR :: "u32 \<Rightarrow> kernel \<Rightarrow> u32" where
  "uxTaskPriorityGetFromISR xTask s = uxPriority s (prvGetTCBFromHandle xTask s)"

text \<open>Whether the new priority makes a switch necessary.\<close>

definition priority_yield :: "u32 \<Rightarrow> u32 \<Rightarrow> kernel \<Rightarrow> bool" where
  "priority_yield pxTCB uxNewPriority s \<longleftrightarrow>
     (if uxNewPriority > uxBasePriority s pxTCB
      then pxTCB \<noteq> pxCurrentTCB s \<and> uxNewPriority \<ge> uxPriority s (pxCurrentTCB s)
      else pxTCB = pxCurrentTCB s)"

definition vTaskPrioritySet :: "u32 \<Rightarrow> u32 \<Rightarrow> kernel \<Rightarrow> kernel option" where
  "vTaskPrioritySet xTask uxNewPriority s =
     (let uxNewPriority = (if uxNewPriority \<ge> configMAX_PRIORITIES then configMAX_PRIORITIES - 1 else uxNewPriority);
          pxTCB = prvGetTCBFromHandle xTask s
      in if uxBasePriority s pxTCB \<noteq> uxNewPriority
         then let xYieldRequired = priority_yield pxTCB uxNewPriority s;
                  uxPriorityUsedOnEntry = uxPriority s pxTCB;
                  s = (if uxBasePriority s pxTCB = uxPriority s pxTCB then set_priority pxTCB uxNewPriority s else s);
                  s = s\<lparr>uxBasePriority := (uxBasePriority s)(pxTCB := uxNewPriority)\<rparr>;
                  s = (if xItemValue (kl s) (xEventListItem pxTCB) AND taskEVENT_LIST_ITEM_VALUE_IN_USE = 0
                       then set_event_value pxTCB (configMAX_PRIORITIES - uxNewPriority) s else s);
                  s = (if listIS_CONTAINED_WITHIN (ready_list s uxPriorityUsedOnEntry) (xStateListItem pxTCB) (kl s)
                       then let (left, l) = uxListRemove (xStateListItem pxTCB) (kl s); s = s\<lparr>kl := l\<rparr>;
                                s = (if left = 0 then portRESET_READY_PRIORITY uxPriorityUsedOnEntry s else s)
                            in prvAddTaskToReadyList pxTCB s
                       else s)
              in if xYieldRequired then vTaskSwitchContext s else Some s
         else Some s)"

section \<open>Suspending and resuming a task\<close>

definition vTaskSuspend :: "u32 \<Rightarrow> kernel \<Rightarrow> kernel option" where
  "vTaskSuspend xTaskToSuspend s =
     (let pxTCB = prvGetTCBFromHandle xTaskToSuspend s;
          s = remove_from_ready pxTCB s;
          s = (if pxContainer (kl s) (xEventListItem pxTCB) \<noteq> 0 then list_remove (xEventListItem pxTCB) s else s);
          s = s\<lparr>kl := vListInsertEnd (xSuspendedTaskList s) (xStateListItem pxTCB) (kl s)\<rparr>;
          s = (if ucNotifyState s pxTCB = taskWAITING_NOTIFICATION
               then s\<lparr>ucNotifyState := (ucNotifyState s)(pxTCB := taskNOT_WAITING_NOTIFICATION)\<rparr> else s);
          s = (if xSchedulerRunning s then prvResetNextTaskUnblockTime s else s)
      in if pxTCB = pxCurrentTCB s
         then if xSchedulerRunning s then vTaskSwitchContext s
              else if listCURRENT_LIST_LENGTH (xSuspendedTaskList s) (kl s) = uxCurrentNumberOfTasks s
              then Some (s\<lparr>pxCurrentTCB := 0\<rparr>) else vTaskSwitchContext s
         else Some s)"

definition prvTaskIsTaskSuspended :: "u32 \<Rightarrow> kernel \<Rightarrow> bool" where
  "prvTaskIsTaskSuspended xTask s \<longleftrightarrow>
     listIS_CONTAINED_WITHIN (xSuspendedTaskList s) (xStateListItem xTask) (kl s) \<and>
     \<not> listIS_CONTAINED_WITHIN (xPendingReadyList s) (xEventListItem xTask) (kl s) \<and>
     listIS_CONTAINED_WITHIN 0 (xEventListItem xTask) (kl s)"

definition vTaskResume :: "u32 \<Rightarrow> kernel \<Rightarrow> kernel option" where
  "vTaskResume pxTCB s =
     (if pxTCB \<noteq> pxCurrentTCB s \<and> pxTCB \<noteq> 0
      then if prvTaskIsTaskSuspended pxTCB s
           then let s = prvAddTaskToReadyList pxTCB (list_remove (xStateListItem pxTCB) s)
                in if uxPriority s pxTCB \<ge> uxPriority s (pxCurrentTCB s) then vTaskSwitchContext s else Some s
           else Some s
      else Some s)"

definition xTaskResumeFromISR :: "u32 \<Rightarrow> kernel \<Rightarrow> bool \<times> kernel" where
  "xTaskResumeFromISR pxTCB s =
     (if prvTaskIsTaskSuspended pxTCB s
      then if uxSchedulerSuspended s = 0
           then (uxPriority s pxTCB \<ge> uxPriority s (pxCurrentTCB s), prvAddTaskToReadyList pxTCB (list_remove (xStateListItem pxTCB) s))
           else (False, s\<lparr>kl := vListInsertEnd (xPendingReadyList s) (xEventListItem pxTCB) (kl s)\<rparr>)
      else (False, s))"

section \<open>Notifications\<close>

datatype eNotifyAction = eNoAction | eSetBits | eIncrement | eSetValueWithOverwrite | eSetValueWithoutOverwrite

definition set_notified_value :: "u32 \<Rightarrow> u32 \<Rightarrow> kernel \<Rightarrow> kernel" where
  "set_notified_value pxTCB v s = s\<lparr>ulNotifiedValue := (ulNotifiedValue s)(pxTCB := v)\<rparr>"

definition set_notify_state :: "u32 \<Rightarrow> u8 \<Rightarrow> kernel \<Rightarrow> kernel" where
  "set_notify_state pxTCB v s = s\<lparr>ucNotifyState := (ucNotifyState s)(pxTCB := v)\<rparr>"

text \<open>The switch over the action, the same for tasks and interrupts.\<close>

fun notify_action :: "eNotifyAction \<Rightarrow> u32 \<Rightarrow> u8 \<Rightarrow> u32 \<Rightarrow> kernel \<Rightarrow> bool \<times> kernel" where
  "notify_action eSetBits ulValue st t s = (True, set_notified_value t (ulNotifiedValue s t OR ulValue) s)"
| "notify_action eIncrement ulValue st t s = (True, set_notified_value t (ulNotifiedValue s t + 1) s)"
| "notify_action eSetValueWithOverwrite ulValue st t s = (True, set_notified_value t ulValue s)"
| "notify_action eSetValueWithoutOverwrite ulValue st t s =
     (if st \<noteq> taskNOTIFICATION_RECEIVED then (True, set_notified_value t ulValue s) else (False, s))"
| "notify_action eNoAction ulValue st t s = (True, s)"

definition xTaskGenericNotify :: "u32 \<Rightarrow> u32 \<Rightarrow> eNotifyAction \<Rightarrow> kernel \<Rightarrow> (bool \<times> u32 \<times> kernel) option" where
  "xTaskGenericNotify pxTCB ulValue eAction s =
     do { let pulPreviousNotificationValue = ulNotifiedValue s pxTCB;
          let ucOriginalNotifyState = ucNotifyState s pxTCB;
          let s = set_notify_state pxTCB taskNOTIFICATION_RECEIVED s;
          let (xReturn, s) = notify_action eAction ulValue ucOriginalNotifyState pxTCB s;
          s \<leftarrow> (if ucOriginalNotifyState = taskWAITING_NOTIFICATION
               then let s = prvAddTaskToReadyList pxTCB (list_remove (xStateListItem pxTCB) s)
                    in if uxPriority s pxTCB > uxPriority s (pxCurrentTCB s) then vTaskSwitchContext s else Some s
               else Some s);
          Some (xReturn, pulPreviousNotificationValue, s) }"

text \<open>The wake-up in an interrupt; the flag says whether \<open>pxHigherPriorityTaskWoken\<close> is set.\<close>

definition notify_wake_from_isr :: "u32 \<Rightarrow> kernel \<Rightarrow> bool \<times> kernel" where
  "notify_wake_from_isr pxTCB s =
     (let s = (if uxSchedulerSuspended s = 0 then prvAddTaskToReadyList pxTCB (list_remove (xStateListItem pxTCB) s)
               else s\<lparr>kl := vListInsertEnd (xPendingReadyList s) (xEventListItem pxTCB) (kl s)\<rparr>)
      in if uxPriority s pxTCB > uxPriority s (pxCurrentTCB s) then (True, s\<lparr>xYieldPending := True\<rparr>) else (False, s))"

definition xTaskGenericNotifyFromISR :: "u32 \<Rightarrow> u32 \<Rightarrow> eNotifyAction \<Rightarrow> kernel \<Rightarrow> bool \<times> u32 \<times> bool \<times> kernel" where
  "xTaskGenericNotifyFromISR pxTCB ulValue eAction s =
     (let pulPreviousNotificationValue = ulNotifiedValue s pxTCB;
          ucOriginalNotifyState = ucNotifyState s pxTCB;
          s = set_notify_state pxTCB taskNOTIFICATION_RECEIVED s;
          (xReturn, s) = notify_action eAction ulValue ucOriginalNotifyState pxTCB s;
          (woken, s) = (if ucOriginalNotifyState = taskWAITING_NOTIFICATION then notify_wake_from_isr pxTCB s else (False, s))
      in (xReturn, pulPreviousNotificationValue, woken, s))"

definition vTaskNotifyGiveFromISR :: "u32 \<Rightarrow> kernel \<Rightarrow> bool \<times> kernel" where
  "vTaskNotifyGiveFromISR pxTCB s =
     (let ucOriginalNotifyState = ucNotifyState s pxTCB;
          s = set_notify_state pxTCB taskNOTIFICATION_RECEIVED s;
          s = set_notified_value pxTCB (ulNotifiedValue s pxTCB + 1) s
      in if ucOriginalNotifyState = taskWAITING_NOTIFICATION then notify_wake_from_isr pxTCB s else (False, s))"

definition xTaskNotifyStateClear :: "u32 \<Rightarrow> kernel \<Rightarrow> bool \<times> kernel" where
  "xTaskNotifyStateClear xTask s =
     (let pxTCB = prvGetTCBFromHandle xTask s
      in if ucNotifyState s pxTCB = taskNOTIFICATION_RECEIVED
         then (True, set_notify_state pxTCB taskNOT_WAITING_NOTIFICATION s) else (False, s))"

text \<open>The calls that wait have two critical sections; between them the task is blocked and others run.\<close>

definition notify_block :: "u32 \<Rightarrow> kernel \<Rightarrow> kernel option" where
  "notify_block xTicksToWait s =
     (let s = set_notify_state (pxCurrentTCB s) taskWAITING_NOTIFICATION s
      in if xTicksToWait > 0
         then do { s \<leftarrow> prvAddCurrentTaskToDelayedList xTicksToWait True s; vTaskSwitchContext s }
         else Some s)"

definition notify_take_enter :: "u32 \<Rightarrow> kernel \<Rightarrow> kernel option" where
  "notify_take_enter xTicksToWait s =
     (if ulNotifiedValue s (pxCurrentTCB s) = 0 then notify_block xTicksToWait s else Some s)"

definition notify_take_exit :: "bool \<Rightarrow> kernel \<Rightarrow> u32 \<times> kernel" where
  "notify_take_exit xClearCountOnExit s =
     (let t = pxCurrentTCB s; ulReturn = ulNotifiedValue s t;
          s = (if ulReturn \<noteq> 0
               then if xClearCountOnExit then set_notified_value t 0 s else set_notified_value t (ulReturn - 1) s
               else s)
      in (ulReturn, set_notify_state t taskNOT_WAITING_NOTIFICATION s))"

definition notify_wait_enter :: "u32 \<Rightarrow> u32 \<Rightarrow> kernel \<Rightarrow> kernel option" where
  "notify_wait_enter ulBitsToClearOnEntry xTicksToWait s =
     (let t = pxCurrentTCB s
      in if ucNotifyState s t \<noteq> taskNOTIFICATION_RECEIVED
         then notify_block xTicksToWait (set_notified_value t (ulNotifiedValue s t AND NOT ulBitsToClearOnEntry) s)
         else Some s)"

definition notify_wait_exit :: "u32 \<Rightarrow> kernel \<Rightarrow> bool \<times> u32 \<times> kernel" where
  "notify_wait_exit ulBitsToClearOnExit s =
     (let t = pxCurrentTCB s; pulNotificationValue = ulNotifiedValue s t;
          (xReturn, s) = (if ucNotifyState s t \<noteq> taskNOTIFICATION_RECEIVED then (False, s)
                          else (True, set_notified_value t (ulNotifiedValue s t AND NOT ulBitsToClearOnExit) s))
      in (xReturn, pulNotificationValue, set_notify_state t taskNOT_WAITING_NOTIFICATION s))"

text \<open>The whole calls: \<open>env\<close> is what happens from the yield until the task runs again.\<close>

definition ulTaskNotifyTake :: "(kernel \<Rightarrow> kernel) \<Rightarrow> bool \<Rightarrow> u32 \<Rightarrow> kernel \<Rightarrow> (u32 \<times> kernel) option" where
  "ulTaskNotifyTake env xClearCountOnExit xTicksToWait s =
     do { s \<leftarrow> notify_take_enter xTicksToWait s; Some (notify_take_exit xClearCountOnExit (env s)) }"

definition xTaskNotifyWait :: "(kernel \<Rightarrow> kernel) \<Rightarrow> u32 \<Rightarrow> u32 \<Rightarrow> u32 \<Rightarrow> kernel \<Rightarrow> (bool \<times> u32 \<times> kernel) option" where
  "xTaskNotifyWait env ulBitsToClearOnEntry ulBitsToClearOnExit xTicksToWait s =
     do { s \<leftarrow> notify_wait_enter ulBitsToClearOnEntry xTicksToWait s; Some (notify_wait_exit ulBitsToClearOnExit (env s)) }"

section \<open>Reading the scheduler's state\<close>

datatype scheduler_state = taskSCHEDULER_NOT_STARTED | taskSCHEDULER_RUNNING | taskSCHEDULER_SUSPENDED

definition xTaskGetSchedulerState :: "kernel \<Rightarrow> scheduler_state" where
  "xTaskGetSchedulerState s =
     (if \<not> xSchedulerRunning s then taskSCHEDULER_NOT_STARTED
      else if uxSchedulerSuspended s = 0 then taskSCHEDULER_RUNNING else taskSCHEDULER_SUSPENDED)"

definition xTaskGetTickCount :: "kernel \<Rightarrow> u32" where
  "xTaskGetTickCount s = xTickCount s"

definition xTaskGetTickCountFromISR :: "kernel \<Rightarrow> u32" where
  "xTaskGetTickCountFromISR s = xTickCount s"

definition uxTaskGetNumberOfTasks :: "kernel \<Rightarrow> u32" where
  "uxTaskGetNumberOfTasks s = uxCurrentNumberOfTasks s"

definition xTaskGetCurrentTaskHandle :: "kernel \<Rightarrow> u32" where
  "xTaskGetCurrentTaskHandle s = pxCurrentTCB s"

section \<open>Taking a task out of its list of states\<close>

text \<open>A bit is only cleared when the ready list of its priority is empty, so the removal is right for a task in any list of states.\<close>

lemma remove_from_ready_other:
  assumes K: "kcore T E s G" and t: "t \<in> T" and c: "pxContainer (kl s) (xStateListItem t) \<noteq> 0" "\<not> task_ready s t"
  shows "remove_from_ready t s = list_remove (xStateListItem t) s"
proof -
  let ?x = "xStateListItem t" and ?c = "pxContainer (kl s) (xStateListItem t)"
  have cr: "?c \<notin> ready_lists s" using task_ready_in [OF K t] c(2) by blast
  note A = kcore_remove [OF K items_in(1) [OF t] refl c(1) cr]
  let ?s = "list_remove ?x s"
  obtain left k where k: "uxListRemove ?x (kl s) = (left, k)" by fastforce
  have s: "?s = s\<lparr>kl := k\<rparr>" by (simp add: list_remove_def k)
  note F = kframe_fields [OF A(2)]
  let ?p = "uxPriority s t" and ?l = "ready_list s (uxPriority s t)"
  have p: "?p < 8" by (rule kcore_task(1) [OF K t])
  have "taskRESET_READY_PRIORITY ?p ?s = ?s"
  proof (cases "listCURRENT_LIST_LENGTH (ready_list ?s ?p) (kl ?s) = 0")
    case True
    have l: "?l \<in> state_lists ?s \<union> event_lists E ?s" using p by (auto simp: F state_lists_def ready_lists_def)
    have "listLIST_IS_EMPTY ?l (kl ?s)" using True by (simp add: F listLIST_IS_EMPTY_def listCURRENT_LIST_LENGTH_def)
    then have "(G(?c := remove1 ?x (G ?c))) ?l = []" using rings_empty [OF kcoreD(1) [OF A(1)] l] by simp
    then have "\<not> bit (uxTopReadyPriority ?s) (unat ?p)" using kcoreD(4) [OF A(1), of "unat ?p"] by (simp add: F)
    then have "uxTopReadyPriority ?s AND NOT (bit_at ?p) = uxTopReadyPriority ?s" by (intro bit_eqI) (auto simp: bitw)
    then show ?thesis by (simp add: taskRESET_READY_PRIORITY_def portRESET_READY_PRIORITY_def)
  next
    case False
    then show ?thesis by (simp add: taskRESET_READY_PRIORITY_def)
  qed
  then have "taskRESET_READY_PRIORITY ?p (s\<lparr>kl := k\<rparr>) = s\<lparr>kl := k\<rparr>" unfolding s .
  then show ?thesis by (simp add: remove_from_ready_def k s Let_def)
qed

lemma remove_state_kcore:
  assumes K: "kcore T E s G" and t: "t \<in> T" and c: "pxContainer (kl s) (xStateListItem t) = c" "c \<noteq> 0"
  defines "s' \<equiv> remove_from_ready t s"
  shows "kcore T E s' (G(c := remove1 (xStateListItem t) (G c)))" "kframe s s'" "xItemValue (kl s') = xItemValue (kl s)"
    "\<And>y. y \<in> items T \<Longrightarrow> pxContainer (kl s') y = (if y = xStateListItem t then 0 else pxContainer (kl s) y)"
proof -
  have "kcore T E s' (G(c := remove1 (xStateListItem t) (G c))) \<and> kframe s s' \<and> xItemValue (kl s') = xItemValue (kl s) \<and>
    (\<forall>y \<in> items T. pxContainer (kl s') y = (if y = xStateListItem t then 0 else pxContainer (kl s) y))"
  proof (cases "task_ready s t")
    case True
    then have e: "c = ready_list s (uxPriority s t)" using c(1) by (simp add: task_ready_def)
    show ?thesis unfolding s'_def remove_from_ready_eq [OF K t True] e
      using leave_ready_kcore [OF K t c(1) [unfolded e]] by blast
  next
    case False
    have c': "pxContainer (kl s) (xStateListItem t) \<noteq> 0" using c by simp
    have "c \<notin> ready_lists s" using task_ready_in [OF K t] False c(1) by blast
    then show ?thesis unfolding s'_def remove_from_ready_other [OF K t c' False]
      using kcore_remove [OF K items_in(1) [OF t] c] by blast
  qed
  then show "kcore T E s' (G(c := remove1 (xStateListItem t) (G c)))" "kframe s s'" "xItemValue (kl s') = xItemValue (kl s)"
    "\<And>y. y \<in> items T \<Longrightarrow> pxContainer (kl s') y = (if y = xStateListItem t then 0 else pxContainer (kl s) y)" by blast+
qed

text \<open>Making a task ready sets the bit that its removal may have cleared, or that it left set for an empty list.\<close>

lemma relist_ready: "prvAddTaskToReadyList t (list_remove (xStateListItem t) s) = prvAddTaskToReadyList t (remove_from_ready t s)"
proof -
  have b: "(w AND NOT (bit_at p)) OR bit_at p = w OR bit_at p" for w :: u32 and p by (rule bit_eqI) (auto simp: bitw)
  obtain left k where k: "uxListRemove (xStateListItem t) (kl s) = (left, k)" by fastforce
  show ?thesis
    by (simp add: list_remove_def remove_from_ready_def k taskRESET_READY_PRIORITY_def portRESET_READY_PRIORITY_def Let_def
        prvAddTaskToReadyList_def taskRECORD_READY_PRIORITY_def ready_list_def b)
qed

text \<open>The invariant after a change of lists that lets no list of tasks grow out of order.\<close>

lemma waiting_moved:
  assumes W: "waiting T E s G" and K: "kcore T E s' G'" and fr: "kframe s s'" and val: "xItemValue (kl s') = xItemValue (kl s)"
    and D: "\<And>j. j \<in> {pxDelayedTaskList s, pxOverflowDelayedTaskList s} \<Longrightarrow> set (G' j) \<subseteq> set (G j)" and th: "thinned E G G'"
    and B: "\<And>u. u \<in> T \<Longrightarrow> pxContainer (kl s') (xEventListItem u) \<in> event_lists E s \<Longrightarrow>
      pxContainer (kl s') (xStateListItem u) \<in> state_lists s - ready_lists s"
  shows "waiting T E s' G'"
proof -
  note F = kframe_fields [OF fr]
  note M = waitingD [OF W]
  have "ktime s' G'" using M(3) D [of "pxDelayedTaskList s"] D [of "pxOverflowDelayedTaskList s"] unfolding ktime_def F val by blast
  moreover have "event_order T E s' G'"
  proof -
    have "sorted (map (xItemValue (kl s)) (G' j))" if j: "j \<in> E" for j
      using M(4) th j unfolding event_order_def waiting_order_def thinned_def by blast
    then show ?thesis using M(4) unfolding event_order_def waiting_order_def val F by blast
  qed
  ultimately show ?thesis using K B by (simp only: waiting_def kinv_def F) blast
qed

lemma status_cong:
  assumes "ready_list s' = ready_list s" "uxPriority s' u = uxPriority s u" "pxDelayedTaskList s' = pxDelayedTaskList s"
    "pxOverflowDelayedTaskList s' = pxOverflowDelayedTaskList s" "xTickCount s' = xTickCount s"
    "pxContainer (kl s') (xStateListItem u) = pxContainer (kl s) (xStateListItem u)"
    "xItemValue (kl s') (xStateListItem u) = xItemValue (kl s) (xStateListItem u)"
  shows "status s' u = status s u"
  using assms by (simp add: status_def task_ready_def sleeping_def remaining_def)

text \<open>What the scheduling of tasks leaves alone.\<close>

definition same_rest :: "kernel \<Rightarrow> kernel \<Rightarrow> bool" where
  "same_rest s s' \<longleftrightarrow> uxBasePriority s' = uxBasePriority s \<and> xSchedulerRunning s' = xSchedulerRunning s \<and>
     ulNotifiedValue s' = ulNotifiedValue s \<and> ucNotifyState s' = ucNotifyState s \<and> uxCurrentNumberOfTasks s' = uxCurrentNumberOfTasks s \<and>
     pxReadyTasksLists s' = pxReadyTasksLists s \<and> xDelayedTaskList1 s' = xDelayedTaskList1 s \<and> xDelayedTaskList2 s' = xDelayedTaskList2 s \<and>
     xPendingReadyList s' = xPendingReadyList s \<and> xTasksWaitingTermination s' = xTasksWaitingTermination s \<and>
     xSuspendedTaskList s' = xSuspendedTaskList s"

lemma same_rest_refl: "same_rest s s"
  by (simp add: same_rest_def)

lemma same_rest_trans: "same_rest s s' \<Longrightarrow> same_rest s' s'' \<Longrightarrow> same_rest s s''"
  by (simp add: same_rest_def)

lemma kframe_rest: "kframe s s' \<Longrightarrow> same_rest s s'"
  by (auto simp: kframe_def same_rest_def)

lemma switched_rest: "switched u s s' \<Longrightarrow> same_rest s s'"
  by (auto simp: switched_def same_rest_def)

lemma same_rest_updates:
  "same_rest s (s\<lparr>xNextTaskUnblockTime := n\<rparr>)" "same_rest s (s\<lparr>xYieldPending := y\<rparr>)" "same_rest s (s\<lparr>uxSchedulerSuspended := m\<rparr>)"
  "same_rest s (prvAddTaskToReadyList t s)" "same_rest s (list_remove x s)" "same_rest s (remove_from_ready t s)"
  by (simp_all add: same_rest_def prvAddTaskToReadyList_def taskRECORD_READY_PRIORITY_def list_remove_def remove_from_ready_def
      taskRESET_READY_PRIORITY_def portRESET_READY_PRIORITY_def Let_def case_prod_unfold)

lemma unblock_loop_rest:
  assumes "unblock_loop c0 sw0 s0 = Some r0"
  shows "same_rest s0 (snd r0)"
proof (rule unblock_loop.raw_induct [where P = "\<lambda>c sw s r. same_rest s (snd r)", OF _ assms])
  fix unblock_loop c sw s r
  assume 1: "\<And>c sw s r. unblock_loop c sw s = Some r \<Longrightarrow> same_rest s (snd r)"
    "(if listLIST_IS_EMPTY (pxDelayedTaskList s) (kl s)
      then Some (sw, s\<lparr>xNextTaskUnblockTime := portMAX_DELAY\<rparr>)
      else let pxTCB = listGET_OWNER_OF_HEAD_ENTRY (pxDelayedTaskList s) (kl s);
               xValue = xItemValue (kl s) (xStateListItem pxTCB)
           in if c < xValue then Some (sw, s\<lparr>xNextTaskUnblockTime := xValue\<rparr>)
              else let s = list_remove (xStateListItem pxTCB) s;
                       s = (if pxContainer (kl s) (xEventListItem pxTCB) \<noteq> 0
                            then list_remove (xEventListItem pxTCB) s else s);
                       s = prvAddTaskToReadyList pxTCB s;
                       sw = (sw \<or> uxPriority s pxTCB \<ge> uxPriority s (pxCurrentTCB s))
                   in unblock_loop c sw s) = Some r"
  let ?t = "listGET_OWNER_OF_HEAD_ENTRY (pxDelayedTaskList s) (kl s)"
  let ?s1 = "list_remove (xStateListItem ?t) s"
  let ?s2 = "if pxContainer (kl ?s1) (xEventListItem ?t) \<noteq> 0 then list_remove (xEventListItem ?t) ?s1 else ?s1"
  let ?s3 = "prvAddTaskToReadyList ?t ?s2"
  have s3: "same_rest s ?s3"
    by (rule same_rest_trans [OF _ same_rest_updates(4)]) (simp add: same_rest_def list_remove_def)
  show "same_rest s (snd r)"
  proof (cases "listLIST_IS_EMPTY (pxDelayedTaskList s) (kl s)")
    case True
    then have "snd r = s\<lparr>xNextTaskUnblockTime := portMAX_DELAY\<rparr>" using 1(2) by auto
    then show ?thesis by (simp only: same_rest_updates(1))
  next
    case False
    let ?v = "xItemValue (kl s) (xStateListItem ?t)"
    show ?thesis
    proof (cases "c < ?v")
      case True
      then have "snd r = s\<lparr>xNextTaskUnblockTime := ?v\<rparr>" using False 1(2) by (auto simp: Let_def)
      then show ?thesis by (simp only: same_rest_updates(1))
    next
      case less: False
      have "unblock_loop c (sw \<or> uxPriority ?s3 ?t \<ge> uxPriority ?s3 (pxCurrentTCB ?s3)) ?s3 = Some r"
        using False less 1(2) by (simp only: Let_def if_False)
      from 1(1) [OF this] show ?thesis by (rule same_rest_trans [OF s3])
    qed
  qed
qed

lemma tick_rest:
  assumes "xTaskIncrementTick s = Some (r, s')"
  shows "same_rest s s'"
proof (cases "uxSchedulerSuspended s = 0")
  case False
  then have "s' = s\<lparr>uxPendedTicks := uxPendedTicks s + 1\<rparr>" using assms by (simp add: xTaskIncrementTick_def)
  then show ?thesis by (simp add: same_rest_def)
next
  case True
  let ?s1 = "advance s"
  have s1: "same_rest s ?s1"
    by (simp add: advance_def taskSWITCH_DELAYED_LISTS_def prvResetNextTaskUnblockTime_def Let_def same_rest_def)
  let ?X = "if xTickCount s + 1 \<ge> xNextTaskUnblockTime ?s1 then unblock_loop (xTickCount s + 1) False ?s1 else Some (False, ?s1)"
  have eq: "xTaskIncrementTick s = ?X \<bind> (\<lambda>(sw, s2).
      Some ((sw \<or> listCURRENT_LIST_LENGTH (ready_list s2 (uxPriority s2 (pxCurrentTCB s2))) (kl s2) > 1) \<or> xYieldPending s2, s2))"
    using True by (simp add: xTaskIncrementTick_def advance_def Let_def case_prod_unfold)
  then obtain sw where sw: "?X = Some (sw, s')" using assms by (cases ?X) auto
  have "same_rest ?s1 s'"
  proof (cases "xTickCount s + 1 \<ge> xNextTaskUnblockTime ?s1")
    case True
    then have "unblock_loop (xTickCount s + 1) False ?s1 = Some (sw, s')" using sw by simp
    then show ?thesis using unblock_loop_rest by fastforce
  next
    case False
    then show ?thesis using sw same_rest_refl by simp
  qed
  then show ?thesis by (rule same_rest_trans [OF s1])
qed

text \<open>A task leaves the event list it may wait in.\<close>

definition leave_event :: "u32 \<Rightarrow> kernel \<Rightarrow> kernel" where
  "leave_event t s = (if pxContainer (kl s) (xEventListItem t) \<noteq> 0 then list_remove (xEventListItem t) s else s)"

lemma leave_event_kcore:
  assumes K: "kcore T E s G" and t: "t \<in> T"
  shows "\<exists>G'. kcore T E (leave_event t s) G' \<and> (\<forall>j \<in> state_lists s. G' j = G j) \<and> thinned E G G'" "kframe s (leave_event t s)"
    "xItemValue (kl (leave_event t s)) = xItemValue (kl s)"
    "\<And>y. y \<in> items T \<Longrightarrow> pxContainer (kl (leave_event t s)) y = (if y = xEventListItem t then 0 else pxContainer (kl s) y)"
proof -
  let ?e = "xEventListItem t" and ?l = "pxContainer (kl s) (xEventListItem t)" and ?s = "leave_event t s"
  have "(\<exists>G'. kcore T E ?s G' \<and> (\<forall>j \<in> state_lists s. G' j = G j) \<and> thinned E G G') \<and> kframe s ?s \<and> xItemValue (kl ?s) = xItemValue (kl s) \<and>
    (\<forall>y \<in> items T. pxContainer (kl ?s) y = (if y = ?e then 0 else pxContainer (kl s) y))"
  proof (cases "?l = 0")
    case True
    then show ?thesis using K kframe_refl thinned_refl [of E G G] by (auto simp: leave_event_def)
  next
    case False
    then have "?l \<in> event_lists E s" using kcore_task(5) [OF K t] by simp
    then have n: "?l \<notin> state_lists s" using kcoreD(2) [OF K] unfolding layout_def by blast
    then have "?l \<notin> ready_lists s" by (simp add: state_lists_def)
    note A = kcore_remove [OF K items_in(2) [OF t] refl False this]
    have "(G(?l := remove1 ?e (G ?l))) j = G j" if "j \<in> state_lists s" for j using n that by auto
    then show ?thesis using A False thinned_remove1 [of E G ?l ?e] by (auto simp: leave_event_def)
  qed
  then show "\<exists>G'. kcore T E ?s G' \<and> (\<forall>j \<in> state_lists s. G' j = G j) \<and> thinned E G G'" "kframe s ?s" "xItemValue (kl ?s) = xItemValue (kl s)"
    "\<And>y. y \<in> items T \<Longrightarrow> pxContainer (kl ?s) y = (if y = ?e then 0 else pxContainer (kl s) y)" by blast+
qed

section \<open>Suspension\<close>

text \<open>A task leaves all lists; then it may be put into a list of tasks that are neither ready nor delayed.\<close>

definition leave_lists :: "u32 \<Rightarrow> kernel \<Rightarrow> kernel" where
  "leave_lists t s = leave_event t (remove_from_ready t s)"

lemma leave_lists_spec:
  assumes W: "waiting T E s G" and t: "t \<in> T" and c: "pxContainer (kl s) (xStateListItem t) \<noteq> 0"
  defines "s' \<equiv> leave_lists t s"
  shows "\<exists>G'. waiting T E s' G'" "kframe s s'" "xItemValue (kl s') = xItemValue (kl s)"
    "\<And>y. y \<in> items T \<Longrightarrow> pxContainer (kl s') y = (if y \<in> {xStateListItem t, xEventListItem t} then 0 else pxContainer (kl s) y)"
proof -
  note D = waitingD [OF W]
  note K = D(2)
  let ?x = "xStateListItem t" and ?e = "xEventListItem t" and ?c = "pxContainer (kl s) (xStateListItem t)"
  note A = remove_state_kcore [OF K t refl c]
  let ?s1 = "remove_from_ready t s" and ?G1 = "G(?c := remove1 ?x (G ?c))"
  note B = leave_event_kcore [OF A(1) t, folded leave_lists_def, folded s'_def]
  obtain G2 where G2: "kcore T E s' G2" "\<And>j. j \<in> state_lists s \<Longrightarrow> G2 j = ?G1 j" "thinned E ?G1 G2"
    using B(1) unfolding kframe_fields [OF A(2)] by blast
  have ne: "?x \<noteq> xEventListItem u" if "u \<in> T" for u using layout_items [OF kcoreD(2) [OF K] t that] .
  show fr: "kframe s s'" by (rule kframe_trans [OF A(2) B(2)])
  show val: "xItemValue (kl s') = xItemValue (kl s)" using B(3) A(3) by simp
  show cont: "pxContainer (kl s') y = (if y \<in> {?x, ?e} then 0 else pxContainer (kl s) y)" if "y \<in> items T" for y
    unfolding B(4) [OF that] A(4) [OF that] by simp
  have sub: "set (G2 j) \<subseteq> set (G j)" if "j \<in> {pxDelayedTaskList s, pxOverflowDelayedTaskList s}" for j
  proof -
    have "j \<in> state_lists s" using that delayed_lists [OF K] by auto
    then show ?thesis using G2(2) set_remove1_subset [of ?x "G j"] by auto
  qed
  have "waiting T E s' G2"
  proof (rule waiting_moved [OF W G2(1) fr val sub thinned_trans [OF thinned_remove1 [of E G ?c ?x] G2(3)]])
    fix u assume u: "u \<in> T" "pxContainer (kl s') (xEventListItem u) \<in> event_lists E s"
    have "0 \<notin> event_lists E s" using rings_D(1) [OF kcoreD(1) [OF K]] by blast
    then have "pxContainer (kl s) (xEventListItem u) \<in> event_lists E s" "u \<noteq> t"
      using u(2) cont [OF items_in(2) [OF u(1)]] by (auto split: if_splits)
    then show "pxContainer (kl s') (xStateListItem u) \<in> state_lists s - ready_lists s"
      using D(5) [OF u(1)] cont [OF items_in(1) [OF u(1)]] layout_items [OF kcoreD(2) [OF K] u(1) t] by simp
  qed
  then show "\<exists>G'. waiting T E s' G'" by blast
qed

lemma park_spec:
  assumes W: "waiting T E s G" and t: "t \<in> T" and c: "pxContainer (kl s) (xStateListItem t) = 0" "pxContainer (kl s) (xEventListItem t) = 0"
    and l: "l \<in> {xSuspendedTaskList s, xTasksWaitingTermination s}"
  defines "s' \<equiv> s\<lparr>kl := vListInsertEnd l (xStateListItem t) (kl s)\<rparr>"
  shows "\<exists>G'. waiting T E s' G'" "kframe s s'" "xItemValue (kl s') = xItemValue (kl s)"
    "\<And>y. y \<in> items T \<Longrightarrow> pxContainer (kl s') y = (if y = xStateListItem t then l else pxContainer (kl s) y)"
proof -
  note D = waitingD [OF W]
  note K = D(2)
  let ?x = "xStateListItem t"
  let ?G = "G(l := ins_before (pxIndex (kl s) l) ?x (G l))"
  note C = insert_parked_kcore [OF K t c(1) l, folded s'_def]
  note S = parked_list [OF K l]
  show fr: "kframe s s'" by (rule C(2))
  show val: "xItemValue (kl s') = xItemValue (kl s)" using C(3) by (simp add: s'_def)
  show cont: "pxContainer (kl s') y = (if y = ?x then l else pxContainer (kl s) y)" if "y \<in> items T" for y
    using C(4) [OF that] by (simp add: s'_def)
  have sub: "set (?G j) \<subseteq> set (G j)" if "j \<in> {pxDelayedTaskList s, pxOverflowDelayedTaskList s}" for j using S(2) that by auto
  have th: "thinned E G ?G" by (rule thinned_refl) (use state_event_apart(1) [OF K] S(1) in auto)
  have "waiting T E s' ?G"
  proof (rule waiting_moved [OF W C(1) fr val sub th])
    fix u assume u: "u \<in> T" "pxContainer (kl s') (xEventListItem u) \<in> event_lists E s"
    have "xEventListItem u \<noteq> ?x" using layout_items [OF kcoreD(2) [OF K] t u(1)] by metis
    then show "pxContainer (kl s') (xStateListItem u) \<in> state_lists s - ready_lists s"
      using D(5) [OF u(1)] u(2) cont [OF items_in(2) [OF u(1)]] cont [OF items_in(1) [OF u(1)]] S(1) by simp
  qed
  then show "\<exists>G'. waiting T E s' G'" by blast
qed

lemma enter_ready_spec:
  assumes W: "waiting T E s G" and t: "t \<in> T" and c: "pxContainer (kl s) (xStateListItem t) = 0" "pxContainer (kl s) (xEventListItem t) = 0"
  defines "s' \<equiv> prvAddTaskToReadyList t s" and "l \<equiv> ready_list s (uxPriority s t)"
  shows "\<exists>G'. waiting T E s' G'" "kframe s s'" "xItemValue (kl s') = xItemValue (kl s)"
    "\<And>y. y \<in> items T \<Longrightarrow> pxContainer (kl s') y = (if y = xStateListItem t then l else pxContainer (kl s) y)"
proof -
  note D = waitingD [OF W]
  note K = D(2)
  let ?x = "xStateListItem t"
  note A = kcore_add_ready [OF K t c(1), folded s'_def l_def]
  let ?G = "G(l := ins_before (pxIndex (kl s) l) ?x (G l))"
  show "kframe s s'" "xItemValue (kl s') = xItemValue (kl s)" by (fact A(2), fact A(3))
  show cont: "pxContainer (kl s') y = (if y = ?x then l else pxContainer (kl s) y)" if "y \<in> items T" for y by (rule A(4) [OF that])
  have rl: "l \<in> ready_lists s" using kcore_task(1) [OF K t] by (simp add: ready_lists_def l_def)
  have sub: "set (?G j) \<subseteq> set (G j)" if "j \<in> {pxDelayedTaskList s, pxOverflowDelayedTaskList s}" for j using that delayed_lists [OF K] rl by auto
  have th: "thinned E G ?G" by (rule thinned_refl) (use state_event_apart(1) [OF K] rl in \<open>auto simp: state_lists_def\<close>)
  have "waiting T E s' ?G"
  proof (rule waiting_moved [OF W A(1-3) sub th])
    fix u assume u: "u \<in> T" "pxContainer (kl s') (xEventListItem u) \<in> event_lists E s"
    have ne: "xEventListItem u \<noteq> ?x" using layout_items [OF kcoreD(2) [OF K] t u(1)] by simp
    then have e: "pxContainer (kl s) (xEventListItem u) \<in> event_lists E s" using u cont [OF items_in(2) [OF u(1)]] by simp
    moreover have "0 \<notin> event_lists E s" using rings_D(1) [OF kcoreD(1) [OF K]] by blast
    ultimately have "u \<noteq> t" using c(2) by auto
    then show "pxContainer (kl s') (xStateListItem u) \<in> state_lists s - ready_lists s"
      using D(5) [OF u(1) e] cont [OF items_in(1) [OF u(1)]] by simp
  qed
  then show "\<exists>G'. waiting T E s' G'" by blast
qed

lemma make_ready_any:
  assumes W: "waiting T E s G" and t: "t \<in> T" and c: "pxContainer (kl s) (xStateListItem t) \<noteq> 0" "pxContainer (kl s) (xEventListItem t) = 0"
  defines "s' \<equiv> prvAddTaskToReadyList t (list_remove (xStateListItem t) s)"
  shows "\<exists>G'. waiting T E s' G'" "kframe s s'" "xItemValue (kl s') = xItemValue (kl s)"
    "\<And>y. y \<in> items T \<Longrightarrow> pxContainer (kl s') y = (if y = xStateListItem t then ready_list s (uxPriority s t) else pxContainer (kl s) y)"
proof -
  note K = waitingD(2) [OF W]
  note A = remove_state_kcore(4) [OF K t refl c(1)]
  have "pxContainer (kl (remove_from_ready t s)) (xEventListItem t) = 0" using A [OF items_in(2) [OF t]] c(2) by simp
  then have e: "leave_lists t s = remove_from_ready t s" by (simp add: leave_lists_def leave_event_def)
  note L = leave_lists_spec [OF W t c(1), unfolded e]
  let ?s1 = "remove_from_ready t s"
  note F = kframe_fields [OF L(2)]
  obtain G1 where W1: "waiting T E ?s1 G1" using L(1) by blast
  have z: "pxContainer (kl ?s1) (xStateListItem t) = 0" "pxContainer (kl ?s1) (xEventListItem t) = 0" using L(4) items_in [OF t] by simp_all
  have s': "s' = prvAddTaskToReadyList t ?s1" unfolding s'_def by (rule relist_ready)
  note B = enter_ready_spec [OF W1 t z, folded s', unfolded F]
  show "\<exists>G'. waiting T E s' G'" by (rule B(1))
  show "kframe s s'" by (rule kframe_trans [OF L(2) B(2)])
  show "xItemValue (kl s') = xItemValue (kl s)" using B(3) L(3) by simp
  show "pxContainer (kl s') y = (if y = xStateListItem t then ready_list s (uxPriority s t) else pxContainer (kl s) y)" if "y \<in> items T" for y
    using B(4) [OF that] L(4) [OF that] c(2) by simp
qed

definition suspend_lists :: "u32 \<Rightarrow> kernel \<Rightarrow> kernel" where
  "suspend_lists t s = (let s = leave_lists t s in s\<lparr>kl := vListInsertEnd (xSuspendedTaskList s) (xStateListItem t) (kl s)\<rparr>)"

lemma suspend_lists_spec:
  assumes W: "waiting T E s G" and t: "t \<in> T" and c: "pxContainer (kl s) (xStateListItem t) \<noteq> 0"
  defines "s' \<equiv> suspend_lists t s"
  shows "\<exists>G'. waiting T E s' G'" "kframe s s'" "xItemValue (kl s') = xItemValue (kl s)"
    "\<And>y. y \<in> items T \<Longrightarrow> pxContainer (kl s') y =
      (if y = xStateListItem t then xSuspendedTaskList s else if y = xEventListItem t then 0 else pxContainer (kl s) y)"
proof -
  note L = leave_lists_spec [OF W t c]
  let ?s = "leave_lists t s"
  obtain G1 where W1: "waiting T E ?s G1" using L(1) by blast
  have l: "xSuspendedTaskList ?s = xSuspendedTaskList s" by (rule kframe_fields(18) [OF L(2)])
  have z: "pxContainer (kl ?s) (xStateListItem t) = 0" "pxContainer (kl ?s) (xEventListItem t) = 0"
    using L(4) items_in [OF t] by simp_all
  have s': "s' = ?s\<lparr>kl := vListInsertEnd (xSuspendedTaskList s) (xStateListItem t) (kl ?s)\<rparr>" by (simp add: s'_def suspend_lists_def Let_def l)
  note P = park_spec [OF W1 t z insertI1, unfolded l, folded s']
  show "\<exists>G'. waiting T E s' G'" "kframe s s'" "xItemValue (kl s') = xItemValue (kl s)"
    using P(1) kframe_trans [OF L(2) P(2)] P(3) L(3) by simp_all
  show "pxContainer (kl s') y = (if y = xStateListItem t then xSuspendedTaskList s else if y = xEventListItem t then 0 else pxContainer (kl s) y)"
    if "y \<in> items T" for y using P(4) [OF that] L(4) [OF that] by simp
qed

section \<open>Blocking\<close>

text \<open>The running task blocks without an event: it enters a delayed list or the list of suspended tasks, and nothing else moves.\<close>

lemma block_waiting:
  assumes W: "waiting T E s G" and c: "pxCurrentTCB s \<in> T" "task_ready s (pxCurrentTCB s)" and n: "n \<noteq> 0"
  shows "\<exists>s' G'. prvAddCurrentTaskToDelayedList n indef s = Some s' \<and> waiting T E s' G' \<and>
    kframe (s\<lparr>xNextTaskUnblockTime := xNextTaskUnblockTime s'\<rparr>) s' \<and> status s' (pxCurrentTCB s) = block_status n indef \<and>
    pxContainer (kl s') (xStateListItem (pxCurrentTCB s)) \<in> {pxDelayedTaskList s, pxOverflowDelayedTaskList s, xSuspendedTaskList s} \<and>
    (\<forall>y \<in> items T. y \<noteq> xStateListItem (pxCurrentTCB s) \<longrightarrow>
      pxContainer (kl s') y = pxContainer (kl s) y \<and> xItemValue (kl s') y = xItemValue (kl s) y)"
proof -
  note D = waitingD [OF W]
  note K = D(2)
  let ?t = "pxCurrentTCB s" and ?x = "xStateListItem (pxCurrentTCB s)"
  have cx: "pxContainer (kl s) ?x = ready_list s (uxPriority s ?t)" using c(2) by (simp add: task_ready_def)
  have "\<exists>s' G'. prvAddCurrentTaskToDelayedList n indef s = Some s' \<and> kinv T E s' G' \<and>
    (if n = portMAX_DELAY \<and> indef then pxContainer (kl s') ?x = xSuspendedTaskList s' else sleeping s' ?t \<and> remaining s' ?t = n) \<and>
    kframe (s\<lparr>xNextTaskUnblockTime := xNextTaskUnblockTime s'\<rparr>) s' \<and>
    (\<forall>y \<in> items T. y \<noteq> ?x \<longrightarrow> pxContainer (kl s') y = pxContainer (kl s) y \<and> xItemValue (kl s') y = xItemValue (kl s) y) \<and>
    (\<forall>j \<in> event_lists E s. G' j = G j)"
  proof (cases "n = portMAX_DELAY \<and> indef")
    case True
    then show ?thesis using add_delayed_any [OF D(1) c(1) cx n] by (simp add: blocked_for_def)
  next
    case False
    show ?thesis unfolding if_not_P [OF False] using add_delayed_spec [OF D(1) c(1) cx n False] by blast
  qed
  then obtain s' G' where
    s': "prvAddCurrentTaskToDelayedList n indef s = Some s'" "kinv T E s' G'"
      "if n = portMAX_DELAY \<and> indef then pxContainer (kl s') ?x = xSuspendedTaskList s' else sleeping s' ?t \<and> remaining s' ?t = n"
      "kframe (s\<lparr>xNextTaskUnblockTime := xNextTaskUnblockTime s'\<rparr>) s'"
    and y: "\<And>y. y \<in> items T \<Longrightarrow> y \<noteq> ?x \<Longrightarrow> pxContainer (kl s') y = pxContainer (kl s) y \<and> xItemValue (kl s') y = xItemValue (kl s) y"
    and g: "\<And>j. j \<in> event_lists E s \<Longrightarrow> G' j = G j" by blast
  note F = kframe_fields [OF s'(4), simplified]
  have K': "kcore T E s' G'" using s'(2) by (simp add: kinv_def)
  have sl: "state_lists s' = state_lists s" "ready_lists s' = ready_lists s" "event_lists E s' = event_lists E s"
    using F by (simp_all add: state_lists_def ready_lists_def ready_list_def event_lists_def)
  have where_to: "pxContainer (kl s') ?x \<in> {pxDelayedTaskList s, pxOverflowDelayedTaskList s, xSuspendedTaskList s}"
    using s'(3) F by (auto simp: sleeping_def split: if_splits)
  then have st: "pxContainer (kl s') ?x \<in> state_lists s - ready_lists s"
    using delayed_lists [OF K] suspended_list [OF K] by auto
  have ev: "pxContainer (kl s') (xEventListItem u) = pxContainer (kl s) (xEventListItem u)" if "u \<in> T" for u
    using y [OF items_in(2) [OF that]] layout_items [OF kcoreD(2) [OF K] c(1) that] by metis
  have "event_order T E s' G'"
  proof -
    have same: "map (xItemValue (kl s')) (G j) = map (xItemValue (kl s)) (G j)" if j: "j \<in> E" for j
    proof (rule map_cong [OF refl])
      fix z assume z: "z \<in> set (G j)"
      have ju: "j \<in> state_lists s \<union> event_lists E s" using j by (simp add: event_lists_def)
      note zc = rings_container [OF kcoreD(1) [OF K] ju z]
      have "ready_list s (uxPriority s ?t) \<in> state_lists s" using kcore_task(1) [OF K c(1)] by (simp add: state_lists_def ready_lists_def)
      then have "z \<noteq> ?x" using zc cx state_event_apart(1) [OF K j] by auto
      then show "xItemValue (kl s') z = xItemValue (kl s) z" using y zc by blast
    qed
    have "waiting_order s' G' j" if j: "j \<in> E" for j
    proof -
      have e: "G' j = G j" using g j by (simp add: event_lists_def)
      show ?thesis unfolding waiting_order_def e same [OF j] using D(4) j by (simp only: event_order_def waiting_order_def)
    qed
    moreover have "xItemValue (kl s') (xEventListItem u) = 8 - uxPriority s' u" if u: "u \<in> T" for u
      using y [OF items_in(2) [OF u]] layout_items [OF kcoreD(2) [OF K] c(1) u] D(4) u F by (simp add: event_order_def)
    ultimately show ?thesis by (simp add: event_order_def)
  qed
  moreover have "pxContainer (kl s') (xStateListItem u) \<in> state_lists s' - ready_lists s'"
    if u: "u \<in> T" "pxContainer (kl s') (xEventListItem u) \<in> event_lists E s'" for u
  proof (cases "u = ?t")
    case True
    then show ?thesis using st sl by simp
  next
    case False
    then show ?thesis using u ev [OF u(1)] D(5) [OF u(1)] y [OF items_in(1) [OF u(1)]] sl by simp
  qed
  ultimately have W': "waiting T E s' G'" using s'(2) by (simp add: waiting_def)
  have "status s' ?t = block_status n indef" by (rule blocked_status [OF s'(2) c(1) s'(3)])
  then show ?thesis using s'(1,4) W' where_to y by blast
qed

text \<open>Notification fields and base priorities are no part of the invariant of the lists.\<close>

lemma waiting_notify:
  "waiting T E (s\<lparr>ucNotifyState := f\<rparr>) G = waiting T E s G" "waiting T E (s\<lparr>ulNotifiedValue := g\<rparr>) G = waiting T E s G"
  "quiet T (s\<lparr>ucNotifyState := f\<rparr>) = quiet T s" "quiet T (s\<lparr>ulNotifiedValue := g\<rparr>) = quiet T s"
  by (simp_all add: waiting_def kinv_def kcore_def ktime_def layout_def state_lists_def event_lists_def ready_lists_def ready_list_def
      waiting_order_def event_order_def quiet_def)

section \<open>Priorities\<close>

lemma event_value_free:
  assumes W: "waiting T E s G" and t: "t \<in> T"
  shows "xItemValue (kl s) (xEventListItem t) AND taskEVENT_LIST_ITEM_VALUE_IN_USE = 0"
proof -
  have "xItemValue (kl s) (xEventListItem t) = 8 - uxPriority s t" using waitingD(4) [OF W] t by (simp add: event_order_def)
  moreover have "(8 - q) AND 0x80000000 = 0" if "q < 8" for q :: u32
  proof -
    have "8 - q \<in> {1, 2, 3, 4, 5, 6, 7, 8}" using that by (simp add: word_less_nat_alt) (unat_arith)
    then show ?thesis by auto
  qed
  ultimately show ?thesis using kcore_task(1) [OF waitingD(2) [OF W] t] by simp
qed

text \<open>For a task that has not inherited a priority the call is a change of both priorities.\<close>

lemma priority_set_reprioritise:
  assumes W: "waiting T E s G" and t: "prvGetTCBFromHandle h s = t" "t \<in> T" and b: "uxBasePriority s t = uxPriority s t"
    and p: "p < 8" "p \<noteq> uxPriority s t"
  defines "s1 \<equiv> (reprioritise t p (8 - p) s)\<lparr>uxBasePriority := (uxBasePriority s)(t := p)\<rparr>"
  shows "vTaskPrioritySet h p s = (if priority_yield t p s then vTaskSwitchContext s1 else Some s1)"
proof -
  note K = waitingD(2) [OF W]
  let ?x = "xStateListItem t" and ?l = "ready_list s (uxPriority s t)" and ?f = "(uxBasePriority s)(t := p)"
  let ?s2 = "set_event_value t (8 - p) ((set_priority t p s)\<lparr>uxBasePriority := ?f\<rparr>)"
  have cap: "(if configMAX_PRIORITIES \<le> p then configMAX_PRIORITIES - 1 else p) = p" using p(1) leD by auto
  have rl: "ready_list ?s2 = ready_list s" by (simp add: set_event_value_def set_priority_def ready_list_def fun_eq_iff)
  have cont: "pxContainer (kl ?s2) ?x = pxContainer (kl s) ?x"
    by (simp add: set_event_value_def set_priority_def listSET_LIST_ITEM_VALUE_def)
  have main: "(if listIS_CONTAINED_WITHIN (ready_list ?s2 (uxPriority s t)) ?x (kl ?s2)
      then let (left, l) = uxListRemove ?x (kl ?s2); u = ?s2\<lparr>kl := l\<rparr>;
               u = (if left = 0 then portRESET_READY_PRIORITY (uxPriority s t) u else u)
           in prvAddTaskToReadyList t u
      else ?s2) = s1"
  proof (cases "task_ready s t")
    case True
    obtain left k where k: "uxListRemove ?x (kl s) = (left, k)" by fastforce
    have u: "uxListRemove ?x (kl ?s2) = (left, listSET_LIST_ITEM_VALUE (xEventListItem t) (8 - p) k)"
      using uxListRemove_value [of ?x "xEventListItem t" "8 - p" "kl s"] by (simp add: k set_event_value_def set_priority_def)
    show ?thesis
      unfolding listIS_CONTAINED_WITHIN_def rl cont u s1_def reprioritise_def
      using True by (simp add: task_ready_def leave_ready_def k set_event_value_def set_priority_def portRESET_READY_PRIORITY_def Let_def
          prvAddTaskToReadyList_def taskRECORD_READY_PRIORITY_def ready_list_def)
  next
    case False
    then show ?thesis
      unfolding listIS_CONTAINED_WITHIN_def rl cont s1_def reprioritise_def
      by (simp add: task_ready_def set_event_value_def set_priority_def)
  qed
  have "xItemValue (kl ((set_priority t p s)\<lparr>uxBasePriority := ?f\<rparr>)) (xEventListItem t) AND taskEVENT_LIST_ITEM_VALUE_IN_USE = 0"
    using event_value_free [OF W t(2)] by (simp add: set_priority_def)
  then have free: "(xItemValue (kl ((set_priority t p s)\<lparr>uxBasePriority := ?f\<rparr>)) (xEventListItem t) AND taskEVENT_LIST_ITEM_VALUE_IN_USE = 0) = True" by simp
  have bp: "uxBasePriority (set_priority t p s) = uxBasePriority s" by (simp add: set_priority_def)
  have np: "(uxPriority s t \<noteq> p) = True" using p(2) by auto
  show ?thesis
    unfolding vTaskPrioritySet_def Let_def cap t(1) b np refl [THEN eqTrueI] if_True bp free
    using main [unfolded Let_def] by simp
qed

end
