(* ===== verification/Rtos_Groups.thy ===== *)
theory Rtos_Groups
  imports Rtos_Control
begin

unbundle bit_operations_syntax

text \<open>
  Event groups, \<^verbatim>\<open>src/ns_guest/lib/freertos/event_groups.c\<close>, and the functions of \<^verbatim>\<open>tasks.c\<close> they rest on: tasks wait until
  some or all of the bits they name are set. While a task waits, the value of its event item holds these bits and how it waits,
  so the lists of waiting tasks are not in order of priority. A group is the address of its structure, with its list at offset 4.
  The assertions are defined away, static allocation is off and the trace facility on; \<open>env\<close> is what happens while other tasks run, from the
  point where the scheduler is resumed or the task yields until the function goes on.
\<close>

section \<open>Unordered event lists\<close>

definition vTaskPlaceOnUnorderedEventList :: "u32 \<Rightarrow> u32 \<Rightarrow> u32 \<Rightarrow> kernel \<Rightarrow> kernel option" where
  "vTaskPlaceOnUnorderedEventList pxEventList xItemVal xTicksToWait s =
     (let s = set_event_value (pxCurrentTCB s) (xItemVal OR taskEVENT_LIST_ITEM_VALUE_IN_USE) s;
          s = s\<lparr>kl := vListInsertEnd pxEventList (xEventListItem (pxCurrentTCB s)) (kl s)\<rparr>
      in prvAddCurrentTaskToDelayedList xTicksToWait True s)"

definition vTaskRemoveFromUnorderedEventList :: "u32 \<Rightarrow> u32 \<Rightarrow> kernel \<Rightarrow> kernel" where
  "vTaskRemoveFromUnorderedEventList pxEventListItem xItemVal s =
     (let s = s\<lparr>kl := listSET_LIST_ITEM_VALUE pxEventListItem (xItemVal OR taskEVENT_LIST_ITEM_VALUE_IN_USE) (kl s)\<rparr>;
          pxUnblockedTCB = pvOwner (kl s) pxEventListItem;
          s = list_remove pxEventListItem s;
          s = list_remove (xStateListItem pxUnblockedTCB) s;
          s = prvAddTaskToReadyList pxUnblockedTCB s
      in if uxPriority s pxUnblockedTCB > uxPriority s (pxCurrentTCB s) then s\<lparr>xYieldPending := True\<rparr> else s)"

definition uxTaskResetEventItemValue :: "kernel \<Rightarrow> u32 \<times> kernel" where
  "uxTaskResetEventItemValue s =
     (let t = pxCurrentTCB s; uxReturn = xItemValue (kl s) (xEventListItem t)
      in (uxReturn, set_event_value t (configMAX_PRIORITIES - uxPriority s t) s))"

definition vTaskSetTimeOutState :: "kernel \<Rightarrow> TimeOut" where
  "vTaskSetTimeOutState s = \<lparr>xOverflowCount = xNumOfOverflows s, xTimeOnEntering = xTickCount s\<rparr>"

section \<open>The groups\<close>

abbreviation eventCLEAR_EVENTS_ON_EXIT_BIT :: u32 where "eventCLEAR_EVENTS_ON_EXIT_BIT \<equiv> 0x01000000"
abbreviation eventUNBLOCKED_DUE_TO_BIT_SET :: u32 where "eventUNBLOCKED_DUE_TO_BIT_SET \<equiv> 0x02000000"
abbreviation eventWAIT_FOR_ALL_BITS :: u32 where "eventWAIT_FOR_ALL_BITS \<equiv> 0x04000000"
abbreviation eventEVENT_BITS_CONTROL_BYTES :: u32 where "eventEVENT_BITS_CONTROL_BYTES \<equiv> 0xff000000"
abbreviation sizeof_EventGroup_t :: u32 where "sizeof_EventGroup_t \<equiv> 28"

text \<open>The fields of all groups beside the kernel, the heap and the queues.\<close>

record group_system =
  sys :: system
  uxEventBits :: "u32 \<Rightarrow> u32"
  uxEventGroupNumber :: "u32 \<Rightarrow> u32"

definition xTasksWaitingForBits :: "u32 \<Rightarrow> u32" where
  "xTasksWaitingForBits g = g + 4"

definition set_bits :: "u32 \<Rightarrow> u32 \<Rightarrow> group_system \<Rightarrow> group_system" where
  "set_bits g v s = s\<lparr>uxEventBits := (uxEventBits s)(g := v)\<rparr>"

definition with_kernel :: "kernel \<Rightarrow> group_system \<Rightarrow> group_system" where
  "with_kernel k s = s\<lparr>sys := (sys s)\<lparr>kern := k\<rparr>\<rparr>"

abbreviation gkern :: "group_system \<Rightarrow> kernel" where "gkern s \<equiv> kern (sys s)"

text \<open>Resuming the scheduler, and the switch that follows when the task has blocked and it has not happened yet.\<close>

definition group_resume :: "group_system \<Rightarrow> (bool \<times> group_system) option" where
  "group_resume s = map_option (map_prod id (\<lambda>k. with_kernel k s)) (xTaskResumeAll (gkern s))"

definition group_resume_yield :: "group_system \<Rightarrow> group_system option" where
  "group_resume_yield s =
     do { (xAlreadyYielded, s) \<leftarrow> group_resume s;
          if \<not> xAlreadyYielded then map_option (\<lambda>k. with_kernel k s) (vTaskSwitchContext (gkern s)) else Some s }"

definition group_suspend :: "group_system \<Rightarrow> group_system" where
  "group_suspend s = with_kernel (vTaskSuspendAll (gkern s)) s"

definition xEventGroupCreate :: "u32 \<Rightarrow> u32 \<Rightarrow> group_system \<Rightarrow> (u32 \<times> group_system) option" where
  "xEventGroupCreate xStart ucHeap s =
     do { (pxEventBits, h) \<leftarrow> pvPortMalloc xStart ucHeap sizeof_EventGroup_t (heap4 (sys s));
          let s = s\<lparr>sys := (sys s)\<lparr>heap4 := h\<rparr>\<rparr>;
          let s = (if pxEventBits \<noteq> NULL
                   then let s = set_bits pxEventBits 0 s
                        in with_kernel ((gkern s)\<lparr>kl := vListInitialise (xTasksWaitingForBits pxEventBits) (kl (gkern s))\<rparr>) s
                   else s);
          Some (pxEventBits, s) }"

section \<open>Setting and clearing bits\<close>

text \<open>Whether the bits a task waits for, the value of its event item, are set.\<close>

definition match_found :: "u32 \<Rightarrow> u32 \<Rightarrow> bool" where
  "match_found bits v =
     (let uxControlBits = v AND eventEVENT_BITS_CONTROL_BYTES; uxBitsWaitedFor = v AND NOT eventEVENT_BITS_CONTROL_BYTES
      in if uxControlBits AND eventWAIT_FOR_ALL_BITS = 0 then uxBitsWaitedFor AND bits \<noteq> 0 else uxBitsWaitedFor AND bits = uxBitsWaitedFor)"

text \<open>The loop over the waiting tasks: \<open>bits\<close> is the value of the group.\<close>

partial_function (option) set_bits_loop :: "u32 \<Rightarrow> u32 \<Rightarrow> u32 \<Rightarrow> u32 \<Rightarrow> kernel \<Rightarrow> (u32 \<times> kernel) option" where
  "set_bits_loop pxListEnd bits pxListItem uxBitsToClear s =
     (if pxListItem = pxListEnd then Some (uxBitsToClear, s)
      else let item_next = pxNext (kl s) pxListItem;
               v = xItemValue (kl s) pxListItem;
               uxBitsToClear = (if match_found bits v \<and> (v AND eventEVENT_BITS_CONTROL_BYTES) AND eventCLEAR_EVENTS_ON_EXIT_BIT \<noteq> 0
                                then uxBitsToClear OR (v AND NOT eventEVENT_BITS_CONTROL_BYTES) else uxBitsToClear);
               s = (if match_found bits v
                    then vTaskRemoveFromUnorderedEventList pxListItem (bits OR eventUNBLOCKED_DUE_TO_BIT_SET) s else s)
           in set_bits_loop pxListEnd bits item_next uxBitsToClear s)"

definition xEventGroupSetBits :: "(group_system \<Rightarrow> group_system) \<Rightarrow> u32 \<Rightarrow> u32 \<Rightarrow> group_system \<Rightarrow> (u32 \<times> group_system) option" where
  "xEventGroupSetBits env g uxBitsToSet s =
     do { let pxList = xTasksWaitingForBits g;
          let s = group_suspend s;
          let pxListItem = listGET_HEAD_ENTRY pxList (kl (gkern s));
          let s = set_bits g (uxEventBits s g OR uxBitsToSet) s;
          (uxBitsToClear, k) \<leftarrow> set_bits_loop (xListEnd pxList) (uxEventBits s g) pxListItem 0 (gkern s);
          let s = with_kernel k s;
          let s = set_bits g (uxEventBits s g AND NOT uxBitsToClear) s;
          (r, s) \<leftarrow> group_resume s;
          let s = env s;
          Some (uxEventBits s g, s) }"

definition xEventGroupClearBits :: "u32 \<Rightarrow> u32 \<Rightarrow> group_system \<Rightarrow> u32 \<times> group_system" where
  "xEventGroupClearBits g uxBitsToClear s =
     (let uxReturn = uxEventBits s g in (uxReturn, set_bits g (uxEventBits s g AND NOT uxBitsToClear) s))"

definition xEventGroupGetBitsFromISR :: "u32 \<Rightarrow> group_system \<Rightarrow> u32" where
  "xEventGroupGetBitsFromISR g s = uxEventBits s g"

definition vEventGroupSetBitsCallback :: "(group_system \<Rightarrow> group_system) \<Rightarrow> u32 \<Rightarrow> u32 \<Rightarrow> group_system \<Rightarrow> group_system option" where
  "vEventGroupSetBitsCallback env pvEventGroup ulBitsToSet s = map_option snd (xEventGroupSetBits env pvEventGroup ulBitsToSet s)"

definition vEventGroupClearBitsCallback :: "u32 \<Rightarrow> u32 \<Rightarrow> group_system \<Rightarrow> group_system" where
  "vEventGroupClearBitsCallback pvEventGroup ulBitsToClear s = snd (xEventGroupClearBits pvEventGroup ulBitsToClear s)"

definition uxEventGroupGetNumber :: "u32 \<Rightarrow> group_system \<Rightarrow> u32" where
  "uxEventGroupGetNumber xEventGroup s = (if xEventGroup = NULL then 0 else uxEventGroupNumber s xEventGroup)"

definition vEventGroupSetNumber :: "u32 \<Rightarrow> u32 \<Rightarrow> group_system \<Rightarrow> group_system" where
  "vEventGroupSetNumber xEventGroup n s = s\<lparr>uxEventGroupNumber := (uxEventGroupNumber s)(xEventGroup := n)\<rparr>"

section \<open>Waiting for bits\<close>

definition prvTestWaitCondition :: "u32 \<Rightarrow> u32 \<Rightarrow> bool \<Rightarrow> bool" where
  "prvTestWaitCondition uxCurrentEventBits uxBitsToWaitFor xWaitForAllBits =
     (if \<not> xWaitForAllBits then uxCurrentEventBits AND uxBitsToWaitFor \<noteq> 0
      else uxCurrentEventBits AND uxBitsToWaitFor = uxBitsToWaitFor)"

definition wait_control_bits :: "bool \<Rightarrow> bool \<Rightarrow> u32" where
  "wait_control_bits xClearOnExit xWaitForAllBits =
     (let uxControlBits = 0;
          uxControlBits = (if xClearOnExit then uxControlBits OR eventCLEAR_EVENTS_ON_EXIT_BIT else uxControlBits)
      in if xWaitForAllBits then uxControlBits OR eventWAIT_FOR_ALL_BITS else uxControlBits)"

text \<open>The first part of a wait, up to the switch: the value to return if the time to wait, the second component, is zero.\<close>

definition wait_bits_enter :: "u32 \<Rightarrow> u32 \<Rightarrow> bool \<Rightarrow> bool \<Rightarrow> u32 \<Rightarrow> group_system \<Rightarrow> (u32 \<times> u32 \<times> group_system) option" where
  "wait_bits_enter g uxBitsToWaitFor xClearOnExit xWaitForAllBits xTicksToWait s =
     do { let s = group_suspend s;
          let uxCurrentEventBits = uxEventBits s g;
          (uxReturn, xTicksToWait, s) \<leftarrow>
            (if prvTestWaitCondition uxCurrentEventBits uxBitsToWaitFor xWaitForAllBits
             then Some (uxCurrentEventBits, 0, if xClearOnExit then set_bits g (uxEventBits s g AND NOT uxBitsToWaitFor) s else s)
             else if xTicksToWait = 0 then Some (uxCurrentEventBits, 0, s)
             else do { k \<leftarrow> vTaskPlaceOnUnorderedEventList (xTasksWaitingForBits g)
                              (uxBitsToWaitFor OR wait_control_bits xClearOnExit xWaitForAllBits) xTicksToWait (gkern s);
                       Some (0, xTicksToWait, with_kernel k s) });
          if xTicksToWait \<noteq> 0 then do { s \<leftarrow> group_resume_yield s; Some (uxReturn, xTicksToWait, s) }
          else do { (r, s) \<leftarrow> group_resume s; Some (uxReturn, xTicksToWait, s) } }"

text \<open>The part after the task has run again.\<close>

definition wait_bits_exit :: "u32 \<Rightarrow> u32 \<Rightarrow> bool \<Rightarrow> bool \<Rightarrow> group_system \<Rightarrow> u32 \<times> group_system" where
  "wait_bits_exit g uxBitsToWaitFor xClearOnExit xWaitForAllBits s =
     (let (uxReturn, k) = uxTaskResetEventItemValue (gkern s);
          s = with_kernel k s;
          (uxReturn, s) =
            (if uxReturn AND eventUNBLOCKED_DUE_TO_BIT_SET = 0
             then let uxReturn = uxEventBits s g
                  in (uxReturn, if prvTestWaitCondition uxReturn uxBitsToWaitFor xWaitForAllBits \<and> xClearOnExit
                                then set_bits g (uxEventBits s g AND NOT uxBitsToWaitFor) s else s)
             else (uxReturn, s))
      in (uxReturn AND NOT eventEVENT_BITS_CONTROL_BYTES, s))"

definition xEventGroupWaitBits ::
  "(group_system \<Rightarrow> group_system) \<Rightarrow> u32 \<Rightarrow> u32 \<Rightarrow> bool \<Rightarrow> bool \<Rightarrow> u32 \<Rightarrow> group_system \<Rightarrow> (u32 \<times> group_system) option" where
  "xEventGroupWaitBits env g uxBitsToWaitFor xClearOnExit xWaitForAllBits xTicksToWait s =
     do { (uxReturn, xTicksToWait, s) \<leftarrow> wait_bits_enter g uxBitsToWaitFor xClearOnExit xWaitForAllBits xTicksToWait s;
          let s = env s;
          Some (if xTicksToWait \<noteq> 0 then wait_bits_exit g uxBitsToWaitFor xClearOnExit xWaitForAllBits s else (uxReturn, s)) }"

text \<open>A rendezvous; the inner call resumes a scheduler that stays suspended, so nothing else runs before it returns.\<close>

definition sync_enter :: "u32 \<Rightarrow> u32 \<Rightarrow> u32 \<Rightarrow> u32 \<Rightarrow> group_system \<Rightarrow> (u32 \<times> u32 \<times> group_system) option" where
  "sync_enter g uxBitsToSet uxBitsToWaitFor xTicksToWait s =
     do { let s = group_suspend s;
          let uxOriginalBitValue = uxEventBits s g;
          (r, s) \<leftarrow> xEventGroupSetBits id g uxBitsToSet s;
          (uxReturn, xTicksToWait, s) \<leftarrow>
            (if (uxOriginalBitValue OR uxBitsToSet) AND uxBitsToWaitFor = uxBitsToWaitFor
             then Some (uxOriginalBitValue OR uxBitsToSet, 0, set_bits g (uxEventBits s g AND NOT uxBitsToWaitFor) s)
             else if xTicksToWait \<noteq> 0
             then do { k \<leftarrow> vTaskPlaceOnUnorderedEventList (xTasksWaitingForBits g)
                              (uxBitsToWaitFor OR eventCLEAR_EVENTS_ON_EXIT_BIT OR eventWAIT_FOR_ALL_BITS) xTicksToWait (gkern s);
                       Some (0, xTicksToWait, with_kernel k s) }
             else Some (uxEventBits s g, xTicksToWait, s));
          if xTicksToWait \<noteq> 0 then do { s \<leftarrow> group_resume_yield s; Some (uxReturn, xTicksToWait, s) }
          else do { (r, s) \<leftarrow> group_resume s; Some (uxReturn, xTicksToWait, s) } }"

definition sync_exit :: "u32 \<Rightarrow> u32 \<Rightarrow> group_system \<Rightarrow> u32 \<times> group_system" where
  "sync_exit g uxBitsToWaitFor s =
     (let (uxReturn, k) = uxTaskResetEventItemValue (gkern s);
          s = with_kernel k s;
          (uxReturn, s) =
            (if uxReturn AND eventUNBLOCKED_DUE_TO_BIT_SET = 0
             then let uxReturn = uxEventBits s g
                  in (uxReturn, if uxReturn AND uxBitsToWaitFor = uxBitsToWaitFor
                                then set_bits g (uxEventBits s g AND NOT uxBitsToWaitFor) s else s)
             else (uxReturn, s))
      in (uxReturn AND NOT eventEVENT_BITS_CONTROL_BYTES, s))"

definition xEventGroupSync ::
  "(group_system \<Rightarrow> group_system) \<Rightarrow> u32 \<Rightarrow> u32 \<Rightarrow> u32 \<Rightarrow> u32 \<Rightarrow> group_system \<Rightarrow> (u32 \<times> group_system) option" where
  "xEventGroupSync env g uxBitsToSet uxBitsToWaitFor xTicksToWait s =
     do { (uxReturn, xTicksToWait, s) \<leftarrow> sync_enter g uxBitsToSet uxBitsToWaitFor xTicksToWait s;
          let s = env s;
          Some (if xTicksToWait \<noteq> 0 then sync_exit g uxBitsToWaitFor s else (uxReturn, s)) }"

section \<open>Deleting a group\<close>

partial_function (option) release_waiters :: "u32 \<Rightarrow> kernel \<Rightarrow> kernel option" where
  "release_waiters pxTasksWaitingForBits s =
     (if listCURRENT_LIST_LENGTH pxTasksWaitingForBits (kl s) > 0
      then release_waiters pxTasksWaitingForBits
             (vTaskRemoveFromUnorderedEventList (pxNext (kl s) (xListEnd pxTasksWaitingForBits)) eventUNBLOCKED_DUE_TO_BIT_SET s)
      else Some s)"

definition vEventGroupDelete :: "u32 \<Rightarrow> u32 \<Rightarrow> group_system \<Rightarrow> group_system option" where
  "vEventGroupDelete xStart g s =
     do { let s = group_suspend s;
          k \<leftarrow> release_waiters (xTasksWaitingForBits g) (gkern s);
          let s = with_kernel k s;
          h \<leftarrow> vPortFree xStart g (heap4 (sys s));
          (r, s) \<leftarrow> group_resume (s\<lparr>sys := (sys s)\<lparr>heap4 := h\<rparr>\<rparr>);
          Some s }"

section \<open>Waking from an unordered list\<close>

lemma control_free: "v AND NOT eventEVENT_BITS_CONTROL_BYTES = take_bit 24 v"
proof -
  have "NOT eventEVENT_BITS_CONTROL_BYTES = mask 24" by (simp add: mask_eq_exp_minus_1)
  then show ?thesis by (simp only: take_bit_eq_mask)
qed

lemma control_flag:
  "(v AND eventEVENT_BITS_CONTROL_BYTES) AND eventWAIT_FOR_ALL_BITS = 0 \<longleftrightarrow> \<not> bit v 26"
  "(v AND eventEVENT_BITS_CONTROL_BYTES) AND eventCLEAR_EVENTS_ON_EXIT_BIT = 0 \<longleftrightarrow> \<not> bit v 24"
  "v AND eventUNBLOCKED_DUE_TO_BIT_SET = 0 \<longleftrightarrow> \<not> bit v 25"
proof -
  have "(v AND eventEVENT_BITS_CONTROL_BYTES) AND eventWAIT_FOR_ALL_BITS = v AND 2 ^ 26"
    "(v AND eventEVENT_BITS_CONTROL_BYTES) AND eventCLEAR_EVENTS_ON_EXIT_BIT = v AND 2 ^ 24"
    "v AND eventUNBLOCKED_DUE_TO_BIT_SET = v AND 2 ^ 25"
    by (simp_all add: and.assoc)
  then show "(v AND eventEVENT_BITS_CONTROL_BYTES) AND eventWAIT_FOR_ALL_BITS = 0 \<longleftrightarrow> \<not> bit v 26"
  "(v AND eventEVENT_BITS_CONTROL_BYTES) AND eventCLEAR_EVENTS_ON_EXIT_BIT = 0 \<longleftrightarrow> \<not> bit v 24"
  "v AND eventUNBLOCKED_DUE_TO_BIT_SET = 0 \<longleftrightarrow> \<not> bit v 25"
    by (simp_all only: and_exp_eq_0_iff_not_bit)
qed

text \<open>What a value of an event item says, as sets of bits.\<close>

definition awaited :: "u32 \<Rightarrow> nat set" where
  "awaited v = {i. i < 24 \<and> bit v i}"

definition satisfied :: "u32 \<Rightarrow> u32 \<Rightarrow> bool" where
  "satisfied v bits \<longleftrightarrow> (if bit v 26 then awaited v \<subseteq> {i. bit bits i} else awaited v \<inter> {i. bit bits i} \<noteq> {})"

lemma and_zero_iff: "(x :: u32) AND y = 0 \<longleftrightarrow> (\<forall>i. bit x i \<longrightarrow> \<not> bit y i)"
proof
  assume "x AND y = 0"
  then have "\<not> bit (x AND y) i" for i by simp
  then show "\<forall>i. bit x i \<longrightarrow> \<not> bit y i" by (simp add: bit_and_iff)
qed (auto intro!: bit_eqI simp: bit_and_iff)

lemma and_same_iff: "(x :: u32) AND y = x \<longleftrightarrow> (\<forall>i. bit x i \<longrightarrow> bit y i)"
proof
  assume "x AND y = x"
  then have "bit (x AND y) i = bit x i" for i by simp
  then show "\<forall>i. bit x i \<longrightarrow> bit y i" unfolding bit_and_iff by blast
qed (auto intro!: bit_eqI simp: bit_and_iff)

lemma match_found_satisfied: "match_found bits v \<longleftrightarrow> satisfied v bits"
proof -
  have "take_bit 24 v AND bits = 0 \<longleftrightarrow> awaited v \<inter> {i. bit bits i} = {}" "take_bit 24 v AND bits = take_bit 24 v \<longleftrightarrow> awaited v \<subseteq> {i. bit bits i}"
    by (auto simp: and_zero_iff and_same_iff bit_take_bit_iff awaited_def)
  then show ?thesis unfolding match_found_def Let_def control_free control_flag satisfied_def by simp
qed

lemma blocking_set_value:
  assumes W: "blocking T E s G" and t: "t \<in> T"
  shows "blocking T E (set_event_value t v s) G"
proof -
  note D = blockingD [OF W]
  note V = set_event_value_kcore [OF D(2) t, of v]
  note F = kframe_fields [OF V(2)]
  have "x \<noteq> xEventListItem t" if x: "x \<in> set (G d)" "d \<in> {pxDelayedTaskList s, pxOverflowDelayedTaskList s}" for x d
  proof -
    have ds: "d \<in> state_lists s" using delayed_in_state [OF D(2) x(2)] .
    then have "pxContainer (kl s) x = d" using rings_container [OF kcoreD(1) [OF D(2)] _ x(1)] by blast
    moreover have "d \<notin> insert 0 (event_lists E s)"
      using ds kcoreD(2) [OF D(2)] rings_D(1) [OF kcoreD(1) [OF D(2)]] unfolding layout_def by auto
    ultimately show ?thesis using kcore_task(5) [OF D(2) t] by auto
  qed
  then have "ktime (set_event_value t v s) G" using D(3) unfolding ktime_def F V(4) by auto
  then show ?thesis using V(1) D(4) unfolding blocking_def kinv_def F V(3) by blast
qed

lemma blocking_yield: "blocking T E (s\<lparr>xYieldPending := y\<rparr>) G = blocking T E s G"
  by (simp add: blocking_def kinv_cong event_lists_def state_lists_def ready_lists_def ready_list_def)

text \<open>A waiting task leaves an unordered list and is told why in the value of its event item.\<close>

lemma unordered_remove:
  fixes v :: u32
  assumes W: "blocking T E s G" and t: "t \<in> T" and c: "pxContainer (kl s) (xEventListItem t) = l" and l: "l \<in> event_lists E s"
  defines "s' \<equiv> vTaskRemoveFromUnorderedEventList (xEventListItem t) v s"
  shows "\<exists>G'. blocking T E s' G' \<and> G' l = remove1 (xEventListItem t) (G l) \<and> (\<forall>j \<in> event_lists E s - {l}. G' j = G j)"
    "kframe (s\<lparr>xYieldPending := xYieldPending s \<or> uxPriority s t > uxPriority s (pxCurrentTCB s)\<rparr>) s'"
    "xItemValue (kl s') = (xItemValue (kl s))(xEventListItem t := v OR taskEVENT_LIST_ITEM_VALUE_IN_USE)"
    "\<And>y. y \<in> items T \<Longrightarrow> pxContainer (kl s') y =
      (if y = xStateListItem t then ready_list s (uxPriority s t) else if y = xEventListItem t then 0 else pxContainer (kl s) y)"
proof -
  let ?e = "xEventListItem t" and ?b = "uxPriority s t > uxPriority s (pxCurrentTCB s)"
  define s0 where "s0 = set_event_value t (v OR taskEVENT_LIST_ITEM_VALUE_IN_USE) s"
  note V = set_event_value_kcore [OF blockingD(2) [OF W] t, of "v OR taskEVENT_LIST_ITEM_VALUE_IN_USE", folded s0_def]
  have W0: "blocking T E s0 G" unfolding s0_def by (rule blocking_set_value [OF W t])
  note F0 = kframe_fields [OF V(2)]
  have c0: "pxContainer (kl s0) ?e = l" and l0: "l \<in> event_lists E s0" using c l by (simp_all add: V(3) F0)
  define s1 where "s1 = prvAddTaskToReadyList t (list_remove (xStateListItem t) (list_remove ?e s0))"
  note M = release_blocked [OF W0 t c0 l0, folded s1_def]
  note fr = kframe_trans [OF V(2) M(2)]
  note F = kframe_fields [OF fr]
  have "pvOwner (kl s0) ?e = t" by (rule kcore_task(3) [OF V(1) t])
  then have s': "s' = (if ?b then s1\<lparr>xYieldPending := True\<rparr> else s1)"
    by (simp add: s'_def vTaskRemoveFromUnorderedEventList_def s0_def [unfolded set_event_value_def, symmetric] Let_def s1_def [symmetric] F)
  have k: "kl s' = kl s1" by (simp add: s')
  have "blocking T E s' G' = blocking T E s1 G'" for G' by (simp add: s' blocking_yield)
  then show "\<exists>G'. blocking T E s' G' \<and> G' l = remove1 ?e (G l) \<and> (\<forall>j \<in> event_lists E s - {l}. G' j = G j)" using M(1) by (simp add: F0)
  show "kframe (s\<lparr>xYieldPending := xYieldPending s \<or> ?b\<rparr>) s'"
  proof -
    obtain k w where "s1 = s\<lparr>kl := k, uxTopReadyPriority := w\<rparr>" using fr unfolding kframe_def by blast
    then have "s' = s\<lparr>xYieldPending := xYieldPending s \<or> ?b\<rparr>\<lparr>kl := k, uxTopReadyPriority := w\<rparr>" unfolding s' by simp
    then show ?thesis unfolding kframe_def by blast
  qed
  show "xItemValue (kl s') = (xItemValue (kl s))(?e := v OR taskEVENT_LIST_ITEM_VALUE_IN_USE)" unfolding k M(3) V(4) ..
  show "\<And>y. y \<in> items T \<Longrightarrow> pxContainer (kl s') y =
      (if y = xStateListItem t then ready_list s (uxPriority s t) else if y = ?e then 0 else pxContainer (kl s) y)"
    unfolding k by (simp add: M(4) V(3) F0)
qed

text \<open>The tasks of \<open>W\<close> have been made ready, each with \<open>v\<close> as the value of its event item.\<close>

definition released :: "u32 set \<Rightarrow> u32 set \<Rightarrow> u32 set \<Rightarrow> u32 \<Rightarrow> kernel \<Rightarrow> kernel \<Rightarrow> bool" where
  "released T E W v s s' \<longleftrightarrow> (\<exists>G. blocking T E s' G) \<and>
     kframe (s\<lparr>xYieldPending := xYieldPending s \<or> (\<exists>t \<in> W. uxPriority s t > uxPriority s (pxCurrentTCB s))\<rparr>) s' \<and>
     (\<forall>u \<in> T. pxContainer (kl s') (xEventListItem u) = (if u \<in> W then 0 else pxContainer (kl s) (xEventListItem u)) \<and>
       pxContainer (kl s') (xStateListItem u) = (if u \<in> W then ready_list s (uxPriority s u) else pxContainer (kl s) (xStateListItem u)) \<and>
       xItemValue (kl s') (xEventListItem u) = (if u \<in> W then v OR taskEVENT_LIST_ITEM_VALUE_IN_USE else xItemValue (kl s) (xEventListItem u)) \<and>
       xItemValue (kl s') (xStateListItem u) = xItemValue (kl s) (xStateListItem u))"

lemma released_none: "blocking T E s G \<Longrightarrow> released T E {} v s s"
  using kframe_refl [of s] by (auto simp: released_def)

lemma released_step:
  assumes W: "blocking T E s G" and t: "t \<in> T" and c: "pxContainer (kl s) (xEventListItem t) = l" and l: "l \<in> event_lists E s"
    and r: "released T E R v (vTaskRemoveFromUnorderedEventList (xEventListItem t) v s) s'" and R: "R \<subseteq> T - {t}"
  shows "released T E (insert t R) v s s'"
proof -
  let ?s1 = "vTaskRemoveFromUnorderedEventList (xEventListItem t) v s"
  let ?b = "uxPriority s t > uxPriority s (pxCurrentTCB s)"
  note M = unordered_remove [OF W t c l, where v = v]
  note F = kframe_fields [OF M(2), simplified]
  have rl: "ready_list ?s1 = ready_list s" using F(4) by (simp add: ready_list_def fun_eq_iff)
  have ap: "xStateListItem u \<noteq> xEventListItem w" if "u \<in> T" "w \<in> T" for u w
    by (rule layout_items [OF kcoreD(2) [OF blockingD(2) [OF W]] that])
  have one: "pxContainer (kl ?s1) (xEventListItem u) = (if u = t then 0 else pxContainer (kl s) (xEventListItem u))"
    "pxContainer (kl ?s1) (xStateListItem u) = (if u = t then ready_list s (uxPriority s u) else pxContainer (kl s) (xStateListItem u))"
    "xItemValue (kl ?s1) (xEventListItem u) = (if u = t then v OR taskEVENT_LIST_ITEM_VALUE_IN_USE else xItemValue (kl s) (xEventListItem u))"
    "xItemValue (kl ?s1) (xStateListItem u) = xItemValue (kl s) (xStateListItem u)" if u: "u \<in> T" for u
    using M(4) [OF items_in(1) [OF u]] M(4) [OF items_in(2) [OF u]] ap [OF u t] ap [OF t u] by (auto simp: M(3))
  have "kframe (s\<lparr>xYieldPending := xYieldPending s \<or> (\<exists>u \<in> insert t R. uxPriority s u > uxPriority s (pxCurrentTCB s))\<rparr>) s'"
  proof -
    have "kframe (?s1\<lparr>xYieldPending := xYieldPending ?s1 \<or> (\<exists>u \<in> R. uxPriority ?s1 u > uxPriority ?s1 (pxCurrentTCB ?s1))\<rparr>) s'"
      using r by (simp add: released_def)
    then have "kframe (?s1\<lparr>xYieldPending := xYieldPending s \<or> (\<exists>u \<in> insert t R. uxPriority s u > uxPriority s (pxCurrentTCB s))\<rparr>) s'"
      by (simp add: F disj_assoc)
    then show ?thesis using kframe_yield [OF M(2)] by blast
  qed
  moreover have "\<exists>G. blocking T E s' G" using r by (simp add: released_def)
  moreover have "pxContainer (kl s') (xEventListItem u) = (if u \<in> insert t R then 0 else pxContainer (kl s) (xEventListItem u)) \<and>
       pxContainer (kl s') (xStateListItem u) = (if u \<in> insert t R then ready_list s (uxPriority s u) else pxContainer (kl s) (xStateListItem u)) \<and>
       xItemValue (kl s') (xEventListItem u) = (if u \<in> insert t R then v OR taskEVENT_LIST_ITEM_VALUE_IN_USE else xItemValue (kl s) (xEventListItem u)) \<and>
       xItemValue (kl s') (xStateListItem u) = xItemValue (kl s) (xStateListItem u)" if u: "u \<in> T" for u
    using r u one [OF u] R by (auto simp: released_def rl F)
  ultimately show ?thesis unfolding released_def by blast
qed

text \<open>The tasks the loop wakes.\<close>

definition matching :: "u32 set \<Rightarrow> u32 list \<Rightarrow> u32 \<Rightarrow> kernel \<Rightarrow> u32 set" where
  "matching T xs bits s = {u \<in> T. xEventListItem u \<in> set xs \<and> satisfied (xItemValue (kl s) (xEventListItem u)) bits}"

definition clears :: "u32 \<Rightarrow> nat \<Rightarrow> bool" where
  "clears v i \<longleftrightarrow> bit v 24 \<and> i \<in> awaited v"

lemma set_bits_loop_spec:
  assumes "blocking T E s G" and l: "l \<in> E" and "G l = ks @ xs"
  shows "\<exists>c' s'. set_bits_loop (xListEnd l) bits (hd (xs @ [xListEnd l])) c s = Some (c', s') \<and>
    released T E (matching T xs bits s) (bits OR eventUNBLOCKED_DUE_TO_BIT_SET) s s' \<and>
    (\<forall>i. bit c' i \<longleftrightarrow> bit c i \<or> (\<exists>u \<in> matching T xs bits s. clears (xItemValue (kl s) (xEventListItem u)) i))"
  using assms(1,3)
proof (induction xs arbitrary: ks c s G)
  case Nil
  then show ?case using released_none by (subst set_bits_loop.simps) (auto simp: matching_def)
next
  case (Cons x xs)
  note W = Cons.prems(1)
  note K = blockingD(2) [OF W]
  have le: "l \<in> event_lists E s" using l by (simp add: event_lists_def)
  have lu: "l \<in> state_lists s \<union> event_lists E s" using le by blast
  have rg: "ring (kl s) l (ks @ x # xs)" using rings_ring [OF kcoreD(1) [OF K] lu] Cons.prems(2) by simp
  then have "dll (kl s) (xListEnd l) (ks @ x # xs) (xListEnd l)" and d0: "distinct (xListEnd l # ks @ x # xs)" by (simp_all only: ring_def)
  then have "dll (kl s) x xs (xListEnd l)" by (simp only: dll_append)
  then have nx: "pxNext (kl s) x = hd (xs @ [xListEnd l])" by (rule dll_ends(1))
  have d: "x \<noteq> xListEnd l" "x \<notin> set ks" "x \<notin> set xs" using d0 by auto
  have "x \<in> xEventListItem ` waiters T s l" using waiters_list(1) [OF K le] Cons.prems(2) by auto
  then obtain t where t: "t \<in> T" "x = xEventListItem t" "pxContainer (kl s) (xEventListItem t) = l" by (auto simp: waiters_def waits_in_def)
  define v where "v = xItemValue (kl s) x"
  define c1 where "c1 = (if match_found bits v \<and> (v AND eventEVENT_BITS_CONTROL_BYTES) AND eventCLEAR_EVENTS_ON_EXIT_BIT \<noteq> 0
    then c OR (v AND NOT eventEVENT_BITS_CONTROL_BYTES) else c)"
  define s1 where "s1 = (if match_found bits v then vTaskRemoveFromUnorderedEventList x (bits OR eventUNBLOCKED_DUE_TO_BIT_SET) s else s)"
  have step: "set_bits_loop (xListEnd l) bits (hd ((x # xs) @ [xListEnd l])) c s = set_bits_loop (xListEnd l) bits (hd (xs @ [xListEnd l])) c1 s1"
    using d(1) nx by (subst set_bits_loop.simps) (simp add: Let_def v_def c1_def s1_def)
  have b1: "bit c1 i \<longleftrightarrow> bit c i \<or> (satisfied v bits \<and> clears v i)" for i
    unfolding c1_def control_free control_flag match_found_satisfied clears_def awaited_def by (auto simp: bit_or_iff bit_take_bit_iff)
  show ?case
  proof (cases "satisfied v bits")
    case True
    have s1: "s1 = vTaskRemoveFromUnorderedEventList (xEventListItem t) (bits OR eventUNBLOCKED_DUE_TO_BIT_SET) s"
      using True t(2) by (simp add: s1_def match_found_satisfied)
    note M = unordered_remove [OF W t(1,3) le, where v = "bits OR eventUNBLOCKED_DUE_TO_BIT_SET", folded s1]
    from M(1) obtain G1 where G1: "blocking T E s1 G1" "G1 l = remove1 (xEventListItem t) (G l)" by blast
    have "G1 l = ks @ xs" using G1(2) d(2) t(2) Cons.prems(2) by (simp add: remove1_append)
    from Cons.IH [OF G1(1) this, of c1] obtain c' s' where
      r: "set_bits_loop (xListEnd l) bits (hd (xs @ [xListEnd l])) c1 s1 = Some (c', s')"
        "released T E (matching T xs bits s1) (bits OR eventUNBLOCKED_DUE_TO_BIT_SET) s1 s'"
        "\<And>i. bit c' i \<longleftrightarrow> bit c1 i \<or> (\<exists>u \<in> matching T xs bits s1. clears (xItemValue (kl s1) (xEventListItem u)) i)" by blast
    have ne: "u \<noteq> t" if "xEventListItem u \<in> set xs" for u using that d(3) t(2) by auto
    then have m1: "matching T xs bits s1 = matching T xs bits s" by (auto simp: matching_def M(3))
    have m: "matching T (x # xs) bits s = insert t (matching T xs bits s)" using True t by (auto simp: matching_def v_def)
    have sub: "matching T xs bits s \<subseteq> T - {t}" using ne by (auto simp: matching_def)
    have "released T E (matching T (x # xs) bits s) (bits OR eventUNBLOCKED_DUE_TO_BIT_SET) s s'"
      unfolding m by (rule released_step [OF W t(1,3) le r(2) [unfolded m1, unfolded s1] sub])
    moreover have "bit c' i \<longleftrightarrow> bit c i \<or> (\<exists>u \<in> matching T (x # xs) bits s. clears (xItemValue (kl s) (xEventListItem u)) i)" for i
      using r(3) [of i] b1 True sub unfolding m1 m by (auto simp: M(3) v_def t(2))
    ultimately show ?thesis unfolding step using r(1) by blast
  next
    case False
    have s1: "s1 = s" using False by (simp add: s1_def match_found_satisfied)
    have m: "matching T (x # xs) bits s = matching T xs bits s" using False t by (auto simp: matching_def v_def)
    have "G l = (ks @ [x]) @ xs" using Cons.prems(2) by simp
    from Cons.IH [OF W this, of c1] show ?thesis unfolding step s1 m using b1 False by auto
  qed
qed

section \<open>Between two calls\<close>

text \<open>The running task is a ready task of the highest priority, and no work is left for when the scheduler is resumed.\<close>

definition settled :: "u32 set \<Rightarrow> u32 set \<Rightarrow> kernel \<Rightarrow> bool" where
  "settled T E s \<longleftrightarrow> (\<exists>G. blocking T E s G) \<and> quiet T s \<and> highest_ready T s (pxCurrentTCB s) \<and> uxCurrentNumberOfTasks s > 0"

text \<open>A step that changes no more than which task runs.\<close>

definition same_tasks :: "kernel \<Rightarrow> kernel \<Rightarrow> bool" where
  "same_tasks s s' \<longleftrightarrow> pxContainer (kl s') = pxContainer (kl s) \<and> xItemValue (kl s') = xItemValue (kl s) \<and> uxPriority s' = uxPriority s \<and>
     ready_list s' = ready_list s \<and> status s' = status s \<and> xPendingReadyList s' = xPendingReadyList s"

lemma same_tasks_suspended: "same_tasks s (s\<lparr>uxSchedulerSuspended := n\<rparr>)" "same_tasks (s\<lparr>uxSchedulerSuspended := n\<rparr>) s"
  by (simp_all add: same_tasks_def status_def task_ready_def sleeping_def remaining_def ready_list_def fun_eq_iff)

lemma same_tasks_trans: "same_tasks s s' \<Longrightarrow> same_tasks s' s'' \<Longrightarrow> same_tasks s s''"
  by (simp add: same_tasks_def)

lemma blocking_suspended: "blocking T E (s\<lparr>uxSchedulerSuspended := n\<rparr>) G = blocking T E s G"
  by (simp add: blocking_def kinv_cong event_lists_def state_lists_def ready_lists_def ready_list_def)

lemma highest_suspended: "highest_ready T (s\<lparr>uxSchedulerSuspended := n\<rparr>) = highest_ready T s"
  by (simp add: highest_ready_def ready_lists_def ready_list_def fun_eq_iff)

lemma switch_settled:
  assumes B: "blocking T E s G" and q: "quiet T s" and n: "uxCurrentNumberOfTasks s > 0" and t: "t \<in> T" "task_ready s t"
  shows "\<exists>s'. vTaskSwitchContext s = Some s' \<and> settled T E s' \<and> same_tasks s s'"
proof -
  from switch_scheduled [OF blockingD(1) [OF B] q t] obtain s' u where
    s': "vTaskSwitchContext s = Some s'" "switched u s s'" "scheduled T E s'" "highest_ready T s' u" by blast
  note F = switched_fields [OF s'(2)] switched_views [OF s'(2)]
  have sl: "state_lists s' = state_lists s" "event_lists E s' = event_lists E s"
    using s'(2) by (auto simp: switched_def state_lists_def event_lists_def ready_lists_def ready_list_def)
  obtain G' where "kinv T E s' G'" using s'(3) by (auto simp: scheduled_def)
  then have "blocking T E s' G'" using blockingD(4) [OF B] by (simp add: blocking_def F sl)
  moreover have "uxCurrentNumberOfTasks s' > 0" using s'(2) n by (auto simp: switched_def)
  ultimately have "settled T E s'" using s'(3,4) q by (auto simp: settled_def F)
  moreover have "same_tasks s s'" by (simp add: same_tasks_def F status_def fun_eq_iff)
  ultimately show ?thesis using s'(1) by blast
qed

lemma resume_settled:
  assumes B: "blocking T E s G" and su: "uxSchedulerSuspended s = 1" "uxPendedTicks s = 0" and n: "uxCurrentNumberOfTasks s > 0"
    and ev: "\<forall>t \<in> T. pxContainer (kl s) (xEventListItem t) \<noteq> xPendingReadyList s" and t: "t \<in> T" "task_ready s t"
  shows "(\<not> xYieldPending s \<longrightarrow> highest_ready T s (pxCurrentTCB s)) \<longrightarrow> (\<exists>r s'. xTaskResumeAll s = Some (r, s') \<and> settled T E s' \<and> same_tasks s s')"
    "\<exists>s'. xTaskResumeAll s \<bind> (\<lambda>(y, s). if \<not> y then vTaskSwitchContext s else Some s) = Some s' \<and> settled T E s' \<and> same_tasks s s'"
proof -
  let ?s = "s\<lparr>uxSchedulerSuspended := 0\<rparr>"
  have B0: "blocking T E ?s G" using B by (simp add: blocking_suspended)
  have q: "quiet T ?s" using su ev by (simp add: quiet_def)
  have n0: "uxCurrentNumberOfTasks ?s > 0" using n by simp
  have t0: "task_ready ?s t" using t(2) by (simp add: task_ready_def ready_list_def)
  note K = blockingD(2) [OF B]
  from switch_settled [OF B0 q n0 t(1) t0] obtain s' where s': "vTaskSwitchContext ?s = Some s'" "settled T E s'" "same_tasks ?s s'" by blast
  have sm: "same_tasks s s'" by (rule same_tasks_trans [OF same_tasks_suspended(1) s'(3)])
  show "\<exists>s'. xTaskResumeAll s \<bind> (\<lambda>(y, s). if \<not> y then vTaskSwitchContext s else Some s) = Some s' \<and> settled T E s' \<and> same_tasks s s'"
    unfolding resume_switch [OF K su ev] using s'(1,2) sm by blast
  show "(\<not> xYieldPending s \<longrightarrow> highest_ready T s (pxCurrentTCB s)) \<longrightarrow> (\<exists>r s'. xTaskResumeAll s = Some (r, s') \<and> settled T E s' \<and> same_tasks s s')"
  proof (cases "xYieldPending s")
    case True
    then have "xTaskResumeAll s = Some (True, s')" using resume_quiet [OF K su ev] n s'(1) by simp
    then show ?thesis using s'(2) sm by blast
  next
    case False
    then have "xTaskResumeAll s = Some (False, ?s)" using resume_quiet [OF K su ev] by simp
    moreover have "settled T E ?s" if "highest_ready T s (pxCurrentTCB s)" using B0 q n that by (auto simp: settled_def highest_suspended)
    ultimately show ?thesis using same_tasks_suspended(1) False by blast
  qed
qed

section \<open>Setting bits\<close>

lemma suspend_settled:
  assumes "settled T E s"
  shows "vTaskSuspendAll s = s\<lparr>uxSchedulerSuspended := 1\<rparr>" "\<exists>G. blocking T E (vTaskSuspendAll s) G"
proof -
  show "vTaskSuspendAll s = s\<lparr>uxSchedulerSuspended := 1\<rparr>" using assms by (simp add: settled_def quiet_def vTaskSuspendAll_def)
  then show "\<exists>G. blocking T E (vTaskSuspendAll s) G" using assms by (simp add: settled_def blocking_suspended)
qed

lemma head_of_list:
  assumes "blocking T E s G" "l \<in> event_lists E s"
  shows "listGET_HEAD_ENTRY l (kl s) = hd (G l @ [xListEnd l])"
proof -
  have "ring (kl s) l (G l)" using rings_ring [OF kcoreD(1) [OF blockingD(2) [OF assms(1)]]] assms(2) by blast
  then show ?thesis using dll_ends(1) by (simp add: ring_def listGET_HEAD_ENTRY_def)
qed

text \<open>The tasks that wait in a list for what the bits satisfy.\<close>

definition woken_by :: "u32 set \<Rightarrow> u32 \<Rightarrow> u32 \<Rightarrow> kernel \<Rightarrow> u32 set" where
  "woken_by T l bits s = {t \<in> T. waits_in s l t \<and> satisfied (xItemValue (kl s) (xEventListItem t)) bits}"

lemma matching_woken:
  assumes "blocking T E s G" "l \<in> event_lists E s"
  shows "matching T (G l) bits s = woken_by T l bits s"
  using rings_member [OF kcoreD(1) [OF blockingD(2) [OF assms(1)]] items_in(2)] assms(2)
  by (auto simp: matching_def woken_by_def waits_in_def)

text \<open>After tasks were released the scheduler is resumed.\<close>

lemma released_kept:
  assumes r: "released T E W v s s'" and K: "kcore T E s G" and ev: "\<forall>t \<in> T. pxContainer (kl s) (xEventListItem t) \<noteq> xPendingReadyList s"
  shows "ready_list s' = ready_list s" "uxPriority s' = uxPriority s" "xPendingReadyList s' = xPendingReadyList s" "pxCurrentTCB s' = pxCurrentTCB s"
    "uxSchedulerSuspended s' = uxSchedulerSuspended s" "uxPendedTicks s' = uxPendedTicks s" "uxCurrentNumberOfTasks s' = uxCurrentNumberOfTasks s"
    "xYieldPending s' \<longleftrightarrow> xYieldPending s \<or> (\<exists>t \<in> W. uxPriority s t > uxPriority s (pxCurrentTCB s))"
    "\<forall>t \<in> T. pxContainer (kl s') (xEventListItem t) \<noteq> xPendingReadyList s'"
    "\<And>u. u \<in> T \<Longrightarrow> status s' u = (if u \<in> W then Ready else status s u)" "ready_lists s' = ready_lists s"
proof -
  have fr: "kframe (s\<lparr>xYieldPending := xYieldPending s \<or> (\<exists>t \<in> W. uxPriority s t > uxPriority s (pxCurrentTCB s))\<rparr>) s'"
    using r by (simp add: released_def)
  note F = kframe_fields [OF fr, simplified]
  show rl: "ready_list s' = ready_list s" using F(4) by (simp add: ready_list_def fun_eq_iff)
  then show rls: "ready_lists s' = ready_lists s" by (simp add: ready_lists_def)
  show up: "uxPriority s' = uxPriority s" and pe: "xPendingReadyList s' = xPendingReadyList s" and "pxCurrentTCB s' = pxCurrentTCB s"
    "uxSchedulerSuspended s' = uxSchedulerSuspended s" "uxPendedTicks s' = uxPendedTicks s"
    "xYieldPending s' \<longleftrightarrow> xYieldPending s \<or> (\<exists>t \<in> W. uxPriority s t > uxPriority s (pxCurrentTCB s))" using F by blast+
  show "uxCurrentNumberOfTasks s' = uxCurrentNumberOfTasks s" using fr by (auto simp: kframe_def)
  have "xPendingReadyList s \<noteq> 0" using rings_D(1) [OF kcoreD(1) [OF K]] by (auto simp: event_lists_def)
  then show "\<forall>t \<in> T. pxContainer (kl s') (xEventListItem t) \<noteq> xPendingReadyList s'" using r ev by (simp add: released_def pe)
  show "status s' u = (if u \<in> W then Ready else status s u)" if u: "u \<in> T" for u
    using r u by (simp add: released_def status_def task_ready_def sleeping_def remaining_def rl up F)
qed

lemma released_resume:
  assumes S: "settled T E s" and r: "released T E W v (vTaskSuspendAll s) s1" and W: "W \<subseteq> T"
  shows "\<exists>r s2. xTaskResumeAll s1 = Some (r, s2) \<and> settled T E s2 \<and> same_tasks s1 s2 \<and>
    (\<forall>u \<in> T. status s2 u = (if u \<in> W then Ready else status s u))"
proof -
  let ?s = "vTaskSuspendAll s"
  note U = suspend_settled [OF S]
  obtain G where G: "blocking T E ?s G" using U(2) by blast
  have q: "quiet T s" "uxCurrentNumberOfTasks s > 0" and hi: "highest_ready T s (pxCurrentTCB s)" using S by (simp_all add: settled_def)
  have ev: "\<forall>t \<in> T. pxContainer (kl ?s) (xEventListItem t) \<noteq> xPendingReadyList ?s" using q(1) by (simp add: U(1) quiet_def)
  note R = released_kept [OF r blockingD(2) [OF G] ev, unfolded U(1), simplified, folded U(1)]
  obtain G1 where G1: "blocking T E s1 G1" using r by (auto simp: released_def)
  have su: "uxSchedulerSuspended s1 = 1" "uxPendedTicks s1 = 0" "uxCurrentNumberOfTasks s1 > 0" using R(5-7) q by (simp_all add: quiet_def)
  have st: "status s1 u = (if u \<in> W then Ready else status s u)" if "u \<in> T" for u
    using R(10) [OF that] same_tasks_suspended(1) [of s 1] by (simp add: same_tasks_def U(1))
  let ?c = "pxCurrentTCB s"
  have c: "?c \<in> T" "status s ?c = Ready" using hi by (auto simp: highest_ready_def status_def task_ready_def)
  have "task_ready s1 ?c" using st [OF c(1)] c(2) by (simp add: status_def split: if_splits)
  note Q = resume_settled [OF G1 su R(9) c(1) this]
  have rl: "ready_list s1 = ready_list s" "ready_lists s1 = ready_lists s"
    using R(1) by (simp_all add: ready_lists_def ready_list_def fun_eq_iff U(1))
  have "highest_ready T s1 (pxCurrentTCB s1)" if "\<not> xYieldPending s1"
  proof -
    have le: "uxPriority s t \<le> uxPriority s ?c" if "t \<in> W" for t using R(8) \<open>\<not> xYieldPending s1\<close> that by auto
    have "pxContainer (kl s1) (xStateListItem u) = (if u \<in> W then ready_list s (uxPriority s u) else pxContainer (kl s) (xStateListItem u))"
      if "u \<in> T" for u using r that by (simp add: released_def U(1) ready_list_def)
    then show ?thesis using hi le unfolding highest_ready_def rl R(2,4) by auto
  qed
  then obtain r s2 where s2: "xTaskResumeAll s1 = Some (r, s2)" "settled T E s2" "same_tasks s1 s2" using Q(1) by blast
  then have "\<forall>u \<in> T. status s2 u = (if u \<in> W then Ready else status s u)" using st by (simp add: same_tasks_def)
  then show ?thesis using s2 by blast
qed

text \<open>What setting the bits of a group does: \<open>W\<close> are the tasks it wakes, \<open>bits\<close> the value they see.\<close>

definition bits_set :: "u32 set \<Rightarrow> u32 \<Rightarrow> u32 set \<Rightarrow> u32 \<Rightarrow> group_system \<Rightarrow> group_system \<Rightarrow> bool" where
  "bits_set T g W bits s s' \<longleftrightarrow>
     (\<forall>t \<in> T. status (gkern s') t = (if t \<in> W then Ready else status (gkern s) t) \<and>
       pxContainer (kl (gkern s')) (xEventListItem t) = (if t \<in> W then 0 else pxContainer (kl (gkern s)) (xEventListItem t)) \<and>
       xItemValue (kl (gkern s')) (xEventListItem t) =
         (if t \<in> W then (bits OR eventUNBLOCKED_DUE_TO_BIT_SET) OR taskEVENT_LIST_ITEM_VALUE_IN_USE else xItemValue (kl (gkern s)) (xEventListItem t))) \<and>
     (\<forall>i. bit (uxEventBits s' g) i \<longleftrightarrow> bit bits i \<and> \<not> (\<exists>t \<in> W. clears (xItemValue (kl (gkern s)) (xEventListItem t)) i)) \<and>
     (\<forall>h. h \<noteq> g \<longrightarrow> uxEventBits s' h = uxEventBits s h)"

lemma group_fields [simp]:
  "gkern (with_kernel k s) = k" "uxEventBits (with_kernel k s) = uxEventBits s" "gkern (set_bits g v s) = gkern s"
  "uxEventBits (set_bits g v s) = (uxEventBits s)(g := v)" "gkern (group_suspend s) = vTaskSuspendAll (gkern s)"
  "uxEventBits (group_suspend s) = uxEventBits s"
  by (simp_all add: with_kernel_def set_bits_def group_suspend_def)

lemma set_bits_spec:
  fixes g b :: u32
  assumes S: "settled T E (gkern s)" and l: "xTasksWaitingForBits g \<in> E"
  defines "bits \<equiv> uxEventBits s g OR b"
  defines "W \<equiv> woken_by T (xTasksWaitingForBits g) bits (gkern s)"
  shows "\<exists>s'. xEventGroupSetBits env g b s = Some (uxEventBits (env s') g, env s') \<and> settled T E (gkern s') \<and> bits_set T g W bits s s'"
proof -
  let ?l = "xTasksWaitingForBits g" and ?k = "vTaskSuspendAll (gkern s)"
  note U = suspend_settled [OF S]
  obtain G where G: "blocking T E ?k G" using U(2) by blast
  have le: "?l \<in> event_lists E ?k" using l by (simp add: event_lists_def)
  have w: "matching T (G ?l) bits ?k = W"
    unfolding matching_woken [OF G le] W_def by (simp add: woken_by_def waits_in_def U(1))
  have "G ?l = [] @ G ?l" by simp
  from set_bits_loop_spec [OF G l this, of bits 0] obtain c k1 where
    k1: "set_bits_loop (xListEnd ?l) bits (hd (G ?l @ [xListEnd ?l])) 0 ?k = Some (c, k1)"
      "released T E W (bits OR eventUNBLOCKED_DUE_TO_BIT_SET) ?k k1"
      "\<And>i. bit c i \<longleftrightarrow> (\<exists>u \<in> W. clears (xItemValue (kl ?k) (xEventListItem u)) i)" unfolding w by auto
  have "W \<subseteq> T" by (auto simp: W_def woken_by_def)
  from released_resume [OF S k1(2) this] obtain r k2 where
    k2: "xTaskResumeAll k1 = Some (r, k2)" "settled T E k2" "same_tasks k1 k2" "\<forall>u \<in> T. status k2 u = (if u \<in> W then Ready else status (gkern s) u)"
    by blast
  let ?s2 = "with_kernel k2 (set_bits g (bits AND NOT c) (with_kernel k1 (set_bits g bits (group_suspend s))))"
  have hd: "listGET_HEAD_ENTRY ?l (kl ?k) = hd (G ?l @ [xListEnd ?l])" by (rule head_of_list [OF G le])
  have "xEventGroupSetBits env g b s = Some (uxEventBits (env ?s2) g, env ?s2)"
    by (simp add: xEventGroupSetBits_def Let_def bits_def [symmetric] hd k1(1) group_resume_def k2(1))
  moreover have "bits_set T g W bits s ?s2"
    using k1(2,3) k2(3,4) by (auto simp: bits_set_def released_def same_tasks_def U(1) bit_and_iff bit_not_iff dest: bit_imp_le_length)
  moreover have "settled T E (gkern ?s2)" using k2(2) by simp
  ultimately show ?thesis by blast
qed

section \<open>Waiting\<close>

text \<open>The running task enters an unordered list with a value, and blocks.\<close>

lemma place_unordered:
  fixes v :: u32
  assumes B: "blocking T E s G" and c: "pxCurrentTCB s \<in> T" "task_ready s (pxCurrentTCB s)" and l: "l \<in> E" and n: "n \<noteq> 0"
  shows "\<exists>s' G'. vTaskPlaceOnUnorderedEventList l v n s = Some s' \<and> blocking T E s' G' \<and>
    kframe (s\<lparr>xNextTaskUnblockTime := xNextTaskUnblockTime s'\<rparr>) s' \<and> status s' (pxCurrentTCB s) = block_status n True \<and>
    pxContainer (kl s') (xEventListItem (pxCurrentTCB s)) = l \<and>
    xItemValue (kl s') (xEventListItem (pxCurrentTCB s)) = v OR taskEVENT_LIST_ITEM_VALUE_IN_USE \<and>
    (\<forall>y \<in> items T - {xStateListItem (pxCurrentTCB s), xEventListItem (pxCurrentTCB s)}.
      pxContainer (kl s') y = pxContainer (kl s) y \<and> xItemValue (kl s') y = xItemValue (kl s) y)"
proof -
  let ?t = "pxCurrentTCB s"
  let ?x = "xStateListItem ?t" and ?e = "xEventListItem ?t"
  note K = blockingD(2) [OF B]
  define s0 where "s0 = set_event_value ?t (v OR taskEVENT_LIST_ITEM_VALUE_IN_USE) s"
  note V = set_event_value_kcore [OF K c(1), of "v OR taskEVENT_LIST_ITEM_VALUE_IN_USE", folded s0_def]
  have B0: "blocking T E s0 G" unfolding s0_def by (rule blocking_set_value [OF B c(1)])
  note F0 = kframe_fields [OF V(2)]
  have rl: "pxContainer (kl s) ?x \<in> ready_lists s" using task_ready_in [OF K c(1)] c(2) by blast
  have "pxContainer (kl s) ?e \<notin> event_lists E s" using blockingD(4) [OF B c(1)] rl by blast
  then have z: "pxContainer (kl s0) ?e = 0" using kcore_task(5) [OF K c(1)] by (simp add: V(3))
  have le: "l \<in> event_lists E s0" using l by (simp add: event_lists_def)
  note I = insert_end_event [OF blockingD(2) [OF B0] c(1) z le]
  let ?k = "vListInsertEnd l ?e (kl s0)"
  let ?s1 = "s0\<lparr>kl := ?k\<rparr>" and ?G1 = "G(l := ins_before (pxIndex (kl s0) l) ?e (G l))"
  have fr1: "kframe s ?s1"
  proof -
    obtain j w where "s0 = s\<lparr>kl := j, uxTopReadyPriority := w\<rparr>" using V(2) unfolding kframe_def by blast
    then have "?s1 = s\<lparr>kl := ?k, uxTopReadyPriority := w\<rparr>" by simp
    then show ?thesis unfolding kframe_def by blast
  qed
  note F1 = kframe_fields [OF fr1]
  note la = state_event_apart [OF K l]
  have "ktime ?s1 ?G1"
  proof -
    have "?G1 j = G j" if "j \<in> {pxDelayedTaskList s, pxOverflowDelayedTaskList s}" for j using delayed_in_state [OF K that] la(1) by auto
    moreover have "xItemValue (kl ?s1) = xItemValue (kl s0)" using I(2) by simp
    ultimately show ?thesis using blockingD(3) [OF B0] unfolding ktime_def F1 F0 by simp
  qed
  then have I1: "kinv T E ?s1 ?G1" using I(1) by (simp add: kinv_def)
  have ap: "xStateListItem u \<noteq> xEventListItem w" if "u \<in> T" "w \<in> T" for u w by (rule layout_items [OF kcoreD(2) [OF K] that])
  have cx: "pxContainer (kl ?s1) ?x = ready_list ?s1 (uxPriority ?s1 ?t)"
    using I(3) [OF items_in(1) [OF c(1)]] ap [OF c(1) c(1)] c(2) unfolding F1 by (simp add: V(3) task_ready_def)
  have ct: "pxCurrentTCB ?s1 = ?t" by (rule F1(7))
  from add_delayed_any [OF I1, unfolded ct, OF c(1) cx n] obtain s' G' where
    s': "prvAddCurrentTaskToDelayedList n True ?s1 = Some s'" "kinv T E s' G'" "blocked_for s' ?t n"
      "kframe (?s1\<lparr>xNextTaskUnblockTime := xNextTaskUnblockTime s'\<rparr>) s'"
    and y: "\<And>y. y \<in> items T \<Longrightarrow> y \<noteq> ?x \<Longrightarrow> pxContainer (kl s') y = pxContainer (kl ?s1) y \<and> xItemValue (kl s') y = xItemValue (kl ?s1) y"
    by blast
  have fr: "kframe (s\<lparr>xNextTaskUnblockTime := xNextTaskUnblockTime s'\<rparr>) s'" by (rule kframe_trans [OF kframe_next [OF fr1] s'(4)])
  note F = kframe_fields [OF fr, simplified]
  have sl: "state_lists s' = state_lists s" "ready_lists s' = ready_lists s" "event_lists E s' = event_lists E s"
    using F by (simp_all add: state_lists_def ready_lists_def ready_list_def event_lists_def)
  have other: "pxContainer (kl s') z = pxContainer (kl s) z \<and> xItemValue (kl s') z = xItemValue (kl s) z" if "z \<in> items T - {?x, ?e}" for z
    using that y [of z] I(2) I(3) [of z] V(3,4) by auto
  have e: "pxContainer (kl s') ?e = l" "xItemValue (kl s') ?e = v OR taskEVENT_LIST_ITEM_VALUE_IN_USE"
    using y [OF items_in(2) [OF c(1)] ap [OF c(1) c(1), symmetric]] I(2) I(3) [OF items_in(2) [OF c(1)]] V(4) by simp_all
  have K': "kcore T E s' G'" using s'(2) by (simp add: kinv_def)
  have "pxContainer (kl s') (xStateListItem u) \<in> state_lists s' - ready_lists s'"
    if u: "u \<in> T" "pxContainer (kl s') (xEventListItem u) \<in> event_lists E s'" for u
  proof (cases "u = ?t")
    case True
    then show ?thesis using blocked_for_state [OF K' s'(3)] by simp
  next
    case False
    then have "xStateListItem u \<in> items T - {?x, ?e}" "xEventListItem u \<in> items T - {?x, ?e}"
      using u(1) ap [OF u(1) c(1)] ap [OF c(1) u(1)] by (auto simp: items_in)
    then show ?thesis using other blockingD(4) [OF B u(1)] u(2) unfolding sl by simp
  qed
  then have "blocking T E s' G'" using s'(2) unfolding blocking_def by blast
  moreover have "status s' ?t = block_status n True"
    by (rule blocked_status [OF s'(2) c(1)]) (use s'(3) in \<open>simp add: blocked_for_def\<close>)
  moreover have "vTaskPlaceOnUnorderedEventList l v n s = Some s'"
  proof -
    have "pxCurrentTCB s0 = ?t" by (rule F0(7))
    then show ?thesis using s'(1) by (simp add: vTaskPlaceOnUnorderedEventList_def s0_def [symmetric] Let_def)
  qed
  ultimately show ?thesis using fr e other by blast
qed

text \<open>The value of the event item while a task waits says what it waits for.\<close>

lemma and_not_same: "(x :: u32) AND y = 0 \<Longrightarrow> x AND NOT y = x"
  unfolding and_zero_iff by (auto intro!: bit_eqI simp: bit_and_iff bit_not_iff)

lemma flag_bits:
  "bit eventCLEAR_EVENTS_ON_EXIT_BIT i \<longleftrightarrow> i = 24" "bit eventWAIT_FOR_ALL_BITS i \<longleftrightarrow> i = 26" "bit taskEVENT_LIST_ITEM_VALUE_IN_USE i \<longleftrightarrow> i = 31"
  "bit eventUNBLOCKED_DUE_TO_BIT_SET i \<longleftrightarrow> i = 25"
proof -
  have "bit ((2 :: u32) ^ 24) i \<longleftrightarrow> i = 24" "bit ((2 :: u32) ^ 26) i \<longleftrightarrow> i = 26" "bit ((2 :: u32) ^ 31) i \<longleftrightarrow> i = 31" "bit ((2 :: u32) ^ 25) i \<longleftrightarrow> i = 25"
    unfolding bit_exp_iff by auto
  then show "bit eventCLEAR_EVENTS_ON_EXIT_BIT i \<longleftrightarrow> i = 24" "bit eventWAIT_FOR_ALL_BITS i \<longleftrightarrow> i = 26"
    "bit taskEVENT_LIST_ITEM_VALUE_IN_USE i \<longleftrightarrow> i = 31" "bit eventUNBLOCKED_DUE_TO_BIT_SET i \<longleftrightarrow> i = 25" by simp_all
qed

lemma user_bits:
  assumes "w AND eventEVENT_BITS_CONTROL_BYTES = 0"
  shows "take_bit 24 w = w" "bit w i \<Longrightarrow> i < 24"
proof -
  from and_not_same [OF assms] show eq: "take_bit 24 w = w" by (simp only: control_free)
  show "i < 24" if "bit w i" 
  proof -
    have "bit (take_bit 24 w) i" using that by (simp only: eq)
    then show ?thesis by (simp add: bit_take_bit_iff)
  qed
qed

lemma wait_value:
  fixes c a :: bool
  assumes w: "w AND eventEVENT_BITS_CONTROL_BYTES = 0"
  defines "v \<equiv> (w OR wait_control_bits c a) OR taskEVENT_LIST_ITEM_VALUE_IN_USE"
  shows "satisfied v bits \<longleftrightarrow> prvTestWaitCondition bits w a" "clears v i \<longleftrightarrow> c \<and> bit w i"
proof -
  have v: "bit v i \<longleftrightarrow> bit w i \<or> (c \<and> i = 24) \<or> (a \<and> i = 26) \<or> i = 31" for i
    unfolding v_def wait_control_bits_def Let_def by (cases c; cases a; simp only: if_True if_False or.left_neutral bit_or_iff flag_bits) auto
  have aw: "awaited v = {i. bit w i}" using user_bits(2) [OF w] by (auto simp: awaited_def v)
  have "bit v 26 \<longleftrightarrow> a" "bit v 24 \<longleftrightarrow> c" using user_bits(2) [OF w, of 26] user_bits(2) [OF w, of 24] by (auto simp: v)
  moreover have "prvTestWaitCondition bits w a \<longleftrightarrow> (if a then {i. bit w i} \<subseteq> {i. bit bits i} else {i. bit w i} \<inter> {i. bit bits i} \<noteq> {})"
    unfolding prvTestWaitCondition_def and.commute [of bits w] and_zero_iff and_same_iff by auto
  ultimately show "satisfied v bits \<longleftrightarrow> prvTestWaitCondition bits w a" "clears v i \<longleftrightarrow> c \<and> bit w i"
    by (auto simp: satisfied_def clears_def aw)
qed

lemma wait_enter_blocks:
  assumes S: "settled T E (gkern s)" and l: "xTasksWaitingForBits g \<in> E" and n: "n \<noteq> 0" and t: "pxCurrentTCB (gkern s) = t"
    and u: "u \<in> T - {t}" "status (gkern s) u = Ready" and c: "\<not> prvTestWaitCondition (uxEventBits s g) w a"
  shows "\<exists>s'. wait_bits_enter g w clr a n s = Some (0, n, s') \<and> settled T E (gkern s') \<and> pxCurrentTCB (gkern s') \<noteq> t \<and>
    status (gkern s') t = block_status n True \<and> waits_in (gkern s') (xTasksWaitingForBits g) t \<and>
    xItemValue (kl (gkern s')) (xEventListItem t) = (w OR wait_control_bits clr a) OR taskEVENT_LIST_ITEM_VALUE_IN_USE \<and>
    uxEventBits s' = uxEventBits s \<and>
    (\<forall>v \<in> T - {t}. pxContainer (kl (gkern s')) (xEventListItem v) = pxContainer (kl (gkern s)) (xEventListItem v) \<and>
      xItemValue (kl (gkern s')) (xEventListItem v) = xItemValue (kl (gkern s)) (xEventListItem v))"
proof -
  let ?l = "xTasksWaitingForBits g" and ?k = "vTaskSuspendAll (gkern s)"
  note U = suspend_settled [OF S]
  obtain G where G: "blocking T E ?k G" using U(2) by blast
  have q: "quiet T (gkern s)" "uxCurrentNumberOfTasks (gkern s) > 0" and hi: "highest_ready T (gkern s) t" using S t by (simp_all add: settled_def)
  have ct: "pxCurrentTCB ?k = t" using t by (simp add: U(1))
  have tT: "t \<in> T" "task_ready ?k t" using hi by (simp_all add: highest_ready_def U(1) task_ready_def ready_list_def)
  from place_unordered [OF G, unfolded ct, OF tT l n, of "w OR wait_control_bits clr a"] obtain k1 G1 where
    k1: "vTaskPlaceOnUnorderedEventList ?l (w OR wait_control_bits clr a) n ?k = Some k1" "blocking T E k1 G1"
      "kframe (?k\<lparr>xNextTaskUnblockTime := xNextTaskUnblockTime k1\<rparr>) k1" "status k1 t = block_status n True"
      "pxContainer (kl k1) (xEventListItem t) = ?l"
      "xItemValue (kl k1) (xEventListItem t) = (w OR wait_control_bits clr a) OR taskEVENT_LIST_ITEM_VALUE_IN_USE"
    and other: "\<And>y. y \<in> items T - {xStateListItem t, xEventListItem t} \<Longrightarrow>
      pxContainer (kl k1) y = pxContainer (kl ?k) y \<and> xItemValue (kl k1) y = xItemValue (kl ?k) y" by blast
  note F = kframe_fields [OF k1(3), simplified]
  have su: "uxSchedulerSuspended k1 = 1" "uxPendedTicks k1 = 0" "uxCurrentNumberOfTasks k1 > 0"
    using F(12,17) q kframe_number [OF k1(3)] by (simp_all add: U(1) quiet_def)
  note ap = layout_items [OF kcoreD(2) [OF blockingD(2) [OF G]]]
  have ev: "\<forall>v \<in> T. pxContainer (kl k1) (xEventListItem v) \<noteq> xPendingReadyList k1"
  proof
    fix v assume v: "v \<in> T"
    have "?l \<noteq> xPendingReadyList ?k" by (rule state_event_apart(3) [OF blockingD(2) [OF G] l])
    moreover have "pxContainer (kl ?k) (xEventListItem v) \<noteq> xPendingReadyList ?k" using q(1) v by (simp add: U(1) quiet_def)
    ultimately show "pxContainer (kl k1) (xEventListItem v) \<noteq> xPendingReadyList k1"
      using k1(5) other [of "xEventListItem v"] items_in(2) [OF v] ap [OF tT(1) v] F(15) by (cases "v = t") auto
  qed
  have ur: "task_ready k1 u"
  proof -
    have "xStateListItem u \<in> items T - {xStateListItem t, xEventListItem t}" using u(1) ap [of u t] tT(1) items_in(1) by auto
    moreover have "task_ready ?k u" using u(2) by (simp add: status_def U(1) task_ready_def ready_list_def split: if_splits)
    moreover have "ready_list k1 = ready_list ?k" using F(4) by (simp add: ready_list_def fun_eq_iff)
    ultimately show ?thesis using other F(6) by (simp add: task_ready_def)
  qed
  have uT: "u \<in> T" using u(1) by simp
  from resume_settled(2) [OF k1(2) su ev uT ur] obtain k2 where
    k2: "xTaskResumeAll k1 \<bind> (\<lambda>(y, s). if \<not> y then vTaskSwitchContext s else Some s) = Some k2" "settled T E k2" "same_tasks k1 k2" by blast
  let ?s1 = "with_kernel k1 (group_suspend s)" and ?s2 = "with_kernel k2 (with_kernel k1 (group_suspend s))"
  have ry: "group_resume_yield ?s1 = Some ?s2"
    using k2(1) by (auto simp: group_resume_yield_def group_resume_def with_kernel_def split: bind_splits if_splits)
  have "wait_bits_enter g w clr a n s = Some (0, n, ?s2)"
    using n c by (simp add: wait_bits_enter_def k1(1) ry)
  moreover have "pxCurrentTCB k2 \<noteq> t"
  proof
    assume "pxCurrentTCB k2 = t"
    then have "status k2 t = Ready" using k2(2) by (simp add: settled_def highest_ready_def status_def task_ready_def)
    then show False using k1(4) k2(3) by (simp add: same_tasks_def block_status_def split: if_splits)
  qed
  moreover have "pxContainer (kl k2) (xEventListItem v) = pxContainer (kl (gkern s)) (xEventListItem v) \<and>
      xItemValue (kl k2) (xEventListItem v) = xItemValue (kl (gkern s)) (xEventListItem v)" if v: "v \<in> T - {t}" for v
  proof -
    have "xEventListItem v \<in> items T - {xStateListItem t, xEventListItem t}" using v ap [of t v] tT(1) items_in(2) by auto
    then show ?thesis using other k2(3) by (simp add: same_tasks_def U(1))
  qed
  ultimately show ?thesis using k1(4-6) k2(2,3) by (simp add: same_tasks_def waits_in_def)
qed

section \<open>Deletion\<close>

text \<open>Deleting a group wakes every task that waits for it.\<close>

lemma release_waiters_spec:
  assumes "blocking T E s G" and l: "l \<in> E"
  shows "\<exists>s'. release_waiters l s = Some s' \<and> released T E (waiters T s l) eventUNBLOCKED_DUE_TO_BIT_SET s s'"
  using assms(1)
proof (induction "G l" arbitrary: s G)
  case Nil
  have le: "l \<in> event_lists E s" using l by (simp add: event_lists_def)
  note K = blockingD(2) [OF Nil.prems]
  have "listLIST_IS_EMPTY l (kl s)" using rings_empty [OF kcoreD(1) [OF K], of l] le Nil.hyps by simp
  moreover have "waiters T s l = {}" using waiters_list(1) [OF K le] Nil.hyps by simp
  ultimately show ?case using released_none [OF Nil.prems]
    by (subst release_waiters.simps) (simp add: listLIST_IS_EMPTY_def listCURRENT_LIST_LENGTH_def)
next
  case (Cons x xs)
  have le: "l \<in> event_lists E s" using l by (simp add: event_lists_def)
  note W = Cons.prems
  note K = blockingD(2) [OF W]
  have G: "G l = x # xs" using Cons.hyps(2) by simp
  have hd: "pxNext (kl s) (xListEnd l) = x" using head_of_list [OF W le] G by (simp add: listGET_HEAD_ENTRY_def)
  have "x \<in> xEventListItem ` waiters T s l" using waiters_list(1) [OF K le] G by simp
  then obtain t where t: "t \<in> T" "x = xEventListItem t" "pxContainer (kl s) (xEventListItem t) = l" by (auto simp: waiters_def waits_in_def)
  have "\<not> listLIST_IS_EMPTY l (kl s)" using rings_empty [OF kcoreD(1) [OF K], of l] le G by simp
  then have ne: "listCURRENT_LIST_LENGTH l (kl s) > 0" by (simp add: listLIST_IS_EMPTY_def listCURRENT_LIST_LENGTH_def word_gt_0)
  let ?s1 = "vTaskRemoveFromUnorderedEventList (xEventListItem t) eventUNBLOCKED_DUE_TO_BIT_SET s"
  note M = unordered_remove [OF W t(1,3) le, where v = eventUNBLOCKED_DUE_TO_BIT_SET]
  from M(1) obtain G1 where G1: "blocking T E ?s1 G1" "G1 l = xs" using G t(2) by auto
  from Cons.hyps(1) [OF G1(2) [symmetric] G1(1)] obtain s' where
    s': "release_waiters l ?s1 = Some s'" "released T E (waiters T ?s1 l) eventUNBLOCKED_DUE_TO_BIT_SET ?s1 s'" by blast
  have l0: "l \<noteq> 0" by (rule state_event_apart(2) [OF K l])
  have ev: "pxContainer (kl ?s1) (xEventListItem u) = (if u = t then 0 else pxContainer (kl s) (xEventListItem u))" if "u \<in> T" for u
    using M(4) [OF items_in(2) [OF that]] layout_items [OF kcoreD(2) [OF K] t(1) that] by (cases "u = t") auto
  have w1: "waiters T ?s1 l = waiters T s l - {t}" using ev l0 by (auto simp: waiters_def waits_in_def split: if_splits)
  have w: "waiters T s l = insert t (waiters T ?s1 l)" using t(1,3) unfolding w1 by (auto simp: waiters_def waits_in_def)
  have sub: "waiters T ?s1 l \<subseteq> T - {t}" unfolding w1 by (auto simp: waiters_def)
  have "released T E (waiters T s l) eventUNBLOCKED_DUE_TO_BIT_SET s s'"
    unfolding w by (rule released_step [OF W t(1,3) le s'(2) sub])
  moreover have "release_waiters l s = release_waiters l ?s1" using ne hd t(2) by (subst release_waiters.simps) simp
  ultimately show ?case using s'(1) by simp
qed

text \<open>A task that the deletion of the group wakes returns with no bits.\<close>

lemma delete_releases:
  assumes S: "settled T E (gkern s)" and l: "xTasksWaitingForBits g \<in> E" and h: "vPortFree xStart g (heap4 (sys s)) = Some h"
  shows "\<exists>s'. vEventGroupDelete xStart g s = Some s' \<and> settled T E (gkern s') \<and> heap4 (sys s') = h \<and>
    (\<forall>t \<in> T. waits_in (gkern s) (xTasksWaitingForBits g) t \<longrightarrow> status (gkern s') t = Ready \<and> \<not> waits_in (gkern s') (xTasksWaitingForBits g) t \<and>
      (\<forall>s2 w c a. pxCurrentTCB (gkern s2) = t \<and> xItemValue (kl (gkern s2)) (xEventListItem t) = xItemValue (kl (gkern s')) (xEventListItem t) \<longrightarrow>
        fst (wait_bits_exit g w c a s2) = 0))"
proof -
  let ?l = "xTasksWaitingForBits g" and ?k = "vTaskSuspendAll (gkern s)"
  note U = suspend_settled [OF S]
  obtain G where G: "blocking T E ?k G" using U(2) by blast
  from release_waiters_spec [OF G l] obtain k1 where
    k1: "release_waiters ?l ?k = Some k1" "released T E (waiters T ?k ?l) eventUNBLOCKED_DUE_TO_BIT_SET ?k k1" by blast
  have w: "waiters T ?k ?l = {t \<in> T. waits_in (gkern s) ?l t}" by (simp add: waiters_def waits_in_def U(1))
  have "waiters T ?k ?l \<subseteq> T" by (auto simp: waiters_def)
  from released_resume [OF S k1(2) this] obtain r k2 where
    k2: "xTaskResumeAll k1 = Some (r, k2)" "settled T E k2" "same_tasks k1 k2"
      "\<forall>u \<in> T. status k2 u = (if u \<in> waiters T ?k ?l then Ready else status (gkern s) u)" by blast
  have l0: "?l \<noteq> 0" by (rule state_event_apart(2) [OF blockingD(2) [OF G] l])
  have val: "xItemValue (kl k2) (xEventListItem t) = eventUNBLOCKED_DUE_TO_BIT_SET OR taskEVENT_LIST_ITEM_VALUE_IN_USE"
    "pxContainer (kl k2) (xEventListItem t) = 0" if "t \<in> T" "waits_in (gkern s) ?l t" for t
    using k1(2) k2(3) that by (simp_all add: released_def same_tasks_def w)
  let ?s' = "with_kernel k2 ((with_kernel k1 (group_suspend s))\<lparr>sys := (sys (with_kernel k1 (group_suspend s)))\<lparr>heap4 := h\<rparr>\<rparr>)"
  have "vEventGroupDelete xStart g s = Some ?s'"
    using h k1(1) k2(1) by (simp add: vEventGroupDelete_def group_resume_def with_kernel_def group_suspend_def)
  moreover have "heap4 (sys ?s') = h" by (simp add: with_kernel_def)
  moreover have "fst (wait_bits_exit g v c a s2) = 0" if "pxCurrentTCB (gkern s2) = t"
      "xItemValue (kl (gkern s2)) (xEventListItem t) = eventUNBLOCKED_DUE_TO_BIT_SET OR taskEVENT_LIST_ITEM_VALUE_IN_USE" for s2 v c a t
    using that by (simp add: wait_bits_exit_def uxTaskResetEventItemValue_def)
  ultimately show ?thesis using k2(2,4) val w l0 by (intro exI [of _ ?s']) (simp add: waits_in_def)
qed

section \<open>The properties\<close>

text \<open>C36: Setting bits of an event group wakes exactly the waiting tasks whose condition the new value satisfies, each of which finds that value,
  all other tasks keep waiting, exactly the bits that a woken task asked to have cleared are cleared, and the running task is of the highest ready priority
  again when the function returns.\<close>

theorem set_bits_wakes:
  assumes "settled T E (gkern s)" "xTasksWaitingForBits g \<in> E"
  shows "\<exists>s'. xEventGroupSetBits env g b s = Some (uxEventBits (env s') g, env s') \<and> settled T E (gkern s') \<and>
    bits_set T g (woken_by T (xTasksWaitingForBits g) (uxEventBits s g OR b) (gkern s)) (uxEventBits s g OR b) s s'"
  by (rule set_bits_spec [OF assms])

lemma wait_exit_woken:
  assumes t: "pxCurrentTCB (gkern s) = t" and v: "xItemValue (kl (gkern s)) (xEventListItem t) = (bits OR eventUNBLOCKED_DUE_TO_BIT_SET) OR taskEVENT_LIST_ITEM_VALUE_IN_USE"
  shows "wait_bits_exit g w c a s =
    (take_bit 24 bits, with_kernel (set_event_value t (configMAX_PRIORITIES - uxPriority (gkern s) t) (gkern s)) s)"
proof -
  let ?v = "(bits OR eventUNBLOCKED_DUE_TO_BIT_SET) OR taskEVENT_LIST_ITEM_VALUE_IN_USE"
  have "bit ?v i \<longleftrightarrow> bit bits i \<or> i = 25 \<or> i = 31" for i unfolding bit_or_iff flag_bits by blast
  then have "take_bit 24 ?v = take_bit 24 bits" and "bit ?v 25" by (auto intro!: bit_eqI simp: bit_take_bit_iff)
  then have "?v AND NOT eventEVENT_BITS_CONTROL_BYTES = take_bit 24 bits" "?v AND eventUNBLOCKED_DUE_TO_BIT_SET \<noteq> 0"
    unfolding control_free control_flag by blast+
  then show ?thesis by (simp only: wait_bits_exit_def uxTaskResetEventItemValue_def t v Let_def prod.case if_False)
qed

lemma test_user_bits:
  assumes "w AND eventEVENT_BITS_CONTROL_BYTES = 0"
  shows "prvTestWaitCondition (take_bit 24 bits) w a = prvTestWaitCondition bits w a"
proof -
  have "take_bit 24 bits AND w = bits AND w" using user_bits(2) [OF assms] by (auto intro!: bit_eqI simp: bit_and_iff bit_take_bit_iff)
  then show ?thesis by (simp add: prvTestWaitCondition_def)
qed

text \<open>The other tasks use event groups while \<open>t\<close> waits for the bits \<open>w\<close> of the group \<open>g\<close>, all of them if \<open>a\<close>: they set bits, of this group none that
  satisfy its condition, clear bits, block for bits, return from such a wait, and give up the processor.\<close>

inductive group_run :: "u32 set \<Rightarrow> u32 set \<Rightarrow> u32 \<Rightarrow> u32 \<Rightarrow> bool \<Rightarrow> group_system \<Rightarrow> group_system \<Rightarrow> bool" for T E g w a s where
  run_none: "group_run T E g w a s s"
| run_set: "group_run T E g w a s s1 \<Longrightarrow> xTasksWaitingForBits h \<in> E \<Longrightarrow> (h = g \<longrightarrow> \<not> prvTestWaitCondition (uxEventBits s1 g OR b) w a) \<Longrightarrow>
    xEventGroupSetBits id h b s1 = Some (r, s2) \<Longrightarrow> group_run T E g w a s s2"
| run_clear: "group_run T E g w a s s1 \<Longrightarrow> xEventGroupClearBits h b s1 = (r, s2) \<Longrightarrow> group_run T E g w a s s2"
| run_wait: "group_run T E g w a s s1 \<Longrightarrow> xTasksWaitingForBits h \<in> E \<Longrightarrow> m \<noteq> 0 \<Longrightarrow> \<not> prvTestWaitCondition (uxEventBits s1 h) w' a' \<Longrightarrow>
    u \<in> T - {pxCurrentTCB (gkern s1)} \<Longrightarrow> status (gkern s1) u = Ready \<Longrightarrow>
    wait_bits_enter h w' c' a' m s1 = Some (r, m', s2) \<Longrightarrow> group_run T E g w a s s2"
| run_exit: "group_run T E g w a s s1 \<Longrightarrow> wait_bits_exit h w' c' a' s1 = (r, s2) \<Longrightarrow> group_run T E g w a s s2"
| run_yield: "group_run T E g w a s s1 \<Longrightarrow> vTaskSwitchContext (gkern s1) = Some k \<Longrightarrow> group_run T E g w a s (with_kernel k s1)"

text \<open>\<open>t\<close> still waits for bits of \<open>g\<close>, with the value \<open>v\<close> in its event item.\<close>

definition still_waits :: "u32 set \<Rightarrow> u32 set \<Rightarrow> u32 \<Rightarrow> u32 \<Rightarrow> u32 \<Rightarrow> group_system \<Rightarrow> bool" where
  "still_waits T E g t v s \<longleftrightarrow> settled T E (gkern s) \<and> waits_in (gkern s) (xTasksWaitingForBits g) t \<and> xItemValue (kl (gkern s)) (xEventListItem t) = v"

lemma still_waits_current:
  assumes W: "still_waits T E g t v s" and l: "xTasksWaitingForBits g \<in> E" and t: "t \<in> T"
  shows "pxCurrentTCB (gkern s) \<noteq> t"
proof
  assume c: "pxCurrentTCB (gkern s) = t"
  obtain G where G: "blocking T E (gkern s) G" and h: "highest_ready T (gkern s) t" using W c by (auto simp: still_waits_def settled_def)
  have "pxContainer (kl (gkern s)) (xStateListItem t) \<in> ready_lists (gkern s)"
  proof -
    have "task_ready (gkern s) t" using h by (simp add: highest_ready_def task_ready_def)
    then show ?thesis using task_ready_in [OF blockingD(2) [OF G] t] by blast
  qed
  moreover have "pxContainer (kl (gkern s)) (xEventListItem t) \<in> event_lists E (gkern s)"
    using W l by (simp add: still_waits_def waits_in_def event_lists_def)
  ultimately show False using blockingD(4) [OF G t] by blast
qed

lemma settled_set_value:
  assumes S: "settled T E s" and t: "t \<in> T"
  shows "settled T E (set_event_value t v s)"
proof -
  obtain G where G: "blocking T E s G" using S by (auto simp: settled_def)
  have "set_event_value t v s = s\<lparr>kl := kl (set_event_value t v s)\<rparr>" "pxContainer (kl (set_event_value t v s)) = pxContainer (kl s)"
    using set_event_value_kcore(3) [OF blockingD(2) [OF G] t] by (simp_all add: set_event_value_def)
  then have "quiet T (set_event_value t v s) = quiet T s" "highest_ready T (set_event_value t v s) = highest_ready T s"
    "uxCurrentNumberOfTasks (set_event_value t v s) = uxCurrentNumberOfTasks s" "pxCurrentTCB (set_event_value t v s) = pxCurrentTCB s"
    by (simp_all add: quiet_def highest_ready_def ready_lists_def ready_list_def task_ready_def set_event_value_def fun_eq_iff)
  then show ?thesis using S blocking_set_value [OF G t, of v] unfolding settled_def by auto
qed

lemma still_waits_cong:
  assumes "still_waits T E g t v s" "settled T E (gkern s')"
    "pxContainer (kl (gkern s')) (xEventListItem t) = pxContainer (kl (gkern s)) (xEventListItem t)"
    "xItemValue (kl (gkern s')) (xEventListItem t) = xItemValue (kl (gkern s)) (xEventListItem t)"
  shows "still_waits T E g t v s'"
  using assms by (simp add: still_waits_def waits_in_def)

lemma group_run_waits:
  assumes "group_run T E g w a s s'" and W: "still_waits T E g t v s" and l: "xTasksWaitingForBits g \<in> E" and t: "t \<in> T"
    and v: "\<And>bits. satisfied v bits \<longleftrightarrow> prvTestWaitCondition bits w a"
  shows "still_waits T E g t v s'"
  using assms(1)
proof (induction rule: group_run.induct)
  case run_none
  show ?case by (rule W)
next
  case (run_set s1 h b r s2)
  have S: "settled T E (gkern s1)" using run_set.IH by (simp add: still_waits_def)
  let ?W = "woken_by T (xTasksWaitingForBits h) (uxEventBits s1 h OR b) (gkern s1)"
  from set_bits_spec [OF S run_set.hyps(2), where env = id and b = b] run_set.hyps(4) have
    s2: "settled T E (gkern s2)" "bits_set T h ?W (uxEventBits s1 h OR b) s1 s2" by auto
  have "t \<notin> ?W"
  proof (cases "h = g")
    case True
    then show ?thesis using run_set.hyps(3) run_set.IH v by (auto simp: woken_by_def still_waits_def)
  next
    case False
    then have "xTasksWaitingForBits h \<noteq> xTasksWaitingForBits g" by (simp add: xTasksWaitingForBits_def)
    then show ?thesis using run_set.IH by (simp add: woken_by_def still_waits_def waits_in_def)
  qed
  then show ?case using s2 t by (intro still_waits_cong [OF run_set.IH]) (simp_all add: bits_set_def)
next
  case (run_clear s1 h b r s2)
  then show ?case by (auto simp: xEventGroupClearBits_def still_waits_def)
next
  case (run_wait s1 h m w' a' u c' r m' s2)
  have S: "settled T E (gkern s1)" using run_wait.IH by (simp add: still_waits_def)
  have "t \<in> T - {pxCurrentTCB (gkern s1)}" using still_waits_current [OF run_wait.IH l t] t by auto
  with wait_enter_blocks [OF S run_wait.hyps(2,3) refl run_wait.hyps(5,6,4), of c'] run_wait.hyps(7)
  show ?case by (intro still_waits_cong [OF run_wait.IH]) auto
next
  case (run_exit s1 h w' c' a' r s2)
  let ?c = "pxCurrentTCB (gkern s1)"
  have S: "settled T E (gkern s1)" using run_exit.IH by (simp add: still_waits_def)
  have ct: "?c \<in> T" using S by (simp add: settled_def highest_ready_def)
  have ne: "?c \<noteq> t" by (rule still_waits_current [OF run_exit.IH l t])
  obtain G where G: "blocking T E (gkern s1) G" using S by (auto simp: settled_def)
  have "gkern s2 = set_event_value ?c (configMAX_PRIORITIES - uxPriority (gkern s1) ?c) (gkern s1)"
    using run_exit.hyps(2) by (auto simp: wait_bits_exit_def uxTaskResetEventItemValue_def Let_def split: if_splits)
  moreover have "xEventListItem t \<noteq> xEventListItem ?c" using ne by (simp add: xEventListItem_def)
  ultimately show ?case
    using settled_set_value [OF S ct] set_event_value_kcore(3,4) [OF blockingD(2) [OF G] ct]
    by (intro still_waits_cong [OF run_exit.IH]) simp_all
next
  case (run_yield s1 k)
  have S: "settled T E (gkern s1)" using run_yield.IH by (simp add: still_waits_def)
  then obtain G where G: "blocking T E (gkern s1) G" "quiet T (gkern s1)" "uxCurrentNumberOfTasks (gkern s1) > 0"
    "highest_ready T (gkern s1) (pxCurrentTCB (gkern s1))" by (auto simp: settled_def)
  then have "pxCurrentTCB (gkern s1) \<in> T" "task_ready (gkern s1) (pxCurrentTCB (gkern s1))" by (simp_all add: highest_ready_def task_ready_def)
  from switch_settled [OF G(1-3) this] run_yield.hyps(2) have "settled T E k" "same_tasks (gkern s1) k" by auto
  then show ?case by (intro still_waits_cong [OF run_yield.IH]) (simp_all add: same_tasks_def)
qed

text \<open>C37: A task that waits for bits gets them, if its wait is not ended otherwise. It blocks in the list of the group while another task runs. It still waits, with its event item as it
  was, after any sequence of calls by which the other tasks set bits that do not satisfy its condition, clear bits, wait for bits of any group, return
  from a wait and give up the processor. Whenever it still waits, in whatever way that state was reached, and bits are set that satisfy its condition, it becomes ready; and when it runs again
  with its event item untouched, the call returns a value that satisfies the
  condition, the bits the task asked to have cleared are clear, and its event item is fit for queues again. A time out, a suspension, its deletion or that of the group
  end the wait before.\<close>

theorem bits_reach_waiter:
  assumes "settled T E (gkern s)" "xTasksWaitingForBits g \<in> E" "n \<noteq> 0" "pxCurrentTCB (gkern s) = t" "u \<in> T - {t}" "status (gkern s) u = Ready"
    and w: "w AND eventEVENT_BITS_CONTROL_BYTES = 0" and c: "\<not> prvTestWaitCondition (uxEventBits s g) w a"
  shows "\<exists>s1 v. wait_bits_enter g w clr a n s = Some (0, n, s1) \<and> still_waits T E g t v s1 \<and> pxCurrentTCB (gkern s1) \<noteq> t \<and>
      status (gkern s1) t = block_status n True \<and>
    (\<forall>s2. group_run T E g w a s1 s2 \<longrightarrow> still_waits T E g t v s2) \<and>
    (\<forall>s2 b. still_waits T E g t v s2 \<and> prvTestWaitCondition (uxEventBits s2 g OR b) w a \<longrightarrow>
      (\<exists>s3. xEventGroupSetBits id g b s2 = Some (uxEventBits s3 g, s3) \<and> status (gkern s3) t = Ready \<and> (clr \<longrightarrow> uxEventBits s3 g AND w = 0) \<and>
        (\<forall>s4. pxCurrentTCB (gkern s4) = t \<and> xItemValue (kl (gkern s4)) (xEventListItem t) = xItemValue (kl (gkern s3)) (xEventListItem t) \<longrightarrow>
          (\<exists>r s5. wait_bits_exit g w clr a s4 = (r, s5) \<and> r = take_bit 24 (uxEventBits s2 g OR b) \<and> prvTestWaitCondition r w a \<and>
            xItemValue (kl (gkern s5)) (xEventListItem t) = configMAX_PRIORITIES - uxPriority (gkern s5) t))))"
proof -
  have t: "t \<in> T" using assms(1,4) by (auto simp: settled_def highest_ready_def)
  let ?l = "xTasksWaitingForBits g" and ?v = "(w OR wait_control_bits clr a) OR taskEVENT_LIST_ITEM_VALUE_IN_USE"
  from wait_enter_blocks [OF assms(1-6) c, of clr] obtain s1 where
    s1: "wait_bits_enter g w clr a n s = Some (0, n, s1)" "still_waits T E g t ?v s1" "pxCurrentTCB (gkern s1) \<noteq> t"
      "status (gkern s1) t = block_status n True" unfolding still_waits_def by blast
  note wv = wait_value [OF w, of clr a]
  have "\<exists>s3. xEventGroupSetBits id g b s2 = Some (uxEventBits s3 g, s3) \<and> status (gkern s3) t = Ready \<and> (clr \<longrightarrow> uxEventBits s3 g AND w = 0) \<and>
      (\<forall>s4. pxCurrentTCB (gkern s4) = t \<and> xItemValue (kl (gkern s4)) (xEventListItem t) = xItemValue (kl (gkern s3)) (xEventListItem t) \<longrightarrow>
        (\<exists>r s5. wait_bits_exit g w clr a s4 = (r, s5) \<and> r = take_bit 24 (uxEventBits s2 g OR b) \<and> prvTestWaitCondition r w a \<and>
          xItemValue (kl (gkern s5)) (xEventListItem t) = configMAX_PRIORITIES - uxPriority (gkern s5) t))"
    if h: "settled T E (gkern s2)" "waits_in (gkern s2) ?l t" "xItemValue (kl (gkern s2)) (xEventListItem t) = ?v"
      "prvTestWaitCondition (uxEventBits s2 g OR b) w a" for s2 b
  proof -
    let ?bits = "uxEventBits s2 g OR b"
    let ?W = "woken_by T ?l ?bits (gkern s2)"
    from set_bits_spec [OF h(1) assms(2), where env = id and b = b] obtain s3 where
      s3: "xEventGroupSetBits id g b s2 = Some (uxEventBits s3 g, s3)" "bits_set T g ?W ?bits s2 s3" by auto
    have tw: "t \<in> ?W" using t h(2,4) wv(1) by (simp add: woken_by_def h(3))
    have e: "status (gkern s3) t = Ready"
      "xItemValue (kl (gkern s3)) (xEventListItem t) = (?bits OR eventUNBLOCKED_DUE_TO_BIT_SET) OR taskEVENT_LIST_ITEM_VALUE_IN_USE"
      using s3(2) t tw by (simp_all add: bits_set_def)
    have "uxEventBits s3 g AND w = 0" if clr
    proof -
      have "clears (xItemValue (kl (gkern s2)) (xEventListItem t)) i" if "bit w i" for i unfolding h(3) using wv(2) [of i] \<open>clr\<close> that by blast
      then have "\<not> bit (uxEventBits s3 g) i" if "bit w i" for i using s3(2) tw that unfolding bits_set_def by blast
      then show ?thesis unfolding and_zero_iff by blast
    qed
    moreover have "prvTestWaitCondition (take_bit 24 ?bits) w a" using h(4) by (simp only: test_user_bits [OF w])
    moreover have "xItemValue (kl (gkern s5)) (xEventListItem t) = configMAX_PRIORITIES - uxPriority (gkern s5) t"
      if "s5 = with_kernel (set_event_value t (configMAX_PRIORITIES - uxPriority (gkern s4) t) (gkern s4)) s4" for s4 s5
      by (simp add: that set_event_value_def listSET_LIST_ITEM_VALUE_def)
    ultimately show ?thesis using s3(1) e wait_exit_woken by (intro exI [of _ s3]) simp
  qed
  then show ?thesis using s1 group_run_waits [OF _ s1(2) assms(2) t wv(1)] by (intro exI [of _ s1] exI [of _ ?v]) (simp add: still_waits_def)
qed

text \<open>A group at 1996, whose list is at 2000, in the kernel of the demonstration.\<close>

definition demo_group :: group_system where
  "demo_group = \<lparr>sys = demo_system\<lparr>kern := demo_started\<lparr>kl := vListInitialise 2000 (kl demo_started), uxCurrentNumberOfTasks := 4\<rparr>\<rparr>,
     uxEventBits = (\<lambda>_. 1), uxEventGroupNumber = (\<lambda>_. 0)\<rparr>"

lemma demo_settled:
  "settled {100, 200, 300, 400} {2000} (gkern demo_group)" "xTasksWaitingForBits 1996 \<in> {2000}"
  "\<exists>u \<in> {100, 200, 300, 400} - {pxCurrentTCB (gkern demo_group)}. status (gkern demo_group) u = Ready" "uxEventBits demo_group 1996 = 1"
proof -
  let ?T = "{100, 200, 300, 400 :: u32}" and ?v = "demo_started\<lparr>kl := vListInitialise 2000 (kl demo_started)\<rparr>"
  have k: "gkern demo_group = ?v\<lparr>uxCurrentNumberOfTasks := 4\<rparr>" by (simp add: demo_group_def)
  obtain G where G: "waiting ?T {} demo_started G" using demo_started_waiting by blast
  have Q: "quiet ?T demo_started" using demo_started_scheduled(1) by (simp add: scheduled_def)
  have "2000 \<notin> kernel_lists {} demo_started" using demo_places(3) same_places_fields(5) [OF demo_started_scheduled(5)] by simp
  then have W: "waiting ?T {2000} ?v (G(2000 := []))" and "quiet ?T ?v" using waiting_list_added [OF G _ _ demo_places(4)] Q by simp_all
  then have "quiet ?T (gkern demo_group)" by (simp add: k quiet_def)
  moreover have "waiting ?T {2000} (gkern demo_group) (G(2000 := []))" unfolding k waiting_number by (rule W)
  then have "blocking ?T {2000} (gkern demo_group) (G(2000 := []))" by (simp only: waiting_blocking)
  moreover have "ready_list (gkern demo_group) = ready_list demo_started" by (simp add: k ready_list_def fun_eq_iff)
  then have r: "task_ready (gkern demo_group) = task_ready demo_started" and "highest_ready ?T (gkern demo_group) (pxCurrentTCB (gkern demo_group))"
    using demo_started_scheduled(7) by (simp_all add: k task_ready_def highest_ready_def ready_lists_def fun_eq_iff)
  moreover have "uxCurrentNumberOfTasks (gkern demo_group) > 0" by (simp add: k)
  ultimately show "settled ?T {2000} (gkern demo_group)" unfolding settled_def by blast
  show "xTasksWaitingForBits 1996 \<in> {2000}" "uxEventBits demo_group 1996 = 1" by (simp_all add: xTasksWaitingForBits_def demo_group_def)
  define u :: u32 where "u = (if pxCurrentTCB (gkern demo_group) = 100 then 200 else 100)"
  have "u \<in> ?T - {pxCurrentTCB (gkern demo_group)}" by (simp add: u_def)
  moreover have "task_ready demo_started u" using demo_started_scheduled(2) calculation by blast
  then have "status (gkern demo_group) u = Ready" by (simp add: status_def r)
  ultimately show "\<exists>u \<in> ?T - {pxCurrentTCB (gkern demo_group)}. status (gkern demo_group) u = Ready" by blast
qed

theorem set_bits_wakes_witness:
  "\<exists>s1 s2. wait_bits_enter 1996 6 True True portMAX_DELAY demo_group = Some (0, portMAX_DELAY, s1) \<and>
    xEventGroupSetBits id 1996 2 s1 = Some (uxEventBits s2 1996, s2) \<and> settled {100, 200, 300, 400} {2000} (gkern s2)"
proof -
  let ?t = "pxCurrentTCB (gkern demo_group)"
  obtain u where u: "u \<in> {100, 200, 300, 400} - {?t}" "status (gkern demo_group) u = Ready" using demo_settled(3) by blast
  have "\<not> prvTestWaitCondition (uxEventBits demo_group 1996) 6 True" by (simp add: prvTestWaitCondition_def demo_settled(4))
  moreover have "portMAX_DELAY \<noteq> 0" by simp
  ultimately obtain s1 where
    "wait_bits_enter 1996 6 True True portMAX_DELAY demo_group = Some (0, portMAX_DELAY, s1)" "settled {100, 200, 300, 400} {2000} (gkern s1)"
    using wait_enter_blocks [OF demo_settled(1,2) _ refl u, where clr = True] by blast
  then show ?thesis using set_bits_wakes [OF _ demo_settled(2), where env = id and b = 2 and s = s1] by auto
qed

theorem bits_reach_waiter_witness:
  "\<exists>s1 s3. wait_bits_enter 1996 6 True True portMAX_DELAY demo_group = Some (0, portMAX_DELAY, s1) \<and>
    xEventGroupSetBits id 1996 6 s1 = Some (uxEventBits s3 1996, s3) \<and> status (gkern s3) (pxCurrentTCB (gkern demo_group)) = Ready"
proof -
  let ?t = "pxCurrentTCB (gkern demo_group)"
  obtain u where u: "u \<in> {100, 200, 300, 400} - {?t}" "status (gkern demo_group) u = Ready" using demo_settled(3) by blast
  have c: "\<not> prvTestWaitCondition (uxEventBits demo_group 1996) 6 True" by (simp add: prvTestWaitCondition_def demo_settled(4))
  have w: "(6 :: u32) AND eventEVENT_BITS_CONTROL_BYTES = 0" by simp
  have n: "portMAX_DELAY \<noteq> 0" by simp
  have sat: "prvTestWaitCondition (x OR 6) 6 True" for x
    unfolding prvTestWaitCondition_def and.commute [of _ 6] and_same_iff by (auto simp: bit_or_iff)
  show ?thesis using bits_reach_waiter [OF demo_settled(1,2) n refl u w c, where clr = True] sat by blast
qed

end
