(* ===== verification/Rtos_Timers.thy ===== *)
theory Rtos_Timers
  imports Rtos_Groups
begin

unbundle bit_operations_syntax

text \<open>
  Software timers, \<^verbatim>\<open>src/ns_guest/lib/freertos/timers.c\<close>, and the functions of \<^verbatim>\<open>event_groups.c\<close> that use them. Timers are started and
  stopped by messages to the timer task, which keeps the active ones in two lists in order of expiry, one for the expiries before
  the tick count wraps and one for those after. The code of an application that the timer task calls is given by functions of the code
  address, which may not return; what other tasks and interrupts do while the timer task waits is a parameter as it is for queues.
\<close>

section \<open>State\<close>

record Timer_t =
  pcTimerName :: u32
  xTimerPeriodInTicks :: u32
  uxAutoReload :: u32
  pvTimerID :: u32
  pxTimerCallback :: u32
  uxTimerNumber :: u32

abbreviation sizeof_Timer_t :: u32 where "sizeof_Timer_t \<equiv> 44"
abbreviation sizeof_DaemonTaskMessage_t :: u32 where "sizeof_DaemonTaskMessage_t \<equiv> 16"
abbreviation configTIMER_QUEUE_LENGTH :: u32 where "configTIMER_QUEUE_LENGTH \<equiv> 10"

text \<open>The variables of the file beside the kernel, the queues and the event groups; \<open>xLastTime\<close> is the static variable
  of \<open>prvSampleTimeNow\<close>, the first two lists are addresses.\<close>

record timer_system =
  gsys :: group_system
  timers :: "u32 \<Rightarrow> Timer_t"
  xActiveTimerList1 :: u32
  xActiveTimerList2 :: u32
  pxCurrentTimerList :: u32
  pxOverflowTimerList :: u32
  xTimerQueue :: u32
  xTimerTaskHandle :: u32
  xLastTime :: u32

definition xTimerListItem :: "u32 \<Rightarrow> u32" where
  "xTimerListItem t = t + 4"

abbreviation tsys :: "timer_system \<Rightarrow> system" where "tsys s \<equiv> sys (gsys s)"
abbreviation tkern :: "timer_system \<Rightarrow> kernel" where "tkern s \<equiv> kern (tsys s)"

definition with_system :: "system \<Rightarrow> timer_system \<Rightarrow> timer_system" where
  "with_system y s = s\<lparr>gsys := (gsys s)\<lparr>sys := y\<rparr>\<rparr>"

definition with_lists :: "lists \<Rightarrow> timer_system \<Rightarrow> timer_system" where
  "with_lists l s = with_system ((tsys s)\<lparr>kern := (tkern s)\<lparr>kl := l\<rparr>\<rparr>) s"

definition set_timer :: "u32 \<Rightarrow> (Timer_t \<Rightarrow> Timer_t) \<Rightarrow> timer_system \<Rightarrow> timer_system" where
  "set_timer t f s = s\<lparr>timers := (timers s)(t := f (timers s t))\<rparr>"

text \<open>What surrounds the timer task: other tasks and interrupts in the gaps of the queue operations and after a yield, the code of timers and of
  pended functions, and the addresses of the local message variables of \<open>xTimerGenericCommand\<close> and \<open>prvProcessReceivedCommands\<close>.\<close>

record surroundings =
  gaps :: "nat \<Rightarrow> gap \<Rightarrow> system \<Rightarrow> system"
  others :: "timer_system \<Rightarrow> timer_system"
  timer_code :: "u32 \<Rightarrow> u32 \<Rightarrow> timer_system \<Rightarrow> timer_system option"
  pended_code :: "u32 \<Rightarrow> u32 \<Rightarrow> u32 \<Rightarrow> timer_system \<Rightarrow> timer_system option"
  command_local :: u32
  message_local :: u32

section \<open>Commands\<close>

abbreviation tmrCOMMAND_EXECUTE_CALLBACK_FROM_ISR :: u32 where "tmrCOMMAND_EXECUTE_CALLBACK_FROM_ISR \<equiv> - 2"
abbreviation tmrCOMMAND_EXECUTE_CALLBACK :: u32 where "tmrCOMMAND_EXECUTE_CALLBACK \<equiv> - 1"
abbreviation tmrCOMMAND_START_DONT_TRACE :: u32 where "tmrCOMMAND_START_DONT_TRACE \<equiv> 0"
abbreviation tmrCOMMAND_START :: u32 where "tmrCOMMAND_START \<equiv> 1"
abbreviation tmrCOMMAND_RESET :: u32 where "tmrCOMMAND_RESET \<equiv> 2"
abbreviation tmrCOMMAND_STOP :: u32 where "tmrCOMMAND_STOP \<equiv> 3"
abbreviation tmrCOMMAND_CHANGE_PERIOD :: u32 where "tmrCOMMAND_CHANGE_PERIOD \<equiv> 4"
abbreviation tmrCOMMAND_DELETE :: u32 where "tmrCOMMAND_DELETE \<equiv> 5"
abbreviation tmrFIRST_FROM_ISR_COMMAND :: u32 where "tmrFIRST_FROM_ISR_COMMAND \<equiv> 6"
abbreviation tmrCOMMAND_START_FROM_ISR :: u32 where "tmrCOMMAND_START_FROM_ISR \<equiv> 6"
abbreviation tmrCOMMAND_RESET_FROM_ISR :: u32 where "tmrCOMMAND_RESET_FROM_ISR \<equiv> 7"
abbreviation tmrCOMMAND_STOP_FROM_ISR :: u32 where "tmrCOMMAND_STOP_FROM_ISR \<equiv> 8"
abbreviation tmrCOMMAND_CHANGE_PERIOD_FROM_ISR :: u32 where "tmrCOMMAND_CHANGE_PERIOD_FROM_ISR \<equiv> 9"
abbreviation tmrNO_DELAY :: u32 where "tmrNO_DELAY \<equiv> 0"

text \<open>The words of a message written to the variable at \<open>a\<close>, little endian; a timer command leaves the last word of the union unset.\<close>

definition put_message :: "u32 \<Rightarrow> u32 list \<Rightarrow> timer_system \<Rightarrow> timer_system" where
  "put_message a ws s =
     with_system ((tsys s)\<lparr>bytes := copy_in a (4 * of_nat (length ws)) (\<lambda>i. handle_bytes (ws ! (unat i div 4)) (i AND 3)) (bytes (tsys s))\<rparr>) s"

definition message_word :: "u32 \<Rightarrow> u32 \<Rightarrow> timer_system \<Rightarrow> u32" where
  "message_word a i s = load_u32 (a + 4 * i) (bytes (tsys s))"

text \<open>The first flag is the result, the second the caller's \<open>pxHigherPriorityTaskWoken\<close>.\<close>

definition xTimerGenericCommand ::
  "surroundings \<Rightarrow> u32 \<Rightarrow> u32 \<Rightarrow> u32 \<Rightarrow> bool \<Rightarrow> u32 \<Rightarrow> timer_system \<Rightarrow> (bool \<times> bool \<times> timer_system) option" where
  "xTimerGenericCommand d xTimer xCommandID xOptionalValue pxHigherPriorityTaskWoken xTicksToWait s =
     (if xTimerQueue s \<noteq> NULL
      then let s = put_message (command_local d) [xCommandID, xOptionalValue, xTimer] s
           in if sint xCommandID < sint tmrFIRST_FROM_ISR_COMMAND
              then if xTaskGetSchedulerState (tkern s) = taskSCHEDULER_RUNNING
                   then map_option (\<lambda>(r, y). (r, pxHigherPriorityTaskWoken, with_system y s))
                          (xQueueGenericSend (gaps d) (xTimerQueue s) (command_local d) xTicksToWait queueSEND_TO_BACK (tsys s))
                   else map_option (\<lambda>(r, y). (r, pxHigherPriorityTaskWoken, with_system y s))
                          (xQueueGenericSend (gaps d) (xTimerQueue s) (command_local d) tmrNO_DELAY queueSEND_TO_BACK (tsys s))
              else let (r, pxHigherPriorityTaskWoken, y) = xQueueGenericSendFromISR (xTimerQueue s) (command_local d) queueSEND_TO_BACK pxHigherPriorityTaskWoken (tsys s)
                   in Some (r, pxHigherPriorityTaskWoken, with_system y s)
      else Some (False, pxHigherPriorityTaskWoken, s))"

definition xTimerPendFunctionCallFromISR ::
  "surroundings \<Rightarrow> u32 \<Rightarrow> u32 \<Rightarrow> u32 \<Rightarrow> bool \<Rightarrow> timer_system \<Rightarrow> bool \<times> bool \<times> timer_system" where
  "xTimerPendFunctionCallFromISR d xFunctionToPend pvParameter1 ulParameter2 pxHigherPriorityTaskWoken s =
     (let s = put_message (command_local d) [tmrCOMMAND_EXECUTE_CALLBACK_FROM_ISR, xFunctionToPend, pvParameter1, ulParameter2] s;
          (r, pxHigherPriorityTaskWoken, y) = xQueueGenericSendFromISR (xTimerQueue s) (command_local d) queueSEND_TO_BACK pxHigherPriorityTaskWoken (tsys s)
      in (r, pxHigherPriorityTaskWoken, with_system y s))"

definition xTimerPendFunctionCall ::
  "surroundings \<Rightarrow> u32 \<Rightarrow> u32 \<Rightarrow> u32 \<Rightarrow> u32 \<Rightarrow> timer_system \<Rightarrow> (bool \<times> timer_system) option" where
  "xTimerPendFunctionCall d xFunctionToPend pvParameter1 ulParameter2 xTicksToWait s =
     (let s = put_message (command_local d) [tmrCOMMAND_EXECUTE_CALLBACK, xFunctionToPend, pvParameter1, ulParameter2] s
      in map_option (\<lambda>(r, y). (r, with_system y s))
           (xQueueGenericSend (gaps d) (xTimerQueue s) (command_local d) xTicksToWait queueSEND_TO_BACK (tsys s)))"

text \<open>Event groups from an interrupt; the first argument is the address of the callback.\<close>

definition xEventGroupSetBitsFromISR :: "u32 \<Rightarrow> surroundings \<Rightarrow> u32 \<Rightarrow> u32 \<Rightarrow> bool \<Rightarrow> timer_system \<Rightarrow> bool \<times> bool \<times> timer_system" where
  "xEventGroupSetBitsFromISR set_bits_callback d xEventGroup uxBitsToSet pxHigherPriorityTaskWoken s =
     xTimerPendFunctionCallFromISR d set_bits_callback xEventGroup uxBitsToSet pxHigherPriorityTaskWoken s"

definition xEventGroupClearBitsFromISR :: "u32 \<Rightarrow> surroundings \<Rightarrow> u32 \<Rightarrow> u32 \<Rightarrow> timer_system \<Rightarrow> bool \<times> timer_system" where
  "xEventGroupClearBitsFromISR clear_bits_callback d xEventGroup uxBitsToClear s =
     (let (r, _, s) = xTimerPendFunctionCallFromISR d clear_bits_callback xEventGroup uxBitsToClear False s in (r, s))"

section \<open>Creating timers\<close>

text \<open>The last arguments of the first function are the addresses of the allocator's variables and of the string \<open>TmrQ\<close>.\<close>

definition prvCheckForValidListAndQueue :: "u32 \<Rightarrow> u32 \<Rightarrow> u32 \<Rightarrow> timer_system \<Rightarrow> timer_system option" where
  "prvCheckForValidListAndQueue xStart ucHeap name s =
     (if xTimerQueue s = NULL
      then do { let s = with_lists (vListInitialise (xActiveTimerList2 s) (vListInitialise (xActiveTimerList1 s) (kl (tkern s)))) s;
                let s = s\<lparr>pxCurrentTimerList := xActiveTimerList1 s, pxOverflowTimerList := xActiveTimerList2 s\<rparr>;
                (q, y) \<leftarrow> xQueueGenericCreate xStart ucHeap configTIMER_QUEUE_LENGTH sizeof_DaemonTaskMessage_t 0 (tsys s);
                let s = (with_system y s)\<lparr>xTimerQueue := q\<rparr>;
                Some (if xTimerQueue s \<noteq> NULL then with_system (vQueueAddToRegistry (xTimerQueue s) name (tsys s)) s else s) }
      else Some s)"

definition xTimerCreateTimerTask :: "u32 \<Rightarrow> u32 \<Rightarrow> u32 \<Rightarrow> u32 option \<Rightarrow> timer_system \<Rightarrow> (bool \<times> timer_system) option" where
  "xTimerCreateTimerTask xStart ucHeap name tcb s =
     do { s \<leftarrow> prvCheckForValidListAndQueue xStart ucHeap name s;
          if xTimerQueue s \<noteq> NULL
          then do { (xReturn, k) \<leftarrow> xTaskCreate (configMAX_PRIORITIES - 1) tcb (tkern s);
                    let s = with_system ((tsys s)\<lparr>kern := k\<rparr>) s;
                    Some (xReturn, case tcb of None \<Rightarrow> s | Some t \<Rightarrow> s\<lparr>xTimerTaskHandle := t\<rparr>) }
          else Some (False, s) }"

definition prvInitialiseNewTimer :: "u32 \<Rightarrow> u32 \<Rightarrow> u32 \<Rightarrow> u32 \<Rightarrow> u32 \<Rightarrow> u32 \<Rightarrow> u32 \<Rightarrow> u32 \<Rightarrow> u32 \<Rightarrow> timer_system \<Rightarrow> timer_system option" where
  "prvInitialiseNewTimer xStart ucHeap name pcName period reload timerID code pxNewTimer s =
     (if pxNewTimer \<noteq> NULL
      then do { s \<leftarrow> prvCheckForValidListAndQueue xStart ucHeap name s;
                let s = set_timer pxNewTimer (\<lambda>T. T\<lparr>pcTimerName := pcName, xTimerPeriodInTicks := period, uxAutoReload := reload,
                                                 pvTimerID := timerID, pxTimerCallback := code\<rparr>) s;
                Some (with_lists (vListInitialiseItem (xTimerListItem pxNewTimer) (kl (tkern s))) s) }
      else Some s)"

definition xTimerCreate :: "u32 \<Rightarrow> u32 \<Rightarrow> u32 \<Rightarrow> u32 \<Rightarrow> u32 \<Rightarrow> u32 \<Rightarrow> u32 \<Rightarrow> u32 \<Rightarrow> timer_system \<Rightarrow> (u32 \<times> timer_system) option" where
  "xTimerCreate xStart ucHeap name pcName period reload timerID code s =
     do { (pxNewTimer, h) \<leftarrow> pvPortMalloc xStart ucHeap sizeof_Timer_t (heap4 (tsys s));
          let s = with_system ((tsys s)\<lparr>heap4 := h\<rparr>) s;
          s \<leftarrow> (if pxNewTimer \<noteq> NULL then prvInitialiseNewTimer xStart ucHeap name pcName period reload timerID code pxNewTimer s else Some s);
          Some (pxNewTimer, s) }"

section \<open>Reading a timer\<close>

definition xTimerGetTimerDaemonTaskHandle :: "timer_system \<Rightarrow> u32" where
  "xTimerGetTimerDaemonTaskHandle s = xTimerTaskHandle s"

definition xTimerGetPeriod :: "u32 \<Rightarrow> timer_system \<Rightarrow> u32" where
  "xTimerGetPeriod xTimer s = xTimerPeriodInTicks (timers s xTimer)"

definition xTimerGetExpiryTime :: "u32 \<Rightarrow> timer_system \<Rightarrow> u32" where
  "xTimerGetExpiryTime xTimer s = xItemValue (kl (tkern s)) (xTimerListItem xTimer)"

definition pcTimerGetName :: "u32 \<Rightarrow> timer_system \<Rightarrow> u32" where
  "pcTimerGetName xTimer s = pcTimerName (timers s xTimer)"

definition xTimerIsTimerActive :: "u32 \<Rightarrow> timer_system \<Rightarrow> bool" where
  "xTimerIsTimerActive xTimer s =
     (if listIS_CONTAINED_WITHIN 0 (xTimerListItem xTimer) (kl (tkern s)) then False else True)"

definition pvTimerGetTimerID :: "u32 \<Rightarrow> timer_system \<Rightarrow> u32" where
  "pvTimerGetTimerID xTimer s = pvTimerID (timers s xTimer)"

definition vTimerSetTimerID :: "u32 \<Rightarrow> u32 \<Rightarrow> timer_system \<Rightarrow> timer_system" where
  "vTimerSetTimerID xTimer pvNewID = set_timer xTimer (\<lambda>T. T\<lparr>pvTimerID := pvNewID\<rparr>)"

definition uxTimerGetTimerNumber :: "u32 \<Rightarrow> timer_system \<Rightarrow> u32" where
  "uxTimerGetTimerNumber xTimer s = uxTimerNumber (timers s xTimer)"

definition vTimerSetTimerNumber :: "u32 \<Rightarrow> u32 \<Rightarrow> timer_system \<Rightarrow> timer_system" where
  "vTimerSetTimerNumber xTimer n = set_timer xTimer (\<lambda>T. T\<lparr>uxTimerNumber := n\<rparr>)"

section \<open>The timer task\<close>

definition prvInsertTimerInActiveList :: "u32 \<Rightarrow> u32 \<Rightarrow> u32 \<Rightarrow> u32 \<Rightarrow> timer_system \<Rightarrow> (bool \<times> timer_system) option" where
  "prvInsertTimerInActiveList pxTimer xNextExpiryTime xTimeNow xCommandTime s =
     (let x = xTimerListItem pxTimer;
          s = with_lists (listSET_LIST_ITEM_OWNER x pxTimer (listSET_LIST_ITEM_VALUE x xNextExpiryTime (kl (tkern s)))) s
      in if xNextExpiryTime \<le> xTimeNow
         then if xTimeNow - xCommandTime \<ge> xTimerPeriodInTicks (timers s pxTimer) then Some (True, s)
              else map_option (\<lambda>l. (False, with_lists l s)) (vListInsert (pxOverflowTimerList s) x (kl (tkern s)))
         else if xTimeNow < xCommandTime \<and> xNextExpiryTime \<ge> xCommandTime then Some (True, s)
              else map_option (\<lambda>l. (False, with_lists l s)) (vListInsert (pxCurrentTimerList s) x (kl (tkern s))))"

definition prvProcessExpiredTimer :: "surroundings \<Rightarrow> u32 \<Rightarrow> u32 \<Rightarrow> timer_system \<Rightarrow> timer_system option" where
  "prvProcessExpiredTimer d xNextExpireTime xTimeNow s =
     do { let pxTimer = listGET_OWNER_OF_HEAD_ENTRY (pxCurrentTimerList s) (kl (tkern s));
          let s = with_lists (snd (uxListRemove (xTimerListItem pxTimer) (kl (tkern s)))) s;
          s \<leftarrow> (if uxAutoReload (timers s pxTimer) = 1
               then do { (expired, s) \<leftarrow> prvInsertTimerInActiveList pxTimer
                           (xNextExpireTime + xTimerPeriodInTicks (timers s pxTimer)) xTimeNow xNextExpireTime s;
                         if expired
                         then do { (_, _, s) \<leftarrow> xTimerGenericCommand d pxTimer tmrCOMMAND_START_DONT_TRACE xNextExpireTime False tmrNO_DELAY s; Some s }
                         else Some s }
               else Some s);
          timer_code d (pxTimerCallback (timers s pxTimer)) pxTimer s }"

text \<open>The loop of \<open>prvSwitchTimerLists\<close>.\<close>

partial_function (option) expire_current_list :: "surroundings \<Rightarrow> timer_system \<Rightarrow> timer_system option" where
  "expire_current_list d s =
     (if listLIST_IS_EMPTY (pxCurrentTimerList s) (kl (tkern s)) then Some s
      else do { let xNextExpireTime = listGET_ITEM_VALUE_OF_HEAD_ENTRY (pxCurrentTimerList s) (kl (tkern s));
                let pxTimer = listGET_OWNER_OF_HEAD_ENTRY (pxCurrentTimerList s) (kl (tkern s));
                let s = with_lists (snd (uxListRemove (xTimerListItem pxTimer) (kl (tkern s)))) s;
                s \<leftarrow> timer_code d (pxTimerCallback (timers s pxTimer)) pxTimer s;
                s \<leftarrow> (if uxAutoReload (timers s pxTimer) = 1
                     then let xReloadTime = xNextExpireTime + xTimerPeriodInTicks (timers s pxTimer); x = xTimerListItem pxTimer
                          in if xReloadTime > xNextExpireTime
                             then map_option (\<lambda>l. with_lists l s)
                                    (vListInsert (pxCurrentTimerList s) x
                                       (listSET_LIST_ITEM_OWNER x pxTimer (listSET_LIST_ITEM_VALUE x xReloadTime (kl (tkern s)))))
                             else map_option (snd \<circ> snd) (xTimerGenericCommand d pxTimer tmrCOMMAND_START_DONT_TRACE xNextExpireTime False tmrNO_DELAY s)
                     else Some s);
                expire_current_list d s })"

definition prvSwitchTimerLists :: "surroundings \<Rightarrow> timer_system \<Rightarrow> timer_system option" where
  "prvSwitchTimerLists d s =
     do { s \<leftarrow> expire_current_list d s;
          let pxTemp = pxCurrentTimerList s;
          Some (s\<lparr>pxCurrentTimerList := pxOverflowTimerList s, pxOverflowTimerList := pxTemp\<rparr>) }"

definition prvSampleTimeNow :: "surroundings \<Rightarrow> timer_system \<Rightarrow> (u32 \<times> bool \<times> timer_system) option" where
  "prvSampleTimeNow d s =
     do { let xTimeNow = xTaskGetTickCount (tkern s);
          (switched, s) \<leftarrow> (if xTimeNow < xLastTime s then map_option (Pair True) (prvSwitchTimerLists d s) else Some (False, s));
          Some (xTimeNow, switched, s\<lparr>xLastTime := xTimeNow\<rparr>) }"

definition prvGetNextExpireTime :: "timer_system \<Rightarrow> u32 \<times> bool" where
  "prvGetNextExpireTime s =
     (let pxListWasEmpty = listLIST_IS_EMPTY (pxCurrentTimerList s) (kl (tkern s))
      in (if \<not> pxListWasEmpty then listGET_ITEM_VALUE_OF_HEAD_ENTRY (pxCurrentTimerList s) (kl (tkern s)) else 0, pxListWasEmpty))"

text \<open>Between suspending and resuming the scheduler interrupts act in the gaps of the queue operation; after the scheduler is resumed
  the timer task goes on when \<open>others\<close> have run.\<close>

definition block_timer_task :: "surroundings \<Rightarrow> u32 \<Rightarrow> bool \<Rightarrow> timer_system \<Rightarrow> timer_system option" where
  "block_timer_task d xTicksToWait xWaitIndefinitely s =
     do { y \<leftarrow> vQueueWaitForMessageRestricted (gaps d 0) (xTimerQueue s) xTicksToWait xWaitIndefinitely (tsys s);
          (r, y) \<leftarrow> resume_all y;
          y \<leftarrow> (if \<not> r then yield y else Some y);
          Some (others d (with_system y s)) }"

definition prvProcessTimerOrBlockTask :: "surroundings \<Rightarrow> u32 \<Rightarrow> bool \<Rightarrow> timer_system \<Rightarrow> timer_system option" where
  "prvProcessTimerOrBlockTask d xNextExpireTime xListWasEmpty s =
     do { let s = with_system (suspend_all (tsys s)) s;
          (xTimeNow, xTimerListsWereSwitched, s) \<leftarrow> prvSampleTimeNow d s;
          if \<not> xTimerListsWereSwitched
          then if \<not> xListWasEmpty \<and> xNextExpireTime \<le> xTimeNow
               then do { (r, y) \<leftarrow> resume_all (tsys s);
                         prvProcessExpiredTimer d xNextExpireTime xTimeNow (others d (with_system y s)) }
               else let xListWasEmpty = (if xListWasEmpty then listLIST_IS_EMPTY (pxOverflowTimerList s) (kl (tkern s)) else xListWasEmpty)
                    in block_timer_task d (xNextExpireTime - xTimeNow) xListWasEmpty s
          else do { (r, y) \<leftarrow> resume_all (tsys s); Some (others d (with_system y s)) } }"

text \<open>One command on a timer.\<close>

definition process_command :: "surroundings \<Rightarrow> u32 \<Rightarrow> u32 \<Rightarrow> u32 \<Rightarrow> u32 \<Rightarrow> timer_system \<Rightarrow> timer_system option" where
  "process_command d xStart xMessageID xMessageValue pxTimer s =
     do { let s = (if \<not> listIS_CONTAINED_WITHIN 0 (xTimerListItem pxTimer) (kl (tkern s))
                   then with_lists (snd (uxListRemove (xTimerListItem pxTimer) (kl (tkern s)))) s else s);
          (xTimeNow, _, s) \<leftarrow> prvSampleTimeNow d s;
          if xMessageID \<in> {tmrCOMMAND_START, tmrCOMMAND_START_FROM_ISR, tmrCOMMAND_RESET, tmrCOMMAND_RESET_FROM_ISR, tmrCOMMAND_START_DONT_TRACE}
          then do { (expired, s) \<leftarrow> prvInsertTimerInActiveList pxTimer (xMessageValue + xTimerPeriodInTicks (timers s pxTimer)) xTimeNow xMessageValue s;
                    if expired
                    then do { s \<leftarrow> timer_code d (pxTimerCallback (timers s pxTimer)) pxTimer s;
                              if uxAutoReload (timers s pxTimer) = 1
                              then map_option (snd \<circ> snd) (xTimerGenericCommand d pxTimer tmrCOMMAND_START_DONT_TRACE
                                     (xMessageValue + xTimerPeriodInTicks (timers s pxTimer)) False tmrNO_DELAY s)
                              else Some s }
                    else Some s }
          else if xMessageID \<in> {tmrCOMMAND_STOP, tmrCOMMAND_STOP_FROM_ISR} then Some s
          else if xMessageID \<in> {tmrCOMMAND_CHANGE_PERIOD, tmrCOMMAND_CHANGE_PERIOD_FROM_ISR}
          then do { let s = set_timer pxTimer (\<lambda>T. T\<lparr>xTimerPeriodInTicks := xMessageValue\<rparr>) s;
                    map_option snd (prvInsertTimerInActiveList pxTimer (xTimeNow + xTimerPeriodInTicks (timers s pxTimer)) xTimeNow xTimeNow s) }
          else if xMessageID = tmrCOMMAND_DELETE
          then map_option (\<lambda>h. with_system ((tsys s)\<lparr>heap4 := h\<rparr>) s) (vPortFree xStart pxTimer (heap4 (tsys s)))
          else Some s }"

partial_function (option) prvProcessReceivedCommands :: "surroundings \<Rightarrow> u32 \<Rightarrow> timer_system \<Rightarrow> timer_system option" where
  "prvProcessReceivedCommands d xStart s =
     do { (received, y) \<leftarrow> xQueueReceive (gaps d) (xTimerQueue s) (message_local d) tmrNO_DELAY (tsys s);
          let s = with_system y s;
          if received
          then do { let word = (\<lambda>i. message_word (message_local d) i s);
                    s \<leftarrow> (if sint (word 0) < 0 then pended_code d (word 1) (word 2) (word 3) s
                         else process_command d xStart (word 0) (word 1) (word 2) s);
                    prvProcessReceivedCommands d xStart s }
          else Some s }"

text \<open>One round of the endless loop of \<open>prvTimerTask\<close>.\<close>

definition prvTimerTask_round :: "surroundings \<Rightarrow> u32 \<Rightarrow> timer_system \<Rightarrow> timer_system option" where
  "prvTimerTask_round d xStart s =
     do { let (xNextExpireTime, xListWasEmpty) = prvGetNextExpireTime s;
          s \<leftarrow> prvProcessTimerOrBlockTask d xNextExpireTime xListWasEmpty s;
          prvProcessReceivedCommands d xStart s }"

section \<open>Times and the wrap of the tick count\<close>

text \<open>The number of times the tick count has wrapped at a time since the start.\<close>

definition epoch :: "nat \<Rightarrow> nat" where
  "epoch n = n div 2 ^ 32"

lemma epoch_split: "n = 4294967296 * epoch n + n mod 2 ^ 32" "n mod 2 ^ 32 < 4294967296"
  by (simp_all add: epoch_def)

lemma unat_time: "unat (of_nat n :: u32) = n mod 2 ^ 32"
  by (simp add: unat_of_nat)

lemma epoch_step:
  assumes "m \<le> n" "n < m + 2 ^ 32"
  shows "epoch n = epoch m \<and> m mod 2 ^ 32 \<le> n mod 2 ^ 32 \<or> epoch n = epoch m + 1 \<and> n mod 2 ^ 32 < m mod 2 ^ 32"
proof -
  note s = epoch_split [of m] epoch_split [of n]
  have "epoch n = epoch m \<or> epoch n = epoch m + 1" using s assms by (simp add: epoch_def) linarith
  then show ?thesis using s assms by auto
qed

text \<open>The tests of the code on wrapped times, on the true times: the time now, the time of the command and the expiry.\<close>

lemma insertion_times:
  fixes C N :: nat and p :: u32
  assumes "C \<le> N" "N < C + 2 ^ 32"
  defines "D \<equiv> C + unat p"
  defines "n \<equiv> of_nat N :: u32" and "c \<equiv> of_nat C :: u32" and "x \<equiv> of_nat D :: u32"
  shows "x \<le> n \<Longrightarrow> n - c \<ge> p \<longleftrightarrow> D \<le> N" "\<not> x \<le> n \<Longrightarrow> n < c \<and> x \<ge> c \<longleftrightarrow> D \<le> N"
    "N < D \<Longrightarrow> epoch D = (if x \<le> n then epoch N + 1 else epoch N)"
proof -
  have p: "unat p < 2 ^ 32" using unsigned_less [of p, where ?'a = nat] by simp
  note eN = epoch_step [OF assms(1,2)]
  have eD: "epoch D = epoch C \<and> C mod 2 ^ 32 \<le> D mod 2 ^ 32 \<or> epoch D = epoch C + 1 \<and> D mod 2 ^ 32 < C mod 2 ^ 32"
    by (rule epoch_step) (use p in \<open>simp_all add: D_def\<close>)
  note s = epoch_split [of N] epoch_split [of C] epoch_split [of D]
  have nc: "n - c = of_nat (N - C)" unfolding n_def c_def using assms(1) by (simp add: of_nat_diff)
  have "unat (n - c) = N - C" unfolding nc unat_time using assms(2) by simp
  then have el: "n - c \<ge> p \<longleftrightarrow> D \<le> N" using assms(1) by (auto simp: word_le_nat_alt D_def)
  have le: "x \<le> n \<longleftrightarrow> D mod 2 ^ 32 \<le> N mod 2 ^ 32" "x \<ge> c \<longleftrightarrow> C mod 2 ^ 32 \<le> D mod 2 ^ 32" "n < c \<longleftrightarrow> N mod 2 ^ 32 < C mod 2 ^ 32"
    unfolding x_def n_def c_def word_le_nat_alt word_less_nat_alt unat_time by simp_all
  show "n - c \<ge> p \<longleftrightarrow> D \<le> N" by (rule el)
  show "n < c \<and> x \<ge> c \<longleftrightarrow> D \<le> N" if "\<not> x \<le> n" using that eN eD s unfolding le by linarith
  show "epoch D = (if x \<le> n then epoch N + 1 else epoch N)" if "N < D"
    using that eN eD s assms(1,2) p D_def unfolding le by (simp split: if_split) linarith
qed

section \<open>The lists of active timers\<close>

text \<open>The timers at the addresses \<open>M\<close> are in the two lists or in none, and the lists are in order of expiry.\<close>

definition timer_lists :: "u32 set \<Rightarrow> timer_system \<Rightarrow> (u32 \<Rightarrow> u32 list) \<Rightarrow> bool" where
  "timer_lists M s G \<longleftrightarrow> rings {pxCurrentTimerList s, pxOverflowTimerList s} (xTimerListItem ` M) (kl (tkern s)) G \<and>
     pxCurrentTimerList s \<noteq> pxOverflowTimerList s \<and>
     (\<forall>t \<in> M. pxContainer (kl (tkern s)) (xTimerListItem t) \<noteq> 0 \<longrightarrow> pvOwner (kl (tkern s)) (xTimerListItem t) = t) \<and>
     (\<forall>l \<in> {pxCurrentTimerList s, pxOverflowTimerList s}. sorted (map (xItemValue (kl (tkern s))) (G l)))"

definition active :: "timer_system \<Rightarrow> u32 \<Rightarrow> bool" where
  "active s t \<longleftrightarrow> pxContainer (kl (tkern s)) (xTimerListItem t) \<noteq> 0"

text \<open>Every active timer expires at its time of expiry: in the current list if the tick count does not wrap before, in the other one if it
  wraps once. The task has last looked at the time at \<open>N\<close>; times are counted from the start.\<close>

definition on_time :: "u32 set \<Rightarrow> nat \<Rightarrow> (u32 \<Rightarrow> nat) \<Rightarrow> timer_system \<Rightarrow> bool" where
  "on_time M N expiry s \<longleftrightarrow> xLastTime s = of_nat N \<and>
     (\<forall>t \<in> M. active s t \<longrightarrow> xItemValue (kl (tkern s)) (xTimerListItem t) = of_nat (expiry t) \<and>
       epoch (expiry t) = (if pxContainer (kl (tkern s)) (xTimerListItem t) = pxCurrentTimerList s then epoch N else epoch N + 1))"

lemma xTimerListItem_inj [simp]: "xTimerListItem t = xTimerListItem u \<longleftrightarrow> t = u"
  by (simp add: xTimerListItem_def)

lemma with_lists_fields [simp]:
  "kl (tkern (with_lists l s)) = l" "pxCurrentTimerList (with_lists l s) = pxCurrentTimerList s"
  "pxOverflowTimerList (with_lists l s) = pxOverflowTimerList s" "timers (with_lists l s) = timers s" "xLastTime (with_lists l s) = xLastTime s"
  "xTimerQueue (with_lists l s) = xTimerQueue s" "with_lists l (with_lists k s) = with_lists l s"
  by (simp_all add: with_lists_def with_system_def)

lemma timer_listsD:
  assumes "timer_lists M s G"
  shows "rings {pxCurrentTimerList s, pxOverflowTimerList s} (xTimerListItem ` M) (kl (tkern s)) G" "pxCurrentTimerList s \<noteq> pxOverflowTimerList s"
    "\<And>t. t \<in> M \<Longrightarrow> active s t \<Longrightarrow> pvOwner (kl (tkern s)) (xTimerListItem t) = t"
    "\<And>l. l \<in> {pxCurrentTimerList s, pxOverflowTimerList s} \<Longrightarrow> sorted (map (xItemValue (kl (tkern s))) (G l))"
  using assms unfolding timer_lists_def active_def by blast+

lemma rings_set_owner: "rings L X (listSET_LIST_ITEM_OWNER x v s) G = rings L X s G"
proof -
  have "dll (listSET_LIST_ITEM_OWNER x v s) p ys q = dll s p ys q" for p ys q
    by (rule dll_cong) (simp_all add: listSET_LIST_ITEM_OWNER_def)
  then show ?thesis by (simp add: rings_def ring_def listSET_LIST_ITEM_OWNER_def)
qed

text \<open>A timer that is in no list enters one.\<close>

lemma insert_timer:
  fixes v :: u32
  assumes W: "timer_lists M s G" and t: "t \<in> M" "\<not> active s t" and l: "l \<in> {pxCurrentTimerList s, pxOverflowTimerList s}"
  defines "k \<equiv> listSET_LIST_ITEM_OWNER (xTimerListItem t) t (listSET_LIST_ITEM_VALUE (xTimerListItem t) v (kl (tkern s)))"
  shows "timer_lists M (with_lists k s) G" "\<And>u. active (with_lists k s) u = active s u"
    "\<exists>l' G'. vListInsert l (xTimerListItem t) k = Some l' \<and> timer_lists M (with_lists l' s) G' \<and>
      xItemValue l' = (xItemValue (kl (tkern s)))(xTimerListItem t := v) \<and>
      (\<forall>u \<in> M. pxContainer l' (xTimerListItem u) = (if u = t then l else pxContainer (kl (tkern s)) (xTimerListItem u)))"
proof -
  note D = timer_listsD [OF W]
  let ?x = "xTimerListItem t" and ?L = "{pxCurrentTimerList s, pxOverflowTimerList s}"
  have x: "?x \<in> xTimerListItem ` M" using t(1) by simp
  have R: "rings ?L (xTimerListItem ` M) k G" unfolding k_def rings_set_owner by (rule rings_set_value [OF D(1) x])
  have c: "pxContainer k = pxContainer (kl (tkern s))" and v: "xItemValue k = (xItemValue (kl (tkern s)))(?x := v)"
    and o: "pvOwner k = (pvOwner (kl (tkern s)))(?x := t)"
    by (simp_all add: k_def listSET_LIST_ITEM_OWNER_def listSET_LIST_ITEM_VALUE_def)
  show act: "\<And>u. active (with_lists k s) u = active s u" by (simp add: active_def c)
  have z: "pxContainer k ?x = 0" using t(2) by (simp add: active_def c)
  have nx: "?x \<notin> set (G j)" if "j \<in> ?L" for j
    using rings_container [OF R that] z rings_D(1) [OF R] that by metis
  have so: "sorted (map (xItemValue k) (G j))" if "j \<in> ?L" for j
  proof -
    have "map (xItemValue k) (G j) = map (xItemValue (kl (tkern s))) (G j)" using nx [OF that] by (auto simp: v)
    then show ?thesis using D(4) [OF that] by (simp only:)
  qed
  show W1: "timer_lists M (with_lists k s) G"
    unfolding timer_lists_def using R D(2,3) so by (auto simp: o c active_def)
  from rings_insert [OF R l x z] obtain l' where
    l': "vListInsert l ?x k = Some l'" "rings ?L (xTimerListItem ` M) l' (G(l := insort_after (xItemValue k) ?x (G l)))"
      "xItemValue l' = xItemValue k" "pvOwner l' = pvOwner k"
      "\<And>y. y \<in> xTimerListItem ` M \<Longrightarrow> pxContainer l' y = (if y = ?x then l else pxContainer k y)" by blast
  let ?G = "G(l := insort_after (xItemValue k) ?x (G l))"
  have "sorted (map (xItemValue l') (?G j))" if "j \<in> ?L" for j
    using so [OF that] insort_after_sort_key [of "xItemValue k" "G l" ?x] by (auto simp: l'(3))
  moreover have "pvOwner l' (xTimerListItem u) = u" if "u \<in> M" "pxContainer l' (xTimerListItem u) \<noteq> 0" for u
    using that l'(5) [of "xTimerListItem u"] D(3) by (auto simp: l'(4) o c active_def split: if_splits)
  ultimately have "timer_lists M (with_lists l' s) ?G" unfolding timer_lists_def using l'(2) D(2) by simp
  then show "\<exists>l' G'. vListInsert l ?x k = Some l' \<and> timer_lists M (with_lists l' s) G' \<and>
      xItemValue l' = (xItemValue (kl (tkern s)))(?x := v) \<and>
      (\<forall>u \<in> M. pxContainer l' (xTimerListItem u) = (if u = t then l else pxContainer (kl (tkern s)) (xTimerListItem u)))"
    using l'(1,3,5) by (auto simp: v c)
qed

text \<open>A command of the time \<open>C\<close> that starts a timer is processed at the time \<open>N\<close>.\<close>

lemma insert_exact:
  fixes C N :: nat
  assumes W: "timer_lists M s G" and O: "on_time M N expiry s" and t: "t \<in> M" "\<not> active s t" and C: "C \<le> N" "N < C + 2 ^ 32"
  defines "D \<equiv> C + unat (xTimerPeriodInTicks (timers s t))"
  shows "\<exists>l. prvInsertTimerInActiveList t (of_nat C + xTimerPeriodInTicks (timers s t)) (of_nat N) (of_nat C) s = Some (D \<le> N, with_lists l s) \<and>
    (\<exists>G'. timer_lists M (with_lists l s) G') \<and> on_time M N (expiry(t := D)) (with_lists l s) \<and>
    (\<forall>u. u \<in> M \<longrightarrow> active (with_lists l s) u = (if u = t then N < D else active s u))"
proof -
  let ?x = "xTimerListItem t" and ?p = "xTimerPeriodInTicks (timers s t)"
  let ?cur = "pxCurrentTimerList s" and ?ovf = "pxOverflowTimerList s"
  have v: "of_nat C + ?p = (of_nat D :: u32)" by (simp add: D_def)
  note T = insertion_times [OF C, of ?p, folded D_def]
  define k where "k = listSET_LIST_ITEM_OWNER ?x t (listSET_LIST_ITEM_VALUE ?x (of_nat D) (kl (tkern s)))"
  note I = insert_timer [OF W t, where v = "of_nat D", folded k_def]
  have nz: "?cur \<noteq> 0" "?ovf \<noteq> 0" "?cur \<noteq> ?ovf" using rings_D(1) [OF timer_listsD(1) [OF W]] timer_listsD(2) [OF W] by auto
  have st: "prvInsertTimerInActiveList t (of_nat C + ?p) (of_nat N) (of_nat C) s =
    (if D \<le> N then Some (True, with_lists k s)
     else map_option (\<lambda>l. (False, with_lists l s)) (vListInsert (if (of_nat D :: u32) \<le> of_nat N then ?ovf else ?cur) ?x k))"
    using T(1,2) by (simp add: prvInsertTimerInActiveList_def v Let_def k_def [symmetric] linorder_not_less)
  show ?thesis
  proof (cases "D \<le> N")
    case True
    have kc: "pxContainer k = pxContainer (kl (tkern s))" "u \<noteq> t \<Longrightarrow> xItemValue k (xTimerListItem u) = xItemValue (kl (tkern s)) (xTimerListItem u)" for u
      by (simp_all add: k_def listSET_LIST_ITEM_OWNER_def listSET_LIST_ITEM_VALUE_def)
    have "on_time M N (expiry(t := D)) (with_lists k s)" using O t(2) kc by (auto simp: on_time_def active_def)
    then show ?thesis using st True I(1) [OF insertI1] I(2) [OF insertI1] t(2) by auto
  next
    case False
    define l where "l = (if (of_nat D :: u32) \<le> of_nat N then ?ovf else ?cur)"
      have lL: "l \<in> {?cur, ?ovf}" by (simp add: l_def)
    from I(3) [OF lL] obtain l' G' where
      l': "vListInsert l ?x k = Some l'" "timer_lists M (with_lists l' s) G'" "xItemValue l' = (xItemValue (kl (tkern s)))(?x := of_nat D)"
        "\<And>u. u \<in> M \<Longrightarrow> pxContainer l' (xTimerListItem u) = (if u = t then l else pxContainer (kl (tkern s)) (xTimerListItem u))"
      by blast
    have "epoch D = (if l = ?cur then epoch N else epoch N + 1)" using T(3) False nz(3) by (auto simp: l_def)
    then have "on_time M N (expiry(t := D)) (with_lists l' s)"
      using O l'(3,4) by (auto simp: on_time_def active_def)
    moreover have "active (with_lists l' s) u = (if u = t then N < D else active s u)" if "u \<in> M" for u
      using l'(4) [OF that] nz False by (auto simp: active_def l_def)
    ultimately show ?thesis using st False l'(1,2) by (auto simp: l_def)
  qed
qed

section \<open>When the timer task looks at its lists\<close>

lemma active_container:
  assumes W: "timer_lists M s G" and t: "t \<in> M"
  shows "active s t \<longleftrightarrow> pxContainer (kl (tkern s)) (xTimerListItem t) \<in> {pxCurrentTimerList s, pxOverflowTimerList s}"
proof -
  note R = timer_listsD(1) [OF W]
  show ?thesis using rings_D(1) [OF R] rings_D(4) [OF R, of "xTimerListItem t"] t unfolding active_def by auto
qed

lemma timer_in_list:
  assumes W: "timer_lists M s G" and l: "l \<in> {pxCurrentTimerList s, pxOverflowTimerList s}"
  shows "x \<in> set (G l) \<longleftrightarrow> (\<exists>t \<in> M. x = xTimerListItem t \<and> pxContainer (kl (tkern s)) x = l)"
proof -
  note R = timer_listsD(1) [OF W]
  show ?thesis using rings_container [OF R l, of x] rings_member [OF R _ l, of x] by blast
qed

lemma current_empty:
  assumes W: "timer_lists M s G" and l: "l \<in> {pxCurrentTimerList s, pxOverflowTimerList s}"
  shows "listLIST_IS_EMPTY l (kl (tkern s)) \<longleftrightarrow> (\<forall>t \<in> M. pxContainer (kl (tkern s)) (xTimerListItem t) \<noteq> l)"
proof -
  have "G l = [] \<longleftrightarrow> (\<forall>x. x \<notin> set (G l))" by (cases "G l") auto
  then show ?thesis unfolding rings_empty [OF timer_listsD(1) [OF W] l] timer_in_list [OF W l] by auto
qed

text \<open>The head of the current list is the active timer that expires first.\<close>

lemma current_head:
  assumes W: "timer_lists M s G" and O: "on_time M N expiry s" and ne: "\<not> listLIST_IS_EMPTY (pxCurrentTimerList s) (kl (tkern s))"
  obtains t where "t \<in> M" "active s t" "pxContainer (kl (tkern s)) (xTimerListItem t) = pxCurrentTimerList s"
    "listGET_OWNER_OF_HEAD_ENTRY (pxCurrentTimerList s) (kl (tkern s)) = t"
    "listGET_ITEM_VALUE_OF_HEAD_ENTRY (pxCurrentTimerList s) (kl (tkern s)) = of_nat (expiry t)" "epoch (expiry t) = epoch N"
    "\<And>u. u \<in> M \<Longrightarrow> active s u \<Longrightarrow> expiry t \<le> expiry u"
proof -
  let ?c = "pxCurrentTimerList s" and ?k = "kl (tkern s)"
  note R = timer_listsD(1) [OF W]
  have cl: "?c \<in> {?c, pxOverflowTimerList s}" by simp
  have gn: "G ?c \<noteq> []" using ne rings_empty [OF R cl] by simp
  then obtain x xs where G: "G ?c = x # xs" by (meson neq_Nil_conv)
  have "x \<in> set (G ?c)" by (simp add: G)
  then obtain t where t: "t \<in> M" "x = xTimerListItem t" "pxContainer ?k x = ?c" using timer_in_list [OF W cl] by blast
  have a: "active s t" using active_container [OF W t(1)] t(2,3) by simp
  have nx: "pxNext ?k (xListEnd ?c) = x" using rings_ring [OF R cl] dll_ends(1) [of ?k "xListEnd ?c" "x # xs" "xListEnd ?c"] by (simp add: ring_def G)
  have ep: "epoch (expiry t) = epoch N" "xItemValue ?k (xTimerListItem t) = of_nat (expiry t)" using O t a by (auto simp: on_time_def)
  have "expiry t \<le> expiry u" if u: "u \<in> M" "active s u" for u
  proof (cases "pxContainer ?k (xTimerListItem u) = ?c")
    case True
    then have "xTimerListItem u \<in> set (G ?c)" using timer_in_list [OF W cl] u(1) by blast
    then have "xItemValue ?k x \<le> xItemValue ?k (xTimerListItem u)" using timer_listsD(4) [OF W cl] by (auto simp: G)
    moreover have eu: "epoch (expiry u) = epoch N" "xItemValue ?k (xTimerListItem u) = of_nat (expiry u)" using O u True by (auto simp: on_time_def)
    ultimately have "expiry t mod 2 ^ 32 \<le> expiry u mod 2 ^ 32" by (simp add: t(2) ep word_le_nat_alt unat_time)
    then show ?thesis using epoch_split(1) [of "expiry t"] epoch_split(1) [of "expiry u"] ep(1) eu(1) by linarith
  next
    case False
    then have "epoch (expiry u) = epoch N + 1" using O u by (auto simp: on_time_def)
    then show ?thesis using epoch_split [of "expiry t"] epoch_split(1) [of "expiry u"] ep(1) by linarith
  qed
  moreover have "listGET_OWNER_OF_HEAD_ENTRY ?c ?k = t" using timer_listsD(3) [OF W t(1) a] by (simp add: listGET_OWNER_OF_HEAD_ENTRY_def nx t(2))
  moreover have "listGET_ITEM_VALUE_OF_HEAD_ENTRY ?c ?k = of_nat (expiry t)" using ep(2) by (simp add: listGET_ITEM_VALUE_OF_HEAD_ENTRY_def nx t(2))
  ultimately show thesis using that t a ep(1) by blast
qed

text \<open>The state in which the task has looked at the time, with the scheduler suspended.\<close>

definition looked :: "timer_system \<Rightarrow> timer_system" where
  "looked s = (with_system (suspend_all (tsys s)) s)\<lparr>xLastTime := xTickCount (tkern s)\<rparr>"

lemma looked_fields [simp]:
  "kl (tkern (looked s)) = kl (tkern s)" "pxCurrentTimerList (looked s) = pxCurrentTimerList s" "pxOverflowTimerList (looked s) = pxOverflowTimerList s"
  "timers (looked s) = timers s" "xTimerQueue (looked s) = xTimerQueue s" "xLastTime (looked s) = xTickCount (tkern s)"
  by (simp_all add: looked_def with_system_def suspend_all_def in_kernel_def vTaskSuspendAll_def)

lemma process_or_block_same:
  assumes "\<not> xTickCount (tkern s) < xLastTime s"
  shows "prvProcessTimerOrBlockTask d x e s =
    (if \<not> e \<and> x \<le> xTickCount (tkern s)
     then do { (r, y) \<leftarrow> resume_all (tsys (looked s));
               prvProcessExpiredTimer d x (xTickCount (tkern s)) (others d (with_system y (looked s))) }
     else block_timer_task d (x - xTickCount (tkern s)) (e \<and> listLIST_IS_EMPTY (pxOverflowTimerList s) (kl (tkern s))) (looked s))"
proof -
  let ?s = "with_system (suspend_all (tsys s)) s"
  have f: "xLastTime ?s = xLastTime s" "xTaskGetTickCount (tkern ?s) = xTickCount (tkern s)"
    by (simp_all add: with_system_def suspend_all_def in_kernel_def vTaskSuspendAll_def xTaskGetTickCount_def)
  have "prvSampleTimeNow d ?s = Some (xTickCount (tkern s), False, looked s)"
    using assms by (simp add: prvSampleTimeNow_def f looked_def Let_def)
  then show ?thesis by (simp add: prvProcessTimerOrBlockTask_def)
qed

text \<open>Looking at the time keeps the expiry of every timer, across the wrap of the tick count too when no timer of the current list is left.\<close>

lemma sample_on_time:
  assumes W: "timer_lists M s G" and O: "on_time M N expiry s" and now: "xTickCount (tkern s) = of_nat N'" "N \<le> N'" "N' < N + 2 ^ 32"
    and left: "epoch N' \<noteq> epoch N \<Longrightarrow> listLIST_IS_EMPTY (pxCurrentTimerList s) (kl (tkern s))"
  shows "\<exists>s'. prvSampleTimeNow d s = Some (of_nat N', epoch N' \<noteq> epoch N, s') \<and> timer_lists M s' G \<and> on_time M N' expiry s' \<and> active s' = active s"
proof -
  let ?c = "pxCurrentTimerList s" and ?o = "pxOverflowTimerList s"
  have L: "xLastTime s = of_nat N" using O by (simp add: on_time_def)
  have wr: "(of_nat N' :: u32) < of_nat N \<longleftrightarrow> epoch N' \<noteq> epoch N"
    using epoch_step [OF now(2,3)] unfolding word_less_nat_alt unat_time by auto
  show ?thesis
  proof (cases "epoch N' = epoch N")
    case True
    let ?s = "s\<lparr>xLastTime := of_nat N'\<rparr>"
    have "prvSampleTimeNow d s = Some (of_nat N', False, ?s)"
      using wr True by (simp add: prvSampleTimeNow_def xTaskGetTickCount_def now(1) L Let_def)
    moreover have "timer_lists M ?s G" using W by (simp add: timer_lists_def)
    moreover have "on_time M N' expiry ?s" "active ?s = active s" using O True by (auto simp: on_time_def active_def fun_eq_iff)
    ultimately show ?thesis using True by (intro exI [of _ ?s]) simp
  next
    case False
    let ?s = "s\<lparr>pxCurrentTimerList := ?o, pxOverflowTimerList := ?c, xLastTime := of_nat N'\<rparr>"
    have e: "listLIST_IS_EMPTY ?c (kl (tkern s))" by (rule left [OF False])
    have "expire_current_list d s = Some s" using e by (subst expire_current_list.simps) simp
    then have "prvSampleTimeNow d s = Some (of_nat N', True, ?s)"
      using wr False by (simp add: prvSampleTimeNow_def prvSwitchTimerLists_def xTaskGetTickCount_def now(1) L Let_def)
    moreover have "timer_lists M ?s G" using W timer_listsD(2) [OF W, symmetric] by (simp add: timer_lists_def insert_commute)
    moreover have "epoch N' = epoch N + 1" using epoch_step [OF now(2,3)] False by simp
    then have "on_time M N' expiry ?s" "active ?s = active s"
      using O current_empty [OF W, of ?c] e timer_listsD(2) [OF W] active_container [OF W] by (auto simp: on_time_def active_def fun_eq_iff)
    ultimately show ?thesis using False by auto
  qed
qed

section \<open>An expired timer\<close>

lemma same_epoch:
  assumes "epoch m = epoch n"
  shows "n < m + 2 ^ 32"
proof -
  have "n < m + 4294967296" using assms epoch_split [of n] epoch_split(1) [of m] by linarith
  then show ?thesis by simp
qed

lemma remove_timer:
  assumes W: "timer_lists M s G" and O: "on_time M N expiry s" and t: "t \<in> M" "active s t"
  defines "s' \<equiv> with_lists (snd (uxListRemove (xTimerListItem t) (kl (tkern s)))) s"
  shows "\<exists>G'. timer_lists M s' G'" "on_time M N expiry s'" "\<And>u. u \<in> M \<Longrightarrow> active s' u \<longleftrightarrow> u \<noteq> t \<and> active s u"
proof -
  let ?x = "xTimerListItem t" and ?k = "kl (tkern s)" and ?L = "{pxCurrentTimerList s, pxOverflowTimerList s}"
  note D = timer_listsD [OF W]
  obtain l where l: "pxContainer ?k ?x = l" "l \<in> ?L" using active_container [OF W t(1)] t(2) by blast
  have l0: "l \<noteq> 0" using rings_D(1) [OF D(1)] l(2) by auto
  from rings_remove [OF D(1) _ l(1) l0] t(1) obtain k' where
    k': "uxListRemove ?x ?k = (of_nat (length (G l) - 1), k')" "rings ?L (xTimerListItem ` M) k' (G(l := remove1 ?x (G l)))"
      "xItemValue k' = xItemValue ?k" "pvOwner k' = pvOwner ?k"
    and c: "\<And>y. y \<in> xTimerListItem ` M \<Longrightarrow> pxContainer k' y = (if y = ?x then 0 else pxContainer ?k y)" by blast
  have s': "s' = with_lists k' s" by (simp add: s'_def k'(1))
  show act: "active s' u \<longleftrightarrow> u \<noteq> t \<and> active s u" if "u \<in> M" for u using c [of "xTimerListItem u"] that by (auto simp: active_def s')
  have "sorted (map (xItemValue k') ((G(l := remove1 ?x (G l))) j))" if "j \<in> ?L" for j
    using D(4) [OF that] by (auto simp: k'(3) intro: sorted_map_remove1)
  moreover have "pvOwner k' (xTimerListItem u) = u" if "u \<in> M" "pxContainer k' (xTimerListItem u) \<noteq> 0" for u
    using that c [of "xTimerListItem u"] D(3) by (auto simp: k'(4) active_def split: if_splits)
  ultimately have "timer_lists M s' (G(l := remove1 ?x (G l)))" unfolding timer_lists_def s' using k'(2) D(2) by simp
  then show "\<exists>G'. timer_lists M s' G'" by blast
  have "pxContainer k' (xTimerListItem u) = pxContainer ?k (xTimerListItem u)" if "u \<in> M" "active s' u" for u
    using c [of "xTimerListItem u"] act that by auto
  then show "on_time M N expiry s'" using O act by (auto simp: on_time_def s' k'(3))
qed

text \<open>The start command of the timer task for a timer in no list: the expiry is one period after the time of the command. If that is past too, the timer's code
  is called for it, and a periodic timer gets the next command, from that expiry.\<close>

lemma restart_exact:
  assumes now: "prvSampleTimeNow d s = Some (of_nat N, sw, s1)" and out: "\<not> active s t" "\<not> active s1 t"
    and W: "timer_lists M s1 G" and O: "on_time M N expiry s1" and t: "t \<in> M" "C \<le> N" "N < C + 2 ^ 32"
  defines "D \<equiv> C + unat (xTimerPeriodInTicks (timers s1 t))"
  shows "\<exists>s2. process_command d x tmrCOMMAND_START_DONT_TRACE (of_nat C) t s =
      (if D \<le> N
       then do { s3 \<leftarrow> timer_code d (pxTimerCallback (timers s1 t)) t s2;
                 if uxAutoReload (timers s3 t) = 1
                 then map_option (snd \<circ> snd) (xTimerGenericCommand d t tmrCOMMAND_START_DONT_TRACE (of_nat C + xTimerPeriodInTicks (timers s3 t)) False tmrNO_DELAY s3)
                 else Some s3 }
       else Some s2) \<and>
    (\<exists>G'. timer_lists M s2 G') \<and> timers s2 = timers s1 \<and> on_time M N (expiry(t := D)) s2 \<and> (\<forall>u \<in> M. active s2 u = (if u = t then N < D else active s1 u))"
proof -
  from insert_exact [OF W O t(1) out(2) t(2,3), folded D_def] obtain l where
    l: "prvInsertTimerInActiveList t (of_nat C + xTimerPeriodInTicks (timers s1 t)) (of_nat N) (of_nat C) s1 = Some (D \<le> N, with_lists l s1)"
      "\<exists>G'. timer_lists M (with_lists l s1) G'" "on_time M N (expiry(t := D)) (with_lists l s1)"
      "\<forall>u. u \<in> M \<longrightarrow> active (with_lists l s1) u = (if u = t then N < D else active s1 u)" by blast
  have "listIS_CONTAINED_WITHIN 0 (xTimerListItem t) (kl (tkern s))" using out(1) by (simp add: active_def listIS_CONTAINED_WITHIN_def)
  then have "process_command d x tmrCOMMAND_START_DONT_TRACE (of_nat C) t s =
      (if D \<le> N
       then do { s3 \<leftarrow> timer_code d (pxTimerCallback (timers s1 t)) t (with_lists l s1);
                 if uxAutoReload (timers s3 t) = 1
                 then map_option (snd \<circ> snd) (xTimerGenericCommand d t tmrCOMMAND_START_DONT_TRACE (of_nat C + xTimerPeriodInTicks (timers s3 t)) False tmrNO_DELAY s3)
                 else Some s3 }
       else Some (with_lists l s1))"
    by (simp add: process_command_def now l(1))
  then show ?thesis using l(2-4) by (intro exI [of _ "with_lists l s1"]) simp
qed

text \<open>C39: A timer does not drift. However late the timer task processes the timer that expires first, the timer is taken from its list and its code is called once. A one-shot timer
  stays out of the lists. A periodic one that is processed before its next expiry is armed for exactly one period after its previous expiry. One that
  is late by a whole period or more stays out of the lists until the timer task processes the start command it is sent, without waiting, whose time is the previous expiry, so that its periods count on
  from there (lemma \<open>restart_exact\<close>); the command is lost when the queue is full (C40). All other timers keep their times.\<close>

theorem timer_no_drift:
  assumes W: "timer_lists M s G" and O: "on_time M N expiry s" and t: "t \<in> M" "active s t" "expiry t \<le> N" "epoch (expiry t) = epoch N"
    and hd: "listGET_OWNER_OF_HEAD_ENTRY (pxCurrentTimerList s) (kl (tkern s)) = t"
  defines "D \<equiv> expiry t + unat (xTimerPeriodInTicks (timers s t))" and "periodic \<equiv> uxAutoReload (timers s t) = 1"
  shows "\<exists>s'. (\<exists>G'. timer_lists M s' G') \<and> timers s' = timers s \<and>
    prvProcessExpiredTimer d (of_nat (expiry t)) (of_nat N) s =
      (if periodic \<and> D \<le> N
       then do { (_, _, s2) \<leftarrow> xTimerGenericCommand d t tmrCOMMAND_START_DONT_TRACE (of_nat (expiry t)) False tmrNO_DELAY s';
                 timer_code d (pxTimerCallback (timers s2 t)) t s2 }
       else timer_code d (pxTimerCallback (timers s t)) t s') \<and>
    (if periodic \<and> N < D then on_time M N (expiry(t := D)) s' \<and> (\<forall>u \<in> M. active s' u = active s u)
     else on_time M N expiry s' \<and> (\<forall>u \<in> M. active s' u = (u \<noteq> t \<and> active s u)))"
proof -
  let ?s1 = "with_lists (snd (uxListRemove (xTimerListItem t) (kl (tkern s)))) s" and ?p = "xTimerPeriodInTicks (timers s t)"
  note R = remove_timer [OF W O t(1,2)]
  show ?thesis
  proof (cases periodic)
    case False
    then have "prvProcessExpiredTimer d (of_nat (expiry t)) (of_nat N) s = timer_code d (pxTimerCallback (timers s t)) t ?s1"
      by (simp add: prvProcessExpiredTimer_def hd periodic_def)
    then show ?thesis using False R by (intro exI [of _ ?s1]) simp
  next
    case True
    then have re: "uxAutoReload (timers s t) = 1" by (simp add: periodic_def)
    obtain G1 where G1: "timer_lists M ?s1 G1" using R(1) by blast
    have out: "\<not> active ?s1 t" using R(3) [OF t(1)] by simp
    have ti: "timers ?s1 = timers s" by simp
    have N: "N < expiry t + 2 ^ 32" by (rule same_epoch [OF t(4)])
    from insert_exact [OF G1 R(2) t(1) out t(3) N, unfolded ti, folded D_def] obtain l where
      l: "prvInsertTimerInActiveList t (of_nat (expiry t) + ?p) (of_nat N) (of_nat (expiry t)) ?s1 = Some (D \<le> N, with_lists l ?s1)"
        "\<exists>G'. timer_lists M (with_lists l ?s1) G'" "on_time M N (expiry(t := D)) (with_lists l ?s1)"
        "\<And>u. u \<in> M \<Longrightarrow> active (with_lists l ?s1) u = (if u = t then N < D else active ?s1 u)" by blast
    have P: "prvProcessExpiredTimer d (of_nat (expiry t)) (of_nat N) s =
      (if D \<le> N
       then do { (_, _, s2) \<leftarrow> xTimerGenericCommand d t tmrCOMMAND_START_DONT_TRACE (of_nat (expiry t)) False tmrNO_DELAY (with_lists l ?s1);
                 timer_code d (pxTimerCallback (timers s2 t)) t s2 }
       else timer_code d (pxTimerCallback (timers s t)) t (with_lists l ?s1))"
      using l(1) re by (simp add: prvProcessExpiredTimer_def hd split_def)
    have A: "active (with_lists l ?s1) u = (if N < D then active s u else u \<noteq> t \<and> active s u)" if "u \<in> M" for u
      using l(4) [OF that] R(3) [OF that] t(2) by auto
    have "on_time M N expiry (with_lists l ?s1)" if "\<not> N < D"
      using l(3) A [OF t(1)] that unfolding on_time_def by auto
    then show ?thesis using P A l(2,3) True by (intro exI [of _ "with_lists l ?s1"]) (simp add: linorder_not_less)
  qed
qed

text \<open>C40: The restart of a late timer can get lost. When the timer task is late for a periodic timer by a whole period and its command queue is full, the command
  that should start the timer again is dropped and its failure ignored: the code of the timer is called and the timer is in no list.\<close>

theorem reload_lost:
  assumes W: "timer_lists M s G" and O: "on_time M N expiry s" and t: "t \<in> M" "active s t" "expiry t \<le> N" "epoch (expiry t) = epoch N"
    and hd: "listGET_OWNER_OF_HEAD_ENTRY (pxCurrentTimerList s) (kl (tkern s)) = t"
    and late: "uxAutoReload (timers s t) = 1" "expiry t + unat (xTimerPeriodInTicks (timers s t)) \<le> N"
    and full: "prvIsQueueFull (xTimerQueue s) (tsys s)"
  shows "\<exists>s'. prvProcessExpiredTimer d (of_nat (expiry t)) (of_nat N) s = timer_code d (pxTimerCallback (timers s t)) t s' \<and>
    \<not> active s' t \<and> queues (tsys s') = queues (tsys s) \<and> timers s' = timers s"
proof -
  let ?s1 = "with_lists (snd (uxListRemove (xTimerListItem t) (kl (tkern s)))) s" and ?p = "xTimerPeriodInTicks (timers s t)"
  note R = remove_timer [OF W O t(1,2)]
  obtain G1 where G1: "timer_lists M ?s1 G1" using R(1) by blast
  have out: "\<not> active ?s1 t" using R(3) [OF t(1)] by simp
  have ti: "timers ?s1 = timers s" by simp
  have N: "N < expiry t + 2 ^ 32" by (rule same_epoch [OF t(4)])
  from insert_exact [OF G1 R(2) t(1) out t(3) N, unfolded ti] late(2) t(1) obtain l where
    l: "prvInsertTimerInActiveList t (of_nat (expiry t) + ?p) (of_nat N) (of_nat (expiry t)) ?s1 = Some (True, with_lists l ?s1)"
      "\<not> active (with_lists l ?s1) t" by auto
  let ?s2 = "with_lists l ?s1"
  have q: "queues (tsys ?s2) = queues (tsys s)" "xTimerQueue ?s2 = xTimerQueue s" by (simp_all add: with_lists_def with_system_def)
  define s3 where "s3 = (if xTimerQueue s = NULL then ?s2 else put_message (command_local d) [tmrCOMMAND_START_DONT_TRACE, of_nat (expiry t), t] ?s2)"
  have s3: "queues (tsys s3) = queues (tsys s)" "timers s3 = timers s" "kl (tkern s3) = kl (tkern ?s2)" "xTimerQueue s3 = xTimerQueue s"
    using q by (simp_all add: s3_def put_message_def with_system_def)
  have snd_full: "xQueueGenericSend (gaps d) (xTimerQueue s) (command_local d) n queueSEND_TO_BACK (tsys s3) = Some (False, tsys s3)" if "n = 0" for n
    using full that unfolding xQueueGenericSend_def
    by (subst xQueueGenericSend_loop.simps) (simp add: s3(1) prvIsQueueFull_def)
  have c: "xTimerGenericCommand d t tmrCOMMAND_START_DONT_TRACE (of_nat (expiry t)) False tmrNO_DELAY ?s2 = Some (False, False, s3)"
  proof (cases "xTimerQueue s = NULL")
    case True
    then show ?thesis using q(2) by (simp add: xTimerGenericCommand_def s3_def)
  next
    case False
    then have m: "put_message (command_local d) [tmrCOMMAND_START_DONT_TRACE, of_nat (expiry t), t] ?s2 = s3" by (simp only: s3_def if_False)
    have "with_system (tsys s3) s3 = s3" by (simp add: with_system_def)
    then show ?thesis unfolding xTimerGenericCommand_def Let_def m q(2) s3(4) using False snd_full by simp
  qed
  have "prvProcessExpiredTimer d (of_nat (expiry t)) (of_nat N) s = timer_code d (pxTimerCallback (timers s t)) t s3"
    using l(1) late(1) c s3(2) by (simp add: prvProcessExpiredTimer_def hd)
  moreover have "\<not> active s3 t" using l(2) s3(3) by (simp add: active_def)
  ultimately show ?thesis using s3 by blast
qed

lemma epoch_le: "epoch m = epoch n \<Longrightarrow> (of_nat m :: u32) \<le> of_nat n \<longleftrightarrow> m \<le> n"
  using epoch_split(1) [of m] epoch_split(1) [of n] unfolding word_le_nat_alt unat_time by linarith

text \<open>The tick count subtracted from an expiry time of the same epoch, and from the end of the epoch.\<close>

lemma time_left:
  assumes "epoch n = epoch m" "n \<le> m"
  shows "n + unat (of_nat m - of_nat n :: u32) = m"
proof -
  have "m < n + 4294967296" using same_epoch [OF assms(1)] by simp
  then have "m - n < 2 ^ 32" using assms(2) by simp
  moreover have "(of_nat m - of_nat n :: u32) = of_nat (m - n)" using assms(2) by (simp add: of_nat_diff)
  ultimately have "unat (of_nat m - of_nat n :: u32) = m - n" by (simp only: unat_time) simp
  then show ?thesis using assms(2) by simp
qed

lemma epoch_left:
  assumes "epoch m = epoch n + 1"
  shows "n + unat (0 - of_nat n :: u32) \<le> m" "n < m"
proof -
  have "unat (0 - of_nat n :: u32) \<le> 2 ^ 32 - n mod 2 ^ 32" unfolding unat_sub_if' unat_time by simp
  then have "unat (0 - of_nat n :: u32) + n mod 2 ^ 32 \<le> 4294967296" using epoch_split(2) [of n] by simp
  then show "n + unat (0 - of_nat n :: u32) \<le> m" using assms epoch_split(1) [of n] epoch_split(1) [of m] by linarith
  show "n < m" using assms epoch_split [of n] epoch_split(1) [of m] by linarith
qed

text \<open>With no timer in the current list all that are active expire in the next epoch.\<close>

lemma overflow_only:
  assumes W: "timer_lists M s G" and O: "on_time M N expiry s" and e: "listLIST_IS_EMPTY (pxCurrentTimerList s) (kl (tkern s))"
  shows "t \<in> M \<Longrightarrow> active s t \<Longrightarrow> epoch (expiry t) = epoch N + 1"
    "listLIST_IS_EMPTY (pxOverflowTimerList s) (kl (tkern s)) \<longleftrightarrow> (\<forall>t \<in> M. \<not> active s t)"
proof -
  let ?k = "kl (tkern s)" and ?c = "pxCurrentTimerList s" and ?o = "pxOverflowTimerList s"
  have ov: "pxContainer ?k (xTimerListItem t) = ?o" "epoch (expiry t) = epoch N + 1" if "t \<in> M" "active s t" for t
  proof -
    have "pxContainer ?k (xTimerListItem t) \<noteq> ?c" using e current_empty [OF W, of ?c] that(1) by simp
    then show "pxContainer ?k (xTimerListItem t) = ?o" "epoch (expiry t) = epoch N + 1"
      using active_container [OF W that(1)] that O by (auto simp: on_time_def)
  qed
  show "t \<in> M \<Longrightarrow> active s t \<Longrightarrow> epoch (expiry t) = epoch N + 1" by (rule ov(2))
  show "listLIST_IS_EMPTY ?o ?k \<longleftrightarrow> (\<forall>t \<in> M. \<not> active s t)" using current_empty [OF W, of ?o] ov(1) active_container [OF W] by blast
qed

text \<open>C38: The timer task is neither early nor late. While the tick count has not wrapped since it last looked, the task processes the active timer that
  expires first exactly when that has expired, and otherwise blocks: indefinitely when no timer is active, else for no longer than until the
  first expiry, and exactly until then when that comes before the wrap.\<close>

theorem timer_task_exact:
  assumes W: "timer_lists M s G" and O: "on_time M N expiry s" and now: "xTickCount (tkern s) = of_nat N'" "N \<le> N'" "epoch N' = epoch N"
    and x: "prvGetNextExpireTime s = (x, e)"
  shows "if \<exists>t \<in> M. active s t \<and> expiry t \<le> N'
    then \<exists>t \<in> M. active s t \<and> (\<forall>u \<in> M. active s u \<longrightarrow> expiry t \<le> expiry u) \<and>
      listGET_OWNER_OF_HEAD_ENTRY (pxCurrentTimerList s) (kl (tkern s)) = t \<and>
      prvProcessTimerOrBlockTask d x e s = do { (r, y) \<leftarrow> resume_all (tsys (looked s));
        prvProcessExpiredTimer d (of_nat (expiry t)) (of_nat N') (others d (with_system y (looked s))) }
    else \<exists>b. prvProcessTimerOrBlockTask d x e s = block_timer_task d b (\<forall>t \<in> M. \<not> active s t) (looked s) \<and>
      (\<forall>t \<in> M. active s t \<longrightarrow> N' + unat b \<le> expiry t) \<and>
      ((\<exists>t \<in> M. active s t \<and> epoch (expiry t) = epoch N') \<longrightarrow> (\<exists>t \<in> M. active s t \<and> expiry t = N' + unat b))"
proof -
  let ?k = "kl (tkern s)" and ?c = "pxCurrentTimerList s"
  have "xLastTime s = of_nat N" using O by (simp add: on_time_def)
  then have "\<not> xTickCount (tkern s) < xLastTime s" using now epoch_le [of N N'] by (simp add: linorder_not_less)
  note P = process_or_block_same [OF this, where d = d and x = x and e = e, unfolded now(1)]
  have e: "e \<longleftrightarrow> listLIST_IS_EMPTY ?c ?k" and x': "\<not> e \<Longrightarrow> x = listGET_ITEM_VALUE_OF_HEAD_ENTRY ?c ?k" "e \<Longrightarrow> x = 0"
    using x by (auto simp: prvGetNextExpireTime_def Let_def)
  show ?thesis
  proof (cases e)
    case False
    then have "\<not> listLIST_IS_EMPTY ?c ?k" using e by simp
    from current_head [OF W O this] obtain t where
      t: "t \<in> M" "active s t" "listGET_OWNER_OF_HEAD_ENTRY ?c ?k = t" "listGET_ITEM_VALUE_OF_HEAD_ENTRY ?c ?k = of_nat (expiry t)"
        "epoch (expiry t) = epoch N'" and first: "\<And>u. u \<in> M \<Longrightarrow> active s u \<Longrightarrow> expiry t \<le> expiry u" unfolding now(3) by blast
    have xt: "x = of_nat (expiry t)" using x'(1) [OF False] t(4) by simp
    have le: "x \<le> of_nat N' \<longleftrightarrow> expiry t \<le> N'" unfolding xt by (rule epoch_le [OF t(5)])
    show ?thesis
    proof (cases "expiry t \<le> N'")
      case True
      then have "prvProcessTimerOrBlockTask d x e s = do { (r, y) \<leftarrow> resume_all (tsys (looked s));
        prvProcessExpiredTimer d (of_nat (expiry t)) (of_nat N') (others d (with_system y (looked s))) }" using P False le xt by simp
      moreover have "\<exists>t \<in> M. active s t \<and> expiry t \<le> N'" using True t(1,2) by blast
      ultimately show ?thesis using t(1-3) first by (simp only: if_True) blast
    next
      case late: False
      have none: "\<not> (\<exists>u \<in> M. active s u \<and> expiry u \<le> N')" using late first order_trans by blast
      have eq: "N' + unat (x - of_nat N') = expiry t" unfolding xt using late by (intro time_left t(5) [symmetric]) simp
      have some: "(\<forall>t \<in> M. \<not> active s t) = False" using t(1,2) by blast
      have "prvProcessTimerOrBlockTask d x e s = block_timer_task d (x - of_nat N') (\<forall>t \<in> M. \<not> active s t) (looked s)"
        unfolding some using P False le late by simp
      then show ?thesis unfolding if_not_P [OF none] using first t(1,2) eq [symmetric] by (intro exI [of _ "x - of_nat N'"]) metis
    qed
  next
    case True
    note ov = overflow_only [OF W O, folded now(3), OF True [unfolded e]]
    have none: "\<not> (\<exists>u \<in> M. active s u \<and> expiry u \<le> N')" using epoch_left(2) [OF ov(1)] by (auto simp: linorder_not_le)
    have "prvProcessTimerOrBlockTask d x e s = block_timer_task d (0 - of_nat N') (\<forall>t \<in> M. \<not> active s t) (looked s)"
      using P True x'(2) ov(2) by simp
    moreover have "\<not> (\<exists>t \<in> M. active s t \<and> epoch (expiry t) = epoch N')" using ov(1) by auto
    ultimately show ?thesis unfolding if_not_P [OF none] using epoch_left(1) [OF ov(1)] by blast
  qed
qed

text \<open>A periodic timer at 100 with a period of ten ticks, started at tick zero, and a full command queue.\<close>

definition demo_unstarted :: timer_system where
  "demo_unstarted =
     \<lparr>gsys = demo_group\<lparr>sys := demo_system\<lparr>kern := demo_kernel\<lparr>kl := vListInitialise 3020 (vListInitialise 3000 demo_lists), xTickCount := 12\<rparr>,
        queues := \<lambda>_. demo_queue\<lparr>uxMessagesWaiting := uxLength demo_queue\<rparr>\<rparr>\<rparr>,
      timers = \<lambda>_. \<lparr>pcTimerName = 0, xTimerPeriodInTicks = 10, uxAutoReload = 1, pvTimerID = 0, pxTimerCallback = 5000, uxTimerNumber = 0\<rparr>,
      xActiveTimerList1 = 3000, xActiveTimerList2 = 3020, pxCurrentTimerList = 3000, pxOverflowTimerList = 3020,
      xTimerQueue = 1964, xTimerTaskHandle = 200, xLastTime = 0\<rparr>"

definition demo_timer :: timer_system where
  "demo_timer = (case prvInsertTimerInActiveList 100 10 0 0 demo_unstarted of None \<Rightarrow> demo_unstarted | Some (r, s) \<Rightarrow> s)"

lemma demo_timer_started:
  "\<exists>G. timer_lists {100} demo_timer G" "on_time {100} 0 (\<lambda>_. 10) demo_timer" "active demo_timer 100" "\<exists>l. demo_timer = with_lists l demo_unstarted"
proof -
  let ?k = "vListInitialise 3020 (vListInitialise 3000 demo_lists)"
  have k: "kl (tkern demo_unstarted) = ?k" by (simp add: demo_unstarted_def)
  have "ring ?k 3000 []" by (simp add: ring_def vListInitialise_def list_setters xListEnd_def)
  moreover have "ring ?k 3020 []" by (rule vListInitialise_ring)
  moreover have "pxContainer ?k (xTimerListItem 100) = 0" by (simp add: vListInitialise_def list_setters demo_lists_def)
  ultimately have "timer_lists {100} demo_unstarted (\<lambda>_. [])" and a: "\<not> active demo_unstarted 100"
    by (simp_all add: timer_lists_def active_def k rings_def demo_unstarted_def xTimerListItem_def xListEnd_def)
  moreover have "on_time {100} 0 (\<lambda>_. 0) demo_unstarted" using a by (simp add: on_time_def) (simp add: demo_unstarted_def)
  moreover have p: "xTimerPeriodInTicks (timers demo_unstarted 100) = 10" by (simp add: demo_unstarted_def)
  ultimately obtain l G where l: "prvInsertTimerInActiveList 100 10 0 0 demo_unstarted = Some (False, with_lists l demo_unstarted)"
    "timer_lists {100} (with_lists l demo_unstarted) G" "on_time {100} 0 ((\<lambda>_. 0)(100 := 10)) (with_lists l demo_unstarted)"
    "active (with_lists l demo_unstarted) 100"
    using insert_exact [where C = 0 and N = 0 and t = 100 and s = demo_unstarted and M = "{100}" and G = "\<lambda>_. []" and expiry = "\<lambda>_. 0"] by auto
  then have d: "demo_timer = with_lists l demo_unstarted" by (simp add: demo_timer_def)
  then show "\<exists>G. timer_lists {100} demo_timer G" "active demo_timer 100" "\<exists>l. demo_timer = with_lists l demo_unstarted" using l by auto
  show "on_time {100} 0 (\<lambda>_. 10) demo_timer" using l(3) by (simp add: d on_time_def)
qed

lemma demo_timer_due:
  assumes "n < 1000"
  shows "\<exists>G. timer_lists {100} (demo_timer\<lparr>xLastTime := of_nat n\<rparr>) G" "on_time {100} n (\<lambda>_. 10) (demo_timer\<lparr>xLastTime := of_nat n\<rparr>)"
    "active (demo_timer\<lparr>xLastTime := of_nat n\<rparr>) 100"
    "listGET_OWNER_OF_HEAD_ENTRY (pxCurrentTimerList demo_timer) (kl (tkern demo_timer)) = 100" "epoch 10 = epoch n"
    "timers demo_timer 100 = \<lparr>pcTimerName = 0, xTimerPeriodInTicks = 10, uxAutoReload = 1, pvTimerID = 0, pxTimerCallback = 5000, uxTimerNumber = 0\<rparr>"
    "prvIsQueueFull (xTimerQueue demo_timer) (tsys demo_timer)" "xTickCount (tkern demo_timer) = 12"
proof -
  note D = demo_timer_started
  have e: "epoch 10 = 0" "epoch n = 0" "epoch 0 = 0" using assms by (simp_all add: epoch_def)
  then show "epoch 10 = epoch n" by simp
  show "\<exists>G. timer_lists {100} (demo_timer\<lparr>xLastTime := of_nat n\<rparr>) G" using D(1) by (simp add: timer_lists_def)
  show "active (demo_timer\<lparr>xLastTime := of_nat n\<rparr>) 100" using D(3) by (simp add: active_def)
  show "on_time {100} n (\<lambda>_. 10) (demo_timer\<lparr>xLastTime := of_nat n\<rparr>)" using D(2) by (auto simp: on_time_def active_def e split: if_splits)
  obtain G where G: "timer_lists {100} demo_timer G" using D(1) by blast
  have c: "pxContainer (kl (tkern demo_timer)) (xTimerListItem 100) = pxCurrentTimerList demo_timer"
  proof (rule ccontr)
    assume "\<not> ?thesis"
    then show False using D(2,3) by (auto simp: on_time_def active_def e split: if_splits)
  qed
  then have "\<not> listLIST_IS_EMPTY (pxCurrentTimerList demo_timer) (kl (tkern demo_timer))" using current_empty [OF G, of "pxCurrentTimerList demo_timer"] by simp
  from current_head [OF G D(2) this] show "listGET_OWNER_OF_HEAD_ENTRY (pxCurrentTimerList demo_timer) (kl (tkern demo_timer)) = 100" by auto
  obtain l where dl: "demo_timer = with_lists l demo_unstarted" using D(4) by blast
  show "timers demo_timer 100 = \<lparr>pcTimerName = 0, xTimerPeriodInTicks = 10, uxAutoReload = 1, pvTimerID = 0, pxTimerCallback = 5000, uxTimerNumber = 0\<rparr>"
    "prvIsQueueFull (xTimerQueue demo_timer) (tsys demo_timer)" "xTickCount (tkern demo_timer) = 12"
    unfolding dl by (simp_all add: with_lists_def with_system_def demo_unstarted_def prvIsQueueFull_def)
qed

definition demo_surroundings :: surroundings where
  "demo_surroundings = \<lparr>gaps = (\<lambda>_ _ s. s), others = id, timer_code = (\<lambda>_ _ s. Some s), pended_code = (\<lambda>_ _ _ s. Some s),
     command_local = 6000, message_local = 6020\<rparr>"

theorem timer_task_exact_witness:
  "\<exists>x e. prvGetNextExpireTime demo_timer = (x, e) \<and> prvProcessTimerOrBlockTask demo_surroundings x e demo_timer =
    do { (r, y) \<leftarrow> resume_all (tsys (looked demo_timer)); prvProcessExpiredTimer demo_surroundings 10 12 (others demo_surroundings (with_system y (looked demo_timer))) }"
proof -
  obtain x e where x: "prvGetNextExpireTime demo_timer = (x, e)" by fastforce
  obtain G where G: "timer_lists {100} demo_timer G" using demo_timer_started(1) by blast
  have n: "xTickCount (tkern demo_timer) = of_nat 12" "(0 :: nat) \<le> 12" "epoch 12 = epoch 0"
    using demo_timer_due(8) [of 0] by (simp_all add: epoch_def)
  show ?thesis using timer_task_exact [OF G demo_timer_started(2) n x, where d = demo_surroundings] x demo_timer_started(3) by simp
qed

theorem timer_no_drift_witness:
  "\<exists>s'. prvProcessExpiredTimer demo_surroundings 10 12 (demo_timer\<lparr>xLastTime := 12\<rparr>) = timer_code demo_surroundings 5000 100 s' \<and>
    on_time {100} 12 (\<lambda>_. 20) s' \<and> active s' 100"
proof -
  let ?s = "demo_timer\<lparr>xLastTime := of_nat 12\<rparr>"
  note D = demo_timer_due [of 12, simplified of_nat_numeral]
  obtain G where G: "timer_lists {100} ?s G" using D(1) by auto
  have h: "on_time {100} 12 (\<lambda>_. 10) ?s" "100 \<in> {100 :: u32}" "active ?s 100" "(10 :: nat) \<le> 12" "epoch 10 = epoch 12"
    "listGET_OWNER_OF_HEAD_ENTRY (pxCurrentTimerList ?s) (kl (tkern ?s)) = 100" using D by simp_all
  from timer_no_drift [OF G h, where d = demo_surroundings] D(6) obtain s' where s':
    "prvProcessExpiredTimer demo_surroundings 10 12 (demo_timer\<lparr>xLastTime := 12\<rparr>) = timer_code demo_surroundings 5000 100 s'" "on_time {100} 12 ((\<lambda>_. 10)(100 := 20)) s'" "active s' 100"
    using h(3) D by auto
  then have "on_time {100} 12 (\<lambda>_. 20) s'" by (simp add: on_time_def)
  then show ?thesis using s' by blast
qed

theorem reload_lost_witness:
  "\<exists>s'. prvProcessExpiredTimer demo_surroundings 10 30 (demo_timer\<lparr>xLastTime := 30\<rparr>) = timer_code demo_surroundings 5000 100 s' \<and> \<not> active s' 100"
proof -
  let ?s = "demo_timer\<lparr>xLastTime := of_nat 30\<rparr>"
  note D = demo_timer_due [of 30, simplified of_nat_numeral]
  obtain G where G: "timer_lists {100} ?s G" using D(1) by auto
  have h: "on_time {100} 30 (\<lambda>_. 10) ?s" "100 \<in> {100 :: u32}" "active ?s 100" "(10 :: nat) \<le> 30" "epoch 10 = epoch 30"
    "listGET_OWNER_OF_HEAD_ENTRY (pxCurrentTimerList ?s) (kl (tkern ?s)) = 100"
    "uxAutoReload (timers ?s 100) = 1" "10 + unat (xTimerPeriodInTicks (timers ?s 100)) \<le> 30" "prvIsQueueFull (xTimerQueue ?s) (tsys ?s)"
    using D by simp_all
  from reload_lost [OF G h, where d = demo_surroundings] D(6) show ?thesis by auto
qed

end
