(* ===== verification/Rtos_Run.thy ===== *)
theory Rtos_Run
  imports Rtos_Control
begin

unbundle bit_operations_syntax

text \<open>
  The scheduler of \<^verbatim>\<open>src/ns_guest/lib/freertos/tasks.c\<close> in operation: any sequence of calls by the running task, tick interrupts and calls by
  other interrupts, as a relation of steps. A call that waits for a notification has two critical sections and is two
  calls here, since others run in between. What a task must not do is the guard of the step: block or suspend the
  idle task, wait while it is between the two halves of a wait, change the priority of a task that waits for an event.
\<close>

section \<open>Calls\<close>

datatype call =
    Tick
  | Yield
  | Delay u32
  | WaitFor u32 u32
  | Signal u32
  | Suspend u32
  | Resume u32
  | PrioritySet u32 u32
  | Notify u32 u32 eNotifyAction
  | TakeEnter u32
  | TakeExit bool
  | WaitEnter u32 u32
  | WaitExit u32
  | StateClear u32
  | ResumeFromISR u32
  | NotifyFromISR u32 u32 eNotifyAction
  | GiveFromISR u32
  | SignalFromISR u32
  | NewList u32

text \<open>The signal of an event, as the calls on queues make it: nothing when no task waits, and a yield when it is asked for.\<close>

definition signal_event :: "u32 \<Rightarrow> kernel \<Rightarrow> kernel option" where
  "signal_event l s =
     (if listLIST_IS_EMPTY l (kl s) then Some s else (let (r, s) = xTaskRemoveFromEventList l s in irq_exit r s))"

fun perform :: "call \<Rightarrow> kernel \<Rightarrow> kernel option" where
  "perform Tick s = do { (r, s) \<leftarrow> FreeRTOS_Tick_Handler False s; irq_exit r s }"
| "perform Yield s = vTaskSwitchContext s"
| "perform (Delay n) s = vTaskDelay n s"
| "perform (WaitFor l n) s = do { s \<leftarrow> vTaskPlaceOnEventList l n s; vTaskSwitchContext s }"
| "perform (Signal l) s = signal_event l s"
| "perform (Suspend h) s = vTaskSuspend h s"
| "perform (Resume t) s = vTaskResume t s"
| "perform (PrioritySet h p) s = vTaskPrioritySet h p s"
| "perform (Notify t v a) s = map_option (snd \<circ> snd) (xTaskGenericNotify t v a s)"
| "perform (TakeEnter n) s = notify_take_enter n s"
| "perform (TakeExit b) s = Some (snd (notify_take_exit b s))"
| "perform (WaitEnter m n) s = notify_wait_enter m n s"
| "perform (WaitExit m) s = Some (snd (snd (notify_wait_exit m s)))"
| "perform (StateClear h) s = Some (snd (xTaskNotifyStateClear h s))"
| "perform (ResumeFromISR t) s = (let (r, s) = xTaskResumeFromISR t s in irq_exit r s)"
| "perform (NotifyFromISR t v a) s = (let (x, old, r, s) = xTaskGenericNotifyFromISR t v a s in irq_exit r s)"
| "perform (GiveFromISR t) s = (let (r, s) = vTaskNotifyGiveFromISR t s in irq_exit r s)"
| "perform (SignalFromISR l) s = signal_event l s"
| "perform (NewList l) s = Some (s\<lparr>kl := vListInitialise l (kl s)\<rparr>)"

text \<open>The event lists after a call.\<close>

fun lists_after :: "call \<Rightarrow> u32 set \<Rightarrow> u32 set" where
  "lists_after (NewList l) E = insert l E"
| "lists_after _ E = E"

fun interrupt :: "call \<Rightarrow> bool" where
  "interrupt Tick = True"
| "interrupt (ResumeFromISR t) = True"
| "interrupt (NotifyFromISR t v a) = True"
| "interrupt (GiveFromISR t) = True"
| "interrupt (SignalFromISR l) = True"
| "interrupt _ = False"

fun ends_wait :: "call \<Rightarrow> bool" where
  "ends_wait (TakeExit b) = True"
| "ends_wait (WaitExit m) = True"
| "ends_wait _ = False"

text \<open>A task that has deleted itself is in the list of tasks that wait for termination until the idle task frees its memory.\<close>

definition gone :: "kernel \<Rightarrow> u32 \<Rightarrow> bool" where
  "gone s t \<longleftrightarrow> pxContainer (kl s) (xStateListItem t) = xTasksWaitingTermination s"

fun arguments :: "u32 set \<Rightarrow> u32 set \<Rightarrow> u32 \<Rightarrow> call \<Rightarrow> kernel \<Rightarrow> bool" where
  "arguments T E idle (Delay n) s = (n \<noteq> 0 \<longrightarrow> pxCurrentTCB s \<noteq> idle)"
| "arguments T E idle (WaitFor l n) s = (l \<in> E \<and> n \<noteq> 0 \<and> pxCurrentTCB s \<noteq> idle)"
| "arguments T E idle (Signal l) s = (l \<in> E)"
| "arguments T E idle (SignalFromISR l) s = (l \<in> E)"
| "arguments T E idle (Suspend h) s = (prvGetTCBFromHandle h s \<in> T - {idle} \<and> \<not> gone s (prvGetTCBFromHandle h s))"
| "arguments T E idle (Resume t) s = (t \<in> T)"
| "arguments T E idle (ResumeFromISR t) s = (t \<in> T)"
| "arguments T E idle (PrioritySet h p) s =
     (prvGetTCBFromHandle h s \<in> T \<and> pxContainer (kl s) (xEventListItem (prvGetTCBFromHandle h s)) = 0)"
| "arguments T E idle (Notify t v a) s = (t \<in> T)"
| "arguments T E idle (NotifyFromISR t v a) s = (t \<in> T)"
| "arguments T E idle (GiveFromISR t) s = (t \<in> T)"
| "arguments T E idle (TakeEnter n) s = (pxCurrentTCB s \<noteq> idle)"
| "arguments T E idle (WaitEnter m n) s = (pxCurrentTCB s \<noteq> idle)"
| "arguments T E idle (NewList l) s = (l \<notin> kernel_lists E s \<and> l \<noteq> 0 \<and> xListEnd l \<notin> items T)"
| "arguments T E idle _ s = True"

definition permitted :: "u32 set \<Rightarrow> u32 set \<Rightarrow> u32 \<Rightarrow> call \<Rightarrow> kernel \<Rightarrow> bool" where
  "permitted T E idle c s \<longleftrightarrow> arguments T E idle c s \<and>
     (interrupt c \<or> ends_wait c \<or> ucNotifyState s (pxCurrentTCB s) \<noteq> taskWAITING_NOTIFICATION)"

section \<open>The state between two calls\<close>

text \<open>All but the choice of the running task: the idle task is ready, no priority is inherited, a task that waits
  for a notification waits for nothing else, and a deleted task waits for nothing.\<close>

definition sound :: "u32 set \<Rightarrow> u32 set \<Rightarrow> u32 \<Rightarrow> kernel \<Rightarrow> bool" where
  "sound T E idle s \<longleftrightarrow> (\<exists>G. waiting T E s G) \<and> quiet T s \<and> idle \<in> T \<and> 0 \<notin> T \<and> task_ready s idle \<and> pxCurrentTCB s \<in> T \<and>
     xSchedulerRunning s \<and> (\<forall>t \<in> T. uxBasePriority s t = uxPriority s t) \<and>
     (\<forall>t \<in> T. pxContainer (kl s) (xStateListItem t) \<noteq> 0) \<and>
     (\<forall>t \<in> T. ucNotifyState s t = taskWAITING_NOTIFICATION \<longrightarrow> pxContainer (kl s) (xEventListItem t) = 0) \<and>
     (\<forall>t \<in> T. gone s t \<longrightarrow> pxContainer (kl s) (xEventListItem t) = 0 \<and> ucNotifyState s t \<noteq> taskWAITING_NOTIFICATION)"

definition operating :: "u32 set \<Rightarrow> u32 set \<Rightarrow> u32 \<Rightarrow> kernel \<Rightarrow> bool" where
  "operating T E idle s \<longleftrightarrow> sound T E idle s \<and> highest_ready T s (pxCurrentTCB s)"

lemma soundD:
  assumes "sound T E idle s"
  shows "\<exists>G. waiting T E s G" "quiet T s" "idle \<in> T" "0 \<notin> T" "task_ready s idle" "pxCurrentTCB s \<in> T"
    "xSchedulerRunning s" "\<And>t. t \<in> T \<Longrightarrow> uxBasePriority s t = uxPriority s t"
    "\<And>t. t \<in> T \<Longrightarrow> pxContainer (kl s) (xStateListItem t) \<noteq> 0"
    "\<And>t. t \<in> T \<Longrightarrow> ucNotifyState s t = taskWAITING_NOTIFICATION \<Longrightarrow> pxContainer (kl s) (xEventListItem t) = 0"
    "\<And>t. t \<in> T \<Longrightarrow> gone s t \<Longrightarrow> pxContainer (kl s) (xEventListItem t) = 0 \<and> ucNotifyState s t \<noteq> taskWAITING_NOTIFICATION"
  using assms by (simp_all add: sound_def)

lemma sound_kcore:
  assumes "sound T E idle s"
  obtains G where "waiting T E s G" "kcore T E s G" "xPendingReadyList s \<noteq> 0" "uxSchedulerSuspended s = 0"
proof -
  obtain G where G: "waiting T E s G" using soundD(1) [OF assms] by blast
  have "xPendingReadyList s \<noteq> 0" using rings_D(1) [OF kcoreD(1) [OF waitingD(2) [OF G]]] by (auto simp: event_lists_def)
  moreover have "uxSchedulerSuspended s = 0" using soundD(2) [OF assms] by (simp add: quiet_def)
  ultimately show ?thesis using that G waitingD(2) by blast
qed

lemma ready_event:
  assumes S: "sound T E idle s" and t: "t \<in> T" "task_ready s t"
  shows "pxContainer (kl s) (xEventListItem t) = 0"
proof -
  obtain G where W: "waiting T E s G" using soundD(1) [OF S] by blast
  have "pxContainer (kl s) (xStateListItem t) \<in> ready_lists s" using task_ready_in [OF waitingD(2) [OF W] t(1)] t(2) by blast
  then show ?thesis using waitingD(5) [OF W t(1)] kcore_task(5) [OF waitingD(2) [OF W] t(1)] by auto
qed

text \<open>What the calls leave alone: how many tasks there are, where the lists of the kernel lie, and which tasks are deleted.\<close>

definition kept_tasks :: "u32 set \<Rightarrow> kernel \<Rightarrow> kernel \<Rightarrow> bool" where
  "kept_tasks T s s' \<longleftrightarrow> uxCurrentNumberOfTasks s' = uxCurrentNumberOfTasks s \<and> pxReadyTasksLists s' = pxReadyTasksLists s \<and>
     xDelayedTaskList1 s' = xDelayedTaskList1 s \<and> xDelayedTaskList2 s' = xDelayedTaskList2 s \<and> xPendingReadyList s' = xPendingReadyList s \<and>
     xTasksWaitingTermination s' = xTasksWaitingTermination s \<and> xSuspendedTaskList s' = xSuspendedTaskList s \<and>
     (\<forall>u \<in> T. gone s' u = gone s u)"

lemma kept_tasks_refl: "kept_tasks T s s"
  by (simp add: kept_tasks_def)

lemma kept_tasks_trans: "kept_tasks T s s' \<Longrightarrow> kept_tasks T s' s'' \<Longrightarrow> kept_tasks T s s''"
  by (simp add: kept_tasks_def)

lemma rest_tasks: "same_rest s s' \<Longrightarrow> (\<And>u. u \<in> T \<Longrightarrow> gone s' u = gone s u) \<Longrightarrow> kept_tasks T s s'"
  by (simp add: same_rest_def kept_tasks_def)

lemma switched_tasks: "switched v s s' \<Longrightarrow> kept_tasks T s s'"
  by (rule rest_tasks [OF switched_rest]) (use switched_fields [of v s s'] switched_rest [of v s s'] in \<open>simp_all add: gone_def same_rest_def\<close>)

lemma kept_tasks_updates:
  "kept_tasks T s (s\<lparr>xNextTaskUnblockTime := n\<rparr>)" "kept_tasks T s (s\<lparr>ucNotifyState := f\<rparr>)" "kept_tasks T s (s\<lparr>ulNotifiedValue := g\<rparr>)"
  "kept_tasks T s (s\<lparr>ucNotifyState := f, ulNotifiedValue := g\<rparr>)" "kept_tasks T s (s\<lparr>xYieldPending := y\<rparr>)"
  by (simp_all add: kept_tasks_def gone_def)

text \<open>A switch from a sound state.\<close>

lemma sound_switch:
  assumes S: "sound T E idle s"
  obtains s' where "vTaskSwitchContext s = Some s'" "operating T E idle s'" "switched (pxCurrentTCB s') s s'"
proof -
  note D = soundD [OF S]
  obtain G where W: "waiting T E s G" and q: "uxSchedulerSuspended s = 0" using sound_kcore [OF S] by metis
  from switch_waiting [OF W q D(3,5)] obtain s' u where
    s': "vTaskSwitchContext s = Some s'" "switched u s s'" "waiting T E s' G" "highest_ready T s' u" by blast
  note V = switched_fields [OF s'(2)] switched_views [OF s'(2)] and R = switched_rest [OF s'(2), unfolded same_rest_def]
  have gn: "gone s' v = gone s v" for v using V R by (simp add: gone_def)
  have "u \<in> T" using s'(4) by (simp add: highest_ready_def)
  moreover have "task_ready s' idle" using D(5) by (simp only: V)
  ultimately have "sound T E idle s'" unfolding sound_def using s'(3) D(2-10) D(11) V R gn by simp blast
  then show ?thesis using that [OF s'(1)] s'(2,4) V(12) by (simp add: operating_def)
qed

text \<open>A change of lists.\<close>

lemma sound_moved:
  assumes S: "sound T E idle s" and W: "waiting T E s' G'" and r: "same_rest s s'"
    and f: "uxPriority s' = uxPriority s" "ready_list s' = ready_list s" "uxSchedulerSuspended s' = uxSchedulerSuspended s"
      "uxPendedTicks s' = uxPendedTicks s" "xPendingReadyList s' = xPendingReadyList s" "pxCurrentTCB s' = pxCurrentTCB s"
    and st: "\<And>u. u \<in> T \<Longrightarrow> pxContainer (kl s') (xStateListItem u) \<noteq> 0"
    and ev: "\<And>u. u \<in> T \<Longrightarrow> ucNotifyState s u = taskWAITING_NOTIFICATION \<Longrightarrow> pxContainer (kl s') (xEventListItem u) = 0"
    and gn: "\<And>u. u \<in> T \<Longrightarrow> gone s' u = gone s u \<and> (gone s u \<longrightarrow> pxContainer (kl s') (xEventListItem u) = 0)"
    and pe: "\<And>u. u \<in> T \<Longrightarrow> pxContainer (kl s') (xEventListItem u) \<noteq> xPendingReadyList s"
    and i: "task_ready s' idle"
  shows "sound T E idle s' \<and> kept_tasks T s s'"
proof -
  have m: "kept_tasks T s s'" by (rule rest_tasks [OF r]) (use gn in blast)
  note D = soundD [OF S] and R = r [unfolded same_rest_def]
  have "quiet T s'" using D(2) pe f by (simp add: quiet_def)
  moreover have "ucNotifyState s' = ucNotifyState s" using R by simp
  ultimately have "sound T E idle s'" unfolding sound_def using W D i R f st ev gn by auto
  then show ?thesis using m by blast
qed

lemma ready_not:
  assumes "kcore T E s G" "l \<in> ready_lists s"
  shows "l \<noteq> 0" "l \<noteq> xTasksWaitingTermination s" "l \<noteq> xSuspendedTaskList s" "l \<notin> {pxDelayedTaskList s, pxOverflowDelayedTaskList s}"
proof -
  show "l \<noteq> 0" using rings_D(1) [OF kcoreD(1) [OF assms(1)]] assms(2) by (auto simp: state_lists_def)
  show "l \<noteq> xTasksWaitingTermination s" "l \<noteq> xSuspendedTaskList s" using kcoreD(2) [OF assms(1)] assms(2) by (auto simp: layout_def)
  show "l \<notin> {pxDelayedTaskList s, pxOverflowDelayedTaskList s}" using delayed_lists [OF assms(1)] assms(2) by auto
qed

lemma termination_apart:
  assumes "kcore T E s G"
  shows "xTasksWaitingTermination s \<notin> {pxDelayedTaskList s, pxOverflowDelayedTaskList s, xSuspendedTaskList s}"
  using parked_list(2) [OF assms, of "xTasksWaitingTermination s"] suspended_list(4) [OF assms] by auto

lemma ready_present: "kcore T E s G \<Longrightarrow> t \<in> T \<Longrightarrow> task_ready s t \<Longrightarrow> \<not> gone s t"
  using task_ready_in ready_not(2) by (fastforce simp: gone_def)

lemma own_ready_list: "kcore T E s G \<Longrightarrow> t \<in> T \<Longrightarrow> ready_list s (uxPriority s t) \<in> ready_lists s"
  using kcore_task(1) by (simp add: ready_lists_def)

lemma highest_mono:
  assumes H: "highest_ready T s c" and f: "ready_list s' = ready_list s" "uxPriority s' = uxPriority s"
      "pxContainer (kl s') (xStateListItem c) = pxContainer (kl s) (xStateListItem c)"
    and u: "\<And>u. u \<in> T \<Longrightarrow> pxContainer (kl s') (xStateListItem u) \<in> ready_lists s \<Longrightarrow>
      pxContainer (kl s) (xStateListItem u) \<in> ready_lists s \<or> uxPriority s u \<le> uxPriority s c"
  shows "highest_ready T s' c"
proof -
  have "ready_lists s' = ready_lists s" using f(1) by (simp add: ready_lists_def)
  then show ?thesis using H f u unfolding highest_ready_def by auto
qed

text \<open>A suspended task is in the list of suspended tasks and waits for nothing.\<close>

definition suspended :: "kernel \<Rightarrow> u32 \<Rightarrow> bool" where
  "suspended s t \<longleftrightarrow> pxContainer (kl s) (xStateListItem t) = xSuspendedTaskList s \<and> pxContainer (kl s) (xEventListItem t) = 0 \<and>
     ucNotifyState s t \<noteq> taskWAITING_NOTIFICATION"

lemma suspended_switched:
  assumes "switched v s s'"
  shows "suspended s' u = suspended s u"
  using switched_fields [OF assms] switched_rest [OF assms] by (simp add: suspended_def same_rest_def)

lemma operating_suspended:
  assumes "operating T E idle s" "t \<in> T" "suspended s t"
  shows "t \<noteq> pxCurrentTCB s" "\<not> task_ready s t" "t \<noteq> idle"
proof -
  have S: "sound T E idle s" and H: "highest_ready T s (pxCurrentTCB s)" using assms(1) by (simp_all add: operating_def)
  obtain G where K: "kcore T E s G" using sound_kcore [OF S] by metis
  have "pxContainer (kl s) (xStateListItem t) \<notin> ready_lists s" using assms(3) ready_not(3) [OF K] by (auto simp: suspended_def)
  then show "\<not> task_ready s t" using task_ready_in [OF K assms(2)] by blast
  then show "t \<noteq> pxCurrentTCB s" "t \<noteq> idle" using H soundD(5) [OF S] by (auto simp: highest_ready_def task_ready_def)
qed

text \<open>After a change of lists, a switch when it is asked for and the running task may no longer be the right one.\<close>

definition outcome :: "u32 set \<Rightarrow> u32 set \<Rightarrow> u32 \<Rightarrow> u32 set \<Rightarrow> kernel \<Rightarrow> kernel option \<Rightarrow> bool" where
  "outcome T E idle A s r \<longleftrightarrow>
     (\<exists>s'. r = Some s' \<and> operating T E idle s' \<and> (\<forall>u \<in> T - A. suspended s u \<longrightarrow> suspended s' u) \<and> kept_tasks T s s')"

lemma outcome_switch:
  assumes S: "sound T E idle s1" and m: "kept_tasks T s s1" and k: "\<And>u. u \<in> T - A \<Longrightarrow> suspended s u \<Longrightarrow> suspended s1 u"
    and H: "\<not> b \<Longrightarrow> highest_ready T s1 (pxCurrentTCB s1)"
  shows "outcome T E idle A s (if b then vTaskSwitchContext s1 else Some s1)"
proof (cases b)
  case True
  obtain s' where s': "vTaskSwitchContext s1 = Some s'" "operating T E idle s'" "switched (pxCurrentTCB s') s1 s'" by (rule sound_switch [OF S])
  show ?thesis unfolding outcome_def using s'(1,2) k suspended_switched [OF s'(3)] kept_tasks_trans [OF m switched_tasks [OF s'(3)]] True by auto
next
  case False
  then show ?thesis using S H k m by (auto simp: outcome_def operating_def)
qed

lemma operating_scheduled: "operating T E idle s \<Longrightarrow> scheduled T E s"
  unfolding operating_def sound_def scheduled_def waiting_def by (auto simp: highest_ready_def task_ready_def)

lemma perform_tick:
  assumes O: "operating T E idle s"
  shows "outcome T E idle {} s (perform Tick s)"
proof -
  have S: "sound T E idle s" and H: "highest_ready T s (pxCurrentTCB s)" using O by (simp_all add: operating_def)
  note D = soundD [OF S]
  obtain G where W: "waiting T E s G" and K: "kcore T E s G" and p0: "xPendingReadyList s \<noteq> 0" and q: "uxSchedulerSuspended s = 0"
    using sound_kcore [OF S] .
  from tick_scheduled [OF operating_scheduled [OF O]] obtain r s1 where
    t: "xTaskIncrementTick s = Some (r, s1)" "scheduled T E s1" "ticked T s s1" "pxCurrentTCB s1 = pxCurrentTCB s"
    and r: "r \<longleftrightarrow> (\<exists>t \<in> T. sleeping s t \<and> remaining s t = 1 \<and> uxPriority s t \<ge> uxPriority s (pxCurrentTCB s)) \<or>
       listCURRENT_LIST_LENGTH (ready_list s (uxPriority s (pxCurrentTCB s))) (kl s1) > 1 \<or> xYieldPending s" by blast
  from tick_waiting [OF W q] t(1) obtain G1 where W1: "waiting T E s1 G1" by auto
  note k = t(3) [unfolded ticked_def] and R = tick_rest [OF t(1)]
  have k': "ready_list s1 = ready_list s" "uxPriority s1 = uxPriority s" "uxSchedulerSuspended s1 = uxSchedulerSuspended s"
    "uxPendedTicks s1 = uxPendedTicks s" "xPendingReadyList s1 = xPendingReadyList s" using k by simp_all
  have st: "pxContainer (kl s1) (xStateListItem u) = (if sleeping s u \<and> remaining s u = 1 then ready_list s (uxPriority s u) else pxContainer (kl s) (xStateListItem u))"
    and ev: "pxContainer (kl s1) (xEventListItem u) = (if sleeping s u \<and> remaining s u = 1 then 0 else pxContainer (kl s) (xEventListItem u))"
    if "u \<in> T" for u using k that by auto
  have awake: "\<not> sleeping s u" if "u \<in> T" "task_ready s u" for u
    using ready_not(4) [OF K] that task_ready_in [OF K that(1)] by (auto simp: sleeping_def)
  have wakes: "\<not> gone s u" if "sleeping s u" for u using that termination_apart [OF K] by (auto simp: gone_def sleeping_def)
  have M: "sound T E idle s1 \<and> kept_tasks T s s1"
  proof (rule sound_moved [OF S W1 R k'(2,1,3,4,5) t(4)])
    show "gone s1 u = gone s u \<and> (gone s u \<longrightarrow> pxContainer (kl s1) (xEventListItem u) = 0)" if "u \<in> T" for u
      using st [OF that] ev [OF that] wakes [of u] D(11) [OF that] ready_not(2) [OF K own_ready_list [OF K that]] R
      by (auto simp: gone_def same_rest_def)
    show "pxContainer (kl s1) (xStateListItem u) \<noteq> 0" if "u \<in> T" for u
      using st [OF that] D(9) [OF that] ready_not(1) [OF K own_ready_list [OF K that]] by simp
    show "pxContainer (kl s1) (xEventListItem u) = 0" if "u \<in> T" "ucNotifyState s u = taskWAITING_NOTIFICATION" for u
      using ev [OF that(1)] D(10) [OF that] by simp
    show "pxContainer (kl s1) (xEventListItem u) \<noteq> xPendingReadyList s" if "u \<in> T" for u
      using ev [OF that] D(2) that p0 by (simp add: quiet_def)
    show "task_ready s1 idle" using st [OF D(3)] D(5) awake [OF D(3,5)] k' by (simp add: task_ready_def)
  qed
  note S1 = conjunct1 [OF M] conjunct2 [OF M]
  have c: "pxCurrentTCB s \<in> T" "task_ready s (pxCurrentTCB s)" using H by (simp_all add: highest_ready_def task_ready_def)
  have H1: "highest_ready T s1 (pxCurrentTCB s1)" if "\<not> r"
    unfolding t(4)
  proof (rule highest_mono [OF H k'(1,2)])
    show "pxContainer (kl s1) (xStateListItem (pxCurrentTCB s)) = pxContainer (kl s) (xStateListItem (pxCurrentTCB s))"
      using st [OF c(1)] awake [OF c] by simp
    fix u assume u: "u \<in> T" "pxContainer (kl s1) (xStateListItem u) \<in> ready_lists s"
    show "pxContainer (kl s) (xStateListItem u) \<in> ready_lists s \<or> uxPriority s u \<le> uxPriority s (pxCurrentTCB s)"
      using st [OF u(1)] u that r linear [of "uxPriority s u" "uxPriority s (pxCurrentTCB s)"] by (auto split: if_splits)
  qed
  have keep: "suspended s1 u" if "u \<in> T - {}" "suspended s u" for u
  proof -
    have "\<not> sleeping s u" using that suspended_list(2) [OF K] by (auto simp: suspended_def sleeping_def)
    then show ?thesis using that st ev R by (simp add: suspended_def same_rest_def)
  qed
  have "perform Tick s = (if r then vTaskSwitchContext s1 else Some s1)" by (simp add: FreeRTOS_Tick_Handler_def t(1) irq_exit_def)
  then show ?thesis using outcome_switch [OF S1 keep H1] by simp
qed

lemma perform_yield: "operating T E idle s \<Longrightarrow> outcome T E idle {} s (vTaskSwitchContext s)"
  using outcome_switch [of T E idle s s "{}" True] kept_tasks_refl by (simp add: operating_def)

text \<open>The running task blocks.\<close>

lemma blocked_sound:
  assumes O: "operating T E idle s" and c: "pxCurrentTCB s = c" "c \<noteq> idle" and W: "waiting T E s' G'" and r: "same_rest s s'"
    and f: "uxPriority s' = uxPriority s" "ready_list s' = ready_list s" "uxSchedulerSuspended s' = uxSchedulerSuspended s"
      "uxPendedTicks s' = uxPendedTicks s" "xPendingReadyList s' = xPendingReadyList s" "pxCurrentTCB s' = pxCurrentTCB s"
    and to: "pxContainer (kl s') (xStateListItem c) \<in> {pxDelayedTaskList s, pxOverflowDelayedTaskList s, xSuspendedTaskList s}"
    and e: "pxContainer (kl s') (xEventListItem c) \<noteq> xPendingReadyList s"
      "ucNotifyState s c = taskWAITING_NOTIFICATION \<Longrightarrow> pxContainer (kl s') (xEventListItem c) = 0"
    and same: "\<And>u. u \<in> T - {c} \<Longrightarrow> pxContainer (kl s') (xStateListItem u) = pxContainer (kl s) (xStateListItem u) \<and>
      pxContainer (kl s') (xEventListItem u) = pxContainer (kl s) (xEventListItem u)"
  shows "sound T E idle s'" "kept_tasks T s s'" "\<And>u. u \<in> T \<Longrightarrow> suspended s u \<Longrightarrow> suspended s' u"
proof -
  have S: "sound T E idle s" and H: "highest_ready T s c" using O c(1) by (simp_all add: operating_def)
  note D = soundD [OF S]
  obtain G where K: "kcore T E s G" by (rule sound_kcore [OF S])
  have rc: "\<not> gone s c" by (rule ready_present [OF K]) (use H in \<open>simp_all add: highest_ready_def task_ready_def\<close>)
  have M: "sound T E idle s' \<and> kept_tasks T s s'"
  proof (rule sound_moved [OF S W r f])
    show "gone s' u = gone s u \<and> (gone s u \<longrightarrow> pxContainer (kl s') (xEventListItem u) = 0)" if "u \<in> T" for u
      using same [of u] rc to termination_apart(1) [OF K] D(11) [OF that] that r by (cases "u = c") (auto simp: gone_def same_rest_def)
    show "pxContainer (kl s') (xStateListItem u) \<noteq> 0" if u: "u \<in> T" for u
    proof (cases "u = c")
      case True
      have "pxDelayedTaskList s \<noteq> 0" "pxOverflowDelayedTaskList s \<noteq> 0" using rings_D(1) [OF kcoreD(1) [OF K]] delayed_lists [OF K] by auto
      then show ?thesis using to suspended_list(3) [OF K] True by auto
    qed (use same D(9) u in auto)
    show "pxContainer (kl s') (xEventListItem u) = 0" if "u \<in> T" "ucNotifyState s u = taskWAITING_NOTIFICATION" for u
      using same e(2) D(10) [OF that] that by (cases "u = c") auto
    show "pxContainer (kl s') (xEventListItem u) \<noteq> xPendingReadyList s" if "u \<in> T" for u
      using same e(1) D(2) that by (cases "u = c") (auto simp: quiet_def)
    show "task_ready s' idle" using same [of idle] c(2) D(3,5) f by (simp add: task_ready_def)
  qed
  then show "sound T E idle s'" "kept_tasks T s s'" by simp_all
  show "suspended s' u" if "u \<in> T" "suspended s u" for u
  proof -
    have "u \<noteq> c" using operating_suspended(1) [OF O that] c(1) by simp
    then show ?thesis using same that r by (simp add: suspended_def same_rest_def)
  qed
qed

lemma perform_delay:
  assumes O: "operating T E idle s" and c: "pxCurrentTCB s \<noteq> idle" "n \<noteq> 0"
  shows "outcome T E idle {} s (vTaskDelay n s)"
proof -
  let ?c = "pxCurrentTCB s" and ?s1 = "vTaskSuspendAll s"
  have S: "sound T E idle s" and H: "highest_ready T s ?c" using O by (simp_all add: operating_def)
  note D = soundD [OF S]
  obtain G where W: "waiting T E s G" and K: "kcore T E s G" and p0: "xPendingReadyList s \<noteq> 0" by (rule sound_kcore [OF S])
  have s1: "?s1 = s\<lparr>uxSchedulerSuspended := 1\<rparr>" using D(2) by (simp add: vTaskSuspendAll_def quiet_def)
  have W1: "waiting T E ?s1 G" using W by (simp add: s1 waiting_counts)
  have rd: "task_ready s ?c" using H by (simp add: highest_ready_def task_ready_def)
  then have "pxCurrentTCB ?s1 \<in> T" "task_ready ?s1 (pxCurrentTCB ?s1)" using D(6) by (simp_all add: s1 task_ready_def ready_list_def)
  from block_waiting [OF W1 this c(2), where indef = False] obtain s2 G2 where
    s2: "prvAddCurrentTaskToDelayedList n False ?s1 = Some s2" "waiting T E s2 G2" "kframe (?s1\<lparr>xNextTaskUnblockTime := xNextTaskUnblockTime s2\<rparr>) s2"
      "pxContainer (kl s2) (xStateListItem ?c) \<in> {pxDelayedTaskList s, pxOverflowDelayedTaskList s, xSuspendedTaskList s}"
    and y: "\<And>y. y \<in> items T \<Longrightarrow> y \<noteq> xStateListItem ?c \<Longrightarrow> pxContainer (kl s2) y = pxContainer (kl s) y" by (auto simp: s1)
  note F = kframe_fields [OF s2(3), unfolded s1, simplified]
  let ?s3 = "s2\<lparr>uxSchedulerSuspended := 0\<rparr>"
  have rl: "ready_list s2 = ready_list s" using F(4) by (simp add: ready_list_def fun_eq_iff)
  have ev: "pxContainer (kl s2) (xEventListItem u) = pxContainer (kl s) (xEventListItem u)" if "u \<in> T" for u
    using y [OF items_in(2) [OF that]] layout_items [OF kcoreD(2) [OF K] D(6) that] by metis
  have su: "uxSchedulerSuspended s2 = 1" "uxPendedTicks s2 = 0" "uxSchedulerSuspended s = 0" using D(2) by (simp_all add: F quiet_def)
  have none: "\<forall>t \<in> T. pxContainer (kl s2) (xEventListItem t) \<noteq> xPendingReadyList s2" using ev D(2) by (simp add: quiet_def F)
  note R = resume_switch [OF waitingD(2) [OF s2(2)] su(1,2) none]
  have r3: "same_rest s ?s3" using kframe_rest [OF s2(3)] by (simp add: s1 same_rest_def)
  have rl3: "ready_list ?s3 = ready_list s" using rl by (simp add: ready_list_def fun_eq_iff)
  have W3: "waiting T E ?s3 G2" using s2(2) by (simp add: waiting_counts)
  have f3: "uxPriority ?s3 = uxPriority s" "uxSchedulerSuspended ?s3 = uxSchedulerSuspended s" "uxPendedTicks ?s3 = uxPendedTicks s"
    "xPendingReadyList ?s3 = xPendingReadyList s" "pxCurrentTCB ?s3 = pxCurrentTCB s" using F su by simp_all
  have to: "pxContainer (kl ?s3) (xStateListItem ?c) \<in> {pxDelayedTaskList s, pxOverflowDelayedTaskList s, xSuspendedTaskList s}" using s2(4) by simp
  have e: "pxContainer (kl ?s3) (xEventListItem ?c) = 0" using ev [OF D(6)] ready_event [OF S D(6) rd] by simp
  have same: "pxContainer (kl ?s3) (xStateListItem u) = pxContainer (kl s) (xStateListItem u) \<and>
      pxContainer (kl ?s3) (xEventListItem u) = pxContainer (kl s) (xEventListItem u)" if "u \<in> T - {?c}" for u
    using y [OF items_in(1)] ev that by simp
  have ep: "pxContainer (kl ?s3) (xEventListItem ?c) \<noteq> xPendingReadyList s" using e p0 by metis
  note B = blocked_sound [OF O refl c(1) W3 r3 f3(1) rl3 f3(2-5) to ep e same]
  have "vTaskDelay n s = vTaskSwitchContext ?s3" using s2(1) R c(2) by (simp add: vTaskDelay_def word_gt_0)
  then show ?thesis using outcome_switch [OF B(1,2), of "{}" True] B(3) by simp
qed

lemma perform_wait:
  assumes O: "operating T E idle s" and c: "pxCurrentTCB s \<noteq> idle" "ucNotifyState s (pxCurrentTCB s) \<noteq> taskWAITING_NOTIFICATION"
    and l: "l \<in> E" and n: "n \<noteq> 0"
  shows "outcome T E idle {} s (perform (WaitFor l n) s)"
proof -
  let ?c = "pxCurrentTCB s"
  have S: "sound T E idle s" and H: "highest_ready T s ?c" using O by (simp_all add: operating_def)
  note D = soundD [OF S]
  obtain G where W: "waiting T E s G" and K: "kcore T E s G" by (rule sound_kcore [OF S])
  have rd: "task_ready s ?c" using H by (simp add: highest_ready_def task_ready_def)
  from place_spec [OF W D(6) rd ready_event [OF S D(6) rd] l n] obtain s' G' where
    s': "vTaskPlaceOnEventList l n s = Some s'" "waiting T E s' G'" "waits_in s' l ?c" "kframe (s\<lparr>xNextTaskUnblockTime := xNextTaskUnblockTime s'\<rparr>) s'"
      "blocked_for s' ?c n" "uxPriority s' = uxPriority s" "ready_list s' = ready_list s"
    and y: "\<And>y. y \<in> items T - {xStateListItem ?c, xEventListItem ?c} \<Longrightarrow> pxContainer (kl s') y = pxContainer (kl s) y" by blast
  note F = kframe_fields [OF s'(4), simplified]
  have r: "same_rest s s'" using kframe_rest [OF s'(4)] by (simp add: same_rest_def)
  have to: "pxContainer (kl s') (xStateListItem ?c) \<in> {pxDelayedTaskList s, pxOverflowDelayedTaskList s, xSuspendedTaskList s}"
    using s'(5) F by (auto simp: blocked_for_def sleeping_def split: if_splits)
  have e: "pxContainer (kl s') (xEventListItem ?c) \<noteq> xPendingReadyList s" using s'(3) state_event_apart(3) [OF K l] by (simp add: waits_in_def)
  have same: "pxContainer (kl s') (xStateListItem u) = pxContainer (kl s) (xStateListItem u) \<and>
      pxContainer (kl s') (xEventListItem u) = pxContainer (kl s) (xEventListItem u)" if u: "u \<in> T - {?c}" for u
  proof -
    have "xStateListItem u \<noteq> xEventListItem ?c" "xEventListItem u \<noteq> xStateListItem ?c" 
      using layout_items [OF kcoreD(2) [OF K] _ D(6), of u] layout_items [OF kcoreD(2) [OF K] D(6), of u] u by auto
    then show ?thesis using y items_in [of u T] u by simp
  qed
  have f: "uxSchedulerSuspended s' = uxSchedulerSuspended s" "uxPendedTicks s' = uxPendedTicks s"
    "xPendingReadyList s' = xPendingReadyList s" "pxCurrentTCB s' = pxCurrentTCB s" using F by simp_all
  have nw: "pxContainer (kl s') (xEventListItem ?c) = 0" if "ucNotifyState s ?c = taskWAITING_NOTIFICATION" using c(2) that by simp
  note B = blocked_sound [OF O refl c(1) s'(2) r s'(6,7) f to e nw same]
  show ?thesis using outcome_switch [OF B(1,2), of "{}" True] B(3) s'(1) by simp
qed

lemma perform_signal:
  assumes O: "operating T E idle s" and l: "l \<in> E"
  shows "outcome T E idle {} s (signal_event l s)"
proof -
  let ?c = "pxCurrentTCB s"
  have S: "sound T E idle s" and H: "highest_ready T s ?c" using O by (simp_all add: operating_def)
  note D = soundD [OF S]
  obtain G where W: "waiting T E s G" and K: "kcore T E s G" and p0: "xPendingReadyList s \<noteq> 0" and q: "uxSchedulerSuspended s = 0"
    by (rule sound_kcore [OF S])
  have le: "l \<in> event_lists E s" using l by (simp add: event_lists_def)
  show ?thesis
  proof (cases "listLIST_IS_EMPTY l (kl s)")
    case True
    then show ?thesis using O kept_tasks_refl by (simp add: signal_event_def outcome_def)
  next
    case False
    then obtain t0 where t0: "t0 \<in> T" "waits_in s l t0" using waiters_empty [OF K le] by (auto simp: waiters_def)
    from wake_highest [OF W q l t0] obtain t s' G' y where
      t: "t \<in> T" "waits_in s l t" "xTaskRemoveFromEventList l s = (uxPriority s ?c < uxPriority s t, s')" "waiting T E s' G'"
        "kframe (s\<lparr>xYieldPending := y\<rparr>) s'"
      and ev: "\<And>u. u \<in> T \<Longrightarrow> pxContainer (kl s') (xEventListItem u) = (if u = t then 0 else pxContainer (kl s) (xEventListItem u))"
      and st: "\<And>u. u \<in> T \<Longrightarrow> pxContainer (kl s') (xStateListItem u) = (if u = t then ready_list s (uxPriority s t) else pxContainer (kl s) (xStateListItem u))"
      by blast
    note F = kframe_fields [OF t(5), simplified]
    have r: "same_rest s s'" using kframe_rest [OF t(5)] by (simp add: same_rest_def)
    have rl: "ready_list s' = ready_list s" using F(4) by (simp add: ready_list_def fun_eq_iff)
    have f: "uxPriority s' = uxPriority s" "uxSchedulerSuspended s' = uxSchedulerSuspended s" "uxPendedTicks s' = uxPendedTicks s"
      "xPendingReadyList s' = xPendingReadyList s" "pxCurrentTCB s' = pxCurrentTCB s" using F by simp_all
    note own = own_ready_list [OF K t(1)]
    have tp: "\<not> gone s t" using D(11) [OF t(1)] t(2) le rings_D(1) [OF kcoreD(1) [OF K]] by (auto simp: waits_in_def)
    have M: "sound T E idle s' \<and> kept_tasks T s s'"
    proof (rule sound_moved [OF S t(4) r f(1) rl f(2-5)])
      show "gone s' u = gone s u \<and> (gone s u \<longrightarrow> pxContainer (kl s') (xEventListItem u) = 0)" if "u \<in> T" for u
        using st [OF that] ev [OF that] tp D(11) [OF that] ready_not(2) [OF K own] r by (auto simp: gone_def same_rest_def)
      show "pxContainer (kl s') (xStateListItem u) \<noteq> 0" if "u \<in> T" for u
        using st [OF that] D(9) [OF that] ready_not(1) [OF K own] by simp
      show "pxContainer (kl s') (xEventListItem u) = 0" if "u \<in> T" "ucNotifyState s u = taskWAITING_NOTIFICATION" for u
        using ev [OF that(1)] D(10) [OF that] by simp
      show "pxContainer (kl s') (xEventListItem u) \<noteq> xPendingReadyList s" if "u \<in> T" for u
        using ev [OF that] D(2) that p0 by (simp add: quiet_def)
      show "task_ready s' idle" using st [OF D(3)] D(5) f rl by (simp add: task_ready_def)
    qed
    note S' = conjunct1 [OF M] conjunct2 [OF M]
    have H': "highest_ready T s' (pxCurrentTCB s')" if "\<not> uxPriority s ?c < uxPriority s t"
      unfolding f(5)
    proof (rule highest_mono [OF H rl f(1)])
      have "pxContainer (kl s) (xStateListItem t) \<noteq> ready_list s (uxPriority s ?c)"
        using waitingD(5) [OF W t(1)] t(2) le own_ready_list [OF K D(6)] by (auto simp: waits_in_def)
      then have "t \<noteq> ?c" using H by (auto simp: highest_ready_def)
      then show "pxContainer (kl s') (xStateListItem ?c) = pxContainer (kl s) (xStateListItem ?c)" using st [OF D(6)] by simp
      fix u assume u: "u \<in> T" "pxContainer (kl s') (xStateListItem u) \<in> ready_lists s"
      show "pxContainer (kl s) (xStateListItem u) \<in> ready_lists s \<or> uxPriority s u \<le> uxPriority s ?c"
        using st [OF u(1)] u that by (auto simp: not_less split: if_splits)
    qed
    have keep: "suspended s' u" if "u \<in> T - {}" "suspended s u" for u
    proof -
      have "u \<noteq> t" using that(2) t(2) le rings_D(1) [OF kcoreD(1) [OF K]] by (auto simp: suspended_def waits_in_def)
      then show ?thesis using that st ev r by (simp add: suspended_def same_rest_def)
    qed
    show ?thesis using outcome_switch [OF S' keep H'] False t(3) by (simp add: signal_event_def irq_exit_def)
  qed
qed

text \<open>Changes that the lists do not see.\<close>

lemma sound_next:
  assumes "sound T E idle s"
  obtains n where "prvResetNextTaskUnblockTime s = s\<lparr>xNextTaskUnblockTime := n\<rparr>" "sound T E idle (s\<lparr>xNextTaskUnblockTime := n\<rparr>)"
proof -
  obtain G where W: "waiting T E s G" using soundD(1) [OF assms] by blast
  from reset_next_waiting [OF W] obtain n where
    n: "prvResetNextTaskUnblockTime s = s\<lparr>xNextTaskUnblockTime := n\<rparr>" "waiting T E (s\<lparr>xNextTaskUnblockTime := n\<rparr>) G" by blast
  have "sound T E idle (s\<lparr>xNextTaskUnblockTime := n\<rparr>)"
    by (rule conjunct1, rule sound_moved [OF assms n(2)])
      (use soundD [OF assms] in \<open>auto simp: same_rest_def ready_list_def fun_eq_iff quiet_def task_ready_def gone_def\<close>)
  with n(1) show ?thesis by (rule that)
qed

lemma sound_notify:
  assumes S: "sound T E idle s"
    and f: "\<And>t. t \<in> T \<Longrightarrow> f t = taskWAITING_NOTIFICATION \<Longrightarrow> pxContainer (kl s) (xEventListItem t) = 0 \<and> \<not> gone s t"
  shows "sound T E idle (s\<lparr>ucNotifyState := f\<rparr>)"
  using soundD(1-9,11) [OF S] f unfolding sound_def waiting_notify by (auto simp: task_ready_def ready_list_def gone_def)

lemma sound_notified: "sound T E idle s \<Longrightarrow> sound T E idle (s\<lparr>ulNotifiedValue := f\<rparr>)"
  unfolding sound_def waiting_notify by (simp add: task_ready_def ready_list_def gone_def)

lemma highest_updates:
  "highest_ready T (s\<lparr>xNextTaskUnblockTime := n\<rparr>) c = highest_ready T s c" "highest_ready T (s\<lparr>ucNotifyState := f\<rparr>) c = highest_ready T s c"
  "highest_ready T (s\<lparr>ulNotifiedValue := g\<rparr>) c = highest_ready T s c" "highest_ready T (s\<lparr>uxBasePriority := g\<rparr>) c = highest_ready T s c"
  "highest_ready T (s\<lparr>xYieldPending := y\<rparr>) c = highest_ready T s c"
  by (simp_all add: highest_ready_def ready_lists_def ready_list_def)

lemma suspended_updates:
  "suspended (s\<lparr>xNextTaskUnblockTime := n\<rparr>) u = suspended s u" "suspended (s\<lparr>ulNotifiedValue := g\<rparr>) u = suspended s u"
  "suspended s u \<Longrightarrow> f u \<noteq> taskWAITING_NOTIFICATION \<Longrightarrow> suspended (s\<lparr>ucNotifyState := f\<rparr>) u"
  "suspended (s\<lparr>xYieldPending := y\<rparr>) u = suspended s u"
  by (simp_all add: suspended_def)

lemma vTaskSuspend_lists:
  "vTaskSuspend h s =
     (let t = prvGetTCBFromHandle h s; s = suspend_lists t s;
          s = (if ucNotifyState s t = taskWAITING_NOTIFICATION
               then s\<lparr>ucNotifyState := (ucNotifyState s)(t := taskNOT_WAITING_NOTIFICATION)\<rparr> else s);
          s = (if xSchedulerRunning s then prvResetNextTaskUnblockTime s else s)
      in if t = pxCurrentTCB s
         then if xSchedulerRunning s then vTaskSwitchContext s
              else if listCURRENT_LIST_LENGTH (xSuspendedTaskList s) (kl s) = uxCurrentNumberOfTasks s
              then Some (s\<lparr>pxCurrentTCB := 0\<rparr>) else vTaskSwitchContext s
         else Some s)"
  by (simp only: vTaskSuspend_def suspend_lists_def leave_lists_def leave_event_def Let_def)

lemma perform_suspend:
  assumes O: "operating T E idle s" and t: "prvGetTCBFromHandle h s = t" "t \<in> T" "t \<noteq> idle" "\<not> gone s t"
  shows "outcome T E idle {} s (vTaskSuspend h s)" "\<exists>s'. vTaskSuspend h s = Some s' \<and> suspended s' t"
proof -
  let ?c = "pxCurrentTCB s" and ?s1 = "suspend_lists t s"
  have S: "sound T E idle s" and H: "highest_ready T s ?c" using O by (simp_all add: operating_def)
  note D = soundD [OF S]
  obtain G where W: "waiting T E s G" and K: "kcore T E s G" and p0: "xPendingReadyList s \<noteq> 0" by (rule sound_kcore [OF S])
  have "pxContainer (kl s) (xStateListItem t) \<noteq> 0" using D(9) [OF t(2)] by simp
  note L = suspend_lists_spec [OF W t(2) this]
  obtain G1 where W1: "waiting T E ?s1 G1" using L(1) by blast
  note F = kframe_fields [OF L(2)]
  have r: "same_rest s ?s1" by (rule kframe_rest [OF L(2)])
  note S' = suspended_list [OF K]
  have ne: "xStateListItem u \<noteq> xEventListItem v" if "u \<in> T" "v \<in> T" for u v by (rule layout_items [OF kcoreD(2) [OF K] that])
  have st: "pxContainer (kl ?s1) (xStateListItem u) = (if u = t then xSuspendedTaskList s else pxContainer (kl s) (xStateListItem u))" if "u \<in> T" for u
    using L(4) [OF items_in(1) [OF that]] ne [OF that t(2)] by simp
  have ev: "pxContainer (kl ?s1) (xEventListItem u) = (if u = t then 0 else pxContainer (kl s) (xEventListItem u))" if "u \<in> T" for u
    using L(4) [OF items_in(2) [OF that]] ne [OF t(2) that] by (cases "u = t") auto
  have M: "sound T E idle ?s1 \<and> kept_tasks T s ?s1"
  proof (rule sound_moved [OF S W1 r F(6,4,12,17,15,7)])
    show "gone ?s1 u = gone s u \<and> (gone s u \<longrightarrow> pxContainer (kl ?s1) (xEventListItem u) = 0)" if "u \<in> T" for u
      using st [OF that] ev [OF that] t(4) D(11) [OF that] S'(4) r by (auto simp: gone_def same_rest_def)
    show "pxContainer (kl ?s1) (xStateListItem u) \<noteq> 0" if "u \<in> T" for u
      using st [OF that] D(9) [OF that] S'(3) by simp
    show "pxContainer (kl ?s1) (xEventListItem u) = 0" if "u \<in> T" "ucNotifyState s u = taskWAITING_NOTIFICATION" for u
      using ev [OF that(1)] D(10) [OF that] by simp
    show "pxContainer (kl ?s1) (xEventListItem u) \<noteq> xPendingReadyList s" if "u \<in> T" for u
      using ev [OF that] D(2) that p0 by (simp add: quiet_def)
    show "task_ready ?s1 idle" using st [OF D(3)] D(5) t(3) by (simp add: task_ready_def F)
  qed
  note S1 = conjunct1 [OF M] conjunct2 [OF M]
  define s2 where "s2 = (if ucNotifyState ?s1 t = taskWAITING_NOTIFICATION
    then ?s1\<lparr>ucNotifyState := (ucNotifyState ?s1)(t := taskNOT_WAITING_NOTIFICATION)\<rparr> else ?s1)"
  have "sound T E idle (?s1\<lparr>ucNotifyState := (ucNotifyState ?s1)(t := taskNOT_WAITING_NOTIFICATION)\<rparr>)"
    by (rule sound_notify [OF S1(1)]) (use soundD(10,11) [OF S1(1)] in \<open>auto split: if_splits\<close>)
  then have S2: "sound T E idle s2" using S1(1) by (simp add: s2_def)
  obtain n where n: "prvResetNextTaskUnblockTime s2 = s2\<lparr>xNextTaskUnblockTime := n\<rparr>" "sound T E idle (s2\<lparr>xNextTaskUnblockTime := n\<rparr>)" by (rule sound_next [OF S2])
  let ?s3 = "s2\<lparr>xNextTaskUnblockTime := n\<rparr>"
  have c3: "pxCurrentTCB ?s3 = ?c" by (simp add: s2_def F)
  have run: "xSchedulerRunning s2" "pxCurrentTCB (prvResetNextTaskUnblockTime s2) = ?c" "xSchedulerRunning (prvResetNextTaskUnblockTime s2)"
    using soundD(7) [OF S2] c3 by (simp_all add: n(1))
  have eq: "vTaskSuspend h s = (if t = ?c then vTaskSwitchContext ?s3 else Some ?s3)"
    by (simp only: vTaskSuspend_lists t(1) Let_def flip: s2_def) (simp only: run if_True, simp only: n(1))
  have r': "xSuspendedTaskList ?s1 = xSuspendedTaskList s" "ucNotifyState ?s1 = ucNotifyState s" using r by (simp_all add: same_rest_def)
  have k1: "suspended ?s1 u" if "u \<in> T" "suspended s u" for u
    using that(2) st [OF that(1)] ev [OF that(1)] unfolding suspended_def r' by simp
  have k3: "suspended ?s3 u" if "u \<in> T - {}" "suspended s u" for u
    using k1 [of u] that by (simp add: suspended_updates s2_def suspended_def)
  have sus: "suspended ?s3 t" using st [OF t(2)] ev [OF t(2)] by (simp add: s2_def suspended_def F)
  have H3: "highest_ready T ?s3 (pxCurrentTCB ?s3)" if "t \<noteq> ?c"
  proof -
    have "highest_ready T ?s1 ?c"
      by (rule highest_mono [OF H F(4,6)]) (use st that D(6) S'(1) in \<open>auto split: if_splits\<close>)
    then show ?thesis unfolding c3 by (simp add: highest_updates s2_def)
  qed
  have "kept_tasks T ?s1 ?s3" by (simp add: s2_def kept_tasks_def gone_def)
  note m3 = kept_tasks_trans [OF S1(2) this]
  show "outcome T E idle {} s (vTaskSuspend h s)" unfolding eq by (rule outcome_switch [OF n(2) m3 k3 H3])
  show "\<exists>s'. vTaskSuspend h s = Some s' \<and> suspended s' t"
  proof (cases "t = ?c")
    case True
    obtain s' where s': "vTaskSwitchContext ?s3 = Some s'" "switched (pxCurrentTCB s') ?s3 s'" using sound_switch [OF n(2)] by metis
    then show ?thesis using eq True suspended_switched [OF s'(2)] sus by simp
  next
    case False
    then show ?thesis using eq sus by simp
  qed
qed

text \<open>A task that waits for no event becomes ready.\<close>

lemma ready_sound:
  assumes S: "sound T E idle s" and t: "t \<in> T" "pxContainer (kl s) (xEventListItem t) = 0" "\<not> gone s t"
  defines "s1 \<equiv> prvAddTaskToReadyList t (list_remove (xStateListItem t) s)"
  shows "sound T E idle s1" "kframe s s1" "task_ready s1 t"
    "highest_ready T s (pxCurrentTCB s) \<Longrightarrow> uxPriority s t \<le> uxPriority s (pxCurrentTCB s) \<Longrightarrow> highest_ready T s1 (pxCurrentTCB s1)"
    "\<And>u. u \<in> T - {t} \<Longrightarrow> suspended s u \<Longrightarrow> suspended s1 u" "kept_tasks T s s1"
proof -
  note D = soundD [OF S]
  obtain G where W: "waiting T E s G" and K: "kcore T E s G" by (rule sound_kcore [OF S])
  have "pxContainer (kl s) (xStateListItem t) \<noteq> 0" using D(9) [OF t(1)] by simp
  note L = make_ready_any [OF W t(1) this t(2), folded s1_def]
  obtain G1 where W1: "waiting T E s1 G1" using L(1) by blast
  show fr: "kframe s s1" by (rule L(2))
  note F = kframe_fields [OF fr]
  have ne: "xStateListItem u \<noteq> xEventListItem v" if "u \<in> T" "v \<in> T" for u v by (rule layout_items [OF kcoreD(2) [OF K] that])
  have st: "pxContainer (kl s1) (xStateListItem u) = (if u = t then ready_list s (uxPriority s t) else pxContainer (kl s) (xStateListItem u))" if "u \<in> T" for u
    using L(4) [OF items_in(1) [OF that]] by simp
  have ev: "pxContainer (kl s1) (xEventListItem u) = pxContainer (kl s) (xEventListItem u)" if "u \<in> T" for u
    using L(4) [OF items_in(2) [OF that]] ne [OF t(1) that] by (metis (full_types))
  note own = own_ready_list [OF K t(1)]
  show rd: "task_ready s1 t" using st [OF t(1)] by (simp add: task_ready_def F)
  have M: "sound T E idle s1 \<and> kept_tasks T s s1"
  proof (rule sound_moved [OF S W1 kframe_rest [OF fr] F(6,4,12,17,15,7)])
    show "gone s1 u = gone s u \<and> (gone s u \<longrightarrow> pxContainer (kl s1) (xEventListItem u) = 0)" if "u \<in> T" for u
      using st [OF that] ev [OF that] t(3) D(11) [OF that] ready_not(2) [OF K own] kframe_rest [OF fr] by (auto simp: gone_def same_rest_def)
    show "pxContainer (kl s1) (xStateListItem u) \<noteq> 0" if "u \<in> T" for u
      using st [OF that] D(9) [OF that] ready_not(1) [OF K own] by simp
    show "pxContainer (kl s1) (xEventListItem u) = 0" if "u \<in> T" "ucNotifyState s u = taskWAITING_NOTIFICATION" for u
      using ev [OF that(1)] D(10) [OF that] by simp
    show "pxContainer (kl s1) (xEventListItem u) \<noteq> xPendingReadyList s" if "u \<in> T" for u
      using ev [OF that] D(2) that by (simp add: quiet_def)
    show "task_ready s1 idle"
    proof (cases "idle = t")
      case False
      then show ?thesis using st [OF D(3)] D(5) by (simp add: task_ready_def F)
    qed (use rd in simp)
  qed
  then show "sound T E idle s1" "kept_tasks T s s1" by simp_all
  show "highest_ready T s1 (pxCurrentTCB s1)" if H: "highest_ready T s (pxCurrentTCB s)" and p: "uxPriority s t \<le> uxPriority s (pxCurrentTCB s)"
    unfolding F(7)
  proof (rule highest_mono [OF H F(4,6)])
    show "pxContainer (kl s1) (xStateListItem (pxCurrentTCB s)) = pxContainer (kl s) (xStateListItem (pxCurrentTCB s))"
      using st [OF D(6)] H by (simp add: highest_ready_def)
    show "pxContainer (kl s) (xStateListItem u) \<in> ready_lists s \<or> uxPriority s u \<le> uxPriority s (pxCurrentTCB s)"
      if "u \<in> T" "pxContainer (kl s1) (xStateListItem u) \<in> ready_lists s" for u using st [OF that(1)] that(2) p by (cases "u = t") simp_all
  qed
  have r: "xSuspendedTaskList s1 = xSuspendedTaskList s" "ucNotifyState s1 = ucNotifyState s"
    using kframe_rest [OF fr] by (simp_all add: same_rest_def)
  show "suspended s1 u" if "u \<in> T - {t}" "suspended s u" for u
    using that(2) st [of u] ev [of u] that(1) unfolding suspended_def r by simp
qed

lemma perform_resume:
  assumes O: "operating T E idle s" and t: "t \<in> T"
  shows "outcome T E idle {t} s (vTaskResume t s)" "outcome T E idle {t} s (perform (ResumeFromISR t) s)"
proof -
  let ?c = "pxCurrentTCB s" and ?s1 = "prvAddTaskToReadyList t (list_remove (xStateListItem t) s)"
  have S: "sound T E idle s" and H: "highest_ready T s ?c" using O by (simp_all add: operating_def)
  note D = soundD [OF S]
  obtain G where K: "kcore T E s G" by (rule sound_kcore [OF S])
  have stay: "outcome T E idle {t} s (Some s)" using O kept_tasks_refl by (simp add: outcome_def)
  have here: "\<not> gone s t" if "prvTaskIsTaskSuspended t s"
    using that termination_apart(1) [OF K] by (auto simp: prvTaskIsTaskSuspended_def listIS_CONTAINED_WITHIN_def gone_def split: if_splits)
  have go: "outcome T E idle {t} s (if uxPriority s t \<ge> uxPriority s ?c then vTaskSwitchContext ?s1 else Some ?s1)"
    if "prvTaskIsTaskSuspended t s"
  proof -
    have "pxContainer (kl s) (xEventListItem t) = 0" using that by (simp add: prvTaskIsTaskSuspended_def listIS_CONTAINED_WITHIN_def)
    note R = ready_sound [OF S t this here [OF that]]
    show ?thesis by (rule outcome_switch [OF R(1,6,5)]) (use R(4) [OF H] in auto)
  qed
  have e: "uxPriority ?s1 = uxPriority s" "pxCurrentTCB ?s1 = ?c" if "prvTaskIsTaskSuspended t s"
  proof -
    have "pxContainer (kl s) (xEventListItem t) = 0" using that by (simp add: prvTaskIsTaskSuspended_def listIS_CONTAINED_WITHIN_def)
    from kframe_fields [OF ready_sound(2) [OF S t this here [OF that]]] show "uxPriority ?s1 = uxPriority s" "pxCurrentTCB ?s1 = ?c" by blast+
  qed
  show "outcome T E idle {t} s (vTaskResume t s)"
    using stay go e by (simp add: vTaskResume_def Let_def)
  have "uxSchedulerSuspended s = 0" using D(2) by (simp add: quiet_def)
  then show "outcome T E idle {t} s (perform (ResumeFromISR t) s)"
    using stay go by (simp add: xTaskResumeFromISR_def irq_exit_def)
qed

section \<open>Notifications\<close>

lemma notify_action_value: "\<exists>g. snd (notify_action a v st t s) = s\<lparr>ulNotifiedValue := g\<rparr>"
  by (cases a) (auto simp: set_notified_value_def intro: exI [of _ "ulNotifiedValue s"])

text \<open>The state when a task has been sent a notification, before it is woken.\<close>

definition notified :: "u32 \<Rightarrow> (u32 \<Rightarrow> u32) \<Rightarrow> kernel \<Rightarrow> kernel" where
  "notified t g s = s\<lparr>ucNotifyState := (ucNotifyState s)(t := taskNOTIFICATION_RECEIVED), ulNotifiedValue := g\<rparr>"

lemma notified_sound:
  assumes "sound T E idle s" "highest_ready T s (pxCurrentTCB s)"
  shows "sound T E idle (notified t g s)" "highest_ready T (notified t g s) (pxCurrentTCB (notified t g s))"
    "\<And>u. suspended s u \<Longrightarrow> suspended (notified t g s) u" "kept_tasks T s (notified t g s)"
proof -
  show "kept_tasks T s (notified t g s)" by (simp add: notified_def kept_tasks_updates)
  have "sound T E idle (s\<lparr>ucNotifyState := (ucNotifyState s)(t := taskNOTIFICATION_RECEIVED)\<rparr>)"
    by (rule sound_notify [OF assms(1)]) (use soundD(10,11) [OF assms(1)] in \<open>auto split: if_splits\<close>)
  then show "sound T E idle (notified t g s)" unfolding notified_def by (rule sound_notified)
  show "highest_ready T (notified t g s) (pxCurrentTCB (notified t g s))" using assms(2) by (simp add: notified_def highest_updates)
  show "\<And>u. suspended s u \<Longrightarrow> suspended (notified t g s) u" by (simp add: notified_def suspended_def)
qed

text \<open>Then, if it waited, it is made ready, with a switch when its priority is higher.\<close>

lemma notified_outcome:
  fixes g
  assumes O: "operating T E idle s" and t: "t \<in> T"
  defines "w \<equiv> ucNotifyState s t = taskWAITING_NOTIFICATION"
  defines "s1 \<equiv> if w then prvAddTaskToReadyList t (list_remove (xStateListItem t) (notified t g s)) else notified t g s"
  shows "sound T E idle s1" "\<And>u. u \<in> T \<Longrightarrow> suspended s u \<Longrightarrow> suspended s1 u" "uxPriority s1 = uxPriority s" "pxCurrentTCB s1 = pxCurrentTCB s"
    "\<not> (w \<and> uxPriority s (pxCurrentTCB s) < uxPriority s t) \<Longrightarrow> highest_ready T s1 (pxCurrentTCB s1)" "w \<Longrightarrow> task_ready s1 t"
    "same_rest (notified t g s) s1" "uxSchedulerSuspended s1 = 0" "kept_tasks T s s1"
proof -
  let ?s0 = "notified t g s"
  have S: "sound T E idle s" and H: "highest_ready T s (pxCurrentTCB s)" using O by (simp_all add: operating_def)
  note N = notified_sound [OF S H, where t = t and g = g]
  have f: "uxPriority ?s0 = uxPriority s" "pxCurrentTCB ?s0 = pxCurrentTCB s" "kl ?s0 = kl s" "uxSchedulerSuspended ?s0 = uxSchedulerSuspended s"
    by (simp_all add: notified_def)
  have q: "uxSchedulerSuspended s = 0" using soundD(2) [OF S] by (simp add: quiet_def)
  have "sound T E idle s1 \<and> (\<forall>u \<in> T. suspended s u \<longrightarrow> suspended s1 u) \<and> uxPriority s1 = uxPriority s \<and> pxCurrentTCB s1 = pxCurrentTCB s \<and>
    (\<not> (w \<and> uxPriority s (pxCurrentTCB s) < uxPriority s t) \<longrightarrow> highest_ready T s1 (pxCurrentTCB s1)) \<and> (w \<longrightarrow> task_ready s1 t) \<and>
    same_rest ?s0 s1 \<and> uxSchedulerSuspended s1 = 0 \<and> kept_tasks T s s1"
  proof (cases w)
    case True
    have "pxContainer (kl ?s0) (xEventListItem t) = 0" using soundD(10) [OF S t] True f by (simp add: w_def)
    have "\<not> gone ?s0 t" using soundD(11) [OF S t] True by (auto simp: w_def gone_def notified_def)
    note R = ready_sound [OF N(1) t \<open>pxContainer (kl ?s0) (xEventListItem t) = 0\<close> this]
    have s1: "s1 = prvAddTaskToReadyList t (list_remove (xStateListItem t) ?s0)" using True by (simp add: s1_def)
    note F = kframe_fields [OF R(2), folded s1]
    have "u \<noteq> t" if "suspended s u" for u using that True by (auto simp: suspended_def w_def)
    then have "\<forall>u \<in> T. suspended s u \<longrightarrow> suspended s1 u" using N(3) R(5) [folded s1] by blast
    moreover have "highest_ready T s1 (pxCurrentTCB s1)" if "\<not> uxPriority s (pxCurrentTCB s) < uxPriority s t"
      using R(4) [folded s1] N(2) that by (simp add: f not_less)
    ultimately show ?thesis using R(1,3) [folded s1] F f q True kframe_rest [OF R(2), folded s1] kept_tasks_trans [OF N(4) R(6), folded s1] by simp
  next
    case False
    then show ?thesis using N f q by (simp add: s1_def same_rest_refl)
  qed
  then show "sound T E idle s1" "\<And>u. u \<in> T \<Longrightarrow> suspended s u \<Longrightarrow> suspended s1 u" "uxPriority s1 = uxPriority s" "pxCurrentTCB s1 = pxCurrentTCB s"
    "\<not> (w \<and> uxPriority s (pxCurrentTCB s) < uxPriority s t) \<Longrightarrow> highest_ready T s1 (pxCurrentTCB s1)" "w \<Longrightarrow> task_ready s1 t"
    "same_rest ?s0 s1" "uxSchedulerSuspended s1 = 0" "kept_tasks T s s1" by blast+
qed

text \<open>The calls that notify a task.\<close>

lemma notify_core:
  "xTaskGenericNotify t v a s =
     (let w = (ucNotifyState s t = taskWAITING_NOTIFICATION);
          g = ulNotifiedValue (snd (notify_action a v (ucNotifyState s t) t (set_notify_state t taskNOTIFICATION_RECEIVED s)));
          s1 = (if w then prvAddTaskToReadyList t (list_remove (xStateListItem t) (notified t g s)) else notified t g s)
      in map_option (\<lambda>s'. (fst (notify_action a v (ucNotifyState s t) t (set_notify_state t taskNOTIFICATION_RECEIVED s)), ulNotifiedValue s t, s'))
           (if w \<and> uxPriority s1 t > uxPriority s1 (pxCurrentTCB s1) then vTaskSwitchContext s1 else Some s1))"
proof -
  obtain g where g: "snd (notify_action a v (ucNotifyState s t) t (set_notify_state t taskNOTIFICATION_RECEIVED s)) =
      (set_notify_state t taskNOTIFICATION_RECEIVED s)\<lparr>ulNotifiedValue := g\<rparr>" using notify_action_value by blast
  have n: "(set_notify_state t taskNOTIFICATION_RECEIVED s)\<lparr>ulNotifiedValue := g\<rparr> = notified t g s" by (simp add: notified_def set_notify_state_def)
  obtain x where x: "notify_action a v (ucNotifyState s t) t (set_notify_state t taskNOTIFICATION_RECEIVED s) = (x, notified t g s)"
    using g n by (metis prod.collapse)
  have v: "ulNotifiedValue (notified t g s) = g" by (simp add: notified_def)
  have m: "map_option (\<lambda>s'. (y, z, s')) r = r \<bind> (\<lambda>s'. Some (y, z, s'))" for y :: bool and z :: u32 and r :: "kernel option"
    by (cases r) simp_all
  show ?thesis
    unfolding xTaskGenericNotify_def Let_def x prod.case fst_conv snd_conv v m
    by (cases "ucNotifyState s t = taskWAITING_NOTIFICATION") (simp_all only: if_True if_False simp_thms)
qed

text \<open>The task that waited is ready afterwards, with its value counted up.\<close>

lemma increment_wakes:
  assumes O: "operating T E idle s" and t: "t \<in> T" "ucNotifyState s t = taskWAITING_NOTIFICATION"
  shows "\<exists>s'. xTaskGenericNotify t v eIncrement s = Some (True, ulNotifiedValue s t, s') \<and> operating T E idle s' \<and> status s' t = Ready \<and>
    ulNotifiedValue s' = (ulNotifiedValue s)(t := ulNotifiedValue s t + 1)"
proof -
  let ?g = "(ulNotifiedValue s)(t := ulNotifiedValue s t + 1)"
  let ?s1 = "prvAddTaskToReadyList t (list_remove (xStateListItem t) (notified t ?g s))"
  note N = notified_outcome [OF O t(1), where g = ?g, unfolded eqTrueI [OF t(2)] if_True simp_thms]
  have a: "notify_action eIncrement v (ucNotifyState s t) t (set_notify_state t taskNOTIFICATION_RECEIVED s) =
      (True, (set_notify_state t taskNOTIFICATION_RECEIVED s)\<lparr>ulNotifiedValue := ?g\<rparr>)"
    by (simp add: set_notified_value_def set_notify_state_def)
  have "xTaskGenericNotify t v eIncrement s = map_option (\<lambda>s'. (True, ulNotifiedValue s t, s'))
      (if uxPriority s (pxCurrentTCB s) < uxPriority s t then vTaskSwitchContext ?s1 else Some ?s1)"
    unfolding notify_core a Let_def fst_conv snd_conv using t(2) N(3,4) by simp
  moreover have "\<exists>s'. (if uxPriority s (pxCurrentTCB s) < uxPriority s t then vTaskSwitchContext ?s1 else Some ?s1) = Some s' \<and>
      operating T E idle s' \<and> status s' t = Ready \<and> ulNotifiedValue s' = ?g"
  proof (cases "uxPriority s (pxCurrentTCB s) < uxPriority s t")
    case True
    obtain s' where s': "vTaskSwitchContext ?s1 = Some s'" "operating T E idle s'" "switched (pxCurrentTCB s') ?s1 s'" by (rule sound_switch [OF N(1)])
    have "task_ready s' t" "ulNotifiedValue s' = ?g"
      using N(6,7) switched_views [OF s'(3)] switched_rest [OF s'(3)] by (simp_all add: same_rest_def notified_def)
    then show ?thesis using s'(1,2) True by (simp add: status_def)
  next
    case False
    then show ?thesis using N(1,5,6,7) by (simp add: operating_def same_rest_def notified_def status_def)
  qed
  ultimately show ?thesis by fastforce
qed

lemma perform_notify:
  assumes O: "operating T E idle s" and t: "t \<in> T"
  shows "outcome T E idle {} s (perform (Notify t v a) s)"
proof -
  let ?w = "ucNotifyState s t = taskWAITING_NOTIFICATION"
  let ?g = "ulNotifiedValue (snd (notify_action a v (ucNotifyState s t) t (set_notify_state t taskNOTIFICATION_RECEIVED s)))"
  let ?s1 = "if ?w then prvAddTaskToReadyList t (list_remove (xStateListItem t) (notified t ?g s)) else notified t ?g s"
  note N = notified_outcome [OF O t, where g = ?g]
  have o: "outcome T E idle {} s (if ?w \<and> uxPriority s (pxCurrentTCB s) < uxPriority s t then vTaskSwitchContext ?s1 else Some ?s1)"
    by (rule outcome_switch [OF N(1,9)]) (use N(2,5) in auto)
  have e: "map_option (snd \<circ> snd) (map_option (\<lambda>s'. (x, y, s')) r) = r" for x y and r :: "kernel option" by (cases r) simp_all
  have "perform (Notify t v a) s = (if ?w \<and> uxPriority s (pxCurrentTCB s) < uxPriority s t then vTaskSwitchContext ?s1 else Some ?s1)"
    by (simp only: perform.simps notify_core Let_def e N(3,4))
  with o show ?thesis by (simp only:)
qed

text \<open>From an interrupt, with the scheduler running.\<close>

lemma notify_wake_quiet:
  assumes "uxSchedulerSuspended s = 0"
  shows "(let (r, s) = notify_wake_from_isr t s in irq_exit r s) =
    (let s1 = prvAddTaskToReadyList t (list_remove (xStateListItem t) s)
     in if uxPriority s1 t > uxPriority s1 (pxCurrentTCB s1) then vTaskSwitchContext (s1\<lparr>xYieldPending := True\<rparr>) else Some s1)"
  using assms by (simp add: notify_wake_from_isr_def irq_exit_def Let_def)

lemma switch_pending: "uxSchedulerSuspended s = 0 \<Longrightarrow> vTaskSwitchContext (s\<lparr>xYieldPending := y\<rparr>) = vTaskSwitchContext s"
  by (simp add: vTaskSwitchContext_def)

lemma notify_isr_outcome:
  assumes O: "operating T E idle s" and t: "t \<in> T"
  shows "outcome T E idle {} s (let (r, s) = (if ucNotifyState s t = taskWAITING_NOTIFICATION then notify_wake_from_isr t (notified t g s)
    else (False, notified t g s)) in irq_exit r s)"
proof -
  let ?w = "ucNotifyState s t = taskWAITING_NOTIFICATION"
  let ?s1 = "if ?w then prvAddTaskToReadyList t (list_remove (xStateListItem t) (notified t g s)) else notified t g s"
  note N = notified_outcome [OF O t, where g = g]
  have o: "outcome T E idle {} s (if ?w \<and> uxPriority s (pxCurrentTCB s) < uxPriority s t then vTaskSwitchContext ?s1 else Some ?s1)"
    by (rule outcome_switch [OF N(1,9)]) (use N(2,5) in auto)
  have q: "uxSchedulerSuspended (notified t g s) = 0" using O by (simp add: operating_def sound_def quiet_def notified_def)
  show ?thesis
  proof (cases ?w)
    case True
    define s1 where "s1 = prvAddTaskToReadyList t (list_remove (xStateListItem t) (notified t g s))"
    then have e: "?s1 = s1" using True by simp
    have "outcome T E idle {} s (if uxPriority s (pxCurrentTCB s) < uxPriority s t then vTaskSwitchContext s1 else Some s1)"
      using o True unfolding e by simp
    then show ?thesis using N(3,4,8) notify_wake_quiet [OF q, of t] switch_pending [of s1] True unfolding e by (simp add: Let_def split: if_splits flip: s1_def)
  next
    case False
    then show ?thesis using o by (simp add: irq_exit_def)
  qed
qed

lemma perform_notify_isr:
  assumes O: "operating T E idle s" and t: "t \<in> T"
  shows "outcome T E idle {} s (perform (NotifyFromISR t v a) s)" "outcome T E idle {} s (perform (GiveFromISR t) s)"
proof -
  obtain g where g: "snd (notify_action a v (ucNotifyState s t) t (set_notify_state t taskNOTIFICATION_RECEIVED s)) = notified t g s"
    using notify_action_value [of a v "ucNotifyState s t" t "set_notify_state t taskNOTIFICATION_RECEIVED s"]
    by (auto simp: notified_def set_notify_state_def)
  then obtain x where x: "notify_action a v (ucNotifyState s t) t (set_notify_state t taskNOTIFICATION_RECEIVED s) = (x, notified t g s)"
    by (metis prod.collapse)
  show "outcome T E idle {} s (perform (NotifyFromISR t v a) s)"
    using notify_isr_outcome [OF O t, where g = g] 
    by (simp only: perform.simps xTaskGenericNotifyFromISR_def x Let_def prod.case case_prod_unfold fst_conv snd_conv)
  have n: "set_notified_value t (ulNotifiedValue (set_notify_state t taskNOTIFICATION_RECEIVED s) t + 1) (set_notify_state t taskNOTIFICATION_RECEIVED s) =
      notified t ((ulNotifiedValue s)(t := ulNotifiedValue s t + 1)) s"
    by (simp add: set_notified_value_def set_notify_state_def notified_def)
  show "outcome T E idle {} s (perform (GiveFromISR t) s)"
    using notify_isr_outcome [OF O t, where g = "(ulNotifiedValue s)(t := ulNotifiedValue s t + 1)"]
    by (simp only: perform.simps vTaskNotifyGiveFromISR_def n Let_def)
qed

section \<open>Waiting for a notification\<close>

lemma outcome_from:
  "outcome T E idle A s0 r \<Longrightarrow> kept_tasks T s s0 \<Longrightarrow> (\<And>u. u \<in> T - A \<Longrightarrow> suspended s u \<Longrightarrow> suspended s0 u) \<Longrightarrow> outcome T E idle A s r"
  unfolding outcome_def using kept_tasks_trans by blast

text \<open>Changes of notification fields alone.\<close>

lemma operating_notify:
  assumes O: "operating T E idle s"
    and f: "\<And>t. t \<in> T \<Longrightarrow> f t = taskWAITING_NOTIFICATION \<Longrightarrow> pxContainer (kl s) (xEventListItem t) = 0 \<and> \<not> gone s t"
  shows "operating T E idle (s\<lparr>ucNotifyState := f\<rparr>)"
  using O sound_notify [OF _ f] by (simp add: operating_def highest_updates)

lemma operating_notified: "operating T E idle s \<Longrightarrow> operating T E idle (s\<lparr>ulNotifiedValue := f\<rparr>)"
  using sound_notified by (simp add: operating_def highest_updates)

lemma notify_block_spec:
  assumes O: "operating T E idle s" and c: "pxCurrentTCB s \<noteq> idle"
  shows "outcome T E idle {} s (notify_block n s)"
    "n \<noteq> 0 \<Longrightarrow> \<exists>s1. notify_block n s = Some s1 \<and> operating T E idle s1 \<and> status s1 (pxCurrentTCB s) = block_status n True \<and>
      ucNotifyState s1 (pxCurrentTCB s) = taskWAITING_NOTIFICATION \<and> ulNotifiedValue s1 = ulNotifiedValue s"
proof -
  let ?c = "pxCurrentTCB s" and ?s0 = "set_notify_state (pxCurrentTCB s) taskWAITING_NOTIFICATION s"
  have S: "sound T E idle s" and H: "highest_ready T s ?c" using O by (simp_all add: operating_def)
  note D = soundD [OF S]
  have rd: "task_ready s ?c" using H by (simp add: highest_ready_def task_ready_def)
  have ec: "pxContainer (kl s) (xEventListItem ?c) = 0" by (rule ready_event [OF S D(6) rd])
  obtain G where Ks: "kcore T E s G" by (rule sound_kcore [OF S])
  have pc: "\<not> gone s ?c" by (rule ready_present [OF Ks D(6) rd])
  have m0: "kept_tasks T s ?s0" by (simp add: set_notify_state_def kept_tasks_updates)
  have O0: "operating T E idle ?s0"
    unfolding set_notify_state_def by (rule operating_notify [OF O]) (use ec pc D(10,11) in \<open>auto split: if_splits\<close>)
  have sus: "suspended ?s0 u" if "u \<in> T" "suspended s u" for u
    using operating_suspended(1) [OF O that] that by (simp add: suspended_def set_notify_state_def)
  have zero: "outcome T E idle {} s (notify_block 0 s)" using O0 sus m0 by (simp add: notify_block_def Let_def outcome_def)
  have more: "outcome T E idle {} s (notify_block n s) \<and> (\<exists>s1. notify_block n s = Some s1 \<and> operating T E idle s1 \<and>
    status s1 ?c = block_status n True \<and> ucNotifyState s1 ?c = taskWAITING_NOTIFICATION \<and> ulNotifiedValue s1 = ulNotifiedValue s)" if n: "n \<noteq> 0"
  proof -
    have S0: "sound T E idle ?s0" using O0 by (simp add: operating_def)
    have c0: "pxCurrentTCB ?s0 = ?c" "kl ?s0 = kl s" by (simp_all add: set_notify_state_def)
    obtain G where W: "waiting T E ?s0 G" and K: "kcore T E ?s0 G" and p0: "xPendingReadyList ?s0 \<noteq> 0" by (rule sound_kcore [OF S0])
    have rd0: "pxCurrentTCB ?s0 \<in> T" "task_ready ?s0 (pxCurrentTCB ?s0)"
      using D(6) rd by (simp_all add: set_notify_state_def task_ready_def ready_list_def)
    from block_waiting [OF W rd0 n, where indef = True] obtain s' G' where
      s': "prvAddCurrentTaskToDelayedList n True ?s0 = Some s'" "waiting T E s' G'" "kframe (?s0\<lparr>xNextTaskUnblockTime := xNextTaskUnblockTime s'\<rparr>) s'"
        "status s' ?c = block_status n True"
        "pxContainer (kl s') (xStateListItem ?c) \<in> {pxDelayedTaskList ?s0, pxOverflowDelayedTaskList ?s0, xSuspendedTaskList ?s0}"
      and y: "\<And>y. y \<in> items T \<Longrightarrow> y \<noteq> xStateListItem ?c \<Longrightarrow> pxContainer (kl s') y = pxContainer (kl s) y" unfolding c0 by blast
    note F = kframe_fields [OF s'(3), simplified]
    have r: "same_rest ?s0 s'" using kframe_rest [OF s'(3)] by (simp add: same_rest_def)
    have rl: "ready_list s' = ready_list ?s0" using F(4) by (simp add: ready_list_def fun_eq_iff)
    have ev: "pxContainer (kl s') (xEventListItem u) = pxContainer (kl s) (xEventListItem u)" if "u \<in> T" for u
      using y [OF items_in(2) [OF that]] layout_items [OF kcoreD(2) [OF K] D(6) that] by metis
    have e: "pxContainer (kl s') (xEventListItem ?c) = 0" using ev [OF D(6)] ec by simp
    have ep: "pxContainer (kl s') (xEventListItem ?c) \<noteq> xPendingReadyList ?s0" using e p0 by metis
    have same: "pxContainer (kl s') (xStateListItem u) = pxContainer (kl ?s0) (xStateListItem u) \<and>
        pxContainer (kl s') (xEventListItem u) = pxContainer (kl ?s0) (xEventListItem u)" if "u \<in> T - {?c}" for u
      using y [OF items_in(1)] ev that c0(2) by simp
    note B = blocked_sound [OF O0 c0(1) c s'(2) r F(6) rl F(12,17,15,7) s'(5) ep e same]
    have "outcome T E idle {} ?s0 (vTaskSwitchContext s')" using outcome_switch [OF B(1,2), of "{}" True] B(3) by simp
    then have "outcome T E idle {} s (vTaskSwitchContext s')" by (rule outcome_from [OF _ m0]) (use sus in blast)
    moreover have nb: "notify_block n s = vTaskSwitchContext s'" using n s'(1) by (simp add: notify_block_def Let_def word_gt_0)
    moreover obtain s1 where s1: "vTaskSwitchContext s' = Some s1" "operating T E idle s1" "switched (pxCurrentTCB s1) s' s1" by (rule sound_switch [OF B(1)])
    moreover have "status s1 ?c = block_status n True" using s'(4) switched_status [OF s1(3)] by simp
    moreover have "ucNotifyState s1 ?c = taskWAITING_NOTIFICATION" "ulNotifiedValue s1 = ulNotifiedValue s"
      using switched_rest [OF s1(3)] r by (simp_all add: same_rest_def set_notify_state_def)
    ultimately show ?thesis by simp
  qed
  show "outcome T E idle {} s (notify_block n s)" using zero more by (cases "n = 0") simp_all
  show "n \<noteq> 0 \<Longrightarrow> \<exists>s1. notify_block n s = Some s1 \<and> operating T E idle s1 \<and> status s1 ?c = block_status n True \<and>
      ucNotifyState s1 ?c = taskWAITING_NOTIFICATION \<and> ulNotifiedValue s1 = ulNotifiedValue s" using more by blast
qed

lemma perform_notify_enter:
  assumes O: "operating T E idle s" and c: "pxCurrentTCB s \<noteq> idle"
  shows "outcome T E idle {} s (notify_take_enter n s)" "outcome T E idle {} s (notify_wait_enter m n s)"
proof -
  have stay: "outcome T E idle {} s (Some s)" using O kept_tasks_refl by (simp add: outcome_def)
  show "outcome T E idle {} s (notify_take_enter n s)" using notify_block_spec(1) [OF O c] stay by (simp add: notify_take_enter_def)
  let ?s0 = "set_notified_value (pxCurrentTCB s) (ulNotifiedValue s (pxCurrentTCB s) AND NOT m) s"
  have "operating T E idle ?s0" "pxCurrentTCB ?s0 \<noteq> idle" using operating_notified [OF O] c by (simp_all add: set_notified_value_def)
  then have "outcome T E idle {} ?s0 (notify_block n ?s0)" by (rule notify_block_spec(1))
  then have "outcome T E idle {} s (notify_block n ?s0)" by (rule outcome_from) (simp_all add: set_notified_value_def suspended_updates kept_tasks_updates)
  then show "outcome T E idle {} s (notify_wait_enter m n s)" using stay by (simp add: notify_wait_enter_def Let_def)
qed

lemma perform_notify_fields:
  assumes O: "operating T E idle s"
  shows "outcome T E idle {} s (Some (set_notify_state t taskNOT_WAITING_NOTIFICATION (s\<lparr>ulNotifiedValue := g\<rparr>)))"
proof -
  have O1: "operating T E idle (s\<lparr>ulNotifiedValue := g\<rparr>)" by (rule operating_notified [OF O])
  then have "operating T E idle (set_notify_state t taskNOT_WAITING_NOTIFICATION (s\<lparr>ulNotifiedValue := g\<rparr>))"
    unfolding set_notify_state_def
    by (rule operating_notify) (use O in \<open>auto simp: operating_def sound_def gone_def split: if_splits\<close>)
  then show ?thesis by (simp add: outcome_def) (simp add: set_notify_state_def suspended_def kept_tasks_def gone_def)
qed

lemma perform_notify_exit:
  assumes O: "operating T E idle s"
  shows "outcome T E idle {} s (perform (TakeExit b) s)" "outcome T E idle {} s (perform (WaitExit m) s)"
    "outcome T E idle {} s (perform (StateClear h) s)"
proof -
  have id: "s = s\<lparr>ulNotifiedValue := ulNotifiedValue s\<rparr>" by simp
  note base = perform_notify_fields [OF O]
  have same: "outcome T E idle {} s (Some (set_notify_state t taskNOT_WAITING_NOTIFICATION s))" for t
    using base [of t "ulNotifiedValue s"] by simp
  have stay: "outcome T E idle {} s (Some s)" using O kept_tasks_refl by (simp add: outcome_def)
  show "outcome T E idle {} s (perform (TakeExit b) s)" using base same by (simp add: notify_take_exit_def Let_def set_notified_value_def)
  show "outcome T E idle {} s (perform (WaitExit m) s)" using base same by (simp add: notify_wait_exit_def Let_def set_notified_value_def)
  show "outcome T E idle {} s (perform (StateClear h) s)" using same stay by (simp add: xTaskNotifyStateClear_def Let_def)
qed

section \<open>Priorities and lists\<close>

lemma perform_reprioritise:
  assumes O: "operating T E idle s" and t: "t \<in> T" "pxContainer (kl s) (xEventListItem t) = 0" and p: "p < 8" "p \<noteq> uxPriority s t"
  defines "s1 \<equiv> (reprioritise t p (8 - p) s)\<lparr>uxBasePriority := (uxBasePriority s)(t := p)\<rparr>"
  shows "sound T E idle s1" "\<And>u. u \<in> T \<Longrightarrow> suspended s u \<Longrightarrow> suspended s1 u"
    "\<not> priority_yield t p s \<Longrightarrow> highest_ready T s1 (pxCurrentTCB s1)" "kept_tasks T s s1"
proof -
  let ?c = "pxCurrentTCB s" and ?s' = "reprioritise t p (8 - p) s"
  have S: "sound T E idle s" and H: "highest_ready T s ?c" using O by (simp_all add: operating_def)
  note D = soundD [OF S]
  obtain G where W: "waiting T E s G" and K: "kcore T E s G" by (rule sound_kcore [OF S])
  have free: "pxContainer (kl s) (xEventListItem t) \<notin> E"
    using t(2) rings_D(1) [OF kcoreD(1) [OF K]] by (auto simp: event_lists_def)
  note R = reprioritise_waiting [OF W t(1) p(1) free] and C = reprioritise_kcore [OF K t(1) p(1), where v = "8 - p"]
  obtain k w where kw: "?s' = (set_priority t p s)\<lparr>kl := k, uxTopReadyPriority := w\<rparr>" using C(2) unfolding kframe_def by blast
  have f: "uxPriority s1 = (uxPriority s)(t := p)" "uxBasePriority s1 = (uxBasePriority s)(t := p)" "pxCurrentTCB s1 = ?c" "kl s1 = kl ?s'"
    "xSchedulerRunning s1 = xSchedulerRunning s" "uxCurrentNumberOfTasks s1 = uxCurrentNumberOfTasks s" "ucNotifyState s1 = ucNotifyState s"
    "xSuspendedTaskList s1 = xSuspendedTaskList s" "xTasksWaitingTermination s1 = xTasksWaitingTermination s"
    "pxReadyTasksLists s1 = pxReadyTasksLists s" "xDelayedTaskList1 s1 = xDelayedTaskList1 s" "xDelayedTaskList2 s1 = xDelayedTaskList2 s"
    "xPendingReadyList s1 = xPendingReadyList s"
    by (simp_all add: s1_def kw set_priority_def)
  have rl: "ready_list s1 = ready_list s" "ready_lists s1 = ready_lists s"
    by (simp_all add: s1_def kw set_priority_def ready_list_def ready_lists_def fun_eq_iff)
  have ne: "xStateListItem u \<noteq> xEventListItem v" if "u \<in> T" "v \<in> T" for u v by (rule layout_items [OF kcoreD(2) [OF K] that])
  have st: "pxContainer (kl s1) (xStateListItem u) = (if u = t \<and> task_ready s t then ready_list s p else pxContainer (kl s) (xStateListItem u))" if "u \<in> T" for u
    using bspec [OF C(4) items_in(1) [OF that]] by (simp add: f(4))
  have ev: "pxContainer (kl s1) (xEventListItem u) = pxContainer (kl s) (xEventListItem u)" if "u \<in> T" for u
    using bspec [OF C(4) items_in(2) [OF that]] ne [OF t(1) that] f(4) by metis
  have pl: "ready_list s p \<in> ready_lists s" using p(1) by (simp add: ready_lists_def)
  obtain G' where "waiting T E ?s' G'" using R(1) by blast
  then have W1: "waiting T E s1 G'" by (simp add: s1_def waiting_base)
  have Q1: "quiet T s1" using R(2) [OF D(2)] by (simp add: s1_def waiting_base)
  have rd: "task_ready s1 idle" using st [OF D(3)] D(5) rl by (auto simp: task_ready_def f)
  have tp: "\<not> gone s t" if "task_ready s t" by (rule ready_present [OF K t(1) that])
  have gn: "gone s1 u = gone s u" if "u \<in> T" for u
    using st [OF that] tp ready_not(2) [OF K pl] by (auto simp: gone_def f)
  show "kept_tasks T s s1" using gn by (simp add: kept_tasks_def f)
  show "sound T E idle s1"
    unfolding sound_def
  proof (intro conjI ballI impI)
    show "\<exists>G. waiting T E s1 G" using W1 by blast
    show "pxContainer (kl s1) (xStateListItem u) \<noteq> 0" if "u \<in> T" for u
      using st [OF that] D(9) [OF that] ready_not(1) [OF K pl] by simp
    show "pxContainer (kl s1) (xEventListItem u) = 0" if "u \<in> T" "gone s1 u" for u
      using ev [OF that(1)] D(11) [OF that(1)] gn [OF that(1)] that(2) by simp
    show "ucNotifyState s1 u \<noteq> taskWAITING_NOTIFICATION" if "u \<in> T" "gone s1 u" for u
      using D(11) [OF that(1)] gn [OF that(1)] that(2) by (simp add: f)
    show "pxContainer (kl s1) (xEventListItem u) = 0" if "u \<in> T" "ucNotifyState s1 u = taskWAITING_NOTIFICATION" for u
      using ev [OF that(1)] D(10) [OF that(1)] that(2) by (simp add: f)
  qed (use Q1 rd D f in simp_all)
  show "suspended s1 u" if "u \<in> T" "suspended s u" for u
    using that(2) operating_suspended(2) [OF O that] st [OF that(1)] ev [OF that(1)] unfolding suspended_def f by auto
  show "highest_ready T s1 (pxCurrentTCB s1)" if y: "\<not> priority_yield t p s"
  proof -
    have b: "uxBasePriority s t = uxPriority s t" by (rule D(8) [OF t(1)])
    have H': "uxPriority s u \<le> uxPriority s ?c" if "u \<in> T" "pxContainer (kl s) (xStateListItem u) \<in> ready_lists s" for u
      using H that by (simp add: highest_ready_def)
    have tr: "task_ready s t \<Longrightarrow> pxContainer (kl s) (xStateListItem t) \<in> ready_lists s" using task_ready_in [OF K t(1)] by blast
    have c: "task_ready s ?c" using H by (simp add: highest_ready_def task_ready_def)
    have "uxPriority s1 u \<le> uxPriority s1 ?c" if u: "u \<in> T" "pxContainer (kl s1) (xStateListItem u) \<in> ready_lists s" for u
    proof (cases "t = ?c")
      case True
      have "uxPriority s t < p" using y p(2) True unfolding priority_yield_def b by (auto split: if_splits)
      then have "uxPriority s ?c < p" using True by simp
      then show ?thesis using H' [OF u(1)] st [OF u(1)] u(2) True by (cases "u = t") (auto simp: f)
    next
      case False
      then have less: "uxPriority s t < p \<longrightarrow> p < uxPriority s ?c" using y unfolding priority_yield_def b by (auto split: if_splits)
      show ?thesis
      proof (cases "u = t")
        case True
        then have "task_ready s t" using u(2) st [OF u(1)] task_ready_in [OF K t(1)] by (auto split: if_splits)
        then have "uxPriority s t \<le> uxPriority s ?c" using H' [OF t(1)] tr by blast
        then show ?thesis using True False less by (auto simp: f not_less)
      next
        case ut: False
        then show ?thesis using H' [OF u(1)] st [OF u(1)] u(2) False by (simp add: f)
      qed
    qed
    moreover have "pxContainer (kl s1) (xStateListItem ?c) = ready_list s1 (uxPriority s1 ?c)"
      using st [OF D(6)] c by (auto simp: task_ready_def rl f)
    ultimately show ?thesis using D(6) by (simp add: highest_ready_def rl f(3))
  qed
qed

lemma perform_priority:
  assumes O: "operating T E idle s" and t: "prvGetTCBFromHandle h s = t" "t \<in> T" "pxContainer (kl s) (xEventListItem t) = 0"
  shows "outcome T E idle {} s (vTaskPrioritySet h p s)"
proof -
  let ?p = "if configMAX_PRIORITIES \<le> p then configMAX_PRIORITIES - 1 else p"
  have p: "?p < 8" by (simp add: not_le)
  have "(if configMAX_PRIORITIES \<le> ?p then configMAX_PRIORITIES - 1 else ?p) = ?p" by simp
  then have cap: "vTaskPrioritySet h p s = vTaskPrioritySet h ?p s" by (simp only: vTaskPrioritySet_def Let_def)
  obtain G where W: "waiting T E s G" using O by (auto simp: operating_def sound_def)
  have b: "uxBasePriority s t = uxPriority s t" using O t(2) by (simp add: operating_def sound_def)
  show ?thesis
  proof (cases "?p = uxPriority s t")
    case True
    then have "vTaskPrioritySet h p s = Some s" using b by (simp add: vTaskPrioritySet_def Let_def t(1))
    then show ?thesis using O kept_tasks_refl by (simp add: outcome_def)
  next
    case False
    show ?thesis unfolding cap priority_set_reprioritise [OF W t(1,2) b p False]
      by (rule outcome_switch [OF perform_reprioritise(1,4) [OF O t(2,3) p False]])
        (use perform_reprioritise(2,3) [OF O t(2,3) p False] in blast)+
  qed
qed

lemma perform_new_list:
  assumes O: "operating T E idle s" and l: "l \<notin> kernel_lists E s" "l \<noteq> 0" "xListEnd l \<notin> items T"
  shows "outcome T (insert l E) idle {} s (perform (NewList l) s)"
proof -
  let ?s = "s\<lparr>kl := vListInitialise l (kl s)\<rparr>"
  have S: "sound T E idle s" and H: "highest_ready T s (pxCurrentTCB s)" using O by (simp_all add: operating_def)
  note D = soundD [OF S]
  obtain G where W: "waiting T E s G" by (rule sound_kcore [OF S])
  note N = waiting_list_added [OF W l]
  have "sound T (insert l E) idle ?s" unfolding sound_def using N D by (auto simp: task_ready_def ready_list_def gone_def)
  moreover have "highest_ready T ?s (pxCurrentTCB ?s)" using H by (simp add: highest_ready_def ready_lists_def ready_list_def)
  ultimately show ?thesis by (simp add: outcome_def operating_def suspended_def kept_tasks_def gone_def)
qed

section \<open>Every permitted call\<close>

fun resumed_by :: "call \<Rightarrow> u32 set" where
  "resumed_by (Resume t) = {t}"
| "resumed_by (ResumeFromISR t) = {t}"
| "resumed_by _ = {}"

lemma perform_outcome:
  assumes O: "operating T E idle s" and P: "permitted T E idle c s"
  shows "outcome T (lists_after c E) idle (resumed_by c) s (perform c s)"
proof (cases c)
  case (Delay n)
  then show ?thesis
  proof (cases "n = 0")
    case True
    then show ?thesis using perform_yield [OF O] Delay by (simp add: vTaskDelay_def)
  next
    case False
    then show ?thesis using perform_delay [OF O] P Delay by (simp add: permitted_def)
  qed
next
  case (WaitFor l n)
  then show ?thesis using perform_wait [OF O] P by (simp add: permitted_def del: perform.simps)
next
  case (Suspend h)
  then show ?thesis using perform_suspend(1) [OF O refl] P by (auto simp: permitted_def)
next
  case (Resume t)
  then show ?thesis using perform_resume(1) [OF O] P by (simp add: permitted_def)
next
  case (ResumeFromISR t)
  then show ?thesis using perform_resume(2) [OF O] P by (simp add: permitted_def del: perform.simps)
next
  case (PrioritySet h p)
  then show ?thesis using perform_priority [OF O refl] P by (simp add: permitted_def)
next
  case (Notify t v a)
  then show ?thesis using perform_notify [OF O] P by (simp add: permitted_def del: perform.simps)
next
  case (NotifyFromISR t v a)
  then show ?thesis using perform_notify_isr(1) [OF O] P by (simp add: permitted_def del: perform.simps)
next
  case (GiveFromISR t)
  then show ?thesis using perform_notify_isr(2) [OF O] P by (simp add: permitted_def del: perform.simps)
next
  case (TakeEnter n)
  then show ?thesis using perform_notify_enter(1) [OF O] P by (simp add: permitted_def)
next
  case (WaitEnter m n)
  then show ?thesis using perform_notify_enter(2) [OF O] P by (simp add: permitted_def)
next
  case (NewList l)
  then show ?thesis using perform_new_list [OF O] P by (simp add: permitted_def del: perform.simps)
next
  case (Signal l)
  then show ?thesis using perform_signal [OF O] P by (simp add: permitted_def)
next
  case (SignalFromISR l)
  then show ?thesis using perform_signal [OF O] P by (simp add: permitted_def)
next
  case Tick
  then show ?thesis using perform_tick [OF O] by (simp del: perform.simps)
next
  case Yield
  then show ?thesis using perform_yield [OF O] by simp
next
  case (TakeExit b)
  then show ?thesis using perform_notify_exit(1) [OF O] by (simp del: perform.simps)
next
  case (WaitExit m)
  then show ?thesis using perform_notify_exit(2) [OF O] by (simp del: perform.simps)
next
  case (StateClear h)
  then show ?thesis using perform_notify_exit(3) [OF O] by (simp del: perform.simps)
qed

text \<open>Runs: any sequence of permitted calls, each from the state the one before has left.\<close>

inductive run :: "u32 set \<Rightarrow> u32 \<Rightarrow> u32 set \<Rightarrow> kernel \<Rightarrow> call list \<Rightarrow> u32 set \<Rightarrow> kernel \<Rightarrow> bool" for T idle where
  run_none: "run T idle E s [] E s"
| run_call: "run T idle E s cs E1 s1 \<Longrightarrow> permitted T E1 idle c s1 \<Longrightarrow> perform c s1 = Some s2 \<Longrightarrow>
    run T idle E s (cs @ [c]) (lists_after c E1) s2"

lemma run_operating:
  assumes "run T idle E s cs E' s'" "operating T E idle s"
  shows "operating T E' idle s'"
  using assms
proof (induction rule: run.induct)
  case (run_call E s cs E1 s1 c s2)
  then show ?case using perform_outcome [of T E1 idle s1 c] by (auto simp: outcome_def)
qed

lemma run_suspended:
  assumes "run T idle E s cs E' s'" "operating T E idle s" "t \<in> T" "suspended s t" "\<forall>c \<in> set cs. t \<notin> resumed_by c"
  shows "suspended s' t"
  using assms
proof (induction rule: run.induct)
  case (run_call E s cs E1 s1 c s2)
  have "operating T E1 idle s1" using run_operating [OF run_call.hyps(1)] run_call.prems(1) .
  then have "outcome T (lists_after c E1) idle (resumed_by c) s1 (perform c s1)" by (rule perform_outcome [OF _ run_call.hyps(2)])
  moreover have "suspended s1 t" using run_call by simp
  moreover have "t \<notin> resumed_by c" using run_call.prems(4) by simp
  ultimately show ?case using run_call.hyps(3) run_call.prems(2) by (auto simp: outcome_def)
qed

text \<open>A state in operation in terms of what a reader of the interface sees.\<close>

lemma operating_highest:
  assumes "operating T E idle s"
  shows "pxCurrentTCB s \<in> T" "status s (pxCurrentTCB s) = Ready"
    "\<And>u. u \<in> T \<Longrightarrow> status s u = Ready \<Longrightarrow> uxPriority s u \<le> uxPriority s (pxCurrentTCB s)"
proof -
  have S: "sound T E idle s" and H: "highest_ready T s (pxCurrentTCB s)" using assms by (simp_all add: operating_def)
  obtain G where W: "waiting T E s G" by (rule sound_kcore [OF S])
  note R = status_kinv(1) [OF waitingD(1) [OF W]] and I = task_ready_in [OF waitingD(2) [OF W]]
  show c: "pxCurrentTCB s \<in> T" by (rule soundD(6) [OF S])
  show "status s (pxCurrentTCB s) = Ready" using R [OF c] H by (simp add: highest_ready_def task_ready_def)
  show "uxPriority s u \<le> uxPriority s (pxCurrentTCB s)" if "u \<in> T" "status s u = Ready" for u
    using H R [OF that(1)] I [OF that(1)] that by (simp add: highest_ready_def)
qed

text \<open>How a suspended task is seen, and what resuming it does.\<close>

lemma suspended_state:
  assumes "operating T E idle s" "t \<in> T" "suspended s t"
  shows "t \<noteq> pxCurrentTCB s" "eTaskGetState t s = eSuspended"
proof -
  show c: "t \<noteq> pxCurrentTCB s" by (rule operating_suspended(1) [OF assms])
  obtain G where K: "kcore T E s G" using sound_kcore [of T E idle s] assms(1) unfolding operating_def by metis
  show "eTaskGetState t s = eSuspended"
    using c assms(3) suspended_list(2) [OF K] by (simp add: eTaskGetState_def suspended_def Let_def)
qed

lemma resume_ready:
  assumes O: "operating T E idle s" and t: "t \<in> T" and u: "suspended s t"
  shows "\<exists>s'. vTaskResume t s = Some s' \<and> status s' t = Ready"
proof -
  have S: "sound T E idle s" using O by (simp add: operating_def)
  obtain G where K: "kcore T E s G" and p0: "xPendingReadyList s \<noteq> 0" by (rule sound_kcore [OF S])
  let ?s1 = "prvAddTaskToReadyList t (list_remove (xStateListItem t) s)"
  have e: "pxContainer (kl s) (xEventListItem t) = 0" using u by (simp add: suspended_def)
  have "\<not> gone s t" using u termination_apart(1) [OF K] by (auto simp: gone_def suspended_def)
  note R = ready_sound [OF S t e this]
  have "prvTaskIsTaskSuspended t s" using u p0 by (simp add: prvTaskIsTaskSuspended_def listIS_CONTAINED_WITHIN_def suspended_def)
  moreover have "t \<noteq> 0" using soundD(4) [OF S] t by blast
  ultimately have r: "vTaskResume t s = (if uxPriority ?s1 t \<ge> uxPriority ?s1 (pxCurrentTCB ?s1) then vTaskSwitchContext ?s1 else Some ?s1)"
    using operating_suspended(1) [OF O t u] by (simp add: vTaskResume_def Let_def)
  obtain s' where s': "vTaskSwitchContext ?s1 = Some s'" "switched (pxCurrentTCB s') ?s1 s'" by (rule sound_switch [OF R(1)])
  have "task_ready s' t" using R(3) by (simp add: switched_views [OF s'(2)])
  then show ?thesis using r R(3) s'(1) by (auto simp: status_def)
qed

section \<open>From the start\<close>

definition own_priorities :: "u32 set \<Rightarrow> kernel \<Rightarrow> bool" where
  "own_priorities T s \<longleftrightarrow> (\<forall>t \<in> T. uxBasePriority s t = uxPriority s t \<and> ucNotifyState s t = taskNOT_WAITING_NOTIFICATION)"

definition task_members :: "kernel \<Rightarrow> (u32 \<Rightarrow> u32) \<times> (u32 \<Rightarrow> u32) \<times> (u32 \<Rightarrow> u8) \<times> (u32 \<Rightarrow> u32)" where
  "task_members s = (uxPriority s, uxBasePriority s, ucNotifyState s, ulNotifiedValue s)"

lemma switch_members: "vTaskSwitchContext s = Some s' \<Longrightarrow> task_members s' = task_members s"
  by (auto simp: vTaskSwitchContext_def taskSELECT_HIGHEST_PRIORITY_TASK_def task_members_def case_prod_unfold Let_def split: if_splits bind_splits)

lemma add_new_members:
  assumes "prvAddNewTaskToReadyList t s = Some s'"
  shows "task_members s' = task_members s"
proof -
  have i: "task_members (prvInitialiseTaskLists u) = task_members u" for u by (simp add: prvInitialiseTaskLists_fold task_members_def)
  have a: "task_members (prvAddTaskToReadyList t u) = task_members u" for u
    by (simp add: prvAddTaskToReadyList_def taskRECORD_READY_PRIORITY_def task_members_def Let_def)
  have u: "task_members (u\<lparr>uxCurrentNumberOfTasks := n\<rparr>) = task_members u" "task_members (u\<lparr>pxCurrentTCB := n\<rparr>) = task_members u"
    "task_members (u\<lparr>uxTaskNumber := n\<rparr>) = task_members u" for u n by (simp_all add: task_members_def)
  show ?thesis using assms unfolding prvAddNewTaskToReadyList_def Let_def
    by (auto simp: a u i dest: switch_members split: if_splits)
qed

lemma create_members:
  assumes "xTaskCreate p (Some t) s = Some (r, s')" "own_priorities T s"
  shows "own_priorities (insert t T) s'" "uxPriority s' = (uxPriority s)(t := if p \<ge> configMAX_PRIORITIES then configMAX_PRIORITIES - 1 else p)"
    "ulNotifiedValue s' = (ulNotifiedValue s)(t := 0)"
proof -
  have "prvAddNewTaskToReadyList t (prvInitialiseNewTask p t s) = Some s'" using assms(1) by (auto simp: xTaskCreate_def split: bind_splits)
  from add_new_members [OF this] show "own_priorities (insert t T) s'"
    "uxPriority s' = (uxPriority s)(t := if p \<ge> configMAX_PRIORITIES then configMAX_PRIORITIES - 1 else p)"
    "ulNotifiedValue s' = (ulNotifiedValue s)(t := 0)"
    using assms(2) by (auto simp: task_members_def own_priorities_def initialise_new_fields)
qed

lemma create_all_members:
  assumes "create_tasks ts s = Some s'" "own_priorities T s"
  shows "own_priorities (T \<union> snd ` set ts) s'"
  using assms
proof (induction ts arbitrary: s T)
  case (Cons pt ts)
  obtain p t where pt: "pt = (p, t)" by (cases pt)
  obtain r s1 where s1: "xTaskCreate p (Some t) s = Some (r, s1)" "create_tasks ts s1 = Some s'"
    using Cons.prems(1) by (auto simp: pt split: bind_splits)
  from Cons.IH [OF s1(2) create_members(1) [OF s1(1) Cons.prems(2)]] show ?case by (simp add: pt)
qed simp

lemma scheduled_waiting:
  assumes "scheduled T {} s" "\<forall>t \<in> T. xItemValue (kl s) (xEventListItem t) = configMAX_PRIORITIES - uxPriority s t"
  shows "\<exists>G. waiting T {} s G"
proof -
  obtain G where G: "kinv T {} s G" and Q: "quiet T s" using assms(1) by (auto simp: scheduled_def)
  have "pxContainer (kl s) (xEventListItem t) \<notin> event_lists {} s" if "t \<in> T" for t using Q that by (auto simp: quiet_def event_lists_def)
  then have "waiting T {} s G" using G assms(2) unfolding waiting_def event_order_def by blast
  then show ?thesis by blast
qed

lemma start_operating:
  assumes "fresh s" "places (insert idle (insert timer (snd ` set ts))) {} s" "distinct (idle # timer # map snd ts)"
    and nz: "0 \<notin> insert idle (insert timer (snd ` set ts))"
    and run: "create_tasks ts s = Some s1" "vTaskStartScheduler (Some idle) (Some timer) s1 = Some (True, s2)"
  shows "operating (insert idle (insert timer (snd ` set ts))) {} idle s2" "own_priorities (insert idle (insert timer (snd ` set ts))) s2"
    "\<forall>t \<in> insert idle (insert timer (snd ` set ts)). \<not> gone s2 t"
proof -
  let ?T = "insert idle (insert timer (snd ` set ts))"
  from start_spec [OF assms(1-3)] run have
    S: "scheduled ?T {} s2" "highest_ready ?T s2 (pxCurrentTCB s2)" "\<forall>t \<in> ?T. task_ready s2 t" "xSchedulerRunning s2"
      "\<forall>t \<in> ?T. xItemValue (kl s2) (xEventListItem t) = configMAX_PRIORITIES - uxPriority s2 t" by auto
  obtain G where W: "waiting ?T {} s2 G" using scheduled_waiting [OF S(1,5)] by blast
  note K = waitingD(2) [OF W]
  have "own_priorities {} s" by (simp add: own_priorities_def)
  from create_all_members [OF run(1) this] have "own_priorities (snd ` set ts) s1" by simp
  moreover obtain a b where ab: "xTaskCreate 0 (Some idle) s1 = Some (True, a)" "xTaskCreate configTIMER_TASK_PRIORITY (Some timer) a = Some (True, b)"
    "s2 = b\<lparr>xNextTaskUnblockTime := portMAX_DELAY, xSchedulerRunning := True, xTickCount := 0\<rparr>"
    using run(2) by (auto simp: vTaskStartScheduler_def split: bind_splits if_splits)
  ultimately have "own_priorities (insert timer (insert idle (snd ` set ts))) b" using create_members(1) [OF ab(1)] create_members(1) [OF ab(2)] by blast
  then have own: "own_priorities ?T s2" by (simp add: own_priorities_def ab(3))
  have here: "pxContainer (kl s2) (xStateListItem t) \<noteq> 0 \<and> \<not> gone s2 t" if "t \<in> ?T" for t
    using bspec [OF S(3) that] ready_not(1) [OF K own_ready_list [OF K that]] ready_present [OF K that] by (simp add: task_ready_def)
  then show "\<forall>t \<in> ?T. \<not> gone s2 t" by blast
  have "sound ?T {} idle s2" using here W S own nz unfolding sound_def scheduled_def own_priorities_def by auto
  then show "operating ?T {} idle s2" using S(2) by (simp add: operating_def)
  show "own_priorities ?T s2" by (rule own)
qed

lemma demo_operating:
  "operating {100, 200, 300, 400} {} 100 demo_started" "own_priorities {100, 200, 300, 400} demo_started" "\<forall>t \<in> {100, 200, 300, 400}. \<not> gone demo_started t"
  "\<exists>s1. create_tasks demo_tasks demo_kernel = Some s1 \<and> vTaskStartScheduler (Some 100) (Some 200) s1 = Some (True, demo_started)"
proof -
  have T: "insert 100 (insert 200 (snd ` set demo_tasks)) = {100, 200, 300, 400 :: u32}" by (simp add: demo_tasks_def)
  have "distinct (100 # 200 # map snd demo_tasks)" by (simp add: demo_tasks_def)
  from start_spec [where s = demo_kernel and ts = demo_tasks and idle = 100 and timer = 200, unfolded T, OF demo_places(1,2) this]
  obtain s1 s2 where s: "create_tasks demo_tasks demo_kernel = Some s1" "vTaskStartScheduler (Some 100) (Some 200) s1 = Some (True, s2)" by blast
  then have d: "demo_started = s2" by (simp add: demo_started_def)
  show "\<exists>s1. create_tasks demo_tasks demo_kernel = Some s1 \<and> vTaskStartScheduler (Some 100) (Some 200) s1 = Some (True, demo_started)"
    using s d by blast
  have "0 \<notin> {100, 200, 300, 400 :: u32}" by simp
  from start_operating [where s = demo_kernel and ts = demo_tasks and idle = 100 and timer = 200, unfolded T, OF demo_places(1,2) \<open>distinct _\<close> this s]
  show "operating {100, 200, 300, 400} {} 100 demo_started" "own_priorities {100, 200, 300, 400} demo_started"
    "\<forall>t \<in> {100, 200, 300, 400}. \<not> gone demo_started t" unfolding d by blast+
qed

section \<open>Properties\<close>

text \<open>C23: No permitted call goes wrong and none breaks the state. Any call of the running task or of an interrupt that keeps to the rules of
  the interface has a result, with no loop that does not end and no task chosen from empty lists, and leaves the lists, the ready
  bit map, the delays, the order of waiting tasks and the choice of the running task as the kernel needs them for the next call.\<close>

theorem kernel_calls_safe:
  assumes "operating T E idle s" "permitted T E idle c s"
  shows "\<exists>s'. perform c s = Some s' \<and> operating T (lists_after c E) idle s'"
  using perform_outcome [OF assms] by (auto simp: outcome_def)

text \<open>C22: The running task is always a ready task of the highest priority. However many tasks the application creates, and whatever
  sequence of permitted calls, ticks and interrupts follows the start of the scheduler, whichever tasks are delayed, wait for events or
  notifications, are suspended, resumed or have their priority changed, after each call no ready task has a higher priority than the
  one that runs, and the idle task is ready.\<close>

theorem highest_always_runs:
  assumes "fresh s" "places (insert idle (insert timer (snd ` set ts))) {} s" "distinct (idle # timer # map snd ts)"
    and "0 \<notin> insert idle (insert timer (snd ` set ts))"
    and "create_tasks ts s = Some s1" "vTaskStartScheduler (Some idle) (Some timer) s1 = Some (True, s2)"
    and "run (insert idle (insert timer (snd ` set ts))) idle {} s2 cs E s3"
  shows "pxCurrentTCB s3 \<in> insert idle (insert timer (snd ` set ts)) \<and> status s3 (pxCurrentTCB s3) = Ready \<and> status s3 idle = Ready \<and>
    (\<forall>u \<in> insert idle (insert timer (snd ` set ts)). status s3 u = Ready \<longrightarrow> uxPriority s3 u \<le> uxPriority s3 (pxCurrentTCB s3))"
proof -
  have O: "operating (insert idle (insert timer (snd ` set ts))) E idle s3"
    by (rule run_operating [OF assms(7) start_operating(1) [OF assms(1-6)]])
  note operating_highest [OF O]
  moreover have "status s3 idle = Ready" using O by (simp add: operating_def sound_def status_def)
  ultimately show ?thesis by blast
qed

text \<open>C31: A suspended task stays suspended until it is resumed. Suspending any task but the idle one and the deleted, ready, delayed, waiting or running, takes it
  out of every other list; through any run in which no call resumes it, whether its time out passes, its event is signalled, it is
  notified or its priority is changed, it does not run and its state reads as suspended; and resuming it then makes it ready.\<close>

theorem suspended_until_resumed:
  assumes "operating T E idle s" "prvGetTCBFromHandle h s = t" "t \<in> T - {idle}" "\<not> gone s t"
  shows "\<exists>s1. vTaskSuspend h s = Some s1 \<and>
    (\<forall>cs E' s2. run T idle E s1 cs E' s2 \<and> (\<forall>c \<in> set cs. t \<notin> resumed_by c) \<longrightarrow>
      t \<noteq> pxCurrentTCB s2 \<and> eTaskGetState t s2 = eSuspended \<and> (\<exists>s3. vTaskResume t s2 = Some s3 \<and> status s3 t = Ready))"
proof -
  have t: "t \<in> T" "t \<noteq> idle" using assms(3) by simp_all
  from perform_suspend [OF assms(1,2) t assms(4)] obtain s1 where
    s1: "vTaskSuspend h s = Some s1" "operating T E idle s1" "suspended s1 t" by (auto simp: outcome_def)
  have "t \<noteq> pxCurrentTCB s2 \<and> eTaskGetState t s2 = eSuspended \<and> (\<exists>s3. vTaskResume t s2 = Some s3 \<and> status s3 t = Ready)"
    if r: "run T idle E s1 cs E' s2" "\<forall>c \<in> set cs. t \<notin> resumed_by c" for cs E' s2
  proof -
    have O: "operating T E' idle s2" by (rule run_operating [OF r(1) s1(2)])
    have "suspended s2 t" by (rule run_suspended [OF r(1) s1(2) t(1) s1(3) r(2)])
    then show ?thesis using suspended_state [OF O t(1)] resume_ready [OF O t(1)] by blast
  qed
  then show ?thesis using s1(1) by blast
qed

text \<open>C32: A notification is a binary or counting semaphore of one task. The running task that takes with an empty count blocks, for its ticks or
  for ever, and another task runs; a give that directly follows makes it ready again with a count of one, and when it runs the call returns
  one and leaves the count empty. The invariant holds throughout, so the task runs as soon as its priority is the highest.\<close>

theorem take_waits_for_give:
  assumes "operating T E idle s" "pxCurrentTCB s = t" "t \<noteq> idle" "ulNotifiedValue s t = 0" "n \<noteq> 0"
  shows "\<exists>s1 s2. notify_take_enter n s = Some s1 \<and> pxCurrentTCB s1 \<noteq> t \<and> status s1 t = block_status n True \<and>
    xTaskGenericNotify t v eIncrement s1 = Some (True, 0, s2) \<and> operating T E idle s2 \<and> status s2 t = Ready \<and> ulNotifiedValue s2 t = 1 \<and>
    (\<forall>env. pxCurrentTCB (env s1) = t \<and> ulNotifiedValue (env s1) = ulNotifiedValue s2 \<longrightarrow>
      (\<exists>s3. ulTaskNotifyTake env b n s = Some (1, s3) \<and> ulNotifiedValue s3 t = 0 \<and> ucNotifyState s3 t = taskNOT_WAITING_NOTIFICATION))"
proof -
  have c: "pxCurrentTCB s \<noteq> idle" using assms(2,3) by simp
  have t: "t \<in> T" using assms(1,2) by (auto simp: operating_def sound_def)
  from notify_block_spec(2) [OF assms(1) c assms(5)] assms(2,4) obtain s1 where
    s1: "notify_take_enter n s = Some s1" "operating T E idle s1" "status s1 t = block_status n True"
      "ucNotifyState s1 t = taskWAITING_NOTIFICATION" "ulNotifiedValue s1 = ulNotifiedValue s" by (auto simp: notify_take_enter_def)
  from increment_wakes [OF s1(2) t s1(4), of v] obtain s2 where
    s2: "xTaskGenericNotify t v eIncrement s1 = Some (True, 0, s2)" "operating T E idle s2" "status s2 t = Ready" "ulNotifiedValue s2 t = 1"
    using s1(5) assms(4) by auto
  have "status s1 (pxCurrentTCB s1) = Ready" by (rule operating_highest(2) [OF s1(2)])
  then have "pxCurrentTCB s1 \<noteq> t" using s1(3) by (auto simp: block_status_def split: if_splits)
  moreover have "\<exists>s3. ulTaskNotifyTake env b n s = Some (1, s3) \<and> ulNotifiedValue s3 t = 0 \<and> ucNotifyState s3 t = taskNOT_WAITING_NOTIFICATION"
    if "pxCurrentTCB (env s1) = t \<and> ulNotifiedValue (env s1) = ulNotifiedValue s2" for env
    using that s1(1) s2(4) by (simp add: ulTaskNotifyTake_def notify_take_exit_def Let_def set_notified_value_def set_notify_state_def)
  ultimately show ?thesis using s1(1,3) s2 by blast
qed

text \<open>The rules of the interface at the started kernel: the running task suspends another one.\<close>

lemma demo_suspend: "permitted {100, 200, 300, 400} {} 100 (Suspend 300) demo_started"
proof -
  have "ucNotifyState demo_started (pxCurrentTCB demo_started) = taskNOT_WAITING_NOTIFICATION"
    using demo_operating(1,2) unfolding operating_def sound_def own_priorities_def by blast
  then show ?thesis using demo_operating(3) by (simp add: permitted_def prvGetTCBFromHandle_def)
qed

theorem kernel_calls_safe_witness:
  "\<exists>s'. perform (Suspend 300) demo_started = Some s' \<and> operating {100, 200, 300, 400} {} 100 s'"
  using kernel_calls_safe [OF demo_operating(1) demo_suspend] by simp

theorem highest_always_runs_witness:
  "\<exists>s. run {100, 200, 300, 400} 100 {} demo_started [Suspend 300, Tick] {} s \<and> status s (pxCurrentTCB s) = Ready \<and>
    (\<forall>u \<in> {100, 200, 300, 400}. status s u = Ready \<longrightarrow> uxPriority s u \<le> uxPriority s (pxCurrentTCB s))"
proof -
  let ?T = "{100, 200, 300, 400 :: u32}"
  have T: "insert 100 (insert 200 (snd ` set demo_tasks)) = ?T" by (simp add: demo_tasks_def)
  obtain s0 where s0: "create_tasks demo_tasks demo_kernel = Some s0" "vTaskStartScheduler (Some 100) (Some 200) s0 = Some (True, demo_started)"
    using demo_operating(4) by blast
  obtain s1 where s1: "perform (Suspend 300) demo_started = Some s1" "operating ?T {} 100 s1"
    using perform_outcome [OF demo_operating(1) demo_suspend] by (auto simp: outcome_def)
  have p: "permitted ?T {} 100 Tick s1" by (simp add: permitted_def)
  obtain s2 where s2: "perform Tick s1 = Some s2" using perform_outcome [OF s1(2) p] by (auto simp: outcome_def)
  have "run ?T 100 {} demo_started [Suspend 300] {} s1" using run_call [OF run_none demo_suspend s1(1)] by simp
  from run_call [OF this p s2] have r: "run ?T 100 {} demo_started [Suspend 300, Tick] {} s2" by simp
  have d: "distinct (100 # 200 # map snd demo_tasks)" "0 \<notin> ?T" by (simp_all add: demo_tasks_def)
  from highest_always_runs [where s = demo_kernel and ts = demo_tasks and idle = 100 and timer = 200, unfolded T, OF demo_places(1,2) d s0 r]
  show ?thesis using r by blast
qed

theorem suspended_until_resumed_witness:
  "\<exists>s1 s2 s3. vTaskSuspend 300 demo_started = Some s1 \<and> perform Tick s1 = Some s2 \<and> eTaskGetState 300 s2 = eSuspended \<and>
    vTaskResume 300 s2 = Some s3 \<and> status s3 300 = Ready"
proof -
  let ?T = "{100, 200, 300, 400 :: u32}"
  have h: "prvGetTCBFromHandle 300 demo_started = 300" "300 \<in> ?T - {100}" by (simp_all add: prvGetTCBFromHandle_def)
  obtain s1 where s1: "vTaskSuspend 300 demo_started = Some s1" "operating ?T {} 100 s1"
    using perform_outcome [OF demo_operating(1) demo_suspend] by (auto simp: outcome_def)
  have p: "permitted ?T {} 100 Tick s1" by (simp add: permitted_def)
  obtain s2 where s2: "perform Tick s1 = Some s2" using perform_outcome [OF s1(2) p] by (auto simp: outcome_def)
  have "run ?T 100 {} s1 [Tick] {} s2" using run_call [OF run_none p s2] by simp
  then show ?thesis using suspended_until_resumed [OF demo_operating(1) h] demo_operating(3) s1(1) s2 by fastforce
qed

lemma demo_timer_runs: "pxCurrentTCB demo_started \<noteq> 100" "ulNotifiedValue demo_started (pxCurrentTCB demo_started) = 0"
proof -
  obtain s0 where s0: "create_tasks demo_tasks demo_kernel = Some s0" "vTaskStartScheduler (Some 100) (Some 200) s0 = Some (True, demo_started)"
    using demo_operating(4) by blast
  have n: "own_priorities {} s" for s by (simp add: own_priorities_def)
  obtain a r b r' where ab: "xTaskCreate 3 (Some 300) demo_kernel = Some (r, a)" "xTaskCreate 5 (Some 400) a = Some (r', s0)"
    using s0(1) by (auto simp: demo_tasks_def split: bind_splits)
  obtain c d where cd: "xTaskCreate 0 (Some 100) s0 = Some (True, c)" "xTaskCreate configTIMER_TASK_PRIORITY (Some 200) c = Some (True, d)"
    "demo_started = d\<lparr>xNextTaskUnblockTime := portMAX_DELAY, xSchedulerRunning := True, xTickCount := 0\<rparr>"
    using s0(2) by (auto simp: vTaskStartScheduler_def split: bind_splits if_splits)
  note m = create_members(2,3) [OF ab(1) n] create_members(2,3) [OF ab(2) n] create_members(2,3) [OF cd(1) n] create_members(2,3) [OF cd(2) n]
  have p: "uxPriority demo_started 200 = 7" "uxPriority demo_started 100 = 0" "\<forall>t \<in> {100, 200, 300, 400}. ulNotifiedValue demo_started t = 0"
    using m by (simp_all add: cd(3))
  have "status demo_started 200 = Ready" using demo_started_scheduled(2) by (simp add: status_def)
  from operating_highest(3) [OF demo_operating(1) _ this] p(1,2) show "pxCurrentTCB demo_started \<noteq> 100" by auto
  show "ulNotifiedValue demo_started (pxCurrentTCB demo_started) = 0" using p(3) operating_highest(1) [OF demo_operating(1)] by blast
qed

theorem take_waits_for_give_witness:
  "\<exists>s1 s2. notify_take_enter portMAX_DELAY demo_started = Some s1 \<and> pxCurrentTCB s1 \<noteq> pxCurrentTCB demo_started \<and>
    xTaskGenericNotify (pxCurrentTCB demo_started) 0 eIncrement s1 = Some (True, 0, s2) \<and> status s2 (pxCurrentTCB demo_started) = Ready"
  using take_waits_for_give [OF demo_operating(1) refl demo_timer_runs, where n = portMAX_DELAY] by fastforce

end
