(* ===== verification/Rtos_Life.thy ===== *)
theory Rtos_Life
  imports Rtos_Run Heap4
begin

unbundle bit_operations_syntax

text \<open>
  Creation and deletion of tasks while the kernel runs, with their memory: \<^verbatim>\<open>xTaskCreate\<close>, \<^verbatim>\<open>vTaskDelete\<close> and the idle task
  of \<^verbatim>\<open>src/ns_guest/lib/freertos/tasks.c\<close> on the heap of \<open>Heap4\<close>. A task that deletes another frees its stack and
  control block at once; one that deletes itself leaves them to the idle task. The calls of \<open>Rtos_Run\<close>, the
  creation and deletion of tasks and the application's own use of the heap are the steps of a relation, whose
  invariant says who owns which block. The heap's functions are atomic, as in \<open>Heap4\<close>; the hooks and trace
  macros are empty in this port.
\<close>

section \<open>Tasks and their memory\<close>

text \<open>The kernel, the member \<open>pxStack\<close> of the control blocks, the count of the deleted tasks whose memory is not freed yet, and the heap.
  A control block has 88 bytes: with ten characters of name, the trace and mutex members and the notification.\<close>

record task_system =
  kn :: kernel
  pxStack :: "u32 \<Rightarrow> u32"
  uxDeletedTasksWaitingCleanUp :: u32
  hp :: heap

abbreviation sizeof_TCB :: u32 where "sizeof_TCB \<equiv> 88"

text \<open>The memory of a new task: first the stack, then the control block, so that the stack does not grow into it. The result is the
  control block, null when there was not enough memory, and then nothing is kept.\<close>

definition create_memory :: "u32 \<Rightarrow> u32 \<Rightarrow> u32 \<Rightarrow> task_system \<Rightarrow> (u32 \<times> task_system) option" where
  "create_memory xStart ucHeap usStackDepth s =
     do { (stack, h) \<leftarrow> pvPortMalloc xStart ucHeap (usStackDepth * 4) (hp s);
          if stack \<noteq> NULL
          then do { (pxNewTCB, h) \<leftarrow> pvPortMalloc xStart ucHeap sizeof_TCB h;
                    if pxNewTCB \<noteq> NULL
                    then Some (pxNewTCB, s\<lparr>hp := h, pxStack := (pxStack s)(pxNewTCB := stack)\<rparr>)
                    else do { h \<leftarrow> vPortFree xStart stack h; Some (pxNewTCB, s\<lparr>hp := h\<rparr>) } }
          else Some (NULL, s\<lparr>hp := h\<rparr>) }"

text \<open>The whole of \<open>xTaskCreate\<close>: its result, the handle, and the state.\<close>

definition task_create :: "u32 \<Rightarrow> u32 \<Rightarrow> u32 \<Rightarrow> u32 \<Rightarrow> task_system \<Rightarrow> (bool \<times> u32 \<times> task_system) option" where
  "task_create xStart ucHeap prio usStackDepth s =
     do { (pxNewTCB, s) \<leftarrow> create_memory xStart ucHeap usStackDepth s;
          (xReturn, k) \<leftarrow> xTaskCreate prio (if pxNewTCB \<noteq> NULL then Some pxNewTCB else None) (kn s);
          Some (xReturn, pxNewTCB, s\<lparr>kn := k\<rparr>) }"

definition prvDeleteTCB :: "u32 \<Rightarrow> u32 \<Rightarrow> task_system \<Rightarrow> task_system option" where
  "prvDeleteTCB xStart pxTCB s =
     do { h \<leftarrow> vPortFree xStart (pxStack s pxTCB) (hp s);
          h \<leftarrow> vPortFree xStart pxTCB h;
          Some (s\<lparr>hp := h\<rparr>) }"

definition vTaskDelete :: "u32 \<Rightarrow> u32 \<Rightarrow> task_system \<Rightarrow> task_system option" where
  "vTaskDelete xStart xTaskToDelete s =
     do { let pxTCB = prvGetTCBFromHandle xTaskToDelete (kn s);
          let k = remove_from_ready pxTCB (kn s);
          let k = (if pxContainer (kl k) (xEventListItem pxTCB) \<noteq> 0 then list_remove (xEventListItem pxTCB) k else k);
          let k = k\<lparr>uxTaskNumber := uxTaskNumber k + 1\<rparr>;
          s \<leftarrow> (if pxTCB = pxCurrentTCB k
               then let k = k\<lparr>kl := vListInsertEnd (xTasksWaitingTermination k) (xStateListItem pxTCB) (kl k)\<rparr>
                    in Some (s\<lparr>kn := k, uxDeletedTasksWaitingCleanUp := uxDeletedTasksWaitingCleanUp s + 1\<rparr>)
               else do { let k = k\<lparr>uxCurrentNumberOfTasks := uxCurrentNumberOfTasks k - 1\<rparr>;
                         s \<leftarrow> prvDeleteTCB xStart pxTCB (s\<lparr>kn := k\<rparr>);
                         Some (s\<lparr>kn := prvResetNextTaskUnblockTime (kn s)\<rparr>) });
          if xSchedulerRunning (kn s) \<and> pxTCB = pxCurrentTCB (kn s)
          then do { k \<leftarrow> vTaskSwitchContext (kn s); Some (s\<lparr>kn := k\<rparr>) }
          else Some s }"

section \<open>The idle task\<close>

text \<open>The critical section of the loop, and the loop.\<close>

definition terminate_head :: "task_system \<Rightarrow> u32 \<times> task_system" where
  "terminate_head s =
     (let k = kn s; pxTCB = listGET_OWNER_OF_HEAD_ENTRY (xTasksWaitingTermination k) (kl k);
          k = list_remove (xStateListItem pxTCB) k;
          k = k\<lparr>uxCurrentNumberOfTasks := uxCurrentNumberOfTasks k - 1\<rparr>
      in (pxTCB, s\<lparr>kn := k, uxDeletedTasksWaitingCleanUp := uxDeletedTasksWaitingCleanUp s - 1\<rparr>))"

partial_function (option) prvCheckTasksWaitingTermination :: "u32 \<Rightarrow> task_system \<Rightarrow> task_system option" where
  "prvCheckTasksWaitingTermination xStart s =
     (if uxDeletedTasksWaitingCleanUp s > 0
      then do { let (pxTCB, s) = terminate_head s;
                s \<leftarrow> prvDeleteTCB xStart pxTCB s;
                prvCheckTasksWaitingTermination xStart s }
      else Some s)"

text \<open>One pass of the loop of \<open>prvIdleTask\<close>: with time slicing the idle task yields to others of its priority.\<close>

definition idle_pass :: "u32 \<Rightarrow> task_system \<Rightarrow> task_system option" where
  "idle_pass xStart s =
     do { s \<leftarrow> prvCheckTasksWaitingTermination xStart s;
          if listCURRENT_LIST_LENGTH (ready_list (kn s) 0) (kl (kn s)) > 1
          then do { k \<leftarrow> vTaskSwitchContext (kn s); Some (s\<lparr>kn := k\<rparr>) }
          else Some s }"

section \<open>The kernel without a task\<close>

text \<open>A task that is in no list may be forgotten.\<close>

lemma waiting_forget:
  assumes W: "waiting T E s G" and z: "pxContainer (kl s) (xStateListItem t) = 0" "pxContainer (kl s) (xEventListItem t) = 0"
  shows "waiting (T - {t}) E s G"
proof -
  note D = waitingD [OF W]
  note K = kcoreD [OF D(2)]
  let ?U = "T - {t}"
  have sub: "items ?U \<subseteq> items T" "xStateListItem ` ?U \<subseteq> xStateListItem ` T" "xEventListItem ` ?U \<subseteq> xEventListItem ` T"
    by (auto simp: items_def)
  have "set (G l) \<subseteq> items ?U" if l: "l \<in> state_lists s \<union> event_lists E s" for l
  proof
    fix x assume x: "x \<in> set (G l)"
    have "pxContainer (kl s) x = l" "x \<in> items T" using rings_container [OF K(1) l x] by blast+
    moreover have "l \<noteq> 0" using l rings_D(1) [OF K(1)] by blast
    ultimately show "x \<in> items ?U" using z by (auto simp: items_def)
  qed
  then have R: "rings (state_lists s \<union> event_lists E s) (items ?U) (kl s) G" using K(1) sub(1) unfolding rings_def by blast
  have L: "layout ?U E s" using K(2) sub(2,3) unfolding layout_def by blast
  have "kcore ?U E s G" using D(2) R L unfolding kcore_def by blast
  then show ?thesis using D(3-5) unfolding waiting_def kinv_def event_order_def by blast
qed

lemma forget_sound:
  assumes S: "sound T E idle s" and t: "t \<in> T" "t \<noteq> idle" "t \<noteq> pxCurrentTCB s" and W: "waiting T E s' G" and fr: "kframe s s'"
    and C: "\<forall>y \<in> items T. pxContainer (kl s') y = (if y \<in> {xStateListItem t, xEventListItem t} then 0 else pxContainer (kl s) y)"
  shows "sound (T - {t}) E idle s'" "highest_ready T s (pxCurrentTCB s) \<Longrightarrow> highest_ready (T - {t}) s' (pxCurrentTCB s')"
    "kept_tasks (T - {t}) s s'"
proof -
  note c = bspec [OF C] and D = soundD [OF S] and F = kframe_fields [OF fr] and R = kframe_rest [OF fr, unfolded same_rest_def]
  note K = waitingD(2) [OF W]
  have ne: "xStateListItem u \<noteq> xEventListItem v" if "u \<in> T" "v \<in> T" for u v using layout_items [OF kcoreD(2) [OF K] that] .
  have st: "pxContainer (kl s') (xStateListItem u) = pxContainer (kl s) (xStateListItem u)"
    and ev: "pxContainer (kl s') (xEventListItem u) = pxContainer (kl s) (xEventListItem u)" if "u \<in> T - {t}" for u
    using c [OF items_in(1)] c [OF items_in(2)] ne [OF t(1), of u] ne [OF _ t(1), of u] that by auto
  have z: "pxContainer (kl s') (xStateListItem t) = 0" "pxContainer (kl s') (xEventListItem t) = 0" using c items_in [OF t(1)] by simp_all
  have W': "waiting (T - {t}) E s' G" by (rule waiting_forget [OF W z])
  have g: "gone s' u = gone s u" if "u \<in> T - {t}" for u using st [OF that] R by (simp add: gone_def)
  show "kept_tasks (T - {t}) s s'" by (rule rest_tasks [OF kframe_rest [OF fr] g])
  have "quiet (T - {t}) s'" using D(2) ev by (auto simp: quiet_def F)
  moreover have "task_ready s' idle" using st [of idle] D(3,5) t(2) by (simp add: task_ready_def F)
  ultimately show "sound (T - {t}) E idle s'"
    unfolding sound_def using W' D(3,4,6-10) D(11) st ev g t(2,3) R by (auto simp: F)
  show "highest_ready (T - {t}) s' (pxCurrentTCB s')" if "highest_ready T s (pxCurrentTCB s)"
    using that st [of "pxCurrentTCB s"] st t(3) unfolding highest_ready_def F by auto
qed

text \<open>The memory of tasks is freed in two places: when a task deletes another, and for a task that has deleted itself.\<close>

lemma leave_forget:
  assumes S: "sound T E idle s" and t: "t \<in> T" "t \<noteq> idle" "t \<noteq> pxCurrentTCB s"
  shows "sound (T - {t}) E idle (leave_lists t s)"
    "highest_ready T s (pxCurrentTCB s) \<Longrightarrow> highest_ready (T - {t}) (leave_lists t s) (pxCurrentTCB (leave_lists t s))"
    "kept_tasks (T - {t}) s (leave_lists t s)"
proof -
  obtain G where W: "waiting T E s G" by (rule sound_kcore [OF S])
  note L = leave_lists_spec [OF W t(1) soundD(9) [OF S t(1)]]
  obtain G' where W': "waiting T E (leave_lists t s) G'" using L(1) by blast
  have C: "\<forall>y \<in> items T. pxContainer (kl (leave_lists t s)) y = (if y \<in> {xStateListItem t, xEventListItem t} then 0 else pxContainer (kl s) y)"
    using L(4) by blast
  note M = forget_sound [OF S t W' L(2) C]
  show "sound (T - {t}) E idle (leave_lists t s)" by (rule M(1))
  show "highest_ready (T - {t}) (leave_lists t s) (pxCurrentTCB (leave_lists t s))" if "highest_ready T s (pxCurrentTCB s)" by (rule M(2) [OF that])
  show "kept_tasks (T - {t}) s (leave_lists t s)" by (rule M(3))
qed

lemma gone_forget:
  assumes O: "operating T E idle s" and t: "t \<in> T" "gone s t"
  defines "s' \<equiv> list_remove (xStateListItem t) s"
  shows "operating (T - {t}) E idle s'" "kept_tasks (T - {t}) s s'" "t \<noteq> idle" "t \<noteq> pxCurrentTCB s"
proof -
  have S: "sound T E idle s" and H: "highest_ready T s (pxCurrentTCB s)" using O by (simp_all add: operating_def)
  note D = soundD [OF S]
  obtain G where W: "waiting T E s G" and K: "kcore T E s G" by (rule sound_kcore [OF S])
  let ?l = "xTasksWaitingTermination s" and ?x = "xStateListItem t"
  have ni: "t \<noteq> idle" using ready_present [OF K D(3,5)] t(2) by auto
  have nc: "t \<noteq> pxCurrentTCB s" using ready_present [OF K D(6)] t(2) H by (auto simp: highest_ready_def task_ready_def)
  show "t \<noteq> idle" "t \<noteq> pxCurrentTCB s" by (fact ni, fact nc)
  have cl: "pxContainer (kl s) ?x = ?l" using t(2) by (simp add: gone_def)
  have e0: "pxContainer (kl s) (xEventListItem t) = 0" using D(11) [OF t] by simp
  note P = parked_list [OF K, of ?l, simplified]
  have nr: "?l \<notin> ready_lists s" using P(1) by simp
  note A = kcore_remove [OF K items_in(1) [OF t(1)] cl P(3) nr, folded s'_def]
  let ?G = "G(?l := remove1 ?x (G ?l))"
  have C: "\<forall>y \<in> items T. pxContainer (kl s') y = (if y \<in> {?x, xEventListItem t} then 0 else pxContainer (kl s) y)"
    using A(4) e0 by simp
  note cont = bspec [OF C]
  have sub: "set (?G j) \<subseteq> set (G j)" for j by (simp add: set_remove1_subset)
  have "waiting T E s' ?G"
  proof (rule waiting_moved [OF W A(1-3) sub thinned_remove1])
    fix u assume u: "u \<in> T" "pxContainer (kl s') (xEventListItem u) \<in> event_lists E s"
    have "0 \<notin> event_lists E s" using rings_D(1) [OF kcoreD(1) [OF K]] by blast
    then have "pxContainer (kl s) (xEventListItem u) \<in> event_lists E s" "u \<noteq> t"
      using u(2) cont [OF items_in(2) [OF u(1)]] by (auto split: if_splits)
    then show "pxContainer (kl s') (xStateListItem u) \<in> state_lists s - ready_lists s"
      using waitingD(5) [OF W u(1)] cont [OF items_in(1) [OF u(1)]] layout_items [OF kcoreD(2) [OF K] u(1) t(1)] by simp
  qed
  note M = forget_sound [OF S t(1) ni nc this A(2) C]
  show "operating (T - {t}) E idle s'" using M(1,2) H by (simp add: operating_def)
  show "kept_tasks (T - {t}) s s'" by (fact M(3))
qed

text \<open>Counters that the invariant does not see, and the next unblock time.\<close>

lemma operating_counters:
  "operating T E idle (s\<lparr>uxTaskNumber := n\<rparr>) = operating T E idle s" "operating T E idle (s\<lparr>uxCurrentNumberOfTasks := n\<rparr>) = operating T E idle s"
  "sound T E idle (s\<lparr>uxTaskNumber := n\<rparr>) = sound T E idle s" "sound T E idle (s\<lparr>uxCurrentNumberOfTasks := n\<rparr>) = sound T E idle s"
  "gone (s\<lparr>uxTaskNumber := n\<rparr>) = gone s" "gone (s\<lparr>uxCurrentNumberOfTasks := n\<rparr>) = gone s"
  by (simp_all add: operating_def sound_def waiting_def kinv_def kcore_cong_more ktime_def event_order_def waiting_order_def event_lists_def
      state_lists_def ready_lists_def ready_list_def quiet_def task_ready_def gone_def highest_ready_def fun_eq_iff)

lemma kernel_lists_counters:
  "kernel_lists E (s\<lparr>uxTaskNumber := n\<rparr>) = kernel_lists E s" "kernel_lists E (s\<lparr>uxCurrentNumberOfTasks := n\<rparr>) = kernel_lists E s"
  by (simp_all add: kernel_lists_def state_lists_def event_lists_def ready_lists_def ready_list_def)

lemma operating_next:
  assumes O: "operating T E idle s"
  shows "operating T E idle (prvResetNextTaskUnblockTime s)" "kept_tasks T s (prvResetNextTaskUnblockTime s)"
proof -
  have S: "sound T E idle s" and H: "highest_ready T s (pxCurrentTCB s)" using O by (simp_all add: operating_def)
  obtain n where n: "prvResetNextTaskUnblockTime s = s\<lparr>xNextTaskUnblockTime := n\<rparr>" "sound T E idle (s\<lparr>xNextTaskUnblockTime := n\<rparr>)"
    by (rule sound_next [OF S])
  show "operating T E idle (prvResetNextTaskUnblockTime s)" using n H by (simp add: operating_def highest_updates)
  show "kept_tasks T s (prvResetNextTaskUnblockTime s)" by (simp add: n(1) kept_tasks_updates)
qed

text \<open>A task that deletes itself is put into the list of those that wait for termination.\<close>

lemma terminate_sound:
  assumes O: "operating T E idle s" and t: "pxCurrentTCB s = t" "t \<noteq> idle" "ucNotifyState s t \<noteq> taskWAITING_NOTIFICATION"
  defines "k \<equiv> leave_lists t s"
  defines "s' \<equiv> k\<lparr>kl := vListInsertEnd (xTasksWaitingTermination s) (xStateListItem t) (kl k)\<rparr>"
  shows "sound T E idle s'" "pxCurrentTCB s' = t" "same_rest s s'" "kframe s s'" "\<And>u. u \<in> T \<Longrightarrow> gone s' u \<longleftrightarrow> gone s u \<or> u = t"
proof -
  have S: "sound T E idle s" using O by (simp_all add: operating_def)
  note D = soundD [OF S]
  have tT: "t \<in> T" using D(6) t(1) by simp
  obtain G where W: "waiting T E s G" and K: "kcore T E s G" by (rule sound_kcore [OF S])
  let ?l = "xTasksWaitingTermination s"
  note L = leave_lists_spec [OF W tT D(9) [OF tT], folded k_def]
  obtain G1 where W1: "waiting T E k G1" using L(1) by blast
  have l: "?l \<in> {xSuspendedTaskList k, xTasksWaitingTermination k}" using kframe_rest [OF L(2)] by (simp add: same_rest_def)
  have z: "pxContainer (kl k) (xStateListItem t) = 0" "pxContainer (kl k) (xEventListItem t) = 0" using L(4) items_in [OF tT] by simp_all
  note P = park_spec [OF W1 tT z l, folded s'_def]
  obtain G2 where W2: "waiting T E s' G2" using P(1) by blast
  show fr: "kframe s s'" by (rule kframe_trans [OF L(2) P(2)])
  note F = kframe_fields [OF fr]
  show rest: "same_rest s s'" by (rule kframe_rest [OF fr])
  note R = rest [unfolded same_rest_def]
  show "pxCurrentTCB s' = t" using t(1) F(7) by simp
  have ne: "xStateListItem u \<noteq> xEventListItem v" if "u \<in> T" "v \<in> T" for u v by (rule layout_items [OF kcoreD(2) [OF K] that])
  have st: "pxContainer (kl s') (xStateListItem u) = (if u = t then ?l else pxContainer (kl s) (xStateListItem u))" if "u \<in> T" for u
    using P(4) [OF items_in(1) [OF that]] L(4) [OF items_in(1) [OF that]] ne [OF that tT] by simp
  have ev: "pxContainer (kl s') (xEventListItem u) = (if u = t then 0 else pxContainer (kl s) (xEventListItem u))" if "u \<in> T" for u
    using P(4) [OF items_in(2) [OF that]] L(4) [OF items_in(2) [OF that]] ne [OF tT that] by (metis empty_iff insert_iff item_ne(2))
  show g: "gone s' u \<longleftrightarrow> gone s u \<or> u = t" if "u \<in> T" for u using st [OF that] R by (simp add: gone_def)
  have p0: "xPendingReadyList s \<noteq> 0" by (rule sound_kcore [OF S])
  have l0: "?l \<noteq> 0" using parked_list(3) [OF K, of ?l] by simp
  have st0: "\<forall>u \<in> T. pxContainer (kl s') (xStateListItem u) \<noteq> 0" using st D(9) l0 by simp
  have q: "quiet T s'" using D(2) ev p0 by (simp add: quiet_def F)
  have i: "task_ready s' idle" using st [OF D(3)] D(5) t(2) by (simp add: task_ready_def F)
  have n: "\<forall>u \<in> T. ucNotifyState s' u = taskWAITING_NOTIFICATION \<longrightarrow> pxContainer (kl s') (xEventListItem u) = 0" using ev D(10) R by simp
  have d: "\<forall>u \<in> T. gone s' u \<longrightarrow> pxContainer (kl s') (xEventListItem u) = 0 \<and> ucNotifyState s' u \<noteq> taskWAITING_NOTIFICATION"
    using ev D(11) g t(3) R by auto
  have b: "\<forall>u \<in> T. uxBasePriority s' u = uxPriority s' u" using D(8) R by (simp add: F)
  show "sound T E idle s'" unfolding sound_def using W2 q i st0 n d b D(3,4,6,7) R by (auto simp: F)
qed

section \<open>A new task while the scheduler runs\<close>

lemma initialise_waiting:
  fixes p :: u32
  assumes W: "waiting T E s G" and P: "places (insert t T) E s" "t \<notin> T"
  defines "s' \<equiv> prvInitialiseNewTask p t s"
  shows "waiting (insert t T) E s' G" "new_task t s'"
    "\<And>y. y \<in> items T \<Longrightarrow> pxContainer (kl s') y = pxContainer (kl s) y"
proof -
  note D = waitingD [OF W] and A = places_apart [OF P]
  note i = initialise_new(1) [OF A(3), of p s, folded s'_def] initialise_new(2) [OF A(3), of s p, folded s'_def]
  note F = same_places_fields [OF i(2)]
  show N: "new_task t s'" by (rule i(1))
  have P': "places (insert t T) E s'" using P(1) F(7) by simp
  have out: "x \<noteq> xStateListItem t" "x \<noteq> xEventListItem t" if "x \<in> items T" for x using A(1) that by blast+
  show old: "pxContainer (kl s') y = pxContainer (kl s) y" if "y \<in> items T" for y using out [OF that] by (simp add: s'_def initialise_new_fields)
  have val: "xItemValue (kl s') y = xItemValue (kl s) y" if "y \<in> items T" for y using out [OF that] by (simp add: s'_def initialise_new_fields)
  have K': "kcore (insert t T) E s' G"
    by (rule kcore_enter [OF initialise_new_kcore [OF D(2) P, of p, folded s'_def] P' P(2) N])
  have sub: "set (G j) \<subseteq> items T" if "j \<in> state_lists s \<union> event_lists E s" for j by (rule rings_D(3) [OF kcoreD(1) [OF D(2)] that])
  note dl = delayed_lists [OF D(2)]
  have same: "xTickCount s' = xTickCount s" "xNextTaskUnblockTime s' = xNextTaskUnblockTime s" "pxDelayedTaskList s' = pxDelayedTaskList s"
    "pxOverflowDelayedTaskList s' = pxOverflowDelayedTaskList s" by (simp_all add: s'_def initialise_new_fields)
  have "set (G (pxDelayedTaskList s)) \<subseteq> items T" "set (G (pxOverflowDelayedTaskList s)) \<subseteq> items T" using sub dl by blast+
  moreover have "\<forall>x \<in> set (G j). xItemValue (kl s') x = xItemValue (kl s) x" if "set (G j) \<subseteq> items T" for j using val that by blast
  ultimately have T': "ktime s' G" using D(3) unfolding ktime_def same by auto
  have ord: "event_order (insert t T) E s' G"
    unfolding event_order_def
  proof (intro conjI ballI)
    show "xItemValue (kl s') (xEventListItem u) = configMAX_PRIORITIES - uxPriority s' u" if "u \<in> insert t T" for u
    proof (cases "u = t")
      case True
      then show ?thesis using N by (simp add: new_task_def)
    next
      case False
      then have u: "u \<in> T" using that by simp
      have "uxPriority s' u = uxPriority s u" using False by (simp add: s'_def initialise_new_fields)
      then show ?thesis using val [OF items_in(2) [OF u]] D(4) u by (simp add: event_order_def)
    qed
    show "waiting_order s' G l" if l: "l \<in> E" for l
    proof -
      have "set (G l) \<subseteq> items T" using sub l by (simp add: event_lists_def)
      then have e: "map (xItemValue (kl s')) (G l) = map (xItemValue (kl s)) (G l)" using val by auto
      show ?thesis unfolding waiting_order_def e using D(4) l by (simp add: event_order_def waiting_order_def)
    qed
  qed
  have z: "0 \<notin> event_lists E s" using rings_D(1) [OF kcoreD(1) [OF D(2)]] by blast
  have "pxContainer (kl s') (xStateListItem u) \<in> state_lists s' - ready_lists s'"
    if u: "u \<in> insert t T" "pxContainer (kl s') (xEventListItem u) \<in> event_lists E s'" for u
  proof -
    have "u \<noteq> t" using u(2) N z unfolding F by (auto simp: new_task_def)
    then have uT: "u \<in> T" using u(1) by simp
    show ?thesis using D(5) [OF uT] u(2) old [OF items_in(1) [OF uT]] old [OF items_in(2) [OF uT]] unfolding F by simp
  qed
  then show "waiting (insert t T) E s' G" using K' T' ord by (simp add: waiting_def kinv_def)
qed

text \<open>Where the kernel's lists lie, and the number of tasks; what creation and deletion keep or count.\<close>

definition same_addresses :: "kernel \<Rightarrow> kernel \<Rightarrow> bool" where
  "same_addresses s s' \<longleftrightarrow> (\<forall>E. kernel_lists E s' = kernel_lists E s) \<and> xTasksWaitingTermination s' = xTasksWaitingTermination s"

lemma tasks_addresses: "kept_tasks T s s' \<Longrightarrow> same_addresses s s'"
  by (simp add: kept_tasks_def same_addresses_def kernel_lists_def state_lists_def event_lists_def ready_lists_def ready_list_def)

lemma create_operating:
  assumes O: "operating T E idle s" and P: "places (insert t T) E s" "t \<notin> T"
  shows "\<exists>s'. xTaskCreate p (Some t) s = Some (True, s') \<and> operating (insert t T) E idle s' \<and> same_addresses s s' \<and>
    uxCurrentNumberOfTasks s' = uxCurrentNumberOfTasks s + 1 \<and> (\<forall>u \<in> T. gone s' u = gone s u) \<and> \<not> gone s' t \<and>
    uxPriority s' t = (if p \<ge> configMAX_PRIORITIES then configMAX_PRIORITIES - 1 else p)"
proof -
  have S: "sound T E idle s" and H: "highest_ready T s (pxCurrentTCB s)" using O by (simp_all add: operating_def)
  note D = soundD [OF S]
  obtain G where W: "waiting T E s G" and K: "kcore T E s G" and p0: "xPendingReadyList s \<noteq> 0" by (rule sound_kcore [OF S])
  define s1 where "s1 = prvInitialiseNewTask p t s"
  note I = initialise_waiting [OF W P, where p = p, folded s1_def]
  note A = places_apart [OF P]
  note N = I(2) [unfolded new_task_def]
  have W1: "waiting (insert t T) E s1 G" by (rule I(1))
  note E1 = enter_ready_spec [OF W1 insertI1]
  define s2 where "s2 = prvAddTaskToReadyList t s1"
  have z: "pxContainer (kl s1) (xStateListItem t) = 0" "pxContainer (kl s1) (xEventListItem t) = 0" using N by simp_all
  note B = E1 [OF z, folded s2_def]
  note F = kframe_fields [OF B(2)] and R = kframe_rest [OF B(2), unfolded same_rest_def]
  obtain G2 where W2: "waiting (insert t T) E s2 G2" using B(1) by blast
  have i: "same_places s s1" unfolding s1_def by (rule initialise_new(2) [OF A(3)])
  note Q = same_places_fields [OF i]
  let ?q = "if p \<ge> configMAX_PRIORITIES then configMAX_PRIORITIES - 1 else p"
  have f1: "uxPriority s1 = (uxPriority s)(t := ?q)" "uxBasePriority s1 = (uxBasePriority s)(t := ?q)" "pxCurrentTCB s1 = pxCurrentTCB s"
    "ucNotifyState s1 = (ucNotifyState s)(t := 0)" "xSchedulerRunning s1 = xSchedulerRunning s" "uxSchedulerSuspended s1 = uxSchedulerSuspended s"
    "uxPendedTicks s1 = uxPendedTicks s" "uxCurrentNumberOfTasks s1 = uxCurrentNumberOfTasks s"
    by (simp_all add: s1_def initialise_new_fields)
  have ne: "u \<noteq> t" if "u \<in> T" for u using that P(2) by blast
  have "xStateListItem u \<noteq> xEventListItem v" if "u \<in> insert t T" "v \<in> insert t T" for u v
    by (rule layout_items [OF kcoreD(2) [OF waitingD(2) [OF W1]] that])
  note ie = this
  have st: "pxContainer (kl s2) (xStateListItem u) = (if u = t then ready_list s ?q else pxContainer (kl s) (xStateListItem u))"
    and ev: "pxContainer (kl s2) (xEventListItem u) = (if u = t then 0 else pxContainer (kl s) (xEventListItem u))" if u: "u \<in> insert t T" for u
  proof -
    have "pxContainer (kl s1) (xStateListItem u) = pxContainer (kl s) (xStateListItem u)"
      "pxContainer (kl s1) (xEventListItem u) = pxContainer (kl s) (xEventListItem u)" if "u \<noteq> t"
      using I(3) items_in [of u T] u that by auto
    then show "pxContainer (kl s2) (xStateListItem u) = (if u = t then ready_list s ?q else pxContainer (kl s) (xStateListItem u))"
      "pxContainer (kl s2) (xEventListItem u) = (if u = t then 0 else pxContainer (kl s) (xEventListItem u))"
      using B(4) [OF items_in(1) [OF u]] B(4) [OF items_in(2) [OF u]] ie [OF insertI1 u] z(2) f1(1) Q(1) by (auto simp del: item_ne) (simp_all)
  qed
  have q8: "?q < 8" by (simp add: not_le)
  then have rq: "ready_list s ?q \<in> ready_lists s" by (simp add: ready_lists_def)
  note nr = ready_not(1,2) [OF K rq]
  have rl: "ready_list s2 = ready_list s" using F(4) Q(1) by simp
  have T0: "xTasksWaitingTermination s2 = xTasksWaitingTermination s" using R i by (simp add: same_places_def)
  have pr: "uxPriority s2 u = (if u = t then ?q else uxPriority s u)" for u using F(6) f1(1) by simp
  have nn: "t \<noteq> idle" "t \<noteq> pxCurrentTCB s" using D(3,6) P(2) by blast+
  have pn: "xPendingReadyList s2 = xPendingReadyList s" using F(15) i by (simp add: same_places_def)
  have gn: "gone s2 u \<longleftrightarrow> gone s u \<and> u \<noteq> t" if "u \<in> insert t T" for u using st [OF that] nr(2) T0 by (auto simp: gone_def)
  have "quiet (insert t T) s2" using D(2) ev F(12,17) f1(6,7) p0 by (auto simp: quiet_def pn)
  moreover have "task_ready s2 idle" using st [of idle] D(3,5) nn(1) pr [of idle] rl by (simp add: task_ready_def)
  moreover have "0 \<notin> insert t T" using P(1) by (simp add: places_def)
  moreover have "\<forall>u \<in> insert t T. uxBasePriority s2 u = uxPriority s2 u" using pr D(8) R f1(2) by simp
  moreover have "\<forall>u \<in> insert t T. pxContainer (kl s2) (xStateListItem u) \<noteq> 0" using st nr(1) D(9) by auto
  moreover have "\<forall>u \<in> insert t T. ucNotifyState s2 u = taskWAITING_NOTIFICATION \<longrightarrow> pxContainer (kl s2) (xEventListItem u) = 0"
    using ev D(10) R f1(4) by auto
  moreover have "\<forall>u \<in> insert t T. gone s2 u \<longrightarrow> pxContainer (kl s2) (xEventListItem u) = 0 \<and> ucNotifyState s2 u \<noteq> taskWAITING_NOTIFICATION"
    using ev gn D(11) R f1(4) by auto
  moreover have "pxCurrentTCB s2 = pxCurrentTCB s" "xSchedulerRunning s2" using F(7) R f1(3,5) D(7) by simp_all
  ultimately have S2: "sound (insert t T) E idle s2" unfolding sound_def using W2 D(3,6) by auto
  let ?s3 = "s2\<lparr>uxCurrentNumberOfTasks := uxCurrentNumberOfTasks s + 1, uxTaskNumber := uxTaskNumber s + 1\<rparr>"
  have S3: "sound (insert t T) E idle ?s3" using S2 by (simp add: operating_counters)
  have cur: "pxCurrentTCB ?s3 = pxCurrentTCB s" using F(7) f1(3) by simp
  have m: "kept_tasks (insert t T) ?s3 ?s3" by (rule kept_tasks_refl)
  have H3: "highest_ready (insert t T) ?s3 (pxCurrentTCB ?s3)" if "\<not> uxPriority s (pxCurrentTCB s) < ?q"
  proof -
    have "ready_lists ?s3 = ready_lists s" "ready_list ?s3 = ready_list s" using rl by (simp_all add: ready_lists_def ready_list_def fun_eq_iff)
    then show ?thesis using H st nn(2) pr that unfolding highest_ready_def cur by (auto simp: not_less)
  qed
  let ?r = "if uxPriority s (pxCurrentTCB s) < ?q then vTaskSwitchContext ?s3 else Some ?s3"
  have eq: "xTaskCreate p (Some t) s = map_option (Pair True) ?r"
  proof -
    have c: "prvAddTaskToReadyList t (s1\<lparr>uxCurrentNumberOfTasks := n, uxTaskNumber := m\<rparr>) =
        s2\<lparr>uxCurrentNumberOfTasks := n, uxTaskNumber := m\<rparr>" for n m
      by (simp add: s2_def prvAddTaskToReadyList_def taskRECORD_READY_PRIORITY_def ready_list_def Let_def)
    have n: "uxTaskNumber s1 = uxTaskNumber s" "pxCurrentTCB s \<noteq> 0" using D(4,6) by (auto simp: s1_def initialise_new_fields)
    have v: "uxPriority ?s3 (pxCurrentTCB ?s3) = uxPriority s (pxCurrentTCB s)" "uxPriority ?s3 t = ?q" "xSchedulerRunning ?s3"
      using pr nn(2) cur soundD(7) [OF S3] by simp_all
    have "prvAddNewTaskToReadyList t s1 = (if xSchedulerRunning ?s3 \<and> uxPriority ?s3 (pxCurrentTCB ?s3) < uxPriority ?s3 t
        then vTaskSwitchContext ?s3 else Some ?s3)"
      using n f1 D(7) by (simp only: prvAddNewTaskToReadyList_def Let_def) (simp add: c)
    then have pn: "prvAddNewTaskToReadyList t s1 = ?r" unfolding v eqTrueI [OF v(3)] simp_thms .
    have "xTaskCreate p (Some t) s = prvAddNewTaskToReadyList t s1 \<bind> (\<lambda>s. Some (True, s))" by (simp add: xTaskCreate_def s1_def)
    also have "\<dots> = map_option (Pair True) ?r" unfolding pn by (cases ?r) simp_all
    finally show ?thesis .
  qed
  have "outcome (insert t T) E idle UNIV ?s3 (if uxPriority s (pxCurrentTCB s) < ?q then vTaskSwitchContext ?s3 else Some ?s3)"
    by (rule outcome_switch [OF S3 m]) (use H3 in auto)
  then obtain s' where s': "(if uxPriority s (pxCurrentTCB s) < ?q then vTaskSwitchContext ?s3 else Some ?s3) = Some s'"
    "operating (insert t T) E idle s'" "kept_tasks (insert t T) ?s3 s'" by (auto simp: outcome_def)
  have "same_addresses s ?s3" using i R by (simp add: same_addresses_def same_places_def kernel_lists_def state_lists_def event_lists_def ready_lists_def ready_list_def)
  then have a: "same_addresses s s'" using tasks_addresses [OF s'(3)] by (simp add: same_addresses_def)
  have g: "gone s' u \<longleftrightarrow> gone s u \<and> u \<noteq> t" if "u \<in> insert t T" for u
    using s'(3) gn [OF that] that by (auto simp: kept_tasks_def operating_counters)
  have p: "uxPriority s' t = ?q"
  proof (cases "uxPriority s (pxCurrentTCB s) < ?q")
    case True
    then have "vTaskSwitchContext ?s3 = Some s'" using s'(1) by simp
    from switch_members [OF this] show ?thesis using pr by (simp add: task_members_def)
  next
    case False
    then have "?s3 = s'" using s'(1) by simp
    then show ?thesis using pr [of t] by auto
  qed
  have "xTaskCreate p (Some t) s = Some (True, s')" using eq s'(1) by simp
  moreover have "\<forall>u \<in> T. gone s' u = gone s u" using g ne by auto
  moreover have "uxCurrentNumberOfTasks s' = uxCurrentNumberOfTasks s + 1" using s'(3) by (simp add: kept_tasks_def)
  ultimately show ?thesis using s'(2) a g [OF insertI1] p by blast
qed

section \<open>Who owns the memory\<close>

text \<open>The blocks of the tasks \<open>T\<close>, a control block and a stack each, and those the application holds, \<open>R\<close> with the sizes asked for,
  are all different and are exactly the blocks in use of the heap between \<open>base\<close> and \<open>e\<close>.\<close>

definition blocks :: "u32 set \<Rightarrow> task_system \<Rightarrow> u32 set" where
  "blocks T s = T \<union> pxStack s ` T"

definition memory :: "u32 \<Rightarrow> u32 \<Rightarrow> u32 \<Rightarrow> u32 set \<Rightarrow> (u32 \<times> nat) set \<Rightarrow> task_system \<Rightarrow> bool" where
  "memory xStart base e T R s \<longleftrightarrow> inj_on (pxStack s) T \<and> T \<inter> pxStack s ` T = {} \<and> fst ` R \<inter> blocks T s = {} \<and>
     (\<exists>L. (heap_inv xStart base (hp s) L \<and> pxEnd (hp s) = e) \<and> unat ` (blocks T s \<union> fst ` R) = fst ` live_regions L \<and>
        (\<forall>t \<in> T. \<exists>n \<ge> 88. (unat t, n) \<in> live_regions L) \<and> (\<forall>(r, m) \<in> R. \<exists>n \<ge> m. (unat r, n) \<in> live_regions L))"

lemma memoryE:
  assumes "memory xStart base e T R s"
  obtains L where "ha.owns xStart base e (blocks T s \<union> fst ` R) (hp s) L" "\<And>t. t \<in> T \<Longrightarrow> \<exists>n \<ge> 88. (unat t, n) \<in> live_regions L"
    "\<And>r m. (r, m) \<in> R \<Longrightarrow> \<exists>n \<ge> m. (unat r, n) \<in> live_regions L"
    "inj_on (pxStack s) T" "T \<inter> pxStack s ` T = {}" "fst ` R \<inter> blocks T s = {}"
proof -
  obtain L where L: "heap_inv xStart base (hp s) L \<and> pxEnd (hp s) = e" "unat ` (blocks T s \<union> fst ` R) = fst ` live_regions L"
    "\<forall>t \<in> T. \<exists>n \<ge> 88. (unat t, n) \<in> live_regions L" "\<forall>(r, m) \<in> R. \<exists>n \<ge> m. (unat r, n) \<in> live_regions L"
    using assms unfolding memory_def by blast
  have d: "inj_on (pxStack s) T" "T \<inter> pxStack s ` T = {}" "fst ` R \<inter> blocks T s = {}" using assms by (simp_all add: memory_def)
  show thesis
  proof (rule that [OF _ _ _ d])
    show "ha.owns xStart base e (blocks T s \<union> fst ` R) (hp s) L" unfolding ha.owns_def using L(1,2) by blast
  qed (use L(3,4) in blast)+
qed

lemma memoryI:
  assumes "ha.owns xStart base e (blocks T s \<union> fst ` R) (hp s) L" "\<And>t. t \<in> T \<Longrightarrow> \<exists>n \<ge> 88. (unat t, n) \<in> live_regions L"
    "\<And>r m. (r, m) \<in> R \<Longrightarrow> \<exists>n \<ge> m. (unat r, n) \<in> live_regions L"
    "inj_on (pxStack s) T" "T \<inter> pxStack s ` T = {}" "fst ` R \<inter> blocks T s = {}"
  shows "memory xStart base e T R s"
proof -
  have L: "heap_inv xStart base (hp s) L \<and> pxEnd (hp s) = e" "unat ` (blocks T s \<union> fst ` R) = fst ` live_regions L"
    using assms(1) unfolding ha.owns_def by blast+
  have "\<forall>t \<in> T. \<exists>n \<ge> 88. (unat t, n) \<in> live_regions L" "\<forall>(r, m) \<in> R. \<exists>n \<ge> m. (unat r, n) \<in> live_regions L"
    using assms(2,3) by blast+
  then show ?thesis using L assms(4-6) unfolding memory_def by blast
qed

lemma memory_fields [simp]:
  "memory xStart base e T R (s\<lparr>kn := k\<rparr>) = memory xStart base e T R s"
  "memory xStart base e T R (s\<lparr>uxDeletedTasksWaitingCleanUp := n\<rparr>) = memory xStart base e T R s"
  by (simp_all add: memory_def blocks_def)

lemma create_memory_spec:
  assumes M: "memory xStart base e T R s"
  shows "\<exists>t s'. create_memory xStart ucHeap d s = Some (t, s') \<and> kn s' = kn s \<and>
    uxDeletedTasksWaitingCleanUp s' = uxDeletedTasksWaitingCleanUp s \<and>
    (if t = NULL then memory xStart base e T R s' \<and> pxStack s' = pxStack s else t \<notin> T \<and> memory xStart base e (insert t T) R s')"
proof -
  let ?B = "blocks T s \<union> fst ` R"
  obtain L where O: "ha.owns xStart base e ?B (hp s) L"
    and T: "\<And>t. t \<in> T \<Longrightarrow> \<exists>n \<ge> 88. (unat t, n) \<in> live_regions L"
    and R: "\<And>r m. (r, m) \<in> R \<Longrightarrow> \<exists>n \<ge> m. (unat r, n) \<in> live_regions L"
    and I: "inj_on (pxStack s) T" "T \<inter> pxStack s ` T = {}" "fst ` R \<inter> blocks T s = {}" by (rule memoryE [OF M]) blast
  from ha.owns_malloc [OF O, of ucHeap "d * 4"] obtain k h1 L1 where
    k: "pvPortMalloc xStart ucHeap (d * 4) (hp s) = Some (k, h1)"
      "if k = NULL then ha.owns xStart base e ?B h1 L1 \<and> live_regions L1 = live_regions L
       else k \<notin> ?B \<and> ha.owns xStart base e (insert k ?B) h1 L1 \<and> (\<exists>n \<ge> unat (d * 4). live_regions L1 = insert (unat k, n) (live_regions L))" by blast
  have keep: "memory xStart base e T R (s\<lparr>hp := h\<rparr>)" if "ha.owns xStart base e ?B h L'" "live_regions L' = live_regions L" for h L'
    by (rule memoryI [where L = L']) (use that T R I in \<open>simp_all add: blocks_def\<close>)
  show ?thesis
  proof (cases "k = NULL")
    case True
    then have "create_memory xStart ucHeap d s = Some (NULL, s\<lparr>hp := h1\<rparr>)" using k(1) by (simp add: create_memory_def)
    moreover have "memory xStart base e T R (s\<lparr>hp := h1\<rparr>)" using keep [of h1 L1] k(2) True by simp
    ultimately show ?thesis by simp
  next
    case False
    then have k': "k \<notin> ?B" "ha.owns xStart base e (insert k ?B) h1 L1" using k(2) by auto
    obtain n where n: "live_regions L1 = insert (unat k, n) (live_regions L)" using k(2) False by auto
    from ha.owns_malloc [OF k'(2), of ucHeap sizeof_TCB] obtain t h2 L2 where
      t: "pvPortMalloc xStart ucHeap sizeof_TCB h1 = Some (t, h2)"
        "if t = NULL then ha.owns xStart base e (insert k ?B) h2 L2 \<and> live_regions L2 = live_regions L1
         else t \<notin> insert k ?B \<and> ha.owns xStart base e (insert t (insert k ?B)) h2 L2 \<and> (\<exists>n \<ge> unat sizeof_TCB. live_regions L2 = insert (unat t, n) (live_regions L1))" by blast
    show ?thesis
    proof (cases "t = NULL")
      case True
      then have o2: "ha.owns xStart base e (insert k ?B) h2 L2" "live_regions L2 = live_regions L1" using t(2) by simp_all
      from ha.owns_free [OF o2(1), of k] obtain h3 L3 where
        f: "vPortFree xStart k h2 = Some h3" "ha.owns xStart base e (insert k ?B - {k}) h3 L3"
          "\<And>p n. (p, n) \<in> live_regions L3 \<longleftrightarrow> (p, n) \<in> live_regions L2 \<and> p \<noteq> unat k" by blast
      have "unat ` ?B = fst ` live_regions L" using O unfolding ha.owns_def by blast
      then have "unat k \<notin> fst ` live_regions L" using k'(1) inj_image_mem_iff [OF ha.inj_unat, of k ?B] by simp
      then have "live_regions L3 = live_regions L" using f(3) by (auto simp: o2(2) n image_iff)
      moreover have "insert k ?B - {k} = ?B" using k'(1) by blast
      ultimately have "memory xStart base e T R (s\<lparr>hp := h3\<rparr>)" using keep [of h3 L3] f(2) by simp
      moreover have "create_memory xStart ucHeap d s = Some (NULL, s\<lparr>hp := h3\<rparr>)"
        using False True k(1) t(1) f(1) by (simp add: create_memory_def)
      ultimately show ?thesis by simp
    next
      case tn: False
      then have t': "t \<notin> insert k ?B" "ha.owns xStart base e (insert t (insert k ?B)) h2 L2" using t(2) by auto
      obtain m where m: "88 \<le> m" "live_regions L2 = insert (unat t, m) (live_regions L1)" using t(2) tn by auto
      let ?s = "s\<lparr>hp := h2, pxStack := (pxStack s)(t := k)\<rparr>"
      have tT: "t \<notin> T" "t \<notin> pxStack s ` T" "k \<notin> T" "k \<notin> pxStack s ` T" "t \<noteq> k" "t \<notin> fst ` R" "k \<notin> fst ` R"
        using t'(1) k'(1) by (auto simp: blocks_def)
      have img: "pxStack ?s ` insert t T = insert k (pxStack s ` T)" using tT(1) by (auto simp: image_iff)
      have b: "blocks (insert t T) ?s \<union> fst ` R = insert t (insert k ?B)" unfolding blocks_def img by blast
      have "memory xStart base e (insert t T) R ?s"
      proof (rule memoryI [where L = L2])
        show "ha.owns xStart base e (blocks (insert t T) ?s \<union> fst ` R) (hp ?s) L2" using t'(2) unfolding b by simp
        show "\<exists>n \<ge> 88. (unat u, n) \<in> live_regions L2" if "u \<in> insert t T" for u
          using that T [of u] m(1) unfolding m(2) n by (cases "u = t") blast+
        show "\<exists>n \<ge> j. (unat r, n) \<in> live_regions L2" if "(r, j) \<in> R" for r j using R [OF that] unfolding m(2) n by blast
        show "inj_on (pxStack ?s) (insert t T)" using I(1) tT(1,4) by (auto simp: inj_on_def image_iff)
        show "insert t T \<inter> pxStack ?s ` insert t T = {}" unfolding img using I(2) tT by auto
        show "fst ` R \<inter> blocks (insert t T) ?s = {}" unfolding blocks_def img using I(3) tT by (auto simp: blocks_def)
      qed
      moreover have "create_memory xStart ucHeap d s = Some (t, ?s)" using False tn k(1) t(1) by (simp add: create_memory_def)
      ultimately show ?thesis using tn tT(1) by simp
    qed
  qed
qed

lemma delete_memory:
  assumes M: "memory xStart base e T R s" and t: "t \<in> T"
  shows "\<exists>h. prvDeleteTCB xStart t s = Some (s\<lparr>hp := h\<rparr>) \<and> memory xStart base e (T - {t}) R (s\<lparr>hp := h\<rparr>)"
proof -
  let ?B = "blocks T s \<union> fst ` R" and ?k = "pxStack s t"
  obtain L where O: "ha.owns xStart base e ?B (hp s) L"
    and T: "\<And>t. t \<in> T \<Longrightarrow> \<exists>n \<ge> 88. (unat t, n) \<in> live_regions L"
    and R: "\<And>r m. (r, m) \<in> R \<Longrightarrow> \<exists>n \<ge> m. (unat r, n) \<in> live_regions L"
    and I: "inj_on (pxStack s) T" "T \<inter> pxStack s ` T = {}" "fst ` R \<inter> blocks T s = {}" by (rule memoryE [OF M]) blast
  have kB: "?k \<in> ?B" "?k \<noteq> t" using t I(2) by (simp add: blocks_def) (metis IntI empty_iff imageI t I(2))
  from ha.owns_free [OF O kB(1)] obtain h1 L1 where
    f1: "vPortFree xStart ?k (hp s) = Some h1" "ha.owns xStart base e (?B - {?k}) h1 L1"
      "\<And>p n. (p, n) \<in> live_regions L1 \<longleftrightarrow> (p, n) \<in> live_regions L \<and> p \<noteq> unat ?k" by blast
  have "t \<in> ?B - {?k}" using t kB(2) by (simp add: blocks_def)
  from ha.owns_free [OF f1(2) this] obtain h2 L2 where
    f2: "vPortFree xStart t h1 = Some h2" "ha.owns xStart base e (?B - {?k} - {t}) h2 L2"
      "\<And>p n. (p, n) \<in> live_regions L2 \<longleftrightarrow> (p, n) \<in> live_regions L1 \<and> p \<noteq> unat t" by blast
  let ?s = "s\<lparr>hp := h2\<rparr>" and ?U = "T - {t}"
  have img: "pxStack s ` ?U = pxStack s ` T - {?k}" using I(1) t by (auto simp: inj_on_def)
  have Rk: "?k \<notin> fst ` R" "t \<notin> fst ` R" using I(3) t by (auto simp: blocks_def)
  have b: "blocks ?U ?s \<union> fst ` R = ?B - {?k} - {t}"
    using Rk I(2) t unfolding blocks_def by (simp add: img) blast
  have keep: "(unat r, n) \<in> live_regions L2" if "(unat r, n) \<in> live_regions L" "r \<noteq> ?k" "r \<noteq> t" for r n
    using that f1(3) f2(3) by (simp add: word_unat_eq_iff)
  have "memory xStart base e ?U R ?s"
  proof (rule memoryI [where L = L2])
    show "ha.owns xStart base e (blocks ?U ?s \<union> fst ` R) (hp ?s) L2" using f2(2) unfolding b by simp
    show "\<exists>n \<ge> 88. (unat u, n) \<in> live_regions L2" if u: "u \<in> ?U" for u
    proof -
      have "u \<noteq> ?k" "u \<noteq> t" using u t I(2) by auto
      then show ?thesis using T [of u] u keep by blast
    qed
    show "\<exists>n \<ge> j. (unat r, n) \<in> live_regions L2" if "(r, j) \<in> R" for r j
    proof -
      have "r \<in> fst ` R" using that by force
      then have "r \<noteq> ?k" "r \<noteq> t" using Rk by blast+
      then show ?thesis using R [OF that] keep by blast
    qed
    show "inj_on (pxStack ?s) ?U" using I(1) by (simp add: inj_on_diff)
    show "?U \<inter> pxStack ?s ` ?U = {}" using I(2) by auto
    show "fst ` R \<inter> blocks ?U ?s = {}" using I(3) by (auto simp: blocks_def)
  qed
  moreover have "prvDeleteTCB xStart t s = Some ?s" using f1(1) f2(1) by (simp add: prvDeleteTCB_def)
  ultimately show ?thesis by blast
qed

lemma delete_fields:
  "prvDeleteTCB xStart t (s\<lparr>kn := k\<rparr>) = map_option (\<lambda>s. s\<lparr>kn := k\<rparr>) (prvDeleteTCB xStart t s)"
  "prvDeleteTCB xStart t (s\<lparr>uxDeletedTasksWaitingCleanUp := n\<rparr>) = map_option (\<lambda>s. s\<lparr>uxDeletedTasksWaitingCleanUp := n\<rparr>) (prvDeleteTCB xStart t s)"
  by (simp_all add: prvDeleteTCB_def map_option_case split: option.splits bind_splits)

lemma alloc_memory:
  assumes M: "memory xStart base e T R s"
  shows "\<exists>r h. pvPortMalloc xStart ucHeap n (hp s) = Some (r, h) \<and>
    memory xStart base e T (if r = NULL then R else insert (r, unat n) R) (s\<lparr>hp := h\<rparr>)"
proof -
  let ?B = "blocks T s \<union> fst ` R"
  obtain L where O: "ha.owns xStart base e ?B (hp s) L"
    and T: "\<And>t. t \<in> T \<Longrightarrow> \<exists>n \<ge> 88. (unat t, n) \<in> live_regions L"
    and R: "\<And>r m. (r, m) \<in> R \<Longrightarrow> \<exists>n \<ge> m. (unat r, n) \<in> live_regions L"
    and I: "inj_on (pxStack s) T" "T \<inter> pxStack s ` T = {}" "fst ` R \<inter> blocks T s = {}" by (rule memoryE [OF M]) blast
  from ha.owns_malloc [OF O, of ucHeap n] obtain r h L1 where
    r: "pvPortMalloc xStart ucHeap n (hp s) = Some (r, h)"
      "if r = NULL then ha.owns xStart base e ?B h L1 \<and> live_regions L1 = live_regions L
       else r \<notin> ?B \<and> ha.owns xStart base e (insert r ?B) h L1 \<and> (\<exists>k \<ge> unat n. live_regions L1 = insert (unat r, k) (live_regions L))" by blast
  have "memory xStart base e T (if r = NULL then R else insert (r, unat n) R) (s\<lparr>hp := h\<rparr>)"
  proof (cases "r = NULL")
    case True
    then show ?thesis using r(2) T R I by (auto intro!: memoryI [where L = L1] simp: blocks_def)
  next
    case False
    then obtain k where k: "r \<notin> ?B" "ha.owns xStart base e (insert r ?B) h L1" "unat n \<le> k" "live_regions L1 = insert (unat r, k) (live_regions L)"
      using r(2) by auto
    have "memory xStart base e T (insert (r, unat n) R) (s\<lparr>hp := h\<rparr>)"
    proof (rule memoryI [where L = L1])
      show "ha.owns xStart base e (blocks T (s\<lparr>hp := h\<rparr>) \<union> fst ` insert (r, unat n) R) (hp (s\<lparr>hp := h\<rparr>)) L1" using k(2) by (simp add: blocks_def)
      show "\<exists>j \<ge> m. (unat q, j) \<in> live_regions L1" if "(q, m) \<in> insert (r, unat n) R" for q m using that R k(3) by (auto simp: k(4))
      show "\<exists>n \<ge> 88. (unat u, n) \<in> live_regions L1" if "u \<in> T" for u using T [OF that] unfolding k(4) by blast
    qed (use I k in \<open>auto simp: blocks_def\<close>)
    then show ?thesis using False by simp
  qed
  then show ?thesis using r(1) by blast
qed

lemma return_memory:
  assumes M: "memory xStart base e T R s" and r: "r \<in> fst ` R"
  shows "\<exists>h. vPortFree xStart r (hp s) = Some h \<and> memory xStart base e T {b \<in> R. fst b \<noteq> r} (s\<lparr>hp := h\<rparr>)"
proof -
  let ?B = "blocks T s \<union> fst ` R" and ?R = "{b \<in> R. fst b \<noteq> r}"
  obtain L where O: "ha.owns xStart base e ?B (hp s) L"
    and T: "\<And>t. t \<in> T \<Longrightarrow> \<exists>n \<ge> 88. (unat t, n) \<in> live_regions L"
    and R: "\<And>r m. (r, m) \<in> R \<Longrightarrow> \<exists>n \<ge> m. (unat r, n) \<in> live_regions L"
    and I: "inj_on (pxStack s) T" "T \<inter> pxStack s ` T = {}" "fst ` R \<inter> blocks T s = {}" by (rule memoryE [OF M]) blast
  have "r \<in> ?B" using r by blast
  from ha.owns_free [OF O this] obtain h L1 where
    f: "vPortFree xStart r (hp s) = Some h" "ha.owns xStart base e (?B - {r}) h L1"
      "\<And>p n. (p, n) \<in> live_regions L1 \<longleftrightarrow> (p, n) \<in> live_regions L \<and> p \<noteq> unat r" by blast
  have rB: "r \<notin> blocks T s" using I(3) r by blast
  have "fst ` ?R = fst ` R - {r}" by auto
  then have b: "blocks T (s\<lparr>hp := h\<rparr>) \<union> fst ` ?R = ?B - {r}" using rB by (auto simp: blocks_def)
  have "memory xStart base e T ?R (s\<lparr>hp := h\<rparr>)"
  proof (rule memoryI [where L = L1])
    show "ha.owns xStart base e (blocks T (s\<lparr>hp := h\<rparr>) \<union> fst ` ?R) (hp (s\<lparr>hp := h\<rparr>)) L1" using f(2) unfolding b by simp
    show "\<exists>n \<ge> 88. (unat u, n) \<in> live_regions L1" if "u \<in> T" for u
      using T [OF that] f(3) rB that by (auto simp: blocks_def word_unat_eq_iff [symmetric])
    show "\<exists>j \<ge> m. (unat q, j) \<in> live_regions L1" if "(q, m) \<in> ?R" for q m
      using R that f(3) by (auto simp: word_unat_eq_iff [symmetric])
  qed (use I in \<open>auto simp: blocks_def\<close>)
  then show ?thesis using f(1) by blast
qed

text \<open>A control block in its block is apart from the other tasks and from every list outside the heap or in a block of the application.\<close>

definition homed :: "u32 \<Rightarrow> u32 \<Rightarrow> (u32 \<times> nat) set \<Rightarrow> u32 \<Rightarrow> bool" where
  "homed base e R x \<longleftrightarrow> unat x < unat base \<or> unat e \<le> unat x \<or> (\<exists>(r, n) \<in> R. unat r \<le> unat x \<and> unat x < unat r + n)"

lemma items_of_block:
  fixes t e :: u32
  assumes "88 \<le> n" "unat t + n \<le> unat e"
  shows "unat (xStateListItem t) = unat t + 4" "unat (xEventListItem t) = unat t + 24"
  using assms unat_bound [of e] word_add_less [of t 4] word_add_less [of t 24] by (simp_all add: xStateListItem_def xEventListItem_def)

lemma memory_places:
  assumes M: "memory xStart base e (insert t T) R s" and K: "kcore T E k G" and z: "0 \<notin> insert t T"
    and home: "\<forall>l \<in> kernel_lists E k. homed base e R (xListEnd l)"
  shows "places (insert t T) E k"
proof -
  let ?T = "insert t T"
  obtain L where O: "ha.owns xStart base e (blocks ?T s \<union> fst ` R) (hp s) L"
    and T: "\<And>u. u \<in> ?T \<Longrightarrow> \<exists>n \<ge> 88. (unat u, n) \<in> live_regions L"
    and R: "\<And>r m. (r, m) \<in> R \<Longrightarrow> \<exists>n \<ge> m. (unat r, n) \<in> live_regions L"
    and I: "fst ` R \<inter> blocks ?T s = {}" by (rule memoryE [OF M]) blast
  have i: "heap_inv xStart base (hp s) L \<and> pxEnd (hp s) = e" using O unfolding ha.owns_def by blast
  have own: "\<exists>n. (unat u, n) \<in> live_regions L \<and> unat base \<le> unat u \<and> unat u + n \<le> unat e \<and>
      (\<forall>x \<in> {xStateListItem u, xEventListItem u}. unat u \<le> unat x \<and> unat x < unat u + n) \<and> xStateListItem u \<noteq> xEventListItem u" if u: "u \<in> ?T" for u
  proof -
    obtain n where n: "88 \<le> n" "(unat u, n) \<in> live_regions L" using T [OF u] by blast
    note a = ha.live_in [OF i n(2)]
    note x = items_of_block [OF n(1) conjunct2 [OF a]]
    then have "xStateListItem u \<noteq> xEventListItem u" by auto
    then show ?thesis using n a x by (intro exI [of _ n]) simp
  qed
  have apart: "x \<noteq> y" if "u \<in> ?T" "v \<in> ?T" "u \<noteq> v" "x \<in> {xStateListItem u, xEventListItem u}" "y \<in> {xStateListItem v, xEventListItem v}" for u v x y
  proof
    note h = that
    assume xy: "x = y"
    obtain n where n: "(unat u, n) \<in> live_regions L" "\<forall>x \<in> {xStateListItem u, xEventListItem u}. unat u \<le> unat x \<and> unat x < unat u + n"
      using own [OF h(1)] by blast
    obtain m where m: "(unat v, m) \<in> live_regions L" "\<forall>x \<in> {xStateListItem v, xEventListItem v}. unat v \<le> unat x \<and> unat x < unat v + m"
      using own [OF h(2)] by blast
    note bspec [OF n(2) h(4)] bspec [OF m(2) h(5), folded xy] n(1) m(1)
    moreover have "unat u \<noteq> unat v" using h(3) by (simp add: word_unat_eq_iff)
    ultimately show False using ha.live_apart [OF i n(1) m(1), of "unat x"] by simp
  qed
  have "xStateListItem ` ?T \<inter> xEventListItem ` ?T = {}"
  proof (rule ccontr)
    assume "xStateListItem ` ?T \<inter> xEventListItem ` ?T \<noteq> {}"
    then obtain u v where uv: "u \<in> ?T" "v \<in> ?T" "xStateListItem u = xEventListItem v" by blast
    have "u \<noteq> v" using own [OF uv(1)] uv(3) by metis
    from apart [OF uv(1,2) this insertI1, of "xEventListItem v"] uv(3) show False by simp
  qed
  then have l: "layout ?T E k" using kcoreD(2) [OF K] by (simp add: layout_def)
  have ends: "items ?T \<inter> xListEnd ` kernel_lists E k = {}"
  proof (rule ccontr)
    assume "items ?T \<inter> xListEnd ` kernel_lists E k \<noteq> {}"
    then obtain j where j: "j \<in> kernel_lists E k" "xListEnd j \<in> items ?T" by blast
    then obtain u where "u \<in> ?T" "xListEnd j \<in> {xStateListItem u, xEventListItem u}" unfolding items_def by blast
    note uj = this(1) j(1) this(2)
    obtain n where n: "(unat u, n) \<in> live_regions L" "unat base \<le> unat u" "unat u + n \<le> unat e" "unat u \<le> unat (xListEnd j)" "unat (xListEnd j) < unat u + n"
      using own [OF uj(1)] uj(3) by blast
    then obtain r m where r: "(r, m) \<in> R" "unat r \<le> unat (xListEnd j)" "unat (xListEnd j) < unat r + m"
      using bspec [OF home uj(2)] unfolding homed_def by auto
    obtain q where q: "m \<le> q" "(unat r, q) \<in> live_regions L" using R [OF r(1)] by blast
    have "r \<in> fst ` R" using r(1) by force
    then have "unat u \<noteq> unat r" using I uj(1) by (auto simp: blocks_def word_unat_eq_iff [symmetric])
    then show False using ha.live_apart [OF i n(1) q(2) _ n(4,5)] r q(1) by simp
  qed
  have "0 \<notin> kernel_lists E k" using rings_D(1) [OF kcoreD(1) [OF K]] by (simp add: kernel_lists_def)
  then show ?thesis using l ends z by (simp add: places_def)
qed

section \<open>Steps\<close>

text \<open>One round of the loop of the idle task, when a deleted task waits.\<close>

definition clean_step :: "u32 \<Rightarrow> task_system \<Rightarrow> task_system option" where
  "clean_step xStart s =
     (if uxDeletedTasksWaitingCleanUp s > 0 then (let (pxTCB, s) = terminate_head s in prvDeleteTCB xStart pxTCB s) else Some s)"

datatype action =
    Call call
  | Create u32 u32
  | Delete u32
  | Clean
  | Alloc u32
  | Return u32

fun act :: "u32 \<Rightarrow> u32 \<Rightarrow> action \<Rightarrow> task_system \<Rightarrow> task_system option" where
  "act xStart ucHeap (Call c) s = map_option (\<lambda>k. s\<lparr>kn := k\<rparr>) (perform c (kn s))"
| "act xStart ucHeap (Create p d) s = map_option (snd \<circ> snd) (task_create xStart ucHeap p d s)"
| "act xStart ucHeap (Delete h) s = vTaskDelete xStart h s"
| "act xStart ucHeap Clean s = clean_step xStart s"
| "act xStart ucHeap (Alloc n) s = map_option (\<lambda>(r, h). s\<lparr>hp := h\<rparr>) (pvPortMalloc xStart ucHeap n (hp s))"
| "act xStart ucHeap (Return r) s = map_option (\<lambda>h. s\<lparr>hp := h\<rparr>) (vPortFree xStart r (hp s))"

section \<open>The invariant\<close>

text \<open>The kernel is in operation with the tasks \<open>T\<close>, its counters are right, its lists lie apart from the control blocks, and the
  memory is owned as above. A task that has deleted itself is still one of \<open>T\<close>, until its memory is freed.\<close>

definition housed :: "u32 \<Rightarrow> u32 \<Rightarrow> u32 \<Rightarrow> u32 \<Rightarrow> u32 set \<Rightarrow> u32 set \<Rightarrow> (u32 \<times> nat) set \<Rightarrow> task_system \<Rightarrow> bool" where
  "housed xStart base e idle T E R s \<longleftrightarrow> operating T E idle (kn s) \<and> memory xStart base e T R s \<and>
     uxCurrentNumberOfTasks (kn s) = of_nat (card T) \<and> uxDeletedTasksWaitingCleanUp s = of_nat (card {t \<in> T. gone (kn s) t}) \<and>
     (\<forall>l \<in> kernel_lists E (kn s). homed base e R (xListEnd l))"

lemma housedD:
  assumes "housed xStart base e idle T E R s"
  shows "operating T E idle (kn s)" "memory xStart base e T R s" "uxCurrentNumberOfTasks (kn s) = of_nat (card T)"
    "uxDeletedTasksWaitingCleanUp s = of_nat (card {t \<in> T. gone (kn s) t})" "\<forall>l \<in> kernel_lists E (kn s). homed base e R (xListEnd l)"
  using assms by (simp_all add: housed_def)

text \<open>What each action needs, and the tasks, lists and blocks after it.\<close>

fun allowed :: "u32 \<Rightarrow> u32 \<Rightarrow> u32 \<Rightarrow> u32 set \<Rightarrow> u32 set \<Rightarrow> (u32 \<times> nat) set \<Rightarrow> action \<Rightarrow> task_system \<Rightarrow> bool" where
  "allowed base e idle T E R (Call c) s \<longleftrightarrow> permitted T E idle c (kn s) \<and> (\<forall>l. c = NewList l \<longrightarrow> homed base e R (xListEnd l))"
| "allowed base e idle T E R (Create p d) s \<longleftrightarrow> ucNotifyState (kn s) (pxCurrentTCB (kn s)) \<noteq> taskWAITING_NOTIFICATION"
| "allowed base e idle T E R (Delete h) s \<longleftrightarrow> prvGetTCBFromHandle h (kn s) \<in> T - {idle} \<and> \<not> gone (kn s) (prvGetTCBFromHandle h (kn s)) \<and>
     ucNotifyState (kn s) (pxCurrentTCB (kn s)) \<noteq> taskWAITING_NOTIFICATION"
| "allowed base e idle T E R (Return r) s \<longleftrightarrow> r \<in> fst ` R \<and> (\<forall>l \<in> kernel_lists E (kn s). homed base e {b \<in> R. fst b \<noteq> r} (xListEnd l))"
| "allowed base e idle T E R _ s \<longleftrightarrow> True"

fun tasks_after :: "u32 \<Rightarrow> u32 \<Rightarrow> action \<Rightarrow> task_system \<Rightarrow> u32 set \<Rightarrow> u32 set" where
  "tasks_after xStart ucHeap (Create p d) s T = (case task_create xStart ucHeap p d s of Some (True, t, s') \<Rightarrow> insert t T | _ \<Rightarrow> T)"
| "tasks_after xStart ucHeap (Delete h) s T =
     (if prvGetTCBFromHandle h (kn s) = pxCurrentTCB (kn s) then T else T - {prvGetTCBFromHandle h (kn s)})"
| "tasks_after xStart ucHeap Clean s T = (if uxDeletedTasksWaitingCleanUp s > 0 then T - {fst (terminate_head s)} else T)"
| "tasks_after xStart ucHeap _ s T = T"

fun events_after :: "action \<Rightarrow> u32 set \<Rightarrow> u32 set" where
  "events_after (Call c) E = lists_after c E"
| "events_after _ E = E"

fun blocks_after :: "u32 \<Rightarrow> u32 \<Rightarrow> action \<Rightarrow> task_system \<Rightarrow> (u32 \<times> nat) set \<Rightarrow> (u32 \<times> nat) set" where
  "blocks_after xStart ucHeap (Alloc n) s R =
     (case pvPortMalloc xStart ucHeap n (hp s) of Some (r, h) \<Rightarrow> if r = NULL then R else insert (r, unat n) R | None \<Rightarrow> R)"
| "blocks_after xStart ucHeap (Return r) s R = {b \<in> R. fst b \<noteq> r}"
| "blocks_after xStart ucHeap _ s R = R"

section \<open>Every action\<close>

text \<open>A step of the kernel that keeps the tasks keeps the invariant, whatever it does with the lists.\<close>

lemma kept_addresses: "same_addresses s s' \<Longrightarrow> kernel_lists E s' = kernel_lists E s"
  by (simp add: same_addresses_def)

lemma kept_gone: "kept_tasks T s s' \<Longrightarrow> {t \<in> T. gone s' t} = {t \<in> T. gone s t}"
  by (auto simp: kept_tasks_def)

lemma count_positive: "0 \<notin> A \<Longrightarrow> (of_nat (card A) :: u32) = 0 \<longleftrightarrow> A = {}" for A :: "u32 set"
proof -
  assume "0 \<notin> A"
  then have "A \<subseteq> UNIV - {0}" by blast
  then have "card A \<le> card (UNIV - {0 :: u32})" by (intro card_mono) simp_all
  also have "\<dots> = 2 ^ 32 - 1" by (simp add: card_word)
  finally have "unat (of_nat (card A) :: u32) = card A" by (simp add: unat_of_nat)
  then show ?thesis by (simp only: word_unat_eq_iff) simp
qed

lemma count_less: "t \<in> A \<Longrightarrow> (of_nat (card A) :: u32) - 1 = of_nat (card (A - {t}))" for A :: "u32 set"
proof -
  assume "t \<in> A"
  then have "card A = Suc (card (A - {t}))" by (metis card.remove finite_code)
  then show ?thesis by simp
qed

lemma count_more: "t \<notin> A \<Longrightarrow> (of_nat (card A) :: u32) + 1 = of_nat (card (insert t A))" for A :: "u32 set"
  by simp

lemma housed_call:
  assumes H: "housed xStart base e idle T E R s" and P: "permitted T E idle c (kn s)"
    and n: "\<forall>l. c = NewList l \<longrightarrow> homed base e R (xListEnd l)"
  shows "\<exists>k. perform c (kn s) = Some k \<and> housed xStart base e idle T (lists_after c E) R (s\<lparr>kn := k\<rparr>) \<and> kept_tasks T (kn s) k"
proof -
  note D = housedD [OF H]
  from perform_outcome [OF D(1) P] obtain k where
    k: "perform c (kn s) = Some k" "operating T (lists_after c E) idle k" "kept_tasks T (kn s) k" by (auto simp: outcome_def)
  have "kernel_lists F k = kernel_lists F (kn s)" for F by (rule kept_addresses [OF tasks_addresses [OF k(3)]])
  moreover have "kernel_lists (lists_after c E) (kn s) \<subseteq> kernel_lists E (kn s) \<union> {l. c = NewList l}"
    by (cases c) (auto simp: kernel_lists_def event_lists_def)
  ultimately have "\<forall>l \<in> kernel_lists (lists_after c E) k. homed base e R (xListEnd l)" using D(5) n by blast
  moreover have "uxCurrentNumberOfTasks k = uxCurrentNumberOfTasks (kn s)" using k(3) by (simp add: kept_tasks_def)
  ultimately have "housed xStart base e idle T (lists_after c E) R (s\<lparr>kn := k\<rparr>)"
    using k(2) D(2-4) kept_gone [OF k(3)] by (simp add: housed_def)
  then show ?thesis using k(1,3) by blast
qed

lemma housed_create:
  assumes H: "housed xStart base e idle T E R s"
  shows "\<exists>b t s'. task_create xStart ucHeap p d s = Some (b, t, s') \<and> (b \<longleftrightarrow> t \<noteq> NULL) \<and> t \<notin> T \<and>
    housed xStart base e idle (if b then insert t T else T) E R s' \<and> (\<forall>u \<in> T. gone (kn s') u = gone (kn s) u)"
proof -
  note D = housedD [OF H]
  have S: "sound T E idle (kn s)" using D(1) by (simp add: operating_def)
  have z: "0 \<notin> T" by (rule soundD(4) [OF S])
  from create_memory_spec [OF D(2), of ucHeap d] obtain t s1 where
    s1: "create_memory xStart ucHeap d s = Some (t, s1)" "kn s1 = kn s" "uxDeletedTasksWaitingCleanUp s1 = uxDeletedTasksWaitingCleanUp s"
      "if t = NULL then memory xStart base e T R s1 \<and> pxStack s1 = pxStack s else t \<notin> T \<and> memory xStart base e (insert t T) R s1" by blast
  show ?thesis
  proof (cases "t = NULL")
    case True
    then have "task_create xStart ucHeap p d s = Some (False, NULL, s1\<lparr>kn := kn s\<rparr>)" using s1(1,2) by (simp add: task_create_def xTaskCreate_def)
    moreover have "s1\<lparr>kn := kn s\<rparr> = s1" using s1(2) [symmetric] by simp
    moreover have "housed xStart base e idle T E R s1" using H s1 True by (simp add: housed_def)
    ultimately show ?thesis using z s1(2) by auto
  next
    case False
    then have t: "t \<notin> T" "memory xStart base e (insert t T) R s1" using s1(4) by simp_all
    obtain G where K: "kcore T E (kn s) G" by (rule sound_kcore [OF S])
    have P: "places (insert t T) E (kn s)" by (rule memory_places [OF t(2) K _ D(5)]) (use False z in simp)
    from create_operating [OF D(1) P t(1), of p] obtain k where
      k: "xTaskCreate p (Some t) (kn s) = Some (True, k)" "operating (insert t T) E idle k" "same_addresses (kn s) k"
        "uxCurrentNumberOfTasks k = uxCurrentNumberOfTasks (kn s) + 1" "\<forall>u \<in> T. gone k u = gone (kn s) u" "\<not> gone k t" by blast
    have g: "{u. (u = t \<or> u \<in> T) \<and> gone k u} = {u \<in> T. gone (kn s) u}" using k(5,6) by auto
    have "housed xStart base e idle (insert t T) E R (s1\<lparr>kn := k\<rparr>)"
      unfolding housed_def using k(2,4) t(2) D(3-5) s1(3) t(1) by (simp add: g kept_addresses [OF k(3)])
    moreover have "task_create xStart ucHeap p d s = Some (True, t, s1\<lparr>kn := k\<rparr>)" using s1(1,2) k(1) False by (simp add: task_create_def)
    ultimately show ?thesis using False t(1) k(5) by auto
  qed
qed

lemma vTaskDelete_lists:
  "vTaskDelete xStart h s =
     (let t = prvGetTCBFromHandle h (kn s); k = leave_lists t (kn s); k = k\<lparr>uxTaskNumber := uxTaskNumber k + 1\<rparr>
      in do { s \<leftarrow> (if t = pxCurrentTCB k
                   then let k = k\<lparr>kl := vListInsertEnd (xTasksWaitingTermination k) (xStateListItem t) (kl k)\<rparr>
                        in Some (s\<lparr>kn := k, uxDeletedTasksWaitingCleanUp := uxDeletedTasksWaitingCleanUp s + 1\<rparr>)
                   else do { let k = k\<lparr>uxCurrentNumberOfTasks := uxCurrentNumberOfTasks k - 1\<rparr>;
                             s \<leftarrow> prvDeleteTCB xStart t (s\<lparr>kn := k\<rparr>);
                             Some (s\<lparr>kn := prvResetNextTaskUnblockTime (kn s)\<rparr>) });
              if xSchedulerRunning (kn s) \<and> t = pxCurrentTCB (kn s)
              then do { k \<leftarrow> vTaskSwitchContext (kn s); Some (s\<lparr>kn := k\<rparr>) }
              else Some s })"
  by (simp only: vTaskDelete_def leave_lists_def leave_event_def Let_def)

text \<open>The deletion of another task frees its memory at once.\<close>

lemma housed_delete_other:
  assumes H: "housed xStart base e idle T E R s" and t: "prvGetTCBFromHandle h (kn s) = t" "t \<in> T" "t \<noteq> idle" "t \<noteq> pxCurrentTCB (kn s)" "\<not> gone (kn s) t"
  shows "\<exists>s'. vTaskDelete xStart h s = Some s' \<and> housed xStart base e idle (T - {t}) E R s' \<and> kept_tasks (T - {t}) (kn s'\<lparr>uxCurrentNumberOfTasks := uxCurrentNumberOfTasks (kn s)\<rparr>) (kn s) \<and>
    pxCurrentTCB (kn s') = pxCurrentTCB (kn s)"
proof -
  note D = housedD [OF H]
  let ?U = "T - {t}" and ?k = "kn s"
  have S: "sound T E idle ?k" and Hi: "highest_ready T ?k (pxCurrentTCB ?k)" using D(1) by (simp_all add: operating_def)
  define k1 where "k1 = leave_lists t ?k"
  note L = leave_forget [OF S t(2-4), folded k1_def]
  have O1: "operating ?U E idle k1" using L(1) L(2) [OF Hi] by (simp add: operating_def)
  have c1: "pxCurrentTCB k1 = pxCurrentTCB ?k"
  proof -
    obtain G where W: "waiting T E ?k G" by (rule sound_kcore [OF S])
    show ?thesis using kframe_fields(7) [OF leave_lists_spec(2) [OF W t(2) soundD(9) [OF S t(2)]]] by (simp add: k1_def)
  qed
  define k2 where "k2 = k1\<lparr>uxTaskNumber := uxTaskNumber k1 + 1, uxCurrentNumberOfTasks := uxCurrentNumberOfTasks k1 - 1\<rparr>"
  have O2: "operating ?U E idle k2" using O1 by (simp add: k2_def operating_counters)
  from delete_memory [OF D(2) t(2)] obtain g where
    g: "prvDeleteTCB xStart t s = Some (s\<lparr>hp := g\<rparr>)" "memory xStart base e ?U R (s\<lparr>hp := g\<rparr>)" by blast
  have g1: "prvDeleteTCB xStart t (s\<lparr>kn := k2\<rparr>) = Some (s\<lparr>kn := k2, hp := g\<rparr>)" using g(1) by (simp add: delete_fields)
  let ?k3 = "prvResetNextTaskUnblockTime k2" and ?s = "s\<lparr>kn := prvResetNextTaskUnblockTime k2, hp := g\<rparr>"
  note N = operating_next [OF O2]
  have c3: "pxCurrentTCB ?k3 = pxCurrentTCB ?k"
  proof -
    have "pxCurrentTCB ?k3 = pxCurrentTCB k2" by (simp add: prvResetNextTaskUnblockTime_def Let_def)
    then show ?thesis using c1 by (simp add: k2_def)
  qed
  have run: "vTaskDelete xStart h s = Some ?s"
    unfolding vTaskDelete_lists Let_def t(1) k1_def [symmetric] using t(4) c1 c3 g1 by (simp add: k2_def)
  have kt: "kept_tasks ?U ?k (?k3\<lparr>uxCurrentNumberOfTasks := uxCurrentNumberOfTasks ?k\<rparr>)"
    using L(3) N(2) by (simp add: kept_tasks_def k2_def operating_counters)
  have n3: "uxCurrentNumberOfTasks ?k3 = uxCurrentNumberOfTasks ?k - 1" using N(2) L(3) by (simp add: kept_tasks_def k2_def)
  have gn: "gone ?k3 u = gone ?k u" if "u \<in> ?U" for u using kt that by (simp add: kept_tasks_def operating_counters)
  have gs: "{u \<in> ?U. gone ?k3 u} = {u \<in> T. gone ?k u}" using gn t(5) by auto
  have "same_addresses ?k (?k3\<lparr>uxCurrentNumberOfTasks := uxCurrentNumberOfTasks ?k\<rparr>)" by (rule tasks_addresses [OF kt])
  then have a: "kernel_lists E ?k3 = kernel_lists E ?k" by (simp add: same_addresses_def kernel_lists_counters)
  have m: "memory xStart base e ?U R ?s" using g(2) by (simp add: memory_def blocks_def)
  have "housed xStart base e idle ?U E R ?s"
    unfolding housed_def using N(1) m D(3-5) a gs by (simp add: n3 count_less [OF t(2)])
  moreover have "kept_tasks ?U (?k3\<lparr>uxCurrentNumberOfTasks := uxCurrentNumberOfTasks ?k\<rparr>) ?k" using kt by (simp add: kept_tasks_def)
  ultimately show ?thesis using run c3 by auto
qed

text \<open>A task that deletes itself keeps its memory and never runs again; another task is chosen.\<close>

lemma housed_delete_self:
  assumes H: "housed xStart base e idle T E R s" and t: "prvGetTCBFromHandle h (kn s) = t" "t \<noteq> idle" "t = pxCurrentTCB (kn s)"
    and n: "ucNotifyState (kn s) t \<noteq> taskWAITING_NOTIFICATION"
  shows "\<exists>s'. vTaskDelete xStart h s = Some s' \<and> housed xStart base e idle T E R s' \<and> gone (kn s') t \<and> pxCurrentTCB (kn s') \<noteq> t \<and>
    (\<forall>u \<in> T - {t}. gone (kn s') u = gone (kn s) u) \<and> pxStack s' = pxStack s \<and> hp s' = hp s"
proof -
  note D = housedD [OF H]
  let ?k = "kn s"
  have S: "sound T E idle ?k" and Hi: "highest_ready T ?k (pxCurrentTCB ?k)" using D(1) by (simp_all add: operating_def)
  obtain G where K: "kcore T E ?k G" by (rule sound_kcore [OF S])
  have tT: "t \<in> T" using soundD(6) [OF S] t(3) by simp
  have ng: "\<not> gone ?k t" using ready_present [OF K tT] Hi t(3) by (simp add: highest_ready_def task_ready_def)
  define k1 where "k1 = leave_lists t ?k"
  define k2 where "k2 = k1\<lparr>kl := vListInsertEnd (xTasksWaitingTermination ?k) (xStateListItem t) (kl k1)\<rparr>"
  note P = terminate_sound [OF D(1) t(3) [symmetric] t(2) n, folded k1_def, folded k2_def]
  note R = P(3) [unfolded same_rest_def]
  have R1: "xTasksWaitingTermination k1 = xTasksWaitingTermination ?k" "pxCurrentTCB k1 = t"
    using R P(2) by (simp_all add: k2_def)
  let ?k3 = "k2\<lparr>uxTaskNumber := uxTaskNumber k1 + 1\<rparr>"
  have S3: "sound T E idle ?k3" using P(1) by (simp add: operating_counters)
  obtain k4 where k4: "vTaskSwitchContext ?k3 = Some k4" "operating T E idle k4" "switched (pxCurrentTCB k4) ?k3 k4" by (rule sound_switch [OF S3])
  note m = switched_tasks [OF k4(3), of T]
  let ?s = "s\<lparr>kn := k4, uxDeletedTasksWaitingCleanUp := uxDeletedTasksWaitingCleanUp s + 1\<rparr>"
  have r3: "xSchedulerRunning k2" "pxCurrentTCB k2 = t" using soundD(7) [OF P(1)] P(2) by simp_all
  have eq: "k1\<lparr>uxTaskNumber := uxTaskNumber k1 + 1, kl := vListInsertEnd (xTasksWaitingTermination ?k) (xStateListItem t) (kl k1)\<rparr> = ?k3"
    by (simp add: k2_def)
  have run: "vTaskDelete xStart h s = Some ?s"
    unfolding vTaskDelete_lists Let_def t(1) k1_def [symmetric] using R1 eq r3 k4(1) by simp
  have gn: "gone k4 u \<longleftrightarrow> gone ?k u \<or> u = t" if "u \<in> T" for u
    using m P(5) [OF that] that by (simp add: kept_tasks_def operating_counters)
  have gs: "{u \<in> T. gone k4 u} = insert t {u \<in> T. gone ?k u}" using gn tT by auto
  have a3: "same_addresses ?k k2" using R by (simp add: same_addresses_def kernel_lists_def state_lists_def event_lists_def ready_lists_def ready_list_def)
  have "same_addresses ?k3 k4" by (rule tasks_addresses [OF m])
  then have a: "kernel_lists E k4 = kernel_lists E ?k" using a3 by (simp add: same_addresses_def kernel_lists_counters)
  have n4: "uxCurrentNumberOfTasks k4 = uxCurrentNumberOfTasks ?k" using m R by (simp add: kept_tasks_def)
  have "housed xStart base e idle T E R ?s"
    unfolding housed_def using k4(2) D(2-5) a n4 gs ng by simp
  moreover have "pxCurrentTCB k4 \<noteq> t"
  proof
    assume "pxCurrentTCB k4 = t"
    moreover obtain G' where "kcore T E k4 G'" using sound_kcore k4(2) unfolding operating_def by metis
    ultimately show False using ready_present [of T E k4 G' t] tT gn [OF tT] k4(2) by (simp add: operating_def highest_ready_def task_ready_def)
  qed
  ultimately show ?thesis using run gn tT by auto
qed

text \<open>The idle task frees the memory of the first deleted task in the list.\<close>

lemma housed_clean:
  assumes H: "housed xStart base e idle T E R s" and w: "uxDeletedTasksWaitingCleanUp s > 0"
  shows "\<exists>t s'. t \<in> T \<and> gone (kn s) t \<and> fst (terminate_head s) = t \<and> clean_step xStart s = Some s' \<and>
    housed xStart base e idle (T - {t}) E R s' \<and> uxDeletedTasksWaitingCleanUp s' = uxDeletedTasksWaitingCleanUp s - 1 \<and>
    (\<forall>u \<in> T - {t}. gone (kn s') u = gone (kn s) u) \<and> pxStack s' = pxStack s"
proof -
  note D = housedD [OF H]
  let ?k = "kn s" and ?l = "xTasksWaitingTermination (kn s)"
  have S: "sound T E idle ?k" using D(1) by (simp_all add: operating_def)
  obtain G where K: "kcore T E ?k G" by (rule sound_kcore [OF S])
  have l: "?l \<in> state_lists ?k" using parked_list(1) [OF K, of ?l] by simp
  have "0 \<notin> {t \<in> T. gone ?k t}" using soundD(4) [OF S] by simp
  from count_positive [OF this] D(4) w obtain u where u: "u \<in> T" "gone ?k u" by auto
  have "xStateListItem u \<in> set (G ?l)"
    using rings_member [OF kcoreD(1) [OF K] items_in(1) [OF u(1)], of ?l] l u(2) by (simp add: gone_def)
  then obtain x xs where x: "G ?l = x # xs" by (cases "G ?l") auto
  from head_task [OF K l x] obtain t where t: "t \<in> T" "listGET_OWNER_OF_HEAD_ENTRY ?l (kl ?k) = t" "gone ?k t" by (auto simp: gone_def)
  let ?U = "T - {t}"
  note F = gone_forget [OF D(1) t(1,3)]
  define k1 where "k1 = list_remove (xStateListItem t) ?k"
  note F1 = F(1,2) [folded k1_def]
  let ?k2 = "k1\<lparr>uxCurrentNumberOfTasks := uxCurrentNumberOfTasks k1 - 1\<rparr>"
  let ?n = "uxDeletedTasksWaitingCleanUp s - 1"
  have th: "terminate_head s = (t, s\<lparr>kn := ?k2, uxDeletedTasksWaitingCleanUp := ?n\<rparr>)" by (simp add: terminate_head_def Let_def t(2) k1_def)
  from delete_memory [OF D(2) t(1)] obtain g where
    g: "prvDeleteTCB xStart t s = Some (s\<lparr>hp := g\<rparr>)" "memory xStart base e ?U R (s\<lparr>hp := g\<rparr>)" by blast
  let ?s = "s\<lparr>kn := ?k2, uxDeletedTasksWaitingCleanUp := ?n, hp := g\<rparr>"
  have run: "clean_step xStart s = Some ?s" using w g(1) by (simp add: clean_step_def th delete_fields)
  have gn: "gone ?k2 v = gone ?k v" if "v \<in> ?U" for v using F1(2) that by (simp add: kept_tasks_def operating_counters)
  have gs: "{v \<in> ?U. gone ?k2 v} = {v \<in> T. gone ?k v} - {t}" using gn by auto
  have "t \<in> {v \<in> T. gone ?k v}" using t by simp
  note c = count_less [OF this] count_less [OF t(1)]
  have n: "uxCurrentNumberOfTasks k1 = uxCurrentNumberOfTasks ?k" using F1(2) by (simp add: kept_tasks_def)
  have a: "kernel_lists E ?k2 = kernel_lists E ?k" using kept_addresses [OF tasks_addresses [OF F1(2)]] by (simp add: kernel_lists_counters)
  have m: "memory xStart base e ?U R ?s" using g(2) by (simp add: memory_def blocks_def)
  have O: "operating ?U E idle ?k2" using F1(1) by (simp add: operating_counters)
  have "uxDeletedTasksWaitingCleanUp ?s = of_nat (card {v \<in> ?U. gone (kn ?s) v})" using D(4) c(1) by (simp add: gs [simplified])
  moreover have "uxCurrentNumberOfTasks (kn ?s) = of_nat (card ?U)" using D(3) c(2) n by simp
  ultimately have "housed xStart base e idle ?U E R ?s" unfolding housed_def using O m D(5) a by simp
  then show ?thesis using t(1,3) th run gn by (intro exI [of _ t] exI [of _ ?s]) simp
qed

lemma housed_act:
  assumes H: "housed xStart base e idle T E R s" and P: "allowed base e idle T E R a s"
  shows "\<exists>s'. act xStart ucHeap a s = Some s' \<and>
    housed xStart base e idle (tasks_after xStart ucHeap a s T) (events_after a E) (blocks_after xStart ucHeap a s R) s'"
proof (cases a)
  case (Call c)
  then show ?thesis using housed_call [OF H, of c] P by auto
next
  case (Create p d)
  from housed_create [OF H, of ucHeap p d] obtain b t s' where
    "task_create xStart ucHeap p d s = Some (b, t, s')" "housed xStart base e idle (if b then insert t T else T) E R s'" by blast
  then show ?thesis using Create by (cases b) simp_all
next
  case (Delete h)
  let ?t = "prvGetTCBFromHandle h (kn s)"
  show ?thesis
  proof (cases "?t = pxCurrentTCB (kn s)")
    case True
    then show ?thesis using housed_delete_self [OF H refl _ True] P Delete by auto
  next
    case False
    then show ?thesis using housed_delete_other [OF H refl _ _ False] P Delete by auto
  qed
next
  case Clean
  show ?thesis
  proof (cases "uxDeletedTasksWaitingCleanUp s > 0")
    case True
    then show ?thesis using housed_clean [OF H True] Clean by auto
  next
    case False
    then show ?thesis using H Clean by (simp add: clean_step_def)
  qed
next
  case (Alloc n)
  note D = housedD [OF H]
  from alloc_memory [OF D(2), of ucHeap n] obtain r h where
    r: "pvPortMalloc xStart ucHeap n (hp s) = Some (r, h)" "memory xStart base e T (if r = NULL then R else insert (r, unat n) R) (s\<lparr>hp := h\<rparr>)" by blast
  have "homed base e (if r = NULL then R else insert (r, unat n) R) x" if "homed base e R x" for x using that by (auto simp: homed_def)
  then show ?thesis using r D Alloc by (simp add: housed_def)
next
  case (Return r)
  note D = housedD [OF H]
  from return_memory [OF D(2), of r] P Return obtain h where
    "vPortFree xStart r (hp s) = Some h" "memory xStart base e T {b \<in> R. fst b \<noteq> r} (s\<lparr>hp := h\<rparr>)" by auto
  then show ?thesis using D P Return by (simp add: housed_def)
qed

section \<open>Runs\<close>

text \<open>Any sequence of allowed actions, with the tasks, event lists and blocks at each point.\<close>

inductive life :: "u32 \<Rightarrow> u32 \<Rightarrow> u32 \<Rightarrow> u32 \<Rightarrow> u32 \<Rightarrow> u32 set \<Rightarrow> u32 set \<Rightarrow> (u32 \<times> nat) set \<Rightarrow> task_system \<Rightarrow> action list \<Rightarrow>
    u32 set \<Rightarrow> u32 set \<Rightarrow> (u32 \<times> nat) set \<Rightarrow> task_system \<Rightarrow> bool" for xStart ucHeap base e idle where
  life_none: "life xStart ucHeap base e idle T E R s [] T E R s"
| life_act: "life xStart ucHeap base e idle T E R s as T1 E1 R1 s1 \<Longrightarrow> allowed base e idle T1 E1 R1 a s1 \<Longrightarrow>
    act xStart ucHeap a s1 = Some s2 \<Longrightarrow> life xStart ucHeap base e idle T E R s (as @ [a])
      (tasks_after xStart ucHeap a s1 T1) (events_after a E1) (blocks_after xStart ucHeap a s1 R1) s2"

lemma life_housed:
  assumes "life xStart ucHeap base e idle T E R s as T' E' R' s'" "housed xStart base e idle T E R s"
  shows "housed xStart base e idle T' E' R' s'"
  using assms
proof (induction rule: life.induct)
  case (life_act T E R s as T1 E1 R1 s1 a s2)
  then show ?case using housed_act [of xStart base e idle T1 E1 R1 s1 a ucHeap] by auto
qed

text \<open>While the idle task does not run, a deleted task stays deleted.\<close>

lemma act_gone:
  assumes H: "housed xStart base e idle T E R s" and P: "allowed base e idle T E R a s" and n: "a \<noteq> Clean"
    and t: "t \<in> T" "gone (kn s) t" and r: "act xStart ucHeap a s = Some s'"
  shows "t \<in> tasks_after xStart ucHeap a s T \<and> gone (kn s') t"
proof (cases a)
  case (Call c)
  then show ?thesis using housed_call [OF H, of c] P t r by (auto simp: kept_tasks_def)
next
  case (Create p d)
  from housed_create [OF H, of ucHeap p d] obtain b v s1 where
    "task_create xStart ucHeap p d s = Some (b, v, s1)" "\<forall>u \<in> T. gone (kn s1) u = gone (kn s) u" by blast
  then show ?thesis using Create t r by (cases b) auto
next
  case (Delete h)
  let ?t = "prvGetTCBFromHandle h (kn s)"
  have nt: "t \<noteq> ?t" using P t(2) Delete by auto
  show ?thesis
  proof (cases "?t = pxCurrentTCB (kn s)")
    case True
    then show ?thesis using housed_delete_self [OF H refl _ True] P Delete nt t r by auto
  next
    case False
    then show ?thesis using housed_delete_other [OF H refl _ _ False] P Delete nt t r by (auto simp: kept_tasks_def operating_counters)
  qed
qed (use n t r in auto)

lemma life_gone:
  assumes "life xStart ucHeap base e idle T E R s as T' E' R' s'" "housed xStart base e idle T E R s" "t \<in> T" "gone (kn s) t" "Clean \<notin> set as"
  shows "t \<in> T' \<and> gone (kn s') t"
  using assms
proof (induction rule: life.induct)
  case (life_act T E R s as T1 E1 R1 s1 a s2)
  have "housed xStart base e idle T1 E1 R1 s1" by (rule life_housed [OF life_act.hyps(1) life_act.prems(1)])
  moreover have "t \<in> T1 \<and> gone (kn s1) t" "a \<noteq> Clean" using life_act.IH life_act.prems by auto
  ultimately show ?case using act_gone [OF _ life_act.hyps(2) _ _ _ life_act.hyps(3)] by blast
qed auto

lemma gone_state:
  assumes O: "operating T E idle s" and t: "t \<in> T" "gone s t"
  shows "t \<noteq> pxCurrentTCB s" "eTaskGetState t s = eDeleted"
proof -
  have S: "sound T E idle s" using O by (simp add: operating_def)
  obtain G where K: "kcore T E s G" by (rule sound_kcore [OF S])
  show c: "t \<noteq> pxCurrentTCB s" by (rule gone_forget(4) [OF O t])
  show "eTaskGetState t s = eDeleted" using c t(2) parked_list(2) [OF K, of "xTasksWaitingTermination s"] suspended_list(4) [OF K]
    by (simp add: eTaskGetState_def gone_def Let_def)
qed

section \<open>The loop of the idle task\<close>

lemma check_loop:
  assumes "housed xStart base e idle T E R s"
  shows "\<exists>s'. prvCheckTasksWaitingTermination xStart s = Some s' \<and> housed xStart base e idle {t \<in> T. \<not> gone (kn s) t} E R s' \<and>
    uxDeletedTasksWaitingCleanUp s' = 0 \<and> pxStack s' = pxStack s \<and> (\<forall>t \<in> T. \<not> gone (kn s) t \<longrightarrow> \<not> gone (kn s') t)"
  using assms
proof (induction "card {t \<in> T. gone (kn s) t}" arbitrary: T s)
  case 0
  then have none: "{t \<in> T. gone (kn s) t} = {}" by simp
  then have "{t \<in> T. \<not> gone (kn s) t} = T" by auto
  moreover have "uxDeletedTasksWaitingCleanUp s = 0" using housedD(4) [OF 0(2)] none by simp
  ultimately show ?case using 0(2) by (subst prvCheckTasksWaitingTermination.simps) auto
next
  case (Suc n)
  note H = Suc.prems
  have "0 \<notin> T" using housedD(1) [OF H] by (simp add: operating_def sound_def)
  then have "0 \<notin> {t \<in> T. gone (kn s) t}" by simp
  moreover have "{t \<in> T. gone (kn s) t} \<noteq> {}" using Suc.hyps(2) by (metis card.empty nat.distinct(1))
  ultimately have w: "uxDeletedTasksWaitingCleanUp s > 0" using housedD(4) [OF H] count_positive by (simp add: word_gt_0)
  from housed_clean [OF H w] obtain t s1 where
    t: "t \<in> T" "gone (kn s) t" "clean_step xStart s = Some s1" "housed xStart base e idle (T - {t}) E R s1"
      "\<forall>u \<in> T - {t}. gone (kn s1) u = gone (kn s) u" "pxStack s1 = pxStack s" by blast
  have g: "{u \<in> T - {t}. gone (kn s1) u} = {u \<in> T. gone (kn s) u} - {t}" using t(5) by auto
  have "n = card {u \<in> T - {t}. gone (kn s1) u}" using Suc.hyps(2) t(1,2) unfolding g by simp
  from Suc.hyps(1) [OF this t(4)] obtain s' where
    s': "prvCheckTasksWaitingTermination xStart s1 = Some s'" "housed xStart base e idle {u \<in> T - {t}. \<not> gone (kn s1) u} E R s'"
      "uxDeletedTasksWaitingCleanUp s' = 0" "pxStack s' = pxStack s1" "\<forall>u \<in> T - {t}. \<not> gone (kn s1) u \<longrightarrow> \<not> gone (kn s') u" by blast
  have "{u \<in> T - {t}. \<not> gone (kn s1) u} = {u \<in> T. \<not> gone (kn s) u}" using t(2,5) by auto
  moreover have "prvCheckTasksWaitingTermination xStart s = Some s'"
    using t(3) s'(1) w by (subst prvCheckTasksWaitingTermination.simps) (simp add: clean_step_def case_prod_unfold Let_def)
  moreover have "\<forall>u \<in> T. \<not> gone (kn s) u \<longrightarrow> \<not> gone (kn s') u" using s'(5) t(2,5) by auto
  ultimately show ?case using s'(2-4) t(6) by auto
qed

lemma idle_pass_spec:
  assumes H: "housed xStart base e idle T E R s"
  shows "\<exists>s'. idle_pass xStart s = Some s' \<and> housed xStart base e idle {t \<in> T. \<not> gone (kn s) t} E R s' \<and>
    uxDeletedTasksWaitingCleanUp s' = 0 \<and> pxStack s' = pxStack s \<and> (\<forall>t \<in> T. \<not> gone (kn s) t \<longrightarrow> \<not> gone (kn s') t)"
proof -
  let ?U = "{t \<in> T. \<not> gone (kn s) t}"
  from check_loop [OF H] obtain s1 where
    s1: "prvCheckTasksWaitingTermination xStart s = Some s1" "housed xStart base e idle ?U E R s1" "uxDeletedTasksWaitingCleanUp s1 = 0"
      "pxStack s1 = pxStack s" "\<forall>t \<in> T. \<not> gone (kn s) t \<longrightarrow> \<not> gone (kn s1) t" by blast
  from perform_yield [OF housedD(1) [OF s1(2)]] obtain k where
    k: "vTaskSwitchContext (kn s1) = Some k" "operating ?U E idle k" "kept_tasks ?U (kn s1) k" by (auto simp: outcome_def)
  note D = housedD [OF s1(2)]
  have "housed xStart base e idle ?U E R (s1\<lparr>kn := k\<rparr>)"
    using k(2,3) D(2-5) kept_gone [OF k(3)] kept_addresses [OF tasks_addresses [OF k(3)]] by (simp add: housed_def kept_tasks_def)
  moreover have "\<forall>t \<in> T. \<not> gone (kn s) t \<longrightarrow> \<not> gone k t" using k(3) s1(5) by (auto simp: kept_tasks_def)
  ultimately show ?thesis using s1 k(1) by (auto simp: idle_pass_def)
qed

section \<open>From the start\<close>

lemma switch_count: "vTaskSwitchContext s = Some s' \<Longrightarrow> uxCurrentNumberOfTasks s' = uxCurrentNumberOfTasks s"
  by (auto simp: vTaskSwitchContext_def taskSELECT_HIGHEST_PRIORITY_TASK_def case_prod_unfold Let_def split: if_splits bind_splits)

lemma create_count:
  assumes "xTaskCreate p (Some t) s = Some (r, s')"
  shows "uxCurrentNumberOfTasks s' = uxCurrentNumberOfTasks s + 1"
proof -
  have i: "uxCurrentNumberOfTasks (prvInitialiseTaskLists u) = uxCurrentNumberOfTasks u" for u by (simp add: prvInitialiseTaskLists_fold)
  have a: "uxCurrentNumberOfTasks (prvAddTaskToReadyList t u) = uxCurrentNumberOfTasks u" for u
    by (simp add: prvAddTaskToReadyList_def taskRECORD_READY_PRIORITY_def Let_def)
  have n: "uxCurrentNumberOfTasks (prvInitialiseNewTask p t s) = uxCurrentNumberOfTasks s" by (simp add: initialise_new_fields)
  have "prvAddNewTaskToReadyList t (prvInitialiseNewTask p t s) = Some s'" using assms by (auto simp: xTaskCreate_def split: bind_splits)
  then show ?thesis unfolding prvAddNewTaskToReadyList_def Let_def by (auto simp: a i n dest: switch_count split: if_splits)
qed

lemma create_all_count: "create_tasks ts s = Some s' \<Longrightarrow> uxCurrentNumberOfTasks s' = uxCurrentNumberOfTasks s + of_nat (length ts)"
proof (induction ts arbitrary: s)
  case (Cons pt ts)
  obtain p t where pt: "pt = (p, t)" by (cases pt)
  obtain r s1 where "xTaskCreate p (Some t) s = Some (r, s1)" "create_tasks ts s1 = Some s'" using Cons.prems by (auto simp: pt split: bind_splits)
  then show ?case using Cons.IH create_count by simp
qed simp

text \<open>A kernel that was started with tasks in the blocks of the heap, and lists outside.\<close>

lemma start_housed:
  assumes f: "fresh k" and P: "places (insert idle (insert timer (snd ` set ts))) {} k" and d: "distinct (idle # timer # map snd ts)"
    and z: "0 \<notin> insert idle (insert timer (snd ` set ts))"
    and run: "create_tasks ts k = Some k1" "vTaskStartScheduler (Some idle) (Some timer) k1 = Some (True, k2)"
    and m: "memory xStart base e (insert idle (insert timer (snd ` set ts))) R s" "uxDeletedTasksWaitingCleanUp s = 0"
    and h: "\<forall>l \<in> kernel_lists {} k. homed base e R (xListEnd l)"
  shows "housed xStart base e idle (insert idle (insert timer (snd ` set ts))) {} R (s\<lparr>kn := k2\<rparr>)"
proof -
  let ?T = "insert idle (insert timer (snd ` set ts))"
  note O = start_operating [OF f P d z run]
  obtain a b where ab: "xTaskCreate 0 (Some idle) k1 = Some (True, a)" "xTaskCreate configTIMER_TASK_PRIORITY (Some timer) a = Some (True, b)"
    "k2 = b\<lparr>xNextTaskUnblockTime := portMAX_DELAY, xSchedulerRunning := True, xTickCount := 0\<rparr>"
    using run(2) by (auto simp: vTaskStartScheduler_def split: bind_splits if_splits)
  have "card ?T = length ts + 2" using d distinct_card [of "map snd ts"] by (simp add: image_image)
  moreover have "uxCurrentNumberOfTasks k2 = of_nat (length ts) + 2"
    using create_count [OF ab(1)] create_count [OF ab(2)] create_all_count [OF run(1)] f by (simp add: ab(3) fresh_def)
  ultimately have c: "uxCurrentNumberOfTasks k2 = of_nat (card ?T)" by simp
  have g: "{t \<in> ?T. gone k2 t} = {}" using O(3) by blast
  from start_spec [OF f P d] run have "same_places k k2" by auto
  then have "kernel_lists {} k2 = kernel_lists {} k" by (rule same_places_fields(5))
  moreover have "housed xStart base e idle U {} R (s\<lparr>kn := k2\<rparr>)"
    if "U = ?T" "kernel_lists {} k2 = kernel_lists {} k" for U
  proof -
    have none: "{t \<in> U. gone k2 t} = {}" using g that(1) by blast
    show ?thesis unfolding housed_def using O(1) m h c that(2) unfolding that(1) [symmetric] by (simp add: none)
  qed
  ultimately show ?thesis by blast
qed

section \<open>Properties\<close>

text \<open>C33: No task uses memory that is not its own. From a kernel in operation whose tasks lie in blocks of the heap, after any sequence of
  calls, ticks and interrupts, creations and deletions of tasks, rounds of the idle task and requests and returns of the
  application, whatever allowed action comes next succeeds, and then the blocks in use of the heap are exactly a control block and a stack for each
  task and the blocks of the application, all different: nothing leaks and nothing is freed twice or too early. The task that runs is one of them,
  ready and of the highest priority.\<close>

theorem task_memory_safe:
  assumes "housed xStart base e idle T E R s" "life xStart ucHeap base e idle T E R s as T1 E1 R1 s1" "allowed base e idle T1 E1 R1 a s1"
  shows "\<exists>s2 T2 R2 L. act xStart ucHeap a s1 = Some s2 \<and> T2 = tasks_after xStart ucHeap a s1 T1 \<and> R2 = blocks_after xStart ucHeap a s1 R1 \<and>
    heap_inv xStart base (hp s2) L \<and> fst ` live_regions L = unat ` (T2 \<union> pxStack s2 ` T2 \<union> fst ` R2) \<and>
    inj_on (pxStack s2) T2 \<and> T2 \<inter> pxStack s2 ` T2 = {} \<and> fst ` R2 \<inter> (T2 \<union> pxStack s2 ` T2) = {} \<and>
    pxCurrentTCB (kn s2) \<in> T2 \<and> status (kn s2) (pxCurrentTCB (kn s2)) = Ready \<and>
    (\<forall>u \<in> T2. status (kn s2) u = Ready \<longrightarrow> uxPriority (kn s2) u \<le> uxPriority (kn s2) (pxCurrentTCB (kn s2)))"
proof -
  from housed_act [OF life_housed [OF assms(2,1)] assms(3)] obtain s2 where
    s2: "act xStart ucHeap a s1 = Some s2"
      "housed xStart base e idle (tasks_after xStart ucHeap a s1 T1) (events_after a E1) (blocks_after xStart ucHeap a s1 R1) s2" by blast
  note D = housedD [OF s2(2)]
  show ?thesis using s2(1) D(2) operating_highest [OF D(1)] unfolding memory_def blocks_def by (metis (no_types, lifting))
qed

text \<open>C34: A pass of the idle task frees the memory of every task that has deleted itself, and of no other. However many wait, the loop ends with none
  left to clean up, and the invariant holds for the tasks that remain.\<close>

theorem idle_cleans_up:
  assumes "housed xStart base e idle T E R s"
  shows "\<exists>s'. idle_pass xStart s = Some s' \<and> uxDeletedTasksWaitingCleanUp s' = 0 \<and>
    housed xStart base e idle {t \<in> T. \<not> gone (kn s) t} E R s' \<and> (\<forall>t \<in> T. \<not> gone (kn s) t \<longrightarrow> \<not> gone (kn s') t)"
  using idle_pass_spec [OF assms] by blast

text \<open>C35: A task that deletes itself never runs again, keeps its memory as long as the kernel may still refer to it, and loses it when the idle task runs.
  The call chooses another task; through any run in which the idle task makes no round, even when tasks are created and
  deleted, the task is known as deleted and not chosen; and after the next pass of the idle task its control block and its stack
  are not in use any more.\<close>

theorem deleted_until_freed:
  assumes "housed xStart base e idle T E R s" "pxCurrentTCB (kn s) = t" "t \<noteq> idle" "ucNotifyState (kn s) t \<noteq> taskWAITING_NOTIFICATION"
  shows "\<exists>s1. vTaskDelete xStart 0 s = Some s1 \<and> pxCurrentTCB (kn s1) \<noteq> t \<and>
    (\<forall>as T2 E2 R2 s2. life xStart ucHeap base e idle T E R s1 as T2 E2 R2 s2 \<and> Clean \<notin> set as \<longrightarrow>
      pxCurrentTCB (kn s2) \<noteq> t \<and> eTaskGetState t (kn s2) = eDeleted \<and>
      (\<exists>s3 L. idle_pass xStart s2 = Some s3 \<and> heap_inv xStart base (hp s3) L \<and> unat t \<notin> fst ` live_regions L \<and>
        unat (pxStack s2 t) \<notin> fst ` live_regions L))"
proof -
  have h: "prvGetTCBFromHandle 0 (kn s) = t" "t = pxCurrentTCB (kn s)" using assms(2) by (simp_all add: prvGetTCBFromHandle_def)
  from housed_delete_self [OF assms(1) h(1) assms(3) h(2) assms(4)] obtain s1 where
    s1: "vTaskDelete xStart 0 s = Some s1" "housed xStart base e idle T E R s1" "gone (kn s1) t" "pxCurrentTCB (kn s1) \<noteq> t" by blast
  have tT: "t \<in> T" using housedD(1) [OF assms(1)] assms(2) by (auto simp: operating_def sound_def)
  have "pxCurrentTCB (kn s2) \<noteq> t \<and> eTaskGetState t (kn s2) = eDeleted \<and>
      (\<exists>s3 L. idle_pass xStart s2 = Some s3 \<and> heap_inv xStart base (hp s3) L \<and> unat t \<notin> fst ` live_regions L \<and>
        unat (pxStack s2 t) \<notin> fst ` live_regions L)"
    if r: "life xStart ucHeap base e idle T E R s1 as T2 E2 R2 s2" "Clean \<notin> set as" for as T2 E2 R2 s2
  proof -
    have H: "housed xStart base e idle T2 E2 R2 s2" by (rule life_housed [OF r(1) s1(2)])
    have g: "t \<in> T2" "gone (kn s2) t" using life_gone [OF r(1) s1(2) tT s1(3) r(2)] by simp_all
    note m = housedD(2) [OF H, unfolded memory_def]
    let ?U = "{t \<in> T2. \<not> gone (kn s2) t}"
    from idle_pass_spec [OF H] obtain s3 where
      s3: "idle_pass xStart s2 = Some s3" "housed xStart base e idle ?U E2 R2 s3" "pxStack s3 = pxStack s2" by blast
    from housedD(2) [OF s3(2), unfolded memory_def] obtain L where
      L: "heap_inv xStart base (hp s3) L" "fst ` live_regions L = unat ` (blocks ?U s3 \<union> fst ` R2)" by metis
    have d: "inj_on (pxStack s2) T2" "T2 \<inter> pxStack s2 ` T2 = {}" "fst ` R2 \<inter> (T2 \<union> pxStack s2 ` T2) = {}"
      using m by (simp_all add: blocks_def)
    have "t \<notin> ?U \<union> pxStack s2 ` ?U \<union> fst ` R2" using g d(2,3) by blast
    moreover have "pxStack s2 t \<notin> pxStack s2 ` ?U" using inj_onD [OF d(1), of t] g by blast
    then have "pxStack s2 t \<notin> ?U \<union> pxStack s2 ` ?U \<union> fst ` R2" using g(1) d(2,3) by blast
    ultimately have "unat t \<notin> fst ` live_regions L" "unat (pxStack s2 t) \<notin> fst ` live_regions L"
      unfolding L(2) blocks_def s3(3) by (simp_all only: inj_image_mem_iff [OF ha.inj_unat] not_False_eq_True)
    then show ?thesis using gone_state [OF housedD(1) [OF H] g] s3(1) L(1) by blast
  qed
  then show ?thesis using s1(1,4) by blast
qed

text \<open>A kernel with its two own tasks in the first blocks of a heap.\<close>

lemma live_regions_filter: "live_regions L = (\<lambda>(a, n, u). (unat a + 8, unat n - 8)) ` set (filter (\<lambda>(a, n, u). u) L)"
  unfolding live_regions_def by (auto simp: image_iff) blast+

lemma demo_memory:
  "\<exists>h. memory 16 4096 4198392 {4912, 5816} {}
    \<lparr>kn = demo_kernel, pxStack = (\<lambda>_. 0)(4912 := 4104, 5816 := 5008), uxDeletedTasksWaitingCleanUp = 0, hp = h\<rparr>"
proof -
  let ?L1 = "[(4096, 808, True), (4904, 4193488, False)] :: layout"
  let ?L2 = "[(4096, 808, True), (4904, 96, True), (5000, 4193392, False)] :: layout"
  let ?L3 = "[(4096, 808, True), (4904, 96, True), (5000, 808, True), (5808, 4192584, False)] :: layout"
  let ?L4 = "[(4096, 808, True), (4904, 96, True), (5000, 808, True), (5808, 96, True), (5904, 4192488, False)] :: layout"
  have a: "alloc_request 800 [(4096, 4194296, False)] = Some (4096, ?L1)" "alloc_request 88 ?L1 = Some (4904, ?L2)"
    "alloc_request 800 ?L2 = Some (5000, ?L3)" "alloc_request 88 ?L3 = Some (5808, ?L4)"
    by (simp_all add: alloc_request_def adjust_size_def carve_def Let_def)
  obtain h1 where h1: "heap_inv 16 4096 h1 ?L1" using pvPortMalloc_alloc [OF demo_heap_inv, of 4096 800] a(1) by auto
  obtain h2 where h2: "heap_inv 16 4096 h2 ?L2" using pvPortMalloc_alloc [OF h1, of 4096 88] a(2) by auto
  obtain h3 where h3: "heap_inv 16 4096 h3 ?L3" using pvPortMalloc_alloc [OF h2, of 4096 800] a(3) by auto
  obtain h4 where h4: "heap_inv 16 4096 h4 ?L4" using pvPortMalloc_alloc [OF h3, of 4096 88] a(4) by auto
  have e: "pxEnd h4 = 4198392" using h4 by (simp add: heap_inv_def)
  have l: "live_regions ?L4 = {(4104, 800), (4912, 88), (5008, 800), (5816, 88)}" by (simp add: live_regions_filter)
  show ?thesis
    unfolding memory_def by (intro exI [of _ h4] conjI exI [of _ ?L4]) (use h4 e in \<open>auto simp: l blocks_def inj_on_def\<close>)
qed

lemma demo_housed:
  "\<exists>s. housed 16 4096 4198392 4912 {4912, 5816} {} {} s \<and> pxCurrentTCB (kn s) = 5816 \<and> ucNotifyState (kn s) 5816 = taskNOT_WAITING_NOTIFICATION"
proof -
  have "{0..<8::nat} = {0, 1, 2, 3, 4, 5, 6, 7}" by auto
  then have r: "ready_lists demo_kernel = {1000, 1020, 1040, 1060, 1080, 1100, 1120, 1140}"
    unfolding ready_lists_image by (simp add: ready_list_def demo_kernel_def)
  have l: "kernel_lists {} demo_kernel = {1000, 1020, 1040, 1060, 1080, 1100, 1120, 1140, 1200, 1220, 1260, 1280, 1240}"
    by (simp add: kernel_lists_def state_lists_def event_lists_def r) (simp add: demo_kernel_def insert_commute)
  have i: "items {4912, 5816} = {4916, 5820, 4936, 5840}"
    by (simp add: items_def xStateListItem_def xEventListItem_def insert_commute)
  have y: "layout {4912, 5816} {} demo_kernel"
    unfolding layout_def state_lists_def event_lists_def r by (simp add: demo_kernel_def xStateListItem_def xEventListItem_def)
  have P: "places {4912, 5816} {} demo_kernel" by (simp add: places_def l i y xListEnd_def)
  have h: "\<forall>j \<in> kernel_lists {} demo_kernel. homed 4096 4198392 {} (xListEnd j)" by (simp add: l homed_def xListEnd_def)
  have T: "insert 4912 (insert 5816 (snd ` set ([] :: (u32 \<times> u32) list))) = {4912, 5816}" by simp
  have d: "distinct (4912 # 5816 # map snd ([] :: (u32 \<times> u32) list))" "0 \<notin> {4912, 5816 :: u32}" by simp_all
  from start_spec [where s = demo_kernel and ts = "[]" and idle = 4912 and timer = 5816, unfolded T, OF demo_places(1) P d(1)]
  obtain k where k: "create_tasks [] demo_kernel = Some demo_kernel" "vTaskStartScheduler (Some 4912) (Some 5816) demo_kernel = Some (True, k)" by auto
  obtain g where g: "memory 16 4096 4198392 {4912, 5816} {}
    \<lparr>kn = demo_kernel, pxStack = (\<lambda>_. 0)(4912 := 4104, 5816 := 5008), uxDeletedTasksWaitingCleanUp = 0, hp = g\<rparr>" using demo_memory by blast
  let ?s = "\<lparr>kn = demo_kernel, pxStack = (\<lambda>_. 0)(4912 := 4104, 5816 := 5008), uxDeletedTasksWaitingCleanUp = 0, hp = g\<rparr> :: task_system"
  have H: "housed 16 4096 4198392 4912 {4912, 5816} {} {} (?s\<lparr>kn := k\<rparr>)"
    using start_housed [where k = demo_kernel and ts = "[]" and idle = 4912 and timer = 5816 and s = ?s, unfolded T, OF demo_places(1) P d k g _ h]
    by simp
  have O: "operating {4912, 5816} {} 4912 k" "own_priorities {4912, 5816} k"
    using start_operating [where s = demo_kernel and ts = "[]" and idle = 4912 and timer = 5816, unfolded T, OF demo_places(1) P d k] by blast+
  obtain a b where ab: "xTaskCreate 0 (Some 4912) demo_kernel = Some (True, a)" "xTaskCreate configTIMER_TASK_PRIORITY (Some 5816) a = Some (True, b)"
    "k = b\<lparr>xNextTaskUnblockTime := portMAX_DELAY, xSchedulerRunning := True, xTickCount := 0\<rparr>"
    using k(2) by (auto simp: vTaskStartScheduler_def split: bind_splits if_splits)
  have n: "own_priorities {} u" for u by (simp add: own_priorities_def)
  have p: "uxPriority k 5816 = 7" "uxPriority k 4912 = 0" using create_members(2) [OF ab(1) n] create_members(2) [OF ab(2) n] by (simp_all add: ab(3))
  from start_spec [where s = demo_kernel and ts = "[]" and idle = 4912 and timer = 5816, unfolded T, OF demo_places(1) P d(1)] k
  have "task_ready k 5816" by auto
  then have "uxPriority k 5816 \<le> uxPriority k (pxCurrentTCB k)" using operating_highest(3) [OF O(1), of 5816] by (simp add: status_def)
  then have "pxCurrentTCB k = 5816" using operating_highest(1) [OF O(1)] p by auto
  moreover have "ucNotifyState k 5816 = taskNOT_WAITING_NOTIFICATION" using O(2) by (simp add: own_priorities_def)
  ultimately show ?thesis using H by (intro exI [of _ "?s\<lparr>kn := k\<rparr>"]) simp
qed

theorem task_memory_safe_witness:
  "\<exists>s s2 T2 L. housed 16 4096 4198392 4912 {4912, 5816} {} {} s \<and> act 16 4096 (Create 3 200) s = Some s2 \<and>
    heap_inv 16 4096 (hp s2) L \<and> fst ` live_regions L = unat ` (T2 \<union> pxStack s2 ` T2)"
proof -
  obtain s where s: "housed 16 4096 4198392 4912 {4912, 5816} {} {} s" "pxCurrentTCB (kn s) = 5816"
    "ucNotifyState (kn s) 5816 = taskNOT_WAITING_NOTIFICATION" using demo_housed by blast
  have "allowed 4096 4198392 4912 {4912, 5816} {} {} (Create 3 200) s" using s(2,3) by simp
  from task_memory_safe [OF s(1) life_none this, of 4096] s(1) show ?thesis by (auto simp del: act.simps tasks_after.simps)
qed

theorem idle_cleans_up_witness:
  "\<exists>s s1 s'. housed 16 4096 4198392 4912 {4912, 5816} {} {} s \<and> vTaskDelete 16 5816 s = Some s1 \<and> idle_pass 16 s1 = Some s' \<and>
    housed 16 4096 4198392 4912 {4912} {} {} s'"
proof -
  obtain s where s: "housed 16 4096 4198392 4912 {4912, 5816} {} {} s" "pxCurrentTCB (kn s) = 5816"
    "ucNotifyState (kn s) 5816 = taskNOT_WAITING_NOTIFICATION" using demo_housed by blast
  have h: "prvGetTCBFromHandle 5816 (kn s) = 5816" "5816 \<noteq> (4912 :: u32)" "5816 = pxCurrentTCB (kn s)" using s(2) by (simp_all add: prvGetTCBFromHandle_def)
  have "ucNotifyState (kn s) 5816 \<noteq> taskWAITING_NOTIFICATION" using s(3) by simp
  from housed_delete_self [OF s(1) h this] obtain s1 where
    s1: "vTaskDelete 16 5816 s = Some s1" "housed 16 4096 4198392 4912 {4912, 5816} {} {} s1" "gone (kn s1) 5816" by blast
  have "task_ready (kn s1) 4912" "\<exists>G. waiting {4912, 5816} {} (kn s1) G" using housedD(1) [OF s1(2)] by (simp_all add: operating_def sound_def)
  then have "\<not> gone (kn s1) 4912" using ready_present [OF waitingD(2)] by blast
  then have "{t \<in> {4912, 5816}. \<not> gone (kn s1) t} = {4912}" using s1(3) by auto
  with idle_cleans_up [OF s1(2)] show ?thesis using s(1) s1(1) by auto
qed

theorem deleted_until_freed_witness:
  "\<exists>s s1 s3 L. housed 16 4096 4198392 4912 {4912, 5816} {} {} s \<and> vTaskDelete 16 0 s = Some s1 \<and> eTaskGetState 5816 (kn s1) = eDeleted \<and>
    idle_pass 16 s1 = Some s3 \<and> heap_inv 16 4096 (hp s3) L \<and> 5816 \<notin> fst ` live_regions L"
proof -
  obtain s where s: "housed 16 4096 4198392 4912 {4912, 5816} {} {} s" "pxCurrentTCB (kn s) = 5816"
    "ucNotifyState (kn s) 5816 = taskNOT_WAITING_NOTIFICATION" using demo_housed by blast
  have "5816 \<noteq> (4912 :: u32)" "ucNotifyState (kn s) 5816 \<noteq> taskWAITING_NOTIFICATION" using s(3) by simp_all
  from deleted_until_freed [OF s(1,2) this, of 4096] obtain s1 where
    s1: "vTaskDelete 16 0 s = Some s1" "\<forall>as T2 E2 R2 s2. life 16 4096 4096 4198392 4912 {4912, 5816} {} {} s1 as T2 E2 R2 s2 \<and> Clean \<notin> set as \<longrightarrow>
      pxCurrentTCB (kn s2) \<noteq> 5816 \<and> eTaskGetState 5816 (kn s2) = eDeleted \<and>
      (\<exists>s3 L. idle_pass 16 s2 = Some s3 \<and> heap_inv 16 4096 (hp s3) L \<and> unat (5816 :: u32) \<notin> fst ` live_regions L \<and>
        unat (pxStack s2 5816) \<notin> fst ` live_regions L)" by blast
  have "life 16 4096 4096 4198392 4912 {4912, 5816} {} {} s1 [] {4912, 5816} {} {} s1" by (rule life_none)
  with s1(2) have "eTaskGetState 5816 (kn s1) = eDeleted \<and>
      (\<exists>s3 L. idle_pass 16 s1 = Some s3 \<and> heap_inv 16 4096 (hp s3) L \<and> unat (5816 :: u32) \<notin> fst ` live_regions L)" by fastforce
  then show ?thesis using s(1) s1(1) by auto
qed

end
