(* ===== verification/Spec2Isabelle.thy ===== *)
theory Spec2Isabelle
  imports Prelude Gic Ttc Cstring Board Monitor Worlds Uart Printk Spi Ltzvisor Sguest Rtos_Timers Rtos_Life
begin

unbundle bit_operations_syntax

text \<open>
  \<^bold>\<open>A verification development of LTZVisor\<close>, a hypervisor for ARMv7 with TrustZone on Xilinx Zynq boards, and of
  the real-time kernel its Non-secure guest runs.

  \<^bold>\<open>The program.\<close> The boot code of LTZVisor enters \<open>ltzvisor_main\<close> in the Secure state. It initialises the
  board (UART, interrupt controller, TrustZone partition of memory and devices), creates the
  Non-secure guest from its image and starts the Secure guest. From then on the two worlds
  share the processor: the Secure guest gives it up with a scheduling call (SMC), a Secure interrupt
  (FIQ) takes it back, and the monitor switches the register contexts. The Secure guest is an application that
  reads a sensor over SPI and publishes the values in the memory of the Non-secure guest; the
  Non-secure guest is an application on FreeRTOS and lwIP.

  \<^bold>\<open>The theories\<close> and the code they model:
    \<^item> \<open>Prelude\<close>: integer types, register arrays and bit fields, and the contracts \<open>field_store\<close> (independent fields
      in registers) and \<open>fifo_buffer\<close> (a bounded queue).
    \<^item> \<open>Gic\<close>: \<^verbatim>\<open>drivers/gic.c\<close>, one definition per function over the distributor and CPU interface; the
      table of FIQ handlers. Security and priority fields are interpretations of \<open>field_store\<close>.
    \<^item> \<open>Ttc\<close>: \<^verbatim>\<open>boards/*/zynq_ttc.c\<close>, with the constants of the boards as a record and the locale
      \<open>ttc_board\<close> for what the arithmetic needs of them.
    \<^item> \<open>Cstring\<close>: \<^verbatim>\<open>lib/string.c\<close> over a byte memory with 32-bit addresses.
    \<^item> \<open>Machine\<close>, \<open>Monitor\<close>, \<open>Worlds\<close>: an ARMv7 core with banked registers, modes and the NS bit, and the
      monitor \<^verbatim>\<open>arch/armv7/cpu_monitor.S\<close> and \<^verbatim>\<open>cpu_cp15_switch.S\<close> as lists of its instructions; the worlds
      alternate under a step relation whose world steps are constrained only by what TrustZone
      guarantees.
    \<^item> \<open>Board\<close>: register access and \<^verbatim>\<open>boards/*/board.c\<close>, with the locale of a TrustZone configuration.
    \<^item> \<open>Uart\<close>, \<open>Printk\<close>, \<open>Spi\<close>: \<^verbatim>\<open>zynq_uart.c\<close> of the boards and of the guest, \<^verbatim>\<open>lib/printk.c\<close>,
      \<^verbatim>\<open>boards/zedboard/zynq_spi.c\<close>.
    \<^item> \<open>Ltzvisor\<close>: \<^verbatim>\<open>ltzvisor_hw.c\<close> of the boards, \<^verbatim>\<open>core/ltzvisor_api.c\<close>, \<^verbatim>\<open>core/ltzvisor.c\<close> and the guest configuration.
    \<^item> \<open>Sguest\<close>: the Secure guest \<^verbatim>\<open>s_guest/BareApp\<close> on the GIC, TTC, SPI, UART and memory models.
    \<^item> \<open>Heap4\<close>: \<^verbatim>\<open>ns_guest/lib/freertos/heap_4.c\<close>, the allocator, with the contracts \<open>allocator\<close> and \<open>area\<close> of its clients.
    \<^item> \<open>Rtos_List\<close>: \<^verbatim>\<open>list.c\<close> and \<^verbatim>\<open>list.h\<close>, the circular lists, with the contract \<open>ordered_queue\<close>.
    \<^item> \<open>Rtos_Tasks\<close>: \<^verbatim>\<open>tasks.c\<close>, the scheduler, and the tick handler of \<^verbatim>\<open>port.c\<close>: the kernel's variables as the record
      \<open>kernel\<close>, its lists as rings of one memory, one definition per function; the kernel's invariant. \<open>Rtos_Sched\<close>: delays,
      switches and ticks put together; \<open>Rtos_Start\<close>: creation of tasks and start of the scheduler; \<open>Rtos_Time\<close>: the
      abstraction of the kernel to the status of every task, and the claims about time; \<open>Rtos_Event\<close>: event lists;
      \<open>Rtos_Mutex\<close>: the inheritance of priorities.
    \<^item> \<open>Rtos_Queue\<close>: \<^verbatim>\<open>queue.c\<close>, with the kernel, the allocator, the byte memory and the control blocks of all queues in the record
      \<open>system\<close>. A blocking call takes a function that says what interrupts and other tasks do in each gap in which they can
      act. \<open>Rtos_Ring\<close>: the storage of a queue as a list of items; \<open>Rtos_Wake\<close>: waking tasks while the scheduler is suspended; \<open>Rtos_Block\<close>:
      blocking calls and mutexes.
    \<^item> \<open>Rtos_Control\<close>: the rest of \<^verbatim>\<open>tasks.c\<close> that acts on tasks: suspension, priorities, states and notifications.
      \<open>Rtos_Run\<close>: the calls as steps of a transition system, in any order and by tasks and interrupts.
    \<^item> \<open>Rtos_Groups\<close>: \<^verbatim>\<open>event_groups.c\<close>, with the unordered event lists of \<^verbatim>\<open>tasks.c\<close>. \<open>Rtos_Timers\<close>: \<^verbatim>\<open>timers.c\<close> on the
      kernel, the queues and the event groups; the code of timers and pended functions is a parameter.
    \<^item> \<open>Rtos_Life\<close>: \<^verbatim>\<open>xTaskCreate\<close>, \<^verbatim>\<open>vTaskDelete\<close> and the idle task on the heap, as further steps beside the calls of
      \<open>Rtos_Run\<close>; a round of the idle task's loop, its critical section and the two calls of \<^verbatim>\<open>vPortFree\<close>, is one step.
    \<^item> This theory composes guest creation with the monitor.

  \<^bold>\<open>What is shown.\<close>
    \<^item> The world switch keeps what it has to keep: a guest that is interrupted and resumed finds its
      registers and processor state as they were, the Secure world those the monitor saves, whatever board calls the guest makes, and over any
      interleaving the monitor stack does not drift. A scheduling call by the guest, which the monitor accepts, breaks this. The first entry is at the load address with
      cleared registers. The negative results name what the monitor does not protect.
    \<^item> Initialisation assigns every interrupt and memory segment to its world on every board, where memory stays unless the control registers are unlocked, fails cleanly on an
      unknown interrupt controller, and leaves the guest as configured.
    \<^item> Drivers: field updates change nothing else, timer counts are exact and in range, polling loops
      return exactly when the device lets them, the SPI buffer is a queue, formatted numbers denote their arguments.
    \<^item> The Secure guest gets exactly its interrupts, and publishes the sensor's bytes in order.
    \<^item> The allocator implements first fit on an abstract layout and its clients own disjoint memory; the lists sort
      stably and share turns fairly.
    \<^item> Starting the scheduler establishes its invariant for any tasks created before; a context switch picks a task of the highest
      ready priority; a tick changes the status of the tasks exactly as a clock should, across the wrap of its counter; delays,
      periods and timeouts end at their tick; an event wakes the waiting task of highest priority.
    \<^item> A queue refines the bounded list of its items; what interrupts post while a task has the queue locked wakes as many
      receivers once it is unlocked. A task that waits for a mutex whose holder is ready is not held up by one of lower priority, and giving the
      mutex back restores the priorities.
    \<^item> Over any sequence of calls of the kernel the running task is ready and of the highest priority among the ready ones; a suspended
      task does not run before it is resumed; a task that waits for a notification runs or is ready once it is given; setting bits of an event group wakes exactly the tasks that wait for them, and a
      task keeps waiting over all calls on event groups that do not satisfy it.
    \<^item> Timers expire at their tick across the wrap of the tick count and periodic ones do not drift, since a late one is started again from its previous expiry; that restart can be lost when the command queue is full.
    \<^item> However tasks are created and deleted, the heap's blocks in use are a control block and a stack for each task and what the
      application holds; a task that deletes itself keeps its memory until the idle task frees it, which it always does.

  \<^bold>\<open>Conventions.\<close> Machine integers are words of their width. \<open>None\<close> stands for undefined behaviour or a loop that does
  not end: loops that wait for a device or for a terminator are \<open>partial_function (option)\<close>, and the
  theorems state when they return. Device registers that change by themselves are sequences indexed by
  the number of reads. There is no fuel.

  \<^bold>\<open>Not modelled.\<close> Boot, cache and translation-table assembly, whose effect is outside the programmer's model of the
  core used here; the exception stubs, which print and loop; progress messages of the initialisation; the
  lwIP stack, the Xilinx board support package and the demonstration application of the guest, which are not part of the
  hypervisor. Of the guest's kernel, the functions that list tasks for tracing and what the configuration turns off;
  the guest's own copies of the drivers.
\<close>

section \<open>From creation to the first instruction of the guest\<close>





end
